(* ===== verification/Prelude.thy ===== *)
theory Prelude
  imports Main "HOL-Library.Word" "HOL-Library.Multiset" "HOL-Library.Product_Lexorder"
begin

unbundle bit_operations_syntax

text \<open>
  Shared vocabulary of the development: Rust's integer types, the lemma collections, and the
  generic facts on lists, maps and words that several components use.

  Conventions. Coordinates and raw bytes are words (\<open>+\<close> wraps, as in a release build, where
  \<open>overflow-checks\<close> is off). Game times, scheduling orders and counters of type \<open>i64\<close> or
  \<open>i32\<close> are \<open>int\<close> values, and every wrapping operation of the source is written out with
  \<open>wrap_i64\<close> or \<open>wrap_i32\<close>. A panic of the source is the left value of a sum.
\<close>

section \<open>Lemma collections\<close>

named_theorems inv_intros \<open>operations keep the invariant of their component\<close>
named_theorems op_simps \<open>characteristic equations of the operations\<close>

section \<open>Machine integers\<close>

type_synonym u8 = "8 word"
type_synonym u16 = "16 word"
type_synonym u32 = "32 word"
type_synonym u64 = "64 word"
type_synonym i32w = "32 word"
type_synonym i64w = "64 word"

definition wrap_i32 :: "int \<Rightarrow> int" where
  "wrap_i32 x = signed_take_bit 31 x"

definition wrap_i64 :: "int \<Rightarrow> int" where
  "wrap_i64 x = signed_take_bit 63 x"

definition wrap_u64 :: "nat \<Rightarrow> nat" where
  "wrap_u64 n = n mod 2 ^ 64"

definition in_i32 :: "int \<Rightarrow> bool" where
  "in_i32 x \<longleftrightarrow> - (2 ^ 31) \<le> x \<and> x < 2 ^ 31"

definition in_i64 :: "int \<Rightarrow> bool" where
  "in_i64 x \<longleftrightarrow> - (2 ^ 63) \<le> x \<and> x < 2 ^ 63"

lemma wrap_i32_id [simp]: "in_i32 x \<Longrightarrow> wrap_i32 x = x"
  unfolding wrap_i32_def in_i32_def by (rule signed_take_bit_int_eq_self) auto

lemma wrap_i64_id [simp]: "in_i64 x \<Longrightarrow> wrap_i64 x = x"
  unfolding wrap_i64_def in_i64_def by (rule signed_take_bit_int_eq_self) auto

lemma in_i32_wrap [simp]: "in_i32 (wrap_i32 x)"
  unfolding wrap_i32_def in_i32_def
  using signed_take_bit_int_greater_eq_minus_exp [of 31 x] signed_take_bit_int_less_exp [of 31 x]
  by simp

lemma in_i64_wrap [simp]: "in_i64 (wrap_i64 x)"
  unfolding wrap_i64_def in_i64_def
  using signed_take_bit_int_greater_eq_minus_exp [of 63 x] signed_take_bit_int_less_exp [of 63 x]
  by simp

lemma in_i32_in_i64: "in_i32 x \<Longrightarrow> in_i64 x"
  by (simp add: in_i32_def in_i64_def)

text \<open>
  Adding a delay and subtracting it again is the identity on \<open>i32\<close> values, whatever wraps in
  between: the narrowing cast only looks at the low bits.
\<close>

lemma signed_take_bit_mod_cong:
  "a mod 2 ^ Suc n = (b :: int) mod 2 ^ Suc n \<Longrightarrow> signed_take_bit n a = signed_take_bit n b"
  by (simp add: signed_take_bit_eq_iff_take_bit_eq take_bit_eq_mod)

lemma wrap_i64_mod: "wrap_i64 x mod 2 ^ 64 = x mod 2 ^ 64"
proof -
  have "take_bit 64 (signed_take_bit 63 x) = take_bit 64 x"
    by (simp add: take_bit_signed_take_bit)
  then show ?thesis
    by (simp add: wrap_i64_def take_bit_eq_mod)
qed

lemma wrap_i32_wrap_i64 [simp]: "wrap_i32 (wrap_i64 x) = wrap_i32 x"
  unfolding wrap_i32_def wrap_i64_def
  by (rule signed_take_bit_eq_iff_take_bit_eq [THEN iffD2]) (simp add: take_bit_signed_take_bit)

lemma wrap_i64_add_left: "wrap_i64 (wrap_i64 x + y) = wrap_i64 (x + y)"
proof -
  have "(wrap_i64 x + y) mod 2 ^ 64 = (x + y) mod 2 ^ 64"
    by (metis wrap_i64_mod mod_add_left_eq)
  then show ?thesis
    unfolding wrap_i64_def by (intro signed_take_bit_mod_cong) simp
qed

lemma wrap_i64_diff_left: "wrap_i64 (wrap_i64 x - y) = wrap_i64 (x - y)"
  using wrap_i64_add_left [of x "- y"] by simp

lemma anchored_delay [simp]:
  assumes "in_i32 d"
  shows "wrap_i32 (wrap_i64 (t + d) - t) = d"
proof -
  have "wrap_i32 (wrap_i64 (t + d) - t) = wrap_i32 (wrap_i64 (wrap_i64 (t + d) - t))"
    by simp
  also have "\<dots> = wrap_i32 d"
    by (simp add: wrap_i64_diff_left)
  finally show ?thesis using assms by simp
qed

section \<open>Results\<close>

text \<open>Sequencing of results: the source's \<open>?\<close> operator, and a panic that ends the operation.\<close>

fun bind_result :: "'e + 'a \<Rightarrow> ('a \<Rightarrow> 'e + 'b) \<Rightarrow> 'e + 'b" where
  "bind_result (Inl e) f = Inl e"
| "bind_result (Inr x) f = f x"

lemma bind_result_Inr_iff:
  "bind_result r f = Inr y \<longleftrightarrow> (\<exists>x. r = Inr x \<and> f x = Inr y)"
  by (cases r) auto

lemma bind_result_cong [fundef_cong]:
  "r = r' \<Longrightarrow> (\<And>x. r' = Inr x \<Longrightarrow> f x = g x) \<Longrightarrow> bind_result r f = bind_result r' g"
  by (cases r') auto

section \<open>Lists and maps\<close>

lemma in_set_remove1_distinct:
  "distinct xs \<Longrightarrow> y \<in> set (remove1 x xs) \<longleftrightarrow> y \<in> set xs \<and> y \<noteq> x"
  by simp

lemma sorted_wrt_insert_iff:
  "sorted_wrt R (x # xs) \<longleftrightarrow> (\<forall>y \<in> set xs. R x y) \<and> sorted_wrt R xs"
  by simp

lemma pair_le_fst: "(a, b) \<le> (c, d) \<Longrightarrow> a \<le> (c :: 'a :: linorder)"
  by (auto simp: less_eq_prod_def)

lemma map_upd_option_dom [simp]:
  "dom (\<lambda>k. map_option f (m k)) = dom m"
  by (auto simp: dom_def)

section \<open>Words\<close>

lemma unat_bit_ge: "bit (v :: 'a::len word) i \<Longrightarrow> 2 ^ i \<le> unat v"
proof (rule ccontr)
  assume "bit v i" "\<not> 2 ^ i \<le> unat v"
  moreover have "bit v i \<longleftrightarrow> bit (unat v) i" by (simp add: bit_unsigned_iff bit_imp_le_length)
  ultimately show False by (simp add: bit_iff_odd)
qed

lemma unat_bits_less:
  assumes "\<forall>i. n \<le> i \<longrightarrow> \<not> bit (v :: 'a::len word) i"
  shows "unat v < 2 ^ n"
proof -
  have "take_bit n (unat v) = unat v"
    by (rule bit_eqI) (use assms in \<open>auto simp: bit_simps not_less bit_unsigned_iff; metis not_le\<close>)
  then show ?thesis by (simp add: take_bit_nat_eq_self_iff)
qed

section \<open>Vectors\<close>

text \<open>\<open>Vec::swap_remove\<close>: the last element takes the place of the removed one.\<close>

definition swap_remove :: "nat \<Rightarrow> 'a list \<Rightarrow> 'a list" where
  "swap_remove i xs = butlast (xs[i := last xs])"

fun position :: "('a \<Rightarrow> bool) \<Rightarrow> 'a list \<Rightarrow> nat option" where
  "position P [] = None"
| "position P (x # xs) = (if P x then Some 0 else map_option Suc (position P xs))"

lemma swap_remove_mset: "i < length xs \<Longrightarrow> mset (xs ! i # swap_remove i xs) = mset xs"
proof (cases xs rule: rev_cases)
  case (snoc ys l)
  assume "i < length xs"
  then consider "i = length ys" | "i < length ys" using snoc by fastforce
  then show ?thesis
    by cases (simp_all add: swap_remove_def snoc list_update_append nth_append mset_update)
qed simp

lemma swap_remove_map: "i < length xs \<Longrightarrow> map f (swap_remove i xs) = swap_remove i (map f xs)"
  by (cases "xs = []") (auto simp: swap_remove_def map_butlast map_update last_map)

lemma position_Some:
  "position P xs = Some i \<Longrightarrow> i < length xs \<and> P (xs ! i) \<and> (\<forall>j < i. \<not> P (xs ! j))"
proof (induction xs arbitrary: i)
  case (Cons x xs)
  then show ?case by (auto split: if_splits simp: less_Suc_eq_0_disj)
qed simp

lemma position_None: "position P xs = None \<longleftrightarrow> (\<forall>x \<in> set xs. \<not> P x)"
  by (induction xs) auto

lemma swap_remove_distinct:
  assumes "distinct xs" "i < length xs"
  shows "distinct (swap_remove i xs)" "set (swap_remove i xs) = set xs - {xs ! i}"
proof -
  have d: "distinct (xs ! i # swap_remove i xs)"
    using swap_remove_mset [OF assms(2)] assms(1) mset_eq_imp_distinct_iff by blast
  then show "distinct (swap_remove i xs)" by simp
  have "insert (xs ! i) (set (swap_remove i xs)) = set xs"
    using mset_eq_setD [OF swap_remove_mset [OF assms(2)]] by simp
  then show "set (swap_remove i xs) = set xs - {xs ! i}" using d by auto
qed

end
