(* ===== verification/Positions.thy ===== *)
theory Positions
  imports Prelude
begin

text \<open>
  Block, chunk and section positions (\<open>foton-utils/src/types/position.rs\<close>), the six directions
  (\<open>foton-utils/src/direction.rs\<close>) and the packed layouts
  (\<open>foton-utils/src/types/packed_position.rs\<close>). Coordinates are \<open>i32\<close> words.
\<close>

section \<open>Directions\<close>

datatype axis = AxisX | AxisY | AxisZ

datatype direction = Down | Up | North | South | West | East

fun get_axis :: "direction \<Rightarrow> axis" where
  "get_axis Down = AxisY"
| "get_axis Up = AxisY"
| "get_axis North = AxisZ"
| "get_axis South = AxisZ"
| "get_axis West = AxisX"
| "get_axis East = AxisX"

fun opposite :: "direction \<Rightarrow> direction" where
  "opposite Down = Up"
| "opposite Up = Down"
| "opposite North = South"
| "opposite South = North"
| "opposite West = East"
| "opposite East = West"

fun dir_offset :: "direction \<Rightarrow> i32w \<times> i32w \<times> i32w" where
  "dir_offset Down = (0, -1, 0)"
| "dir_offset Up = (0, 1, 0)"
| "dir_offset North = (0, 0, -1)"
| "dir_offset South = (0, 0, 1)"
| "dir_offset West = (-1, 0, 0)"
| "dir_offset East = (1, 0, 0)"

definition all_directions :: "direction list" where
  "all_directions = [Down, Up, North, South, West, East]"

fun get_3d_data_value :: "direction \<Rightarrow> int" where
  "get_3d_data_value Down = 0"
| "get_3d_data_value Up = 1"
| "get_3d_data_value North = 2"
| "get_3d_data_value South = 3"
| "get_3d_data_value West = 4"
| "get_3d_data_value East = 5"

text \<open>Rust's \<open>%\<close> truncates toward zero; only the absolute value of the remainder is used.\<close>

definition from_3d_data_value :: "int \<Rightarrow> direction" where
  "from_3d_data_value data =
     (let rem = sgn data * (\<bar>data\<bar> mod 6);
          idx = (if rem < 0 then nat (- rem) else nat rem)
      in all_directions ! idx)"

lemma opposite_opposite [simp]: "opposite (opposite d) = d"
  by (cases d) simp_all

lemma get_axis_opposite [simp]: "get_axis (opposite d) = get_axis d"
  by (cases d) simp_all

lemma data_value_roundtrip [simp]: "from_3d_data_value (get_3d_data_value d) = d"
  by (cases d) (simp_all add: from_3d_data_value_def all_directions_def)

section \<open>Positions\<close>

record block_pos =
  bx :: i32w
  bY :: i32w
  bz :: i32w

record chunk_pos =
  cx :: i32w
  cz :: i32w

record section_pos =
  sx :: i32w
  sy :: i32w
  sz :: i32w

definition mk_block_pos :: "i32w \<Rightarrow> i32w \<Rightarrow> i32w \<Rightarrow> block_pos" where
  "mk_block_pos x y z = \<lparr>bx = x, bY = y, bz = z\<rparr>"

definition relative :: "block_pos \<Rightarrow> direction \<Rightarrow> block_pos" where
  "relative p d = (case dir_offset d of (dx, dy, dz) \<Rightarrow>
     mk_block_pos (bx p + dx) (bY p + dy) (bz p + dz))"

definition relative_n :: "block_pos \<Rightarrow> direction \<Rightarrow> i32w \<Rightarrow> block_pos" where
  "relative_n p d n =
     (if n = 0 then p
      else case dir_offset d of (dx, dy, dz) \<Rightarrow>
        mk_block_pos (bx p + dx * n) (bY p + dy * n) (bz p + dz * n))"

text \<open>\<open>>>\<close> on \<open>i32\<close> is the arithmetic shift.\<close>

definition block_to_section_coord :: "i32w \<Rightarrow> i32w" where
  "block_to_section_coord b = signed_drop_bit 4 b"

definition chunk_of_block :: "block_pos \<Rightarrow> chunk_pos" where
  "chunk_of_block p =
     \<lparr>cx = block_to_section_coord (bx p), cz = block_to_section_coord (bz p)\<rparr>"

definition section_of_block :: "block_pos \<Rightarrow> section_pos" where
  "section_of_block p =
     \<lparr>sx = block_to_section_coord (bx p), sy = block_to_section_coord (bY p),
      sz = block_to_section_coord (bz p)\<rparr>"

lemma relative_opposite [simp]: "relative (relative p d) (opposite d) = p"
  by (cases d) (simp_all add: relative_def mk_block_pos_def)

lemma relative_n_0 [simp]: "relative_n p d 0 = p"
  by (simp add: relative_n_def)

lemma relative_n_1: "relative_n p d 1 = relative p d"
  by (simp add: relative_n_def relative_def)

lemma relative_n_add: "relative_n (relative_n p d m) d n = relative_n p d (m + n)"
  by (cases d) (auto simp: relative_n_def mk_block_pos_def algebra_simps split: prod.splits)

section \<open>Packed layouts\<close>

text \<open>
  A packed chunk position is an \<open>i64\<close>; it is kept as the \<open>int\<close> it denotes, so that the
  derived order of \<open>PackedChunkPos\<close> is the order of integers.
\<close>

definition packed_chunk_pos :: "chunk_pos \<Rightarrow> int" where
  "packed_chunk_pos p =
     sint (((scast (cx p) :: i64w) AND 0xFFFFFFFF)
           OR push_bit 32 ((scast (cz p) :: i64w) AND 0xFFFFFFFF))"

definition to_chunk_pos :: "int \<Rightarrow> chunk_pos" where
  "to_chunk_pos raw =
     (let w = word_of_int raw :: i64w
      in \<lparr>cx = ucast (w AND 0xFFFFFFFF), cz = ucast (signed_drop_bit 32 w)\<rparr>)"

definition horizontal_mask :: i64w where
  "horizontal_mask = push_bit 26 1 - 1"

definition y_mask :: i64w where
  "y_mask = push_bit 12 1 - 1"

definition packed_block_pos :: "block_pos \<Rightarrow> i64w" where
  "packed_block_pos p =
     (push_bit 38 (scast (bx p) AND horizontal_mask)
      OR push_bit 12 (scast (bz p) AND horizontal_mask))
     OR (scast (bY p) AND y_mask)"

definition to_block_pos :: "i64w \<Rightarrow> block_pos" where
  "to_block_pos raw =
     (let x = signed_drop_bit 38 raw;
          y = raw AND y_mask;
          z = signed_drop_bit 12 raw AND horizontal_mask;
          x' = signed_drop_bit 38 (push_bit 38 x);
          y' = signed_drop_bit 52 (push_bit 52 y);
          z' = signed_drop_bit 38 (push_bit 38 z)
      in mk_block_pos (ucast x') (ucast y') (ucast z'))"

definition section_xz_mask :: i64w where
  "section_xz_mask = push_bit 22 1 - 1"

definition section_y_mask :: i64w where
  "section_y_mask = push_bit 20 1 - 1"

definition packed_section_pos :: "section_pos \<Rightarrow> i64w" where
  "packed_section_pos p =
     (push_bit 42 (scast (sx p) AND section_xz_mask)
      OR push_bit 20 (scast (sz p) AND section_xz_mask))
     OR (scast (sy p) AND section_y_mask)"

definition to_section_pos :: "i64w \<Rightarrow> section_pos" where
  "to_section_pos raw =
     (let x = signed_drop_bit 42 raw;
          z = signed_drop_bit 20 raw AND section_xz_mask;
          y = raw AND section_y_mask;
          x' = signed_drop_bit 42 (push_bit 42 x);
          y' = signed_drop_bit 44 (push_bit 44 y);
          z' = signed_drop_bit 42 (push_bit 42 z)
      in \<lparr>sx = ucast x', sy = ucast y', sz = ucast z'\<rparr>)"


text \<open>
  The chunk-local layouts: \<open>(x << 4) | z\<close> in a byte and \<open>(x << 8) | (z << 4) | y\<close> in a \<open>u16\<close>
  whose top four bits are reserved.
\<close>

definition local_xz_unchecked :: "u8 \<Rightarrow> u8 \<Rightarrow> u8" where
  "local_xz_unchecked x z = push_bit 4 x OR z"

definition local_xz_of_block :: "block_pos \<Rightarrow> u8" where
  "local_xz_of_block p = local_xz_unchecked (ucast (bx p AND 15)) (ucast (bz p AND 15))"

definition local_xz_of_coords :: "u8 \<Rightarrow> u8 \<Rightarrow> u8 option" where
  "local_xz_of_coords x z =
     (if x < 16 \<and> z < 16 then Some (local_xz_unchecked x z) else None)"

definition local_xz_x :: "u8 \<Rightarrow> u8" where
  "local_xz_x raw = drop_bit 4 raw AND 0x0f"

definition local_xz_z :: "u8 \<Rightarrow> u8" where
  "local_xz_z raw = raw AND 0x0f"

definition section_block_unchecked :: "u8 \<Rightarrow> u8 \<Rightarrow> u8 \<Rightarrow> u16" where
  "section_block_unchecked x y z = (push_bit 8 (ucast x) OR push_bit 4 (ucast z)) OR ucast y"

definition section_block_of_block :: "block_pos \<Rightarrow> u16" where
  "section_block_of_block p =
     section_block_unchecked (ucast (bx p AND 15)) (ucast (bY p AND 15)) (ucast (bz p AND 15))"

definition section_block_of_local :: "u8 \<Rightarrow> u8 \<Rightarrow> u8 \<Rightarrow> u16 option" where
  "section_block_of_local x y z =
     (if x < 16 \<and> y < 16 \<and> z < 16 then Some (section_block_unchecked x y z) else None)"

definition section_block_of_raw :: "u16 \<Rightarrow> u16 option" where
  "section_block_of_raw raw = (if raw AND NOT 0x0fff = 0 then Some raw else None)"

definition section_block_x :: "u16 \<Rightarrow> u8" where
  "section_block_x raw = ucast (drop_bit 8 raw AND 0x0f)"

definition section_block_y :: "u16 \<Rightarrow> u8" where
  "section_block_y raw = ucast (raw AND 0x0f)"

definition section_block_z :: "u16 \<Rightarrow> u8" where
  "section_block_z raw = ucast (drop_bit 4 raw AND 0x0f)"

definition relative_to_block_x :: "section_pos \<Rightarrow> u16 \<Rightarrow> i32w" where
  "relative_to_block_x s r = push_bit 4 (sx s) + ucast (section_block_x r)"

definition relative_to_block_y :: "section_pos \<Rightarrow> u16 \<Rightarrow> i32w" where
  "relative_to_block_y s r = push_bit 4 (sy s) + ucast (section_block_y r)"

definition relative_to_block_z :: "section_pos \<Rightarrow> u16 \<Rightarrow> i32w" where
  "relative_to_block_z s r = push_bit 4 (sz s) + ucast (section_block_z r)"

definition relative_to_block_pos :: "section_pos \<Rightarrow> u16 \<Rightarrow> block_pos" where
  "relative_to_block_pos s r =
     mk_block_pos (relative_to_block_x s r) (relative_to_block_y s r) (relative_to_block_z s r)"

section \<open>The layouts lose nothing\<close>

text \<open>
  What the indexes keyed by a packed position rely on: packing has a left inverse, so two
  positions with the same key are the same position.
\<close>

locale packing =
  fixes pack :: "'a \<Rightarrow> 'b" and unpack :: "'b \<Rightarrow> 'a"
  assumes unpack_pack: "unpack (pack p) = p"
begin

lemma pack_eq_iff: "pack p = pack q \<longleftrightarrow> p = q"
  by (metis unpack_pack)

lemma pack_inj_on: "inj_on pack A"
  by (rule inj_onI) (simp add: pack_eq_iff)

lemma pack_image_iff: "pack p \<in> pack ` A \<longleftrightarrow> p \<in> A"
  by (auto simp: pack_eq_iff)

lemma distinct_map_pack: "distinct (map pack ps) \<longleftrightarrow> distinct ps"
  by (simp add: distinct_map pack_inj_on)

end

lemma top_bit: "(n::nat) < Suc m \<Longrightarrow> m \<le> n \<Longrightarrow> n = m"
  by simp

lemmas top_bits =
  top_bit [of _ 31, simplified] top_bit [of _ 25, simplified] top_bit [of _ 11, simplified]
  top_bit [of _ 21, simplified] top_bit [of _ 19, simplified]

lemma mask_eqs:
  "(0xFFFFFFFF :: 64 word) = mask 32"
  "horizontal_mask = mask 26" "y_mask = mask 12"
  "section_xz_mask = mask 22" "section_y_mask = mask 20"
  "(0xf :: 32 word) = mask 4" "(0xf :: 16 word) = mask 4" "(0xf :: 8 word) = mask 4"
  "(0xfff :: 16 word) = mask 12"
  by (simp_all add: horizontal_mask_def y_mask_def section_xz_mask_def section_y_mask_def
      mask_eq_exp_minus_1)

lemma to_chunk_pos_packed: "to_chunk_pos (packed_chunk_pos p) = p"
proof -
  let ?w = "((scast (cx p) :: i64w) AND 0xFFFFFFFF) OR push_bit 32 ((scast (cz p) :: i64w) AND 0xFFFFFFFF)"
  have "ucast (?w AND 0xFFFFFFFF) = cx p"
    by (rule bit_word_eqI) (auto simp: mask_eqs bit_simps)
  moreover have "ucast (signed_drop_bit 32 ?w) = cz p"
    by (rule bit_word_eqI) (auto simp: mask_eqs bit_simps not_le min_def dest: top_bits)
  ultimately show ?thesis
    by (simp add: to_chunk_pos_def packed_chunk_pos_def)
qed

interpretation chunk_key: packing packed_chunk_pos to_chunk_pos
  by unfold_locales (rule to_chunk_pos_packed)

lemma packed_block_x:
  "ucast (signed_drop_bit 38 (push_bit 38 (signed_drop_bit 38 (packed_block_pos p)))) =
     (signed_take_bit 25 (bx p) :: i32w)"
  by (rule bit_word_eqI)
    (auto simp: packed_block_pos_def mask_eqs bit_simps not_le min_def dest: top_bits)

lemma packed_block_z:
  "ucast (signed_drop_bit 38 (push_bit 38
     (signed_drop_bit 12 (packed_block_pos p) AND horizontal_mask))) =
     (signed_take_bit 25 (bz p) :: i32w)"
  by (rule bit_word_eqI)
    (auto simp: packed_block_pos_def mask_eqs bit_simps not_le min_def dest: top_bits)

lemma packed_block_y:
  "ucast (signed_drop_bit 52 (push_bit 52 (packed_block_pos p AND y_mask))) =
     (signed_take_bit 11 (bY p) :: i32w)"
  by (rule bit_word_eqI)
    (auto simp: packed_block_pos_def mask_eqs bit_simps not_le min_def dest: top_bits)

lemma to_block_pos_packed:
  "to_block_pos (packed_block_pos p) =
     mk_block_pos (signed_take_bit 25 (bx p)) (signed_take_bit 11 (bY p))
       (signed_take_bit 25 (bz p))"
  by (simp only: to_block_pos_def Let_def packed_block_x packed_block_y packed_block_z)

lemma packed_to_block_pos: "packed_block_pos (to_block_pos raw) = raw"
  by (rule bit_word_eqI)
    (auto simp: to_block_pos_def mk_block_pos_def Let_def packed_block_pos_def mask_eqs
      bit_simps not_le min_def)

lemma packed_section_x:
  "ucast (signed_drop_bit 42 (push_bit 42 (signed_drop_bit 42 (packed_section_pos p)))) =
     (signed_take_bit 21 (sx p) :: i32w)"
  by (rule bit_word_eqI)
    (auto simp: packed_section_pos_def mask_eqs bit_simps not_le min_def dest: top_bits)

lemma packed_section_z:
  "ucast (signed_drop_bit 42 (push_bit 42
     (signed_drop_bit 20 (packed_section_pos p) AND section_xz_mask))) =
     (signed_take_bit 21 (sz p) :: i32w)"
  by (rule bit_word_eqI)
    (auto simp: packed_section_pos_def mask_eqs bit_simps not_le min_def dest: top_bits)

lemma packed_section_y:
  "ucast (signed_drop_bit 44 (push_bit 44 (packed_section_pos p AND section_y_mask))) =
     (signed_take_bit 19 (sy p) :: i32w)"
  by (rule bit_word_eqI)
    (auto simp: packed_section_pos_def mask_eqs bit_simps not_le min_def dest: top_bits)

lemma to_section_pos_packed:
  "to_section_pos (packed_section_pos p) =
     \<lparr>sx = signed_take_bit 21 (sx p), sy = signed_take_bit 19 (sy p),
      sz = signed_take_bit 21 (sz p)\<rparr>"
  by (simp only: to_section_pos_def Let_def packed_section_x packed_section_y packed_section_z)

lemma packed_to_section_pos: "packed_section_pos (to_section_pos raw) = raw"
  by (rule bit_word_eqI)
    (auto simp: to_section_pos_def Let_def packed_section_pos_def mask_eqs
      bit_simps not_le min_def)

lemma local_xz_parts:
  "local_xz_x (local_xz_of_block p) = ucast (bx p AND 15)"
  "local_xz_z (local_xz_of_block p) = ucast (bz p AND 15)"
  by (rule bit_word_eqI; auto simp: local_xz_x_def local_xz_z_def local_xz_of_block_def
      local_xz_unchecked_def mask_eqs bit_simps)+

lemma section_block_parts:
  "section_block_x (section_block_of_block p) = ucast (bx p AND 15)"
  "section_block_y (section_block_of_block p) = ucast (bY p AND 15)"
  "section_block_z (section_block_of_block p) = ucast (bz p AND 15)"
  by (rule bit_word_eqI; auto simp: section_block_x_def section_block_y_def section_block_z_def
      section_block_of_block_def section_block_unchecked_def mask_eqs bit_simps)+

lemma section_block_of_block_valid:
  "section_block_of_raw (section_block_of_block p) = Some (section_block_of_block p)"
proof -
  have "section_block_of_block p AND NOT 0x0fff = 0"
    by (rule bit_word_eqI)
      (auto simp: section_block_of_block_def section_block_unchecked_def mask_eqs bit_simps)
  then show ?thesis by (simp add: section_block_of_raw_def)
qed

text \<open>A coordinate is its section's corner plus its offset inside the section.\<close>

lemma section_coord_split:
  "push_bit 4 (block_to_section_coord b) + ucast (ucast (b AND 15) :: u8) = (b :: i32w)"
proof -
  have disj: "push_bit 4 (block_to_section_coord b) AND ucast (ucast (b AND 15) :: u8) = (0 :: i32w)"
    by (rule bit_word_eqI) (auto simp: block_to_section_coord_def mask_eqs bit_simps)
  have "push_bit 4 (block_to_section_coord b) OR ucast (ucast (b AND 15) :: u8) = b"
    by (rule bit_word_eqI)
      (auto simp: block_to_section_coord_def mask_eqs bit_simps min_def not_le,
        metis le_add_diff_inverse not_le)
  then show ?thesis
    using disj by (simp add: disjunctive_add_eq_or)
qed

lemma relative_to_block_pos_split:
  "relative_to_block_pos (section_of_block p) (section_block_of_block p) = p"
  by (simp add: relative_to_block_pos_def relative_to_block_x_def relative_to_block_y_def
      relative_to_block_z_def section_of_block_def section_block_parts section_coord_split
      mk_block_pos_def)

end
