(* ===== verification/BinaryHeap.thy ===== *)
theory BinaryHeap
  imports Prelude
begin

text \<open>
  Rust's \<open>Ordering\<close> with its combinators, the contract of \<open>Ord\<close>, and
  \<open>std::collections::BinaryHeap\<close> as the components use it. The heap is the list of its
  elements, greatest first: \<open>peek\<close> and \<open>pop\<close> look at the head, \<open>push\<close> inserts in place.
  The order in which a real heap pops elements that compare equal is unspecified, so only
  facts that hold for any such order are used by the clients (their comparisons end in a
  tie-breaker that no two elements share).
\<close>

section \<open>Ordering\<close>

datatype ordering = Less | Equal | Greater

fun reverse_ordering :: "ordering \<Rightarrow> ordering" where
  "reverse_ordering Less = Greater"
| "reverse_ordering Equal = Equal"
| "reverse_ordering Greater = Less"

fun then_ordering :: "ordering \<Rightarrow> ordering \<Rightarrow> ordering" where
  "then_ordering Equal o' = o'"
| "then_ordering o1 o' = o1"

definition cmp_lin :: "'a::linorder \<Rightarrow> 'a \<Rightarrow> ordering" where
  "cmp_lin a b = (if a < b then Less else if a = b then Equal else Greater)"

lemma cmp_lin_simps [simp]:
  "cmp_lin a b = Less \<longleftrightarrow> a < b"
  "cmp_lin a b = Equal \<longleftrightarrow> a = b"
  "cmp_lin a b = Greater \<longleftrightarrow> b < a"
  by (auto simp: cmp_lin_def)

lemma reverse_ordering_simps [simp]:
  "reverse_ordering x = Less \<longleftrightarrow> x = Greater"
  "reverse_ordering x = Equal \<longleftrightarrow> x = Equal"
  "reverse_ordering x = Greater \<longleftrightarrow> x = Less"
  "reverse_ordering (reverse_ordering x) = x"
  by (cases x; simp)+

lemma reverse_cmp_lin: "reverse_ordering (cmp_lin a b) = cmp_lin b a"
  by (auto simp: cmp_lin_def)

lemma then_cmp_lin:
  "then_ordering (cmp_lin a b) (cmp_lin c d) = cmp_lin (a, c) (b, d)"
  by (auto simp: cmp_lin_def)

lemma reverse_then_ordering:
  "then_ordering (reverse_ordering x) (reverse_ordering y) = reverse_ordering (then_ordering x y)"
  by (cases x) auto

section \<open>The heap\<close>

fun heap_push :: "('a \<Rightarrow> 'a \<Rightarrow> ordering) \<Rightarrow> 'a \<Rightarrow> 'a list \<Rightarrow> 'a list" where
  "heap_push cmp x [] = [x]"
| "heap_push cmp x (y # ys) =
     (if cmp x y = Greater then x # y # ys else y # heap_push cmp x ys)"

fun heap_peek :: "'a list \<Rightarrow> 'a option" where
  "heap_peek [] = None"
| "heap_peek (x # xs) = Some x"

fun heap_pop :: "'a list \<Rightarrow> ('a \<times> 'a list) option" where
  "heap_pop [] = None"
| "heap_pop (x # xs) = Some (x, xs)"

definition heap_ordered :: "('a \<Rightarrow> 'a \<Rightarrow> ordering) \<Rightarrow> 'a list \<Rightarrow> bool" where
  "heap_ordered cmp xs \<longleftrightarrow> sorted_wrt (\<lambda>a b. cmp a b \<noteq> Less) xs"

lemma heap_peek_Some: "heap_peek xs = Some x \<longleftrightarrow> (\<exists>ys. xs = x # ys)"
  by (cases xs) auto

lemma heap_peek_None [simp]: "heap_peek xs = None \<longleftrightarrow> xs = []"
  by (cases xs) auto

lemma heap_pop_Some: "heap_pop xs = Some (x, ys) \<longleftrightarrow> xs = x # ys"
  by (cases xs) auto

lemma heap_pop_None [simp]: "heap_pop xs = None \<longleftrightarrow> xs = []"
  by (cases xs) auto

lemma mset_heap_push [simp]: "mset (heap_push cmp x xs) = add_mset x (mset xs)"
  by (induction xs) auto

lemma set_heap_push [simp]: "set (heap_push cmp x xs) = insert x (set xs)"
  by (induction xs) auto

lemma length_heap_push [simp]: "length (heap_push cmp x xs) = Suc (length xs)"
  by (induction xs) auto

lemma heap_push_not_Nil [simp]: "heap_push cmp x xs \<noteq> []"
  by (cases xs) auto

lemma heap_ordered_Nil [simp]: "heap_ordered cmp []"
  by (simp add: heap_ordered_def)

lemma heap_ordered_Cons:
  "heap_ordered cmp (x # xs) \<longleftrightarrow> (\<forall>y \<in> set xs. cmp x y \<noteq> Less) \<and> heap_ordered cmp xs"
  by (simp add: heap_ordered_def)

text \<open>
  The contract of \<open>Ord\<close> that the heap relies on: a total preorder whose comparison is
  antisymmetric as an \<open>Ordering\<close>.
\<close>

locale total_cmp =
  fixes cmp :: "'a \<Rightarrow> 'a \<Rightarrow> ordering"
  assumes cmp_swap: "cmp b a = reverse_ordering (cmp a b)"
    and cmp_trans: "cmp a b \<noteq> Less \<Longrightarrow> cmp b c \<noteq> Less \<Longrightarrow> cmp a c \<noteq> Less"
begin

lemma not_greater_swap: "cmp a b \<noteq> Greater \<Longrightarrow> cmp b a \<noteq> Less"
  using cmp_swap [of a b] by simp

lemma heap_ordered_push:
  "heap_ordered cmp xs \<Longrightarrow> heap_ordered cmp (heap_push cmp x xs)"
proof (induction xs)
  case Nil
  then show ?case by (simp add: heap_ordered_def)
next
  case (Cons y ys)
  have above: "cmp x y = Greater \<Longrightarrow> \<forall>z \<in> set ys. cmp x z \<noteq> Less"
    using Cons.prems cmp_trans [of x y] by (auto simp: heap_ordered_Cons)
  with Cons show ?case
    by (auto simp: heap_ordered_Cons dest: not_greater_swap)
qed

lemma heap_ordered_pop:
  "heap_ordered cmp xs \<Longrightarrow> heap_pop xs = Some (x, ys) \<Longrightarrow>
     heap_ordered cmp ys \<and> (\<forall>y \<in> set ys. cmp x y \<noteq> Less)"
  by (auto simp: heap_pop_Some heap_ordered_Cons)

lemma heap_peek_greatest:
  "heap_ordered cmp xs \<Longrightarrow> heap_peek xs = Some x \<Longrightarrow> y \<in> set xs \<Longrightarrow> cmp y x \<noteq> Greater"
proof -
  assume ord: "heap_ordered cmp xs" and peek: "heap_peek xs = Some x" and y: "y \<in> set xs"
  then obtain ys where xs: "xs = x # ys" by (auto simp: heap_peek_Some)
  have refl: "cmp x x \<noteq> Greater"
    using cmp_swap [of x x] by (cases "cmp x x") auto
  show "cmp y x \<noteq> Greater"
    using ord y refl cmp_swap [of y x] by (auto simp: xs heap_ordered_Cons)
qed

end

text \<open>
  The comparisons of the program read an ordered key off the element and reverse it, so that
  the greatest element is the one with the least key.
\<close>

locale key_cmp =
  fixes cmp :: "'a \<Rightarrow> 'a \<Rightarrow> ordering" and key :: "'a \<Rightarrow> 'k::linorder"
  assumes cmp_key: "cmp a b = reverse_ordering (cmp_lin (key a) (key b))"
begin

sublocale total_cmp cmp
proof unfold_locales
  show "cmp b a = reverse_ordering (cmp a b)" for a b
    by (simp add: cmp_key reverse_cmp_lin)
  show "cmp a b \<noteq> Less \<Longrightarrow> cmp b c \<noteq> Less \<Longrightarrow> cmp a c \<noteq> Less" for a b c
    by (auto simp: cmp_key)
qed

lemma cmp_not_less_iff: "cmp a b \<noteq> Less \<longleftrightarrow> key a \<le> key b"
  by (auto simp: cmp_key)

lemma heap_ordered_iff_sorted: "heap_ordered cmp xs \<longleftrightarrow> sorted (map key xs)"
  by (simp add: heap_ordered_def cmp_not_less_iff sorted_wrt_map)

lemma heap_peek_least:
  "heap_ordered cmp xs \<Longrightarrow> heap_peek xs = Some x \<Longrightarrow> y \<in> set xs \<Longrightarrow> key x \<le> key y"
  by (auto simp: heap_ordered_iff_sorted heap_peek_Some)

end

end
