(* ===== verification/TickQueue.thy ===== *)
theory TickQueue
  imports Positions BinaryHeap
begin

text \<open>
  The scheduled ticks of one chunk and one kind
  (\<open>foton-core/src/world/tick_scheduler/list.rs\<close> and the data types of \<open>mod.rs\<close>): saved
  entries wait in \<open>pending_ticks\<close> with a relative delay; live entries sit in a heap ordered by
  deadline, priority, sub-tick order and insertion order; \<open>scheduled\<close> holds the
  (position, type) pairs that are taken.

  \<open>BlockRef\<close> and \<open>FluidRef\<close> are references to static registry entries and
  \<open>TickKey::key\<close> is the address they hold: a tick type is that address, a \<open>nat\<close>.
\<close>

section \<open>Priorities\<close>

datatype tick_priority =
  ExtremelyHigh | VeryHigh | High | Normal | Low | VeryLow | ExtremelyLow

fun priority_value :: "tick_priority \<Rightarrow> int" where
  "priority_value ExtremelyHigh = -3"
| "priority_value VeryHigh = -2"
| "priority_value High = -1"
| "priority_value Normal = 0"
| "priority_value Low = 1"
| "priority_value VeryLow = 2"
| "priority_value ExtremelyLow = 3"

text \<open>The derived \<open>Ord\<close> compares discriminants.\<close>

lemma priority_value_inject [simp]: "priority_value a = priority_value b \<longleftrightarrow> a = b"
  by (cases a; cases b; simp)

instantiation tick_priority :: linorder
begin

definition less_eq_tick_priority :: "tick_priority \<Rightarrow> tick_priority \<Rightarrow> bool" where
  "less_eq_tick_priority a b \<longleftrightarrow> priority_value a \<le> priority_value b"

definition less_tick_priority :: "tick_priority \<Rightarrow> tick_priority \<Rightarrow> bool" where
  "less_tick_priority a b \<longleftrightarrow> priority_value a < priority_value b"

instance
  by standard (auto simp: less_eq_tick_priority_def less_tick_priority_def)

end

definition by_value :: "int \<Rightarrow> tick_priority" where
  "by_value v =
     (if v = -3 then ExtremelyHigh
      else if v = -2 then VeryHigh
      else if v = -1 then High
      else if v = 0 then Normal
      else if v = 1 then Low
      else if v = 2 then VeryLow
      else if v = 3 then ExtremelyLow
      else if v < priority_value ExtremelyHigh then ExtremelyHigh
      else ExtremelyLow)"

lemma by_value_priority_value [simp]: "by_value (priority_value p) = p"
  by (cases p) (simp_all add: by_value_def)

section \<open>Ticks and their order\<close>

record scheduled_tick =
  tick_type :: nat
  tick_pos :: block_pos
  trigger_tick :: int
  priority :: tick_priority
  sub_tick_order :: int

record saved_tick =
  saved_type :: nat
  saved_pos :: block_pos
  delay :: int
  saved_priority :: tick_priority

type_synonym scheduled_tick_key = "block_pos \<times> nat"

definition tick_key :: "scheduled_tick \<Rightarrow> scheduled_tick_key" where
  "tick_key t = (tick_pos t, tick_type t)"

definition saved_key :: "saved_tick \<Rightarrow> scheduled_tick_key" where
  "saved_key s = (saved_pos s, saved_type s)"

definition intra_tick_drain_order ::
  "tick_priority \<Rightarrow> int \<Rightarrow> tick_priority \<Rightarrow> int \<Rightarrow> ordering" where
  "intra_tick_drain_order lp ls rp rs = then_ordering (cmp_lin lp rp) (cmp_lin ls rs)"

definition drain_order :: "scheduled_tick \<Rightarrow> scheduled_tick \<Rightarrow> ordering" where
  "drain_order a b =
     then_ordering (cmp_lin (trigger_tick a) (trigger_tick b))
       (intra_tick_drain_order (priority a) (sub_tick_order a) (priority b) (sub_tick_order b))"

record queued_tick =
  q_tick :: scheduled_tick
  insertion_order :: nat

definition queued_cmp :: "queued_tick \<Rightarrow> queued_tick \<Rightarrow> ordering" where
  "queued_cmp a b =
     then_ordering (reverse_ordering (drain_order (q_tick a) (q_tick b)))
       (cmp_lin (insertion_order b) (insertion_order a))"

definition drain_key :: "scheduled_tick \<Rightarrow> int \<times> tick_priority \<times> int" where
  "drain_key t = (trigger_tick t, priority t, sub_tick_order t)"

definition queued_key :: "queued_tick \<Rightarrow> (int \<times> tick_priority \<times> int) \<times> nat" where
  "queued_key q = (drain_key (q_tick q), insertion_order q)"

lemma drain_order_key: "drain_order a b = cmp_lin (drain_key a) (drain_key b)"
  by (simp add: drain_order_def intra_tick_drain_order_def drain_key_def then_cmp_lin)

interpretation tick_heap: key_cmp queued_cmp queued_key
  by unfold_locales
    (simp add: queued_cmp_def drain_order_key queued_key_def then_cmp_lin reverse_cmp_lin)

section \<open>The list\<close>

record tick_list =
  pending_ticks :: "saved_tick list option"
  ticks :: "queued_tick list"
  scheduled :: "scheduled_tick_key set"
  next_insertion_order :: nat

definition tl_new :: tick_list where
  "tl_new = \<lparr>pending_ticks = None, ticks = [], scheduled = {}, next_insertion_order = 0\<rparr>"

definition tl_new_pending :: tick_list where
  "tl_new_pending =
     \<lparr>pending_ticks = Some [], ticks = [], scheduled = {}, next_insertion_order = 0\<rparr>"

fun insert_saved_keys :: "saved_tick list \<Rightarrow> scheduled_tick_key set \<Rightarrow> scheduled_tick_key set" where
  "insert_saved_keys [] ks = ks"
| "insert_saved_keys (s # ss) ks = insert_saved_keys ss (insert (saved_key s) ks)"

definition from_saved_ticks :: "saved_tick list \<Rightarrow> tick_list" where
  "from_saved_ticks ss =
     tl_new_pending\<lparr>scheduled := insert_saved_keys ss (scheduled tl_new_pending),
       pending_ticks := Some ss\<rparr>"

definition schedule_saved_pending :: "tick_list \<Rightarrow> saved_tick \<Rightarrow> bool \<times> tick_list" where
  "schedule_saved_pending tq s =
     (let key = saved_key s
      in if key \<in> scheduled tq then (False, tq)
         else (True, tq\<lparr>scheduled := insert key (scheduled tq),
            pending_ticks := Some (case pending_ticks tq of None \<Rightarrow> [s] | Some ps \<Rightarrow> ps @ [s])\<rparr>))"

definition schedule_pending ::
  "tick_list \<Rightarrow> nat \<Rightarrow> block_pos \<Rightarrow> tick_priority \<Rightarrow> bool \<times> tick_list" where
  "schedule_pending tq ty pos prio =
     schedule_saved_pending tq
       \<lparr>saved_type = ty, saved_pos = pos, delay = 0, saved_priority = prio\<rparr>"

fun schedule_all_saved :: "saved_tick list \<Rightarrow> tick_list \<Rightarrow> tick_list" where
  "schedule_all_saved [] tq = tq"
| "schedule_all_saved (s # ss) tq = schedule_all_saved ss (snd (schedule_saved_pending tq s))"

definition from_proto_saved_ticks :: "saved_tick list \<Rightarrow> tick_list" where
  "from_proto_saved_ticks ss = schedule_all_saved ss tl_new_pending"

definition push_unchecked :: "scheduled_tick \<Rightarrow> tick_list \<Rightarrow> tick_list" where
  "push_unchecked t tq =
     (let io = next_insertion_order tq
      in tq\<lparr>next_insertion_order := wrap_u64 (Suc io),
            ticks := heap_push queued_cmp \<lparr>q_tick = t, insertion_order = io\<rparr> (ticks tq)\<rparr>)"

definition tl_schedule ::
  "tick_list \<Rightarrow> nat \<Rightarrow> block_pos \<Rightarrow> int \<Rightarrow> tick_priority \<Rightarrow> int \<Rightarrow> bool \<times> tick_list" where
  "tl_schedule tq ty pos trigger prio sub =
     (let key = (pos, ty)
      in if key \<in> scheduled tq then (False, tq)
         else (True, push_unchecked
            \<lparr>tick_type = ty, tick_pos = pos, trigger_tick = trigger, priority = prio,
             sub_tick_order = sub\<rparr>
            (tq\<lparr>scheduled := insert key (scheduled tq)\<rparr>)))"

definition has_tick :: "tick_list \<Rightarrow> block_pos \<Rightarrow> nat \<Rightarrow> bool" where
  "has_tick tq pos ty \<longleftrightarrow> (pos, ty) \<in> scheduled tq"

definition pending_entries :: "tick_list \<Rightarrow> saved_tick list" where
  "pending_entries tq = (case pending_ticks tq of None \<Rightarrow> [] | Some ps \<Rightarrow> ps)"

fun retain_pending ::
  "(saved_tick \<Rightarrow> bool) \<Rightarrow> saved_tick list \<Rightarrow> scheduled_tick_key set
     \<Rightarrow> saved_tick list \<times> scheduled_tick_key set" where
  "retain_pending p [] ks = ([], ks)"
| "retain_pending p (s # ss) ks =
     (if \<not> p s then (case retain_pending p ss ks of (ss', ks') \<Rightarrow> (s # ss', ks'))
      else retain_pending p ss (ks - {saved_key s}))"

definition remove_pending_matching ::
  "tick_list \<Rightarrow> (saved_tick \<Rightarrow> bool) \<Rightarrow> nat \<times> tick_list" where
  "remove_pending_matching tq p =
     (case pending_ticks tq of
        None \<Rightarrow> (0, tq)
      | Some ps \<Rightarrow>
          (case retain_pending p ps (scheduled tq) of
             (ps', ks') \<Rightarrow>
               (length ps - length ps', tq\<lparr>pending_ticks := Some ps', scheduled := ks'\<rparr>)))"

record packing_snapshot =
  snap_pending :: "saved_tick list"
  snap_live :: "(scheduled_tick \<times> nat) list"

definition packing_snapshot_of :: "tick_list \<Rightarrow> packing_snapshot" where
  "packing_snapshot_of tq =
     \<lparr>snap_pending = (case pending_ticks tq of None \<Rightarrow> [] | Some ps \<Rightarrow> ps),
      snap_live = map (\<lambda>q. (q_tick q, insertion_order q)) (ticks tq)\<rparr>"

definition saved_of_live :: "int \<Rightarrow> scheduled_tick \<Rightarrow> saved_tick" where
  "saved_of_live now t =
     \<lparr>saved_type = tick_type t, saved_pos = tick_pos t,
      delay = wrap_i32 (wrap_i64 (trigger_tick t - now)), saved_priority = priority t\<rparr>"

definition tl_pack :: "packing_snapshot \<Rightarrow> int \<Rightarrow> saved_tick list" where
  "tl_pack s now =
     snap_pending s
     @ map (saved_of_live now \<circ> fst)
         (sort_key (\<lambda>(t, io). (sub_tick_order t, io)) (snap_live s))"

definition anchor_saved :: "int \<Rightarrow> int \<Rightarrow> nat \<Rightarrow> saved_tick \<Rightarrow> scheduled_tick" where
  "anchor_saved now n i s =
     \<lparr>tick_type = saved_type s, tick_pos = saved_pos s,
      trigger_tick = wrap_i64 (now + delay s), priority = saved_priority s,
      sub_tick_order = - n + int i\<rparr>"

fun unpack_from :: "int \<Rightarrow> int \<Rightarrow> nat \<Rightarrow> saved_tick list \<Rightarrow> tick_list \<Rightarrow> tick_list" where
  "unpack_from now n i [] tq = tq"
| "unpack_from now n i (s # ss) tq =
     unpack_from now n (Suc i) ss (push_unchecked (anchor_saved now n i s) tq)"

definition tl_unpack :: "tick_list \<Rightarrow> int \<Rightarrow> tick_list" where
  "tl_unpack tq now =
     (case pending_ticks tq of
        None \<Rightarrow> tq
      | Some ps \<Rightarrow> unpack_from now (int (length ps)) 0 ps (tq\<lparr>pending_ticks := None\<rparr>))"

definition tl_len :: "tick_list \<Rightarrow> nat" where
  "tl_len tq =
     length (ticks tq) + (case pending_ticks tq of None \<Rightarrow> 0 | Some ps \<Rightarrow> length ps)"

definition tl_peek :: "tick_list \<Rightarrow> scheduled_tick option" where
  "tl_peek tq = (case heap_peek (ticks tq) of None \<Rightarrow> None | Some q \<Rightarrow> Some (q_tick q))"

definition peek_ready :: "tick_list \<Rightarrow> int \<Rightarrow> scheduled_tick option" where
  "peek_ready tq now =
     (case heap_peek (ticks tq) of
        None \<Rightarrow> None
      | Some q \<Rightarrow> if trigger_tick (q_tick q) \<le> now then Some (q_tick q) else None)"

definition pop_ready :: "tick_list \<Rightarrow> int \<Rightarrow> (scheduled_tick \<times> tick_list) option" where
  "pop_ready tq now =
     (case peek_ready tq now of
        None \<Rightarrow> None
      | Some _ \<Rightarrow>
          (case heap_pop (ticks tq) of
             None \<Rightarrow> None
           | Some (q, qs) \<Rightarrow>
               Some (q_tick q,
                 tq\<lparr>ticks := qs, scheduled := scheduled tq - {tick_key (q_tick q)}\<rparr>)))"

section \<open>Abstraction and invariants\<close>

definition live_ticks :: "tick_list \<Rightarrow> scheduled_tick list" where
  "live_ticks tq = map q_tick (ticks tq)"

definition tq_keys :: "tick_list \<Rightarrow> scheduled_tick_key list" where
  "tq_keys tq = map saved_key (pending_entries tq) @ map (tick_key \<circ> q_tick) (ticks tq)"

definition tq_ordered :: "tick_list \<Rightarrow> bool" where
  "tq_ordered tq \<longleftrightarrow> heap_ordered queued_cmp (ticks tq)"

definition tq_inv :: "tick_list \<Rightarrow> bool" where
  "tq_inv tq \<longleftrightarrow> tq_ordered tq \<and> scheduled tq \<subseteq> set (tq_keys tq)"

definition tq_dedup :: "tick_list \<Rightarrow> bool" where
  "tq_dedup tq \<longleftrightarrow> tq_ordered tq \<and> distinct (tq_keys tq) \<and> scheduled tq = set (tq_keys tq)"

definition tq_fresh :: "tick_list \<Rightarrow> bool" where
  "tq_fresh tq \<longleftrightarrow> (\<forall>q \<in> set (ticks tq). insertion_order q < next_insertion_order tq)"

lemmas tq_defs = tq_inv_def tq_dedup_def tq_ordered_def tq_keys_def pending_entries_def

lemma tq_dedup_inv: "tq_dedup tq \<Longrightarrow> tq_inv tq"
  by (simp add: tq_dedup_def tq_inv_def)

subsection \<open>Pushing\<close>

lemma push_unchecked_fields [simp]:
  "pending_ticks (push_unchecked t tq) = pending_ticks tq"
  "scheduled (push_unchecked t tq) = scheduled tq"
  "pending_entries (push_unchecked t tq) = pending_entries tq"
  "ticks (push_unchecked t tq) =
     heap_push queued_cmp \<lparr>q_tick = t, insertion_order = next_insertion_order tq\<rparr> (ticks tq)"
  "next_insertion_order (push_unchecked t tq) = wrap_u64 (Suc (next_insertion_order tq))"
  by (simp_all add: push_unchecked_def Let_def pending_entries_def)

lemma push_unchecked_ordered: "tq_ordered tq \<Longrightarrow> tq_ordered (push_unchecked t tq)"
  by (simp add: tq_ordered_def tick_heap.heap_ordered_push)

lemma mset_live_push: "mset (live_ticks (push_unchecked t tq)) = add_mset t (mset (live_ticks tq))"
  by (simp add: live_ticks_def)

lemma mset_keys_push:
  "mset (tq_keys (push_unchecked t tq)) = add_mset (tick_key t) (mset (tq_keys tq))"
  by (simp add: tq_keys_def)

lemma keys_push_iff:
  "set (tq_keys (push_unchecked t tq)) = insert (tick_key t) (set (tq_keys tq))"
  "distinct (tq_keys (push_unchecked t tq)) \<longleftrightarrow>
     tick_key t \<notin> set (tq_keys tq) \<and> distinct (tq_keys tq)"
proof -
  show "set (tq_keys (push_unchecked t tq)) = insert (tick_key t) (set (tq_keys tq))"
    using arg_cong [OF mset_keys_push, of set_mset] by simp
  have "distinct (tq_keys (push_unchecked t tq)) \<longleftrightarrow> distinct (tick_key t # tq_keys tq)"
    by (rule mset_eq_imp_distinct_iff) (simp add: mset_keys_push)
  then show "distinct (tq_keys (push_unchecked t tq)) \<longleftrightarrow>
     tick_key t \<notin> set (tq_keys tq) \<and> distinct (tq_keys tq)" by simp
qed

subsection \<open>Scheduling\<close>

lemma tq_keys_update_scheduled [simp]:
  "tq_keys (tq\<lparr>scheduled := ks\<rparr>) = tq_keys tq"
  "tq_ordered (tq\<lparr>scheduled := ks\<rparr>) = tq_ordered tq"
  "live_ticks (tq\<lparr>scheduled := ks\<rparr>) = live_ticks tq"
  by (simp_all add: tq_keys_def pending_entries_def tq_ordered_def live_ticks_def)

lemma tl_schedule_cases:
  obtains (dup) "(pos, ty) \<in> scheduled tq" "tl_schedule tq ty pos trig prio sub = (False, tq)"
  | (added) t where "(pos, ty) \<notin> scheduled tq"
      "t = \<lparr>tick_type = ty, tick_pos = pos, trigger_tick = trig, priority = prio,
            sub_tick_order = sub\<rparr>"
      "tick_key t = (pos, ty)"
      "tl_schedule tq ty pos trig prio sub =
         (True, push_unchecked t (tq\<lparr>scheduled := insert (pos, ty) (scheduled tq)\<rparr>))"
  by (auto simp: tl_schedule_def tick_key_def Let_def)

lemma tl_schedule_ordered [inv_intros]:
  "tq_ordered tq \<Longrightarrow> tq_ordered (snd (tl_schedule tq ty pos trig prio sub))"
  by (cases rule: tl_schedule_cases [of pos ty tq trig prio sub])
    (simp_all add: push_unchecked_ordered)

lemma tl_schedule_inv [inv_intros]:
  "tq_inv tq \<Longrightarrow> tq_inv (snd (tl_schedule tq ty pos trig prio sub))"
  by (cases rule: tl_schedule_cases [of pos ty tq trig prio sub])
    (auto simp: tq_inv_def push_unchecked_ordered keys_push_iff)

lemma tl_schedule_dedup [inv_intros]:
  "tq_dedup tq \<Longrightarrow> tq_dedup (snd (tl_schedule tq ty pos trig prio sub))"
  by (cases rule: tl_schedule_cases [of pos ty tq trig prio sub])
    (auto simp: tq_dedup_def push_unchecked_ordered keys_push_iff)

lemma schedule_saved_pending_dedup [inv_intros]:
  "tq_dedup tq \<Longrightarrow> tq_dedup (snd (schedule_saved_pending tq s))"
  by (auto simp: tq_defs schedule_saved_pending_def Let_def split: option.splits)

lemma schedule_saved_pending_inv [inv_intros]:
  "tq_inv tq \<Longrightarrow> tq_inv (snd (schedule_saved_pending tq s))"
  by (auto simp: tq_defs schedule_saved_pending_def Let_def split: option.splits)

lemma schedule_pending_dedup [inv_intros]:
  "tq_dedup tq \<Longrightarrow> tq_dedup (snd (schedule_pending tq ty pos prio))"
  by (simp add: schedule_pending_def schedule_saved_pending_dedup)

lemma schedule_pending_ordered [inv_intros]:
  "tq_ordered tq \<Longrightarrow> tq_ordered (snd (schedule_pending tq ty pos prio))"
  by (auto simp: tq_ordered_def schedule_pending_def schedule_saved_pending_def Let_def split: option.splits)

subsection \<open>Construction from storage\<close>

lemma insert_saved_keys_set: "insert_saved_keys ss ks = ks \<union> saved_key ` set ss"
  by (induction ss arbitrary: ks) auto

lemma tq_dedup_new [inv_intros]: "tq_dedup tl_new" "tq_dedup tl_new_pending"
  by (simp_all add: tq_defs tl_new_def tl_new_pending_def)

lemma from_saved_ticks_inv [inv_intros]: "tq_inv (from_saved_ticks ss)"
  by (auto simp: tq_defs from_saved_ticks_def tl_new_pending_def insert_saved_keys_set)

lemma from_saved_ticks_dedup:
  "tq_dedup (from_saved_ticks ss) \<longleftrightarrow> distinct (map saved_key ss)"
  by (auto simp: tq_defs from_saved_ticks_def tl_new_pending_def insert_saved_keys_set)

lemma schedule_all_saved_dedup: "tq_dedup tq \<Longrightarrow> tq_dedup (schedule_all_saved ss tq)"
  by (induction ss arbitrary: tq) (auto intro: schedule_saved_pending_dedup)

lemma from_proto_saved_ticks_dedup [inv_intros]: "tq_dedup (from_proto_saved_ticks ss)"
  unfolding from_proto_saved_ticks_def by (intro schedule_all_saved_dedup inv_intros)

subsection \<open>Removing pending entries\<close>

lemma retain_pending_eq:
  "retain_pending p ss ks = (filter (\<lambda>s. \<not> p s) ss, ks - saved_key ` set (filter p ss))"
  by (induction ss arbitrary: ks) (auto split: prod.splits)

lemma remove_pending_matching_eq:
  "remove_pending_matching tq p =
     (length (filter p (pending_entries tq)),
      tq\<lparr>pending_ticks := map_option (filter (\<lambda>s. \<not> p s)) (pending_ticks tq),
         scheduled := scheduled tq - saved_key ` set (filter p (pending_entries tq))\<rparr>)"
proof (cases "pending_ticks tq")
  case (Some ps)
  have "length ps - length (filter (\<lambda>s. \<not> p s) ps) = length (filter p ps)"
    using sum_length_filter_compl [of p ps] by simp
  with Some show ?thesis
    by (simp add: remove_pending_matching_def retain_pending_eq pending_entries_def)
qed (simp add: remove_pending_matching_def pending_entries_def)

lemma remove_pending_matching_inv [inv_intros]:
  "tq_inv tq \<Longrightarrow> tq_inv (snd (remove_pending_matching tq p))"
  by (cases "pending_ticks tq")
    (auto simp: remove_pending_matching_eq tq_inv_def tq_ordered_def tq_keys_def
      pending_entries_def subset_iff image_iff, metis)

lemma remove_pending_matching_ordered [inv_intros]:
  "tq_ordered tq \<Longrightarrow> tq_ordered (snd (remove_pending_matching tq p))"
  by (simp add: remove_pending_matching_eq tq_ordered_def)

lemma remove_pending_matching_dedup [inv_intros]:
  assumes "tq_dedup tq"
  shows "tq_dedup (snd (remove_pending_matching tq p))"
proof (cases "pending_ticks tq")
  case None
  with assms show ?thesis by (simp add: remove_pending_matching_eq tq_defs)
next
  case (Some ps)
  let ?live = "(tick_key \<circ> q_tick) ` set (ticks tq)"
  have dist: "distinct (map saved_key ps @ map (tick_key \<circ> q_tick) (ticks tq))"
    and sched: "scheduled tq = saved_key ` set ps \<union> ?live" and ord: "tq_ordered tq"
    using assms Some by (simp_all add: tq_dedup_def tq_keys_def pending_entries_def)
  have inj: "inj_on saved_key (set ps)"
    using dist by (simp add: distinct_map)
  have disj: "saved_key ` set ps \<inter> ?live = {}"
    using dist by simp
  have "saved_key ` set ps - saved_key ` {s \<in> set ps. p s} = saved_key ` {s \<in> set ps. \<not> p s}"
    using inj by (auto dest: inj_onD)
  then have keys: "(saved_key ` set ps \<union> ?live) - saved_key ` {s \<in> set ps. p s}
     = saved_key ` {s \<in> set ps. \<not> p s} \<union> ?live"
    using disj by blast
  have "saved_key ` {s \<in> set ps. \<not> p s} \<inter> ?live = {}"
    using disj by blast
  then have "distinct (map saved_key (filter (\<lambda>s. \<not> p s) ps) @ map (tick_key \<circ> q_tick) (ticks tq))"
    using dist by (simp add: distinct_map_filter)
  moreover have "remove_pending_matching tq p =
      (length (filter p ps), tq\<lparr>pending_ticks := Some (filter (\<lambda>s. \<not> p s) ps),
         scheduled := scheduled tq - saved_key ` set (filter p ps)\<rparr>)"
    using Some by (simp add: remove_pending_matching_eq pending_entries_def)
  ultimately show ?thesis
    using ord sched keys by (simp add: tq_dedup_def tq_ordered_def tq_keys_def pending_entries_def)
qed

subsection \<open>Peeking and popping\<close>

lemma peek_Some:
  "tl_peek tq = Some t \<longleftrightarrow> (\<exists>q qs. ticks tq = q # qs \<and> q_tick q = t)"
  by (auto simp: tl_peek_def heap_peek_Some split: option.splits)

lemma peek_None: "tl_peek tq = None \<longleftrightarrow> live_ticks tq = []"
  by (auto simp: tl_peek_def live_ticks_def split: option.splits)

lemma peek_ready_eq:
  "peek_ready tq now =
     (case tl_peek tq of None \<Rightarrow> None | Some t \<Rightarrow> if trigger_tick t \<le> now then Some t else None)"
  by (auto simp: peek_ready_def tl_peek_def split: option.splits)

lemma pop_ready_eq:
  "pop_ready tq now =
     (case ticks tq of
        [] \<Rightarrow> None
      | q # qs \<Rightarrow>
          if trigger_tick (q_tick q) \<le> now
          then Some (q_tick q, tq\<lparr>ticks := qs, scheduled := scheduled tq - {tick_key (q_tick q)}\<rparr>)
          else None)"
  by (auto simp: pop_ready_def peek_ready_def split: list.splits)

lemma pop_ready_SomeE:
  assumes "pop_ready tq now = Some (t, tq')"
  obtains q qs where "ticks tq = q # qs" "q_tick q = t" "trigger_tick t \<le> now"
    "tq' = tq\<lparr>ticks := qs, scheduled := scheduled tq - {tick_key t}\<rparr>"
  using assms by (auto simp: pop_ready_eq split: list.splits if_splits)

lemma pop_ready_None: "pop_ready tq now = None \<longleftrightarrow> peek_ready tq now = None"
  by (auto simp: pop_ready_eq peek_ready_def split: list.splits)

lemma pop_ready_peek_ready:
  "pop_ready tq now = Some (t, tq') \<Longrightarrow> peek_ready tq now = Some t"
  by (auto simp: peek_ready_def elim!: pop_ready_SomeE)

lemma peek_least:
  "tq_ordered tq \<Longrightarrow> tl_peek tq = Some t \<Longrightarrow> t' \<in> set (live_ticks tq) \<Longrightarrow>
     drain_key t \<le> drain_key t'"
  unfolding tq_ordered_def tick_heap.heap_ordered_iff_sorted
  by (auto simp: peek_Some live_ticks_def queued_key_def; meson less_imp_le)

lemma drain_key_le_trigger: "drain_key a \<le> drain_key b \<Longrightarrow> trigger_tick a \<le> trigger_tick b"
  by (auto simp: drain_key_def)

lemma peek_trigger_least:
  "tq_ordered tq \<Longrightarrow> tl_peek tq = Some t \<Longrightarrow> t' \<in> set (live_ticks tq) \<Longrightarrow>
     trigger_tick t \<le> trigger_tick t'"
  using peek_least drain_key_le_trigger by blast

lemma peek_ready_None_future:
  "tq_ordered tq \<Longrightarrow> peek_ready tq now = None \<Longrightarrow> t \<in> set (live_ticks tq) \<Longrightarrow> now < trigger_tick t"
  by (fastforce simp: peek_ready_eq peek_None split: option.splits if_splits
      dest: peek_trigger_least)

lemma pop_ready_mset:
  "pop_ready tq now = Some (t, tq') \<Longrightarrow> mset (live_ticks tq) = add_mset t (mset (live_ticks tq'))"
  by (auto simp: live_ticks_def elim!: pop_ready_SomeE)

lemma pop_ready_pending:
  "pop_ready tq now = Some (t, tq') \<Longrightarrow> pending_ticks tq' = pending_ticks tq"
  by (auto elim!: pop_ready_SomeE)

lemma pop_ready_ordered [inv_intros]:
  "tq_ordered tq \<Longrightarrow> pop_ready tq now = Some (t, tq') \<Longrightarrow> tq_ordered tq'"
  by (auto simp: tq_ordered_def heap_ordered_Cons elim!: pop_ready_SomeE)

lemma pop_ready_least:
  "tq_ordered tq \<Longrightarrow> pop_ready tq now = Some (t, tq') \<Longrightarrow> t' \<in> set (live_ticks tq') \<Longrightarrow>
     drain_key t \<le> drain_key t'"
  by (rule peek_least [of tq])
    (auto simp: peek_Some live_ticks_def elim!: pop_ready_SomeE)

lemma pop_ready_keys:
  "pop_ready tq now = Some (t, tq') \<Longrightarrow> mset (tq_keys tq) = add_mset (tick_key t) (mset (tq_keys tq'))"
  by (auto simp: tq_keys_def pending_entries_def elim!: pop_ready_SomeE)

lemma pop_ready_scheduled:
  "pop_ready tq now = Some (t, tq') \<Longrightarrow> scheduled tq' = scheduled tq - {tick_key t}"
  by (auto elim!: pop_ready_SomeE)

lemma pop_ready_dedup [inv_intros]:
  assumes "tq_dedup tq" and pop: "pop_ready tq now = Some (t, tq')"
  shows "tq_dedup tq'"
proof -
  have "distinct (tick_key t # tq_keys tq')"
    using assms pop_ready_keys [OF pop] mset_eq_imp_distinct_iff [of "tq_keys tq" "tick_key t # tq_keys tq'"]
    by (simp add: tq_dedup_def)
  moreover have "set (tq_keys tq) = insert (tick_key t) (set (tq_keys tq'))"
    using arg_cong [OF pop_ready_keys [OF pop], of set_mset] by simp
  ultimately show ?thesis
    using assms pop_ready_scheduled [OF pop] pop_ready_ordered [OF _ pop]
    by (auto simp: tq_dedup_def)
qed

lemma pop_ready_length:
  "pop_ready tq now = Some (t, tq') \<Longrightarrow> length (ticks tq) = Suc (length (ticks tq'))"
  by (auto elim!: pop_ready_SomeE)

lemma live_ticks_empty [simp]: "live_ticks tq = [] \<longleftrightarrow> ticks tq = []"
  by (simp add: live_ticks_def)

subsection \<open>Insertion order breaks ties\<close>

lemma push_unchecked_fresh:
  "tq_fresh tq \<Longrightarrow> Suc (next_insertion_order tq) < 2 ^ 64 \<Longrightarrow> tq_fresh (push_unchecked t tq)"
  by (auto simp: tq_fresh_def wrap_u64_def less_Suc_eq)

lemma heap_push_keeps_head:
  "heap_peek xs = Some y \<Longrightarrow> cmp x y \<noteq> Greater \<Longrightarrow> heap_peek (heap_push cmp x xs) = Some y"
  by (cases xs) auto

lemma schedule_keeps_head:
  assumes fresh: "tq_fresh tq" and head: "tl_peek tq = Some t"
    and le: "drain_key t \<le> (trig, prio, sub)"
  shows "tl_peek (snd (tl_schedule tq ty pos trig prio sub)) = Some t"
proof (cases rule: tl_schedule_cases [of pos ty tq trig prio sub])
  case dup
  then show ?thesis using head by simp
next
  case (added t')
  obtain q qs where q: "ticks tq = q # qs" "q_tick q = t"
    using head by (auto simp: peek_Some)
  have "insertion_order q < next_insertion_order tq"
    using fresh q by (simp add: tq_fresh_def)
  moreover have "drain_key t \<le> drain_key t'"
    using le added(2) by (simp add: drain_key_def)
  ultimately have "queued_key q \<le> queued_key \<lparr>q_tick = t', insertion_order = next_insertion_order tq\<rparr>"
    using q by (auto simp: queued_key_def)
  then have "queued_cmp \<lparr>q_tick = t', insertion_order = next_insertion_order tq\<rparr> q \<noteq> Greater"
    by (simp add: tick_heap.cmp_key)
  with added q show ?thesis
    by (simp add: tl_peek_def)
qed

subsection \<open>Saving and loading\<close>

fun unpacked :: "int \<Rightarrow> int \<Rightarrow> nat \<Rightarrow> nat \<Rightarrow> saved_tick list \<Rightarrow> queued_tick list" where
  "unpacked now n i io [] = []"
| "unpacked now n i io (s # ss) =
     \<lparr>q_tick = anchor_saved now n i s, insertion_order = io\<rparr>
       # unpacked now n (Suc i) (wrap_u64 (Suc io)) ss"

lemma unpack_from_effect:
  "mset (ticks (unpack_from now n i ss tq)) =
     mset (ticks tq) + mset (unpacked now n i (next_insertion_order tq) ss)"
  "pending_ticks (unpack_from now n i ss tq) = pending_ticks tq"
  "scheduled (unpack_from now n i ss tq) = scheduled tq"
  by (induction ss arbitrary: i tq) simp_all

lemma unpack_from_ordered: "tq_ordered tq \<Longrightarrow> tq_ordered (unpack_from now n i ss tq)"
  by (induction ss arbitrary: i tq) (simp_all add: push_unchecked_ordered)

lemma unpacked_keys:
  "map (tick_key \<circ> q_tick) (unpacked now n i io ss) = map saved_key ss"
  by (induction ss arbitrary: i io) (simp_all add: anchor_saved_def tick_key_def saved_key_def)

lemma unpacked_sub_order:
  "map (sub_tick_order \<circ> q_tick) (unpacked now n i io ss) = map (\<lambda>j. - n + int j) [i..<i + length ss]"
  by (induction ss arbitrary: i io) (simp_all add: anchor_saved_def upt_conv_Cons del: upt_Suc)

lemma unpacked_saved:
  "\<forall>s \<in> set ss. in_i32 (delay s) \<Longrightarrow>
     map (saved_of_live now \<circ> q_tick) (unpacked now n i io ss) = ss"
  by (induction ss arbitrary: i io) (simp_all add: anchor_saved_def saved_of_live_def)

lemma mset_keys_unpack: "mset (tq_keys (tl_unpack tq now)) = mset (tq_keys tq)"
proof (cases "pending_ticks tq")
  case (Some ps)
  have "mset (map (tick_key \<circ> q_tick) (ticks (tl_unpack tq now))) =
      image_mset (tick_key \<circ> q_tick) (mset (ticks tq))
      + image_mset (tick_key \<circ> q_tick) (mset (unpacked now (int (length ps)) 0 (next_insertion_order tq) ps))"
    using Some by (simp add: tl_unpack_def unpack_from_effect)
  also have "image_mset (tick_key \<circ> q_tick) (mset (unpacked now (int (length ps)) 0 (next_insertion_order tq) ps))
      = mset (map saved_key ps)"
    by (simp only: unpacked_keys flip: mset_map)
  finally show ?thesis
    using Some by (simp add: tq_keys_def pending_entries_def tl_unpack_def unpack_from_effect comp_def)
qed (simp add: tl_unpack_def)

lemma unpack_ordered [inv_intros]: "tq_ordered tq \<Longrightarrow> tq_ordered (tl_unpack tq now)"
  by (auto simp: tl_unpack_def tq_ordered_def [of "_\<lparr>pending_ticks := _\<rparr>"] simp flip: tq_ordered_def
      split: option.splits intro!: unpack_from_ordered)

lemma scheduled_unpack [simp]: "scheduled (tl_unpack tq now) = scheduled tq"
  by (auto simp: tl_unpack_def unpack_from_effect split: option.splits)

lemma unpack_dedup [inv_intros]: "tq_dedup tq \<Longrightarrow> tq_dedup (tl_unpack tq now)"
  using mset_keys_unpack [of tq now] mset_eq_setD mset_eq_imp_distinct_iff
  by (metis scheduled_unpack tq_dedup_def unpack_ordered)

lemma unpack_inv [inv_intros]: "tq_inv tq \<Longrightarrow> tq_inv (tl_unpack tq now)"
  using mset_keys_unpack [of tq now] mset_eq_setD
  by (metis scheduled_unpack tq_inv_def unpack_ordered)

lemma unpack_idem: "tl_unpack (tl_unpack tq now) later = tl_unpack tq now"
proof -
  have "pending_ticks (tl_unpack tq now) = None"
    by (auto simp: tl_unpack_def unpack_from_effect split: option.splits)
  then show ?thesis by (simp add: tl_unpack_def [of "tl_unpack tq now"])
qed

lemma pack_unpacked:
  assumes ticks: "mset (ticks tq) = mset (unpacked now n i io ss)"
    and pending: "pending_ticks tq = None" and delays: "\<forall>s \<in> set ss. in_i32 (delay s)"
  shows "tl_pack (packing_snapshot_of tq) now = ss"
proof -
  let ?pair = "\<lambda>q. (q_tick q, insertion_order q)"
  let ?key = "\<lambda>(t, io). (sub_tick_order t, io)"
  let ?us = "map ?pair (unpacked now n i io ss)"
  have subs: "map (fst \<circ> ?key) ?us = map (\<lambda>j. - n + int j) [i..<i + length ss]"
    by (simp add: unpacked_sub_order comp_def flip: map_map)
      (use unpacked_sub_order [of now n i io ss] in \<open>simp add: comp_def\<close>)
  have strict: "sorted_wrt (<) (map (fst \<circ> ?key) ?us)"
    unfolding subs sorted_wrt_map by (rule sorted_wrt_mono_rel [OF _ sorted_wrt_upt]) simp
  have sorted: "sorted (map ?key ?us)"
    using strict unfolding sorted_wrt_map by (rule sorted_wrt_mono_rel [rotated]) (auto simp: less_eq_prod_def)
  have "distinct (map (fst \<circ> ?key) ?us)"
    using strict by (simp add: strict_sorted_iff)
  then have inj: "inj_on ?key (set ?us)"
    by (metis distinct_map inj_on_imageI2 map_map)
  have "sort_key ?key (map ?pair (ticks tq)) = ?us"
    using sorted inj ticks by (intro sort_key_inj_key_eq) (auto simp: mset_map dest: mset_eq_setD)
  then show ?thesis
    using pending delays by (simp add: tl_pack_def packing_snapshot_of_def comp_def unpacked_saved [unfolded comp_def])
qed

lemma pack_from_saved:
  assumes "\<forall>s \<in> set ss. in_i32 (delay s)"
  shows "tl_pack (packing_snapshot_of (tl_unpack (from_saved_ticks ss) now)) now = ss"
  by (rule pack_unpacked [where n = "int (length ss)" and i = 0 and io = 0])
    (use assms in \<open>simp_all add: from_saved_ticks_def tl_new_pending_def tl_unpack_def unpack_from_effect\<close>)

end
