(* ===== verification/TickContainer.thy ===== *)
theory TickContainer
  imports TickQueue
begin

text \<open>
  The scheduled-tick container of one chunk
  (\<open>ChunkTickContainer\<close> in \<open>foton-core/src/world/tick_scheduler/mod.rs\<close>): two tick lists
  behind one lock, with a lifecycle that decides which operations are open. Every operation
  takes the lock for its whole body, so it is one atomic step on the state.
\<close>

datatype tick_kind = BlockKind | FluidKind

datatype container_lifecycle = Proto | PrePublication | Registered | Finalized

record tick_container =
  lifecycle :: container_lifecycle
  block_list :: tick_list
  fluid_list :: tick_list

text \<open>\<open>ChunkTickLists::block\<close>, \<open>fluid\<close> and their mutable versions, by kind.\<close>

fun select_list :: "tick_kind \<Rightarrow> tick_container \<Rightarrow> tick_list" where
  "select_list BlockKind c = block_list c"
| "select_list FluidKind c = fluid_list c"

fun update_list :: "tick_kind \<Rightarrow> tick_list \<Rightarrow> tick_container \<Rightarrow> tick_container" where
  "update_list BlockKind tq c = c\<lparr>block_list := tq\<rparr>"
| "update_list FluidKind tq c = c\<lparr>fluid_list := tq\<rparr>"

definition container_new :: "tick_list \<Rightarrow> tick_list \<Rightarrow> tick_container" where
  "container_new b f = \<lparr>lifecycle = PrePublication, block_list = b, fluid_list = f\<rparr>"

definition container_new_proto :: "tick_list \<Rightarrow> tick_list \<Rightarrow> tick_container" where
  "container_new_proto b f = \<lparr>lifecycle = Proto, block_list = b, fluid_list = f\<rparr>"

definition promote_to_full :: "tick_container \<Rightarrow> bool \<times> tick_container" where
  "promote_to_full c =
     (if lifecycle c \<noteq> Proto then (False, c) else (True, c\<lparr>lifecycle := PrePublication\<rparr>))"

definition schedule_unregistered ::
  "tick_kind \<Rightarrow> tick_container \<Rightarrow> nat \<Rightarrow> block_pos \<Rightarrow> int \<Rightarrow> tick_priority \<Rightarrow> int
     \<Rightarrow> bool option \<times> tick_container" where
  "schedule_unregistered k c ty pos trig prio sub =
     (if lifecycle c = PrePublication
      then (case tl_schedule (select_list k c) ty pos trig prio sub of
              (added, tq) \<Rightarrow> (Some added, update_list k tq c))
      else (None, c))"

definition schedule_unregistered_block ::
  "tick_container \<Rightarrow> nat \<Rightarrow> block_pos \<Rightarrow> int \<Rightarrow> tick_priority \<Rightarrow> int \<Rightarrow> bool option \<times> tick_container" where
  "schedule_unregistered_block = schedule_unregistered BlockKind"

definition schedule_unregistered_fluid ::
  "tick_container \<Rightarrow> nat \<Rightarrow> block_pos \<Rightarrow> int \<Rightarrow> tick_priority \<Rightarrow> int \<Rightarrow> bool option \<times> tick_container" where
  "schedule_unregistered_fluid = schedule_unregistered FluidKind"

definition schedule_pending_on ::
  "tick_kind \<Rightarrow> tick_container \<Rightarrow> nat \<Rightarrow> block_pos \<Rightarrow> tick_priority \<Rightarrow> bool option \<times> tick_container" where
  "schedule_pending_on k c ty pos prio =
     (if lifecycle c = Proto
      then (case schedule_pending (select_list k c) ty pos prio of
              (added, tq) \<Rightarrow> (Some added, update_list k tq c))
      else (None, c))"

definition schedule_pending_block ::
  "tick_container \<Rightarrow> nat \<Rightarrow> block_pos \<Rightarrow> tick_priority \<Rightarrow> bool option \<times> tick_container" where
  "schedule_pending_block = schedule_pending_on BlockKind"

definition schedule_pending_fluid ::
  "tick_container \<Rightarrow> nat \<Rightarrow> block_pos \<Rightarrow> tick_priority \<Rightarrow> bool option \<times> tick_container" where
  "schedule_pending_fluid = schedule_pending_on FluidKind"

definition pending_block_snapshot :: "tick_container \<Rightarrow> saved_tick list option" where
  "pending_block_snapshot c =
     (if lifecycle c = Proto then Some (pending_entries (block_list c)) else None)"

definition remove_pending_blocks_matching ::
  "tick_container \<Rightarrow> (saved_tick \<Rightarrow> bool) \<Rightarrow> nat option \<times> tick_container" where
  "remove_pending_blocks_matching c p =
     (if lifecycle c = Proto
      then (case remove_pending_matching (block_list c) p of
              (n, tq) \<Rightarrow> (Some n, c\<lparr>block_list := tq\<rparr>))
      else (None, c))"

definition has_block :: "tick_container \<Rightarrow> block_pos \<Rightarrow> nat \<Rightarrow> bool option" where
  "has_block c pos ty =
     (if lifecycle c \<noteq> Finalized then Some (has_tick (block_list c) pos ty) else None)"

definition has_fluid :: "tick_container \<Rightarrow> block_pos \<Rightarrow> nat \<Rightarrow> bool option" where
  "has_fluid c pos ty =
     (if lifecycle c \<noteq> Finalized then Some (has_tick (fluid_list c) pos ty) else None)"

text \<open>
  \<open>current_tick\<close> is read under the lock the lists are read under: the model passes the value the
  closure returns there.
\<close>

definition container_snapshot ::
  "tick_container \<Rightarrow> int \<Rightarrow> (saved_tick list \<times> saved_tick list) option" where
  "container_snapshot c current_tick =
     (if lifecycle c = Finalized then None
      else Some (tl_pack (packing_snapshot_of (block_list c)) current_tick,
                 tl_pack (packing_snapshot_of (fluid_list c)) current_tick))"

section \<open>Selection and invariant\<close>

lemma select_update [simp]:
  "select_list k (update_list k tq c) = tq"
  "k \<noteq> k' \<Longrightarrow> select_list k' (update_list k tq c) = select_list k' c"
  "lifecycle (update_list k tq c) = lifecycle c"
  by (cases k; cases k'; simp)+

lemma select_list_lifecycle_update [simp]:
  "select_list k (c\<lparr>lifecycle := l\<rparr>) = select_list k c"
  by (cases k) simp_all

lemma update_list_same [simp]: "update_list k (select_list k c) c = c"
  by (cases k) simp_all

definition container_ordered :: "tick_container \<Rightarrow> bool" where
  "container_ordered c \<longleftrightarrow> (\<forall>k. tq_ordered (select_list k c))"

definition container_dedup :: "tick_container \<Rightarrow> bool" where
  "container_dedup c \<longleftrightarrow> (\<forall>k. tq_dedup (select_list k c))"

lemma container_ordered_update:
  "container_ordered c \<Longrightarrow> tq_ordered tq \<Longrightarrow> container_ordered (update_list k tq c)"
  unfolding container_ordered_def by (metis select_update(1,2))

lemma container_dedup_update:
  "container_dedup c \<Longrightarrow> tq_dedup tq \<Longrightarrow> container_dedup (update_list k tq c)"
  unfolding container_dedup_def by (metis select_update(1,2))

lemma container_ordered_lifecycle [simp]:
  "container_ordered (c\<lparr>lifecycle := l\<rparr>) = container_ordered c"
  "container_dedup (c\<lparr>lifecycle := l\<rparr>) = container_dedup c"
  by (simp_all add: container_ordered_def container_dedup_def)

lemma container_select [dest]:
  "container_ordered c \<Longrightarrow> tq_ordered (select_list k c)"
  "container_dedup c \<Longrightarrow> tq_dedup (select_list k c)"
  by (simp_all add: container_ordered_def container_dedup_def)

text \<open>
  The operations a chunk owner may call on an unregistered container, as one step relation,
  and the lifecycle it may only move forward through.
\<close>

fun lifecycle_rank :: "container_lifecycle \<Rightarrow> nat" where
  "lifecycle_rank Proto = 0"
| "lifecycle_rank PrePublication = 1"
| "lifecycle_rank Registered = 2"
| "lifecycle_rank Finalized = 3"

inductive container_step :: "tick_container \<Rightarrow> tick_container \<Rightarrow> bool" where
  cs_promote: "container_step c (snd (promote_to_full c))"
| cs_unregistered: "container_step c (snd (schedule_unregistered k c ty pos trig prio sub))"
| cs_pending: "container_step c (snd (schedule_pending_on k c ty pos prio))"
| cs_remove: "container_step c (snd (remove_pending_blocks_matching c p))"

inductive_cases container_stepE: "container_step c c'"

lemma container_step_dedup:
  "container_step c c' \<Longrightarrow> container_dedup c \<Longrightarrow> container_dedup c'"
proof (induction rule: container_step.induct)
  case (cs_promote c)
  then show ?case by (simp add: promote_to_full_def)
next
  case (cs_unregistered c k ty pos trig prio sub)
  then show ?case
    using tl_schedule_dedup [OF container_select(2) [of c k], of ty pos trig prio sub]
    by (auto simp: schedule_unregistered_def split: prod.splits intro!: container_dedup_update)
next
  case (cs_pending c k ty pos prio)
  then show ?case
    using schedule_pending_dedup [OF container_select(2) [of c k], of ty pos prio]
    by (auto simp: schedule_pending_on_def split: prod.splits intro!: container_dedup_update)
next
  case (cs_remove c p)
  then show ?case
    using remove_pending_matching_dedup [of "block_list c" p] container_select(2) [of c BlockKind]
      container_dedup_update [of c _ BlockKind]
    by (auto simp: remove_pending_blocks_matching_def split: prod.splits)
qed

lemma container_step_ordered:
  "container_step c c' \<Longrightarrow> container_ordered c \<Longrightarrow> container_ordered c'"
proof (induction rule: container_step.induct)
  case (cs_promote c)
  then show ?case by (simp add: promote_to_full_def)
next
  case (cs_unregistered c k ty pos trig prio sub)
  then show ?case
    using tl_schedule_ordered [OF container_select(1) [of c k], of ty pos trig prio sub]
    by (auto simp: schedule_unregistered_def split: prod.splits intro!: container_ordered_update)
next
  case (cs_pending c k ty pos prio)
  then show ?case
    using schedule_pending_ordered [OF container_select(1) [of c k], of ty pos prio]
    by (auto simp: schedule_pending_on_def split: prod.splits intro!: container_ordered_update)
next
  case (cs_remove c p)
  then show ?case
    using remove_pending_matching_ordered [of "block_list c" p] container_select(1) [of c BlockKind]
      container_ordered_update [of c _ BlockKind]
    by (auto simp: remove_pending_blocks_matching_def split: prod.splits)
qed

lemma container_step_lifecycle:
  "container_step c c' \<Longrightarrow>
     lifecycle c' = lifecycle c \<or> lifecycle c = Proto \<and> lifecycle c' = PrePublication"
  by (induction rule: container_step.induct)
    (auto simp: promote_to_full_def schedule_unregistered_def schedule_pending_on_def
      remove_pending_blocks_matching_def split: prod.splits)

lemma container_step_closed:
  "container_step c c' \<Longrightarrow> lifecycle c \<in> {Registered, Finalized} \<Longrightarrow> c' = c"
  by (induction rule: container_step.induct)
    (auto simp: promote_to_full_def schedule_unregistered_def schedule_pending_on_def
      remove_pending_blocks_matching_def)

end
