(* ===== verification/OrderedSet.thy ===== *)
theory OrderedSet
  imports Prelude
begin

text \<open>
  \<open>std::collections::BTreeSet\<close> as the components use it: the strictly increasing list of its
  elements. \<open>insert\<close> and \<open>remove\<close> answer whether the set changed.
\<close>

definition btree_insert :: "'a::linorder \<Rightarrow> 'a list \<Rightarrow> bool \<times> 'a list" where
  "btree_insert x xs = (if x \<in> set xs then (False, xs) else (True, insort x xs))"

definition btree_remove :: "'a \<Rightarrow> 'a list \<Rightarrow> bool \<times> 'a list" where
  "btree_remove x xs = (if x \<in> set xs then (True, remove1 x xs) else (False, xs))"

definition btree_ok :: "'a::linorder list \<Rightarrow> bool" where
  "btree_ok xs \<longleftrightarrow> sorted xs \<and> distinct xs"

lemma btree_ok_Nil [simp]: "btree_ok []"
  by (simp add: btree_ok_def)

lemma btree_ok_Cons:
  "btree_ok (x # xs) \<longleftrightarrow> (\<forall>y \<in> set xs. x < y) \<and> btree_ok xs"
  by (auto simp: btree_ok_def order.order_iff_strict)

lemma btree_insert_ok [inv_intros]: "btree_ok xs \<Longrightarrow> btree_ok (snd (btree_insert x xs))"
  by (auto simp: btree_ok_def btree_insert_def sorted_insort distinct_insort)

lemma btree_insert_set [simp]: "set (snd (btree_insert x xs)) = insert x (set xs)"
  by (auto simp: btree_insert_def set_insort_key)

lemma btree_insert_fst [simp]: "fst (btree_insert x xs) \<longleftrightarrow> x \<notin> set xs"
  by (simp add: btree_insert_def)

lemma btree_remove_ok [inv_intros]: "btree_ok xs \<Longrightarrow> btree_ok (snd (btree_remove x xs))"
  by (auto simp: btree_ok_def btree_remove_def sorted_remove1)

lemma btree_remove_set [simp]: "btree_ok xs \<Longrightarrow> set (snd (btree_remove x xs)) = set xs - {x}"
  by (auto simp: btree_remove_def btree_ok_def)

lemma btree_remove_fst [simp]: "fst (btree_remove x xs) \<longleftrightarrow> x \<in> set xs"
  by (simp add: btree_remove_def)

end
