(* ===== verification/TickScheduler.thy ===== *)
theory TickScheduler
  imports TickContainer OrderedSet
begin

text \<open>
  The world index over the registered containers
  (\<open>foton-core/src/world/tick_scheduler/scheduler.rs\<close>).

  A container is shared by its chunk and by the scheduler through an \<open>Arc\<close>: \<open>store\<close> maps the
  address of a container to its state, and \<open>Arc::ptr_eq\<close> is equality of addresses. The phase
  lock and the two mutexes make every operation one atomic step on the whole state; no callback
  runs inside an operation. An assertion that fails or a \<open>panic!\<close> is the left value of the
  outer sum; an \<open>Err\<close> of the source is the left value of the inner one, next to the state the
  operation has left behind.
\<close>

section \<open>State\<close>

datatype tick_error =
    AlreadyRegistered chunk_pos
  | MissingContainer chunk_pos
  | ContainerMismatch chunk_pos

datatype tick_panic =
    HeadAbsentFromIndex
  | DeadlineAlreadyIndexed
  | DeadlineLostContainer
  | DeadlineDiverged
  | InactiveDeadline
  | ChunkAppearedTwice
  | ContainerNotRegistered
  | HeadIndexInvariant tick_error

record active_rank_entry =
  generation :: nat
  rank :: nat

record registered_chunk =
  reg_container :: nat
  block_head :: "int option"
  fluid_head :: "int option"
  active :: "active_rank_entry option"

record sched_state =
  chunks :: "chunk_pos \<Rightarrow> registered_chunk option"
  active_block_deadlines :: "(int \<times> int) list"
  active_fluid_deadlines :: "(int \<times> int) list"
  active_generation :: nat

record tick_world =
  store :: "nat \<Rightarrow> tick_container"
  sched :: sched_state
  next_sub_tick :: int

text \<open>A \<open>FullChunkRef\<close>: the chunk's position and its container.\<close>

record full_chunk =
  fc_pos :: chunk_pos
  fc_container :: nat

definition scheduler_new :: "(nat \<Rightarrow> tick_container) \<Rightarrow> tick_world" where
  "scheduler_new st =
     \<lparr>store = st,
      sched = \<lparr>chunks = (\<lambda>_. None), active_block_deadlines = [], active_fluid_deadlines = [],
               active_generation = 0\<rparr>,
      next_sub_tick = 0\<rparr>"

definition next_sub_tick_order :: "tick_world \<Rightarrow> int \<times> tick_world" where
  "next_sub_tick_order w =
     (next_sub_tick w, w\<lparr>next_sub_tick := wrap_i64 (next_sub_tick w + 1)\<rparr>)"

fun reg_head :: "tick_kind \<Rightarrow> registered_chunk \<Rightarrow> int option" where
  "reg_head BlockKind r = block_head r"
| "reg_head FluidKind r = fluid_head r"

fun reg_set_head :: "tick_kind \<Rightarrow> int option \<Rightarrow> registered_chunk \<Rightarrow> registered_chunk" where
  "reg_set_head BlockKind v r = r\<lparr>block_head := v\<rparr>"
| "reg_set_head FluidKind v r = r\<lparr>fluid_head := v\<rparr>"

definition active_rank :: "nat \<Rightarrow> registered_chunk \<Rightarrow> nat option" where
  "active_rank gen r =
     (case active r of
        Some a \<Rightarrow> if generation a = gen then Some (rank a) else None
      | None \<Rightarrow> None)"

definition advance_active_generation :: "sched_state \<Rightarrow> nat \<times> sched_state" where
  "advance_active_generation s =
     (if active_generation s + 1 < 2 ^ 64
      then (active_generation s + 1, s\<lparr>active_generation := active_generation s + 1\<rparr>)
      else (1, s\<lparr>chunks := (\<lambda>p. map_option (\<lambda>r. r\<lparr>active := None\<rparr>) (chunks s p)),
                active_generation := 1\<rparr>))"

fun deadlines :: "tick_kind \<Rightarrow> sched_state \<Rightarrow> (int \<times> int) list" where
  "deadlines BlockKind s = active_block_deadlines s"
| "deadlines FluidKind s = active_fluid_deadlines s"

fun deadlines_update :: "tick_kind \<Rightarrow> (int \<times> int) list \<Rightarrow> sched_state \<Rightarrow> sched_state" where
  "deadlines_update BlockKind ds s = s\<lparr>active_block_deadlines := ds\<rparr>"
| "deadlines_update FluidKind ds s = s\<lparr>active_fluid_deadlines := ds\<rparr>"

definition deadline_remove ::
  "tick_kind \<Rightarrow> int option \<Rightarrow> int \<Rightarrow> sched_state \<Rightarrow> tick_panic + sched_state" where
  "deadline_remove k t packed s =
     (case t of
        None \<Rightarrow> Inr s
      | Some t \<Rightarrow>
          (case btree_remove (t, packed) (deadlines k s) of
             (removed, ds) \<Rightarrow>
               if removed then Inr (deadlines_update k ds s) else Inl HeadAbsentFromIndex))"

definition deadline_insert ::
  "tick_kind \<Rightarrow> int option \<Rightarrow> int \<Rightarrow> tick_panic \<Rightarrow> sched_state \<Rightarrow> tick_panic + sched_state" where
  "deadline_insert k t packed failure s =
     (case t of
        None \<Rightarrow> Inr s
      | Some t \<Rightarrow>
          (case btree_insert (t, packed) (deadlines k s) of
             (added, ds) \<Rightarrow> if added then Inr (deadlines_update k ds s) else Inl failure))"

definition set_head ::
  "sched_state \<Rightarrow> chunk_pos \<Rightarrow> tick_kind \<Rightarrow> int option
     \<Rightarrow> tick_panic + (tick_error + unit) \<times> sched_state" where
  "set_head s pos k v =
     (case chunks s pos of
        None \<Rightarrow> Inr (Inl (MissingContainer pos), s)
      | Some r \<Rightarrow>
          (let act = (active_rank (active_generation s) r \<noteq> None);
               previous = reg_head k r;
               packed = packed_chunk_pos pos
           in if previous = v then Inr (Inr (), s)
              else bind_result (if act then deadline_remove k previous packed s else Inr s)
                (\<lambda>s1. bind_result
                  (let s2 = s1\<lparr>chunks := (chunks s1)(pos \<mapsto> reg_set_head k v r)\<rparr>
                   in if act then deadline_insert k v packed DeadlineAlreadyIndexed s2 else Inr s2)
                  (\<lambda>s3. Inr (Inr (), s3)))))"

record active_container =
  ac_pos :: chunk_pos
  ac_rank :: nat
  ac_container :: nat

lemma deadlines_update_simps [simp]:
  "deadlines k (deadlines_update k ds s) = ds"
  "k \<noteq> k' \<Longrightarrow> deadlines k' (deadlines_update k ds s) = deadlines k' s"
  "chunks (deadlines_update k ds s) = chunks s"
  "active_generation (deadlines_update k ds s) = active_generation s"
  "deadlines k (s\<lparr>chunks := c\<rparr>) = deadlines k s"
  "deadlines k (s\<lparr>active_generation := g\<rparr>) = deadlines k s"
  by (cases k; cases k'; simp)+

function take_due ::
  "tick_kind \<Rightarrow> int \<Rightarrow> sched_state \<Rightarrow> active_container list
     \<Rightarrow> tick_panic + active_container list \<times> sched_state" where
  "take_due k now s due =
     (case deadlines k s of
        [] \<Rightarrow> Inr (due, s)
      | (t, packed) # rest \<Rightarrow>
          if now < t then Inr (due, s)
          else
            (let s1 = deadlines_update k rest s; pos = to_chunk_pos packed
             in case chunks s1 pos of
                  None \<Rightarrow> Inl DeadlineLostContainer
                | Some r \<Rightarrow>
                    if reg_head k r \<noteq> Some t then Inl DeadlineDiverged
                    else (case active_rank (active_generation s1) r of
                            None \<Rightarrow> Inl InactiveDeadline
                          | Some rk \<Rightarrow>
                              take_due k now
                                (s1\<lparr>chunks := (chunks s1)(pos \<mapsto> reg_set_head k None r)\<rparr>)
                                (due @ [\<lparr>ac_pos = pos, ac_rank = rk,
                                         ac_container = reg_container r\<rparr>]))))"
  by pat_completeness auto
termination
  by (relation "measure (\<lambda>(k, now, s, due). length (deadlines k s))") auto

declare take_due.simps [simp del]

section \<open>Registration\<close>

definition list_head :: "tick_list \<Rightarrow> int option" where
  "list_head tq = map_option trigger_tick (tl_peek tq)"

definition set_container :: "nat \<Rightarrow> tick_container \<Rightarrow> tick_world \<Rightarrow> tick_world" where
  "set_container h c w = w\<lparr>store := (store w)(h := c)\<rparr>"

definition register_chunk ::
  "tick_world \<Rightarrow> full_chunk \<Rightarrow> (tick_error + unit) \<times> tick_world" where
  "register_chunk w fc =
     (let c = store w (fc_container fc)
      in if lifecycle c \<noteq> PrePublication then (Inl (AlreadyRegistered (fc_pos fc)), w)
         else if chunks (sched w) (fc_pos fc) \<noteq> None then (Inl (AlreadyRegistered (fc_pos fc)), w)
         else (Inr (),
           set_container (fc_container fc) (c\<lparr>lifecycle := Registered\<rparr>)
             (w\<lparr>sched := (sched w)\<lparr>chunks := (chunks (sched w))(fc_pos fc \<mapsto>
                \<lparr>reg_container = fc_container fc, block_head = list_head (block_list c),
                 fluid_head = list_head (fluid_list c), active = None\<rparr>)\<rparr>\<rparr>)))"

text \<open>The \<open>?\<close> after \<open>set_head\<close>: an error ends the operation, a success goes on.\<close>

definition then_set_head ::
  "chunk_pos \<Rightarrow> tick_kind \<Rightarrow> int option \<Rightarrow> tick_world
     \<Rightarrow> tick_panic + (tick_error + unit) \<times> tick_world" where
  "then_set_head pos k v w =
     bind_result (set_head (sched w) pos k v) (\<lambda>(r, s). Inr (r, w\<lparr>sched := s\<rparr>))"

definition unpack_chunk ::
  "tick_world \<Rightarrow> chunk_pos \<Rightarrow> int \<Rightarrow> tick_panic + (tick_error + unit) \<times> tick_world" where
  "unpack_chunk w pos now =
     (case chunks (sched w) pos of
        None \<Rightarrow> Inr (Inl (MissingContainer pos), w)
      | Some r \<Rightarrow>
          (let h = reg_container r; c = store w h
           in if lifecycle c \<noteq> Registered then Inr (Inl (MissingContainer pos), w)
              else
                let c1 = c\<lparr>block_list := tl_unpack (block_list c) now,
                           fluid_list := tl_unpack (fluid_list c) now\<rparr>;
                    w1 = set_container h c1 w
                in bind_result (then_set_head pos BlockKind (list_head (block_list c1)) w1)
                     (\<lambda>(res, w2). case res of
                        Inl e \<Rightarrow> Inr (Inl e, w2)
                      | Inr _ \<Rightarrow> then_set_head pos FluidKind (list_head (fluid_list c1)) w2)))"

definition unregister_chunk :: "tick_world \<Rightarrow> chunk_pos \<Rightarrow> tick_panic + tick_world" where
  "unregister_chunk w pos =
     (case chunks (sched w) pos of
        None \<Rightarrow> Inr w
      | Some r \<Rightarrow>
          (let s0 = (sched w)\<lparr>chunks := (chunks (sched w))(pos := None)\<rparr>;
               packed = packed_chunk_pos pos
           in bind_result
                (if active_rank (active_generation s0) r \<noteq> None
                 then bind_result (deadline_remove BlockKind (block_head r) packed s0)
                        (deadline_remove FluidKind (fluid_head r) packed)
                 else Inr s0)
                (\<lambda>s. Inr (set_container (reg_container r)
                   ((store w (reg_container r))\<lparr>lifecycle := Finalized\<rparr>) (w\<lparr>sched := s\<rparr>)))))"

fun reconcile_from ::
  "nat \<Rightarrow> nat \<Rightarrow> chunk_pos list \<Rightarrow> sched_state
     \<Rightarrow> tick_panic + (tick_error + unit) \<times> sched_state" where
  "reconcile_from gen rk [] s = Inr (Inr (), s)"
| "reconcile_from gen rk (pos # ps) s =
     (case chunks s pos of
        None \<Rightarrow> Inr (Inl (MissingContainer pos), s)
      | Some r \<Rightarrow>
          if (case active r of None \<Rightarrow> False | Some a \<Rightarrow> generation a = gen)
          then Inl ChunkAppearedTwice
          else
            (let s1 = s\<lparr>chunks := (chunks s)(pos \<mapsto>
                        r\<lparr>active := Some \<lparr>generation = gen, rank = rk\<rparr>\<rparr>)\<rparr>;
                 packed = packed_chunk_pos pos
             in bind_result (deadline_insert BlockKind (block_head r) packed ChunkAppearedTwice s1)
                  (\<lambda>s2. bind_result
                    (deadline_insert FluidKind (fluid_head r) packed ChunkAppearedTwice s2)
                    (\<lambda>s3. reconcile_from gen (Suc rk) ps s3))))"

fun first_missing :: "(chunk_pos \<Rightarrow> registered_chunk option) \<Rightarrow> chunk_pos list \<Rightarrow> chunk_pos option" where
  "first_missing m [] = None"
| "first_missing m (p # ps) = (if m p = None then Some p else first_missing m ps)"

definition reconcile_active_chunks ::
  "tick_world \<Rightarrow> chunk_pos list \<Rightarrow> tick_panic + (tick_error + unit) \<times> tick_world" where
  "reconcile_active_chunks w ps =
     (case first_missing (chunks (sched w)) ps of
        Some p \<Rightarrow> Inr (Inl (MissingContainer p), w)
      | None \<Rightarrow>
          (case advance_active_generation
                  ((sched w)\<lparr>active_block_deadlines := [], active_fluid_deadlines := []\<rparr>) of
             (gen, s1) \<Rightarrow>
               bind_result (reconcile_from gen 0 ps s1) (\<lambda>(r, s). Inr (r, w\<lparr>sched := s\<rparr>))))"

section \<open>Scheduling\<close>

definition schedule_tick ::
  "tick_kind \<Rightarrow> tick_world \<Rightarrow> full_chunk \<Rightarrow> nat \<Rightarrow> block_pos \<Rightarrow> int \<Rightarrow> tick_priority \<Rightarrow> int
     \<Rightarrow> tick_panic + (tick_error + bool) \<times> tick_world" where
  "schedule_tick k w fc ty pos trig prio sub =
     (let h = fc_container fc; c = store w h;
          previous = list_head (select_list k c)
      in if lifecycle c = PrePublication
         then (case tl_schedule (select_list k c) ty pos trig prio sub of
                 (added, tq) \<Rightarrow> Inr (Inr added, set_container h (update_list k tq c) w))
         else if lifecycle c = Finalized then Inr (Inl (MissingContainer (fc_pos fc)), w)
         else
           (case tl_schedule (select_list k c) ty pos trig prio sub of
              (added, tq) \<Rightarrow>
                let w1 = set_container h (update_list k tq c) w
                in if \<not> added then Inr (Inr False, w1)
                   else if list_head tq = previous then Inr (Inr True, w1)
                   else (case chunks (sched w1) (fc_pos fc) of
                           None \<Rightarrow> Inr (Inl (MissingContainer (fc_pos fc)), w1)
                         | Some r \<Rightarrow>
                             if reg_container r \<noteq> h
                             then Inr (Inl (ContainerMismatch (fc_pos fc)), w1)
                             else bind_result (then_set_head (fc_pos fc) k (list_head tq) w1)
                                    (\<lambda>(res, w2). Inr (map_sum id (\<lambda>_. True) res, w2)))))"

definition schedule_block ::
  "tick_world \<Rightarrow> full_chunk \<Rightarrow> nat \<Rightarrow> block_pos \<Rightarrow> int \<Rightarrow> tick_priority \<Rightarrow> int
     \<Rightarrow> tick_panic + (tick_error + bool) \<times> tick_world" where
  "schedule_block = schedule_tick BlockKind"

definition schedule_fluid ::
  "tick_world \<Rightarrow> full_chunk \<Rightarrow> nat \<Rightarrow> block_pos \<Rightarrow> int \<Rightarrow> tick_priority \<Rightarrow> int
     \<Rightarrow> tick_panic + (tick_error + bool) \<times> tick_world" where
  "schedule_fluid = schedule_tick FluidKind"

section \<open>Collection\<close>

record ready_container =
  rc_pos :: chunk_pos
  rc_rank :: nat
  rc_container :: nat
  rc_priority :: tick_priority
  rc_sub_tick_order :: int
  dirty_reported :: bool

definition ready_cmp :: "ready_container \<Rightarrow> ready_container \<Rightarrow> ordering" where
  "ready_cmp a b =
     then_ordering
       (reverse_ordering
          (intra_tick_drain_order (rc_priority a) (rc_sub_tick_order a)
             (rc_priority b) (rc_sub_tick_order b)))
       (cmp_lin (rc_rank b) (rc_rank a))"

definition ready_key :: "ready_container \<Rightarrow> (tick_priority \<times> int) \<times> nat" where
  "ready_key r = ((rc_priority r, rc_sub_tick_order r), rc_rank r)"

interpretation ready_heap: key_cmp ready_cmp ready_key
  by unfold_locales
    (simp add: ready_cmp_def ready_key_def intra_tick_drain_order_def then_cmp_lin reverse_cmp_lin)

definition ready_new :: "active_container \<Rightarrow> scheduled_tick \<Rightarrow> bool \<Rightarrow> ready_container" where
  "ready_new a t dirty =
     \<lparr>rc_pos = ac_pos a, rc_rank = ac_rank a, rc_container = ac_container a,
      rc_priority = priority t, rc_sub_tick_order = sub_tick_order t, dirty_reported = dirty\<rparr>"

definition ready_refresh :: "scheduled_tick \<Rightarrow> ready_container \<Rightarrow> ready_container" where
  "ready_refresh t r = r\<lparr>rc_priority := priority t, rc_sub_tick_order := sub_tick_order t\<rparr>"

type_synonym head_update = "chunk_pos \<times> int option"

fun prepare_ready_containers ::
  "tick_kind \<Rightarrow> int \<Rightarrow> (nat \<Rightarrow> tick_container) \<Rightarrow> active_container list
     \<Rightarrow> ready_container list \<Rightarrow> head_update list
     \<Rightarrow> tick_panic + ready_container list \<times> head_update list" where
  "prepare_ready_containers k now st [] ready ups = Inr (ready, ups)"
| "prepare_ready_containers k now st (a # as) ready ups =
     (let c = st (ac_container a); head = tl_peek (select_list k c)
      in if lifecycle c \<noteq> Registered then Inl ContainerNotRegistered
         else (case head of
                 Some t \<Rightarrow>
                   if trigger_tick t \<le> now
                   then prepare_ready_containers k now st as
                          (heap_push ready_cmp (ready_new a t False) ready) ups
                   else prepare_ready_containers k now st as ready
                          (ups @ [(ac_pos a, Some (trigger_tick t))])
               | None \<Rightarrow>
                   prepare_ready_containers k now st as ready (ups @ [(ac_pos a, None)])))"

text \<open>
  The inner loop: keep draining the current container while its next head is no later, in
  intra-tick order, than the best competing container.
\<close>

function drain_container ::
  "int \<Rightarrow> nat \<Rightarrow> (tick_priority \<times> int) option \<Rightarrow> tick_list \<Rightarrow> scheduled_tick list
     \<Rightarrow> scheduled_tick list \<times> tick_list" where
  "drain_container now max_ticks competing tq ts =
     (if length ts < max_ticks
      then (case peek_ready tq now of
              None \<Rightarrow> (ts, tq)
            | Some nt \<Rightarrow>
                if (case competing of
                      None \<Rightarrow> False
                    | Some (prio, sub) \<Rightarrow>
                        intra_tick_drain_order (priority nt) (sub_tick_order nt) prio sub = Greater)
                then (ts, tq)
                else (case pop_ready tq now of
                        None \<Rightarrow> (ts, tq)
                      | Some (t, tq') \<Rightarrow>
                          drain_container now max_ticks competing tq' (ts @ [t])))
      else (ts, tq))"
  by pat_completeness auto
termination
  by (relation "measure (\<lambda>(now, m, cp, tq, ts). m - length ts)") auto

declare drain_container.simps [simp del]

lemma drain_container_extends:
  "\<exists>us. fst (drain_container now m cp tq ts) = ts @ us"
proof (induction now m cp tq ts rule: drain_container.induct)
  case (1 now m cp tq ts)
  show ?case
    by (subst drain_container.simps)
      (use "1.IH" in \<open>fastforce split: option.splits prod.splits\<close>)
qed

lemma drain_container_length:
  "drain_container now m cp tq ts = (ts', tq') \<Longrightarrow> length ts \<le> length ts'"
  using drain_container_extends [of now m cp tq ts] by auto

text \<open>
  The outer loop of \<open>collect_registered_ticks\<close>. Every iteration either emits a tick or drops a
  ready container, so it ends. The accumulators are the store, the batch, the ranks of the
  containers that changed, and the head updates.
\<close>

record collect_acc =
  acc_store :: "nat \<Rightarrow> tick_container"
  acc_ticks :: "scheduled_tick list"
  acc_changed :: "nat list"
  acc_updates :: "head_update list"

definition competing_key :: "ready_container list \<Rightarrow> (tick_priority \<times> int) option" where
  "competing_key ready =
     map_option (\<lambda>r. (rc_priority r, rc_sub_tick_order r)) (heap_peek ready)"

function collect_loop ::
  "tick_kind \<Rightarrow> int \<Rightarrow> nat \<Rightarrow> ready_container list \<Rightarrow> collect_acc
     \<Rightarrow> tick_panic + ready_container list \<times> collect_acc" where
  "collect_loop k now max_ticks ready acc =
     (if length (acc_ticks acc) < max_ticks
      then (case heap_pop ready of
              None \<Rightarrow> Inr (ready, acc)
            | Some (rc, ready1) \<Rightarrow>
                (let h = rc_container rc; c = acc_store acc h; tq = select_list k c
                 in if lifecycle c \<noteq> Registered then Inl ContainerNotRegistered
                    else
                      (case pop_ready tq now of
                         None \<Rightarrow>
                           collect_loop k now max_ticks ready1
                             (acc\<lparr>acc_updates := acc_updates acc @ [(rc_pos rc, list_head tq)]\<rparr>)
                       | Some (t, tq1) \<Rightarrow>
                           (case drain_container now max_ticks (competing_key ready1) tq1
                                   (acc_ticks acc @ [t]) of
                              (ts, tq2) \<Rightarrow>
                                (let acc1 = acc\<lparr>acc_store := (acc_store acc)(h := update_list k tq2 c),
                                       acc_ticks := ts,
                                       acc_changed := (if dirty_reported rc then acc_changed acc
                                                       else acc_changed acc @ [rc_rank rc])\<rparr>;
                                     rc1 = rc\<lparr>dirty_reported := True\<rparr>
                                 in case tl_peek tq2 of
                                      Some nt \<Rightarrow>
                                        if length ts < max_ticks \<and> trigger_tick nt \<le> now
                                        then collect_loop k now max_ticks
                                               (heap_push ready_cmp (ready_refresh nt rc1) ready1) acc1
                                        else collect_loop k now max_ticks ready1
                                               (acc1\<lparr>acc_updates := acc_updates acc1
                                                  @ [(rc_pos rc, Some (trigger_tick nt))]\<rparr>)
                                    | None \<Rightarrow>
                                        collect_loop k now max_ticks ready1
                                          (acc1\<lparr>acc_updates := acc_updates acc1 @ [(rc_pos rc, None)]\<rparr>))))))
      else Inr (ready, acc))"
  by pat_completeness auto
termination
  by (relation "measures [\<lambda>(k, now, m, ready, acc). m - length (acc_ticks acc),
                          \<lambda>(k, now, m, ready, acc). length ready]")
    (auto simp: heap_pop_Some dest!: drain_container_length [OF sym])

declare collect_loop.simps [simp del]

fun leftover_updates ::
  "tick_kind \<Rightarrow> (nat \<Rightarrow> tick_container) \<Rightarrow> ready_container list \<Rightarrow> head_update list" where
  "leftover_updates k st [] = []"
| "leftover_updates k st (rc # rcs) =
     (rc_pos rc, list_head (select_list k (st (rc_container rc)))) # leftover_updates k st rcs"

record tick_batch =
  batch_ticks :: "scheduled_tick list"
  changed_containers :: "nat list"

definition collect_registered_ticks ::
  "tick_kind \<Rightarrow> (nat \<Rightarrow> tick_container) \<Rightarrow> active_container list \<Rightarrow> int \<Rightarrow> nat
     \<Rightarrow> tick_panic + (tick_batch \<times> head_update list) \<times> (nat \<Rightarrow> tick_container)" where
  "collect_registered_ticks k st due now max_ticks =
     bind_result (prepare_ready_containers k now st due [] [])
       (\<lambda>(ready, ups). bind_result
          (collect_loop k now max_ticks ready
             \<lparr>acc_store = st, acc_ticks = [], acc_changed = [], acc_updates = ups\<rparr>)
          (\<lambda>(ready', acc). Inr
             ((\<lparr>batch_ticks = acc_ticks acc, changed_containers = acc_changed acc\<rparr>,
               acc_updates acc @ leftover_updates k (acc_store acc) ready'),
              acc_store acc)))"

fun apply_head_updates ::
  "tick_kind \<Rightarrow> head_update list \<Rightarrow> sched_state \<Rightarrow> tick_panic + sched_state" where
  "apply_head_updates k [] s = Inr s"
| "apply_head_updates k ((pos, v) # ups) s =
     bind_result (set_head s pos k v)
       (\<lambda>(r, s'). case r of
          Inl e \<Rightarrow> Inl (HeadIndexInvariant e)
        | Inr _ \<Rightarrow> apply_head_updates k ups s')"

definition empty_batch :: tick_batch where
  "empty_batch = \<lparr>batch_ticks = [], changed_containers = []\<rparr>"

definition collect_ticks ::
  "tick_kind \<Rightarrow> tick_world \<Rightarrow> int \<Rightarrow> nat \<Rightarrow> tick_panic + tick_batch \<times> tick_world" where
  "collect_ticks k w now max_ticks =
     (if max_ticks = 0 then Inr (empty_batch, w)
      else bind_result (take_due k now (sched w) [])
        (\<lambda>(due, s1).
           if due = [] then Inr (empty_batch, w\<lparr>sched := s1\<rparr>)
           else bind_result (collect_registered_ticks k (store w) due now max_ticks)
             (\<lambda>((batch, ups), st). bind_result (apply_head_updates k ups s1)
                (\<lambda>s2. Inr (batch, w\<lparr>sched := s2, store := st\<rparr>)))))"

definition begin_tick :: "tick_world \<Rightarrow> int \<Rightarrow> nat \<Rightarrow> tick_panic + tick_batch \<times> tick_world" where
  "begin_tick = collect_ticks BlockKind"

definition collect_fluid_ticks ::
  "tick_world \<Rightarrow> int \<Rightarrow> nat \<Rightarrow> tick_panic + tick_batch \<times> tick_world" where
  "collect_fluid_ticks = collect_ticks FluidKind"

end
