(* ===== verification/TickIndex.thy ===== *)
theory TickIndex
  imports TickScheduler
begin

text \<open>
  The invariant of the world scheduler: the deadline index of a kind holds exactly the heads of
  the active containers, no stamp lies in the future, and every registered chunk mirrors the head
  of its container. The lemmas show that no operation breaks it and that none of the assertions
  of \<open>scheduler.rs\<close> can fail.
\<close>

section \<open>An index of heads by packed position\<close>

definition indexes :: "('p \<Rightarrow> int) \<Rightarrow> (int \<times> int) list \<Rightarrow> ('p \<Rightarrow> int option) \<Rightarrow> bool" where
  "indexes pack ds f \<longleftrightarrow>
     btree_ok ds \<and> (\<forall>t x. (t, x) \<in> set ds \<longleftrightarrow> (\<exists>p. x = pack p \<and> f p = Some t))"

locale deadline_index = packing pack unpack
  for pack :: "'p \<Rightarrow> int" and unpack :: "int \<Rightarrow> 'p"
begin

lemma index_mem: "indexes pack ds f \<Longrightarrow> (t, pack p) \<in> set ds \<longleftrightarrow> f p = Some t"
  by (auto simp: indexes_def pack_eq_iff)

lemma index_remove:
  assumes "indexes pack ds f" and "f p = Some t"
  shows "fst (btree_remove (t, pack p) ds)"
    and "indexes pack (snd (btree_remove (t, pack p) ds)) (f(p := None))"
proof -
  show "fst (btree_remove (t, pack p) ds)"
    using assms by (simp add: index_mem)
  have "btree_ok ds" using assms(1) by (simp add: indexes_def)
  then show "indexes pack (snd (btree_remove (t, pack p) ds)) (f(p := None))"
    using assms by (auto simp: indexes_def btree_remove_ok pack_eq_iff) (metis option.inject)
qed

lemma index_insert:
  assumes "indexes pack ds f" and "f p = None"
  shows "fst (btree_insert (t, pack p) ds)"
    and "indexes pack (snd (btree_insert (t, pack p) ds)) (f(p \<mapsto> t))"
proof -
  show "fst (btree_insert (t, pack p) ds)"
    using assms by (simp add: index_mem)
  have "btree_ok ds" using assms(1) by (simp add: indexes_def)
  then show "indexes pack (snd (btree_insert (t, pack p) ds)) (f(p \<mapsto> t))"
    using assms by (auto simp: indexes_def btree_insert_ok pack_eq_iff)
qed

lemma index_pop:
  assumes "indexes pack ((t, x) # ds) f"
  shows "pack (unpack x) = x" and "f (unpack x) = Some t"
    and "indexes pack ds (f(unpack x := None))"
    and "\<And>p t'. f p = Some t' \<Longrightarrow> t \<le> t'"
proof -
  have mem: "\<And>t' x'. (t', x') \<in> set ((t, x) # ds) \<longleftrightarrow> (\<exists>p. x' = pack p \<and> f p = Some t')"
    and ok: "btree_ok ((t, x) # ds)"
    using assms by (auto simp: indexes_def)
  from mem [of t x] obtain p where p: "x = pack p" "f p = Some t" by auto
  then show px: "pack (unpack x) = x" "f (unpack x) = Some t"
    by (simp_all add: unpack_pack)
  have "(t, x) \<notin> set ds" using ok by (auto simp: btree_ok_Cons)
  then have "\<And>t' x'. (t', x') \<in> set ds \<longleftrightarrow>
      (t', x') \<noteq> (t, x) \<and> (\<exists>p. x' = pack p \<and> f p = Some t')"
    using mem by (metis list.set_intros(2) set_ConsD)
  then show "indexes pack ds (f(unpack x := None))"
    using ok p by (auto simp: indexes_def btree_ok_Cons pack_eq_iff unpack_pack)
      (metis option.inject)
  show "t \<le> t'" if "f p = Some t'" for p t'
  proof -
    have "(t', pack p) = (t, x) \<or> (t, x) < (t', pack p)"
      using mem [of t' "pack p"] ok that by (auto simp: btree_ok_Cons simp del: less_prod_simp)
    then show ?thesis by auto
  qed
qed

lemma index_empty: "indexes pack [] (\<lambda>_. None)"
  by (simp add: indexes_def)

lemma index_cong: "indexes pack ds f \<Longrightarrow> f = g \<Longrightarrow> indexes pack ds g"
  by simp

end

interpretation chunk_index: deadline_index packed_chunk_pos to_chunk_pos
  by unfold_locales

section \<open>The invariant of the index\<close>

definition active_head :: "tick_kind \<Rightarrow> sched_state \<Rightarrow> chunk_pos \<Rightarrow> int option" where
  "active_head k s p =
     (case chunks s p of
        None \<Rightarrow> None
      | Some r \<Rightarrow> if active_rank (active_generation s) r = None then None else reg_head k r)"

definition generations_ok :: "sched_state \<Rightarrow> bool" where
  "generations_ok s \<longleftrightarrow>
     active_generation s < 2 ^ 64 \<and>
     (\<forall>p r a. chunks s p = Some r \<longrightarrow> active r = Some a \<longrightarrow> generation a \<le> active_generation s)"

definition sched_inv :: "sched_state \<Rightarrow> bool" where
  "sched_inv s \<longleftrightarrow>
     (\<forall>k. indexes packed_chunk_pos (deadlines k s) (active_head k s)) \<and> generations_ok s"

lemma reg_head_set [simp]:
  "reg_head k (reg_set_head k v r) = v"
  "k \<noteq> k' \<Longrightarrow> reg_head k' (reg_set_head k v r) = reg_head k' r"
  "active (reg_set_head k v r) = active r"
  "reg_container (reg_set_head k v r) = reg_container r"
  "active_rank g (reg_set_head k v r) = active_rank g r"
  "reg_set_head k (reg_head k r) r = r"
  "reg_set_head k v (reg_set_head k v' r) = reg_set_head k v r"
  by (cases k; cases k'; simp add: active_rank_def)+

lemma active_head_update:
  assumes "chunks s p = Some r"
  shows "active_head k' (s\<lparr>chunks := (chunks s)(p \<mapsto> reg_set_head k v r)\<rparr>) =
     (if k' = k \<and> active_rank (active_generation s) r \<noteq> None
      then (active_head k' s)(p := v) else active_head k' s)"
  using assms by (auto simp: active_head_def fun_eq_iff split: option.split)

lemma active_head_deadlines [simp]:
  "active_head k' (deadlines_update k ds s) = active_head k' s"
  by (auto simp: active_head_def fun_eq_iff split: option.split)

lemma deadline_remove_ok:
  assumes idx: "indexes packed_chunk_pos (deadlines k s) f" and v: "f pos = v"
  shows "\<exists>s'. deadline_remove k v (packed_chunk_pos pos) s = Inr s' \<and>
     indexes packed_chunk_pos (deadlines k s') (f(pos := None)) \<and>
     (\<forall>k'. k' \<noteq> k \<longrightarrow> deadlines k' s' = deadlines k' s) \<and>
     chunks s' = chunks s \<and> active_generation s' = active_generation s"
proof (cases v)
  case None
  then show ?thesis using assms by (simp add: deadline_remove_def fun_upd_idem)
next
  case (Some t)
  let ?ds = "snd (btree_remove (t, packed_chunk_pos pos) (deadlines k s))"
  have "deadline_remove k v (packed_chunk_pos pos) s = Inr (deadlines_update k ?ds s)"
    using Some v chunk_index.index_mem [OF idx] by (simp add: deadline_remove_def btree_remove_def)
  then show ?thesis
    using chunk_index.index_remove(2) [OF idx] Some v
    by (intro exI [of _ "deadlines_update k ?ds s"]) simp
qed

lemma deadline_insert_ok:
  assumes idx: "indexes packed_chunk_pos (deadlines k s) f" and free: "f pos = None"
  shows "\<exists>s'. deadline_insert k v (packed_chunk_pos pos) e s = Inr s' \<and>
     indexes packed_chunk_pos (deadlines k s') (f(pos := v)) \<and>
     (\<forall>k'. k' \<noteq> k \<longrightarrow> deadlines k' s' = deadlines k' s) \<and>
     chunks s' = chunks s \<and> active_generation s' = active_generation s"
proof (cases v)
  case None
  then show ?thesis using assms by (simp add: deadline_insert_def fun_upd_idem)
next
  case (Some t)
  let ?ds = "snd (btree_insert (t, packed_chunk_pos pos) (deadlines k s))"
  have "deadline_insert k v (packed_chunk_pos pos) e s = Inr (deadlines_update k ?ds s)"
    using Some free chunk_index.index_mem [OF idx] by (simp add: deadline_insert_def btree_insert_def)
  then show ?thesis
    using chunk_index.index_insert(2) [OF idx free] Some
    by (intro exI [of _ "deadlines_update k ?ds s"]) simp
qed

lemma set_head_correct:
  assumes inv: "sched_inv s" and r: "chunks s pos = Some r"
  shows "\<exists>s'. set_head s pos k v = Inr (Inr (), s') \<and> sched_inv s' \<and>
     chunks s' = (chunks s)(pos \<mapsto> reg_set_head k v r) \<and>
     active_generation s' = active_generation s"
proof (cases "reg_head k r = v")
  case True
  then have "reg_set_head k v r = r" by auto
  then show ?thesis
    using assms True by (auto simp: set_head_def Let_def)
next
  case False
  let ?g = "active_generation s"
  let ?upd = "\<lambda>s1. s1\<lparr>chunks := (chunks s1)(pos \<mapsto> reg_set_head k v r)\<rparr>"
  have idx: "indexes packed_chunk_pos (deadlines k' s) (active_head k' s)" for k'
    using inv by (simp add: sched_inv_def)
  have gens: "generations_ok s'" if "chunks s' = (chunks s)(pos \<mapsto> reg_set_head k v r)"
    "active_generation s' = ?g" for s'
    using inv r that by (auto simp: sched_inv_def generations_ok_def split: if_splits)
  show ?thesis
  proof (cases "active_rank ?g r = None")
    case True
    have "sched_inv (?upd s)"
      using True idx r gens [of "?upd s"] by (simp add: sched_inv_def active_head_update)
    then show ?thesis
      using r True False by (auto simp: set_head_def Let_def)
  next
    case act: False
    have head: "active_head k s pos = reg_head k r"
      using r act by (auto simp: active_head_def)
    obtain s1 where s1: "deadline_remove k (reg_head k r) (packed_chunk_pos pos) s = Inr s1"
      "indexes packed_chunk_pos (deadlines k s1) ((active_head k s)(pos := None))"
      "\<forall>k'. k' \<noteq> k \<longrightarrow> deadlines k' s1 = deadlines k' s"
      "chunks s1 = chunks s" "active_generation s1 = ?g"
      using deadline_remove_ok [OF idx head] by auto
    have idx1: "indexes packed_chunk_pos (deadlines k (?upd s1)) ((active_head k s)(pos := None))"
      using s1(2) by simp
    obtain s3 where s3: "deadline_insert k v (packed_chunk_pos pos) DeadlineAlreadyIndexed (?upd s1) = Inr s3"
      "indexes packed_chunk_pos (deadlines k s3) ((active_head k s)(pos := v))"
      "\<forall>k'. k' \<noteq> k \<longrightarrow> deadlines k' s3 = deadlines k' s"
      "chunks s3 = (chunks s)(pos \<mapsto> reg_set_head k v r)" "active_generation s3 = ?g"
      using deadline_insert_ok [OF idx1, of pos v DeadlineAlreadyIndexed] s1 by auto
    have "active_head k' s3 = active_head k' (?upd s)" for k'
      by (auto simp: active_head_def fun_eq_iff s3(4,5) split: option.split)
    then have heads: "active_head k' s3 =
        (if k' = k then (active_head k' s)(pos := v) else active_head k' s)" for k'
      using active_head_update [OF r, of k' k v] act by simp
    have "sched_inv s3"
      using s3(2,3) idx heads gens [OF s3(4,5)] by (auto simp: sched_inv_def)
    moreover have "set_head s pos k v = Inr (Inr (), s3)"
      using r False act s1(1) s3(1) by (simp add: set_head_def Let_def)
    ultimately show ?thesis using s3 by auto
  qed
qed

lemma set_head_missing:
  "chunks s pos = None \<Longrightarrow> set_head s pos k v = Inr (Inl (MissingContainer pos), s)"
  by (simp add: set_head_def)

section \<open>Taking the due containers\<close>

definition due_heads :: "tick_kind \<Rightarrow> int \<Rightarrow> sched_state \<Rightarrow> chunk_pos set" where
  "due_heads k now s = {p. \<exists>t. active_head k s p = Some t \<and> t \<le> now}"

definition is_due_entry :: "sched_state \<Rightarrow> active_container \<Rightarrow> bool" where
  "is_due_entry s a \<longleftrightarrow>
     (\<exists>r. chunks s (ac_pos a) = Some r \<and> ac_container a = reg_container r
        \<and> active_rank (active_generation s) r = Some (ac_rank a))"

definition clear_heads ::
  "tick_kind \<Rightarrow> chunk_pos set \<Rightarrow> (chunk_pos \<Rightarrow> registered_chunk option)
     \<Rightarrow> chunk_pos \<Rightarrow> registered_chunk option" where
  "clear_heads k P m p = (if p \<in> P then map_option (reg_set_head k None) (m p) else m p)"

lemma take_due_correct:
  assumes "sched_inv s"
  shows "\<exists>due' s'. take_due k now s due = Inr (due @ due', s') \<and> sched_inv s' \<and>
     distinct (map ac_pos due') \<and> set (map ac_pos due') = due_heads k now s \<and>
     (\<forall>a \<in> set due'. is_due_entry s a) \<and>
     active_generation s' = active_generation s \<and>
     chunks s' = clear_heads k (due_heads k now s) (chunks s)"
  using assms
proof (induction "deadlines k s" arbitrary: s due)
  case Nil
  then have idx: "indexes packed_chunk_pos [] (active_head k s)"
    by (metis sched_inv_def)
  have "due_heads k now s = {}"
    using idx by (auto simp: due_heads_def indexes_def)
  then show ?case
    using Nil by (simp add: take_due.simps [of k now s] clear_heads_def fun_eq_iff)
next
  case (Cons d rest)
  obtain t x where d: "d = (t, x)" by (cases d)
  have ds: "deadlines k s = (t, x) # rest"
    using Cons.hyps(2) d by simp
  have idx': "indexes packed_chunk_pos ((t, x) # rest) (active_head k s)"
    using Cons.prems ds by (metis sched_inv_def)
  let ?p = "to_chunk_pos x"
  have px: "packed_chunk_pos ?p = x" and head: "active_head k s ?p = Some t"
    and rest: "indexes packed_chunk_pos rest ((active_head k s)(?p := None))"
    and least: "\<And>p t'. active_head k s p = Some t' \<Longrightarrow> t \<le> t'"
    using chunk_index.index_pop [OF idx'] by auto
  show ?case
  proof (cases "now < t")
    case True
    then have "due_heads k now s = {}"
      using least by (fastforce simp: due_heads_def)
    then show ?thesis
      using True ds Cons.prems by (simp add: take_due.simps [of k now s] clear_heads_def fun_eq_iff)
  next
    case False
    obtain r rk where r: "chunks s ?p = Some r" and rk: "active_rank (active_generation s) r = Some rk"
      and rh: "reg_head k r = Some t"
      using head by (auto simp: active_head_def split: option.splits if_splits)
    define s2 where "s2 = (deadlines_update k rest s)\<lparr>chunks := (chunks s)(?p \<mapsto> reg_set_head k None r)\<rparr>"
    let ?a = "\<lparr>ac_pos = ?p, ac_rank = rk, ac_container = reg_container r\<rparr>"
    have step: "take_due k now s due = take_due k now s2 (due @ [?a])"
      using ds False r rk rh by (simp add: take_due.simps [of k now s] s2_def Let_def)
    have heads: "active_head k' s2 = (if k' = k then (active_head k' s)(?p := None) else active_head k' s)" for k'
      using active_head_update [of "deadlines_update k rest s" ?p r k' k None] r rk
      by (simp add: s2_def)
    have chunks2: "chunks s2 = (chunks s)(?p \<mapsto> reg_set_head k None r)"
      and gen2: "active_generation s2 = active_generation s"
      by (simp_all add: s2_def)
    have "deadlines k' s2 = (if k' = k then rest else deadlines k' s)" for k'
      by (auto simp: s2_def)
    then have inv2: "sched_inv s2"
      using Cons.prems rest heads chunks2 gen2 r
      by (auto simp: sched_inv_def generations_ok_def)
    have "rest = deadlines k s2" by (simp add: s2_def)
    from Cons.hyps(1) [OF this inv2, of "due @ [?a]"]
    obtain due' s' where IH: "take_due k now s2 (due @ [?a]) = Inr ((due @ [?a]) @ due', s')"
      "sched_inv s'" "distinct (map ac_pos due')" "set (map ac_pos due') = due_heads k now s2"
      "\<forall>a \<in> set due'. is_due_entry s2 a" "active_generation s' = active_generation s2"
      "chunks s' = clear_heads k (due_heads k now s2) (chunks s2)"
      by blast
    have due2: "due_heads k now s = insert ?p (due_heads k now s2)" and new: "?p \<notin> due_heads k now s2"
      using head heads [of k] False by (auto simp: due_heads_def)
    have ent: "is_due_entry s a" if "is_due_entry s2 a" for a
      using that r chunks2 gen2 by (auto simp: is_due_entry_def split: if_splits)
    have a: "is_due_entry s ?a"
      using r rk by (simp add: is_due_entry_def)
    have "chunks s' = clear_heads k (due_heads k now s) (chunks s)"
      using IH(7) due2 new chunks2 r by (auto simp: clear_heads_def fun_eq_iff)
    then show ?thesis
      using step IH due2 new ent a gen2
      by (intro exI [of _ "?a # due'"] exI [of _ s']) auto
  qed
qed

end
