(* ===== verification/TickWorld.thy ===== *)
theory TickWorld
  imports TickIndex
begin

text \<open>
  The invariant of the whole tick world (index, registered chunks and containers) and the proof
  that every operation of \<open>scheduler.rs\<close> keeps it and runs without a panic.
\<close>

section \<open>The invariant\<close>

definition mirrors :: "(nat \<Rightarrow> tick_container) \<Rightarrow> registered_chunk \<Rightarrow> bool" where
  "mirrors st r \<longleftrightarrow>
     lifecycle (st (reg_container r)) = Registered \<and>
     (\<forall>k. reg_head k r = list_head (select_list k (st (reg_container r))))"

definition handles_ok :: "tick_world \<Rightarrow> bool" where
  "handles_ok w \<longleftrightarrow>
     (\<forall>p r p' r'. chunks (sched w) p = Some r \<longrightarrow> chunks (sched w) p' = Some r' \<longrightarrow>
        reg_container r = reg_container r' \<longrightarrow> p = p')"

definition world_inv :: "tick_world \<Rightarrow> bool" where
  "world_inv w \<longleftrightarrow>
     sched_inv (sched w) \<and> handles_ok w \<and>
     (\<forall>h. container_ordered (store w h)) \<and>
     (\<forall>p r. chunks (sched w) p = Some r \<longrightarrow> mirrors (store w) r) \<and>
     (\<forall>h. lifecycle (store w h) = Registered \<longrightarrow>
        (\<exists>p r. chunks (sched w) p = Some r \<and> reg_container r = h))"

text \<open>The container of a chunk is registered, if at all, at the chunk's own position.\<close>

definition chunk_handle_ok :: "tick_world \<Rightarrow> full_chunk \<Rightarrow> bool" where
  "chunk_handle_ok w fc \<longleftrightarrow>
     (\<forall>p r. chunks (sched w) p = Some r \<longrightarrow> reg_container r = fc_container fc \<longrightarrow> p = fc_pos fc)"

lemma world_invD:
  assumes "world_inv w"
  shows "sched_inv (sched w)" "handles_ok w" "container_ordered (store w h)"
    and "chunks (sched w) p = Some r \<Longrightarrow> mirrors (store w) r"
    and "lifecycle (store w h) = Registered \<Longrightarrow>
      \<exists>p r. chunks (sched w) p = Some r \<and> reg_container r = h"
  using assms by (auto simp: world_inv_def)

lemma set_container_simps [simp]:
  "store (set_container h c w) = (store w)(h := c)"
  "sched (set_container h c w) = sched w"
  "next_sub_tick (set_container h c w) = next_sub_tick w"
  by (simp_all add: set_container_def)

lemma sched_inv_frame:
  assumes "sched_inv s" and "active_generation s' = active_generation s"
    and "\<And>k. deadlines k s' = deadlines k s" and "\<And>k. active_head k s' = active_head k s"
    and "\<And>p r. chunks s' p = Some r \<Longrightarrow>
       active r = None \<or> (\<exists>r0. chunks s p = Some r0 \<and> active r = active r0)"
  shows "sched_inv s'"
  using assms unfolding sched_inv_def generations_ok_def by (metis option.distinct(1))

lemma scheduler_new_inv:
  assumes "\<And>h. container_ordered (st h)" and "\<And>h. lifecycle (st h) \<noteq> Registered"
  shows "world_inv (scheduler_new st)"
proof -
  have "deadlines k (sched (scheduler_new st)) = []" for k
    by (cases k) (simp_all add: scheduler_new_def)
  moreover have "active_head k (sched (scheduler_new st)) = (\<lambda>_. None)" for k
    by (simp add: scheduler_new_def active_head_def fun_eq_iff)
  ultimately have "sched_inv (sched (scheduler_new st))"
    using chunk_index.index_empty by (simp add: sched_inv_def generations_ok_def scheduler_new_def)
  then show ?thesis
    using assms by (simp add: world_inv_def handles_ok_def scheduler_new_def)
qed

section \<open>Registration\<close>

lemma register_chunk_inv:
  assumes inv: "world_inv w"
  shows "world_inv (snd (register_chunk w fc))"
proof (cases "lifecycle (store w (fc_container fc)) = PrePublication \<and> chunks (sched w) (fc_pos fc) = None")
  case False
  then show ?thesis using inv by (auto simp: register_chunk_def Let_def)
next
  case True
  let ?h = "fc_container fc" and ?p = "fc_pos fc"
  let ?c = "store w ?h"
  define r where "r = \<lparr>reg_container = ?h, block_head = list_head (block_list ?c),
     fluid_head = list_head (fluid_list ?c), active = None\<rparr>"
  define w' where "w' = snd (register_chunk w fc)"
  have w': "store w' = (store w)(?h := ?c\<lparr>lifecycle := Registered\<rparr>)"
    "sched w' = (sched w)\<lparr>chunks := (chunks (sched w))(?p \<mapsto> r)\<rparr>"
    using True by (auto simp: w'_def register_chunk_def Let_def r_def)
  have fresh: "chunks (sched w) p = Some r0 \<Longrightarrow> reg_container r0 \<noteq> ?h" for p r0
    using True world_invD(4) [OF inv, of p r0] by (auto simp: mirrors_def)
  have heads: "active_head k (sched w') = active_head k (sched w)" for k
    using True by (auto simp: active_head_def fun_eq_iff w' r_def active_rank_def split: option.split)
  have "sched_inv (sched w')"
    by (rule sched_inv_frame [OF world_invD(1) [OF inv]])
      (use heads in \<open>auto simp: w' r_def split: if_splits\<close>)
  moreover have "handles_ok w'"
    using world_invD(2) [OF inv] fresh by (auto simp: handles_ok_def w' r_def) metis
  moreover have "reg_head k r = list_head (select_list k ?c)" for k
    by (cases k) (simp_all add: r_def)
  then have "mirrors (store w') r"
    by (simp add: mirrors_def w') (simp add: r_def)
  then have "chunks (sched w') p = Some r0 \<Longrightarrow> mirrors (store w') r0" for p r0
    using world_invD(4) [OF inv] fresh by (auto simp: w' mirrors_def split: if_splits)
  moreover have "lifecycle (store w' h) = Registered \<Longrightarrow>
      \<exists>p r. chunks (sched w') p = Some r \<and> reg_container r = h" for h
    using world_invD(5) [OF inv, of h] True
    by (auto simp: w' r_def split: if_splits) (metis option.distinct(1))
  ultimately show ?thesis
    using world_invD(3) [OF inv] by (auto simp: world_inv_def w'_def [symmetric] w'(1))
qed

section \<open>Moving one head\<close>

text \<open>
  Between the change of a container and the call of \<open>set_head\<close> the invariant holds for every
  chunk but one, and for that one in the kinds that are not in \<open>K\<close>.
\<close>

definition mirrors_except ::
  "tick_kind set \<Rightarrow> (nat \<Rightarrow> tick_container) \<Rightarrow> registered_chunk \<Rightarrow> bool" where
  "mirrors_except K st r \<longleftrightarrow>
     lifecycle (st (reg_container r)) = Registered \<and>
     (\<forall>k. k \<notin> K \<longrightarrow> reg_head k r = list_head (select_list k (st (reg_container r))))"

definition world_inv_except :: "chunk_pos \<Rightarrow> tick_kind set \<Rightarrow> tick_world \<Rightarrow> bool" where
  "world_inv_except q K w \<longleftrightarrow>
     sched_inv (sched w) \<and> handles_ok w \<and>
     (\<forall>h. container_ordered (store w h)) \<and>
     (\<forall>p r. chunks (sched w) p = Some r \<longrightarrow>
        mirrors_except (if p = q then K else {}) (store w) r) \<and>
     (\<forall>h. lifecycle (store w h) = Registered \<longrightarrow>
        (\<exists>p r. chunks (sched w) p = Some r \<and> reg_container r = h))"

lemma world_inv_except_empty: "world_inv_except q {} w \<longleftrightarrow> world_inv w"
  by (simp add: world_inv_except_def world_inv_def mirrors_except_def mirrors_def)

lemma world_inv_exceptD:
  "world_inv_except q K w \<Longrightarrow> chunks (sched w) p = Some r \<Longrightarrow>
     mirrors_except (if p = q then K else {}) (store w) r"
  by (simp add: world_inv_except_def)

lemma then_set_head_inv:
  assumes inv: "world_inv_except q K w" and r: "chunks (sched w) q = Some r"
    and v: "v = list_head (select_list k (store w (reg_container r)))"
  shows "\<exists>w'. then_set_head q k v w = Inr (Inr (), w') \<and> world_inv_except q (K - {k}) w' \<and>
     store w' = store w \<and> chunks (sched w') = (chunks (sched w))(q \<mapsto> reg_set_head k v r)"
proof -
  from inv have "sched_inv (sched w)" by (simp add: world_inv_except_def)
  from set_head_correct [OF this r, of k v] obtain s where
    s: "set_head (sched w) q k v = Inr (Inr (), s)" "sched_inv s"
      "chunks s = (chunks (sched w))(q \<mapsto> reg_set_head k v r)"
    by auto
  let ?w = "w\<lparr>sched := s\<rparr>"
  have "handles_ok ?w"
    using inv r by (auto simp: world_inv_except_def handles_ok_def s(3) split: if_splits)
  moreover have "mirrors_except (if p = q then K - {k} else {}) (store w) r'"
    if "chunks s p = Some r'" for p r'
  proof (cases "p = q")
    case False
    then show ?thesis using that world_inv_exceptD [OF inv, of p r'] by (auto simp: s(3))
  next
    case True
    have K: "mirrors_except K (store w) r"
      using world_inv_exceptD [OF inv r] by simp
    have "reg_head k' r' = list_head (select_list k' (store w (reg_container r')))" if "k' \<notin> K - {k}" for k'
      using that True \<open>chunks s p = Some r'\<close> K v by (cases "k' = k") (auto simp: s(3) mirrors_except_def)
    then show ?thesis
      using True that K by (auto simp: s(3) mirrors_except_def)
  qed
  moreover have "\<exists>p r. chunks s p = Some r \<and> reg_container r = h"
    if "lifecycle (store w h) = Registered" for h
    using that inv r unfolding world_inv_except_def s(3)
    by (metis fun_upd_apply option.inject reg_head_set(4))
  ultimately have "world_inv_except q (K - {k}) ?w"
    using inv s(2) by (simp add: world_inv_except_def)
  then show ?thesis
    using s by (auto simp: then_set_head_def)
qed

text \<open>Replacing the lists of one registered container leaves the invariant open at its position.\<close>

lemma set_container_inv_except:
  assumes inv: "world_inv w" and r: "chunks (sched w) q = Some r"
    and ord: "container_ordered c" and live: "lifecycle c = Registered"
    and same: "\<And>k. k \<notin> K \<Longrightarrow> select_list k c = select_list k (store w (reg_container r))"
  shows "world_inv_except q K (set_container (reg_container r) c w)"
proof -
  have other: "reg_container r' \<noteq> reg_container r" if "chunks (sched w) p = Some r'" "p \<noteq> q" for p r'
    using world_invD(2) [OF inv] r that by (auto simp: handles_ok_def)
  have "mirrors_except (if p = q then K else {}) ((store w)(reg_container r := c)) r'"
    if "chunks (sched w) p = Some r'" for p r'
    using world_invD(4) [OF inv that] that other r same live
    by (auto simp: mirrors_def mirrors_except_def)
  then show ?thesis
    using inv r ord live by (auto simp: world_inv_except_def world_inv_def handles_ok_def)
qed

lemma unpack_chunk_inv:
  assumes inv: "world_inv w"
  shows "\<exists>res w'. unpack_chunk w pos now = Inr (res, w') \<and> world_inv w' \<and>
     (res = Inr () \<longleftrightarrow> chunks (sched w) pos \<noteq> None)"
proof (cases "chunks (sched w) pos")
  case None
  then show ?thesis using inv by (simp add: unpack_chunk_def)
next
  case (Some r)
  let ?h = "reg_container r"
  let ?c = "store w ?h"
  define c1 where "c1 = ?c\<lparr>block_list := tl_unpack (block_list ?c) now,
     fluid_list := tl_unpack (fluid_list ?c) now\<rparr>"
  let ?w1 = "set_container ?h c1 w"
  have reg: "lifecycle ?c = Registered"
    using world_invD(4) [OF inv Some] by (simp add: mirrors_def)
  have "select_list k c1 = tl_unpack (select_list k ?c) now" for k
    by (cases k) (simp_all add: c1_def)
  then have "container_ordered c1"
    using world_invD(3) [OF inv, of ?h] by (auto simp: container_ordered_def unpack_ordered)
  moreover have "lifecycle c1 = Registered" using reg by (simp add: c1_def)
  ultimately have w1: "world_inv_except pos UNIV ?w1"
    by (intro set_container_inv_except [OF inv Some]) auto
  obtain w2 where w2: "then_set_head pos BlockKind (list_head (block_list c1)) ?w1 = Inr (Inr (), w2)"
    "world_inv_except pos (UNIV - {BlockKind}) w2" "store w2 = store ?w1"
    "chunks (sched w2) = (chunks (sched w))(pos \<mapsto> reg_set_head BlockKind (list_head (block_list c1)) r)"
    using then_set_head_inv [OF w1, of r "list_head (block_list c1)" BlockKind] Some by auto
  obtain w3 where w3: "then_set_head pos FluidKind (list_head (fluid_list c1)) w2 = Inr (Inr (), w3)"
    "world_inv_except pos (UNIV - {BlockKind} - {FluidKind}) w3"
    using then_set_head_inv [OF w2(2), of _ "list_head (fluid_list c1)" FluidKind] w2(3,4) by auto
  have "UNIV - {BlockKind} - {FluidKind} = {}"
    using tick_kind.exhaust by auto
  with w3(2) have "world_inv w3" by (simp only: world_inv_except_empty)
  then show ?thesis
    using Some reg w2(1) w3(1) by (simp add: unpack_chunk_def Let_def c1_def)
qed

section \<open>Scheduling\<close>

lemma schedule_tick_inv:
  assumes inv: "world_inv w" and fc: "chunk_handle_ok w fc"
  shows "\<exists>res w'. schedule_tick k w fc ty pos trig prio sub = Inr (res, w') \<and> world_inv w' \<and>
     (lifecycle (store w (fc_container fc)) \<in> {PrePublication, Registered} \<longrightarrow> (\<exists>b. res = Inr b))"
proof -
  let ?h = "fc_container fc"
  let ?c = "store w ?h"
  obtain added tq where sch: "tl_schedule (select_list k ?c) ty pos trig prio sub = (added, tq)"
    by (cases "tl_schedule (select_list k ?c) ty pos trig prio sub")
  let ?w1 = "set_container ?h (update_list k tq ?c) w"
  have ord: "tq_ordered tq"
    using tl_schedule_ordered [of "select_list k ?c" ty pos trig prio sub] sch world_invD(3) [OF inv, of ?h]
    by (auto simp: container_ordered_def)
  then have ord': "container_ordered (update_list k tq ?c)"
    using world_invD(3) [OF inv] by (rule container_ordered_update [rotated])
  consider "lifecycle ?c = Registered" | "lifecycle ?c = Finalized"
    | "lifecycle ?c = PrePublication \<or> lifecycle ?c = Proto"
    by (cases "lifecycle ?c") auto
  then show ?thesis
  proof cases
    case 1
    obtain p r where "chunks (sched w) p = Some r" "reg_container r = ?h"
      using world_invD(5) [OF inv 1] by auto
    then have r: "chunks (sched w) (fc_pos fc) = Some r" "reg_container r = ?h"
      using fc by (auto simp: chunk_handle_ok_def)
    have w1: "world_inv_except (fc_pos fc) {k} ?w1"
      using set_container_inv_except [OF inv r(1) ord', of "{k}"] 1 r(2) by auto
    show ?thesis
    proof (cases "added \<and> list_head tq \<noteq> list_head (select_list k ?c)")
      case True
      obtain w' where "then_set_head (fc_pos fc) k (list_head tq) ?w1 = Inr (Inr (), w')"
        "world_inv_except (fc_pos fc) {} w'"
        using then_set_head_inv [OF w1, of r "list_head tq" k] r by auto
      then show ?thesis
        using True 1 r sch by (auto simp: schedule_tick_def Let_def world_inv_except_empty)
    next
      case False
      have "\<not> added \<Longrightarrow> tq = select_list k ?c"
        using sch by (auto simp: tl_schedule_def Let_def split: if_splits)
      then have "list_head tq = list_head (select_list k ?c)" using False by auto
      then have "mirrors_except {} (store ?w1) r"
        using w1 r world_invD(4) [OF inv r(1)]
        by (auto simp: world_inv_except_def mirrors_except_def mirrors_def) (metis select_update)
      then have "mirrors_except {} (store ?w1) r'" if "chunks (sched ?w1) p = Some r'" for p r'
        using world_inv_exceptD [OF w1 that] that r(1) by (cases "p = fc_pos fc") auto
      then have "world_inv ?w1"
        using w1 unfolding world_inv_except_empty [symmetric, of _ "fc_pos fc"]
        by (simp add: world_inv_except_def)
      then show ?thesis
        using False 1 sch by (auto simp: schedule_tick_def Let_def)
    qed
  next
    case 2
    then show ?thesis using inv by (simp add: schedule_tick_def Let_def)
  next
    case 3
    have fresh: "chunks (sched w) p = Some r0 \<Longrightarrow> reg_container r0 \<noteq> ?h" for p r0
      using 3 world_invD(4) [OF inv, of p r0] by (auto simp: mirrors_def)
    have "world_inv ?w1"
      using inv 3 ord' fresh unfolding world_inv_def mirrors_def handles_ok_def by auto
    then show ?thesis
      using 3 sch fresh by (auto simp: schedule_tick_def Let_def split: option.splits)
  qed
qed

section \<open>Unregistration\<close>

declare deadlines.simps [simp del]

lemma unregister_chunk_inv:
  assumes inv: "world_inv w"
  shows "\<exists>w'. unregister_chunk w pos = Inr w' \<and> world_inv w' \<and>
     chunks (sched w') = (chunks (sched w))(pos := None) \<and>
     (\<forall>h k. select_list k (store w' h) = select_list k (store w h)) \<and>
     (\<forall>h. lifecycle (store w' h) = (if \<exists>r. chunks (sched w) pos = Some r \<and> reg_container r = h
        then Finalized else lifecycle (store w h)))"
proof (cases "chunks (sched w) pos")
  case None
  then show ?thesis using inv by (simp add: unregister_chunk_def fun_upd_idem)
next
  case (Some r)
  let ?s = "sched w"
  let ?sa = "?s\<lparr>chunks := (chunks ?s)(pos := None)\<rparr>" and ?h = "reg_container r"
  let ?act = "active_rank (active_generation ?s) r \<noteq> None"
  have idx: "indexes packed_chunk_pos (deadlines k ?s) (active_head k ?s)" and gens: "generations_ok ?s" for k
    using world_invD(1) [OF inv] by (simp_all add: sched_inv_def)
  have "\<exists>s. (if ?act then bind_result (deadline_remove BlockKind (block_head r) (packed_chunk_pos pos) ?sa)
              (deadline_remove FluidKind (fluid_head r) (packed_chunk_pos pos)) else Inr ?sa) = Inr s \<and>
      sched_inv s \<and> chunks s = chunks ?sa"
  proof (cases ?act)
    case False
    then have "active_head k ?sa = active_head k ?s" for k
      using Some by (auto simp: active_head_def fun_eq_iff split: option.split)
    then have "sched_inv ?sa"
      by (intro sched_inv_frame [OF world_invD(1) [OF inv], of ?sa]) (auto split: if_splits)
    then show ?thesis using False by auto
  next
    case True
    have heads: "active_head BlockKind ?s pos = block_head r" "active_head FluidKind ?s pos = fluid_head r"
      using Some True by (auto simp: active_head_def)
    have idx0: "indexes packed_chunk_pos (deadlines k ?sa) (active_head k ?s)" for k
      using idx by simp
    obtain s1 where s1: "deadline_remove BlockKind (block_head r) (packed_chunk_pos pos) ?sa = Inr s1"
      "indexes packed_chunk_pos (deadlines BlockKind s1) ((active_head BlockKind ?s)(pos := None))"
      "deadlines FluidKind s1 = deadlines FluidKind ?sa"
      "chunks s1 = chunks ?sa" "active_generation s1 = active_generation ?s"
      using deadline_remove_ok [OF idx0 heads(1)] by auto
    have "indexes packed_chunk_pos (deadlines FluidKind s1) (active_head FluidKind ?s)"
      using idx0 s1(3) by simp
    from deadline_remove_ok [OF this heads(2)] obtain s2 where
      s2: "deadline_remove FluidKind (fluid_head r) (packed_chunk_pos pos) s1 = Inr s2"
      "indexes packed_chunk_pos (deadlines FluidKind s2) ((active_head FluidKind ?s)(pos := None))"
      "deadlines BlockKind s2 = deadlines BlockKind s1"
      "chunks s2 = chunks ?sa" "active_generation s2 = active_generation ?s"
      using s1(4,5) by auto
    have "active_head k s2 = (active_head k ?s)(pos := None)" for k
      using s2(4,5) by (auto simp: active_head_def fun_eq_iff split: option.split)
    then have "indexes packed_chunk_pos (deadlines k s2) (active_head k s2)" for k
      using s1(2) s2(2,3) by (cases k) auto
    then have "sched_inv s2"
      using gens s2(4,5) by (auto simp: sched_inv_def generations_ok_def split: if_splits)
    then show ?thesis using True s1(1) s2 by auto
  qed
  then obtain s where s: "(if ?act then bind_result (deadline_remove BlockKind (block_head r) (packed_chunk_pos pos) ?sa)
              (deadline_remove FluidKind (fluid_head r) (packed_chunk_pos pos)) else Inr ?sa) = Inr s"
      "sched_inv s" "chunks s = chunks ?sa" by blast
  define w' where "w' = set_container ?h ((store w ?h)\<lparr>lifecycle := Finalized\<rparr>) (w\<lparr>sched := s\<rparr>)"
  have eq: "unregister_chunk w pos = Inr w'"
    using Some s(1) by (simp add: unregister_chunk_def Let_def w'_def)
  have w': "store w' = (store w)(?h := (store w ?h)\<lparr>lifecycle := Finalized\<rparr>)" "sched w' = s"
    by (simp_all add: w'_def)
  have other: "reg_container r' \<noteq> ?h" if "chunks s p = Some r'" for p r'
    using world_invD(2) [OF inv] Some that s(3) by (auto simp: handles_ok_def split: if_splits)
  have "mirrors (store w') r'" if "chunks s p = Some r'" for p r'
    using world_invD(4) [OF inv, of p r'] other [OF that] that s(3)
    by (auto simp: mirrors_def w' split: if_splits)
  moreover have "\<exists>p r. chunks s p = Some r \<and> reg_container r = h"
    if "lifecycle (store w' h) = Registered" for h
  proof -
    have "lifecycle (store w h) = Registered" "h \<noteq> ?h"
      using that by (auto simp: w' split: if_splits)
    then obtain p r' where pr: "chunks (sched w) p = Some r'" "reg_container r' = h"
      using world_invD(5) [OF inv] by blast
    then have "p \<noteq> pos" using Some \<open>h \<noteq> ?h\<close> by auto
    then show ?thesis using pr s(3) by auto
  qed
  moreover have "handles_ok w'"
    using world_invD(2) [OF inv] s(3) by (auto simp: handles_ok_def w' split: if_splits)
  ultimately have "world_inv w'"
    using s(2) world_invD(3) [OF inv] by (simp add: world_inv_def w')
  then show ?thesis using eq s(3) w' Some by auto
qed

section \<open>Reconciling the active chunks\<close>

lemma advance_generation_inv:
  assumes gens: "generations_ok s"
    and none: "\<And>k. deadlines k s = []"
    and adv: "advance_active_generation s = (gen, s')"
  shows "sched_inv s'" and "active_generation s' = gen"
    and "\<And>p r. chunks s' p = Some r \<Longrightarrow> active_rank gen r = None"
    and "\<And>p. chunks s' p = chunks s p \<or> chunks s' p = map_option (\<lambda>r. r\<lparr>active := None\<rparr>) (chunks s p)"
proof -
  have gen: "active_generation s' = gen" and bound: "gen < 2 ^ 64"
    and cs: "chunks s' = chunks s \<and> gen = Suc (active_generation s) \<or>
       chunks s' = (\<lambda>p. map_option (\<lambda>r. r\<lparr>active := None\<rparr>) (chunks s p))"
    and ds: "deadlines k s' = []" for k
    using adv none [of k] gens
    by (cases k; auto simp: advance_active_generation_def generations_ok_def deadlines.simps split: if_splits)+
  have old: "generation a \<le> active_generation s" if "chunks s p = Some r" "active r = Some a" for p r a
    using gens that by (auto simp: generations_ok_def)
  show rank: "active_rank gen r = None" if "chunks s' p = Some r" for p r
    using cs that old [of p r] by (auto simp: active_rank_def split: option.split)
  have "active_head k s' = (\<lambda>_. None)" for k
    using rank gen by (auto simp: active_head_def fun_eq_iff split: option.split)
  moreover have "generations_ok s'"
    using cs gen bound old by (auto simp: generations_ok_def) (use old le_SucI in blast)
  ultimately show "sched_inv s'"
    using ds chunk_index.index_empty by (simp add: sched_inv_def)
  show "active_generation s' = gen" by (rule gen)
  show "chunks s' p = chunks s p \<or> chunks s' p = map_option (\<lambda>r. r\<lparr>active := None\<rparr>) (chunks s p)" for p
    using cs by auto
qed

lemma reconcile_from_correct:
  assumes "sched_inv s" and "active_generation s = gen" and "distinct ps"
    and "\<And>p. p \<in> set ps \<Longrightarrow> \<exists>r. chunks s p = Some r \<and> active_rank gen r = None"
  shows "\<exists>s'. reconcile_from gen rk ps s = Inr (Inr (), s') \<and> sched_inv s' \<and>
     active_generation s' = gen \<and>
     (\<forall>p. p \<notin> set ps \<longrightarrow> chunks s' p = chunks s p) \<and>
     (\<forall>i < length ps. \<exists>r. chunks s (ps ! i) = Some r \<and>
        chunks s' (ps ! i) = Some (r\<lparr>active := Some \<lparr>generation = gen, rank = rk + i\<rparr>\<rparr>))"
  using assms
proof (induction ps arbitrary: s rk)
  case Nil
  then show ?case by auto
next
  case (Cons q ps)
  obtain r where r: "chunks s q = Some r" "active_rank gen r = None"
    using Cons.prems(4) [of q] by auto
  define r1 where "r1 = r\<lparr>active := Some \<lparr>generation = gen, rank = rk\<rparr>\<rparr>"
  define s1 where "s1 = s\<lparr>chunks := (chunks s)(q \<mapsto> r1)\<rparr>"
  have idx: "indexes packed_chunk_pos (deadlines k s1) (active_head k s)" and free: "active_head k s q = None" for k
    using Cons.prems(1,2) r by (simp_all add: sched_inv_def s1_def active_head_def)
  obtain s2 where s2: "deadline_insert BlockKind (block_head r) (packed_chunk_pos q) ChunkAppearedTwice s1 = Inr s2"
    "indexes packed_chunk_pos (deadlines BlockKind s2) ((active_head BlockKind s)(q := block_head r))"
    "deadlines FluidKind s2 = deadlines FluidKind s1"
    "chunks s2 = chunks s1" "active_generation s2 = active_generation s1"
    using deadline_insert_ok [OF idx free] by (metis tick_kind.distinct(1))
  have "indexes packed_chunk_pos (deadlines FluidKind s2) (active_head FluidKind s)"
    using idx s2(3) by simp
  from deadline_insert_ok [OF this free] obtain s3 where
    s3: "deadline_insert FluidKind (fluid_head r) (packed_chunk_pos q) ChunkAppearedTwice s2 = Inr s3"
    "indexes packed_chunk_pos (deadlines FluidKind s3) ((active_head FluidKind s)(q := fluid_head r))"
    "deadlines BlockKind s3 = deadlines BlockKind s2"
    "chunks s3 = chunks s2" "active_generation s3 = active_generation s2"
    by (metis tick_kind.distinct(1))
  have c3: "chunks s3 = (chunks s)(q \<mapsto> r1)" "active_generation s3 = gen"
    using s2 s3 Cons.prems(2) by (simp_all add: s1_def)
  have "active_head k s3 = (active_head k s)(q := reg_head k r)" for k
    using c3 Cons.prems(2) r
    by (cases k) (auto simp: active_head_def fun_eq_iff r1_def active_rank_def split: option.split)
  then have "indexes packed_chunk_pos (deadlines k s3) (active_head k s3)" for k
    using s2(2) s3(2,3) by (cases k) auto
  then have inv3: "sched_inv s3"
    using Cons.prems(1,2) c3 by (auto simp: sched_inv_def generations_ok_def r1_def split: if_splits)
  have "\<exists>r. chunks s3 p = Some r \<and> active_rank gen r = None" if "p \<in> set ps" for p
    using that Cons.prems(3) Cons.prems(4) [of p] c3 by auto
  moreover have "distinct ps" using Cons.prems(3) by simp
  ultimately obtain s' where
    s': "reconcile_from gen (Suc rk) ps s3 = Inr (Inr (), s')" "sched_inv s'" "active_generation s' = gen"
    "\<forall>p. p \<notin> set ps \<longrightarrow> chunks s' p = chunks s3 p"
    "\<forall>i < length ps. \<exists>r. chunks s3 (ps ! i) = Some r \<and>
        chunks s' (ps ! i) = Some (r\<lparr>active := Some \<lparr>generation = gen, rank = Suc rk + i\<rparr>\<rparr>)"
    using Cons.IH [OF inv3 c3(2)] by blast
  have "\<not> (case active r of None \<Rightarrow> False | Some a \<Rightarrow> generation a = gen)"
    using r(2) by (auto simp: active_rank_def split: option.splits if_splits)
  then have step: "reconcile_from gen rk (q # ps) s = Inr (Inr (), s')"
    using r(1) s2(1) s3(1) s'(1) by (simp add: Let_def s1_def r1_def)
  have stamped: "\<exists>r. chunks s ((q # ps) ! i) = Some r \<and>
      chunks s' ((q # ps) ! i) = Some (r\<lparr>active := Some \<lparr>generation = gen, rank = rk + i\<rparr>\<rparr>)"
    if "i < length (q # ps)" for i
  proof (cases i)
    case 0
    then show ?thesis using s'(4) c3(1) r Cons.prems(3) by (auto simp: r1_def)
  next
    case (Suc j)
    then have "ps ! j \<noteq> q" using that Cons.prems(3) by auto
    then show ?thesis using s'(5) that Suc c3(1) by auto
  qed
  show ?case
    using step s'(2-4) c3(1) stamped by auto
qed

lemma first_missing_None: "first_missing m ps = None \<longleftrightarrow> (\<forall>p \<in> set ps. m p \<noteq> None)"
  by (induction ps) auto

lemma first_missing_Some: "first_missing m ps = Some p \<Longrightarrow> p \<in> set ps \<and> m p = None"
  by (induction ps) (auto split: if_splits)

lemma reconcile_active_chunks_inv:
  assumes inv: "world_inv w" and dist: "distinct ps"
  shows "\<exists>res w'. reconcile_active_chunks w ps = Inr (res, w') \<and> world_inv w' \<and> store w' = store w \<and>
     (\<forall>p r'. chunks (sched w') p = Some r' \<longrightarrow>
        (\<exists>r. chunks (sched w) p = Some r \<and> reg_container r' = reg_container r)) \<and>
     (if \<forall>p \<in> set ps. chunks (sched w) p \<noteq> None
      then res = Inr () \<and> (\<forall>p i. (\<exists>r. chunks (sched w') p = Some r \<and>
         active_rank (active_generation (sched w')) r = Some i) \<longleftrightarrow> i < length ps \<and> ps ! i = p)
      else (\<exists>p \<in> set ps. res = Inl (MissingContainer p)) \<and> w' = w)"
proof (cases "first_missing (chunks (sched w)) ps")
  case (Some p)
  then have "p \<in> set ps \<and> chunks (sched w) p = None"
    by (rule first_missing_Some)
  then show ?thesis
    using Some inv by (auto simp: reconcile_active_chunks_def)
next
  case None
  then have all: "\<forall>p \<in> set ps. chunks (sched w) p \<noteq> None"
    by (simp add: first_missing_None)
  let ?sa = "(sched w)\<lparr>active_block_deadlines := [], active_fluid_deadlines := []\<rparr>"
  obtain gen s1 where adv: "advance_active_generation ?sa = (gen, s1)"
    by (cases "advance_active_generation ?sa")
  have gens: "generations_ok ?sa"
    using world_invD(1) [OF inv] by (simp add: sched_inv_def generations_ok_def)
  have none: "deadlines k ?sa = []" for k by (cases k) (simp_all add: deadlines.simps)
  note s1 = advance_generation_inv [OF gens none adv]
  have "\<exists>r. chunks s1 p = Some r \<and> active_rank gen r = None" if "p \<in> set ps" for p
    using that all s1(3) [of p] s1(4) [of p] by (cases "chunks (sched w) p") auto
  from reconcile_from_correct [OF s1(1,2) dist this, of 0] obtain s' where
    s': "reconcile_from gen 0 ps s1 = Inr (Inr (), s')" "sched_inv s'" "active_generation s' = gen"
    "\<forall>p. p \<notin> set ps \<longrightarrow> chunks s' p = chunks s1 p"
    "\<forall>i < length ps. \<exists>r. chunks s1 (ps ! i) = Some r \<and>
        chunks s' (ps ! i) = Some (r\<lparr>active := Some \<lparr>generation = gen, rank = 0 + i\<rparr>\<rparr>)"
    by blast
  have same: "\<exists>r0. chunks (sched w) p = Some r0 \<and> reg_container r = reg_container r0
      \<and> (\<forall>k. reg_head k r = reg_head k r0)" if "chunks s' p = Some r" for p r
  proof -
    have 1: "\<exists>r1. chunks s1 p = Some r1 \<and> reg_container r = reg_container r1 \<and> (\<forall>k. reg_head k r = reg_head k r1)"
    proof (cases "p \<in> set ps")
      case True
      then obtain i where i: "i < length ps" "ps ! i = p" by (auto simp: in_set_conv_nth)
      from s'(5) i obtain r1 where "chunks s1 p = Some r1"
        "chunks s' p = Some (r1\<lparr>active := Some \<lparr>generation = gen, rank = 0 + i\<rparr>\<rparr>)" by blast
      moreover from this that have "r = r1\<lparr>active := Some \<lparr>generation = gen, rank = 0 + i\<rparr>\<rparr>" by simp
      moreover have "reg_head k (r1\<lparr>active := a\<rparr>) = reg_head k r1" for k a by (cases k) simp_all
      ultimately show ?thesis by simp
    next
      case False
      then show ?thesis using that s'(4) by auto
    qed
    have "reg_head k (r0\<lparr>active := None\<rparr>) = reg_head k r0" for k r0 by (cases k) simp_all
    with 1 s1(4) [of p] show ?thesis by (cases "chunks (sched w) p") auto
  qed
  have dom: "chunks s' p \<noteq> None" if "chunks (sched w) p \<noteq> None" for p
    using that s'(4,5) s1(4) [of p] by (cases "p \<in> set ps") (auto simp: in_set_conv_nth)
  let ?w = "w\<lparr>sched := s'\<rparr>"
  have "handles_ok ?w"
    using world_invD(2) [OF inv] same by (auto simp: handles_ok_def) metis
  moreover have "mirrors (store w) r" if "chunks s' p = Some r" for p r
    using same [OF that] world_invD(4) [OF inv, of p] by (auto simp: mirrors_def)
  moreover have "\<exists>p r. chunks s' p = Some r \<and> reg_container r = h" if "lifecycle (store w h) = Registered" for h
    using world_invD(5) [OF inv that] dom same by (metis option.exhaust option.inject)
  ultimately have inv': "world_inv ?w"
    using s'(2) world_invD(3) [OF inv] by (simp add: world_inv_def)
  have ranks: "(\<exists>r. chunks s' p = Some r \<and> active_rank gen r = Some i) \<longleftrightarrow> i < length ps \<and> ps ! i = p" for p i
  proof (cases "p \<in> set ps")
    case False
    then show ?thesis using s'(4) s1(3) [of p] by (auto simp: in_set_conv_nth)
  next
    case True
    then obtain j where j: "j < length ps" "ps ! j = p" by (auto simp: in_set_conv_nth)
    have "ps ! i = p \<and> i < length ps \<longleftrightarrow> i = j" using j dist by (auto simp: nth_eq_iff_index_eq)
    from s'(5) j obtain r where "chunks s' p = Some (r\<lparr>active := Some \<lparr>generation = gen, rank = 0 + j\<rparr>\<rparr>)"
      by blast
    then have "(\<exists>r. chunks s' p = Some r \<and> active_rank gen r = Some i) \<longleftrightarrow> i = j"
      by (auto simp: active_rank_def)
    then show ?thesis using \<open>ps ! i = p \<and> i < length ps \<longleftrightarrow> i = j\<close> by blast
  qed
  have "reconcile_active_chunks w ps = Inr (Inr (), ?w)"
    using None adv s'(1) by (simp add: reconcile_active_chunks_def)
  moreover have "\<forall>p r'. chunks s' p = Some r' \<longrightarrow>
      (\<exists>r. chunks (sched w) p = Some r \<and> reg_container r' = reg_container r)"
    using same by blast
  ultimately show ?thesis
    using inv' all ranks s'(3) by auto
qed

end
