(* ===== verification/TickCollect.thy ===== *)
theory TickCollect
  imports TickWorld
begin

text \<open>
  The collection of a batch. Its specification is a greedy merge: as long as a container has a
  head that is due, emit a head that is least in intra-tick order among all of them. The lemmas
  show that the loops of \<open>scheduler.rs\<close>, which keep cached heads in a heap and drain one
  container for as long as it wins, compute such a merge, lose no tick, and leave every head
  index equal to the head of its container.
\<close>

section \<open>The greedy merge\<close>

type_synonym tick_store = "nat \<Rightarrow> tick_container"

definition intra_key :: "scheduled_tick \<Rightarrow> tick_priority \<times> int" where
  "intra_key t = (priority t, sub_tick_order t)"

inductive merge_step ::
  "tick_kind \<Rightarrow> int \<Rightarrow> nat set \<Rightarrow> tick_store \<Rightarrow> scheduled_tick \<Rightarrow> tick_store \<Rightarrow> bool"
  for k now C where
  emit: "h \<in> C \<Longrightarrow> pop_ready (select_list k (st h)) now = Some (t, tq) \<Longrightarrow>
    (\<And>h' t'. h' \<in> C \<Longrightarrow> peek_ready (select_list k (st h')) now = Some t' \<Longrightarrow>
       intra_key t \<le> intra_key t') \<Longrightarrow>
    merge_step k now C st t (st(h := update_list k tq (st h)))"

inductive merges ::
  "tick_kind \<Rightarrow> int \<Rightarrow> nat set \<Rightarrow> tick_store \<Rightarrow> scheduled_tick list \<Rightarrow> tick_store \<Rightarrow> bool"
  for k now C st0 where
  merges_Nil: "merges k now C st0 [] st0"
| merges_snoc: "merges k now C st0 ts st \<Longrightarrow> merge_step k now C st t st' \<Longrightarrow>
    merges k now C st0 (ts @ [t]) st'"

inductive_cases merge_stepE: "merge_step k now C st t st'"

lemma update_list_twice [simp]: "update_list k x (update_list k y c) = update_list k x c"
  by (cases k) simp_all

lemma select_update_same: "select_list k (update_list k tq c) = tq"
  by (cases k) simp_all

lemma update_list_frame:
  "lifecycle (update_list k tq c) = lifecycle c"
  "k' \<noteq> k \<Longrightarrow> select_list k' (update_list k tq c) = select_list k' c"
  by (cases k; cases k'; simp)+

lemma pop_ready_tl_len: "pop_ready tq now = Some (t, tq') \<Longrightarrow> tl_len tq = Suc (tl_len tq')"
  by (auto simp: tl_len_def elim!: pop_ready_SomeE)

lemma pop_ready_due: "pop_ready tq now = Some (t, tq') \<Longrightarrow> trigger_tick t \<le> now"
  by (auto elim!: pop_ready_SomeE)

lemma merges_frame:
  assumes "merges k now C st0 ts st"
  shows "lifecycle (st h) = lifecycle (st0 h)"
    and "k' \<noteq> k \<Longrightarrow> select_list k' (st h) = select_list k' (st0 h)"
    and "h \<notin> C \<Longrightarrow> st h = st0 h"
    and "pending_ticks (select_list k (st h)) = pending_ticks (select_list k (st0 h))"
  using assms
  by (induction rule: merges.induct)
    (auto elim!: merge_stepE simp: update_list_frame dest: pop_ready_pending)

lemma merges_preserves:
  assumes "merges k now C st0 ts st"
    and step: "\<And>tq t tq'. P tq \<Longrightarrow> pop_ready tq now = Some (t, tq') \<Longrightarrow> P tq'"
    and "\<forall>k. P (select_list k (st0 h))"
  shows "\<forall>k. P (select_list k (st h))"
  using assms(1)
proof (induction rule: merges.induct)
  case (merges_snoc ts st t st')
  from merges_snoc.hyps(2) show ?case
  proof cases
    case (emit h1 tq)
    have "P tq" if "h = h1"
      using step [OF _ emit(3)] merges_snoc.IH that by simp
    then have "P (select_list k' (st' h))" for k'
      using emit(1) merges_snoc.IH
      by (cases "k' = k") (auto simp: select_update_same update_list_frame(2))
    then show ?thesis by simp
  qed
qed (use assms in simp)

lemma merges_container_ordered:
  "merges k now C st0 ts st \<Longrightarrow> container_ordered (st0 h) \<Longrightarrow> container_ordered (st h)"
  unfolding container_ordered_def by (erule merges_preserves) (auto intro: pop_ready_ordered)

lemma merges_container_dedup:
  "merges k now C st0 ts st \<Longrightarrow> container_dedup (st0 h) \<Longrightarrow> container_dedup (st h)"
  unfolding container_dedup_def by (erule merges_preserves) (auto intro: pop_ready_dedup)

lemma merges_due: "merges k now C st0 ts st \<Longrightarrow> t \<in> set ts \<Longrightarrow> trigger_tick t \<le> now"
  by (induction rule: merges.induct) (auto elim!: merge_stepE dest: pop_ready_due)

text \<open>No tick is lost and none appears twice.\<close>

lemma merges_conserve:
  assumes "merges k now C st0 ts st" and "finite C"
  shows "(\<Sum>h \<in> C. mset (live_ticks (select_list k (st0 h)))) =
     mset ts + (\<Sum>h \<in> C. mset (live_ticks (select_list k (st h))))"
  using assms(1)
proof (induction rule: merges.induct)
  case (merges_snoc ts st t st')
  from merges_snoc.hyps(2) show ?case
  proof cases
    case (emit h tq)
    have "(\<Sum>h \<in> C. mset (live_ticks (select_list k (st h)))) =
        add_mset t (mset (live_ticks tq)) + (\<Sum>h \<in> C - {h}. mset (live_ticks (select_list k (st h))))"
      using assms(2) emit(2) pop_ready_mset [OF emit(3)] by (simp add: sum.remove [of C h])
    moreover have "(\<Sum>h \<in> C. mset (live_ticks (select_list k (st' h)))) =
        mset (live_ticks tq) + (\<Sum>h \<in> C - {h}. mset (live_ticks (select_list k (st h))))"
      using assms(2) emit(1,2) by (simp add: sum.remove [of C h] select_update_same)
    ultimately show ?thesis using merges_snoc.IH by simp
  qed
qed simp

text \<open>Containers with nothing due may be left out of the merge.\<close>

lemma merges_mono:
  assumes "merges k now C st0 ts st" and "C \<subseteq> C'"
    and "\<And>h. h \<in> C' - C \<Longrightarrow> peek_ready (select_list k (st0 h)) now = None"
  shows "merges k now C' st0 ts st"
  using assms(1)
proof (induction rule: merges.induct)
  case merges_Nil
  show ?case by (rule merges.merges_Nil)
next
  case (merges_snoc ts st t st')
  from merges_snoc.hyps(2) show ?case
  proof cases
    case (emit h tq)
    have "merge_step k now C' st t (st(h := update_list k tq (st h)))"
    proof (rule merge_step.emit)
      show "h \<in> C'" using emit(2) assms(2) by auto
      show "pop_ready (select_list k (st h)) now = Some (t, tq)" by (rule emit(3))
      fix h' t' assume h': "h' \<in> C'" "peek_ready (select_list k (st h')) now = Some t'"
      show "intra_key t \<le> intra_key t'"
      proof (cases "h' \<in> C")
        case False
        then have "st h' = st0 h'" using merges_frame(3) [OF merges_snoc.hyps(1)] by simp
        then show ?thesis using h' assms(3) [of h'] False by simp
      qed (use emit(4) h' in auto)
    qed
    then show ?thesis using merges_snoc.IH unfolding emit(1) by (rule merges.merges_snoc [rotated])
  qed
qed

section \<open>The loops compute a greedy merge\<close>

definition rc_entry :: "ready_container \<Rightarrow> active_container" where
  "rc_entry rc = \<lparr>ac_pos = rc_pos rc, ac_rank = rc_rank rc, ac_container = rc_container rc\<rparr>"

text \<open>A ready container caches the intra-tick key of its head, and that head is due.\<close>

definition cache_ok :: "tick_kind \<Rightarrow> int \<Rightarrow> tick_store \<Rightarrow> ready_container \<Rightarrow> bool" where
  "cache_ok k now st rc \<longleftrightarrow>
     (\<exists>t. peek_ready (select_list k (st (rc_container rc))) now = Some t
        \<and> intra_key t = (rc_priority rc, rc_sub_tick_order rc))"

lemma rc_entry_simps [simp]:
  "rc_entry (ready_new a t d) = a"
  "rc_entry (ready_refresh t rc) = rc_entry rc"
  "rc_entry (rc\<lparr>dirty_reported := d\<rparr>) = rc_entry rc"
  "ac_pos (rc_entry rc) = rc_pos rc"
  "ac_container (rc_entry rc) = rc_container rc"
  "ac_rank (rc_entry rc) = rc_rank rc"
  by (simp_all add: rc_entry_def ready_new_def ready_refresh_def)

lemma intra_tick_greater:
  "intra_tick_drain_order (priority t) (sub_tick_order t) p n = Greater \<longleftrightarrow> (p, n) < intra_key t"
  by (simp add: intra_tick_drain_order_def then_cmp_lin intra_key_def)

lemma tl_peek_ready:
  "tl_peek tq = Some t \<Longrightarrow> trigger_tick t \<le> now \<Longrightarrow> peek_ready tq now = Some t"
  "tl_peek tq = Some t \<Longrightarrow> \<not> trigger_tick t \<le> now \<Longrightarrow> peek_ready tq now = None"
  "tl_peek tq = None \<Longrightarrow> peek_ready tq now = None"
  by (simp_all add: peek_ready_eq)

lemma peek_ready_pop:
  assumes "peek_ready tq now = Some t"
  obtains tq' where "pop_ready tq now = Some (t, tq')"
  using assms pop_ready_None [of tq now] pop_ready_peek_ready [of tq now]
  by (cases "pop_ready tq now") fastforce+

text \<open>Draining one container is a run of the merge while the container wins.\<close>

definition outbids ::
  "tick_kind \<Rightarrow> int \<Rightarrow> nat set \<Rightarrow> nat \<Rightarrow> tick_store \<Rightarrow> (tick_priority \<times> int) option \<Rightarrow> bool" where
  "outbids k now C h st competing \<longleftrightarrow>
     (\<forall>h' \<in> C - {h}. \<forall>t. peek_ready (select_list k (st h')) now = Some t \<longrightarrow>
        (\<exists>key. competing = Some key \<and> key \<le> intra_key t))"

lemma merge_step_here:
  assumes "h \<in> C" and "pop_ready tq now = Some (t, tq')"
    and "st h = update_list k tq c"
    and "\<And>h' t'. h' \<in> C \<Longrightarrow> h' \<noteq> h \<Longrightarrow> peek_ready (select_list k (st h')) now = Some t' \<Longrightarrow>
       intra_key t \<le> intra_key t'"
  shows "merge_step k now C st t (st(h := update_list k tq' c))"
proof -
  have sel: "select_list k (st h) = tq"
    using assms(3) by (simp add: select_update_same)
  have "intra_key t \<le> intra_key t'"
    if "h' \<in> C" "peek_ready (select_list k (st h')) now = Some t'" for h' t'
    using assms(4) [OF that(1) _ that(2)] that sel pop_ready_peek_ready [OF assms(2)]
    by (cases "h' = h") auto
  then have "merge_step k now C st t (st(h := update_list k tq' (st h)))"
    using assms(1,2) sel by (intro merge_step.emit) auto
  then show ?thesis using assms(3) by simp
qed

lemma drain_container_merges:
  assumes "merges k now C st0 ts (st(h := update_list k tq c))" and "h \<in> C"
    and "outbids k now C h st competing"
    and "drain_container now m competing tq ts = (ts', tq')"
  shows "merges k now C st0 ts' (st(h := update_list k tq' c)) \<and> tl_len tq' \<le> tl_len tq \<and>
     (length ts \<le> m \<longrightarrow> length ts' \<le> m)"
  using assms(1,4)
proof (induction "m - length ts" arbitrary: tq ts rule: less_induct)
  case less
  show ?case
  proof (cases "length ts < m \<and> peek_ready tq now \<noteq> None")
    case False
    then show ?thesis
      using less.prems by (auto simp: drain_container.simps [of now m competing tq] split: if_splits)
  next
    case True
    then obtain t where t: "peek_ready tq now = Some t" by auto
    obtain tq1 where pop: "pop_ready tq now = Some (t, tq1)"
      by (rule peek_ready_pop [OF t])
    show ?thesis
    proof (cases "\<exists>key. competing = Some key \<and> key < intra_key t")
      case stop: True
      then have "drain_container now m competing tq ts = (ts, tq)"
        using True t by (auto simp: drain_container.simps [of now m competing tq] intra_tick_greater)
      then show ?thesis using less.prems by simp
    next
      case False
      then have eq: "drain_container now m competing tq ts = drain_container now m competing tq1 (ts @ [t])"
        using True t pop
        by (auto simp: drain_container.simps [of now m competing tq] intra_tick_greater split: option.split)
      have least: "intra_key t \<le> intra_key t'"
        if "h' \<in> C" "h' \<noteq> h" "peek_ready (select_list k ((st(h := update_list k tq c)) h')) now = Some t'" for h' t'
        using assms(3) False that unfolding outbids_def by fastforce
      have "merge_step k now C (st(h := update_list k tq c)) t (st(h := update_list k tq1 c))"
        using merge_step_here [OF assms(2) pop, of "st(h := update_list k tq c)" k c] least by simp
      then have "merges k now C st0 (ts @ [t]) (st(h := update_list k tq1 c))"
        using less.prems(1) by (rule merges_snoc [rotated])
      moreover have "m - length (ts @ [t]) < m - length ts" using True by auto
      ultimately have "merges k now C st0 ts' (st(h := update_list k tq' c)) \<and> tl_len tq' \<le> tl_len tq1
          \<and> (length (ts @ [t]) \<le> m \<longrightarrow> length ts' \<le> m)"
        using less.hyps less.prems(2) eq by metis
      then show ?thesis
        using True pop_ready_tl_len [OF pop] by auto
    qed
  qed
qed

text \<open>
  The invariant of the outer loop. \<open>ch\<close> lists the containers reported as changed, and \<open>P\<close> holds
  the position of the container that the body has taken out of the heap and not yet put back.
\<close>

definition collect_ok ::
  "tick_kind \<Rightarrow> int \<Rightarrow> nat \<Rightarrow> active_container list \<Rightarrow> tick_store \<Rightarrow> active_container list
     \<Rightarrow> chunk_pos multiset \<Rightarrow> ready_container list \<Rightarrow> collect_acc \<Rightarrow> bool" where
  "collect_ok k now m D st0 ch P ready acc \<longleftrightarrow>
     merges k now (ac_container ` set D) st0 (acc_ticks acc) (acc_store acc) \<and>
     length (acc_ticks acc) \<le> m \<and>
     heap_ordered ready_cmp ready \<and>
     mset (map rc_pos ready) + mset (map fst (acc_updates acc)) + P = mset (map ac_pos D) \<and>
     (\<forall>rc \<in> set ready. rc_entry rc \<in> set D \<and> cache_ok k now (acc_store acc) rc
        \<and> (dirty_reported rc \<longleftrightarrow> rc_entry rc \<in> set ch)) \<and>
     (\<forall>(p, v) \<in> set (acc_updates acc). \<exists>a \<in> set D. ac_pos a = p
        \<and> v = list_head (select_list k (acc_store acc (ac_container a)))
        \<and> (length (acc_ticks acc) < m \<longrightarrow>
             peek_ready (select_list k (acc_store acc (ac_container a))) now = None)) \<and>
     distinct ch \<and> set ch \<subseteq> set D \<and> acc_changed acc = map ac_rank ch \<and>
     (\<forall>a \<in> set D. if a \<in> set ch
        then tl_len (select_list k (acc_store acc (ac_container a)))
               < tl_len (select_list k (st0 (ac_container a)))
        else acc_store acc (ac_container a) = st0 (ac_container a))"

text \<open>What the collection relies on: one container per due entry, all of them registered.\<close>

definition due_ok :: "tick_store \<Rightarrow> active_container list \<Rightarrow> bool" where
  "due_ok st D \<longleftrightarrow> distinct (map ac_pos D) \<and> distinct (map ac_container D) \<and>
     (\<forall>a \<in> set D. lifecycle (st (ac_container a)) = Registered)"

lemma due_okD:
  assumes "due_ok st D" "a \<in> set D" "b \<in> set D"
  shows "ac_pos a = ac_pos b \<Longrightarrow> a = b" and "ac_container a = ac_container b \<Longrightarrow> a = b"
    and "lifecycle (st (ac_container a)) = Registered"
  using assms by (auto simp: due_ok_def distinct_map dest: inj_onD)

lemma collect_okD:
  assumes "collect_ok k now m D st0 ch P ready acc"
  shows "merges k now (ac_container ` set D) st0 (acc_ticks acc) (acc_store acc)"
    and "length (acc_ticks acc) \<le> m"
    and "heap_ordered ready_cmp ready"
    and "mset (map rc_pos ready) + mset (map fst (acc_updates acc)) + P = mset (map ac_pos D)"
    and "rc \<in> set ready \<Longrightarrow> rc_entry rc \<in> set D \<and> cache_ok k now (acc_store acc) rc
           \<and> (dirty_reported rc \<longleftrightarrow> rc_entry rc \<in> set ch)"
    and "(p, v) \<in> set (acc_updates acc) \<Longrightarrow> \<exists>a \<in> set D. ac_pos a = p
        \<and> v = list_head (select_list k (acc_store acc (ac_container a)))
        \<and> (length (acc_ticks acc) < m \<longrightarrow>
             peek_ready (select_list k (acc_store acc (ac_container a))) now = None)"
    and "distinct ch" and "set ch \<subseteq> set D" and "acc_changed acc = map ac_rank ch"
    and "a \<in> set D \<Longrightarrow> a \<in> set ch \<Longrightarrow> tl_len (select_list k (acc_store acc (ac_container a)))
           < tl_len (select_list k (st0 (ac_container a)))"
    and "a \<in> set D \<Longrightarrow> a \<notin> set ch \<Longrightarrow> acc_store acc (ac_container a) = st0 (ac_container a)"
  using assms unfolding collect_ok_def by (simp_all, blast+)

lemma collect_okI:
  assumes "merges k now (ac_container ` set D) st0 (acc_ticks acc) (acc_store acc)"
    and "length (acc_ticks acc) \<le> m"
    and "heap_ordered ready_cmp ready"
    and "mset (map rc_pos ready) + mset (map fst (acc_updates acc)) + P = mset (map ac_pos D)"
    and "\<And>rc. rc \<in> set ready \<Longrightarrow> rc_entry rc \<in> set D \<and> cache_ok k now (acc_store acc) rc
           \<and> (dirty_reported rc \<longleftrightarrow> rc_entry rc \<in> set ch)"
    and "\<And>p v. (p, v) \<in> set (acc_updates acc) \<Longrightarrow> \<exists>a \<in> set D. ac_pos a = p
        \<and> v = list_head (select_list k (acc_store acc (ac_container a)))
        \<and> (length (acc_ticks acc) < m \<longrightarrow>
             peek_ready (select_list k (acc_store acc (ac_container a))) now = None)"
    and "distinct ch" and "set ch \<subseteq> set D" and "acc_changed acc = map ac_rank ch"
    and "\<And>a. a \<in> set D \<Longrightarrow> a \<in> set ch \<Longrightarrow> tl_len (select_list k (acc_store acc (ac_container a)))
           < tl_len (select_list k (st0 (ac_container a)))"
    and "\<And>a. a \<in> set D \<Longrightarrow> a \<notin> set ch \<Longrightarrow> acc_store acc (ac_container a) = st0 (ac_container a)"
  shows "collect_ok k now m D st0 ch P ready acc"
  unfolding collect_ok_def
  by (intro conjI assms ballI allI; (use assms in \<open>auto; fail\<close>)?)

lemma collect_cover:
  assumes ok: "collect_ok k now m D st0 ch P ready acc" and due: "due_ok st0 D"
    and a: "a \<in> set D" "ac_pos a \<notin># P" and len: "length (acc_ticks acc) < m"
  shows "a \<in> rc_entry ` set ready \<or>
     peek_ready (select_list k (acc_store acc (ac_container a))) now = None"
proof -
  have "ac_pos a \<in># mset (map rc_pos ready) + mset (map fst (acc_updates acc)) + P"
    using a(1) unfolding collect_okD(4) [OF ok] by simp
  then consider rc where "rc \<in> set ready" "rc_pos rc = ac_pos a"
    | v where "(ac_pos a, v) \<in> set (acc_updates acc)"
    using a(2) by auto
  then show ?thesis
  proof cases
    case 1
    then have "rc_entry rc = a"
      using collect_okD(5) [OF ok] due_okD(1) [OF due _ a(1)] by simp
    then show ?thesis using 1 by auto
  next
    case 2
    from collect_okD(6) [OF ok 2] obtain a' where a': "a' \<in> set D" "ac_pos a' = ac_pos a"
      "length (acc_ticks acc) < m \<longrightarrow>
         peek_ready (select_list k (acc_store acc (ac_container a'))) now = None" by blast
    then show ?thesis
      using due_okD(1) [OF due a'(1) a(1)] len by simp
  qed
qed

text \<open>The competing key bounds every other due head from below.\<close>

lemma collect_outbids:
  assumes ok: "collect_ok k now m D st0 ch {#} (rc # ready) acc" and due: "due_ok st0 D"
    and len: "length (acc_ticks acc) < m"
  shows "outbids k now (ac_container ` set D) (rc_container rc) (acc_store acc) (competing_key ready)"
  unfolding outbids_def
proof (intro ballI allI impI)
  fix h t assume h: "h \<in> ac_container ` set D - {rc_container rc}"
    and t: "peek_ready (select_list k (acc_store acc h)) now = Some t"
  then obtain a where a: "a \<in> set D" "h = ac_container a" by auto
  have ne: "a \<noteq> rc_entry rc" using h a(2) by auto
  with collect_cover [OF ok due a(1) _ len] t a(2) have "a \<in> rc_entry ` set ready" by auto
  then obtain rc' where rc': "rc' \<in> set ready" "rc_entry rc' = a" by auto
  with collect_okD(5) [OF ok, of rc'] a t
  have key: "intra_key t = (rc_priority rc', rc_sub_tick_order rc')"
    by (auto simp: cache_ok_def)
  obtain rd rest where r: "ready = rd # rest" using rc' by (cases ready) auto
  have "heap_ordered ready_cmp ready"
    using collect_okD(3) [OF ok] by (simp add: heap_ordered_Cons)
  then have "ready_key rd \<le> ready_key rc'"
    using rc'(1) r by (intro ready_heap.heap_peek_least [of ready]) (auto simp: heap_peek_Some)
  then have "(rc_priority rd, rc_sub_tick_order rd) \<le> intra_key t"
    unfolding key ready_key_def by (auto intro: less_imp_le)
  then show "\<exists>key. competing_key ready = Some key \<and> key \<le> intra_key t"
    using r by (simp add: competing_key_def)
qed

text \<open>One iteration takes a container out of the heap, drains it, and opens a hole at its position.\<close>

lemma collect_first:
  assumes ok: "collect_ok k now m D st0 ch {#} (rc # ready) acc" and due: "due_ok st0 D"
  shows "rc_entry rc \<in> set D"
    and "lifecycle (acc_store acc (rc_container rc)) = Registered"
    and "\<exists>t tq. pop_ready (select_list k (acc_store acc (rc_container rc))) now = Some (t, tq)
           \<and> intra_key t = (rc_priority rc, rc_sub_tick_order rc)"
proof -
  have rc: "rc_entry rc \<in> set D" "cache_ok k now (acc_store acc) rc"
    using collect_okD(5) [OF ok, of rc] by simp_all
  show "rc_entry rc \<in> set D" by (rule rc(1))
  show "lifecycle (acc_store acc (rc_container rc)) = Registered"
    using merges_frame(1) [OF collect_okD(1) [OF ok]] due_okD(3) [OF due rc(1) rc(1)] by simp
  from rc(2) obtain t where t: "peek_ready (select_list k (acc_store acc (rc_container rc))) now = Some t"
    "intra_key t = (rc_priority rc, rc_sub_tick_order rc)"
    by (auto simp: cache_ok_def)
  then show "\<exists>t tq. pop_ready (select_list k (acc_store acc (rc_container rc))) now = Some (t, tq)
           \<and> intra_key t = (rc_priority rc, rc_sub_tick_order rc)"
    by (metis peek_ready_pop)
qed

lemma collect_drains:
  assumes ok: "collect_ok k now m D st0 ch {#} (rc # ready) acc" and due: "due_ok st0 D"
    and len: "length (acc_ticks acc) < m"
    and c: "c = acc_store acc (rc_container rc)"
    and pop: "pop_ready (select_list k c) now = Some (t, tq1)"
    and drain: "drain_container now m (competing_key ready) tq1 (acc_ticks acc @ [t]) = (ts, tq2)"
  shows "merges k now (ac_container ` set D) st0 ts ((acc_store acc)(rc_container rc := update_list k tq2 c))"
    and "length ts \<le> m" and "tl_len tq2 < tl_len (select_list k c)"
    and "length (acc_ticks acc) < length ts"
proof -
  let ?C = "ac_container ` set D" and ?h = "rc_container rc" and ?st = "acc_store acc"
  have h: "?h \<in> ?C"
    using collect_first(1) [OF ok due] by (metis image_eqI rc_entry_simps(5))
  note out = collect_outbids [OF ok due len]
  have sorted: "heap_ordered ready_cmp (rc # ready)"
    using collect_okD(3) [OF ok] .
  have key: "intra_key t = (rc_priority rc, rc_sub_tick_order rc)"
    using collect_first(3) [OF ok due] pop c by auto
  have "key \<ge> intra_key t" if "competing_key ready = Some key" for key
  proof -
    from that obtain rd rest where "ready = rd # rest" "key = (rc_priority rd, rc_sub_tick_order rd)"
      by (cases ready) (auto simp: competing_key_def)
    then show ?thesis
      using sorted key by (auto simp: ready_heap.heap_ordered_iff_sorted ready_key_def intro: less_imp_le)
  qed
  then have "intra_key t \<le> intra_key t'"
    if "h' \<in> ?C" "h' \<noteq> ?h" "peek_ready (select_list k (?st h')) now = Some t'" for h' t'
    using out that unfolding outbids_def by (meson DiffI empty_iff insert_iff order_trans)
  then have "merge_step k now ?C ?st t (?st(?h := update_list k tq1 c))"
    using merge_step_here [OF h pop, of ?st k c] c by simp
  then have start: "merges k now ?C st0 (acc_ticks acc @ [t]) (?st(?h := update_list k tq1 c))"
    using collect_okD(1) [OF ok] by (rule merges_snoc [rotated])
  from drain_container_merges [OF start h out drain] pop_ready_tl_len [OF pop] len
  show "merges k now ?C st0 ts (?st(?h := update_list k tq2 c))" "length ts \<le> m"
    "tl_len tq2 < tl_len (select_list k c)" by auto
  show "length (acc_ticks acc) < length ts"
    using drain_container_length [OF drain] by simp
qed

lemma collect_others:
  assumes ok: "collect_ok k now m D st0 ch {#} (rc # ready) acc" and due: "due_ok st0 D"
  shows "rc' \<in> set ready \<Longrightarrow> rc_container rc' \<noteq> rc_container rc"
    and "rc' \<in> set ready \<Longrightarrow> rc_entry rc' \<noteq> rc_entry rc"
    and "(p, v) \<in> set (acc_updates acc) \<Longrightarrow> p \<noteq> rc_pos rc"
proof -
  have "distinct (map rc_pos (rc # ready) @ map fst (acc_updates acc))"
    using due collect_okD(4) [OF ok] mset_eq_imp_distinct_iff [of _ "map ac_pos D"]
    by (metis add.right_neutral due_ok_def mset_append)
  then have pos: "rc' \<in> set ready \<Longrightarrow> rc_pos rc' \<noteq> rc_pos rc"
    and upd: "(p, v) \<in> set (acc_updates acc) \<Longrightarrow> p \<noteq> rc_pos rc"
    by (auto simp: image_iff)
  show "(p, v) \<in> set (acc_updates acc) \<Longrightarrow> p \<noteq> rc_pos rc" by (rule upd)
  show ne: "rc_entry rc' \<noteq> rc_entry rc" if "rc' \<in> set ready"
    using pos [OF that] rc_entry_simps(4) by metis
  show "rc_container rc' \<noteq> rc_container rc" if "rc' \<in> set ready"
    using ne [OF that] due_okD(2) [OF due, of "rc_entry rc'" "rc_entry rc"]
      collect_first(1) [OF ok due] collect_okD(5) [OF ok, of rc'] that by auto
qed

lemma collect_advance:
  assumes ok: "collect_ok k now m D st0 ch {#} (rc # ready) acc" and due: "due_ok st0 D"
    and c: "c = acc_store acc (rc_container rc)"
    and mg: "merges k now (ac_container ` set D) st0 ts ((acc_store acc)(rc_container rc := update_list k tq c))"
    and len: "length ts \<le> m" "tl_len tq < tl_len (select_list k c)" "length (acc_ticks acc) < length ts"
  shows "collect_ok k now m D st0 (if dirty_reported rc then ch else ch @ [rc_entry rc]) {#rc_pos rc#} ready
     (acc\<lparr>acc_store := (acc_store acc)(rc_container rc := update_list k tq c), acc_ticks := ts,
          acc_changed := (if dirty_reported rc then acc_changed acc else acc_changed acc @ [rc_rank rc])\<rparr>)"
    (is "collect_ok k now m D st0 ?ch _ ready ?acc")
proof -
  let ?h = "rc_container rc"
  have rc: "rc_entry rc \<in> set D" and dirty: "dirty_reported rc \<longleftrightarrow> rc_entry rc \<in> set ch"
    using collect_okD(5) [OF ok, of rc] by simp_all
  have set_ch: "set ?ch = insert (rc_entry rc) (set ch)"
    using dirty by auto
  have same: "acc_store ?acc (ac_container a) = acc_store acc (ac_container a)"
    if "a \<in> set D" "a \<noteq> rc_entry rc" for a
    using that due_okD(2) [OF due that(1) rc] by auto
  note others = collect_others [OF ok due]
  have ready': "rc_entry r \<in> set D \<and> cache_ok k now (acc_store ?acc) r \<and> (dirty_reported r \<longleftrightarrow> rc_entry r \<in> set ?ch)"
    if "r \<in> set ready" for r
    using collect_okD(5) [OF ok, of r] others(1,2) [OF that] that set_ch by (simp add: cache_ok_def)
  have ups': "\<exists>a \<in> set D. ac_pos a = p
        \<and> v = list_head (select_list k (acc_store ?acc (ac_container a)))
        \<and> (length (acc_ticks ?acc) < m \<longrightarrow>
             peek_ready (select_list k (acc_store ?acc (ac_container a))) now = None)"
    if pv: "(p, v) \<in> set (acc_updates ?acc)" for p v
  proof -
    from pv collect_okD(6) [OF ok, of p v] obtain a where a: "a \<in> set D" "ac_pos a = p"
      "v = list_head (select_list k (acc_store acc (ac_container a)))"
      "length (acc_ticks acc) < m \<longrightarrow>
         peek_ready (select_list k (acc_store acc (ac_container a))) now = None" by auto
    have "a \<noteq> rc_entry rc" using others(3) [of p v] pv a(2) by auto
    then show ?thesis using a same [OF a(1)] len(3) by (intro bexI [of _ a]) simp_all
  qed
  have shrink: "tl_len (select_list k (acc_store ?acc (ac_container a)))
       < tl_len (select_list k (st0 (ac_container a)))" if a: "a \<in> set D" "a \<in> set ?ch" for a
  proof (cases "a = rc_entry rc")
    case False
    then show ?thesis using collect_okD(10) [OF ok a(1)] same [OF a(1) False] a(2) set_ch by simp
  next
    case True
    then show ?thesis
      using len(2) c collect_okD(10,11) [OF ok rc] 
      by (cases "rc_entry rc \<in> set ch") (simp_all add: select_update_same)
  qed
  have keep: "acc_store ?acc (ac_container a) = st0 (ac_container a)"
    if a: "a \<in> set D" "a \<notin> set ?ch" for a
    using a set_ch same [of a] collect_okD(11) [OF ok, of a] by simp
  have sums: "mset (map rc_pos ready) + mset (map fst (acc_updates ?acc)) + {#rc_pos rc#} = mset (map ac_pos D)"
    using collect_okD(4) [OF ok] by simp
  have heap: "heap_ordered ready_cmp ready"
    using collect_okD(3) [OF ok] by (simp add: heap_ordered_Cons)
  have ch: "distinct ?ch" "set ?ch \<subseteq> set D" "acc_changed ?acc = map ac_rank ?ch"
    using collect_okD(7-9) [OF ok] dirty set_ch rc by auto
  have mg': "merges k now (ac_container ` set D) st0 (acc_ticks ?acc) (acc_store ?acc)"
    "length (acc_ticks ?acc) \<le> m"
    using mg len(1) by simp_all
  show ?thesis
    by (rule collect_okI [OF mg' heap sums ready' ups' ch shrink keep])
qed

text \<open>The hole is closed by pushing the container again or by recording its head.\<close>

lemma collect_push:
  assumes ok: "collect_ok k now m D st0 ch {#rc_pos rc#} ready acc"
    and rc: "rc_entry rc \<in> set D" "cache_ok k now (acc_store acc) rc"
      "dirty_reported rc \<longleftrightarrow> rc_entry rc \<in> set ch"
  shows "collect_ok k now m D st0 ch {#} (heap_push ready_cmp rc ready) acc"
  using ok rc ready_heap.heap_ordered_push [OF collect_okD(3) [OF ok]]
  unfolding collect_ok_def by simp

lemma collect_drop:
  assumes ok: "collect_ok k now m D st0 ch {#ac_pos a#} ready acc" and a: "a \<in> set D"
    and v: "v = list_head (select_list k (acc_store acc (ac_container a)))"
    and fin: "length (acc_ticks acc) < m \<Longrightarrow>
       peek_ready (select_list k (acc_store acc (ac_container a))) now = None"
  shows "collect_ok k now m D st0 ch {#} ready (acc\<lparr>acc_updates := acc_updates acc @ [(ac_pos a, v)]\<rparr>)"
  using ok a v fin unfolding collect_ok_def by auto

lemma collect_loop_ok:
  assumes "collect_ok k now m D st0 ch {#} ready acc" and due: "due_ok st0 D"
  shows "\<exists>ready' acc' ch'. collect_loop k now m ready acc = Inr (ready', acc') \<and>
     collect_ok k now m D st0 ch' {#} ready' acc' \<and>
     (length (acc_ticks acc') < m \<longrightarrow> ready' = [])"
  using assms(1)
proof (induction "m - length (acc_ticks acc)" arbitrary: ready acc ch rule: less_induct)
  case less
  show ?case
  proof (cases "length (acc_ticks acc) < m \<and> ready \<noteq> []")
    case False
    then have "collect_loop k now m ready acc = Inr (ready, acc)"
      by (auto simp: collect_loop.simps [of k now m ready acc] split: option.split)
    then show ?thesis using less.prems False by auto
  next
    case True
    then obtain rc ready1 where r: "ready = rc # ready1" and len: "length (acc_ticks acc) < m"
      by (cases ready) auto
    note ok = less.prems [unfolded r]
    define h c where "h = rc_container rc" and "c = acc_store acc h"
    note first = collect_first [OF ok due]
    obtain t tq1 where pop: "pop_ready (select_list k c) now = Some (t, tq1)"
      using first(3) by (auto simp: c_def h_def)
    obtain ts tq2 where drain: "drain_container now m (competing_key ready1) tq1 (acc_ticks acc @ [t]) = (ts, tq2)"
      by (cases "drain_container now m (competing_key ready1) tq1 (acc_ticks acc @ [t])")
    define acc1 where "acc1 = acc\<lparr>acc_store := (acc_store acc)(h := update_list k tq2 c), acc_ticks := ts,
          acc_changed := (if dirty_reported rc then acc_changed acc else acc_changed acc @ [rc_rank rc])\<rparr>"
    define rc1 where "rc1 = rc\<lparr>dirty_reported := True\<rparr>"
    define ch1 where "ch1 = (if dirty_reported rc then ch else ch @ [rc_entry rc])"
    have c: "c = acc_store acc (rc_container rc)" by (simp add: c_def h_def)
    note drains = collect_drains [OF ok due len c pop drain]
    have adv: "collect_ok k now m D st0 ch1 {#rc_pos rc#} ready1 acc1"
      using collect_advance [OF ok due c drains] by (simp add: acc1_def ch1_def h_def)
    have dirty: "rc_entry rc1 \<in> set ch1"
      using collect_okD(5) [OF ok, of rc] by (simp add: ch1_def rc1_def)
    have sel: "select_list k (acc_store acc1 h) = tq2" and ticks1: "acc_ticks acc1 = ts"
      by (simp_all add: acc1_def select_update_same)
    have live: "lifecycle c = Registered" using first(2) by (simp add: c_def h_def)
    have dec: "m - length ts < m - length (acc_ticks acc)" using drains(4) len by simp
    show ?thesis
    proof (cases "\<exists>nt. tl_peek tq2 = Some nt \<and> length ts < m \<and> trigger_tick nt \<le> now")
      case True
      then obtain nt where nt: "tl_peek tq2 = Some nt" "length ts < m" "trigger_tick nt \<le> now" by auto
      have "cache_ok k now (acc_store acc1) (ready_refresh nt rc1)"
        using sel tl_peek_ready(1) [OF nt(1,3)]
        by (simp add: cache_ok_def ready_refresh_def rc1_def intra_key_def h_def)
      with adv first(1) dirty
      have ok1: "collect_ok k now m D st0 ch1 {#} (heap_push ready_cmp (ready_refresh nt rc1) ready1) acc1"
        by (intro collect_push) (simp_all add: rc1_def ready_refresh_def rc_entry_def)
      have "collect_loop k now m ready acc =
          collect_loop k now m (heap_push ready_cmp (ready_refresh nt rc1) ready1) acc1"
        using len live pop drain nt
        unfolding r by (simp add: collect_loop.simps [of k now m "rc # ready1" acc] Let_def acc1_def rc1_def c_def h_def)
      then show ?thesis using less.hyps [OF _ ok1] dec ticks1 by simp
    next
      case False
      define acc2 where "acc2 = acc1\<lparr>acc_updates := acc_updates acc1 @ [(rc_pos rc, list_head tq2)]\<rparr>"
      have "peek_ready tq2 now = None" if "length ts < m"
        using False that by (auto simp: peek_ready_eq split: option.split)
      then have ok1: "collect_ok k now m D st0 ch1 {#} ready1 acc2"
        using collect_drop [of k now m D st0 ch1 "rc_entry rc" ready1 acc1 "list_head tq2"] adv first(1) sel ticks1
        by (simp add: acc2_def h_def)
      have "collect_loop k now m ready acc = collect_loop k now m ready1 acc2"
        using len live pop drain False
        unfolding r by (auto simp: collect_loop.simps [of k now m "rc # ready1" acc] Let_def acc1_def acc2_def rc1_def c_def h_def
            list_head_def split: option.split)
      then show ?thesis using less.hyps [OF _ ok1] dec ticks1 by (simp add: acc2_def)
    qed
  qed
qed

lemma prepare_ok:
  assumes "collect_ok k now m D st [] (mset (map ac_pos as)) ready
       \<lparr>acc_store = st, acc_ticks = [], acc_changed = [], acc_updates = ups\<rparr>"
    and "due_ok st D" and "set as \<subseteq> set D"
  shows "\<exists>ready' ups'. prepare_ready_containers k now st as ready ups = Inr (ready', ups') \<and>
     collect_ok k now m D st [] {#} ready'
       \<lparr>acc_store = st, acc_ticks = [], acc_changed = [], acc_updates = ups'\<rparr>"
  using assms
proof (induction as arbitrary: ready ups)
  case Nil
  then show ?case by simp
next
  case (Cons a as)
  let ?acc = "\<lambda>ups. \<lparr>acc_store = st, acc_ticks = [], acc_changed = [], acc_updates = ups\<rparr>"
  let ?tq = "select_list k (st (ac_container a))"
  have a: "a \<in> set D" "lifecycle (st (ac_container a)) = Registered"
    using Cons.prems by (auto simp: due_ok_def)
  note ok = collect_okD [OF Cons.prems(1)]
  show ?case
  proof (cases "\<exists>t. tl_peek ?tq = Some t \<and> trigger_tick t \<le> now")
    case True
    then obtain t where t: "tl_peek ?tq = Some t" "trigger_tick t \<le> now" by auto
    have new: "cache_ok k now st (ready_new a t False)" "\<not> dirty_reported (ready_new a t False)"
      using tl_peek_ready(1) [OF t] by (auto simp: cache_ok_def ready_new_def intra_key_def)
    have pos: "rc_pos (ready_new a t False) = ac_pos a" by (simp add: ready_new_def)
    have "collect_ok k now m D st [] (mset (map ac_pos as)) (heap_push ready_cmp (ready_new a t False) ready) (?acc ups)"
      using ok new a pos ready_heap.heap_ordered_push [OF ok(3)]
      by (intro collect_okI) (auto simp: merges_Nil)
    then show ?thesis using Cons.IH Cons.prems(2,3) a t by (simp add: Let_def)
  next
    case False
    have "peek_ready ?tq now = None"
      using False by (auto simp: peek_ready_eq split: option.split)
    then have "collect_ok k now m D st [] (mset (map ac_pos as)) ready (?acc (ups @ [(ac_pos a, list_head ?tq)]))"
      using ok a by (intro collect_okI) (auto simp: merges_Nil)
    then show ?thesis using Cons.IH Cons.prems(2,3) a False
      by (auto simp: Let_def list_head_def split: option.split)
  qed
qed

lemma leftover_updates_map:
  "leftover_updates k st ready = map (\<lambda>rc. (rc_pos rc, list_head (select_list k (st (rc_container rc))))) ready"
  by (induction ready) auto

lemma collect_registered_ticks_ok:
  assumes due: "due_ok st D"
  shows "\<exists>b ups st' ch. collect_registered_ticks k st D now m = Inr ((b, ups), st') \<and>
     merges k now (ac_container ` set D) st (batch_ticks b) st' \<and> length (batch_ticks b) \<le> m \<and>
     (length (batch_ticks b) < m \<longrightarrow>
        (\<forall>a \<in> set D. peek_ready (select_list k (st' (ac_container a))) now = None)) \<and>
     mset (map fst ups) = mset (map ac_pos D) \<and>
     (\<forall>(p, v) \<in> set ups. \<exists>a \<in> set D. ac_pos a = p \<and> v = list_head (select_list k (st' (ac_container a)))) \<and>
     distinct ch \<and> set ch \<subseteq> set D \<and> changed_containers b = map ac_rank ch \<and>
     (\<forall>a \<in> set D. a \<in> set ch \<longleftrightarrow> st' (ac_container a) \<noteq> st (ac_container a))"
proof -
  let ?acc = "\<lambda>ups. \<lparr>acc_store = st, acc_ticks = [], acc_changed = [], acc_updates = ups\<rparr>"
  have "collect_ok k now m D st [] (mset (map ac_pos D)) [] (?acc [])"
    by (rule collect_okI) (auto simp: merges_Nil)
  from prepare_ok [OF this due order_refl] obtain ready ups where
    prep: "prepare_ready_containers k now st D [] [] = Inr (ready, ups)"
    and ok: "collect_ok k now m D st [] {#} ready (?acc ups)" by blast
  from collect_loop_ok [OF ok due] obtain ready' acc ch where
    loop: "collect_loop k now m ready (?acc ups) = Inr (ready', acc)"
    and ok': "collect_ok k now m D st ch {#} ready' acc"
    and fin: "length (acc_ticks acc) < m \<longrightarrow> ready' = []" by blast
  note f = collect_okD [OF ok']
  let ?ups = "acc_updates acc @ leftover_updates k (acc_store acc) ready'"
  let ?b = "\<lparr>batch_ticks = acc_ticks acc, changed_containers = acc_changed acc\<rparr>"
  have "collect_registered_ticks k st D now m = Inr ((?b, ?ups), acc_store acc)"
    by (simp add: collect_registered_ticks_def prep loop)
  moreover have "mset (map fst ?ups) = mset (map ac_pos D)"
    using f(4) by (simp add: leftover_updates_map comp_def add.commute)
  moreover have "\<exists>a \<in> set D. ac_pos a = p \<and> v = list_head (select_list k (acc_store acc (ac_container a)))"
    if pv: "(p, v) \<in> set ?ups" for p v
  proof (cases "(p, v) \<in> set (acc_updates acc)")
    case True
    then show ?thesis using f(6) by blast
  next
    case False
    then obtain rc where rc: "rc \<in> set ready'" "p = rc_pos rc"
      "v = list_head (select_list k (acc_store acc (rc_container rc)))"
      using pv by (auto simp: leftover_updates_map)
    then show ?thesis using f(5) [OF rc(1)] by (intro bexI [of _ "rc_entry rc"]) simp_all
  qed
  moreover have "\<forall>a \<in> set D. peek_ready (select_list k (acc_store acc (ac_container a))) now = None"
    if "length (acc_ticks acc) < m"
    using collect_cover [OF ok' due _ _ that] fin that by auto
  moreover have "a \<in> set ch \<longleftrightarrow> acc_store acc (ac_container a) \<noteq> st (ac_container a)" if "a \<in> set D" for a
    using f(10,11) [OF that] by force
  ultimately show ?thesis
    using f(1,2,7,8,9) by (intro exI [of _ ?b] exI [of _ ?ups] exI [of _ "acc_store acc"] exI [of _ ch]) fastforce
qed

section \<open>Collecting in a world\<close>

lemma apply_head_updates_ok:
  assumes "sched_inv s" and "distinct (map fst ups)"
    and "\<And>p. p \<in> fst ` set ups \<Longrightarrow> chunks s p \<noteq> None"
  shows "\<exists>s'. apply_head_updates k ups s = Inr s' \<and> sched_inv s' \<and>
     active_generation s' = active_generation s \<and>
     chunks s' = (\<lambda>p. case map_of ups p of
        None \<Rightarrow> chunks s p | Some v \<Rightarrow> map_option (reg_set_head k v) (chunks s p))"
  using assms
proof (induction ups arbitrary: s)
  case Nil
  then show ?case by simp
next
  case (Cons u ups)
  obtain p v where u: "u = (p, v)" by (cases u)
  obtain r where r: "chunks s p = Some r" using Cons.prems(3) [of p] u by auto
  obtain s1 where s1: "set_head s p k v = Inr (Inr (), s1)" "sched_inv s1"
    "chunks s1 = (chunks s)(p \<mapsto> reg_set_head k v r)" "active_generation s1 = active_generation s"
    using set_head_correct [OF Cons.prems(1) r, of k v] by auto
  have dist: "distinct (map fst ups)" and new: "p \<notin> fst ` set ups"
    using Cons.prems(2) u by simp_all
  have "chunks s1 q \<noteq> None" if "q \<in> fst ` set ups" for q
    using Cons.prems(3) [of q] that s1(3) by auto
  from Cons.IH [OF s1(2) dist this] obtain s' where s':
    "apply_head_updates k ups s1 = Inr s'" "sched_inv s'" "active_generation s' = active_generation s1"
    "chunks s' = (\<lambda>q. case map_of ups q of
        None \<Rightarrow> chunks s1 q | Some v \<Rightarrow> map_option (reg_set_head k v) (chunks s1 q))"
    by blast
  have "map_of ups p = None" using new by (simp add: map_of_eq_None_iff)
  then have "chunks s' = (\<lambda>q. case map_of (u # ups) q of
        None \<Rightarrow> chunks s q | Some v \<Rightarrow> map_option (reg_set_head k v) (chunks s q))"
    using r u s1(3) s'(4) by (auto simp: fun_eq_iff split: option.split)
  then show ?case using u s1(1,4) s' by simp
qed

definition active_handles :: "tick_world \<Rightarrow> nat set" where
  "active_handles w =
     {reg_container r | p r. chunks (sched w) p = Some r
        \<and> active_rank (active_generation (sched w)) r \<noteq> None}"

definition same_registration :: "tick_kind \<Rightarrow> tick_world \<Rightarrow> tick_world \<Rightarrow> bool" where
  "same_registration k w w' \<longleftrightarrow>
     active_generation (sched w') = active_generation (sched w) \<and>
     next_sub_tick w' = next_sub_tick w \<and>
     (\<forall>p. chunks (sched w') p = chunks (sched w) p \<or>
        (\<exists>r v. chunks (sched w) p = Some r \<and> chunks (sched w') p = Some (reg_set_head k v r)))"

lemma same_registration_refl [simp]: "same_registration k w w"
  by (simp add: same_registration_def)

lemma same_registration_SomeE:
  assumes "same_registration k w w'" and "chunks (sched w') p = Some r'"
  obtains r where "chunks (sched w) p = Some r" "reg_container r' = reg_container r"
    "active r' = active r" "\<forall>k'. k' \<noteq> k \<longrightarrow> reg_head k' r' = reg_head k' r"
  using assms unfolding same_registration_def
  by (metis reg_head_set(2,3,4) option.inject)

lemma same_registration_handles:
  "same_registration k w w' \<Longrightarrow> handles_ok w \<Longrightarrow> handles_ok w'"
  unfolding handles_ok_def
proof (intro allI impI)
  fix p p' r r'
  assume same: "same_registration k w w'"
    and ok: "\<forall>p r p' r'. chunks (sched w) p = Some r \<longrightarrow> chunks (sched w) p' = Some r' \<longrightarrow>
        reg_container r = reg_container r' \<longrightarrow> p = p'"
    and r: "chunks (sched w') p = Some r" "chunks (sched w') p' = Some r'" "reg_container r = reg_container r'"
  obtain q where "chunks (sched w) p = Some q" "reg_container r = reg_container q"
    by (rule same_registration_SomeE [OF same r(1)])
  moreover obtain q' where "chunks (sched w) p' = Some q'" "reg_container r' = reg_container q'"
    by (rule same_registration_SomeE [OF same r(2)])
  ultimately show "p = p'" using ok r(3) by simp
qed

lemma due_handles_active:
  assumes inv: "world_inv w" and "p \<in> due_heads k now (sched w)"
  obtains r where "chunks (sched w) p = Some r" "reg_container r \<in> active_handles w"
  using assms by (auto simp: due_heads_def active_head_def active_handles_def split: option.splits if_splits)

lemma not_due_future:
  assumes inv: "world_inv w" and r: "chunks (sched w) p = Some r"
    and act: "active_rank (active_generation (sched w)) r \<noteq> None" and "p \<notin> due_heads k now (sched w)"
  shows "peek_ready (select_list k (store w (reg_container r))) now = None"
proof -
  have "list_head (select_list k (store w (reg_container r))) = active_head k (sched w) p"
    using world_invD(4) [OF inv r] r act by (auto simp: mirrors_def active_head_def)
  then show ?thesis
    using assms(4) by (auto simp: list_head_def due_heads_def peek_ready_eq split: option.split)
qed

text \<open>The batch reports the activation rank of every container that the collection changed.\<close>

definition changed_ranks :: "tick_world \<Rightarrow> tick_world \<Rightarrow> nat set" where
  "changed_ranks w w' =
     {i. \<exists>p r. chunks (sched w) p = Some r \<and> active_rank (active_generation (sched w)) r = Some i
        \<and> store w' (reg_container r) \<noteq> store w (reg_container r)}"

text \<open>What \<open>take_due\<close> hands to the loops, read in the world it came from.\<close>

definition due_list :: "tick_kind \<Rightarrow> int \<Rightarrow> tick_world \<Rightarrow> active_container list \<Rightarrow> bool" where
  "due_list k now w D \<longleftrightarrow> distinct (map ac_pos D) \<and>
     set (map ac_pos D) = due_heads k now (sched w) \<and> (\<forall>a \<in> set D. is_due_entry (sched w) a)"

lemma due_list_entry:
  assumes "due_list k now w D" and "a \<in> set D"
  obtains r where "chunks (sched w) (ac_pos a) = Some r" "reg_container r = ac_container a"
    "active_rank (active_generation (sched w)) r = Some (ac_rank a)"
  using assms by (auto simp: due_list_def is_due_entry_def)

lemma due_list_unique:
  assumes inv: "world_inv w" and "due_list k now w D" and "a \<in> set D"
    and "chunks (sched w) p = Some r" and "reg_container r = ac_container a"
  shows "ac_pos a = p" and "active_rank (active_generation (sched w)) r = Some (ac_rank a)"
proof -
  obtain r' where r': "chunks (sched w) (ac_pos a) = Some r'" "reg_container r' = ac_container a"
    "active_rank (active_generation (sched w)) r' = Some (ac_rank a)"
    by (rule due_list_entry [OF assms(2,3)])
  then show "ac_pos a = p"
    using world_invD(2) [OF inv] assms(4,5) unfolding handles_ok_def by metis
  then show "active_rank (active_generation (sched w)) r = Some (ac_rank a)"
    using r' assms(4) by simp
qed

lemma due_list_ok:
  assumes inv: "world_inv w" and D: "due_list k now w D"
  shows "due_ok (store w) D"
  unfolding due_ok_def
proof (intro conjI ballI)
  show dist: "distinct (map ac_pos D)" using D by (simp add: due_list_def)
  have "inj_on ac_container (set D)"
  proof (rule inj_onI)
    fix a b assume ab: "a \<in> set D" "b \<in> set D" "ac_container a = ac_container b"
    obtain r where "chunks (sched w) (ac_pos b) = Some r" "reg_container r = ac_container b"
      by (rule due_list_entry [OF D ab(2)])
    then have "ac_pos a = ac_pos b" using due_list_unique(1) [OF inv D ab(1)] ab(3) by simp
    then show "a = b" using dist ab by (auto simp: distinct_map dest: inj_onD)
  qed
  then show "distinct (map ac_container D)" using dist by (simp add: distinct_map)
  show "lifecycle (store w (ac_container a)) = Registered" if "a \<in> set D" for a
    using due_list_entry [OF D that] world_invD(4) [OF inv] unfolding mirrors_def by metis
qed

lemma due_list_active:
  assumes "due_list k now w D"
  shows "ac_container ` set D \<subseteq> active_handles w"
proof
  fix h assume "h \<in> ac_container ` set D"
  then obtain a where a: "a \<in> set D" "h = ac_container a" by auto
  obtain r where "chunks (sched w) (ac_pos a) = Some r" "reg_container r = ac_container a"
    "active_rank (active_generation (sched w)) r = Some (ac_rank a)"
    by (rule due_list_entry [OF assms a(1)])
  then show "h \<in> active_handles w"
    unfolding active_handles_def a(2) by (intro CollectI exI [of _ r] exI [of _ "ac_pos a"]) simp
qed

lemma due_list_idle:
  assumes inv: "world_inv w" and D: "due_list k now w D"
    and h: "h \<in> active_handles w - ac_container ` set D"
  shows "peek_ready (select_list k (store w h)) now = None"
proof -
  from h obtain p r where r: "chunks (sched w) p = Some r" "reg_container r = h"
    "active_rank (active_generation (sched w)) r \<noteq> None" by (auto simp: active_handles_def)
  have "p \<notin> due_heads k now (sched w)"
  proof
    assume "p \<in> due_heads k now (sched w)"
    then have "p \<in> ac_pos ` set D" using D by (simp add: due_list_def)
    then obtain a where a: "a \<in> set D" "ac_pos a = p" by blast
    obtain r' where "chunks (sched w) p = Some r'" "reg_container r' = ac_container a"
      using due_list_entry [OF D a(1)] a(2) by metis
    then have "h = ac_container a" using r(1,2) by simp
    then show False using h a(1) by simp
  qed
  then show ?thesis using not_due_future [OF inv r(1,3)] r(2) by simp
qed

text \<open>Putting the heads back restores the invariant.\<close>

lemma collected_inv:
  assumes inv: "world_inv w" and D: "due_list k now w D"
    and mg: "merges k now (ac_container ` set D) (store w) ts st'"
    and inv2: "sched_inv s2" and gen2: "active_generation s2 = active_generation (sched w)"
    and heads: "\<And>p. chunks s2 p = (if p \<in> due_heads k now (sched w)
      then map_option (\<lambda>r. reg_set_head k (list_head (select_list k (st' (reg_container r)))) r) (chunks (sched w) p)
      else chunks (sched w) p)"
  shows "same_registration k w (w\<lparr>sched := s2, store := st'\<rparr>)"
    and "world_inv (w\<lparr>sched := s2, store := st'\<rparr>)"
proof -
  let ?w' = "w\<lparr>sched := s2, store := st'\<rparr>"
  show same: "same_registration k w ?w'"
    unfolding same_registration_def
  proof (intro conjI allI)
    fix p
    show "chunks (sched ?w') p = chunks (sched w) p \<or>
        (\<exists>r v. chunks (sched w) p = Some r \<and> chunks (sched ?w') p = Some (reg_set_head k v r))"
      using heads [of p] by (cases "chunks (sched w) p") auto
  qed (use gen2 in simp_all)
  have "reg_head k' r' = list_head (select_list k' (st' (reg_container r'))) \<and>
      lifecycle (st' (reg_container r')) = Registered" if r': "chunks s2 p = Some r'" for k' p r'
  proof -
    from r' have "chunks (sched ?w') p = Some r'" by simp
    from same_registration_SomeE [OF same this] obtain r where
      r: "chunks (sched w) p = Some r" "reg_container r' = reg_container r"
      "\<forall>k'. k' \<noteq> k \<longrightarrow> reg_head k' r' = reg_head k' r" by blast
    have m: "reg_head k' r = list_head (select_list k' (store w (reg_container r)))"
      "lifecycle (store w (reg_container r)) = Registered"
      using world_invD(4) [OF inv r(1)] by (simp_all add: mirrors_def)
    consider "k' \<noteq> k" | "k' = k" "p \<in> due_heads k now (sched w)"
      | "k' = k" "p \<notin> due_heads k now (sched w)" by blast
    then show ?thesis
    proof cases
      case 1
      then show ?thesis using m r merges_frame(1,2) [OF mg] by simp
    next
      case 2
      then show ?thesis using m(2) heads [of p] r(1) r' merges_frame(1) [OF mg] by auto
    next
      case 3
      then have eq: "r' = r" using heads [of p] r(1) r' by auto
      have "reg_container r \<notin> ac_container ` set D"
        using due_list_unique(1) [OF inv D _ r(1)] 3(2) D by (auto simp: due_list_def)
      then show ?thesis using m eq 3 merges_frame(3) [OF mg] by simp
    qed
  qed
  moreover have "\<exists>p r. chunks s2 p = Some r \<and> reg_container r = h"
    if "lifecycle (st' h) = Registered" for h
  proof -
    have "lifecycle (store w h) = Registered"
      using that by (simp add: merges_frame(1) [OF mg])
    then obtain p r where "chunks (sched w) p = Some r" "reg_container r = h"
      using world_invD(5) [OF inv] by blast
    then show ?thesis
      using heads [of p] by (cases "p \<in> due_heads k now (sched w)") (auto intro!: exI [of _ p])
  qed
  ultimately show "world_inv ?w'"
    using inv2 same_registration_handles [OF same world_invD(2) [OF inv]]
      merges_container_ordered [OF mg world_invD(3) [OF inv]]
    by (simp add: world_inv_def mirrors_def)
qed

lemma collected_ranks:
  assumes inv: "world_inv w" and D: "due_list k now w D"
    and frame: "\<And>h. h \<notin> ac_container ` set D \<Longrightarrow> store w' h = store w h"
    and ch: "set ch \<subseteq> set D"
      "\<And>a. a \<in> set D \<Longrightarrow> a \<in> set ch \<longleftrightarrow> store w' (ac_container a) \<noteq> store w (ac_container a)"
  shows "ac_rank ` set ch = changed_ranks w w'"
proof (intro equalityI subsetI)
  fix i assume "i \<in> ac_rank ` set ch"
  then obtain a where a: "a \<in> set ch" "a \<in> set D" "i = ac_rank a" using ch(1) by auto
  obtain r where "chunks (sched w) (ac_pos a) = Some r" "reg_container r = ac_container a"
    "active_rank (active_generation (sched w)) r = Some (ac_rank a)"
    by (rule due_list_entry [OF D a(2)])
  then show "i \<in> changed_ranks w w'"
    unfolding changed_ranks_def using a ch(2) [OF a(2)]
    by (intro CollectI exI [of _ "ac_pos a"] exI [of _ r]) simp
next
  fix i assume "i \<in> changed_ranks w w'"
  then obtain p r where r: "chunks (sched w) p = Some r"
    "active_rank (active_generation (sched w)) r = Some i"
    "store w' (reg_container r) \<noteq> store w (reg_container r)" by (auto simp: changed_ranks_def)
  have "reg_container r \<in> ac_container ` set D" using frame [of "reg_container r"] r(3) by blast
  then obtain a where a: "a \<in> set D" "ac_container a = reg_container r" by auto
  then have "ac_rank a = i" "a \<in> set ch"
    using due_list_unique(2) [OF inv D a(1) r(1)] ch(2) [OF a(1)] r(2,3) by simp_all
  then show "i \<in> ac_rank ` set ch" by auto
qed

lemma merges_none: "merges k now {} st ts st' \<Longrightarrow> ts = [] \<and> st' = st"
  by (cases rule: merges.cases) (auto elim: merge_stepE)

lemma collect_ticks_ok:
  assumes inv: "world_inv w"
  shows "\<exists>b w'. collect_ticks k w now m = Inr (b, w') \<and> world_inv w' \<and> same_registration k w w' \<and>
     merges k now (active_handles w) (store w) (batch_ticks b) (store w') \<and>
     length (batch_ticks b) \<le> m \<and>
     (length (batch_ticks b) < m \<longrightarrow>
        (\<forall>h \<in> active_handles w. peek_ready (select_list k (store w' h)) now = None)) \<and>
     set (changed_containers b) = changed_ranks w w'"
proof (cases "m = 0")
  case True
  then show ?thesis
    using inv by (auto simp: collect_ticks_def empty_batch_def merges_Nil changed_ranks_def)
next
  case False
  let ?s = "sched w"
  from take_due_correct [OF world_invD(1) [OF inv], of k now "[]"] obtain D s1 where
    take: "take_due k now ?s [] = Inr (D, s1)" and inv1: "sched_inv s1"
    and D: "due_list k now w D" and gen1: "active_generation s1 = active_generation ?s"
    and ch1: "chunks s1 = clear_heads k (due_heads k now ?s) (chunks ?s)"
    by (auto simp: due_list_def)
  from collect_registered_ticks_ok [OF due_list_ok [OF inv D], of k now m] obtain b ups st' ch where
    col: "collect_registered_ticks k (store w) D now m = Inr ((b, ups), st')"
    and mg: "merges k now (ac_container ` set D) (store w) (batch_ticks b) st'"
    and len: "length (batch_ticks b) \<le> m"
    and fin: "length (batch_ticks b) < m \<longrightarrow>
        (\<forall>a \<in> set D. peek_ready (select_list k (st' (ac_container a))) now = None)"
    and ups: "mset (map fst ups) = mset (map ac_pos D)"
    and heads: "\<forall>(p, v) \<in> set ups. \<exists>a \<in> set D. ac_pos a = p \<and> v = list_head (select_list k (st' (ac_container a)))"
    and ch: "set ch \<subseteq> set D" "changed_containers b = map ac_rank ch"
      "\<forall>a \<in> set D. a \<in> set ch \<longleftrightarrow> st' (ac_container a) \<noteq> store w (ac_container a)"
    by blast
  have distu: "distinct (map fst ups)" and setu: "fst ` set ups = due_heads k now ?s"
    using mset_eq_imp_distinct_iff [OF ups] D arg_cong [OF ups, of set_mset] by (auto simp: due_list_def)
  have due_some: "chunks ?s p \<noteq> None" if "p \<in> due_heads k now ?s" for p
    by (rule due_handles_active [OF inv that]) simp
  have "chunks s1 p \<noteq> None" if "p \<in> fst ` set ups" for p
    using due_some [of p] that setu ch1 by (simp add: clear_heads_def)
  from apply_head_updates_ok [OF inv1 distu this, of k] obtain s2 where
    app: "apply_head_updates k ups s1 = Inr s2" and inv2: "sched_inv s2"
    and gen2: "active_generation s2 = active_generation ?s"
    and ch2: "chunks s2 = (\<lambda>p. case map_of ups p of
        None \<Rightarrow> chunks s1 p | Some v \<Rightarrow> map_option (reg_set_head k v) (chunks s1 p))"
    using gen1 by auto
  have heads2: "chunks s2 p = (if p \<in> due_heads k now ?s
      then map_option (\<lambda>r. reg_set_head k (list_head (select_list k (st' (reg_container r)))) r) (chunks ?s p)
      else chunks ?s p)" for p
  proof (cases "map_of ups p")
    case None
    then have "p \<notin> due_heads k now ?s" using setu by (simp add: map_of_eq_None_iff)
    then show ?thesis using None by (simp add: ch2 ch1 clear_heads_def)
  next
    case (Some v)
    then have pv: "(p, v) \<in> set ups" by (rule map_of_SomeD)
    then have "p \<in> due_heads k now ?s" using setu by force
    moreover from pv heads obtain a where a: "a \<in> set D" "ac_pos a = p"
      "v = list_head (select_list k (st' (ac_container a)))" by blast
    moreover obtain r where "chunks ?s p = Some r" "reg_container r = ac_container a"
      using due_list_entry [OF D a(1)] a(2) by metis
    ultimately show ?thesis using Some by (simp add: ch2 ch1 clear_heads_def)
  qed
  let ?w' = "w\<lparr>sched := s2, store := st'\<rparr>"
  have ranks: "set (changed_containers b) = changed_ranks w ?w'"
    using collected_ranks [OF inv D _ ch(1), of ?w'] merges_frame(3) [OF mg] ch(2,3) by simp
  have "peek_ready (select_list k (st' h)) now = None"
    if "length (batch_ticks b) < m" "h \<in> active_handles w" for h
    using fin that due_list_idle [OF inv D, of h] merges_frame(3) [OF mg, of h]
    by (cases "h \<in> ac_container ` set D") auto
  moreover have "merges k now (active_handles w) (store w) (batch_ticks b) st'"
    using merges_mono [OF mg due_list_active [OF D] due_list_idle [OF inv D]] .
  moreover have "collect_ticks k w now m = Inr (b, ?w')"
  proof (cases "D = []")
    case True
    have "ups = []" "ch = []" using ups ch(1) True by simp_all
    then have "b = empty_batch"
      using merges_none [of k now "store w" "batch_ticks b" st'] mg ch(2) True by (simp add: empty_batch_def)
    then show ?thesis
      using merges_none [of k now "store w" "batch_ticks b" st'] mg app \<open>ups = []\<close> take True False
      by (simp add: collect_ticks_def)
  qed (use False take col app in \<open>simp add: collect_ticks_def\<close>)
  ultimately show ?thesis
    using collected_inv [OF inv D mg inv2 gen2 heads2] len ranks by auto
qed

end
