(* ===== verification/TickReach.thy ===== *)
theory TickReach
  imports TickCollect
begin

text \<open>
  The scheduler as a transition system. A step is one call that reaches the scheduler or one of
  the shared containers; \<open>home\<close> gives the chunk that owns a container. The invariant of every
  reachable world is the index invariant and the placement of every tick in the chunk of its
  container. A container may be created with any list, so also with one that was loaded from
  storage with a key several times (\<open>from_saved_ticks\<close> keeps them); \<open>uniq\<close> tells that none was, and
  then the invariant has the uniqueness of keys in every list, too.
\<close>

section \<open>What a move of one head changes\<close>

lemma deadline_remove_frame:
  "deadline_remove k v x s = Inr s' \<Longrightarrow> chunks s' = chunks s \<and> active_generation s' = active_generation s"
  by (auto simp: deadline_remove_def split: option.splits prod.splits if_splits)

lemma deadline_insert_frame:
  "deadline_insert k v x e s = Inr s' \<Longrightarrow> chunks s' = chunks s \<and> active_generation s' = active_generation s"
  by (auto simp: deadline_insert_def split: option.splits prod.splits if_splits)

lemma bind_result_Inr: "bind_result x f = Inr y \<longleftrightarrow> (\<exists>a. x = Inr a \<and> f a = Inr y)"
  by (cases x) auto

definition same_containers :: "tick_world \<Rightarrow> tick_world \<Rightarrow> bool" where
  "same_containers w w' \<longleftrightarrow>
     (\<forall>p r'. chunks (sched w') p = Some r' \<longrightarrow>
        (\<exists>r. chunks (sched w) p = Some r \<and> reg_container r' = reg_container r))"

lemma same_containers_refl [simp]: "same_containers w w"
  by (simp add: same_containers_def)

lemma same_containers_trans:
  "same_containers w w1 \<Longrightarrow> same_containers w1 w2 \<Longrightarrow> same_containers w w2"
  unfolding same_containers_def by metis

lemma set_head_frame:
  assumes "set_head s p k v = Inr (res, s')" and "chunks s' q = Some r'"
  shows "\<exists>r. chunks s q = Some r \<and> reg_container r' = reg_container r"
  using assms
  by (auto simp: set_head_def Let_def bind_result_Inr split: option.splits if_splits
      dest!: deadline_remove_frame deadline_insert_frame)

lemma then_set_head_frame:
  assumes "then_set_head p k v w = Inr (res, w')"
  shows "store w' = store w \<and> same_containers w w'"
  using assms set_head_frame [of "sched w" p k v]
  by (auto simp: then_set_head_def bind_result_Inr same_containers_def)

lemma set_container_same [simp]: "same_containers w (set_container h c w)"
  by (simp add: same_containers_def)

section \<open>Placement and uniqueness of ticks\<close>

definition list_placed :: "chunk_pos \<Rightarrow> tick_list \<Rightarrow> bool" where
  "list_placed p tq \<longleftrightarrow> (\<forall>key \<in> set (tq_keys tq). chunk_of_block (fst key) = p)"

definition container_placed :: "chunk_pos \<Rightarrow> tick_container \<Rightarrow> bool" where
  "container_placed p c \<longleftrightarrow> (\<forall>k. list_placed p (select_list k c))"

lemma list_placed_mset:
  "mset (tq_keys tq') \<subseteq># mset (tq_keys tq) \<Longrightarrow> list_placed p tq \<Longrightarrow> list_placed p tq'"
  unfolding list_placed_def by (metis set_mset_mono set_mset_mset subsetD)

lemma list_placed_pop: "list_placed p tq \<Longrightarrow> pop_ready tq now = Some (t, tq') \<Longrightarrow> list_placed p tq'"
  by (erule list_placed_mset [rotated]) (simp add: pop_ready_keys)

lemma list_placed_unpack: "list_placed p tq \<Longrightarrow> list_placed p (tl_unpack tq now)"
  by (erule list_placed_mset [rotated]) (simp add: mset_keys_unpack)

lemma list_placed_schedule:
  assumes "list_placed p tq" and "chunk_of_block pos = p"
  shows "list_placed p (snd (tl_schedule tq ty pos trig prio sub))"
  using assms by (auto simp: list_placed_def tl_schedule_def Let_def keys_push_iff tick_key_def)

lemma container_placed_update:
  "container_placed p c \<Longrightarrow> list_placed p tq \<Longrightarrow> container_placed p (update_list k tq c)"
  unfolding container_placed_def by (metis select_update(1,2))

lemma container_placed_lists:
  assumes "\<And>k. select_list k c' = select_list k c"
  shows "container_placed p c' = container_placed p c" "container_dedup c' = container_dedup c"
  using assms by (simp_all add: container_placed_def container_dedup_def)

lemma merges_container_placed:
  "merges k now C st0 ts st \<Longrightarrow> container_placed p (st0 h) \<Longrightarrow> container_placed p (st h)"
  unfolding container_placed_def by (erule merges_preserves) (auto intro: list_placed_pop)

definition stored_ok :: "bool \<Rightarrow> (nat \<Rightarrow> chunk_pos) \<Rightarrow> tick_world \<Rightarrow> bool" where
  "stored_ok uniq home w \<longleftrightarrow>
     (\<forall>h. (uniq \<longrightarrow> container_dedup (store w h)) \<and> container_placed (home h) (store w h)) \<and>
     (\<forall>p r. chunks (sched w) p = Some r \<longrightarrow> home (reg_container r) = p)"

definition full_inv :: "bool \<Rightarrow> (nat \<Rightarrow> chunk_pos) \<Rightarrow> tick_world \<Rightarrow> bool" where
  "full_inv uniq home w \<longleftrightarrow> world_inv w \<and> stored_ok uniq home w"

lemma stored_okD:
  assumes "stored_ok uniq home w"
  shows "uniq \<Longrightarrow> container_dedup (store w h)" and "container_placed (home h) (store w h)"
    and "chunks (sched w) p = Some r \<Longrightarrow> home (reg_container r) = p"
  using assms by (simp_all add: stored_ok_def)

lemma stored_ok_frame:
  assumes "stored_ok uniq home w" and "same_containers w w'"
    and "\<And>h. (uniq \<longrightarrow> container_dedup (store w' h)) \<and> container_placed (home h) (store w' h)"
  shows "stored_ok uniq home w'"
  using assms unfolding stored_ok_def same_containers_def by metis

lemma stored_ok_set_container:
  assumes "stored_ok uniq home w" and "uniq \<Longrightarrow> container_dedup c" and "container_placed (home h) c"
  shows "stored_ok uniq home (set_container h c w)"
  using assms by (intro stored_ok_frame [OF assms(1)]) (auto simp: stored_ok_def)

lemma container_ordered_of_dedup: "container_dedup c \<Longrightarrow> container_ordered c"
  by (simp add: container_dedup_def container_ordered_def tq_dedup_def)

text \<open>A container that is not registered may change or be created without notice.\<close>

lemma set_container_unregistered:
  assumes inv: "world_inv w" and "lifecycle (store w h) \<noteq> Registered" and "lifecycle c \<noteq> Registered"
    and "container_ordered c"
  shows "world_inv (set_container h c w)"
proof -
  have "reg_container r \<noteq> h" if "chunks (sched w) p = Some r" for p r
    using world_invD(4) [OF inv that] assms(2) by (auto simp: mirrors_def)
  then show ?thesis
    using inv assms(3,4) by (auto simp: world_inv_def mirrors_def handles_ok_def)
qed

section \<open>Steps\<close>

inductive world_step :: "bool \<Rightarrow> (nat \<Rightarrow> chunk_pos) \<Rightarrow> tick_world \<Rightarrow> tick_world \<Rightarrow> bool" for uniq home where
  ws_create: "lifecycle (store w h) \<noteq> Registered \<Longrightarrow> lifecycle c \<in> {Proto, PrePublication} \<Longrightarrow>
    container_ordered c \<Longrightarrow> (uniq \<Longrightarrow> container_dedup c) \<Longrightarrow> container_placed (home h) c \<Longrightarrow>
    world_step uniq home w (set_container h c w)"
| ws_container: "container_step (store w h) c \<Longrightarrow> container_placed (home h) c \<Longrightarrow>
    world_step uniq home w (set_container h c w)"
| ws_register: "fc_pos fc = home (fc_container fc) \<Longrightarrow>
    world_step uniq home w (snd (register_chunk w fc))"
| ws_unregister: "unregister_chunk w pos = Inr w' \<Longrightarrow> world_step uniq home w w'"
| ws_unpack: "unpack_chunk w pos now = Inr (res, w') \<Longrightarrow> world_step uniq home w w'"
| ws_reconcile: "distinct ps \<Longrightarrow> reconcile_active_chunks w ps = Inr (res, w') \<Longrightarrow>
    world_step uniq home w w'"
| ws_sub_tick: "world_step uniq home w (snd (next_sub_tick_order w))"
| ws_schedule: "fc_pos fc = home (fc_container fc) \<Longrightarrow> chunk_of_block pos = fc_pos fc \<Longrightarrow>
    schedule_tick k w fc ty pos trig prio sub = Inr (res', w') \<Longrightarrow> world_step uniq home w w'"
| ws_collect: "collect_ticks k w now m = Inr (b, w') \<Longrightarrow> world_step uniq home w w'"

inductive reachable_world :: "bool \<Rightarrow> (nat \<Rightarrow> chunk_pos) \<Rightarrow> tick_world \<Rightarrow> bool" for uniq home where
  rw_new: "(\<And>h. lifecycle (st h) \<noteq> Registered \<and> container_ordered (st h) \<and> (uniq \<longrightarrow> container_dedup (st h)) \<and>
      container_placed (home h) (st h)) \<Longrightarrow>
    reachable_world uniq home (scheduler_new st)"
| rw_step: "reachable_world uniq home w \<Longrightarrow> world_step uniq home w w' \<Longrightarrow> reachable_world uniq home w'"

lemma home_chunk_handle:
  "stored_ok uniq home w \<Longrightarrow> fc_pos fc = home (fc_container fc) \<Longrightarrow> chunk_handle_ok w fc"
  unfolding chunk_handle_ok_def using stored_okD(3) [of uniq home w] by metis

lemma unpack_chunk_stored:
  assumes "stored_ok uniq home w" and eq: "unpack_chunk w pos now = Inr (res, w')"
  shows "stored_ok uniq home w'"
proof (cases "store w' = store w \<and> same_containers w w'")
  case True
  then show ?thesis using stored_okD(1,2) [OF assms(1)] by (intro stored_ok_frame [OF assms(1)]) simp_all
next
  case False
  then obtain r where r: "chunks (sched w) pos = Some r"
    using eq by (auto simp: unpack_chunk_def split: option.splits)
  define c c1 where "c = store w (reg_container r)"
    and "c1 = c\<lparr>block_list := tl_unpack (block_list c) now, fluid_list := tl_unpack (fluid_list c) now\<rparr>"
  let ?w1 = "set_container (reg_container r) c1 w"
  have "lifecycle c = Registered"
    by (rule ccontr) (use eq r False in \<open>simp add: unpack_chunk_def c_def Let_def\<close>)
  then have unf: "unpack_chunk w pos now =
      bind_result (then_set_head pos BlockKind (list_head (block_list c1)) ?w1)
        (\<lambda>(res, w2). case res of Inl e \<Rightarrow> Inr (Inl e, w2)
           | Inr _ \<Rightarrow> then_set_head pos FluidKind (list_head (fluid_list c1)) w2)"
    using r unfolding unpack_chunk_def Let_def c1_def c_def by simp
  from eq [unfolded unf] obtain a w2 where a: "then_set_head pos BlockKind (list_head (block_list c1)) ?w1 = Inr (a, w2)"
    and rest: "(case a of Inl e \<Rightarrow> Inr (Inl e, w2)
        | Inr _ \<Rightarrow> then_set_head pos FluidKind (list_head (fluid_list c1)) w2) = Inr (res, w')"
    by (auto simp: bind_result_Inr)
  have "store w' = store w2 \<and> same_containers w2 w'"
    using rest by (auto split: sum.splits dest: then_set_head_frame)
  then have fr: "store w' = store ?w1" "same_containers ?w1 w'"
    using then_set_head_frame [OF a] same_containers_trans by auto
  have "select_list k c1 = tl_unpack (select_list k c) now" for k
    by (cases k) (simp_all add: c1_def)
  then have w1: "stored_ok uniq home ?w1"
    using assms(1)
    by (intro stored_ok_set_container)
      (auto simp: stored_ok_def c_def container_dedup_def container_placed_def
        intro: unpack_dedup list_placed_unpack)
  show ?thesis
    by (rule stored_ok_frame [OF w1 fr(2)]) (unfold fr(1), blast intro: stored_okD(1,2) [OF w1])
qed

lemma schedule_tick_stored:
  assumes "stored_ok uniq home w" and fc: "fc_pos fc = home (fc_container fc)" "chunk_of_block pos = fc_pos fc"
    and eq: "schedule_tick k w fc ty pos trig prio sub = Inr (res, w')"
  shows "stored_ok uniq home w'"
proof -
  let ?c = "store w (fc_container fc)"
  obtain added tq where sch: "tl_schedule (select_list k ?c) ty pos trig prio sub = (added, tq)"
    by (cases "tl_schedule (select_list k ?c) ty pos trig prio sub")
  let ?w1 = "set_container (fc_container fc) (update_list k tq ?c) w"
  have w1: "stored_ok uniq home ?w1"
    using assms(1) sch fc tl_schedule_dedup [of "select_list k ?c" ty pos trig prio sub]
      list_placed_schedule [of "home (fc_container fc)" "select_list k ?c" pos ty trig prio sub]
    by (intro stored_ok_set_container container_dedup_update container_placed_update)
      (auto simp: stored_ok_def container_dedup_def container_placed_def)
  have "w' = w \<or> store w' = store ?w1 \<and> same_containers ?w1 w'"
    using eq sch unfolding schedule_tick_def
    by (auto simp: Let_def bind_result_Inr split: if_splits option.splits dest!: then_set_head_frame)
  then show ?thesis
    using assms(1) stored_ok_frame [OF w1, of w'] stored_okD(1,2) [OF w1] by auto
qed

lemma world_step_inv:
  assumes "world_step uniq home w w'" and inv: "full_inv uniq home w"
  shows "full_inv uniq home w'"
proof -
  have wi: "world_inv w" and so: "stored_ok uniq home w" using inv by (simp_all add: full_inv_def)
  from assms(1) show ?thesis
  proof cases
    case (ws_create h c)
    then show ?thesis
      using set_container_unregistered [OF wi, of h c] stored_ok_set_container [OF so, of c h]
      by (auto simp: full_inv_def)
  next
    case (ws_container h c)
    have d: "uniq \<Longrightarrow> container_dedup c" and ord: "container_ordered c"
      using container_step_dedup [OF ws_container(2)] container_step_ordered [OF ws_container(2) world_invD(3) [OF wi]] so
      by (simp_all add: stored_ok_def)
    have "world_inv (set_container h c w)"
    proof (cases "lifecycle (store w h) = Registered")
      case True
      then have "c = store w h" using container_step_closed [OF ws_container(2)] by simp
      then show ?thesis using wi by (simp add: set_container_def)
    next
      case False
      then have "lifecycle c \<noteq> Registered" using container_step_lifecycle [OF ws_container(2)] by auto
      then show ?thesis
        using set_container_unregistered [OF wi False] ord by simp
    qed
    then show ?thesis
      using ws_container d stored_ok_set_container [OF so d] by (simp add: full_inv_def)
  next
    case (ws_register fc)
    have "stored_ok uniq home (snd (register_chunk w fc))"
      using so ws_register(2)
      by (auto simp: register_chunk_def Let_def stored_ok_def container_placed_def)
    then show ?thesis
      using ws_register register_chunk_inv [OF wi] by (simp add: full_inv_def)
  next
    case (ws_unregister pos)
    then show ?thesis
      using unregister_chunk_inv [OF wi, of pos] so
      by (auto simp: full_inv_def stored_ok_def container_placed_def container_dedup_def)
  next
    case (ws_unpack pos now res)
    then show ?thesis
      using unpack_chunk_inv [OF wi, of pos now] unpack_chunk_stored [OF so]
      by (auto simp: full_inv_def)
  next
    case (ws_reconcile ps res)
    then show ?thesis
      using reconcile_active_chunks_inv [OF wi ws_reconcile(1)] so
      by (fastforce simp: full_inv_def stored_ok_def)
  next
    case ws_sub_tick
    then show ?thesis
      using inv by (simp add: full_inv_def world_inv_def stored_ok_def handles_ok_def next_sub_tick_order_def)
  next
    case (ws_schedule fc pos k ty trig prio sub res')
    then show ?thesis
      using schedule_tick_inv [OF wi home_chunk_handle [OF so], of fc k ty pos trig prio sub]
        schedule_tick_stored [OF so]
      by (auto simp: full_inv_def)
  next
    case (ws_collect k now m b)
    from collect_ticks_ok [OF wi, of k now m] ws_collect
    have w': "world_inv w'" "same_registration k w w'"
      "merges k now (active_handles w) (store w) (batch_ticks b) (store w')" by auto
    have "same_containers w w'"
      unfolding same_containers_def by (metis same_registration_SomeE [OF w'(2)])
    then have "stored_ok uniq home w'"
      by (rule stored_ok_frame [OF so])
        (simp add: merges_container_dedup [OF w'(3)] merges_container_placed [OF w'(3)] stored_okD [OF so])
    then show ?thesis using w'(1) by (simp add: full_inv_def)
  qed
qed

lemma reachable_world_inv: "reachable_world uniq home w \<Longrightarrow> full_inv uniq home w"
proof (induction rule: reachable_world.induct)
  case (rw_new st)
  then have "world_inv (scheduler_new st)"
    by (intro scheduler_new_inv) auto
  then show ?case
    using rw_new by (auto simp: full_inv_def stored_ok_def scheduler_new_def)
qed (rule world_step_inv)

text \<open>Every list that storage gives may be the list of a created container.\<close>

lemma loaded_container:
  "container_ordered (container_new (from_saved_ticks bs) (from_saved_ticks fs))"
  "container_dedup (container_new (from_saved_ticks bs) (from_saved_ticks fs)) \<longleftrightarrow>
     distinct (map saved_key bs) \<and> distinct (map saved_key fs)"
  "container_placed p (container_new (from_saved_ticks bs) (from_saved_ticks fs)) \<longleftrightarrow>
     (\<forall>s \<in> set (bs @ fs). chunk_of_block (saved_pos s) = p)"
proof -
  let ?c = "container_new (from_saved_ticks bs) (from_saved_ticks fs)"
  have all: "(\<forall>k. P (select_list k ?c)) \<longleftrightarrow> P (from_saved_ticks bs) \<and> P (from_saved_ticks fs)" for P
  proof
    assume "\<forall>k. P (select_list k ?c)"
    from this [rule_format, of BlockKind] this [rule_format, of FluidKind]
    show "P (from_saved_ticks bs) \<and> P (from_saved_ticks fs)" by (simp add: container_new_def)
  next
    assume "P (from_saved_ticks bs) \<and> P (from_saved_ticks fs)"
    then show "\<forall>k. P (select_list k ?c)" by (intro allI, case_tac k) (simp_all add: container_new_def)
  qed
  show "container_ordered ?c"
    unfolding container_ordered_def all using from_saved_ticks_inv by (simp add: tq_inv_def)
  show "container_dedup ?c \<longleftrightarrow> distinct (map saved_key bs) \<and> distinct (map saved_key fs)"
    unfolding container_dedup_def all by (simp add: from_saved_ticks_dedup)
  have "tq_keys (from_saved_ticks ss) = map saved_key ss" for ss
    by (simp add: tq_keys_def pending_entries_def from_saved_ticks_def tl_new_pending_def)
  then show "container_placed p ?c \<longleftrightarrow> (\<forall>s \<in> set (bs @ fs). chunk_of_block (saved_pos s) = p)"
    unfolding container_placed_def all by (auto simp: list_placed_def saved_key_def)
qed

section \<open>Keys of a batch\<close>

lemma distinct_by_groups:
  assumes "\<And>t. t \<in> set ts \<Longrightarrow> distinct (map f (filter (\<lambda>u. g u = g t) ts))"
    and group: "\<And>t u. f t = f u \<Longrightarrow> g t = g u"
  shows "distinct (map f ts)"
  using assms(1)
proof (induction ts)
  case (Cons t ts)
  have "distinct (map f (filter (\<lambda>u. g u = g t') ts))" if "t' \<in> set ts" for t'
    using Cons.prems [of t'] that by (simp split: if_splits)
  moreover have "f t \<notin> f ` set ts"
  proof
    assume "f t \<in> f ` set ts"
    then obtain u where u: "u \<in> set ts" "f u = f t" by auto
    then have "f t \<in> f ` set (filter (\<lambda>u. g u = g t) ts)" using group [of u t] by (auto simp: image_iff)
    then show False using Cons.prems [of t] by simp
  qed
  ultimately show ?case using Cons.IH by simp
qed simp

lemma live_tick_key: "t \<in> set (live_ticks tq) \<Longrightarrow> tick_key t \<in> set (tq_keys tq)"
  by (auto simp: live_ticks_def tq_keys_def)

lemma merges_per_home:
  assumes "merges k now C st0 ts st" and inj: "inj_on home C"
    and placed: "\<And>h. container_placed (home h) (st0 h)" and h: "h \<in> C"
  shows "mset (filter (\<lambda>t. chunk_of_block (tick_pos t) = home h) ts)
      + mset (live_ticks (select_list k (st h))) = mset (live_ticks (select_list k (st0 h)))"
    and "t \<in> set ts \<Longrightarrow> chunk_of_block (tick_pos t) \<in> home ` C"
proof -
  have "mset (filter (\<lambda>t. chunk_of_block (tick_pos t) = home h) ts)
      + mset (live_ticks (select_list k (st h))) = mset (live_ticks (select_list k (st0 h))) \<and>
      (\<forall>t \<in> set ts. chunk_of_block (tick_pos t) \<in> home ` C)"
    using assms(1)
  proof (induction rule: merges.induct)
    case (merges_snoc ts st t st')
    from merges_snoc.hyps(2) show ?case
    proof cases
      case (emit h1 tq)
      have mset: "mset (live_ticks (select_list k (st h1))) = add_mset t (mset (live_ticks tq))"
        by (rule pop_ready_mset [OF emit(3)])
      then have "t \<in> set (live_ticks (select_list k (st h1)))"
        by (metis set_mset_mset union_single_eq_member)
      moreover have "list_placed (home h1) (select_list k (st h1))"
        using merges_container_placed [OF merges_snoc.hyps(1) placed] by (simp add: container_placed_def)
      ultimately have t: "chunk_of_block (tick_pos t) = home h1"
        using live_tick_key unfolding list_placed_def tick_key_def by fastforce
      then have "chunk_of_block (tick_pos t) = home h \<longleftrightarrow> h = h1"
        using inj h emit(2) by (auto dest: inj_onD)
      then show ?thesis
        using merges_snoc.IH emit(1,2) mset t by (auto simp: select_update_same)
    qed
  qed simp
  then show "mset (filter (\<lambda>t. chunk_of_block (tick_pos t) = home h) ts)
      + mset (live_ticks (select_list k (st h))) = mset (live_ticks (select_list k (st0 h)))"
    and "t \<in> set ts \<Longrightarrow> chunk_of_block (tick_pos t) \<in> home ` C" by auto
qed

lemma merges_keys_distinct:
  assumes mg: "merges k now C st0 ts st" and inj: "inj_on home C"
    and placed: "\<And>h. container_placed (home h) (st0 h)" and dedup: "\<And>h. container_dedup (st0 h)"
  shows "distinct (map tick_key ts)"
proof (rule distinct_by_groups [where g = "\<lambda>t. chunk_of_block (tick_pos t)"])
  fix t assume "t \<in> set ts"
  then have "C \<noteq> {}" using mg merges_none [of k now st0 ts st] by auto
  then obtain h where h: "h \<in> C" "chunk_of_block (tick_pos t) = home h"
    using merges_per_home(2) [OF mg inj placed _ \<open>t \<in> set ts\<close>] by blast
  let ?tq = "select_list k (st0 h)" and ?ts = "filter (\<lambda>u. chunk_of_block (tick_pos u) = home h) ts"
  have "distinct (map tick_key (live_ticks ?tq))"
    using dedup [of h] by (auto simp: container_dedup_def tq_dedup_def tq_keys_def live_ticks_def)
  moreover have "mset (map tick_key (?ts @ live_ticks (select_list k (st h)))) = mset (map tick_key (live_ticks ?tq))"
    using merges_per_home(1) [OF mg inj placed h(1)] by (metis mset_append mset_map)
  ultimately have "distinct (map tick_key (?ts @ live_ticks (select_list k (st h))))"
    using mset_eq_imp_distinct_iff by blast
  then have "distinct (map tick_key ?ts)" by simp
  then show "distinct (map tick_key (filter (\<lambda>u. chunk_of_block (tick_pos u) = chunk_of_block (tick_pos t)) ts))"
    using h(2) by simp
qed (simp add: tick_key_def)

lemma home_inj_active: "stored_ok uniq home w \<Longrightarrow> handles_ok w \<Longrightarrow> inj_on home (active_handles w)"
  unfolding active_handles_def by (auto intro!: inj_onI) (metis option.inject stored_okD(3))

end
