(* ===== verification/RunBatch.thy ===== *)
theory RunBatch
  imports TickQueue
begin

text \<open>
  The ticks selected for one execution phase
  (\<open>foton-core/src/world/tick_scheduler/run_batch.rs\<close>). The lookup index is built by the first
  query, from the cursor on; \<open>contains\<close> therefore returns the batch it leaves behind.
\<close>

record run_batch =
  rb_ticks :: "scheduled_tick list"
  next_index :: nat
  lookup :: "(scheduled_tick_key \<Rightarrow> nat option) option"

definition batch_new :: "scheduled_tick list \<Rightarrow> run_batch" where
  "batch_new ts = \<lparr>rb_ticks = ts, next_index = 0, lookup = None\<rparr>"

text \<open>The assertion on the index is the error \<open>None\<close>.\<close>

definition batch_start :: "run_batch \<Rightarrow> nat \<Rightarrow> run_batch option" where
  "batch_start b i = (if i < length (rb_ticks b) then Some (b\<lparr>next_index := i + 1\<rparr>) else None)"

definition not_yet_started :: "run_batch \<Rightarrow> scheduled_tick list" where
  "not_yet_started b = drop (next_index b) (rb_ticks b)"

text \<open>Collecting pairs into a hash map keeps the last value of a key.\<close>

fun build_lookup :: "scheduled_tick list \<Rightarrow> nat \<Rightarrow> (scheduled_tick_key \<Rightarrow> nat option) \<Rightarrow>
    scheduled_tick_key \<Rightarrow> nat option" where
  "build_lookup [] i m = m"
| "build_lookup (t # ts) i m = build_lookup ts (Suc i) (m(tick_key t \<mapsto> i))"

definition batch_contains :: "run_batch \<Rightarrow> block_pos \<Rightarrow> nat \<Rightarrow> bool \<times> run_batch" where
  "batch_contains b pos ty =
     (if length (rb_ticks b) \<le> next_index b then (False, b)
      else
        (let m = (case lookup b of
                    Some m \<Rightarrow> m
                  | None \<Rightarrow> build_lookup (drop (next_index b) (rb_ticks b)) (next_index b) (\<lambda>_. None));
             b1 = b\<lparr>lookup := Some m\<rparr>
         in (case m (pos, ty) of None \<Rightarrow> False | Some i \<Rightarrow> next_index b1 \<le> i, b1)))"

section \<open>The index answers for what has not started\<close>

text \<open>The lookup was built at or before the cursor.\<close>

definition batch_ok :: "run_batch \<Rightarrow> bool" where
  "batch_ok b \<longleftrightarrow> next_index b \<le> length (rb_ticks b) \<and>
     (\<forall>m. lookup b = Some m \<longrightarrow>
        (\<exists>i0 \<le> next_index b. m = build_lookup (drop i0 (rb_ticks b)) i0 (\<lambda>_. None)))"

lemma build_lookup_from:
  "(\<exists>j. build_lookup ts i m key = Some j \<and> n \<le> j) \<longleftrightarrow>
     key \<in> tick_key ` set (drop (n - i) ts)
     \<or> key \<notin> tick_key ` set ts \<and> (\<exists>j. m key = Some j \<and> n \<le> j)"
proof (induction ts arbitrary: i m)
  case (Cons t ts)
  show ?case
  proof (cases "n \<le> i")
    case True
    then show ?thesis by (auto simp: Cons.IH)
  next
    case False
    then have "n - i = Suc (n - Suc i)" by simp
    then show ?thesis
      using False set_drop_subset [of "n - Suc i" ts] by (auto simp: Cons.IH)
  qed
qed simp

lemma batch_new_ok [inv_intros]: "batch_ok (batch_new ts)"
  by (simp add: batch_ok_def batch_new_def)

lemma batch_start_ok:
  "batch_ok b \<Longrightarrow> next_index b \<le> i \<Longrightarrow> batch_start b i = Some b' \<Longrightarrow> batch_ok b'"
proof -
  assume ok: "batch_ok b" and i: "next_index b \<le> i" and eq: "batch_start b i = Some b'"
  have b': "i < length (rb_ticks b)" "b' = b\<lparr>next_index := i + 1\<rparr>"
    using eq by (simp_all add: batch_start_def split: if_splits)
  have "\<exists>i0 \<le> i + 1. m = build_lookup (drop i0 (rb_ticks b)) i0 (\<lambda>_. None)" if "lookup b = Some m" for m
  proof -
    from ok that obtain i0 where "i0 \<le> next_index b" "m = build_lookup (drop i0 (rb_ticks b)) i0 (\<lambda>_. None)"
      unfolding batch_ok_def by blast
    then show ?thesis using i by (intro exI [of _ i0]) linarith
  qed
  then show "batch_ok b'" unfolding batch_ok_def b'(2) using b'(1) by simp
qed

lemma batch_contains_ok:
  "batch_ok b \<Longrightarrow> batch_ok (snd (batch_contains b pos ty))"
  by (auto simp: batch_ok_def batch_contains_def Let_def split: option.splits)

lemma batch_contains_frame:
  "rb_ticks (snd (batch_contains b pos ty)) = rb_ticks b"
  "next_index (snd (batch_contains b pos ty)) = next_index b"
  by (simp_all add: batch_contains_def Let_def)

lemma batch_contains_correct:
  assumes "batch_ok b"
  shows "fst (batch_contains b pos ty) \<longleftrightarrow> (pos, ty) \<in> tick_key ` set (not_yet_started b)"
proof (cases "length (rb_ticks b) \<le> next_index b")
  case True
  then show ?thesis by (simp add: batch_contains_def not_yet_started_def)
next
  case False
  define m where "m = (case lookup b of Some m \<Rightarrow> m
     | None \<Rightarrow> build_lookup (drop (next_index b) (rb_ticks b)) (next_index b) (\<lambda>_. None))"
  obtain i0 where i0: "i0 \<le> next_index b" "m = build_lookup (drop i0 (rb_ticks b)) i0 (\<lambda>_. None)"
    using assms unfolding batch_ok_def m_def by (cases "lookup b") auto
  have "fst (batch_contains b pos ty) \<longleftrightarrow> (\<exists>j. m (pos, ty) = Some j \<and> next_index b \<le> j)"
    using False by (auto simp: batch_contains_def m_def Let_def split: option.splits)
  also have "\<dots> \<longleftrightarrow> (pos, ty) \<in> tick_key ` set (drop (next_index b - i0) (drop i0 (rb_ticks b)))"
    by (simp add: i0(2) build_lookup_from)
  finally show ?thesis using i0(1) by (simp add: not_yet_started_def)
qed

text \<open>
  What the executor does: it starts every tick in order, and each callback may ask the batch any
  number of questions before the next one starts.
\<close>

fun ask_all :: "run_batch \<Rightarrow> scheduled_tick_key list \<Rightarrow> bool list \<times> run_batch" where
  "ask_all b [] = ([], b)"
| "ask_all b ((pos, ty) # ks) =
     (case batch_contains b pos ty of
        (a, b1) \<Rightarrow> (case ask_all b1 ks of (as, b2) \<Rightarrow> (a # as, b2)))"

lemma ask_all_correct:
  assumes "batch_ok b"
  shows "batch_ok (snd (ask_all b ks)) \<and> rb_ticks (snd (ask_all b ks)) = rb_ticks b \<and>
     next_index (snd (ask_all b ks)) = next_index b \<and>
     fst (ask_all b ks) = map (\<lambda>key. key \<in> tick_key ` set (not_yet_started b)) ks"
  using assms
proof (induction ks arbitrary: b)
  case (Cons key ks)
  obtain pos ty where key: "key = (pos, ty)" by (cases key)
  let ?b1 = "snd (batch_contains b pos ty)"
  have "batch_ok ?b1" using batch_contains_ok [OF Cons.prems] .
  from Cons.IH [OF this] show ?case
    using batch_contains_correct [OF Cons.prems, of pos ty]
    by (simp add: key split_beta batch_contains_frame not_yet_started_def)
qed simp

end
