(* ===== verification/TickPhase.thy ===== *)
theory TickPhase
  imports TickReach RunBatch
begin

text \<open>
  The scheduled-tick phase of a world: \<open>foton-core/src/world/tick_scheduler/world.rs\<close>, the
  scheduling and snapshot entry points of \<open>chunk/full_chunk/mod.rs\<close>, and the loops of
  \<open>chunk/chunk_map/scheduled_ticks.rs\<close>.

  The state adds to the scheduler the clock, the published Full chunks, their dirty flags, and
  the batch of each kind that is being executed. A batch is shared through an \<open>Arc\<close>: its number
  stands for the address that \<open>Arc::ptr_eq\<close> compares. The block lookup and the behaviours of
  blocks and fluids are arguments; \<open>rest\<close> is the state only they read and write.
\<close>

datatype phase_panic =
    SchedulerPanic tick_panic
  | OwnershipInvariant tick_error
  | BatchAlreadyActive
  | BatchIdentityChanged
  | BatchIndexOutOfBounds
  | TickableIndexOutOfBounds
  | LostFullChunk

record 'w phase =
  pw :: tick_world
  game_time :: int
  full_chunks :: "chunk_pos \<Rightarrow> full_chunk option"
  dirty :: "chunk_pos \<Rightarrow> bool"
  runs :: "tick_kind \<Rightarrow> (nat \<times> run_batch) option"
  next_batch :: nat
  rest :: 'w

definition lift_tick :: "tick_panic + 'a \<Rightarrow> phase_panic + 'a" where
  "lift_tick = map_sum SchedulerPanic id"

section \<open>Scheduling\<close>

definition mark_dirty :: "chunk_pos \<Rightarrow> 'w phase \<Rightarrow> 'w phase" where
  "mark_dirty pos p = p\<lparr>dirty := (dirty p)(pos := True)\<rparr>"

text \<open>\<open>level\<close> tells whether the chunk's world is still alive.\<close>

definition fc_schedule_tick ::
  "tick_kind \<Rightarrow> bool \<Rightarrow> 'w phase \<Rightarrow> full_chunk \<Rightarrow> block_pos \<Rightarrow> nat \<Rightarrow> int \<Rightarrow> tick_priority \<Rightarrow> int
     \<Rightarrow> phase_panic + 'w phase" where
  "fc_schedule_tick k level p fc pos ty trig prio sub =
     bind_result
       (if level
        then bind_result (lift_tick (schedule_tick k (pw p) fc ty pos trig prio sub))
               (\<lambda>(res, w). Inr (res, p\<lparr>pw := w\<rparr>))
        else (case schedule_unregistered k (store (pw p) (fc_container fc)) ty pos trig prio sub of
                (Some added, c) \<Rightarrow>
                  Inr (Inr added, p\<lparr>pw := set_container (fc_container fc) c (pw p)\<rparr>)
              | (None, c) \<Rightarrow> Inr (Inl (MissingContainer (fc_pos fc)), p)))
       (\<lambda>(res, p'). case res of
          Inr True \<Rightarrow> Inr (mark_dirty (fc_pos fc) p')
        | Inr False \<Rightarrow> Inr p'
        | Inl e \<Rightarrow> Inl (OwnershipInvariant e))"

text \<open>\<open>with_full_chunk\<close> does nothing where no Full chunk is published.\<close>

definition world_schedule_tick ::
  "tick_kind \<Rightarrow> 'w phase \<Rightarrow> block_pos \<Rightarrow> nat \<Rightarrow> int \<Rightarrow> tick_priority \<Rightarrow> phase_panic + 'w phase" where
  "world_schedule_tick k p pos ty dl prio =
     (let trig = wrap_i64 (game_time p + dl)
      in case next_sub_tick_order (pw p) of
           (order, w) \<Rightarrow>
             (let p1 = p\<lparr>pw := w\<rparr>
              in case full_chunks p (chunk_of_block pos) of
                   None \<Rightarrow> Inr p1
                 | Some fc \<Rightarrow> fc_schedule_tick k True p1 fc pos ty trig prio order))"

definition schedule_block_tick ::
  "'w phase \<Rightarrow> block_pos \<Rightarrow> nat \<Rightarrow> int \<Rightarrow> tick_priority \<Rightarrow> phase_panic + 'w phase" where
  "schedule_block_tick = world_schedule_tick BlockKind"

definition schedule_fluid_tick ::
  "'w phase \<Rightarrow> block_pos \<Rightarrow> nat \<Rightarrow> int \<Rightarrow> tick_priority \<Rightarrow> phase_panic + 'w phase" where
  "schedule_fluid_tick = world_schedule_tick FluidKind"

definition schedule_block_tick_default ::
  "'w phase \<Rightarrow> block_pos \<Rightarrow> nat \<Rightarrow> int \<Rightarrow> phase_panic + 'w phase" where
  "schedule_block_tick_default p pos ty dl = schedule_block_tick p pos ty dl Normal"

definition schedule_fluid_tick_default ::
  "'w phase \<Rightarrow> block_pos \<Rightarrow> nat \<Rightarrow> int \<Rightarrow> phase_panic + 'w phase" where
  "schedule_fluid_tick_default p pos ty dl = schedule_fluid_tick p pos ty dl Normal"

definition has_scheduled_tick ::
  "tick_kind \<Rightarrow> 'w phase \<Rightarrow> block_pos \<Rightarrow> nat \<Rightarrow> phase_panic + bool" where
  "has_scheduled_tick k p pos ty =
     (case full_chunks p (chunk_of_block pos) of
        None \<Rightarrow> Inr False
      | Some fc \<Rightarrow>
          (case (case k of BlockKind \<Rightarrow> has_block | FluidKind \<Rightarrow> has_fluid)
                  (store (pw p) (fc_container fc)) pos ty of
             Some b \<Rightarrow> Inr b
           | None \<Rightarrow> Inl (OwnershipInvariant (MissingContainer (fc_pos fc)))))"

definition has_scheduled_block_tick ::
  "'w phase \<Rightarrow> block_pos \<Rightarrow> nat \<Rightarrow> phase_panic + bool" where
  "has_scheduled_block_tick = has_scheduled_tick BlockKind"

definition has_scheduled_fluid_tick ::
  "'w phase \<Rightarrow> block_pos \<Rightarrow> nat \<Rightarrow> phase_panic + bool" where
  "has_scheduled_fluid_tick = has_scheduled_tick FluidKind"

section \<open>The batch that is running\<close>

definition set_run :: "tick_kind \<Rightarrow> (nat \<times> run_batch) option \<Rightarrow> 'w phase \<Rightarrow> 'w phase" where
  "set_run k r p = p\<lparr>runs := (runs p)(k := r)\<rparr>"

definition will_tick :: "tick_kind \<Rightarrow> 'w phase \<Rightarrow> block_pos \<Rightarrow> nat \<Rightarrow> bool \<times> 'w phase" where
  "will_tick k p pos ty =
     (case runs p k of
        None \<Rightarrow> (False, p)
      | Some (n, b) \<Rightarrow>
          (case batch_contains b pos ty of (yes, b1) \<Rightarrow> (yes, set_run k (Some (n, b1)) p)))"

definition will_tick_block_this_tick :: "'w phase \<Rightarrow> block_pos \<Rightarrow> nat \<Rightarrow> bool \<times> 'w phase" where
  "will_tick_block_this_tick = will_tick BlockKind"

definition will_tick_fluid_this_tick :: "'w phase \<Rightarrow> block_pos \<Rightarrow> nat \<Rightarrow> bool \<times> 'w phase" where
  "will_tick_fluid_this_tick = will_tick FluidKind"

definition pending_ticks_in_chunk :: "tick_kind \<Rightarrow> 'w phase \<Rightarrow> chunk_pos \<Rightarrow> scheduled_tick list" where
  "pending_ticks_in_chunk k p pos =
     (case runs p k of
        None \<Rightarrow> []
      | Some (n, b) \<Rightarrow> filter (\<lambda>t. chunk_of_block (tick_pos t) = pos) (not_yet_started b))"

definition pending_block_ticks_in_chunk :: "'w phase \<Rightarrow> chunk_pos \<Rightarrow> scheduled_tick list" where
  "pending_block_ticks_in_chunk = pending_ticks_in_chunk BlockKind"

definition pending_fluid_ticks_in_chunk :: "'w phase \<Rightarrow> chunk_pos \<Rightarrow> scheduled_tick list" where
  "pending_fluid_ticks_in_chunk = pending_ticks_in_chunk FluidKind"

definition begin_batch :: "tick_kind \<Rightarrow> 'w phase \<Rightarrow> scheduled_tick list \<Rightarrow> phase_panic + nat \<times> 'w phase" where
  "begin_batch k p ts =
     (if runs p k \<noteq> None then Inl BatchAlreadyActive
      else (let n = next_batch p
            in Inr (n, set_run k (Some (n, batch_new ts)) (p\<lparr>next_batch := Suc n\<rparr>))))"

definition end_batch :: "tick_kind \<Rightarrow> 'w phase \<Rightarrow> nat \<Rightarrow> phase_panic + 'w phase" where
  "end_batch k p n =
     (case runs p k of
        Some (m, b) \<Rightarrow> if m = n then Inr (set_run k None p) else Inl BatchIdentityChanged
      | None \<Rightarrow> Inl BatchIdentityChanged)"

text \<open>The guard's \<open>start\<close> moves the cursor of its own batch.\<close>

definition start_run :: "tick_kind \<Rightarrow> 'w phase \<Rightarrow> nat \<Rightarrow> phase_panic + 'w phase" where
  "start_run k p i =
     (case runs p k of
        None \<Rightarrow> Inr p
      | Some (n, b) \<Rightarrow>
          (case batch_start b i of
             None \<Rightarrow> Inl BatchIndexOutOfBounds
           | Some b1 \<Rightarrow> Inr (set_run k (Some (n, b1)) p)))"

section \<open>Snapshots\<close>

definition due_now :: "scheduled_tick \<Rightarrow> saved_tick" where
  "due_now t =
     \<lparr>saved_type = tick_type t, saved_pos = tick_pos t, delay = 0, saved_priority = priority t\<rparr>"

text \<open>A chunk whose world is gone is packed at clock 0, and has no batch to ask.\<close>

definition scheduled_tick_snapshot ::
  "bool \<Rightarrow> 'w phase \<Rightarrow> full_chunk \<Rightarrow> phase_panic + saved_tick list \<times> saved_tick list" where
  "scheduled_tick_snapshot level p fc =
     (case container_snapshot (store (pw p) (fc_container fc)) (if level then game_time p else 0) of
        None \<Rightarrow> Inl (OwnershipInvariant (MissingContainer (fc_pos fc)))
      | Some (bs, fs) \<Rightarrow>
          if level then Inr (bs @ map due_now (pending_block_ticks_in_chunk p (fc_pos fc)),
               fs @ map due_now (pending_fluid_ticks_in_chunk p (fc_pos fc)))
          else Inr (bs, fs))"

section \<open>Collecting and executing\<close>

definition max_scheduled_ticks_per_tick :: nat where
  "max_scheduled_ticks_per_tick = 65536"

fun mark_changed :: "chunk_pos list \<Rightarrow> nat list \<Rightarrow> 'w phase \<Rightarrow> phase_panic + 'w phase" where
  "mark_changed tickable [] p = Inr p"
| "mark_changed tickable (i # is) p =
     (if length tickable \<le> i then Inl TickableIndexOutOfBounds
      else if full_chunks p (tickable ! i) = None then Inl LostFullChunk
      else mark_changed tickable is (mark_dirty (tickable ! i) p))"

definition collect_scheduled_ticks ::
  "tick_kind \<Rightarrow> 'w phase \<Rightarrow> chunk_pos list \<Rightarrow> int \<Rightarrow> phase_panic + scheduled_tick list \<times> 'w phase" where
  "collect_scheduled_ticks k p tickable now =
     bind_result (lift_tick (collect_ticks k (pw p) now max_scheduled_ticks_per_tick))
       (\<lambda>(b, w). bind_result (mark_changed tickable (changed_containers b) (p\<lparr>pw := w\<rparr>))
          (\<lambda>p'. Inr (batch_ticks b, p')))"

text \<open>\<open>current\<close> reads the type the block or fluid at a position has now.\<close>

fun execute_from ::
  "tick_kind \<Rightarrow> ('w phase \<Rightarrow> block_pos \<Rightarrow> nat) \<Rightarrow> (scheduled_tick \<Rightarrow> 'w phase \<Rightarrow> 'w phase)
     \<Rightarrow> nat \<Rightarrow> scheduled_tick list \<Rightarrow> 'w phase \<Rightarrow> phase_panic + 'w phase" where
  "execute_from k current behave i [] p = Inr p"
| "execute_from k current behave i (t # ts) p =
     bind_result (start_run k p i)
       (\<lambda>p1. execute_from k current behave (Suc i) ts
          (if current p1 (tick_pos t) \<noteq> tick_type t then p1 else behave t p1))"

definition execute_scheduled_ticks ::
  "tick_kind \<Rightarrow> ('w phase \<Rightarrow> block_pos \<Rightarrow> nat) \<Rightarrow> (scheduled_tick \<Rightarrow> 'w phase \<Rightarrow> 'w phase)
     \<Rightarrow> scheduled_tick list \<Rightarrow> 'w phase \<Rightarrow> phase_panic + 'w phase" where
  "execute_scheduled_ticks k current behave ts p =
     (if ts = [] then Inr p
      else bind_result (begin_batch k p ts)
        (\<lambda>(n, p1). bind_result (execute_from k current behave 0 ts p1)
           (\<lambda>p2. end_batch k p2 n)))"

section \<open>What a save reads\<close>

lemma saved_key_live [simp]: "saved_key (saved_of_live now t) = tick_key t"
  by (simp add: saved_key_def saved_of_live_def tick_key_def)

lemma saved_key_due [simp]: "saved_key (due_now t) = tick_key t"
  by (simp add: saved_key_def due_now_def tick_key_def)

lemma pack_keys: "mset (map saved_key (tl_pack (packing_snapshot_of tq) now)) = mset (tq_keys tq)"
  by (simp add: tl_pack_def packing_snapshot_of_def tq_keys_def pending_entries_def comp_def
      image_mset.compositionality)

fun saved_part :: "tick_kind \<Rightarrow> saved_tick list \<times> saved_tick list \<Rightarrow> saved_tick list" where
  "saved_part BlockKind s = fst s"
| "saved_part FluidKind s = snd s"

lemma snapshot_part:
  assumes "lifecycle (store (pw p) (fc_container fc)) \<noteq> Finalized"
  shows "\<exists>s. scheduled_tick_snapshot True p fc = Inr s \<and>
     (\<forall>k. saved_part k s = tl_pack (packing_snapshot_of (select_list k (store (pw p) (fc_container fc)))) (game_time p)
        @ map due_now (pending_ticks_in_chunk k p (fc_pos fc)))"
proof -
  let ?c = "store (pw p) (fc_container fc)"
  let ?part = "\<lambda>k. tl_pack (packing_snapshot_of (select_list k ?c)) (game_time p)
      @ map due_now (pending_ticks_in_chunk k p (fc_pos fc))"
  have "scheduled_tick_snapshot True p fc = Inr (?part BlockKind, ?part FluidKind)"
    using assms by (simp add: scheduled_tick_snapshot_def container_snapshot_def
        pending_block_ticks_in_chunk_def pending_fluid_ticks_in_chunk_def)
  moreover have "saved_part k (?part BlockKind, ?part FluidKind) = ?part k" for k
    by (cases k) simp_all
  ultimately show ?thesis by blast
qed

lemma snapshot_keys:
  assumes "scheduled_tick_snapshot True p fc = Inr s"
  shows "mset (map saved_key (saved_part k s)) =
     mset (tq_keys (select_list k (store (pw p) (fc_container fc))))
     + mset (map tick_key (pending_ticks_in_chunk k p (fc_pos fc)))"
proof -
  have live: "lifecycle (store (pw p) (fc_container fc)) \<noteq> Finalized"
    using assms by (auto simp: scheduled_tick_snapshot_def container_snapshot_def)
  show ?thesis
    using snapshot_part [OF live] assms pack_keys [of "select_list k (store (pw p) (fc_container fc))" "game_time p"]
    by (auto simp: comp_def)
qed

text \<open>A collection moves the ticks of a registered container into the batch, and only those.\<close>

lemma registered_home:
  assumes inv: "full_inv uniq home w" and "lifecycle (store w h) = Registered" and "h' \<in> active_handles w"
  shows "home h = home h' \<Longrightarrow> h = h'"
proof -
  assume eq: "home h = home h'"
  have wi: "world_inv w" and so: "stored_ok uniq home w" using inv by (simp_all add: full_inv_def)
  obtain p r where r: "chunks (sched w) p = Some r" "reg_container r = h"
    using world_invD(5) [OF wi assms(2)] by auto
  obtain p' r' where r': "chunks (sched w) p' = Some r'" "reg_container r' = h'"
    using assms(3) by (auto simp: active_handles_def)
  have "p = p'" using stored_okD(3) [OF so r(1)] stored_okD(3) [OF so r'(1)] r r' eq by simp
  then show "h = h'" using r r' by simp
qed

lemma collected_moves:
  assumes inv: "full_inv uniq home w" and mg: "merges k now (active_handles w) (store w) ts st'"
    and reg: "lifecycle (store w h) = Registered"
  shows "mset (map tick_key (filter (\<lambda>t. chunk_of_block (tick_pos t) = home h) ts))
      + mset (tq_keys (select_list k (st' h))) = mset (tq_keys (select_list k (store w h)))"
proof -
  have wi: "world_inv w" and so: "stored_ok uniq home w" using inv by (simp_all add: full_inv_def)
  have inj: "inj_on home (active_handles w)"
    by (rule home_inj_active [OF so world_invD(2) [OF wi]])
  have placed: "container_placed (home h) (store w h)" for h
    by (rule stored_okD(2) [OF so])
  have "mset (filter (\<lambda>t. chunk_of_block (tick_pos t) = home h) ts)
      + mset (live_ticks (select_list k (st' h))) = mset (live_ticks (select_list k (store w h)))"
  proof (cases "h \<in> active_handles w")
    case True
    then show ?thesis by (rule merges_per_home(1) [OF mg inj placed])
  next
    case False
    have "chunk_of_block (tick_pos t) \<noteq> home h" if t: "t \<in> set ts" for t
    proof
      assume eq: "chunk_of_block (tick_pos t) = home h"
      have "active_handles w \<noteq> {}" using t mg merges_none [of k now "store w" ts st'] by auto
      then obtain h' where "h' \<in> active_handles w" "home h = home h'"
        using merges_per_home(2) [OF mg inj placed _ t] eq by force
      then show False using registered_home [OF inv reg] False by auto
    qed
    then show ?thesis using merges_frame(3) [OF mg False] by (simp add: filter_empty_conv)
  qed
  from arg_cong [OF this, of "image_mset tick_key"] merges_frame(4) [OF mg, of h] show ?thesis
    by (simp add: tq_keys_def live_ticks_def pending_entries_def image_mset.compositionality comp_def)
qed

section \<open>Executing a batch\<close>

lemma set_run_simps [simp]:
  "runs (set_run k r p) = (runs p)(k := r)" "pw (set_run k r p) = pw p"
  "game_time (set_run k r p) = game_time p" "full_chunks (set_run k r p) = full_chunks p"
  by (simp_all add: set_run_def)

text \<open>
  What the loops rely on: a behaviour may do anything to the world, and may ask the running batch
  of its own kind questions, but it neither starts nor ends a batch of that kind.
\<close>

definition keeps_run :: "tick_kind \<Rightarrow> 'w phase \<Rightarrow> 'w phase \<Rightarrow> bool" where
  "keeps_run k p p' \<longleftrightarrow>
     (case runs p k of
        None \<Rightarrow> runs p' k = None
      | Some (n, b) \<Rightarrow> \<exists>b'. runs p' k = Some (n, b') \<and> rb_ticks b' = rb_ticks b
          \<and> next_index b' = next_index b \<and> (batch_ok b \<longrightarrow> batch_ok b'))"

definition running :: "tick_kind \<Rightarrow> nat \<Rightarrow> scheduled_tick list \<Rightarrow> nat \<Rightarrow> 'w phase \<Rightarrow> bool" where
  "running k n ts i p \<longleftrightarrow>
     (\<exists>b. runs p k = Some (n, b) \<and> batch_ok b \<and> rb_ticks b = ts \<and> next_index b = i)"

lemma running_begin:
  "runs p k = None \<Longrightarrow> \<exists>p1. begin_batch k p ts = Inr (next_batch p, p1) \<and>
     running k (next_batch p) ts 0 p1 \<and> pw p1 = pw p \<and> game_time p1 = game_time p \<and>
     (\<forall>k'. k' \<noteq> k \<longrightarrow> runs p1 k' = runs p k')"
  using batch_new_ok [of ts] by (simp add: begin_batch_def Let_def running_def batch_new_def)

lemma running_start:
  assumes "running k n ts i p" and "i < length ts"
  shows "\<exists>p1. start_run k p i = Inr p1 \<and> running k n ts (Suc i) p1"
proof -
  from assms(1) obtain b where b: "runs p k = Some (n, b)" "batch_ok b" "rb_ticks b = ts" "next_index b = i"
    by (auto simp: running_def)
  obtain b1 where b1: "batch_start b i = Some b1" "rb_ticks b1 = ts" "next_index b1 = Suc i"
    using assms(2) b(3) by (simp add: batch_start_def)
  have "batch_ok b1" using batch_start_ok [OF b(2) _ b1(1)] b(4) by simp
  then show ?thesis using b b1 by (simp add: start_run_def running_def)
qed

lemma running_keeps: "running k n ts i p \<Longrightarrow> keeps_run k p p' \<Longrightarrow> running k n ts i p'"
  by (auto simp: running_def keeps_run_def)

lemma running_will_tick:
  assumes "running k n ts i p"
  shows "fst (will_tick k p pos ty) \<longleftrightarrow> (pos, ty) \<in> tick_key ` set (drop i ts)"
    and "running k n ts i (snd (will_tick k p pos ty))"
    and "pending_ticks_in_chunk k p c = filter (\<lambda>t. chunk_of_block (tick_pos t) = c) (drop i ts)"
proof -
  from assms obtain b where b: "runs p k = Some (n, b)" "batch_ok b" "rb_ticks b = ts" "next_index b = i"
    by (auto simp: running_def)
  then show "fst (will_tick k p pos ty) \<longleftrightarrow> (pos, ty) \<in> tick_key ` set (drop i ts)"
    using batch_contains_correct [OF b(2), of pos ty]
    by (auto simp: will_tick_def not_yet_started_def split: prod.split)
  show "running k n ts i (snd (will_tick k p pos ty))"
    using b batch_contains_ok [OF b(2), of pos ty] batch_contains_frame [of b pos ty]
    by (auto simp: will_tick_def running_def split: prod.split)
  show "pending_ticks_in_chunk k p c = filter (\<lambda>t. chunk_of_block (tick_pos t) = c) (drop i ts)"
    using b by (simp add: pending_ticks_in_chunk_def not_yet_started_def)
qed

lemma running_end: "running k n ts i p \<Longrightarrow> end_batch k p n = Inr (set_run k None p)"
  by (auto simp: running_def end_batch_def)

text \<open>The states in which the loop hands the ticks to the behaviours, one for each tick.\<close>

fun started_states ::
  "tick_kind \<Rightarrow> ('w phase \<Rightarrow> block_pos \<Rightarrow> nat) \<Rightarrow> (scheduled_tick \<Rightarrow> 'w phase \<Rightarrow> 'w phase)
     \<Rightarrow> nat \<Rightarrow> scheduled_tick list \<Rightarrow> 'w phase \<Rightarrow> 'w phase list" where
  "started_states k current behave i [] p = []"
| "started_states k current behave i (t # ts) p =
     (case start_run k p i of
        Inl e \<Rightarrow> []
      | Inr p1 \<Rightarrow> p1 # started_states k current behave (Suc i) ts
          (if current p1 (tick_pos t) \<noteq> tick_type t then p1 else behave t p1))"

lemma execute_from_ok:
  assumes "running k n ts i p" and "us = drop i ts"
    and keep: "\<And>t p. keeps_run k p (behave t p)"
  shows "\<exists>p'. execute_from k current behave i us p = Inr p' \<and> running k n ts (i + length us) p' \<and>
     length (started_states k current behave i us p) = length us \<and>
     (\<forall>j < length us. running k n ts (Suc (i + j)) (started_states k current behave i us p ! j))"
  using assms(1,2)
proof (induction us arbitrary: i p)
  case Nil
  then show ?case by simp
next
  case (Cons t us)
  have i: "i < length ts" and us: "us = drop (Suc i) ts"
    using Cons.prems(2) by (metis drop_eq_Nil2 linorder_not_less list.distinct(1), metis drop_Suc list.sel(3) tl_drop)
  obtain p1 where p1: "start_run k p i = Inr p1" "running k n ts (Suc i) p1"
    using running_start [OF Cons.prems(1) i] by auto
  define p2 where "p2 = (if current p1 (tick_pos t) \<noteq> tick_type t then p1 else behave t p1)"
  have "running k n ts (Suc i) p2"
    using p1(2) running_keeps [OF p1(2) keep] by (simp add: p2_def)
  from Cons.IH [OF this us] show ?case
    using p1 by (auto simp: p2_def [symmetric] nth_Cons' less_Suc_eq_0_disj)
qed

text \<open>
  All states of the loop with the number of ticks started: before a tick is started, after it is, and at the end;
  so also those in which a behaviour has returned and the next tick has not been started.
\<close>

fun phase_states ::
  "tick_kind \<Rightarrow> ('w phase \<Rightarrow> block_pos \<Rightarrow> nat) \<Rightarrow> (scheduled_tick \<Rightarrow> 'w phase \<Rightarrow> 'w phase)
     \<Rightarrow> nat \<Rightarrow> scheduled_tick list \<Rightarrow> 'w phase \<Rightarrow> (nat \<times> 'w phase) list" where
  "phase_states k current behave i [] p = [(i, p)]"
| "phase_states k current behave i (t # ts) p =
     (case start_run k p i of
        Inl e \<Rightarrow> [(i, p)]
      | Inr p1 \<Rightarrow> (i, p) # (Suc i, p1) # phase_states k current behave (Suc i) ts
          (if current p1 (tick_pos t) \<noteq> tick_type t then p1 else behave t p1))"

lemma phase_states_ok:
  assumes "running k n ts i p" and "us = drop i ts"
    and keep: "\<And>t p. keeps_run k p (behave t p)"
  shows "length (phase_states k current behave i us p) = 2 * length us + 1 \<and>
     (\<exists>p'. execute_from k current behave i us p = Inr p' \<and>
        last (phase_states k current behave i us p) = (i + length us, p')) \<and>
     (\<forall>(j, p') \<in> set (phase_states k current behave i us p). running k n ts j p')"
  using assms(1,2)
proof (induction us arbitrary: i p)
  case Nil
  then show ?case by simp
next
  case (Cons t us)
  have i: "i < length ts" and us: "us = drop (Suc i) ts"
    using Cons.prems(2) by (metis drop_eq_Nil2 linorder_not_less list.distinct(1), metis drop_Suc list.sel(3) tl_drop)
  obtain p1 where p1: "start_run k p i = Inr p1" "running k n ts (Suc i) p1"
    using running_start [OF Cons.prems(1) i] by auto
  define p2 where "p2 = (if current p1 (tick_pos t) \<noteq> tick_type t then p1 else behave t p1)"
  have "running k n ts (Suc i) p2"
    using p1(2) running_keeps [OF p1(2) keep] by (simp add: p2_def)
  from Cons.IH [OF this us] show ?case
    using p1 Cons.prems(1) by (auto simp: p2_def [symmetric])
qed

lemma execute_scheduled_ticks_ok:
  assumes none: "runs p k = None" and keep: "\<And>t p. keeps_run k p (behave t p)"
  shows "\<exists>p'. execute_scheduled_ticks k current behave ts p = Inr p' \<and> runs p' k = None"
proof (cases "ts = []")
  case True
  then show ?thesis using none by (simp add: execute_scheduled_ticks_def)
next
  case False
  obtain p1 where p1: "begin_batch k p ts = Inr (next_batch p, p1)" "running k (next_batch p) ts 0 p1"
    using running_begin [OF none, of ts] by auto
  obtain p2 where p2: "execute_from k current behave 0 ts p1 = Inr p2"
    "running k (next_batch p) ts (0 + length ts) p2"
    using execute_from_ok [OF p1(2), of ts behave current] keep by auto
  show ?thesis
    using False p1(1) p2 running_end [OF p2(2)] by (simp add: execute_scheduled_ticks_def)
qed

section \<open>Dirty chunks\<close>

definition ranks_match :: "tick_world \<Rightarrow> chunk_pos list \<Rightarrow> bool" where
  "ranks_match w tickable \<longleftrightarrow>
     (\<forall>p r i. chunks (sched w) p = Some r \<longrightarrow> active_rank (active_generation (sched w)) r = Some i
        \<longrightarrow> i < length tickable \<and> tickable ! i = p)"

lemma mark_changed_ok:
  assumes "\<And>i. i \<in> set is \<Longrightarrow> i < length tickable \<and> full_chunks p (tickable ! i) \<noteq> None"
  shows "mark_changed tickable is p =
     Inr (p\<lparr>dirty := (\<lambda>q. dirty p q \<or> q \<in> (!) tickable ` set is)\<rparr>)"
  using assms
proof (induction "is" arbitrary: p)
  case (Cons i "is")
  have "i < length tickable" "full_chunks p (tickable ! i) \<noteq> None" using Cons.prems [of i] by auto
  moreover have "mark_changed tickable is (mark_dirty (tickable ! i) p) =
      Inr ((mark_dirty (tickable ! i) p)\<lparr>dirty := (\<lambda>q. dirty (mark_dirty (tickable ! i) p) q \<or> q \<in> (!) tickable ` set is)\<rparr>)"
    using Cons.prems by (intro Cons.IH) (simp add: mark_dirty_def)
  ultimately show ?case by (auto simp: mark_dirty_def fun_eq_iff)
qed simp

lemma collect_scheduled_ticks_ok:
  assumes inv: "world_inv (pw p)" and match: "ranks_match (pw p) tickable"
    and pub: "\<And>q. chunks (sched (pw p)) q \<noteq> None \<Longrightarrow> full_chunks p q \<noteq> None"
  shows "\<exists>b w'. collect_ticks k (pw p) now max_scheduled_ticks_per_tick = Inr (b, w') \<and>
     collect_scheduled_ticks k p tickable now = Inr (batch_ticks b, p\<lparr>pw := w',
       dirty := (\<lambda>q. dirty p q \<or> (\<exists>r. chunks (sched (pw p)) q = Some r
          \<and> active_rank (active_generation (sched (pw p))) r \<noteq> None
          \<and> store w' (reg_container r) \<noteq> store (pw p) (reg_container r)))\<rparr>)"
proof -
  let ?w = "pw p"
  obtain b w' where c: "collect_ticks k ?w now max_scheduled_ticks_per_tick = Inr (b, w')"
    "set (changed_containers b) = changed_ranks ?w w'"
    using collect_ticks_ok [OF inv] by blast
  have in_range: "i < length tickable \<and> full_chunks p (tickable ! i) \<noteq> None"
    if "i \<in> set (changed_containers b)" for i
    using that match pub unfolding c(2) changed_ranks_def ranks_match_def by fastforce
  have "q \<in> (!) tickable ` set (changed_containers b) \<longleftrightarrow>
      (\<exists>r. chunks (sched ?w) q = Some r \<and> active_rank (active_generation (sched ?w)) r \<noteq> None
          \<and> store w' (reg_container r) \<noteq> store ?w (reg_container r))" for q
    using match unfolding c(2) changed_ranks_def ranks_match_def by (auto simp: image_iff)
  then show ?thesis
    using c(1) mark_changed_ok [of "changed_containers b" tickable "p\<lparr>pw := w'\<rparr>"] in_range
    by (simp add: collect_scheduled_ticks_def lift_tick_def)
qed

section \<open>Scheduling through the world\<close>

lemma schedule_tick_store:
  assumes "schedule_tick k w fc ty pos trig prio sub = Inr (Inr b, w')"
  shows "b = fst (tl_schedule (select_list k (store w (fc_container fc))) ty pos trig prio sub)"
    and "store w' = (store w)(fc_container fc := update_list k
       (snd (tl_schedule (select_list k (store w (fc_container fc))) ty pos trig prio sub))
       (store w (fc_container fc)))"
  using assms then_set_head_frame unfolding schedule_tick_def
  by (auto simp: Let_def bind_result_Inr split: prod.splits if_splits option.splits)
    (fastforce simp: map_sum_def split: sum.splits)+

lemma tl_schedule_has: "has_tick (snd (tl_schedule tq ty pos trig prio sub)) pos ty"
  by (auto simp: has_tick_def tl_schedule_def Let_def)

text \<open>Published chunks: each at its own position, with a container that accepts ticks.\<close>

definition published_ok :: "(nat \<Rightarrow> chunk_pos) \<Rightarrow> 'w phase \<Rightarrow> bool" where
  "published_ok home p \<longleftrightarrow>
     (\<forall>q fc. full_chunks p q = Some fc \<longrightarrow> fc_pos fc = q \<and> home (fc_container fc) = q
        \<and> lifecycle (store (pw p) (fc_container fc)) \<in> {PrePublication, Registered})"

lemma next_sub_tick_simps [simp]:
  "store (snd (next_sub_tick_order w)) = store w" "sched (snd (next_sub_tick_order w)) = sched w"
  by (simp_all add: next_sub_tick_order_def)

lemma world_schedule_tick_ok:
  assumes inv: "full_inv uniq home (pw p)" and pub: "published_ok home p"
    and fc: "full_chunks p (chunk_of_block pos) = Some fc"
  shows "\<exists>p'. world_schedule_tick k p pos ty dl prio = Inr p' \<and> full_inv uniq home (pw p') \<and>
     store (pw p') = (store (pw p))(fc_container fc := update_list k
       (snd (tl_schedule (select_list k (store (pw p) (fc_container fc))) ty pos
          (wrap_i64 (game_time p + dl)) prio (next_sub_tick (pw p))))
       (store (pw p) (fc_container fc))) \<and>
     full_chunks p' = full_chunks p \<and> game_time p' = game_time p \<and>
     dirty p' = (if has_tick (select_list k (store (pw p) (fc_container fc))) pos ty
                 then dirty p else (dirty p)(chunk_of_block pos := True))"
proof -
  let ?sub = "next_sub_tick (pw p)" and ?trig = "wrap_i64 (game_time p + dl)"
  obtain w1 where eq: "next_sub_tick_order (pw p) = (?sub, w1)"
    by (simp add: next_sub_tick_order_def)
  have w1: "store w1 = store (pw p)" using next_sub_tick_simps(1) [of "pw p"] eq by simp
  have step: "world_step uniq home (pw p) w1" using ws_sub_tick [of uniq home "pw p"] eq by simp
  have inv1: "full_inv uniq home w1" by (rule world_step_inv [OF step inv])
  have f: "fc_pos fc = chunk_of_block pos" "home (fc_container fc) = chunk_of_block pos"
    "lifecycle (store w1 (fc_container fc)) \<in> {PrePublication, Registered}"
    using pub fc by (auto simp: published_ok_def w1)
  have "chunk_handle_ok w1 fc"
    using inv1 f by (intro home_chunk_handle [of uniq home]) (simp_all add: full_inv_def)
  then obtain b w' where s: "schedule_tick k w1 fc ty pos ?trig prio ?sub = Inr (Inr b, w')"
    using schedule_tick_inv [of w1 fc k ty pos ?trig prio ?sub] inv1 f(3) unfolding full_inv_def by blast
  have inv2: "full_inv uniq home w'"
    by (rule world_step_inv [OF ws_schedule [OF _ _ s] inv1]) (use f in simp_all)
  have b: "b \<longleftrightarrow> \<not> has_tick (select_list k (store (pw p) (fc_container fc))) pos ty"
    using schedule_tick_store(1) [OF s] w1 by (auto simp: tl_schedule_def has_tick_def Let_def)
  define p' where "p' = (if b then mark_dirty (fc_pos fc) (p\<lparr>pw := w'\<rparr>) else p\<lparr>pw := w'\<rparr>)"
  have "world_schedule_tick k p pos ty dl prio = Inr p'"
    using s by (cases b) (simp_all add: world_schedule_tick_def fc_schedule_tick_def eq fc lift_tick_def Let_def p'_def)
  moreover have "pw p' = w'" "full_chunks p' = full_chunks p" "game_time p' = game_time p"
    by (simp_all add: p'_def mark_dirty_def)
  moreover have "dirty p' = (if has_tick (select_list k (store (pw p) (fc_container fc))) pos ty
      then dirty p else (dirty p)(chunk_of_block pos := True))"
    using b f(1) by (simp add: p'_def mark_dirty_def)
  ultimately show ?thesis
    using inv2 schedule_tick_store(2) [OF s] w1 by (intro exI [of _ p'] conjI) simp_all
qed

lemma world_schedule_tick_unloaded:
  "full_chunks p (chunk_of_block pos) = None \<Longrightarrow>
     world_schedule_tick k p pos ty dl prio = Inr (p\<lparr>pw := snd (next_sub_tick_order (pw p))\<rparr>)"
  by (simp add: world_schedule_tick_def split_beta Let_def)

lemma has_scheduled_tick_eq:
  assumes "full_chunks p (chunk_of_block pos) = Some fc"
    and "lifecycle (store (pw p) (fc_container fc)) \<noteq> Finalized"
  shows "has_scheduled_tick k p pos ty = Inr (has_tick (select_list k (store (pw p) (fc_container fc))) pos ty)"
  using assms by (cases k) (simp_all add: has_scheduled_tick_def has_block_def has_fluid_def)

end
