(* ===== verification/TickProps.thy ===== *)
theory TickProps
  imports TickPhase
begin

text \<open>
  The properties of the scheduled ticks, with the concrete worlds that witness them: one chunk at
  the origin, one block tick scheduled in it, and the chunk made active.
\<close>

section \<open>A concrete world\<close>

definition demo_home :: "nat \<Rightarrow> chunk_pos" where
  "demo_home = (\<lambda>_. \<lparr>cx = 0, cz = 0\<rparr>)"

definition demo_chunk :: full_chunk where
  "demo_chunk = \<lparr>fc_pos = \<lparr>cx = 0, cz = 0\<rparr>, fc_container = 0\<rparr>"

definition demo_block :: block_pos where
  "demo_block = mk_block_pos 1 64 3"

definition demo_new :: tick_world where
  "demo_new = scheduler_new (\<lambda>_. container_new tl_new tl_new)"

definition demo_registered :: tick_world where
  "demo_registered = snd (register_chunk demo_new demo_chunk)"

definition demo_scheduled :: tick_world where
  "demo_scheduled =
     (case schedule_tick BlockKind demo_registered demo_chunk 7 demo_block 5 High 0 of
        Inr (_, w) \<Rightarrow> w | Inl _ \<Rightarrow> demo_registered)"

definition demo_active :: tick_world where
  "demo_active =
     (case reconcile_active_chunks demo_scheduled [\<lparr>cx = 0, cz = 0\<rparr>] of
        Inr (_, w) \<Rightarrow> w | Inl _ \<Rightarrow> demo_scheduled)"

lemma demo_block_chunk: "chunk_of_block demo_block = \<lparr>cx = 0, cz = 0\<rparr>"
  by code_simp

lemma demo_new_reachable: "reachable_world True demo_home demo_new"
  unfolding demo_new_def
proof (rule rw_new)
  fix h
  have "select_list k (container_new tl_new tl_new) = tl_new" for k
    by (cases k) (simp_all add: container_new_def)
  then show "lifecycle (container_new tl_new tl_new) \<noteq> Registered \<and>
      container_ordered (container_new tl_new tl_new) \<and> (True \<longrightarrow> container_dedup (container_new tl_new tl_new)) \<and>
      container_placed (demo_home h) (container_new tl_new tl_new)"
    using tq_dedup_new(1)
    by (simp add: container_dedup_def container_ordered_def container_placed_def list_placed_def tq_dedup_def [of tl_new])
      (simp add: container_new_def tq_keys_def pending_entries_def tl_new_def)
qed

lemma demo_registered_reachable: "reachable_world True demo_home demo_registered"
  unfolding demo_registered_def
  by (rule rw_step [OF demo_new_reachable ws_register]) (simp add: demo_home_def demo_chunk_def)

lemma demo_registered_lifecycle: "lifecycle (store demo_registered 0) = Registered"
  by (simp add: demo_registered_def demo_new_def register_chunk_def demo_chunk_def container_new_def
      scheduler_new_def Let_def)

lemma demo_scheduled_eq:
  obtains b where "schedule_tick BlockKind demo_registered demo_chunk 7 demo_block 5 High 0 = Inr (Inr b, demo_scheduled)"
proof -
  have "chunk_handle_ok demo_registered demo_chunk"
    using reachable_world_inv [OF demo_registered_reachable]
    by (intro home_chunk_handle [of True demo_home]) (simp_all add: full_inv_def demo_home_def demo_chunk_def)
  moreover have "lifecycle (store demo_registered (fc_container demo_chunk)) \<in> {PrePublication, Registered}"
    using demo_registered_lifecycle by (simp add: demo_chunk_def)
  ultimately obtain b w where "schedule_tick BlockKind demo_registered demo_chunk 7 demo_block 5 High 0 = Inr (Inr b, w)"
    using schedule_tick_inv reachable_world_inv [OF demo_registered_reachable] unfolding full_inv_def by blast
  then show thesis by (intro that) (simp add: demo_scheduled_def)
qed

lemma demo_scheduled_reachable: "reachable_world True demo_home demo_scheduled"
proof -
  obtain b where "schedule_tick BlockKind demo_registered demo_chunk 7 demo_block 5 High 0 = Inr (Inr b, demo_scheduled)"
    by (rule demo_scheduled_eq)
  then show ?thesis
    by (rule rw_step [OF demo_registered_reachable ws_schedule, rotated 2])
      (simp_all add: demo_home_def demo_chunk_def demo_block_chunk)
qed

lemma demo_active_reachable: "reachable_world True demo_home demo_active"
proof -
  obtain res w where r: "reconcile_active_chunks demo_scheduled [\<lparr>cx = 0, cz = 0\<rparr>] = Inr (res, w)"
    using reconcile_active_chunks_inv [of demo_scheduled "[\<lparr>cx = 0, cz = 0\<rparr>]"]
      reachable_world_inv [OF demo_scheduled_reachable] by (auto simp: full_inv_def)
  then have "demo_active = w" by (simp add: demo_active_def)
  moreover have "distinct [\<lparr>cx = 0, cz = 0\<rparr> :: chunk_pos]" by simp
  ultimately show ?thesis
    using rw_step [OF demo_scheduled_reachable ws_reconcile [OF _ r]] by simp
qed

section \<open>Properties of the scheduler\<close>

text \<open>C4: in every world that calls can reach, the index of deadlines holds exactly the heads of
  the active containers, every list is ordered, and free of duplicate keys if none was loaded with
  duplicates (\<open>uniq\<close>), and none of the assertions and panics of the scheduler can fire:
  unregistering, unpacking, reconciling distinct positions, scheduling in a chunk and collecting
  all return.\<close>

theorem reachable_world_safe:
  assumes "reachable_world uniq home w"
  shows "full_inv uniq home w \<and>
     (\<forall>pos. \<exists>w'. unregister_chunk w pos = Inr w') \<and>
     (\<forall>pos now. \<exists>res w'. unpack_chunk w pos now = Inr (res, w')) \<and>
     (\<forall>ps. distinct ps \<longrightarrow> (\<exists>res w'. reconcile_active_chunks w ps = Inr (res, w'))) \<and>
     (\<forall>fc k ty bp trig prio sub. fc_pos fc = home (fc_container fc) \<longrightarrow>
        (\<exists>res w'. schedule_tick k w fc ty bp trig prio sub = Inr (res, w'))) \<and>
     (\<forall>k now m. \<exists>b w'. collect_ticks k w now m = Inr (b, w'))"
proof -
  have inv: "full_inv uniq home w" by (rule reachable_world_inv [OF assms])
  then have wi: "world_inv w" and so: "stored_ok uniq home w" by (simp_all add: full_inv_def)
  show ?thesis
  proof (intro conjI allI impI)
    fix pos show "\<exists>w'. unregister_chunk w pos = Inr w'" using unregister_chunk_inv [OF wi, of pos] by blast
  next
    fix pos now show "\<exists>res w'. unpack_chunk w pos now = Inr (res, w')"
      using unpack_chunk_inv [OF wi, of pos now] by blast
  next
    fix ps :: "chunk_pos list" assume "distinct ps"
    then show "\<exists>res w'. reconcile_active_chunks w ps = Inr (res, w')"
      using reconcile_active_chunks_inv [OF wi, of ps] by blast
  next
    fix fc :: full_chunk and k ty bp trig prio sub assume "fc_pos fc = home (fc_container fc)"
    then show "\<exists>res w'. schedule_tick k w fc ty bp trig prio sub = Inr (res, w')"
      using schedule_tick_inv [OF wi home_chunk_handle [OF so], of fc k ty bp trig prio sub] by blast
  next
    fix k now m show "\<exists>b w'. collect_ticks k w now m = Inr (b, w')"
      using collect_ticks_ok [OF wi, of k now m] by blast
  qed (rule inv)
qed

theorem reachable_world_safe_witness:
  "full_inv True demo_home demo_active \<and> (\<exists>b w'. collect_ticks BlockKind demo_active 10 5 = Inr (b, w'))"
  using reachable_world_safe [OF demo_active_reachable] by blast

text \<open>C5: the heap-based collection, which drains one container for as long as it wins against the
  cached heads of the others, emits exactly what a greedy merge of the due heads of all active
  containers emits, in such an order; it stops only at the limit or when nothing is due any more,
  and reports the containers it changed.\<close>

theorem collect_refines_greedy_merge:
  assumes "reachable_world uniq home w"
  shows "\<exists>b w'. collect_ticks k w now m = Inr (b, w') \<and>
     merges k now (active_handles w) (store w) (batch_ticks b) (store w') \<and>
     length (batch_ticks b) \<le> m \<and>
     (length (batch_ticks b) < m \<longrightarrow>
        (\<forall>h \<in> active_handles w. peek_ready (select_list k (store w' h)) now = None)) \<and>
     set (changed_containers b) = changed_ranks w w'"
proof -
  have "world_inv w" using reachable_world_inv [OF assms] by (simp add: full_inv_def)
  from collect_ticks_ok [OF this, of k now m] show ?thesis by blast
qed

theorem collect_refines_greedy_merge_witness:
  "\<exists>b w'. collect_ticks BlockKind demo_active 10 5 = Inr (b, w') \<and>
     merges BlockKind 10 (active_handles demo_active) (store demo_active) (batch_ticks b) (store w')"
  using collect_refines_greedy_merge [OF demo_active_reachable, of BlockKind 10 5] by blast

text \<open>C8: a batch holds due ticks only; every tick of a registered container is afterwards in the batch or still in
  the container, each key as many times as before; the queue of the other kind and the saved ticks are untouched. A list
  loaded from storage may hold a key several times, and then the batch may, too; where every list was created without
  duplicates (\<open>uniq\<close>), no key is in the batch twice.\<close>

theorem collect_loses_nothing:
  assumes "reachable_world uniq home w" and "collect_ticks k w now m = Inr (b, w')"
    and "lifecycle (store w h) = Registered"
  shows "(\<forall>t \<in> set (batch_ticks b). trigger_tick t \<le> now) \<and>
     (uniq \<longrightarrow> distinct (map tick_key (batch_ticks b))) \<and>
     mset (map tick_key (filter (\<lambda>t. chunk_of_block (tick_pos t) = home h) (batch_ticks b)))
        + mset (tq_keys (select_list k (store w' h))) = mset (tq_keys (select_list k (store w h))) \<and>
     (\<forall>k'. k' \<noteq> k \<longrightarrow> select_list k' (store w' h) = select_list k' (store w h)) \<and>
     pending_ticks (select_list k (store w' h)) = pending_ticks (select_list k (store w h))"
proof -
  have inv: "full_inv uniq home w" by (rule reachable_world_inv [OF assms(1)])
  then have wi: "world_inv w" and so: "stored_ok uniq home w" by (simp_all add: full_inv_def)
  from collect_ticks_ok [OF wi, of k now m] assms(2)
  have mg: "merges k now (active_handles w) (store w) (batch_ticks b) (store w')" by auto
  have "distinct (map tick_key (batch_ticks b))" if uniq
    by (rule merges_keys_distinct [OF mg home_inj_active [OF so world_invD(2) [OF wi]]])
      (rule stored_okD [OF so], rule stored_okD(1) [OF so that])
  then show ?thesis
    using merges_due [OF mg] collected_moves [OF inv mg assms(3)] merges_frame(2,4) [OF mg] by simp
qed

lemma demo_active_store: "store demo_active = store demo_scheduled"
  using reconcile_active_chunks_inv [of demo_scheduled "[\<lparr>cx = 0, cz = 0\<rparr>]"]
    reachable_world_inv [OF demo_scheduled_reachable] by (auto simp: full_inv_def demo_active_def)

lemma demo_active_lifecycle: "lifecycle (store demo_active 0) = Registered"
proof -
  obtain b where s: "schedule_tick BlockKind demo_registered demo_chunk 7 demo_block 5 High 0 = Inr (Inr b, demo_scheduled)"
    by (rule demo_scheduled_eq)
  show ?thesis
    using schedule_tick_store(2) [OF s] demo_registered_lifecycle
    by (simp add: demo_active_store demo_chunk_def)
qed

theorem collect_loses_nothing_witness:
  "\<exists>b w'. collect_ticks BlockKind demo_active 10 5 = Inr (b, w') \<and>
     mset (map tick_key (filter (\<lambda>t. chunk_of_block (tick_pos t) = demo_home 0) (batch_ticks b)))
       + mset (tq_keys (block_list (store w' 0))) = mset (tq_keys (block_list (store demo_active 0)))"
proof -
  obtain b w' where c: "collect_ticks BlockKind demo_active 10 5 = Inr (b, w')"
    using collect_ticks_ok reachable_world_inv [OF demo_active_reachable] unfolding full_inv_def by blast
  from collect_loses_nothing [OF demo_active_reachable c demo_active_lifecycle] c show ?thesis by auto
qed

text \<open>A chunk may be loaded with a key twice: the worlds with \<open>uniq\<close> off include such ones.\<close>

lemma loaded_duplicates_reachable:
  "\<exists>w. reachable_world False demo_home w \<and> \<not> container_dedup (store w 0)"
proof -
  let ?s = "\<lparr>saved_type = 7, saved_pos = demo_block, delay = 0, saved_priority = Normal\<rparr>"
  let ?c = "container_new (from_saved_ticks [?s, ?s]) (from_saved_ticks [])"
  have "container_placed (demo_home h) ?c" for h
    by (simp add: loaded_container demo_block_chunk demo_home_def)
  moreover have "lifecycle ?c \<noteq> Registered"
    by (simp add: container_new_def)
  ultimately have "reachable_world False demo_home (scheduler_new (\<lambda>_. ?c))"
    by (intro rw_new) (simp add: loaded_container)
  moreover have "\<not> container_dedup (store (scheduler_new (\<lambda>_. ?c)) 0)"
    by (simp add: scheduler_new_def loaded_container)
  ultimately show ?thesis by blast
qed

definition demo_phase :: "tick_world \<Rightarrow> unit phase" where
  "demo_phase w =
     \<lparr>pw = w, game_time = 10, full_chunks = [\<lparr>cx = 0, cz = 0\<rparr> \<mapsto> demo_chunk], dirty = (\<lambda>_. False),
      runs = (\<lambda>_. None), next_batch = 0, rest = ()\<rparr>"

lemma demo_phase_simps [simp]:
  "pw (demo_phase w) = w" "runs (demo_phase w) = (\<lambda>_. None)" "game_time (demo_phase w) = 10"
  "full_chunks (demo_phase w) = [\<lparr>cx = 0, cz = 0\<rparr> \<mapsto> demo_chunk]" "dirty (demo_phase w) = (\<lambda>_. False)"
  by (simp_all add: demo_phase_def)

text \<open>C38: a save that reads a chunk while a batch is executed, at any point of the loop and whatever the behaviours did
  before, writes what the chunk's queue holds then and those ticks of the batch in the chunk that have not been started, due at
  once; so, against a save before the collection, it lacks exactly the started ticks, but for what the behaviours changed in the
  queue. The points are the states before and after every start, up to the end of the loop, which is reached.\<close>

theorem save_during_phase:
  assumes "reachable_world uniq home (pw p)" and "runs p k = None"
    and "lifecycle (store (pw p) (fc_container fc)) = Registered" and "fc_pos fc = home (fc_container fc)"
    and "collect_ticks k (pw p) now m = Inr (b, w')"
    and "begin_batch k (p\<lparr>pw := w'\<rparr>) (batch_ticks b) = Inr (n, p2)"
    and "\<And>t p. keeps_run k p (behave t p)"
    and "(i, p3) \<in> set (phase_states k current behave 0 (batch_ticks b) p2)"
    and "scheduled_tick_snapshot True p fc = Inr s" and "scheduled_tick_snapshot True p3 fc = Inr s3"
  shows "let queue = (\<lambda>w. select_list k (store w (fc_container fc)));
       here = filter (\<lambda>t. chunk_of_block (tick_pos t) = fc_pos fc) in
     saved_part k s3 = tl_pack (packing_snapshot_of (queue (pw p3))) (game_time p3)
       @ map due_now (here (drop i (batch_ticks b))) \<and>
     mset (map saved_key (saved_part k s3)) + mset (map tick_key (here (take i (batch_ticks b)))) + mset (tq_keys (queue w'))
       = mset (map saved_key (saved_part k s)) + mset (tq_keys (queue (pw p3))) \<and>
     length (phase_states k current behave 0 (batch_ticks b) p2) = 2 * length (batch_ticks b) + 1 \<and>
     (\<exists>p4. execute_from k current behave 0 (batch_ticks b) p2 = Inr p4 \<and>
        last (phase_states k current behave 0 (batch_ticks b) p2) = (length (batch_ticks b), p4))"
proof -
  define here :: "scheduled_tick list \<Rightarrow> scheduled_tick list" where "here = filter (\<lambda>t. chunk_of_block (tick_pos t) = fc_pos fc)"
  have inv: "full_inv uniq home (pw p)" by (rule reachable_world_inv [OF assms(1)])
  then have wi: "world_inv (pw p)" by (simp add: full_inv_def)
  from collect_ticks_ok [OF wi, of k now m] assms(5)
  have mg: "merges k now (active_handles (pw p)) (store (pw p)) (batch_ticks b) (store w')" by auto
  have "running k n (batch_ticks b) 0 p2"
    using running_begin [of "p\<lparr>pw := w'\<rparr>" k "batch_ticks b"] assms(2,6) by auto
  note states = phase_states_ok [where behave = behave and current = current, OF this drop_0 [symmetric] assms(7)]
  have "running k n (batch_ticks b) i p3"
    using states assms(8) by blast
  from running_will_tick(3) [OF this, of "fc_pos fc"]
  have left: "pending_ticks_in_chunk k p3 (fc_pos fc) = here (drop i (batch_ticks b))"
    by (simp add: here_def)
  have "saved_part k s3 = tl_pack (packing_snapshot_of (select_list k (store (pw p3) (fc_container fc)))) (game_time p3)
      @ map due_now (here (drop i (batch_ticks b)))"
    using snapshot_part [of p3 fc] assms(10) left by (auto simp: scheduled_tick_snapshot_def container_snapshot_def split: if_splits)
  moreover have split: "here (batch_ticks b) = here (take i (batch_ticks b)) @ here (drop i (batch_ticks b))"
    unfolding here_def by (metis append_take_drop_id filter_append)
  moreover have "mset (map tick_key (here (batch_ticks b))) + mset (tq_keys (select_list k (store w' (fc_container fc)))) =
      mset (map saved_key (saved_part k s))"
    using collected_moves [OF inv mg assms(3)] snapshot_keys [OF assms(9), of k] assms(2,4)
    by (simp add: here_def pending_ticks_in_chunk_def)
  then have "mset (map saved_key (saved_part k s3)) + mset (map tick_key (here (take i (batch_ticks b))))
      + mset (tq_keys (select_list k (store w' (fc_container fc)))) =
      mset (map saved_key (saved_part k s)) + mset (tq_keys (select_list k (store (pw p3) (fc_container fc))))"
    unfolding split snapshot_keys [OF assms(10), of k] left by (simp add: ac_simps)
  ultimately show ?thesis
    using states unfolding Let_def here_def by simp
qed

lemma demo_active_ranks:
  "ranks_match demo_active [\<lparr>cx = 0, cz = 0\<rparr>]"
  "chunks (sched demo_active) q \<noteq> None \<Longrightarrow> q = \<lparr>cx = 0, cz = 0\<rparr>"
  "0 \<in> active_handles demo_active"
proof -
  have wi: "world_inv demo_scheduled" and so: "stored_ok True demo_home demo_active"
    using reachable_world_inv [OF demo_scheduled_reachable] reachable_world_inv [OF demo_active_reachable]
    by (simp_all add: full_inv_def)
  have dist: "distinct [\<lparr>cx = 0, cz = 0\<rparr> :: chunk_pos]" by simp
  show only: "q = \<lparr>cx = 0, cz = 0\<rparr>" if some: "chunks (sched demo_active) q \<noteq> None" for q
    using stored_okD(3) [OF so] some unfolding demo_home_def by blast
  obtain p r where "chunks (sched demo_active) p = Some r" and zero: "reg_container r = 0"
    using world_invD(5) [OF _ demo_active_lifecycle] reachable_world_inv [OF demo_active_reachable]
    unfolding full_inv_def by blast
  then have r: "chunks (sched demo_active) \<lparr>cx = 0, cz = 0\<rparr> = Some r" using only [of p] by auto
  then have here: "chunks (sched demo_active) \<lparr>cx = 0, cz = 0\<rparr> \<noteq> None" by simp
  obtain res w' where rec: "reconcile_active_chunks demo_scheduled [\<lparr>cx = 0, cz = 0\<rparr>] = Inr (res, w')"
    and same: "\<forall>p r'. chunks (sched w') p = Some r' \<longrightarrow>
        (\<exists>r. chunks (sched demo_scheduled) p = Some r \<and> reg_container r' = reg_container r)"
    and ranks: "if \<forall>p \<in> set [\<lparr>cx = 0, cz = 0\<rparr>]. chunks (sched demo_scheduled) p \<noteq> None
      then res = Inr () \<and> (\<forall>p i. (\<exists>r. chunks (sched w') p = Some r \<and>
         active_rank (active_generation (sched w')) r = Some i) \<longleftrightarrow>
           i < length [\<lparr>cx = 0, cz = 0\<rparr> :: chunk_pos] \<and> [\<lparr>cx = 0, cz = 0\<rparr>] ! i = p)
      else (\<exists>p \<in> set [\<lparr>cx = 0, cz = 0\<rparr>]. res = Inl (MissingContainer p)) \<and> w' = demo_scheduled"
    using reconcile_active_chunks_inv [OF wi dist] by blast
  have w': "demo_active = w'" using rec by (simp add: demo_active_def)
  have "\<forall>p \<in> set [\<lparr>cx = 0, cz = 0\<rparr>]. chunks (sched demo_scheduled) p \<noteq> None"
    using here same unfolding w' by auto
  then have ranked: "\<forall>p i. (\<exists>r. chunks (sched w') p = Some r \<and>
      active_rank (active_generation (sched w')) r = Some i) \<longleftrightarrow>
      i < length [\<lparr>cx = 0, cz = 0\<rparr> :: chunk_pos] \<and> [\<lparr>cx = 0, cz = 0\<rparr>] ! i = p"
    using ranks by (simp only: if_True simp_thms)
  then show "ranks_match demo_active [\<lparr>cx = 0, cz = 0\<rparr>]"
    unfolding ranks_match_def w' by blast
  have "active_rank (active_generation (sched demo_active)) r = Some 0"
    using ranked [rule_format, of "\<lparr>cx = 0, cz = 0\<rparr>" 0] r by (auto simp: w')
  then show "0 \<in> active_handles demo_active"
    using r zero unfolding active_handles_def by (intro CollectI exI [of _ r]) auto
qed

lemma demo_active_here: "\<exists>r. chunks (sched demo_active) \<lparr>cx = 0, cz = 0\<rparr> = Some r"
proof -
  obtain p r where p: "chunks (sched demo_active) p = Some r"
    using world_invD(5) [OF _ demo_active_lifecycle] reachable_world_inv [OF demo_active_reachable]
    unfolding full_inv_def by blast
  then have "p = \<lparr>cx = 0, cz = 0\<rparr>" using demo_active_ranks(2) [of p] by blast
  with p show ?thesis by blast
qed

text \<open>The batch of the concrete world holds its one block tick.\<close>

lemma demo_active_queue:
  "block_list (store demo_active 0) = snd (tl_schedule tl_new 7 demo_block 5 High 0)"
proof -
  obtain b where s: "schedule_tick BlockKind demo_registered demo_chunk 7 demo_block 5 High 0 = Inr (Inr b, demo_scheduled)"
    by (rule demo_scheduled_eq)
  have "block_list (store demo_registered 0) = tl_new"
    by (simp add: demo_registered_def demo_new_def register_chunk_def demo_chunk_def container_new_def scheduler_new_def Let_def)
  then show ?thesis
    using schedule_tick_store(2) [OF s] by (simp add: demo_active_store demo_chunk_def)
qed

lemma demo_batch:
  assumes c: "collect_ticks BlockKind demo_active 10 5 = Inr (b, w')"
  shows "batch_ticks b \<noteq> []"
proof
  assume empty: "batch_ticks b = []"
  have "world_inv demo_active"
    using reachable_world_inv [OF demo_active_reachable] by (simp add: full_inv_def)
  from collect_ticks_ok [OF this, of BlockKind 10 5] c
  have mg: "merges BlockKind 10 (active_handles demo_active) (store demo_active) [] (store w')"
    and none: "\<forall>h \<in> active_handles demo_active. peek_ready (select_list BlockKind (store w' h)) 10 = None"
    using empty by auto
  from mg have "store w' = store demo_active" by cases auto
  moreover have "0 \<in> active_handles demo_active"
    by (rule demo_active_ranks(3))
  moreover have "peek_ready (block_list (store demo_active 0)) 10 \<noteq> None"
    by (simp add: demo_active_queue tl_schedule_def tl_new_def Let_def push_unchecked_def peek_ready_def)
  ultimately show False using none by auto
qed

theorem save_during_phase_witness:
  "\<exists>b w' n p2 p3 s s3. collect_ticks BlockKind demo_active 10 5 = Inr (b, w') \<and> batch_ticks b \<noteq> [] \<and>
     begin_batch BlockKind ((demo_phase demo_active)\<lparr>pw := w'\<rparr>) (batch_ticks b) = Inr (n, p2) \<and>
     (1, p3) \<in> set (phase_states BlockKind (\<lambda>_ _. 7) (\<lambda>_ p. p) 0 (batch_ticks b) p2) \<and>
     scheduled_tick_snapshot True (demo_phase demo_active) demo_chunk = Inr s \<and> scheduled_tick_snapshot True p3 demo_chunk = Inr s3 \<and>
     saved_part BlockKind s3 = tl_pack (packing_snapshot_of (block_list (store (pw p3) 0))) 10
       @ map due_now (filter (\<lambda>t. chunk_of_block (tick_pos t) = \<lparr>cx = 0, cz = 0\<rparr>) (drop 1 (batch_ticks b)))"
proof -
  have wi: "world_inv demo_active"
    using reachable_world_inv [OF demo_active_reachable] by (simp add: full_inv_def)
  obtain b w' where c: "collect_ticks BlockKind demo_active 10 5 = Inr (b, w')"
    "merges BlockKind 10 (active_handles demo_active) (store demo_active) (batch_ticks b) (store w')"
    using collect_ticks_ok [OF wi, of BlockKind 10 5] by blast
  let ?p = "demo_phase demo_active"
  obtain n p2 where b: "begin_batch BlockKind (?p\<lparr>pw := w'\<rparr>) (batch_ticks b) = Inr (n, p2)" "pw p2 = w'"
    "game_time p2 = 10" "running BlockKind n (batch_ticks b) 0 p2"
    using running_begin [of "?p\<lparr>pw := w'\<rparr>" BlockKind "batch_ticks b"] by auto
  obtain t ts where ts: "batch_ticks b = t # ts"
    using demo_batch [OF c(1)] by (cases "batch_ticks b") auto
  obtain p3 where p3: "start_run BlockKind p2 0 = Inr p3"
    using running_start [OF b(4)] ts by auto
  then have same: "pw p3 = w'" "game_time p3 = 10"
    using b(2,3) by (auto simp: start_run_def split: option.splits prod.splits)
  have at: "(1, p3) \<in> set (phase_states BlockKind (\<lambda>_ _. 7) (\<lambda>_ p. p) 0 (batch_ticks b) p2)"
    using p3 ts by simp
  have live: "lifecycle (store demo_active (fc_container demo_chunk)) = Registered"
    "lifecycle (store w' (fc_container demo_chunk)) = Registered"
    using demo_active_lifecycle merges_frame(1) [OF c(2)] by (simp_all add: demo_chunk_def)
  obtain s where s: "scheduled_tick_snapshot True ?p demo_chunk = Inr s"
    using snapshot_part [of ?p demo_chunk] live by auto
  obtain s3 where s3: "scheduled_tick_snapshot True p3 demo_chunk = Inr s3"
    using snapshot_part [of p3 demo_chunk] live same by auto
  have keeps: "keeps_run BlockKind q q" for q :: "unit phase"
    by (simp add: keeps_run_def split: option.split prod.split)
  have at_home: "fc_pos demo_chunk = demo_home (fc_container demo_chunk)"
    by (simp add: demo_chunk_def demo_home_def)
  have in_p: "reachable_world True demo_home (pw ?p)" "runs ?p BlockKind = None"
    "lifecycle (store (pw ?p) (fc_container demo_chunk)) = Registered"
    "collect_ticks BlockKind (pw ?p) 10 5 = Inr (b, w')"
    using demo_active_reachable live(1) c(1) by simp_all
  from save_during_phase [where behave = "\<lambda>_ p. p", OF in_p(1-3) at_home in_p(4) b(1) keeps at s s3]
  have "saved_part BlockKind s3 = tl_pack (packing_snapshot_of (block_list (store (pw p3) 0))) 10
      @ map due_now (filter (\<lambda>t. chunk_of_block (tick_pos t) = \<lparr>cx = 0, cz = 0\<rparr>) (drop 1 (batch_ticks b)))"
    using same by (simp add: demo_chunk_def Let_def)
  then show ?thesis
    using c(1) s s3 at b(1) demo_batch [OF c(1)] by blast
qed

text \<open>C39: between the collection and the publication of its batch no save can see the collected
  ticks: a chunk saved in that gap has lost exactly those of its ticks that are in the batch.\<close>

theorem save_in_gap_loses_batch:
  assumes "reachable_world uniq home (pw p)" and "runs p k = None"
    and "lifecycle (store (pw p) (fc_container fc)) = Registered" and "fc_pos fc = home (fc_container fc)"
    and "collect_ticks k (pw p) now m = Inr (b, w')"
    and "scheduled_tick_snapshot True p fc = Inr s" and "scheduled_tick_snapshot True (p\<lparr>pw := w'\<rparr>) fc = Inr s1"
  shows "mset (map saved_key (saved_part k s1))
      + mset (map tick_key (filter (\<lambda>t. chunk_of_block (tick_pos t) = fc_pos fc) (batch_ticks b)))
      = mset (map saved_key (saved_part k s))"
proof -
  have inv: "full_inv uniq home (pw p)" by (rule reachable_world_inv [OF assms(1)])
  then have wi: "world_inv (pw p)" by (simp add: full_inv_def)
  from collect_ticks_ok [OF wi, of k now m] assms(5)
  have mg: "merges k now (active_handles (pw p)) (store (pw p)) (batch_ticks b) (store w')" by auto
  show ?thesis
    using collected_moves [OF inv mg assms(3)] snapshot_keys [OF assms(6), of k] snapshot_keys [OF assms(7), of k]
      assms(2,4)
    by (simp add: pending_ticks_in_chunk_def add.commute)
qed

theorem save_in_gap_loses_batch_witness:
  "\<exists>b w' s s1. collect_ticks BlockKind demo_active 10 5 = Inr (b, w') \<and>
     mset (map saved_key (saved_part BlockKind s1))
      + mset (map tick_key (filter (\<lambda>t. chunk_of_block (tick_pos t) = \<lparr>cx = 0, cz = 0\<rparr>) (batch_ticks b)))
      = mset (map saved_key (saved_part BlockKind s))"
proof -
  have wi: "world_inv demo_active"
    using reachable_world_inv [OF demo_active_reachable] by (simp add: full_inv_def)
  obtain b w' where c: "collect_ticks BlockKind demo_active 10 5 = Inr (b, w')"
    "merges BlockKind 10 (active_handles demo_active) (store demo_active) (batch_ticks b) (store w')"
    using collect_ticks_ok [OF wi, of BlockKind 10 5] by blast
  let ?p = "demo_phase demo_active"
  have live: "lifecycle (store demo_active (fc_container demo_chunk)) = Registered"
    "lifecycle (store w' (fc_container demo_chunk)) = Registered"
    using demo_active_lifecycle merges_frame(1) [OF c(2)] by (simp_all add: demo_chunk_def)
  obtain s where s: "scheduled_tick_snapshot True ?p demo_chunk = Inr s"
    using snapshot_part [of ?p demo_chunk] live by auto
  obtain s1 where s1: "scheduled_tick_snapshot True (?p\<lparr>pw := w'\<rparr>) demo_chunk = Inr s1"
    using snapshot_part [of "?p\<lparr>pw := w'\<rparr>" demo_chunk] live by auto
  show ?thesis
    using save_in_gap_loses_batch [of True demo_home ?p BlockKind demo_chunk 10 5 b w' s s1]
      demo_active_reachable live c(1) s s1 by (auto simp: demo_chunk_def demo_home_def)
qed

text \<open>executing a batch never trips an assertion and ends the batch; in the state in which a
  behaviour gets the tick number \<open>j\<close>, \<open>willTickThisTick\<close> holds exactly for the keys of the later
  ticks, so not for the running one, and a save adds exactly the later ticks of the chunk.\<close>

theorem execute_batch_cursor:
  assumes "runs p k = None" and "distinct (map tick_key ts)"
    and "\<And>t p. keeps_run k p (behave t p)"
    and "begin_batch k p ts = Inr (n, p1)"
  shows "(\<exists>p'. execute_scheduled_ticks k current behave ts p = Inr p' \<and> runs p' k = None) \<and>
     length (started_states k current behave 0 ts p1) = length ts \<and>
     (\<forall>j < length ts.
        (\<forall>pos ty. fst (will_tick k (started_states k current behave 0 ts p1 ! j) pos ty)
           \<longleftrightarrow> (pos, ty) \<in> tick_key ` set (drop (Suc j) ts)) \<and>
        \<not> fst (will_tick k (started_states k current behave 0 ts p1 ! j) (tick_pos (ts ! j)) (tick_type (ts ! j))) \<and>
        (\<forall>c. pending_ticks_in_chunk k (started_states k current behave 0 ts p1 ! j) c
           = filter (\<lambda>t. chunk_of_block (tick_pos t) = c) (drop (Suc j) ts)))"
proof -
  have run: "running k n ts 0 p1"
    using running_begin [OF assms(1), of ts] assms(4) by auto
  obtain p' where states: "length (started_states k current behave 0 ts p1) = length ts"
    "\<And>j. j < length ts \<Longrightarrow> running k n ts (Suc j) (started_states k current behave 0 ts p1 ! j)"
    using execute_from_ok [OF run, of ts behave current] assms(3) by auto
  have own: "(tick_pos (ts ! j), tick_type (ts ! j)) \<notin> tick_key ` set (drop (Suc j) ts)" if "j < length ts" for j
  proof -
    have "distinct (map tick_key (drop j ts))" using assms(2) by (simp add: drop_map flip: drop_map)
    then show ?thesis using that by (simp add: Cons_nth_drop_Suc [symmetric] tick_key_def)
  qed
  show ?thesis
    using execute_scheduled_ticks_ok [where behave = behave and current = current, OF assms(1,3)] states(1)
      running_will_tick(1,3) [OF states(2)] own by auto
qed

theorem execute_batch_cursor_witness:
  "\<exists>p'. execute_scheduled_ticks BlockKind (\<lambda>_ _. 7) (\<lambda>_ p. mark_dirty \<lparr>cx = 0, cz = 0\<rparr> p)
     [\<lparr>tick_type = 7, tick_pos = demo_block, trigger_tick = 5, priority = High, sub_tick_order = 0\<rparr>]
     (demo_phase demo_active) = Inr p' \<and> runs p' BlockKind = None"
proof -
  let ?ts = "[\<lparr>tick_type = 7, tick_pos = demo_block, trigger_tick = 5, priority = High, sub_tick_order = 0\<rparr>]"
  obtain n p1 where b: "begin_batch BlockKind (demo_phase demo_active) ?ts = Inr (n, p1)"
    by (simp add: begin_batch_def Let_def)
  have "keeps_run BlockKind p (mark_dirty q p)" for p :: "unit phase" and q
    by (auto simp: keeps_run_def mark_dirty_def split: option.split)
  from execute_batch_cursor [where behave = "\<lambda>_ p. mark_dirty \<lparr>cx = 0, cz = 0\<rparr> p" and current = "\<lambda>_ _. 7",
      OF _ _ this b]
  show ?thesis by simp
qed

text \<open>scheduling through the world in a published chunk never fails, keeps the invariant, makes
  the tick visible to \<open>has_scheduled\<close> queries, and marks the chunk dirty exactly if no tick with
  that key was there before; where no chunk is published only the tick counter moves.\<close>

theorem schedule_is_visible:
  assumes "full_inv uniq home (pw p)" and "published_ok home p"
  shows "(full_chunks p (chunk_of_block pos) \<noteq> None \<longrightarrow>
       (\<exists>p'. world_schedule_tick k p pos ty dl prio = Inr p' \<and> full_inv uniq home (pw p') \<and>
          has_scheduled_tick k p' pos ty = Inr True \<and>
          dirty p' = (if has_scheduled_tick k p pos ty = Inr True then dirty p
                      else (dirty p)(chunk_of_block pos := True)))) \<and>
     (full_chunks p (chunk_of_block pos) = None \<longrightarrow>
        world_schedule_tick k p pos ty dl prio = Inr (p\<lparr>pw := snd (next_sub_tick_order (pw p))\<rparr>))"
proof (intro conjI impI)
  assume "full_chunks p (chunk_of_block pos) \<noteq> None"
  then obtain fc where fc: "full_chunks p (chunk_of_block pos) = Some fc" by auto
  let ?c = "store (pw p) (fc_container fc)"
  obtain p' where p': "world_schedule_tick k p pos ty dl prio = Inr p'" "full_inv uniq home (pw p')"
    "store (pw p') = (store (pw p))(fc_container fc := update_list k
       (snd (tl_schedule (select_list k ?c) ty pos (wrap_i64 (game_time p + dl)) prio (next_sub_tick (pw p)))) ?c)"
    "full_chunks p' = full_chunks p"
    "dirty p' = (if has_tick (select_list k ?c) pos ty then dirty p else (dirty p)(chunk_of_block pos := True))"
    using world_schedule_tick_ok [OF assms fc, of k ty dl prio] by blast
  have "lifecycle ?c \<in> {PrePublication, Registered}"
    using assms(2) fc unfolding published_ok_def by blast
  then have live: "lifecycle ?c \<noteq> Finalized" by auto
  have "has_scheduled_tick k p' pos ty = Inr True"
    using has_scheduled_tick_eq [of p' pos fc k ty] fc p'(3,4) live tl_schedule_has
    by (simp add: select_update_same)
  moreover have "has_scheduled_tick k p pos ty = Inr (has_tick (select_list k ?c) pos ty)"
    by (rule has_scheduled_tick_eq [of p pos fc k ty, OF fc live])
  ultimately show "\<exists>p'. world_schedule_tick k p pos ty dl prio = Inr p' \<and> full_inv uniq home (pw p') \<and>
      has_scheduled_tick k p' pos ty = Inr True \<and>
      dirty p' = (if has_scheduled_tick k p pos ty = Inr True then dirty p
                  else (dirty p)(chunk_of_block pos := True))"
    using p' by (intro exI [of _ p']) simp
qed (rule world_schedule_tick_unloaded)

lemma demo_published: "published_ok demo_home (demo_phase demo_active)"
  using demo_active_lifecycle by (simp add: published_ok_def demo_home_def demo_chunk_def)

theorem schedule_is_visible_witness:
  "\<exists>p'. world_schedule_tick FluidKind (demo_phase demo_active) demo_block 3 5 Normal = Inr p' \<and>
     has_scheduled_tick FluidKind p' demo_block 3 = Inr True"
  using schedule_is_visible [of True demo_home "demo_phase demo_active" demo_block FluidKind 3 5 Normal]
    reachable_world_inv [OF demo_active_reachable] demo_published demo_block_chunk by auto

text \<open>collecting through the chunk map, against the snapshot of ticking chunks the ranks were
  assigned from, never indexes outside it and marks dirty exactly the chunks whose container
  changed.\<close>

theorem collect_marks_changed_chunks:
  assumes "reachable_world uniq home (pw p)" and "ranks_match (pw p) tickable"
    and "dom (chunks (sched (pw p))) \<subseteq> dom (full_chunks p)"
  shows "\<exists>b w'. collect_ticks k (pw p) now max_scheduled_ticks_per_tick = Inr (b, w') \<and>
     collect_scheduled_ticks k p tickable now = Inr (batch_ticks b, p\<lparr>pw := w',
       dirty := (\<lambda>q. dirty p q \<or> (\<exists>r. chunks (sched (pw p)) q = Some r
          \<and> active_rank (active_generation (sched (pw p))) r \<noteq> None
          \<and> store w' (reg_container r) \<noteq> store (pw p) (reg_container r)))\<rparr>)"
proof -
  have "world_inv (pw p)" using reachable_world_inv [OF assms(1)] by (simp add: full_inv_def)
  from collect_scheduled_ticks_ok [OF this assms(2)] assms(3) show ?thesis by blast
qed

theorem collect_marks_changed_chunks_witness:
  "\<exists>(b :: tick_batch) p'. collect_scheduled_ticks BlockKind (demo_phase demo_active) [\<lparr>cx = 0, cz = 0\<rparr>] 10
     = Inr (batch_ticks b, p')"
proof -
  let ?p = "demo_phase demo_active"
  have "reachable_world True demo_home (pw ?p)" "ranks_match (pw ?p) [\<lparr>cx = 0, cz = 0\<rparr>]"
    "dom (chunks (sched (pw ?p))) \<subseteq> dom (full_chunks ?p)"
    using demo_active_reachable demo_active_ranks(1) demo_active_ranks(2) by auto
  from collect_marks_changed_chunks [OF this, of BlockKind 10] show ?thesis by blast
qed

text \<open>rebuilding the set of active chunks from distinct positions succeeds exactly if all of them
  are registered; then the active chunks are those, ranked by their position in the list, the
  containers stay as they are, and the invariant holds; otherwise nothing changes.\<close>

theorem reconcile_activates_exactly:
  assumes "reachable_world uniq home w" and "distinct ps"
  shows "\<exists>res w'. reconcile_active_chunks w ps = Inr (res, w') \<and> full_inv uniq home w' \<and>
     store w' = store w \<and>
     (if \<forall>p \<in> set ps. chunks (sched w) p \<noteq> None
      then res = Inr () \<and> (\<forall>p i. (\<exists>r. chunks (sched w') p = Some r \<and>
         active_rank (active_generation (sched w')) r = Some i) \<longleftrightarrow> i < length ps \<and> ps ! i = p)
      else (\<exists>p \<in> set ps. res = Inl (MissingContainer p)) \<and> w' = w)"
proof -
  have "world_inv w" using reachable_world_inv [OF assms(1)] by (simp add: full_inv_def)
  from reconcile_active_chunks_inv [OF this assms(2)] obtain res w' where
    w': "reconcile_active_chunks w ps = Inr (res, w')" "store w' = store w"
      "if \<forall>p \<in> set ps. chunks (sched w) p \<noteq> None
      then res = Inr () \<and> (\<forall>p i. (\<exists>r. chunks (sched w') p = Some r \<and>
         active_rank (active_generation (sched w')) r = Some i) \<longleftrightarrow> i < length ps \<and> ps ! i = p)
      else (\<exists>p \<in> set ps. res = Inl (MissingContainer p)) \<and> w' = w" by blast
  moreover have "full_inv uniq home w'"
    by (rule reachable_world_inv [OF rw_step [OF assms(1) ws_reconcile [OF assms(2) w'(1)]]])
  ultimately show ?thesis by blast
qed

theorem reconcile_activates_exactly_witness:
  "\<exists>res w'. reconcile_active_chunks demo_scheduled [\<lparr>cx = 0, cz = 0\<rparr>] = Inr (res, w') \<and>
     full_inv True demo_home w' \<and> store w' = store demo_scheduled"
proof -
  have "distinct [\<lparr>cx = 0, cz = 0\<rparr> :: chunk_pos]" by simp
  from reconcile_activates_exactly [OF demo_scheduled_reachable this] show ?thesis by blast
qed

text \<open>Removing a chunk finalizes its container and keeps its ticks; from then on the container
  refuses every tick with a missing-container error, and the other containers are unaffected.\<close>

theorem unregister_finalizes:
  assumes "reachable_world uniq home w" and "chunks (sched w) pos = Some r"
  shows "\<exists>w'. unregister_chunk w pos = Inr w' \<and> full_inv uniq home w' \<and> chunks (sched w') pos = None \<and>
     (\<forall>p. p \<noteq> pos \<longrightarrow> chunks (sched w') p = chunks (sched w) p) \<and>
     (\<forall>h k. select_list k (store w' h) = select_list k (store w h)) \<and>
     (\<forall>h. lifecycle (store w' h) = (if h = reg_container r then Finalized else lifecycle (store w h))) \<and>
     (\<forall>k fc ty bp trig prio sub. fc_container fc = reg_container r \<longrightarrow>
        schedule_tick k w' fc ty bp trig prio sub = Inr (Inl (MissingContainer (fc_pos fc)), w'))"
proof -
  have "world_inv w" using reachable_world_inv [OF assms(1)] by (simp add: full_inv_def)
  from unregister_chunk_inv [OF this, of pos] obtain w' where
    w': "unregister_chunk w pos = Inr w'" "chunks (sched w') = (chunks (sched w))(pos := None)"
      "\<forall>h k. select_list k (store w' h) = select_list k (store w h)"
      "\<forall>h. lifecycle (store w' h) = (if \<exists>r. chunks (sched w) pos = Some r \<and> reg_container r = h
        then Finalized else lifecycle (store w h))" by blast
  have "full_inv uniq home w'"
    by (rule reachable_world_inv [OF rw_step [OF assms(1) ws_unregister [OF w'(1)]]])
  moreover have "\<forall>h. lifecycle (store w' h) = (if h = reg_container r then Finalized else lifecycle (store w h))"
    using w'(4) assms(2) by auto
  ultimately show ?thesis
    using w'(1-3) by (auto simp: schedule_tick_def Let_def)
qed

theorem unregister_finalizes_witness:
  "\<exists>w'. unregister_chunk demo_active \<lparr>cx = 0, cz = 0\<rparr> = Inr w' \<and>
     chunks (sched w') \<lparr>cx = 0, cz = 0\<rparr> = None"
proof -
  obtain r where "chunks (sched demo_active) \<lparr>cx = 0, cz = 0\<rparr> = Some r"
    using demo_active_here by blast
  from unregister_finalizes [OF demo_active_reachable this] show ?thesis by blast
qed

section \<open>Properties of a queue\<close>

text \<open>popping yields a least live tick in drain order that is due, takes exactly that tick and
  its key out, and keeps the queue free of duplicates; it yields nothing exactly if no live tick is
  due.\<close>

theorem pop_ready_correct:
  assumes "tq_dedup tq"
  shows "case pop_ready tq now of
     None \<Rightarrow> \<forall>t \<in> set (live_ticks tq). now < trigger_tick t
   | Some (t, tq') \<Rightarrow> trigger_tick t \<le> now \<and>
       (\<forall>t' \<in> set (live_ticks tq). drain_key t \<le> drain_key t') \<and>
       mset (live_ticks tq) = add_mset t (mset (live_ticks tq')) \<and>
       pending_ticks tq' = pending_ticks tq \<and> tq_dedup tq' \<and>
       (\<forall>pos ty. has_tick tq' pos ty \<longleftrightarrow> has_tick tq pos ty \<and> (pos, ty) \<noteq> tick_key t)"
proof -
  have ord: "tq_ordered tq" using assms by (simp add: tq_dedup_def)
  show ?thesis
  proof (cases "pop_ready tq now")
    case None
    then show ?thesis
      using peek_ready_None_future [OF ord, of now] by (simp add: pop_ready_None [symmetric])
  next
    case (Some x)
    obtain t tq' where x: "x = (t, tq')" by (cases x)
    note pop = Some [unfolded x]
    have "tl_peek tq = Some t" using pop by (auto simp: peek_Some elim!: pop_ready_SomeE)
    then have "\<forall>t' \<in> set (live_ticks tq). drain_key t \<le> drain_key t'"
      using peek_least [OF ord] by blast
    then show ?thesis
      using Some x pop_ready_due [OF pop] pop_ready_mset [OF pop] pop_ready_pending [OF pop]
        pop_ready_dedup [OF assms pop] pop_ready_scheduled [OF pop]
      by (auto simp: has_tick_def)
  qed
qed

definition demo_queue :: tick_list where
  "demo_queue = snd (tl_schedule (snd (tl_schedule tl_new 7 demo_block 5 Normal 0)) 8 demo_block 5 High 1)"

lemma demo_queue_dedup: "tq_dedup demo_queue"
  unfolding demo_queue_def by (intro tl_schedule_dedup tq_dedup_new)

theorem pop_ready_correct_witness:
  "\<exists>t tq'. pop_ready demo_queue 6 = Some (t, tq') \<and> tick_type t = 8 \<and> tq_dedup tq'"
proof -
  have "\<exists>t tq'. pop_ready demo_queue 6 = Some (t, tq') \<and> tick_type t = 8"
    by (simp add: demo_queue_def tl_schedule_def tl_new_def Let_def push_unchecked_def pop_ready_eq
        queued_cmp_def drain_order_def intra_tick_drain_order_def wrap_u64_def cmp_lin_def less_tick_priority_def)
  then show ?thesis
    using pop_ready_correct [OF demo_queue_dedup, of 6] by auto
qed

text \<open>scheduling accepts a tick exactly if its key is not scheduled, pending or live; an accepted
  tick is added to the live ones with the given trigger, priority and order, a refused one leaves
  the queue as it is, and no key is ever held twice.\<close>

theorem schedule_deduplicates:
  assumes "tq_dedup tq"
  shows "(fst (tl_schedule tq ty pos trig prio sub) \<longleftrightarrow> (pos, ty) \<notin> set (tq_keys tq)) \<and>
     tq_dedup (snd (tl_schedule tq ty pos trig prio sub)) \<and>
     (if (pos, ty) \<in> set (tq_keys tq) then snd (tl_schedule tq ty pos trig prio sub) = tq
      else mset (live_ticks (snd (tl_schedule tq ty pos trig prio sub))) =
        add_mset \<lparr>tick_type = ty, tick_pos = pos, trigger_tick = trig, priority = prio,
                  sub_tick_order = sub\<rparr> (mset (live_ticks tq)))"
proof -
  have "scheduled tq = set (tq_keys tq)" using assms by (simp add: tq_dedup_def)
  then show ?thesis
    using tl_schedule_dedup [OF assms, of ty pos trig prio sub]
      mset_live_push [of "\<lparr>tick_type = ty, tick_pos = pos, trigger_tick = trig, priority = prio,
        sub_tick_order = sub\<rparr>" "tq\<lparr>scheduled := insert (pos, ty) (scheduled tq)\<rparr>"]
    by (simp add: tl_schedule_def Let_def)
qed

theorem schedule_deduplicates_witness:
  "tq_dedup (snd (tl_schedule demo_queue 9 demo_block 6 Low 2))"
  using schedule_deduplicates [OF demo_queue_dedup, of 9 demo_block 6 Low 2] by blast

text \<open>a later tick never overtakes an equal one: a tick scheduled behind the head of a queue in
  drain order, equal keys included, leaves the head in place.\<close>

theorem schedule_is_fifo:
  assumes "tq_fresh tq" and "tl_peek tq = Some t" and "drain_key t \<le> (trig, prio, sub)"
  shows "tl_peek (snd (tl_schedule tq ty pos trig prio sub)) = Some t"
  by (rule schedule_keeps_head [OF assms])

theorem schedule_is_fifo_witness:
  "tl_peek (snd (tl_schedule (snd (tl_schedule tl_new 7 demo_block 5 Normal 0)) 8 demo_block 5 Normal 0))
     = Some \<lparr>tick_type = 7, tick_pos = demo_block, trigger_tick = 5, priority = Normal, sub_tick_order = 0\<rparr>"
proof -
  let ?tq = "snd (tl_schedule tl_new 7 demo_block 5 Normal 0)"
  have "tq_fresh ?tq" "tl_peek ?tq = Some \<lparr>tick_type = 7, tick_pos = demo_block, trigger_tick = 5,
      priority = Normal, sub_tick_order = 0\<rparr>"
    by (simp_all add: tl_schedule_def tl_new_def Let_def push_unchecked_def tl_peek_def tq_fresh_def wrap_u64_def)
  from schedule_is_fifo [OF this, of 5 Normal 0 8 demo_block] show ?thesis by (simp add: drain_key_def)
qed

text \<open>the delays of a saved queue survive a load and a save at any clock: packing the queue that
  was loaded from a list of saved ticks and unpacked at some time gives back that list, in order.\<close>

theorem save_load_round_trip:
  assumes "\<forall>s \<in> set ss. in_i32 (delay s)"
  shows "tl_pack (packing_snapshot_of (tl_unpack (from_saved_ticks ss) now)) now = ss"
  by (rule pack_from_saved [OF assms])

theorem save_load_round_trip_witness:
  "tl_pack (packing_snapshot_of (tl_unpack (from_saved_ticks
     [\<lparr>saved_type = 3, saved_pos = demo_block, delay = 4, saved_priority = Low\<rparr>,
      \<lparr>saved_type = 2, saved_pos = demo_block, delay = -1, saved_priority = High\<rparr>]) 100)) 100 =
     [\<lparr>saved_type = 3, saved_pos = demo_block, delay = 4, saved_priority = Low\<rparr>,
      \<lparr>saved_type = 2, saved_pos = demo_block, delay = -1, saved_priority = High\<rparr>]"
  by (rule save_load_round_trip) (simp add: in_i32_def)

text \<open>Bulk removal of pending entries reports how many it removed, keeps the others in order,
  releases exactly the removed keys, so that they can be scheduled again, and leaves the live
  ticks alone.\<close>

theorem remove_pending_releases:
  assumes "tq_dedup tq"
  shows "fst (remove_pending_matching tq p) = length (filter p (pending_entries tq)) \<and>
     pending_entries (snd (remove_pending_matching tq p)) = filter (\<lambda>s. \<not> p s) (pending_entries tq) \<and>
     live_ticks (snd (remove_pending_matching tq p)) = live_ticks tq \<and>
     tq_dedup (snd (remove_pending_matching tq p)) \<and>
     (\<forall>s \<in> set (pending_entries tq). p s \<longrightarrow>
        \<not> has_tick (snd (remove_pending_matching tq p)) (saved_pos s) (saved_type s))"
  using remove_pending_matching_dedup [OF assms, of p]
  by (cases "pending_ticks tq")
    (auto simp: remove_pending_matching_eq pending_entries_def live_ticks_def has_tick_def saved_key_def)

theorem remove_pending_releases_witness:
  "tq_dedup (snd (remove_pending_matching (snd (schedule_pending tl_new_pending 3 demo_block Low)) (\<lambda>_. True)))"
proof -
  have "tq_dedup (snd (schedule_pending tl_new_pending 3 demo_block Low))"
    by (intro schedule_pending_dedup tq_dedup_new)
  from remove_pending_releases [OF this, of "\<lambda>_. True"] show ?thesis by blast
qed

text \<open>The operations that a chunk's owner may call on its container outside the scheduler keep
  both queues free of duplicates, only ever promote a proto container, and do nothing to a
  container that is registered or finalized.\<close>

theorem container_owner_steps:
  assumes "container_step c c'"
  shows "(container_dedup c \<longrightarrow> container_dedup c') \<and>
     (lifecycle c' = lifecycle c \<or> lifecycle c = Proto \<and> lifecycle c' = PrePublication) \<and>
     (lifecycle c \<in> {Registered, Finalized} \<longrightarrow> c' = c)"
  using container_step_dedup [OF assms] container_step_lifecycle [OF assms] container_step_closed [OF assms]
  by blast

theorem container_owner_steps_witness:
  "container_dedup (snd (promote_to_full (container_new_proto tl_new_pending tl_new_pending)))"
proof -
  have "select_list k (container_new_proto tl_new_pending tl_new_pending) = tl_new_pending" for k
    by (cases k) (simp_all add: container_new_proto_def)
  then have "container_dedup (container_new_proto tl_new_pending tl_new_pending)"
    using tq_dedup_new(2) by (simp add: container_dedup_def)
  then show ?thesis using container_owner_steps [OF cs_promote] by blast
qed

end
