(* ===== verification/NeighborUpdater.thy ===== *)
theory NeighborUpdater
  imports Positions
begin

text \<open>
  The collecting neighbour updater
  (\<open>foton-core/src/world/block_updates/neighbor_updater.rs\<close>).

  Running an update calls into the world, and the world may submit further updates while the call
  runs. The world is an argument: \<open>state_at\<close> reads a block state and \<open>exec\<close> performs one call on
  the world's state and lists the requests it submitted on the way, in order. A submission that
  found no run in progress would start a nested run: the model makes it the error \<open>NestedRun\<close>,
  which the lemmas show cannot happen before the counter overflows. A run may go on for ever when
  no limit is configured, so it takes fuel; \<open>None\<close> is a run that is out of it.
\<close>

section \<open>Updates and requests\<close>

definition update_order :: "direction list" where
  "update_order = [West, East, Down, Up, North, South]"

datatype nb_update =
    FullUpdate nat block_pos nat bool
  | MultiUpdate block_pos nat "direction option" nat
  | ShapeUpdate direction nat block_pos block_pos nat int
  | SimpleUpdate block_pos nat

datatype nb_request =
    ReqShape direction nat block_pos block_pos nat int
  | ReqChanged block_pos nat
  | ReqChangedWithState nat block_pos nat bool
  | ReqExceptFacing block_pos nat "direction option"

fun update_of :: "nb_request \<Rightarrow> nb_update" where
  "update_of (ReqShape d ns p np fl lim) = ShapeUpdate d ns p np fl lim"
| "update_of (ReqChanged p b) = SimpleUpdate p b"
| "update_of (ReqChangedWithState st p b moved) = FullUpdate st p b moved"
| "update_of (ReqExceptFacing p b skip) =
     MultiUpdate p b skip (if skip = Some (update_order ! 0) then 1 else 0)"

datatype world_call =
    NeighborCall nat block_pos nat bool
  | ShapeCall direction block_pos block_pos nat nat int

record 's nb_world =
  state_at :: "'s \<Rightarrow> block_pos \<Rightarrow> nat"
  exec :: "world_call \<Rightarrow> 's \<Rightarrow> 's \<times> nb_request list"

datatype nb_panic = IndexOutOfBounds | NestedRun

text \<open>
  One step of an update: the new state of the world, what was submitted, and the update to put
  back when it is not finished.
\<close>

fun run_next ::
  "'s nb_world \<Rightarrow> nb_update \<Rightarrow> 's \<Rightarrow> nb_panic + 's \<times> nb_request list \<times> nb_update option" where
  "run_next wld (FullUpdate st p b moved) s =
     (case exec wld (NeighborCall st p b moved) s of (s', rs) \<Rightarrow> Inr (s', rs, None))"
| "run_next wld (MultiUpdate sp b skip i) s =
     (if length update_order \<le> i then Inl IndexOutOfBounds
      else
        (let np = relative sp (update_order ! i); i1 = i + 1; st = state_at wld s np
         in case exec wld (NeighborCall st np b False) s of
              (s', rs) \<Rightarrow>
                (let i2 = (if i1 < length update_order \<and> Some (update_order ! i1) = skip
                           then i1 + 1 else i1)
                 in Inr (s', rs,
                      if i2 < length update_order then Some (MultiUpdate sp b skip i2) else None))))"
| "run_next wld (ShapeUpdate d ns p np fl lim) s =
     (case exec wld (ShapeCall d p np ns fl lim) s of (s', rs) \<Rightarrow> Inr (s', rs, None))"
| "run_next wld (SimpleUpdate p b) s =
     (case exec wld (NeighborCall (state_at wld s p) p b False) s of (s', rs) \<Rightarrow> Inr (s', rs, None))"

section \<open>The collecting state\<close>

record add_result =
  should_run :: bool
  first_skipped :: bool

record 'u collecting =
  stack :: "'u list"
  added_this_layer :: "'u list"
  nb_count :: int

definition collecting_default :: "'u collecting" where
  "collecting_default = \<lparr>stack = [], added_this_layer = [], nb_count = 0\<rparr>"

definition enqueue :: "int \<Rightarrow> 'u \<Rightarrow> 'u collecting \<Rightarrow> add_result \<times> 'u collecting" where
  "enqueue max_chained u c =
     (let running = (nb_count c > 0);
          too_many = (max_chained \<ge> 0 \<and> nb_count c \<ge> max_chained);
          n = wrap_i32 (nb_count c + 1);
          c1 = c\<lparr>nb_count := n\<rparr>;
          c2 = (if too_many then c1
                else if running then c1\<lparr>added_this_layer := added_this_layer c1 @ [u]\<rparr>
                else c1\<lparr>stack := stack c1 @ [u]\<rparr>)
      in (\<lparr>should_run = \<not> running,
           first_skipped = (too_many \<and> wrap_i32 (n - 1) = max_chained)\<rparr>, c2))"

text \<open>\<open>while let Some(update) = self.added_this_layer.pop() { self.stack.push(update) }\<close>\<close>

function move_layer :: "'u list \<Rightarrow> 'u list \<Rightarrow> 'u list" where
  "move_layer stk added =
     (if added = [] then stk else move_layer (stk @ [last added]) (butlast added))"
  by pat_completeness auto
termination by (relation "measure (length \<circ> snd)") auto

declare move_layer.simps [simp del]

definition take_next :: "'u collecting \<Rightarrow> 'u option \<times> 'u collecting" where
  "take_next c =
     (let stk = move_layer (stack c) (added_this_layer c)
      in if stk = [] then (None, c\<lparr>stack := [], added_this_layer := []\<rparr>)
         else (Some (last stk), c\<lparr>stack := butlast stk, added_this_layer := []\<rparr>))"

definition return_unfinished :: "'u \<Rightarrow> 'u collecting \<Rightarrow> 'u collecting" where
  "return_unfinished u c = c\<lparr>stack := stack c @ [u]\<rparr>"

definition collecting_reset :: "'u collecting \<Rightarrow> 'u collecting" where
  "collecting_reset c = c\<lparr>stack := [], added_this_layer := [], nb_count := 0\<rparr>"

fun submit_all ::
  "int \<Rightarrow> nb_request list \<Rightarrow> nb_update collecting \<Rightarrow> nb_panic + nb_update collecting" where
  "submit_all m [] c = Inr c"
| "submit_all m (r # rs) c =
     (case enqueue m (update_of r) c of
        (res, c1) \<Rightarrow> if should_run res then Inl NestedRun else submit_all m rs c1)"

text \<open>A panic unwinds through the reset guard.\<close>

fun run_updates ::
  "nat \<Rightarrow> 's nb_world \<Rightarrow> int \<Rightarrow> nb_update collecting \<Rightarrow> 's
     \<Rightarrow> (nb_panic \<times> nb_update collecting + 's \<times> nb_update collecting) option" where
  "run_updates 0 wld m c s = None"
| "run_updates (Suc fuel) wld m c s =
     (case take_next c of
        (None, c1) \<Rightarrow> Some (Inr (s, collecting_reset c1))
      | (Some u, c1) \<Rightarrow>
          (case run_next wld u s of
             Inl e \<Rightarrow> Some (Inl (e, collecting_reset c1))
           | Inr (s1, rs, unfinished) \<Rightarrow>
               (case submit_all m rs c1 of
                  Inl e \<Rightarrow> Some (Inl (e, collecting_reset c1))
                | Inr c2 \<Rightarrow>
                    run_updates fuel wld m
                      (case unfinished of None \<Rightarrow> c2 | Some u' \<Rightarrow> return_unfinished u' c2) s1)))"

definition add_and_run ::
  "nat \<Rightarrow> 's nb_world \<Rightarrow> int \<Rightarrow> nb_request \<Rightarrow> nb_update collecting \<Rightarrow> 's
     \<Rightarrow> (nb_panic \<times> nb_update collecting + 's \<times> nb_update collecting) option" where
  "add_and_run fuel wld m r c s =
     (case enqueue m (update_of r) c of
        (res, c1) \<Rightarrow> if should_run res then run_updates fuel wld m c1 s else Some (Inr (s, c1)))"

section \<open>The stack is a worklist\<close>

lemma move_layer_eq: "move_layer stk added = stk @ rev added"
proof (induction stk added rule: move_layer.induct)
  case (1 stk added)
  show ?case
  proof (cases "added = []")
    case False
    then show ?thesis
      using 1 by (subst move_layer.simps, cases added rule: rev_cases) simp_all
  qed (simp add: move_layer.simps)
qed

text \<open>Read from the top, the pending updates are the new layer in order, then the stack.\<close>

definition worklist :: "'u collecting \<Rightarrow> 'u list" where
  "worklist c = added_this_layer c @ rev (stack c)"

lemma take_next_worklist:
  "take_next c = (case worklist c of
     [] \<Rightarrow> (None, c\<lparr>stack := [], added_this_layer := []\<rparr>)
   | u # us \<Rightarrow> (Some u, c\<lparr>stack := rev us, added_this_layer := []\<rparr>))"
proof -
  have eq: "stack c @ rev (added_this_layer c) = rev (worklist c)" by (simp add: worklist_def)
  show ?thesis
    by (cases "worklist c") (simp_all add: take_next_def move_layer_eq eq Let_def)
qed

text \<open>
  The reference: a depth-first walk over a worklist, the children of a step in front, then the
  rest of the step, then what was there; at most \<open>budget\<close> more updates are accepted.
\<close>

fun dfs ::
  "nat \<Rightarrow> 's nb_world \<Rightarrow> nat option \<Rightarrow> nb_update list \<Rightarrow> 's \<Rightarrow> (nb_panic + 's) option" where
  "dfs 0 wld budget us s = None"
| "dfs (Suc fuel) wld budget [] s = Some (Inr s)"
| "dfs (Suc fuel) wld budget (u # us) s =
     (case run_next wld u s of
        Inl e \<Rightarrow> Some (Inl e)
      | Inr (s1, rs, unfinished) \<Rightarrow>
          (let children = map update_of rs;
               accepted = (case budget of None \<Rightarrow> children | Some k \<Rightarrow> take k children)
           in dfs fuel wld (map_option (\<lambda>k. k - length accepted) budget)
                (accepted @ (case unfinished of None \<Rightarrow> [] | Some u' \<Rightarrow> [u']) @ us) s1))"

definition budget_of :: "int \<Rightarrow> int \<Rightarrow> nat option" where
  "budget_of m n = (if m < 0 then None else Some (nat (m - n)))"

definition accept :: "nat option \<Rightarrow> 'u list \<Rightarrow> 'u list" where
  "accept budget us = (case budget of None \<Rightarrow> us | Some k \<Rightarrow> take k us)"

section \<open>The updater computes the walk\<close>

lemma in_i32_nonneg: "0 \<le> x \<Longrightarrow> x < 2 ^ 31 \<Longrightarrow> wrap_i32 x = x"
  by (rule wrap_i32_id) (simp add: in_i32_def)

lemma enqueue_running:
  assumes "0 < nb_count c" and "nb_count c + 1 < 2 ^ 31"
  shows "should_run (fst (enqueue m u c)) = False"
    and "snd (enqueue m u c) = c\<lparr>added_this_layer := added_this_layer c @ accept (budget_of m (nb_count c)) [u],
       nb_count := nb_count c + 1\<rparr>"
  using assms by (auto simp: enqueue_def Let_def in_i32_nonneg accept_def budget_of_def)

lemma accept_Cons:
  "accept (budget_of m n) (u # us) = accept (budget_of m n) [u] @ accept (budget_of m (n + 1)) us"
proof (cases "m < 0 \<or> m \<le> n")
  case True
  then show ?thesis by (auto simp: accept_def budget_of_def)
next
  case False
  then have "nat (m - n) = Suc (nat (m - (n + 1)))" by arith
  then show ?thesis using False by (simp add: accept_def budget_of_def)
qed

lemma submit_all_eq:
  assumes "0 < nb_count c" and "nb_count c + int (length rs) < 2 ^ 31"
  shows "submit_all m rs c = Inr (c\<lparr>
     added_this_layer := added_this_layer c @ accept (budget_of m (nb_count c)) (map update_of rs),
     nb_count := nb_count c + int (length rs)\<rparr>)"
  using assms
proof (induction rs arbitrary: c)
  case Nil
  then show ?case by (simp add: accept_def budget_of_def)
next
  case (Cons r rs)
  let ?c = "snd (enqueue m (update_of r) c)"
  have c: "?c = c\<lparr>added_this_layer := added_this_layer c @ accept (budget_of m (nb_count c)) [update_of r],
       nb_count := nb_count c + 1\<rparr>" and run: "\<not> should_run (fst (enqueue m (update_of r) c))"
    using Cons.prems enqueue_running [of c m "update_of r"] by simp_all
  have "submit_all m (r # rs) c = submit_all m rs ?c"
    using run by (simp add: split_beta)
  also have "\<dots> = Inr (?c\<lparr>
     added_this_layer := added_this_layer ?c @ accept (budget_of m (nb_count ?c)) (map update_of rs),
     nb_count := nb_count ?c + int (length rs)\<rparr>)"
    using Cons.prems c by (intro Cons.IH) simp_all
  finally show ?case
    unfolding c using accept_Cons [of m "nb_count c" "update_of r" "map update_of rs"] by simp
qed

definition chatty :: "'s nb_world \<Rightarrow> nat \<Rightarrow> bool" where
  "chatty wld L \<longleftrightarrow> (\<forall>call s. length (snd (exec wld call s)) \<le> L)"

lemma run_next_requests:
  assumes "chatty wld L" and "run_next wld u s = Inr (s1, rs, unfinished)"
  shows "length rs \<le> L"
proof -
  have "length rs \<le> L" if "exec wld call s = (s1, rs)" for call
    using assms(1) that unfolding chatty_def by (metis snd_conv)
  then show ?thesis
    using assms(2) by (cases u) (auto simp: Let_def split: prod.splits if_splits)
qed

lemma budget_step:
  "map_option (\<lambda>k. k - length (accept (budget_of m n) us)) (budget_of m n) = budget_of m (n + int (length us))"
  by (auto simp: budget_of_def accept_def)

definition finished :: "(nb_panic + 's) option \<Rightarrow>
    (nb_panic \<times> nb_update collecting + 's \<times> nb_update collecting) option" where
  "finished = map_option (map_sum (\<lambda>e. (e, collecting_default)) (\<lambda>s. (s, collecting_default)))"

lemma reset_default [simp]: "collecting_reset c = collecting_default"
  by (simp add: collecting_reset_def collecting_default_def)

lemma run_updates_dfs:
  assumes "chatty wld L" and "0 < nb_count c" and "nb_count c + int (fuel * L) < 2 ^ 31"
  shows "run_updates fuel wld m c s = finished (dfs fuel wld (budget_of m (nb_count c)) (worklist c) s)"
  using assms(2,3)
proof (induction fuel arbitrary: c s)
  case 0
  then show ?case by (simp add: finished_def)
next
  case (Suc fuel)
  show ?case
  proof (cases "worklist c")
    case Nil
    then show ?thesis by (simp add: take_next_worklist finished_def)
  next
    case (Cons u us)
    define c1 where "c1 = c\<lparr>stack := rev us, added_this_layer := []\<rparr>"
    have take: "take_next c = (Some u, c1)"
      using Cons by (simp add: take_next_worklist c1_def)
    show ?thesis
    proof (cases "run_next wld u s")
      case (Inl e)
      then show ?thesis using Cons take by (simp add: finished_def)
    next
      case (Inr x)
      obtain s1 rs unfinished where x: "x = (s1, rs, unfinished)" by (cases x)
      have len: "length rs \<le> L"
        using run_next_requests [OF assms(1)] Inr x by blast
      let ?acc = "accept (budget_of m (nb_count c)) (map update_of rs)"
      let ?n = "nb_count c + int (length rs)"
      have n: "0 < ?n" "?n + int (fuel * L) < 2 ^ 31" "nb_count c + int (length rs) < 2 ^ 31"
      proof -
        have "int (Suc fuel * L) = int L + int (fuel * L)" by simp
        then show "0 < ?n" "?n + int (fuel * L) < 2 ^ 31" "nb_count c + int (length rs) < 2 ^ 31"
          using Suc.prems len by linarith+
      qed
      define c2 where "c2 = c1\<lparr>added_this_layer := ?acc, nb_count := ?n\<rparr>"
      have sub: "submit_all m rs c1 = Inr c2"
        using submit_all_eq [of c1 rs m] Suc.prems n(3) by (simp add: c1_def c2_def)
      define c3 where "c3 = (case unfinished of None \<Rightarrow> c2 | Some u' \<Rightarrow> return_unfinished u' c2)"
      have c3: "nb_count c3 = ?n" "worklist c3 = ?acc @ (case unfinished of None \<Rightarrow> [] | Some u' \<Rightarrow> [u']) @ us"
        by (auto simp: c3_def c2_def c1_def return_unfinished_def worklist_def split: option.split)
      have "run_updates (Suc fuel) wld m c s = run_updates fuel wld m c3 s1"
        using take Inr x sub by (simp add: c3_def)
      also have "\<dots> = finished (dfs fuel wld (budget_of m (nb_count c3)) (worklist c3) s1)"
        using n c3(1) by (intro Suc.IH) simp_all
      also have "dfs fuel wld (budget_of m (nb_count c3)) (worklist c3) s1 =
          dfs (Suc fuel) wld (budget_of m (nb_count c)) (worklist c) s"
        using Cons Inr x c3 budget_step [of m "nb_count c" "map update_of rs"]
        by (simp add: Let_def accept_def)
      finally show ?thesis .
    qed
  qed
qed

section \<open>A limited run ends\<close>

fun steps_left :: "nb_update \<Rightarrow> nat" where
  "steps_left (MultiUpdate p b skip i) = 6 - i"
| "steps_left u = 1"

definition pending_steps :: "nb_update list \<Rightarrow> nat" where
  "pending_steps us = sum_list (map steps_left us)"

fun update_ok :: "nb_update \<Rightarrow> bool" where
  "update_ok (MultiUpdate p b skip i) = (i < 6)"
| "update_ok u = True"

lemma pending_steps_simps [simp]:
  "pending_steps [] = 0"
  "pending_steps (u # us) = steps_left u + pending_steps us"
  "pending_steps (us @ vs) = pending_steps us + pending_steps vs"
  by (simp_all add: pending_steps_def)

lemma update_of_ok: "update_ok (update_of r)" "steps_left (update_of r) \<le> 6"
  by (cases r; simp)+

lemma pending_steps_requests: "pending_steps (map update_of rs) \<le> 6 * length rs"
  by (induction rs) (use update_of_ok(2) in \<open>simp_all add: add_mono\<close>)

lemma length_update_order [simp]: "length update_order = 6"
  by (simp add: update_order_def)

lemma run_next_ok:
  assumes "update_ok u"
  shows "\<exists>s1 rs unfinished. run_next wld u s = Inr (s1, rs, unfinished) \<and>
     (case unfinished of None \<Rightarrow> 0 < steps_left u | Some u' \<Rightarrow> update_ok u' \<and> steps_left u' < steps_left u)"
  using assms by (cases u) (auto simp: Let_def split: prod.split)

lemma dfs_terminates:
  assumes "\<forall>u \<in> set us. update_ok u" and "pending_steps us + 6 * k < fuel"
  shows "\<exists>s'. dfs fuel wld (Some k) us s = Some (Inr s')"
  using assms
proof (induction fuel arbitrary: us k s)
  case 0
  then show ?case by simp
next
  case (Suc fuel)
  show ?case
  proof (cases us)
    case Nil
    then show ?thesis by simp
  next
    case (Cons u vs)
    then obtain s1 rs unfinished where step: "run_next wld u s = Inr (s1, rs, unfinished)"
      "case unfinished of None \<Rightarrow> 0 < steps_left u | Some u' \<Rightarrow> update_ok u' \<and> steps_left u' < steps_left u"
      using run_next_ok [of u wld s] Suc.prems(1) by auto
    let ?acc = "map update_of (take k rs)" and ?rest = "case unfinished of None \<Rightarrow> [] | Some u' \<Rightarrow> [u']"
    have eq: "dfs (Suc fuel) wld (Some k) us s = dfs fuel wld (Some (k - length ?acc)) (?acc @ ?rest @ vs) s1"
      using Cons step(1) by (simp add: take_map Let_def)
    have "\<forall>u \<in> set (?acc @ ?rest @ vs). update_ok u"
      using Suc.prems(1) Cons step(2) update_of_ok(1) by (auto split: option.splits)
    moreover have "pending_steps (?acc @ ?rest @ vs) + 6 * (k - length ?acc) < fuel"
    proof -
      have "pending_steps ?acc \<le> 6 * length ?acc" using pending_steps_requests [of "take k rs"] by simp
      moreover have "length ?acc \<le> k" by simp
      moreover have "pending_steps (?rest @ vs) < pending_steps us"
        using step(2) Cons by (auto split: option.splits)
      ultimately show ?thesis using Suc.prems(2) by simp
    qed
    ultimately show ?thesis using Suc.IH eq by simp
  qed
qed

section \<open>Running from rest\<close>

text \<open>What an idle updater does with one request, as a walk.\<close>

definition walk ::
  "nat \<Rightarrow> 's nb_world \<Rightarrow> int \<Rightarrow> nb_request \<Rightarrow> 's \<Rightarrow> (nb_panic + 's) option" where
  "walk fuel wld m r s = dfs fuel wld (budget_of m 1) (accept (budget_of m 0) [update_of r]) s"

lemma enqueue_idle:
  "enqueue m u collecting_default =
     (\<lparr>should_run = True, first_skipped = (m = 0)\<rparr>,
      collecting_default\<lparr>stack := accept (budget_of m 0) [u], nb_count := 1\<rparr>)"
  by (auto simp: enqueue_def collecting_default_def Let_def accept_def budget_of_def in_i32_nonneg)

lemma add_and_run_walk:
  assumes "chatty wld L" and "1 + int (fuel * L) < 2 ^ 31"
  shows "add_and_run fuel wld m r collecting_default s = finished (walk fuel wld m r s)"
proof -
  let ?c = "collecting_default\<lparr>stack := accept (budget_of m 0) [update_of r], nb_count := 1\<rparr>"
  have "worklist ?c = accept (budget_of m 0) [update_of r]"
    by (cases "nat m") (auto simp: worklist_def accept_def budget_of_def collecting_default_def)
  then show ?thesis
    using run_updates_dfs [OF assms(1), of ?c fuel m s] assms(2)
    by (simp add: add_and_run_def enqueue_idle walk_def)
qed

lemma walk_terminates:
  assumes "0 \<le> m" and "6 * nat m < fuel"
  shows "\<exists>s'. walk fuel wld m r s = Some (Inr s')"
proof -
  have "pending_steps (accept (budget_of m 0) [update_of r]) + 6 * nat (m - 1) \<le> 6 * nat m"
    using assms(1) update_of_ok(2) [of r] by (cases "m = 0") (auto simp: accept_def budget_of_def)
  moreover have "\<forall>u \<in> set (accept (budget_of m 0) [update_of r]). update_ok u"
    using update_of_ok(1) by (auto simp: accept_def budget_of_def dest: in_set_takeD)
  ultimately show ?thesis
    using dfs_terminates [of "accept (budget_of m 0) [update_of r]" "nat (m - 1)" fuel wld s] assms
    by (simp add: walk_def budget_of_def)
qed

text \<open>A burst of requests: the results of \<open>n\<close> calls of \<open>enqueue\<close> in a row.\<close>

fun enqueue_many :: "int \<Rightarrow> 'u list \<Rightarrow> 'u collecting \<Rightarrow> add_result list \<times> 'u collecting" where
  "enqueue_many m [] c = ([], c)"
| "enqueue_many m (u # us) c =
     (case enqueue m u c of
        (r, c1) \<Rightarrow> (case enqueue_many m us c1 of (rs, c2) \<Rightarrow> (r # rs, c2)))"

lemma enqueue_first_skipped:
  assumes "0 \<le> nb_count c" and "nb_count c + 1 < 2 ^ 31"
  shows "first_skipped (fst (enqueue m u c)) \<longleftrightarrow> 0 \<le> m \<and> nb_count c = m"
  using assms by (auto simp: enqueue_def Let_def in_i32_nonneg)

lemma enqueue_many_running:
  assumes "0 < nb_count c" and "nb_count c + int (length us) < 2 ^ 31"
  shows "worklist (snd (enqueue_many m us c)) = added_this_layer c @ accept (budget_of m (nb_count c)) us @ rev (stack c) \<and>
     map should_run (fst (enqueue_many m us c)) = replicate (length us) False \<and>
     map first_skipped (fst (enqueue_many m us c)) =
       map (\<lambda>i. 0 \<le> m \<and> nb_count c + int i = m) [0..<length us]"
  using assms
proof (induction us arbitrary: c)
  case Nil
  then show ?case by (simp add: worklist_def accept_def split: option.split)
next
  case (Cons u us)
  let ?c = "snd (enqueue m u c)"
  have c: "?c = c\<lparr>added_this_layer := added_this_layer c @ accept (budget_of m (nb_count c)) [u],
       nb_count := nb_count c + 1\<rparr>" and run: "\<not> should_run (fst (enqueue m u c))"
    and skip: "first_skipped (fst (enqueue m u c)) \<longleftrightarrow> 0 \<le> m \<and> nb_count c = m"
    using Cons.prems enqueue_running [of c m u] enqueue_first_skipped [of c m u] by simp_all
  have "[0..<length (u # us)] = 0 # map Suc [0..<length us]"
    by (simp add: upt_conv_Cons map_Suc_upt del: upt_Suc)
  then show ?case
    using Cons.IH [of ?c] Cons.prems c run skip accept_Cons [of m "nb_count c" u us]
    by (simp add: split_beta comp_def ac_simps del: upt_Suc)
qed

lemma dfs_numeral:
  "dfs (numeral v) wld budget [] s = Some (Inr s)"
  "dfs (numeral v) wld budget (u # us) s =
     (case run_next wld u s of
        Inl e \<Rightarrow> Some (Inl e)
      | Inr (s1, rs, unfinished) \<Rightarrow>
          (let children = map update_of rs;
               accepted = (case budget of None \<Rightarrow> children | Some k \<Rightarrow> take k children)
           in dfs (pred_numeral v) wld (map_option (\<lambda>k. k - length accepted) budget)
                (accepted @ (case unfinished of None \<Rightarrow> [] | Some u' \<Rightarrow> [u']) @ us) s1))"
  by (simp_all only: numeral_eq_Suc dfs.simps)

lemma dfs_one: "dfs 1 wld budget [] s = Some (Inr s)"
  by (simp only: One_nat_def dfs.simps)

section \<open>Properties\<close>

text \<open>C13: the stack, the layer and the counter together compute a depth-first walk: the updates that
  a step submits run before the rest of that step and before everything older, in the order they
  were submitted, as long as the limit has room for them; when the walk ends the updater is back
  at rest, whatever the outcome.\<close>

theorem neighbor_run_is_depth_first:
  assumes "chatty wld L" and "1 + int (fuel * L) < 2 ^ 31"
  shows "add_and_run fuel wld m r collecting_default s = finished (walk fuel wld m r s)"
  by (rule add_and_run_walk [OF assms])

definition echo_world :: "world_call list nb_world" where
  "echo_world = \<lparr>state_at = (\<lambda>_ _. 0),
     exec = (\<lambda>c s. (s @ [c], case c of
        NeighborCall st p b moved \<Rightarrow> if b = 1 then [ReqChanged p 2, ReqChanged p 3] else []
      | ShapeCall _ _ _ _ _ _ \<Rightarrow> []))\<rparr>"

lemma echo_chatty: "chatty echo_world 2"
  by (auto simp: chatty_def echo_world_def split: world_call.split)

theorem neighbor_run_is_depth_first_witness:
  "add_and_run 100 echo_world 10 (ReqChanged (mk_block_pos 0 0 0) 1) collecting_default [] =
     Some (Inr ([NeighborCall 0 (mk_block_pos 0 0 0) 1 False, NeighborCall 0 (mk_block_pos 0 0 0) 2 False,
       NeighborCall 0 (mk_block_pos 0 0 0) 3 False], collecting_default))"
proof -
  have "walk 100 echo_world 10 (ReqChanged (mk_block_pos 0 0 0) 1) [] =
      Some (Inr [NeighborCall 0 (mk_block_pos 0 0 0) 1 False, NeighborCall 0 (mk_block_pos 0 0 0) 2 False,
       NeighborCall 0 (mk_block_pos 0 0 0) 3 False])"
    by (simp add: walk_def budget_of_def accept_def echo_world_def dfs_numeral Let_def)
  then show ?thesis
    using neighbor_run_is_depth_first [OF echo_chatty, of 100 10 "ReqChanged (mk_block_pos 0 0 0) 1" "[]"]
    by (simp add: finished_def)
qed

text \<open>C40: with a limit of \<open>m\<close> chained updates, not negative, every run ends without a panic in a world
  none of whose calls submits more than \<open>L\<close> requests (\<open>chatty\<close>), also where every call submits some: any
  amount of fuel above six steps for every accepted update is enough, provided that it keeps the count of requests,
  at most \<open>1 + fuel * L\<close>, below \<open>2 ^ 31\<close>. The count is an \<open>i32\<close> that refused requests advance, too; beyond that
  it would wrap to negative values, which are below the limit again.\<close>

theorem limited_run_terminates:
  assumes "chatty wld L" and "0 \<le> m" and "6 * nat m < fuel" and "1 + int (fuel * L) < 2 ^ 31"
  shows "\<exists>s'. add_and_run fuel wld m r collecting_default s = Some (Inr (s', collecting_default))"
  using walk_terminates [OF assms(2,3), of wld r s] add_and_run_walk [OF assms(1,4)]
  by (auto simp: finished_def)

text \<open>A world that answers every call with the same request never comes to rest by itself.\<close>

definition restless_world :: "unit nb_world" where
  "restless_world = \<lparr>state_at = (\<lambda>_ _. 0), exec = (\<lambda>c s. (s, [ReqExceptFacing (mk_block_pos 0 0 0) 1 None]))\<rparr>"

theorem limited_run_terminates_witness:
  "\<exists>s'. add_and_run 6000001 restless_world 1000000 (ReqChanged (mk_block_pos 0 0 0) 1) collecting_default ()
     = Some (Inr (s', collecting_default))"
proof -
  have "chatty restless_world 1" by (simp add: chatty_def restless_world_def)
  from limited_run_terminates [OF this, of 1000000 6000001] show ?thesis by simp
qed

text \<open>an update of all neighbours of a position, in a world that submits nothing, calls every
  neighbour exactly once, in the order west, east, down, up, north, south, but for the skipped
  direction, each with the state that is at its position.\<close>

theorem multi_update_visits_neighbors:
  "add_and_run 7 \<lparr>state_at = (\<lambda>s p. f p), exec = (\<lambda>c s. (s @ [c], []))\<rparr> 1000000
     (ReqExceptFacing p b skip) collecting_default calls =
   Some (Inr (calls @ map (\<lambda>d. NeighborCall (f (relative p d)) (relative p d) b False)
      (filter (\<lambda>d. Some d \<noteq> skip) [West, East, Down, Up, North, South]), collecting_default))"
proof -
  let ?w = "\<lparr>state_at = (\<lambda>s p. f p), exec = (\<lambda>c s. (s @ [c], []))\<rparr>"
  have "chatty ?w 0" by (simp add: chatty_def)
  then have "add_and_run 7 ?w 1000000 (ReqExceptFacing p b skip) collecting_default calls =
      finished (walk 7 ?w 1000000 (ReqExceptFacing p b skip) calls)"
    by (rule add_and_run_walk) simp
  moreover have "walk 7 ?w 1000000 (ReqExceptFacing p b skip) calls =
      Some (Inr (calls @ map (\<lambda>d. NeighborCall (f (relative p d)) (relative p d) b False)
        (filter (\<lambda>d. Some d \<noteq> skip) [West, East, Down, Up, North, South])))"
  proof (cases skip)
    case None
    then show ?thesis
      by (simp add: walk_def budget_of_def accept_def dfs_numeral dfs_one Let_def update_order_def)
  next
    case (Some d)
    then show ?thesis
      by (cases d)
        (simp_all add: walk_def budget_of_def accept_def dfs_numeral dfs_one Let_def update_order_def)
  qed
  ultimately show ?thesis by (simp add: finished_def)
qed

text \<open>Of a burst of updates submitted to an updater at rest only the first starts a run, the
  first \<open>m\<close> are kept, in order, and the overflow is reported once, at the first update dropped.\<close>

theorem burst_is_limited:
  assumes "int (length (u # us)) < 2 ^ 31"
  shows "worklist (snd (enqueue_many m (u # us) collecting_default)) =
       (if m = 0 then [] else accept (budget_of m 1) us @ [u]) \<and>
     map should_run (fst (enqueue_many m (u # us) collecting_default)) = True # replicate (length us) False \<and>
     map first_skipped (fst (enqueue_many m (u # us) collecting_default)) =
       map (\<lambda>i. int i = m) [0..<length (u # us)]"
proof -
  let ?c = "collecting_default\<lparr>stack := accept (budget_of m 0) [u], nb_count := 1\<rparr>"
  have "[0..<length (u # us)] = 0 # map Suc [0..<length us]"
    by (simp add: upt_conv_Cons map_Suc_upt del: upt_Suc)
  moreover have "rev (accept (budget_of m 0) [u]) = (if m = 0 then [] else [u])"
    by (cases "nat m") (auto simp: accept_def budget_of_def)
  moreover have "accept (budget_of 0 1) us = []" by (simp add: accept_def budget_of_def)
  moreover have "enqueue_many m (u # us) collecting_default =
      (\<lparr>should_run = True, first_skipped = (m = 0)\<rparr> # fst (enqueue_many m us ?c), snd (enqueue_many m us ?c))"
    by (simp add: enqueue_idle split_beta)
  moreover have "added_this_layer ?c = []" "stack ?c = accept (budget_of m 0) [u]" "nb_count ?c = 1"
    by (simp_all add: collecting_default_def)
  moreover have "(0 \<le> m \<and> 1 + int i = m) = (1 + int i = m)" for i by auto
  ultimately show ?thesis
    using enqueue_many_running [of ?c us m] assms by (auto simp: comp_def simp del: upt_Suc)
qed

theorem burst_is_limited_witness:
  "worklist (snd (enqueue_many 2 [''a'', ''b'', ''c'', ''d''] collecting_default)) = [''b'', ''a'']"
  using burst_is_limited [of "''a''" "[''b'', ''c'', ''d'']" 2] by (simp add: accept_def budget_of_def)

end
