(* ===== verification/BlockEvents.thy ===== *)
theory BlockEvents
  imports Positions
begin

text \<open>
  The queue of block events and the pass that runs it (\<open>foton-core/src/world/block_event.rs\<close>).

  The chunk map, the blocks and the players are arguments of the pass: whether a chunk ticks,
  which block is at a position, what the behaviour of a block does with an event (its answer, the
  new state of the world and the events it queued) and the delivery of a packet.
  A behaviour may queue events for ever, so the pass takes fuel.
\<close>

section \<open>The queue\<close>

record block_event =
  ev_pos :: block_pos
  ev_block :: nat
  param_a :: i32w
  param_b :: i32w

type_synonym block_event_key = "block_pos \<times> nat \<times> i32w \<times> i32w"

definition event_key :: "block_event \<Rightarrow> block_event_key" where
  "event_key e = (ev_pos e, ev_block e, param_a e, param_b e)"

record event_queue =
  events :: "block_event list"
  members :: "block_event_key set"

definition event_queue_default :: event_queue where
  "event_queue_default = \<lparr>events = [], members = {}\<rparr>"

definition event_push :: "block_event \<Rightarrow> event_queue \<Rightarrow> bool \<times> event_queue" where
  "event_push e q =
     (if event_key e \<in> members q then (False, q)
      else (True, q\<lparr>members := insert (event_key e) (members q), events := events q @ [e]\<rparr>))"

definition event_pop_front :: "event_queue \<Rightarrow> block_event option \<times> event_queue" where
  "event_pop_front q =
     (case events q of
        [] \<Rightarrow> (None, q)
      | e # es \<Rightarrow> (Some e, q\<lparr>events := es, members := members q - {event_key e}\<rparr>))"

section \<open>The pass\<close>

record block_event_packet =
  pk_pos :: block_pos
  pk_param_a :: u8
  pk_param_b :: u8
  pk_block :: nat

definition event_packet :: "block_event \<Rightarrow> block_event_packet" where
  "event_packet e =
     \<lparr>pk_pos = ev_pos e, pk_param_a = ucast (param_a e), pk_param_b = ucast (param_b e),
      pk_block = ev_block e\<rparr>"

record 's event_world =
  simulated :: "'s \<Rightarrow> chunk_pos \<Rightarrow> bool"
  block_at :: "'s \<Rightarrow> block_pos \<Rightarrow> nat"
  trigger_event :: "'s \<Rightarrow> block_event \<Rightarrow> bool \<times> 's \<times> block_event list"
  deliver :: "'s \<Rightarrow> block_event_packet \<Rightarrow> 's"

fun push_all :: "block_event list \<Rightarrow> event_queue \<Rightarrow> event_queue" where
  "push_all [] q = q"
| "push_all (e # es) q = push_all es (snd (event_push e q))"

definition do_block_event ::
  "'s event_world \<Rightarrow> block_event \<Rightarrow> 's \<Rightarrow> event_queue \<Rightarrow> bool \<times> 's \<times> event_queue" where
  "do_block_event wld e s q =
     (if block_at wld s (ev_pos e) \<noteq> ev_block e then (False, s, q)
      else (case trigger_event wld s e of (yes, s1, queued) \<Rightarrow> (yes, s1, push_all queued q)))"

fun run_block_events_from ::
  "nat \<Rightarrow> 's event_world \<Rightarrow> block_event list \<Rightarrow> 's \<Rightarrow> event_queue \<Rightarrow> ('s \<times> event_queue) option" where
  "run_block_events_from 0 wld deferred s q = None"
| "run_block_events_from (Suc fuel) wld deferred s q =
     (case event_pop_front q of
        (None, q1) \<Rightarrow> Some (s, push_all deferred q1)
      | (Some e, q1) \<Rightarrow>
          if \<not> simulated wld s (chunk_of_block (ev_pos e))
          then run_block_events_from fuel wld (deferred @ [e]) s q1
          else
            (case do_block_event wld e s q1 of
               (yes, s1, q2) \<Rightarrow>
                 run_block_events_from fuel wld deferred
                   (if yes then deliver wld s1 (event_packet e) else s1) q2))"

definition run_block_events ::
  "nat \<Rightarrow> 's event_world \<Rightarrow> 's \<Rightarrow> event_queue \<Rightarrow> ('s \<times> event_queue) option" where
  "run_block_events fuel wld s q = run_block_events_from fuel wld [] s q"

section \<open>An insertion-ordered set\<close>

lemma event_key_inject [simp]: "event_key a = event_key b \<longleftrightarrow> a = b"
  by (auto simp: event_key_def)

definition event_queue_ok :: "event_queue \<Rightarrow> bool" where
  "event_queue_ok q \<longleftrightarrow> distinct (events q) \<and> members q = event_key ` set (events q)"

lemma event_member [simp]: "event_queue_ok q \<Longrightarrow> event_key e \<in> members q \<longleftrightarrow> e \<in> set (events q)"
  by (auto simp: event_queue_ok_def)

lemma event_push_ok [inv_intros]: "event_queue_ok q \<Longrightarrow> event_queue_ok (snd (event_push e q))"
  by (auto simp: event_push_def event_queue_ok_def)

lemma event_push_events:
  "event_queue_ok q \<Longrightarrow>
     events (snd (event_push e q)) = (if e \<in> set (events q) then events q else events q @ [e])"
  by (simp add: event_push_def)

lemma push_all_ok [inv_intros]: "event_queue_ok q \<Longrightarrow> event_queue_ok (push_all es q)"
  by (induction es arbitrary: q) (simp_all add: event_push_ok)

lemma event_pop_ok: "event_queue_ok q \<Longrightarrow> event_queue_ok (snd (event_pop_front q))"
  by (auto simp: event_pop_front_def event_queue_ok_def split: list.splits)

text \<open>Appending what is not there yet, first occurrences first.\<close>

fun add_new :: "'a list \<Rightarrow> 'a list \<Rightarrow> 'a list" where
  "add_new xs [] = xs"
| "add_new xs (y # ys) = add_new (if y \<in> set xs then xs else xs @ [y]) ys"

lemma push_all_events: "event_queue_ok q \<Longrightarrow> events (push_all es q) = add_new (events q) es"
  by (induction es arbitrary: q) (simp_all add: event_push_events event_push_ok)

lemma add_new_distinct: "distinct ys \<Longrightarrow> set xs \<inter> set ys = {} \<Longrightarrow> add_new xs ys = xs @ ys"
  by (induction ys arbitrary: xs) auto

lemma set_add_new: "set (add_new xs ys) = set xs \<union> set ys"
  by (induction ys arbitrary: xs) auto

lemma event_queue_ext: "event_queue_ok q \<Longrightarrow> event_queue_ok q' \<Longrightarrow> events q = events q' \<Longrightarrow> q = q'"
  by (simp add: event_queue_ok_def)

section \<open>What a pass does\<close>

text \<open>The reference on lists: the queue is the list of its events.\<close>

fun pass ::
  "nat \<Rightarrow> 's event_world \<Rightarrow> block_event list \<Rightarrow> 's \<Rightarrow> block_event list \<Rightarrow> ('s \<times> block_event list) option" where
  "pass 0 wld deferred s es = None"
| "pass (Suc fuel) wld deferred s [] = Some (s, add_new [] deferred)"
| "pass (Suc fuel) wld deferred s (e # es) =
     (if \<not> simulated wld s (chunk_of_block (ev_pos e)) then pass fuel wld (deferred @ [e]) s es
      else if block_at wld s (ev_pos e) \<noteq> ev_block e then pass fuel wld deferred s es
      else (case trigger_event wld s e of
              (yes, s1, queued) \<Rightarrow>
                pass fuel wld deferred (if yes then deliver wld s1 (event_packet e) else s1)
                  (add_new es queued)))"

lemma run_block_events_from_pass:
  assumes "event_queue_ok q"
  shows "map_option (map_prod id events) (run_block_events_from fuel wld deferred s q)
      = pass fuel wld deferred s (events q) \<and>
     (\<forall>s' q'. run_block_events_from fuel wld deferred s q = Some (s', q') \<longrightarrow> event_queue_ok q')"
  using assms
proof (induction fuel arbitrary: deferred s q)
  case 0
  then show ?case by simp
next
  case (Suc fuel)
  let ?q1 = "snd (event_pop_front q)"
  have ok1: "event_queue_ok ?q1" by (rule event_pop_ok [OF Suc.prems])
  show ?case
  proof (cases "events q")
    case Nil
    then have pop: "event_pop_front q = (None, q)" by (simp add: event_pop_front_def)
    show ?thesis
      using Nil pop push_all_events [OF Suc.prems, of deferred] push_all_ok [OF Suc.prems, of deferred] by simp
  next
    case (Cons e es)
    then have pop: "event_pop_front q = (Some e, ?q1)" and es: "events ?q1 = es"
      by (simp_all add: event_pop_front_def)
    have ok2: "event_queue_ok (push_all queued ?q1)" for queued by (rule push_all_ok [OF ok1])
    show ?thesis
      using Cons pop es Suc.IH [OF ok1] Suc.IH [OF ok2] push_all_events [OF ok1]
      by (auto simp: do_block_event_def split: prod.split)
  qed
qed

text \<open>With behaviours that queue nothing and a fixed chunk map, a pass is one sweep.\<close>

definition quiet :: "'s event_world \<Rightarrow> (chunk_pos \<Rightarrow> bool) \<Rightarrow> bool" where
  "quiet wld sim \<longleftrightarrow> (\<forall>s. simulated wld s = sim) \<and> (\<forall>s e. snd (snd (trigger_event wld s e)) = [])"

definition handle_event :: "'s event_world \<Rightarrow> block_event \<Rightarrow> 's \<Rightarrow> 's" where
  "handle_event wld e s =
     (if block_at wld s (ev_pos e) \<noteq> ev_block e then s
      else (case trigger_event wld s e of
              (yes, s1, _) \<Rightarrow> if yes then deliver wld s1 (event_packet e) else s1))"

lemma pass_quiet:
  assumes "quiet wld sim" and "length es < fuel"
  shows "pass fuel wld deferred s es =
     Some (fold (handle_event wld) (filter (\<lambda>e. sim (chunk_of_block (ev_pos e))) es) s,
           add_new [] (deferred @ filter (\<lambda>e. \<not> sim (chunk_of_block (ev_pos e))) es))"
  using assms(2)
proof (induction fuel arbitrary: deferred s es)
  case (Suc fuel)
  show ?case
  proof (cases es)
    case (Cons e es')
    have "simulated wld s = sim" "snd (snd (trigger_event wld s e)) = []"
      using assms(1) by (simp_all add: quiet_def)
    then show ?thesis
      using Cons Suc by (auto simp: handle_event_def split: prod.splits)
  qed simp
qed simp

text \<open>Whatever the behaviours do, only events of chunks that do not tick are left.\<close>

lemma pass_leaves_deferred:
  assumes "\<And>s. simulated wld s = sim" and "\<forall>e \<in> set deferred. \<not> sim (chunk_of_block (ev_pos e))"
    and "pass fuel wld deferred s es = Some (s', es')"
  shows "\<forall>e \<in> set es'. \<not> sim (chunk_of_block (ev_pos e))"
  using assms(2,3)
proof (induction fuel arbitrary: deferred s es)
  case (Suc fuel)
  show ?case
  proof (cases es)
    case Nil
    then show ?thesis using Suc.prems by (auto simp: set_add_new)
  next
    case (Cons e es1)
    have keep: "\<forall>e \<in> set (deferred @ [e]). \<not> sim (chunk_of_block (ev_pos e))"
      if "\<not> sim (chunk_of_block (ev_pos e))" using Suc.prems(1) that by simp
    show ?thesis
      using Suc.prems(2) Cons assms(1) Suc.IH [OF keep] Suc.IH [OF Suc.prems(1)]
      by (auto split: if_splits prod.splits)
  qed
qed simp

section \<open>Properties\<close>

text \<open>the deque with its set of members is an insertion-ordered set: a push appends an event
  unless an equal one is queued, and says which; a pop yields the oldest event, which can then be
  queued again.\<close>

theorem event_queue_is_ordered_set:
  assumes "event_queue_ok q"
  shows "event_queue_ok (snd (event_push e q)) \<and>
     (fst (event_push e q) \<longleftrightarrow> e \<notin> set (events q)) \<and>
     events (snd (event_push e q)) = (if e \<in> set (events q) then events q else events q @ [e]) \<and>
     event_queue_ok (snd (event_pop_front q)) \<and>
     (case events q of
        [] \<Rightarrow> event_pop_front q = (None, q)
      | x # xs \<Rightarrow> fst (event_pop_front q) = Some x \<and> events (snd (event_pop_front q)) = xs \<and>
          fst (event_push x (snd (event_pop_front q))))"
proof -
  have "fst (event_push x (snd (event_pop_front q)))" if "events q = x # xs" for x xs
    using assms that by (simp add: event_push_def event_pop_front_def)
  then show ?thesis
    using assms event_push_ok [OF assms] event_push_events [OF assms] event_pop_ok [OF assms]
    by (auto simp: event_push_def event_pop_front_def split: list.split)
qed

definition demo_event :: block_event where
  "demo_event = \<lparr>ev_pos = mk_block_pos 1 2 3, ev_block = 7, param_a = 300, param_b = 0\<rparr>"

lemma demo_event_queue_ok: "event_queue_ok (snd (event_push demo_event event_queue_default))"
  by (intro event_push_ok) (simp add: event_queue_ok_def event_queue_default_def)

theorem event_queue_is_ordered_set_witness:
  "\<not> fst (event_push demo_event (snd (event_push demo_event event_queue_default)))"
  using event_queue_is_ordered_set [OF demo_event_queue_ok, of demo_event]
  by (simp add: event_push_def event_queue_default_def)

text \<open>a pass handles the events in insertion order, hands every one whose chunk ticks to the
  behaviour of its block exactly once, and queues the others again, in their order, for the next
  pass; a pass over \<open>n\<close> events takes \<open>n + 1\<close> rounds.\<close>

theorem block_event_pass:
  assumes "event_queue_ok q" and "quiet wld sim" and "length (events q) < fuel"
  shows "\<exists>q'. run_block_events fuel wld s q =
       Some (fold (handle_event wld) (filter (\<lambda>e. sim (chunk_of_block (ev_pos e))) (events q)) s, q') \<and>
     event_queue_ok q' \<and>
     events q' = filter (\<lambda>e. \<not> sim (chunk_of_block (ev_pos e))) (events q)"
proof -
  have "distinct (events q)" using assms(1) by (simp add: event_queue_ok_def)
  then have "pass fuel wld [] s (events q) =
     Some (fold (handle_event wld) (filter (\<lambda>e. sim (chunk_of_block (ev_pos e))) (events q)) s,
           filter (\<lambda>e. \<not> sim (chunk_of_block (ev_pos e))) (events q))"
    using pass_quiet [OF assms(2,3), of "[]" s] by (simp add: add_new_distinct)
  then show ?thesis
    using run_block_events_from_pass [OF assms(1), of fuel wld "[]" s]
    by (auto simp: run_block_events_def)
qed

definition log_world :: "block_event_packet list event_world" where
  "log_world = \<lparr>simulated = (\<lambda>_ c. cx c = 0), block_at = (\<lambda>_ _. 7),
     trigger_event = (\<lambda>s e. (True, s, [])), deliver = (\<lambda>s p. s @ [p])\<rparr>"

theorem block_event_pass_witness:
  "\<exists>q'. run_block_events 2 log_world [] (snd (event_push demo_event event_queue_default)) =
     Some ([\<lparr>pk_pos = mk_block_pos 1 2 3, pk_param_a = 44, pk_param_b = 0, pk_block = 7\<rparr>], q') \<and> events q' = []"
proof -
  let ?q = "snd (event_push demo_event event_queue_default)"
  have quiet: "quiet log_world (\<lambda>c. cx c = 0)" by (simp add: quiet_def log_world_def)
  have ev: "events ?q = [demo_event]" by (simp add: event_push_def event_queue_default_def)
  have c: "cx (chunk_of_block (ev_pos demo_event)) = 0" by code_simp
  have p: "event_packet demo_event = \<lparr>pk_pos = mk_block_pos 1 2 3, pk_param_a = 44, pk_param_b = 0, pk_block = 7\<rparr>"
    by (simp add: event_packet_def demo_event_def)
  show ?thesis
    using block_event_pass [OF demo_event_queue_ok quiet, of 2 "[]"] ev c p
    by (auto simp: handle_event_def log_world_def) (simp add: demo_event_def)
qed

text \<open>whatever the behaviours do and queue meanwhile, a pass that ends has left no event of a
  ticking chunk behind, and no event twice.\<close>

theorem block_event_pass_complete:
  assumes "event_queue_ok q" and "\<And>s. simulated wld s = sim"
    and "run_block_events fuel wld s q = Some (s', q')"
  shows "event_queue_ok q' \<and> (\<forall>e \<in> set (events q'). \<not> sim (chunk_of_block (ev_pos e)))"
proof -
  have "pass fuel wld [] s (events q) = Some (s', events q')" "event_queue_ok q'"
    using run_block_events_from_pass [OF assms(1), of fuel wld "[]" s] assms(3)
    by (auto simp: run_block_events_def)
  then show ?thesis using pass_leaves_deferred [OF assms(2)] by (metis empty_iff empty_set)
qed

theorem block_event_pass_complete_witness:
  "\<exists>s' q'. run_block_events 2 log_world [] (snd (event_push demo_event event_queue_default)) = Some (s', q') \<and>
     event_queue_ok q'"
proof -
  let ?q = "snd (event_push demo_event event_queue_default)"
  have sim: "simulated log_world s = (\<lambda>c. cx c = 0)" for s by (simp add: log_world_def)
  have "event_pop_front ?q = (Some demo_event, event_queue_default)"
    by (simp add: event_push_def event_queue_default_def event_pop_front_def)
  then obtain s' q' where r: "run_block_events 2 log_world [] ?q = Some (s', q')"
    by (cases "cx (chunk_of_block (ev_pos demo_event)) = 0"; cases "ev_block demo_event = 7")
      (auto simp: run_block_events_def numeral_2_eq_2 do_block_event_def log_world_def
        event_pop_front_def event_queue_default_def)
  then show ?thesis using block_event_pass_complete [OF demo_event_queue_ok sim r] by blast
qed

end
