(* ===== verification/PositionProps.thy ===== *)
theory PositionProps
  imports Positions
begin

text \<open>
  The properties of positions: the packed forms lose nothing that they have room for, and a block
  position is the sum of its section and its place in it.
\<close>

text \<open>packing a chunk position loses nothing; every packed block or section position is the packing
  of the position it unpacks to, and unpacking a packed block position gives back each coordinate
  reduced to the bits the layout keeps: 26 for x and z, 12 for y, and 22 and 20 for sections.\<close>

theorem packed_positions_round_trip:
  "to_chunk_pos (packed_chunk_pos c) = c \<and>
   packed_block_pos (to_block_pos raw) = raw \<and>
   packed_section_pos (to_section_pos raw) = raw \<and>
   to_block_pos (packed_block_pos p) =
     mk_block_pos (signed_take_bit 25 (bx p)) (signed_take_bit 11 (bY p)) (signed_take_bit 25 (bz p)) \<and>
   to_section_pos (packed_section_pos q) =
     \<lparr>sx = signed_take_bit 21 (sx q), sy = signed_take_bit 19 (sy q), sz = signed_take_bit 21 (sz q)\<rparr>"
  by (simp only: to_chunk_pos_packed packed_to_block_pos packed_to_section_pos to_block_pos_packed
      to_section_pos_packed simp_thms)

text \<open>for every block position, wherever its coordinates lie, the section it belongs to and its
  packed place in that section determine it; the place is a valid raw value, holds the low four bits
  of the coordinates, and agrees with the column it has in its chunk.\<close>

theorem block_position_splits:
  "relative_to_block_pos (section_of_block p) (section_block_of_block p) = p \<and>
   section_block_of_raw (section_block_of_block p) = Some (section_block_of_block p) \<and>
   section_block_x (section_block_of_block p) = local_xz_x (local_xz_of_block p) \<and>
   section_block_z (section_block_of_block p) = local_xz_z (local_xz_of_block p) \<and>
   section_block_y (section_block_of_block p) = ucast (bY p AND 15) \<and>
   cx (chunk_of_block p) = sx (section_of_block p) \<and> cz (chunk_of_block p) = sz (section_of_block p)"
  using relative_to_block_pos_split [of p]
  by (simp add: section_block_of_block_valid section_block_parts local_xz_parts chunk_of_block_def
      section_of_block_def)

end
