(* ===== verification/ChatChain.thy ===== *)
theory ChatChain
  imports Prelude
begin

text \<open>
  The chain of signed chat messages (\<open>foton-core/src/player/chat/message_chain.rs\<close>). A UUID is a
  natural number below \<open>2 ^ 128\<close>, a \<open>SystemTime\<close> the number of nanoseconds since the epoch, a
  string its UTF-8 bytes, and what is fed to the signature is a list of bytes. Feeding bytes to a
  \<open>SignatureOutput\<close> is taken not to fail.
\<close>

type_synonym bytes = "u8 list"
type_synonym signature = bytes

section \<open>Big-endian integers\<close>

fun be_bytes :: "nat \<Rightarrow> nat \<Rightarrow> bytes" where
  "be_bytes 0 n = []"
| "be_bytes (Suc k) n = be_bytes k (n div 256) @ [word_of_nat (n mod 256)]"

definition be_i32 :: "int \<Rightarrow> bytes" where
  "be_i32 x = be_bytes 4 (nat (x mod 2 ^ 32))"

definition be_i64 :: "int \<Rightarrow> bytes" where
  "be_i64 x = be_bytes 8 (nat (x mod 2 ^ 64))"

definition be_u128 :: "nat \<Rightarrow> bytes" where
  "be_u128 n = be_bytes 16 n"

lemma length_be [simp]:
  "length (be_bytes k n) = k" "length (be_i32 x) = 4" "length (be_i64 x) = 8" "length (be_u128 n) = 16"
proof -
  show len: "length (be_bytes k n) = k" for k n by (induction k arbitrary: n) simp_all
  show "length (be_i32 x) = 4" "length (be_i64 x) = 8" "length (be_u128 n) = 16"
    by (simp_all add: be_i32_def be_i64_def be_u128_def len)
qed

lemma be_bytes_inject:
  "n < 256 ^ k \<Longrightarrow> m < 256 ^ k \<Longrightarrow> be_bytes k n = be_bytes k m \<longleftrightarrow> n = m"
proof (induction k arbitrary: n m)
  case (Suc k)
  have "n div 256 < 256 ^ k" "m div 256 < 256 ^ k"
    using Suc.prems by (simp_all add: less_mult_imp_div_less)
  moreover have "(word_of_nat (n mod 256) :: u8) = word_of_nat (m mod 256) \<longleftrightarrow> n mod 256 = m mod 256"
    by (simp add: word_of_nat_eq_iff take_bit_eq_mod)
  moreover have "n = m \<longleftrightarrow> n div 256 = m div 256 \<and> n mod 256 = m mod 256"
    by (metis div_mod_decomp)
  ultimately show ?case using Suc.IH by auto
qed simp

lemma mod_two_inject:
  fixes x y :: int
  assumes "- (2 ^ n) \<le> x" "x < 2 ^ n" "- (2 ^ n) \<le> y" "y < 2 ^ n" "x mod 2 ^ Suc n = y mod 2 ^ Suc n"
  shows "x = y"
proof -
  have "signed_take_bit n x = signed_take_bit n y"
    using assms(5) by (simp add: signed_take_bit_eq_iff_take_bit_eq take_bit_eq_mod)
  then show ?thesis using assms by (simp add: signed_take_bit_int_eq_self)
qed

lemma be_i32_inject:
  assumes "in_i32 x" "in_i32 y" "be_i32 x = be_i32 y"
  shows "x = y"
proof -
  have b: "nat (z mod 2 ^ 32) < 256 ^ 4" for z :: int
  proof -
    have "z mod 2 ^ 32 < 2 ^ 32" by simp
    then show ?thesis by (simp add: nat_less_iff)
  qed
  have "nat (x mod 2 ^ 32) = nat (y mod 2 ^ 32)"
    using assms(3) by (simp only: be_i32_def be_bytes_inject [OF b b])
  then have "x mod 2 ^ 32 = y mod 2 ^ 32"
    by (subst (asm) eq_nat_nat_iff) simp_all
  then have "x mod 2 ^ Suc 31 = y mod 2 ^ Suc 31"
    by simp
  then show ?thesis
    using assms(1,2) mod_two_inject [of 31 x y] by (simp add: in_i32_def)
qed

lemma be_i64_inject:
  assumes "in_i64 x" "in_i64 y" "be_i64 x = be_i64 y"
  shows "x = y"
proof -
  have b: "nat (z mod 2 ^ 64) < 256 ^ 8" for z :: int
  proof -
    have "z mod 2 ^ 64 < 2 ^ 64" by simp
    then show ?thesis by (simp add: nat_less_iff)
  qed
  have "nat (x mod 2 ^ 64) = nat (y mod 2 ^ 64)"
    using assms(3) by (simp only: be_i64_def be_bytes_inject [OF b b])
  then have "x mod 2 ^ 64 = y mod 2 ^ 64"
    by (subst (asm) eq_nat_nat_iff) simp_all
  then have "x mod 2 ^ Suc 63 = y mod 2 ^ Suc 63"
    by simp
  then show ?thesis
    using assms(1,2) mod_two_inject [of 63 x y] by (simp add: in_i64_def)
qed

lemma be_u128_inject: "n < 2 ^ 128 \<Longrightarrow> m < 2 ^ 128 \<Longrightarrow> be_u128 n = be_u128 m \<Longrightarrow> n = m"
  using be_bytes_inject [of n 16 m] by (simp add: be_u128_def)

section \<open>Links and bodies\<close>

record message_link =
  link_index :: int
  link_sender :: nat
  link_session :: nat

definition link_root :: "nat \<Rightarrow> nat \<Rightarrow> message_link" where
  "link_root sender session = \<lparr>link_index = 0, link_sender = sender, link_session = session\<rparr>"

definition link_unsigned :: "nat \<Rightarrow> message_link" where
  "link_unsigned sender = link_root sender 0"

definition link_bytes :: "message_link \<Rightarrow> bytes" where
  "link_bytes l = be_u128 (link_sender l) @ be_u128 (link_session l) @ be_i32 (link_index l)"

definition is_descendant_of :: "message_link \<Rightarrow> message_link \<Rightarrow> bool" where
  "is_descendant_of l other \<longleftrightarrow>
     link_index l > link_index other \<and> link_sender l = link_sender other
     \<and> link_session l = link_session other"

definition link_advance :: "message_link \<Rightarrow> message_link option" where
  "link_advance l =
     (if link_index l = 2 ^ 31 - 1 then None
      else Some \<lparr>link_index = link_index l + 1, link_sender = link_sender l,
                 link_session = link_session l\<rparr>)"

record message_body =
  body_content :: bytes
  time_stamp :: int
  salt :: int
  body_last_seen :: "signature list"

definition body_unsigned :: "bytes \<Rightarrow> int \<Rightarrow> message_body" where
  "body_unsigned content now =
     \<lparr>body_content = content, time_stamp = now, salt = 0, body_last_seen = []\<rparr>"

definition last_seen_bytes :: "signature list \<Rightarrow> bytes" where
  "last_seen_bytes ss = be_i32 (wrap_i32 (int (length ss))) @ concat ss"

text \<open>A time before the epoch counts as the epoch; the \<open>u64\<close> of seconds is cast to \<open>i64\<close>.\<close>

definition epoch_seconds :: "int \<Rightarrow> int" where
  "epoch_seconds t = wrap_i64 (if t < 0 then 0 else t div 10 ^ 9)"

definition body_bytes :: "message_body \<Rightarrow> bytes" where
  "body_bytes b =
     be_i64 (salt b) @ be_i64 (epoch_seconds (time_stamp b))
     @ be_i32 (wrap_i32 (int (length (body_content b)))) @ body_content b
     @ last_seen_bytes (body_last_seen b)"

definition signature_payload :: "message_link \<Rightarrow> message_body \<Rightarrow> bytes" where
  "signature_payload l b = be_i32 1 @ link_bytes l @ body_bytes b"

section \<open>The chain\<close>

datatype chain_error =
    MissingProfileKey
  | ChainBroken
  | ExpiredProfileKey
  | InvalidChainSignature
  | OutOfOrderChat
  | ChainMessageExpired
  | ChainCryptoError

record message_chain =
  next_link :: "message_link option"
  last_timestamp :: int

definition chain_new :: "nat \<Rightarrow> nat \<Rightarrow> message_chain" where
  "chain_new sender session =
     \<lparr>next_link = Some (link_root sender session), last_timestamp = 0\<rparr>"

definition is_broken :: "message_chain \<Rightarrow> bool" where
  "is_broken c \<longleftrightarrow> next_link c = None"

definition break_chain :: "message_chain \<Rightarrow> message_chain" where
  "break_chain c = c\<lparr>next_link := None\<rparr>"

definition validate_and_advance ::
  "message_chain \<Rightarrow> message_body \<Rightarrow> (chain_error + message_link) \<times> message_chain" where
  "validate_and_advance c b =
     (case next_link c of
        None \<Rightarrow> (Inl ChainBroken, c)
      | Some l \<Rightarrow>
          if time_stamp b < last_timestamp c then (Inl OutOfOrderChat, break_chain c)
          else (Inr l, c\<lparr>last_timestamp := time_stamp b, next_link := link_advance l\<rparr>))"

definition chain_reset :: "message_chain \<Rightarrow> nat \<Rightarrow> nat \<Rightarrow> message_chain" where
  "chain_reset c sender session =
     c\<lparr>next_link := Some (link_root sender session), last_timestamp := 0\<rparr>"

section \<open>The payload determines the message\<close>

definition link_ok :: "message_link \<Rightarrow> bool" where
  "link_ok l \<longleftrightarrow> in_i32 (link_index l) \<and> link_sender l < 2 ^ 128 \<and> link_session l < 2 ^ 128"

definition body_ok :: "message_body \<Rightarrow> bool" where
  "body_ok b \<longleftrightarrow> in_i64 (salt b) \<and> length (body_content b) < 2 ^ 31 \<and>
     length (body_last_seen b) < 2 ^ 31 \<and> (\<forall>s \<in> set (body_last_seen b). length s = 256)"

lemma link_bytes_inject:
  assumes "link_ok l" "link_ok l'" "link_bytes l = link_bytes l'"
  shows "l = l'"
proof -
  have eqs: "be_u128 (link_sender l) = be_u128 (link_sender l')"
    "be_u128 (link_session l) = be_u128 (link_session l')"
    "be_i32 (link_index l) = be_i32 (link_index l')"
    using assms(3) by (simp_all add: link_bytes_def)
  note ok = assms(1,2) [unfolded link_ok_def]
  have "link_sender l = link_sender l'" by (rule be_u128_inject [OF _ _ eqs(1)]) (use ok in blast)+
  moreover have "link_session l = link_session l'" by (rule be_u128_inject [OF _ _ eqs(2)]) (use ok in blast)+
  moreover have "link_index l = link_index l'" by (rule be_i32_inject [OF _ _ eqs(3)]) (use ok in blast)+
  ultimately show ?thesis by simp
qed

lemma length_link_bytes [simp]: "length (link_bytes l) = 36"
  by (simp add: link_bytes_def)

lemma concat_inject:
  assumes "\<forall>s \<in> set xs. length s = n" "\<forall>s \<in> set ys. length s = n" "length xs = length ys"
    and "concat xs = concat ys"
  shows "xs = ys"
proof -
  have "\<forall>(x, y) \<in> set (zip xs ys). length x = length y"
    using assms(1,2) by (auto elim!: in_set_zipE)
  then show ?thesis using concat_injective [OF assms(4,3)] by simp
qed

lemma in_i32_length: "n < 2 ^ 31 \<Longrightarrow> in_i32 (int n)"
  by (simp add: in_i32_def)

lemma be_i32_length_inject:
  assumes "n < 2 ^ 31" "m < 2 ^ 31" "be_i32 (wrap_i32 (int n)) = be_i32 (wrap_i32 (int m))"
  shows "n = m"
proof -
  have "in_i32 (int n)" "in_i32 (int m)" by (rule in_i32_length, rule assms)+
  then have "int n = int m" using assms(3) be_i32_inject [of "int n" "int m"] by simp
  then show ?thesis by simp
qed

lemma last_seen_bytes_inject:
  assumes "length xs < 2 ^ 31" "length ys < 2 ^ 31" "\<forall>s \<in> set xs. length s = 256" "\<forall>s \<in> set ys. length s = 256"
    and "last_seen_bytes xs = last_seen_bytes ys"
  shows "xs = ys"
proof -
  have eqs: "be_i32 (wrap_i32 (int (length xs))) = be_i32 (wrap_i32 (int (length ys)))" "concat xs = concat ys"
    using assms(5) by (simp_all add: last_seen_bytes_def)
  show ?thesis
    by (rule concat_inject [OF assms(3,4) be_i32_length_inject [OF assms(1,2) eqs(1)] eqs(2)])
qed

lemma in_i64_epoch: "in_i64 (epoch_seconds t)"
  by (simp add: epoch_seconds_def)

lemma body_bytes_inject:
  assumes "body_ok b" "body_ok b'" "body_bytes b = body_bytes b'"
  shows "salt b = salt b' \<and> epoch_seconds (time_stamp b) = epoch_seconds (time_stamp b') \<and>
    body_content b = body_content b' \<and> body_last_seen b = body_last_seen b'"
proof -
  have eqs: "be_i64 (salt b) = be_i64 (salt b')"
    "be_i64 (epoch_seconds (time_stamp b)) = be_i64 (epoch_seconds (time_stamp b'))"
    "be_i32 (wrap_i32 (int (length (body_content b)))) = be_i32 (wrap_i32 (int (length (body_content b'))))"
    "body_content b @ last_seen_bytes (body_last_seen b) = body_content b' @ last_seen_bytes (body_last_seen b')"
    using assms(3) by (simp_all add: body_bytes_def)
  note ok = assms(1,2) [unfolded body_ok_def]
  have "salt b = salt b'" by (rule be_i64_inject [OF _ _ eqs(1)]) (use ok in blast)+
  moreover have "epoch_seconds (time_stamp b) = epoch_seconds (time_stamp b')"
    by (rule be_i64_inject [OF in_i64_epoch in_i64_epoch eqs(2)])
  moreover have "length (body_content b) = length (body_content b')"
    by (rule be_i32_length_inject [OF _ _ eqs(3)]) (use ok in blast)+
  moreover from this have c: "body_content b = body_content b'" "last_seen_bytes (body_last_seen b) = last_seen_bytes (body_last_seen b')"
    using eqs(4) by simp_all
  moreover have "body_last_seen b = body_last_seen b'"
    by (rule last_seen_bytes_inject [OF _ _ _ _ c(2)]) (use ok in blast)+
  ultimately show ?thesis by blast
qed

lemma signature_payload_inject:
  assumes "link_ok l" "link_ok l'" "body_ok b" "body_ok b'"
    and "signature_payload l b = signature_payload l' b'"
  shows "l = l'" and "body_content b = body_content b' \<and> salt b = salt b' \<and>
     epoch_seconds (time_stamp b) = epoch_seconds (time_stamp b') \<and> body_last_seen b = body_last_seen b'"
proof -
  have "link_bytes l = link_bytes l'" "body_bytes b = body_bytes b'"
    using assms(5) by (simp_all add: signature_payload_def)
  then show "l = l'" and "body_content b = body_content b' \<and> salt b = salt b' \<and>
     epoch_seconds (time_stamp b) = epoch_seconds (time_stamp b') \<and> body_last_seen b = body_last_seen b'"
    using link_bytes_inject [OF assms(1,2)] body_bytes_inject [OF assms(3,4)] by blast+
qed

section \<open>Runs of a chain\<close>

fun validate_all ::
  "message_chain \<Rightarrow> message_body list \<Rightarrow> (chain_error + message_link) list \<times> message_chain" where
  "validate_all c [] = ([], c)"
| "validate_all c (b # bs) =
     (case validate_and_advance c b of
        (r, c1) \<Rightarrow> (case validate_all c1 bs of (rs, c2) \<Rightarrow> (r # rs, c2)))"

text \<open>The links that a run accepts, and what the rest of the run looks like after an error.\<close>

definition accepted :: "(chain_error + message_link) list \<Rightarrow> message_link list" where
  "accepted rs = [l. Inr l \<leftarrow> rs]"

lemma accepted_simps [simp]:
  "accepted [] = []" "accepted (Inl e # rs) = accepted rs" "accepted (Inr l # rs) = l # accepted rs"
  by (simp_all add: accepted_def)

lemma broken_rejects:
  "next_link c = None \<Longrightarrow> validate_all c bs = (replicate (length bs) (Inl ChainBroken), c)"
  by (induction bs) (simp_all add: validate_and_advance_def)

lemma accepted_broken: "accepted (replicate n (Inl ChainBroken)) = []"
  by (induction n) simp_all

text \<open>Consecutive indices from a start, all with the same sender and session.\<close>

definition consecutive_links :: "message_link \<Rightarrow> nat \<Rightarrow> message_link list" where
  "consecutive_links l n = map (\<lambda>i. l\<lparr>link_index := link_index l + int i\<rparr>) [0..<n]"

lemma consecutive_links_Suc:
  "consecutive_links l (Suc n) = l # consecutive_links (l\<lparr>link_index := link_index l + 1\<rparr>) n"
proof -
  have "[0..<Suc n] = 0 # map Suc [0..<n]"
    by (simp add: upt_conv_Cons map_Suc_upt del: upt_Suc)
  then show ?thesis by (simp add: consecutive_links_def comp_def del: upt_Suc)
qed

lemma accepted_consecutive:
  assumes "next_link c = Some l" and "link_index l \<le> 2 ^ 31 - 1"
  shows "\<exists>n \<le> length bs. accepted (fst (validate_all c bs)) = consecutive_links l n \<and>
     (n > 0 \<longrightarrow> link_index l + int n \<le> 2 ^ 31)"
  using assms
proof (induction bs arbitrary: c l)
  case Nil
  then show ?case by (simp add: consecutive_links_def)
next
  case (Cons b bs)
  show ?case
  proof (cases "time_stamp b < last_timestamp c")
    case True
    then have "accepted (fst (validate_all c (b # bs))) = []"
      using Cons.prems(1) broken_rejects [of "break_chain c" bs]
      by (simp add: validate_and_advance_def break_chain_def accepted_broken)
    then show ?thesis by (intro exI [of _ 0]) (simp add: consecutive_links_def)
  next
    case False
    let ?c = "c\<lparr>last_timestamp := time_stamp b, next_link := link_advance l\<rparr>"
    have step: "accepted (fst (validate_all c (b # bs))) = l # accepted (fst (validate_all ?c bs))"
      using Cons.prems(1) False by (simp add: validate_and_advance_def split_beta)
    show ?thesis
    proof (cases "link_index l = 2 ^ 31 - 1")
      case True
      then have "accepted (fst (validate_all ?c bs)) = []"
        using broken_rejects [of ?c bs] by (simp add: link_advance_def accepted_broken)
      then have "accepted (fst (validate_all c (b # bs))) = consecutive_links l (Suc 0)"
        using step by (simp add: consecutive_links_def)
      then show ?thesis using True by (intro exI [of _ "Suc 0"]) simp
    next
      case False
      let ?l = "l\<lparr>link_index := link_index l + 1\<rparr>"
      have "next_link ?c = Some ?l" using False by (simp add: link_advance_def)
      moreover have "link_index ?l \<le> 2 ^ 31 - 1" using False Cons.prems(2) by simp
      ultimately obtain n where n: "n \<le> length bs" "accepted (fst (validate_all ?c bs)) = consecutive_links ?l n"
        "n > 0 \<longrightarrow> link_index ?l + int n \<le> 2 ^ 31"
        using Cons.IH [of ?c ?l] by blast
      have "accepted (fst (validate_all c (b # bs))) = consecutive_links l (Suc n)"
        using step n(2) by (simp only: consecutive_links_Suc)
      moreover have "link_index l + int (Suc n) \<le> 2 ^ 31"
        using n(3) Cons.prems(2) False by (cases "n = 0") simp_all
      ultimately show ?thesis using n(1) by (intro exI [of _ "Suc n"]) simp
    qed
  qed
qed

end
