(* ===== verification/ChatCache.thy ===== *)
theory ChatCache
  imports ChatChain
begin

text \<open>
  What each player keeps of the signatures that went past: the 128 most recent ones, by whose index
  a chat packet refers to earlier messages (\<open>signature_cache.rs\<close>), the window of messages the
  client still has to acknowledge (\<open>message_validator.rs\<close>) and the counters that throttle
  (\<open>spam_throttler.rs\<close>). The cache is compared with the fixed array of the protocol's reference
  algorithm, which the source quotes in a comment.
\<close>

section \<open>Signature cache\<close>

definition MAX_CACHED_SIGNATURES :: nat where "MAX_CACHED_SIGNATURES = 128"
definition MAX_PREVIOUS_MESSAGES :: nat where "MAX_PREVIOUS_MESSAGES = 20"

record message_cache =
  full_cache :: "signature list"
  seen_signatures :: "signature list"

definition message_cache_new :: message_cache where
  "message_cache_new = \<lparr>full_cache = [], seen_signatures = []\<rparr>"

definition ack_bit :: "u8 list \<Rightarrow> nat \<Rightarrow> bool" where
  "ack_bit a i \<longleftrightarrow> (a ! (i div 8)) AND push_bit (i mod 8) 1 \<noteq> 0"

fun unpack_from :: "signature list \<Rightarrow> u8 list \<Rightarrow> nat list \<Rightarrow> signature list option" where
  "unpack_from cache a [] = Some []"
| "unpack_from cache a (i # is) =
     (if \<not> ack_bit a i then unpack_from cache a is
      else if i \<ge> length cache then None
      else map_option ((#) (cache ! i)) (unpack_from cache a is))"

definition unpack_acknowledged :: "message_cache \<Rightarrow> int \<Rightarrow> u8 list \<Rightarrow> signature list option" where
  "unpack_acknowledged c offset a = unpack_from (full_cache c) a [0..<MAX_PREVIOUS_MESSAGES]"

fun cache_each :: "signature list \<Rightarrow> signature list \<Rightarrow> signature list" where
  "cache_each cache [] = cache"
| "cache_each cache (s # ss) =
     (if s \<in> set cache then cache_each cache ss
      else if length cache < MAX_CACHED_SIGNATURES then cache_each (cache @ [s]) ss
      else cache_each cache ss)"

definition cache_signatures :: "message_cache \<Rightarrow> signature list \<Rightarrow> message_cache" where
  "cache_signatures c ss = c\<lparr>full_cache := cache_each (full_cache c) (rev ss)\<rparr>"

function pop_to_room :: "signature list \<Rightarrow> signature list" where
  "pop_to_room cache =
     (if length cache \<ge> MAX_CACHED_SIGNATURES then pop_to_room (butlast cache) else cache)"
  by auto
termination
  by (relation "measure length") (auto simp: MAX_CACHED_SIGNATURES_def)

declare pop_to_room.simps [simp del]

definition add_seen_signature :: "message_cache \<Rightarrow> signature \<Rightarrow> message_cache" where
  "add_seen_signature c s =
     \<lparr>full_cache = s # pop_to_room (full_cache c),
      seen_signatures =
        (if length (seen_signatures c) \<ge> MAX_PREVIOUS_MESSAGES then drop 1 (seen_signatures c)
         else seen_signatures c) @ [s]\<rparr>"

text \<open>The deque is a list from front to back: \<open>pop_back\<close> takes \<open>last\<close>, \<open>push_front\<close> conses.\<close>

function push_loop ::
  "signature list \<Rightarrow> signature list \<Rightarrow> signature list \<Rightarrow> nat \<Rightarrow> signature list \<Rightarrow> signature list" where
  "push_loop pushed old dq i new =
     (if dq = [] \<or> i \<ge> MAX_CACHED_SIGNATURES then new
      else push_loop pushed old
             (if i < length old \<and> old ! i \<notin> set pushed then old ! i # butlast dq else butlast dq)
             (Suc i) (new @ [last dq]))"
  by auto
termination
  by (relation "measure (\<lambda>(_, _, _, i, _). MAX_CACHED_SIGNATURES - i)") auto

declare push_loop.simps [simp del]

definition pushed_signatures :: "signature list \<Rightarrow> signature option \<Rightarrow> signature list" where
  "pushed_signatures last_seen current = last_seen @ (case current of None \<Rightarrow> [] | Some s \<Rightarrow> [s])"

definition cache_push :: "message_cache \<Rightarrow> signature list \<Rightarrow> signature option \<Rightarrow> message_cache" where
  "cache_push c last_seen current =
     (let dq = pushed_signatures last_seen current in
      c\<lparr>full_cache := push_loop dq (full_cache c) dq 0 []\<rparr>)"

record previous_message =
  prev_id :: int
  prev_signature :: "signature option"

fun position_of :: "'a \<Rightarrow> 'a list \<Rightarrow> nat option" where
  "position_of x [] = None"
| "position_of x (y # ys) = (if y = x then Some 0 else map_option Suc (position_of x ys))"

definition index_previous_messages :: "message_cache \<Rightarrow> signature list \<Rightarrow> previous_message list" where
  "index_previous_messages c ss =
     map (\<lambda>s. case position_of s (full_cache c) of
                Some i \<Rightarrow> \<lparr>prev_id = 1 + wrap_i32 (int i), prev_signature = None\<rparr>
              | None \<Rightarrow> \<lparr>prev_id = 0, prev_signature = Some s\<rparr>) ss"

section \<open>The reference algorithm on a fixed array\<close>

text \<open>
  \<open>vanilla_push\<close> is the algorithm in the comment of \<open>push\<close>, on an array of 128 entries that are
  null or a signature: it only overwrites the entries it visits.
\<close>

function vanilla_loop ::
  "signature list \<Rightarrow> signature list \<Rightarrow> nat \<Rightarrow> signature option list \<Rightarrow> signature option list" where
  "vanilla_loop pushed dq i entries =
     (if dq = [] \<or> i \<ge> length entries then entries
      else vanilla_loop pushed
             (case entries ! i of
                Some old \<Rightarrow> if old \<notin> set pushed then old # butlast dq else butlast dq
              | None \<Rightarrow> butlast dq)
             (Suc i) (entries[i := Some (last dq)]))"
  by auto
termination
  by (relation "measure (\<lambda>(_, _, i, entries). length entries - i)") auto

declare vanilla_loop.simps [simp del]

definition vanilla_push :: "signature list \<Rightarrow> signature option list \<Rightarrow> signature option list" where
  "vanilla_push pushed entries = vanilla_loop pushed pushed 0 entries"

text \<open>The array a cache stands for.\<close>

definition entries_of :: "signature list \<Rightarrow> signature option list" where
  "entries_of cache = map Some cache @ replicate (MAX_CACHED_SIGNATURES - length cache) None"

text \<open>How a client reads an entry of \<open>previous_messages\<close> with its array.\<close>

definition read_previous :: "signature option list \<Rightarrow> previous_message \<Rightarrow> signature option" where
  "read_previous entries p =
     (if prev_id p = 0 then prev_signature p
      else if 1 \<le> prev_id p \<and> nat (prev_id p) \<le> length entries then entries ! nat (prev_id p - 1)
      else None)"

lemma length_entries [simp]:
  "length cache \<le> MAX_CACHED_SIGNATURES \<Longrightarrow> length (entries_of cache) = MAX_CACHED_SIGNATURES"
  by (simp add: entries_of_def)

lemma entries_nth:
  "i < MAX_CACHED_SIGNATURES \<Longrightarrow>
     entries_of cache ! i = (if i < length cache then Some (cache ! i) else None)"
  by (auto simp: entries_of_def nth_append)

section \<open>What a push leaves\<close>

text \<open>What the first \<open>i\<close> old entries contribute, and the pushed signatures before them.\<close>

definition push_stream :: "signature list \<Rightarrow> signature list \<Rightarrow> nat \<Rightarrow> signature list" where
  "push_stream pushed old i = rev pushed @ filter (\<lambda>s. s \<notin> set pushed) (take i old)"

lemma push_stream_Suc:
  "push_stream pushed old (Suc i) =
     push_stream pushed old i @ (if i < length old \<and> old ! i \<notin> set pushed then [old ! i] else [])"
  by (cases "i < length old") (simp_all add: push_stream_def take_Suc_conv_app_nth)

lemma push_loop_content:
  assumes "new @ rev dq = push_stream pushed old i" "i = length new" "i \<le> MAX_CACHED_SIGNATURES"
  shows "\<exists>j \<le> MAX_CACHED_SIGNATURES. length (push_loop pushed old dq i new) = j \<and>
     push_loop pushed old dq i new = take j (push_stream pushed old j) \<and>
     (j < MAX_CACHED_SIGNATURES \<longrightarrow> length (push_stream pushed old j) = j)"
  using assms
proof (induction pushed old dq i new rule: push_loop.induct)
  case (1 pushed old dq i new)
  show ?case
  proof (cases "dq = [] \<or> i \<ge> MAX_CACHED_SIGNATURES")
    case True
    then have "push_loop pushed old dq i new = new" by (simp add: push_loop.simps [of pushed old dq])
    moreover have "new = take i (push_stream pushed old i)"
      unfolding "1.prems"(1) [symmetric] using "1.prems"(2) by simp
    moreover have "i < MAX_CACHED_SIGNATURES \<longrightarrow> length (push_stream pushed old i) = i"
      unfolding "1.prems"(1) [symmetric] using True "1.prems"(2) by auto
    ultimately show ?thesis using "1.prems"(2,3) by metis
  next
    case False
    let ?dq = "if i < length old \<and> old ! i \<notin> set pushed then old ! i # butlast dq else butlast dq"
    have step: "push_loop pushed old dq i new = push_loop pushed old ?dq (Suc i) (new @ [last dq])"
      using False by (simp add: push_loop.simps [of pushed old dq])
    have dq: "rev dq = last dq # rev (butlast dq)"
      using False by (metis append_butlast_last_id rev_eq_Cons_iff rev_rev_ident)
    have "(new @ [last dq]) @ rev ?dq = push_stream pushed old (Suc i)"
      by (simp add: push_stream_Suc "1.prems"(1) [symmetric] dq)
    moreover have "Suc i = length (new @ [last dq])" "Suc i \<le> MAX_CACHED_SIGNATURES"
      using False "1.prems"(2) by simp_all
    ultimately show ?thesis unfolding step by (rule "1.IH" [OF False])
  qed
qed

lemma filter_count:
  assumes "distinct old"
  shows "length (filter (\<lambda>s. s \<in> set pushed) (take j old)) = card (set pushed \<inter> set (take j old))"
proof -
  have "distinct (filter (\<lambda>s. s \<in> set pushed) (take j old))" using assms by simp
  moreover have "set (filter (\<lambda>s. s \<in> set pushed) (take j old)) = set pushed \<inter> set (take j old)"
    by auto
  ultimately show ?thesis by (metis distinct_card)
qed

text \<open>
  If one of the pushed signatures is not cached yet, the loop outlasts the old cache: it leaves the
  pushed signatures, latest first, and then the others in their old order, cut at 128.
\<close>

lemma push_loop_full:
  assumes "distinct old" "distinct pushed" "length old \<le> MAX_CACHED_SIGNATURES"
    and "\<exists>s \<in> set pushed. s \<notin> set old"
  shows "push_loop pushed old pushed 0 [] =
      take MAX_CACHED_SIGNATURES (rev pushed @ filter (\<lambda>s. s \<notin> set pushed) old)"
    and "length old \<le> length (push_loop pushed old pushed 0 [])"
proof -
  have "[] @ rev pushed = push_stream pushed old 0" by (simp add: push_stream_def)
  note content = push_loop_content [OF this]
  obtain j where j: "j \<le> MAX_CACHED_SIGNATURES"
    "length (push_loop pushed old pushed 0 []) = j"
    "push_loop pushed old pushed 0 [] = take j (push_stream pushed old j)"
    "j < MAX_CACHED_SIGNATURES \<longrightarrow> length (push_stream pushed old j) = j"
    using content by fastforce
  have old: "length old \<le> j"
  proof (rule ccontr)
    assume *: "\<not> length old \<le> j"
    then have j2: "length pushed + length (filter (\<lambda>s. s \<notin> set pushed) (take j old)) = j"
      using j(4) assms(3) by (simp add: push_stream_def)
    moreover have "length (filter (\<lambda>s. s \<in> set pushed) (take j old))
        + length (filter (\<lambda>s. s \<notin> set pushed) (take j old)) = length (take j old)"
      by (rule sum_length_filter_compl)
    ultimately have "length pushed = card (set pushed \<inter> set (take j old))"
      using * by (simp add: filter_count [OF assms(1)])
    moreover have "card (set pushed \<inter> set (take j old)) < card (set pushed)"
      using assms(4) by (intro psubset_card_mono) (auto dest: in_set_takeD)
    ultimately show False using distinct_card [OF assms(2)] by simp
  qed
  then show "length old \<le> length (push_loop pushed old pushed 0 [])" using j(2) by simp
  show "push_loop pushed old pushed 0 [] =
      take MAX_CACHED_SIGNATURES (rev pushed @ filter (\<lambda>s. s \<notin> set pushed) old)"
  proof (cases "j < MAX_CACHED_SIGNATURES")
    case True
    then show ?thesis using j(3,4) old by (simp add: push_stream_def)
  next
    case False
    then show ?thesis using j(1,3) old by (simp add: push_stream_def)
  qed
qed

section \<open>Agreement with the reference\<close>

text \<open>
  The two loops make the same writes: the array is the new cache followed by what the loop did not
  reach.
\<close>

lemma vanilla_loop_push_loop:
  assumes "i = length new" "i \<le> MAX_CACHED_SIGNATURES" "length old \<le> MAX_CACHED_SIGNATURES"
  shows "vanilla_loop pushed dq i (map Some new @ drop i (entries_of old)) =
     map Some (push_loop pushed old dq i new)
       @ drop (length (push_loop pushed old dq i new)) (entries_of old)"
  using assms
proof (induction pushed old dq i new rule: push_loop.induct)
  case (1 pushed old dq i new)
  have len: "length (map Some new @ drop i (entries_of old)) = MAX_CACHED_SIGNATURES"
    using "1.prems" by simp
  show ?case
  proof (cases "dq = [] \<or> i \<ge> MAX_CACHED_SIGNATURES")
    case True
    then show ?thesis
      using "1.prems"(1) len
      by (simp add: push_loop.simps [of pushed old dq] vanilla_loop.simps [of pushed dq])
  next
    case False
    let ?e = "map Some new @ drop i (entries_of old)"
    let ?dq = "if i < length old \<and> old ! i \<notin> set pushed then old ! i # butlast dq else butlast dq"
    have i: "i < length (entries_of old)" using False "1.prems"(3) by simp
    then have split: "drop i (entries_of old) = entries_of old ! i # drop (Suc i) (entries_of old)"
      by (simp add: Cons_nth_drop_Suc)
    have nth: "?e ! i = (if i < length old then Some (old ! i) else None)"
      using "1.prems"(1) False split by (simp add: nth_append entries_nth)
    have upd: "?e[i := Some (last dq)] = map Some (new @ [last dq]) @ drop (Suc i) (entries_of old)"
      using "1.prems"(1) split by (simp add: list_update_append)
    have "vanilla_loop pushed dq i ?e = vanilla_loop pushed ?dq (Suc i) (?e[i := Some (last dq)])"
      unfolding vanilla_loop.simps [of pushed dq i ?e] len nth using False by simp
    moreover have "push_loop pushed old dq i new = push_loop pushed old ?dq (Suc i) (new @ [last dq])"
      using False by (simp add: push_loop.simps [of pushed old dq])
    ultimately show ?thesis
      using "1.IH" [OF False] False "1.prems" unfolding upd by simp
  qed
qed

lemma vanilla_push_cache:
  assumes "length (full_cache c) \<le> MAX_CACHED_SIGNATURES"
  shows "vanilla_push (pushed_signatures ls cur) (entries_of (full_cache c)) =
     map Some (full_cache (cache_push c ls cur))
       @ drop (length (full_cache (cache_push c ls cur))) (entries_of (full_cache c))"
  using vanilla_loop_push_loop [of 0 "[]" "full_cache c"] assms
  by (simp add: vanilla_push_def cache_push_def Let_def)

lemma cache_push_length:
  "length (full_cache (cache_push c ls cur)) \<le> MAX_CACHED_SIGNATURES"
proof -
  let ?p = "pushed_signatures ls cur"
  have "[] @ rev ?p = push_stream ?p (full_cache c) 0" by (simp add: push_stream_def)
  from push_loop_content [OF this] show ?thesis by (auto simp: cache_push_def Let_def)
qed

lemma cache_push_agrees:
  assumes "length (full_cache c) \<le> MAX_CACHED_SIGNATURES"
    and "length (full_cache c) \<le> length (full_cache (cache_push c ls cur))"
  shows "vanilla_push (pushed_signatures ls cur) (entries_of (full_cache c)) =
     entries_of (full_cache (cache_push c ls cur))"
  unfolding vanilla_push_cache [OF assms(1)]
  using assms by (simp add: entries_of_def [of "full_cache c"] entries_of_def [of "full_cache (cache_push c ls cur)"])

section \<open>References to cached signatures\<close>

lemma position_of_Some:
  "position_of x xs = Some i \<Longrightarrow> i < length xs \<and> xs ! i = x"
  by (induction xs arbitrary: i) (auto split: if_splits)

lemma position_of_None: "position_of x xs = None \<longleftrightarrow> x \<notin> set xs"
  by (induction xs) auto

lemma read_index:
  assumes "length (full_cache c) \<le> MAX_CACHED_SIGNATURES"
  shows "map (read_previous (entries_of (full_cache c))) (index_previous_messages c ss) = map Some ss"
proof -
  have "read_previous (entries_of (full_cache c))
      (case position_of s (full_cache c) of
         Some i \<Rightarrow> \<lparr>prev_id = 1 + wrap_i32 (int i), prev_signature = None\<rparr>
       | None \<Rightarrow> \<lparr>prev_id = 0, prev_signature = Some s\<rparr>) = Some s" for s
  proof (cases "position_of s (full_cache c)")
    case None
    then show ?thesis by (simp add: read_previous_def)
  next
    case (Some i)
    then have i: "i < length (full_cache c)" "full_cache c ! i = s"
      using position_of_Some by metis+
    then have "i < 128" using assms by (simp add: MAX_CACHED_SIGNATURES_def)
    then have "wrap_i32 (int i) = int i" by (intro wrap_i32_id) (simp add: in_i32_def)
    then show ?thesis
      using Some i assms by (simp add: read_previous_def entries_nth)
  qed
  then show ?thesis by (simp add: index_previous_messages_def)
qed

end
