(* ===== verification/ChatWindow.thy ===== *)
theory ChatWindow
  imports ChatCache
begin

text \<open>
  The window of messages the client has to acknowledge (\<open>message_validator.rs\<close>) and the leaky
  counters that throttle chat, commands and drops (\<open>spam_throttler.rs\<close>). An error of the validator
  leaves the window as far as it was changed, so every operation returns the window beside its result.
\<close>

section \<open>Acknowledgement window\<close>

definition MAX_TRACKED_MESSAGES :: nat where "MAX_TRACKED_MESSAGES = 20"

record tracked_entry =
  entry_signature :: "signature option"
  entry_pending :: bool

definition acknowledge :: "tracked_entry \<Rightarrow> tracked_entry" where
  "acknowledge e = \<lparr>entry_signature = entry_signature e, entry_pending = False\<rparr>"

record message_validator =
  tracked_messages :: "tracked_entry option list"
  last_pending_signature :: "signature option"

datatype window_error =
    AdvancedBy int nat
  | AcknowledgedUnknown nat
  | IgnoredAcknowledged nat

definition validator_new :: message_validator where
  "validator_new =
     \<lparr>tracked_messages = replicate MAX_TRACKED_MESSAGES None, last_pending_signature = None\<rparr>"

definition add_pending :: "message_validator \<Rightarrow> signature option \<Rightarrow> message_validator" where
  "add_pending v s =
     (if s \<noteq> last_pending_signature v then
        \<lparr>tracked_messages =
           tracked_messages v @ [Some \<lparr>entry_signature = s, entry_pending = True\<rparr>],
         last_pending_signature = s\<rparr>
      else v)"

definition tracked_count :: "message_validator \<Rightarrow> nat" where
  "tracked_count v = length (tracked_messages v)"

definition apply_offset ::
  "message_validator \<Rightarrow> int \<Rightarrow> (window_error + unit) \<times> message_validator" where
  "apply_offset v offset =
     (let removable = length (tracked_messages v) - MAX_TRACKED_MESSAGES in
      if offset < 0 \<or> nat offset > removable then (Inl (AdvancedBy offset removable), v)
      else (Inr (), v\<lparr>tracked_messages := drop (nat offset) (tracked_messages v)\<rparr>))"

text \<open>The loop over the window, at index \<open>i\<close>, with the signatures acknowledged so far.\<close>

function update_loop ::
  "u8 list \<Rightarrow> nat \<Rightarrow> tracked_entry option list \<Rightarrow> signature list
     \<Rightarrow> (window_error + signature list) \<times> tracked_entry option list" where
  "update_loop a i ts acked =
     (if i \<ge> min MAX_TRACKED_MESSAGES (length ts) then (Inr acked, ts)
      else if ack_bit a i then
        (case ts ! i of
           Some e \<Rightarrow>
             update_loop a (Suc i) (ts[i := Some (acknowledge e)])
               (case entry_signature e of Some s \<Rightarrow> acked @ [s] | None \<Rightarrow> acked)
         | None \<Rightarrow> (Inl (AcknowledgedUnknown i), ts))
      else
        (case ts ! i of
           Some e \<Rightarrow>
             if \<not> entry_pending e then (Inl (IgnoredAcknowledged i), ts)
             else update_loop a (Suc i) (ts[i := None]) acked
         | None \<Rightarrow> update_loop a (Suc i) (ts[i := None]) acked))"
  by auto
termination
  by (relation "measure (\<lambda>(a, i, ts, acked). MAX_TRACKED_MESSAGES - i)") auto

declare update_loop.simps [simp del]

definition apply_update ::
  "message_validator \<Rightarrow> u8 list \<Rightarrow> int \<Rightarrow> u8
     \<Rightarrow> (window_error + signature list) \<times> message_validator" where
  "apply_update v a offset checksum =
     (case apply_offset v offset of
        (Inl e, v') \<Rightarrow> (Inl e, v')
      | (Inr _, v') \<Rightarrow>
          (case update_loop a 0 (tracked_messages v') [] of
             (r, ts) \<Rightarrow> (r, v'\<lparr>tracked_messages := ts\<rparr>)))"

section \<open>What an update does\<close>

text \<open>What the client may say of an entry, and what becomes of the entry.\<close>

definition ack_allowed :: "bool \<Rightarrow> tracked_entry option \<Rightarrow> bool" where
  "ack_allowed b t \<longleftrightarrow>
     (if b then t \<noteq> None else (case t of Some e \<Rightarrow> entry_pending e | None \<Rightarrow> True))"

definition ack_entry :: "bool \<Rightarrow> tracked_entry option \<Rightarrow> tracked_entry option" where
  "ack_entry b t = (if b then map_option acknowledge t else None)"

definition ack_signatures :: "u8 list \<Rightarrow> nat \<Rightarrow> nat \<Rightarrow> tracked_entry option list \<Rightarrow> signature list" where
  "ack_signatures a i n ts =
     concat (map (\<lambda>k. case (if ack_bit a k then Option.bind (ts ! k) entry_signature else None) of
                   Some s \<Rightarrow> [s] | None \<Rightarrow> []) [i..<n])"

lemma ack_signatures_step:
  "i < n \<Longrightarrow> ack_signatures a i n ts =
     (case (if ack_bit a i then Option.bind (ts ! i) entry_signature else None) of
        Some s \<Rightarrow> [s] | None \<Rightarrow> []) @ ack_signatures a (Suc i) n ts"
  by (simp add: ack_signatures_def upt_conv_Cons)

lemma ack_signatures_cong:
  "(\<And>k. i \<le> k \<Longrightarrow> ts ! k = ts' ! k) \<Longrightarrow> ack_signatures a i n ts = ack_signatures a i n ts'"
  unfolding ack_signatures_def by (intro arg_cong [where f = concat] map_cong refl) simp

lemma update_loop_ok:
  assumes "\<forall>k. i \<le> k \<and> k < min MAX_TRACKED_MESSAGES (length ts) \<longrightarrow> ack_allowed (ack_bit a k) (ts ! k)"
  shows "update_loop a i ts acked =
     (Inr (acked @ ack_signatures a i (min MAX_TRACKED_MESSAGES (length ts)) ts),
      map (\<lambda>k. if i \<le> k \<and> k < min MAX_TRACKED_MESSAGES (length ts) then ack_entry (ack_bit a k) (ts ! k)
                else ts ! k) [0..<length ts])"
  using assms
proof (induction a i ts acked rule: update_loop.induct)
  case (1 a i ts acked)
  let ?n = "min MAX_TRACKED_MESSAGES (length ts)"
  show ?case
  proof (cases "i \<ge> ?n")
    case True
    then show ?thesis
      by (subst update_loop.simps) (auto simp: ack_signatures_def intro!: nth_equalityI)
  next
    case False
    let ?t = "ack_entry (ack_bit a i) (ts ! i)"
    let ?acked = "acked @ (case (if ack_bit a i then Option.bind (ts ! i) entry_signature else None) of
        Some s \<Rightarrow> [s] | None \<Rightarrow> [])"
    have i: "i < ?n" using False by (simp only: not_le)
    have ok: "ack_allowed (ack_bit a i) (ts ! i)" using "1.prems" False by auto
    have rec: "\<forall>k. Suc i \<le> k \<and> k < min MAX_TRACKED_MESSAGES (length (ts[i := t])) \<longrightarrow>
        ack_allowed (ack_bit a k) (ts[i := t] ! k)" for t
      using "1.prems" by simp
    have step: "update_loop a i ts acked = update_loop a (Suc i) (ts[i := ?t]) ?acked"
      using False ok by (subst update_loop.simps)
        (auto simp: ack_allowed_def ack_entry_def split: option.splits)
    have "update_loop a (Suc i) (ts[i := ?t]) ?acked =
       (Inr (?acked @ ack_signatures a (Suc i) ?n (ts[i := ?t])),
        map (\<lambda>k. if Suc i \<le> k \<and> k < ?n then ack_entry (ack_bit a k) (ts[i := ?t] ! k)
                  else ts[i := ?t] ! k) [0..<length ts])"
    proof (cases "ack_bit a i")
      case True
      then obtain e where "ts ! i = Some e" using ok by (auto simp: ack_allowed_def)
      then show ?thesis
        using "1.IH"(1) [OF False True, of e] rec True
        by (cases "entry_signature e") (simp_all add: ack_entry_def)
    next
      case ack: False
      show ?thesis
      proof (cases "ts ! i")
        case None
        have t: "?t = None" using ack by (simp add: ack_entry_def)
        show ?thesis unfolding t using "1.IH"(2) [OF False ack None] rec ack by simp
      next
        case (Some e)
        have t: "?t = None" using ack by (simp add: ack_entry_def)
        show ?thesis unfolding t using "1.IH"(3) [OF False ack Some] rec ack ok Some
          by (simp add: ack_allowed_def)
      qed
    qed
    also have "ack_signatures a (Suc i) ?n (ts[i := ?t]) = ack_signatures a (Suc i) ?n ts"
      by (rule ack_signatures_cong) simp
    finally have fin: "update_loop a i ts acked =
       (Inr (?acked @ ack_signatures a (Suc i) ?n ts),
        map (\<lambda>k. if Suc i \<le> k \<and> k < ?n then ack_entry (ack_bit a k) (ts[i := ?t] ! k)
                  else ts[i := ?t] ! k) [0..<length ts])"
      unfolding step .
    moreover have "?acked @ ack_signatures a (Suc i) ?n ts = acked @ ack_signatures a i ?n ts"
      unfolding ack_signatures_step [OF i] by (simp only: append_assoc)
    moreover have "map (\<lambda>k. if Suc i \<le> k \<and> k < ?n then ack_entry (ack_bit a k) (ts[i := ?t] ! k)
                  else ts[i := ?t] ! k) [0..<length ts] =
       map (\<lambda>k. if i \<le> k \<and> k < ?n then ack_entry (ack_bit a k) (ts ! k) else ts ! k) [0..<length ts]"
      using False by (intro nth_equalityI) (auto simp: nth_list_update)
    ultimately show ?thesis by (simp only:)
  qed
qed

lemma update_loop_error:
  assumes "i \<le> k" "k < min MAX_TRACKED_MESSAGES (length ts)" "\<not> ack_allowed (ack_bit a k) (ts ! k)"
  shows "\<exists>e. fst (update_loop a i ts acked) = Inl e"
  using assms
proof (induction a i ts acked rule: update_loop.induct)
  case (1 a i ts acked)
  show ?case
  proof (cases "i = k")
    case True
    then show ?thesis
      using "1.prems" by (subst update_loop.simps) (auto simp: ack_allowed_def split: option.splits)
  next
    case False
    then have ik: "Suc i \<le> k" "\<not> i \<ge> min MAX_TRACKED_MESSAGES (length ts)" using "1.prems" by auto
    then have upd: "ts[i := t] ! k = ts ! k" for t by simp
    note IH = "1.IH" [OF ik(2)]
    show ?thesis
      by (subst update_loop.simps)
        (use IH ik upd "1.prems" in \<open>auto split: option.splits\<close>)
  qed
qed

lemma update_loop_length: "length (snd (update_loop a i ts acked)) = length ts"
proof (induction a i ts acked rule: update_loop.induct)
  case (1 a i ts acked)
  then show ?case
    by (subst update_loop.simps) (auto split: option.splits)
qed

text \<open>A window always spans at least 20 positions and only holds signatures that were sent.\<close>

definition window_inv :: "signature set \<Rightarrow> message_validator \<Rightarrow> bool" where
  "window_inv sent v \<longleftrightarrow> MAX_TRACKED_MESSAGES \<le> length (tracked_messages v) \<and>
     (\<forall>e s. Some e \<in> set (tracked_messages v) \<and> entry_signature e = Some s \<longrightarrow> s \<in> sent)"

lemma window_inv_new [inv_intros]: "window_inv {} validator_new"
  by (auto simp: window_inv_def validator_new_def)

lemma window_inv_mono: "window_inv sent v \<Longrightarrow> sent \<subseteq> sent' \<Longrightarrow> window_inv sent' v"
  by (auto simp: window_inv_def)

lemma window_inv_add_pending [inv_intros]:
  "window_inv sent v \<Longrightarrow> window_inv (sent \<union> set_option s) (add_pending v s)"
  by (auto simp: window_inv_def add_pending_def)

lemma apply_offset_cases:
  obtains (bad) "offset < 0 \<or> nat offset > length (tracked_messages v) - MAX_TRACKED_MESSAGES"
      "apply_offset v offset =
         (Inl (AdvancedBy offset (length (tracked_messages v) - MAX_TRACKED_MESSAGES)), v)"
  | (good) "0 \<le> offset" "nat offset \<le> length (tracked_messages v) - MAX_TRACKED_MESSAGES"
      "apply_offset v offset =
         (Inr (), v\<lparr>tracked_messages := drop (nat offset) (tracked_messages v)\<rparr>)"
proof (cases "offset < 0 \<or> nat offset > length (tracked_messages v) - MAX_TRACKED_MESSAGES")
  case True
  then show ?thesis by (intro bad) (simp_all add: apply_offset_def Let_def)
next
  case False
  then show ?thesis by (intro good) (simp_all add: apply_offset_def Let_def)
qed

lemma window_inv_apply_offset [inv_intros]:
  "window_inv sent v \<Longrightarrow> window_inv sent (snd (apply_offset v offset))"
  by (cases rule: apply_offset_cases [of offset v])
    (auto simp: window_inv_def dest: in_set_dropD)

lemma update_loop_entries:
  assumes "Some e \<in> set (snd (update_loop a i ts acked))"
  shows "\<exists>e'. Some e' \<in> set ts \<and> entry_signature e' = entry_signature e"
  using assms
proof (induction a i ts acked rule: update_loop.induct)
  case (1 a i ts acked)
  have upd: "\<exists>e'. Some e' \<in> set ts \<and> entry_signature e' = entry_signature e"
    if "\<not> i \<ge> min MAX_TRACKED_MESSAGES (length ts)"
      "\<exists>e'. Some e' \<in> set (ts[i := t]) \<and> entry_signature e' = entry_signature e"
      "t = None \<or> (\<exists>e0. ts ! i = Some e0 \<and> t = Some (acknowledge e0))" for t
  proof -
    note h = that
    obtain e' where e': "Some e' \<in> insert t (set ts)" "entry_signature e' = entry_signature e"
      using h(2) set_update_subset_insert [of ts i t] by blast
    show ?thesis
    proof (cases "Some e' = t")
      case True
      then obtain e0 where "ts ! i = Some e0" "e' = acknowledge e0" using h(3) by auto
      moreover have "ts ! i \<in> set ts" using h(1) by simp
      ultimately show ?thesis using e'(2) by (auto simp: acknowledge_def)
    next
      case False
      then show ?thesis using e' by auto
    qed
  qed
  show ?case
  proof (cases "i \<ge> min MAX_TRACKED_MESSAGES (length ts)")
    case True
    then show ?thesis using "1.prems" by (subst (asm) update_loop.simps) auto
  next
    case False
    note upd = upd [OF False]
    show ?thesis
    proof (cases "ts ! i")
      case None
      then show ?thesis
        using "1.prems" False "1.IH"(2) [OF False _ None] upd [of None]
        by (subst (asm) update_loop.simps) (simp split: if_splits; blast)
    next
      case (Some e0)
      show ?thesis
      proof (cases "ack_bit a i")
        case True
        then show ?thesis
          using "1.prems" False "1.IH"(1) [OF False True Some] upd [of "Some (acknowledge e0)"] Some
          by (subst (asm) update_loop.simps) simp
      next
        case ack: False
        have "Some e \<in> set ts \<or> Some e \<in> set (snd (update_loop a (Suc i) (ts[i := None]) acked))"
          using "1.prems" False ack Some by (subst (asm) update_loop.simps) (simp split: if_splits)
        then show ?thesis
          using "1.prems" False "1.IH"(3) [OF False ack Some] upd [of None] Some ack
          by (subst (asm) (2) update_loop.simps) (simp split: if_splits; blast)
      qed
    qed
  qed
qed

lemma window_inv_apply_update [inv_intros]:
  assumes "window_inv sent v"
  shows "window_inv sent (snd (apply_update v a offset checksum))"
proof (cases rule: apply_offset_cases [of offset v])
  case bad
  then show ?thesis using assms by (simp add: apply_update_def)
next
  case good
  let ?w = "drop (nat offset) (tracked_messages v)"
  have "window_inv sent (v\<lparr>tracked_messages := ?w\<rparr>)"
    using window_inv_apply_offset [OF assms, of offset] good(3) by simp
  moreover have "snd (apply_update v a offset checksum) =
      v\<lparr>tracked_messages := snd (update_loop a 0 ?w [])\<rparr>"
    using good(3) by (simp add: apply_update_def split: prod.splits)
  ultimately show ?thesis
    using update_loop_entries [of _ a 0 ?w "[]"] update_loop_length [of a 0 ?w "[]"]
    by (auto simp: window_inv_def) metis
qed

lemma ack_signatures_sent:
  assumes "window_inv sent v" "n \<le> length (drop m (tracked_messages v))"
  shows "set (ack_signatures a 0 n (drop m (tracked_messages v))) \<subseteq> sent"
proof -
  let ?w = "drop m (tracked_messages v)"
  have "s \<in> sent" if "k < n" "Option.bind (?w ! k) entry_signature = Some s" for k s
  proof -
    from that(2) obtain e where "?w ! k = Some e" "entry_signature e = Some s"
      by (auto simp: Option.bind_eq_Some_conv)
    moreover have "?w ! k \<in> set (tracked_messages v)"
      by (rule in_set_dropD [of _ m], rule nth_mem) (use that(1) assms(2) in simp)
    ultimately show ?thesis using assms(1) by (auto simp: window_inv_def)
  qed
  then show ?thesis by (auto simp: ack_signatures_def split: if_splits option.splits)
qed

text \<open>
  The whole update: it is accepted exactly when the offset leaves a window and no bit contradicts
  the window; then the result is what the bits select, and the window is marked accordingly.
\<close>

definition update_allowed :: "message_validator \<Rightarrow> u8 list \<Rightarrow> int \<Rightarrow> bool" where
  "update_allowed v a offset \<longleftrightarrow>
     0 \<le> offset \<and> nat offset \<le> length (tracked_messages v) - MAX_TRACKED_MESSAGES \<and>
     (\<forall>k \<in> {..<MAX_TRACKED_MESSAGES}.
        ack_allowed (ack_bit a k) (drop (nat offset) (tracked_messages v) ! k))"

lemma apply_update_accepts:
  assumes "window_inv sent v" "update_allowed v a offset"
  defines "w \<equiv> drop (nat offset) (tracked_messages v)"
  shows "apply_update v a offset checksum =
     (Inr (ack_signatures a 0 MAX_TRACKED_MESSAGES w),
      v\<lparr>tracked_messages :=
          map (\<lambda>k. if k < MAX_TRACKED_MESSAGES then ack_entry (ack_bit a k) (w ! k) else w ! k)
              [0..<length w]\<rparr>)"
proof (cases rule: apply_offset_cases [of offset v])
  case bad
  then show ?thesis using assms(2) by (auto simp: update_allowed_def)
next
  case good
  have len: "min MAX_TRACKED_MESSAGES (length w) = MAX_TRACKED_MESSAGES"
    using good(2) assms(1) by (auto simp: w_def window_inv_def)
  have "\<forall>k. 0 \<le> k \<and> k < min MAX_TRACKED_MESSAGES (length w) \<longrightarrow> ack_allowed (ack_bit a k) (w ! k)"
    using assms(2) unfolding len by (simp add: update_allowed_def w_def)
  then show ?thesis
    using update_loop_ok [of 0 w a "[]"] good(3) unfolding len by (simp add: apply_update_def w_def)
qed

lemma apply_update_rejects:
  assumes "window_inv sent v" "\<not> update_allowed v a offset"
  shows "\<exists>e. fst (apply_update v a offset checksum) = Inl e"
proof (cases rule: apply_offset_cases [of offset v])
  case bad
  then show ?thesis by (simp add: apply_update_def)
next
  case good
  let ?w = "drop (nat offset) (tracked_messages v)"
  from good assms(2) obtain k where k: "k < MAX_TRACKED_MESSAGES" "\<not> ack_allowed (ack_bit a k) (?w ! k)"
    by (auto simp: update_allowed_def)
  have "k < min MAX_TRACKED_MESSAGES (length ?w)"
    using k(1) good(2) assms(1) by (auto simp: window_inv_def)
  from update_loop_error [OF le0 this k(2)] obtain e where "fst (update_loop a 0 ?w []) = Inl e"
    by blast
  then show ?thesis
    using good(3) by (cases "update_loop a 0 ?w []") (simp add: apply_update_def)
qed

section \<open>Throttling\<close>

record tick_throttler =
  increment_step :: int
  threshold :: int
  throttle_count :: int

definition throttler_new :: "int \<Rightarrow> int \<Rightarrow> tick_throttler" where
  "throttler_new step t = \<lparr>increment_step = step, threshold = t, throttle_count = 0\<rparr>"

definition throttler_increment :: "tick_throttler \<Rightarrow> tick_throttler" where
  "throttler_increment t = t\<lparr>throttle_count := wrap_i32 (throttle_count t + increment_step t)\<rparr>"

definition throttler_tick :: "tick_throttler \<Rightarrow> tick_throttler" where
  "throttler_tick t =
     (if throttle_count t > 0 then t\<lparr>throttle_count := throttle_count t - 1\<rparr> else t)"

definition is_under_threshold :: "tick_throttler \<Rightarrow> bool" where
  "is_under_threshold t \<longleftrightarrow> threshold t \<le> 0 \<or> throttle_count t < threshold t"

text \<open>
  \<open>allow_creative_drop\<close> tests and then increments; the two spam checks increment and then test, and
  say whether the player is to be disconnected.
\<close>

definition allow_drop :: "tick_throttler \<Rightarrow> bool \<times> tick_throttler" where
  "allow_drop t =
     (if \<not> is_under_threshold t then (False, t) else (True, throttler_increment t))"

definition should_disconnect_for_rate_spam :: "tick_throttler \<Rightarrow> bool \<Rightarrow> bool \<times> tick_throttler" where
  "should_disconnect_for_rate_spam t is_operator =
     (let t' = throttler_increment t in (\<not> is_under_threshold t' \<and> \<not> is_operator, t'))"

datatype throttle_event = ThrottleTick | ThrottleUse

text \<open>A run of ticks and attempted drops: how many drops went through, and the counter left.\<close>

fun run_drops :: "tick_throttler \<Rightarrow> throttle_event list \<Rightarrow> nat \<times> tick_throttler" where
  "run_drops t [] = (0, t)"
| "run_drops t (ThrottleTick # es) = run_drops (throttler_tick t) es"
| "run_drops t (ThrottleUse # es) =
     (case allow_drop t of
        (ok, t') \<Rightarrow> (case run_drops t' es of (n, t'') \<Rightarrow> (if ok then Suc n else n, t'')))"

definition ticks_in :: "throttle_event list \<Rightarrow> nat" where
  "ticks_in es = length (filter (\<lambda>e. e = ThrottleTick) es)"

definition throttler_inv :: "tick_throttler \<Rightarrow> bool" where
  "throttler_inv t \<longleftrightarrow> 0 < increment_step t \<and> 0 < threshold t \<and>
     threshold t + increment_step t < 2 ^ 31 \<and>
     0 \<le> throttle_count t \<and> throttle_count t < threshold t + increment_step t"

lemma throttler_inv_tick [inv_intros]: "throttler_inv t \<Longrightarrow> throttler_inv (throttler_tick t)"
  by (auto simp: throttler_inv_def throttler_tick_def)

lemma throttler_increment_count:
  "throttler_inv t \<Longrightarrow> is_under_threshold t \<Longrightarrow>
     throttle_count (throttler_increment t) = throttle_count t + increment_step t"
  by (simp add: throttler_increment_def throttler_inv_def is_under_threshold_def in_i32_def)

lemma throttler_inv_increment [inv_intros]:
  "throttler_inv t \<Longrightarrow> is_under_threshold t \<Longrightarrow> throttler_inv (throttler_increment t)"
  using throttler_increment_count [of t]
  by (auto simp: throttler_inv_def is_under_threshold_def) (auto simp: throttler_increment_def)

lemma run_drops_bound:
  assumes "throttler_inv t"
  shows "int (fst (run_drops t es)) * increment_step t + throttle_count t
     < threshold t + increment_step t + int (ticks_in es)"
  using assms
proof (induction t es rule: run_drops.induct)
  case (1 t)
  then show ?case by (simp add: throttler_inv_def ticks_in_def)
next
  case (2 t es)
  then show ?case
    using throttler_inv_tick [OF "2.prems"]
    by (auto simp: ticks_in_def throttler_tick_def throttler_inv_def)
next
  case (3 t es)
  show ?case
  proof (cases "is_under_threshold t")
    case False
    then show ?thesis using 3 by (simp add: allow_drop_def ticks_in_def split: prod.splits)
  next
    case True
    let ?t = "throttler_increment t"
    have "int (fst (run_drops ?t es)) * increment_step ?t + throttle_count ?t
        < threshold ?t + increment_step ?t + int (ticks_in es)"
      using "3.IH" [of True ?t] True "3.prems" by (simp add: allow_drop_def throttler_inv_increment)
    moreover have "increment_step ?t = increment_step t" "threshold ?t = threshold t"
      by (simp_all add: throttler_increment_def)
    ultimately show ?thesis
      using throttler_increment_count [OF "3.prems" True] True
      by (cases "run_drops ?t es") (simp add: allow_drop_def ticks_in_def algebra_simps)
  qed
qed

end
