(* ===== verification/ProfileKey.thy ===== *)
theory ProfileKey
  imports ChatChain
begin

text \<open>
  The public keys that players sign their chat with
  (\<open>foton-core/src/player/chat/profile_key.rs\<close>): expiry, the payload the key service signed, and the
  byte format. Keys, their DER encoding and decoding, and the check of a signature are arguments;
  \<open>None\<close> is a \<open>CryptError\<close>. A time is the number of nanoseconds since the epoch. Slicing out of
  range is a panic.
\<close>

section \<open>Reading big-endian integers\<close>

definition be_nat :: "bytes \<Rightarrow> nat" where
  "be_nat bs = foldl (\<lambda>a b. a * 256 + unat b) 0 bs"

definition from_be_i32 :: "bytes \<Rightarrow> int" where
  "from_be_i32 bs = wrap_i32 (int (be_nat bs))"

definition from_be_i64 :: "bytes \<Rightarrow> int" where
  "from_be_i64 bs = wrap_i64 (int (be_nat bs))"

lemma be_nat_be_bytes: "be_nat (be_bytes k n) = n mod 256 ^ k"
proof (induction k arbitrary: n)
  case (Suc k)
  have "be_nat (be_bytes (Suc k) n) = be_nat (be_bytes k (n div 256)) * 256 + n mod 256"
    by (simp add: be_nat_def unat_of_nat take_bit_eq_mod)
  also have "\<dots> = (n div 256) mod 256 ^ k * 256 + n mod 256" by (simp add: Suc)
  also have "\<dots> = n mod 256 ^ Suc k" by (simp add: mod_mult2_eq algebra_simps)
  finally show ?case .
qed (simp add: be_nat_def)

lemma from_be_i64_be_i64 [simp]:
  assumes "in_i64 x" shows "from_be_i64 (be_i64 x) = x"
proof -
  have "nat (x mod 2 ^ 64) < 2 ^ 64"
  proof -
    have "x mod 2 ^ 64 < 2 ^ 64" by simp
    then show ?thesis by (simp add: nat_less_iff)
  qed
  then have "be_nat (be_i64 x) = nat (x mod 2 ^ 64)"
    unfolding be_i64_def be_nat_be_bytes by simp
  then have "int (be_nat (be_i64 x)) = x mod 2 ^ 64" by simp
  then have "wrap_i64 (int (be_nat (be_i64 x))) = wrap_i64 x"
    unfolding wrap_i64_def by (intro signed_take_bit_mod_cong) simp
  then show ?thesis using assms by (simp add: from_be_i64_def)
qed

lemma from_be_i32_be_i32 [simp]:
  assumes "in_i32 x" shows "from_be_i32 (be_i32 x) = x"
proof -
  have "nat (x mod 2 ^ 32) < 2 ^ 32"
  proof -
    have "x mod 2 ^ 32 < 2 ^ 32" by simp
    then show ?thesis by (simp add: nat_less_iff)
  qed
  then have "be_nat (be_i32 x) = nat (x mod 2 ^ 32)"
    unfolding be_i32_def be_nat_be_bytes by simp
  then have "int (be_nat (be_i32 x)) = x mod 2 ^ 32" by simp
  then have "wrap_i32 (int (be_nat (be_i32 x))) = wrap_i32 x"
    unfolding wrap_i32_def by (intro signed_take_bit_mod_cong) simp
  then show ?thesis using assms by (simp add: from_be_i32_def)
qed

section \<open>Times\<close>

definition EXPIRY_GRACE_PERIOD :: int where
  "EXPIRY_GRACE_PERIOD = 8 * 3600 * 10 ^ 9"

definition system_time_from_millis :: "int \<Rightarrow> int" where
  "system_time_from_millis m = m * 10 ^ 6"

definition system_time_to_millis :: "int \<Rightarrow> int" where
  "system_time_to_millis t =
     (if t \<ge> 0 then (let m = t div 10 ^ 6 in if m < 2 ^ 63 then m else 2 ^ 63 - 1)
      else (let m = (- t) div 10 ^ 6 in if m < 2 ^ 63 then - m else - (2 ^ 63)))"

lemma system_time_round_trip:
  assumes "in_i64 m" shows "system_time_to_millis (system_time_from_millis m) = m"
  using assms
  by (auto simp: system_time_to_millis_def system_time_from_millis_def in_i64_def Let_def
      zero_le_mult_iff mult_less_0_iff simp flip: mult_minus_left)

section \<open>Keys\<close>

datatype validation_error = InvalidKeySignature | KeyExpired | CryptoError

record 'k profile_key_data =
  expires_at :: int
  pk_key :: 'k
  key_signature :: bytes

definition has_expired :: "int \<Rightarrow> 'k profile_key_data \<Rightarrow> bool" where
  "has_expired now d \<longleftrightarrow> now \<ge> expires_at d"

definition has_expired_with_grace :: "int \<Rightarrow> 'k profile_key_data \<Rightarrow> int \<Rightarrow> bool" where
  "has_expired_with_grace now d grace \<longleftrightarrow> now \<ge> expires_at d + grace"

definition signed_payload ::
  "('k \<Rightarrow> bytes option) \<Rightarrow> 'k profile_key_data \<Rightarrow> nat \<Rightarrow> validation_error + bytes" where
  "signed_payload enc d profile_id =
     (case enc (pk_key d) of
        None \<Rightarrow> Inl CryptoError
      | Some kb \<Rightarrow>
          Inr (be_u128 profile_id @ be_i64 (system_time_to_millis (expires_at d)) @ kb))"

text \<open>The service's validator answers for a payload and a signature, or fails.\<close>

definition validate_signature ::
  "('k \<Rightarrow> bytes option) \<Rightarrow> (bytes \<Rightarrow> bytes \<Rightarrow> bool option) \<Rightarrow> 'k profile_key_data \<Rightarrow> nat
     \<Rightarrow> validation_error + unit" where
  "validate_signature enc validator d profile_id =
     bind_result (signed_payload enc d profile_id)
       (\<lambda>payload. case validator payload (key_signature d) of
          None \<Rightarrow> Inl CryptoError
        | Some valid \<Rightarrow> if valid then Inr () else Inl InvalidKeySignature)"

record 'k chat_session_data =
  cs_session_id :: nat
  cs_profile_key :: "'k profile_key_data"

text \<open>
  \<open>ProfilePublicKey\<close> and \<open>RemoteChatSession\<close> wrap data that passed validation; both have the shape
  of the data they wrap.
\<close>

definition create_validated ::
  "('k \<Rightarrow> bytes option) \<Rightarrow> (bytes \<Rightarrow> bytes \<Rightarrow> bool option) \<Rightarrow> nat \<Rightarrow> 'k profile_key_data
     \<Rightarrow> validation_error + 'k profile_key_data" where
  "create_validated enc validator profile_id d =
     bind_result (validate_signature enc validator d profile_id) (\<lambda>_. Inr d)"

definition validate_session ::
  "('k \<Rightarrow> bytes option) \<Rightarrow> (bytes \<Rightarrow> bytes \<Rightarrow> bool option) \<Rightarrow> 'k chat_session_data \<Rightarrow> nat
     \<Rightarrow> validation_error + 'k chat_session_data" where
  "validate_session enc validator s profile_id =
     bind_result (create_validated enc validator profile_id (cs_profile_key s))
       (\<lambda>key. Inr \<lparr>cs_session_id = cs_session_id s, cs_profile_key = key\<rparr>)"

section \<open>Byte format\<close>

datatype key_panic = SliceOutOfRange

definition key_to_bytes :: "('k \<Rightarrow> bytes option) \<Rightarrow> 'k profile_key_data \<Rightarrow> validation_error + bytes" where
  "key_to_bytes enc d =
     (case enc (pk_key d) of
        None \<Rightarrow> Inl CryptoError
      | Some kb \<Rightarrow>
          Inr (be_i64 (system_time_to_millis (expires_at d))
               @ be_i32 (wrap_i32 (int (length kb))) @ kb
               @ be_i32 (wrap_i32 (int (length (key_signature d)))) @ key_signature d))"

text \<open>\<open>usize\<close> arithmetic: \<open>+\<close> wraps in a release build, and \<open>&bytes[a..b]\<close> checks its bounds.\<close>

definition sat_add_usize :: "nat \<Rightarrow> nat \<Rightarrow> nat" where
  "sat_add_usize a b = min (a + b) (2 ^ 64 - 1)"

definition slice_bytes :: "bytes \<Rightarrow> nat \<Rightarrow> nat \<Rightarrow> key_panic + bytes" where
  "slice_bytes bs a b =
     (if a \<le> b \<and> b \<le> length bs then Inr (take (b - a) (drop a bs)) else Inl SliceOutOfRange)"

definition usize_of_i32 :: "int \<Rightarrow> nat option" where
  "usize_of_i32 x = (if x < 0 then None else Some (nat x))"

text \<open>
  One length-prefixed field at an offset: its bytes and the offset behind it, or \<open>None\<close> for a
  malformed input.
\<close>

definition read_field :: "bytes \<Rightarrow> nat \<Rightarrow> key_panic + (bytes \<times> nat) option" where
  "read_field bs off =
     (if length bs < wrap_u64 (off + 4) then Inr None
      else bind_result (slice_bytes bs off (wrap_u64 (off + 4))) (\<lambda>len.
        case usize_of_i32 (from_be_i32 len) of
          None \<Rightarrow> Inr None
        | Some n \<Rightarrow>
            let off = wrap_u64 (off + 4) in
            if length bs < sat_add_usize off n then Inr None
            else bind_result (slice_bytes bs off (wrap_u64 (off + n)))
                   (\<lambda>f. Inr (Some (f, wrap_u64 (off + n))))))"

definition key_from_bytes ::
  "(bytes \<Rightarrow> 'k option) \<Rightarrow> bytes \<Rightarrow> key_panic + (validation_error + 'k profile_key_data)" where
  "key_from_bytes dec bs =
     (if length bs < 16 then Inr (Inl CryptoError)
      else bind_result (slice_bytes bs 0 8) (\<lambda>t.
        let expires = system_time_from_millis (from_be_i64 t) in
        bind_result (read_field bs 8) (\<lambda>f1.
          case f1 of
            None \<Rightarrow> Inr (Inl CryptoError)
          | Some (kb, off) \<Rightarrow>
              (case dec kb of
                 None \<Rightarrow> Inr (Inl CryptoError)
               | Some k \<Rightarrow>
                   bind_result (read_field bs off) (\<lambda>f2.
                     case f2 of
                       None \<Rightarrow> Inr (Inl CryptoError)
                     | Some (sig, _) \<Rightarrow>
                         Inr (Inr \<lparr>expires_at = expires, pk_key = k, key_signature = sig\<rparr>))))))"

section \<open>No panic\<close>

lemma slice_bytes_ok: "a \<le> b \<Longrightarrow> b \<le> length bs \<Longrightarrow> slice_bytes bs a b = Inr (take (b - a) (drop a bs))"
  by (simp add: slice_bytes_def)

lemma read_field_ok:
  assumes "off \<le> length bs" "length bs < 2 ^ 63"
  shows "\<exists>r. read_field bs off = Inr r \<and> (\<forall>f off'. r = Some (f, off') \<longrightarrow> off' \<le> length bs)"
proof (cases "length bs < off + 4")
  case True
  then show ?thesis using assms by (simp add: read_field_def wrap_u64_def)
next
  case False
  let ?len = "from_be_i32 (take 4 (drop off bs))"
  have w: "wrap_u64 (off + 4) = off + 4" using assms by (simp add: wrap_u64_def)
  have s: "slice_bytes bs off (off + 4) = Inr (take 4 (drop off bs))"
    using False by (simp add: slice_bytes_def)
  have i: "?len < 2 ^ 31" using in_i32_wrap unfolding from_be_i32_def in_i32_def by blast
  show ?thesis
  proof (cases "?len < 0 \<or> length bs < off + 4 + nat ?len")
    case True
    have "length bs < sat_add_usize (off + 4) (nat ?len)" if "length bs < off + 4 + nat ?len"
      using that assms(2) by (simp add: sat_add_usize_def)
    then show ?thesis
      using True False by (auto simp: read_field_def w s usize_of_i32_def Let_def)
  next
    case inb: False
    then have "\<not> length bs < sat_add_usize (off + 4) (nat ?len)"
      by (simp add: sat_add_usize_def min_def)
    moreover have "wrap_u64 (off + 4 + nat ?len) = off + 4 + nat ?len"
      using inb assms(2) by (simp add: wrap_u64_def)
    ultimately show ?thesis
      using inb False by (simp add: read_field_def w s usize_of_i32_def Let_def slice_bytes_def)
  qed
qed

lemma key_from_bytes_total:
  assumes "length bs < 2 ^ 63"
  shows "\<exists>r. key_from_bytes dec bs = Inr r"
proof (cases "length bs < 16")
  case False
  then have "8 \<le> length bs" by simp
  obtain f1 where f1: "read_field bs 8 = Inr f1" "\<forall>f off'. f1 = Some (f, off') \<longrightarrow> off' \<le> length bs"
    using read_field_ok [OF \<open>8 \<le> length bs\<close> assms] by blast
  have s: "slice_bytes bs 0 8 = Inr (take 8 bs)" using False by (simp add: slice_bytes_def)
  show ?thesis
  proof (cases f1)
    case (Some p)
    then obtain kb off where p: "f1 = Some (kb, off)" by (cases p) simp
    then have "off \<le> length bs" using f1(2) by simp
    from read_field_ok [OF this assms] obtain f2 where f2: "read_field bs off = Inr f2" by blast
    show ?thesis
      using False f1(1) p f2 s by (auto simp: key_from_bytes_def Let_def split: option.splits prod.splits)
  qed (use False f1 s in \<open>simp add: key_from_bytes_def Let_def\<close>)
qed (simp add: key_from_bytes_def)

section \<open>Round trip\<close>

lemma read_field_written:
  assumes "bs = pre @ be_i32 (wrap_i32 (int (length f))) @ f @ post" "length f < 2 ^ 31"
    and "length bs < 2 ^ 63"
  shows "read_field bs (length pre) = Inr (Some (f, length pre + 4 + length f))"
proof -
  have len: "length bs = length pre + 4 + length f + length post" using assms(1) by simp
  have i: "in_i32 (int (length f))" using assms(2) by (rule in_i32_length)
  have "slice_bytes bs (length pre) (length pre + 4) = Inr (be_i32 (int (length f)))"
    using i by (simp add: slice_bytes_def assms(1))
  moreover have "slice_bytes bs (length pre + 4) (length pre + 4 + length f) = Inr f"
    using i by (simp add: slice_bytes_def assms(1))
  ultimately show ?thesis
    using i assms(3) unfolding len
    by (simp add: read_field_def wrap_u64_def usize_of_i32_def Let_def sat_add_usize_def len)
qed

lemma key_round_trip:
  assumes "enc (pk_key d) = Some kb" "dec kb = Some (pk_key d)"
    and "expires_at d = system_time_from_millis m" "in_i64 m"
    and "length kb < 2 ^ 31" "length (key_signature d) < 2 ^ 31"
  shows "\<exists>bs. key_to_bytes enc d = Inr bs \<and> key_from_bytes dec bs = Inr (Inr d)"
proof -
  let ?t = "be_i64 m"
  let ?k = "be_i32 (wrap_i32 (int (length kb)))"
  let ?s = "be_i32 (wrap_i32 (int (length (key_signature d))))"
  let ?bs = "?t @ ?k @ kb @ ?s @ key_signature d"
  have to: "key_to_bytes enc d = Inr ?bs"
    using assms(1,3,4) by (simp add: key_to_bytes_def system_time_round_trip)
  have len: "length ?bs < 2 ^ 63" using assms(5,6) by simp
  have "read_field ?bs 8 = Inr (Some (kb, 8 + 4 + length kb))"
    using read_field_written [of ?bs ?t kb "?s @ key_signature d"] assms(5) len by simp
  moreover have "read_field ?bs (8 + 4 + length kb) =
      Inr (Some (key_signature d, 8 + 4 + length kb + 4 + length (key_signature d)))"
    using read_field_written [of ?bs "?t @ ?k @ kb" "key_signature d" "[]"] assms(6) len by simp
  moreover have "slice_bytes ?bs 0 8 = Inr ?t" by (simp add: slice_bytes_def)
  ultimately have "key_from_bytes dec ?bs = Inr (Inr d)"
    using assms(2,3,4) by (simp add: key_from_bytes_def Let_def)
  then show ?thesis by (simp add: to)
qed

end
