(* ===== verification/ChatState.thy ===== *)
theory ChatState
  imports ChatWindow ProfileKey
begin

text \<open>
  A player's chat state and the handling of a chat message (\<open>player/chat/mod.rs\<close>), and the broadcast
  to the players of a world (\<open>world/broadcasts.rs\<close>, lines 20 to 162).

  What is not the chat's own code is an argument, collected in the record \<open>chat_env\<close>: the check of a
  signature under a player's key, the plugins that edit the event, the clock, the operators. A
  message is the list of its code points; its bytes are their UTF-8 encoding. What the handlers send
  is a list of effects. The server maps a profile id to its player's chat state and lists the
  players of each world in the order \<open>iter_players\<close> visits them.
\<close>

section \<open>Messages\<close>

type_synonym message = "nat list"

fun utf8_char :: "nat \<Rightarrow> bytes" where
  "utf8_char c =
     (if c < 0x80 then [word_of_nat c]
      else if c < 0x800 then [word_of_nat (0xC0 + c div 64), word_of_nat (0x80 + c mod 64)]
      else if c < 0x10000 then
        [word_of_nat (0xE0 + c div 4096), word_of_nat (0x80 + c div 64 mod 64),
         word_of_nat (0x80 + c mod 64)]
      else
        [word_of_nat (0xF0 + c div 262144), word_of_nat (0x80 + c div 4096 mod 64),
         word_of_nat (0x80 + c div 64 mod 64), word_of_nat (0x80 + c mod 64)])"

definition utf8 :: "message \<Rightarrow> bytes" where
  "utf8 m = concat (map utf8_char m)"

definition is_chat_message_illegal :: "message \<Rightarrow> bool" where
  "is_chat_message_illegal m = list_ex (\<lambda>c. c = 0xA7 \<or> c < 32 \<or> c = 0x7F) m"

record schat =
  sc_message :: message
  sc_timestamp :: int
  sc_salt :: int
  sc_signature :: "signature option"
  sc_offset :: int
  sc_acknowledged :: "u8 list"
  sc_checksum :: u8

datatype 'c chat_content = PlainContent message | StyledContent 'c

record 'c chat_packet =
  pc_global_index :: int
  pc_sender :: nat
  pc_index :: int
  pc_signature :: "signature option"
  pc_message :: message
  pc_timestamp :: int
  pc_salt :: int
  pc_previous :: "previous_message list"
  pc_content :: "'c chat_content"

section \<open>State\<close>

record 'k chat_state =
  messages_sent :: int
  messages_received :: int
  signature_cache :: message_cache
  chat_validator :: message_validator
  chat_session :: "'k chat_session_data option"
  chat_chain :: "message_chain option"
  chat_spam_throttler :: tick_throttler
  command_spam_throttler :: tick_throttler
  drop_spam_throttler :: tick_throttler

definition chat_state_new :: "int \<Rightarrow> int \<Rightarrow> 'k chat_state" where
  "chat_state_new chat_seconds command_seconds =
     \<lparr>messages_sent = 0, messages_received = 0, signature_cache = message_cache_new,
      chat_validator = validator_new, chat_session = None, chat_chain = None,
      chat_spam_throttler = throttler_new 20 (wrap_i32 (chat_seconds * 20)),
      command_spam_throttler = throttler_new 20 (wrap_i32 (command_seconds * 20)),
      drop_spam_throttler = throttler_new 20 1480\<rparr>"

definition allow_creative_drop :: "'k chat_state \<Rightarrow> bool \<times> 'k chat_state" where
  "allow_creative_drop cs =
     (case allow_drop (drop_spam_throttler cs) of (ok, t) \<Rightarrow> (ok, cs\<lparr>drop_spam_throttler := t\<rparr>))"

definition tick_spam_throttlers :: "'k chat_state \<Rightarrow> 'k chat_state" where
  "tick_spam_throttlers cs =
     cs\<lparr>chat_spam_throttler := throttler_tick (chat_spam_throttler cs),
        command_spam_throttler := throttler_tick (command_spam_throttler cs),
        drop_spam_throttler := throttler_tick (drop_spam_throttler cs)\<rparr>"

definition get_and_increment_messages_received :: "'k chat_state \<Rightarrow> int \<times> 'k chat_state" where
  "get_and_increment_messages_received cs =
     (messages_received cs, cs\<lparr>messages_received := wrap_i32 (messages_received cs + 1)\<rparr>)"

record 'k chat_server =
  chats :: "nat \<Rightarrow> 'k chat_state"
  world_players :: "nat list list"

definition set_chat :: "nat \<Rightarrow> 'k chat_state \<Rightarrow> 'k chat_server \<Rightarrow> 'k chat_server" where
  "set_chat p cs s = s\<lparr>chats := (chats s)(p := cs)\<rparr>"

section \<open>Events and effects\<close>

record 'c chat_event =
  ce_message :: message
  ce_recipients :: "nat list"
  ce_changed :: bool
  ce_cancelled :: bool
  ce_content :: "'c option"
  ce_rendered :: "(nat \<times> 'c) list"

text \<open>What a listener may do to the event.\<close>

datatype 'c chat_edit =
    SetMessage message
  | SetContent 'c
  | SetRendered "(nat \<times> 'c) list"
  | SetRecipients "nat list"
  | SetCancelled bool

fun apply_edit :: "'c chat_edit \<Rightarrow> 'c chat_event \<Rightarrow> 'c chat_event" where
  "apply_edit (SetMessage m) e = e\<lparr>ce_message := m, ce_changed := True\<rparr>"
| "apply_edit (SetContent c) e = e\<lparr>ce_content := Some c\<rparr>"
| "apply_edit (SetRendered r) e = e\<lparr>ce_rendered := r\<rparr>"
| "apply_edit (SetRecipients r) e = e\<lparr>ce_recipients := r\<rparr>"
| "apply_edit (SetCancelled b) e = e\<lparr>ce_cancelled := b\<rparr>"

definition chat_event_new :: "message \<Rightarrow> 'c chat_event" where
  "chat_event_new m =
     \<lparr>ce_message = m, ce_recipients = [], ce_changed = False, ce_cancelled = False,
      ce_content = None, ce_rendered = []\<rparr>"

datatype verify_error =
    NoChatSession
  | NoSignature
  | ProfileKeyExpired
  | NoMessageChain
  | MessageChainBroken
  | ChatMessageExpired nat
  | AcknowledgmentError window_error
  | ChainValidation chain_error
  | SignatureCheckFailed
  | InvalidChatSignature

datatype disconnect_reason =
    IllegalCharacters
  | ChatValidationFailed verify_error
  | ChatNotSigned
  | SpamDisconnect
  | InvalidPublicKeySignature
  | ExpiredPublicKey

datatype 'c chat_effect =
    Disconnect nat disconnect_reason
  | SendChat nat "'c chat_packet"
  | SendRendered nat 'c

record ('k, 'c) chat_env =
  enforces_secure_chat :: bool
  is_operator :: "nat \<Rightarrow> bool"
  online_ids :: "nat list"
  accepts_chat :: "nat \<Rightarrow> bool"
  listeners :: "nat \<Rightarrow> message \<Rightarrow> 'c chat_edit list"
  check_signature :: "'k \<Rightarrow> bytes \<Rightarrow> signature \<Rightarrow> bool option"
  now_key :: int
  now_message :: int

section \<open>Spam\<close>

definition detect_chat_rate_spam ::
  "('k, 'c) chat_env \<Rightarrow> nat \<Rightarrow> 'k chat_server \<Rightarrow> 'c chat_effect list \<times> 'k chat_server" where
  "detect_chat_rate_spam env p s =
     (case should_disconnect_for_rate_spam (chat_spam_throttler (chats s p)) (is_operator env p) of
        (kick, t) \<Rightarrow>
          (if kick then [Disconnect p SpamDisconnect] else [],
           set_chat p ((chats s p)\<lparr>chat_spam_throttler := t\<rparr>) s))"

definition detect_command_rate_spam ::
  "('k, 'c) chat_env \<Rightarrow> nat \<Rightarrow> 'k chat_server \<Rightarrow> 'c chat_effect list \<times> 'k chat_server" where
  "detect_command_rate_spam env p s =
     (case should_disconnect_for_rate_spam (command_spam_throttler (chats s p)) (is_operator env p) of
        (kick, t) \<Rightarrow>
          (if kick then [Disconnect p SpamDisconnect] else [],
           set_chat p ((chats s p)\<lparr>command_spam_throttler := t\<rparr>) s))"

section \<open>Verification\<close>

text \<open>
  A timestamp is an \<open>i64\<close> of milliseconds; a negative one does not convert to \<open>u64\<close> and counts as
  the epoch.
\<close>

definition message_time :: "schat \<Rightarrow> int" where
  "message_time m = (if sc_timestamp m < 0 then 0 else sc_timestamp m) * 10 ^ 6"

definition message_age :: "('k, 'c) chat_env \<Rightarrow> schat \<Rightarrow> int" where
  "message_age env m =
     (if now_message env < message_time m then 0 else now_message env - message_time m)"

definition MESSAGE_EXPIRES_AFTER :: int where
  "MESSAGE_EXPIRES_AFTER = 5 * 60 * 10 ^ 9"

definition body_of :: "schat \<Rightarrow> signature list \<Rightarrow> message_body" where
  "body_of m seen =
     \<lparr>body_content = utf8 (sc_message m), time_stamp = message_time m, salt = sc_salt m,
      body_last_seen = seen\<rparr>"

definition verify_chat_signature ::
  "('k, 'c) chat_env \<Rightarrow> 'k chat_state \<Rightarrow> schat
     \<Rightarrow> (verify_error + message_link \<times> signature list) \<times> 'k chat_state" where
  "verify_chat_signature env cs m =
     (case chat_session cs of
        None \<Rightarrow> (Inl NoChatSession, cs)
      | Some session \<Rightarrow>
      (case sc_signature m of
        None \<Rightarrow> (Inl NoSignature, cs)
      | Some sig \<Rightarrow>
          if has_expired_with_grace (now_key env) (cs_profile_key session) EXPIRY_GRACE_PERIOD then
            (Inl ProfileKeyExpired, cs)
          else
      (case chat_chain cs of
        None \<Rightarrow> (Inl NoMessageChain, cs)
      | Some chain \<Rightarrow>
          if is_broken chain then (Inl MessageChainBroken, cs)
          else
            if message_age env m > MESSAGE_EXPIRES_AFTER then
              (Inl (ChatMessageExpired (nat (message_age env m div 10 ^ 9))), cs)
            else
      (case apply_update (chat_validator cs) (sc_acknowledged m) (sc_offset m) (sc_checksum m) of
        (Inl e, v) \<Rightarrow> (Inl (AcknowledgmentError e), cs\<lparr>chat_validator := v\<rparr>)
      | (Inr seen, v) \<Rightarrow>
      (case validate_and_advance chain (body_of m seen) of
        (Inl e, chain') \<Rightarrow>
          (Inl (ChainValidation e), cs\<lparr>chat_validator := v, chat_chain := Some chain'\<rparr>)
      | (Inr link, chain') \<Rightarrow>
          (case check_signature env (pk_key (cs_profile_key session))
                  (signature_payload link (body_of m seen)) sig of
             None \<Rightarrow> Inl SignatureCheckFailed
           | Some valid \<Rightarrow> if valid then Inr (link, seen) else Inl InvalidChatSignature,
           cs\<lparr>chat_validator := v, chat_chain := Some chain'\<rparr>))))))"

section \<open>Broadcast\<close>

definition wanted :: "nat list option \<Rightarrow> nat \<Rightarrow> bool" where
  "wanted recipients r = (case recipients of None \<Rightarrow> True | Some rs \<Rightarrow> r \<in> set rs)"

definition deliver_signed ::
  "signature list \<Rightarrow> signature option \<Rightarrow> 'k chat_state \<Rightarrow> int \<times> previous_message list \<times> 'k chat_state" where
  "deliver_signed last_seen sig cs =
     (case get_and_increment_messages_received cs of
        (n, cs1) \<Rightarrow>
          let previous = index_previous_messages (signature_cache cs1) last_seen in
          (n, previous,
           (case sig of
              Some s \<Rightarrow>
                cs1\<lparr>signature_cache := cache_push (signature_cache cs1) last_seen (Some s),
                    chat_validator := add_pending (chat_validator cs1) (Some s)\<rparr>
            | None \<Rightarrow> cs1\<lparr>chat_validator := add_pending (chat_validator cs1) None\<rparr>)))"

fun broadcast_chat ::
  "'c chat_packet \<Rightarrow> signature list \<Rightarrow> signature option \<Rightarrow> nat list option \<Rightarrow> nat list
     \<Rightarrow> 'k chat_server \<Rightarrow> 'c chat_effect list \<times> 'k chat_server" where
  "broadcast_chat pkt last_seen sig recipients [] s = ([], s)"
| "broadcast_chat pkt last_seen sig recipients (r # rs) s =
     (if \<not> wanted recipients r then broadcast_chat pkt last_seen sig recipients rs s
      else
        (case deliver_signed last_seen sig (chats s r) of
           (n, previous, cs) \<Rightarrow>
             (case broadcast_chat pkt last_seen sig recipients rs (set_chat r cs s) of
                (es, s') \<Rightarrow>
                  (SendChat r (pkt\<lparr>pc_global_index := n, pc_previous := previous\<rparr>) # es, s'))))"

fun broadcast_unsigned_chat ::
  "'c chat_packet \<Rightarrow> nat list option \<Rightarrow> nat list \<Rightarrow> 'k chat_server
     \<Rightarrow> 'c chat_effect list \<times> 'k chat_server" where
  "broadcast_unsigned_chat pkt recipients [] s = ([], s)"
| "broadcast_unsigned_chat pkt recipients (r # rs) s =
     (if \<not> wanted recipients r then broadcast_unsigned_chat pkt recipients rs s
      else
        (case get_and_increment_messages_received (chats s r) of
           (n, cs) \<Rightarrow>
             (case broadcast_unsigned_chat pkt recipients rs (set_chat r cs s) of
                (es, s') \<Rightarrow> (SendChat r (pkt\<lparr>pc_global_index := n\<rparr>) # es, s'))))"

fun in_every_world ::
  "(nat list \<Rightarrow> 'k chat_server \<Rightarrow> 'c chat_effect list \<times> 'k chat_server) \<Rightarrow> nat list list
     \<Rightarrow> 'k chat_server \<Rightarrow> 'c chat_effect list \<times> 'k chat_server" where
  "in_every_world f [] s = ([], s)"
| "in_every_world f (w # ws) s =
     (case f w s of (es, s1) \<Rightarrow> (case in_every_world f ws s1 of (es', s2) \<Rightarrow> (es @ es', s2)))"

section \<open>Handling a message\<close>

definition build_chat_packet ::
  "nat \<Rightarrow> int \<Rightarrow> signature option \<Rightarrow> message \<Rightarrow> 'c option \<Rightarrow> schat \<Rightarrow> 'c chat_packet" where
  "build_chat_packet p index sig msg content m =
     \<lparr>pc_global_index = 0, pc_sender = p, pc_index = index, pc_signature = sig, pc_message = msg,
      pc_timestamp = sc_timestamp m, pc_salt = sc_salt m, pc_previous = [],
      pc_content = (case content of Some c \<Rightarrow> StyledContent c | None \<Rightarrow> PlainContent msg)\<rparr>"

definition deliver_rendered ::
  "('k, 'c) chat_env \<Rightarrow> (nat \<times> 'c) list \<Rightarrow> 'c chat_effect list" where
  "deliver_rendered env rendered =
     map (\<lambda>(r, line). SendRendered r line) (filter (\<lambda>(r, line). accepts_chat env r) rendered)"

definition then_detect_spam ::
  "('k, 'c) chat_env \<Rightarrow> nat \<Rightarrow> 'c chat_effect list \<times> 'k chat_server
     \<Rightarrow> 'c chat_effect list \<times> 'k chat_server" where
  "then_detect_spam env p r =
     (case r of (es, s) \<Rightarrow> (case detect_chat_rate_spam env p s of (es', s') \<Rightarrow> (es @ es', s')))"

definition verification_of ::
  "('k, 'c) chat_env \<Rightarrow> 'k chat_server \<Rightarrow> nat \<Rightarrow> schat
     \<Rightarrow> (verify_error + message_link \<times> signature list) option \<times> 'k chat_server" where
  "verification_of env s p m =
     (case sc_signature m of
        None \<Rightarrow> (None, s)
      | Some _ \<Rightarrow>
          (case verify_chat_signature env (chats s p) m of (r, cs) \<Rightarrow> (Some r, set_chat p cs s)))"

definition refusal :: "('k, 'c) chat_env \<Rightarrow> (verify_error + 'l) option \<Rightarrow> disconnect_reason option" where
  "refusal env v =
     (if enforces_secure_chat env then
        (case v of Some (Inr _) \<Rightarrow> None | Some (Inl e) \<Rightarrow> Some (ChatValidationFailed e)
         | None \<Rightarrow> Some ChatNotSigned)
      else None)"

definition fire_chat_event :: "('k, 'c) chat_env \<Rightarrow> nat \<Rightarrow> message \<Rightarrow> 'c chat_event" where
  "fire_chat_event env p msg =
     fold apply_edit (listeners env p msg) ((chat_event_new msg)\<lparr>ce_recipients := online_ids env\<rparr>)"

definition handle_chat ::
  "('k, 'c) chat_env \<Rightarrow> nat \<Rightarrow> schat \<Rightarrow> 'k chat_server \<Rightarrow> 'c chat_effect list \<times> 'k chat_server" where
  "handle_chat env p m s =
     (if is_chat_message_illegal (sc_message m) then ([Disconnect p IllegalCharacters], s)
      else
        (case verification_of env s p m of
           (v, s) \<Rightarrow>
        (case refusal env v of
           Some reason \<Rightarrow> ([Disconnect p reason], s)
         | None \<Rightarrow>
             let sig = (case v of Some (Inr _) \<Rightarrow> sc_signature m | _ \<Rightarrow> None);
                 event = fire_chat_event env p (sc_message m) in
             if ce_cancelled event then then_detect_spam env p ([], s)
             else
               let sig = (if ce_changed event then None else sig) in
               if ce_rendered event \<noteq> [] then
                 then_detect_spam env p (deliver_rendered env (ce_rendered event), s)
               else
                 let index = messages_sent (chats s p);
                     s = set_chat p ((chats s p)\<lparr>messages_sent := wrap_i32 (index + 1)\<rparr>) s;
                     pkt = build_chat_packet p index sig (ce_message event) (ce_content event) m;
                     last_seen = (case v of Some (Inr (_, seen)) \<Rightarrow> seen | _ \<Rightarrow> []);
                     recipients = Some (ce_recipients event) in
                 then_detect_spam env p
                   (case sig of
                      Some g \<Rightarrow>
                        if length g = 256 then
                          in_every_world (broadcast_chat pkt last_seen (Some g) recipients) (world_players s) s
                        else in_every_world (broadcast_unsigned_chat pkt recipients) (world_players s) s
                    | None \<Rightarrow>
                        in_every_world (broadcast_unsigned_chat pkt recipients) (world_players s) s))))"

text \<open>A plugin's message goes through the same path, unsigned; \<open>now\<close> is the clock in milliseconds.\<close>

definition chat_from_plugin ::
  "('k, 'c) chat_env \<Rightarrow> nat \<Rightarrow> message \<Rightarrow> int \<Rightarrow> 'k chat_server \<Rightarrow> 'c chat_effect list \<times> 'k chat_server" where
  "chat_from_plugin env p msg now s =
     (if msg = [] then ([], s)
      else handle_chat env p
        \<lparr>sc_message = msg, sc_timestamp = min now (2 ^ 63 - 1), sc_salt = 0, sc_signature = None,
         sc_offset = 0, sc_acknowledged = [0, 0, 0], sc_checksum = 0\<rparr> s)"

definition handle_chat_ack :: "nat \<Rightarrow> int \<Rightarrow> 'k chat_server \<Rightarrow> 'k chat_server" where
  "handle_chat_ack p offset s =
     set_chat p ((chats s p)\<lparr>chat_validator := snd (apply_offset (chat_validator (chats s p)) offset)\<rparr>) s"

section \<open>Sessions\<close>

datatype 'k session_outcome =
    SessionUnchanged
  | MissingServiceKeys
  | ExpiryDowngrade
  | SessionAccepted "'k chat_session_data"
  | SessionInvalid validation_error

definition validate_chat_session_update ::
  "('k \<Rightarrow> bytes option) \<Rightarrow> 'k profile_key_data option \<Rightarrow> 'k chat_session_data \<Rightarrow> nat
     \<Rightarrow> (bytes \<Rightarrow> bytes \<Rightarrow> bool option) option \<Rightarrow> 'k session_outcome" where
  "validate_chat_session_update enc old new profile_id validator =
     (if old = Some (cs_profile_key new) then SessionUnchanged
      else if (case old of Some d \<Rightarrow> expires_at (cs_profile_key new) < expires_at d | None \<Rightarrow> False) then
        ExpiryDowngrade
      else
        (case validator of
           None \<Rightarrow> MissingServiceKeys
         | Some v \<Rightarrow>
             (case validate_session enc v new profile_id of
                Inr session \<Rightarrow> SessionAccepted session
              | Inl e \<Rightarrow> SessionInvalid e)))"

text \<open>Whether the session can be announced to the others does not change what is stored.\<close>

definition set_chat_session :: "nat \<Rightarrow> 'k chat_session_data \<Rightarrow> 'k chat_server \<Rightarrow> 'k chat_server" where
  "set_chat_session p session s =
     set_chat p ((chats s p)\<lparr>chat_session := Some session,
                             chat_chain := Some (chain_new p (cs_session_id session))\<rparr>) s"

text \<open>The packet, with its key already decoded: \<open>None\<close> is a key that does not decode.\<close>

definition handle_chat_session_update ::
  "('k \<Rightarrow> bytes option) \<Rightarrow> (bytes \<Rightarrow> bytes \<Rightarrow> bool option) option \<Rightarrow> nat \<Rightarrow> nat \<Rightarrow> int \<Rightarrow> 'k option \<Rightarrow> bytes
     \<Rightarrow> 'k chat_server \<Rightarrow> 'c chat_effect list \<times> 'k chat_server" where
  "handle_chat_session_update enc validator p session_id expires key ksig s =
     (case key of
        None \<Rightarrow> ([Disconnect p InvalidPublicKeySignature], s)
      | Some k \<Rightarrow>
          let new = \<lparr>cs_session_id = session_id,
                     cs_profile_key = \<lparr>expires_at = system_time_from_millis expires, pk_key = k,
                                       key_signature = ksig\<rparr>\<rparr> in
          (case validate_chat_session_update enc (map_option cs_profile_key (chat_session (chats s p)))
                  new p validator of
             SessionUnchanged \<Rightarrow> ([], s)
           | MissingServiceKeys \<Rightarrow> ([], s)
           | ExpiryDowngrade \<Rightarrow> ([Disconnect p ExpiredPublicKey], s)
           | SessionAccepted session \<Rightarrow> ([], set_chat_session p session s)
           | SessionInvalid e \<Rightarrow> ([Disconnect p InvalidPublicKeySignature], s)))"

end
