(* ===== verification/ChatLemmas.thy ===== *)
theory ChatLemmas
  imports ChatState
begin

text \<open>
  What the chat handlers leave alone and what they send: lemmas over \<open>ChatState\<close> that the properties
  of \<open>ChatProps\<close> rest on, runs of the chat service, and the client's side of the signature cache.
\<close>

section \<open>Only verification moves a chain\<close>

definition chain_of :: "'k chat_server \<Rightarrow> nat \<Rightarrow> message_chain option" where
  "chain_of s q = chat_chain (chats s q)"

lemma chain_of_set_chat [simp]:
  "chain_of (set_chat p cs s) q = (if q = p then chat_chain cs else chain_of s q)"
  by (simp add: chain_of_def set_chat_def)

lemma chats_set_chat [simp]:
  "chats (set_chat p cs s) q = (if q = p then cs else chats s q)"
  "world_players (set_chat p cs s) = world_players s"
  by (simp_all add: set_chat_def)

lemma deliver_signed_chain [simp]:
  "chat_chain (snd (snd (deliver_signed ls sig cs))) = chat_chain cs"
  by (cases sig) (simp_all add: deliver_signed_def get_and_increment_messages_received_def Let_def)

lemma broadcast_chat_chain: "chain_of (snd (broadcast_chat pkt ls sig rec rs s)) q = chain_of s q"
proof (induction pkt ls sig rec rs s rule: broadcast_chat.induct)
  case (2 pkt last_seen sig recipients r rs s)
  obtain n previous cs where d: "deliver_signed last_seen sig (chats s r) = (n, previous, cs)"
    by (cases "deliver_signed last_seen sig (chats s r)") auto
  then have "chat_chain cs = chain_of s r"
    using deliver_signed_chain [of last_seen sig "chats s r"] by (simp add: chain_of_def)
  then show ?case
    using 2 d by (cases "broadcast_chat pkt last_seen sig recipients rs (set_chat r cs s)") auto
qed simp

lemma broadcast_unsigned_chain: "chain_of (snd (broadcast_unsigned_chat pkt rec rs s)) q = chain_of s q"
proof (induction pkt rec rs s rule: broadcast_unsigned_chat.induct)
  case (2 pkt recipients r rs s)
  let ?cs = "snd (get_and_increment_messages_received (chats s r))"
  have "chat_chain ?cs = chain_of s r"
    by (simp add: get_and_increment_messages_received_def chain_of_def)
  then show ?case
    using 2 by (cases "broadcast_unsigned_chat pkt recipients rs (set_chat r ?cs s)")
      (auto simp: get_and_increment_messages_received_def)
qed simp

lemma in_every_world_chain:
  assumes "\<forall>w s. chain_of (snd (f w s)) q = chain_of s q"
  shows "chain_of (snd (in_every_world f ws s)) q = chain_of s q"
proof (induction ws arbitrary: s)
  case (Cons w ws)
  obtain es s1 where 1: "f w s = (es, s1)" by fastforce
  obtain es' s2 where 2: "in_every_world f ws s1 = (es', s2)" by fastforce
  show ?case using Cons [of s1] assms [rule_format, of w s] 1 2 by simp
qed simp

lemma then_detect_spam_chain:
  "chain_of (snd (then_detect_spam env p r)) q = chain_of (snd r) q"
  by (cases r) (simp add: then_detect_spam_def detect_chat_rate_spam_def chain_of_def
      split: prod.splits)

lemma handle_chat_chain:
  "chain_of (snd (handle_chat env p m s)) q =
     (if is_chat_message_illegal (sc_message m) then chain_of s q
      else chain_of (snd (verification_of env s p m)) q)"
proof (cases "is_chat_message_illegal (sc_message m)")
  case True
  then show ?thesis by (simp add: handle_chat_def)
next
  case False
  obtain v s1 where v: "verification_of env s p m = (v, s1)" by fastforce
  show ?thesis
  proof (cases "refusal env v")
    case (Some reason)
    then show ?thesis using False v by (simp add: handle_chat_def)
  next
    case None
    have w1: "chain_of (snd (in_every_world (broadcast_chat pkt ls sig rec) ws s')) q' = chain_of s' q'"
      for pkt ls sig rec ws q' and s' :: "'a chat_server"
      by (rule in_every_world_chain) (simp add: broadcast_chat_chain)
    have w2: "chain_of (snd (in_every_world (broadcast_unsigned_chat pkt rec) ws s')) q' = chain_of s' q'"
      for pkt :: "'b chat_packet" and rec ws q' and s' :: "'a chat_server"
      by (rule in_every_world_chain) (simp add: broadcast_unsigned_chain)
    show ?thesis
      using False None v
      by (simp add: handle_chat_def Let_def then_detect_spam_chain w1 w2 flip: chain_of_def split: option.split)
  qed
qed

section \<open>What is sent\<close>

text \<open>An effect of a broadcast is the packet, numbered and indexed for a recipient that is wanted.\<close>

definition same_message :: "'c chat_packet \<Rightarrow> 'c chat_packet \<Rightarrow> bool" where
  "same_message a b \<longleftrightarrow> pc_signature a = pc_signature b \<and> pc_message a = pc_message b \<and>
     pc_sender a = pc_sender b \<and> pc_index a = pc_index b"

lemma broadcast_chat_effects:
  "e \<in> set (fst (broadcast_chat pkt ls sig rec rs s)) \<Longrightarrow>
     \<exists>r pkt'. e = SendChat r pkt' \<and> r \<in> set rs \<and> wanted rec r \<and> same_message pkt' pkt"
proof (induction pkt ls sig rec rs s rule: broadcast_chat.induct)
  case (2 pkt ls sig rec r rs s)
  show ?case
  proof (cases "wanted rec r")
    case False
    then show ?thesis using 2 by auto
  next
    case True
    obtain n previous cs where d: "deliver_signed ls sig (chats s r) = (n, previous, cs)"
      by (cases "deliver_signed ls sig (chats s r)") auto
    let ?pkt = "pkt\<lparr>pc_global_index := n, pc_previous := previous\<rparr>"
    have "e = SendChat r ?pkt \<or> e \<in> set (fst (broadcast_chat pkt ls sig rec rs (set_chat r cs s)))"
      using "2.prems" True d by (auto split: prod.splits)
    moreover have "same_message ?pkt pkt" by (simp add: same_message_def)
    ultimately show ?thesis using "2.IH"(2) [OF _ d [symmetric]] True by auto
  qed
qed simp

lemma broadcast_unsigned_effects:
  "e \<in> set (fst (broadcast_unsigned_chat pkt rec rs s)) \<Longrightarrow>
     \<exists>r pkt'. e = SendChat r pkt' \<and> r \<in> set rs \<and> wanted rec r \<and> same_message pkt' pkt"
proof (induction pkt rec rs s rule: broadcast_unsigned_chat.induct)
  case (2 pkt rec r rs s)
  show ?case
  proof (cases "wanted rec r")
    case False
    then show ?thesis using 2 by auto
  next
    case True
    obtain n cs where d: "get_and_increment_messages_received (chats s r) = (n, cs)" by fastforce
    let ?pkt = "pkt\<lparr>pc_global_index := n\<rparr>"
    have "e = SendChat r ?pkt \<or> e \<in> set (fst (broadcast_unsigned_chat pkt rec rs (set_chat r cs s)))"
      using "2.prems" True d by (auto split: prod.splits)
    moreover have "same_message ?pkt pkt" by (simp add: same_message_def)
    ultimately show ?thesis using "2.IH"(2) [OF _ d [symmetric]] True by auto
  qed
qed simp

lemma in_every_world_effects:
  assumes "e \<in> set (fst (in_every_world f ws s))"
  shows "\<exists>w \<in> set ws. \<exists>s'. e \<in> set (fst (f w s'))"
  using assms
proof (induction ws arbitrary: s)
  case (Cons w ws)
  obtain es s1 where 1: "f w s = (es, s1)" by fastforce
  obtain es' s2 where 2: "in_every_world f ws s1 = (es', s2)" by fastforce
  have "e \<in> set (fst (f w s)) \<or> e \<in> set (fst (in_every_world f ws s1))"
    using Cons.prems 1 2 by simp
  then show ?case using Cons.IH [of s1] by auto
qed simp

lemma then_detect_spam_sends:
  "SendChat r pkt \<in> set (fst (then_detect_spam env p x)) \<longleftrightarrow> SendChat r pkt \<in> set (fst x)"
  by (cases x) (auto simp: then_detect_spam_def detect_chat_rate_spam_def split: prod.splits)

lemma fold_edits_unchanged:
  "\<not> ce_changed (fold apply_edit es e) \<Longrightarrow> \<not> ce_changed e \<and> ce_message (fold apply_edit es e) = ce_message e"
proof (induction es arbitrary: e)
  case (Cons x es)
  then have "\<not> ce_changed (apply_edit x e)" "ce_message (fold apply_edit (x # es) e) = ce_message (apply_edit x e)"
    by auto
  then show ?case by (cases x) auto
qed simp

lemma fire_chat_event_unchanged:
  "\<not> ce_changed (fire_chat_event env p msg) \<Longrightarrow> ce_message (fire_chat_event env p msg) = msg"
  using fold_edits_unchanged [of "listeners env p msg"]
  by (fastforce simp: fire_chat_event_def chat_event_new_def)

text \<open>
  A message that reaches anybody was legal and not refused, was not cancelled, and is the event's
  text; the signature it carries is that of the packet, verified, over an unchanged text.
\<close>

lemma handle_chat_sends:
  assumes "SendChat r pkt \<in> set (fst (handle_chat env p m s))"
  defines "v \<equiv> fst (verification_of env s p m)"
    and "ev \<equiv> fire_chat_event env p (sc_message m)"
  shows "\<not> is_chat_message_illegal (sc_message m) \<and> refusal env v = None \<and> \<not> ce_cancelled ev \<and>
    ce_rendered ev = [] \<and> pc_message pkt = ce_message ev \<and> r \<in> set (ce_recipients ev) \<and>
    (\<exists>w \<in> set (world_players s). r \<in> set w) \<and>
    pc_signature pkt = (if ce_changed ev then None
                        else case v of Some (Inr _) \<Rightarrow> sc_signature m | _ \<Rightarrow> None)"
proof -
  obtain v' s1 where vs: "verification_of env s p m = (v', s1)" by fastforce
  then have v: "v' = v" by (simp add: v_def)
  have wp: "world_players s1 = world_players s"
    using vs by (auto simp: verification_of_def split: option.splits prod.splits)
  have legal: "\<not> is_chat_message_illegal (sc_message m)"
    using assms(1) by (auto simp: handle_chat_def)
  have ref: "refusal env v = None"
    using assms(1) legal vs v by (auto simp: handle_chat_def split: option.splits)
  let ?sig = "if ce_changed ev then None else case v of Some (Inr _) \<Rightarrow> sc_signature m | _ \<Rightarrow> None"
  let ?pkt = "build_chat_packet p (messages_sent (chats s1 p)) ?sig (ce_message ev) (ce_content ev) m"
  have not_cancelled: "\<not> ce_cancelled ev"
    using assms(1) legal vs v ref
    by (auto simp: handle_chat_def Let_def then_detect_spam_sends ev_def [symmetric])
  have not_rendered: "ce_rendered ev = []"
    using assms(1) legal vs v ref not_cancelled
    by (auto simp: handle_chat_def Let_def then_detect_spam_sends ev_def [symmetric] deliver_rendered_def
        split: if_splits)
  have "\<exists>w \<in> set (world_players s). r \<in> set w \<and> wanted (Some (ce_recipients ev)) r \<and> same_message pkt ?pkt"
  proof -
    let ?ls = "case v of Some (Inr (_, seen)) \<Rightarrow> seen | _ \<Rightarrow> []"
    let ?s2 = "set_chat p ((chats s1 p)\<lparr>messages_sent := wrap_i32 (messages_sent (chats s1 p) + 1)\<rparr>) s1"
    let ?signed = "\<lambda>g. broadcast_chat ?pkt ?ls (Some g) (Some (ce_recipients ev))"
    let ?unsigned = "broadcast_unsigned_chat ?pkt (Some (ce_recipients ev))"
    have eq: "handle_chat env p m s = then_detect_spam env p
      (case ?sig of
         Some g \<Rightarrow> if length g = 256 then in_every_world (?signed g) (world_players ?s2) ?s2
                   else in_every_world ?unsigned (world_players ?s2) ?s2
       | None \<Rightarrow> in_every_world ?unsigned (world_players ?s2) ?s2)"
      using legal vs v ref not_cancelled not_rendered wp
      by (simp add: handle_chat_def Let_def ev_def [symmetric])
    have "(\<exists>g. SendChat r pkt \<in> set (fst (in_every_world (?signed g) (world_players ?s2) ?s2))) \<or>
        SendChat r pkt \<in> set (fst (in_every_world ?unsigned (world_players ?s2) ?s2))"
      using assms(1) unfolding eq then_detect_spam_sends by (auto split: option.splits if_splits)
    then obtain f where fs: "SendChat r pkt \<in> set (fst (in_every_world f (world_players ?s2) ?s2))"
      "(\<exists>ls g. f = broadcast_chat ?pkt ls g (Some (ce_recipients ev))) \<or> f = ?unsigned"
      by blast
    have wp2: "world_players ?s2 = world_players s" using wp by simp
    from in_every_world_effects [OF fs(1), unfolded wp2] obtain w s' where w: "w \<in> set (world_players s)"
      "SendChat r pkt \<in> set (fst (f w s'))"
      by blast
    from fs(2) show ?thesis
    proof
      assume "\<exists>ls g. f = broadcast_chat ?pkt ls g (Some (ce_recipients ev))"
      then obtain ls g where "f = broadcast_chat ?pkt ls g (Some (ce_recipients ev))" by blast
      then show ?thesis using w broadcast_chat_effects [of _ ?pkt ls g _ w s'] by fastforce
    next
      assume "f = broadcast_unsigned_chat ?pkt (Some (ce_recipients ev))"
      then show ?thesis using w broadcast_unsigned_effects [of _ ?pkt _ w s'] by fastforce
    qed
  qed
  then show ?thesis
    using legal ref not_cancelled not_rendered
    by (auto simp: same_message_def build_chat_packet_def wanted_def)
qed

section \<open>What verification means\<close>

lemma verify_accepts:
  assumes "verify_chat_signature env cs m = (Inr (link, seen), cs')"
  shows "\<exists>session c sig c' v. chat_session cs = Some session \<and> chat_chain cs = Some c \<and>
    sc_signature m = Some sig \<and>
    \<not> has_expired_with_grace (now_key env) (cs_profile_key session) EXPIRY_GRACE_PERIOD \<and>
    message_age env m \<le> MESSAGE_EXPIRES_AFTER \<and>
    apply_update (chat_validator cs) (sc_acknowledged m) (sc_offset m) (sc_checksum m) = (Inr seen, v) \<and>
    validate_and_advance c (body_of m seen) = (Inr link, c') \<and>
    check_signature env (pk_key (cs_profile_key session)) (signature_payload link (body_of m seen)) sig
      = Some True \<and>
    cs' = cs\<lparr>chat_validator := v, chat_chain := Some c'\<rparr>"
  using assms
  by (auto simp: verify_chat_signature_def Let_def split: option.splits if_splits sum.splits prod.splits)

lemma verify_chain_cases:
  assumes "chat_chain cs = Some c"
  shows "chat_chain (snd (verify_chat_signature env cs m)) = Some c \<and>
      (\<exists>e. fst (verify_chat_signature env cs m) = Inl e) \<or>
    (\<exists>seen. chat_chain (snd (verify_chat_signature env cs m)) =
        Some (snd (validate_and_advance c (body_of m seen))) \<and>
      (\<forall>link seen'. fst (verify_chat_signature env cs m) = Inr (link, seen') \<longrightarrow>
         seen' = seen \<and> fst (validate_and_advance c (body_of m seen)) = Inr link))"
proof (cases "chat_session cs = None \<or> sc_signature m = None \<or>
    (\<exists>s. chat_session cs = Some s \<and>
       has_expired_with_grace (now_key env) (cs_profile_key s) EXPIRY_GRACE_PERIOD) \<or> is_broken c \<or>
    message_age env m > MESSAGE_EXPIRES_AFTER")
  case True
  have "chat_chain (snd (verify_chat_signature env cs m)) = Some c \<and>
      (\<exists>e. fst (verify_chat_signature env cs m) = Inl e)"
    using True assms by (elim disjE) (auto simp: verify_chat_signature_def Let_def split: option.split)
  then show ?thesis ..
next
  case False
  then obtain session sig where s: "chat_session cs = Some session" "sc_signature m = Some sig" by auto
  obtain r v where u: "apply_update (chat_validator cs) (sc_acknowledged m) (sc_offset m) (sc_checksum m) = (r, v)"
    by fastforce
  show ?thesis
  proof (cases r)
    case (Inl e)
    then show ?thesis using False s u assms by (auto simp: verify_chat_signature_def Let_def)
  next
    case (Inr seen)
    obtain r' c' where a: "validate_and_advance c (body_of m seen) = (r', c')" by fastforce
    then show ?thesis
      using False s u Inr assms
      by (intro disjI2 exI [of _ seen])
        (auto simp: verify_chat_signature_def Let_def split: sum.split option.split)
  qed
qed

section \<open>Runs of the chat service\<close>

datatype ('k, 'c) chat_action =
    Chat "('k, 'c) chat_env" nat schat
  | PluginChat "('k, 'c) chat_env" nat message int
  | Command "('k, 'c) chat_env" nat
  | ChatAck nat int
  | SessionUpdate "'k \<Rightarrow> bytes option" "(bytes \<Rightarrow> bytes \<Rightarrow> bool option) option" nat nat int "'k option" bytes
  | CreativeDrop nat
  | SpamTick nat

fun chat_step :: "('k, 'c) chat_action \<Rightarrow> 'k chat_server \<Rightarrow> 'k chat_server" where
  "chat_step (Chat env p m) s = snd (handle_chat env p m s)"
| "chat_step (PluginChat env p msg now) s = snd (chat_from_plugin env p msg now s)"
| "chat_step (Command env p) s = snd (detect_command_rate_spam env p s)"
| "chat_step (ChatAck p offset) s = handle_chat_ack p offset s"
| "chat_step (SessionUpdate enc validator p sid expires key ksig) s =
     snd (handle_chat_session_update enc validator p sid expires key ksig s
            :: unit chat_effect list \<times> 'k chat_server)"
| "chat_step (CreativeDrop p) s = set_chat p (snd (allow_creative_drop (chats s p))) s"
| "chat_step (SpamTick p) s = set_chat p (tick_spam_throttlers (chats s p)) s"

text \<open>The message of a player that a step verifies, as its link and body.\<close>

fun verified_in :: "nat \<Rightarrow> ('k, 'c) chat_action \<Rightarrow> 'k chat_server \<Rightarrow> (message_link \<times> message_body) list" where
  "verified_in q (Chat env p m) s =
     (if p = q \<and> \<not> is_chat_message_illegal (sc_message m) then
        (case fst (verification_of env s p m) of
           Some (Inr (link, seen)) \<Rightarrow> [(link, body_of m seen)]
         | _ \<Rightarrow> [])
      else [])"
| "verified_in q _ s = []"

fun verified_run ::
  "nat \<Rightarrow> ('k, 'c) chat_action list \<Rightarrow> 'k chat_server \<Rightarrow> (message_link \<times> message_body) list" where
  "verified_run q [] s = []"
| "verified_run q (a # as) s = verified_in q a s @ verified_run q as (chat_step a s)"

fun updates_session :: "nat \<Rightarrow> ('k, 'c) chat_action \<Rightarrow> bool" where
  "updates_session q (SessionUpdate enc validator p sid expires key ksig) \<longleftrightarrow> p = q"
| "updates_session q _ \<longleftrightarrow> False"

text \<open>A chain of one session whose next link, if it has one, is at \<open>lo\<close> or later.\<close>

definition chain_at :: "nat \<Rightarrow> nat \<Rightarrow> int \<Rightarrow> message_chain \<Rightarrow> bool" where
  "chain_at p sid lo c \<longleftrightarrow>
     (\<forall>l. next_link c = Some l \<longrightarrow>
        link_sender l = p \<and> link_session l = sid \<and> lo \<le> link_index l \<and> link_index l < 2 ^ 31)"

lemma chain_at_new: "chain_at p sid 0 (chain_new p sid)"
  by (simp add: chain_at_def chain_new_def link_root_def)

lemma chain_at_mono: "chain_at p sid lo c \<Longrightarrow> lo' \<le> lo \<Longrightarrow> chain_at p sid lo' c"
  by (auto simp: chain_at_def)

lemma validate_chain_at:
  assumes "chain_at p sid lo c" "validate_and_advance c b = (r, c')"
  shows "chain_at p sid lo c' \<and> (\<forall>l. r = Inr l \<longrightarrow> link_sender l = p \<and> link_session l = sid \<and>
     lo \<le> link_index l \<and> link_index l < 2 ^ 31 \<and> chain_at p sid (link_index l + 1) c')"
proof (cases "next_link c")
  case None
  then show ?thesis using assms by (auto simp: validate_and_advance_def)
next
  case (Some l)
  then have l: "link_sender l = p" "link_session l = sid" "lo \<le> link_index l" "link_index l < 2 ^ 31"
    using assms(1) by (simp_all add: chain_at_def)
  show ?thesis
  proof (cases "time_stamp b < last_timestamp c")
    case True
    then have "r = Inl OutOfOrderChat" "c' = break_chain c"
      using assms(2) Some by (simp_all add: validate_and_advance_def)
    then show ?thesis by (simp add: chain_at_def break_chain_def)
  next
    case False
    then have r: "r = Inr l" "next_link c' = link_advance l"
      using assms(2) Some by (auto simp: validate_and_advance_def)
    have adv: "chain_at p sid (link_index l + 1) c'"
      using l by (auto simp: chain_at_def r(2) link_advance_def)
    then have "chain_at p sid lo c'" by (rule chain_at_mono) (use l in simp)
    then show ?thesis using adv l r(1) by simp
  qed
qed

lemma verification_of_chain:
  assumes "chain_of s p = Some c" "chain_at p sid lo c"
  shows "\<exists>c'. chain_of (snd (verification_of env s p m)) p = Some c' \<and> chain_at p sid lo c' \<and>
    (\<forall>link seen. fst (verification_of env s p m) = Some (Inr (link, seen)) \<longrightarrow>
       link_sender link = p \<and> link_session link = sid \<and> lo \<le> link_index link \<and>
       link_index link < 2 ^ 31 \<and> chain_at p sid (link_index link + 1) c')"
proof (cases "sc_signature m")
  case None
  then show ?thesis using assms by (simp add: verification_of_def)
next
  case (Some sig)
  obtain r cs' where v: "verify_chat_signature env (chats s p) m = (r, cs')" by fastforce
  then have vo: "verification_of env s p m = (Some r, set_chat p cs' s)"
    using Some by (simp add: verification_of_def)
  have "chat_chain (chats s p) = Some c" using assms(1) by (simp add: chain_of_def)
  from verify_chain_cases [OF this, of env m]
  consider (same) "chat_chain cs' = Some c" "\<exists>e. r = Inl e"
    | (moved) seen where "chat_chain cs' = Some (snd (validate_and_advance c (body_of m seen)))"
      "\<forall>link seen'. r = Inr (link, seen') \<longrightarrow>
         seen' = seen \<and> fst (validate_and_advance c (body_of m seen)) = Inr link"
    unfolding v by auto
  then show ?thesis
  proof cases
    case same
    then show ?thesis using assms(2) vo by auto
  next
    case (moved seen)
    obtain r' c' where a: "validate_and_advance c (body_of m seen) = (r', c')" by fastforce
    note v' = validate_chain_at [OF assms(2) a]
    have "chain_of (snd (verification_of env s p m)) p = Some c'"
      using moved(1) a vo by simp
    moreover have "r' = Inr link" if "fst (verification_of env s p m) = Some (Inr (link, seen'))" for link seen'
      using that moved(2) a vo by simp
    ultimately show ?thesis using v' by blast
  qed
qed

lemma verification_of_other: "q \<noteq> p \<Longrightarrow> chain_of (snd (verification_of env s p m)) q = chain_of s q"
  by (auto simp: verification_of_def split: option.splits prod.splits)

lemma chat_step_chain:
  assumes "chain_of s q = Some c" "chain_at q sid lo c" "\<not> updates_session q a"
  shows "\<exists>c' lo'. chain_of (chat_step a s) q = Some c' \<and> lo \<le> lo' \<and> chain_at q sid lo' c' \<and>
    (verified_in q a s = [] \<or>
     (\<exists>link b. verified_in q a s = [(link, b)] \<and> link_sender link = q \<and> link_session link = sid \<and>
        lo \<le> link_index link \<and> link_index link < lo' \<and> link_index link < 2 ^ 31))"
proof -
  have idle: ?thesis if "chain_of (chat_step a s) q = chain_of s q" "verified_in q a s = []"
    using that assms by auto
  have chat: ?thesis if a: "a = Chat env p m" for env p m
  proof (cases "p = q \<and> \<not> is_chat_message_illegal (sc_message m)")
    case False
    then have "chain_of (chat_step a s) q = chain_of s q"
      using verification_of_other [of q p env s m] by (auto simp: a handle_chat_chain)
    then show ?thesis using False a by (intro idle) auto
  next
    case True
    from verification_of_chain [OF assms(1,2), of env m] obtain c' where
      c': "chain_of (snd (verification_of env s q m)) q = Some c'" "chain_at q sid lo c'"
      "\<forall>link seen. fst (verification_of env s q m) = Some (Inr (link, seen)) \<longrightarrow>
         link_sender link = q \<and> link_session link = sid \<and> lo \<le> link_index link \<and>
         link_index link < 2 ^ 31 \<and> chain_at q sid (link_index link + 1) c'"
      by blast
    have ch: "chain_of (chat_step a s) q = Some c'"
      using True c'(1) by (simp add: a handle_chat_chain)
    show ?thesis
    proof (cases "\<exists>link seen. fst (verification_of env s q m) = Some (Inr (link, seen))")
      case True': True
      then obtain link seen where "fst (verification_of env s q m) = Some (Inr (link, seen))" by blast
      then show ?thesis
        using ch c'(3) True a by (intro exI [of _ c'] exI [of _ "link_index link + 1"]) auto
    next
      case False
      then have "verified_in q a s = []"
        using True by (auto simp: a split: option.split sum.split)
      then show ?thesis using ch c'(2) by (intro exI [of _ c'] exI [of _ lo]) auto
    qed
  qed
  show ?thesis
  proof (cases a)
    case (Chat env p m)
    then show ?thesis by (rule chat)
  next
    case (PluginChat env p msg now)
    then show ?thesis
      by (intro idle) (simp_all add: chat_from_plugin_def handle_chat_chain verification_of_def)
  next
    case (Command env p)
    then show ?thesis
      by (intro idle) (auto simp: detect_command_rate_spam_def simp flip: chain_of_def split: prod.splits)
  next
    case (ChatAck p offset)
    then show ?thesis by (intro idle) (auto simp: handle_chat_ack_def simp flip: chain_of_def)
  next
    case (SessionUpdate enc validator p s' expires key ksig)
    then have "p \<noteq> q" using assms(3) by simp
    then show ?thesis
      using SessionUpdate
      by (intro idle) (auto simp: handle_chat_session_update_def set_chat_session_def Let_def
          split: option.splits session_outcome.splits)
  next
    case (CreativeDrop p)
    then show ?thesis
      by (intro idle) (auto simp: allow_creative_drop_def simp flip: chain_of_def split: prod.splits)
  next
    case (SpamTick p)
    then show ?thesis by (intro idle) (auto simp: tick_spam_throttlers_def simp flip: chain_of_def)
  qed
qed

lemma verified_run_links:
  assumes "chain_of s q = Some c" "chain_at q sid lo c" "\<forall>a \<in> set as. \<not> updates_session q a"
  shows "sorted_wrt (\<lambda>x y. link_index (fst x) < link_index (fst y)) (verified_run q as s) \<and>
    (\<forall>(l, b) \<in> set (verified_run q as s). link_sender l = q \<and> link_session l = sid \<and>
       lo \<le> link_index l \<and> link_index l < 2 ^ 31)"
  using assms
proof (induction as arbitrary: s c lo)
  case (Cons a as)
  from chat_step_chain [OF Cons.prems(1,2), of a] Cons.prems(3) obtain c' lo' where
    s: "chain_of (chat_step a s) q = Some c'" "lo \<le> lo'" "chain_at q sid lo' c'"
    "verified_in q a s = [] \<or>
     (\<exists>link b. verified_in q a s = [(link, b)] \<and> link_sender link = q \<and> link_session link = sid \<and>
        lo \<le> link_index link \<and> link_index link < lo' \<and> link_index link < 2 ^ 31)"
    by auto
  have IH: "sorted_wrt (\<lambda>x y. link_index (fst x) < link_index (fst y)) (verified_run q as (chat_step a s))"
    "\<forall>(l, b) \<in> set (verified_run q as (chat_step a s)). link_sender l = q \<and> link_session l = sid \<and>
       lo' \<le> link_index l \<and> link_index l < 2 ^ 31"
    using Cons.IH [OF s(1,3)] Cons.prems(3) by simp_all
  from s(4) show ?case
  proof
    assume "verified_in q a s = []"
    then show ?thesis using IH s(2) by fastforce
  next
    assume "\<exists>link b. verified_in q a s = [(link, b)] \<and> link_sender link = q \<and> link_session link = sid \<and>
        lo \<le> link_index link \<and> link_index link < lo' \<and> link_index link < 2 ^ 31"
    then obtain link b where l: "verified_in q a s = [(link, b)]" "link_sender link = q"
      "link_session link = sid" "lo \<le> link_index link" "link_index link < lo'" "link_index link < 2 ^ 31"
      by blast
    then show ?thesis using IH s(2) by fastforce
  qed
qed simp

lemma payload_link:
  "signature_payload l b = signature_payload l' b' \<Longrightarrow> link_ok l \<Longrightarrow> link_ok l' \<Longrightarrow> l = l'"
  by (rule link_bytes_inject) (simp_all add: signature_payload_def)

text \<open>Nothing that was signed is accepted twice.\<close>

lemma verified_payloads_distinct:
  assumes "sorted_wrt (\<lambda>x y. link_index (fst x) < link_index (fst y)) vs" "\<forall>(l, b) \<in> set vs. link_ok l"
  shows "distinct (map (\<lambda>(l, b). signature_payload l b) vs)"
  using assms
proof (induction vs)
  case (Cons v vs)
  obtain l b where v: "v = (l, b)" by fastforce
  have "signature_payload l b \<noteq> signature_payload l' b'" if "(l', b') \<in> set vs" for l' b'
  proof
    assume "signature_payload l b = signature_payload l' b'"
    moreover have "link_ok l" "link_ok l'" using Cons.prems(2) that v by auto
    ultimately have "l = l'" by (rule payload_link)
    then show False using Cons.prems(1) that v by fastforce
  qed
  then show ?case using Cons v by fastforce
qed simp

section \<open>Client and server caches\<close>

text \<open>
  A run of signed messages delivered to one player, each with its sender's last seen signatures and
  its own; and the client that reads the references with its array and pushes what it read.
\<close>

fun deliver_run ::
  "(signature list \<times> signature) list \<Rightarrow> 'k chat_state \<Rightarrow> (previous_message list \<times> signature) list \<times> 'k chat_state" where
  "deliver_run [] cs = ([], cs)"
| "deliver_run ((ls, g) # ms) cs =
     (case deliver_signed ls (Some g) cs of
        (n, previous, cs1) \<Rightarrow>
          (case deliver_run ms cs1 of (ps, cs2) \<Rightarrow> ((previous, g) # ps, cs2)))"

fun client_run ::
  "(previous_message list \<times> signature) list \<Rightarrow> signature option list
     \<Rightarrow> signature option list list \<times> signature option list" where
  "client_run [] entries = ([], entries)"
| "client_run ((previous, g) # ps) entries =
     (let read = map (read_previous entries) previous;
          entries' = vanilla_push (map the read @ [g]) entries in
      (case client_run ps entries' of (rs, entries'') \<Rightarrow> (read # rs, entries'')))"

text \<open>Every message carries a new signature, and names earlier ones without repetition.\<close>

fun fresh_run :: "signature set \<Rightarrow> (signature list \<times> signature) list \<Rightarrow> bool" where
  "fresh_run used [] \<longleftrightarrow> True"
| "fresh_run used ((ls, g) # ms) \<longleftrightarrow>
     g \<notin> used \<and> g \<notin> set ls \<and> distinct ls \<and> fresh_run (insert g (used \<union> set ls)) ms"

definition cache_in :: "signature set \<Rightarrow> signature list \<Rightarrow> bool" where
  "cache_in used cache \<longleftrightarrow> distinct cache \<and> length cache \<le> MAX_CACHED_SIGNATURES \<and> set cache \<subseteq> used"

lemma deliver_signed_cache:
  assumes "cache_in used (full_cache (signature_cache cs))" "g \<notin> used" "g \<notin> set ls" "distinct ls"
    and "deliver_signed ls (Some g) cs = (n, previous, cs1)"
  shows "map (read_previous (entries_of (full_cache (signature_cache cs)))) previous = map Some ls"
    and "vanilla_push (ls @ [g]) (entries_of (full_cache (signature_cache cs))) =
      entries_of (full_cache (signature_cache cs1))"
    and "cache_in (insert g (used \<union> set ls)) (full_cache (signature_cache cs1))"
proof -
  let ?c = "signature_cache cs"
  have len: "length (full_cache ?c) \<le> MAX_CACHED_SIGNATURES" using assms(1) by (simp add: cache_in_def)
  have d: "previous = index_previous_messages ?c ls" "signature_cache cs1 = cache_push ?c ls (Some g)"
    using assms(5) by (auto simp: deliver_signed_def get_and_increment_messages_received_def Let_def)
  show "map (read_previous (entries_of (full_cache ?c))) previous = map Some ls"
    unfolding d(1) by (rule read_index [OF len])
  have p: "pushed_signatures ls (Some g) = ls @ [g]" by (simp add: pushed_signatures_def)
  have "\<exists>x \<in> set (ls @ [g]). x \<notin> set (full_cache ?c)" "distinct (ls @ [g])" "distinct (full_cache ?c)"
    using assms(1-4) by (auto simp: cache_in_def)
  note full = push_loop_full [OF this(3,2) len this(1)]
  have fc: "full_cache (signature_cache cs1) =
      take MAX_CACHED_SIGNATURES (rev (ls @ [g]) @ filter (\<lambda>s. s \<notin> set (ls @ [g])) (full_cache ?c))"
    unfolding d(2) using full(1) by (simp add: cache_push_def p Let_def)
  have "length (full_cache ?c) \<le> length (full_cache (cache_push ?c ls (Some g)))"
    using full(2) by (simp add: cache_push_def p Let_def)
  from cache_push_agrees [OF len this]
  show "vanilla_push (ls @ [g]) (entries_of (full_cache ?c)) = entries_of (full_cache (signature_cache cs1))"
    unfolding d(2) p .
  show "cache_in (insert g (used \<union> set ls)) (full_cache (signature_cache cs1))"
    unfolding fc using assms(1,3,4)
    by (auto simp: cache_in_def dest!: in_set_takeD intro!: distinct_take)
qed

lemma deliver_run_in_step:
  assumes "cache_in used (full_cache (signature_cache cs))" "fresh_run used ms"
  shows "client_run (fst (deliver_run ms cs)) (entries_of (full_cache (signature_cache cs))) =
    (map (\<lambda>(ls, g). map Some ls) ms, entries_of (full_cache (signature_cache (snd (deliver_run ms cs)))))"
  using assms
proof (induction ms arbitrary: cs used)
  case (Cons m ms)
  obtain ls g where m: "m = (ls, g)" by fastforce
  obtain n previous cs1 where d: "deliver_signed ls (Some g) cs = (n, previous, cs1)"
    by (cases "deliver_signed ls (Some g) cs") auto
  obtain ps cs2 where r: "deliver_run ms cs1 = (ps, cs2)" by fastforce
  have f: "g \<notin> used" "g \<notin> set ls" "distinct ls" "fresh_run (insert g (used \<union> set ls)) ms"
    using Cons.prems(2) m by simp_all
  note step = deliver_signed_cache [OF Cons.prems(1) f(1-3) d]
  have "map the (map Some ls) = ls" by (simp add: comp_def)
  then show ?case
    using Cons.IH [OF step(3) f(4)] step(1,2) d r m by (simp add: Let_def)
qed simp

end
