(* ===== verification/ChatProps.thy ===== *)
theory ChatProps
  imports ChatLemmas
begin

text \<open>
  The properties of the chat service: what a delivered signature guarantees, that nothing signed is
  accepted twice, that the server's signature caches stay the clients', what an acknowledgement
  update does, how fast a player may drop items, and the profile keys. The instances at the front
  are the inputs of the witnesses.
\<close>

section \<open>Instances\<close>

definition demo_key :: "unit profile_key_data" where
  "demo_key = \<lparr>expires_at = 10 ^ 15, pk_key = (), key_signature = [1]\<rparr>"

definition demo_chat_env :: "(unit, unit) chat_env" where
  "demo_chat_env =
     \<lparr>enforces_secure_chat = True, is_operator = (\<lambda>_. False), online_ids = [1, 2],
      accepts_chat = (\<lambda>_. True), listeners = (\<lambda>_ _. []),
      check_signature = (\<lambda>_ _ _. Some True), now_key = 5, now_message = 5\<rparr>"

definition demo_chat_server :: "unit chat_server" where
  "demo_chat_server =
     set_chat_session 1 \<lparr>cs_session_id = 7, cs_profile_key = demo_key\<rparr>
       \<lparr>chats = (\<lambda>_. chat_state_new 10 10), world_players = [[2, 1]]\<rparr>"

definition demo_message :: schat where
  "demo_message =
     \<lparr>sc_message = [72, 105], sc_timestamp = 0, sc_salt = 3, sc_signature = Some (replicate 256 9),
      sc_offset = 0, sc_acknowledged = [0, 0, 0], sc_checksum = 0\<rparr>"

section \<open>Messages\<close>

text \<open>C6: a message that reaches a player is legal and goes to a recipient of the event; where secure
  chat is enforced it was verified. A signature it carries is that of the sender's packet over
  exactly the text that is delivered: no listener rewrote it, the sender's acknowledgements were
  accepted, and the session's key verified it for the next link of the sender's chain.\<close>

theorem delivered_signature_is_honest:
  assumes "SendChat r pkt \<in> set (fst (handle_chat env p m s))"
  shows "\<not> is_chat_message_illegal (sc_message m) \<and>
    r \<in> set (ce_recipients (fire_chat_event env p (sc_message m))) \<and>
    (enforces_secure_chat env \<longrightarrow> (\<exists>ok. fst (verify_chat_signature env (chats s p) m) = Inr ok)) \<and>
    (\<forall>g. pc_signature pkt = Some g \<longrightarrow>
       sc_signature m = Some g \<and> pc_message pkt = sc_message m \<and>
       (\<exists>session c link seen. chat_session (chats s p) = Some session \<and>
          chat_chain (chats s p) = Some c \<and> next_link c = Some link \<and>
          fst (apply_update (chat_validator (chats s p)) (sc_acknowledged m) (sc_offset m) (sc_checksum m))
            = Inr seen \<and>
          check_signature env (pk_key (cs_profile_key session)) (signature_payload link (body_of m seen)) g
            = Some True))"
proof -
  note sent = handle_chat_sends [OF assms]
  let ?v = "fst (verification_of env s p m)"
  have ver: "?v = (case sc_signature m of None \<Rightarrow> None
      | Some _ \<Rightarrow> Some (fst (verify_chat_signature env (chats s p) m)))"
    by (simp add: verification_of_def split: option.split prod.split)
  have "\<exists>ok. fst (verify_chat_signature env (chats s p) m) = Inr ok" if "enforces_secure_chat env"
    using that sent ver by (auto simp: refusal_def split: option.splits sum.splits)
  moreover have "sc_signature m = Some g \<and> pc_message pkt = sc_message m \<and>
       (\<exists>session c link seen. chat_session (chats s p) = Some session \<and>
          chat_chain (chats s p) = Some c \<and> next_link c = Some link \<and>
          fst (apply_update (chat_validator (chats s p)) (sc_acknowledged m) (sc_offset m) (sc_checksum m))
            = Inr seen \<and>
          check_signature env (pk_key (cs_profile_key session)) (signature_payload link (body_of m seen)) g
            = Some True)" if "pc_signature pkt = Some g" for g
  proof -
    have unchanged: "\<not> ce_changed (fire_chat_event env p (sc_message m))"
      and g: "(case ?v of Some (Inr _) \<Rightarrow> sc_signature m | _ \<Rightarrow> None) = Some g"
      using sent that by (auto split: if_splits)
    from g obtain link seen where v: "?v = Some (Inr (link, seen))" and sig: "sc_signature m = Some g"
      by (auto split: option.splits sum.splits)
    obtain cs' where "verify_chat_signature env (chats s p) m = (Inr (link, seen), cs')"
      using v ver sig by (cases "verify_chat_signature env (chats s p) m") auto
    from verify_accepts [OF this] obtain session c sig' c' v' where a:
      "chat_session (chats s p) = Some session" "chat_chain (chats s p) = Some c"
      "sc_signature m = Some sig'"
      "apply_update (chat_validator (chats s p)) (sc_acknowledged m) (sc_offset m) (sc_checksum m) = (Inr seen, v')"
      "validate_and_advance c (body_of m seen) = (Inr link, c')"
      "check_signature env (pk_key (cs_profile_key session)) (signature_payload link (body_of m seen)) sig'
        = Some True"
      by blast
    have "next_link c = Some link"
      using a(5) by (auto simp: validate_and_advance_def split: option.splits if_splits)
    then show ?thesis
      using a sig sent fire_chat_event_unchanged [OF unchanged] by auto
  qed
  ultimately show ?thesis using sent by blast
qed

theorem delivered_signature_is_honest_witness:
  "\<exists>r pkt. SendChat r pkt \<in> set (fst (handle_chat demo_chat_env 1 demo_message demo_chat_server)) \<and>
     pc_signature pkt = Some (replicate 256 9) \<and> pc_message pkt = sc_message demo_message"
proof -
  have "list_ex (\<lambda>e. case e of SendChat r pkt \<Rightarrow> pc_signature pkt = Some (replicate 256 9) | _ \<Rightarrow> False)
      (fst (handle_chat demo_chat_env 1 demo_message demo_chat_server))"
    by code_simp
  then obtain e where e: "e \<in> set (fst (handle_chat demo_chat_env 1 demo_message demo_chat_server))"
    "case e of SendChat r pkt \<Rightarrow> pc_signature pkt = Some (replicate 256 9) | _ \<Rightarrow> False"
    unfolding list_ex_iff by blast
  then obtain r pkt where
    1: "SendChat r pkt \<in> set (fst (handle_chat demo_chat_env 1 demo_message demo_chat_server))"
    "pc_signature pkt = Some (replicate 256 9)"
    by - (cases e; auto)
  have "pc_message pkt = sc_message demo_message"
    using delivered_signature_is_honest [OF 1(1)] 1(2) by simp
  then show ?thesis using 1 by blast
qed

text \<open>C10: from the start of a session on, through any traffic of any players that does not replace
  it, the messages of the player that are verified use strictly increasing links of that session,
  so no two of them were signed over the same bytes: a recorded message is never accepted again.\<close>

theorem verified_messages_never_repeat:
  assumes "chain_of s p = Some (chain_new p sid)" "p < 2 ^ 128" "sid < 2 ^ 128"
    and "\<forall>a \<in> set as. \<not> updates_session p a"
  shows "sorted_wrt (\<lambda>x y. link_index (fst x) < link_index (fst y)) (verified_run p as s) \<and>
    (\<forall>(l, b) \<in> set (verified_run p as s). link_sender l = p \<and> link_session l = sid) \<and>
    distinct (map (\<lambda>(l, b). signature_payload l b) (verified_run p as s))"
proof -
  note links = verified_run_links [OF assms(1) chain_at_new assms(4)]
  have ok: "\<forall>(l, b) \<in> set (verified_run p as s). link_ok l"
    using links assms(2,3) by (fastforce simp: link_ok_def in_i32_def)
  have "distinct (map (\<lambda>(l, b). signature_payload l b) (verified_run p as s))"
    using verified_payloads_distinct [of "verified_run p as s"] ok links by blast
  then show ?thesis using links by auto
qed

theorem verified_messages_never_repeat_witness:
  "length (verified_run 1 [Chat demo_chat_env 1 demo_message, Chat demo_chat_env 1 demo_message]
       demo_chat_server) = 2 \<and>
   distinct (map (\<lambda>(l, b). signature_payload l b)
     (verified_run 1 [Chat demo_chat_env 1 demo_message, Chat demo_chat_env 1 demo_message]
       demo_chat_server))"
proof -
  have chain: "chain_of demo_chat_server 1 = Some (chain_new 1 7)"
    by (simp add: demo_chat_server_def set_chat_session_def)
  have "length (verified_run 1 [Chat demo_chat_env 1 demo_message, Chat demo_chat_env 1 demo_message]
       demo_chat_server) = 2"
    by code_simp
  moreover have "distinct (map (\<lambda>(l, b). signature_payload l b)
     (verified_run 1 [Chat demo_chat_env 1 demo_message, Chat demo_chat_env 1 demo_message]
       demo_chat_server))"
    by (rule verified_messages_never_repeat [THEN conjunct2, THEN conjunct2, OF chain]) simp_all
  ultimately show ?thesis by blast
qed

section \<open>Signature caches\<close>

text \<open>C14: as long as every signed message brings a new signature and names earlier ones without
  repetition, a client that started with an empty array decodes the references of every message to
  exactly the sender's last seen signatures, and its array stays the server's cache for it.\<close>

theorem signature_caches_stay_in_step:
  assumes "full_cache (signature_cache cs) = []" "fresh_run {} ms"
  shows "client_run (fst (deliver_run ms cs)) (replicate 128 None) =
    (map (\<lambda>(ls, g). map Some ls) ms, entries_of (full_cache (signature_cache (snd (deliver_run ms cs)))))"
proof -
  have "cache_in {} (full_cache (signature_cache cs))" using assms(1) by (simp add: cache_in_def)
  moreover have "entries_of (full_cache (signature_cache cs)) = replicate 128 None"
    using assms(1) by (simp add: entries_of_def MAX_CACHED_SIGNATURES_def)
  ultimately show ?thesis using deliver_run_in_step [OF _ assms(2), of cs] by simp
qed

theorem signature_caches_stay_in_step_witness:
  "fst (client_run (fst (deliver_run [([], [1]), ([[1]], [2]), ([[2], [1]], [3])]
     (chat_state_new 1 1 :: unit chat_state))) (replicate 128 None)) = [[], [Some [1]], [Some [2], Some [1]]]"
proof -
  have "full_cache (signature_cache (chat_state_new 1 1 :: unit chat_state)) = []"
    by (simp add: chat_state_new_def message_cache_new_def)
  moreover have "fresh_run {} [([], [1]), ([[1]], [2]), ([[2], [1]], [3])]" by simp
  ultimately show ?thesis by (simp only: signature_caches_stay_in_step) simp
qed

text \<open>a push leaves the cache the reference algorithm leaves in its array exactly if the new
  cache is at least as long as the old one. When every pushed signature was cached already, it can
  be shorter: the code then forgets the entries behind them, which the reference keeps.\<close>

theorem cache_push_matches_reference_iff:
  assumes "length (full_cache c) \<le> MAX_CACHED_SIGNATURES"
  shows "vanilla_push (pushed_signatures ls cur) (entries_of (full_cache c)) =
      entries_of (full_cache (cache_push c ls cur)) \<longleftrightarrow>
    length (full_cache c) \<le> length (full_cache (cache_push c ls cur))"
proof
  assume "length (full_cache c) \<le> length (full_cache (cache_push c ls cur))"
  then show "vanilla_push (pushed_signatures ls cur) (entries_of (full_cache c)) =
      entries_of (full_cache (cache_push c ls cur))"
    by (rule cache_push_agrees [OF assms])
next
  let ?new = "full_cache (cache_push c ls cur)"
  assume eq: "vanilla_push (pushed_signatures ls cur) (entries_of (full_cache c)) = entries_of ?new"
  show "length (full_cache c) \<le> length ?new"
  proof (rule ccontr)
    assume less: "\<not> length (full_cache c) \<le> length ?new"
    have "vanilla_push (pushed_signatures ls cur) (entries_of (full_cache c)) ! length ?new
        = entries_of (full_cache c) ! length ?new"
      unfolding vanilla_push_cache [OF assms] using assms less
      by (simp add: nth_append)
    also have "\<dots> = Some (full_cache c ! length ?new)"
      using less assms by (simp add: entries_nth)
    finally show False unfolding eq using less assms by (simp add: entries_nth)
  qed
qed

theorem cache_push_matches_reference_iff_witness:
  "full_cache (cache_push \<lparr>full_cache = [[1], [2], [3]], seen_signatures = []\<rparr> [] (Some [1])) = [[1]] \<and>
   vanilla_push [[1]] (entries_of [[1], [2], [3]]) \<noteq> entries_of [[1]]"
proof -
  let ?c = "\<lparr>full_cache = [[1], [2], [3]], seen_signatures = []\<rparr> :: message_cache"
  have new: "full_cache (cache_push ?c [] (Some [1])) = [[1]]"
    by (simp add: cache_push_def pushed_signatures_def push_loop.simps Let_def MAX_CACHED_SIGNATURES_def)
  have "length (full_cache ?c) \<le> MAX_CACHED_SIGNATURES" by (simp add: MAX_CACHED_SIGNATURES_def)
  from cache_push_matches_reference_iff [OF this, of "[]" "Some [1]"] new show ?thesis
    by (simp add: pushed_signatures_def)
qed

section \<open>Acknowledgements\<close>

text \<open>an update is accepted exactly if the offset leaves a full window and no bit contradicts the
  window: a set bit needs a tracked message, a clear one must not take back an acknowledgement. Then
  it yields the signatures the bits select, all of them sent before, and marks exactly the
  positions of the window; what lies behind the window is only moved.\<close>

theorem acknowledgement_update_correct:
  assumes "window_inv sent v"
  shows "((\<exists>seen. fst (apply_update v a offset checksum) = Inr seen) \<longleftrightarrow> update_allowed v a offset) \<and>
    window_inv sent (snd (apply_update v a offset checksum)) \<and>
    (\<forall>seen. fst (apply_update v a offset checksum) = Inr seen \<longrightarrow>
       (let w = drop (nat offset) (tracked_messages v); w' = tracked_messages (snd (apply_update v a offset checksum)) in
        seen = ack_signatures a 0 MAX_TRACKED_MESSAGES w \<and> set seen \<subseteq> sent \<and> length w' = length w \<and>
        (\<forall>k < length w. w' ! k =
           (if k < MAX_TRACKED_MESSAGES then ack_entry (ack_bit a k) (w ! k) else w ! k))))"
proof (cases "update_allowed v a offset")
  case True
  let ?w = "drop (nat offset) (tracked_messages v)"
  note ok = apply_update_accepts [OF assms True]
  have "MAX_TRACKED_MESSAGES \<le> length ?w"
    using True assms by (auto simp: update_allowed_def window_inv_def)
  then have "set (ack_signatures a 0 MAX_TRACKED_MESSAGES ?w) \<subseteq> sent"
    by (rule ack_signatures_sent [OF assms])
  then show ?thesis
    using True window_inv_apply_update [OF assms, of a offset checksum] by (simp add: ok Let_def)
next
  case False
  from apply_update_rejects [OF assms this] obtain e where "fst (apply_update v a offset checksum) = Inl e"
    by blast
  then show ?thesis
    using False window_inv_apply_update [OF assms, of a offset checksum] by simp
qed

theorem acknowledgement_update_correct_witness:
  "\<not> update_allowed validator_new [1, 0, 0] 0 \<and>
   (\<exists>e. fst (apply_update validator_new [1, 0, 0] 0 0) = Inl e)"
proof -
  have n: "\<not> update_allowed validator_new [1, 0, 0] 0"
    by (auto simp: update_allowed_def validator_new_def ack_allowed_def ack_bit_def
        MAX_TRACKED_MESSAGES_def intro!: bexI [of _ 0])
  then show ?thesis
    using acknowledgement_update_correct [OF window_inv_new, of "[1, 0, 0]" 0 0]
    by (cases "fst (apply_update validator_new [1, 0, 0] 0 0)") auto
qed

section \<open>Throttling\<close>

text \<open>however a player's drops and the ticks interleave, a throttler that charges \<open>step\<close> for a
  drop and gives back one per tick lets through fewer than a full bucket and the ticks pay for: for
  the limit of the code, 20 for each drop against 1480, \<open>20 * drops < 1500 + ticks\<close>.\<close>

theorem drops_are_limited:
  assumes "0 < step" "0 < limit" "limit + step < 2 ^ 31"
  shows "int (fst (run_drops (throttler_new step limit) es)) * step < limit + step + int (ticks_in es)"
proof -
  have "throttler_inv (throttler_new step limit)"
    using assms by (simp add: throttler_inv_def throttler_new_def)
  from run_drops_bound [OF this, of es] show ?thesis by (simp add: throttler_new_def)
qed

theorem drops_are_limited_witness:
  "int (fst (run_drops (throttler_new 20 1480) (replicate 100 ThrottleUse))) * 20 < 1500"
  using drops_are_limited [of 20 1480 "replicate 100 ThrottleUse"] by (simp add: ticks_in_def)

section \<open>Profile keys\<close>

text \<open>reading key data from bytes somebody sent never slices out of range, whatever lengths they
  claim: the answer is the data or an error.\<close>

theorem key_from_bytes_never_panics:
  assumes "length bs < 2 ^ 63"
  shows "key_from_bytes dec bs \<noteq> Inl SliceOutOfRange"
  using key_from_bytes_total [OF assms, of dec] by auto

theorem key_from_bytes_never_panics_witness:
  "key_from_bytes (\<lambda>b. Some ()) (replicate 8 0 @ [255, 255, 255, 255] @ replicate 8 0) \<noteq> Inl SliceOutOfRange"
  by (rule key_from_bytes_never_panics) simp

text \<open>key data that expires at a whole millisecond survives its byte format, wherever the codec
  of the key itself inverts.\<close>

theorem key_bytes_round_trip:
  assumes "enc (pk_key d) = Some kb" "dec kb = Some (pk_key d)"
    and "expires_at d = system_time_from_millis m" "in_i64 m"
    and "length kb < 2 ^ 31" "length (key_signature d) < 2 ^ 31"
  shows "\<exists>bs. key_to_bytes enc d = Inr bs \<and> key_from_bytes dec bs = Inr (Inr d)"
  by (rule key_round_trip [where kb = kb and m = m]) (rule assms)+

theorem key_bytes_round_trip_witness:
  "\<exists>bs. key_to_bytes (\<lambda>_. Some [4, 2]) demo_key = Inr bs \<and>
     key_from_bytes (\<lambda>_. Some ()) bs = Inr (Inr demo_key)"
  by (rule key_bytes_round_trip [where m = "10 ^ 9" and kb = "[4, 2]"])
    (simp_all add: demo_key_def system_time_from_millis_def in_i64_def)

text \<open>an update replaces a player's session only by one whose key the service signed for this
  very player and that does not expire before the key it replaces; the new chain starts at link 0
  of the new session, and nobody else's state changes.\<close>

theorem session_update_is_validated:
  assumes "snd (handle_chat_session_update enc validator p sid expires key ksig s) = s'" "s' \<noteq> s"
  shows "\<exists>k v kb. key = Some k \<and> validator = Some v \<and> enc k = Some kb \<and>
    v (be_u128 p @ be_i64 (system_time_to_millis (system_time_from_millis expires)) @ kb) ksig = Some True \<and>
    (\<forall>old. chat_session (chats s p) = Some old \<longrightarrow>
       expires_at (cs_profile_key old) \<le> system_time_from_millis expires) \<and>
    chain_of s' p = Some (chain_new p sid) \<and>
    (\<forall>q. q \<noteq> p \<longrightarrow> chats s' q = chats s q)"
proof -
  let ?old = "map_option cs_profile_key (chat_session (chats s p))"
  from assms obtain k where k: "key = Some k"
    by (cases key) (auto simp: handle_chat_session_update_def)
  let ?new = "\<lparr>cs_session_id = sid,
      cs_profile_key = \<lparr>expires_at = system_time_from_millis expires, pk_key = k, key_signature = ksig\<rparr>\<rparr>"
  obtain session where acc: "validate_chat_session_update enc ?old ?new p validator = SessionAccepted session"
    and s': "s' = set_chat_session p session s"
    using assms k by (auto simp: handle_chat_session_update_def Let_def split: session_outcome.splits)
  obtain v where v: "validator = Some v" "validate_session enc v ?new p = Inr session"
    and old: "\<not> (case ?old of Some d \<Rightarrow> expires_at (cs_profile_key ?new) < expires_at d | None \<Rightarrow> False)"
    using acc by (auto simp: validate_chat_session_update_def split: option.splits if_splits sum.splits)
  from v(2) obtain kb where kb: "enc k = Some kb"
    "v (be_u128 p @ be_i64 (system_time_to_millis (system_time_from_millis expires)) @ kb) ksig = Some True"
    and session: "session = ?new"
    by (auto simp: validate_session_def create_validated_def validate_signature_def signed_payload_def
        bind_result_Inr_iff split: option.splits if_splits)
  show ?thesis
    using k v(1) kb old s' session by (auto simp: set_chat_session_def not_less split: option.splits)
qed

theorem session_update_is_validated_witness:
  "chain_of (snd (handle_chat_session_update (\<lambda>_. Some [4]) (Some (\<lambda>_ _. Some True)) 2 9 50 (Some ()) [1]
      demo_chat_server :: unit chat_effect list \<times> unit chat_server)) 2 = Some (chain_new 2 9)"
proof -
  let ?r = "handle_chat_session_update (\<lambda>_. Some [4]) (Some (\<lambda>_ _. Some True)) 2 9 50 (Some ()) [1]
      demo_chat_server :: unit chat_effect list \<times> unit chat_server"
  have "chat_session (chats (snd ?r) 2) \<noteq> chat_session (chats demo_chat_server 2)"
    by (simp add: handle_chat_session_update_def validate_chat_session_update_def Let_def
        demo_chat_server_def set_chat_session_def chat_state_new_def validate_session_def
        create_validated_def validate_signature_def signed_payload_def)
  then have "snd ?r \<noteq> demo_chat_server" by auto
  from session_update_is_validated [OF refl this] show ?thesis by blast
qed

end
