(* ===== verification/VarCodec.thy ===== *)
theory VarCodec
  imports Prelude
begin

text \<open>
  Variable-length integers of the protocol (\<open>foton-utils/src/codec/variable_integer.rs\<close>). The three
  types share their loops, which are written once over words of any length: \<open>VarInt\<close> and \<open>VarUint\<close>
  are the instances at 32 bits with five bytes, \<open>VarLong\<close> at 64 bits with ten. Writing is to a buffer
  that takes every byte; a reader is the list of the bytes that are left.
\<close>

section \<open>Writing and reading\<close>

datatype read_error = UnexpectedEof | VarTooLong

lemma unat_drop_seven: "unat (drop_bit 7 (v :: 'a::len word)) = unat v div 128"
  by (simp only: unat_drop_bit_eq) (simp add: drop_bit_eq_div)

definition low_seven :: "'a::len word \<Rightarrow> u8" where
  "low_seven v = ucast v AND 0x7F"

function write_var :: "'a::len word \<Rightarrow> u8 list" where
  "write_var v =
     (let b = low_seven v; v' = drop_bit 7 v in
      if v' = 0 then [b] else (b OR 0x80) # write_var v')"
  by auto
termination
proof (relation "measure unat", simp)
  fix v :: "'a::len word" and b v'
  assume "v' = drop_bit 7 v" "v' \<noteq> 0"
  then have "v \<noteq> 0" by auto
  then have "0 < unat v" by (simp add: unat_gt_0)
  moreover have "unat v' = unat v div 128" using \<open>v' = drop_bit 7 v\<close> by (simp add: unat_drop_seven)
  ultimately show "(v', v) \<in> measure unat" by simp
qed

declare write_var.simps [simp del]

fun read_var :: "nat \<Rightarrow> nat \<Rightarrow> 'a::len word \<Rightarrow> u8 list \<Rightarrow> read_error + 'a word \<times> u8 list" where
  "read_var 0 i val bs = Inl VarTooLong"
| "read_var (Suc n) i val [] = Inl UnexpectedEof"
| "read_var (Suc n) i val (b # bs) =
     (let val' = val OR push_bit (i * 7) (ucast b AND 0x7F) in
      if b AND 0x80 = 0 then Inr (val', bs) else read_var n (Suc i) val' bs)"

definition VARINT_MAX_SIZE :: nat where "VARINT_MAX_SIZE = 5"
definition VARLONG_MAX_SIZE :: nat where "VARLONG_MAX_SIZE = 10"

definition varint_write :: "i32w \<Rightarrow> u8 list" where "varint_write = write_var"
definition varint_read :: "u8 list \<Rightarrow> read_error + i32w \<times> u8 list" where
  "varint_read = read_var VARINT_MAX_SIZE 0 0"

definition varlong_write :: "i64w \<Rightarrow> u8 list" where "varlong_write = write_var"
definition varlong_read :: "u8 list \<Rightarrow> read_error + i64w \<times> u8 list" where
  "varlong_read = read_var VARLONG_MAX_SIZE 0 0"

text \<open>\<open>VarUint\<close> sets the continuation bit after the shift, which comes to the same bytes.\<close>

function varuint_write :: "u32 \<Rightarrow> u8 list" where
  "varuint_write v =
     (let byte = ucast (v AND 0x7F); v' = drop_bit 7 v;
          byte = (if v' \<noteq> 0 then byte OR 0x80 else byte) in
      if v' = 0 then [byte] else byte # varuint_write v')"
  by auto
termination
proof (relation "measure unat", simp)
  fix v :: u32 and b v' b'
  assume "v' = drop_bit 7 v" "v' \<noteq> 0"
  then have "v \<noteq> 0" by auto
  then have "0 < unat v" by (simp add: unat_gt_0)
  moreover have "unat v' = unat v div 128" using \<open>v' = drop_bit 7 v\<close> by (simp add: unat_drop_seven)
  ultimately show "(v', v) \<in> measure unat" by simp
qed

declare varuint_write.simps [simp del]

definition varuint_read :: "u8 list \<Rightarrow> read_error + u32 \<times> u8 list" where
  "varuint_read = read_var VARINT_MAX_SIZE 0 0"

definition leading_zeros :: "'a::len word \<Rightarrow> nat" where
  "leading_zeros v = length (takeWhile (\<lambda>i. \<not> bit v i) (rev [0..<LENGTH('a)]))"

definition varint_written_size :: "i32w \<Rightarrow> nat" where
  "varint_written_size v = (if v = 0 then 1 else (31 - leading_zeros v) div 7 + 1)"

definition varuint_written_size :: "u32 \<Rightarrow> nat" where
  "varuint_written_size v = (max (32 - leading_zeros v) 1 + 6) div 7"

section \<open>Sizes\<close>

lemma write_var_step:
  "drop_bit 7 v = 0 \<Longrightarrow> write_var v = [low_seven v]"
  "drop_bit 7 v \<noteq> 0 \<Longrightarrow> write_var v = (low_seven v OR 0x80) # write_var (drop_bit 7 v)"
  by (simp_all add: write_var.simps [of v] Let_def)

lemma drop_bit_seven_zero: "drop_bit 7 (v :: 'a::len word) = 0 \<longleftrightarrow> unat v < 128"
proof -
  have "drop_bit 7 v = 0 \<longleftrightarrow> unat (drop_bit 7 v) = 0" by (simp add: unat_eq_0)
  also have "\<dots> \<longleftrightarrow> unat v div 128 = 0" by (simp add: unat_drop_seven)
  finally show ?thesis by (simp add: div_eq_0_iff)
qed

lemma write_var_length:
  "unat v < 128 ^ Suc k \<Longrightarrow> length (write_var v) \<le> Suc k"
proof (induction k arbitrary: v)
  case 0
  then show ?case by (simp add: write_var_step drop_bit_seven_zero)
next
  case (Suc k)
  show ?case
  proof (cases "drop_bit 7 v = 0")
    case False
    have "unat (drop_bit 7 v) < 128 ^ Suc k"
      using Suc.prems by (simp add: unat_drop_seven less_mult_imp_div_less mult.commute)
    then show ?thesis using Suc.IH [of "drop_bit 7 v"] False by (simp add: write_var_step)
  qed (simp add: write_var_step)
qed

lemma write_var_nonempty: "write_var v \<noteq> []"
  by (cases "drop_bit 7 v = 0") (simp_all add: write_var_step)

section \<open>Round trip\<close>

lemma low_seven_bits:
  "ucast (low_seven v OR 0x80) AND 0x7F = (v AND 0x7F :: 'a::len word)"
  "ucast (low_seven v) AND 0x7F = (v AND 0x7F)"
  "(low_seven v OR 0x80) AND 0x80 \<noteq> 0"
  "low_seven v AND 0x80 = 0"
proof -
  have m: "(0x7F :: 'a word) = mask 7" "(0x7F :: u8) = mask 7"
    by (simp_all add: mask_eq_exp_minus_1)
  have high: "bit (0x80 :: u8) n \<longleftrightarrow> n = 7" for n
    using bit_exp_iff [of 7 n, where 'a = u8] by auto
  have high': "bit (0x80 :: int) n \<longleftrightarrow> n = 7" for n
    using bit_exp_iff [of 7 n, where 'a = int] by auto
  show "ucast (low_seven v OR 0x80) AND 0x7F = (v AND 0x7F :: 'a::len word)"
    unfolding low_seven_def m by (rule bit_word_eqI) (auto simp: bit_simps high high')
  show "ucast (low_seven v) AND 0x7F = (v AND 0x7F)"
    unfolding low_seven_def m by (rule bit_word_eqI) (auto simp: bit_simps high high')
  have "bit ((low_seven v OR 0x80) AND 0x80) 7" unfolding m by (simp add: bit_simps high high')
  then show "(low_seven v OR 0x80) AND 0x80 \<noteq> 0" by (cases "(low_seven v OR 0x80) AND 0x80 = 0") simp_all
  show "low_seven v AND 0x80 = 0"
    unfolding low_seven_def m by (rule bit_word_eqI) (auto simp: bit_simps high high')
qed

lemma seven_split: "(v AND 0x7F) OR push_bit 7 (drop_bit 7 v) = (v :: 'a::len word)"
proof -
  have m: "(0x7F :: 'a word) = mask 7" by (simp add: mask_eq_exp_minus_1)
  show ?thesis
    by (rule bit_word_eqI) (auto simp: m bit_simps, metis le_add_diff_inverse not_le)
qed

lemma read_write_var:
  "length (write_var v) \<le> n \<Longrightarrow>
     read_var n i acc (write_var v @ rest) = Inr (acc OR push_bit (i * 7) v, rest)"
proof (induction v arbitrary: n i acc rule: write_var.induct)
  case (1 v)
  obtain n' where n: "n = Suc n'" using "1.prems" write_var_nonempty [of v] by (cases n) auto
  show ?case
  proof (cases "drop_bit 7 v = 0")
    case True
    then have "v AND 0x7F = v" using seven_split [of v] by simp
    then show ?thesis using True n by (simp add: write_var_step low_seven_bits)
  next
    case False
    have "length (write_var (drop_bit 7 v)) \<le> n'" using "1.prems" False n by (simp add: write_var_step)
    from "1.IH" [OF refl refl False this, of "Suc i" "acc OR push_bit (i * 7) (v AND 0x7F)"]
    have "read_var n i acc (write_var v @ rest) =
        Inr ((acc OR push_bit (i * 7) (v AND 0x7F)) OR push_bit (Suc i * 7) (drop_bit 7 v), rest)"
      using False n by (simp add: write_var_step low_seven_bits)
    also have "push_bit (Suc i * 7) (drop_bit 7 v) = push_bit (i * 7) (push_bit 7 (drop_bit 7 v))"
      by (simp add: push_bit_push_bit add.commute)
    finally show ?thesis
      by (simp only: or.assoc push_bit_or [symmetric] seven_split)
  qed
qed

lemma varint_length_le: "length (varint_write v) \<le> VARINT_MAX_SIZE"
proof -
  have "unat v < 2 ^ 32" using unsigned_less [of v] by simp
  then have "unat v < 128 ^ Suc 4" by simp
  from write_var_length [OF this] show ?thesis by (simp add: varint_write_def VARINT_MAX_SIZE_def)
qed

lemma varlong_length_le: "length (varlong_write v) \<le> VARLONG_MAX_SIZE"
proof -
  have "unat v < 2 ^ 64" using unsigned_less [of v] by simp
  then have "unat v < 128 ^ Suc 9" by simp
  from write_var_length [OF this] show ?thesis by (simp add: varlong_write_def VARLONG_MAX_SIZE_def)
qed

lemma varint_round_trip: "varint_read (varint_write v @ rest) = Inr (v, rest)"
  using varint_length_le [of v] by (simp add: varint_read_def varint_write_def read_write_var)

lemma varlong_round_trip: "varlong_read (varlong_write v @ rest) = Inr (v, rest)"
  using varlong_length_le [of v] by (simp add: varlong_read_def varlong_write_def read_write_var)

lemma varuint_write_eq: "varuint_write v = write_var v"
proof (induction v rule: varuint_write.induct)
  case (1 v)
  have "ucast (v AND 0x7F) = low_seven v"
    unfolding low_seven_def by (rule bit_word_eqI) (auto simp: mask_eq_exp_minus_1 [of 7, simplified, symmetric] bit_simps)
  then show ?case
    using 1 by (cases "drop_bit 7 v = 0") (simp_all add: varuint_write.simps [of v] write_var_step)
qed

lemma varuint_round_trip: "varuint_read (varuint_write v @ rest) = Inr (v, rest)"
  using varint_round_trip [of v rest]
  by (simp add: varuint_read_def varint_read_def varint_write_def varuint_write_eq)

section \<open>Written sizes\<close>

lemma leading_zeros_bits:
  defines "L \<equiv> LENGTH('a)"
  assumes "(v :: 'a::len word) \<noteq> 0"
  shows "leading_zeros v < L" "bit v (L - 1 - leading_zeros v)" "\<forall>i. L - leading_zeros v \<le> i \<longrightarrow> \<not> bit v i"
proof -
  let ?P = "\<lambda>i. \<not> bit v i" and ?xs = "rev [0..<L]" and ?k = "leading_zeros v"
  have k: "?k = length (takeWhile ?P ?xs)" by (simp add: leading_zeros_def L_def)
  have "?k \<le> L" unfolding k by (metis length_rev length_takeWhile_le length_upt minus_nat.diff_0)
  have zero: "\<not> bit v i" if "L - ?k \<le> i" for i
  proof (cases "i < L")
    case True
    then have "L - 1 - i < ?k" using that \<open>?k \<le> L\<close> by simp
    then have "?xs ! (L - 1 - i) \<in> set (takeWhile ?P ?xs)"
      unfolding k by (metis nth_mem takeWhile_nth)
    then show ?thesis using True set_takeWhileD [of _ ?P ?xs] by (simp add: rev_nth)
  next
    case False
    then show ?thesis unfolding L_def by (meson bit_imp_le_length not_less)
  qed
  show "\<forall>i. L - ?k \<le> i \<longrightarrow> \<not> bit v i" using zero by blast
  show less: "?k < L"
  proof (rule ccontr)
    assume "\<not> ?k < L"
    then have "v = 0" by (intro bit_word_eqI) (use zero \<open>?k \<le> L\<close> in auto)
    with assms(2) show False by simp
  qed
  then have "\<not> ?P (?xs ! ?k)"
    unfolding k by (intro nth_length_takeWhile) (simp add: L_def)
  then show "bit v (L - 1 - ?k)" using less by (simp add: rev_nth)
qed

text \<open>The length is that of the binary representation in groups of seven.\<close>

lemma write_var_length_exact:
  "2 ^ n \<le> unat v \<Longrightarrow> unat v < 2 ^ Suc n \<Longrightarrow> length (write_var v) = n div 7 + 1"
proof (induction v arbitrary: n rule: write_var.induct)
  case (1 v)
  show ?case
  proof (cases "drop_bit 7 v = 0")
    case True
    then have "unat v < 2 ^ 7" by (simp add: drop_bit_seven_zero)
    then have "(2 :: nat) ^ n < 2 ^ 7" using "1.prems"(1) by (rule le_less_trans [rotated])
    then have "n < 7" by (rule power_less_imp_less_exp [rotated]) simp
    then show ?thesis using True by (simp add: write_var_step)
  next
    case False
    then have "2 ^ 7 \<le> unat v" by (simp add: drop_bit_seven_zero not_less)
    then have "(2 :: nat) ^ 7 < 2 ^ Suc n" using "1.prems"(2) by (rule le_less_trans)
    then have "7 < Suc n" by (rule power_less_imp_less_exp [rotated]) simp
    then obtain m where n: "n = m + 7" by (metis add.commute le_Suc_ex less_Suc_eq_le)
    have "2 ^ m \<le> unat (drop_bit 7 v)" "unat (drop_bit 7 v) < 2 ^ Suc m"
      using "1.prems" unfolding n unat_drop_seven by (simp_all add: power_add less_mult_imp_div_less less_eq_div_iff_mult_less_eq)
    from "1.IH" [OF refl refl False this] show ?thesis using False n by (simp add: write_var_step)
  qed
qed

lemma write_var_bits:
  assumes "(v :: 'a::len word) \<noteq> 0"
  shows "length (write_var v) = (LENGTH('a) - 1 - leading_zeros v) div 7 + 1"
proof -
  note lz = leading_zeros_bits [OF assms]
  have "unat v < 2 ^ (LENGTH('a) - leading_zeros v)" by (rule unat_bits_less [OF lz(3)])
  moreover have "LENGTH('a) - leading_zeros v = Suc (LENGTH('a) - 1 - leading_zeros v)" using lz(1) by simp
  ultimately show ?thesis using unat_bit_ge [OF lz(2)] by (intro write_var_length_exact) simp_all
qed

lemma varint_written_size: "length (varint_write v) = varint_written_size v"
  using write_var_bits [of v]
  by (auto simp: varint_write_def varint_written_size_def write_var_step)

lemma varuint_written_size: "length (varuint_write v) = varuint_written_size v"
proof (cases "v = 0")
  case True
  have len32: "LENGTH(32) = 32" by simp
  have "takeWhile (\<lambda>i. \<not> bit (0 :: u32) i) (rev [0..<32]) = rev [0..<32]"
    by (subst takeWhile_eq_all_conv) simp
  then have "leading_zeros (0 :: u32) = 32"
    by (metis leading_zeros_def length_rev length_upt diff_zero len32)
  then show ?thesis using True by (simp add: varuint_write_eq varuint_written_size_def write_var_step)
next
  case False
  have "leading_zeros v < 32" using leading_zeros_bits(1) [OF False] by simp
  then have n: "max (32 - leading_zeros v) 1 = Suc (31 - leading_zeros v)" by linarith
  have "(Suc m + 6) div 7 = m div 7 + 1" for m :: nat by presburger
  then have "varuint_written_size v = (31 - leading_zeros v) div 7 + 1"
    unfolding varuint_written_size_def n by blast
  then show ?thesis using write_var_bits [OF False] by (simp add: varuint_write_eq)
qed

section \<open>Room in front\<close>

text \<open>
  \<open>FrontVec\<close> (\<open>front_vec.rs\<close>): a buffer with reserved space before its content, into which a packet's
  length is written last. The assertion on the space is the error \<open>None\<close>.
\<close>

record front_vec =
  fv_buf :: "u8 list"
  front_space :: nat

definition front_vec_new :: "nat \<Rightarrow> front_vec" where
  "front_vec_new reserve = \<lparr>fv_buf = replicate reserve 0, front_space = reserve\<rparr>"

definition fv_len :: "front_vec \<Rightarrow> nat" where
  "fv_len f = length (fv_buf f) - front_space f"

definition fv_push :: "u8 \<Rightarrow> front_vec \<Rightarrow> front_vec" where
  "fv_push b f = f\<lparr>fv_buf := fv_buf f @ [b]\<rparr>"

definition fv_extend :: "u8 list \<Rightarrow> front_vec \<Rightarrow> front_vec" where
  "fv_extend bs f = f\<lparr>fv_buf := fv_buf f @ bs\<rparr>"

definition fv_set_in_front :: "u8 list \<Rightarrow> front_vec \<Rightarrow> front_vec option" where
  "fv_set_in_front bs f =
     (if length bs \<le> front_space f then
        (let start = front_space f - length bs in
         Some \<lparr>fv_buf = take start (fv_buf f) @ bs @ drop (front_space f) (fv_buf f), front_space = start\<rparr>)
      else None)"

definition fv_slice :: "front_vec \<Rightarrow> u8 list" where
  "fv_slice f = drop (front_space f) (fv_buf f)"

text \<open>
  \<open>VarInt::set_in_front\<close> writes to a buffer of five zero bytes and copies the first \<open>sz\<close> of them;
  a larger \<open>sz\<close> would slice out of range.
\<close>

definition varint_set_in_front :: "i32w \<Rightarrow> nat \<Rightarrow> front_vec \<Rightarrow> front_vec option" where
  "varint_set_in_front v sz f =
     (let bs = varint_write v; buf = bs @ replicate (VARINT_MAX_SIZE - length bs) 0 in
      if sz \<le> length buf then fv_set_in_front (take sz buf) f else None)"

definition front_vec_ok :: "front_vec \<Rightarrow> bool" where
  "front_vec_ok f \<longleftrightarrow> front_space f \<le> length (fv_buf f)"

lemma front_vec_ok_ops [inv_intros]:
  "front_vec_ok (front_vec_new n)"
  "front_vec_ok f \<Longrightarrow> front_vec_ok (fv_push b f)"
  "front_vec_ok f \<Longrightarrow> front_vec_ok (fv_extend bs f)"
  "front_vec_ok f \<Longrightarrow> fv_set_in_front bs f = Some f' \<Longrightarrow> front_vec_ok f'"
  by (auto simp: front_vec_ok_def front_vec_new_def fv_push_def fv_extend_def fv_set_in_front_def Let_def
      split: if_splits)

lemma fv_slice_ops:
  "fv_slice (front_vec_new n) = []"
  "front_vec_ok f \<Longrightarrow> fv_slice (fv_extend bs f) = fv_slice f @ bs"
  "front_vec_ok f \<Longrightarrow> fv_slice (fv_push b f) = fv_slice f @ [b]"
  "front_vec_ok f \<Longrightarrow> length (fv_slice f) = fv_len f"
  "front_vec_ok f \<Longrightarrow> fv_set_in_front bs f = Some f' \<Longrightarrow> fv_slice f' = bs @ fv_slice f"
  by (auto simp: fv_slice_def front_vec_ok_def front_vec_new_def fv_push_def fv_extend_def
      fv_set_in_front_def fv_len_def Let_def split: if_splits)

lemma varint_in_front:
  assumes "front_vec_ok f" "varint_written_size v \<le> front_space f"
  shows "\<exists>f'. varint_set_in_front v (varint_written_size v) f = Some f' \<and> front_vec_ok f' \<and>
     fv_slice f' = varint_write v @ fv_slice f \<and> front_space f' = front_space f - varint_written_size v"
proof -
  let ?bs = "varint_write v"
  have len: "varint_written_size v = length ?bs" by (simp add: varint_written_size)
  then obtain f' where f': "fv_set_in_front ?bs f = Some f'" using assms(2) by (simp add: fv_set_in_front_def Let_def)
  then have "varint_set_in_front v (varint_written_size v) f = Some f'"
    by (simp add: varint_set_in_front_def len Let_def)
  moreover have "front_space f' = front_space f - length ?bs"
    using f' by (auto simp: fv_set_in_front_def Let_def split: if_splits)
  ultimately show ?thesis
    using f' assms(1) front_vec_ok_ops(4) fv_slice_ops(5) len by auto
qed

section \<open>Properties\<close>

text \<open>what a variable-length integer writes is read back as it was, whatever follows is left to the
  next reader, and it never takes more than the five or ten bytes a reader accepts.\<close>

theorem var_integers_round_trip:
  "varint_read (varint_write v @ rest) = Inr (v, rest) \<and>
   varuint_read (varuint_write u @ rest) = Inr (u, rest) \<and>
   varlong_read (varlong_write l @ rest) = Inr (l, rest) \<and>
   length (varint_write v) \<le> VARINT_MAX_SIZE \<and> length (varuint_write u) \<le> VARINT_MAX_SIZE \<and>
   length (varlong_write l) \<le> VARLONG_MAX_SIZE"
  using varint_length_le [of v] varint_length_le [of u] varint_round_trip [of v rest]
    varuint_round_trip [of u rest]
  by (simp add: varlong_round_trip varlong_length_le varuint_write_eq varint_write_def)

text \<open>with the space for it reserved, a length written in front of a packet by \<open>VarInt::set_in_front\<close>
  with the size \<open>written_size\<close> computes never panics, and the buffer is exactly the length's bytes
  followed by the packet, from which the length reads back.\<close>

theorem length_prefix_in_front:
  assumes "varint_written_size v \<le> reserve"
  shows "\<exists>f. varint_set_in_front v (varint_written_size v) (fv_extend payload (front_vec_new reserve)) = Some f \<and>
     fv_slice f = varint_write v @ payload \<and> fv_len f = varint_written_size v + length payload \<and>
     varint_read (fv_slice f) = Inr (v, payload)"
proof -
  let ?f0 = "fv_extend payload (front_vec_new reserve)"
  have ok: "front_vec_ok (front_vec_new reserve)" by (rule front_vec_ok_ops)
  then have "front_vec_ok ?f0" "fv_slice ?f0 = payload" "front_space ?f0 = reserve"
    by (simp_all add: front_vec_ok_ops fv_slice_ops) (simp add: fv_extend_def front_vec_new_def)
  then obtain f where f: "varint_set_in_front v (varint_written_size v) ?f0 = Some f" "front_vec_ok f"
    "fv_slice f = varint_write v @ payload"
    using varint_in_front [of ?f0 v] assms by auto
  moreover have "fv_len f = length (fv_slice f)" using f(2) by (simp add: fv_slice_ops(4))
  ultimately show ?thesis by (simp add: varint_round_trip varint_written_size)
qed

theorem length_prefix_in_front_witness:
  "\<exists>f. varint_set_in_front 300 (varint_written_size 300) (fv_extend [7, 8] (front_vec_new 5)) = Some f \<and>
     varint_read (fv_slice f) = Inr (300, [7, 8])"
proof -
  have "varint_written_size 300 \<le> 5"
    using varint_length_le [of 300] by (simp add: varint_written_size [symmetric] VARINT_MAX_SIZE_def)
  from length_prefix_in_front [OF this, of "[7, 8]"] show ?thesis by blast
qed

end
