(* ===== verification/BitPack.thy ===== *)
theory BitPack
  imports Prelude
begin

text \<open>
  Indices packed into 64-bit words, none crossing a word: \<open>pack_indices\<close> and \<open>unpack_indices\<close> of
  region files (\<open>foton-core/src/chunk_saver/bit_pack.rs\<close>) and \<open>pack_bits\<close> of the network format
  (\<open>chunk/paletted_container.rs\<close>). \<open>u64::from(index) << offset\<close> is \<open>push_bit\<close> on a word.
\<close>

section \<open>Functions\<close>

definition bits_for_palette_len :: "nat \<Rightarrow> nat option" where
  "bits_for_palette_len n =
     (if n \<le> 1 then None else if n = 2 then Some 1 else if n \<le> 4 then Some 2
      else if n \<le> 16 then Some 4 else if n \<le> 256 then Some 8 else Some 16)"

text \<open>The inner loop over a chunk of indices, at position \<open>j\<close>.\<close>

fun pack_word :: "nat \<Rightarrow> nat \<Rightarrow> u32 list \<Rightarrow> u64 \<Rightarrow> u64" where
  "pack_word bits j [] w = w"
| "pack_word bits j (x # xs) w = pack_word bits (Suc j) xs (w OR push_bit (j * bits) (ucast x))"

function chunks_of :: "nat \<Rightarrow> 'a list \<Rightarrow> 'a list list" where
  "chunks_of n xs = (if xs = [] \<or> n = 0 then [] else take n xs # chunks_of n (drop n xs))"
  by auto
termination by (relation "measure (length \<circ> snd)") auto

declare chunks_of.simps [simp del]

definition pack_indices :: "u32 list \<Rightarrow> nat \<Rightarrow> u64 list" where
  "pack_indices xs bits =
     (if xs = [] then [] else map (\<lambda>chunk. pack_word bits 0 chunk 0) (chunks_of (64 div bits) xs))"

definition unpack_word :: "nat \<Rightarrow> u64 \<Rightarrow> u32 list" where
  "unpack_word bits w =
     map (\<lambda>j. ucast (drop_bit (j * bits) w AND (push_bit bits 1 - 1))) [0..<64 div bits]"

definition unpack_indices :: "u64 list \<Rightarrow> nat \<Rightarrow> u32 list" where
  "unpack_indices data bits = concat (map (unpack_word bits) data)"

text \<open>The loop of \<open>pack_bits\<close>: index \<open>i\<close> is ORed into its word of the array.\<close>

fun pack_loop :: "nat \<Rightarrow> nat \<Rightarrow> u32 list \<Rightarrow> u64 list \<Rightarrow> u64 list" where
  "pack_loop bits i [] data = data"
| "pack_loop bits i (x # xs) data =
     (let a = i div (64 div bits); offset = (i mod (64 div bits)) * bits in
      pack_loop bits (Suc i) xs (data[a := data ! a OR push_bit offset (ucast x)]))"

definition div_ceil :: "nat \<Rightarrow> nat \<Rightarrow> nat" where
  "div_ceil n d = (n + d - 1) div d"

definition pack_bits :: "u32 list \<Rightarrow> nat \<Rightarrow> u64 list" where
  "pack_bits xs bits = pack_loop bits 0 xs (replicate (div_ceil (length xs) (64 div bits)) 0)"

section \<open>One word\<close>

lemma pack_word_acc: "pack_word bits j xs w = w OR pack_word bits j xs 0"
proof (induction xs arbitrary: j w)
  case (Cons x xs)
  show ?case
    using Cons [of "Suc j" "w OR push_bit (j * bits) (ucast x)"] Cons [of "Suc j" "push_bit (j * bits) (ucast x)"]
    by (simp add: or.assoc)
qed simp

lemma bit_pack_word:
  assumes "\<forall>x \<in> set xs. unat x < 2 ^ bits" "0 < bits" "n < 64"
  shows "bit (pack_word bits j xs 0) n \<longleftrightarrow>
    j * bits \<le> n \<and> n div bits - j < length xs \<and> bit (xs ! (n div bits - j)) (n mod bits)"
  using assms(1)
proof (induction xs arbitrary: j)
  case Nil
  then show ?case by simp
next
  case (Cons x xs)
  have high: "\<not> bit x m" if "bits \<le> m" for m
  proof
    assume "bit x m"
    then have "2 ^ m \<le> unat x" by (rule unat_bit_ge)
    moreover have "(2 :: nat) ^ bits \<le> 2 ^ m" using that by (rule power_increasing) simp
    moreover have "unat x < 2 ^ bits" using Cons.prems by simp
    ultimately show False by linarith
  qed
  have x: "bit (push_bit (j * bits) (ucast x) :: u64) n \<longleftrightarrow> n div bits = j \<and> bit x (n mod bits)"
  proof (cases "j * bits \<le> n \<and> n - j * bits < bits")
    case True
    then have "n div bits = j" using assms(2) by (metis add_diff_inverse_nat div_mult_self3 div_less add.right_neutral mult.commute not_less less_not_refl3)
    moreover from this have "n mod bits = n - j * bits" by (metis minus_div_mult_eq_mod)
    moreover have "n - j * bits < 64" using assms(3) by simp
    ultimately show ?thesis using True assms(3) by (simp add: bit_simps)
  next
    case False
    then have "n div bits \<noteq> j" using assms(2) by (metis div_times_less_eq_dividend minus_div_mult_eq_mod mod_less_divisor)
    then show ?thesis using False high [of "n - j * bits"] by (auto simp: bit_simps)
  qed
  have rest: "bit (pack_word bits (Suc j) xs 0) n \<longleftrightarrow>
    Suc j * bits \<le> n \<and> n div bits - Suc j < length xs \<and> bit (xs ! (n div bits - Suc j)) (n mod bits)"
    using Cons by simp
  have split: "j * bits \<le> n \<longleftrightarrow> j \<le> n div bits" "Suc j * bits \<le> n \<longleftrightarrow> Suc j \<le> n div bits"
    using assms(2) by (simp_all only: less_eq_div_iff_mult_less_eq)
  have "bit (pack_word bits j (x # xs) 0) n \<longleftrightarrow>
      (n div bits = j \<and> bit x (n mod bits)) \<or> bit (pack_word bits (Suc j) xs 0) n"
    using pack_word_acc [of bits "Suc j" xs "push_bit (j * bits) (ucast x)"] x by (simp add: bit_or_iff)
  then show ?case unfolding rest split
    by (cases "n div bits = j") (auto simp: nth_Cons' Suc_le_eq Suc_diff_Suc [symmetric] diff_Suc_1 split: nat.splits)
qed

lemma length_unpack_word [simp]: "length (unpack_word bits w) = 64 div bits"
  by (simp add: unpack_word_def)

lemma unpack_pack_word:
  assumes "\<forall>x \<in> set xs. unat x < 2 ^ bits" "0 < bits" "bits \<le> 32" "length xs \<le> 64 div bits"
  shows "take (length xs) (unpack_word bits (pack_word bits 0 xs 0)) = xs"
proof (rule nth_equalityI)
  show "length (take (length xs) (unpack_word bits (pack_word bits 0 xs 0))) = length xs"
    using assms(4) by simp
next
  fix j assume "j < length (take (length xs) (unpack_word bits (pack_word bits 0 xs 0)))"
  then have j: "j < length xs" using assms(4) by simp
  let ?w = "pack_word bits 0 xs 0"
  have mask: "(push_bit bits 1 - 1 :: u64) = mask bits" by (simp add: mask_eq_exp_minus_1 push_bit_eq_mult)
  have "ucast (drop_bit (j * bits) ?w AND mask bits) = xs ! j"
  proof (rule bit_word_eqI)
    fix m assume m: "m < LENGTH(32)"
    show "bit (ucast (drop_bit (j * bits) ?w AND mask bits) :: u32) m \<longleftrightarrow> bit (xs ! j) m"
    proof (cases "m < bits")
      case True
      have "Suc j * bits \<le> (64 div bits) * bits" using j assms(4) by (intro mult_le_mono1) simp
      then have "Suc j * bits \<le> 64" by (rule order_trans) (simp add: div_times_less_eq_dividend)
      then have lt: "j * bits + m < 64" using True by simp
      have "(j * bits + m) div bits = j" "(j * bits + m) mod bits = m" using True by simp_all
      then have "bit ?w (j * bits + m) \<longleftrightarrow> bit (xs ! j) m"
        using bit_pack_word [OF assms(1,2) lt, of 0] j by simp
      then show ?thesis using True m by (simp add: bit_simps)
    next
      case False
      have "\<not> bit (xs ! j) m"
      proof
        assume "bit (xs ! j) m"
        then have "2 ^ m \<le> unat (xs ! j)" by (rule unat_bit_ge)
        moreover have "(2 :: nat) ^ bits \<le> 2 ^ m" using False by (intro power_increasing) simp_all
        moreover have "unat (xs ! j) < 2 ^ bits" using assms(1) j by simp
        ultimately show False by linarith
      qed
      then show ?thesis using False by (simp add: bit_simps)
    qed
  qed
  then show "take (length xs) (unpack_word bits ?w) ! j = xs ! j"
    using j assms(4) unfolding unpack_word_def mask by simp
qed

section \<open>Whole arrays\<close>

lemma unpack_pack_indices:
  assumes "\<forall>x \<in> set xs. unat x < 2 ^ bits" "0 < bits" "bits \<le> 32"
  shows "take (length xs) (unpack_indices (pack_indices xs bits) bits) = xs"
proof -
  let ?n = "64 div bits"
  let ?f = "\<lambda>xs. concat (map (unpack_word bits) (map (\<lambda>c. pack_word bits 0 c 0) (chunks_of ?n xs)))"
  have n: "0 < ?n" using assms(2,3) by (simp add: div_greater_zero_iff)
  have "take (length xs) (?f xs) = xs" if "\<forall>x \<in> set xs. unat x < 2 ^ bits" for xs
    using that
  proof (induction ?n xs rule: chunks_of.induct)
    case (1 xs)
    show ?case
    proof (cases "xs = []")
      case False
      let ?c = "take ?n xs"
      let ?u = "unpack_word bits (pack_word bits 0 ?c 0)"
      have f: "?f xs = ?u @ ?f (drop ?n xs)"
        using False n by (simp add: chunks_of.simps [of "?n" xs])
      have u: "take (length ?c) ?u = ?c"
        using "1.prems" by (intro unpack_pack_word) (auto simp: assms(2,3) dest: in_set_takeD)
      have IH: "take (length (drop ?n xs)) (?f (drop ?n xs)) = drop ?n xs"
        using False n "1.prems" by (intro "1.hyps") (auto dest: in_set_dropD)
      show ?thesis
      proof (cases "length xs \<le> ?n")
        case True
        then have "drop ?n xs = []" "?f [] = []" by (simp_all add: chunks_of.simps [of _ "[]"])
        then have "?f xs = ?u" unfolding f by simp
        then show ?thesis using u True by simp
      next
        case False
        then have "?u = ?c" using u by simp
        moreover have "length xs - ?n = length (drop ?n xs)" by simp
        ultimately have "take (length xs) (?f xs) = ?c @ take (length (drop ?n xs)) (?f (drop ?n xs))"
          using False unfolding f by (simp add: take_append)
        then show ?thesis unfolding IH by simp
      qed
    qed simp
  qed
  from this [OF assms(1)] show ?thesis
    by (auto simp: unpack_indices_def pack_indices_def)
qed

lemma pack_loop_append:
  "pack_loop bits i (xs @ ys) data = pack_loop bits (i + length xs) ys (pack_loop bits i xs data)"
  by (induction xs arbitrary: i data) (simp_all add: Let_def)

lemma pack_loop_word:
  assumes "r + length xs \<le> 64 div bits" "a < length data"
  shows "pack_loop bits (a * (64 div bits) + r) xs data = data[a := pack_word bits r xs (data ! a)]"
  using assms
proof (induction xs arbitrary: r data)
  case (Cons x xs)
  let ?n = "64 div bits"
  let ?data = "data[a := data ! a OR push_bit (r * bits) (ucast x)]"
  have i: "(a * ?n + r) div ?n = a" "(a * ?n + r) mod ?n = r"
    using Cons.prems(1) mod_less [of r "?n"] by (auto simp del: mod_less)
  have "pack_loop bits (a * ?n + Suc r) xs ?data = ?data[a := pack_word bits (Suc r) xs (?data ! a)]"
    using Cons.prems by (intro Cons.IH) simp_all
  then show ?case using Cons.prems(2) unfolding pack_loop.simps(2) i Let_def by simp
qed simp

lemma div_ceil_step:
  assumes "0 < n" "0 < m"
  shows "div_ceil m n = Suc (div_ceil (m - n) n)"
proof (cases "m \<le> n")
  case True
  have "m + n - 1 = n + (m - 1)" using assms(2) by simp
  then have "div_ceil m n = Suc ((m - 1) div n)" using assms(1) unfolding div_ceil_def by (simp only: div_add_self1)
  moreover have "(m - 1) div n = 0" using True assms(2) by simp
  moreover have "div_ceil (m - n) n = 0" using True assms(1) by (simp add: div_ceil_def)
  ultimately show ?thesis by simp
next
  case False
  then have "m + n - 1 = n + (m - n + n - 1)" using assms(1) by simp
  then have "(m + n - 1) div n = Suc ((m - n + n - 1) div n)" using assms(1) by (metis div_add_self1 less_numeral_extra(3) plus_1_eq_Suc add.commute Suc_eq_plus1)
  then show ?thesis by (simp only: div_ceil_def)
qed

text \<open>The two packers agree.\<close>

lemma pack_bits_eq_pack_indices:
  assumes "0 < bits" "bits \<le> 64"
  shows "pack_bits xs bits = pack_indices xs bits"
proof -
  let ?n = "64 div bits"
  have n: "0 < ?n" using assms by (simp add: div_greater_zero_iff)
  have "pack_loop bits (length pre * ?n) xs (pre @ replicate (div_ceil (length xs) ?n) 0) =
      pre @ map (\<lambda>c. pack_word bits 0 c 0) (chunks_of ?n xs)" for pre xs
  proof (induction ?n xs arbitrary: pre rule: chunks_of.induct)
    case (1 xs)
    show ?case
    proof (cases "xs = []")
      case True
      then show ?thesis using n by (simp add: div_ceil_def chunks_of.simps)
    next
      case False
      let ?c = "take ?n xs" and ?d = "drop ?n xs"
      let ?w = "pack_word bits 0 ?c 0"
      let ?data = "pre @ replicate (div_ceil (length xs) ?n) 0"
      have len: "div_ceil (length xs) ?n = Suc (div_ceil (length ?d) ?n)"
        using div_ceil_step [OF n, of "length xs"] False by simp
      have "pack_loop bits (length pre * ?n + 0) ?c ?data = ?data[length pre := pack_word bits 0 ?c (?data ! length pre)]"
        by (rule pack_loop_word) (simp_all add: len)
      then have w: "pack_loop bits (length pre * ?n) ?c ?data = (pre @ [?w]) @ replicate (div_ceil (length ?d) ?n) 0"
        by (simp add: len nth_append list_update_append)
      have d: "pack_loop bits (length pre * ?n) xs ?data =
          pack_loop bits (length pre * ?n + length ?c) ?d (pack_loop bits (length pre * ?n) ?c ?data)"
        using pack_loop_append [of bits "length pre * ?n" ?c ?d ?data] by simp
      show ?thesis
      proof (cases "?d = []")
        case True
        then have "chunks_of ?n xs = [?c]" using False n by (simp add: chunks_of.simps)
        moreover have "div_ceil 0 ?n = 0" using n by (simp add: div_ceil_def)
        ultimately show ?thesis using True d w by simp
      next
        case False': False
        then have i: "length pre * ?n + length ?c = length (pre @ [?w]) * ?n" by simp
        have "pack_loop bits (length (pre @ [?w]) * ?n) ?d ((pre @ [?w]) @ replicate (div_ceil (length ?d) ?n) 0) =
            (pre @ [?w]) @ map (\<lambda>c. pack_word bits 0 c 0) (chunks_of ?n ?d)"
          using False n by (intro "1.hyps") simp
        then show ?thesis
          unfolding d w i using False n by (simp add: chunks_of.simps [of _ xs])
      qed
    qed
  qed
  from this [of "[]" xs] show ?thesis
    by (auto simp: pack_bits_def pack_indices_def div_ceil_def chunks_of.simps)
qed

lemma length_pack_indices: "0 < bits \<Longrightarrow> bits \<le> 64 \<Longrightarrow> length (pack_indices xs bits) = div_ceil (length xs) (64 div bits)"
proof -
  assume b: "0 < bits" "bits \<le> 64"
  have "length (pack_loop bits i ys data) = length data" for i ys data
    by (induction ys arbitrary: i data) (simp_all add: Let_def)
  then show ?thesis unfolding pack_bits_eq_pack_indices [OF b, symmetric] by (simp add: pack_bits_def)
qed

end
