(* ===== verification/Paletted.thy ===== *)
theory Paletted
  imports BitPack VarCodec "HOL-Library.Multiset"
begin

text \<open>
  The container of a section's block states (sixteen cells a side) or biomes (four), after
  \<open>foton-core/src/chunk/paletted_container.rs\<close>. \<open>d\<close> is the constant \<open>DIM\<close>. The three-dimensional array
  is its contiguous memory, the flat list in \<open>y\<close>, \<open>z\<close>, \<open>x\<close> order over which the code's own
  \<open>from_cube\<close> and \<open>as_building_slice_mut\<close> work. An index out of the array's bounds is \<open>None\<close>, as are
  the panics of \<open>write\<close>; counts are \<open>u16\<close> and wrap.
\<close>

section \<open>Data\<close>

record 'v hetero_palette =
  hp_cube :: "'v list"
  hp_palette :: "('v \<times> u16) list"

datatype 'v paletted =
    Homogeneous 'v
  | Heterogeneous "'v hetero_palette"
  | Building "'v list"

datatype palette_mode = Linear | Hash | Global

definition pc_volume :: "nat \<Rightarrow> nat" where
  "pc_volume d = d * d * d"

definition in_cube :: "nat \<Rightarrow> nat \<Rightarrow> nat \<Rightarrow> nat \<Rightarrow> bool" where
  "in_cube d x y z \<longleftrightarrow> x < d \<and> y < d \<and> z < d"

definition cube_index :: "nat \<Rightarrow> nat \<Rightarrow> nat \<Rightarrow> nat \<Rightarrow> nat" where
  "cube_index d x y z = x + z * d + y * d * d"

definition cube_at :: "nat \<Rightarrow> 'v list \<Rightarrow> nat \<Rightarrow> nat \<Rightarrow> nat \<Rightarrow> 'v option" where
  "cube_at d cube x y z = (if in_cube d x y z then Some (cube ! cube_index d x y z) else None)"

section \<open>The palette of a heterogeneous container\<close>

text \<open>The first entry of the value is increased, or a new entry is pushed.\<close>

fun palette_add :: "'v \<Rightarrow> u16 \<Rightarrow> ('v \<times> u16) list \<Rightarrow> ('v \<times> u16) list" where
  "palette_add v n [] = [(v, n)]"
| "palette_add v n ((u, c) # ps) = (if u = v then (u, c + n) # ps else (u, c) # palette_add v n ps)"

definition palette_drop_one :: "'v \<Rightarrow> ('v \<times> u16) list \<Rightarrow> ('v \<times> u16) list" where
  "palette_drop_one v ps =
     (case position (\<lambda>e. fst e = v) ps of
        None \<Rightarrow> ps
      | Some i \<Rightarrow>
          (let c = snd (ps ! i) - 1; ps' = ps[i := (fst (ps ! i), c)] in
           if c = 0 then swap_remove i ps' else ps'))"

definition hp_get :: "nat \<Rightarrow> 'v hetero_palette \<Rightarrow> nat \<Rightarrow> nat \<Rightarrow> nat \<Rightarrow> 'v option" where
  "hp_get d h x y z = cube_at d (hp_cube h) x y z"

definition cube_at_index :: "nat \<Rightarrow> 'v list \<Rightarrow> nat \<Rightarrow> 'v option" where
  "cube_at_index d cube i = cube_at d cube (i mod d) (i div (d * d)) ((i div d) mod d)"

definition hp_set :: "nat \<Rightarrow> 'v hetero_palette \<Rightarrow> nat \<Rightarrow> nat \<Rightarrow> nat \<Rightarrow> 'v \<Rightarrow> ('v \<times> 'v hetero_palette) option" where
  "hp_set d h x y z v =
     (case cube_at d (hp_cube h) x y z of
        None \<Rightarrow> None
      | Some old \<Rightarrow>
          Some (old, \<lparr>hp_cube = (hp_cube h)[cube_index d x y z := v],
                      hp_palette = palette_drop_one old (palette_add v 1 (hp_palette h))\<rparr>))"

section \<open>The container's operations\<close>

text \<open>\<open>from_cube\<close>: the loop over the flat cube, a run of equal cells at a time.\<close>

function count_runs :: "'v list \<Rightarrow> ('v \<times> u16) list \<Rightarrow> ('v \<times> u16) list" where
  "count_runs [] ps = ps"
| "count_runs (v # vs) ps =
     (let run_len = Suc (length (takeWhile (\<lambda>u. u = v) vs)) in
      count_runs (dropWhile (\<lambda>u. u = v) vs) (palette_add v (of_nat run_len) ps))"
  by pat_completeness auto
termination by (relation "measure (length \<circ> fst)") (auto simp: length_dropWhile_le le_imp_less_Suc)

definition from_cube :: "'v list \<Rightarrow> 'v paletted" where
  "from_cube cube =
     (let palette = count_runs cube [] in
      if length palette = 1 then Homogeneous (fst (palette ! 0))
      else Heterogeneous \<lparr>hp_cube = cube, hp_palette = palette\<rparr>)"

fun pc_get :: "nat \<Rightarrow> 'v paletted \<Rightarrow> nat \<Rightarrow> nat \<Rightarrow> nat \<Rightarrow> 'v option" where
  "pc_get d (Homogeneous v) x y z = Some v"
| "pc_get d (Heterogeneous h) x y z = hp_get d h x y z"
| "pc_get d (Building cube) x y z = cube_at d cube x y z"

fun pc_get_at_index :: "nat \<Rightarrow> 'v paletted \<Rightarrow> nat \<Rightarrow> 'v option" where
  "pc_get_at_index d (Homogeneous v) i = Some v"
| "pc_get_at_index d (Heterogeneous h) i = cube_at_index d (hp_cube h) i"
| "pc_get_at_index d (Building cube) i = cube_at_index d cube i"

text \<open>\<open>copy_column_into\<close>: the \<open>DIM\<close> slots it fills, when \<open>out\<close> has them.\<close>

fun column :: "nat \<Rightarrow> 'v paletted \<Rightarrow> nat \<Rightarrow> nat \<Rightarrow> 'v option list" where
  "column d (Homogeneous v) x z = replicate d (Some v)"
| "column d (Heterogeneous h) x z = map (\<lambda>y. cube_at d (hp_cube h) x y z) [0..<d]"
| "column d (Building cube) x z = map (\<lambda>y. cube_at d cube x y z) [0..<d]"

fun maybe_has :: "('v \<Rightarrow> bool) \<Rightarrow> 'v paletted \<Rightarrow> bool" where
  "maybe_has P (Homogeneous v) = P v"
| "maybe_has P (Heterogeneous h) = list_ex (\<lambda>e. P (fst e)) (hp_palette h)"
| "maybe_has P (Building cube) = list_ex P cube"

fun collect_values :: "nat \<Rightarrow> 'v paletted \<Rightarrow> 'v list" where
  "collect_values d (Homogeneous v) = replicate (pc_volume d) v"
| "collect_values d (Heterogeneous h) = hp_cube h"
| "collect_values d (Building cube) = cube"

fun enter_building_mode :: "nat \<Rightarrow> 'v paletted \<Rightarrow> 'v paletted" where
  "enter_building_mode d (Building cube) = Building cube"
| "enter_building_mode d (Homogeneous v) = Building (replicate (pc_volume d) v)"
| "enter_building_mode d (Heterogeneous h) = Building (hp_cube h)"

fun as_building_slice :: "'v paletted \<Rightarrow> 'v list option" where
  "as_building_slice (Building cube) = Some cube"
| "as_building_slice _ = None"

fun finalize_building :: "'v paletted \<Rightarrow> 'v paletted" where
  "finalize_building (Building cube) = from_cube cube"
| "finalize_building pc = pc"

fun pc_set :: "nat \<Rightarrow> 'v paletted \<Rightarrow> nat \<Rightarrow> nat \<Rightarrow> nat \<Rightarrow> 'v \<Rightarrow> ('v \<times> 'v paletted) option" where
  "pc_set d (Homogeneous original) x y z v =
     (if v \<noteq> original then
        (if in_cube d x y z then
           Some (original, from_cube ((replicate (pc_volume d) original)[cube_index d x y z := v]))
         else None)
      else Some (original, Homogeneous original))"
| "pc_set d (Heterogeneous h) x y z v =
     (case hp_set d h x y z v of
        None \<Rightarrow> None
      | Some (original, h') \<Rightarrow>
          Some (original,
            if length (hp_palette h') = 1 then Homogeneous (fst (hp_palette h' ! 0)) else Heterogeneous h'))"
| "pc_set d (Building cube) x y z v =
     (case cube_at d cube x y z of
        None \<Rightarrow> None
      | Some old \<Rightarrow> Some (old, Building (cube[cube_index d x y z := v])))"

section \<open>The network form\<close>

definition calculate_strategy :: "nat \<Rightarrow> nat \<Rightarrow> (nat \<times> palette_mode) option" where
  "calculate_strategy d n =
     (if d = 16 then
        (if n \<le> 1 then None
         else if n \<le> 16 then Some (4, Linear) else if n \<le> 32 then Some (5, Hash)
         else if n \<le> 64 then Some (6, Hash) else if n \<le> 128 then Some (7, Hash)
         else if n \<le> 256 then Some (8, Hash) else Some (15, Global))
      else
        (if n \<le> 1 then None
         else if n = 2 then Some (1, Linear) else if n \<le> 4 then Some (2, Linear)
         else if n \<le> 8 then Some (3, Hash) else Some (6, Global)))"

text \<open>\<open>gid\<close> is \<open>to_global_id\<close>; both implementations widen a \<open>u16\<close>.\<close>

definition global_id :: "u16 \<Rightarrow> u32" where
  "global_id v = ucast v"

definition u64_write :: "u64 \<Rightarrow> u8 list" where
  "u64_write w = map (\<lambda>i. ucast (drop_bit (8 * i) w)) (rev [0..<8])"

definition palette_index :: "('v \<times> u16) list \<Rightarrow> 'v \<Rightarrow> u32 option" where
  "palette_index ps v = map_option of_nat (position (\<lambda>e. fst e = v) ps)"

fun all_some :: "'a option list \<Rightarrow> 'a list option" where
  "all_some [] = Some []"
| "all_some (None # xs) = None"
| "all_some (Some x # xs) = map_option ((#) x) (all_some xs)"

fun pc_write :: "nat \<Rightarrow> ('v \<Rightarrow> u32) \<Rightarrow> 'v paletted \<Rightarrow> u8 list option" where
  "pc_write d gid (Homogeneous v) = Some (0 # varint_write (gid v))"
| "pc_write d gid (Heterogeneous h) =
     (case calculate_strategy d (length (hp_palette h)) of
        None \<Rightarrow> None
      | Some (bits, mode) \<Rightarrow>
          (let palette = (if mode = Global then []
             else varint_write (of_nat (length (hp_palette h))) @
                  concat (map (\<lambda>e. varint_write (gid (fst e))) (hp_palette h))) in
           case all_some (map (\<lambda>v. if mode = Global then Some (gid v) else palette_index (hp_palette h) v) (hp_cube h)) of
             None \<Rightarrow> None
           | Some indices \<Rightarrow>
               Some (of_nat bits # palette @ concat (map u64_write (pack_bits indices bits)))))"
| "pc_write d gid (Building cube) = None"

section \<open>Blocks\<close>

type_synonym block_palette = "u16 paletted"
type_synonym biome_palette = "u16 paletted"

definition BLOCK_DIM :: nat where "BLOCK_DIM = 16"
definition BIOME_DIM :: nat where "BIOME_DIM = 4"

fun pc_non_empty_count :: "block_palette \<Rightarrow> u16" where
  "pc_non_empty_count (Homogeneous v) = (if v = 0 then 0 else of_nat (pc_volume BLOCK_DIM))"
| "pc_non_empty_count (Heterogeneous h) = fold (\<lambda>(v, c) n. if v \<noteq> 0 then n + c else n) (hp_palette h) 0"
| "pc_non_empty_count (Building cube) = fold (\<lambda>v n. if v \<noteq> 0 then n + 1 else n) cube 0"

text \<open>\<open>air\<close> is the registry's \<open>is_air\<close>.\<close>

fun has_only_air :: "(u16 \<Rightarrow> bool) \<Rightarrow> block_palette \<Rightarrow> bool" where
  "has_only_air air (Homogeneous v) = air v"
| "has_only_air air (Heterogeneous h) = False"
| "has_only_air air (Building cube) = list_all air cube"

section \<open>Contents and invariant\<close>

text \<open>The abstract container is the flat array; \<open>collect_values\<close> reads it.\<close>

definition palette_ok :: "'v list \<Rightarrow> ('v \<times> u16) list \<Rightarrow> bool" where
  "palette_ok cube ps \<longleftrightarrow>
     distinct (map fst ps) \<and> fst ` set ps = set cube \<and> (\<forall>(v, c) \<in> set ps. unat c = count (mset cube) v)"

fun pc_ok :: "nat \<Rightarrow> 'v paletted \<Rightarrow> bool" where
  "pc_ok d (Homogeneous v) = True"
| "pc_ok d (Heterogeneous h) \<longleftrightarrow>
     length (hp_cube h) = pc_volume d \<and> palette_ok (hp_cube h) (hp_palette h) \<and> 2 \<le> length (hp_palette h)"
| "pc_ok d (Building cube) \<longleftrightarrow> length cube = pc_volume d"

section \<open>Positions in the flat array\<close>

lemma row_index_less: "x < d \<Longrightarrow> z < m \<Longrightarrow> x + z * d < m * (d :: nat)"
proof -
  assume "x < d" "z < m"
  then have "x + z * d < Suc z * d" "Suc z * d \<le> m * d" by (simp, intro mult_le_mono1) simp
  then show ?thesis by (rule less_le_trans)
qed

lemma cube_index_less: "in_cube d x y z \<Longrightarrow> cube_index d x y z < pc_volume d"
proof -
  assume "in_cube d x y z"
  then have "x + z * d < d * d" "y < d" by (simp_all add: in_cube_def row_index_less)
  then have "(x + z * d) + y * (d * d) < d * (d * d)" by (rule row_index_less)
  then show ?thesis by (simp add: cube_index_def pc_volume_def mult.assoc)
qed

lemma cube_index_inverse:
  assumes "in_cube d x y z"
  shows "cube_index d x y z mod d = x" "cube_index d x y z div (d * d) = y" "(cube_index d x y z div d) mod d = z"
proof -
  have lt: "x < d" "z < d" "x + z * d < d * d" using assms by (simp_all add: in_cube_def row_index_less)
  have i: "cube_index d x y z = (x + z * d) + y * (d * d)" "cube_index d x y z = x + (z + y * d) * d"
    by (simp_all add: cube_index_def algebra_simps)
  show "cube_index d x y z mod d = x" unfolding i(2) using lt by simp
  show "cube_index d x y z div (d * d) = y" unfolding i(1) using lt by simp
  have "cube_index d x y z div d = z + y * d" unfolding i(2) using lt by simp
  then show "(cube_index d x y z div d) mod d = z" using lt by simp
qed

lemma cube_index_eq_iff:
  "in_cube d x y z \<Longrightarrow> in_cube d x' y' z' \<Longrightarrow>
     cube_index d x y z = cube_index d x' y' z' \<longleftrightarrow> x = x' \<and> y = y' \<and> z = z'"
  by (metis cube_index_inverse)

lemma index_in_cube:
  assumes "i < pc_volume d"
  shows "in_cube d (i mod d) (i div (d * d)) ((i div d) mod d)"
    "cube_index d (i mod d) (i div (d * d)) ((i div d) mod d) = i"
proof -
  have d: "0 < d" using assms by (cases d) (auto simp: pc_volume_def)
  then show "in_cube d (i mod d) (i div (d * d)) ((i div d) mod d)"
    using assms by (simp add: in_cube_def pc_volume_def less_mult_imp_div_less mult.assoc)
  have "i = (i div d) * d + i mod d" by simp
  moreover have "i div d = (i div d div d) * d + (i div d) mod d" by simp
  ultimately have "i = ((i div d div d) * d + (i div d) mod d) * d + i mod d" by metis
  then show "cube_index d (i mod d) (i div (d * d)) ((i div d) mod d) = i"
    unfolding cube_index_def div_mult2_eq by (metis add.assoc add.commute add_mult_distrib)
qed

section \<open>Palettes as maps of counts\<close>

definition counts :: "'v multiset \<Rightarrow> 'v \<rightharpoonup> u16" where
  "counts M = (\<lambda>v. if v \<in># M then Some (of_nat (count M v)) else None)"

definition counts_of :: "'v multiset \<Rightarrow> ('v \<times> u16) list \<Rightarrow> bool" where
  "counts_of M ps \<longleftrightarrow> distinct (map fst ps) \<and> map_of ps = counts M"

lemma counts_count: "counts M v = (if count M v = 0 then None else Some (of_nat (count M v)))"
  by (simp add: counts_def not_in_iff)

lemma unat_of_nat_u16: "n < 65536 \<Longrightarrow> unat (of_nat n :: u16) = n"
  by (simp add: unsigned_of_nat take_bit_nat_eq_self)

lemma palette_ok_counts:
  assumes "length cube < 65536"
  shows "palette_ok cube ps \<longleftrightarrow> counts_of (mset cube) ps"
proof -
  have lt: "count (mset cube) v < 65536" for v
    using count_le_length [of cube v] assms by (simp add: count_mset)
  have c: "unat c = count (mset cube) v \<longleftrightarrow> c = of_nat (count (mset cube) v)" for c :: u16 and v
    using unat_of_nat_u16 [OF lt [of v]] by (metis of_nat_unat ucast_id)
  show ?thesis
  proof
    assume ok: "palette_ok cube ps"
    have "map_of ps v = counts (mset cube) v" for v
    proof (cases "map_of ps v")
      case None
      then have "v \<notin> set cube" using ok by (auto simp: palette_ok_def map_of_eq_None_iff)
      then show ?thesis using None by (simp add: counts_def)
    next
      case (Some n)
      then have "(v, n) \<in> set ps" by (rule map_of_SomeD)
      then show ?thesis using ok Some by (force simp: palette_ok_def counts_def c)
    qed
    then show "counts_of (mset cube) ps" using ok by (auto simp: counts_of_def palette_ok_def)
  next
    assume ok: "counts_of (mset cube) ps"
    then have mem: "(v, n) \<in> set ps \<longleftrightarrow> v \<in> set cube \<and> n = of_nat (count (mset cube) v)" for v n
      using map_of_eq_Some_iff [of ps v n] by (auto simp: counts_of_def counts_def split: if_splits)
    then show "palette_ok cube ps" using ok by (force simp: palette_ok_def counts_of_def c image_iff)
  qed
qed

lemma map_of_palette_add:
  "map_of (palette_add v n ps) = (map_of ps)(v \<mapsto> (case map_of ps v of None \<Rightarrow> n | Some c \<Rightarrow> c + n))"
  by (induction v n ps rule: palette_add.induct) (auto simp: fun_eq_iff split: option.split)

lemma fst_palette_add: "fst ` set (palette_add v n ps) = insert v (fst ` set ps)"
  by (induction v n ps rule: palette_add.induct) auto

lemma distinct_palette_add:
  "distinct (map fst ps) \<Longrightarrow> distinct (map fst (palette_add v n ps))"
  by (induction v n ps rule: palette_add.induct) (auto simp: fst_palette_add)

lemma counts_of_add:
  assumes "counts_of M ps"
  shows "counts_of (M + replicate_mset (Suc n) v) (palette_add v (of_nat (Suc n)) ps)"
proof -
  have "counts (M + replicate_mset (Suc n) v) =
      (counts M)(v \<mapsto> (case counts M v of None \<Rightarrow> of_nat (Suc n) | Some c \<Rightarrow> c + of_nat (Suc n)))"
    by (rule ext) (auto simp: counts_def not_in_iff [THEN iffD1])
  then show ?thesis using assms by (simp add: counts_of_def map_of_palette_add distinct_palette_add del: of_nat_Suc)
qed

lemma map_of_eq_set:
  "distinct (map fst ps) \<Longrightarrow> (\<And>v c. (v, c) \<in> set ps \<longleftrightarrow> m v = Some c) \<Longrightarrow> map_of ps = m"
  by (metis (no_types, lifting) ext map_of_eq_Some_iff not_None_eq option.exhaust)

lemma counts_of_drop_one:
  assumes ok: "counts_of M ps" and "v \<in># M" "count M v \<le> 65536"
  shows "counts_of (M - {#v#}) (palette_drop_one v ps)"
proof -
  let ?c = "of_nat (count M v) :: u16"
  have v: "map_of ps v = Some ?c" using assms by (simp add: counts_of_def counts_def)
  then have "(v, ?c) \<in> set ps" by (rule map_of_SomeD)
  then obtain i where pos: "position (\<lambda>e. fst e = v) ps = Some i"
    using position_None [of "\<lambda>e. fst e = v" ps] by fastforce
  have i: "i < length ps" "fst (ps ! i) = v" using position_Some [OF pos] by simp_all
  have d: "distinct (map fst ps)" using ok by (simp add: counts_of_def)
  have e: "ps ! i = (v, ?c)"
    using i v map_of_is_SomeI [OF d, of v "snd (ps ! i)"] nth_mem [OF i(1)] by (metis option.inject prod.collapse)
  have c1: "?c - 1 = of_nat (count M v - 1)" using assms(2) of_nat_diff [of 1 "count M v", where 'a = u16] by (simp add: Suc_leI)
  have zero: "?c - 1 = 0 \<longleftrightarrow> count M v = 1"
  proof -
    have "unat (?c - 1) = count M v - 1" unfolding c1 using assms(3) by (intro unat_of_nat_u16) simp
    moreover have "0 < count M v" using assms(2) by simp
    ultimately show ?thesis by (metis One_nat_def Suc_pred diff_self_eq_0 unat_eq_zero)
  qed
  have n0: "count M v \<noteq> 0" using assms(2) by simp
  let ?ps = "ps[i := (v, ?c - 1)]"
  have m: "map fst ?ps = map fst ps" using i by (simp add: map_update list_update_same_conv)
  have ds: "distinct ps" using d distinct_map by blast
  have unique: "(v, c) \<in> set ps \<Longrightarrow> c = ?c" for c using v d by simp
  have set_ps: "set ?ps = insert (v, ?c - 1) (set ps - {(v, ?c)})"
    using set_update_distinct [OF ds i(1)] e by simp
  have other: "(u, c) \<in> set ps \<longleftrightarrow> counts M u = Some c" for u c
    using d ok by (simp add: counts_of_def flip: map_of_eq_Some_iff)
  show ?thesis
  proof (cases "?c - 1 = 0")
    case True
    have "i < length ?ps" using i by simp
    have "map_of (swap_remove i ?ps) = counts (M - {#v#})"
    proof (rule map_of_eq_set)
      show dist: "distinct (map fst (swap_remove i ?ps))"
        using swap_remove_map [OF \<open>i < length ?ps\<close>, of fst] swap_remove_distinct(1) [of "map fst ps" i] d i m by simp
      have "distinct ?ps" using m d distinct_map by metis
      then have "set (swap_remove i ?ps) = set ps - {(v, ?c)} - {(v, ?c - 1)}"
        using swap_remove_distinct(2) [of ?ps i] i set_ps by auto
      then show "(u, c) \<in> set (swap_remove i ?ps) \<longleftrightarrow> counts (M - {#v#}) u = Some c" for u c
        using True zero unique other [of u c] by (cases "u = v") (auto simp: counts_count simp del: count_eq_zero_iff count_greater_zero_iff simp flip: neq0_conv)
    qed
    moreover have "distinct (map fst (swap_remove i ?ps))"
      using swap_remove_map [OF \<open>i < length ?ps\<close>, of fst] swap_remove_distinct(1) [of "map fst ps" i] d i m by simp
    ultimately show ?thesis using True by (simp add: palette_drop_one_def pos e Let_def counts_of_def)
  next
    case False
    have "map_of ?ps = counts (M - {#v#})"
    proof (rule map_of_eq_set)
      show "distinct (map fst ?ps)" using m d by simp
      have "counts (M - {#v#}) = (counts M)(v \<mapsto> ?c - 1)"
        using False zero n0 unfolding c1
        by (auto simp: counts_count fun_eq_iff simp del: count_eq_zero_iff count_greater_zero_iff simp flip: neq0_conv)
      then show "(u, c) \<in> set ?ps \<longleftrightarrow> counts (M - {#v#}) u = Some c" for u c
        using unique other [of u c] unfolding set_ps by auto
    qed
    then show ?thesis using False m d by (simp add: palette_drop_one_def pos e Let_def counts_of_def)
  qed
qed

end
