(* ===== verification/PalettedRefine.thy ===== *)
theory PalettedRefine
  imports Paletted
begin

text \<open>
  The paletted container implements a flat array: every operation keeps \<open>pc_ok\<close> (the palette counts
  the cells), reads are reads of \<open>collect_values\<close> and a write updates one cell of it.
\<close>

section \<open>Building the palette\<close>

lemma counts_of_count_runs:
  "counts_of M ps \<Longrightarrow> counts_of (M + mset vs) (count_runs vs ps)"
proof (induction vs ps arbitrary: M rule: count_runs.induct)
  case (2 v vs ps)
  let ?run = "takeWhile (\<lambda>u. u = v) vs" and ?rest = "dropWhile (\<lambda>u. u = v) vs"
  have run: "mset ?run = replicate_mset (length ?run) v"
    by (metis (full_types) mset_replicate replicate_eqI set_takeWhileD)
  have "mset (v # vs) = replicate_mset (Suc (length ?run)) v + mset ?rest"
    using run mset_append [of ?run ?rest] by (simp del: mset_append)
  moreover have "counts_of ((M + replicate_mset (Suc (length ?run)) v) + mset ?rest)
      (count_runs ?rest (palette_add v (of_nat (Suc (length ?run))) ps))"
    using counts_of_add [OF "2.prems"] by (intro "2.IH") simp_all
  ultimately show ?case by (simp add: Let_def add.assoc)
qed simp

lemma counts_of_from_cube: "counts_of (mset cube) (count_runs cube [])"
proof -
  have "counts_of {#} []" by (simp add: counts_of_def counts_def fun_eq_iff)
  from counts_of_count_runs [OF this, of cube] show ?thesis by simp
qed

lemma counts_of_keys: "counts_of M ps \<Longrightarrow> fst ` set ps = set_mset M"
proof -
  assume "counts_of M ps"
  then have "fst ` set ps = dom (counts M)" unfolding counts_of_def by (metis dom_map_of_conv_image_fst)
  then show ?thesis by (auto simp: counts_def split: if_splits)
qed

lemma counts_of_single:
  assumes "counts_of (mset cube) ps" "length ps = 1"
  shows "cube = replicate (length cube) (fst (ps ! 0))"
proof -
  obtain e where "ps = [e]" using assms(2) by (auto simp: length_Suc_conv)
  then have "set cube = {fst e}" using counts_of_keys [OF assms(1)] by simp
  then show ?thesis using \<open>ps = [e]\<close> by (intro replicate_eqI) auto
qed

definition pc_dim_ok :: "nat \<Rightarrow> bool" where
  "pc_dim_ok d \<longleftrightarrow> 0 < d \<and> pc_volume d < 65536"

lemma pc_dims: "pc_dim_ok BLOCK_DIM" "pc_dim_ok BIOME_DIM"
  by (simp_all add: pc_dim_ok_def pc_volume_def BLOCK_DIM_def BIOME_DIM_def)

lemma pc_volume_pos: "pc_dim_ok d \<Longrightarrow> 0 < pc_volume d"
  by (simp add: pc_dim_ok_def pc_volume_def)

text \<open>A counted cube, collapsed to one value when the palette has one entry.\<close>

lemma collapse_ok:
  assumes "pc_dim_ok d" "length cube = pc_volume d" "counts_of (mset cube) ps"
  defines "pc \<equiv> (if length ps = 1 then Homogeneous (fst (ps ! 0))
                 else Heterogeneous \<lparr>hp_cube = cube, hp_palette = ps\<rparr>)"
  shows "pc_ok d pc" "collect_values d pc = cube" "pc = Homogeneous v \<longleftrightarrow> set cube = {v}" "\<forall>c. pc \<noteq> Building c"
proof -
  have ne: "cube \<noteq> []" using assms(1,2) pc_volume_pos by fastforce
  then have "ps \<noteq> []" using counts_of_keys [OF assms(3)] by auto
  then have len: "length ps \<noteq> 1 \<longleftrightarrow> 2 \<le> length ps" by (cases ps) (auto simp: Suc_le_eq)
  have ok: "palette_ok cube ps" using assms(1-3) by (simp add: palette_ok_counts pc_dim_ok_def)
  then show "pc_ok d pc" using assms(2) len by (simp add: pc_def)
  show "collect_values d pc = cube"
    using counts_of_single [OF assms(3)] assms(2) by (simp add: pc_def)
  have "card (set cube) = length ps"
    using ok by (metis distinct_card length_map palette_ok_def set_map)
  moreover have "set cube = {fst (ps ! 0)}" if "length ps = 1"
    using counts_of_keys [OF assms(3)] that by (auto simp: length_Suc_conv)
  ultimately show "pc = Homogeneous v \<longleftrightarrow> set cube = {v}"
    by (auto simp: pc_def)
  show "\<forall>c. pc \<noteq> Building c" by (simp add: pc_def)
qed

lemma from_cube_ok:
  assumes "pc_dim_ok d" "length cube = pc_volume d"
  shows "pc_ok d (from_cube cube)" "collect_values d (from_cube cube) = cube"
    "from_cube cube = Homogeneous v \<longleftrightarrow> set cube = {v}" "\<forall>c. from_cube cube \<noteq> Building c"
  using collapse_ok [OF assms counts_of_from_cube] by (simp_all add: from_cube_def Let_def)

lemma hetero_counts:
  "pc_dim_ok d \<Longrightarrow> pc_ok d (Heterogeneous h) \<Longrightarrow> counts_of (mset (hp_cube h)) (hp_palette h)"
  by (metis palette_ok_counts pc_dim_ok_def pc_ok.simps(2))

section \<open>Reading\<close>

lemma length_collect_values: "pc_ok d pc \<Longrightarrow> length (collect_values d pc) = pc_volume d"
  by (cases pc) simp_all

lemma pc_get_cells:
  "in_cube d x y z \<Longrightarrow> pc_get d pc x y z = Some (collect_values d pc ! cube_index d x y z)"
  by (cases pc) (simp_all add: hp_get_def cube_at_def cube_index_less)

lemma pc_get_at_index_cells:
  "i < pc_volume d \<Longrightarrow> pc_get_at_index d pc i = Some (collect_values d pc ! i)"
  by (cases pc) (simp_all add: cube_at_index_def cube_at_def index_in_cube)

lemma column_cells:
  "x < d \<Longrightarrow> z < d \<Longrightarrow> column d pc x z = map (\<lambda>y. pc_get d pc x y z) [0..<d]"
  by (cases pc) (simp_all add: hp_get_def map_replicate_const)

lemma maybe_has_cells:
  assumes "pc_dim_ok d" "pc_ok d pc"
  shows "maybe_has P pc \<longleftrightarrow> (\<exists>v \<in> set (collect_values d pc). P v)"
proof (cases pc)
  case (Heterogeneous h)
  then have "fst ` set (hp_palette h) = set (hp_cube h)" using assms(2) by (simp add: palette_ok_def)
  then have "(\<exists>v \<in> fst ` set (hp_palette h). P v) \<longleftrightarrow> (\<exists>v \<in> set (hp_cube h). P v)" by simp
  then show ?thesis using Heterogeneous by (simp add: list_ex_iff)
qed (use pc_volume_pos [OF assms(1)] in \<open>auto simp: list_ex_iff\<close>)

section \<open>Writing\<close>

lemma pc_set_cells:
  assumes "pc_dim_ok d" "pc_ok d pc" "in_cube d x y z"
  obtains pc' where "pc_set d pc x y z v = Some (collect_values d pc ! cube_index d x y z, pc')"
    "pc_ok d pc'" "collect_values d pc' = (collect_values d pc)[cube_index d x y z := v]"
    "(\<exists>c. pc' = Building c) \<longleftrightarrow> (\<exists>c. pc = Building c)"
proof -
  let ?i = "cube_index d x y z"
  have i: "?i < pc_volume d" using assms(3) by (rule cube_index_less)
  show ?thesis
  proof (cases pc)
    case (Homogeneous u)
    show ?thesis
    proof (cases "v = u")
      case True
      have "replicate (pc_volume d) u = (replicate (pc_volume d) u)[?i := u]"
        using i by (metis list_update_id nth_replicate)
      then show ?thesis using True Homogeneous i by (intro that [of pc]) simp_all
    next
      case False
      let ?cube = "(replicate (pc_volume d) u)[?i := v]"
      have "length ?cube = pc_volume d" by simp
      note fc = from_cube_ok [OF assms(1) this]
      show ?thesis using Homogeneous False i fc assms(3) by (intro that [of "from_cube ?cube"]) simp_all
    qed
  next
    case (Heterogeneous h)
    let ?cube = "hp_cube h" let ?old = "?cube ! ?i"
    let ?ps = "palette_drop_one ?old (palette_add v 1 (hp_palette h))"
    let ?pc = "if length ?ps = 1 then Homogeneous (fst (?ps ! 0))
               else Heterogeneous \<lparr>hp_cube = ?cube[?i := v], hp_palette = ?ps\<rparr>"
    have len: "length ?cube = pc_volume d" and "palette_ok ?cube (hp_palette h)"
      using assms(2) Heterogeneous by simp_all
    then have "counts_of (mset ?cube) (hp_palette h)"
      using assms(1) by (simp add: palette_ok_counts pc_dim_ok_def)
    from counts_of_add [OF this, of 0 v]
    have add: "counts_of (add_mset v (mset ?cube)) (palette_add v 1 (hp_palette h))" by simp
    have "count (add_mset v (mset ?cube)) ?old \<le> size (add_mset v (mset ?cube))" by (rule count_le_size)
    then have "count (add_mset v (mset ?cube)) ?old \<le> 65536"
      using assms(1) len by (simp only: size_add_mset size_mset pc_dim_ok_def) linarith
    moreover have "?old \<in># add_mset v (mset ?cube)" using i len by simp
    ultimately have "counts_of (add_mset v (mset ?cube) - {#?old#}) ?ps" using counts_of_drop_one [OF add] by blast
    moreover have "add_mset v (mset ?cube) - {#?old#} = mset (?cube[?i := v])"
      using i len by (simp add: mset_update)
    ultimately have "counts_of (mset (?cube[?i := v])) ?ps" by simp
    from collapse_ok [OF assms(1) _ this] have ok: "pc_ok d ?pc" "collect_values d ?pc = ?cube[?i := v]" "\<forall>c. ?pc \<noteq> Building c"
      using len by simp_all
    have "pc_set d pc x y z v = Some (?old, ?pc)"
      using Heterogeneous assms(3) by (simp add: hp_set_def cube_at_def)
    then show ?thesis using ok Heterogeneous by (intro that [of ?pc]) simp_all
  next
    case (Building cube)
    then show ?thesis using assms i by (intro that [of "Building (cube[?i := v])"]) (simp_all add: cube_at_def)
  qed
qed

lemma enter_building_ok:
  "pc_ok d pc \<Longrightarrow> pc_ok d (enter_building_mode d pc) \<and>
     enter_building_mode d pc = Building (collect_values d pc)"
  by (cases pc) simp_all

lemma finalize_building_ok:
  assumes "pc_dim_ok d" "pc_ok d pc"
  shows "pc_ok d (finalize_building pc)" "collect_values d (finalize_building pc) = collect_values d pc"
    "\<forall>c. finalize_building pc \<noteq> Building c"
proof -
  have "pc_ok d (finalize_building pc) \<and> collect_values d (finalize_building pc) = collect_values d pc \<and>
      (\<forall>c. finalize_building pc \<noteq> Building c)"
  proof (cases pc)
    case (Building cube)
    then have "length cube = pc_volume d" using assms(2) by simp
    from from_cube_ok [OF assms(1) this] show ?thesis using Building by simp
  qed (use assms in simp_all)
  then show "pc_ok d (finalize_building pc)" "collect_values d (finalize_building pc) = collect_values d pc"
    "\<forall>c. finalize_building pc \<noteq> Building c" by blast+
qed

end
