(* ===== verification/Section.thy ===== *)
theory Section
  imports PalettedRefine Positions
begin

text \<open>
  A chunk section and its cached counters (\<open>ChunkSection\<close> of \<open>foton-core/src/chunk/section.rs\<close>).
  What the registry says of a block state is the argument \<open>traits\<close>. The counters are \<open>u16\<close> and
  wrap.
\<close>

section \<open>State and operations\<close>

record section_counts =
  ct_is_air :: bool
  ct_has_fluid :: bool
  ct_ticking_block :: bool
  ct_ticking_fluid :: bool

type_synonym block_traits = "u16 \<Rightarrow> section_counts"

record chunk_section =
  cs_states :: block_palette
  cs_biomes :: biome_palette
  cs_non_empty :: u16
  cs_fluid :: u16
  cs_ticking_blocks :: u16
  cs_ticking_fluids :: u16

definition section_new_with_biomes :: "block_palette \<Rightarrow> biome_palette \<Rightarrow> chunk_section" where
  "section_new_with_biomes st bi =
     \<lparr>cs_states = st, cs_biomes = bi, cs_non_empty = 0, cs_fluid = 0,
      cs_ticking_blocks = 0, cs_ticking_fluids = 0\<rparr>"

definition section_new_empty :: "u16 \<Rightarrow> chunk_section" where
  "section_new_empty plains = section_new_with_biomes (Homogeneous 0) (Homogeneous plains)"

definition section_is_empty :: "chunk_section \<Rightarrow> bool" where
  "section_is_empty s \<longleftrightarrow> cs_non_empty s = 0"

definition section_is_randomly_ticking :: "chunk_section \<Rightarrow> bool" where
  "section_is_randomly_ticking s \<longleftrightarrow> 0 < cs_ticking_blocks s \<or> 0 < cs_ticking_fluids s"

definition section_has_fluid :: "chunk_section \<Rightarrow> bool" where
  "section_has_fluid s \<longleftrightarrow> 0 < cs_fluid s"

text \<open>\<open>recalculate_counts_from_palette\<close>: the four counters as a quadruple, an entry at a time.\<close>

definition BLOCKS_PER_SECTION :: u16 where
  "BLOCKS_PER_SECTION = 16 * 16 * 16"

fun accumulate_counter_traits :: "section_counts \<Rightarrow> u16 \<Rightarrow> u16 \<times> u16 \<times> u16 \<times> u16 \<Rightarrow> u16 \<times> u16 \<times> u16 \<times> u16" where
  "accumulate_counter_traits t n (ne, fl, tb, tf) =
     (if \<not> ct_is_air t then ne + n else ne, if ct_has_fluid t then fl + n else fl,
      if ct_ticking_block t then tb + n else tb, if ct_ticking_fluid t then tf + n else tf)"

fun palette_counters :: "block_traits \<Rightarrow> block_palette \<Rightarrow> u16 \<times> u16 \<times> u16 \<times> u16" where
  "palette_counters traits (Homogeneous v) =
     accumulate_counter_traits (traits v) BLOCKS_PER_SECTION (0, 0, 0, 0)"
| "palette_counters traits (Heterogeneous h) =
     fold (\<lambda>(v, c). accumulate_counter_traits (traits v) c) (hp_palette h) (0, 0, 0, 0)"
| "palette_counters traits (Building cube) = (0, 0, 0, 0)"

definition recalculate_counts :: "block_traits \<Rightarrow> chunk_section \<Rightarrow> chunk_section" where
  "recalculate_counts traits s =
     (let states = finalize_building (cs_states s);
          (ne, fl, tb, tf) = palette_counters traits states in
      s\<lparr>cs_states := states, cs_non_empty := ne, cs_fluid := fl, cs_ticking_blocks := tb, cs_ticking_fluids := tf\<rparr>)"

fun is_building :: "'v paletted \<Rightarrow> bool" where
  "is_building (Building c) = True"
| "is_building _ = False"

definition ensure_counter_ready :: "block_traits \<Rightarrow> chunk_section \<Rightarrow> chunk_section" where
  "ensure_counter_ready traits s = (if is_building (cs_states s) then recalculate_counts traits s else s)"

definition count_change :: "bool \<Rightarrow> bool \<Rightarrow> u16 \<Rightarrow> u16" where
  "count_change was now n = (if was \<and> \<not> now then n - 1 else if \<not> was \<and> now then n + 1 else n)"

definition apply_count_change :: "section_counts \<Rightarrow> section_counts \<Rightarrow> chunk_section \<Rightarrow> chunk_section" where
  "apply_count_change old new s =
     s\<lparr>cs_non_empty := count_change (\<not> ct_is_air old) (\<not> ct_is_air new) (cs_non_empty s),
       cs_fluid := count_change (ct_has_fluid old) (ct_has_fluid new) (cs_fluid s),
       cs_ticking_blocks := count_change (ct_ticking_block old) (ct_ticking_block new) (cs_ticking_blocks s),
       cs_ticking_fluids := count_change (ct_ticking_fluid old) (ct_ticking_fluid new) (cs_ticking_fluids s)\<rparr>"

definition section_set :: "block_traits \<Rightarrow> nat \<Rightarrow> nat \<Rightarrow> nat \<Rightarrow> u16 \<Rightarrow> chunk_section \<Rightarrow> (u16 \<times> chunk_section) option" where
  "section_set traits x y z v s0 =
     (let s = ensure_counter_ready traits s0 in
      case pc_set BLOCK_DIM (cs_states s) x y z v of
        None \<Rightarrow> None
      | Some (old, states) \<Rightarrow>
          (let s = s\<lparr>cs_states := states\<rparr> in
           Some (old, if old \<noteq> v then apply_count_change (traits old) (traits v) s else s)))"

definition section_set_for_generation :: "nat \<Rightarrow> nat \<Rightarrow> nat \<Rightarrow> u16 \<Rightarrow> chunk_section \<Rightarrow> (u16 \<times> chunk_section) option" where
  "section_set_for_generation x y z v s =
     map_option (\<lambda>(old, states). (old, s\<lparr>cs_states := states\<rparr>))
       (pc_set BLOCK_DIM (enter_building_mode BLOCK_DIM (cs_states s)) x y z v)"

definition finalize_generation_counts_if_needed :: "block_traits \<Rightarrow> chunk_section \<Rightarrow> chunk_section" where
  "finalize_generation_counts_if_needed traits s =
     (if is_building (cs_states s) then recalculate_counts traits s else s)"

text \<open>\<open>poi\<close> is the registry's \<open>is_poi_state\<close>, \<open>light\<close> its light emission.\<close>

fun contains_poi :: "(u16 \<Rightarrow> bool) \<Rightarrow> block_palette \<Rightarrow> bool" where
  "contains_poi poi (Homogeneous v) = poi v"
| "contains_poi poi (Heterogeneous h) = list_ex (\<lambda>e. poi (fst e)) (hp_palette h)"
| "contains_poi poi (Building cube) = True"

definition maybe_has_block_light_sources :: "(u16 \<Rightarrow> nat) \<Rightarrow> chunk_section \<Rightarrow> bool" where
  "maybe_has_block_light_sources light s \<longleftrightarrow>
     \<not> section_is_empty s \<and> maybe_has (\<lambda>v. 0 < light v) (cs_states s)"

definition block_light_sources :: "(u16 \<Rightarrow> nat) \<Rightarrow> i32w \<Rightarrow> i32w \<Rightarrow> i32w \<Rightarrow> chunk_section \<Rightarrow> (i32w \<times> i32w \<times> i32w) list" where
  "block_light_sources light min_x min_y min_z s =
     (if maybe_has_block_light_sources light s then
        map (\<lambda>i. (min_x + of_nat (i mod 16), min_y + of_nat (i div 256), min_z + of_nat (i div 16 mod 16)))
          (filter (\<lambda>i. light (the (pc_get_at_index BLOCK_DIM (cs_states s) i)) \<noteq> 0) [0..<pc_volume BLOCK_DIM])
      else [])"

text \<open>\<open>write\<close>: two counters in network order and the two containers; its \<open>expect\<close>s are on a growing buffer.\<close>

definition u16_write :: "u16 \<Rightarrow> u8 list" where
  "u16_write w = [ucast (drop_bit 8 w), ucast w]"

definition section_write :: "(u16 \<Rightarrow> u32) \<Rightarrow> chunk_section \<Rightarrow> u8 list option" where
  "section_write gid s =
     (case pc_write BLOCK_DIM gid (cs_states s) of
        None \<Rightarrow> None
      | Some states \<Rightarrow>
          map_option (\<lambda>biomes. u16_write (cs_non_empty s) @ u16_write (cs_fluid s) @ states @ biomes)
            (pc_write BIOME_DIM gid (cs_biomes s)))"

section \<open>What the counters mean\<close>

definition cells :: "chunk_section \<Rightarrow> u16 list" where
  "cells s = collect_values BLOCK_DIM (cs_states s)"

definition count_where :: "('v \<Rightarrow> bool) \<Rightarrow> 'v list \<Rightarrow> nat" where
  "count_where P vs = length (filter P vs)"

definition counters_ok :: "block_traits \<Rightarrow> chunk_section \<Rightarrow> bool" where
  "counters_ok traits s \<longleftrightarrow>
     unat (cs_non_empty s) = count_where (\<lambda>v. \<not> ct_is_air (traits v)) (cells s) \<and>
     unat (cs_fluid s) = count_where (\<lambda>v. ct_has_fluid (traits v)) (cells s) \<and>
     unat (cs_ticking_blocks s) = count_where (\<lambda>v. ct_ticking_block (traits v)) (cells s) \<and>
     unat (cs_ticking_fluids s) = count_where (\<lambda>v. ct_ticking_fluid (traits v)) (cells s)"

text \<open>A section whose counters may be stale is in building mode.\<close>

definition section_ok :: "block_traits \<Rightarrow> chunk_section \<Rightarrow> bool" where
  "section_ok traits s \<longleftrightarrow>
     pc_ok BLOCK_DIM (cs_states s) \<and> pc_ok BIOME_DIM (cs_biomes s) \<and>
     (is_building (cs_states s) \<or> counters_ok traits s)"

section \<open>Sums over a palette\<close>

lemma counts_of_Cons:
  assumes "counts_of M ((v, c) # ps)"
  shows "c = of_nat (count M v)" "counts_of (filter_mset (\<lambda>u. u \<noteq> v) M) ps"
proof -
  have d: "v \<notin> fst ` set ps" "distinct (map fst ps)" and m: "(map_of ps)(v \<mapsto> c) = counts M"
    using assms by (simp_all add: counts_of_def)
  have "counts M v = Some c" using fun_cong [OF m, of v] by simp
  then show "c = of_nat (count M v)" by (simp add: counts_count split: if_splits)
  have "map_of ps u = counts (filter_mset (\<lambda>u. u \<noteq> v) M) u" for u
    using fun_cong [OF m, of u] d(1) by (cases "u = v") (auto simp: counts_def map_of_eq_None_iff split: if_splits)
  then show "counts_of (filter_mset (\<lambda>u. u \<noteq> v) M) ps" using d(2) by (auto simp: counts_of_def)
qed

lemma palette_sum:
  "counts_of M ps \<Longrightarrow>
     fold (\<lambda>(v, c) n. if P v then n + c else n) ps a = a + of_nat (size (filter_mset P M))"
proof (induction ps arbitrary: M a)
  case Nil
  then have "set_mset M = {}" using counts_of_keys [of M "[]"] by simp
  then have "M = {#}" by (simp only: set_mset_eq_empty_iff)
  then show ?case by simp
next
  case (Cons e ps)
  obtain v c where e: "e = (v, c)" by fastforce
  note step = counts_of_Cons [OF Cons.prems [unfolded e]]
  let ?rest = "filter_mset (\<lambda>u. u \<noteq> v) M"
  have "M = replicate_mset (count M v) v + ?rest" by (rule multiset_eqI) simp
  then have "filter_mset P M = filter_mset P (replicate_mset (count M v) v + ?rest)" by (rule arg_cong)
  then have "filter_mset P M = filter_mset P (replicate_mset (count M v) v) + filter_mset P ?rest"
    by (simp only: filter_union_mset)
  moreover have "filter_mset P (replicate_mset n v) = (if P v then replicate_mset n v else {#})" for n
    by (induction n) simp_all
  ultimately have "size (filter_mset P M) = (if P v then count M v else 0) + size (filter_mset P ?rest)"
    by simp
  then show ?case using Cons.IH [OF step(2)] step(1) by (simp add: e)
qed

lemma count_where_mset: "count_where P vs = size (filter_mset P (mset vs))"
  by (simp add: count_where_def flip: mset_filter)

lemma count_where_le: "count_where P vs \<le> length vs"
  by (simp add: count_where_def)

lemma count_where_replicate [simp]: "count_where P (replicate n v) = (if P v then n else 0)"
  by (simp add: count_where_def)

lemma count_where_update:
  assumes "i < length vs"
  shows "count_where P (vs[i := v]) + (if P (vs ! i) then 1 else 0) = count_where P vs + (if P v then 1 else 0)"
proof -
  have "vs = take i vs @ vs ! i # drop (Suc i) vs" "vs[i := v] = take i vs @ v # drop (Suc i) vs"
    using assms by (simp_all add: id_take_nth_drop upd_conv_take_nth_drop)
  from arg_cong [OF this(1), of "count_where P"] arg_cong [OF this(2), of "count_where P"]
  show ?thesis by (simp add: count_where_def del: take_update_cancel)
qed

lemma pc_volume_block: "pc_volume BLOCK_DIM = 4096"
  by (simp add: pc_volume_def BLOCK_DIM_def)

lemma fold_counters:
  "fold (\<lambda>(v, c). accumulate_counter_traits (traits v) c) ps (ne, fl, tb, tf) =
     (fold (\<lambda>(v, c) n. if \<not> ct_is_air (traits v) then n + c else n) ps ne,
      fold (\<lambda>(v, c) n. if ct_has_fluid (traits v) then n + c else n) ps fl,
      fold (\<lambda>(v, c) n. if ct_ticking_block (traits v) then n + c else n) ps tb,
      fold (\<lambda>(v, c) n. if ct_ticking_fluid (traits v) then n + c else n) ps tf)"
  by (induction ps arbitrary: ne fl tb tf) auto

lemma palette_counters_cells:
  assumes "pc_ok BLOCK_DIM pc" "\<forall>c. pc \<noteq> Building c"
  defines "n \<equiv> \<lambda>P. of_nat (count_where P (collect_values BLOCK_DIM pc)) :: u16"
  shows "palette_counters traits pc =
    (n (\<lambda>v. \<not> ct_is_air (traits v)), n (\<lambda>v. ct_has_fluid (traits v)),
     n (\<lambda>v. ct_ticking_block (traits v)), n (\<lambda>v. ct_ticking_fluid (traits v)))"
proof (cases pc)
  case (Homogeneous v)
  then show ?thesis by (simp add: n_def BLOCKS_PER_SECTION_def pc_volume_block)
next
  case (Heterogeneous h)
  then have "counts_of (mset (hp_cube h)) (hp_palette h)"
    using assms(1) hetero_counts [OF pc_dims(1)] by blast
  from palette_sum [OF this] show ?thesis
    unfolding Heterogeneous palette_counters.simps fold_counters n_def by (simp add: count_where_mset)
qed (use assms(2) in simp)

text \<open>The count the network form carries.\<close>

lemma non_empty_count_cells:
  assumes "pc_ok BLOCK_DIM pc"
  shows "unat (pc_non_empty_count pc) = count_where (\<lambda>v. v \<noteq> 0) (collect_values BLOCK_DIM pc)"
proof -
  let ?n = "count_where (\<lambda>v. v \<noteq> 0) (collect_values BLOCK_DIM pc)"
  have "fold (\<lambda>v n. if v \<noteq> 0 then n + 1 else n) cube (a :: u16) = a + of_nat (count_where (\<lambda>v. v \<noteq> 0) cube)"
    for cube :: "u16 list" and a by (induction cube arbitrary: a) (simp_all add: count_where_def)
  note building = this
  have "pc_non_empty_count pc = of_nat ?n"
  proof (cases pc)
    case (Heterogeneous h)
    then have "counts_of (mset (hp_cube h)) (hp_palette h)"
      using assms(1) hetero_counts [OF pc_dims(1)] by blast
    from palette_sum [OF this, of "\<lambda>v. v \<noteq> 0"] show ?thesis using Heterogeneous by (simp add: count_where_mset)
  qed (simp_all add: building)
  moreover have "?n < 65536"
    using count_where_le [of "\<lambda>v. v \<noteq> 0" "collect_values BLOCK_DIM pc"] length_collect_values [OF assms]
    by (simp add: pc_volume_block)
  ultimately show ?thesis by (simp add: unat_of_nat_u16)
qed

section \<open>The counters are kept\<close>

lemma is_building_iff: "is_building pc \<longleftrightarrow> (\<exists>c. pc = Building c)"
  by (cases pc) simp_all

lemma recalculate_ok:
  assumes "pc_ok BLOCK_DIM (cs_states s)" "pc_ok BIOME_DIM (cs_biomes s)"
  shows "section_ok traits (recalculate_counts traits s)" "counters_ok traits (recalculate_counts traits s)"
    "cells (recalculate_counts traits s) = cells s" "\<not> is_building (cs_states (recalculate_counts traits s))"
    "cs_biomes (recalculate_counts traits s) = cs_biomes s"
proof -
  let ?pc = "finalize_building (cs_states s)"
  note fin = finalize_building_ok [OF pc_dims(1) assms(1)]
  have "count_where P (collect_values BLOCK_DIM ?pc) < 65536" for P
    using count_where_le [of P "collect_values BLOCK_DIM ?pc"] length_collect_values [OF fin(1)]
    by (simp add: pc_volume_block)
  note n = unat_of_nat_u16 [OF this [unfolded fin(2)]]
  have c: "counters_ok traits (recalculate_counts traits s) \<and> cells (recalculate_counts traits s) = cells s"
    by (simp add: recalculate_counts_def palette_counters_cells [OF fin(1,3)] counters_ok_def cells_def n fin(2))
  then show "counters_ok traits (recalculate_counts traits s)" "cells (recalculate_counts traits s) = cells s"
    by simp_all
  have "cs_states (recalculate_counts traits s) = ?pc" and b: "cs_biomes (recalculate_counts traits s) = cs_biomes s"
    by (simp_all add: recalculate_counts_def Let_def split: prod.split)
  then show "section_ok traits (recalculate_counts traits s)" "\<not> is_building (cs_states (recalculate_counts traits s))"
      "cs_biomes (recalculate_counts traits s) = cs_biomes s"
    using c fin assms(2) by (simp_all add: section_ok_def is_building_iff)
qed

lemma count_change_cells:
  assumes "unat n = count_where P vs" "length vs = 4096" "i < length vs"
  shows "unat (count_change (P (vs ! i)) (P v) n) = count_where P (vs[i := v])"
proof -
  note upd = count_where_update [OF assms(3), of P v]
  have le: "count_where P vs \<le> 4096" "count_where P (vs[i := v]) \<le> 4096"
    using count_where_le [of P vs] count_where_le [of P "vs[i := v]"] assms(2) by simp_all
  have n: "n = of_nat (count_where P vs)" by (metis assms(1) of_nat_unat ucast_id)
  have "count_change (P (vs ! i)) (P v) n = of_nat (count_where P (vs[i := v]))"
  proof (cases "P (vs ! i)"; cases "P v")
    assume a: "P (vs ! i)" "\<not> P v"
    then have "count_where P vs = Suc (count_where P (vs[i := v]))" using upd by simp
    then show ?thesis using a n by (simp add: count_change_def)
  next
    assume a: "\<not> P (vs ! i)" "P v"
    then have "count_where P (vs[i := v]) = Suc (count_where P vs)" using upd by simp
    then show ?thesis using a n by (simp add: count_change_def)
  qed (use upd n in \<open>simp_all add: count_change_def\<close>)
  then show ?thesis using le by (simp add: unat_of_nat_u16)
qed

lemma ensure_counter_ready_ok:
  assumes "section_ok traits s"
  shows "section_ok traits (ensure_counter_ready traits s)" "counters_ok traits (ensure_counter_ready traits s)"
    "cells (ensure_counter_ready traits s) = cells s" "\<not> is_building (cs_states (ensure_counter_ready traits s))"
    "cs_biomes (ensure_counter_ready traits s) = cs_biomes s"
  using assms recalculate_ok [of s traits] by (auto simp: ensure_counter_ready_def section_ok_def)

lemma section_set_ok:
  assumes "section_ok traits s" "in_cube BLOCK_DIM x y z"
  obtains s' where "section_set traits x y z v s = Some (cells s ! cube_index BLOCK_DIM x y z, s')"
    "section_ok traits s'" "counters_ok traits s'" "\<not> is_building (cs_states s')"
    "cells s' = (cells s)[cube_index BLOCK_DIM x y z := v]" "cs_biomes s' = cs_biomes s"
proof -
  let ?r = "ensure_counter_ready traits s" and ?i = "cube_index BLOCK_DIM x y z"
  note r = ensure_counter_ready_ok [OF assms(1)]
  have pc: "pc_ok BLOCK_DIM (cs_states ?r)" using r(1) by (simp add: section_ok_def)
  obtain states where set: "pc_set BLOCK_DIM (cs_states ?r) x y z v = Some (cells ?r ! ?i, states)"
      "pc_ok BLOCK_DIM states" "collect_values BLOCK_DIM states = (cells ?r)[?i := v]" "\<not> is_building states"
    using pc_set_cells [OF pc_dims(1) pc assms(2), of v] r(4) unfolding cells_def is_building_iff by metis
  let ?old = "cells ?r ! ?i" and ?s = "?r\<lparr>cs_states := states\<rparr>"
  let ?s' = "if ?old \<noteq> v then apply_count_change (traits ?old) (traits v) ?s else ?s"
  have len: "length (cells ?r) = 4096" using length_collect_values [OF pc] by (simp add: cells_def pc_volume_block)
  have i: "?i < length (cells ?r)" using cube_index_less [OF assms(2)] len by (simp add: pc_volume_block)
  have st: "cs_states ?s' = states" "cs_biomes ?s' = cs_biomes s" using r(5) by (simp_all add: apply_count_change_def)
  then have cells: "cells ?s' = (cells ?r)[?i := v]" by (simp add: cells_def set(3))
  have "counters_ok traits ?s'"
  proof (cases "?old = v")
    case True
    then have "cells ?s' = cells ?r" using cells by (metis list_update_id)
    then show ?thesis using True r(2) by (simp add: counters_ok_def)
  next
    case False
    then show ?thesis using r(2) unfolding counters_ok_def cells
      by (simp add: apply_count_change_def count_change_cells [OF _ len i, where P = "\<lambda>v. \<not> ct_is_air (traits v)", simplified]
          count_change_cells [OF _ len i, where P = "\<lambda>v. ct_has_fluid (traits v)"]
          count_change_cells [OF _ len i, where P = "\<lambda>v. ct_ticking_block (traits v)"]
          count_change_cells [OF _ len i, where P = "\<lambda>v. ct_ticking_fluid (traits v)"])
  qed
  moreover have "section_set traits x y z v s = Some (?old, ?s')"
    using set(1) by (simp add: section_set_def Let_def)
  moreover have "section_ok traits ?s'" if "counters_ok traits ?s'"
    using that st set(2) r(1) by (simp only: section_ok_def r(5)) simp
  ultimately have all: "section_set traits x y z v s = Some (cells s ! ?i, ?s')" "section_ok traits ?s'" "counters_ok traits ?s'"
      "\<not> is_building (cs_states ?s')" "cells ?s' = (cells s)[?i := v]" "cs_biomes ?s' = cs_biomes s"
    using st cells set(4) by (simp_all only: r(3) simp_thms)
  show ?thesis by (rule that [OF all])
qed

lemma section_set_for_generation_ok:
  assumes "section_ok traits s" "in_cube BLOCK_DIM x y z"
  defines "i \<equiv> cube_index BLOCK_DIM x y z"
  shows "section_set_for_generation x y z v s =
      Some (cells s ! i, s\<lparr>cs_states := Building ((cells s)[i := v])\<rparr>)"
    "section_ok traits (s\<lparr>cs_states := Building ((cells s)[i := v])\<rparr>)"
    "cells (s\<lparr>cs_states := Building ((cells s)[i := v])\<rparr>) = (cells s)[i := v]"
proof -
  have pc: "pc_ok BLOCK_DIM (cs_states s)" using assms(1) by (simp add: section_ok_def)
  have "enter_building_mode BLOCK_DIM (cs_states s) = Building (cells s)"
    using enter_building_ok [OF pc] by (simp add: cells_def)
  then show "section_set_for_generation x y z v s = Some (cells s ! i, s\<lparr>cs_states := Building ((cells s)[i := v])\<rparr>)"
    using assms(2) by (simp add: section_set_for_generation_def cube_at_def i_def)
  show "section_ok traits (s\<lparr>cs_states := Building ((cells s)[i := v])\<rparr>)"
    using assms(1) length_collect_values [OF pc] by (simp add: section_ok_def cells_def)
qed (simp add: cells_def)

end
