(* ===== verification/Sections.thy ===== *)
theory Sections
  imports Section
begin

text \<open>
  The sections of a chunk (\<open>Sections\<close> of \<open>foton-core/src/chunk/section.rs\<close>), the index of the sections
  that tick randomly, and the write guard that republishes a section's bit when it is dropped. Locks
  are taken one at a time, so a guarded update is one step; the relaxed atomics are plain words.
\<close>

section \<open>The index of ticking sections\<close>

record tick_bits =
  rt_words :: "u64 list"
  rt_count :: nat

definition tick_bits_new :: "nat \<Rightarrow> tick_bits" where
  "tick_bits_new n = \<lparr>rt_words = replicate (div_ceil n 64) 0, rt_count = n\<rparr>"

definition tick_bits_set :: "nat \<Rightarrow> bool \<Rightarrow> tick_bits \<Rightarrow> tick_bits option" where
  "tick_bits_set i ticking b =
     (let w = i div 64; mask = push_bit (i mod 64) 1 in
      if w < length (rt_words b) then
        Some (b\<lparr>rt_words := (rt_words b)[w := if ticking then rt_words b ! w OR mask
                                           else rt_words b ! w AND NOT mask]\<rparr>)
      else None)"

definition tick_bits_contains :: "tick_bits \<Rightarrow> nat \<Rightarrow> bool" where
  "tick_bits_contains b i \<longleftrightarrow> (rt_words b ! (i div 64)) AND push_bit (i mod 64) 1 \<noteq> 0"

definition trailing_zeros :: "u64 \<Rightarrow> nat" where
  "trailing_zeros w = length (takeWhile (\<lambda>i. \<not> bit w i) [0..<64])"

function tick_bits_scan :: "u64 list \<Rightarrow> nat \<Rightarrow> u64 \<Rightarrow> nat option" where
  "tick_bits_scan ws w bits =
     (if bits \<noteq> 0 then Some (w * 64 + trailing_zeros bits)
      else if Suc w < length ws then tick_bits_scan ws (Suc w) (ws ! Suc w) else None)"
  by auto
termination by (relation "measure (\<lambda>(ws, w, _). length ws - w)") auto

declare tick_bits_scan.simps [simp del]

definition tick_bits_next :: "tick_bits \<Rightarrow> nat \<Rightarrow> nat option" where
  "tick_bits_next b start =
     (if start \<ge> rt_count b then None
      else
        (let w = start div 64;
             bits = rt_words b ! w AND push_bit (start mod 64) (- 1) in
         case tick_bits_scan (rt_words b) w bits of
           None \<Rightarrow> None
         | Some i \<Rightarrow> if i < rt_count b then Some i else None))"

definition tick_bits_is_empty :: "tick_bits \<Rightarrow> bool" where
  "tick_bits_is_empty b \<longleftrightarrow> tick_bits_next b 0 = None"

section \<open>Sections and guards\<close>

record sections =
  ss_sections :: "chunk_section list"
  ss_bits :: tick_bits

text \<open>\<open>with_random_tick_index\<close> for each section in turn.\<close>

fun publish_all :: "nat \<Rightarrow> chunk_section list \<Rightarrow> tick_bits \<Rightarrow> tick_bits option" where
  "publish_all i [] b = Some b"
| "publish_all i (s # ss) b =
     (if section_is_randomly_ticking s then
        (case tick_bits_set i True b of None \<Rightarrow> None | Some b' \<Rightarrow> publish_all (Suc i) ss b')
      else publish_all (Suc i) ss b)"

definition sections_from_owned :: "chunk_section list \<Rightarrow> sections option" where
  "sections_from_owned ss =
     map_option (\<lambda>b. \<lparr>ss_sections = ss, ss_bits = b\<rparr>) (publish_all 0 ss (tick_bits_new (length ss)))"

text \<open>
  An update under the write guard of section \<open>i\<close>: \<open>new\<close> remembers whether the section ticked,
  \<open>drop\<close> sets the bit when that has changed. A missing section is the panic of the index.
\<close>

definition with_guard :: "nat \<Rightarrow> (chunk_section \<Rightarrow> chunk_section option) \<Rightarrow> sections \<Rightarrow> sections option" where
  "with_guard i f ss =
     (if i < length (ss_sections ss) then
        (let s = ss_sections ss ! i in
         case f s of
           None \<Rightarrow> None
         | Some s' \<Rightarrow>
             (let ss' = ss\<lparr>ss_sections := (ss_sections ss)[i := s']\<rparr> in
              if section_is_randomly_ticking s' \<noteq> section_is_randomly_ticking s then
                map_option (\<lambda>b. ss'\<lparr>ss_bits := b\<rparr>)
                  (tick_bits_set i (section_is_randomly_ticking s') (ss_bits ss))
              else Some ss'))
      else None)"

section \<open>Reading\<close>

text \<open>The outer \<open>None\<close> is the panic of an index out of the section.\<close>

definition get_relative_block :: "sections \<Rightarrow> nat \<Rightarrow> nat \<Rightarrow> nat \<Rightarrow> u16 option option" where
  "get_relative_block ss x y z =
     (if y div BLOCK_DIM < length (ss_sections ss) then
        map_option Some (pc_get BLOCK_DIM (cs_states (ss_sections ss ! (y div BLOCK_DIM))) x (y mod BLOCK_DIM) z)
      else Some None)"

definition read_column :: "sections \<Rightarrow> nat \<Rightarrow> nat \<Rightarrow> u16 option list" where
  "read_column ss x z = concat (map (\<lambda>s. column BLOCK_DIM (cs_states s) x z) (ss_sections ss))"

definition section_biomes :: "chunk_section \<Rightarrow> u16 option list" where
  "section_biomes s =
     concat (map (\<lambda>qy. concat (map (\<lambda>qz. map (\<lambda>qx. pc_get BIOME_DIM (cs_biomes s) qx qy qz) [0..<4]) [0..<4])) [0..<4])"

definition read_all_biomes :: "sections \<Rightarrow> u16 option list" where
  "read_all_biomes ss = concat (map section_biomes (ss_sections ss))"

definition section_emptiness_map :: "sections \<Rightarrow> bool list" where
  "section_emptiness_map ss = map section_is_empty (ss_sections ss)"

definition chunk_light_sources :: "(u16 \<Rightarrow> nat) \<Rightarrow> chunk_pos \<Rightarrow> i32w \<Rightarrow> sections \<Rightarrow> (i32w \<times> i32w \<times> i32w) list" where
  "chunk_light_sources light p min_y ss =
     concat (map (\<lambda>(i, s). block_light_sources light (cx p * 16) (min_y + of_nat (i * BLOCK_DIM)) (cz p * 16) s)
       (enumerate 0 (ss_sections ss)))"

section \<open>Writing\<close>

definition set_relative_block :: "block_traits \<Rightarrow> nat \<Rightarrow> nat \<Rightarrow> nat \<Rightarrow> u16 \<Rightarrow> sections \<Rightarrow> sections option" where
  "set_relative_block traits x y z v =
     with_guard (y div BLOCK_DIM) (\<lambda>s. map_option snd (section_set traits x (y mod BLOCK_DIM) z v s))"

definition set_relative_block_for_generation :: "nat \<Rightarrow> nat \<Rightarrow> nat \<Rightarrow> u16 \<Rightarrow> sections \<Rightarrow> sections option" where
  "set_relative_block_for_generation x y z v =
     with_guard (y div BLOCK_DIM) (\<lambda>s. map_option snd (section_set_for_generation x (y mod BLOCK_DIM) z v s))"

type_synonym block_write = "(nat \<times> nat \<times> nat) \<times> u16"

fun write_section :: "block_write \<Rightarrow> nat" where
  "write_section ((x, y, z), v) = y div BLOCK_DIM"

text \<open>The outer loop of the batches: one guard for each run of writes to the same section.\<close>

function by_section :: "(block_write list \<Rightarrow> chunk_section \<Rightarrow> chunk_section option) \<Rightarrow>
    block_write list \<Rightarrow> sections \<Rightarrow> sections option" where
  "by_section f [] ss = Some ss"
| "by_section f (b # bs) ss =
     (let same = (\<lambda>b'. write_section b' = write_section b) in
      case with_guard (write_section b) (f (b # takeWhile same bs)) ss of
        None \<Rightarrow> None
      | Some ss' \<Rightarrow> by_section f (dropWhile same bs) ss')"
  by pat_completeness auto
termination by (relation "measure (\<lambda>(f, bs, ss). length bs)") (auto simp: length_dropWhile_le le_imp_less_Suc)

fun try_fold :: "('a \<Rightarrow> 's \<Rightarrow> 's option) \<Rightarrow> 'a list \<Rightarrow> 's \<Rightarrow> 's option" where
  "try_fold f [] s = Some s"
| "try_fold f (x # xs) s = (case f x s of None \<Rightarrow> None | Some s' \<Rightarrow> try_fold f xs s')"

fun slice_write :: "block_write \<Rightarrow> u16 list \<Rightarrow> u16 list option" where
  "slice_write ((x, y, z), v) cube =
     (let i = (y mod BLOCK_DIM) * BLOCK_DIM * BLOCK_DIM + z * BLOCK_DIM + x in
      if i < length cube then Some (cube[i := v]) else None)"

definition write_run :: "block_write list \<Rightarrow> chunk_section \<Rightarrow> chunk_section option" where
  "write_run ws s =
     (case as_building_slice (enter_building_mode BLOCK_DIM (cs_states s)) of
        None \<Rightarrow> None
      | Some cube \<Rightarrow> map_option (\<lambda>c. s\<lparr>cs_states := Building c\<rparr>) (try_fold slice_write ws cube))"

definition write_block_batch :: "block_write list \<Rightarrow> sections \<Rightarrow> sections option" where
  "write_block_batch = by_section write_run"

definition write_column_blocks :: "nat \<Rightarrow> nat \<Rightarrow> (nat \<times> u16) list \<Rightarrow> sections \<Rightarrow> sections option" where
  "write_column_blocks x z ws = by_section write_run (map (\<lambda>(y, v). ((x, y, z), v)) ws)"

fun tracked_write :: "block_traits \<Rightarrow> block_write \<Rightarrow> chunk_section \<Rightarrow> chunk_section option" where
  "tracked_write traits ((x, y, z), v) s = map_option snd (section_set traits x (y mod BLOCK_DIM) z v s)"

definition write_tracked_block_batch :: "block_traits \<Rightarrow> block_write list \<Rightarrow> sections \<Rightarrow> sections option" where
  "write_tracked_block_batch traits = by_section (try_fold (tracked_write traits))"

section \<open>Invariant and contents\<close>

definition sections_ok :: "block_traits \<Rightarrow> sections \<Rightarrow> bool" where
  "sections_ok traits ss \<longleftrightarrow>
     (\<forall>s \<in> set (ss_sections ss). section_ok traits s) \<and>
     rt_count (ss_bits ss) = length (ss_sections ss) \<and>
     length (rt_words (ss_bits ss)) = div_ceil (length (ss_sections ss)) 64 \<and>
     (\<forall>i < length (ss_sections ss).
        tick_bits_contains (ss_bits ss) i \<longleftrightarrow> section_is_randomly_ticking (ss_sections ss ! i))"

fun section_block :: "chunk_section \<Rightarrow> nat \<times> nat \<times> nat \<Rightarrow> u16" where
  "section_block s (x, y, z) = cells s ! cube_index BLOCK_DIM x (y mod BLOCK_DIM) z"

fun block_at :: "sections \<Rightarrow> nat \<times> nat \<times> nat \<Rightarrow> u16" where
  "block_at ss (x, y, z) = section_block (ss_sections ss ! (y div BLOCK_DIM)) (x, y, z)"

fun in_chunk :: "sections \<Rightarrow> nat \<times> nat \<times> nat \<Rightarrow> bool" where
  "in_chunk ss (x, y, z) \<longleftrightarrow> x < BLOCK_DIM \<and> z < BLOCK_DIM \<and> y div BLOCK_DIM < length (ss_sections ss)"

text \<open>What a batch of writes leaves in a place: its last write there.\<close>

definition last_write :: "('k \<times> 'v) list \<Rightarrow> 'k \<Rightarrow> 'v \<Rightarrow> 'v" where
  "last_write ws k v = fold (\<lambda>(k', v') a. if k' = k then v' else a) ws v"

section \<open>Bits\<close>

lemma bit_one_shift: "bit (push_bit (i mod 64) (1 :: u64)) m \<longleftrightarrow> m = i mod 64"
  using bit_exp_iff [of "i mod 64" m, where 'a = u64] by (auto simp: push_bit_eq_mult)

lemma contains_bit: "tick_bits_contains b i \<longleftrightarrow> bit (rt_words b ! (i div 64)) (i mod 64)"
proof -
  let ?w = "rt_words b ! (i div 64)" and ?n = "i mod 64"
  note one = bit_one_shift [of i]
  show ?thesis
  proof
    assume "bit ?w ?n"
    then have "bit (?w AND push_bit ?n 1) ?n" unfolding bit_and_iff one by simp
    then show "tick_bits_contains b i" unfolding tick_bits_contains_def by (metis bit_0_eq bot_apply bot_bool_def)
  next
    assume "tick_bits_contains b i"
    then obtain m where "bit (?w AND push_bit ?n 1) m"
      unfolding tick_bits_contains_def by (metis bit_eqI bit_0_eq bot_apply bot_bool_def)
    then show "bit ?w ?n" unfolding bit_and_iff one by auto
  qed
qed

lemma word_index_less: "i < n \<Longrightarrow> i div 64 < div_ceil n 64"
proof -
  assume "i < n"
  then have "Suc (i div 64) * 64 \<le> n + 64 - 1" by simp
  then show ?thesis unfolding div_ceil_def by (simp only: less_eq_div_iff_mult_less_eq [of 64 "Suc (i div 64)"] Suc_le_eq [symmetric])
qed

lemma in_word: "w * 64 \<le> j \<Longrightarrow> j < Suc w * 64 \<Longrightarrow> j div 64 = w \<and> j mod 64 = j - w * 64"
proof -
  assume j: "w * 64 \<le> j" "j < Suc w * 64"
  then have "j div 64 = w" by (intro div_nat_eqI) simp_all
  then show ?thesis using minus_div_mult_eq_mod [of j 64] by simp
qed

lemma tick_bits_set_ok:
  assumes "i div 64 < length (rt_words b)"
  obtains b' where "tick_bits_set i t b = Some b'" "rt_count b' = rt_count b"
    "length (rt_words b') = length (rt_words b)"
    "\<And>j. tick_bits_contains b' j \<longleftrightarrow> (if j = i then t else tick_bits_contains b j)"
proof -
  let ?mask = "push_bit (i mod 64) (1 :: u64)"
  let ?w = "if t then rt_words b ! (i div 64) OR ?mask else rt_words b ! (i div 64) AND NOT ?mask"
  let ?b = "b\<lparr>rt_words := (rt_words b)[i div 64 := ?w]\<rparr>"
  note one = bit_one_shift [of i]
  have w: "bit ?w m \<longleftrightarrow> (if m = i mod 64 then t else bit (rt_words b ! (i div 64)) m)" if "m < 64" for m
    using that by (auto simp: bit_or_iff bit_and_iff bit_not_iff one simp del: push_bit_of_1)
  have "tick_bits_contains ?b j \<longleftrightarrow> (if j = i then t else tick_bits_contains b j)" for j
  proof (cases "j div 64 = i div 64")
    case True
    have "j = i \<longleftrightarrow> j mod 64 = i mod 64" using True by (metis div_mod_decomp)
    then show ?thesis using True assms w [of "j mod 64"] by (simp add: contains_bit)
  next
    case False
    then have "j \<noteq> i" by blast
    then show ?thesis using False by (simp add: contains_bit)
  qed
  moreover have "tick_bits_set i t b = Some ?b" using assms by (simp add: tick_bits_set_def Let_def)
  ultimately show ?thesis by (intro that [of ?b]) simp_all
qed

lemma trailing_zeros_bits:
  assumes "w \<noteq> 0"
  shows "trailing_zeros w < 64" "bit w (trailing_zeros w)" "\<forall>i < trailing_zeros w. \<not> bit w i"
proof -
  let ?P = "\<lambda>i. \<not> bit w i"
  obtain i where i: "i < 64" "bit w i"
    using assms bit_word_eqI [of w 0] by auto
  have k: "trailing_zeros w = length (takeWhile ?P [0..<64])" by (simp only: trailing_zeros_def)
  show lt: "trailing_zeros w < 64"
  proof (rule ccontr)
    assume "\<not> trailing_zeros w < 64"
    then have "takeWhile ?P [0..<64] = [0..<64]"
      unfolding k by (metis length_takeWhile_le length_upt minus_nat.diff_0 nat_less_le takeWhile_eq_take take_all not_less)
    then have "\<forall>i \<in> set [0..<64]. ?P i" by (metis takeWhile_eq_all_conv)
    then show False using i by simp
  qed
  have "?P ([0..<64] ! trailing_zeros w) = False"
    using nth_length_takeWhile [of ?P "[0..<64]"] lt unfolding k by simp
  then show "bit w (trailing_zeros w)" using lt by simp
  show "\<forall>i < trailing_zeros w. \<not> bit w i"
  proof (intro allI impI)
    fix i assume "i < trailing_zeros w"
    then have "[0..<64] ! i \<in> set (takeWhile ?P [0..<64])"
      unfolding k by (metis nth_mem takeWhile_nth)
    then have "?P ([0..<64] ! i)" using set_takeWhileD by metis
    then show "\<not> bit w i" using \<open>i < trailing_zeros w\<close> lt by simp
  qed
qed

text \<open>The scan finds the first set bit at or after its word, of a word masked at its low end.\<close>

lemma scan_some:
  assumes "tick_bits_scan ws w bits = Some i" "w < length ws" "\<forall>n. bit bits n \<longleftrightarrow> lo \<le> n \<and> bit (ws ! w) n" "lo < 64"
  shows "w * 64 + lo \<le> i \<and> i div 64 < length ws \<and> bit (ws ! (i div 64)) (i mod 64) \<and>
    (\<forall>j. w * 64 + lo \<le> j \<and> j < i \<longrightarrow> \<not> bit (ws ! (j div 64)) (j mod 64))"
  using assms
proof (induction ws w bits arbitrary: lo rule: tick_bits_scan.induct)
  case (1 ws w bits)
  show ?case
  proof (cases "bits = 0")
    case False
    note tz = trailing_zeros_bits [OF False]
    have i: "i = w * 64 + trailing_zeros bits" using "1.prems"(1) False by (simp add: tick_bits_scan.simps)
    then have d: "i div 64 = w" "i mod 64 = trailing_zeros bits" using tz(1) by simp_all
    have "lo \<le> trailing_zeros bits" "bit (ws ! w) (trailing_zeros bits)" using tz(2) "1.prems"(3) by blast+
    moreover have "\<not> bit (ws ! (j div 64)) (j mod 64)" if j: "w * 64 + lo \<le> j" "j < i" for j
    proof -
      have jd: "j div 64 = w" "j mod 64 = j - w * 64" "j - w * 64 < trailing_zeros bits" "lo \<le> j - w * 64"
        using j tz(1) in_word [of w j] unfolding i by simp_all
      then show ?thesis using tz(3) "1.prems"(3) by metis
    qed
    ultimately show ?thesis using i d "1.prems"(2) by simp
  next
    case True
    then have none: "\<not> (lo \<le> n \<and> bit (ws ! w) n)" for n using "1.prems"(3) by simp
    have nxt: "Suc w < length ws" "tick_bits_scan ws (Suc w) (ws ! Suc w) = Some i"
      using "1.prems"(1) True by (simp_all add: tick_bits_scan.simps [of ws w 0] split: if_splits)
    have IH: "Suc w * 64 + 0 \<le> i \<and> i div 64 < length ws \<and> bit (ws ! (i div 64)) (i mod 64) \<and>
        (\<forall>j. Suc w * 64 + 0 \<le> j \<and> j < i \<longrightarrow> \<not> bit (ws ! (j div 64)) (j mod 64))"
      using True nxt by (intro "1.IH") simp_all
    have "\<not> bit (ws ! (j div 64)) (j mod 64)" if j: "w * 64 + lo \<le> j" "j < i" for j
    proof (cases "j < Suc w * 64")
      case True
      then have "j div 64 = w" "lo \<le> j mod 64" using j(1) in_word [of w j] by (simp_all add: le_diff_conv2 add.commute)
      then show ?thesis using none by metis
    qed (use IH j in simp)
    then show ?thesis using IH "1.prems"(4) by simp
  qed
qed

lemma scan_none:
  assumes "tick_bits_scan ws w bits = None" "\<forall>n. bit bits n \<longleftrightarrow> lo \<le> n \<and> bit (ws ! w) n" "lo < 64"
  shows "\<forall>j. w * 64 + lo \<le> j \<and> j div 64 < length ws \<longrightarrow> \<not> bit (ws ! (j div 64)) (j mod 64)"
  using assms
proof (induction ws w bits arbitrary: lo rule: tick_bits_scan.induct)
  case (1 ws w bits)
  have "bits = 0" using "1.prems"(1) by (simp add: tick_bits_scan.simps [of ws w bits] split: if_splits)
  then have none: "\<not> (lo \<le> n \<and> bit (ws ! w) n)" for n using "1.prems"(2) by simp
  have later: "\<not> bit (ws ! (j div 64)) (j mod 64)" if "Suc w * 64 \<le> j" "j div 64 < length ws" for j
  proof -
    have "Suc w \<le> j div 64" using that(1) by (simp add: less_eq_div_iff_mult_less_eq)
    then have w: "Suc w < length ws" using that(2) by simp
    then have "tick_bits_scan ws (Suc w) (ws ! Suc w) = None"
      using "1.prems"(1) \<open>bits = 0\<close> by (simp add: tick_bits_scan.simps [of ws w 0])
    from "1.IH" [OF _ w this, of 0] \<open>bits = 0\<close> show ?thesis using that by simp
  qed
  show ?case
  proof (intro allI impI)
    fix j assume j: "w * 64 + lo \<le> j \<and> j div 64 < length ws"
    show "\<not> bit (ws ! (j div 64)) (j mod 64)"
    proof (cases "j < Suc w * 64")
      case True
      then have "j div 64 = w" "lo \<le> j mod 64" using conjunct1 [OF j] in_word [of w j] by (simp_all add: le_diff_conv2 add.commute)
      then show ?thesis using none by metis
    qed (use later j in simp)
  qed
qed

text \<open>\<open>next\<close> is the linear search.\<close>

definition tick_bits_ok :: "tick_bits \<Rightarrow> bool" where
  "tick_bits_ok b \<longleftrightarrow> length (rt_words b) = div_ceil (rt_count b) 64"

lemma find_upt_eqI:
  "(\<And>i. r = Some i \<Longrightarrow> a \<le> i \<and> i < n \<and> P i \<and> (\<forall>j. a \<le> j \<and> j < i \<longrightarrow> \<not> P j)) \<Longrightarrow>
   (r = None \<Longrightarrow> \<forall>j. a \<le> j \<and> j < n \<longrightarrow> \<not> P j) \<Longrightarrow> r = List.find P [a..<n]"
proof (cases r)
  case (Some i)
  assume "\<And>i. r = Some i \<Longrightarrow> a \<le> i \<and> i < n \<and> P i \<and> (\<forall>j. a \<le> j \<and> j < i \<longrightarrow> \<not> P j)"
  then have "a \<le> i" "i < n" "P i" "\<forall>j. a \<le> j \<and> j < i \<longrightarrow> \<not> P j" using Some by blast+
  then have "\<exists>k < length [a..<n]. P ([a..<n] ! k) \<and> i = [a..<n] ! k \<and> (\<forall>j < k. \<not> P ([a..<n] ! j))"
    by (intro exI [of _ "i - a"]) simp
  then show ?thesis using Some by (metis find_Some_iff)
next
  case None
  assume "r = None \<Longrightarrow> \<forall>j. a \<le> j \<and> j < n \<longrightarrow> \<not> P j"
  then have "List.find P [a..<n] = None" using None by (simp add: find_None_iff)
  then show ?thesis using None by simp
qed

lemma tick_bits_next_find:
  assumes "tick_bits_ok b"
  shows "tick_bits_next b start = List.find (tick_bits_contains b) [start..<rt_count b]"
proof (cases "rt_count b \<le> start")
  case False
  let ?w = "start div 64" and ?lo = "start mod 64"
  let ?bits = "rt_words b ! ?w AND push_bit ?lo (- 1)"
  have w: "j div 64 < length (rt_words b)" if "j < rt_count b" for j
    using word_index_less [OF that] assms by (simp add: tick_bits_ok_def)
  have bits: "\<forall>n. bit ?bits n \<longleftrightarrow> ?lo \<le> n \<and> bit (rt_words b ! ?w) n"
    by (auto simp: bit_simps dest: bit_imp_le_length)
  have start: "?w * 64 + ?lo = start" by simp
  show ?thesis
  proof (cases "tick_bits_scan (rt_words b) ?w ?bits")
    case None
    note none = scan_none [OF None bits] 
    then have "tick_bits_next b start = None" using False None by (simp add: tick_bits_next_def Let_def)
    then show ?thesis using none w unfolding start by (intro find_upt_eqI) (auto simp: contains_bit)
  next
    case (Some i)
    note some = scan_some [OF Some w bits] 
    then show ?thesis using False Some unfolding start
      by (intro find_upt_eqI) (auto simp: tick_bits_next_def Let_def contains_bit split: if_splits)
  qed
qed (simp add: tick_bits_next_def)

section \<open>Guarded updates keep the index\<close>

lemma with_guard_ok:
  assumes "sections_ok traits ss" "i < length (ss_sections ss)" "f (ss_sections ss ! i) = Some s'" "section_ok traits s'"
  obtains b where "with_guard i f ss = Some \<lparr>ss_sections = (ss_sections ss)[i := s'], ss_bits = b\<rparr>"
    "sections_ok traits \<lparr>ss_sections = (ss_sections ss)[i := s'], ss_bits = b\<rparr>"
proof -
  let ?s = "ss_sections ss ! i" and ?t = section_is_randomly_ticking
  have inv: "\<forall>s \<in> set (ss_sections ss). section_ok traits s" "rt_count (ss_bits ss) = length (ss_sections ss)"
      "length (rt_words (ss_bits ss)) = div_ceil (length (ss_sections ss)) 64"
      "\<And>j. j < length (ss_sections ss) \<Longrightarrow> tick_bits_contains (ss_bits ss) j \<longleftrightarrow> ?t (ss_sections ss ! j)"
    using assms(1) by (auto simp: sections_ok_def)
  have all: "\<forall>s \<in> set ((ss_sections ss)[i := s']). section_ok traits s"
    using inv(1) assms(4) set_update_subset_insert [of "ss_sections ss" i s'] by blast
  show ?thesis
  proof (cases "?t s' = ?t ?s")
    case True
    then have "sections_ok traits \<lparr>ss_sections = (ss_sections ss)[i := s'], ss_bits = ss_bits ss\<rparr>"
      using inv all assms(2) by (simp add: sections_ok_def nth_list_update)
    moreover have "with_guard i f ss = Some \<lparr>ss_sections = (ss_sections ss)[i := s'], ss_bits = ss_bits ss\<rparr>"
      using assms(2,3) True by (simp add: with_guard_def)
    ultimately show ?thesis by (rule that [rotated])
  next
    case False
    have "i div 64 < length (rt_words (ss_bits ss))" using word_index_less [OF assms(2)] inv(3) by simp
    then obtain b where b: "tick_bits_set i (?t s') (ss_bits ss) = Some b" "rt_count b = rt_count (ss_bits ss)"
        "length (rt_words b) = length (rt_words (ss_bits ss))"
        "\<And>j. tick_bits_contains b j \<longleftrightarrow> (if j = i then ?t s' else tick_bits_contains (ss_bits ss) j)"
      by (rule tick_bits_set_ok) blast
    then have "sections_ok traits \<lparr>ss_sections = (ss_sections ss)[i := s'], ss_bits = b\<rparr>"
      using inv all assms(2) by (simp add: sections_ok_def nth_list_update)
    moreover have "with_guard i f ss = Some \<lparr>ss_sections = (ss_sections ss)[i := s'], ss_bits = b\<rparr>"
      using assms(2,3) False b(1) by (simp add: with_guard_def Let_def)
    ultimately show ?thesis by (rule that [rotated])
  qed
qed

lemma publish_all_ok:
  assumes "length (rt_words b) = div_ceil (i + length ss) 64" "\<forall>j. i \<le> j \<and> j < i + length ss \<longrightarrow> \<not> tick_bits_contains b j"
  obtains b' where "publish_all i ss b = Some b'" "rt_count b' = rt_count b" "length (rt_words b') = length (rt_words b)"
    "\<And>j. tick_bits_contains b' j \<longleftrightarrow>
       (if i \<le> j \<and> j < i + length ss then section_is_randomly_ticking (ss ! (j - i)) else tick_bits_contains b j)"
proof -
  have "\<exists>b'. publish_all i ss b = Some b' \<and> rt_count b' = rt_count b \<and> length (rt_words b') = length (rt_words b) \<and>
      (\<forall>j. tick_bits_contains b' j \<longleftrightarrow>
       (if i \<le> j \<and> j < i + length ss then section_is_randomly_ticking (ss ! (j - i)) else tick_bits_contains b j))"
    using assms
  proof (induction ss arbitrary: i b)
    case (Cons s ss)
    let ?t = section_is_randomly_ticking
    have "i div 64 < length (rt_words b)" using word_index_less [of i "i + length (s # ss)"] Cons.prems(1) by simp
    then obtain b1 where b1: "tick_bits_set i True b = Some b1" "rt_count b1 = rt_count b"
        "length (rt_words b1) = length (rt_words b)" "\<And>j. tick_bits_contains b1 j \<longleftrightarrow> (if j = i then True else tick_bits_contains b j)"
      by (rule tick_bits_set_ok) blast
    define b2 where "b2 = (if ?t s then b1 else b)"
    have b2: "rt_count b2 = rt_count b" "length (rt_words b2) = length (rt_words b)"
        "\<And>j. tick_bits_contains b2 j \<longleftrightarrow> (if j = i then ?t s else tick_bits_contains b j)"
      using b1 Cons.prems(2) by (auto simp: b2_def)
    have "publish_all i (s # ss) b = publish_all (Suc i) ss b2" using b1(1) by (simp add: b2_def)
    moreover obtain b' where "publish_all (Suc i) ss b2 = Some b'" "rt_count b' = rt_count b2"
        "length (rt_words b') = length (rt_words b2)"
        "\<And>j. tick_bits_contains b' j \<longleftrightarrow>
          (if Suc i \<le> j \<and> j < Suc i + length ss then ?t (ss ! (j - Suc i)) else tick_bits_contains b2 j)"
      using Cons.IH [of b2 "Suc i"] Cons.prems b2 by auto
    moreover have "(if Suc i \<le> j \<and> j < Suc i + length ss then ?t (ss ! (j - Suc i)) else tick_bits_contains b2 j) \<longleftrightarrow>
        (if i \<le> j \<and> j < i + length (s # ss) then ?t ((s # ss) ! (j - i)) else tick_bits_contains b j)" for j
      using b2(3) by (cases "j = i"; cases "i < j") (auto simp: nth_Cons' Suc_diff_Suc)
    ultimately show ?case using b2(1,2) by auto
  qed auto
  then show ?thesis using that by blast
qed

lemma from_owned_ok:
  assumes "\<forall>s \<in> set ss. section_ok traits s"
  obtains r where "sections_from_owned ss = Some r" "ss_sections r = ss" "sections_ok traits r"
proof -
  let ?b = "tick_bits_new (length ss)"
  have "\<not> tick_bits_contains ?b j" if "j < length ss" for j
    using word_index_less [OF that] by (simp add: tick_bits_new_def contains_bit)
  then have none: "\<forall>j. 0 \<le> j \<and> j < 0 + length ss \<longrightarrow> \<not> tick_bits_contains ?b j" by simp
  obtain b where b: "publish_all 0 ss ?b = Some b" "rt_count b = rt_count ?b" "length (rt_words b) = length (rt_words ?b)"
      "\<And>j. tick_bits_contains b j \<longleftrightarrow>
        (if 0 \<le> j \<and> j < 0 + length ss then section_is_randomly_ticking (ss ! (j - 0)) else tick_bits_contains ?b j)"
    by (rule publish_all_ok [OF _ none]) (simp_all add: tick_bits_new_def)
  have "sections_ok traits \<lparr>ss_sections = ss, ss_bits = b\<rparr>"
    using assms b(2-4) by (simp add: sections_ok_def tick_bits_new_def)
  then show ?thesis using b(1) by (intro that) (simp_all add: sections_from_owned_def)
qed

end
