(* ===== verification/SectionBatch.thy ===== *)
theory SectionBatch
  imports Sections
begin

text \<open>
  Batches of block writes: whichever way a batch is written, each place ends with its last write. The
  interface is a store of cells with one law; the containers, the sections and the chunk's sections
  provide it.
\<close>

section \<open>A store of cells\<close>

locale cell_store =
  fixes ok :: "'s \<Rightarrow> bool"
    and addr :: "'s \<Rightarrow> 'k \<Rightarrow> bool"
    and look :: "'s \<Rightarrow> 'k \<Rightarrow> 'v"
    and put :: "'k \<Rightarrow> 'v \<Rightarrow> 's \<Rightarrow> 's option"
  assumes put_law: "ok s \<Longrightarrow> addr s k \<Longrightarrow>
    \<exists>s'. put k v s = Some s' \<and> ok s' \<and> addr s' = addr s \<and>
      (\<forall>k'. addr s k' \<longrightarrow> look s' k' = (if k' = k then v else look s k'))"
begin

text \<open>A batch of writes succeeds and is seen as its last writes.\<close>

lemma put_all:
  "ok s \<Longrightarrow> \<forall>w \<in> set ws. addr s (fst w) \<Longrightarrow>
     \<exists>s'. try_fold (\<lambda>w. put (fst w) (snd w)) ws s = Some s' \<and> ok s' \<and> addr s' = addr s \<and>
       (\<forall>k. addr s k \<longrightarrow> look s' k = last_write ws k (look s k))"
proof (induction ws arbitrary: s)
  case (Cons w ws)
  obtain s1 where s1: "put (fst w) (snd w) s = Some s1" "ok s1" "addr s1 = addr s"
      "\<forall>k. addr s k \<longrightarrow> look s1 k = (if k = fst w then snd w else look s k)"
    using put_law [OF Cons.prems(1), of "fst w" "snd w"] Cons.prems(2) by auto
  from Cons.IH [OF s1(2)] Cons.prems(2) s1(3) obtain s' where
      "try_fold (\<lambda>w. put (fst w) (snd w)) ws s1 = Some s'" "ok s'" "addr s' = addr s"
      "\<forall>k. addr s k \<longrightarrow> look s' k = last_write ws k (look s1 k)"
    by auto
  moreover have "last_write ws k (look s1 k) = last_write (w # ws) k (look s k)" if "addr s k" for k
    using s1(4) that by (cases w) (simp add: last_write_def eq_commute [of k])
  ultimately show ?case using s1(1) by simp
qed (simp add: last_write_def)

text \<open>Writes to different places commute, as far as reading can tell.\<close>

lemma put_commute:
  assumes "ok s" "addr s k" "addr s l" "k \<noteq> l"
  obtains s1 s2 where "try_fold (\<lambda>w. put (fst w) (snd w)) [(k, v), (l, w)] s = Some s1"
    "try_fold (\<lambda>w. put (fst w) (snd w)) [(l, w), (k, v)] s = Some s2"
    "\<forall>j. addr s j \<longrightarrow> look s1 j = look s2 j"
proof -
  obtain s1 where s1: "try_fold (\<lambda>w. put (fst w) (snd w)) [(k, v), (l, w)] s = Some s1"
      "\<forall>j. addr s j \<longrightarrow> look s1 j = last_write [(k, v), (l, w)] j (look s j)"
    using put_all [OF assms(1), of "[(k, v), (l, w)]"] assms(2,3) by auto
  obtain s2 where s2: "try_fold (\<lambda>w. put (fst w) (snd w)) [(l, w), (k, v)] s = Some s2"
      "\<forall>j. addr s j \<longrightarrow> look s2 j = last_write [(l, w), (k, v)] j (look s j)"
    using put_all [OF assms(1), of "[(l, w), (k, v)]"] assms(2,3) by auto
  show ?thesis using s1 s2 assms(4) by (intro that) (auto simp: last_write_def)
qed

end

lemma last_write_append: "last_write (xs @ ys) k v = last_write ys k (last_write xs k v)"
  by (simp add: last_write_def)

lemma last_write_none: "\<forall>w \<in> set ws. fst w \<noteq> k \<Longrightarrow> last_write ws k v = v"
  by (induction ws arbitrary: v) (auto simp: last_write_def)

lemma last_write_map:
  "inj_on f (insert k (fst ` set ws)) \<Longrightarrow>
     last_write (map (\<lambda>w. (f (fst w), snd w)) ws) (f k) v = last_write ws k v"
proof (induction ws arbitrary: v)
  case (Cons w ws)
  have "inj_on f (insert k (fst ` set ws))" using Cons.prems by (rule inj_on_subset) auto
  note IH = Cons.IH [OF this]
  have "f (fst w) = f k \<longleftrightarrow> fst w = k" using Cons.prems by (auto simp: inj_on_def)
  then show ?case using IH by (cases w) (simp add: last_write_def)
qed (simp add: last_write_def)

section \<open>Providers\<close>

fun in_cube_at :: "nat \<Rightarrow> nat \<times> nat \<times> nat \<Rightarrow> bool" where
  "in_cube_at d (x, y, z) = in_cube d x y z"

fun pc_look :: "nat \<Rightarrow> 'v paletted \<Rightarrow> nat \<times> nat \<times> nat \<Rightarrow> 'v" where
  "pc_look d pc (x, y, z) = the (pc_get d pc x y z)"

fun pc_put :: "nat \<Rightarrow> nat \<times> nat \<times> nat \<Rightarrow> 'v \<Rightarrow> 'v paletted \<Rightarrow> 'v paletted option" where
  "pc_put d (x, y, z) v pc = map_option snd (pc_set d pc x y z v)"

lemma pc_put_law:
  assumes "pc_dim_ok d" "pc_ok d pc" "in_cube_at d k"
  shows "\<exists>pc'. pc_put d k v pc = Some pc' \<and> pc_ok d pc' \<and>
    (\<forall>k'. in_cube_at d k' \<longrightarrow> pc_look d pc' k' = (if k' = k then v else pc_look d pc k'))"
proof -
  obtain x y z where k: "k = (x, y, z)" by (cases k)
  then have xyz: "in_cube d x y z" using assms(3) by simp
  obtain pc' where pc': "pc_set d pc x y z v = Some (collect_values d pc ! cube_index d x y z, pc')" "pc_ok d pc'"
      "collect_values d pc' = (collect_values d pc)[cube_index d x y z := v]"
    by (rule pc_set_cells [OF assms(1,2) xyz])
  have "pc_look d pc' k' = (if k' = k then v else pc_look d pc k')" if "in_cube_at d k'" for k'
    using that xyz k cube_index_eq_iff cube_index_less [OF xyz] length_collect_values [OF assms(2)]
    by (cases k') (auto simp: pc_get_cells pc'(3) nth_list_update cube_index_eq_iff)
  moreover have "pc_put d k v pc = Some pc'" using pc'(1) k by simp
  ultimately show ?thesis using pc'(2) by blast
qed

interpretation block_cells: cell_store "pc_ok BLOCK_DIM" "\<lambda>_. in_cube_at BLOCK_DIM"
  "pc_look BLOCK_DIM :: u16 paletted \<Rightarrow> _" "pc_put BLOCK_DIM"
  by (unfold_locales, simp only: simp_thms, rule pc_put_law [OF pc_dims(1)])

interpretation biome_cells: cell_store "pc_ok BIOME_DIM" "\<lambda>_. in_cube_at BIOME_DIM"
  "pc_look BIOME_DIM :: u16 paletted \<Rightarrow> _" "pc_put BIOME_DIM"
  by (unfold_locales, simp only: simp_thms, rule pc_put_law [OF pc_dims(2)])

text \<open>One section: the tracked write, and the raw write of the generator's fast path.\<close>

definition section_addr :: "nat \<times> nat \<times> nat \<Rightarrow> bool" where
  "section_addr k \<longleftrightarrow> in_cube_at BLOCK_DIM k"

fun section_put :: "block_traits \<Rightarrow> nat \<times> nat \<times> nat \<Rightarrow> u16 \<Rightarrow> chunk_section \<Rightarrow> chunk_section option" where
  "section_put traits (x, y, z) v s = map_option snd (section_set traits x y z v s)"

fun section_put_raw :: "nat \<times> nat \<times> nat \<Rightarrow> u16 \<Rightarrow> chunk_section \<Rightarrow> chunk_section option" where
  "section_put_raw (x, y, z) v s = map_option snd (section_set_for_generation x y z v s)"

lemma section_block_update:
  assumes "section_ok traits s" "cells s' = (cells s)[cube_index BLOCK_DIM x y z := v]" "in_cube BLOCK_DIM x y z"
    "in_cube BLOCK_DIM x' y' z'"
  shows "section_block s' (x', y', z') = (if (x', y', z') = (x, y, z) then v else section_block s (x', y', z'))"
proof -
  have "length (cells s) = pc_volume BLOCK_DIM"
    using assms(1) length_collect_values by (auto simp: section_ok_def cells_def)
  moreover have "y' mod BLOCK_DIM = y'" using assms(4) by (simp add: in_cube_def)
  ultimately show ?thesis
    using cube_index_less [OF assms(3)] cube_index_eq_iff [OF assms(4,3)] assms(2)
    by (auto simp: nth_list_update)
qed

lemma section_put_law:
  assumes "section_ok traits s" "section_addr k"
  shows "\<exists>s'. section_put traits k v s = Some s' \<and> section_ok traits s' \<and>
    (\<forall>k'. section_addr k' \<longrightarrow> section_block s' k' = (if k' = k then v else section_block s k'))"
proof -
  obtain x y z where k: "k = (x, y, z)" by (cases k)
  then have xyz: "in_cube BLOCK_DIM x y z" using assms(2) by (simp add: section_addr_def)
  obtain s' where s': "section_set traits x y z v s = Some (cells s ! cube_index BLOCK_DIM x y z, s')"
      "section_ok traits s'" "cells s' = (cells s)[cube_index BLOCK_DIM x y z := v]"
    by (rule section_set_ok [OF assms(1) xyz])
  have "section_block s' k' = (if k' = k then v else section_block s k')" if "section_addr k'" for k'
    using section_block_update [OF assms(1) s'(3) xyz] that k
    by (cases k') (simp only: section_addr_def in_cube_at.simps)
  moreover have "section_put traits k v s = Some s'" using s'(1) k by simp
  ultimately show ?thesis using s'(2) by blast
qed

lemma section_put_raw_law:
  assumes "section_ok traits s" "section_addr k"
  shows "\<exists>s'. section_put_raw k v s = Some s' \<and> section_ok traits s' \<and>
    (\<forall>k'. section_addr k' \<longrightarrow> section_block s' k' = (if k' = k then v else section_block s k'))"
proof -
  obtain x y z where k: "k = (x, y, z)" by (cases k)
  then have xyz: "in_cube BLOCK_DIM x y z" using assms(2) by (simp add: section_addr_def)
  note s' = section_set_for_generation_ok [OF assms(1) xyz, of v]
  let ?s' = "s\<lparr>cs_states := Building ((cells s)[cube_index BLOCK_DIM x y z := v])\<rparr>"
  have "section_block ?s' k' = (if k' = k then v else section_block s k')" if "section_addr k'" for k'
    using section_block_update [OF assms(1) s'(3) xyz] that k
    by (cases k') (simp only: section_addr_def in_cube_at.simps)
  moreover have "section_put_raw k v s = Some ?s'" using s'(1) k by simp
  ultimately show ?thesis using s'(2) by blast
qed

interpretation tracked_section: cell_store "section_ok traits" "\<lambda>_. section_addr" section_block "section_put traits" for traits
  by (unfold_locales, simp only: simp_thms, rule section_put_law)

interpretation raw_section: cell_store "section_ok traits" "\<lambda>_. section_addr" section_block section_put_raw for traits
  by (unfold_locales, simp only: simp_thms, rule section_put_raw_law)

text \<open>The chunk's sections, a write at a time.\<close>

fun chunk_put :: "block_traits \<Rightarrow> nat \<times> nat \<times> nat \<Rightarrow> u16 \<Rightarrow> sections \<Rightarrow> sections option" where
  "chunk_put traits (x, y, z) v = set_relative_block traits x y z v"

fun chunk_put_raw :: "nat \<times> nat \<times> nat \<Rightarrow> u16 \<Rightarrow> sections \<Rightarrow> sections option" where
  "chunk_put_raw (x, y, z) v = set_relative_block_for_generation x y z v"

definition local :: "nat \<times> nat \<times> nat \<Rightarrow> nat \<times> nat \<times> nat" where
  "local k = (case k of (x, y, z) \<Rightarrow> (x, y mod BLOCK_DIM, z))"

lemma local_facts:
  "in_chunk ss k \<Longrightarrow> section_addr (local k)" "section_block s (local k) = section_block s k"
  "block_at ss (x, y, z) = section_block (ss_sections ss ! (y div BLOCK_DIM)) (local (x, y, z))"
  by (cases k; simp add: local_def section_addr_def in_cube_def BLOCK_DIM_def)+

lemma local_eq_iff:
  "local (x, y, z) = local (x', y', z') \<and> y div BLOCK_DIM = y' div BLOCK_DIM \<longleftrightarrow> (x, y, z) = (x', y', z')"
  by (auto simp: local_def) (metis div_mod_decomp)

text \<open>A guarded update of one section, seen from the chunk.\<close>

lemma guarded_update:
  assumes "sections_ok traits ss" "i < length (ss_sections ss)" "f (ss_sections ss ! i) = Some s'" "section_ok traits s'"
  shows "\<exists>ss'. with_guard i f ss = Some ss' \<and> sections_ok traits ss' \<and> in_chunk ss' = in_chunk ss \<and>
    (\<forall>x y z. in_chunk ss (x, y, z) \<longrightarrow> block_at ss' (x, y, z) =
       (if y div BLOCK_DIM = i then section_block s' (local (x, y, z)) else block_at ss (x, y, z)))"
proof -
  obtain b where b: "with_guard i f ss = Some \<lparr>ss_sections = (ss_sections ss)[i := s'], ss_bits = b\<rparr>"
    "sections_ok traits \<lparr>ss_sections = (ss_sections ss)[i := s'], ss_bits = b\<rparr>"
    by (rule with_guard_ok [where f = f, OF assms])
  let ?ss' = "\<lparr>ss_sections = (ss_sections ss)[i := s'], ss_bits = b\<rparr>"
  have "in_chunk ?ss' = in_chunk ss" by (auto simp: fun_eq_iff)
  moreover have "block_at ?ss' (x, y, z) =
      (if y div BLOCK_DIM = i then section_block s' (local (x, y, z)) else block_at ss (x, y, z))" for x y z
    using assms(2) unfolding local_facts(2) by simp
  ultimately show ?thesis using b by blast
qed

lemma chunk_put_step:
  assumes "sections_ok traits ss" "in_chunk ss (x, y, z)"
    and put: "\<And>s. section_ok traits s \<Longrightarrow> \<exists>s'. f s = Some s' \<and> section_ok traits s' \<and>
      (\<forall>k'. section_addr k' \<longrightarrow> section_block s' k' = (if k' = local (x, y, z) then v else section_block s k'))"
  shows "\<exists>ss'. with_guard (y div BLOCK_DIM) f ss = Some ss' \<and> sections_ok traits ss' \<and> in_chunk ss' = in_chunk ss \<and>
    (\<forall>k'. in_chunk ss k' \<longrightarrow> block_at ss' k' = (if k' = (x, y, z) then v else block_at ss k'))"
proof -
  let ?i = "y div BLOCK_DIM"
  have i: "?i < length (ss_sections ss)" using assms(2) by simp
  then have "section_ok traits (ss_sections ss ! ?i)" using assms(1) by (simp add: sections_ok_def)
  then obtain s' where s': "f (ss_sections ss ! ?i) = Some s'" "section_ok traits s'"
      "\<And>k'. section_addr k' \<Longrightarrow> section_block s' k' =
         (if k' = local (x, y, z) then v else section_block (ss_sections ss ! ?i) k')"
    using put by blast
  obtain ss' where ss': "with_guard ?i f ss = Some ss'" "sections_ok traits ss'" "in_chunk ss' = in_chunk ss"
    "\<And>x y z. in_chunk ss (x, y, z) \<Longrightarrow> block_at ss' (x, y, z) =
       (if y div BLOCK_DIM = ?i then section_block s' (local (x, y, z)) else block_at ss (x, y, z))"
    using guarded_update [where f = f, OF assms(1) i s'(1,2)] by blast
  have "block_at ss' (a, b, c) = (if (a, b, c) = (x, y, z) then v else block_at ss (a, b, c))"
    if a: "in_chunk ss (a, b, c)" for a b c
  proof (cases "b div BLOCK_DIM = ?i")
    case True
    then show ?thesis
      using ss'(4) [OF a] s'(3) [OF local_facts(1) [OF a]] local_eq_iff [of a b c x y z] local_facts(3) [of ss a b c]
      by simp
  next
    case False
    then show ?thesis using ss'(4) [OF a] by auto
  qed
  then show ?thesis using ss'(1-3) by auto
qed

lemma chunk_put_law:
  assumes "sections_ok traits ss" "in_chunk ss k"
  shows "\<exists>ss'. chunk_put traits k v ss = Some ss' \<and> sections_ok traits ss' \<and> in_chunk ss' = in_chunk ss \<and>
    (\<forall>k'. in_chunk ss k' \<longrightarrow> block_at ss' k' = (if k' = k then v else block_at ss k'))"
proof -
  obtain x y z where k: "k = (x, y, z)" by (cases k)
  show ?thesis
    unfolding k chunk_put.simps set_relative_block_def
    using assms section_put_law [where k = "local (x, y, z)" and v = v] local_facts(1) [of ss k]
    by (intro chunk_put_step) (simp_all add: k local_def)
qed

lemma chunk_put_raw_law:
  assumes "sections_ok traits ss" "in_chunk ss k"
  shows "\<exists>ss'. chunk_put_raw k v ss = Some ss' \<and> sections_ok traits ss' \<and> in_chunk ss' = in_chunk ss \<and>
    (\<forall>k'. in_chunk ss k' \<longrightarrow> block_at ss' k' = (if k' = k then v else block_at ss k'))"
proof -
  obtain x y z where k: "k = (x, y, z)" by (cases k)
  show ?thesis
    unfolding k chunk_put_raw.simps set_relative_block_for_generation_def
    using assms section_put_raw_law [where k = "local (x, y, z)" and v = v] local_facts(1) [of ss k]
    by (intro chunk_put_step) (simp_all add: k local_def)
qed

interpretation tracked_chunk: cell_store "sections_ok traits" in_chunk block_at "chunk_put traits" for traits
  by unfold_locales (rule chunk_put_law)

interpretation raw_chunk: cell_store "sections_ok traits" in_chunk block_at chunk_put_raw for traits
  by unfold_locales (rule chunk_put_raw_law)

section \<open>Batches\<close>

text \<open>What the inner loop of a batch promises for one section.\<close>

fun write_in_section :: "block_write \<Rightarrow> bool" where
  "write_in_section ((x, y, z), v) \<longleftrightarrow> x < BLOCK_DIM \<and> z < BLOCK_DIM"

lemma write_section_eq: "write_section w = fst (snd (fst w)) div BLOCK_DIM"
  by (cases w rule: write_section.cases) simp

lemma local_inj:
  "local k = local l \<Longrightarrow> fst (snd k) div BLOCK_DIM = fst (snd l) div BLOCK_DIM \<Longrightarrow> k = l"
  using local_eq_iff by (cases k; cases l) (metis fst_conv snd_conv)

lemma last_write_local:
  assumes "\<forall>w \<in> set ws. write_section w = y div BLOCK_DIM"
  shows "last_write (map (\<lambda>w. (local (fst w), snd w)) ws) (local (x, y, z)) v = last_write ws (x, y, z) v"
proof (rule last_write_map, rule inj_onI)
  have at: "fst (snd k) div BLOCK_DIM = y div BLOCK_DIM" if "k \<in> insert (x, y, z) (fst ` set ws)" for k
    using that assms by (auto simp: write_section_eq)
  fix k l assume "k \<in> insert (x, y, z) (fst ` set ws)" "l \<in> insert (x, y, z) (fst ` set ws)" "local k = local l"
  then show "k = l" using at by (metis local_inj)
qed

lemma last_write_other:
  assumes "\<forall>w \<in> set ws. write_section w = i" "y div BLOCK_DIM \<noteq> i"
  shows "last_write ws (x, y, z) v = v"
  using assms by (intro last_write_none) (auto simp: write_section_eq)

locale run_writer =
  fixes traits :: block_traits
    and run :: "block_write list \<Rightarrow> chunk_section \<Rightarrow> chunk_section option"
  assumes run_law: "section_ok traits s \<Longrightarrow> \<forall>w \<in> set ws. write_in_section w \<Longrightarrow>
    \<exists>s'. run ws s = Some s' \<and> section_ok traits s' \<and>
      (\<forall>k. section_addr k \<longrightarrow>
         section_block s' k = last_write (map (\<lambda>w. (local (fst w), snd w)) ws) k (section_block s k))"
begin

lemma by_section_step:
  assumes "sections_ok traits ss" "\<forall>w \<in> set (b # bs). in_chunk ss (fst w)"
    and IH: "\<And>ws ss. length ws < length (b # bs) \<Longrightarrow> sections_ok traits ss \<Longrightarrow> \<forall>w \<in> set ws. in_chunk ss (fst w) \<Longrightarrow>
      \<exists>ss'. by_section run ws ss = Some ss' \<and> sections_ok traits ss' \<and> in_chunk ss' = in_chunk ss \<and>
        (\<forall>k. in_chunk ss k \<longrightarrow> block_at ss' k = last_write ws k (block_at ss k))"
  shows "\<exists>ss'. by_section run (b # bs) ss = Some ss' \<and> sections_ok traits ss' \<and> in_chunk ss' = in_chunk ss \<and>
    (\<forall>k. in_chunk ss k \<longrightarrow> block_at ss' k = last_write (b # bs) k (block_at ss k))"
proof -
  let ?same = "\<lambda>b'. write_section b' = write_section b" and ?i = "write_section b"
  let ?run = "b # takeWhile ?same bs" and ?rest = "dropWhile ?same bs"
  have split: "b # bs = ?run @ ?rest" by simp
  have sec: "\<forall>w \<in> set ?run. write_section w = ?i" by (auto dest: set_takeWhileD)
  have mem: "\<forall>w \<in> set ?run. in_chunk ss (fst w)" "\<forall>w \<in> set ?rest. in_chunk ss (fst w)"
    using assms(2) by (auto dest: set_takeWhileD set_dropWhileD)
  have i: "?i < length (ss_sections ss)" using assms(2) by (cases b rule: write_section.cases) simp
  have "section_ok traits (ss_sections ss ! ?i)" using assms(1) i by (simp add: sections_ok_def)
  moreover have "\<forall>w \<in> set ?run. write_in_section w"
  proof
    fix w assume "w \<in> set ?run"
    then have "in_chunk ss (fst w)" using mem(1) by blast
    then show "write_in_section w" by (cases w rule: write_section.cases) simp
  qed
  ultimately obtain s' where s': "run ?run (ss_sections ss ! ?i) = Some s'" "section_ok traits s'"
      "\<And>k. section_addr k \<Longrightarrow> section_block s' k =
         last_write (map (\<lambda>w. (local (fst w), snd w)) ?run) k (section_block (ss_sections ss ! ?i) k)"
    using run_law by blast
  obtain ss1 where ss1: "with_guard ?i (run ?run) ss = Some ss1" "sections_ok traits ss1" "in_chunk ss1 = in_chunk ss"
      "\<And>x y z. in_chunk ss (x, y, z) \<Longrightarrow> block_at ss1 (x, y, z) =
         (if y div BLOCK_DIM = ?i then section_block s' (local (x, y, z)) else block_at ss (x, y, z))"
    using guarded_update [where f = "run ?run", OF assms(1) i s'(1,2)] by blast
  have step: "block_at ss1 (x, y, z) = last_write ?run (x, y, z) (block_at ss (x, y, z))"
    if xyz: "in_chunk ss (x, y, z)" for x y z
  proof (cases "y div BLOCK_DIM = ?i")
    case True
    have "block_at ss1 (x, y, z) = section_block s' (local (x, y, z))" using ss1(4) [OF xyz] True by simp
    also have "\<dots> = last_write ?run (x, y, z) (section_block (ss_sections ss ! ?i) (local (x, y, z)))"
      unfolding s'(3) [OF local_facts(1) [OF xyz]] using sec unfolding True [symmetric] by (rule last_write_local)
    finally show ?thesis unfolding local_facts(3) [of ss x y z] True .
  next
    case False
    then show ?thesis using ss1(4) [OF xyz] last_write_other [OF sec False] by (simp only: if_False)
  qed
  have "\<exists>ss'. by_section run ?rest ss1 = Some ss' \<and> sections_ok traits ss' \<and> in_chunk ss' = in_chunk ss1 \<and>
      (\<forall>k. in_chunk ss1 k \<longrightarrow> block_at ss' k = last_write ?rest k (block_at ss1 k))"
    using ss1(2,3) mem(2) by (intro assms(3)) (simp_all add: length_dropWhile_le le_imp_less_Suc)
  then obtain ss' where rest: "by_section run ?rest ss1 = Some ss'" "sections_ok traits ss'" "in_chunk ss' = in_chunk ss"
      "\<And>k. in_chunk ss k \<Longrightarrow> block_at ss' k = last_write ?rest k (block_at ss1 k)"
    using ss1(3) by auto
  note rest(4)
  moreover have "last_write ?rest k (block_at ss1 k) = last_write (b # bs) k (block_at ss k)" if "in_chunk ss k" for k
    using step that unfolding split last_write_append by (cases k) simp
  ultimately have seen: "\<forall>k. in_chunk ss k \<longrightarrow> block_at ss' k = last_write (b # bs) k (block_at ss k)" by simp
  have "by_section run (b # bs) ss = Some ss'" using ss1(1) rest(1) by (simp add: Let_def)
  then show ?thesis using rest(2,3) seen by blast
qed

lemma by_section_law:
  assumes "sections_ok traits ss" "\<forall>w \<in> set ws. in_chunk ss (fst w)"
  shows "\<exists>ss'. by_section run ws ss = Some ss' \<and> sections_ok traits ss' \<and> in_chunk ss' = in_chunk ss \<and>
    (\<forall>k. in_chunk ss k \<longrightarrow> block_at ss' k = last_write ws k (block_at ss k))"
  using assms
proof (induction ws arbitrary: ss rule: length_induct)
  case (1 ws)
  show ?case
  proof (cases ws)
    case Nil
    then show ?thesis using "1.prems" by (simp add: last_write_def)
  next
    case (Cons b bs)
    show ?thesis unfolding Cons
      using "1.prems" "1.IH" Cons by (intro by_section_step) auto
  qed
qed

end

text \<open>The tracked batch writes through the section; the other batches write the raw array.\<close>

lemma try_fold_cong: "(\<And>x s. x \<in> set xs \<Longrightarrow> f x s = g x s) \<Longrightarrow> try_fold f xs s = try_fold g xs s"
  by (induction xs arbitrary: s) (auto split: option.splits)

lemma try_fold_map: "try_fold f (map g xs) s = try_fold (\<lambda>x. f (g x)) xs s"
  by (induction xs arbitrary: s) (auto split: option.splits)

lemma write_in_section_addr: "write_in_section w \<Longrightarrow> section_addr (local (fst w))"
  by (cases w rule: write_in_section.cases) (simp add: section_addr_def local_def in_cube_def BLOCK_DIM_def)

lemma tracked_run_law:
  assumes "section_ok traits s" "\<forall>w \<in> set ws. write_in_section w"
  shows "\<exists>s'. try_fold (tracked_write traits) ws s = Some s' \<and> section_ok traits s' \<and>
      (\<forall>k. section_addr k \<longrightarrow>
         section_block s' k = last_write (map (\<lambda>w. (local (fst w), snd w)) ws) k (section_block s k))"
proof -
  let ?ws = "map (\<lambda>w. (local (fst w), snd w)) ws"
  have "tracked_write traits w s = section_put traits (local (fst w)) (snd w) s" for w s
    by (cases w rule: write_section.cases) (simp add: local_def)
  then have eq: "try_fold (tracked_write traits) ws s = try_fold (\<lambda>w. section_put traits (fst w) (snd w)) ?ws s"
    by (simp add: try_fold_map cong: try_fold_cong)
  have "\<forall>w \<in> set ?ws. section_addr (fst w)" using assms(2) write_in_section_addr by auto
  from tracked_section.put_all [OF assms(1) this] show ?thesis unfolding eq by blast
qed

text \<open>A raw run is the same as setting each block in building mode.\<close>

lemma slice_write_index: "write_in_section w \<Longrightarrow> length cube = pc_volume BLOCK_DIM \<Longrightarrow>
    slice_write w cube = Some (cube[(case local (fst w) of (x, y, z) \<Rightarrow> cube_index BLOCK_DIM x y z) := snd w])"
proof (cases w rule: write_section.cases)
  case (1 x y z v)
  assume w: "write_in_section w" "length cube = pc_volume BLOCK_DIM"
  then have "in_cube BLOCK_DIM x (y mod BLOCK_DIM) z" using 1 by (simp add: in_cube_def BLOCK_DIM_def)
  moreover have "(y mod BLOCK_DIM) * BLOCK_DIM * BLOCK_DIM + z * BLOCK_DIM + x = cube_index BLOCK_DIM x (y mod BLOCK_DIM) z"
    by (simp add: cube_index_def)
  ultimately show ?thesis using 1 w(2) cube_index_less by (simp add: local_def Let_def)
qed

lemma raw_run_building:
  assumes "\<forall>w \<in> set ws. write_in_section w" "length cube = pc_volume BLOCK_DIM"
  shows "map_option (\<lambda>c. s\<lparr>cs_states := Building c\<rparr>) (try_fold slice_write ws cube) =
    try_fold (\<lambda>w. section_put_raw (fst w) (snd w)) (map (\<lambda>w. (local (fst w), snd w)) ws) (s\<lparr>cs_states := Building cube\<rparr>)"
  using assms
proof (induction ws arbitrary: cube)
  case (Cons w ws)
  obtain x y z where k: "local (fst w) = (x, y, z)" by (cases "local (fst w)")
  let ?cube = "cube[cube_index BLOCK_DIM x y z := snd w]"
  have "slice_write w cube = Some ?cube" using Cons.prems k slice_write_index [of w cube] by simp
  moreover have "in_cube BLOCK_DIM x y z"
    using Cons.prems(1) k write_in_section_addr [of w] by (simp add: section_addr_def)
  then have "section_put_raw (x, y, z) (snd w) (s\<lparr>cs_states := Building cube\<rparr>) = Some (s\<lparr>cs_states := Building ?cube\<rparr>)"
    by (simp add: section_set_for_generation_def cube_at_def)
  moreover have "map_option (\<lambda>c. s\<lparr>cs_states := Building c\<rparr>) (try_fold slice_write ws ?cube) =
      try_fold (\<lambda>w. section_put_raw (fst w) (snd w)) (map (\<lambda>w. (local (fst w), snd w)) ws) (s\<lparr>cs_states := Building ?cube\<rparr>)"
    using Cons.prems by (intro Cons.IH) simp_all
  ultimately show ?case using k by auto
qed simp

lemma write_run_law:
  assumes "section_ok traits s" "\<forall>w \<in> set ws. write_in_section w"
  shows "\<exists>s'. write_run ws s = Some s' \<and> section_ok traits s' \<and>
      (\<forall>k. section_addr k \<longrightarrow>
         section_block s' k = last_write (map (\<lambda>w. (local (fst w), snd w)) ws) k (section_block s k))"
proof -
  let ?ws = "map (\<lambda>w. (local (fst w), snd w)) ws" and ?s = "s\<lparr>cs_states := Building (cells s)\<rparr>"
  have pc: "pc_ok BLOCK_DIM (cs_states s)" using assms(1) by (simp add: section_ok_def)
  then have enter: "enter_building_mode BLOCK_DIM (cs_states s) = Building (cells s)" and len: "length (cells s) = pc_volume BLOCK_DIM"
    using enter_building_ok length_collect_values by (auto simp: cells_def)
  have run: "write_run ws s = try_fold (\<lambda>w. section_put_raw (fst w) (snd w)) ?ws ?s"
    using raw_run_building [OF assms(2) len, of s] by (simp add: write_run_def enter)
  have "section_ok traits ?s" using assms(1) len by (simp add: section_ok_def)
  moreover have "\<forall>w \<in> set ?ws. section_addr (fst w)" using assms(2) write_in_section_addr by auto
  ultimately obtain s' where "try_fold (\<lambda>w. section_put_raw (fst w) (snd w)) ?ws ?s = Some s'" "section_ok traits s'"
      "\<forall>k. section_addr k \<longrightarrow> section_block s' k = last_write ?ws k (section_block ?s k)"
    using raw_section.put_all by blast
  moreover have "section_block ?s k = section_block s k" for k by (cases k) (simp add: cells_def)
  ultimately show ?thesis using run by auto
qed

interpretation raw_run: run_writer traits write_run for traits
  by unfold_locales (rule write_run_law)

interpretation tracked_run: run_writer traits "try_fold (tracked_write traits)" for traits
  by unfold_locales (rule tracked_run_law)

section \<open>Reading\<close>

lemma get_relative_block_at:
  assumes "x < BLOCK_DIM" "z < BLOCK_DIM"
  shows "get_relative_block ss x y z = Some (if in_chunk ss (x, y, z) then Some (block_at ss (x, y, z)) else None)"
proof -
  have "in_cube BLOCK_DIM x (y mod BLOCK_DIM) z" using assms by (simp add: in_cube_def BLOCK_DIM_def)
  then show ?thesis using assms by (simp add: get_relative_block_def pc_get_cells cells_def)
qed

lemma concat_map_nth:
  "(\<And>x. x \<in> set xs \<Longrightarrow> length (f x) = n) \<Longrightarrow> i < length xs * n \<Longrightarrow> concat (map f xs) ! i = f (xs ! (i div n)) ! (i mod n)"
proof (induction xs arbitrary: i)
  case (Cons x xs)
  show ?case
  proof (cases "i < n")
    case False
    then have "0 < n" using Cons.prems(2) by (cases n) auto
    then have "i div n = Suc ((i - n) div n)" "i mod n = (i - n) mod n"
      using False by (simp_all add: le_div_geq le_mod_geq)
    then show ?thesis using Cons.IH [of "i - n"] Cons.prems False by (simp add: nth_append)
  qed (use Cons.prems in \<open>simp add: nth_append\<close>)
qed simp

lemma read_column_at:
  assumes "x < BLOCK_DIM" "z < BLOCK_DIM"
  shows "read_column ss x z = map (\<lambda>y. Some (block_at ss (x, y, z))) [0..<length (ss_sections ss) * BLOCK_DIM]"
proof (rule nth_equalityI)
  have len: "length (column BLOCK_DIM pc x z) = BLOCK_DIM" for pc :: block_palette
    unfolding column_cells [OF assms] by simp
  show "length (read_column ss x z) = length (map (\<lambda>y. Some (block_at ss (x, y, z))) [0..<length (ss_sections ss) * BLOCK_DIM])"
    by (simp add: read_column_def length_concat comp_def len sum_list_triv)
  fix y assume "y < length (read_column ss x z)"
  then have y: "y < length (ss_sections ss) * BLOCK_DIM"
    by (simp add: read_column_def length_concat comp_def len sum_list_triv)
  have m: "y mod BLOCK_DIM < BLOCK_DIM" by (simp add: BLOCK_DIM_def)
  then have "in_cube BLOCK_DIM x (y mod BLOCK_DIM) z" using assms by (simp add: in_cube_def)
  then show "read_column ss x z ! y = map (\<lambda>y. Some (block_at ss (x, y, z))) [0..<length (ss_sections ss) * BLOCK_DIM] ! y"
    using y m concat_map_nth [of "ss_sections ss" "\<lambda>s. column BLOCK_DIM (cs_states s) x z" BLOCK_DIM y] len
    by (simp add: read_column_def column_cells [OF assms] pc_get_cells cells_def)
qed

end
