(* ===== verification/PalettedNet.thy ===== *)
theory PalettedNet
  imports PalettedRefine
begin

text \<open>
  The network form of a container against a reader of the protocol's format: the bits per entry,
  the palette unless the entries are global, and the entries in longs that none of them crosses.
\<close>

section \<open>A reader of the format\<close>

definition u64_read :: "u8 list \<Rightarrow> u64" where
  "u64_read bs = of_nat (foldl (\<lambda>n b. n * 256 + unat b) 0 bs)"

fun read_longs :: "nat \<Rightarrow> u8 list \<Rightarrow> (u64 list \<times> u8 list) option" where
  "read_longs 0 bs = Some ([], bs)"
| "read_longs (Suc n) bs =
     (if length bs < 8 then None
      else map_option (\<lambda>(ws, rest). (u64_read (take 8 bs) # ws, rest)) (read_longs n (drop 8 bs)))"

fun read_varints :: "nat \<Rightarrow> u8 list \<Rightarrow> (u32 list \<times> u8 list) option" where
  "read_varints 0 bs = Some ([], bs)"
| "read_varints (Suc n) bs =
     (case varint_read bs of
        Inl e \<Rightarrow> None
      | Inr (v, bs') \<Rightarrow> map_option (\<lambda>(vs, rest). (v # vs, rest)) (read_varints n bs'))"

definition max_palette_bits :: "nat \<Rightarrow> nat" where
  "max_palette_bits d = (if d = 16 then 8 else 3)"

definition read_entries :: "nat \<Rightarrow> nat \<Rightarrow> u8 list \<Rightarrow> (u32 list \<times> u8 list) option" where
  "read_entries d bits bs =
     map_option (\<lambda>(ws, rest). (take (pc_volume d) (unpack_indices ws bits), rest))
       (read_longs (div_ceil (pc_volume d) (64 div bits)) bs)"

definition read_palette :: "u8 list \<Rightarrow> (u32 list \<times> u8 list) option" where
  "read_palette bs = (case varint_read bs of Inl e \<Rightarrow> None | Inr (n, bs') \<Rightarrow> read_varints (unat n) bs')"

fun pc_read :: "nat \<Rightarrow> u8 list \<Rightarrow> (u32 list \<times> u8 list) option" where
  "pc_read d [] = None"
| "pc_read d (b # bs) =
     (if b = 0 then map_option (\<lambda>(vs, rest). (replicate (pc_volume d) (vs ! 0), rest)) (read_varints 1 bs)
      else if unat b \<le> max_palette_bits d then
        (case read_palette bs of
           None \<Rightarrow> None
         | Some (ids, bs') \<Rightarrow>
             map_option (\<lambda>(is, rest). (map (\<lambda>i. ids ! unat i) is, rest)) (read_entries d (unat b) bs'))
      else read_entries d (unat b) bs)"

section \<open>Reading back what is written\<close>

lemma foldl_bytes:
  "foldl (\<lambda>n b. n * 256 + unat b) a (map (\<lambda>i. ucast (drop_bit (8 * i) w) :: u8) (rev [0..<k])) =
     a * 256 ^ k + unat (w :: u64) mod 256 ^ k"
proof (induction k arbitrary: a)
  case (Suc k)
  have "unat (drop_bit (8 * k) w) = unat w div 256 ^ k"
    by (simp only: unat_drop_bit_eq) (simp add: drop_bit_eq_div power_mult)
  then have byte: "unat (ucast (drop_bit (8 * k) w) :: u8) = unat w div 256 ^ k mod 256"
    by (simp add: unsigned_ucast_eq take_bit_eq_mod)
  have "unat w mod 256 ^ Suc k = 256 ^ k * (unat w div 256 ^ k mod 256) + unat w mod 256 ^ k"
    using mod_mult2_eq [of "unat w" "256 ^ k" 256] by (simp add: mult.commute)
  then show ?case using Suc [of "a * 256 + unat w div 256 ^ k mod 256"] byte by (simp add: algebra_simps)
qed simp

lemma length_u64_write [simp]: "length (u64_write w) = 8"
  by (simp add: u64_write_def)

lemma u64_read_write: "u64_read (u64_write w) = w"
proof -
  have "unat w < 256 ^ 8" using unsigned_less [of w] by simp
  then have "unat w mod 256 ^ 8 = unat w" by (rule mod_less)
  then show ?thesis unfolding u64_read_def u64_write_def foldl_bytes by simp
qed

lemma read_longs_write:
  "n = length ws \<Longrightarrow> read_longs n (concat (map u64_write ws) @ rest) = Some (ws, rest)"
  by (induction ws arbitrary: n) (simp_all add: u64_read_write)

lemma read_varints_write:
  "n = length vs \<Longrightarrow> read_varints n (concat (map varint_write vs) @ rest) = Some (vs, rest)"
  by (induction vs arbitrary: n) (simp_all add: varint_round_trip)

lemma unpack_indices_less:
  assumes "0 < bits" "bits \<le> 32" "x \<in> set (unpack_indices ws bits)"
  shows "unat x < 2 ^ bits"
proof -
  have mask: "(push_bit bits 1 - 1 :: u64) = mask bits" by (simp add: mask_eq_exp_minus_1 push_bit_eq_mult)
  obtain w j where "x = ucast (drop_bit (j * bits) (w :: u64) AND mask bits)"
    using assms(3) unfolding unpack_indices_def unpack_word_def mask by auto
  then have "\<forall>i. bits \<le> i \<longrightarrow> \<not> bit x i" by (auto simp: bit_simps)
  then show ?thesis by (rule unat_bits_less)
qed

lemma read_entries_write:
  assumes "0 < bits" "bits \<le> 32" "length xs = pc_volume d"
  shows "\<exists>ys. read_entries d bits (concat (map u64_write (pack_bits xs bits)) @ rest) = Some (ys, rest) \<and>
      (ys = xs \<longleftrightarrow> (\<forall>x \<in> set xs. unat x < 2 ^ bits))"
proof -
  have b: "bits \<le> 64" using assms(2) by simp
  let ?ys = "take (length xs) (unpack_indices (pack_indices xs bits) bits)"
  have "read_entries d bits (concat (map u64_write (pack_bits xs bits)) @ rest) = Some (?ys, rest)"
    using assms(3) length_pack_indices [OF assms(1) b, of xs] pack_bits_eq_pack_indices [OF assms(1) b, of xs]
    by (simp add: read_entries_def read_longs_write)
  moreover have "unat x < 2 ^ bits" if "x \<in> set ?ys" for x
    using that unpack_indices_less [OF assms(1,2)] by (meson in_set_takeD)
  ultimately show ?thesis using unpack_pack_indices [OF _ assms(1,2)] by metis
qed

lemma all_some_map: "(\<And>x. x \<in> set xs \<Longrightarrow> f x = Some (g x)) \<Longrightarrow> all_some (map f xs) = Some (map g xs)"
  by (induction xs) simp_all

lemma strategy_cases:
  assumes "2 \<le> n" "calculate_strategy d n = s"
  obtains bits mode where "s = Some (bits, mode)" "0 < bits" "bits \<le> 32" "bits < 256"
    "mode \<noteq> Global \<longrightarrow> n \<le> 2 ^ bits" "mode \<noteq> Global \<longleftrightarrow> bits \<le> max_palette_bits d"
    "mode = Global \<longrightarrow> bits = (if d = 16 then 15 else 6)"
  using assms by (auto simp: calculate_strategy_def max_palette_bits_def split: if_splits)

text \<open>Global entries are written without a palette; then the ids have to fit the entry.\<close>

definition global_mode :: "nat \<Rightarrow> 'v paletted \<Rightarrow> bool" where
  "global_mode d pc \<longleftrightarrow> (\<exists>h. pc = Heterogeneous h \<and> \<not> length (hp_palette h) \<le> (if d = 16 then 256 else 8))"

definition global_bits :: "nat \<Rightarrow> nat" where
  "global_bits d = (if d = 16 then 15 else 6)"

lemma pc_write_read:
  assumes "pc_dim_ok d" "pc_ok d pc" "\<forall>c. pc \<noteq> Building c"
  shows "\<exists>out ids. pc_write d gid pc = Some out \<and> pc_read d (out @ rest) = Some (ids, rest) \<and>
     (ids = map gid (collect_values d pc) \<longleftrightarrow>
       (global_mode d pc \<longrightarrow> (\<forall>v \<in> set (collect_values d pc). unat (gid v) < 2 ^ global_bits d)))"
proof (cases pc)
  case (Homogeneous v)
  then show ?thesis by (simp add: varint_round_trip global_mode_def map_replicate)
next
  case (Heterogeneous h)
  let ?ps = "hp_palette h" and ?cube = "hp_cube h"
  have ok: "length ?cube = pc_volume d" "palette_ok ?cube ?ps" "2 \<le> length ?ps"
    using assms(2) Heterogeneous by simp_all
  obtain bits mode where s: "calculate_strategy d (length ?ps) = Some (bits, mode)"
      "0 < bits" "bits \<le> 32" "bits < 256" "mode \<noteq> Global \<longrightarrow> length ?ps \<le> 2 ^ bits"
      "mode \<noteq> Global \<longleftrightarrow> bits \<le> max_palette_bits d" "mode = Global \<longrightarrow> bits = (if d = 16 then 15 else 6)"
    by (rule strategy_cases [OF ok(3) refl])
  have b: "unat (of_nat bits :: u8) = bits" "(of_nat bits :: u8) \<noteq> 0"
  proof -
    show "unat (of_nat bits :: u8) = bits" using s(4) by (simp add: unsigned_of_nat take_bit_nat_eq_self)
    then show "(of_nat bits :: u8) \<noteq> 0" using s(2) by (metis less_not_refl unsigned_0)
  qed
  have gm: "global_mode d pc \<longleftrightarrow> mode = Global"
    using s(1) ok(3) Heterogeneous by (auto simp: global_mode_def calculate_strategy_def split: if_splits)
  show ?thesis
  proof (cases "mode = Global")
    case True
    obtain ys where ys: "read_entries d bits (concat (map u64_write (pack_bits (map gid ?cube) bits)) @ rest) = Some (ys, rest)"
        "ys = map gid ?cube \<longleftrightarrow> (\<forall>x \<in> set (map gid ?cube). unat x < 2 ^ bits)"
      using read_entries_write [OF s(2,3), of "map gid ?cube" d rest] ok(1) by auto
    have "all_some (map (\<lambda>v. Some (gid v)) ?cube) = Some (map gid ?cube)" by (rule all_some_map) simp
    then show ?thesis using Heterogeneous True s b gm ys by (simp add: global_bits_def Let_def)
  next
    case False
    define ix where "ix v = the (position (\<lambda>e. fst e = v) ?ps)" for v
    have ix: "position (\<lambda>e. fst e = v) ?ps = Some (ix v)" "ix v < length ?ps" "fst (?ps ! ix v) = v"
      if "v \<in> set ?cube" for v
    proof -
      have "v \<in> fst ` set ?ps" using ok(2) that by (simp add: palette_ok_def)
      then have "position (\<lambda>e. fst e = v) ?ps \<noteq> None" by (auto simp: position_None)
      then show p: "position (\<lambda>e. fst e = v) ?ps = Some (ix v)" by (auto simp: ix_def)
      show "ix v < length ?ps" "fst (?ps ! ix v) = v" using position_Some [OF p] by simp_all
    qed
    let ?is = "map (\<lambda>v. of_nat (ix v) :: u32) ?cube"
    have some: "all_some (map (palette_index ?ps) ?cube) = Some ?is"
      by (rule all_some_map) (simp add: palette_index_def ix)
    have len: "length ?ps \<le> 256"
      using s(1) False by (auto simp: calculate_strategy_def split: if_splits)
    have small: "unat (of_nat n :: u32) = n" if "n \<le> 256" for n
      using that by (simp add: unsigned_of_nat take_bit_nat_eq_self)
    have fits: "\<forall>x \<in> set ?is. unat x < 2 ^ bits"
      using ix(2) len s(5) False by (force simp: small)
    obtain ys where "read_entries d bits (concat (map u64_write (pack_bits ?is bits)) @ rest) = Some (ys, rest)"
        "ys = ?is \<longleftrightarrow> (\<forall>x \<in> set ?is. unat x < 2 ^ bits)"
      using read_entries_write [OF s(2,3), of ?is d rest] ok(1) by auto
    then have entries: "read_entries d bits (concat (map u64_write (pack_bits ?is bits)) @ rest) = Some (?is, rest)"
      using fits by simp
    let ?ids = "map (\<lambda>e. gid (fst e)) ?ps"
    have palette: "read_palette (varint_write (of_nat (length ?ps)) @
        concat (map (\<lambda>e. varint_write (gid (fst e))) ?ps) @ more) = Some (?ids, more)" for more
      using read_varints_write [of "length ?ps" ?ids more]
      by (simp add: read_palette_def varint_round_trip small len comp_def)
    have "unat (of_nat (ix v) :: u32) = ix v" if "v \<in> set ?cube" for v
      using ix(2) [OF that] len by (intro small) simp
    then have "map (\<lambda>i. ?ids ! unat i) ?is = map gid ?cube" using ix by simp
    then show ?thesis using Heterogeneous False s b gm some palette entries by (simp add: Let_def comp_def)
  qed
next
  case (Building c)
  then show ?thesis using assms(3) by blast
qed

end
