(* ===== verification/RegionForm.thy ===== *)
theory RegionForm
  imports SectionBatch PalettedNet "HOL-Library.Sublist"
begin

text \<open>
  Sections in a region file: \<open>ChunkBuilder\<close> (\<open>foton-core/src/chunk_saver/storage/mod.rs\<close>) collects a
  chunk's block states and biomes, the conversions and the check of
  \<open>foton-core/src/chunk_saver/storage/chunk.rs\<close> write a section against those lists and read it back.
  The registry is an argument: its tables are generated when the server is built. Panics are \<open>None\<close>,
  \<open>io::Error\<close> is a value.
\<close>

section \<open>Data\<close>

type_synonym properties = "(string \<times> string) list"

record registry =
  reg_block_of :: "u16 \<Rightarrow> string option"
  reg_properties :: "u16 \<Rightarrow> properties"
  reg_state_of :: "string \<Rightarrow> properties \<Rightarrow> u16 option"
  reg_biome_of :: "nat \<Rightarrow> string option"
  reg_biome_id :: "string \<Rightarrow> nat option"

record persistent_block_state =
  pb_name :: string
  pb_properties :: properties

datatype persistent_biomes =
    BiomesHomogeneous u16
  | BiomesHeterogeneous "u16 list" nat "u64 list"

datatype persistent_section =
    SectionHomogeneous u16 persistent_biomes
  | SectionHeterogeneous "u16 list" nat "u64 list" persistent_biomes

record chunk_builder =
  cb_block_states :: "persistent_block_state list"
  cb_biomes :: "string list"

datatype load_error =
    MissingBlockState u16
  | UnresolvableBlockState
  | NoncanonicalBlockState
  | MissingBiome u16
  | UnknownBiome
  | BiomeIdTooLarge
  | DataTooShort
  | IndexOutsidePalette u32
  | PaletteTooSmall
  | WrongBits
  | WrongWordCount
  | MissingGlobalEntry u16
  | MissingLocalEntry u32

section \<open>Writing\<close>

definition ensure_entry :: "'k \<Rightarrow> 'k list \<Rightarrow> u16 \<times> 'k list" where
  "ensure_entry k ks =
     (case position (\<lambda>k'. k' = k) ks of
        Some i \<Rightarrow> (of_nat i, ks)
      | None \<Rightarrow> (of_nat (length ks), ks @ [k]))"

definition block_key :: "registry \<Rightarrow> u16 \<Rightarrow> persistent_block_state option" where
  "block_key reg v =
     map_option (\<lambda>n. \<lparr>pb_name = n, pb_properties = reg_properties reg v\<rparr>) (reg_block_of reg v)"

definition ensure_block_state :: "registry \<Rightarrow> u16 \<Rightarrow> chunk_builder \<Rightarrow> (u16 \<times> chunk_builder) option" where
  "ensure_block_state reg v b =
     (case block_key reg v of
        None \<Rightarrow> None
      | Some k \<Rightarrow> (let (i, ks) = ensure_entry k (cb_block_states b) in Some (i, b\<lparr>cb_block_states := ks\<rparr>)))"

definition ensure_biome :: "registry \<Rightarrow> u16 \<Rightarrow> chunk_builder \<Rightarrow> (u16 \<times> chunk_builder) option" where
  "ensure_biome reg v b =
     (case reg_biome_of reg (unat v) of
        None \<Rightarrow> None
      | Some k \<Rightarrow> (let (i, ks) = ensure_entry k (cb_biomes b) in Some (i, b\<lparr>cb_biomes := ks\<rparr>)))"

text \<open>\<open>palette.iter().map(..).collect()\<close> with the builder threaded through.\<close>

fun ensure_palette :: "('v \<Rightarrow> 'b \<Rightarrow> (u16 \<times> 'b) option) \<Rightarrow> 'v list \<Rightarrow> 'b \<Rightarrow> (u16 list \<times> 'b) option" where
  "ensure_palette f [] b = Some ([], b)"
| "ensure_palette f (v # vs) b =
     (case f v b of
        None \<Rightarrow> None
      | Some (i, b') \<Rightarrow> map_option (\<lambda>(is, b''). (i # is, b'')) (ensure_palette f vs b'))"

definition palette_indices :: "'v hetero_palette \<Rightarrow> u32 list" where
  "palette_indices h =
     map (\<lambda>v. case position (\<lambda>e. fst e = v) (hp_palette h) of None \<Rightarrow> 0 | Some i \<Rightarrow> of_nat i) (hp_cube h)"

text \<open>The part that \<open>section_to_persistent\<close> and \<open>biomes_to_persistent\<close> share for a palette.\<close>

definition pack_palette :: "('v \<Rightarrow> 'b \<Rightarrow> (u16 \<times> 'b) option) \<Rightarrow> 'v hetero_palette \<Rightarrow> 'b \<Rightarrow>
    ((u16 list \<times> nat \<times> u64 list) \<times> 'b) option" where
  "pack_palette f h b =
     (case ensure_palette f (map fst (hp_palette h)) b of
        None \<Rightarrow> None
      | Some (palette, b') \<Rightarrow>
          (case bits_for_palette_len (length palette) of
             None \<Rightarrow> None
           | Some bits \<Rightarrow> Some ((palette, bits, pack_indices (palette_indices h) bits), b')))"

fun biomes_to_persistent :: "registry \<Rightarrow> biome_palette \<Rightarrow> chunk_builder \<Rightarrow> (persistent_biomes \<times> chunk_builder) option" where
  "biomes_to_persistent reg (Homogeneous v) b =
     map_option (\<lambda>(i, b'). (BiomesHomogeneous i, b')) (ensure_biome reg v b)"
| "biomes_to_persistent reg (Heterogeneous h) b =
     map_option (\<lambda>((palette, bits, data), b'). (BiomesHeterogeneous palette bits data, b'))
       (pack_palette (ensure_biome reg) h b)"
| "biomes_to_persistent reg (Building c) b = None"

definition section_to_persistent :: "registry \<Rightarrow> chunk_section \<Rightarrow> chunk_builder \<Rightarrow> (persistent_section \<times> chunk_builder) option" where
  "section_to_persistent reg s b =
     (case biomes_to_persistent reg (cs_biomes s) b of
        None \<Rightarrow> None
      | Some (biomes, b') \<Rightarrow>
          (case cs_states s of
             Homogeneous v \<Rightarrow>
               map_option (\<lambda>(i, b''). (SectionHomogeneous i biomes, b'')) (ensure_block_state reg v b')
           | Heterogeneous h \<Rightarrow>
               map_option (\<lambda>((palette, bits, data), b''). (SectionHeterogeneous palette bits data biomes, b''))
                 (pack_palette (ensure_block_state reg) h b')
           | Building c \<Rightarrow> None))"

fun sections_to_persistent :: "registry \<Rightarrow> chunk_section list \<Rightarrow> chunk_builder \<Rightarrow> (persistent_section list \<times> chunk_builder) option" where
  "sections_to_persistent reg [] b = Some ([], b)"
| "sections_to_persistent reg (s # ss) b =
     (case section_to_persistent reg s b of
        None \<Rightarrow> None
      | Some (p, b') \<Rightarrow> map_option (\<lambda>(ps, b''). (p # ps, b'')) (sections_to_persistent reg ss b'))"

section \<open>Reading\<close>

definition resolve_block_state :: "registry \<Rightarrow> persistent_block_state list \<Rightarrow> u16 \<Rightarrow> load_error + u16" where
  "resolve_block_state reg states i =
     (if unat i < length states then
        (let st = states ! unat i in
         case reg_state_of reg (pb_name st) (pb_properties st) of
           None \<Rightarrow> Inl UnresolvableBlockState
         | Some sid \<Rightarrow>
             (let canonical = reg_properties reg sid; props = pb_properties st in
              if card (set (map fst props)) \<noteq> length props \<or> length canonical \<noteq> length props \<or>
                 list_ex (\<lambda>p. p \<notin> set props) canonical
              then Inl NoncanonicalBlockState else Inr sid))
      else Inl (MissingBlockState i))"

definition resolve_biome :: "registry \<Rightarrow> string list \<Rightarrow> u16 \<Rightarrow> load_error + u16" where
  "resolve_biome reg biomes i =
     (if unat i < length biomes then
        (case reg_biome_id reg (biomes ! unat i) of
           None \<Rightarrow> Inl UnknownBiome
         | Some sid \<Rightarrow> if sid < 65536 then Inr (of_nat sid) else Inl BiomeIdTooLarge)
      else Inl (MissingBiome i))"

fun collect_results :: "('e + 'a) list \<Rightarrow> 'e + 'a list" where
  "collect_results [] = Inr []"
| "collect_results (r # rs) = bind_result r (\<lambda>x. bind_result (collect_results rs) (\<lambda>xs. Inr (x # xs)))"

text \<open>The loop over the \<open>n\<close> cells that are left.\<close>

fun read_cells :: "nat \<Rightarrow> u32 list \<Rightarrow> u16 list \<Rightarrow> load_error + u16 list" where
  "read_cells 0 is palette = Inr []"
| "read_cells (Suc n) [] palette = Inl DataTooShort"
| "read_cells (Suc n) (i # is) palette =
     (if unat i < length palette then
        bind_result (read_cells n is palette) (\<lambda>vs. Inr (palette ! unat i # vs))
      else Inl (IndexOutsidePalette i))"

definition unpack_palette :: "nat \<Rightarrow> (u16 \<Rightarrow> load_error + u16) \<Rightarrow> u16 list \<Rightarrow> nat \<Rightarrow> u64 list \<Rightarrow> load_error + u16 paletted" where
  "unpack_palette d resolve palette bits data =
     bind_result (collect_results (map resolve palette)) (\<lambda>rt.
       bind_result (read_cells (pc_volume d) (unpack_indices data bits) rt) (\<lambda>cube. Inr (from_cube cube)))"

fun persistent_to_biomes :: "registry \<Rightarrow> chunk_builder \<Rightarrow> persistent_biomes \<Rightarrow> load_error + biome_palette" where
  "persistent_to_biomes reg b (BiomesHomogeneous i) =
     bind_result (resolve_biome reg (cb_biomes b) i) (\<lambda>v. Inr (Homogeneous v))"
| "persistent_to_biomes reg b (BiomesHeterogeneous palette bits data) =
     unpack_palette BIOME_DIM (resolve_biome reg (cb_biomes b)) palette bits data"

fun persistent_to_section :: "registry \<Rightarrow> chunk_builder \<Rightarrow> persistent_section \<Rightarrow> load_error + chunk_section" where
  "persistent_to_section reg b (SectionHomogeneous i biomes) =
     bind_result (resolve_block_state reg (cb_block_states b) i) (\<lambda>v.
       bind_result (persistent_to_biomes reg b biomes) (\<lambda>bi. Inr (section_new_with_biomes (Homogeneous v) bi)))"
| "persistent_to_section reg b (SectionHeterogeneous palette bits data biomes) =
     bind_result (unpack_palette BLOCK_DIM (resolve_block_state reg (cb_block_states b)) palette bits data) (\<lambda>st.
       bind_result (persistent_to_biomes reg b biomes) (\<lambda>bi. Inr (section_new_with_biomes st bi)))"

section \<open>The check before reading\<close>

definition validate_packed_palette :: "u16 list \<Rightarrow> nat \<Rightarrow> u64 list \<Rightarrow> nat \<Rightarrow> nat \<Rightarrow> load_error + unit" where
  "validate_packed_palette palette bits data entry_count global_len =
     (case bits_for_palette_len (length palette) of
        None \<Rightarrow> Inl PaletteTooSmall
      | Some expected \<Rightarrow>
          if bits \<noteq> expected then Inl WrongBits
          else if length data \<noteq> div_ceil entry_count (64 div bits) then Inl WrongWordCount
          else case List.find (\<lambda>i. global_len \<le> unat i) palette of
                 Some i \<Rightarrow> Inl (MissingGlobalEntry i)
               | None \<Rightarrow>
                   (case List.find (\<lambda>i. length palette \<le> unat i) (take entry_count (unpack_indices data bits)) of
                      Some i \<Rightarrow> Inl (MissingLocalEntry i)
                    | None \<Rightarrow> Inr ()))"

fun validate_biomes :: "nat \<Rightarrow> persistent_biomes \<Rightarrow> load_error + unit" where
  "validate_biomes n (BiomesHomogeneous i) = (if n \<le> unat i then Inl (MissingBiome i) else Inr ())"
| "validate_biomes n (BiomesHeterogeneous palette bits data) = validate_packed_palette palette bits data 64 n"

text \<open>The sections' part of \<open>validate_persistent_chunk\<close>.\<close>

fun validate_section :: "chunk_builder \<Rightarrow> persistent_section \<Rightarrow> load_error + unit" where
  "validate_section b (SectionHomogeneous i biomes) =
     (if length (cb_block_states b) \<le> unat i then Inl (MissingBlockState i)
      else validate_biomes (length (cb_biomes b)) biomes)"
| "validate_section b (SectionHeterogeneous palette bits data biomes) =
     bind_result (validate_packed_palette palette bits data 4096 (length (cb_block_states b)))
       (\<lambda>_. validate_biomes (length (cb_biomes b)) biomes)"

section \<open>Round trip\<close>

text \<open>What the conversions rely on of the registry: its tables are inverse to each other.\<close>

definition registry_ok :: "registry \<Rightarrow> bool" where
  "registry_ok reg \<longleftrightarrow>
     (\<forall>v n. reg_block_of reg v = Some n \<longrightarrow>
        reg_state_of reg n (reg_properties reg v) = Some v \<and> distinct (map fst (reg_properties reg v))) \<and>
     (\<forall>v n. reg_biome_of reg (unat (v :: u16)) = Some n \<longrightarrow> reg_biome_id reg n = Some (unat v))"

text \<open>The entries a builder holds are distinct and belong to ids, so their number fits the index.\<close>

definition entries_ok :: "(u16 \<Rightarrow> 'k option) \<Rightarrow> 'k list \<Rightarrow> bool" where
  "entries_ok key ks \<longleftrightarrow> distinct ks \<and> (\<forall>k \<in> set ks. \<exists>v. key v = Some k)"

lemma entries_fit: "entries_ok key ks \<Longrightarrow> length ks \<le> 65536"
proof -
  assume ok: "entries_ok key ks"
  have "set ks \<subseteq> (\<lambda>v. the (key v)) ` UNIV" 
  proof
    fix k assume "k \<in> set ks"
    then obtain v where "key v = Some k" using ok by (auto simp: entries_ok_def)
    then show "k \<in> range (\<lambda>v. the (key v))" by (metis option.sel rangeI)
  qed
  then have "card (set ks) \<le> card (UNIV :: u16 set)"
    by (meson card_image_le card_mono finite finite_imageI order_trans)
  moreover have "card (UNIV :: u16 set) = 65536" by (simp add: card_word)
  ultimately show ?thesis using ok by (simp add: entries_ok_def distinct_card)
qed

lemma ensure_entry_ok:
  assumes "entries_ok key ks" "key v = Some k"
  obtains i ks' where "ensure_entry k ks = (i, ks')" "prefix ks ks'" "entries_ok key ks'"
    "unat i < length ks'" "ks' ! unat i = k"
proof (cases "position (\<lambda>k'. k' = k) ks")
  case None
  then have new: "k \<notin> set ks" by (auto simp: position_None)
  then have ok: "entries_ok key (ks @ [k])" using assms by (auto simp: entries_ok_def)
  then have "length ks < 65536" using entries_fit [OF ok] by simp
  then show ?thesis using ok None by (intro that [of "of_nat (length ks)" "ks @ [k]"]) (simp_all add: ensure_entry_def unat_of_nat_u16)
next
  case (Some i)
  then have i: "i < length ks" "ks ! i = k" using position_Some [OF Some] by simp_all
  then have "unat (of_nat i :: u16) = i" using entries_fit [OF assms(1)] by (intro unat_of_nat_u16) simp
  then show ?thesis using i assms(1) Some by (intro that [of "of_nat i" ks]) (simp_all add: ensure_entry_def)
qed

text \<open>
  The interface between the palettes and the builder: an index it hands out resolves to the value, in
  every later state of the builder.
\<close>

locale palette_builder =
  fixes inv :: "'b \<Rightarrow> bool"
    and later :: "'b \<Rightarrow> 'b \<Rightarrow> bool"
    and total :: "'b \<Rightarrow> nat"
    and known :: "u16 \<Rightarrow> bool"
    and ensure :: "u16 \<Rightarrow> 'b \<Rightarrow> (u16 \<times> 'b) option"
    and resolve :: "'b \<Rightarrow> u16 \<Rightarrow> load_error + u16"
  assumes ensure_law: "inv b \<Longrightarrow> known v \<Longrightarrow> \<exists>i b'. ensure v b = Some (i, b') \<and> inv b' \<and> later b b' \<and>
      (\<forall>b''. later b' b'' \<longrightarrow> resolve b'' i = Inr v \<and> unat i < total b'')"
    and later_refl: "later b b"
    and later_trans: "later b b' \<Longrightarrow> later b' b'' \<Longrightarrow> later b b''"
begin

lemma ensure_palette_law:
  "inv b \<Longrightarrow> \<forall>v \<in> set vs. known v \<Longrightarrow>
     \<exists>is b'. ensure_palette ensure vs b = Some (is, b') \<and> length is = length vs \<and> inv b' \<and> later b b' \<and>
       (\<forall>b''. later b' b'' \<longrightarrow> collect_results (map (resolve b'') is) = Inr vs \<and> (\<forall>i \<in> set is. unat i < total b''))"
proof (induction vs arbitrary: b)
  case Nil
  then show ?case using later_refl by simp
next
  case (Cons v vs)
  obtain i b1 where i: "ensure v b = Some (i, b1)" "inv b1" "later b b1"
      "\<And>b''. later b1 b'' \<Longrightarrow> resolve b'' i = Inr v \<and> unat i < total b''"
    using ensure_law [OF Cons.prems(1), of v] Cons.prems(2) by auto
  obtain "is" b2 where ix: "ensure_palette ensure vs b1 = Some (is, b2)" "length is = length vs" "inv b2" "later b1 b2"
      "\<And>b''. later b2 b'' \<Longrightarrow> collect_results (map (resolve b'') is) = Inr vs \<and> (\<forall>i \<in> set is. unat i < total b'')"
    using Cons.IH [OF i(2)] Cons.prems(2) by auto
  have "resolve b'' i = Inr v \<and> unat i < total b''" if "later b2 b''" for b''
    using i(4) later_trans [OF ix(4) that] by blast
  then show ?case using i(1,3) ix later_trans by auto
qed

end

lemma bits_for_palette_len_bounds:
  "2 \<le> n \<Longrightarrow> n \<le> 65536 \<Longrightarrow> \<exists>b. bits_for_palette_len n = Some b \<and> 0 < b \<and> b \<le> 32 \<and> n \<le> 2 ^ b"
  by (auto simp: bits_for_palette_len_def)

lemma read_cells_take:
  "take n is = map f vs \<Longrightarrow> length vs = n \<Longrightarrow> \<forall>v \<in> set vs. unat (f v) < length rt \<and> rt ! unat (f v) = v \<Longrightarrow>
     read_cells n is rt = Inr vs"
proof (induction n "is" rt arbitrary: vs rule: read_cells.induct)
  case (3 n i "is" rt)
  then obtain v vs' where "vs = v # vs'" by (cases vs) auto
  then show ?case using 3 by (auto simp: bind_result_Inr_iff)
qed auto

lemma palette_indices_ok:
  assumes "palette_ok (hp_cube h) (hp_palette h)" "length (hp_palette h) \<le> 65536"
  obtains f where "palette_indices h = map f (hp_cube h)"
    "\<forall>v \<in> set (hp_cube h). unat (f v) < length (hp_palette h) \<and> map fst (hp_palette h) ! unat (f v) = v"
proof -
  let ?f = "\<lambda>v. case position (\<lambda>e. fst e = v) (hp_palette h) of None \<Rightarrow> 0 | Some i \<Rightarrow> (of_nat i :: u32)"
  have "unat (?f v) < length (hp_palette h) \<and> map fst (hp_palette h) ! unat (?f v) = v" if "v \<in> set (hp_cube h)" for v
  proof -
    have "v \<in> fst ` set (hp_palette h)" using assms(1) that by (simp add: palette_ok_def)
    then have "position (\<lambda>e. fst e = v) (hp_palette h) \<noteq> None" by (auto simp: position_None)
    then obtain i where pos: "position (\<lambda>e. fst e = v) (hp_palette h) = Some i" by blast
    then have i: "i < length (hp_palette h)" "fst (hp_palette h ! i) = v" using position_Some [OF pos] by simp_all
    then have "unat (of_nat i :: u32) = i" using assms(2) by (simp add: unsigned_of_nat take_bit_nat_eq_self)
    then show ?thesis using pos i by simp
  qed
  then have "\<forall>v \<in> set (hp_cube h). unat (?f v) < length (hp_palette h) \<and> map fst (hp_palette h) ! unat (?f v) = v"
    by blast
  then show ?thesis by (rule that [OF palette_indices_def])
qed

context palette_builder
begin

lemma pack_palette_law:
  assumes "pc_dim_ok d" "pc_ok d (Heterogeneous h)" "inv b" "\<forall>v \<in> set (hp_cube h). known v"
  shows "\<exists>palette bits data b'. pack_palette ensure h b = Some ((palette, bits, data), b') \<and> inv b' \<and> later b b' \<and>
    (\<forall>b''. later b' b'' \<longrightarrow>
      validate_packed_palette palette bits data (pc_volume d) (total b'') = Inr () \<and>
      unpack_palette d (resolve b'') palette bits data = Inr (from_cube (hp_cube h)))"
proof -
  let ?cube = "hp_cube h" and ?ps = "hp_palette h"
  have ok: "length ?cube = pc_volume d" "palette_ok ?cube ?ps" "2 \<le> length ?ps" using assms(2) by simp_all
  have "length ?ps = card (set ?cube)" using ok(2) by (metis distinct_card length_map palette_ok_def set_map)
  also have "\<dots> \<le> length ?cube" by (rule card_length)
  finally have small: "length ?ps \<le> 65536" using ok(1) assms(1) by (simp add: pc_dim_ok_def)
  obtain bits where bits: "bits_for_palette_len (length ?ps) = Some bits" "0 < bits" "bits \<le> 32" "length ?ps \<le> 2 ^ bits"
    using bits_for_palette_len_bounds [OF ok(3) small] by blast
  have "set (map fst ?ps) = set ?cube" using ok(2) by (simp add: palette_ok_def)
  then have known: "\<forall>v \<in> set (map fst ?ps). known v" using assms(4) by simp
  obtain palette b' where p: "ensure_palette ensure (map fst ?ps) b = Some (palette, b')" "length palette = length ?ps"
      "inv b'" "later b b'"
      "\<And>b''. later b' b'' \<Longrightarrow> collect_results (map (resolve b'') palette) = Inr (map fst ?ps) \<and> (\<forall>i \<in> set palette. unat i < total b'')"
    using ensure_palette_law [OF assms(3) known] by auto
  obtain f where f: "palette_indices h = map f ?cube"
      "\<forall>v \<in> set ?cube. unat (f v) < length ?ps \<and> map fst ?ps ! unat (f v) = v"
    by (rule palette_indices_ok [OF ok(2) small])
  let ?data = "pack_indices (palette_indices h) bits"
  have "\<forall>x \<in> set (palette_indices h). unat x < 2 ^ bits" using f bits(4) by force
  from unpack_pack_indices [OF this bits(2,3)]
  have u: "take (pc_volume d) (unpack_indices ?data bits) = map f ?cube" using f(1) ok(1) by simp
  have len: "length ?data = div_ceil (pc_volume d) (64 div bits)"
    using length_pack_indices [OF bits(2), of "palette_indices h"] bits(3) f(1) ok(1) by simp
  have valid: "validate_packed_palette palette bits ?data (pc_volume d) (total b'') = Inr ()"
    and unpack: "unpack_palette d (resolve b'') palette bits ?data = Inr (from_cube ?cube)" if b'': "later b' b''" for b''
  proof -
    note r = p(5) [OF b'']
    have "List.find (\<lambda>i. total b'' \<le> unat i) palette = None"
      unfolding find_None_iff using r by (auto simp: not_le)
    moreover have "List.find (\<lambda>i. length palette \<le> unat i) (take (pc_volume d) (unpack_indices ?data bits)) = None"
      unfolding find_None_iff u p(2) using f(2) by (auto simp: not_le)
    ultimately show "validate_packed_palette palette bits ?data (pc_volume d) (total b'') = Inr ()"
      using bits(1) len p(2) by (simp add: validate_packed_palette_def)
    have "read_cells (pc_volume d) (unpack_indices ?data bits) (map fst ?ps) = Inr ?cube"
      using f(2) by (intro read_cells_take [OF u ok(1)]) (simp only: length_map)
    then show "unpack_palette d (resolve b'') palette bits ?data = Inr (from_cube ?cube)"
      using r by (simp add: unpack_palette_def)
  qed
  have "pack_palette ensure h b = Some ((palette, bits, ?data), b')"
    using p(1,2) bits(1) by (simp add: pack_palette_def)
  then show ?thesis using p(3,4) valid unpack by blast
qed

end

section \<open>The two palettes of a chunk\<close>

definition later_builder :: "chunk_builder \<Rightarrow> chunk_builder \<Rightarrow> bool" where
  "later_builder b b' \<longleftrightarrow>
     prefix (cb_block_states b) (cb_block_states b') \<and> prefix (cb_biomes b) (cb_biomes b')"

definition builder_ok :: "registry \<Rightarrow> chunk_builder \<Rightarrow> bool" where
  "builder_ok reg b \<longleftrightarrow>
     entries_ok (block_key reg) (cb_block_states b) \<and> entries_ok (\<lambda>v. reg_biome_of reg (unat v)) (cb_biomes b)"

lemma prefix_nth_less: "prefix xs ys \<Longrightarrow> i < length xs \<Longrightarrow> i < length ys \<and> ys ! i = xs ! i"
  by (auto simp: prefix_def nth_append)

lemma ensure_block_state_law:
  assumes "registry_ok reg" "builder_ok reg b" "block_key reg v \<noteq> None"
  shows "\<exists>i b'. ensure_block_state reg v b = Some (i, b') \<and> builder_ok reg b' \<and> later_builder b b' \<and>
    (\<forall>b''. later_builder b' b'' \<longrightarrow>
      resolve_block_state reg (cb_block_states b'') i = Inr v \<and> unat i < length (cb_block_states b''))"
proof -
  obtain k where k: "block_key reg v = Some k" using assms(3) by blast
  have ok: "entries_ok (block_key reg) (cb_block_states b)" "entries_ok (\<lambda>v. reg_biome_of reg (unat v)) (cb_biomes b)"
    using assms(2) unfolding builder_ok_def by blast+
  obtain i ks where e: "ensure_entry k (cb_block_states b) = (i, ks)" "prefix (cb_block_states b) ks"
      "entries_ok (block_key reg) ks" "unat i < length ks" "ks ! unat i = k"
    by (rule ensure_entry_ok [where key = "block_key reg", OF ok(1) k])
  obtain n where n: "reg_block_of reg v = Some n" "k = \<lparr>pb_name = n, pb_properties = reg_properties reg v\<rparr>"
    using k by (auto simp: block_key_def)
  have reg: "reg_state_of reg n (reg_properties reg v) = Some v" "distinct (map fst (reg_properties reg v))"
    using assms(1) n(1) by (auto simp: registry_ok_def)
  have "card (set (map fst (reg_properties reg v))) = length (reg_properties reg v)"
    using distinct_card [OF reg(2)] by simp
  then have "resolve_block_state reg (cb_block_states b'') i = Inr v \<and> unat i < length (cb_block_states b'')"
    if "prefix ks (cb_block_states b'')" for b''
    using prefix_nth_less [OF that e(4)] e(5) n(2) reg(1) by (simp add: resolve_block_state_def Let_def list_ex_iff)
  moreover have "ensure_block_state reg v b = Some (i, b\<lparr>cb_block_states := ks\<rparr>)"
    using k e(1) by (simp add: ensure_block_state_def)
  ultimately show ?thesis
    using e(2,3) assms(2) by (auto simp: builder_ok_def later_builder_def)
qed

lemma ensure_biome_law:
  assumes "registry_ok reg" "builder_ok reg b" "reg_biome_of reg (unat v) \<noteq> None"
  shows "\<exists>i b'. ensure_biome reg v b = Some (i, b') \<and> builder_ok reg b' \<and> later_builder b b' \<and>
    (\<forall>b''. later_builder b' b'' \<longrightarrow>
      resolve_biome reg (cb_biomes b'') i = Inr v \<and> unat i < length (cb_biomes b''))"
proof -
  obtain k where k: "reg_biome_of reg (unat v) = Some k" using assms(3) by blast
  have ok: "entries_ok (block_key reg) (cb_block_states b)" "entries_ok (\<lambda>v. reg_biome_of reg (unat v)) (cb_biomes b)"
    using assms(2) unfolding builder_ok_def by blast+
  obtain i ks where e: "ensure_entry k (cb_biomes b) = (i, ks)" "prefix (cb_biomes b) ks"
      "entries_ok (\<lambda>v. reg_biome_of reg (unat v)) ks" "unat i < length ks" "ks ! unat i = k"
    by (rule ensure_entry_ok [where key = "\<lambda>v. reg_biome_of reg (unat v)" and v = v, OF ok(2) k])
  have "reg_biome_id reg k = Some (unat v)" using assms(1) k by (simp add: registry_ok_def)
  moreover have "unat v < 65536" using unsigned_less [of v] by simp
  ultimately have "resolve_biome reg (cb_biomes b'') i = Inr v \<and> unat i < length (cb_biomes b'')"
    if "prefix ks (cb_biomes b'')" for b''
    using prefix_nth_less [OF that e(4)] e(5) by (simp add: resolve_biome_def)
  moreover have "ensure_biome reg v b = Some (i, b\<lparr>cb_biomes := ks\<rparr>)"
    using k e(1) by (simp add: ensure_biome_def)
  ultimately show ?thesis
    using e(2,3) assms(2) by (auto simp: builder_ok_def later_builder_def)
qed

lemma later_builder_order:
  "later_builder b b" "later_builder b b' \<Longrightarrow> later_builder b' b'' \<Longrightarrow> later_builder b b''"
  by (auto simp: later_builder_def intro: prefix_order.trans)

text \<open>Both lists provide the interface; the registry's law is part of the builder's invariant.\<close>

definition builder_inv :: "registry \<Rightarrow> chunk_builder \<Rightarrow> bool" where
  "builder_inv reg b \<longleftrightarrow> registry_ok reg \<and> builder_ok reg b"

interpretation block_entries: palette_builder "builder_inv reg" later_builder "\<lambda>b. length (cb_block_states b)"
  "\<lambda>v. block_key reg v \<noteq> None" "ensure_block_state reg" "\<lambda>b. resolve_block_state reg (cb_block_states b)" for reg
proof unfold_locales
  fix b v assume "builder_inv reg b" "block_key reg v \<noteq> None"
  then show "\<exists>i b'. ensure_block_state reg v b = Some (i, b') \<and> builder_inv reg b' \<and> later_builder b b' \<and>
      (\<forall>b''. later_builder b' b'' \<longrightarrow>
        resolve_block_state reg (cb_block_states b'') i = Inr v \<and> unat i < length (cb_block_states b''))"
    using ensure_block_state_law [of reg b v] by (auto simp: builder_inv_def)
qed (rule later_builder_order, erule (1) later_builder_order)

interpretation biome_entries: palette_builder "builder_inv reg" later_builder "\<lambda>b. length (cb_biomes b)"
  "\<lambda>v. reg_biome_of reg (unat v) \<noteq> None" "ensure_biome reg" "\<lambda>b. resolve_biome reg (cb_biomes b)" for reg
proof unfold_locales
  fix b v assume "builder_inv reg b" "reg_biome_of reg (unat (v :: u16)) \<noteq> None"
  then show "\<exists>i b'. ensure_biome reg v b = Some (i, b') \<and> builder_inv reg b' \<and> later_builder b b' \<and>
      (\<forall>b''. later_builder b' b'' \<longrightarrow> resolve_biome reg (cb_biomes b'') i = Inr v \<and> unat i < length (cb_biomes b''))"
    using ensure_biome_law [of reg b v] by (auto simp: builder_inv_def)
qed (rule later_builder_order, erule (1) later_builder_order)

section \<open>Sections and chunks\<close>

definition section_known :: "registry \<Rightarrow> chunk_section \<Rightarrow> bool" where
  "section_known reg s \<longleftrightarrow>
     (\<forall>v \<in> set (cells s). block_key reg v \<noteq> None) \<and>
     (\<forall>v \<in> set (collect_values BIOME_DIM (cs_biomes s)). reg_biome_of reg (unat v) \<noteq> None)"

definition saveable :: "registry \<Rightarrow> chunk_section \<Rightarrow> bool" where
  "saveable reg s \<longleftrightarrow>
     pc_ok BLOCK_DIM (cs_states s) \<and> pc_ok BIOME_DIM (cs_biomes s) \<and>
     \<not> is_building (cs_states s) \<and> \<not> is_building (cs_biomes s) \<and> section_known reg s"

text \<open>What is loaded for a section: the cells, as a well-formed container in its smallest form.\<close>

definition same_contents :: "chunk_section \<Rightarrow> chunk_section \<Rightarrow> bool" where
  "same_contents s s' \<longleftrightarrow>
     cells s' = cells s \<and> collect_values BIOME_DIM (cs_biomes s') = collect_values BIOME_DIM (cs_biomes s) \<and>
     pc_ok BLOCK_DIM (cs_states s') \<and> pc_ok BIOME_DIM (cs_biomes s')"

lemma volumes: "pc_volume BLOCK_DIM = 4096" "pc_volume BIOME_DIM = 64"
  by (simp_all add: pc_volume_def BLOCK_DIM_def BIOME_DIM_def)

lemma biomes_round_trip:
  assumes "builder_inv reg b" "pc_ok BIOME_DIM bi" "\<not> is_building bi"
    "\<forall>v \<in> set (collect_values BIOME_DIM bi). reg_biome_of reg (unat v) \<noteq> None"
  shows "\<exists>p b'. biomes_to_persistent reg bi b = Some (p, b') \<and> builder_inv reg b' \<and> later_builder b b' \<and>
    (\<forall>b''. later_builder b' b'' \<longrightarrow> validate_biomes (length (cb_biomes b'')) p = Inr () \<and>
      (\<exists>bi'. persistent_to_biomes reg b'' p = Inr bi' \<and> pc_ok BIOME_DIM bi' \<and>
        collect_values BIOME_DIM bi' = collect_values BIOME_DIM bi))"
proof (cases bi)
  case (Homogeneous v)
  have "v \<in> set (collect_values BIOME_DIM bi)" using Homogeneous by (simp add: volumes)
  then have "reg_biome_of reg (unat v) \<noteq> None" using assms(4) by blast
  from biome_entries.ensure_law [OF assms(1) this]
  obtain i b' where b': "ensure_biome reg v b = Some (i, b')" "builder_inv reg b'" "later_builder b b'"
      "\<And>b''. later_builder b' b'' \<Longrightarrow> resolve_biome reg (cb_biomes b'') i = Inr v \<and> unat i < length (cb_biomes b'')"
    by blast
  have "validate_biomes (length (cb_biomes b'')) (BiomesHomogeneous i) = Inr () \<and>
      persistent_to_biomes reg b'' (BiomesHomogeneous i) = Inr bi" if "later_builder b' b''" for b''
    using b'(4) [OF that] Homogeneous by simp
  moreover have "biomes_to_persistent reg bi b = Some (BiomesHomogeneous i, b')" using b'(1) Homogeneous by simp
  ultimately show ?thesis using b'(2,3) assms(2) by blast
next
  case (Heterogeneous h)
  have "length (hp_cube h) = pc_volume BIOME_DIM" using assms(2) Heterogeneous by simp
  from from_cube_ok [OF pc_dims(2) this]
  have fc: "pc_ok BIOME_DIM (from_cube (hp_cube h))" "collect_values BIOME_DIM (from_cube (hp_cube h)) = hp_cube h" by simp_all
  have "pc_ok BIOME_DIM (Heterogeneous h)" "\<forall>v \<in> set (hp_cube h). reg_biome_of reg (unat v) \<noteq> None"
    using assms(2,4) Heterogeneous by simp_all
  from biome_entries.pack_palette_law [OF pc_dims(2) this(1) assms(1) this(2)]
  obtain palette bits data b' where "pack_palette (ensure_biome reg) h b = Some ((palette, bits, data), b')"
    "builder_inv reg b'" "later_builder b b'"
    "\<And>b''. later_builder b' b'' \<Longrightarrow> validate_packed_palette palette bits data (pc_volume BIOME_DIM) (length (cb_biomes b'')) = Inr () \<and>
       unpack_palette BIOME_DIM (resolve_biome reg (cb_biomes b'')) palette bits data = Inr (from_cube (hp_cube h))"
    by blast
  then show ?thesis using Heterogeneous fc by (auto simp: volumes)
qed (use assms(3) in simp)

lemma section_round_trip:
  assumes "builder_inv reg b" "saveable reg s"
  shows "\<exists>p b'. section_to_persistent reg s b = Some (p, b') \<and> builder_inv reg b' \<and> later_builder b b' \<and>
    (\<forall>b''. later_builder b' b'' \<longrightarrow> validate_section b'' p = Inr () \<and>
      (\<exists>s'. persistent_to_section reg b'' p = Inr s' \<and> same_contents s s'))"
proof -
  have sv: "pc_ok BLOCK_DIM (cs_states s)" "pc_ok BIOME_DIM (cs_biomes s)" "\<not> is_building (cs_states s)" "\<not> is_building (cs_biomes s)"
      "\<forall>v \<in> set (cells s). block_key reg v \<noteq> None"
      "\<forall>v \<in> set (collect_values BIOME_DIM (cs_biomes s)). reg_biome_of reg (unat v) \<noteq> None"
    using assms(2) by (auto simp: saveable_def section_known_def)
  obtain pb b1 where b1: "biomes_to_persistent reg (cs_biomes s) b = Some (pb, b1)" "builder_inv reg b1" "later_builder b b1"
      "\<And>b''. later_builder b1 b'' \<Longrightarrow> validate_biomes (length (cb_biomes b'')) pb = Inr () \<and>
        (\<exists>bi'. persistent_to_biomes reg b'' pb = Inr bi' \<and> pc_ok BIOME_DIM bi' \<and>
          collect_values BIOME_DIM bi' = collect_values BIOME_DIM (cs_biomes s))"
    using biomes_round_trip [OF assms(1) sv(2,4,6)] by blast
  show ?thesis
  proof (cases "cs_states s")
    case (Homogeneous v)
    have "v \<in> set (cells s)" using Homogeneous by (simp add: cells_def volumes)
    then have "block_key reg v \<noteq> None" using sv(5) by blast
    from block_entries.ensure_law [OF b1(2) this]
    obtain i b2 where b2: "ensure_block_state reg v b1 = Some (i, b2)" "builder_inv reg b2" "later_builder b1 b2"
        "\<And>b''. later_builder b2 b'' \<Longrightarrow> resolve_block_state reg (cb_block_states b'') i = Inr v \<and> unat i < length (cb_block_states b'')"
      by blast
    have "validate_section b'' (SectionHomogeneous i pb) = Inr () \<and>
        (\<exists>s'. persistent_to_section reg b'' (SectionHomogeneous i pb) = Inr s' \<and> same_contents s s')" if "later_builder b2 b''" for b''
      using b2(4) [OF that] b1(4) [OF later_builder_order(2) [OF b2(3) that]] Homogeneous
      by (auto simp: same_contents_def section_new_with_biomes_def cells_def)
    moreover have "section_to_persistent reg s b = Some (SectionHomogeneous i pb, b2)"
      using b1(1) b2(1) Homogeneous by (simp add: section_to_persistent_def)
    ultimately show ?thesis using b2(2) later_builder_order(2) [OF b1(3) b2(3)] by blast
  next
    case (Heterogeneous h)
    have "length (hp_cube h) = pc_volume BLOCK_DIM" using sv(1) Heterogeneous by simp
    from from_cube_ok [OF pc_dims(1) this]
    have fc: "pc_ok BLOCK_DIM (from_cube (hp_cube h))" "collect_values BLOCK_DIM (from_cube (hp_cube h)) = hp_cube h" by simp_all
    have "pc_ok BLOCK_DIM (Heterogeneous h)" "\<forall>v \<in> set (hp_cube h). block_key reg v \<noteq> None"
      using sv(1,5) Heterogeneous by (simp_all add: cells_def)
    from block_entries.pack_palette_law [OF pc_dims(1) this(1) b1(2) this(2)]
    obtain palette bits data b2 where b2: "pack_palette (ensure_block_state reg) h b1 = Some ((palette, bits, data), b2)"
      "builder_inv reg b2" "later_builder b1 b2"
      "\<And>b''. later_builder b2 b'' \<Longrightarrow> validate_packed_palette palette bits data (pc_volume BLOCK_DIM) (length (cb_block_states b'')) = Inr () \<and>
         unpack_palette BLOCK_DIM (resolve_block_state reg (cb_block_states b'')) palette bits data = Inr (from_cube (hp_cube h))"
      by blast
    let ?p = "SectionHeterogeneous palette bits data pb"
    have "validate_section b'' ?p = Inr () \<and> (\<exists>s'. persistent_to_section reg b'' ?p = Inr s' \<and> same_contents s s')"
      if "later_builder b2 b''" for b''
      using b2(4) [OF that] b1(4) [OF later_builder_order(2) [OF b2(3) that]] Heterogeneous fc
      by (auto simp: same_contents_def section_new_with_biomes_def cells_def volumes)
    moreover have "section_to_persistent reg s b = Some (?p, b2)"
      using b1(1) b2(1) Heterogeneous by (simp add: section_to_persistent_def)
    ultimately show ?thesis using b2(2) later_builder_order(2) [OF b1(3) b2(3)] by blast
  qed (use sv(3) in simp)
qed

lemma sections_round_trip:
  "builder_inv reg b \<Longrightarrow> \<forall>s \<in> set ss. saveable reg s \<Longrightarrow>
    \<exists>ps b'. sections_to_persistent reg ss b = Some (ps, b') \<and> later_builder b b' \<and> length ps = length ss \<and>
      (\<forall>b''. later_builder b' b'' \<longrightarrow> (\<forall>i < length ss. validate_section b'' (ps ! i) = Inr () \<and>
        (\<exists>s'. persistent_to_section reg b'' (ps ! i) = Inr s' \<and> same_contents (ss ! i) s')))"
proof (induction ss arbitrary: b)
  case Nil
  then show ?case by (simp add: later_builder_order)
next
  case (Cons s ss)
  obtain p b1 where p: "section_to_persistent reg s b = Some (p, b1)" "builder_inv reg b1" "later_builder b b1"
      "\<And>b''. later_builder b1 b'' \<Longrightarrow> validate_section b'' p = Inr () \<and>
        (\<exists>s'. persistent_to_section reg b'' p = Inr s' \<and> same_contents s s')"
    using section_round_trip [OF Cons.prems(1), of s] Cons.prems(2) by auto
  obtain ps b2 where ps: "sections_to_persistent reg ss b1 = Some (ps, b2)" "later_builder b1 b2" "length ps = length ss"
      "\<And>b''. later_builder b2 b'' \<Longrightarrow> \<forall>i < length ss. validate_section b'' (ps ! i) = Inr () \<and>
        (\<exists>s'. persistent_to_section reg b'' (ps ! i) = Inr s' \<and> same_contents (ss ! i) s')"
    using Cons.IH [OF p(2)] Cons.prems(2) by auto
  have "validate_section b'' ((p # ps) ! i) = Inr () \<and>
      (\<exists>s'. persistent_to_section reg b'' ((p # ps) ! i) = Inr s' \<and> same_contents ((s # ss) ! i) s')"
    if "later_builder b2 b''" "i < length (s # ss)" for b'' i
    using p(4) [OF later_builder_order(2) [OF ps(2) that(1)]] ps(4) [OF that(1)] that(2) by (cases i) simp_all
  then show ?case using p(1) ps(1,3) later_builder_order(2) [OF p(3) ps(2)] by auto
qed

end
