(* ===== verification/SectionProps.thy ===== *)
theory SectionProps
  imports RegionForm
begin

text \<open>
  Histories of a chunk's sections, and the properties of containers, sections and their two stored
  forms.
\<close>

section \<open>Histories\<close>

datatype chunk_op =
    SetBlock nat nat nat u16
  | SetForGeneration nat nat nat u16
  | WriteBatch "block_write list"
  | WriteTracked "block_write list"
  | WriteColumn nat nat "(nat \<times> u16) list"
  | Recount nat

fun run_op :: "block_traits \<Rightarrow> chunk_op \<Rightarrow> sections \<Rightarrow> sections option" where
  "run_op traits (SetBlock x y z v) = set_relative_block traits x y z v"
| "run_op traits (SetForGeneration x y z v) = set_relative_block_for_generation x y z v"
| "run_op traits (WriteBatch ws) = write_block_batch ws"
| "run_op traits (WriteTracked ws) = write_tracked_block_batch traits ws"
| "run_op traits (WriteColumn x z ws) = write_column_blocks x z ws"
| "run_op traits (Recount i) = with_guard i (\<lambda>s. Some (recalculate_counts traits s))"

fun op_writes :: "chunk_op \<Rightarrow> block_write list" where
  "op_writes (SetBlock x y z v) = [((x, y, z), v)]"
| "op_writes (SetForGeneration x y z v) = [((x, y, z), v)]"
| "op_writes (WriteBatch ws) = ws"
| "op_writes (WriteTracked ws) = ws"
| "op_writes (WriteColumn x z ws) = map (\<lambda>(y, v). ((x, y, z), v)) ws"
| "op_writes (Recount i) = []"

definition op_in_chunk :: "sections \<Rightarrow> chunk_op \<Rightarrow> bool" where
  "op_in_chunk ss op \<longleftrightarrow>
     (\<forall>w \<in> set (op_writes op). in_chunk ss (fst w)) \<and>
     (case op of Recount i \<Rightarrow> i < length (ss_sections ss) | _ \<Rightarrow> True)"

inductive reachable_sections :: "block_traits \<Rightarrow> sections \<Rightarrow> bool" for traits where
  owned: "\<forall>s \<in> set l. section_ok traits s \<Longrightarrow> sections_from_owned l = Some ss \<Longrightarrow> reachable_sections traits ss"
| step: "reachable_sections traits ss \<Longrightarrow> op_in_chunk ss op \<Longrightarrow> run_op traits op ss = Some ss' \<Longrightarrow> reachable_sections traits ss'"

lemma run_op_law:
  assumes "sections_ok traits ss" "op_in_chunk ss op"
  shows "\<exists>ss'. run_op traits op ss = Some ss' \<and> sections_ok traits ss' \<and> in_chunk ss' = in_chunk ss \<and>
      length (ss_sections ss') = length (ss_sections ss) \<and>
      (\<forall>k. in_chunk ss k \<longrightarrow> block_at ss' k = last_write (op_writes op) k (block_at ss k))"
proof -
  have *: ?thesis
    if "\<exists>ss'. run_op traits op ss = Some ss' \<and> sections_ok traits ss' \<and> in_chunk ss' = in_chunk ss \<and>
      (\<forall>k. in_chunk ss k \<longrightarrow> block_at ss' k = last_write (op_writes op) k (block_at ss k))"
  proof -
    from that obtain ss' where ss': "run_op traits op ss = Some ss'" "sections_ok traits ss'" "in_chunk ss' = in_chunk ss"
        "\<forall>k. in_chunk ss k \<longrightarrow> block_at ss' k = last_write (op_writes op) k (block_at ss k)"
      by blast
    have "i < length (ss_sections ss') \<longleftrightarrow> i < length (ss_sections ss)" for i
      using fun_cong [OF ss'(3), of "(0, i * BLOCK_DIM, 0)"] by (simp add: BLOCK_DIM_def)
    then have "length (ss_sections ss') = length (ss_sections ss)" by (metis less_irrefl linorder_neqE_nat)
    then show ?thesis using ss' by blast
  qed
  have mem: "\<forall>w \<in> set (op_writes op). in_chunk ss (fst w)" using assms(2) by (simp add: op_in_chunk_def)
  show ?thesis
  proof (rule *, cases op)
    case (SetBlock x y z v)
    then show "\<exists>ss'. run_op traits op ss = Some ss' \<and> sections_ok traits ss' \<and> in_chunk ss' = in_chunk ss \<and>
      (\<forall>k. in_chunk ss k \<longrightarrow> block_at ss' k = last_write (op_writes op) k (block_at ss k))"
      using tracked_chunk.put_all [OF assms(1) mem] by (simp split: option.splits)
  next
    case (SetForGeneration x y z v)
    then show "\<exists>ss'. run_op traits op ss = Some ss' \<and> sections_ok traits ss' \<and> in_chunk ss' = in_chunk ss \<and>
      (\<forall>k. in_chunk ss k \<longrightarrow> block_at ss' k = last_write (op_writes op) k (block_at ss k))"
      using raw_chunk.put_all [OF assms(1) mem] by (simp split: option.splits)
  next
    case (WriteBatch ws)
    then show "\<exists>ss'. run_op traits op ss = Some ss' \<and> sections_ok traits ss' \<and> in_chunk ss' = in_chunk ss \<and>
      (\<forall>k. in_chunk ss k \<longrightarrow> block_at ss' k = last_write (op_writes op) k (block_at ss k))"
      using raw_run.by_section_law [OF assms(1) mem] by (simp add: write_block_batch_def)
  next
    case (WriteTracked ws)
    then show "\<exists>ss'. run_op traits op ss = Some ss' \<and> sections_ok traits ss' \<and> in_chunk ss' = in_chunk ss \<and>
      (\<forall>k. in_chunk ss k \<longrightarrow> block_at ss' k = last_write (op_writes op) k (block_at ss k))"
      using tracked_run.by_section_law [OF assms(1) mem] by (simp add: write_tracked_block_batch_def)
  next
    case (WriteColumn x z ws)
    then show "\<exists>ss'. run_op traits op ss = Some ss' \<and> sections_ok traits ss' \<and> in_chunk ss' = in_chunk ss \<and>
      (\<forall>k. in_chunk ss k \<longrightarrow> block_at ss' k = last_write (op_writes op) k (block_at ss k))"
      using raw_run.by_section_law [OF assms(1) mem] by (simp add: write_column_blocks_def)
  next
    case (Recount i)
    then have i: "i < length (ss_sections ss)" using assms(2) by (simp add: op_in_chunk_def)
    then have "section_ok traits (ss_sections ss ! i)" using assms(1) by (simp add: sections_ok_def)
    then have pc: "pc_ok BLOCK_DIM (cs_states (ss_sections ss ! i))" "pc_ok BIOME_DIM (cs_biomes (ss_sections ss ! i))"
      by (simp_all add: section_ok_def)
    note r = recalculate_ok [OF pc, of traits]
    have "section_block (recalculate_counts traits (ss_sections ss ! i)) k = section_block (ss_sections ss ! i) k" for k
      using r(3) by (cases k) simp
    note same = this
    obtain ss' where ss': "with_guard i (\<lambda>s. Some (recalculate_counts traits s)) ss = Some ss'" "sections_ok traits ss'"
        "in_chunk ss' = in_chunk ss"
        "\<And>x y z. in_chunk ss (x, y, z) \<Longrightarrow> block_at ss' (x, y, z) =
          (if y div BLOCK_DIM = i then section_block (recalculate_counts traits (ss_sections ss ! i)) (local (x, y, z))
           else block_at ss (x, y, z))"
      using guarded_update [where f = "\<lambda>s. Some (recalculate_counts traits s)", OF assms(1) i refl r(1)] by blast
    have "block_at ss' (x, y, z) = block_at ss (x, y, z)" if "in_chunk ss (x, y, z)" for x y z
      using ss'(4) [OF that] unfolding same local_facts(3) by (cases "y div BLOCK_DIM = i") simp_all
    then show "\<exists>ss'. run_op traits op ss = Some ss' \<and> sections_ok traits ss' \<and> in_chunk ss' = in_chunk ss \<and>
      (\<forall>k. in_chunk ss k \<longrightarrow> block_at ss' k = last_write (op_writes op) k (block_at ss k))"
      using ss'(1-3) Recount by (simp add: last_write_def)
  qed
qed

lemma reachable_ok: "reachable_sections traits ss \<Longrightarrow> sections_ok traits ss"
proof (induction rule: reachable_sections.induct)
  case (owned l ss)
  from from_owned_ok [OF owned(1)] owned(2) show ?case by auto
next
  case (step ss op ss')
  from run_op_law [OF step(4,2)] step(3) show ?case by auto
qed

lemma op_in_chunk_cong: "in_chunk ss' = in_chunk ss \<Longrightarrow> length (ss_sections ss') = length (ss_sections ss) \<Longrightarrow>
    op_in_chunk ss' = op_in_chunk ss"
  by (rule ext) (simp add: op_in_chunk_def split: chunk_op.split)

lemma run_ops_law:
  "sections_ok traits ss \<Longrightarrow> \<forall>op \<in> set ops. op_in_chunk ss op \<Longrightarrow>
    \<exists>ss'. try_fold (run_op traits) ops ss = Some ss' \<and> sections_ok traits ss' \<and> in_chunk ss' = in_chunk ss \<and>
      (\<forall>k. in_chunk ss k \<longrightarrow> block_at ss' k = last_write (concat (map op_writes ops)) k (block_at ss k))"
proof (induction ops arbitrary: ss)
  case (Cons op ops)
  obtain s1 where s1: "run_op traits op ss = Some s1" "sections_ok traits s1" "in_chunk s1 = in_chunk ss"
      "length (ss_sections s1) = length (ss_sections ss)"
      "\<And>k. in_chunk ss k \<Longrightarrow> block_at s1 k = last_write (op_writes op) k (block_at ss k)"
    using run_op_law [OF Cons.prems(1), of op] Cons.prems(2) by auto
  obtain ss' where ss': "try_fold (run_op traits) ops s1 = Some ss'" "sections_ok traits ss'" "in_chunk ss' = in_chunk s1"
      "\<And>k. in_chunk s1 k \<Longrightarrow> block_at ss' k = last_write (concat (map op_writes ops)) k (block_at s1 k)"
    using Cons.IH [OF s1(2)] Cons.prems(2) op_in_chunk_cong [OF s1(3,4)] by auto
  have "block_at ss' k = last_write (concat (map op_writes (op # ops))) k (block_at ss k)" if "in_chunk ss k" for k
    using ss'(4) [of k] s1(5) [OF that] s1(3) that by (simp add: last_write_append)
  then show ?case using ss'(1-3) s1(1,3) by auto
qed (simp add: last_write_def)

lemma ticking_cells:
  assumes "counters_ok traits s"
  shows "section_is_randomly_ticking s \<longleftrightarrow>
    (\<exists>v \<in> set (cells s). ct_ticking_block (traits v) \<or> ct_ticking_fluid (traits v))"
proof -
  have "0 < n \<longleftrightarrow> unat n \<noteq> 0" for n :: u16 by (metis unat_gt_0 word_gt_0 neq0_conv)
  moreover have "count_where P vs \<noteq> 0 \<longleftrightarrow> (\<exists>v \<in> set vs. P v)" for P :: "u16 \<Rightarrow> bool" and vs
    by (auto simp: count_where_def filter_empty_conv)
  ultimately show ?thesis using assms unfolding section_is_randomly_ticking_def counters_ok_def by metis
qed

lemma has_only_air_sound:
  "has_only_air air pc \<Longrightarrow> \<forall>v \<in> set (collect_values BLOCK_DIM pc). air v"
  by (cases pc) (simp_all add: list_all_iff)

text \<open>A container of several air states is not recognised.\<close>

lemma has_only_air_incomplete:
  assumes "pc_ok BLOCK_DIM pc" "\<not> is_building pc" "u \<in> set (collect_values BLOCK_DIM pc)"
    "v \<in> set (collect_values BLOCK_DIM pc)" "u \<noteq> v"
  shows "\<not> has_only_air air pc"
  using assms by (cases pc) auto

section \<open>Examples\<close>

text \<open>Two small cubes, a registry of two blocks and one biome, and sections over them.\<close>

definition biome_cube :: "u16 list" where "biome_cube = (replicate 64 1)[5 := 2]"
definition block_cube :: "u16 list" where "block_cube = (replicate 4096 0)[7 := 1]"

definition two_blocks :: registry where
  "two_blocks = \<lparr>reg_block_of = (\<lambda>v. if v = 0 then Some ''air'' else if v = 1 then Some ''stone'' else None),
     reg_properties = (\<lambda>_. []),
     reg_state_of = (\<lambda>n p. if n = ''air'' then Some 0 else if n = ''stone'' then Some 1 else None),
     reg_biome_of = (\<lambda>i. if i = 1 then Some ''plains'' else if i = 2 then Some ''desert'' else None),
     reg_biome_id = (\<lambda>n. if n = ''plains'' then Some 1 else if n = ''desert'' then Some 2 else None)\<rparr>"

definition stone_traits :: block_traits where
  "stone_traits v = \<lparr>ct_is_air = (v = 0), ct_has_fluid = False, ct_ticking_block = (v = 1), ct_ticking_fluid = False\<rparr>"

definition sample_section :: chunk_section where
  "sample_section = section_new_with_biomes (from_cube block_cube) (from_cube biome_cube)"

lemma sample_cubes:
  "pc_ok BIOME_DIM (from_cube biome_cube)" "collect_values BIOME_DIM (from_cube biome_cube) = biome_cube"
  "\<not> is_building (from_cube biome_cube)" "set biome_cube \<subseteq> {1, 2}"
  "pc_ok BLOCK_DIM (from_cube block_cube)" "collect_values BLOCK_DIM (from_cube block_cube) = block_cube"
  "\<not> is_building (from_cube block_cube)" "set block_cube \<subseteq> {0, 1}"
proof -
  have b: "length biome_cube = pc_volume BIOME_DIM" "length block_cube = pc_volume BLOCK_DIM"
    by (simp_all add: biome_cube_def block_cube_def volumes)
  show "pc_ok BIOME_DIM (from_cube biome_cube)" "collect_values BIOME_DIM (from_cube biome_cube) = biome_cube"
      "\<not> is_building (from_cube biome_cube)"
    using from_cube_ok [OF pc_dims(2) b(1)] by (simp_all add: is_building_iff)
  show "pc_ok BLOCK_DIM (from_cube block_cube)" "collect_values BLOCK_DIM (from_cube block_cube) = block_cube"
      "\<not> is_building (from_cube block_cube)"
    using from_cube_ok [OF pc_dims(1) b(2)] by (simp_all add: is_building_iff)
  show "set biome_cube \<subseteq> {1, 2}" "set block_cube \<subseteq> {0, 1}"
    unfolding biome_cube_def block_cube_def
    by (rule order_trans [OF set_update_subset_insert], simp)+
qed

lemma sample_ok:
  "section_ok stone_traits (recalculate_counts stone_traits sample_section)"
  "registry_ok two_blocks" "saveable two_blocks sample_section"
proof -
  show "section_ok stone_traits (recalculate_counts stone_traits sample_section)"
    using sample_cubes by (intro recalculate_ok) (simp_all add: sample_section_def section_new_with_biomes_def)
  show "registry_ok two_blocks"
    by (auto simp: registry_ok_def two_blocks_def split: if_splits)
  show "saveable two_blocks sample_section"
    using sample_cubes
    by (auto simp: saveable_def sample_section_def section_new_with_biomes_def section_known_def cells_def
        block_key_def two_blocks_def)
qed

section \<open>Properties\<close>

text \<open>C12: A paletted container is a flat array of cells: a write inside the container returns the old
  value, changes exactly the cell it names, as reads show, and leaves a palette that counts every value
  exactly as often as it occurs.\<close>

theorem paletted_container_is_array:
  assumes "pc_dim_ok d" "pc_ok d pc" "in_cube d x y z"
  shows "\<exists>pc'. pc_set d pc x y z v = Some (collect_values d pc ! cube_index d x y z, pc') \<and> pc_ok d pc' \<and>
    collect_values d pc' = (collect_values d pc)[cube_index d x y z := v] \<and>
    (\<forall>a b c. in_cube d a b c \<longrightarrow>
      pc_get d pc' a b c = (if (a, b, c) = (x, y, z) then Some v else pc_get d pc a b c)) \<and>
    (\<forall>i < pc_volume d. pc_get_at_index d pc' i = Some ((collect_values d pc)[cube_index d x y z := v] ! i))"
proof -
  let ?i = "cube_index d x y z"
  obtain pc' where pc': "pc_set d pc x y z v = Some (collect_values d pc ! ?i, pc')" "pc_ok d pc'"
      "collect_values d pc' = (collect_values d pc)[?i := v]"
    by (rule pc_set_cells [OF assms])
  have "?i < length (collect_values d pc)" using length_collect_values [OF assms(2)] cube_index_less [OF assms(3)] by simp
  then have "pc_get d pc' a b c = (if (a, b, c) = (x, y, z) then Some v else pc_get d pc a b c)" if "in_cube d a b c" for a b c
    using that cube_index_eq_iff [OF that assms(3)] by (auto simp: pc_get_cells pc'(3) nth_list_update)
  moreover have "\<forall>i < pc_volume d. pc_get_at_index d pc' i = Some ((collect_values d pc)[?i := v] ! i)"
    by (simp add: pc_get_at_index_cells pc'(3))
  ultimately show ?thesis using pc' by blast
qed

theorem paletted_container_is_array_witness:
  "\<exists>pc'. pc_set BIOME_DIM (from_cube biome_cube) 1 0 1 9 = Some (2, pc') \<and> pc_ok BIOME_DIM pc' \<and>
     pc_get BIOME_DIM pc' 1 0 1 = Some 9"
proof -
  have c: "in_cube BIOME_DIM 1 0 1" "cube_index BIOME_DIM 1 0 1 = 5"
    by (simp_all add: in_cube_def cube_index_def BIOME_DIM_def)
  have "biome_cube ! 5 = 2" by (simp add: biome_cube_def)
  then show ?thesis
    using paletted_container_is_array [OF pc_dims(2) sample_cubes(1) c(1), of 9] c by (auto simp: sample_cubes(2))
qed

lemma canonical_form:
  assumes "pc_dim_ok d" "pc_ok d pc" "\<not> is_building pc"
  shows "pc = Homogeneous v \<longleftrightarrow> set (collect_values d pc) = {v}"
proof (cases pc)
  case (Heterogeneous h)
  then have ok: "palette_ok (hp_cube h) (hp_palette h)" "2 \<le> length (hp_palette h)" using assms(2) by simp_all
  have "card (set (hp_cube h)) = length (hp_palette h)"
    using ok(1) by (metis distinct_card length_map palette_ok_def set_map)
  then have "set (hp_cube h) \<noteq> {v}" using ok(2) by auto
  then show ?thesis using Heterogeneous by simp
qed (use assms(3) pc_volume_pos [OF assms(1)] in auto)

text \<open>A container outside building mode is in its canonical form: it is homogeneous exactly if all
  its cells are equal. Entering building mode and finalising keep the cells and restore that form, and the
  palette scan finds a value exactly if a cell holds it.\<close>

theorem container_is_canonical:
  assumes "pc_dim_ok d" "pc_ok d pc"
  defines "pc' \<equiv> finalize_building (enter_building_mode d pc)"
  shows "(\<not> is_building pc \<longrightarrow> (pc = Homogeneous v \<longleftrightarrow> set (collect_values d pc) = {v})) \<and>
    (pc' = Homogeneous v \<longleftrightarrow> set (collect_values d pc) = {v}) \<and>
    collect_values d pc' = collect_values d pc \<and> pc_ok d pc' \<and> \<not> is_building pc' \<and>
    (maybe_has P pc' \<longleftrightarrow> (\<exists>u \<in> set (collect_values d pc). P u))"
proof -
  have enter: "pc_ok d (enter_building_mode d pc)" "enter_building_mode d pc = Building (collect_values d pc)"
    using enter_building_ok [OF assms(2)] by blast+
  have fin: "pc_ok d pc'" "collect_values d pc' = collect_values d pc" "\<not> is_building pc'"
    using finalize_building_ok [OF assms(1) enter(1)] enter(2) unfolding pc'_def is_building_iff by simp_all
  then show ?thesis
    using canonical_form [OF assms(1,2)] canonical_form [OF assms(1) fin(1,3)] maybe_has_cells [OF assms(1) fin(1)] by simp
qed

theorem container_is_canonical_witness:
  "from_cube biome_cube \<noteq> Homogeneous 1 \<and>
   collect_values BIOME_DIM (finalize_building (enter_building_mode BIOME_DIM (from_cube biome_cube))) = biome_cube"
proof -
  have "set biome_cube \<noteq> {1}" using nth_mem [of 5 biome_cube] by (auto simp: biome_cube_def)
  then show ?thesis
    using container_is_canonical [OF pc_dims(2) sample_cubes(1), of 1] sample_cubes(2,3) by simp
qed

text \<open>C37: A reader of the protocol's format gets back the cells of a written container exactly if either
  the entries go through a palette or every id fits the width of a global entry, which is six bits for
  biomes: an id from 64 on is lost in a section of more than eight biomes.\<close>

theorem network_form_read_back_iff:
  assumes "pc_dim_ok d" "pc_ok d pc" "\<not> is_building pc"
  shows "\<exists>out ids. pc_write d gid pc = Some out \<and> pc_read d (out @ rest) = Some (ids, rest) \<and>
     (ids = map gid (collect_values d pc) \<longleftrightarrow>
       (global_mode d pc \<longrightarrow> (\<forall>v \<in> set (collect_values d pc). unat (gid v) < 2 ^ global_bits d)))"
  using assms(3) by (intro pc_write_read [OF assms(1,2)]) (simp add: is_building_iff)

theorem network_form_read_back_iff_witness:
  "\<exists>out. pc_write BIOME_DIM global_id (from_cube biome_cube) = Some out \<and>
     pc_read BIOME_DIM out = Some (map global_id biome_cube, [])"
proof -
  have "unat (global_id v) < 2 ^ global_bits BIOME_DIM" if "v \<in> set biome_cube" for v
    using that sample_cubes(4) by (auto simp: global_id_def global_bits_def BIOME_DIM_def)
  then show ?thesis
    using network_form_read_back_iff [OF pc_dims(2) sample_cubes(1,3), of global_id "[]"] by (auto simp: sample_cubes(2))
qed

text \<open>Setting a block keeps the four counters of its section exact: they are the numbers of cells with
  the trait, whether they were up to date before or the section was in building mode.\<close>

theorem section_counters_exact:
  assumes "section_ok traits s" "in_cube BLOCK_DIM x y z"
  shows "\<exists>s'. section_set traits x y z v s = Some (cells s ! cube_index BLOCK_DIM x y z, s') \<and>
    section_ok traits s' \<and> cells s' = (cells s)[cube_index BLOCK_DIM x y z := v] \<and>
    unat (cs_non_empty s') = count_where (\<lambda>v. \<not> ct_is_air (traits v)) (cells s') \<and>
    unat (cs_fluid s') = count_where (\<lambda>v. ct_has_fluid (traits v)) (cells s') \<and>
    unat (cs_ticking_blocks s') = count_where (\<lambda>v. ct_ticking_block (traits v)) (cells s') \<and>
    unat (cs_ticking_fluids s') = count_where (\<lambda>v. ct_ticking_fluid (traits v)) (cells s')"
  by (rule section_set_ok [OF assms, of v]) (auto simp: counters_ok_def)

theorem section_counters_exact_witness:
  "\<exists>s'. section_set stone_traits 7 0 0 0 (recalculate_counts stone_traits sample_section) = Some (1, s') \<and>
     cs_ticking_blocks s' = 0 \<and> section_is_empty s'"
proof -
  let ?s = "recalculate_counts stone_traits sample_section"
  have c: "in_cube BLOCK_DIM 7 0 0" "cube_index BLOCK_DIM 7 0 0 = 7"
    by (simp_all add: in_cube_def cube_index_def BLOCK_DIM_def)
  have "cells ?s = cells sample_section"
    using sample_cubes by (intro recalculate_ok) (simp_all add: sample_section_def section_new_with_biomes_def)
  then have cells: "cells ?s = block_cube" by (simp add: sample_section_def section_new_with_biomes_def cells_def sample_cubes)
  have "block_cube ! 7 = 1" "block_cube[7 := 0] = replicate 4096 0"
    by (simp_all add: block_cube_def list_eq_iff_nth_eq nth_list_update)
  then obtain s' where s': "section_set stone_traits 7 0 0 0 ?s = Some (1, s')" "cells s' = replicate 4096 0"
      "unat (cs_non_empty s') = count_where (\<lambda>v. \<not> ct_is_air (stone_traits v)) (cells s')"
      "unat (cs_ticking_blocks s') = count_where (\<lambda>v. ct_ticking_block (stone_traits v)) (cells s')"
    using section_counters_exact [OF sample_ok(1) c(1), of 0] by (auto simp: c(2) cells)
  then have "unat (cs_non_empty s') = 0" "unat (cs_ticking_blocks s') = 0"
    by (simp_all add: s'(2) stone_traits_def)
  then show ?thesis using s'(1) by (auto simp: section_is_empty_def unat_eq_zero)
qed

text \<open>C9: Any mixture of the ways to write a chunk's blocks, one by one or in batches, tracked or raw, and
  of recounts runs without a panic and leaves in every place the last block written there.\<close>

theorem write_histories_agree:
  assumes "reachable_sections traits ss" "\<forall>op \<in> set ops. op_in_chunk ss op"
  shows "\<exists>ss'. try_fold (run_op traits) ops ss = Some ss' \<and> sections_ok traits ss' \<and>
    (\<forall>x y z. in_chunk ss (x, y, z) \<longrightarrow>
      get_relative_block ss' x y z =
        Some (Some (last_write (concat (map op_writes ops)) (x, y, z) (block_at ss (x, y, z)))) \<and>
      read_column ss' x z ! y = Some (block_at ss' (x, y, z)))"
proof -
  obtain ss' where ss': "try_fold (run_op traits) ops ss = Some ss'" "sections_ok traits ss'" "in_chunk ss' = in_chunk ss"
      "\<forall>k. in_chunk ss k \<longrightarrow> block_at ss' k = last_write (concat (map op_writes ops)) k (block_at ss k)"
    using run_ops_law [OF reachable_ok [OF assms(1)] assms(2)] by blast
  have "get_relative_block ss' x y z =
        Some (Some (last_write (concat (map op_writes ops)) (x, y, z) (block_at ss (x, y, z)))) \<and>
      read_column ss' x z ! y = Some (block_at ss' (x, y, z))" if k: "in_chunk ss (x, y, z)" for x y z
  proof -
    have k': "in_chunk ss' (x, y, z)" using k ss'(3) by simp
    then have xz: "x < BLOCK_DIM" "z < BLOCK_DIM" "y div BLOCK_DIM < length (ss_sections ss')" by simp_all
    then have "y < length (ss_sections ss') * BLOCK_DIM" by (simp add: BLOCK_DIM_def)
    then have "read_column ss' x z ! y = Some (block_at ss' (x, y, z))"
      unfolding read_column_at [OF xz(1,2)] by (simp only: nth_map length_upt minus_nat.diff_0 nth_upt plus_nat.add_0)
    moreover have "get_relative_block ss' x y z = Some (Some (block_at ss' (x, y, z)))"
      unfolding get_relative_block_at [OF xz(1,2)] using k' by (simp only: if_True)
    ultimately show ?thesis using ss'(4) k by simp
  qed
  then show ?thesis using ss'(1,2) by blast
qed

definition sample_chunk :: sections where
  "sample_chunk = the (sections_from_owned (replicate 2 (recalculate_counts stone_traits sample_section)))"

lemma sample_chunk:
  "reachable_sections stone_traits sample_chunk"
  "ss_sections sample_chunk = replicate 2 (recalculate_counts stone_traits sample_section)"
proof -
  let ?l = "replicate 2 (recalculate_counts stone_traits sample_section)"
  have ok: "\<forall>s \<in> set ?l. section_ok stone_traits s" using sample_ok(1) by simp
  obtain r where r: "sections_from_owned ?l = Some r" "ss_sections r = ?l" by (rule from_owned_ok [OF ok])
  then show "reachable_sections stone_traits sample_chunk" "ss_sections sample_chunk = ?l"
    using reachable_sections.owned [OF ok] by (simp_all add: sample_chunk_def)
qed

theorem write_histories_agree_witness:
  "\<exists>ss'. try_fold (run_op stone_traits)
       [WriteBatch [((1, 17, 2), 1), ((1, 17, 2), 5)], SetBlock 3 4 5 6, WriteColumn 1 2 [(17, 8)], Recount 1]
       sample_chunk = Some ss' \<and>
     get_relative_block ss' 1 17 2 = Some (Some 8) \<and> get_relative_block ss' 3 4 5 = Some (Some 6)"
proof -
  let ?ops = "[WriteBatch [((1, 17, 2), 1), ((1, 17, 2), 5)], SetBlock 3 4 5 6, WriteColumn 1 2 [(17, 8)], Recount 1]"
  have "\<forall>op \<in> set ?ops. op_in_chunk sample_chunk op"
    by (simp add: op_in_chunk_def sample_chunk(2) BLOCK_DIM_def)
  moreover have "in_chunk sample_chunk (1, 17, 2)" "in_chunk sample_chunk (3, 4, 5)"
    by (simp_all add: sample_chunk(2) BLOCK_DIM_def)
  moreover have "last_write (concat (map op_writes ?ops)) (1, 17, 2) v = 8"
      "last_write (concat (map op_writes ?ops)) (3, 4, 5) v = 6" for v
    by (simp_all add: last_write_def)
  ultimately show ?thesis
    using write_histories_agree [OF sample_chunk(1), of ?ops] by (auto simp del: in_chunk.simps block_at.simps op_writes.simps)
qed

text \<open>C11: In every chunk that these operations reach, the lock-free index answers a search as the linear
  scan of the sections would, and a section outside building mode has its bit set exactly if one of its
  cells ticks randomly: no ticking section is skipped.\<close>

theorem ticking_index_is_exact:
  assumes "reachable_sections traits ss"
  defines "n \<equiv> length (ss_sections ss)"
  shows "tick_bits_next (ss_bits ss) start =
      List.find (\<lambda>i. section_is_randomly_ticking (ss_sections ss ! i)) [start..<n] \<and>
    (\<forall>i < n. \<not> is_building (cs_states (ss_sections ss ! i)) \<longrightarrow>
      (tick_bits_contains (ss_bits ss) i \<longleftrightarrow>
        (\<exists>v \<in> set (cells (ss_sections ss ! i)). ct_ticking_block (traits v) \<or> ct_ticking_fluid (traits v))))"
proof -
  have ok: "sections_ok traits ss" by (rule reachable_ok [OF assms(1)])
  then have bits: "tick_bits_ok (ss_bits ss)" "rt_count (ss_bits ss) = n"
      "\<And>i. i < n \<Longrightarrow> tick_bits_contains (ss_bits ss) i \<longleftrightarrow> section_is_randomly_ticking (ss_sections ss ! i)"
    by (simp_all add: sections_ok_def tick_bits_ok_def n_def)
  have "List.find (tick_bits_contains (ss_bits ss)) [start..<n] =
      List.find (\<lambda>i. section_is_randomly_ticking (ss_sections ss ! i)) [start..<n]"
    using bits(3) by (intro find_cong) auto
  moreover have "section_ok traits (ss_sections ss ! i)" if "i < n" for i
    using ok that by (simp add: sections_ok_def n_def)
  then have "section_is_randomly_ticking (ss_sections ss ! i) \<longleftrightarrow>
      (\<exists>v \<in> set (cells (ss_sections ss ! i)). ct_ticking_block (traits v) \<or> ct_ticking_fluid (traits v))"
    if "i < n" "\<not> is_building (cs_states (ss_sections ss ! i))" for i
    using that by (intro ticking_cells) (auto simp: section_ok_def)
  ultimately show ?thesis using tick_bits_next_find [OF bits(1)] bits(2,3) by simp
qed

theorem ticking_index_is_exact_witness:
  "tick_bits_next (ss_bits sample_chunk) 1 = Some 1 \<and> tick_bits_next (ss_bits sample_chunk) 2 = None"
proof -
  let ?s = "recalculate_counts stone_traits sample_section"
  have pc: "pc_ok BLOCK_DIM (cs_states sample_section)" "pc_ok BIOME_DIM (cs_biomes sample_section)"
    using sample_cubes by (simp_all add: sample_section_def section_new_with_biomes_def)
  note r = recalculate_ok [OF pc, of stone_traits]
  have "cells ?s = block_cube"
    unfolding r(3) by (simp add: sample_section_def section_new_with_biomes_def cells_def sample_cubes)
  moreover have "1 \<in> set block_cube" unfolding block_cube_def by (rule set_update_memI) simp
  ultimately have "section_is_randomly_ticking ?s"
    using ticking_cells [OF r(2)] by (auto simp: stone_traits_def)
  moreover have "[1..<2] = [1 :: nat]" by (simp add: upt_rec)
  ultimately show ?thesis
    using ticking_index_is_exact [OF sample_chunk(1), of 1] ticking_index_is_exact [OF sample_chunk(1), of 2]
    by (simp add: sample_chunk(2))
qed

text \<open>C7: Sections that were written to a region file pass the check on loading and come back with the same
  blocks and biomes, in well-formed containers, however many sections share the chunk's lists and
  whatever is appended to them later.\<close>

theorem saved_sections_load_back:
  assumes "registry_ok reg" "\<forall>s \<in> set ss. saveable reg s"
  shows "\<exists>ps b. sections_to_persistent reg ss \<lparr>cb_block_states = [], cb_biomes = []\<rparr> = Some (ps, b) \<and>
    length ps = length ss \<and>
    (\<forall>i < length ss. validate_section b (ps ! i) = Inr () \<and>
      (\<exists>s'. persistent_to_section reg b (ps ! i) = Inr s' \<and> cells s' = cells (ss ! i) \<and>
        collect_values BIOME_DIM (cs_biomes s') = collect_values BIOME_DIM (cs_biomes (ss ! i)) \<and>
        pc_ok BLOCK_DIM (cs_states s') \<and> pc_ok BIOME_DIM (cs_biomes s')))"
proof -
  let ?b = "\<lparr>cb_block_states = [], cb_biomes = []\<rparr>"
  have "builder_inv reg ?b" using assms(1) by (simp add: builder_inv_def builder_ok_def entries_ok_def)
  from sections_round_trip [OF this assms(2)] obtain ps b where
    "sections_to_persistent reg ss ?b = Some (ps, b)" "length ps = length ss"
    "\<forall>i < length ss. validate_section b (ps ! i) = Inr () \<and>
        (\<exists>s'. persistent_to_section reg b (ps ! i) = Inr s' \<and> same_contents (ss ! i) s')"
    using later_builder_order(1) by blast
  then show ?thesis by (auto simp: same_contents_def)
qed

theorem saved_sections_load_back_witness:
  "\<exists>ps b s'. sections_to_persistent two_blocks [sample_section, sample_section] \<lparr>cb_block_states = [], cb_biomes = []\<rparr> = Some (ps, b) \<and>
     persistent_to_section two_blocks b (ps ! 1) = Inr s' \<and> cells s' = block_cube"
proof -
  have "\<forall>s \<in> set [sample_section, sample_section]. saveable two_blocks s" using sample_ok(3) by simp
  from saved_sections_load_back [OF sample_ok(2) this] obtain ps b where
    "sections_to_persistent two_blocks [sample_section, sample_section] \<lparr>cb_block_states = [], cb_biomes = []\<rparr> = Some (ps, b)"
    "\<forall>i < length [sample_section, sample_section]. \<exists>s'. persistent_to_section two_blocks b (ps ! i) = Inr s' \<and>
       cells s' = cells ([sample_section, sample_section] ! i)"
    by blast
  moreover have "cells sample_section = block_cube"
    by (simp add: sample_section_def section_new_with_biomes_def cells_def sample_cubes)
  ultimately show ?thesis by (auto dest: spec [of _ 1])
qed

text \<open>Indices into a palette are packed at the width chosen for its length and unpack to themselves,
  from the stated number of words; the packer of the network format yields the same words.\<close>

theorem packed_indices_round_trip:
  assumes "bits_for_palette_len n = Some bits" "n \<le> 65536" "\<forall>x \<in> set xs. unat x < n"
  shows "take (length xs) (unpack_indices (pack_indices xs bits) bits) = xs \<and>
    length (pack_indices xs bits) = div_ceil (length xs) (64 div bits) \<and>
    pack_bits xs bits = pack_indices xs bits"
proof -
  have "2 \<le> n" using assms(1) by (simp add: bits_for_palette_len_def split: if_splits)
  then have b: "0 < bits" "bits \<le> 32" "n \<le> 2 ^ bits" "bits \<le> 64"
    using bits_for_palette_len_bounds [OF _ assms(2)] assms(1) by auto
  then have "\<forall>x \<in> set xs. unat x < 2 ^ bits" using assms(3) by (meson less_le_trans)
  then show ?thesis
    using unpack_pack_indices b length_pack_indices pack_bits_eq_pack_indices by simp
qed

theorem packed_indices_round_trip_witness:
  "bits_for_palette_len 17 = Some 8 \<and>
   take 3 (unpack_indices (pack_indices [16, 0, 5] 8) 8) = [16, 0, 5]"
proof -
  have b: "bits_for_palette_len 17 = Some 8" by (simp add: bits_for_palette_len_def)
  have "\<forall>x \<in> set [16, 0, 5 :: u32]. unat x < 17" by simp
  then show ?thesis using packed_indices_round_trip [OF b, of "[16, 0, 5]"] b by (simp add: numeral_3_eq_3)
qed

end
