(* ===== verification/Pyramid.thy ===== *)
theory Pyramid
  imports Prelude
begin

text \<open>
  The statuses of chunk generation (\<open>foton-core/src/chunk/status.rs\<close>) and the pyramid of their
  dependencies, a table that \<open>foton-core/src/chunk/chunk_pyramid.rs\<close> computes at compile time. Its arrays
  are lists of the same lengths; the tasks of the steps are left out.
\<close>

section \<open>Statuses\<close>

datatype chunk_status =
    Empty | StructureStarts | StructureReferences | Biomes | Noise | Surface | Carvers | Features
  | InitializeLight | Light | Spawn | Full

fun status_index :: "chunk_status \<Rightarrow> nat" where
  "status_index Empty = 0"
| "status_index StructureStarts = 1"
| "status_index StructureReferences = 2"
| "status_index Biomes = 3"
| "status_index Noise = 4"
| "status_index Surface = 5"
| "status_index Carvers = 6"
| "status_index Features = 7"
| "status_index InitializeLight = 8"
| "status_index Light = 9"
| "status_index Spawn = 10"
| "status_index Full = 11"

definition all_statuses :: "chunk_status list" where
  "all_statuses = [Empty, StructureStarts, StructureReferences, Biomes, Noise, Surface, Carvers, Features,
     InitializeLight, Light, Spawn, Full]"

definition status_from_index :: "nat \<Rightarrow> chunk_status option" where
  "status_from_index i = (if i < 12 then Some (all_statuses ! i) else None)"

fun status_next :: "chunk_status \<Rightarrow> chunk_status option" where
  "status_next Empty = Some StructureStarts"
| "status_next StructureStarts = Some StructureReferences"
| "status_next StructureReferences = Some Biomes"
| "status_next Biomes = Some Noise"
| "status_next Noise = Some Surface"
| "status_next Surface = Some Carvers"
| "status_next Carvers = Some Features"
| "status_next Features = Some InitializeLight"
| "status_next InitializeLight = Some Light"
| "status_next Light = Some Spawn"
| "status_next Spawn = Some Full"
| "status_next Full = None"

fun status_parent :: "chunk_status \<Rightarrow> chunk_status option" where
  "status_parent Empty = None"
| "status_parent StructureStarts = Some Empty"
| "status_parent StructureReferences = Some StructureStarts"
| "status_parent Biomes = Some StructureReferences"
| "status_parent Noise = Some Biomes"
| "status_parent Surface = Some Noise"
| "status_parent Carvers = Some Surface"
| "status_parent Features = Some Carvers"
| "status_parent InitializeLight = Some Features"
| "status_parent Light = Some InitializeLight"
| "status_parent Spawn = Some Light"
| "status_parent Full = Some Spawn"

text \<open>The derived order of the enumeration.\<close>

lemma status_index_inject: "status_index s = status_index t \<longleftrightarrow> s = t"
  by (cases s; cases t) simp_all

instantiation chunk_status :: linorder
begin

definition less_eq_chunk_status :: "chunk_status \<Rightarrow> chunk_status \<Rightarrow> bool" where
  "s \<le> t \<longleftrightarrow> status_index s \<le> status_index t"

definition less_chunk_status :: "chunk_status \<Rightarrow> chunk_status \<Rightarrow> bool" where
  "s < t \<longleftrightarrow> status_index s < status_index t"

instance
  by standard (auto simp: less_eq_chunk_status_def less_chunk_status_def status_index_inject)

end

section \<open>Dependencies\<close>

definition STATUS_COUNT :: nat where "STATUS_COUNT = 12"
definition MAX_RADIUS :: nat where "MAX_RADIUS = 16"

record chunk_dependencies =
  dep_by_radius :: "chunk_status option list"
  dep_len :: nat
  dep_radius_of :: "nat list"

definition EMPTY_DEPENDENCIES :: chunk_dependencies where
  "EMPTY_DEPENDENCIES =
     \<lparr>dep_by_radius = replicate MAX_RADIUS None, dep_len = 0, dep_radius_of = replicate STATUS_COUNT 0\<rparr>"

definition build_radius_lookup :: "chunk_status option list \<Rightarrow> nat \<Rightarrow> nat list" where
  "build_radius_lookup deps n =
     fold (\<lambda>radius table.
         case deps ! radius of
           None \<Rightarrow> table
         | Some dep \<Rightarrow> fold (\<lambda>j t. t[j := radius]) [0..<min (Suc (status_index dep)) STATUS_COUNT] table)
       [0..<n] (replicate STATUS_COUNT 0)"

text \<open>One requirement: the radii it adds are filled with its status, lower entries within it are raised.\<close>

fun add_requirement :: "chunk_status \<times> nat \<Rightarrow> chunk_status option list \<times> nat \<Rightarrow> chunk_status option list \<times> nat" where
  "add_requirement (status, radius) (deps, n) =
     (let new_len = radius + 1;
          deps = fold (\<lambda>j d. d[j := Some status]) [n..<new_len] deps;
          n = max n new_len;
          deps = fold (\<lambda>j d. case d ! j of
                               None \<Rightarrow> d
                             | Some existing \<Rightarrow> if existing < status then d[j := Some status] else d)
                   [0..<min n new_len] deps
      in (deps, n))"

definition from_requirements :: "(chunk_status \<times> nat) list \<Rightarrow> chunk_status option \<Rightarrow> chunk_dependencies" where
  "from_requirements reqs parent =
     (let start = (case parent of
                     None \<Rightarrow> (replicate MAX_RADIUS None, 0)
                   | Some p \<Rightarrow> ((replicate MAX_RADIUS None)[0 := Some p], 1));
          (deps, n) = fold add_requirement reqs start
      in \<lparr>dep_by_radius = deps, dep_len = n, dep_radius_of = build_radius_lookup deps n\<rparr>)"

fun max_status :: "chunk_status option \<Rightarrow> chunk_status option \<Rightarrow> chunk_status option" where
  "max_status (Some a) (Some b) = (if b < a then Some a else Some b)"
| "max_status (Some s) None = Some s"
| "max_status None s = s"

definition dep_get :: "chunk_dependencies \<Rightarrow> nat \<Rightarrow> chunk_status option" where
  "dep_get d distance = (if distance < dep_len d then dep_by_radius d ! distance else None)"

definition get_radius_of :: "chunk_dependencies \<Rightarrow> chunk_status \<Rightarrow> nat" where
  "get_radius_of d s = dep_radius_of d ! status_index s"

definition get_radius :: "chunk_dependencies \<Rightarrow> nat" where
  "get_radius d = dep_len d - 1"

definition accumulate :: "chunk_dependencies \<Rightarrow> chunk_dependencies \<Rightarrow> chunk_status \<Rightarrow> chunk_dependencies" where
  "accumulate self parent_acc parent_status =
     (let radius_of_parent =
            fold (\<lambda>i r. case dep_by_radius self ! i of
                          None \<Rightarrow> r
                        | Some s \<Rightarrow> if parent_status \<le> s then i else r) [0..<dep_len self] 0;
          n = min (max (radius_of_parent + dep_len parent_acc) (dep_len self)) MAX_RADIUS;
          acc = map (\<lambda>dist. if dist < n
                            then max_status (dep_get self dist) (dep_get parent_acc (dist - radius_of_parent))
                            else None) [0..<MAX_RADIUS]
      in \<lparr>dep_by_radius = acc, dep_len = n, dep_radius_of = build_radius_lookup acc n\<rparr>)"

section \<open>The pyramids\<close>

record chunk_step =
  target_status :: chunk_status
  direct_dependencies :: chunk_dependencies
  accumulated_dependencies :: chunk_dependencies
  block_state_write_radius :: int

definition get_accumulated_radius_of :: "chunk_step \<Rightarrow> chunk_status \<Rightarrow> nat" where
  "get_accumulated_radius_of st s =
     (if s = target_status st then 0 else get_radius_of (accumulated_dependencies st) s)"

text \<open>The builder's steps so far, the parent last.\<close>

fun pyramid_step :: "chunk_status \<times> (chunk_status \<times> nat) list \<times> int \<Rightarrow> chunk_step list \<Rightarrow> chunk_step list" where
  "pyramid_step (status, reqs, write_radius) steps =
     (let direct = from_requirements reqs (if steps = [] then None else Some (target_status (last steps)));
          acc = (if steps = [] then direct
                 else accumulate direct (accumulated_dependencies (last steps)) (target_status (last steps)))
      in steps @ [\<lparr>target_status = status, direct_dependencies = direct, accumulated_dependencies = acc,
                   block_state_write_radius = write_radius\<rparr>])"

definition GENERATION_PYRAMID :: "chunk_step list" where
  "GENERATION_PYRAMID = fold pyramid_step
     [(Empty, [], -1),
      (StructureStarts, [], -1),
      (StructureReferences, [(StructureStarts, 8)], -1),
      (Biomes, [(StructureStarts, 8)], -1),
      (Noise, [(StructureStarts, 8), (Biomes, 1)], 0),
      (Surface, [(StructureStarts, 8), (Biomes, 1)], 0),
      (Carvers, [(StructureStarts, 8)], 0),
      (Features, [(StructureStarts, 8), (Carvers, 1)], 1),
      (InitializeLight, [], -1),
      (Light, [(InitializeLight, 1)], 0),
      (Spawn, [(Biomes, 1)], -1),
      (Full, [], -1)] []"

definition LOADING_PYRAMID :: "chunk_step list" where
  "LOADING_PYRAMID = fold pyramid_step
     [(Empty, [], -1),
      (StructureStarts, [], -1),
      (StructureReferences, [], -1),
      (Biomes, [], -1),
      (Noise, [], -1),
      (Surface, [], -1),
      (Carvers, [], -1),
      (Features, [], -1),
      (InitializeLight, [], -1),
      (Light, [(InitializeLight, 1)], -1),
      (Spawn, [], -1),
      (Full, [], -1)] []"

definition get_step_to :: "chunk_step list \<Rightarrow> chunk_status \<Rightarrow> chunk_step" where
  "get_step_to pyramid s = pyramid ! status_index s"


section \<open>What the tables promise\<close>

text \<open>A need of \<open>None\<close> is met by anything.\<close>

fun meets :: "chunk_status option \<Rightarrow> chunk_status option \<Rightarrow> bool" where
  "meets have None = True"
| "meets None (Some need) = False"
| "meets (Some s) (Some need) = (need \<le> s)"

text \<open>
  The accumulated dependencies of a step cover its direct ones, and those of whatever they ask of a
  neighbour in turn.
\<close>

definition step_closed :: "chunk_step list \<Rightarrow> chunk_step \<Rightarrow> bool" where
  "step_closed pyramid st \<longleftrightarrow>
     (let acc = accumulated_dependencies st in
      (\<forall>e \<in> set [0..<MAX_RADIUS]. meets (dep_get acc e) (dep_get (direct_dependencies st) e)) \<and>
      (\<forall>d \<in> set [0..<MAX_RADIUS]. case dep_get acc d of
          None \<Rightarrow> True
        | Some t \<Rightarrow> (\<forall>e \<in> set [0..<MAX_RADIUS].
            meets (dep_get acc (d + e)) (dep_get (direct_dependencies (get_step_to pyramid t)) e))))"

lemma targets: "map target_status GENERATION_PYRAMID = all_statuses" "map target_status LOADING_PYRAMID = all_statuses"
  by code_simp+

lemma pyramid_closed_eval: "\<forall>st \<in> set GENERATION_PYRAMID. step_closed GENERATION_PYRAMID st"
  by code_simp

lemma loading_closed_eval: "\<forall>st \<in> set LOADING_PYRAMID. step_closed LOADING_PYRAMID st"
  by code_simp

lemma full_dependencies:
  "map (dep_get (accumulated_dependencies (get_step_to GENERATION_PYRAMID Full))) [0..<13] =
     [Some Spawn, Some InitializeLight, Some Carvers, Some Biomes, Some StructureStarts, Some StructureStarts,
      Some StructureStarts, Some StructureStarts, Some StructureStarts, Some StructureStarts, Some StructureStarts,
      Some StructureStarts, None]"
  by code_simp

end
