(* ===== verification/TicketLevels.thy ===== *)
theory TicketLevels
  imports Pyramid Positions "HOL-Library.AList"
begin

text \<open>
  Ticket levels, tickets and the ticket manager of \<open>foton-core/src/chunk/chunk_ticket_manager.rs\<close>. A level
  is a \<open>u8\<close>, here a number; \<open>saturating_sub\<close> is the truncated difference and \<open>saturating_add\<close> caps at
  255. A hash map is an association list, whose order stands for the map's iteration order. Chunk coordinates
  wrap, as in a release build.
\<close>

section \<open>Levels\<close>

definition MAX_SUPPORTED_VIEW_DISTANCE :: nat where "MAX_SUPPORTED_VIEW_DISTANCE = 128"
definition FULL_CHUNK_LEVEL_RAW :: nat where "FULL_CHUNK_LEVEL_RAW = MAX_SUPPORTED_VIEW_DISTANCE + 2"

definition full_step_dependencies :: chunk_dependencies where
  "full_step_dependencies = accumulated_dependencies (get_step_to GENERATION_PYRAMID Full)"

definition RADIUS_AROUND_FULL_CHUNK :: nat where
  "RADIUS_AROUND_FULL_CHUNK = get_radius_of full_step_dependencies Empty"

definition MAX_LEVEL_RAW :: nat where "MAX_LEVEL_RAW = FULL_CHUNK_LEVEL_RAW + RADIUS_AROUND_FULL_CHUNK"
definition ENTITY_TICKING_CHUNK :: nat where "ENTITY_TICKING_CHUNK = MAX_SUPPORTED_VIEW_DISTANCE"
definition BLOCK_TICKING_CHUNK :: nat where "BLOCK_TICKING_CHUNK = MAX_SUPPORTED_VIEW_DISTANCE + 1"

definition level_new :: "nat \<Rightarrow> nat option" where
  "level_new raw = (if raw \<le> MAX_LEVEL_RAW then Some raw else None)"

definition for_full_chunk_radius :: "nat \<Rightarrow> nat" where
  "for_full_chunk_radius radius = FULL_CHUNK_LEVEL_RAW - radius"

definition for_entity_ticking_radius :: "nat \<Rightarrow> nat" where
  "for_entity_ticking_radius radius = ENTITY_TICKING_CHUNK - radius"

datatype full_chunk_status = Inaccessible | FullChunk | BlockTicking | EntityTicking

definition level_full_status :: "nat \<Rightarrow> full_chunk_status" where
  "level_full_status l =
     (if l \<le> ENTITY_TICKING_CHUNK then EntityTicking
      else if l \<le> BLOCK_TICKING_CHUNK then BlockTicking
      else if l \<le> FULL_CHUNK_LEVEL_RAW then FullChunk else Inaccessible)"

definition level_is_full :: "nat \<Rightarrow> bool" where
  "level_is_full l \<longleftrightarrow> l \<le> FULL_CHUNK_LEVEL_RAW"

definition level_is_block_ticking :: "nat \<Rightarrow> bool" where
  "level_is_block_ticking l \<longleftrightarrow> l \<le> BLOCK_TICKING_CHUNK"

definition level_is_entity_ticking :: "nat \<Rightarrow> bool" where
  "level_is_entity_ticking l \<longleftrightarrow> l \<le> ENTITY_TICKING_CHUNK"

definition is_or_after :: "full_chunk_status \<Rightarrow> full_chunk_status \<Rightarrow> bool" where
  "is_or_after a b \<longleftrightarrow>
     (let rank = (\<lambda>s. case s of Inaccessible \<Rightarrow> 0 | FullChunk \<Rightarrow> 1 | BlockTicking \<Rightarrow> 2 | EntityTicking \<Rightarrow> (3 :: nat))
      in rank b \<le> rank a)"

definition full_status_of :: "nat option \<Rightarrow> full_chunk_status" where
  "full_status_of level = (case level of Some l \<Rightarrow> level_full_status l | None \<Rightarrow> Inaccessible)"

definition is_block_ticking :: "nat option \<Rightarrow> bool" where
  "is_block_ticking level = (case level of Some l \<Rightarrow> level_is_block_ticking l | None \<Rightarrow> False)"

definition is_entity_ticking :: "nat option \<Rightarrow> bool" where
  "is_entity_ticking level = (case level of Some l \<Rightarrow> level_is_entity_ticking l | None \<Rightarrow> False)"

definition with_distance :: "nat \<Rightarrow> nat \<Rightarrow> nat option" where
  "with_distance l distance = level_new (min 255 (l + distance))"

definition distance_to_max :: "nat \<Rightarrow> nat" where
  "distance_to_max l = MAX_LEVEL_RAW - l"

definition distance_to_block_ticking :: "nat \<Rightarrow> nat" where
  "distance_to_block_ticking l = BLOCK_TICKING_CHUNK - l"

definition generation_status :: "nat option \<Rightarrow> chunk_status option" where
  "generation_status level =
     (case level of
        None \<Rightarrow> None
      | Some l \<Rightarrow> if level_is_full l then Some Full
                  else dep_get full_step_dependencies (l - FULL_CHUNK_LEVEL_RAW))"

definition ticket_level_for_status :: "chunk_status \<Rightarrow> nat" where
  "ticket_level_for_status s =
     (if s = Full then FULL_CHUNK_LEVEL_RAW else FULL_CHUNK_LEVEL_RAW + get_radius_of full_step_dependencies s)"

section \<open>Tickets\<close>

record chunk_ticket =
  load_level :: nat
  simulation_level :: "nat option"

definition loading :: "nat \<Rightarrow> chunk_ticket" where
  "loading l = \<lparr>load_level = l, simulation_level = None\<rparr>"

definition full_chunks :: "nat \<Rightarrow> chunk_ticket" where
  "full_chunks radius = loading (for_full_chunk_radius radius)"

definition simulated_full_chunks :: "nat \<Rightarrow> chunk_ticket" where
  "simulated_full_chunks radius =
     (let level = for_full_chunk_radius radius in \<lparr>load_level = level, simulation_level = Some level\<rparr>)"

definition full_chunks_with_entity_ticking :: "nat \<Rightarrow> nat \<Rightarrow> chunk_ticket" where
  "full_chunks_with_entity_ticking load_radius entity_radius =
     (let entity_radius = (if load_radius < entity_radius then load_radius else entity_radius) in
      \<lparr>load_level = for_full_chunk_radius load_radius,
       simulation_level = Some (for_entity_ticking_radius entity_radius)\<rparr>)"

definition player_ticket :: "nat \<Rightarrow> nat \<Rightarrow> chunk_ticket" where
  "player_ticket view_distance simulation_radius =
     (let simulation_radius = (if view_distance < simulation_radius then view_distance else simulation_radius) in
      \<lparr>load_level = for_entity_ticking_radius view_distance,
       simulation_level = Some (for_entity_ticking_radius simulation_radius)\<rparr>)"

section \<open>The manager\<close>

record level_change =
  lc_pos :: chunk_pos
  lc_level :: "nat option"
  lc_simulation :: "nat option"

type_synonym level_map = "(chunk_pos \<times> nat) list"

record ticket_manager =
  tm_tickets :: "(chunk_pos \<times> chunk_ticket list) list"
  tm_levels :: level_map
  tm_simulation :: level_map
  tm_dirty :: bool
  tm_changes :: "level_change list"

definition tm_new :: ticket_manager where
  "tm_new = \<lparr>tm_tickets = [], tm_levels = [], tm_simulation = [], tm_dirty = False, tm_changes = []\<rparr>"

definition add_ticket :: "chunk_pos \<Rightarrow> chunk_ticket \<Rightarrow> ticket_manager \<Rightarrow> ticket_manager" where
  "add_ticket p t m =
     m\<lparr>tm_tickets := AList.update p ((case map_of (tm_tickets m) p of None \<Rightarrow> [] | Some ts \<Rightarrow> ts) @ [t]) (tm_tickets m),
       tm_dirty := True\<rparr>"

definition remove_ticket :: "chunk_pos \<Rightarrow> chunk_ticket \<Rightarrow> ticket_manager \<Rightarrow> bool \<times> ticket_manager" where
  "remove_ticket p t m =
     (case map_of (tm_tickets m) p of
        None \<Rightarrow> (False, m)
      | Some ts \<Rightarrow>
          (case position (\<lambda>stored. stored = t) ts of
             None \<Rightarrow> (False, m)
           | Some i \<Rightarrow>
               (let ts' = swap_remove i ts in
                (True, m\<lparr>tm_tickets := (if ts' = [] then AList.delete p (tm_tickets m) else AList.update p ts' (tm_tickets m)),
                         tm_dirty := True\<rparr>))))"

definition remove_all_tickets_at :: "chunk_pos \<Rightarrow> ticket_manager \<Rightarrow> bool \<times> ticket_manager" where
  "remove_all_tickets_at p m =
     (if map_of (tm_tickets m) p = None then (False, m)
      else (True, m\<lparr>tm_tickets := AList.delete p (tm_tickets m), tm_dirty := True\<rparr>))"

fun min_of :: "nat list \<Rightarrow> nat option" where
  "min_of [] = None"
| "min_of (l # ls) = Some (case min_of ls of None \<Rightarrow> l | Some m \<Rightarrow> min l m)"

definition get_ticket :: "chunk_pos \<Rightarrow> ticket_manager \<Rightarrow> nat option" where
  "get_ticket p m = (case map_of (tm_tickets m) p of None \<Rightarrow> None | Some ts \<Rightarrow> min_of (map load_level ts))"

definition tickets_at :: "chunk_pos \<Rightarrow> ticket_manager \<Rightarrow> chunk_ticket list" where
  "tickets_at p m = (case map_of (tm_tickets m) p of None \<Rightarrow> [] | Some ts \<Rightarrow> ts)"

definition ticket_sources :: "ticket_manager \<Rightarrow> (chunk_pos \<times> nat) list" where
  "ticket_sources m =
     List.map_filter (\<lambda>(p, ts). map_option (Pair p) (min_of (map load_level ts))) (tm_tickets m)"

definition ticket_position_count :: "ticket_manager \<Rightarrow> nat" where
  "ticket_position_count m = length (tm_tickets m)"

definition ticket_count :: "ticket_manager \<Rightarrow> nat" where
  "ticket_count m = sum_list (map (length \<circ> snd) (tm_tickets m))"

section \<open>Propagation\<close>

text \<open>\<open>entry(pos).and_modify(min).or_insert(level)\<close>.\<close>

definition lower_level :: "chunk_pos \<times> nat \<Rightarrow> level_map \<Rightarrow> level_map" where
  "lower_level e levels =
     AList.update (fst e) (case map_of levels (fst e) of None \<Rightarrow> snd e | Some l \<Rightarrow> min l (snd e)) levels"

text \<open>The two nested loops around a source: the entries they make, the rows of \<open>dy\<close> outside.\<close>

definition square :: "nat \<Rightarrow> (int \<times> int) list" where
  "square radius = concat (map (\<lambda>dy. map (\<lambda>dx. (dx, dy)) [- int radius..int radius]) [- int radius..int radius])"

definition offset_chunk :: "chunk_pos \<Rightarrow> int \<times> int \<Rightarrow> chunk_pos" where
  "offset_chunk p d = \<lparr>cx = cx p + word_of_int (fst d), cz = cz p + word_of_int (snd d)\<rparr>"

definition chebyshev :: "int \<times> int \<Rightarrow> nat" where
  "chebyshev d = nat (max \<bar>fst d\<bar> \<bar>snd d\<bar>)"

definition source_entries :: "chunk_pos \<Rightarrow> nat \<Rightarrow> nat \<Rightarrow> (chunk_pos \<times> nat) list" where
  "source_entries p level radius =
     List.map_filter (\<lambda>d. map_option (\<lambda>l. (offset_chunk p d, l)) (with_distance level (chebyshev d mod 256)))
       (square radius)"

definition propagate_source :: "chunk_pos \<times> chunk_ticket list \<Rightarrow> level_map \<times> level_map \<Rightarrow> level_map \<times> level_map" where
  "propagate_source e maps =
     (case min_of (map load_level (snd e)) of
        None \<Rightarrow> maps
      | Some level \<Rightarrow>
          (let levels = fold lower_level (source_entries (fst e) level (distance_to_max level)) (fst maps) in
           case min_of (List.map_filter simulation_level (snd e)) of
             None \<Rightarrow> (levels, snd maps)
           | Some sim \<Rightarrow>
               (levels, fold lower_level (source_entries (fst e) sim (distance_to_block_ticking sim)) (snd maps))))"

definition record_simulation_only_changes :: "level_map \<Rightarrow> level_map \<Rightarrow> level_map \<Rightarrow> level_map \<Rightarrow> level_change list" where
  "record_simulation_only_changes old old_sim levels sim =
     List.map_filter (\<lambda>(p, l).
         if map_of old p \<noteq> map_of levels p then None
         else if map_of old_sim p = Some l then None
         else Some \<lparr>lc_pos = p, lc_level = map_of levels p, lc_simulation = Some l\<rparr>) sim @
     List.map_filter (\<lambda>(p, _).
         if map_of old p \<noteq> map_of levels p \<or> map_of sim p \<noteq> None then None
         else Some \<lparr>lc_pos = p, lc_level = map_of levels p, lc_simulation = None\<rparr>) old_sim"

definition level_changes :: "level_map \<Rightarrow> level_map \<Rightarrow> level_map \<Rightarrow> level_map \<Rightarrow> level_change list" where
  "level_changes old old_sim levels sim =
     List.map_filter (\<lambda>(p, l).
         if map_of old p = Some l then None
         else Some \<lparr>lc_pos = p, lc_level = Some l, lc_simulation = map_of sim p\<rparr>) levels @
     List.map_filter (\<lambda>(p, _).
         if map_of levels p \<noteq> None then None
         else Some \<lparr>lc_pos = p, lc_level = None, lc_simulation = None\<rparr>) old @
     record_simulation_only_changes old old_sim levels sim"

definition run_all_updates :: "ticket_manager \<Rightarrow> ticket_manager" where
  "run_all_updates m =
     (if \<not> tm_dirty m then m\<lparr>tm_changes := []\<rparr>
      else
        (let (levels, sim) = fold propagate_source (tm_tickets m) ([], []) in
         m\<lparr>tm_levels := levels, tm_simulation := sim, tm_dirty := False,
           tm_changes := level_changes (tm_levels m) (tm_simulation m) levels sim\<rparr>))"

definition take_changes :: "ticket_manager \<Rightarrow> level_change list \<times> ticket_manager" where
  "take_changes m = (tm_changes m, m\<lparr>tm_changes := []\<rparr>)"

definition get_level :: "ticket_manager \<Rightarrow> chunk_pos \<Rightarrow> nat option" where
  "get_level m p = map_of (tm_levels m) p"

definition get_simulation_level :: "ticket_manager \<Rightarrow> chunk_pos \<Rightarrow> nat option" where
  "get_simulation_level m p = map_of (tm_simulation m) p"

definition recycle_changes :: "ticket_manager \<Rightarrow> ticket_manager" where
  "recycle_changes m = m\<lparr>tm_changes := []\<rparr>"

definition tm_clear :: "ticket_manager \<Rightarrow> ticket_manager" where
  "tm_clear m = m\<lparr>tm_tickets := [], tm_levels := [], tm_simulation := [], tm_dirty := False, tm_changes := []\<rparr>"

end
