(* ===== verification/TicketPropagate.thy ===== *)
theory TicketPropagate
  imports TicketLevels
begin

text \<open>
  What propagation computes: at every chunk the least level that a source reaches it with, the distance
  being the larger of the two coordinate differences. And the list of changes: a follower that applies
  it to the levels it knew knows the new ones.
\<close>

section \<open>Lowering entries\<close>

definition least :: "nat set \<Rightarrow> nat option" where
  "least C = (if C = {} then None else Some (Inf C))"

lemma least_insert_min:
  "least (insert l C) = Some (case least C of None \<Rightarrow> l | Some m \<Rightarrow> min m l)"
  by (auto simp: least_def cInf_insert inf_nat_def min.commute)

lemma least_Some: "least C = Some l \<longleftrightarrow> l \<in> C \<and> (\<forall>k \<in> C. l \<le> k)"
  by (auto simp: least_def Inf_nat_def intro: LeastI Least_le) (metis LeastI Least_le le_antisym)+

lemma least_None: "least C = None \<longleftrightarrow> C = {}"
  by (simp add: least_def)

definition entries_at :: "chunk_pos \<Rightarrow> (chunk_pos \<times> nat) list \<Rightarrow> nat set" where
  "entries_at q es = {l. (q, l) \<in> set es}"

lemma map_of_lower: "map_of (lower_level e levels) q =
    (if q = fst e then Some (case map_of levels q of None \<Rightarrow> snd e | Some l \<Rightarrow> min l (snd e)) else map_of levels q)"
  by (simp add: lower_level_def update_conv')

lemma fold_lower:
  "map_of levels q = least C \<Longrightarrow> map_of (fold lower_level es levels) q = least (C \<union> entries_at q es)"
proof (induction es arbitrary: levels C)
  case Nil
  then show ?case by (simp add: entries_at_def)
next
  case (Cons e es)
  let ?C = "if q = fst e then insert (snd e) C else C"
  have "map_of (lower_level e levels) q = least ?C"
    using Cons.prems by (cases "q = fst e") (auto simp: map_of_lower least_insert_min)
  from Cons.IH [OF this] have "map_of (fold lower_level (e # es) levels) q = least (?C \<union> entries_at q es)" by simp
  moreover have "?C \<union> entries_at q es = C \<union> entries_at q (e # es)" by (cases e) (auto simp: entries_at_def)
  ultimately show ?case by simp
qed

lemma distinct_fold_lower:
  "distinct (map fst levels) \<Longrightarrow> distinct (map fst (fold lower_level es levels))"
  by (induction es arbitrary: levels) (simp_all add: lower_level_def distinct_update)

lemma min_of_least: "min_of ls = least (set ls)"
  by (induction ls) (simp_all add: least_insert_min min.commute least_def [of "{}"] split: option.splits)

lemma set_map_filter: "y \<in> set (List.map_filter f xs) \<longleftrightarrow> (\<exists>x \<in> set xs. f x = Some y)"
  by (induction xs) (auto simp: List.map_filter_simps split: option.splits)

section \<open>Distances\<close>

text \<open>Coordinates wrap; a difference is read as a signed number.\<close>

definition chunk_dist :: "chunk_pos \<Rightarrow> chunk_pos \<Rightarrow> nat" where
  "chunk_dist p q = chebyshev (sint (cx q - cx p), sint (cz q - cz p))"

lemma set_square: "set (square r) = {d. chebyshev d \<le> r}"
  by (auto simp: square_def chebyshev_def image_iff le_nat_iff max_def split: if_splits)

lemma chebyshev_fits: "chebyshev d \<le> 255 \<Longrightarrow> chunk_dist p (offset_chunk p d) = chebyshev d"
proof -
  assume "chebyshev d \<le> 255"
  then have "\<bar>fst d\<bar> \<le> 255" "\<bar>snd d\<bar> \<le> 255" by (simp_all add: chebyshev_def)
  then have "sint (word_of_int (fst d) :: i32w) = fst d" "sint (word_of_int (snd d) :: i32w) = snd d"
    by (simp_all add: signed_of_int signed_take_bit_int_eq_self)
  then show ?thesis by (simp add: chunk_dist_def offset_chunk_def)
qed

lemma offset_chunk_back: "offset_chunk p (sint (cx q - cx p), sint (cz q - cz p)) = q"
  by (cases q) (simp add: offset_chunk_def)

lemma constants:
  "RADIUS_AROUND_FULL_CHUNK = 11" "MAX_LEVEL_RAW = 141" "FULL_CHUNK_LEVEL_RAW = 130"
  "BLOCK_TICKING_CHUNK = 129" "ENTITY_TICKING_CHUNK = 128"
proof -
  show r: "RADIUS_AROUND_FULL_CHUNK = 11" by code_simp
  show "FULL_CHUNK_LEVEL_RAW = 130" "BLOCK_TICKING_CHUNK = 129" "ENTITY_TICKING_CHUNK = 128"
    by (simp_all add: FULL_CHUNK_LEVEL_RAW_def BLOCK_TICKING_CHUNK_def ENTITY_TICKING_CHUNK_def MAX_SUPPORTED_VIEW_DISTANCE_def)
  then show "MAX_LEVEL_RAW = 141" by (simp add: MAX_LEVEL_RAW_def r)
qed

lemma source_entries_at:
  assumes "radius \<le> 141 - level"
  shows "entries_at q (source_entries p level radius) =
    (if chunk_dist p q \<le> radius \<and> level \<le> 141 then {level + chunk_dist p q} else {})"
proof -
  have r: "radius \<le> 255" using assms by simp
  have "l \<in> entries_at q (source_entries p level radius) \<longleftrightarrow>
      (\<exists>d. chebyshev d \<le> radius \<and> offset_chunk p d = q \<and> with_distance level (chebyshev d mod 256) = Some l)" for l
    by (auto simp: entries_at_def source_entries_def set_map_filter set_square)
  moreover have "(\<exists>d. chebyshev d \<le> radius \<and> offset_chunk p d = q \<and> with_distance level (chebyshev d mod 256) = Some l) \<longleftrightarrow>
      chunk_dist p q \<le> radius \<and> with_distance level (chunk_dist p q mod 256) = Some l" (is "?L \<longleftrightarrow> ?R") for l
  proof
    assume ?L
    then obtain d where d: "chebyshev d \<le> radius" "offset_chunk p d = q" "with_distance level (chebyshev d mod 256) = Some l" by blast
    then have "chunk_dist p q = chebyshev d" using chebyshev_fits [of d p] r by simp
    then show ?R using d by simp
  next
    assume ?R
    then show ?L using offset_chunk_back [of p q] unfolding chunk_dist_def by blast
  qed
  moreover have "with_distance level (n mod 256) = Some l \<longleftrightarrow> level \<le> 141 \<and> l = level + n" if "n \<le> radius" for n l
    using that assms r by (auto simp: with_distance_def level_new_def constants)
  ultimately show ?thesis by auto
qed


section \<open>The propagated levels\<close>

text \<open>The levels that the tickets of a position send out, for loading and for simulation.\<close>

definition load_source :: "chunk_ticket list \<Rightarrow> nat option" where
  "load_source ts = least (load_level ` set ts)"

definition simulation_source :: "chunk_ticket list \<Rightarrow> nat option" where
  "simulation_source ts = least {l. \<exists>t \<in> set ts. simulation_level t = Some l}"

definition within :: "nat \<Rightarrow> nat \<Rightarrow> nat \<Rightarrow> bool" where
  "within bound l n \<longleftrightarrow> l + n \<le> bound \<or> (n = 0 \<and> l \<le> 141)"

definition reach :: "(chunk_ticket list \<Rightarrow> nat option) \<Rightarrow> nat \<Rightarrow> (chunk_pos \<times> chunk_ticket list) list \<Rightarrow> chunk_pos \<Rightarrow> nat set" where
  "reach source bound tickets q =
     (\<Union>(p, ts) \<in> set tickets. {l + chunk_dist p q | l. source ts = Some l \<and> within bound l (chunk_dist p q)})"

lemma sources: "min_of (map load_level ts) = load_source ts"
  "min_of (List.map_filter simulation_level ts) = simulation_source ts"
proof -
  show "min_of (map load_level ts) = load_source ts" by (simp add: min_of_least load_source_def)
  have "set (List.map_filter simulation_level ts) = {l. \<exists>t \<in> set ts. simulation_level t = Some l}"
    by (auto simp: set_map_filter)
  then show "min_of (List.map_filter simulation_level ts) = simulation_source ts"
    by (simp add: min_of_least simulation_source_def)
qed

lemma load_none: "load_source ts = None \<longleftrightarrow> ts = []" "simulation_source [] = None"
  by (simp_all add: load_source_def simulation_source_def least_None)

lemma reach_Cons:
  "reach source bound ((p, ts) # tickets) q =
     {l + chunk_dist p q | l. source ts = Some l \<and> within bound l (chunk_dist p q)} \<union> reach source bound tickets q"
  by (simp add: reach_def)

lemma load_entries_at:
  "entries_at q (source_entries p l (distance_to_max l)) = {k + chunk_dist p q | k. k = l \<and> within 141 k (chunk_dist p q)}"
  by (subst source_entries_at) (auto simp: distance_to_max_def constants within_def)

lemma simulation_entries_at:
  "entries_at q (source_entries p l (distance_to_block_ticking l)) = {k + chunk_dist p q | k. k = l \<and> within 129 k (chunk_dist p q)}"
  by (subst source_entries_at) (auto simp: distance_to_block_ticking_def constants within_def)

lemma propagate_all:
  assumes "map_of (fst maps) q = least C" "map_of (snd maps) q = least D"
  shows "map_of (fst (fold propagate_source tickets maps)) q = least (C \<union> reach load_source 141 tickets q) \<and>
    map_of (snd (fold propagate_source tickets maps)) q = least (D \<union> reach simulation_source 129 tickets q)"
  using assms
proof (induction tickets arbitrary: maps C D)
  case Nil
  then show ?case by (simp add: reach_def)
next
  case (Cons e tickets)
  obtain p ts where e: "e = (p, ts)" by fastforce
  let ?C = "C \<union> {l + chunk_dist p q | l. load_source ts = Some l \<and> within 141 l (chunk_dist p q)}"
  let ?D = "D \<union> {l + chunk_dist p q | l. simulation_source ts = Some l \<and> within 129 l (chunk_dist p q)}"
  have "map_of (fst (propagate_source e maps)) q = least ?C \<and> map_of (snd (propagate_source e maps)) q = least ?D"
  proof (cases "load_source ts")
    case None
    then have "simulation_source ts = None" using load_none by simp
    then show ?thesis using None Cons.prems by (simp add: propagate_source_def e sources)
  next
    case (Some l)
    have "map_of (fold lower_level (source_entries p l (distance_to_max l)) (fst maps)) q = least ?C"
      using fold_lower [OF Cons.prems(1), of "source_entries p l (distance_to_max l)"] Some by (simp add: load_entries_at)
    moreover have "map_of (fold lower_level (source_entries p s (distance_to_block_ticking s)) (snd maps)) q = least ?D"
      if "simulation_source ts = Some s" for s
      using fold_lower [OF Cons.prems(2), of "source_entries p s (distance_to_block_ticking s)"] that
      by (simp add: simulation_entries_at)
    ultimately show ?thesis using Some Cons.prems(2)
      by (cases "simulation_source ts") (simp_all add: propagate_source_def e sources Let_def)
  qed
  then have "map_of (fst (fold propagate_source (e # tickets) maps)) q = least (?C \<union> reach load_source 141 tickets q) \<and>
      map_of (snd (fold propagate_source (e # tickets) maps)) q = least (?D \<union> reach simulation_source 129 tickets q)"
    using Cons.IH [of "propagate_source e maps" ?C ?D] by simp
  then show ?case by (simp only: e reach_Cons Un_assoc)
qed

lemma distinct_propagate:
  "distinct (map fst (fst maps)) \<Longrightarrow> distinct (map fst (snd maps)) \<Longrightarrow>
    distinct (map fst (fst (fold propagate_source tickets maps))) \<and> distinct (map fst (snd (fold propagate_source tickets maps)))"
proof (induction tickets arbitrary: maps)
  case (Cons e tickets)
  have "distinct (map fst (fst (propagate_source e maps)))" "distinct (map fst (snd (propagate_source e maps)))"
    using Cons.prems by (auto simp: propagate_source_def Let_def distinct_fold_lower split: option.split)
  then show ?case using Cons.IH [of "propagate_source e maps"] by simp
qed simp

lemma run_all_updates_levels:
  assumes "tm_dirty m"
  shows "get_level (run_all_updates m) q = least (reach load_source 141 (tm_tickets m) q)"
    "get_simulation_level (run_all_updates m) q = least (reach simulation_source 129 (tm_tickets m) q)"
  using propagate_all [of "([], [])" q "{}" "{}" "tm_tickets m"] assms
  by (cases "fold propagate_source (tm_tickets m) ([], [])";
      simp add: run_all_updates_def get_level_def get_simulation_level_def least_def [of "{}"])+

section \<open>Invariant\<close>

text \<open>
  A ticket's simulation does not reach beyond its loading; every constructor obeys it. A manager that
  is not dirty holds the propagated levels.
\<close>

definition ticket_ok :: "chunk_ticket \<Rightarrow> bool" where
  "ticket_ok t \<longleftrightarrow> load_level t \<le> 141 \<and> (\<forall>s. simulation_level t = Some s \<longrightarrow> s \<le> 141 \<and> load_level t \<le> s + 12)"

definition levels_of :: "(chunk_pos \<times> chunk_ticket list) list \<Rightarrow> chunk_pos \<Rightarrow> nat option \<times> nat option" where
  "levels_of tickets q = (least (reach load_source 141 tickets q), least (reach simulation_source 129 tickets q))"

definition tm_ok :: "ticket_manager \<Rightarrow> bool" where
  "tm_ok m \<longleftrightarrow>
     distinct (map fst (tm_tickets m)) \<and> (\<forall>(p, ts) \<in> set (tm_tickets m). ts \<noteq> [] \<and> (\<forall>t \<in> set ts. ticket_ok t)) \<and>
     distinct (map fst (tm_levels m)) \<and> distinct (map fst (tm_simulation m)) \<and>
     (\<forall>q. get_simulation_level m q \<noteq> None \<longrightarrow> get_level m q \<noteq> None) \<and>
     (\<not> tm_dirty m \<longrightarrow> (\<forall>q. (get_level m q, get_simulation_level m q) = levels_of (tm_tickets m) q))"

lemma ticket_constructors_ok:
  "l \<le> 141 \<Longrightarrow> ticket_ok (loading l)" "ticket_ok (full_chunks r)" "ticket_ok (simulated_full_chunks r)"
  "ticket_ok (full_chunks_with_entity_ticking a b)" "ticket_ok (player_ticket a b)"
  by (auto simp: ticket_ok_def loading_def full_chunks_def simulated_full_chunks_def full_chunks_with_entity_ticking_def
      player_ticket_def for_full_chunk_radius_def for_entity_ticking_radius_def constants Let_def)

lemma simulation_within_load:
  assumes "\<forall>(p, ts) \<in> set tickets. \<forall>t \<in> set ts. ticket_ok t" "l \<in> reach simulation_source 129 tickets q"
  shows "\<exists>k \<in> reach load_source 141 tickets q. k \<le> l + 12"
proof -
  obtain p ts s where s: "(p, ts) \<in> set tickets" "simulation_source ts = Some s" "within 129 s (chunk_dist p q)"
      "l = s + chunk_dist p q"
    using assms(2) by (auto simp: reach_def)
  then obtain t where t: "t \<in> set ts" "simulation_level t = Some s" by (auto simp: simulation_source_def least_Some)
  then have ok: "ticket_ok t" using assms(1) s(1) by blast
  obtain k where k: "load_source ts = Some k" using t(1) load_none(1) [of ts] by (cases "load_source ts") auto
  then have "k \<le> load_level t" using t(1) by (auto simp: load_source_def least_Some)
  then have le: "k \<le> s + 12" "k \<le> 141" using ok t(2) by (auto simp: ticket_ok_def)
  then have "within 141 k (chunk_dist p q)" using s(3) by (auto simp: within_def)
  then have "k + chunk_dist p q \<in> reach load_source 141 tickets q" using s(1) k by (auto simp: reach_def)
  then show ?thesis using le(1) s(4) by (intro bexI [of _ "k + chunk_dist p q"]) simp_all
qed

end
