(* ===== verification/TicketProps.thy ===== *)
theory TicketProps
  imports TicketPropagate
begin

text \<open>
  The operations keep the manager's invariant; what its levels and change lists promise; and that the
  levels and the pyramid fit together: whatever a chunk is allowed to become, its neighbours are
  allowed to become what its steps ask of them.
\<close>

section \<open>Operations keep the invariant\<close>

lemma alist_update_set:
  "distinct (map fst al) \<Longrightarrow> set (AList.update k v al) = insert (k, v) {e \<in> set al. fst e \<noteq> k}"
  by (induction al) (auto simp: image_iff)

lemma get_set: "distinct (map fst al) \<Longrightarrow> map_of al k = Some v \<Longrightarrow> (k, v) \<in> set al"
  by (simp add: map_of_eq_Some_iff)

lemma delete_set: "set (AList.delete k al) = {e \<in> set al. fst e \<noteq> k}"
  by (auto simp: AList.delete_eq)

lemma tm_ok_tickets:
  "tm_ok m \<Longrightarrow> distinct (map fst tickets) \<Longrightarrow> \<forall>(p, ts) \<in> set tickets. ts \<noteq> [] \<and> (\<forall>t \<in> set ts. ticket_ok t) \<Longrightarrow>
    tm_ok (m\<lparr>tm_tickets := tickets, tm_dirty := True\<rparr>)"
  by (simp add: tm_ok_def get_level_def get_simulation_level_def del: map_of_eq_Some_iff)

lemma tm_ok_at: "tm_ok m \<Longrightarrow> map_of (tm_tickets m) p = Some ts \<Longrightarrow> t \<in> set ts \<Longrightarrow> ticket_ok t"
  using get_set [of "tm_tickets m" p ts] by (fastforce simp: tm_ok_def)

lemma add_ticket_ok: "tm_ok m \<Longrightarrow> ticket_ok t \<Longrightarrow> tm_ok (add_ticket p t m)"
proof -
  assume ok: "tm_ok m" "ticket_ok t"
  then have d: "distinct (map fst (tm_tickets m))" by (simp add: tm_ok_def)
  let ?ts = "(case map_of (tm_tickets m) p of None \<Rightarrow> [] | Some ts \<Rightarrow> ts) @ [t]"
  have "\<forall>t \<in> set ?ts. ticket_ok t"
    using ok tm_ok_at [OF ok(1), of p] by (cases "map_of (tm_tickets m) p") auto
  then have "\<forall>(p, ts) \<in> set (AList.update p ?ts (tm_tickets m)). ts \<noteq> [] \<and> (\<forall>t \<in> set ts. ticket_ok t)"
    using ok(1) by (auto simp: alist_update_set [OF d] tm_ok_def)
  from tm_ok_tickets [OF ok(1) distinct_update [OF d] this] show ?thesis by (simp only: add_ticket_def)
qed

lemma delete_ok: "tm_ok m \<Longrightarrow> tm_ok (m\<lparr>tm_tickets := AList.delete p (tm_tickets m), tm_dirty := True\<rparr>)"
  by (rule tm_ok_tickets) (auto simp: delete_set tm_ok_def distinct_delete)

lemma remove_all_tickets_at_ok: "tm_ok m \<Longrightarrow> tm_ok (snd (remove_all_tickets_at p m))"
  using delete_ok [of m p] by (simp add: remove_all_tickets_at_def)

lemma swap_remove_set: "i < length xs \<Longrightarrow> set (swap_remove i xs) \<subseteq> set xs"
  using mset_eq_setD [OF swap_remove_mset] by fastforce

lemma remove_ticket_ok: "tm_ok m \<Longrightarrow> tm_ok (snd (remove_ticket p t m))"
proof -
  assume ok: "tm_ok m"
  then have d: "distinct (map fst (tm_tickets m))" by (simp add: tm_ok_def)
  show ?thesis
  proof (cases "map_of (tm_tickets m) p")
    case None
    then show ?thesis using ok by (simp add: remove_ticket_def)
  next
    case (Some ts)
    show ?thesis
    proof (cases "position (\<lambda>stored. stored = t) ts")
      case None
      then show ?thesis using ok Some by (simp add: remove_ticket_def)
    next
      case (Some i)
      let ?ts = "swap_remove i ts"
      have "i < length ts" using position_Some [OF Some] by simp
      from swap_remove_set [OF this] have "\<forall>t \<in> set ?ts. ticket_ok t"
        using tm_ok_at [OF ok \<open>map_of (tm_tickets m) p = Some ts\<close>] by auto
      then have "\<forall>(p, ts) \<in> set (AList.update p ?ts (tm_tickets m)). ts \<noteq> [] \<and> (\<forall>t \<in> set ts. ticket_ok t)"
        if "?ts \<noteq> []" using ok that by (auto simp: alist_update_set [OF d] tm_ok_def)
      from tm_ok_tickets [OF ok distinct_update [OF d] this]
      have "?ts \<noteq> [] \<Longrightarrow> tm_ok (m\<lparr>tm_tickets := AList.update p ?ts (tm_tickets m), tm_dirty := True\<rparr>)" .
      then show ?thesis
        using delete_ok [OF ok, of p] Some \<open>map_of (tm_tickets m) p = Some ts\<close> by (simp add: remove_ticket_def Let_def)
    qed
  qed
qed

lemma tm_new_ok: "tm_ok tm_new"
  by (simp add: tm_ok_def tm_new_def get_level_def get_simulation_level_def levels_of_def reach_def least_None [THEN iffD2, OF refl])

lemma run_all_updates_ok:
  assumes "tm_ok m"
  shows "tm_ok (run_all_updates m)" "\<not> tm_dirty (run_all_updates m)" "tm_tickets (run_all_updates m) = tm_tickets m"
    "(get_level (run_all_updates m) q, get_simulation_level (run_all_updates m) q) = levels_of (tm_tickets m) q"
proof -
  show t: "tm_tickets (run_all_updates m) = tm_tickets m" "\<not> tm_dirty (run_all_updates m)"
    by (simp_all add: run_all_updates_def split: prod.split)
  have lv: "(get_level (run_all_updates m) q, get_simulation_level (run_all_updates m) q) = levels_of (tm_tickets m) q" for q
  proof (cases "tm_dirty m")
    case True
    then show ?thesis using run_all_updates_levels [OF True, of q] by (simp add: levels_of_def)
  next
    case False
    then show ?thesis using assms by (simp add: run_all_updates_def tm_ok_def get_level_def get_simulation_level_def)
  qed
  then show "(get_level (run_all_updates m) q, get_simulation_level (run_all_updates m) q) = levels_of (tm_tickets m) q" .
  have ok: "\<forall>(p, ts) \<in> set (tm_tickets m). \<forall>t \<in> set ts. ticket_ok t" using assms by (auto simp: tm_ok_def)
  have "get_level (run_all_updates m) q \<noteq> None" if "get_simulation_level (run_all_updates m) q \<noteq> None" for q
  proof -
    have "reach simulation_source 129 (tm_tickets m) q \<noteq> {}"
      using that lv [of q] least_None [of "reach simulation_source 129 (tm_tickets m) q"] by (auto simp: levels_of_def)
    then have "reach load_source 141 (tm_tickets m) q \<noteq> {}" using simulation_within_load [OF ok] by blast
    then show ?thesis using lv [of q] least_None [of "reach load_source 141 (tm_tickets m) q"] by (auto simp: levels_of_def)
  qed
  moreover have "distinct (map fst (tm_levels (run_all_updates m)))" "distinct (map fst (tm_simulation (run_all_updates m)))"
    using assms distinct_propagate [of "([], [])" "tm_tickets m"]
    by (auto simp: run_all_updates_def tm_ok_def split: prod.split)
  ultimately show "tm_ok (run_all_updates m)" using assms t lv by (auto simp: tm_ok_def)
qed

section \<open>The change list\<close>

definition view :: "ticket_manager \<Rightarrow> chunk_pos \<Rightarrow> nat option \<times> nat option" where
  "view m q = (get_level m q, get_simulation_level m q)"

definition follow :: "level_change list \<Rightarrow> (chunk_pos \<Rightarrow> nat option \<times> nat option) \<Rightarrow> chunk_pos \<Rightarrow> nat option \<times> nat option" where
  "follow = fold (\<lambda>c v. v(lc_pos c := (lc_level c, lc_simulation c)))"

lemma follow_at:
  "\<forall>c \<in> set cs. lc_pos c = q \<longrightarrow> (lc_level c, lc_simulation c) = w \<Longrightarrow> (\<exists>c \<in> set cs. lc_pos c = q) \<or> v q = w \<Longrightarrow>
     follow cs v q = w"
  by (induction cs arbitrary: v) (auto simp: follow_def)

lemma distinct_changes:
  "distinct (map fst al) \<Longrightarrow> (\<And>x c. f x = Some c \<Longrightarrow> lc_pos c = fst x) \<Longrightarrow> distinct (map lc_pos (List.map_filter f al))"
proof (induction al)
  case (Cons x al)
  show ?case
  proof (cases "f x")
    case (Some c)
    have "lc_pos c \<notin> lc_pos ` set (List.map_filter f al)"
    proof
      assume "lc_pos c \<in> lc_pos ` set (List.map_filter f al)"
      then obtain y c' where "y \<in> set al" "f y = Some c'" "lc_pos c' = lc_pos c" by (auto simp: set_map_filter)
      then have "fst x \<in> fst ` set al" using Cons.prems(2) Some by (metis imageI)
      then show False using Cons.prems(1) by simp
    qed
    then show ?thesis using Some Cons by (simp add: List.map_filter_simps)
  qed (use Cons in \<open>simp add: List.map_filter_simps\<close>)
qed (simp add: List.map_filter_simps)

lemma map_filter_at:
  assumes "distinct (map fst al)" "\<And>x c. f x = Some c \<Longrightarrow> lc_pos c = fst x"
  shows "c \<in> set (List.map_filter f al) \<longleftrightarrow> (\<exists>l. map_of al (lc_pos c) = Some l \<and> f (lc_pos c, l) = Some c)"
proof
  assume "c \<in> set (List.map_filter f al)"
  then obtain p l where "(p, l) \<in> set al" "f (p, l) = Some c" by (auto simp: set_map_filter)
  then show "\<exists>l. map_of al (lc_pos c) = Some l \<and> f (lc_pos c, l) = Some c" using assms(1) assms(2) [of "(p, l)" c] by auto
qed (auto simp: set_map_filter dest: map_of_SomeD)

lemma level_changes_iff:
  assumes "distinct (map fst old)" "distinct (map fst old_sim)" "distinct (map fst new)" "distinct (map fst sim)"
  shows "c \<in> set (level_changes old old_sim new sim) \<longleftrightarrow>
    (let p = lc_pos c in
      (map_of new p \<noteq> None \<and> map_of old p \<noteq> map_of new p \<and> lc_level c = map_of new p \<and> lc_simulation c = map_of sim p) \<or>
      (map_of new p = None \<and> map_of old p \<noteq> None \<and> lc_level c = None \<and> lc_simulation c = None) \<or>
      (map_of old p = map_of new p \<and> map_of old_sim p \<noteq> map_of sim p \<and> lc_level c = map_of new p \<and> lc_simulation c = map_of sim p))"
proof -
  show ?thesis
    unfolding level_changes_def record_simulation_only_changes_def set_append Un_iff
    apply (subst map_filter_at [OF assms(3)], (force split: if_splits)[1])
    apply (subst map_filter_at [OF assms(1)], (force split: if_splits)[1])
    apply (subst map_filter_at [OF assms(4)], (force split: if_splits)[1])
    apply (subst map_filter_at [OF assms(2)], (force split: if_splits)[1])
    by (cases c; cases "map_of new (lc_pos c)"; cases "map_of old (lc_pos c)"; cases "map_of sim (lc_pos c)";
        cases "map_of old_sim (lc_pos c)"; auto simp: Let_def split: if_splits)
qed


lemma level_changes_distinct:
  assumes "distinct (map fst old)" "distinct (map fst old_sim)" "distinct (map fst new)" "distinct (map fst sim)"
  shows "distinct (map lc_pos (level_changes old old_sim new sim))"
proof -
  let ?F = "\<lambda>(p, l). if map_of old p = Some l then None
         else Some \<lparr>lc_pos = p, lc_level = Some l, lc_simulation = map_of sim p\<rparr>"
  let ?G = "\<lambda>(p, _). if map_of new p \<noteq> None then None
         else Some \<lparr>lc_pos = p, lc_level = None, lc_simulation = None\<rparr>"
  let ?H = "\<lambda>(p, l). if map_of old p \<noteq> map_of new p then None
         else if map_of old_sim p = Some l then None
         else Some \<lparr>lc_pos = p, lc_level = map_of new p, lc_simulation = Some l\<rparr>"
  let ?K = "\<lambda>(p, _). if map_of old p \<noteq> map_of new p \<or> map_of sim p \<noteq> None then None
         else Some \<lparr>lc_pos = p, lc_level = map_of new p, lc_simulation = None\<rparr>"
  have pos: "\<And>x c. ?F x = Some c \<Longrightarrow> lc_pos c = fst x" "\<And>x c. ?G x = Some c \<Longrightarrow> lc_pos c = fst x"
      "\<And>x c. ?H x = Some c \<Longrightarrow> lc_pos c = fst x" "\<And>x c. ?K x = Some c \<Longrightarrow> lc_pos c = fst x"
    by (force split: if_splits)+
  note d = distinct_changes [OF assms(3) pos(1)] distinct_changes [OF assms(1) pos(2)]
    distinct_changes [OF assms(4) pos(3)] distinct_changes [OF assms(2) pos(4)]
  let ?kind = "\<lambda>p. (map_of old p = map_of new p, map_of new p = None, map_of sim p = None)"
  have some: "map_of al k \<noteq> None" if "(k, v) \<in> set al" for al :: level_map and k v
    using that by (simp add: map_of_eq_None_iff image_iff) force
  have F: "?kind ` set (map lc_pos (List.map_filter ?F new)) \<subseteq> {False} \<times> {False} \<times> UNIV"
  proof clarsimp
    fix c assume "c \<in> set (List.map_filter ?F new)"
    then obtain l where "(lc_pos c, l) \<in> set new" "map_of old (lc_pos c) \<noteq> Some l"
      by (auto simp: set_map_filter split: if_splits)
    then show "map_of old (lc_pos c) \<noteq> map_of new (lc_pos c) \<and> (\<exists>y. map_of new (lc_pos c) = Some y)"
      using map_of_is_SomeI [OF assms(3)] by auto
  qed
  have G: "?kind ` set (map lc_pos (List.map_filter ?G old)) \<subseteq> {False} \<times> {True} \<times> UNIV"
    by (clarsimp simp: set_map_filter split: if_splits) (use some in force)
  have H: "?kind ` set (map lc_pos (List.map_filter ?H sim)) \<subseteq> {True} \<times> UNIV \<times> {False}"
    by (clarsimp simp: set_map_filter split: if_splits) (use some in force)
  have K: "?kind ` set (map lc_pos (List.map_filter ?K old_sim)) \<subseteq> {True} \<times> UNIV \<times> {True}"
    by (clarsimp simp: set_map_filter split: if_splits)
  have dis: "A \<inter> B = {}" if "?kind ` A \<subseteq> X" "?kind ` B \<subseteq> Y" "X \<inter> Y = {}" for A B X Y
    using that by (auto simp only: disjoint_iff image_subset_iff)
  have "set (map lc_pos (List.map_filter ?F new)) \<inter> set (map lc_pos (List.map_filter ?G old)) = {}"
    "set (map lc_pos (List.map_filter ?F new)) \<inter> set (map lc_pos (List.map_filter ?H sim)) = {}"
    "set (map lc_pos (List.map_filter ?F new)) \<inter> set (map lc_pos (List.map_filter ?K old_sim)) = {}"
    "set (map lc_pos (List.map_filter ?G old)) \<inter> set (map lc_pos (List.map_filter ?H sim)) = {}"
    "set (map lc_pos (List.map_filter ?G old)) \<inter> set (map lc_pos (List.map_filter ?K old_sim)) = {}"
    "set (map lc_pos (List.map_filter ?H sim)) \<inter> set (map lc_pos (List.map_filter ?K old_sim)) = {}"
    by (rule dis [OF F G] dis [OF F H] dis [OF F K] dis [OF G H] dis [OF G K] dis [OF H K]; auto)+
  then show ?thesis
    unfolding level_changes_def record_simulation_only_changes_def map_append distinct_append set_append
      Int_Un_distrib using d by (simp only: Un_empty simp_thms)
qed


lemma run_all_updates_view:
  assumes "tm_ok m"
  shows "follow (tm_changes (run_all_updates m)) (view m) q = view (run_all_updates m) q"
    "distinct (map lc_pos (tm_changes (run_all_updates m)))"
    "c \<in> set (tm_changes (run_all_updates m)) \<Longrightarrow> view m (lc_pos c) \<noteq> view (run_all_updates m) (lc_pos c)"
proof -
  let ?new = "tm_levels (run_all_updates m)" and ?sim = "tm_simulation (run_all_updates m)"
  have ok: "tm_ok (run_all_updates m)" by (rule run_all_updates_ok(1) [OF assms])
  have d: "distinct (map fst (tm_levels m))" "distinct (map fst (tm_simulation m))" "distinct (map fst ?new)"
      "distinct (map fst ?sim)" using assms ok by (simp_all add: tm_ok_def)
  have cs: "tm_changes (run_all_updates m) = level_changes (tm_levels m) (tm_simulation m) ?new ?sim" if "tm_dirty m"
    using that by (simp add: run_all_updates_def split: prod.split)
  have clean: "tm_changes (run_all_updates m) = []" "view (run_all_updates m) = view m" if "\<not> tm_dirty m"
    using that by (simp_all add: run_all_updates_def view_def get_level_def get_simulation_level_def fun_eq_iff)
  note iff = level_changes_iff [OF d, unfolded Let_def]
  have sim: "map_of ?sim p = None" if "map_of ?new p = None" for p
    using ok that by (auto simp: tm_ok_def get_level_def get_simulation_level_def simp del: map_of_eq_Some_iff)
  have v: "view m p = (map_of (tm_levels m) p, map_of (tm_simulation m) p)"
      "view (run_all_updates m) p = (map_of ?new p, map_of ?sim p)" for p
    by (simp_all add: view_def get_level_def get_simulation_level_def)
  have at: "(lc_level c, lc_simulation c) = view (run_all_updates m) (lc_pos c) \<and> view m (lc_pos c) \<noteq> view (run_all_updates m) (lc_pos c)"
    if "tm_dirty m" "c \<in> set (tm_changes (run_all_updates m))" for c
    using that(2) sim unfolding cs [OF that(1)] iff v by auto
  have hit: "\<exists>c \<in> set (tm_changes (run_all_updates m)). lc_pos c = p"
    if "tm_dirty m" "view m p \<noteq> view (run_all_updates m) p" for p
  proof
    let ?c = "\<lparr>lc_pos = p, lc_level = map_of ?new p, lc_simulation = map_of ?sim p\<rparr>"
    show "?c \<in> set (tm_changes (run_all_updates m))"
      using that(2) sim [of p] unfolding cs [OF that(1)] iff v by auto
  qed simp
  show "follow (tm_changes (run_all_updates m)) (view m) q = view (run_all_updates m) q"
  proof (cases "tm_dirty m")
    case True
    then show ?thesis using at [OF True] hit [OF True] by (intro follow_at) auto
  next
    case False
    then show ?thesis by (simp add: clean follow_def)
  qed
  show "distinct (map lc_pos (tm_changes (run_all_updates m)))"
    using level_changes_distinct [OF d] cs clean(1) by (cases "tm_dirty m") simp_all
  show "c \<in> set (tm_changes (run_all_updates m)) \<Longrightarrow> view m (lc_pos c) \<noteq> view (run_all_updates m) (lc_pos c)"
    using at clean(1) by (cases "tm_dirty m") auto
qed

end
