(* ===== verification/TicketReach.thy ===== *)
theory TicketReach
  imports TicketProps
begin

text \<open>
  What the levels mean for chunk generation: they are the least reach of the single tickets, they grow by
  at most the distance, and so they keep the dependencies of the generation pyramid: whatever a chunk is
  allowed to become, its neighbours are allowed to become what its steps ask of them.
\<close>

section \<open>The reach of single tickets\<close>

definition ticket_reach :: "(chunk_ticket \<Rightarrow> nat option) \<Rightarrow> nat \<Rightarrow> (chunk_pos \<times> chunk_ticket list) list \<Rightarrow> chunk_pos \<Rightarrow> nat set" where
  "ticket_reach level bound tickets q =
     {l + chunk_dist p q | l p ts t. (p, ts) \<in> set tickets \<and> t \<in> set ts \<and> level t = Some l \<and> within bound l (chunk_dist p q)}"

lemma least_cofinal: "C \<subseteq> D \<Longrightarrow> (\<And>d. d \<in> D \<Longrightarrow> \<exists>c \<in> C. c \<le> d) \<Longrightarrow> least C = least D"
proof (cases "C = {}")
  case False
  assume sub: "C \<subseteq> D" and cof: "\<And>d. d \<in> D \<Longrightarrow> \<exists>c \<in> C. c \<le> d"
  obtain l where l: "least C = Some l" using False least_None by (cases "least C") auto
  then have "l \<in> D" "\<forall>d \<in> D. l \<le> d" using sub cof by (auto simp: least_Some) (meson le_trans)
  then have "least D = Some l" by (simp add: least_Some)
  then show ?thesis using l by simp
next
  case True
  assume "\<And>d. d \<in> D \<Longrightarrow> \<exists>c \<in> C. c \<le> d"
  then have "D = {}" using True by blast
  then show ?thesis using True by simp
qed

lemma within_mono: "within b l n \<Longrightarrow> k \<le> l \<Longrightarrow> within b k n"
  by (auto simp: within_def)

lemma reach_tickets:
  assumes "\<And>ts. source ts = least {l. \<exists>t \<in> set ts. level t = Some l}"
  shows "least (reach source bound tickets q) = least (ticket_reach level bound tickets q)"
proof (rule least_cofinal)
  show "reach source bound tickets q \<subseteq> ticket_reach level bound tickets q"
    by (fastforce simp: reach_def ticket_reach_def assms least_Some)
  fix d assume "d \<in> ticket_reach level bound tickets q"
  then obtain l p ts t where d: "d = l + chunk_dist p q" "(p, ts) \<in> set tickets" "t \<in> set ts" "level t = Some l"
      "within bound l (chunk_dist p q)" by (auto simp: ticket_reach_def)
  then obtain k where k: "source ts = Some k" using least_None [of "{l. \<exists>t \<in> set ts. level t = Some l}"] assms [of ts]
    by (cases "source ts") auto
  then have "k \<le> l" using d assms [of ts] by (auto simp: least_Some)
  then show "\<exists>c \<in> reach source bound tickets q. c \<le> d"
    using d k within_mono [OF d(5)] by (intro bexI [of _ "k + chunk_dist p q"]) (auto simp: reach_def)
qed

lemma levels_of_tickets:
  "levels_of tickets q =
     (least (ticket_reach (Some \<circ> load_level) 141 tickets q), least (ticket_reach simulation_level 129 tickets q))"
proof -
  have "load_source ts = least {l. \<exists>t \<in> set ts. (Some \<circ> load_level) t = Some l}" for ts
    by (auto simp: load_source_def image_def intro: arg_cong [where f = least])
  then show ?thesis using reach_tickets [of load_source "Some \<circ> load_level" 141]
      reach_tickets [of simulation_source simulation_level 129] by (simp add: levels_of_def simulation_source_def)
qed

section \<open>Distances\<close>

lemma sint_abs_triangle: "\<bar>sint (a + b :: i32w)\<bar> \<le> \<bar>sint a\<bar> + \<bar>sint b\<bar>"
proof -
  have r: "- (2 ^ 31) \<le> sint (a + b)" "sint (a + b) < 2 ^ 31"
    using sint_greater_eq [of "a + b"] sint_less [of "a + b"] by simp_all
  show ?thesis
  proof (cases "- (2 ^ 31) \<le> sint a + sint b \<and> sint a + sint b < 2 ^ 31")
    case True
    then have "sint (a + b) = sint a + sint b"
      by (simp add: sint_word_ariths signed_take_bit_int_eq_self)
    then show ?thesis by simp
  next
    case False
    then have "2 ^ 31 \<le> \<bar>sint a\<bar> + \<bar>sint b\<bar>" by linarith
    then show ?thesis using r by simp
  qed
qed

lemma nat_max_triangle:
  fixes a b c a' b' c' :: int
  assumes "a \<le> b + c" "a' \<le> b' + c'" "0 \<le> b" "0 \<le> c"
  shows "nat (max a a') \<le> nat (max b b') + nat (max c c')"
proof -
  have "max a a' \<le> max b b' + max c c'" using assms(1,2) by (simp add: max_def)
  then have "nat (max a a') \<le> nat (max b b' + max c c')" by (rule nat_mono)
  also have "\<dots> = nat (max b b') + nat (max c c')" using assms(3,4) by (simp add: nat_add_distrib le_max_iff_disj)
  finally show ?thesis .
qed

lemma chunk_dist_triangle: "chunk_dist p r \<le> chunk_dist p q + chunk_dist q r"
proof -
  have "\<bar>sint (c - a :: i32w)\<bar> \<le> \<bar>sint (b - a)\<bar> + \<bar>sint (c - b)\<bar>" for a b c :: i32w
    using sint_abs_triangle [of "b - a" "c - b"] by simp
  from this [of "cx r" "cx p" "cx q"] this [of "cz r" "cz p" "cz q"] show ?thesis
    unfolding chunk_dist_def chebyshev_def fst_conv snd_conv by (intro nat_max_triangle) simp_all
qed

lemma level_spreads:
  assumes "fst (levels_of tickets p) = Some l" "l + chunk_dist p q \<le> 141"
  shows "\<exists>k. fst (levels_of tickets q) = Some k \<and> k \<le> l + chunk_dist p q"
proof -
  let ?R = "ticket_reach (Some \<circ> load_level) 141 tickets"
  have "l \<in> ?R p" using assms(1) by (simp add: levels_of_tickets least_Some)
  then obtain s r ts t where s: "l = s + chunk_dist r p" "(r, ts) \<in> set tickets" "t \<in> set ts" "load_level t = s"
    by (auto simp: ticket_reach_def)
  have le: "s + chunk_dist r q \<le> l + chunk_dist p q" using chunk_dist_triangle [of r q p] s(1) by simp
  then have "s + chunk_dist r q \<in> ?R q" using s assms(2) by (fastforce simp: ticket_reach_def within_def)
  moreover obtain k where k: "least (?R q) = Some k" using calculation least_None [of "?R q"] by (cases "least (?R q)") auto
  ultimately have "k \<le> s + chunk_dist r q" by (simp add: least_Some)
  then show ?thesis using k le by (simp add: levels_of_tickets)
qed

section \<open>Levels and statuses\<close>

definition covers :: "nat \<Rightarrow> chunk_status \<Rightarrow> bool" where
  "covers l s \<longleftrightarrow> meets (generation_status (Some l)) (Some s)"

lemma full_step_eval: "full_step_dependencies =
    \<lparr>dep_by_radius = [Some Spawn, Some InitializeLight, Some Carvers, Some Biomes, Some StructureStarts,
       Some StructureStarts, Some StructureStarts, Some StructureStarts, Some StructureStarts, Some StructureStarts,
       Some StructureStarts, Some StructureStarts, None, None, None, None],
     dep_len = 12, dep_radius_of = [11, 11, 3, 3, 2, 2, 2, 1, 1, 0, 0, 0]\<rparr>"
  by code_simp

lemma all_statuses_UNIV: "s \<in> set all_statuses"
  by (cases s) (simp_all add: all_statuses_def)

lemma level_of_status:
  "ticket_level_for_status s = [141, 141, 133, 133, 132, 132, 132, 131, 131, 130, 130, 130] ! status_index s"
  by (cases s) (simp_all add: ticket_level_for_status_def get_radius_of_def full_step_eval constants)

lemma level_of_status_bounds: "ticket_level_for_status s \<le> 141" "130 \<le> ticket_level_for_status s"
  by (cases s; simp add: level_of_status)+

text \<open>The status beyond the full radius, by the distance from it.\<close>

definition outer_status :: "nat \<Rightarrow> chunk_status option" where
  "outer_status k = (if k = 0 then Some Full else dep_get full_step_dependencies k)"

lemma generation_status_outer: "generation_status (Some l) = outer_status (l - 130)"
  by (simp add: outer_status_def generation_status_def level_is_full_def constants)

lemma outer_status_cases:
  "k = 0 \<and> outer_status k = Some Full \<or> k = 1 \<and> outer_status k = Some InitializeLight \<or> k = 2 \<and> outer_status k = Some Carvers \<or>
   k = 3 \<and> outer_status k = Some Biomes \<or> 4 \<le> k \<and> k \<le> 11 \<and> outer_status k = Some StructureStarts \<or>
   12 \<le> k \<and> outer_status k = None"
proof -
  consider "k \<in> set [0..<12]" | "12 \<le> k" by fastforce
  then show ?thesis
    by cases (auto simp: outer_status_def dep_get_def full_step_eval upt_rec)
qed

lemma covers_level: "covers l s \<longleftrightarrow> l \<le> ticket_level_for_status s"
  using outer_status_cases [of "l - 130"]
  by (cases s) (auto simp: covers_def generation_status_outer level_of_status less_eq_chunk_status_def)

section \<open>Dependencies are covered\<close>

text \<open>
  What the steps up to the status at one distance ask for, at all offsets: the statuses further out
  meet it.
\<close>

definition steps_met :: bool where
  "steps_met \<longleftrightarrow> (\<forall>s \<in> set all_statuses. \<forall>e \<in> set [0..<MAX_RADIUS].
     let need = dep_get (direct_dependencies (get_step_to GENERATION_PYRAMID s)) e in
     case need of None \<Rightarrow> True | Some n \<Rightarrow> \<forall>k \<in> set [0..<12]. k + 130 \<le> [141, 141, 133, 133, 132, 132, 132, 131, 131, 130, 130, 130] ! status_index s \<longrightarrow>
       k + e + 130 \<le> [141, 141, 133, 133, 132, 132, 132, 131, 131, 130, 130, 130 :: nat] ! status_index n)"

lemma steps_met_eval: "steps_met"
  by code_simp


lemma dependencies_covered:
  assumes "fst (levels_of tickets p) = Some l" "covers l s" "s' \<le> s"
    "dep_get (direct_dependencies (get_step_to GENERATION_PYRAMID s')) e = Some need" "e < MAX_RADIUS" "chunk_dist p q = e"
  shows "\<exists>k. fst (levels_of tickets q) = Some k \<and> covers k need"
proof -
  have l: "l \<le> ticket_level_for_status s'"
    using assms(2,3) unfolding covers_level
    by (cases s; cases s') (simp_all add: level_of_status less_eq_chunk_status_def)
  have met: "k + e + 130 \<le> ticket_level_for_status need" if "k < 12" "k + 130 \<le> ticket_level_for_status s'" for k
  proof -
    have "e \<in> set [0..<MAX_RADIUS]" using assms(5) by simp
    from bspec [OF bspec [OF steps_met_eval [unfolded steps_met_def] all_statuses_UNIV [of s']] this]
    show ?thesis using assms(4) that by (simp add: level_of_status Let_def)
  qed
  have top: "ticket_level_for_status s' \<le> 141" "ticket_level_for_status need \<le> 141" "130 \<le> ticket_level_for_status s'"
    using level_of_status_bounds by simp_all
  have "l + e \<le> ticket_level_for_status need" using met [of "l - 130"] l top by linarith
  moreover obtain k where "fst (levels_of tickets q) = Some k" "k \<le> l + e"
    using level_spreads [OF assms(1), of q] assms(6) calculation top by auto
  ultimately show ?thesis by (auto simp: covers_level)
qed

end
