(* ===== verification/TimedTickets.thy ===== *)
theory TimedTickets
  imports TicketReach
begin

text \<open>
  The timed tickets of \<open>foton-core/src/chunk/chunk_ticket_manager.rs\<close> (portals, spawn, ender pearls,
  teleports), which the world ticks, saves and restores, and how \<open>chunk_map/mod.rs\<close> turns their changes
  into operations on the ticket manager. The remaining ticks are an \<open>i64\<close>.
\<close>

section \<open>Tickets\<close>

definition PORTAL_TICKET_RADIUS :: nat where "PORTAL_TICKET_RADIUS = 3"
definition PORTAL_TICKET_TIMEOUT_TICKS :: i64w where "PORTAL_TICKET_TIMEOUT_TICKS = 300"
definition ENDER_PEARL_TICKET_TIMEOUT_TICKS :: u32 where "ENDER_PEARL_TICKET_TIMEOUT_TICKS = 40"
definition TELEPORT_TICKET_TIMEOUT_TICKS :: u32 where "TELEPORT_TICKET_TIMEOUT_TICKS = 100"
definition ENDER_PEARL_TICKET_RADIUS :: nat where "ENDER_PEARL_TICKET_RADIUS = 2"
definition I64_MAX :: i64w where "I64_MAX = 9223372036854775807"

definition portal_ticket :: chunk_ticket where "portal_ticket = simulated_full_chunks PORTAL_TICKET_RADIUS"
definition spawn_ticket :: chunk_ticket where "spawn_ticket = simulated_full_chunks 11"
definition ender_pearl_ticket :: chunk_ticket where
  "ender_pearl_ticket = simulated_full_chunks ENDER_PEARL_TICKET_RADIUS"
definition teleport_ticket :: chunk_ticket where "teleport_ticket = simulated_full_chunks 1"

datatype timed_kind = Portal | SpawnTicket | EnderPearl | Teleport

record timed_ticket =
  tt_kind :: timed_kind
  tt_pos :: chunk_pos
  tt_ticket :: chunk_ticket
  ticks_left :: i64w

datatype persistent_kind = PersistentPortal | PersistentSpawn

record persistent_ticket =
  pt_kind :: persistent_kind
  chunk_x :: i32w
  chunk_z :: i32w
  pt_ticks_left :: i64w

section \<open>Adding\<close>

definition add_or_reset :: "timed_kind \<Rightarrow> chunk_pos \<Rightarrow> chunk_ticket \<Rightarrow> i64w \<Rightarrow> timed_ticket list \<Rightarrow>
    chunk_ticket option \<times> timed_ticket list" where
  "add_or_reset kind p t ticks ts =
     (case position (\<lambda>e. tt_kind e = kind \<and> tt_pos e = p \<and> tt_ticket e = t) ts of
        Some i \<Rightarrow> (None, ts[i := (ts ! i)\<lparr>ticks_left := ticks\<rparr>])
      | None \<Rightarrow> (Some t, ts @ [\<lparr>tt_kind = kind, tt_pos = p, tt_ticket = t, ticks_left = ticks\<rparr>]))"

definition add_portal_ticket :: "chunk_pos \<Rightarrow> timed_ticket list \<Rightarrow> chunk_ticket option \<times> timed_ticket list" where
  "add_portal_ticket p = add_or_reset Portal p portal_ticket PORTAL_TICKET_TIMEOUT_TICKS"

definition add_spawn_ticket :: "chunk_pos \<Rightarrow> timed_ticket list \<Rightarrow> chunk_ticket option \<times> timed_ticket list" where
  "add_spawn_ticket p = add_or_reset SpawnTicket p spawn_ticket I64_MAX"

definition add_teleport_ticket :: "chunk_pos \<Rightarrow> timed_ticket list \<Rightarrow> chunk_ticket option \<times> timed_ticket list" where
  "add_teleport_ticket p = add_or_reset Teleport p teleport_ticket (ucast TELEPORT_TICKET_TIMEOUT_TICKS)"

definition add_ender_pearl_ticket :: "chunk_pos \<Rightarrow> timed_ticket list \<Rightarrow> chunk_ticket option \<times> timed_ticket list" where
  "add_ender_pearl_ticket p = add_or_reset EnderPearl p ender_pearl_ticket (ucast ENDER_PEARL_TICKET_TIMEOUT_TICKS)"

definition remove_spawn_ticket :: "chunk_pos \<Rightarrow> timed_ticket list \<Rightarrow> chunk_ticket option \<times> timed_ticket list" where
  "remove_spawn_ticket p ts =
     (case position (\<lambda>e. tt_kind e = SpawnTicket \<and> tt_pos e = p) ts of
        None \<Rightarrow> (None, ts)
      | Some i \<Rightarrow> (Some (tt_ticket (ts ! i)), swap_remove i ts))"

section \<open>Ticking\<close>

text \<open>The loop of \<open>tick\<close>, from an index; what a removal swaps in is looked at next.\<close>

function tick_tickets_from :: "(chunk_pos \<Rightarrow> bool) \<Rightarrow> nat \<Rightarrow> timed_ticket list \<Rightarrow> (chunk_pos \<times> chunk_ticket) list \<Rightarrow>
    timed_ticket list \<times> (chunk_pos \<times> chunk_ticket) list" where
  "tick_tickets_from can_expire i ts expired =
     (if i < length ts then
        (if \<not> can_expire (tt_pos (ts ! i)) then tick_tickets_from can_expire (Suc i) ts expired
         else
           (let left = ticks_left (ts ! i) - 1;
                ts = ts[i := (ts ! i)\<lparr>ticks_left := left\<rparr>] in
            if 0 \<le> sint left then tick_tickets_from can_expire (Suc i) ts expired
            else tick_tickets_from can_expire i (swap_remove i ts) (expired @ [(tt_pos (ts ! i), tt_ticket (ts ! i))])))
      else (ts, expired))"
  by auto
termination
  by (relation "measure (\<lambda>(c, i, ts, e). length ts - i)") (auto simp: swap_remove_def)

declare tick_tickets_from.simps [simp del]

definition tick_tickets :: "(chunk_pos \<Rightarrow> bool) \<Rightarrow> timed_ticket list \<Rightarrow> timed_ticket list \<times> (chunk_pos \<times> chunk_ticket) list" where
  "tick_tickets can_expire ts = tick_tickets_from can_expire 0 ts []"

section \<open>Persistence\<close>

definition to_persistent_ticket :: "timed_ticket \<Rightarrow> persistent_ticket option" where
  "to_persistent_ticket t =
     (case tt_kind t of
        Portal \<Rightarrow> Some \<lparr>pt_kind = PersistentPortal, chunk_x = cx (tt_pos t), chunk_z = cz (tt_pos t),
                        pt_ticks_left = ticks_left t\<rparr>
      | SpawnTicket \<Rightarrow> Some \<lparr>pt_kind = PersistentSpawn, chunk_x = cx (tt_pos t), chunk_z = cz (tt_pos t),
                        pt_ticks_left = I64_MAX\<rparr>
      | EnderPearl \<Rightarrow> None
      | Teleport \<Rightarrow> None)"

definition to_persistent :: "timed_ticket list \<Rightarrow> persistent_ticket list" where
  "to_persistent ts = List.map_filter to_persistent_ticket ts"

definition add_loaded_spawn_ticket :: "chunk_pos \<Rightarrow> timed_ticket list \<Rightarrow> timed_ticket list" where
  "add_loaded_spawn_ticket p ts =
     (if \<exists>e \<in> set ts. tt_kind e = SpawnTicket \<and> tt_pos e = p then ts
      else ts @ [\<lparr>tt_kind = SpawnTicket, tt_pos = p, tt_ticket = spawn_ticket, ticks_left = I64_MAX\<rparr>])"

definition add_loaded_portal_ticket :: "chunk_pos \<Rightarrow> i64w \<Rightarrow> timed_ticket list \<Rightarrow> timed_ticket list" where
  "add_loaded_portal_ticket p ticks ts =
     (case position (\<lambda>e. tt_kind e = Portal \<and> tt_pos e = p \<and> tt_ticket e = portal_ticket) ts of
        Some i \<Rightarrow> ts[i := (ts ! i)\<lparr>ticks_left := PORTAL_TICKET_TIMEOUT_TICKS\<rparr>]
      | None \<Rightarrow> ts @ [\<lparr>tt_kind = Portal, tt_pos = p, tt_ticket = portal_ticket, ticks_left = ticks\<rparr>])"

definition add_loaded_persistent_ticket :: "persistent_ticket \<Rightarrow> timed_ticket list \<Rightarrow> timed_ticket list" where
  "add_loaded_persistent_ticket t =
     (let p = \<lparr>cx = chunk_x t, cz = chunk_z t\<rparr> in
      case pt_kind t of
        PersistentPortal \<Rightarrow> add_loaded_portal_ticket p (pt_ticks_left t)
      | PersistentSpawn \<Rightarrow> add_loaded_spawn_ticket p)"

definition from_persistent :: "persistent_ticket list \<Rightarrow> timed_ticket list" where
  "from_persistent ps = fold add_loaded_persistent_ticket ps []"

definition activate_all :: "timed_ticket list \<Rightarrow> ticket_manager \<Rightarrow> ticket_manager" where
  "activate_all ts = fold (\<lambda>t. add_ticket (tt_pos t) (tt_ticket t)) ts"

end
