(* ===== verification/TicketQueue.thy ===== *)
theory TicketQueue
  imports TimedTickets
begin

text \<open>
  The queue of ticket operations and the epochs of \<open>foton-core/src/chunk/chunk_scheduler.rs\<close>, and the
  operations of \<open>chunk_map/mod.rs\<close> that feed it. The boundary of a tick hands the ticket manager to an epoch
  and takes it back; gameplay only ever queues.
\<close>

section \<open>Operations and revisions\<close>

datatype ticket_operation = AddTicket chunk_pos chunk_ticket | RemoveTicket chunk_pos chunk_ticket

fun apply_operation :: "ticket_operation \<Rightarrow> ticket_manager \<Rightarrow> ticket_manager" where
  "apply_operation (AddTicket p t) m = add_ticket p t m"
| "apply_operation (RemoveTicket p t) m = snd (remove_ticket p t m)"

text \<open>A revision is a \<open>u64\<close>; the assertion of \<open>next\<close> is the value None.\<close>

definition revision_next :: "u64 \<Rightarrow> u64 option" where
  "revision_next r = (if r = - 1 then None else Some (r + 1))"

record pending_operations =
  next_revision :: u64
  operations :: "(u64 \<times> ticket_operation) list"

definition pending_default :: pending_operations where
  "pending_default = \<lparr>next_revision = 0, operations = []\<rparr>"

definition push_operation :: "ticket_operation \<Rightarrow> pending_operations \<Rightarrow> (u64 \<times> pending_operations) option" where
  "push_operation op q =
     (case revision_next (next_revision q) of
        None \<Rightarrow> None
      | Some r \<Rightarrow> Some (r, q\<lparr>next_revision := r, operations := operations q @ [(r, op)]\<rparr>))"

definition push_batch :: "ticket_operation list \<Rightarrow> pending_operations \<Rightarrow> (u64 option \<times> pending_operations) option" where
  "push_batch ops q =
     (case ops of
        [] \<Rightarrow> Some (None, q)
      | first # rest \<Rightarrow>
          (case revision_next (next_revision q) of
             None \<Rightarrow> None
           | Some r \<Rightarrow> Some (Some r, q\<lparr>next_revision := r, operations := (operations q @ [(r, first)]) @ map (Pair r) rest\<rparr>)))"

definition take_operations :: "pending_operations \<Rightarrow> (u64 \<times> ticket_operation) list \<times> pending_operations" where
  "take_operations q = (operations q, q\<lparr>operations := []\<rparr>)"

definition apply_pending :: "ticket_manager \<Rightarrow> u64 \<Rightarrow> pending_operations \<Rightarrow>
    (ticket_manager \<times> u64) \<times> pending_operations" where
  "apply_pending m applied q =
     (let (ops, q) = take_operations q in
      (fold (\<lambda>(r, op) (m, latest). (apply_operation op m, r)) ops (m, applied), q))"

text \<open>The batches that \<open>chunk_map/mod.rs\<close> queues for gameplay.\<close>

definition add_chunk_tickets :: "chunk_pos list \<Rightarrow> chunk_ticket \<Rightarrow> ticket_operation list" where
  "add_chunk_tickets ps t = map (\<lambda>p. AddTicket p t) ps"

definition remove_chunk_tickets :: "chunk_pos list \<Rightarrow> chunk_ticket \<Rightarrow> ticket_operation list" where
  "remove_chunk_tickets ps t = map (\<lambda>p. RemoveTicket p t) ps"

definition replace_chunk_ticket :: "chunk_pos \<Rightarrow> chunk_ticket \<Rightarrow> chunk_pos \<Rightarrow> chunk_ticket \<Rightarrow> ticket_operation list" where
  "replace_chunk_ticket old_pos old_ticket new_pos new_ticket =
     [RemoveTicket old_pos old_ticket, AddTicket new_pos new_ticket]"

text \<open>The ticket that holds the dragon's arena while the fight runs.\<close>

definition add_arena_ticket :: "chunk_pos \<Rightarrow> nat \<Rightarrow> ticket_operation" where
  "add_arena_ticket center radius = AddTicket center (simulated_full_chunks radius)"

definition remove_arena_ticket :: "chunk_pos \<Rightarrow> nat \<Rightarrow> ticket_operation" where
  "remove_arena_ticket center radius = RemoveTicket center (simulated_full_chunks radius)"

lemma push_operation_is_batch: "push_operation op q = map_option (\<lambda>(r, q). (the r, q)) (push_batch [op] q)"
  by (simp add: push_operation_def push_batch_def split: option.split)

section \<open>Epochs\<close>

record prepared_epoch =
  ep_manager :: ticket_manager
  ep_applied :: u64
  ep_changes :: "level_change list"

datatype scheduling_state = Idle ticket_manager u64 | Running | Ready prepared_epoch

datatype boundary_step = StepRunning | StepStart ticket_manager u64 | StepCommit prepared_epoch

record coordinator =
  co_pending :: pending_operations
  co_state :: scheduling_state
  co_committed :: u64

definition coordinator_new :: "ticket_manager \<Rightarrow> coordinator" where
  "coordinator_new m = \<lparr>co_pending = pending_default, co_state = Idle m 0, co_committed = 0\<rparr>"

definition take_boundary_step :: "coordinator \<Rightarrow> boundary_step \<times> coordinator" where
  "take_boundary_step c =
     (case co_state c of
        Idle m r \<Rightarrow> (StepStart m r, c\<lparr>co_state := Running\<rparr>)
      | Running \<Rightarrow> (StepRunning, c\<lparr>co_state := Running\<rparr>)
      | Ready e \<Rightarrow> (StepCommit e, c\<lparr>co_state := Running\<rparr>))"

text \<open>The assertion that an epoch is running is the value None.\<close>

definition finish_epoch :: "prepared_epoch \<Rightarrow> coordinator \<Rightarrow> coordinator option" where
  "finish_epoch e c = (if co_state c = Running then Some (c\<lparr>co_state := Ready e\<rparr>) else None)"

definition publish_committed_revision :: "u64 \<Rightarrow> coordinator \<Rightarrow> coordinator" where
  "publish_committed_revision r c = c\<lparr>co_committed := r\<rparr>"

definition is_revision_committed :: "u64 \<Rightarrow> coordinator \<Rightarrow> bool" where
  "is_revision_committed r c \<longleftrightarrow> r \<le> co_committed c"

section \<open>The operations of the chunk map\<close>

text \<open>
  What \<open>chunk_map/mod.rs\<close> does with its timed tickets: the new list and the operations it queues. The
  expiry test, which looks the chunk's holder up, is a parameter of the tick.
\<close>

datatype timed_action =
    PlaceSpawnTicket block_pos | RemoveSpawnTicket block_pos | PlacePortalTicket block_pos
  | PlaceEnderPearlTicket chunk_pos | PlaceTeleportTicket chunk_pos | TickTimedTickets "chunk_pos \<Rightarrow> bool"

definition queue_added :: "chunk_pos \<Rightarrow> chunk_ticket option \<times> timed_ticket list \<Rightarrow> timed_ticket list \<times> ticket_operation list" where
  "queue_added p r = (snd r, case fst r of None \<Rightarrow> [] | Some t \<Rightarrow> [AddTicket p t])"

definition tick_timed_tickets :: "(chunk_pos \<Rightarrow> bool) \<Rightarrow> timed_ticket list \<Rightarrow> timed_ticket list \<times> ticket_operation list" where
  "tick_timed_tickets can_expire ts =
     (let (ts, expired) = tick_tickets can_expire ts in (ts, map (\<lambda>(p, t). RemoveTicket p t) expired))"

text \<open>
  Each action on the timed tickets with the operations that it queues. The spawn, portal and pearl tickets are queued under the
  lock of the timed tickets; that of a teleport right after it was released, which is one step here: a tick that expires
  the ticket in between, at least its whole timeout later, is left out.
\<close>

fun run_timed :: "timed_action \<Rightarrow> timed_ticket list \<Rightarrow> timed_ticket list \<times> ticket_operation list" where
  "run_timed (PlaceSpawnTicket b) ts = (let p = chunk_of_block b in queue_added p (add_spawn_ticket p ts))"
| "run_timed (RemoveSpawnTicket b) ts =
     (let p = chunk_of_block b; (t, ts) = remove_spawn_ticket p ts in
      (ts, case t of None \<Rightarrow> [] | Some t \<Rightarrow> [RemoveTicket p t]))"
| "run_timed (PlacePortalTicket b) ts = (let p = chunk_of_block b in queue_added p (add_portal_ticket p ts))"
| "run_timed (PlaceEnderPearlTicket p) ts = queue_added p (add_ender_pearl_ticket p ts)"
| "run_timed (PlaceTeleportTicket p) ts = queue_added p (add_teleport_ticket p ts)"
| "run_timed (TickTimedTickets can_expire) ts = tick_timed_tickets can_expire ts"

fun run_timed_all :: "timed_action list \<Rightarrow> timed_ticket list \<Rightarrow> timed_ticket list \<times> ticket_operation list" where
  "run_timed_all [] ts = (ts, [])"
| "run_timed_all (a # as) ts =
     (let (ts, ops) = run_timed a ts; (ts, ops') = run_timed_all as ts in (ts, ops @ ops'))"

end
