(* ===== verification/TimedProps.thy ===== *)
theory TimedProps
  imports TicketQueue
begin

text \<open>
  Ticking looks at every timed ticket once and keeps the keys apart; saving and restoring keeps what is
  meant to be kept; and the operations that the timed tickets cause keep the manager's tickets in step
  with them.
\<close>

section \<open>One tick\<close>

definition expires :: "(chunk_pos \<Rightarrow> bool) \<Rightarrow> timed_ticket \<Rightarrow> bool" where
  "expires can_expire t \<longleftrightarrow> can_expire (tt_pos t) \<and> sint (ticks_left t - 1) < 0"

definition ticked :: "(chunk_pos \<Rightarrow> bool) \<Rightarrow> timed_ticket \<Rightarrow> timed_ticket" where
  "ticked can_expire t = (if can_expire (tt_pos t) then t\<lparr>ticks_left := ticks_left t - 1\<rparr> else t)"

lemma take_swap_remove: "i < length xs \<Longrightarrow> take i (swap_remove i xs) = take i xs"
  by (simp add: swap_remove_def take_butlast)

lemma drop_swap_remove:
  assumes "i < length xs"
  shows "mset (drop i (swap_remove i xs)) = mset (drop (Suc i) xs)"
proof -
  have "mset (take i xs) + mset (drop i (swap_remove i xs)) = mset (swap_remove i xs)"
    using take_swap_remove [OF assms] append_take_drop_id [of i "swap_remove i xs"] by (metis mset_append)
  then have "add_mset (xs ! i) (mset (take i xs) + mset (drop i (swap_remove i xs))) = mset xs"
    using swap_remove_mset [OF assms] by simp
  moreover have "mset xs = add_mset (xs ! i) (mset (take i xs) + mset (drop (Suc i) xs))"
    using id_take_nth_drop [OF assms] by (metis (no_types) mset.simps(2) mset_append union_mset_add_mset_right)
  ultimately show ?thesis by simp
qed

lemma swap_remove_update: "swap_remove i (xs[i := x]) = swap_remove i xs" if "i < length xs"
proof (cases "i = length xs - 1")
  case True
  then show ?thesis using that by (cases xs rule: rev_cases) (simp_all add: swap_remove_def list_update_append)
next
  case False
  then have "last (xs[i := x]) = last xs" using that by (cases xs rule: rev_cases) (simp_all add: list_update_append)
  then show ?thesis by (simp add: swap_remove_def)
qed

lemma tick_tickets_from_mset:
  "tick_tickets_from can_expire i ts expired = (ts', expired') \<Longrightarrow>
     mset ts' = mset (take i ts) + image_mset (ticked can_expire) (filter_mset (\<lambda>t. \<not> expires can_expire t) (mset (drop i ts))) \<and>
     mset expired' = mset expired +
       image_mset (\<lambda>t. (tt_pos t, tt_ticket t)) (filter_mset (expires can_expire) (mset (drop i ts)))"
proof (induction can_expire i ts expired arbitrary: ts' expired' rule: tick_tickets_from.induct)
  case (1 can_expire i ts expired)
  show ?case
  proof (cases "i < length ts")
    case False
    then show ?thesis using "1.prems" by (simp add: tick_tickets_from.simps [of _ i])
  next
    case i: True
    let ?t = "ts ! i" and ?left = "ticks_left (ts ! i) - 1"
    let ?ts = "ts[i := ?t\<lparr>ticks_left := ?left\<rparr>]"
    have d: "drop i ts = ?t # drop (Suc i) ts" using i by (simp add: Cons_nth_drop_Suc)
    consider "\<not> can_expire (tt_pos ?t)" | "can_expire (tt_pos ?t)" "0 \<le> sint ?left" | "can_expire (tt_pos ?t)" "sint ?left < 0"
      by linarith
    then show ?thesis
    proof cases
      case 1
      then show ?thesis using "1.IH"(1) [OF i] "1.prems" i
        by (simp add: tick_tickets_from.simps [of _ i] d expires_def ticked_def take_Suc_conv_app_nth)
    next
      case 2
      have "tick_tickets_from can_expire (Suc i) ?ts expired = (ts', expired')"
        using "1.prems" 2 i by (simp add: tick_tickets_from.simps [of _ i] Let_def)
      then show ?thesis using "1.IH"(2) [OF i _ refl refl] 2 i
        by (simp add: d expires_def ticked_def take_Suc_conv_app_nth not_less)
    next
      case 3
      have "tick_tickets_from can_expire i (swap_remove i ?ts) (expired @ [(tt_pos (?ts ! i), tt_ticket (?ts ! i))]) = (ts', expired')"
        using "1.prems" 3 i by (simp add: tick_tickets_from.simps [of _ i] Let_def not_le)
      then show ?thesis using "1.IH"(3) [OF i _ refl refl] 3 i
        by (simp add: d expires_def swap_remove_update take_swap_remove drop_swap_remove not_le)
    qed
  qed
qed

lemma tick_tickets_mset:
  "mset (fst (tick_tickets can_expire ts)) =
     image_mset (ticked can_expire) (filter_mset (\<lambda>t. \<not> expires can_expire t) (mset ts))"
  "mset (snd (tick_tickets can_expire ts)) =
     image_mset (\<lambda>t. (tt_pos t, tt_ticket t)) (filter_mset (expires can_expire) (mset ts))"
  using tick_tickets_from_mset [of can_expire 0 ts "[]" "fst (tick_tickets can_expire ts)" "snd (tick_tickets can_expire ts)"]
  by (simp_all add: tick_tickets_def)

section \<open>Keys\<close>

text \<open>No two timed tickets of a kind at a position, and each has its kind's ticket.\<close>

fun ticket_of_kind :: "timed_kind \<Rightarrow> chunk_ticket" where
  "ticket_of_kind Portal = portal_ticket"
| "ticket_of_kind SpawnTicket = spawn_ticket"
| "ticket_of_kind EnderPearl = ender_pearl_ticket"
| "ticket_of_kind Teleport = teleport_ticket"

definition tt_key :: "timed_ticket \<Rightarrow> timed_kind \<times> chunk_pos" where
  "tt_key t = (tt_kind t, tt_pos t)"

definition timed_ok :: "timed_ticket list \<Rightarrow> bool" where
  "timed_ok ts \<longleftrightarrow> distinct (map tt_key ts) \<and> (\<forall>t \<in> set ts. tt_ticket t = ticket_of_kind (tt_kind t))"

lemma timed_ok_set_ticks: "timed_ok ts \<Longrightarrow> timed_ok (ts[i := (ts ! i)\<lparr>ticks_left := n\<rparr>])"
proof (cases "i < length ts")
  case True
  assume ok: "timed_ok ts"
  have "map tt_key (ts[i := (ts ! i)\<lparr>ticks_left := n\<rparr>]) = map tt_key ts"
    using True by (simp add: map_update tt_key_def) (metis (no_types, lifting) list_update_id nth_map tt_key_def)
  then show ?thesis using ok True set_update_subset_insert [of ts i]
    by (fastforce simp: timed_ok_def simp del: map_update)
next
  case False
  assume "timed_ok ts"
  then show ?thesis using False by (simp add: not_less list_update_beyond)
qed

lemma timed_ok_snoc:
  "timed_ok ts \<Longrightarrow> (k, p) \<notin> tt_key ` set ts \<Longrightarrow>
    timed_ok (ts @ [\<lparr>tt_kind = k, tt_pos = p, tt_ticket = ticket_of_kind k, ticks_left = n\<rparr>])"
  by (simp add: timed_ok_def tt_key_def)

lemma timed_ok_add:
  assumes "timed_ok ts"
  shows "timed_ok (snd (add_or_reset k p (ticket_of_kind k) n ts))"
proof (cases "position (\<lambda>e. tt_kind e = k \<and> tt_pos e = p \<and> tt_ticket e = ticket_of_kind k) ts")
  case None
  then have "(k, p) \<notin> tt_key ` set ts" using assms by (auto simp: position_None timed_ok_def tt_key_def)
  then show ?thesis using None timed_ok_snoc [OF assms] by (simp add: add_or_reset_def)
next
  case (Some i)
  then show ?thesis using timed_ok_set_ticks [OF assms] by (simp add: add_or_reset_def)
qed

lemma timed_ok_swap_remove: "timed_ok ts \<Longrightarrow> i < length ts \<Longrightarrow> timed_ok (swap_remove i ts)"
  using swap_remove_distinct(1) [of "map tt_key ts" i] mset_eq_setD [OF swap_remove_mset [of i ts]]
  by (auto simp: timed_ok_def swap_remove_map)

lemma timed_ok_tick:
  assumes "timed_ok ts"
  shows "timed_ok (fst (tick_tickets can_expire ts))"
proof -
  have key: "tt_key \<circ> ticked can_expire = tt_key" by (simp add: fun_eq_iff ticked_def tt_key_def)
  have "mset (map tt_key (fst (tick_tickets can_expire ts))) =
      mset (map tt_key (filter (\<lambda>t. \<not> expires can_expire t) ts))"
    by (simp add: tick_tickets_mset(1) image_mset.compositionality key)
  moreover have "distinct (map tt_key (filter (\<lambda>t. \<not> expires can_expire t) ts))"
    using assms by (simp add: timed_ok_def distinct_map_filter)
  ultimately have "distinct (map tt_key (fst (tick_tickets can_expire ts)))" by (metis mset_eq_imp_distinct_iff)
  moreover have "set (fst (tick_tickets can_expire ts)) \<subseteq> ticked can_expire ` set ts"
    using arg_cong [OF tick_tickets_mset(1) [of can_expire ts], where f = set_mset] by auto
  ultimately show ?thesis using assms by (fastforce simp: timed_ok_def ticked_def)
qed

lemma tickets_of_kinds:
  "portal_ticket = ticket_of_kind Portal" "spawn_ticket = ticket_of_kind SpawnTicket"
  "ender_pearl_ticket = ticket_of_kind EnderPearl" "teleport_ticket = ticket_of_kind Teleport"
  by simp_all

lemma timed_ok_load: "timed_ok ts \<Longrightarrow> timed_ok (add_loaded_persistent_ticket t ts)"
proof (cases "pt_kind t")
  case PersistentPortal
  assume ok: "timed_ok ts"
  let ?p = "\<lparr>cx = chunk_x t, cz = chunk_z t\<rparr>"
  show ?thesis
  proof (cases "position (\<lambda>e. tt_kind e = Portal \<and> tt_pos e = ?p \<and> tt_ticket e = portal_ticket) ts")
    case None
    then have "(Portal, ?p) \<notin> tt_key ` set ts" using ok by (auto simp: position_None timed_ok_def tt_key_def)
    then show ?thesis using None timed_ok_snoc [OF ok, of Portal ?p] PersistentPortal
      by (simp add: add_loaded_persistent_ticket_def add_loaded_portal_ticket_def)
  next
    case (Some i)
    then show ?thesis using timed_ok_set_ticks [OF ok] PersistentPortal
      by (simp add: add_loaded_persistent_ticket_def add_loaded_portal_ticket_def)
  qed
next
  case PersistentSpawn
  assume ok: "timed_ok ts"
  let ?p = "\<lparr>cx = chunk_x t, cz = chunk_z t\<rparr>"
  have "(SpawnTicket, ?p) \<notin> tt_key ` set ts" if "\<not> (\<exists>e \<in> set ts. tt_kind e = SpawnTicket \<and> tt_pos e = ?p)"
    using that by (auto simp: tt_key_def)
  then show ?thesis using ok timed_ok_snoc [OF ok, of SpawnTicket ?p] PersistentSpawn
    by (simp add: add_loaded_persistent_ticket_def add_loaded_spawn_ticket_def Let_def)
qed

lemma timed_ok_from_persistent: "timed_ok (from_persistent ps)"
proof -
  have "timed_ok ts \<Longrightarrow> timed_ok (fold add_loaded_persistent_ticket ps ts)" for ts
    by (induction ps arbitrary: ts) (simp_all add: timed_ok_load)
  from this [of "[]"] show ?thesis by (simp add: from_persistent_def) (simp add: timed_ok_def)
qed

section \<open>Saving and restoring\<close>

text \<open>What a save keeps: portals as they are, spawn tickets with their countdown full again.\<close>

definition persisted :: "timed_ticket \<Rightarrow> timed_ticket option" where
  "persisted t =
     (case tt_kind t of
        Portal \<Rightarrow> Some t
      | SpawnTicket \<Rightarrow> Some (t\<lparr>ticks_left := I64_MAX\<rparr>)
      | EnderPearl \<Rightarrow> None
      | Teleport \<Rightarrow> None)"

lemma map_filter_snoc: "List.map_filter f (xs @ [x]) = List.map_filter f xs @ (case f x of None \<Rightarrow> [] | Some y \<Rightarrow> [y])"
  by (simp add: List.map_filter_def split: option.split)

lemma restored_key:
  assumes "e \<in> set (List.map_filter persisted ts)"
  shows "tt_key e \<in> tt_key ` set ts"
proof -
  obtain t where "t \<in> set ts" "persisted t = Some e" using assms by (auto simp: set_map_filter)
  then have "tt_key e = tt_key t" by (auto simp: persisted_def tt_key_def split: timed_kind.splits)
  then show ?thesis using \<open>t \<in> set ts\<close> by simp
qed

lemma from_to_persistent: "timed_ok ts \<Longrightarrow> from_persistent (to_persistent ts) = List.map_filter persisted ts"
proof (induction ts rule: rev_induct)
  case Nil
  then show ?case by (simp add: from_persistent_def to_persistent_def List.map_filter_def)
next
  case (snoc t ts)
  let ?old = "List.map_filter persisted ts"
  have ok: "timed_ok ts" "tt_ticket t = ticket_of_kind (tt_kind t)" "tt_key t \<notin> tt_key ` set ts"
    using snoc.prems by (simp_all add: timed_ok_def)
  have fresh: "tt_key e \<noteq> tt_key t" if "e \<in> set ?old" for e
    using restored_key [OF that] ok(3) by metis
  have pos: "position (\<lambda>e. tt_kind e = tt_kind t \<and> tt_pos e = tt_pos t \<and> tt_ticket e = portal_ticket) ?old = None"
    using fresh by (auto simp: position_None tt_key_def)
  have prev: "fold add_loaded_persistent_ticket (List.map_filter to_persistent_ticket ts) [] = ?old"
    using snoc.IH [OF ok(1)] by (simp add: from_persistent_def to_persistent_def)
  have p: "\<lparr>cx = cx q, cz = cz q\<rparr> = q" for q :: chunk_pos by simp
  note unf = from_persistent_def to_persistent_def map_filter_snoc prev to_persistent_ticket_def
    add_loaded_persistent_ticket_def p
  show ?case
  proof (cases "tt_kind t")
    case Portal
    then have "persisted t = Some t" by (simp add: persisted_def)
    then show ?thesis using Portal pos ok(2) by (cases t) (simp add: unf add_loaded_portal_ticket_def)
  next
    case SpawnTicket
    have "\<not> (\<exists>e \<in> set ?old. tt_kind e = SpawnTicket \<and> tt_pos e = tt_pos t)"
      using fresh SpawnTicket by (auto simp: tt_key_def)
    moreover have "persisted t = Some (t\<lparr>ticks_left := I64_MAX\<rparr>)" using SpawnTicket by (simp add: persisted_def)
    ultimately show ?thesis using SpawnTicket ok(2) by (cases t) (simp add: unf add_loaded_spawn_ticket_def Let_def)
  qed (simp_all add: unf persisted_def [of t])
qed

section \<open>Expiry\<close>

text \<open>While nothing holds it back, a ticket lives for as many ticks as it has left.\<close>

definition elapsed :: "nat \<Rightarrow> timed_ticket \<Rightarrow> timed_ticket" where
  "elapsed n t = t\<lparr>ticks_left := ticks_left t - of_nat n\<rparr>"

lemma sint_minus_nat:
  "int n \<le> sint (w :: i64w) \<Longrightarrow> sint (w - of_nat n) = sint w - int n"
proof -
  assume n: "int n \<le> sint w"
  have b: "sint w < 2 ^ 63" using sint_less [of w] by simp
  then have "sint (of_nat n :: i64w) = int n"
    using n by (simp add: signed_of_nat signed_take_bit_int_eq_self)
  then show ?thesis using n b by (simp add: sint_word_ariths signed_take_bit_int_eq_self)
qed

lemma ticks_alive:
  assumes "\<forall>t \<in> set ts. 0 \<le> sint (ticks_left t)"
  shows "mset (((\<lambda>ts. fst (tick_tickets (\<lambda>_. True) ts)) ^^ n) ts) =
    image_mset (elapsed n) (filter_mset (\<lambda>t. int n \<le> sint (ticks_left t)) (mset ts))"
proof (induction n)
  case 0
  have "filter_mset (\<lambda>t. 0 \<le> sint (ticks_left t)) (mset ts) = mset ts"
    using assms by (simp add: filter_mset_eq_conv)
  then show ?case by (simp add: elapsed_def)
next
  case (Suc n)
  let ?A = "filter_mset (\<lambda>t. int n \<le> sint (ticks_left t)) (mset ts)"
  have ex: "(\<not> expires (\<lambda>_. True) (elapsed n t)) = (int (Suc n) \<le> sint (ticks_left t))" if "int n \<le> sint (ticks_left t)" for t
  proof -
    have "sint (ticks_left t - of_nat n) = sint (ticks_left t) - int n" by (rule sint_minus_nat [OF that])
    moreover have "sint (w - 1) = sint w - 1" if "0 \<le> sint w" for w :: i64w
      using that sint_less [of w] by (simp add: sint_word_ariths signed_take_bit_int_eq_self)
    ultimately show ?thesis using that by (simp add: expires_def elapsed_def not_less) linarith
  qed
  have "mset (((\<lambda>ts. fst (tick_tickets (\<lambda>_. True) ts)) ^^ Suc n) ts) =
      image_mset (ticked (\<lambda>_. True)) (filter_mset (\<lambda>t. \<not> expires (\<lambda>_. True) t) (image_mset (elapsed n) ?A))"
    by (simp add: tick_tickets_mset(1) Suc)
  also have "\<dots> = image_mset (ticked (\<lambda>_. True) \<circ> elapsed n) (filter_mset (\<lambda>t. \<not> expires (\<lambda>_. True) (elapsed n t)) ?A)"
    by (simp add: filter_mset_image_mset image_mset.compositionality)
  also have "ticked (\<lambda>_. True) \<circ> elapsed n = elapsed (Suc n)"
    by (simp add: fun_eq_iff ticked_def elapsed_def algebra_simps)
  also have "filter_mset (\<lambda>t. \<not> expires (\<lambda>_. True) (elapsed n t)) ?A =
      filter_mset (\<lambda>t. int (Suc n) \<le> sint (ticks_left t)) (mset ts)"
    unfolding filter_filter_mset
  proof (rule filter_mset_cong [OF refl])
    fix t
    show "(int n \<le> sint (ticks_left t) \<and> \<not> expires (\<lambda>_. True) (elapsed n t)) = (int (Suc n) \<le> sint (ticks_left t))"
      using ex [of t] by auto
  qed
  finally show ?case .
qed

section \<open>In step with the manager\<close>

text \<open>The tickets held at a position, in no order.\<close>

definition held :: "ticket_manager \<Rightarrow> chunk_pos \<Rightarrow> chunk_ticket multiset" where
  "held m p = (case map_of (tm_tickets m) p of None \<Rightarrow> {#} | Some ts \<Rightarrow> mset ts)"

fun held_op :: "ticket_operation \<Rightarrow> (chunk_pos \<Rightarrow> chunk_ticket multiset) \<Rightarrow> chunk_pos \<Rightarrow> chunk_ticket multiset" where
  "held_op (AddTicket p t) h = h(p := add_mset t (h p))"
| "held_op (RemoveTicket p t) h = h(p := h p - {#t#})"

definition timed_held :: "timed_ticket list \<Rightarrow> chunk_pos \<Rightarrow> chunk_ticket multiset" where
  "timed_held ts p = image_mset tt_ticket (filter_mset (\<lambda>t. tt_pos t = p) (mset ts))"

lemma held_add: "held (add_ticket p t m) = (held m)(p := add_mset t (held m p))"
  by (auto simp: fun_eq_iff held_def add_ticket_def update_conv' split: option.split)

lemma position_mset:
  "(case position (\<lambda>s. s = t) ts of None \<Rightarrow> mset ts | Some i \<Rightarrow> mset (swap_remove i ts)) = mset ts - {#t#}"
proof (cases "position (\<lambda>s. s = t) ts")
  case None
  then have "t \<notin># mset ts" by (auto simp: position_None)
  then show ?thesis using None by simp
next
  case (Some i)
  from position_Some [OF Some] have "i < length ts" "ts ! i = t" by auto
  then have "add_mset t (mset (swap_remove i ts)) = mset ts" using swap_remove_mset [of i ts] by simp
  then show ?thesis using Some by (metis add_mset_remove_trivial option.simps(5))
qed

lemma held_remove: "held (snd (remove_ticket p t m)) = (held m)(p := held m p - {#t#})"
proof (cases "map_of (tm_tickets m) p")
  case None
  then show ?thesis by (auto simp: fun_eq_iff held_def remove_ticket_def)
next
  case (Some ts)
  show ?thesis
    using Some position_mset [of ts t]
    by (cases "position (\<lambda>s. s = t) ts")
      (auto simp: fun_eq_iff held_def remove_ticket_def update_conv' delete_conv' Let_def)
qed

lemma held_apply: "held (apply_operation op m) = held_op op (held m)"
  by (cases op) (simp_all add: held_add held_remove)

lemma held_apply_all: "held (fold apply_operation ops m) = fold held_op ops (held m)"
  by (induction ops arbitrary: m) (simp_all add: held_apply)

lemma held_removes:
  "fold held_op (map (\<lambda>(p, t). RemoveTicket p t) xs) h p = h p - image_mset snd (filter_mset (\<lambda>x. fst x = p) (mset xs))"
  by (induction xs arbitrary: h) (auto simp: diff_diff_add_mset)

lemma timed_held_add:
  "timed_held (snd (add_or_reset k q t n ts)) p =
     timed_held ts p + (if fst (add_or_reset k q t n ts) = None \<or> p \<noteq> q then {#} else {#t#})"
proof (cases "position (\<lambda>e. tt_kind e = k \<and> tt_pos e = q \<and> tt_ticket e = t) ts")
  case None
  then show ?thesis by (simp add: add_or_reset_def timed_held_def)
next
  case (Some i)
  then have i: "i < length ts" using position_Some by blast
  let ?x = "(ts ! i)\<lparr>ticks_left := n\<rparr>"
  have "add_mset (ts ! i) (mset (ts[i := ?x])) = add_mset ?x (mset ts)"
    using i by (simp add: mset_update)
  from arg_cong [OF this, where f = "\<lambda>M. image_mset tt_ticket (filter_mset (\<lambda>t. tt_pos t = p) M)"]
  have "timed_held (ts[i := ?x]) p = timed_held ts p"
    by (simp add: timed_held_def split: if_splits)
  then show ?thesis using Some by (simp add: add_or_reset_def)
qed

lemma timed_held_tick:
  "timed_held ts p = timed_held (fst (tick_tickets c ts)) p +
     image_mset snd (filter_mset (\<lambda>x. fst x = p) (mset (snd (tick_tickets c ts))))"
proof -
  have t: "tt_ticket (ticked c t) = tt_ticket t" "tt_pos (ticked c t) = tt_pos t" for t by (simp_all add: ticked_def)
  have eq: "image_mset tt_ticket (filter_mset (\<lambda>t. tt_pos t = p) M) =
      image_mset tt_ticket (filter_mset (\<lambda>t. tt_pos t = p) (image_mset (ticked c) (filter_mset (\<lambda>t. \<not> expires c t) M))) +
      image_mset snd (filter_mset (\<lambda>x. fst x = p) (image_mset (\<lambda>t. (tt_pos t, tt_ticket t)) (filter_mset (expires c) M)))" for M
    by (induction M) (simp_all add: t)
  show ?thesis unfolding timed_held_def tick_tickets_mset by (rule eq)
qed

section \<open>Sequences of operations\<close>

lemma timed_held_remove: "i < length ts \<Longrightarrow>
    timed_held ts p = timed_held (swap_remove i ts) p + (if tt_pos (ts ! i) = p then {#tt_ticket (ts ! i)#} else {#})"
  by (simp add: timed_held_def flip: swap_remove_mset)

lemma run_timed_held:
  assumes "run_timed a ts = (ts', ops)" "\<And>p. h p = rest p + timed_held ts p"
  shows "fold held_op ops h p = rest p + timed_held ts' p"
proof -
  have fresh: "fst (add_or_reset k q t n ts) = Some t' \<Longrightarrow> t' = t" for q k t n t'
    by (simp add: add_or_reset_def split: option.splits)
  have add: "fold held_op ops h p = rest p + timed_held ts' p"
    if "queue_added q (add_or_reset k q t n ts) = (ts', ops)" for q k t n
    using that timed_held_add [of k q t n ts p] assms(2) [of p]
    by (cases "fst (add_or_reset k q t n ts)") (auto simp: queue_added_def fresh split: if_splits)
  show ?thesis
  proof (cases a)
    case (RemoveSpawnTicket b)
    show ?thesis
    proof (cases "position (\<lambda>e. tt_kind e = SpawnTicket \<and> tt_pos e = chunk_of_block b) ts")
      case None
      then show ?thesis using assms RemoveSpawnTicket by (auto simp: remove_spawn_ticket_def)
    next
      case (Some i)
      then show ?thesis using assms RemoveSpawnTicket position_Some [OF Some] timed_held_remove [of i ts p]
        by (auto simp: remove_spawn_ticket_def)
    qed
  next
    case (TickTimedTickets c)
    then show ?thesis using assms timed_held_tick [of ts p c]
      by (auto simp: tick_timed_tickets_def held_removes split: prod.splits)
  qed (use assms(1) in \<open>auto simp: Let_def add_spawn_ticket_def add_portal_ticket_def add_ender_pearl_ticket_def
      add_teleport_ticket_def intro: add\<close>)
qed

lemma run_timed_all_held:
  "run_timed_all as ts = (ts', ops) \<Longrightarrow> (\<And>p. h p = rest p + timed_held ts p) \<Longrightarrow>
     fold held_op ops h p = rest p + timed_held ts' p"
proof (induction as arbitrary: ts ts' ops h)
  case Nil
  then show ?case by simp
next
  case (Cons a as)
  obtain ts1 ops1 where a: "run_timed a ts = (ts1, ops1)" by fastforce
  obtain ts2 ops2 where r: "run_timed_all as ts1 = (ts2, ops2)" by fastforce
  have "fold held_op ops2 (fold held_op ops1 h) p = rest p + timed_held ts2 p"
    by (rule Cons.IH [OF r]) (rule run_timed_held [OF a Cons.prems(2)])
  then show ?case using Cons.prems(1) a r by auto
qed

lemma activate_all_held: "held (activate_all ts m) p = held m p + timed_held ts p"
  by (induction ts arbitrary: m) (auto simp: activate_all_def timed_held_def held_add)

lemma run_timed_ok: "timed_ok ts \<Longrightarrow> timed_ok (fst (run_timed a ts))"
proof (cases a)
  case (RemoveSpawnTicket b)
  assume "timed_ok ts"
  then show ?thesis using RemoveSpawnTicket timed_ok_swap_remove [of ts]
      position_Some [of "\<lambda>e. tt_kind e = SpawnTicket \<and> tt_pos e = chunk_of_block b" ts]
    by (cases "position (\<lambda>e. tt_kind e = SpawnTicket \<and> tt_pos e = chunk_of_block b) ts")
      (simp_all add: remove_spawn_ticket_def)
next
  case (TickTimedTickets c)
  assume "timed_ok ts"
  then show ?thesis using TickTimedTickets timed_ok_tick [of ts c] by (auto simp: tick_timed_tickets_def split: prod.split)
qed (simp_all add: queue_added_def Let_def add_spawn_ticket_def add_portal_ticket_def add_ender_pearl_ticket_def
    add_teleport_ticket_def tickets_of_kinds timed_ok_add del: ticket_of_kind.simps)


end
