(* ===== verification/TicketWorld.thy ===== *)
theory TicketWorld
  imports TimedProps
begin

text \<open>
  The epochs of chunk scheduling as a step relation: gameplay queues ticket operations and runs the timed
  tickets, a background worker applies what is pending and propagates, and the boundary of a tick commits
  a finished epoch and starts the next (\<open>advance_scheduling\<close>, \<open>commit_scheduling_epoch\<close>,
  \<open>prepare_scheduling_epoch\<close> of \<open>chunk_map/mod.rs\<close>). Worker and gameplay interleave freely.
\<close>

section \<open>The world's tickets\<close>

datatype scheduling_worker = NoWorker | Spawned ticket_manager u64 | Prepared ticket_manager u64

text \<open>
  The last three fields only record what happened: every operation with its revision, the number of
  commits, and all change lists that commits handed to the chunk holders.
\<close>

record ticket_world =
  tw_timed :: "timed_ticket list"
  tw_coordinator :: coordinator
  tw_worker :: scheduling_worker
  tw_issued :: "(u64 \<times> ticket_operation) list"
  tw_commits :: nat
  tw_told :: "level_change list"

definition tw_new :: "timed_ticket list \<Rightarrow> ticket_world" where
  "tw_new ts = \<lparr>tw_timed = ts, tw_coordinator = coordinator_new (activate_all ts tm_new), tw_worker = NoWorker,
     tw_issued = [], tw_commits = 0, tw_told = []\<rparr>"

definition queue_operations :: "ticket_operation list \<Rightarrow> ticket_world \<Rightarrow> ticket_world option" where
  "queue_operations ops w =
     (case push_batch ops (co_pending (tw_coordinator w)) of
        None \<Rightarrow> None
      | Some (r, q) \<Rightarrow> Some (w\<lparr>tw_coordinator := (tw_coordinator w)\<lparr>co_pending := q\<rparr>,
          tw_issued := tw_issued w @ (case r of None \<Rightarrow> [] | Some r \<Rightarrow> map (Pair r) ops)\<rparr>))"

definition timed_step :: "timed_action \<Rightarrow> ticket_world \<Rightarrow> ticket_world option" where
  "timed_step a w = (let (ts, ops) = run_timed a (tw_timed w) in queue_operations ops (w\<lparr>tw_timed := ts\<rparr>))"

text \<open>
  Of a commit the hand-over of the changes: holders are told the levels of the epoch. That holders whose revival was put off
  are told theirs again (\<open>merge_deferred_revivals\<close>) changes no level and is left to the holders' side.
\<close>

definition commit_epoch :: "prepared_epoch \<Rightarrow> ticket_world \<Rightarrow> ticket_world" where
  "commit_epoch e w =
     w\<lparr>tw_told := tw_told w @ ep_changes e, tw_commits := Suc (tw_commits w),
       tw_coordinator := publish_committed_revision (ep_applied e) (tw_coordinator w),
       tw_worker := Spawned (recycle_changes (ep_manager e)) (ep_applied e)\<rparr>"

definition advance_scheduling :: "ticket_world \<Rightarrow> ticket_world" where
  "advance_scheduling w =
     (let (s, c) = take_boundary_step (tw_coordinator w); w = w\<lparr>tw_coordinator := c\<rparr> in
      case s of
        StepRunning \<Rightarrow> w
      | StepStart m r \<Rightarrow> w\<lparr>tw_worker := Spawned m r\<rparr>
      | StepCommit e \<Rightarrow> commit_epoch e w)"

definition worker_apply :: "ticket_world \<Rightarrow> ticket_world" where
  "worker_apply w =
     (case tw_worker w of
        Spawned m r \<Rightarrow>
          (let ((m, r), q) = apply_pending m r (co_pending (tw_coordinator w)) in
           w\<lparr>tw_worker := Prepared m r, tw_coordinator := (tw_coordinator w)\<lparr>co_pending := q\<rparr>\<rparr>)
      | _ \<Rightarrow> w)"

definition prepare_epoch :: "ticket_manager \<Rightarrow> u64 \<Rightarrow> prepared_epoch" where
  "prepare_epoch m r =
     (let (changes, m) = take_changes (run_all_updates m) in
      \<lparr>ep_manager = m, ep_applied = r, ep_changes = changes\<rparr>)"

text \<open>None is the failed assertion of \<open>finish_epoch\<close>.\<close>

definition worker_finish :: "ticket_world \<Rightarrow> ticket_world option" where
  "worker_finish w =
     (case tw_worker w of
        Prepared m r \<Rightarrow> map_option (\<lambda>c. w\<lparr>tw_worker := NoWorker, tw_coordinator := c\<rparr>)
                         (finish_epoch (prepare_epoch m r) (tw_coordinator w))
      | _ \<Rightarrow> Some w)"

definition operation_ok :: "ticket_operation \<Rightarrow> bool" where
  "operation_ok op = (case op of AddTicket p t \<Rightarrow> ticket_ok t | RemoveTicket p t \<Rightarrow> True)"

inductive tw_step :: "ticket_world \<Rightarrow> ticket_world \<Rightarrow> bool" where
  queue: "(\<forall>op \<in> set ops. operation_ok op) \<Longrightarrow> queue_operations ops w = Some w' \<Longrightarrow> tw_step w w'"
| timed: "timed_step a w = Some w' \<Longrightarrow> tw_step w w'"
| advance: "tw_step w (advance_scheduling w)"
| apply_step: "tw_step w (worker_apply w)"
| finish: "worker_finish w = Some w' \<Longrightarrow> tw_step w w'"

inductive tw_reachable :: "timed_ticket list \<Rightarrow> ticket_world \<Rightarrow> bool" for ts where
  start: "tw_reachable ts (tw_new ts)"
| step: "tw_reachable ts w \<Longrightarrow> tw_step w w' \<Longrightarrow> tw_reachable ts w'"

inductive_cases tw_stepE: "tw_step w w'"

text \<open>A round: the worker runs to its end, then the boundary is reached.\<close>

definition scheduling_round :: "ticket_world \<Rightarrow> ticket_world option" where
  "scheduling_round w = map_option advance_scheduling (worker_finish (worker_apply w))"

section \<open>Invariant\<close>

fun located :: "scheduling_state \<Rightarrow> scheduling_worker \<Rightarrow> (ticket_manager \<times> u64 \<times> level_change list) option" where
  "located (Idle m r) NoWorker = Some (m, r, [])"
| "located Running (Spawned m r) = Some (m, r, [])"
| "located Running (Prepared m r) = Some (m, r, [])"
| "located (Ready e) NoWorker = Some (ep_manager e, ep_applied e, ep_changes e)"
| "located _ _ = None"

definition operations_upto :: "u64 \<Rightarrow> (u64 \<times> ticket_operation) list \<Rightarrow> ticket_operation list" where
  "operations_upto r issued = map snd (filter (\<lambda>x. fst x \<le> r) issued)"

definition tickets_upto :: "ticket_manager \<Rightarrow> u64 \<Rightarrow> (u64 \<times> ticket_operation) list \<Rightarrow> (chunk_pos \<times> chunk_ticket list) list" where
  "tickets_upto m r issued = tm_tickets (fold apply_operation (operations_upto r issued) m)"

definition untold :: "chunk_pos \<Rightarrow> nat option \<times> nat option" where
  "untold = (\<lambda>_. (None, None))"

definition manager_inv :: "ticket_manager \<Rightarrow> ticket_world \<Rightarrow> ticket_manager \<Rightarrow> u64 \<Rightarrow> level_change list \<Rightarrow> bool" where
  "manager_inv m0 w m r changes \<longleftrightarrow>
     tm_ok m \<and> tm_tickets m = tickets_upto m0 r (tw_issued w) \<and>
     operations (co_pending (tw_coordinator w)) = filter (\<lambda>x. r < fst x) (tw_issued w) \<and>
     co_committed (tw_coordinator w) \<le> r \<and> r \<le> next_revision (co_pending (tw_coordinator w)) \<and>
     follow (tw_told w @ changes) untold = view m \<and>
     (\<forall>e. co_state (tw_coordinator w) = Ready e \<longrightarrow> \<not> tm_dirty m)"

definition tw_inv :: "ticket_manager \<Rightarrow> ticket_world \<Rightarrow> bool" where
  "tw_inv m0 w \<longleftrightarrow>
     sorted (map fst (tw_issued w)) \<and>
     (\<forall>(r, op) \<in> set (tw_issued w). r \<le> next_revision (co_pending (tw_coordinator w)) \<and> operation_ok op) \<and>
     (tw_commits w = 0 \<longrightarrow> tw_told w = []) \<and>
     (0 < tw_commits w \<longrightarrow>
        follow (tw_told w) untold = levels_of (tickets_upto m0 (co_committed (tw_coordinator w)) (tw_issued w))) \<and>
     (\<exists>m r changes. located (co_state (tw_coordinator w)) (tw_worker w) = Some (m, r, changes) \<and> manager_inv m0 w m r changes)"

lemma apply_tickets: "tm_tickets m = tm_tickets m' \<Longrightarrow> tm_tickets (apply_operation op m) = tm_tickets (apply_operation op m')"
  by (cases op) (simp_all add: add_ticket_def remove_ticket_def Let_def split: option.split)

lemma apply_all_tickets:
  "tm_tickets m = tm_tickets m' \<Longrightarrow> tm_tickets (fold apply_operation ops m) = tm_tickets (fold apply_operation ops m')"
proof (induction ops arbitrary: m m')
  case (Cons op ops)
  from Cons.IH [OF apply_tickets [OF Cons.prems]] show ?case by simp
qed simp

lemma apply_ok: "tm_ok m \<Longrightarrow> operation_ok op \<Longrightarrow> tm_ok (apply_operation op m)"
  by (cases op) (simp_all add: operation_ok_def add_ticket_ok remove_ticket_ok)

lemma apply_all_ok: "tm_ok m \<Longrightarrow> \<forall>op \<in> set ops. operation_ok op \<Longrightarrow> tm_ok (fold apply_operation ops m)"
  by (induction ops arbitrary: m) (simp_all add: apply_ok)

lemma apply_view: "view (apply_operation op m) = view m"
  by (cases op) (simp_all add: fun_eq_iff view_def get_level_def get_simulation_level_def add_ticket_def remove_ticket_def Let_def
      split: option.split)

lemma apply_all_view: "view (fold apply_operation ops m) = view m"
  by (induction ops arbitrary: m) (simp_all add: apply_view)

lemma apply_pending_all:
  "apply_pending m r q =
     ((fold apply_operation (map snd (operations q)) m, if operations q = [] then r else fst (last (operations q))),
      q\<lparr>operations := []\<rparr>)"
proof -
  have "fold (\<lambda>(r, op) (m, latest). (apply_operation op m, r)) ops (m, r) =
      (fold apply_operation (map snd ops) m, if ops = [] then r else fst (last ops))" for ops
    by (induction ops arbitrary: m r) auto
  then show ?thesis by (simp add: apply_pending_def take_operations_def)
qed

lemma sorted_split: "sorted (map fst xs) \<Longrightarrow> xs = filter (\<lambda>x. fst x \<le> r) xs @ filter (\<lambda>x. r < fst x) xs"
  for r :: "'a :: linorder"
proof (induction xs)
  case (Cons x xs)
  show ?case
  proof (cases "fst x \<le> r")
    case False
    then have "\<forall>y \<in> set xs. \<not> fst y \<le> r" using Cons.prems by fastforce
    then have "filter (\<lambda>x. fst x \<le> r) xs = []" "filter (\<lambda>x. r < fst x) xs = xs"
      by (simp_all add: filter_empty_conv filter_id_conv not_le)
    then show ?thesis using False by simp
  qed (use Cons in simp)
qed simp

lemma untold_new: "view tm_new = untold" "view (activate_all ts tm_new) = untold"
proof -
  show "view tm_new = untold" by (simp add: fun_eq_iff view_def untold_def tm_new_def get_level_def get_simulation_level_def)
  moreover have "view (activate_all ts m) = view m" for m
    unfolding activate_all_def by (induction ts arbitrary: m) (simp_all add: apply_view [of "AddTicket p t" for p t, simplified])
  ultimately show "view (activate_all ts tm_new) = untold" by simp
qed


section \<open>Every step keeps it\<close>

lemma activate_all_ok: "tm_ok m \<Longrightarrow> \<forall>t \<in> set ts. ticket_ok (tt_ticket t) \<Longrightarrow> tm_ok (activate_all ts m)"
  unfolding activate_all_def by (induction ts arbitrary: m) (simp_all add: add_ticket_ok)

lemma ticket_of_kind_ok: "ticket_ok (ticket_of_kind k)"
  by (cases k) (simp_all add: portal_ticket_def spawn_ticket_def ender_pearl_ticket_def teleport_ticket_def ticket_constructors_ok)

lemma timed_ticket_ok: "timed_ok ts \<Longrightarrow> t \<in> set ts \<Longrightarrow> ticket_ok (tt_ticket t)"
  by (auto simp: timed_ok_def ticket_of_kind_ok)

lemma tw_new_inv:
  assumes "timed_ok ts"
  shows "tw_inv (activate_all ts tm_new) (tw_new ts)"
  using assms activate_all_ok [OF tm_new_ok, of ts] timed_ticket_ok [OF assms]
  by (simp add: tw_inv_def tw_new_def coordinator_new_def pending_default_def manager_inv_def untold_new follow_def
      tickets_upto_def operations_upto_def)

lemma revision_fresh: "revision_next n = Some r \<Longrightarrow> n < r"
  using unatSuc [of n] by (auto simp: revision_next_def word_less_nat_alt add.commute minus_equation_iff add_eq_0_iff split: if_splits)

lemma push_batch_cases:
  "push_batch ops q = Some (r, q') \<Longrightarrow>
     ops = [] \<and> r = None \<and> q' = q \<or>
     (\<exists>n. r = Some n \<and> next_revision q < n \<and> q' = q\<lparr>next_revision := n, operations := operations q @ map (Pair n) ops\<rparr>)"
proof (cases "revision_next (next_revision q)")
  case None
  assume "push_batch ops q = Some (r, q')"
  then show ?thesis using None by (cases ops) (simp_all add: push_batch_def)
next
  case (Some n)
  assume "push_batch ops q = Some (r, q')"
  then have "ops = [] \<and> r = None \<and> q' = q \<or>
      Some n = r \<and> q' = q\<lparr>next_revision := n, operations := operations q @ map (Pair n) ops\<rparr>"
    using Some by (cases ops) (simp_all add: push_batch_def)
  then show ?thesis using revision_fresh [OF Some] by metis
qed

lemma filter_upto_append:
  "\<forall>x \<in> set ys. r < fst x \<Longrightarrow> operations_upto r (xs @ ys) = operations_upto r xs" for r :: u64
  by (simp add: operations_upto_def filter_empty_conv not_le)

lemma queue_operations_inv:
  assumes "tw_inv m0 w" "\<forall>op \<in> set ops. operation_ok op" "queue_operations ops w = Some w'"
  shows "tw_inv m0 w'"
proof -
  obtain r q where p: "push_batch ops (co_pending (tw_coordinator w)) = Some (r, q)"
    using assms(3) by (auto simp: queue_operations_def split: option.splits)
  from push_batch_cases [OF this] show ?thesis
  proof (elim disjE conjE exE)
    assume "ops = []" "r = None" "q = co_pending (tw_coordinator w)"
    then have "w' = w" using p assms(3) by (simp add: queue_operations_def)
    then show ?thesis using assms(1) by simp
  next
    fix n
    assume n: "r = Some n" "next_revision (co_pending (tw_coordinator w)) < n"
      "q = co_pending (tw_coordinator w)\<lparr>next_revision := n, operations := operations (co_pending (tw_coordinator w)) @ map (Pair n) ops\<rparr>"
    let ?new = "map (Pair n) ops"
    have w': "w' = w\<lparr>tw_coordinator := (tw_coordinator w)\<lparr>co_pending := q\<rparr>, tw_issued := tw_issued w @ ?new\<rparr>"
      using p assms(3) n(1) by (simp add: queue_operations_def)
    obtain m s cs where m: "located (co_state (tw_coordinator w)) (tw_worker w) = Some (m, s, cs)" "manager_inv m0 w m s cs"
      using assms(1) by (auto simp: tw_inv_def)
    have upto: "tickets_upto m0 k (tw_issued w @ ?new) = tickets_upto m0 k (tw_issued w)" if "k < n" for k
      using that by (simp add: tickets_upto_def filter_upto_append)
    have le: "s < n" "co_committed (tw_coordinator w) < n"
      using m(2) n(2) by (auto simp: manager_inv_def)
    have "manager_inv m0 w' m s cs"
      using m(2) le n(2) by (auto simp: manager_inv_def w' n(3) upto)
    moreover have "sorted (map fst (tw_issued w'))"
    proof -
      have "map fst ?new = replicate (length ops) n" by (simp add: o_def map_replicate_const)
      moreover have "\<forall>x \<in> set (map fst (tw_issued w)). x \<le> n" using assms(1) n(2) by (fastforce simp: tw_inv_def)
      moreover have "sorted (map fst (tw_issued w))" using assms(1) by (simp add: tw_inv_def)
      ultimately have "sorted (map fst (tw_issued w) @ map fst ?new)" by (simp only: sorted_append) auto
      then show ?thesis by (simp add: w')
    qed
    moreover have "\<forall>(r, op) \<in> set (tw_issued w'). r \<le> next_revision (co_pending (tw_coordinator w')) \<and> operation_ok op"
      using assms(1,2) n(2) by (force simp: tw_inv_def w' n(3))
    ultimately show ?thesis using assms(1) m(1) le upto by (auto simp: tw_inv_def w')
  qed
qed

lemma run_timed_operations_ok: "timed_ok ts \<Longrightarrow> op \<in> set (snd (run_timed a ts)) \<Longrightarrow> operation_ok op"
  by (cases a) (auto simp: queue_added_def tick_timed_tickets_def Let_def add_spawn_ticket_def add_portal_ticket_def add_ender_pearl_ticket_def
      add_teleport_ticket_def tickets_of_kinds add_or_reset_def operation_ok_def ticket_of_kind_ok
      simp del: ticket_of_kind.simps split: option.splits prod.splits)


lemma tw_inv_timed: "tw_inv m0 (w\<lparr>tw_timed := ts\<rparr>) = tw_inv m0 w"
  by (simp add: tw_inv_def manager_inv_def)

lemma timed_step_inv:
  assumes "tw_inv m0 w" "timed_ok (tw_timed w)" "timed_step a w = Some w'"
  shows "tw_inv m0 w'" "timed_ok (tw_timed w')"
proof -
  obtain ts ops where r: "run_timed a (tw_timed w) = (ts, ops)" by fastforce
  then have q: "queue_operations ops (w\<lparr>tw_timed := ts\<rparr>) = Some w'" using assms(3) by (simp add: timed_step_def)
  have "\<forall>op \<in> set ops. operation_ok op" using run_timed_operations_ok [OF assms(2), of _ a] r by auto
  from queue_operations_inv [OF _ this q] show "tw_inv m0 w'" using assms(1) by (simp add: tw_inv_timed)
  have "tw_timed w' = ts" using q by (auto simp: queue_operations_def split: option.splits)
  then show "timed_ok (tw_timed w')" using run_timed_ok [OF assms(2), of a] r by simp
qed

lemma sorted_last: "sorted xs \<Longrightarrow> x \<in> set xs \<Longrightarrow> x \<le> last xs" for x :: "'a :: linorder"
  by (induction xs) auto

text \<open>Applying what is pending: all revisions up to the last one issued are in.\<close>

lemma apply_pending_inv:
  assumes "tw_inv m0 w" "manager_inv m0 w m r cs" "\<not> (\<exists>e. co_state (tw_coordinator w) = Ready e)"
    "apply_pending m r (co_pending (tw_coordinator w)) = ((m', r'), q)"
  shows "manager_inv m0 (w\<lparr>tw_worker := Prepared m' r', tw_coordinator := (tw_coordinator w)\<lparr>co_pending := q\<rparr>\<rparr>) m' r' cs"
    "\<forall>x \<in> set (tw_issued w). fst x \<le> r'"
proof -
  let ?ops = "operations (co_pending (tw_coordinator w))" and ?issued = "tw_issued w"
  have pend: "?ops = filter (\<lambda>x. r < fst x) ?issued" using assms(2) by (simp add: manager_inv_def)
  have s: "sorted (map fst ?issued)" using assms(1) by (simp add: tw_inv_def)
  note split = sorted_split [OF s, of r, folded pend]
  have m': "m' = fold apply_operation (map snd ?ops) m" "r' = (if ?ops = [] then r else fst (last ?ops))"
      "q = (co_pending (tw_coordinator w))\<lparr>operations := []\<rparr>"
    using assms(4) by (simp_all add: apply_pending_all)
  show all: "\<forall>x \<in> set ?issued. fst x \<le> r'"
  proof (cases "?ops = []")
    case True
    then show ?thesis using m'(2) pend by (auto simp: filter_empty_conv not_less)
  next
    case False
    then have "last ?issued = last ?ops" using split by (metis last_appendR)
    moreover have "?issued \<noteq> []" using False pend by auto
    moreover have "\<forall>x \<in> set (map fst ?issued). x \<le> last (map fst ?issued)"
      using sorted_last [OF s] by blast
    ultimately show ?thesis using False m'(2) by (simp add: last_map)
  qed
  have "operations_upto r' ?issued = operations_upto r ?issued @ map snd ?ops"
    using all arg_cong [OF split, where f = "map snd"] by (simp add: operations_upto_def filter_id_conv)
  then have "tm_tickets m' = tickets_upto m0 r' ?issued"
    using assms(2) apply_all_tickets [of m "fold apply_operation (operations_upto r ?issued) m0" "map snd ?ops"]
    by (simp add: m'(1) tickets_upto_def manager_inv_def)
  moreover have "r \<le> r' \<and> r' \<le> next_revision (co_pending (tw_coordinator w))"
  proof (cases "?ops = []")
    case True
    then show ?thesis using m'(2) assms(2) by (simp add: manager_inv_def)
  next
    case False
    then have "last ?ops \<in> set ?ops" by simp
    then have "last ?ops \<in> set ?issued \<and> r < fst (last ?ops)" using pend by simp
    then show ?thesis using False m'(2) assms(1) by (auto simp: tw_inv_def)
  qed
  moreover have "tm_ok m'"
  proof -
    have "\<forall>op \<in> set (map snd ?ops). operation_ok op" using assms(1) pend by (fastforce simp: tw_inv_def)
    then show ?thesis using assms(2) apply_all_ok m'(1) by (simp add: manager_inv_def)
  qed
  moreover have "filter (\<lambda>x. r' < fst x) ?issued = []" using all by (simp add: filter_empty_conv not_less)
  ultimately show "manager_inv m0 (w\<lparr>tw_worker := Prepared m' r', tw_coordinator := (tw_coordinator w)\<lparr>co_pending := q\<rparr>\<rparr>) m' r' cs"
    using assms(2,3) by (auto simp: manager_inv_def m'(1,3) apply_all_view)
qed


lemma worker_apply_inv:
  assumes "tw_inv m0 w"
  shows "tw_inv m0 (worker_apply w)"
proof (cases "tw_worker w")
  case (Spawned m r)
  obtain m' r' q where p: "apply_pending m r (co_pending (tw_coordinator w)) = ((m', r'), q)" by (metis surj_pair)
  have st: "co_state (tw_coordinator w) = Running"
    using assms Spawned by (cases "co_state (tw_coordinator w)") (auto simp: tw_inv_def)
  then have "manager_inv m0 w m r []" using assms Spawned by (auto simp: tw_inv_def)
  from apply_pending_inv [OF assms this _ p] st
  have "manager_inv m0 (w\<lparr>tw_worker := Prepared m' r', tw_coordinator := (tw_coordinator w)\<lparr>co_pending := q\<rparr>\<rparr>) m' r' []" by simp
  moreover have "next_revision q = next_revision (co_pending (tw_coordinator w))" using p by (auto simp: apply_pending_all)
  ultimately show ?thesis using assms st Spawned p by (simp add: worker_apply_def tw_inv_def)
qed (use assms in \<open>simp_all add: worker_apply_def\<close>)

lemma take_changes_simps: "tm_ok (snd (take_changes m)) = tm_ok m" "tm_tickets (snd (take_changes m)) = tm_tickets m"
  "view (snd (take_changes m)) = view m" "tm_dirty (snd (take_changes m)) = tm_dirty m" "fst (take_changes m) = tm_changes m"
  by (simp_all add: take_changes_def tm_ok_def view_def get_level_def get_simulation_level_def fun_eq_iff)

lemma follow_append: "follow (xs @ ys) v = follow ys (follow xs v)"
  by (simp add: follow_def)

lemma prepare_epoch_inv:
  assumes "manager_inv m0 w m r []"
  shows "manager_inv m0 (w\<lparr>tw_worker := NoWorker, tw_coordinator := (tw_coordinator w)\<lparr>co_state := Ready (prepare_epoch m r)\<rparr>\<rparr>)
    (ep_manager (prepare_epoch m r)) (ep_applied (prepare_epoch m r)) (ep_changes (prepare_epoch m r))"
proof -
  have ok: "tm_ok m" using assms by (simp add: manager_inv_def)
  have e: "ep_manager (prepare_epoch m r) = snd (take_changes (run_all_updates m))"
    "ep_changes (prepare_epoch m r) = fst (take_changes (run_all_updates m))" "ep_applied (prepare_epoch m r) = r"
    by (simp_all add: prepare_epoch_def split: prod.split)
  have "follow (tm_changes (run_all_updates m)) (view m) = view (run_all_updates m)"
    using run_all_updates_view(1) [OF ok] by blast
  then show ?thesis using assms run_all_updates_ok [OF ok]
    by (simp add: manager_inv_def e take_changes_simps follow_append)
qed

lemma worker_finish_inv:
  assumes "tw_inv m0 w"
  shows "\<exists>w'. worker_finish w = Some w' \<and> tw_inv m0 w'"
proof (cases "tw_worker w")
  case (Prepared m r)
  have st: "co_state (tw_coordinator w) = Running"
    using assms Prepared by (cases "co_state (tw_coordinator w)") (auto simp: tw_inv_def)
  then have "manager_inv m0 w m r []" using assms Prepared by (auto simp: tw_inv_def)
  from prepare_epoch_inv [OF this] show ?thesis using assms st Prepared
    by (simp add: worker_finish_def finish_epoch_def tw_inv_def)
qed (use assms in \<open>simp_all add: worker_finish_def\<close>)

lemma advance_inv:
  assumes "tw_inv m0 w"
  shows "tw_inv m0 (advance_scheduling w)"
proof -
  obtain m r cs where m: "located (co_state (tw_coordinator w)) (tw_worker w) = Some (m, r, cs)" "manager_inv m0 w m r cs"
    using assms by (auto simp: tw_inv_def)
  show ?thesis
  proof (cases "co_state (tw_coordinator w)")
    case (Idle m' r')
    then have "tw_worker w = NoWorker" using m(1) by (cases "tw_worker w") simp_all
    then show ?thesis using Idle m assms by (simp add: advance_scheduling_def take_boundary_step_def tw_inv_def manager_inv_def)
  next
    case Running
    then show ?thesis using m assms by (simp add: advance_scheduling_def take_boundary_step_def tw_inv_def manager_inv_def)
  next
    case (Ready e)
    then have worker: "tw_worker w = NoWorker" using m(1) by (cases "tw_worker w") simp_all
    then have e: "m = ep_manager e" "r = ep_applied e" "cs = ep_changes e" using Ready m(1) by simp_all
    have inv: "tm_ok m" "tm_tickets m = tickets_upto m0 r (tw_issued w)" "\<not> tm_dirty m"
        "follow (tw_told w @ cs) untold = view m" using m(2) Ready by (simp_all add: manager_inv_def)
    have "view m = levels_of (tickets_upto m0 r (tw_issued w))"
      using inv(1-3) by (simp add: fun_eq_iff view_def tm_ok_def)
    moreover have "tm_ok (recycle_changes m)" "tm_tickets (recycle_changes m) = tm_tickets m" "view (recycle_changes m) = view m"
      using take_changes_simps(1-3) [of m] inv(1) by (simp_all add: recycle_changes_def take_changes_def)
    ultimately show ?thesis using Ready worker m(2) assms inv e
      by (simp add: advance_scheduling_def take_boundary_step_def commit_epoch_def publish_committed_revision_def
          tw_inv_def manager_inv_def)
  qed
qed

lemma reachable_inv:
  assumes "tw_reachable ts w" "timed_ok ts"
  shows "tw_inv (activate_all ts tm_new) w \<and> timed_ok (tw_timed w)"
  using assms(1)
proof (induction rule: tw_reachable.induct)
  case start
  then show ?case using tw_new_inv [OF assms(2)] assms(2) by (simp add: tw_new_def)
next
  case (step w w')
  note inv = step.IH [THEN conjunct1] and ok = step.IH [THEN conjunct2]
  from step.hyps(2) show ?case
  proof (cases rule: tw_step.cases)
    case (queue ops)
    then have "tw_timed w' = tw_timed w" by (auto simp: queue_operations_def split: option.splits)
    then show ?thesis using queue_operations_inv [OF inv queue(1,2)] ok by simp
  next
    case (timed a)
    then show ?thesis using timed_step_inv [OF inv ok] by blast
  next
    case advance
    have "tw_timed w' = tw_timed w"
      by (auto simp: advance advance_scheduling_def take_boundary_step_def commit_epoch_def publish_committed_revision_def
          split: scheduling_state.split)
    then show ?thesis using advance_inv [OF inv] ok advance by simp
  next
    case apply_step
    have "tw_timed w' = tw_timed w" by (auto simp: apply_step worker_apply_def split: scheduling_worker.split prod.split)
    then show ?thesis using worker_apply_inv [OF inv] ok apply_step by simp
  next
    case finish
    then have "tw_timed w' = tw_timed w" by (auto simp: worker_finish_def split: scheduling_worker.splits)
    then show ?thesis using worker_finish_inv [OF inv] ok finish by auto
  qed
qed

section \<open>Rounds\<close>

lemma worker_apply_fields: "tw_issued (worker_apply w) = tw_issued w" "tw_timed (worker_apply w) = tw_timed w"
  "co_state (tw_coordinator (worker_apply w)) = co_state (tw_coordinator w)"
  by (simp_all add: worker_apply_def split: scheduling_worker.split prod.split)

lemma worker_finish_fields: "worker_finish w = Some w' \<Longrightarrow> tw_issued w' = tw_issued w \<and> tw_timed w' = tw_timed w"
  by (auto simp: worker_finish_def split: scheduling_worker.splits)

lemma advance_fields: "tw_issued (advance_scheduling w) = tw_issued w" "tw_timed (advance_scheduling w) = tw_timed w"
  by (simp_all add: advance_scheduling_def take_boundary_step_def commit_epoch_def publish_committed_revision_def
      split: scheduling_state.split)

lemma finished_worker:
  assumes "tw_inv m0 w" "worker_finish (worker_apply w) = Some w'"
  shows "tw_worker w' = NoWorker"
  using assms(2)
  by (cases "tw_worker w")
    (auto simp: worker_finish_def worker_apply_def finish_epoch_def split: scheduling_worker.splits prod.splits if_splits)

lemma advance_spawns:
  assumes "tw_inv m0 w" "tw_worker w = NoWorker"
  shows "\<exists>m r. tw_worker (advance_scheduling w) = Spawned m r"
  using assms
  by (cases "co_state (tw_coordinator w)")
    (auto simp: tw_inv_def advance_scheduling_def take_boundary_step_def commit_epoch_def)

lemma scheduling_round_inv:
  assumes "tw_inv m0 w"
  shows "\<exists>w'. scheduling_round w = Some w' \<and> tw_inv m0 w' \<and> (\<exists>m r. tw_worker w' = Spawned m r) \<and>
    tw_issued w' = tw_issued w \<and> tw_timed w' = tw_timed w"
proof -
  obtain v where v: "worker_finish (worker_apply w) = Some v" "tw_inv m0 v"
    using worker_finish_inv [OF worker_apply_inv [OF assms]] by blast
  have "scheduling_round w = Some (advance_scheduling v)" by (simp add: scheduling_round_def v(1))
  then show ?thesis
    using advance_inv [OF v(2)] advance_spawns [OF v(2) finished_worker [OF assms v(1)]]
      worker_finish_fields [OF v(1)] by (simp add: advance_fields worker_apply_fields)
qed

lemma scheduling_round_commits:
  assumes "tw_inv m0 w" "tw_worker w = Spawned m r" "scheduling_round w = Some w'"
  shows "0 < tw_commits w'" "\<forall>x \<in> set (tw_issued w'). fst x \<le> co_committed (tw_coordinator w')"
proof -
  obtain m' r' q where p: "apply_pending m r (co_pending (tw_coordinator w)) = ((m', r'), q)" by (metis surj_pair)
  have st: "co_state (tw_coordinator w) = Running"
    using assms(1,2) by (cases "co_state (tw_coordinator w)") (auto simp: tw_inv_def)
  then have "manager_inv m0 w m r []" using assms(1,2) by (auto simp: tw_inv_def)
  from apply_pending_inv(2) [OF assms(1) this _ p] st have le: "\<forall>x \<in> set (tw_issued w). fst x \<le> r'" by simp
  have "ep_applied (prepare_epoch m' r') = r'" by (simp add: prepare_epoch_def split: prod.split)
  then have "0 < tw_commits w' \<and> co_committed (tw_coordinator w') = r' \<and> tw_issued w' = tw_issued w"
    using assms(2,3) st p
    by (auto simp: scheduling_round_def worker_apply_def worker_finish_def finish_epoch_def advance_scheduling_def
        take_boundary_step_def commit_epoch_def publish_committed_revision_def)
  then show "0 < tw_commits w'" "\<forall>x \<in> set (tw_issued w'). fst x \<le> co_committed (tw_coordinator w')" using le by simp_all
qed

lemma committed_levels:
  assumes "tw_inv m0 w" "0 < tw_commits w"
  shows "follow (tw_told w) untold q =
    levels_of (tm_tickets (fold apply_operation (map snd (filter (\<lambda>x. is_revision_committed (fst x) (tw_coordinator w)) (tw_issued w))) m0)) q"
  using assms by (simp add: tw_inv_def tickets_upto_def operations_upto_def is_revision_committed_def)


end
