(* ===== verification/TicketClaims.thy ===== *)
theory TicketClaims
  imports TicketWorld
begin

text \<open>
  The properties of chunk tickets, their levels and their scheduling, with witnesses on small worlds.
\<close>

section \<open>Levels\<close>

definition here :: chunk_pos where "here = \<lparr>cx = 0, cz = 0\<rparr>"

definition one_manager :: ticket_manager where
  "one_manager = add_ticket here (full_chunks 0) tm_new"

definition small_manager :: ticket_manager where
  "small_manager = add_ticket here (loading 140) one_manager"

lemma small_manager_ok: "tm_ok one_manager" "tm_ok small_manager"
  unfolding small_manager_def one_manager_def by (simp_all add: add_ticket_ok tm_new_ok ticket_constructors_ok)

text \<open>C30: After propagation the level of a chunk is the least that a single ticket reaches it with, its own level
  plus the distance (coordinates wrap), cut off at the outermost loading level; the same holds for the
  simulation levels, cut off where blocks stop ticking.
\<close>

theorem ticket_levels_are_least:
  assumes "tm_ok m"
  shows "get_level (run_all_updates m) q = least (ticket_reach (Some \<circ> load_level) 141 (tm_tickets m) q) \<and>
    get_simulation_level (run_all_updates m) q = least (ticket_reach simulation_level 129 (tm_tickets m) q)"
  using run_all_updates_ok(4) [OF assms, of q] by (simp_all add: levels_of_tickets)

theorem ticket_levels_are_least_witness:
  "get_level (run_all_updates small_manager) here = least (ticket_reach (Some \<circ> load_level) 141 (tm_tickets small_manager) here)"
  using ticket_levels_are_least [OF small_manager_ok(2)] by blast

text \<open>C31: Whoever applies the change list of a propagation to the levels it knew knows the new levels; no position
  occurs twice, and every entry is a real change.
\<close>

theorem change_list_keeps_in_step:
  assumes "tm_ok m"
  shows "follow (tm_changes (run_all_updates m)) (view m) = view (run_all_updates m) \<and>
    distinct (map lc_pos (tm_changes (run_all_updates m))) \<and>
    (\<forall>c \<in> set (tm_changes (run_all_updates m)). view m (lc_pos c) \<noteq> view (run_all_updates m) (lc_pos c))"
  using run_all_updates_view [OF assms] by blast

theorem change_list_keeps_in_step_witness:
  "distinct (map lc_pos (tm_changes (run_all_updates small_manager)))"
  using change_list_keeps_in_step [OF small_manager_ok(2)] by blast

text \<open>C35: The operations on tickets and the propagation keep the manager well formed (one entry per position, none
  of them empty, no level without a loading level, levels up to date unless marked dirty), and every ticket
  that the constructors make is a good one.
\<close>

theorem ticket_manager_well_formed:
  assumes "tm_ok m"
  shows "tm_ok (add_ticket p (full_chunks a) m) \<and> tm_ok (add_ticket p (simulated_full_chunks a) m) \<and>
    tm_ok (add_ticket p (full_chunks_with_entity_ticking a b) m) \<and> tm_ok (add_ticket p (player_ticket a b) m) \<and>
    tm_ok (snd (remove_ticket p t m)) \<and> tm_ok (snd (remove_all_tickets_at p m)) \<and>
    tm_ok (run_all_updates m) \<and> tm_ok (snd (take_changes m))"
  using assms
  by (simp add: add_ticket_ok remove_ticket_ok remove_all_tickets_at_ok run_all_updates_ok ticket_constructors_ok take_changes_simps)

theorem ticket_manager_well_formed_witness: "tm_ok (snd (remove_ticket here (loading 140) small_manager))"
  using ticket_manager_well_formed [OF small_manager_ok(2)] by blast

text \<open>
  A level lets a chunk be generated up to a status exactly when it is at most the level that a ticket for
  the status is given, so a request for a status is met by its own ticket and by no weaker one.
\<close>

theorem level_for_status_is_exact:
  "meets (generation_status (Some l)) (Some s) \<longleftrightarrow> l \<le> ticket_level_for_status s"
  using covers_level by (simp add: covers_def)

text \<open>C2: The levels keep the dependencies of the generation pyramid: if a chunk's level lets it reach a status,
  then for every step up to that status each neighbour has a level that lets it reach what the step asks of
  chunks at its distance.
\<close>

theorem levels_keep_dependencies:
  assumes "tm_ok m" "get_level (run_all_updates m) p = Some l" "meets (generation_status (Some l)) (Some s)" "s' \<le> s"
    "dep_get (direct_dependencies (get_step_to GENERATION_PYRAMID s')) (chunk_dist p q) = Some need"
    "chunk_dist p q < MAX_RADIUS"
  shows "\<exists>k. get_level (run_all_updates m) q = Some k \<and> meets (generation_status (Some k)) (Some need)"
proof -
  have lv: "get_level (run_all_updates m) r = fst (levels_of (tm_tickets m) r)" for r
    using run_all_updates_ok(4) [OF assms(1), of r] by (metis fst_conv)
  show ?thesis
    using dependencies_covered [OF _ _ assms(4,5,6) refl] assms(2,3) by (simp add: lv covers_def)
qed


lemma one_manager_level: "get_level (run_all_updates one_manager) here = Some 130"
proof -
  have t: "tm_tickets one_manager = [(here, [full_chunks 0])]" by (simp add: one_manager_def add_ticket_def tm_new_def)
  have "chunk_dist here here = 0" by (simp add: chunk_dist_def chebyshev_def)
  then have "130 \<in> ticket_reach (Some \<circ> load_level) 141 (tm_tickets one_manager) here"
      "\<forall>k \<in> ticket_reach (Some \<circ> load_level) 141 (tm_tickets one_manager) here. 130 \<le> k"
    by (simp_all add: t ticket_reach_def full_chunks_def loading_def for_full_chunk_radius_def constants within_def)
  then have "fst (levels_of (tm_tickets one_manager) here) = Some 130" by (simp add: levels_of_tickets least_Some)
  then show ?thesis using run_all_updates_ok(4) [OF small_manager_ok(1), of here] by (metis fst_conv)
qed

theorem levels_keep_dependencies_witness:
  "\<exists>k. get_level (run_all_updates one_manager) \<lparr>cx = 1, cz = 0\<rparr> = Some k \<and> meets (generation_status (Some k)) (Some InitializeLight)"
proof -
  have "chunk_dist here \<lparr>cx = 1, cz = 0\<rparr> = 1" by (simp add: chunk_dist_def chebyshev_def here_def)
  moreover have "dep_get (direct_dependencies (get_step_to GENERATION_PYRAMID Light)) 1 = Some InitializeLight" by code_simp
  moreover have "meets (generation_status (Some 130)) (Some Full)"
    by (simp add: generation_status_def level_is_full_def constants)
  moreover have "Light \<le> Full" by (simp add: less_eq_chunk_status_def)
  ultimately show ?thesis
    using levels_keep_dependencies [OF small_manager_ok(1) one_manager_level, of Full Light "\<lparr>cx = 1, cz = 0\<rparr>" InitializeLight]
    by (simp add: MAX_RADIUS_def)
qed

section \<open>Timed tickets\<close>

text \<open>A tick of the timed tickets looks at each of them once, although expired ones are swapped out under way:
  those that may expire and have no tick left are returned, those that may not are kept as they are, and the
  others are kept with one tick less.
\<close>

theorem tick_handles_each_ticket_once:
  "mset (fst (tick_tickets can_expire ts)) =
     image_mset (ticked can_expire) (filter_mset (\<lambda>t. \<not> expires can_expire t) (mset ts)) \<and>
   mset (snd (tick_tickets can_expire ts)) =
     image_mset (\<lambda>t. (tt_pos t, tt_ticket t)) (filter_mset (expires can_expire) (mset ts))"
  by (simp add: tick_tickets_mset)

text \<open>Every timed ticket expires: if nothing holds its chunk back, a ticket with \<open>k\<close> ticks left survives
  exactly the first \<open>k\<close> ticks, and after \<open>n\<close> of them has \<open>n\<close> less.
\<close>

theorem timed_tickets_expire:
  assumes "\<forall>t \<in> set ts. 0 \<le> sint (ticks_left t)"
  shows "mset (((\<lambda>ts. fst (tick_tickets (\<lambda>_. True) ts)) ^^ n) ts) =
    image_mset (elapsed n) (filter_mset (\<lambda>t. int n \<le> sint (ticks_left t)) (mset ts))"
  by (rule ticks_alive [OF assms])

theorem timed_tickets_expire_witness:
  "((\<lambda>ts. fst (tick_tickets (\<lambda>_. True) ts)) ^^ 301) (snd (add_portal_ticket here [])) = []"
proof -
  have "\<forall>t \<in> set (snd (add_portal_ticket here [])). 0 \<le> sint (ticks_left t)"
    by (simp add: add_portal_ticket_def add_or_reset_def PORTAL_TICKET_TIMEOUT_TICKS_def)
  from timed_tickets_expire [OF this, of 301] show ?thesis
    by (simp add: add_portal_ticket_def add_or_reset_def PORTAL_TICKET_TIMEOUT_TICKS_def del: funpow.simps)
qed

text \<open>Saving the timed tickets and loading them again gives back the portal tickets with the ticks they had left
  and the spawn tickets with a full countdown, in order, and drops ender pearls and teleports.
\<close>

theorem timed_tickets_load_back:
  assumes "timed_ok ts"
  shows "from_persistent (to_persistent ts) = List.map_filter persisted ts"
  by (rule from_to_persistent [OF assms])

theorem timed_tickets_load_back_witness:
  "from_persistent (to_persistent (snd (add_ender_pearl_ticket here (snd (add_spawn_ticket here []))))) =
     snd (add_spawn_ticket here [])"
proof -
  have "timed_ok (snd (add_ender_pearl_ticket here (snd (add_spawn_ticket here []))))"
    by (simp add: add_ender_pearl_ticket_def add_spawn_ticket_def add_or_reset_def timed_ok_def tt_key_def)
  from timed_tickets_load_back [OF this] show ?thesis
    by (simp add: add_ender_pearl_ticket_def add_spawn_ticket_def add_or_reset_def List.map_filter_simps persisted_def I64_MAX_def)
qed

text \<open>C32: The operations that the timed tickets cause keep the manager in step with them: started from the tickets
  that were activated, after any sequence of placing, removing and ticking and once its operations are
  applied, the manager holds at every position exactly the tickets it held for others and one for each timed
  ticket, so nothing leaks and nothing is dropped early.
\<close>

theorem timed_tickets_in_step:
  assumes "run_timed_all actions ts = (ts', ops)"
  shows "held (fold apply_operation ops (activate_all ts m)) p = held m p + timed_held ts' p"
  using run_timed_all_held [OF assms, of "held (activate_all ts m)" "held m" p] by (simp add: held_apply_all activate_all_held)

theorem timed_tickets_in_step_witness:
  "held (fold apply_operation [AddTicket here ender_pearl_ticket] (activate_all [] tm_new)) here = {#ender_pearl_ticket#}"
  using timed_tickets_in_step [of "[PlaceEnderPearlTicket here, PlaceEnderPearlTicket here]" "[]"
      "snd (add_ender_pearl_ticket here [])" "[AddTicket here ender_pearl_ticket]" tm_new here]
  by (simp add: queue_added_def add_ender_pearl_ticket_def add_or_reset_def held_def tm_new_def timed_held_def)

section \<open>Scheduling\<close>

text \<open>C1: Committed means in effect, and nothing else is: in every reachable world that has committed an epoch, the
  levels that the chunk holders were told are the levels of exactly the tickets that result from the
  operations whose revision counts as committed, in the order they were queued.
\<close>

theorem committed_operations_are_in_effect:
  assumes "timed_ok ts" "tw_reachable ts w" "0 < tw_commits w"
  shows "follow (tw_told w) (\<lambda>_. (None, None)) q =
    levels_of (tm_tickets (fold apply_operation
      (map snd (filter (\<lambda>x. is_revision_committed (fst x) (tw_coordinator w)) (tw_issued w))) (activate_all ts tm_new))) q"
  using committed_levels [OF conjunct1 [OF reachable_inv [OF assms(2,1)]] assms(3)] by (simp add: untold_def)

text \<open>C34: The scheduling epochs never trip over their assertion: in every reachable world the worker can finish, and
  the ticket manager is in exactly one place, idle, with the worker, or in a finished epoch.
\<close>

theorem epochs_never_collide:
  assumes "timed_ok ts" "tw_reachable ts w"
  shows "worker_finish w \<noteq> None \<and>
    (case co_state (tw_coordinator w) of
       Running \<Rightarrow> tw_worker w \<noteq> NoWorker
     | _ \<Rightarrow> tw_worker w = NoWorker)"
proof -
  have inv: "tw_inv (activate_all ts tm_new) w" using reachable_inv [OF assms(2,1)] by blast
  then show ?thesis using worker_finish_inv [OF inv]
    by (cases "co_state (tw_coordinator w)"; cases "tw_worker w") (auto simp: tw_inv_def)
qed

text \<open>C33: Queued operations do not wait forever: from every reachable world, two rounds of the worker running to its
  end and the boundary being reached commit every operation queued before, and lose none.
\<close>

theorem two_rounds_commit_everything:
  assumes "timed_ok ts" "tw_reachable ts w"
  shows "\<exists>w'. Option.bind (scheduling_round w) scheduling_round = Some w' \<and> tw_issued w' = tw_issued w \<and>
    tw_timed w' = tw_timed w \<and> (\<forall>x \<in> set (tw_issued w'). is_revision_committed (fst x) (tw_coordinator w'))"
proof -
  have inv: "tw_inv (activate_all ts tm_new) w" using reachable_inv [OF assms(2,1)] by blast
  from scheduling_round_inv [OF inv] obtain v m r where v: "scheduling_round w = Some v" "tw_inv (activate_all ts tm_new) v"
    "tw_worker v = Spawned m r" "tw_issued v = tw_issued w" "tw_timed v = tw_timed w" by blast
  from scheduling_round_inv [OF v(2)] obtain w' where w': "scheduling_round v = Some w'"
    "tw_issued w' = tw_issued v" "tw_timed w' = tw_timed v" by blast
  show ?thesis using v w' scheduling_round_commits(2) [OF v(2,3) w'(1)] by (simp add: is_revision_committed_def)
qed

text \<open>A world where an ender pearl was thrown, for the witnesses.\<close>

definition thrown :: ticket_world where
  "thrown = the (timed_step (PlaceEnderPearlTicket here) (tw_new []))"

lemma thrown_reachable: "tw_reachable [] thrown" "timed_ok []"
proof -
  have "timed_step (PlaceEnderPearlTicket here) (tw_new []) = Some thrown"
    by (simp add: thrown_def timed_step_def queue_added_def add_ender_pearl_ticket_def add_or_reset_def queue_operations_def
        push_batch_def revision_next_def tw_new_def coordinator_new_def pending_default_def)
  from tw_reachable.step [OF tw_reachable.start tw_step.timed [OF this]] show "tw_reachable [] thrown" .
  show "timed_ok []" by (simp add: timed_ok_def)
qed

lemma thrown_issued: "tw_issued thrown = [(1, AddTicket here ender_pearl_ticket)]"
  by (simp add: thrown_def timed_step_def queue_added_def add_ender_pearl_ticket_def add_or_reset_def queue_operations_def
      push_batch_def revision_next_def tw_new_def coordinator_new_def pending_default_def)

theorem two_rounds_commit_everything_witness:
  "\<exists>w'. Option.bind (scheduling_round thrown) scheduling_round = Some w' \<and>
     is_revision_committed 1 (tw_coordinator w')"
  using two_rounds_commit_everything [OF thrown_reachable(2,1)] by (auto simp: thrown_issued)

theorem epochs_never_collide_witness: "worker_finish thrown \<noteq> None"
  using epochs_never_collide [OF thrown_reachable(2,1)] by blast

text \<open>The pearl's world after two rounds.\<close>

definition landed :: ticket_world where
  "landed = the (Option.bind (scheduling_round thrown) scheduling_round)"

lemma scheduling_round_reachable:
  assumes "tw_reachable ts w" "scheduling_round w = Some w'"
  shows "tw_reachable ts w'"
proof -
  obtain v where v: "worker_finish (worker_apply w) = Some v" "w' = advance_scheduling v"
    using assms(2) by (auto simp: scheduling_round_def)
  have "tw_reachable ts v" by (rule tw_reachable.step [OF tw_reachable.step [OF assms(1) tw_step.apply_step] tw_step.finish [OF v(1)]])
  then show ?thesis unfolding v(2) by (rule tw_reachable.step) (rule tw_step.advance)
qed

lemma landed_committed: "tw_reachable [] landed" "0 < tw_commits landed" "tw_issued landed = tw_issued thrown"
  "\<forall>x \<in> set (tw_issued landed). fst x \<le> co_committed (tw_coordinator landed)"
proof -
  have inv: "tw_inv (activate_all [] tm_new) thrown" using reachable_inv [OF thrown_reachable] by blast
  from scheduling_round_inv [OF inv] obtain v m r where v: "scheduling_round thrown = Some v"
    "tw_inv (activate_all [] tm_new) v" "tw_worker v = Spawned m r" "tw_issued v = tw_issued thrown" by blast
  from scheduling_round_inv [OF v(2)] obtain w where w: "scheduling_round v = Some w" "tw_issued w = tw_issued v" by blast
  have "landed = w" by (simp add: landed_def v(1) w(1))
  then show "tw_reachable [] landed" "0 < tw_commits landed" "tw_issued landed = tw_issued thrown"
    "\<forall>x \<in> set (tw_issued landed). fst x \<le> co_committed (tw_coordinator landed)"
    using scheduling_round_reachable [OF scheduling_round_reachable [OF thrown_reachable(1) v(1)] w(1)]
      scheduling_round_commits [OF v(2,3) w(1)] v(4) w(2) by simp_all
qed

theorem committed_operations_are_in_effect_witness:
  "follow (tw_told landed) (\<lambda>_. (None, None)) here = levels_of (tm_tickets (add_ticket here ender_pearl_ticket tm_new)) here"
  using committed_operations_are_in_effect [OF thrown_reachable(2) landed_committed(1,2), of here] landed_committed(4)
  by (simp add: landed_committed(3) thrown_issued is_revision_committed_def activate_all_def)

end
