(* ===== verification/Items.thy ===== *)
theory Items
  imports Prelude "HOL-Library.Multiset"
begin

text \<open>
  Item stacks (\<open>foton-registry/src/item_stack.rs\<close>) and containers of them
  (\<open>foton-core/src/inventory/container/mod.rs\<close>, the player's in \<open>player/player_inventory/container.rs\<close>). Counts
  are integers: \<open>MenuProps\<close> shows that they stay within the stack sizes, far from the bounds of an \<open>i32\<close>.
\<close>

section \<open>Stacks\<close>

text \<open>
  An item with its effective components; what the registry says of it (its stack size, and whether it is
  damaged) is an argument. Air is the item of an empty stack.
\<close>

record item_kind =
  ik_item :: nat
  ik_components :: nat

record item_stack =
  st_kind :: item_kind
  st_count :: int
  opaque_nbt :: "nat option"

record item_facts =
  max_size_of :: "item_kind \<Rightarrow> int"
  is_damaged_of :: "item_kind \<Rightarrow> bool"

definition AIR :: item_kind where "AIR = \<lparr>ik_item = 0, ik_components = 0\<rparr>"

definition st_empty :: item_stack where
  "st_empty = \<lparr>st_kind = AIR, st_count = 0, opaque_nbt = None\<rparr>"

definition st_is_empty :: "item_stack \<Rightarrow> bool" where
  "st_is_empty s \<longleftrightarrow> ik_item (st_kind s) = 0 \<or> st_count s \<le> 0"

definition st_item :: "item_stack \<Rightarrow> nat" where
  "st_item s = (if st_is_empty s then 0 else ik_item (st_kind s))"

definition stack_count :: "item_stack \<Rightarrow> int" where
  "stack_count s = (if st_is_empty s then 0 else st_count s)"

definition set_count :: "int \<Rightarrow> item_stack \<Rightarrow> item_stack" where
  "set_count n s = s\<lparr>st_count := n\<rparr>"

definition st_grow :: "int \<Rightarrow> item_stack \<Rightarrow> item_stack" where
  "st_grow n s = s\<lparr>st_count := st_count s + n\<rparr>"

definition st_shrink :: "int \<Rightarrow> item_stack \<Rightarrow> item_stack" where
  "st_shrink n s = s\<lparr>st_count := st_count s - n\<rparr>"

text \<open>What is split off, and what stays.\<close>

definition st_split :: "int \<Rightarrow> item_stack \<Rightarrow> item_stack \<times> item_stack" where
  "st_split n s = (let take = min n (st_count s) in (s\<lparr>st_count := take\<rparr>, st_shrink take s))"

definition copy_with_count :: "int \<Rightarrow> item_stack \<Rightarrow> item_stack" where
  "copy_with_count n s = (if st_is_empty s then st_empty else s\<lparr>st_count := n\<rparr>)"

definition max_stack_size :: "item_facts \<Rightarrow> item_stack \<Rightarrow> int" where
  "max_stack_size f s = max_size_of f (st_kind s)"

definition is_stackable :: "item_facts \<Rightarrow> item_stack \<Rightarrow> bool" where
  "is_stackable f s \<longleftrightarrow> 1 < max_stack_size f s \<and> \<not> is_damaged_of f (st_kind s)"

definition is_same_item :: "item_stack \<Rightarrow> item_stack \<Rightarrow> bool" where
  "is_same_item a b \<longleftrightarrow> st_item a = st_item b"

definition is_same_item_same_components :: "item_stack \<Rightarrow> item_stack \<Rightarrow> bool" where
  "is_same_item_same_components a b \<longleftrightarrow>
     (if \<not> is_same_item a b then False
      else if st_is_empty a \<and> st_is_empty b then True
      else ik_components (st_kind a) = ik_components (st_kind b))"

definition stack_matches :: "item_stack \<Rightarrow> item_stack \<Rightarrow> bool" where
  "stack_matches a b \<longleftrightarrow> stack_count a = stack_count b \<and> is_same_item_same_components a b"

section \<open>Containers\<close>

text \<open>A container's items, in order. \<open>set_changed\<close> only notifies, and is left out.\<close>

definition container_is_empty :: "item_stack list \<Rightarrow> bool" where
  "container_is_empty items \<longleftrightarrow> (\<forall>s \<in> set items. st_is_empty s)"

definition count_item :: "nat \<Rightarrow> item_stack list \<Rightarrow> int" where
  "count_item item items = sum_list (map stack_count (filter (\<lambda>s. st_item s = item) items))"

definition has_any_of :: "nat list \<Rightarrow> item_stack list \<Rightarrow> bool" where
  "has_any_of wanted items \<longleftrightarrow> (\<exists>s \<in> set items. \<not> st_is_empty s \<and> st_item s \<in> set wanted)"

definition contains_stack :: "item_stack \<Rightarrow> item_stack list \<Rightarrow> bool" where
  "contains_stack s items \<longleftrightarrow> (\<exists>x \<in> set items. \<not> st_is_empty x \<and> is_same_item_same_components x s)"

definition remove_item :: "nat \<Rightarrow> int \<Rightarrow> item_stack list \<Rightarrow> item_stack \<times> item_stack list" where
  "remove_item slot n items =
     (if st_is_empty (items ! slot) \<or> n \<le> 0 then (st_empty, items)
      else (let (taken, rest) = st_split n (items ! slot) in (taken, items[slot := rest])))"

text \<open>The slots in reverse, from the last one on.\<close>

fun remove_from_slots :: "nat \<Rightarrow> int \<Rightarrow> nat list \<Rightarrow> int \<Rightarrow> item_stack list \<Rightarrow> int \<times> item_stack list" where
  "remove_from_slots item n [] removed items = (removed, items)"
| "remove_from_slots item n (slot # slots) removed items =
     (if st_item (items ! slot) \<noteq> item then remove_from_slots item n slots removed items
      else
        (let (taken, rest) = st_split (n - removed) (items ! slot);
             removed = removed + stack_count taken;
             items = items[slot := rest] in
         if removed = n then (removed, items) else remove_from_slots item n slots removed items))"

definition remove_item_type :: "item_kind \<Rightarrow> int \<Rightarrow> item_stack list \<Rightarrow> item_stack \<times> item_stack list" where
  "remove_item_type kind n items =
     (let (removed, items) = remove_from_slots (ik_item kind) n (rev [0..<length items]) 0 items in
      (\<lparr>st_kind = kind, st_count = removed, opaque_nbt = None\<rparr>, items))"

definition clear_content :: "item_stack list \<Rightarrow> int \<times> item_stack list" where
  "clear_content items = (sum_list (map stack_count items), map (\<lambda>_. st_empty) items)"

definition clear_content_matching :: "(item_stack \<Rightarrow> bool) \<Rightarrow> item_stack list \<Rightarrow> int \<times> item_stack list" where
  "clear_content_matching P items =
     (sum_list (map stack_count (filter P items)), map (\<lambda>s. if P s then st_empty else s) items)"

definition matching_item_count :: "item_stack \<Rightarrow> (item_stack \<Rightarrow> bool) \<Rightarrow> int \<Rightarrow> bool \<Rightarrow> int" where
  "matching_item_count s P n counting_only =
     (if st_is_empty s \<or> \<not> P s then 0
      else if counting_only then stack_count s
      else if n < 0 then stack_count s
      else min n (stack_count s))"

definition clear_or_count_matching_stack :: "(item_stack \<Rightarrow> bool) \<Rightarrow> int \<Rightarrow> bool \<Rightarrow> item_stack \<Rightarrow> int \<times> item_stack" where
  "clear_or_count_matching_stack P n counting_only s =
     (let removed = matching_item_count s P n counting_only in
      (removed, if counting_only then s else st_shrink removed s))"

fun clear_or_count_from :: "(item_stack \<Rightarrow> bool) \<Rightarrow> int \<Rightarrow> bool \<Rightarrow> int \<Rightarrow> item_stack list \<Rightarrow> int \<times> item_stack list" where
  "clear_or_count_from P n counting_only cleared [] = (cleared, [])"
| "clear_or_count_from P n counting_only cleared (s # items) =
     (let removed = matching_item_count s P (n - cleared) counting_only;
          s' = (if 0 < removed \<and> \<not> counting_only
                then (if removed = stack_count s then st_empty else st_shrink removed s) else s);
          (cleared, items) = clear_or_count_from P n counting_only (cleared + removed) items
      in (cleared, s' # items))"

definition clear_or_count_matching_items ::
    "(item_stack \<Rightarrow> bool) \<Rightarrow> int \<Rightarrow> bool \<Rightarrow> item_stack list \<Rightarrow> int \<times> item_stack list" where
  "clear_or_count_matching_items P n counting_only items = clear_or_count_from P n counting_only 0 items"

section \<open>Adding a stack\<close>

text \<open>One slot of the first pass: an existing stack of the same item takes what it has space for.\<close>

definition merge_into :: "int \<Rightarrow> nat \<Rightarrow> item_stack \<times> item_stack list \<Rightarrow> item_stack \<times> item_stack list" where
  "merge_into max_size slot st =
     (let (s, items) = st; existing = items ! slot in
      if \<not> st_is_empty existing \<and> is_same_item_same_components existing s \<and> 0 < max_size - stack_count existing
      then (let n = min (stack_count s) (max_size - stack_count existing) in
            (st_shrink n s, items[slot := st_grow n existing]))
      else (s, items))"

text \<open>One slot of the second pass: an empty slot takes what a stack may hold.\<close>

definition fill_empty :: "int \<Rightarrow> nat \<Rightarrow> item_stack \<times> item_stack list \<Rightarrow> item_stack \<times> item_stack list" where
  "fill_empty max_size slot st =
     (let (s, items) = st in
      if st_is_empty (items ! slot)
      then (let (placed, rest) = st_split (min (stack_count s) max_size) s in (rest, items[slot := placed]))
      else (s, items))"

text \<open>A pass over slots that ends when the stack is used up.\<close>

definition pass_slots :: "(nat \<Rightarrow> item_stack \<times> item_stack list \<Rightarrow> item_stack \<times> item_stack list) \<Rightarrow> nat list \<Rightarrow>
    item_stack \<times> item_stack list \<Rightarrow> item_stack \<times> item_stack list" where
  "pass_slots f slots st = fold (\<lambda>slot st. if st_is_empty (fst st) then st else f slot st) slots st"

text \<open>
  \<open>Container::add\<close>: the result, what is left of the stack, and the items. \<open>can_place\<close> is the container's own
  rule, which it asks again with what is left of the stack.
\<close>

definition container_add :: "item_facts \<Rightarrow> int \<Rightarrow> (nat \<Rightarrow> item_stack \<Rightarrow> bool) \<Rightarrow> item_stack \<Rightarrow> item_stack list \<Rightarrow>
    bool \<times> item_stack \<times> item_stack list" where
  "container_add f container_max can_place s items =
     (if st_is_empty s then (True, s, items)
      else
        (let slots = [0..<length items];
             max_size = min container_max (max_stack_size f s);
             placing = (\<lambda>g slot st. if can_place slot (fst st) then g slot st else st);
             st = (if is_stackable f s then pass_slots (placing (merge_into max_size)) slots (s, items) else (s, items));
             (s, items) = pass_slots (placing (fill_empty max_size)) slots st
         in (st_is_empty s, s, items)))"

definition INVENTORY_SIZE :: nat where "INVENTORY_SIZE = 36"
definition CONTAINER_SIZE :: nat where "CONTAINER_SIZE = 43"
definition SLOT_OFFHAND :: nat where "SLOT_OFFHAND = 40"
definition DEFAULT_MAX_STACK :: int where "DEFAULT_MAX_STACK = 99"

text \<open>
  The player's \<open>add\<close>: the selected slot and the offhand first, then the main slots. It runs over cells that
  other slots may share, so the inventory is given by the places of its items.
\<close>

definition inventory_add :: "item_facts \<Rightarrow> nat list \<Rightarrow> nat \<Rightarrow> item_stack \<Rightarrow> item_stack list \<Rightarrow>
    bool \<times> item_stack \<times> item_stack list" where
  "inventory_add f places selected s cells =
     (if st_is_empty s then (True, s, cells)
      else
        (let max_size = min DEFAULT_MAX_STACK (max_stack_size f s);
             st = (if is_stackable f s
                   then pass_slots (\<lambda>slot. merge_into max_size (places ! slot))
                          ([selected, SLOT_OFFHAND] @ filter (\<lambda>slot. slot \<noteq> selected) [0..<INVENTORY_SIZE]) (s, cells)
                   else (s, cells));
             (s, cells) = pass_slots (\<lambda>slot. fill_empty max_size (places ! slot)) [0..<INVENTORY_SIZE] st
         in (st_is_empty s, s, cells)))"

end
