(* ===== verification/Menu.thy ===== *)
theory Menu
  imports Items
begin

text \<open>
  Container clicks: the validated input of \<open>foton-core/src/inventory/click.rs\<close>, the shared behaviour of menus in
  \<open>inventory/menu/behavior.rs\<close> and \<open>menu/mod.rs\<close>, the routes of \<open>menu/layout.rs\<close>, and slots as
  \<open>inventory/slots/slot.rs\<close> gives them by default. A slot is a view of a cell, and two slots may share one.
  Notifications, the client's picture of the slots and the hooks of special menus (results, bundles, plugins) are
  left out: the hooks are the defaults of \<open>MenuKind\<close> and \<open>Slot\<close>.
\<close>

section \<open>Clicks\<close>

datatype fill_direction = Forward | Backward
datatype mouse_button = LeftButton | RightButton
datatype swap_target = Hotbar nat | Offhand
datatype drag_kind = DragLeft | DragRight | DragClone
datatype quick_craft = DragStart drag_kind | DragAdd nat | DragEnd

datatype click =
    Pickup nat mouse_button
  | DropCarried mouse_button
  | QuickMove nat
  | Swap nat swap_target
  | Clone nat
  | Throw nat bool
  | PickupAll nat fill_direction
  | QuickCraft quick_craft

datatype click_type = TPickup | TQuickMove | TSwap | TClone | TThrow | TQuickCraft | TPickupAll

definition SLOT_CLICKED_OUTSIDE :: int where "SLOT_CLICKED_OUTSIDE = - 999"
definition OFFHAND_INVENTORY_SLOT :: nat where "OFFHAND_INVENTORY_SLOT = 40"

fun click_slot :: "click \<Rightarrow> nat option" where
  "click_slot (Pickup slot _) = Some slot"
| "click_slot (QuickMove slot) = Some slot"
| "click_slot (Swap slot _) = Some slot"
| "click_slot (Clone slot) = Some slot"
| "click_slot (Throw slot _) = Some slot"
| "click_slot (PickupAll slot _) = Some slot"
| "click_slot (DropCarried _) = None"
| "click_slot (QuickCraft _) = None"

fun is_valid_for :: "click \<Rightarrow> nat \<Rightarrow> bool" where
  "is_valid_for (Pickup slot _) n = (slot < n)"
| "is_valid_for (QuickMove slot) n = (slot < n)"
| "is_valid_for (Clone slot) n = (slot < n)"
| "is_valid_for (Throw slot _) n = (slot < n)"
| "is_valid_for (PickupAll slot _) n = (slot < n)"
| "is_valid_for (QuickCraft (DragAdd slot)) n = (slot < n)"
| "is_valid_for (Swap slot target) n = (slot < n \<and> (case target of Hotbar i \<Rightarrow> i < 9 | Offhand \<Rightarrow> True))"
| "is_valid_for (DropCarried _) n = True"
| "is_valid_for (QuickCraft (DragStart _)) n = True"
| "is_valid_for (QuickCraft DragEnd) n = True"

definition inventory_slot :: "swap_target \<Rightarrow> nat" where
  "inventory_slot target = (case target of Hotbar i \<Rightarrow> i | Offhand \<Rightarrow> OFFHAND_INVENTORY_SLOT)"

text \<open>
  The raw fields are an \<open>i16\<close> and an \<open>i8\<close>; the drag's phase and kind are its button's low bits, here of the byte
  that the button is.
\<close>

definition parse_slot :: "int \<Rightarrow> nat \<Rightarrow> nat option" where
  "parse_slot slot_num n = (if 0 \<le> slot_num \<and> slot_num < int n then Some (nat slot_num) else None)"

definition parse_button :: "int \<Rightarrow> mouse_button option" where
  "parse_button button = (if button = 0 then Some LeftButton else if button = 1 then Some RightButton else None)"

definition parse_click :: "int \<Rightarrow> int \<Rightarrow> click_type \<Rightarrow> nat \<Rightarrow> click option" where
  "parse_click slot_num button type n =
     (if 0 \<le> slot_num \<and> int n \<le> slot_num then None
      else
        (case type of
           TPickup \<Rightarrow>
             (case parse_button button of
                None \<Rightarrow> None
              | Some b \<Rightarrow> if slot_num = SLOT_CLICKED_OUTSIDE then Some (DropCarried b)
                          else map_option (\<lambda>slot. Pickup slot b) (parse_slot slot_num n))
         | TQuickMove \<Rightarrow> if button = 0 \<or> button = 1 then map_option QuickMove (parse_slot slot_num n) else None
         | TSwap \<Rightarrow>
             (if 0 \<le> button \<and> button \<le> 8 then map_option (\<lambda>slot. Swap slot (Hotbar (nat button))) (parse_slot slot_num n)
              else if button = 40 then map_option (\<lambda>slot. Swap slot Offhand) (parse_slot slot_num n)
              else None)
         | TClone \<Rightarrow> map_option Clone (parse_slot slot_num n)
         | TThrow \<Rightarrow>
             (case parse_slot slot_num n of
                None \<Rightarrow> None
              | Some slot \<Rightarrow> if button = 0 then Some (Throw slot False)
                             else if button = 1 then Some (Throw slot True) else None)
         | TPickupAll \<Rightarrow>
             (case parse_slot slot_num n of
                None \<Rightarrow> None
              | Some slot \<Rightarrow> if button = 0 then Some (PickupAll slot Forward)
                             else if button = 1 then Some (PickupAll slot Backward) else None)
         | TQuickCraft \<Rightarrow>
             (let phase = button mod 4; kind = button div 4 mod 4 in
              if phase = 0 then
                (if kind = 0 then Some (QuickCraft (DragStart DragLeft))
                 else if kind = 1 then Some (QuickCraft (DragStart DragRight))
                 else if kind = 2 then Some (QuickCraft (DragStart DragClone))
                 else None)
              else if phase = 1 then map_option (\<lambda>slot. QuickCraft (DragAdd slot)) (parse_slot slot_num n)
              else if phase = 2 then Some (QuickCraft DragEnd)
              else None)))"

text \<open>
  The share of a slot in a drag. The source divides as floating point numbers, whose floor is the integer
  quotient for counts of stacks.
\<close>

definition place_count :: "item_facts \<Rightarrow> drag_kind \<Rightarrow> nat \<Rightarrow> item_stack \<Rightarrow> int" where
  "place_count f kind slot_count carried =
     (case kind of
        DragLeft \<Rightarrow> st_count carried div int slot_count
      | DragRight \<Rightarrow> 1
      | DragClone \<Rightarrow> max_stack_size f carried)"

definition can_item_quick_replace :: "item_facts \<Rightarrow> item_stack \<Rightarrow> item_stack \<Rightarrow> bool \<Rightarrow> bool" where
  "can_item_quick_replace f slot_item carried ignore_size \<longleftrightarrow>
     (if st_is_empty slot_item then True
      else if \<not> is_same_item_same_components carried slot_item then False
      else st_count slot_item + (if ignore_size then 0 else st_count carried) \<le> max_stack_size f carried)"

section \<open>Menus\<close>

record slot =
  sl_cell :: nat
  sl_max :: int
  sl_may_place :: "item_stack \<Rightarrow> bool"
  sl_may_pickup :: "item_stack \<Rightarrow> bool"

record route =
  ro_from :: "nat \<times> nat"
  ro_targets :: "(nat \<times> nat) list"
  ro_direction :: fill_direction

text \<open>The fixed part: slots, where the player's inventory lies, routes, drained sections, hooks and the player.\<close>

record menu =
  mn_facts :: item_facts
  mn_slots :: "slot list"
  mn_inventory :: "nat list"
  mn_selected :: nat
  mn_routes :: "route list"
  mn_drain :: "(nat \<times> nat) list"
  mn_can_drag_to :: "nat \<Rightarrow> bool"
  mn_can_take_all :: "item_stack \<Rightarrow> nat \<Rightarrow> bool"
  mn_creative :: bool
  mn_can_drop :: bool

record menu_world =
  mw_cells :: "item_stack list"
  mw_carried :: item_stack
  mw_drag :: "drag_kind option"
  mw_drag_slots :: "nat list"
  mw_dropped :: "item_stack list"

abbreviation slot_of :: "menu \<Rightarrow> nat \<Rightarrow> slot" where
  "slot_of m i \<equiv> mn_slots m ! i"

definition get_item :: "menu \<Rightarrow> nat \<Rightarrow> menu_world \<Rightarrow> item_stack" where
  "get_item m i w = mw_cells w ! sl_cell (slot_of m i)"

definition put_item :: "menu \<Rightarrow> nat \<Rightarrow> item_stack \<Rightarrow> menu_world \<Rightarrow> menu_world" where
  "put_item m i s w = w\<lparr>mw_cells := (mw_cells w)[sl_cell (slot_of m i) := s]\<rparr>"

definition may_place :: "menu \<Rightarrow> nat \<Rightarrow> item_stack \<Rightarrow> bool" where
  "may_place m i s = sl_may_place (slot_of m i) s"

definition may_pickup :: "menu \<Rightarrow> nat \<Rightarrow> menu_world \<Rightarrow> bool" where
  "may_pickup m i w = sl_may_pickup (slot_of m i) (get_item m i w)"

definition allow_modification :: "menu \<Rightarrow> nat \<Rightarrow> menu_world \<Rightarrow> bool" where
  "allow_modification m i w \<longleftrightarrow> may_pickup m i w \<and> may_place m i (get_item m i w)"

definition slot_max_for_item :: "menu \<Rightarrow> nat \<Rightarrow> item_stack \<Rightarrow> int" where
  "slot_max_for_item m i s = min (sl_max (slot_of m i)) (max_stack_size (mn_facts m) s)"

text \<open>
  \<open>drop_item\<close> of the player: an entity for a stack that is not empty. The world may refuse to spawn it, and a plugin to have
  it dropped; the stack is then put back into the inventory (\<open>restore_undropped_item\<close>), which is not modelled: the list of
  dropped stacks is of those that were handed over to be dropped.
\<close>

definition drop_item :: "item_stack \<Rightarrow> menu_world \<Rightarrow> menu_world" where
  "drop_item s w = (if st_is_empty s then w else w\<lparr>mw_dropped := mw_dropped w @ [s]\<rparr>)"

definition slot_remove :: "menu \<Rightarrow> nat \<Rightarrow> int \<Rightarrow> menu_world \<Rightarrow> item_stack \<times> menu_world" where
  "slot_remove m i n w =
     (if n \<le> 0 \<or> st_is_empty (get_item m i w) then (st_empty, w)
      else (let (taken, rest) = st_split n (get_item m i w) in (taken, put_item m i rest w)))"

definition try_remove :: "menu \<Rightarrow> nat \<Rightarrow> int \<Rightarrow> int option \<Rightarrow> menu_world \<Rightarrow> item_stack option \<times> menu_world" where
  "try_remove m i n max_n w =
     (let below = (\<lambda>x. case max_n of None \<Rightarrow> x | Some k \<Rightarrow> min x k) in
      if \<not> may_pickup m i w then (None, w)
      else if \<not> allow_modification m i w \<and> below (stack_count (get_item m i w)) < stack_count (get_item m i w) then (None, w)
      else
        (let (taken, w) = slot_remove m i (below n) w in
         if st_is_empty taken then (None, w)
         else (Some taken, if st_is_empty (get_item m i w) then put_item m i st_empty w else w)))"

definition safe_take :: "menu \<Rightarrow> nat \<Rightarrow> int \<Rightarrow> int option \<Rightarrow> menu_world \<Rightarrow> item_stack \<times> menu_world" where
  "safe_take m i n max_n w =
     (case try_remove m i n max_n w of
        (Some taken, w) \<Rightarrow> (taken, w)
      | (None, w) \<Rightarrow> (st_empty, w))"

definition safe_insert :: "menu \<Rightarrow> nat \<Rightarrow> item_stack \<Rightarrow> int \<Rightarrow> menu_world \<Rightarrow> item_stack \<times> menu_world" where
  "safe_insert m i input n w =
     (if st_is_empty input \<or> \<not> may_place m i input then (input, w)
      else
        (let slot_stack = get_item m i w;
             transferable = min (min n (st_count input)) (slot_max_for_item m i input - st_count slot_stack) in
         if transferable \<le> 0 then (input, w)
         else if st_is_empty slot_stack
         then (let (placed, rest) = st_split transferable input in (rest, put_item m i placed w))
         else if is_same_item_same_components slot_stack input
         then (st_shrink transferable input, put_item m i (st_grow transferable slot_stack) w)
         else (input, w)))"

section \<open>Picking up, dropping, throwing\<close>

definition do_pickup :: "menu \<Rightarrow> nat \<Rightarrow> mouse_button \<Rightarrow> menu_world \<Rightarrow> menu_world" where
  "do_pickup m i button w0 =
     (let slot_item = get_item m i w0;
          carried = mw_carried w0;
          w = w0\<lparr>mw_carried := st_empty\<rparr>;
          back = w\<lparr>mw_carried := carried\<rparr>;
          insert_carried =
            (let (rest, w) = safe_insert m i carried (if button = LeftButton then st_count carried else 1) w
             in w\<lparr>mw_carried := rest\<rparr>)
      in
      if st_is_empty slot_item then
        (if \<not> st_is_empty carried \<and> may_place m i carried then insert_carried else back)
      else if st_is_empty carried then
        (let n = (if button = LeftButton then st_count slot_item else (st_count slot_item + 1) div 2) in
         case try_remove m i n None w of
           (Some taken, w) \<Rightarrow> w\<lparr>mw_carried := taken\<rparr>
         | (None, w) \<Rightarrow> w)
      else if is_same_item_same_components slot_item carried then
        (if may_pickup m i w \<and> may_place m i carried then insert_carried
         else if may_pickup m i w then
           (let space = max_stack_size (mn_facts m) carried - st_count carried in
            if 0 < space then
              (case try_remove m i (st_count slot_item) (Some space) w of
                 (Some taken, w) \<Rightarrow> w\<lparr>mw_carried := st_grow (st_count taken) carried\<rparr>
               | (None, w) \<Rightarrow> w\<lparr>mw_carried := carried\<rparr>)
            else back)
         else back)
      else if may_pickup m i w \<and> may_place m i carried \<and> st_count carried \<le> slot_max_for_item m i carried
      then (put_item m i carried w)\<lparr>mw_carried := slot_item\<rparr>
      else back)"

definition drop_carried :: "mouse_button \<Rightarrow> menu_world \<Rightarrow> menu_world" where
  "drop_carried button w =
     (if st_is_empty (mw_carried w) then w
      else if button = LeftButton then drop_item (mw_carried w) (w\<lparr>mw_carried := st_empty\<rparr>)
      else (let (dropped, rest) = st_split 1 (mw_carried w) in drop_item dropped (w\<lparr>mw_carried := rest\<rparr>)))"

definition do_clone :: "menu \<Rightarrow> nat \<Rightarrow> menu_world \<Rightarrow> menu_world" where
  "do_clone m i w =
     (if \<not> mn_creative m \<or> \<not> st_is_empty (mw_carried w) then w
      else if st_is_empty (get_item m i w) then w
      else w\<lparr>mw_carried := copy_with_count (max_stack_size (mn_facts m) (get_item m i w)) (get_item m i w)\<rparr>)"

text \<open>
  The loop of Ctrl+Q. A slot does not refill by itself, so a round leaves it empty; the fuel counts the rounds,
  and two are enough (\<open>throw_rest_ends\<close>).
\<close>

fun throw_rest :: "nat \<Rightarrow> menu \<Rightarrow> nat \<Rightarrow> item_stack \<Rightarrow> menu_world \<Rightarrow> menu_world option" where
  "throw_rest 0 m i dropped w = None"
| "throw_rest (Suc fuel) m i dropped w =
     (if \<not> may_pickup m i w \<or> \<not> mn_can_drop m then Some w
      else if st_is_empty (get_item m i w) \<or> \<not> is_same_item (get_item m i w) dropped then Some w
      else (let (more, w) = safe_take m i (st_count (get_item m i w)) None w in
            if st_is_empty more then Some w else throw_rest fuel m i dropped (drop_item more w)))"

definition do_throw :: "menu \<Rightarrow> nat \<Rightarrow> bool \<Rightarrow> menu_world \<Rightarrow> menu_world option" where
  "do_throw m i whole_stack w =
     (if \<not> st_is_empty (mw_carried w) \<or> \<not> may_pickup m i w \<or> \<not> mn_can_drop m then Some w
      else
        (let (dropped, w) = safe_take m i (if whole_stack then st_count (get_item m i w) else 1) None w;
             w = drop_item dropped w in
         if whole_stack then throw_rest 2 m i dropped w else Some w))"

section \<open>Dragging\<close>

definition reset_quick_craft :: "menu_world \<Rightarrow> menu_world" where
  "reset_quick_craft w = w\<lparr>mw_drag := None, mw_drag_slots := []\<rparr>"

text \<open>One slot of the distribution: what remains of the carried stack, and the cells.\<close>

definition drag_into :: "menu \<Rightarrow> drag_kind \<Rightarrow> nat \<Rightarrow> item_stack \<Rightarrow> nat \<Rightarrow> int \<times> menu_world \<Rightarrow> int \<times> menu_world" where
  "drag_into m kind slot_count source i st =
     (let (remaining, w) = st; slot_item = get_item m i w in
      if can_item_quick_replace (mn_facts m) slot_item (mw_carried w) True \<and> may_place m i (mw_carried w) \<and>
         (kind = DragClone \<or> int slot_count \<le> st_count (mw_carried w)) \<and> mn_can_drag_to m i
      then
        (let current = (if st_is_empty slot_item then 0 else st_count slot_item);
             max_size = min (max_stack_size (mn_facts m) source) (slot_max_for_item m i source);
             new_count = min (place_count (mn_facts m) kind slot_count source + current) max_size
         in (remaining - (new_count - current), put_item m i (set_count new_count source) w))
      else (remaining, w))"

definition finish_quick_craft :: "menu \<Rightarrow> menu_world \<Rightarrow> menu_world" where
  "finish_quick_craft m w =
     (case mw_drag w of
        None \<Rightarrow> reset_quick_craft w
      | Some kind \<Rightarrow>
          (case mw_drag_slots w of
             [] \<Rightarrow> reset_quick_craft w
           | [i] \<Rightarrow>
               (case kind of
                  DragLeft \<Rightarrow> do_pickup m i LeftButton (reset_quick_craft w)
                | DragRight \<Rightarrow> do_pickup m i RightButton (reset_quick_craft w)
                | DragClone \<Rightarrow> reset_quick_craft w)
           | slots \<Rightarrow>
               (if st_is_empty (mw_carried w) then reset_quick_craft w
                else
                  (let source = mw_carried w;
                       (remaining, w) = fold (drag_into m kind (length slots) source) slots (st_count source, w)
                   in reset_quick_craft (w\<lparr>mw_carried := set_count remaining source\<rparr>)))))"

definition do_quick_craft :: "menu \<Rightarrow> quick_craft \<Rightarrow> menu_world \<Rightarrow> menu_world" where
  "do_quick_craft m action w =
     (if (case action of DragStart _ \<Rightarrow> mw_drag w \<noteq> None | _ \<Rightarrow> mw_drag w = None) then reset_quick_craft w
      else if st_is_empty (mw_carried w) then reset_quick_craft w
      else
        (case action of
           DragStart kind \<Rightarrow>
             (if kind = DragClone \<and> \<not> mn_creative m then reset_quick_craft w
              else w\<lparr>mw_drag := Some kind, mw_drag_slots := []\<rparr>)
         | DragAdd i \<Rightarrow>
             (if can_item_quick_replace (mn_facts m) (get_item m i w) (mw_carried w) True \<and> may_place m i (mw_carried w) \<and>
                 (mw_drag w = Some DragClone \<or> int (length (mw_drag_slots w)) < st_count (mw_carried w)) \<and>
                 mn_can_drag_to m i \<and> i \<notin> set (mw_drag_slots w)
              then w\<lparr>mw_drag_slots := mw_drag_slots w @ [i]\<rparr> else w)
         | DragEnd \<Rightarrow> finish_quick_craft m w))"

section \<open>Shift clicks\<close>

definition slots_in :: "nat \<Rightarrow> nat \<Rightarrow> fill_direction \<Rightarrow> nat list" where
  "slots_in start_slot end_slot direction =
     (if direction = Backward then rev [start_slot..<end_slot] else [start_slot..<end_slot])"

text \<open>The first pass stacks onto equal items, the second fills the first empty slot that accepts the stack.\<close>

definition stack_onto :: "menu \<Rightarrow> nat \<Rightarrow> nat \<Rightarrow> bool \<times> item_stack \<times> menu_world \<Rightarrow> bool \<times> item_stack \<times> menu_world" where
  "stack_onto m source dest st =
     (let (changed, s, w) = st; target = get_item m dest w in
      if st_is_empty s \<or> sl_cell (slot_of m dest) = sl_cell (slot_of m source) then st
      else if \<not> st_is_empty target \<and> is_same_item_same_components s target then
        (let total = st_count target + st_count s; max_size = slot_max_for_item m dest target in
         if total \<le> max_size then (True, set_count 0 s, put_item m dest (set_count total target) w)
         else if st_count target < max_size
         then (True, st_shrink (max_size - st_count target) s, put_item m dest (set_count max_size target) w)
         else st)
      else st)"

fun place_first :: "menu \<Rightarrow> nat \<Rightarrow> nat list \<Rightarrow> bool \<times> item_stack \<times> menu_world \<Rightarrow> bool \<times> item_stack \<times> menu_world" where
  "place_first m source [] st = st"
| "place_first m source (dest # dests) (changed, s, w) =
     (if sl_cell (slot_of m dest) = sl_cell (slot_of m source) then place_first m source dests (changed, s, w)
      else if st_is_empty (get_item m dest w) \<and> may_place m dest s then
        (let (placed, rest) = st_split (min (st_count s) (slot_max_for_item m dest s)) s in
         (True, rest, put_item m dest placed w))
      else place_first m source dests (changed, s, w))"

definition move_item_stack_to :: "menu \<Rightarrow> nat \<Rightarrow> item_stack \<Rightarrow> nat \<Rightarrow> nat \<Rightarrow> fill_direction \<Rightarrow> menu_world \<Rightarrow>
    bool \<times> item_stack \<times> menu_world" where
  "move_item_stack_to m source s start_slot end_slot direction w =
     (if end_slot \<le> start_slot then (False, s, w)
      else
        (let dests = slots_in start_slot end_slot direction;
             (changed, s, w) = (if is_stackable (mn_facts m) s then fold (stack_onto m source) dests (False, s, w) else (False, s, w))
         in if st_is_empty s then (changed, s, w) else place_first m source dests (changed, s, w)))"

fun move_to_any :: "menu \<Rightarrow> nat \<Rightarrow> fill_direction \<Rightarrow> (nat \<times> nat) list \<Rightarrow> item_stack \<Rightarrow> menu_world \<Rightarrow>
    bool \<times> item_stack \<times> menu_world" where
  "move_to_any m source direction [] s w = (False, s, w)"
| "move_to_any m source direction (target # targets) s w =
     (let (moved, s, w) = move_item_stack_to m source s (fst target) (snd target) direction w in
      if moved then (True, s, w) else move_to_any m source direction targets s w)"

definition update_quick_move_source :: "menu \<Rightarrow> nat \<Rightarrow> item_stack \<Rightarrow> menu_world \<Rightarrow> menu_world" where
  "update_quick_move_source m i remaining w =
     (if st_is_empty remaining then put_item m i st_empty w else put_item m i remaining w)"

definition quick_move_stack :: "menu \<Rightarrow> nat \<Rightarrow> menu_world \<Rightarrow> item_stack \<times> menu_world" where
  "quick_move_stack m i w =
     (case find (\<lambda>r. fst (ro_from r) \<le> i \<and> i < snd (ro_from r)) (mn_routes m) of
        None \<Rightarrow> (st_empty, w)
      | Some r \<Rightarrow>
          (let clicked = get_item m i w in
           if st_is_empty clicked \<or> \<not> may_pickup m i w then (st_empty, w)
           else
             (let (moved, remaining, w) = move_to_any m i (ro_direction r) (ro_targets r) clicked w in
              if \<not> moved then (st_empty, w)
              else
                (let w = update_quick_move_source m i remaining w in
                 if st_count remaining = st_count clicked then (st_empty, w) else (clicked, w)))))"

text \<open>The loop while the slot still holds the same item; \<open>MenuProps\<close> shows that it ends.\<close>

partial_function (option) quick_move_rest :: "menu \<Rightarrow> nat \<Rightarrow> item_stack \<Rightarrow> menu_world \<Rightarrow> menu_world option" where
  "quick_move_rest m i result w =
     (if st_is_empty result \<or> \<not> is_same_item (get_item m i w) result then Some w
      else (let (result, w) = quick_move_stack m i w in quick_move_rest m i result w))"

definition do_quick_move :: "menu \<Rightarrow> nat \<Rightarrow> menu_world \<Rightarrow> menu_world option" where
  "do_quick_move m i w =
     (if \<not> may_pickup m i w \<or> st_is_empty (get_item m i w) then Some w
      else (let (result, w) = quick_move_stack m i w in quick_move_rest m i result w))"

section \<open>Swapping\<close>

definition inventory_item :: "menu \<Rightarrow> nat \<Rightarrow> menu_world \<Rightarrow> item_stack" where
  "inventory_item m slot w = mw_cells w ! (mn_inventory m ! slot)"

definition put_inventory :: "menu \<Rightarrow> nat \<Rightarrow> item_stack \<Rightarrow> menu_world \<Rightarrow> menu_world" where
  "put_inventory m slot s w = w\<lparr>mw_cells := (mw_cells w)[mn_inventory m ! slot := s]\<rparr>"

definition do_swap :: "menu \<Rightarrow> nat \<Rightarrow> swap_target \<Rightarrow> menu_world \<Rightarrow> menu_world" where
  "do_swap m i with_slot w =
     (let inv = inventory_slot with_slot;
          target = get_item m i w;
          source = inventory_item m inv w in
      if st_is_empty source \<and> st_is_empty target then w
      else if st_is_empty source then
        (if may_pickup m i w then put_item m i st_empty (put_inventory m inv target w) else w)
      else if st_is_empty target then
        (if may_place m i source then
           (if slot_max_for_item m i source < st_count source then
              (let (placed, rest) = st_split (slot_max_for_item m i source) source in
               put_item m i placed (put_inventory m inv rest w))
            else put_item m i source (put_inventory m inv st_empty w))
         else w)
      else if may_pickup m i w \<and> may_place m i source then
        (if slot_max_for_item m i source < st_count source then
           (let (placed, rest) = st_split (slot_max_for_item m i source) source;
                w = put_item m i placed (put_inventory m inv rest w);
                (added, displaced, cells) = inventory_add (mn_facts m) (mn_inventory m) (mn_selected m) target (mw_cells w);
                w = w\<lparr>mw_cells := cells\<rparr> in
            if \<not> added \<and> \<not> mn_creative m then drop_item displaced w else w)
         else put_item m i source (put_inventory m inv target w))
      else w)"

section \<open>Collecting\<close>

definition collect_from :: "menu \<Rightarrow> item_stack \<Rightarrow> nat \<Rightarrow> nat \<Rightarrow> menu_world \<Rightarrow> menu_world" where
  "collect_from m carried_item pass i w =
     (let target = get_item m i w; max_size = max_stack_size (mn_facts m) carried_item in
      if max_size \<le> st_count (mw_carried w) then w
      else if \<not> st_is_empty target \<and> can_item_quick_replace (mn_facts m) target carried_item True \<and> may_pickup m i w \<and>
         mn_can_take_all m carried_item i \<and>
         (pass \<noteq> 0 \<or> st_count target \<noteq> max_stack_size (mn_facts m) target)
      then
        (let can_take = max_size - st_count (mw_carried w);
             (removed, w) = safe_take m i (min (st_count target) can_take) (Some can_take) w
         in w\<lparr>mw_carried := st_grow (min (st_count removed) can_take) (mw_carried w)\<rparr>)
      else w)"

definition do_pickup_all :: "menu \<Rightarrow> nat \<Rightarrow> fill_direction \<Rightarrow> menu_world \<Rightarrow> menu_world" where
  "do_pickup_all m i direction w =
     (if st_is_empty (mw_carried w) \<or> (\<not> st_is_empty (get_item m i w) \<and> may_pickup m i w) then w
      else
        (let order = slots_in 0 (length (mn_slots m)) direction; item = mw_carried w in
         fold (collect_from m item 1) order (fold (collect_from m item 0) order w)))"

section \<open>Clicks and closing\<close>

definition clicked :: "menu \<Rightarrow> click \<Rightarrow> menu_world \<Rightarrow> menu_world option" where
  "clicked m c w =
     (if \<not> is_valid_for c (length (mn_slots m)) then Some w
      else
        (case c of
           QuickCraft action \<Rightarrow> Some (do_quick_craft m action w)
         | _ \<Rightarrow>
             if mw_drag w \<noteq> None then Some (reset_quick_craft w)
             else
               (case c of
                  Pickup i button \<Rightarrow> Some (do_pickup m i button w)
                | DropCarried button \<Rightarrow> Some (drop_carried button w)
                | QuickMove i \<Rightarrow> do_quick_move m i w
                | Swap i target \<Rightarrow> Some (do_swap m i target w)
                | Clone i \<Rightarrow> Some (do_clone m i w)
                | Throw i whole_stack \<Rightarrow> do_throw m i whole_stack w
                | PickupAll i direction \<Rightarrow> Some (do_pickup_all m i direction w)
                | QuickCraft action \<Rightarrow> Some w)))"

definition add_item_or_drop :: "menu \<Rightarrow> item_stack \<Rightarrow> menu_world \<Rightarrow> menu_world" where
  "add_item_or_drop m s w =
     (if st_is_empty s then w
      else
        (let (added, rest, cells) = inventory_add (mn_facts m) (mn_inventory m) (mn_selected m) s (mw_cells w);
             w = w\<lparr>mw_cells := cells\<rparr> in
         if \<not> added \<or> \<not> st_is_empty rest then drop_item rest w else w))"

definition hand_back :: "menu \<Rightarrow> bool \<Rightarrow> item_stack \<Rightarrow> menu_world \<Rightarrow> menu_world" where
  "hand_back m to_inventory s w = (if to_inventory then add_item_or_drop m s w else drop_item s w)"

definition drain_slot :: "menu \<Rightarrow> bool \<Rightarrow> nat \<Rightarrow> menu_world \<Rightarrow> menu_world" where
  "drain_slot m to_inventory i w =
     (let s = get_item m i w; w = put_item m i st_empty w in
      if st_is_empty s then w else hand_back m to_inventory s w)"

definition return_drained_items :: "menu \<Rightarrow> bool \<Rightarrow> menu_world \<Rightarrow> menu_world" where
  "return_drained_items m to_inventory w =
     fold (\<lambda>(start_slot, end_slot). fold (drain_slot m to_inventory) [start_slot..<end_slot]) (mn_drain m) w"

definition menu_removed :: "menu \<Rightarrow> bool \<Rightarrow> menu_world \<Rightarrow> menu_world" where
  "menu_removed m to_inventory w =
     (let carried = mw_carried w; w = w\<lparr>mw_carried := st_empty\<rparr>;
          w = (if st_is_empty carried then w else hand_back m to_inventory carried w)
      in return_drained_items m to_inventory w)"


end
