(* ===== verification/MenuStore.thy ===== *)
theory MenuStore
  imports Menu
begin

text \<open>
  What the claims on container clicks rest on: how much of a kind a stack holds, the interface of a store of
  stacks (a slot exchanges its stack with a hand, and nothing is made or lost), interpreted on lists of items and
  on the slots and the inventory of a menu, and the sizes that stacks keep to.
\<close>

section \<open>Amounts\<close>

definition amount :: "item_kind \<Rightarrow> item_stack \<Rightarrow> int" where
  "amount k s = (if st_is_empty s \<or> st_kind s \<noteq> k then 0 else st_count s)"

definition total :: "item_kind \<Rightarrow> item_stack list \<Rightarrow> int" where
  "total k items = sum_list (map (amount k) items)"

definition held :: "item_kind \<Rightarrow> menu_world \<Rightarrow> int" where
  "held k w = total k (mw_cells w) + amount k (mw_carried w) + total k (mw_dropped w)"

lemma amount_empty [simp]: "st_is_empty s \<Longrightarrow> amount k s = 0"
  by (simp add: amount_def)

lemma st_empty_is_empty [simp]: "st_is_empty st_empty"
  by (simp add: st_is_empty_def st_empty_def)

lemma amount_nonneg [simp]: "0 \<le> amount k s"
  by (simp add: amount_def st_is_empty_def)

lemma total_append [simp]: "total k (xs @ ys) = total k xs + total k ys"
  by (simp add: total_def)

lemma total_Cons [simp]: "total k (s # xs) = amount k s + total k xs"
  by (simp add: total_def)

lemma total_Nil [simp]: "total k [] = 0"
  by (simp add: total_def)

lemma total_update: "c < length xs \<Longrightarrow> total k (xs[c := s]) = total k xs - amount k (xs ! c) + amount k s"
  by (induction xs arbitrary: c) (auto split: nat.splits)

section \<open>Stores of stacks\<close>

text \<open>
  A store is read and written at places, and the amount it holds follows what is written. \<open>deal\<close> is one exchange
  between a place and a hand, \<open>clear\<close> what an emptied place gives.
\<close>

locale stack_store =
  fixes peek :: "'p \<Rightarrow> 's \<Rightarrow> item_stack"
    and poke :: "'p \<Rightarrow> item_stack \<Rightarrow> 's \<Rightarrow> 's"
    and stored :: "item_kind \<Rightarrow> 's \<Rightarrow> int"
    and place :: "'p \<Rightarrow> 's \<Rightarrow> bool"
  assumes stored_poke: "place p st \<Longrightarrow> stored k (poke p s st) = stored k st - amount k (peek p st) + amount k s"
    and place_poke: "place q (poke p s st) = place q st"
begin

lemma deal:
  assumes "place p st" "amount k (peek p st) + amount k hand = amount k s + amount k hand'"
  shows "stored k (poke p s st) + amount k hand' = stored k st + amount k hand"
  using assms by (simp add: stored_poke)

lemma clear: "place p st \<Longrightarrow> stored k (poke p st_empty st) + amount k (peek p st) = stored k st"
  by (simp add: stored_poke)

end

interpretation items: stack_store "\<lambda>c xs. xs ! c" "\<lambda>c s xs. xs[c := s]" total "\<lambda>c xs. c < length xs"
  by unfold_locales (simp_all add: total_update)

interpretation slots: stack_store "get_item m" "put_item m" held "\<lambda>i w. sl_cell (slot_of m i) < length (mw_cells w)" for m
  by unfold_locales (simp_all add: get_item_def put_item_def held_def total_update)

interpretation places: stack_store "inventory_item m" "put_inventory m" held
  "\<lambda>j w. mn_inventory m ! j < length (mw_cells w)" for m
  by unfold_locales (simp_all add: inventory_item_def put_inventory_def held_def total_update)

lemma held_carried: "held k (w\<lparr>mw_carried := s\<rparr>) = held k w - amount k (mw_carried w) + amount k s"
  by (simp add: held_def)

lemma held_drop_item: "held k (drop_item s w) = held k w + amount k s"
  by (simp add: held_def drop_item_def)

lemma held_reset [simp]: "held k (reset_quick_craft w) = held k w"
  by (simp add: held_def reset_quick_craft_def)

section \<open>Equal items\<close>

lemma same_components_kind:
  "\<lbrakk>is_same_item_same_components a b; \<not> st_is_empty a \<or> \<not> st_is_empty b\<rbrakk> \<Longrightarrow>
   st_kind a = st_kind b \<and> \<not> st_is_empty a \<and> \<not> st_is_empty b"
  by (auto simp: is_same_item_same_components_def is_same_item_def st_item_def st_is_empty_def split: if_splits)

lemma stack_count_pos: "\<not> st_is_empty s \<Longrightarrow> stack_count s = st_count s \<and> 0 < st_count s"
  by (simp add: stack_count_def st_is_empty_def)

section \<open>Sizes\<close>

text \<open>A stack that is not empty keeps to its item's stack size and to that of the place.\<close>

definition fits :: "item_facts \<Rightarrow> int \<Rightarrow> item_stack \<Rightarrow> bool" where
  "fits f mx s \<longleftrightarrow> 0 \<le> st_count s \<and> (\<not> st_is_empty s \<longrightarrow> st_count s \<le> mx \<and> st_count s \<le> max_size_of f (st_kind s))"

definition facts_ok :: "item_facts \<Rightarrow> bool" where
  "facts_ok f \<longleftrightarrow> (\<forall>k. 1 \<le> max_size_of f k \<and> max_size_of f k \<le> DEFAULT_MAX_STACK)"

lemma fits_empty [simp]: "fits f mx st_empty"
  by (simp add: fits_def st_empty_def st_is_empty_def AIR_def)

lemma fits_smaller:
  "\<lbrakk>fits f mx s; st_kind t = st_kind s; 0 \<le> st_count t; st_count t \<le> st_count s\<rbrakk> \<Longrightarrow> fits f mx t"
  by (auto simp: fits_def st_is_empty_def)

lemma fits_default: "\<lbrakk>facts_ok f; fits f mx s\<rbrakk> \<Longrightarrow> fits f DEFAULT_MAX_STACK s"
  unfolding fits_def facts_ok_def by (meson order_trans)

lemma fits_larger: "\<lbrakk>fits f mx s; mx \<le> my\<rbrakk> \<Longrightarrow> fits f my s"
  by (auto simp: fits_def)

end
