(* ===== verification/MenuSteps.thy ===== *)
theory MenuSteps
  imports MenuStore
begin

text \<open>
  Every operation of a menu keeps the sizes of the stacks and the amount of every kind: cells, carried stack and
  dropped stacks together. \<open>menu_ok\<close> says how a menu is built, \<open>mw_ok\<close> what its state keeps to.
\<close>

section \<open>Menus that are well built\<close>

definition inventory_place :: "nat \<Rightarrow> bool" where
  "inventory_place j \<longleftrightarrow> j < INVENTORY_SIZE \<or> j = SLOT_OFFHAND"

definition route_in :: "nat \<Rightarrow> nat \<times> nat \<Rightarrow> bool" where
  "route_in n t \<longleftrightarrow> snd t \<le> n"

text \<open>
  Slots and inventory lie in the cells; two slots of a cell agree on its size, and slots on the main inventory
  and the offhand allow the inventory's own size.
\<close>

definition menu_ok :: "menu \<Rightarrow> nat \<Rightarrow> bool" where
  "menu_ok m n \<longleftrightarrow>
     facts_ok (mn_facts m) \<and>
     (\<forall>sl \<in> set (mn_slots m). sl_cell sl < n \<and> 1 \<le> sl_max sl) \<and>
     (\<forall>sl \<in> set (mn_slots m). \<forall>sl' \<in> set (mn_slots m). sl_cell sl = sl_cell sl' \<longrightarrow> sl_max sl = sl_max sl') \<and>
     length (mn_inventory m) = CONTAINER_SIZE \<and> (\<forall>c \<in> set (mn_inventory m). c < n) \<and>
     (\<forall>sl \<in> set (mn_slots m). \<forall>j < CONTAINER_SIZE.
        inventory_place j \<and> sl_cell sl = mn_inventory m ! j \<longrightarrow> DEFAULT_MAX_STACK \<le> sl_max sl) \<and>
     mn_selected m < INVENTORY_SIZE \<and>
     (\<forall>r \<in> set (mn_routes m). \<forall>t \<in> set (ro_targets r). route_in (length (mn_slots m)) t) \<and>
     (\<forall>t \<in> set (mn_drain m). route_in (length (mn_slots m)) t)"

definition cell_fits :: "menu \<Rightarrow> nat \<Rightarrow> item_stack \<Rightarrow> bool" where
  "cell_fits m c s \<longleftrightarrow> fits (mn_facts m) DEFAULT_MAX_STACK s \<and>
     (\<forall>sl \<in> set (mn_slots m). sl_cell sl = c \<longrightarrow> fits (mn_facts m) (sl_max sl) s)"

definition cells_fit :: "menu \<Rightarrow> item_stack list \<Rightarrow> bool" where
  "cells_fit m cells \<longleftrightarrow> (\<forall>c < length cells. cell_fits m c (cells ! c))"

definition mw_ok :: "menu \<Rightarrow> menu_world \<Rightarrow> bool" where
  "mw_ok m w \<longleftrightarrow> cells_fit m (mw_cells w) \<and> fits (mn_facts m) DEFAULT_MAX_STACK (mw_carried w) \<and>
     (\<forall>s \<in> set (mw_dropped w). fits (mn_facts m) DEFAULT_MAX_STACK s) \<and>
     (\<forall>i \<in> set (mw_drag_slots w). i < length (mn_slots m)) \<and> mw_drag w \<noteq> Some DragClone"

text \<open>The relation that every operation satisfies, and that composes.\<close>

definition keeps :: "menu \<Rightarrow> menu_world \<Rightarrow> menu_world \<Rightarrow> bool" where
  "keeps m w w' \<longleftrightarrow> mw_ok m w' \<and> length (mw_cells w') = length (mw_cells w) \<and> (\<forall>k. held k w' = held k w)"

lemma keeps_refl [simp]: "mw_ok m w \<Longrightarrow> keeps m w w"
  by (simp add: keeps_def)

lemma keeps_trans: "\<lbrakk>keeps m w w'; keeps m w' w''\<rbrakk> \<Longrightarrow> keeps m w w''"
  by (simp add: keeps_def)

lemma menu_ok_facts: "menu_ok m n \<Longrightarrow> facts_ok (mn_facts m)"
  by (simp add: menu_ok_def)

lemma menu_ok_cell [simp]: "\<lbrakk>menu_ok m n; i < length (mn_slots m)\<rbrakk> \<Longrightarrow> sl_cell (slot_of m i) < n"
  by (simp add: menu_ok_def)

lemma menu_ok_max: "\<lbrakk>menu_ok m n; i < length (mn_slots m)\<rbrakk> \<Longrightarrow> 1 \<le> sl_max (slot_of m i)"
  by (simp add: menu_ok_def)

lemma inventory_place_less: "inventory_place j \<Longrightarrow> j < CONTAINER_SIZE"
  by (auto simp: inventory_place_def INVENTORY_SIZE_def SLOT_OFFHAND_def CONTAINER_SIZE_def)

lemma menu_ok_place [simp]:
  assumes "menu_ok m n" "inventory_place j"
  shows "mn_inventory m ! j < n"
proof -
  have "mn_inventory m ! j \<in> set (mn_inventory m)"
    using assms inventory_place_less by (simp add: menu_ok_def)
  then show ?thesis
    using assms(1) by (simp add: menu_ok_def)
qed

lemma menu_ok_slot:
  assumes "menu_ok m n" "i < length (mn_slots m)" "sl \<in> set (mn_slots m)" "sl_cell sl = sl_cell (slot_of m i)"
  shows "sl_max sl = sl_max (slot_of m i)"
proof -
  have "slot_of m i \<in> set (mn_slots m)"
    using assms(2) by simp
  then show ?thesis
    using assms unfolding menu_ok_def by blast
qed

lemma menu_ok_place_max:
  assumes "menu_ok m n" "inventory_place j" "sl \<in> set (mn_slots m)" "sl_cell sl = mn_inventory m ! j"
  shows "DEFAULT_MAX_STACK \<le> sl_max sl"
  using assms inventory_place_less [OF assms(2)] unfolding menu_ok_def by blast

lemma inventory_place_swap: "is_valid_for (Swap i t) n \<Longrightarrow> inventory_place (inventory_slot t)"
  by (cases t) (simp_all add: inventory_place_def inventory_slot_def INVENTORY_SIZE_def SLOT_OFFHAND_def OFFHAND_INVENTORY_SLOT_def)

text \<open>What fits into one slot of a cell fits the cell, and what fits the inventory's size fits its places.\<close>

lemma cell_fits_slot:
  assumes "menu_ok m n" "i < length (mn_slots m)" "fits (mn_facts m) (sl_max (slot_of m i)) s"
  shows "cell_fits m (sl_cell (slot_of m i)) s"
  unfolding cell_fits_def
proof (intro conjI ballI impI)
  show "fits (mn_facts m) DEFAULT_MAX_STACK s"
    using assms(1,3) by (intro fits_default) (simp_all add: menu_ok_def)
next
  fix sl assume "sl \<in> set (mn_slots m)" "sl_cell sl = sl_cell (slot_of m i)"
  then show "fits (mn_facts m) (sl_max sl) s"
    using menu_ok_slot [OF assms(1,2)] assms(3) by simp
qed

lemma cell_fits_place:
  assumes "menu_ok m n" "inventory_place j" "fits (mn_facts m) DEFAULT_MAX_STACK s"
  shows "cell_fits m (mn_inventory m ! j) s"
  unfolding cell_fits_def using assms(3) menu_ok_place_max [OF assms(1,2)] by (simp add: fits_larger)

lemma cells_fit_update: "\<lbrakk>cells_fit m cells; cell_fits m c s\<rbrakk> \<Longrightarrow> cells_fit m (cells[c := s])"
  unfolding cells_fit_def by (metis length_list_update nth_list_update_eq nth_list_update_neq)

lemma get_item_fits:
  assumes "menu_ok m (length (mw_cells w))" "mw_ok m w" "i < length (mn_slots m)"
  shows "fits (mn_facts m) (sl_max (slot_of m i)) (get_item m i w)"
  using assms by (auto simp: mw_ok_def cells_fit_def cell_fits_def get_item_def)

lemma get_item_fits_default:
  assumes "menu_ok m (length (mw_cells w))" "mw_ok m w" "i < length (mn_slots m)"
  shows "fits (mn_facts m) DEFAULT_MAX_STACK (get_item m i w)"
  by (rule fits_default [OF menu_ok_facts [OF assms(1)] get_item_fits [OF assms]])

lemma inventory_item_fits:
  assumes "menu_ok m (length (mw_cells w))" "mw_ok m w" "inventory_place j"
  shows "fits (mn_facts m) DEFAULT_MAX_STACK (inventory_item m j w)"
  using assms by (auto simp: mw_ok_def cells_fit_def cell_fits_def inventory_item_def)

section \<open>Elementary updates\<close>

lemma put_item_fields [simp]:
  "length (mw_cells (put_item m i s w)) = length (mw_cells w)"
  "mw_carried (put_item m i s w) = mw_carried w" "mw_drag (put_item m i s w) = mw_drag w"
  "mw_drag_slots (put_item m i s w) = mw_drag_slots w" "mw_dropped (put_item m i s w) = mw_dropped w"
  by (simp_all add: put_item_def)

lemma put_inventory_fields [simp]:
  "length (mw_cells (put_inventory m j s w)) = length (mw_cells w)"
  "mw_carried (put_inventory m j s w) = mw_carried w" "mw_drag (put_inventory m j s w) = mw_drag w"
  "mw_drag_slots (put_inventory m j s w) = mw_drag_slots w" "mw_dropped (put_inventory m j s w) = mw_dropped w"
  by (simp_all add: put_inventory_def)

lemma drop_item_fields [simp]:
  "mw_cells (drop_item s w) = mw_cells w" "mw_carried (drop_item s w) = mw_carried w"
  "mw_drag (drop_item s w) = mw_drag w" "mw_drag_slots (drop_item s w) = mw_drag_slots w"
  by (simp_all add: drop_item_def)

lemma mw_ok_put_item:
  assumes "menu_ok m (length (mw_cells w))" "mw_ok m w" "i < length (mn_slots m)" "fits (mn_facts m) (sl_max (slot_of m i)) s"
  shows "mw_ok m (put_item m i s w)"
  using assms(2) cells_fit_update [OF _ cell_fits_slot [OF assms(1,3,4)]] by (simp add: mw_ok_def put_item_def)

lemma mw_ok_put_inventory:
  assumes "menu_ok m (length (mw_cells w))" "mw_ok m w" "inventory_place j" "fits (mn_facts m) DEFAULT_MAX_STACK s"
  shows "mw_ok m (put_inventory m j s w)"
  using assms(2) cells_fit_update [OF _ cell_fits_place [OF assms(1,3,4)]] by (simp add: mw_ok_def put_inventory_def)

lemma mw_ok_carried: "\<lbrakk>mw_ok m w; fits (mn_facts m) DEFAULT_MAX_STACK s\<rbrakk> \<Longrightarrow> mw_ok m (w\<lparr>mw_carried := s\<rparr>)"
  by (simp add: mw_ok_def)

lemma mw_ok_drop: "\<lbrakk>mw_ok m w; fits (mn_facts m) DEFAULT_MAX_STACK s\<rbrakk> \<Longrightarrow> mw_ok m (drop_item s w)"
  by (simp add: mw_ok_def drop_item_def)

lemma mw_ok_reset [simp]: "mw_ok m w \<Longrightarrow> mw_ok m (reset_quick_craft w)"
  by (simp add: mw_ok_def reset_quick_craft_def)

lemma mw_ok_carried_fits: "mw_ok m w \<Longrightarrow> fits (mn_facts m) DEFAULT_MAX_STACK (mw_carried w)"
  by (simp add: mw_ok_def)

section \<open>Taking from a slot and inserting into it\<close>

text \<open>\<open>parted s t r\<close>: the stack \<open>s\<close> is dealt out as \<open>t\<close>, which is not empty, and \<open>r\<close>, which stays.\<close>

definition parted :: "item_stack \<Rightarrow> item_stack \<Rightarrow> item_stack \<Rightarrow> bool" where
  "parted s t r \<longleftrightarrow> \<not> st_is_empty t \<and> st_kind t = st_kind s \<and> st_count t \<le> st_count s \<and>
     (r = st_empty \<or> st_kind r = st_kind s \<and> 0 \<le> st_count r \<and> st_count r \<le> st_count s) \<and>
     (\<forall>k. amount k s = amount k t + amount k r) \<and> (st_count t = st_count s \<longrightarrow> st_is_empty r)"

lemma parted_split:
  assumes "\<not> st_is_empty s" "0 < n" "st_split n s = (t, r)"
  shows "parted s t r \<and> st_count t \<le> n"
proof -
  have t: "t = s\<lparr>st_count := min n (st_count s)\<rparr>" and r: "r = s\<lparr>st_count := st_count s - min n (st_count s)\<rparr>"
    using assms(3) by (auto simp: st_split_def st_shrink_def Let_def)
  show ?thesis
    using assms(1,2) unfolding t r parted_def amount_def st_is_empty_def by simp
qed

lemma parted_fits: "\<lbrakk>parted s t r; fits f mx s\<rbrakk> \<Longrightarrow> fits f mx t \<and> fits f mx r"
  by (auto simp: parted_def fits_def st_is_empty_def st_empty_def AIR_def)

lemma put_item_twice [simp]: "put_item m i s (put_item m i s' w) = put_item m i s w"
  by (simp add: put_item_def)

lemma get_put_item [simp]: "sl_cell (slot_of m i) < length (mw_cells w) \<Longrightarrow> get_item m i (put_item m i s w) = s"
  by (simp add: get_item_def put_item_def)

lemma slot_remove_cases:
  obtains (none) "slot_remove m i n w = (st_empty, w)" "n \<le> 0 \<or> st_is_empty (get_item m i w)"
  | (some) t r where "slot_remove m i n w = (t, put_item m i r w)" "parted (get_item m i w) t r" "st_count t \<le> n"
      "st_count t = min n (st_count (get_item m i w))"
proof (cases "n \<le> 0 \<or> st_is_empty (get_item m i w)")
  case False
  obtain t r where "st_split n (get_item m i w) = (t, r)"
    by fastforce
  moreover have "st_count t = min n (st_count (get_item m i w))"
    using calculation by (auto simp: st_split_def Let_def)
  ultimately show ?thesis
    using some False parted_split [of "get_item m i w" n t r] by (simp add: slot_remove_def)
qed (auto simp: slot_remove_def intro: none)

lemma parted_put_empty: "\<lbrakk>parted s t r; st_is_empty r\<rbrakk> \<Longrightarrow> parted s t st_empty"
  by (simp add: parted_def)

lemma try_remove_cases:
  assumes "sl_cell (slot_of m i) < length (mw_cells w)"
  obtains (nothing) "try_remove m i n mx w = (None, w)"
  | (taken) t r where "try_remove m i n mx w = (Some t, put_item m i r w)" "parted (get_item m i w) t r"
      "st_count t \<le> n" "\<forall>x. mx = Some x \<longrightarrow> st_count t \<le> x" "mx = None \<longrightarrow> st_count t = min n (st_count (get_item m i w))"
proof -
  define q where "q = (case mx of None \<Rightarrow> n | Some x \<Rightarrow> min n x)"
  have q: "q \<le> n" "\<forall>x. mx = Some x \<longrightarrow> q \<le> x" "mx = None \<longrightarrow> q = n"
    by (auto simp: q_def split: option.splits)
  show ?thesis
  proof (cases "\<not> may_pickup m i w \<or> \<not> allow_modification m i w \<and>
      (case mx of None \<Rightarrow> stack_count (get_item m i w) | Some x \<Rightarrow> min (stack_count (get_item m i w)) x) < stack_count (get_item m i w)")
    case True
    then have "try_remove m i n mx w = (None, w)"
      by (auto simp: try_remove_def)
    then show ?thesis
      by (rule nothing)
  next
    case False
    then have eq: "try_remove m i n mx w =
        (let (taken, w) = slot_remove m i q w in
         if st_is_empty taken then (None, w)
         else (Some taken, if st_is_empty (get_item m i w) then put_item m i st_empty w else w))"
      by (auto simp: try_remove_def q_def)
    show ?thesis
    proof (cases rule: slot_remove_cases [of m i q w])
      case none
      then have "try_remove m i n mx w = (None, w)"
        by (simp add: eq)
      then show ?thesis
        by (rule nothing)
    next
      case (some t r)
      then have "\<not> st_is_empty t"
        by (simp add: parted_def)
      then have "try_remove m i n mx w = (Some t, put_item m i (if st_is_empty r then st_empty else r) w)"
        using some assms by (simp add: eq)
      moreover have "parted (get_item m i w) t (if st_is_empty r then st_empty else r)"
        using some(2) parted_put_empty by simp
      ultimately show ?thesis
        using some(3,4) q by (elim taken) auto
    qed
  qed
qed

lemma safe_take_cases:
  assumes "sl_cell (slot_of m i) < length (mw_cells w)"
  obtains (nothing) "safe_take m i n mx w = (st_empty, w)"
  | (taken) t r where "safe_take m i n mx w = (t, put_item m i r w)" "parted (get_item m i w) t r"
      "st_count t \<le> n" "\<forall>x. mx = Some x \<longrightarrow> st_count t \<le> x" "mx = None \<longrightarrow> st_count t = min n (st_count (get_item m i w))"
  using try_remove_cases [OF assms, of n mx] by (cases) (auto simp: safe_take_def)

lemma fits_set_count:
  "\<lbrakk>0 \<le> n; n \<le> mx; n \<le> max_size_of f (st_kind s)\<rbrakk> \<Longrightarrow> fits f mx (s\<lparr>st_count := n\<rparr>)"
  by (auto simp: fits_def)

lemma safe_insert_cases:
  assumes "fits (mn_facts m) (sl_max (slot_of m i)) (get_item m i w)" "fits (mn_facts m) DEFAULT_MAX_STACK input"
  obtains (none) "safe_insert m i input n w = (input, w)"
  | (some) s rest where "safe_insert m i input n w = (rest, put_item m i s w)"
      "fits (mn_facts m) (sl_max (slot_of m i)) s" "fits (mn_facts m) DEFAULT_MAX_STACK rest"
      "\<And>k. amount k (get_item m i w) + amount k input = amount k s + amount k rest"
proof -
  let ?old = "get_item m i w"
  define q where "q = min (min n (st_count input)) (slot_max_for_item m i input - st_count ?old)"
  show ?thesis
  proof (cases "st_is_empty input \<or> \<not> may_place m i input \<or> q \<le> 0 \<or>
      \<not> st_is_empty ?old \<and> \<not> is_same_item_same_components ?old input")
    case True
    then have "safe_insert m i input n w = (input, w)"
      by (auto simp: safe_insert_def q_def Let_def)
    then show ?thesis
      by (rule none)
  next
    case False
    have q: "0 < q" "q \<le> st_count input" "q \<le> sl_max (slot_of m i) - st_count ?old"
        "q \<le> max_size_of (mn_facts m) (st_kind input) - st_count ?old"
      using False by (auto simp: q_def slot_max_for_item_def max_stack_size_def)
    have old: "0 \<le> st_count ?old"
      using assms(1) by (simp add: fits_def)
    have ne: "\<not> st_is_empty input"
      using False by simp
    have rest: "fits (mn_facts m) DEFAULT_MAX_STACK (st_shrink q input)"
      using assms(2) q by (intro fits_smaller [OF assms(2)]) (simp_all add: st_shrink_def)
    show ?thesis
    proof (cases "st_is_empty ?old")
      case True
      have eq: "safe_insert m i input n w = (st_shrink q input, put_item m i (input\<lparr>st_count := q\<rparr>) w)"
        using False True q(2) unfolding safe_insert_def q_def [symmetric]
        by (simp add: q_def [symmetric] st_split_def Let_def)
      have fit: "fits (mn_facts m) (sl_max (slot_of m i)) (input\<lparr>st_count := q\<rparr>)"
        using q old by (intro fits_set_count) simp_all
      have "amount k ?old + amount k input = amount k (input\<lparr>st_count := q\<rparr>) + amount k (st_shrink q input)" for k
        using True ne q by (simp add: amount_def st_is_empty_def st_shrink_def)
      then show ?thesis
        by (rule some [OF eq fit rest])
    next
      case old_stack: False
      then have same: "is_same_item_same_components ?old input"
        using False by simp
      have kind: "st_kind ?old = st_kind input"
        using same_components_kind [OF same] ne by simp
      have eq: "safe_insert m i input n w = (st_shrink q input, put_item m i (st_grow q ?old) w)"
        using False old_stack same unfolding safe_insert_def q_def [symmetric]
        by (simp add: q_def [symmetric] Let_def)
      have fit: "fits (mn_facts m) (sl_max (slot_of m i)) (st_grow q ?old)"
        using q old kind unfolding st_grow_def by (intro fits_set_count) simp_all
      have "amount k ?old + amount k input = amount k (st_grow q ?old) + amount k (st_shrink q input)" for k
        using old_stack ne q kind by (simp add: amount_def st_is_empty_def st_shrink_def st_grow_def)
      then show ?thesis
        by (rule some [OF eq fit rest])
    qed
  qed
qed

section \<open>The hand and a slot\<close>

lemma put_carried_commute [simp]:
  "put_item m i s (w\<lparr>mw_carried := c\<rparr>) = (put_item m i s w)\<lparr>mw_carried := c\<rparr>"
  "get_item m i (w\<lparr>mw_carried := c\<rparr>) = get_item m i w"
  "may_pickup m i (w\<lparr>mw_carried := c\<rparr>) = may_pickup m i w"
  by (simp_all add: put_item_def get_item_def may_pickup_def)

lemma keeps_exchange:
  assumes "menu_ok m (length (mw_cells w))" "mw_ok m w" "i < length (mn_slots m)"
    "fits (mn_facts m) (sl_max (slot_of m i)) s" "fits (mn_facts m) DEFAULT_MAX_STACK c"
    "\<And>k. amount k (get_item m i w) + amount k (mw_carried w) = amount k s + amount k c"
  shows "keeps m w ((put_item m i s w)\<lparr>mw_carried := c\<rparr>)"
proof -
  have "held k ((put_item m i s w)\<lparr>mw_carried := c\<rparr>) = held k w" for k
    using assms(6) [of k] slots.stored_poke [of m i w k s] assms(1,3) by (simp add: held_carried)
  then show ?thesis
    using mw_ok_put_item [OF assms(1-4)] assms(5) by (simp add: keeps_def mw_ok_carried)
qed

lemma keeps_insert:
  assumes "menu_ok m (length (mw_cells w))" "mw_ok m w" "i < length (mn_slots m)"
  shows "keeps m w (let (rest, w') = safe_insert m i (mw_carried w) n (w\<lparr>mw_carried := st_empty\<rparr>) in w'\<lparr>mw_carried := rest\<rparr>)"
proof -
  have fit: "fits (mn_facts m) (sl_max (slot_of m i)) (get_item m i (w\<lparr>mw_carried := st_empty\<rparr>))"
    using get_item_fits [OF assms] by simp
  show ?thesis
    using fit mw_ok_carried_fits [OF assms(2)]
  proof (cases rule: safe_insert_cases [where n = n])
    case none
    then show ?thesis
      using assms(2) by simp
  next
    case (some s rest)
    then show ?thesis
      using keeps_exchange [OF assms, of s rest] by simp
  qed
qed

end
