(* ===== verification/MenuKeeps.thy ===== *)
theory MenuKeeps
  imports MenuSteps
begin

text \<open>
  The clicks one by one: picking up, dropping, throwing, dragging, shift clicks, swaps and collecting keep what
  \<open>keeps\<close> says, and the two loops end.
\<close>

section \<open>Left and right clicks\<close>

lemma keeps_take:
  assumes "menu_ok m (length (mw_cells w))" "mw_ok m w" "i < length (mn_slots m)"
    "parted (get_item m i w) t r" "fits (mn_facts m) DEFAULT_MAX_STACK c"
    "\<And>k. amount k c = amount k (mw_carried w) + amount k t"
  shows "keeps m w ((put_item m i r w)\<lparr>mw_carried := c\<rparr>)"
proof (rule keeps_exchange [OF assms(1-3)])
  show "fits (mn_facts m) (sl_max (slot_of m i)) r"
    using parted_fits [OF assms(4) get_item_fits [OF assms(1-3)]] by simp
  show "amount k (get_item m i w) + amount k (mw_carried w) = amount k r + amount k c" for k
    using assms(4,6) by (simp add: parted_def)
qed (rule assms(5))

lemma keeps_first_take:
  assumes "menu_ok m (length (mw_cells w))" "mw_ok m w" "i < length (mn_slots m)" "st_is_empty (mw_carried w)"
  shows "keeps m w (case try_remove m i n mx (w\<lparr>mw_carried := st_empty\<rparr>) of
     (Some taken, w) \<Rightarrow> w\<lparr>mw_carried := taken\<rparr> | (None, w) \<Rightarrow> w)"
proof -
  have cell: "sl_cell (slot_of m i) < length (mw_cells (w\<lparr>mw_carried := st_empty\<rparr>))"
    using assms(1,3) by simp
  then show ?thesis
  proof (cases rule: try_remove_cases [where n = n and mx = mx])
    case nothing
    then show ?thesis
      using assms(2,4) by (simp add: keeps_def mw_ok_carried held_carried)
  next
    case (taken t r)
    then have part: "parted (get_item m i w) t r"
      by simp
    have "fits (mn_facts m) DEFAULT_MAX_STACK t"
      using parted_fits [OF part get_item_fits_default [OF assms(1-3)]] by simp
    then show ?thesis
      using taken(1) keeps_take [OF assms(1-3) part, of t] assms(4) by simp
  qed
qed

lemma keeps_grow:
  assumes "menu_ok m (length (mw_cells w))" "mw_ok m w" "i < length (mn_slots m)"
    "\<not> st_is_empty (mw_carried w)" "st_kind (get_item m i w) = st_kind (mw_carried w)"
    "parted (get_item m i w) t r" "st_count t + st_count (mw_carried w) \<le> max_size_of (mn_facts m) (st_kind (mw_carried w))"
  shows "keeps m w ((put_item m i r w)\<lparr>mw_carried := st_grow (st_count t) (mw_carried w)\<rparr>)"
proof -
  have t: "st_kind t = st_kind (mw_carried w)" "0 < st_count t" "\<not> st_is_empty t"
    using assms(5,6) by (auto simp: parted_def st_is_empty_def)
  have "max_size_of (mn_facts m) (st_kind (mw_carried w)) \<le> DEFAULT_MAX_STACK"
    using menu_ok_facts [OF assms(1)] by (simp add: facts_ok_def)
  then have fit: "fits (mn_facts m) DEFAULT_MAX_STACK (st_grow (st_count t) (mw_carried w))"
    using t assms(4,7) unfolding st_grow_def by (intro fits_set_count) (simp_all add: st_is_empty_def)
  have "amount k (st_grow (st_count t) (mw_carried w)) = amount k (mw_carried w) + amount k t" for k
    using t assms(4) by (simp add: amount_def st_grow_def st_is_empty_def)
  from keeps_take [OF assms(1-3) assms(6) fit this] show ?thesis .
qed

lemma keeps_more_take:
  assumes "menu_ok m (length (mw_cells w))" "mw_ok m w" "i < length (mn_slots m)"
    "\<not> st_is_empty (mw_carried w)" "st_kind (get_item m i w) = st_kind (mw_carried w)"
    "x + st_count (mw_carried w) \<le> max_size_of (mn_facts m) (st_kind (mw_carried w))"
  shows "keeps m w (case try_remove m i n (Some x) (w\<lparr>mw_carried := st_empty\<rparr>) of
     (Some taken, v) \<Rightarrow> v\<lparr>mw_carried := st_grow (st_count taken) (mw_carried w)\<rparr>
   | (None, v) \<Rightarrow> v\<lparr>mw_carried := mw_carried w\<rparr>)"
proof -
  have "sl_cell (slot_of m i) < length (mw_cells (w\<lparr>mw_carried := st_empty\<rparr>))"
    using assms(1,3) by simp
  then show ?thesis
  proof (cases rule: try_remove_cases [where n = n and mx = "Some x"])
    case nothing
    then show ?thesis
      using assms(2) by simp
  next
    case (taken t r)
    then have "parted (get_item m i w) t r" "st_count t + st_count (mw_carried w) \<le> max_size_of (mn_facts m) (st_kind (mw_carried w))"
      using assms(6) by auto
    from keeps_grow [OF assms(1-5) this] show ?thesis
      using taken(1) by simp
  qed
qed

lemma do_pickup_keeps:
  assumes "menu_ok m (length (mw_cells w))" "mw_ok m w" "i < length (mn_slots m)"
  shows "keeps m w (do_pickup m i button w)"
proof -
  let ?s = "get_item m i w" and ?c = "mw_carried w"
  let ?n = "if button = LeftButton then st_count ?c else 1"
  consider (slot_empty) "st_is_empty ?s" | (hand_empty) "\<not> st_is_empty ?s" "st_is_empty ?c"
    | (same) "\<not> st_is_empty ?s" "\<not> st_is_empty ?c" "is_same_item_same_components ?s ?c"
    | (other) "\<not> st_is_empty ?s" "\<not> st_is_empty ?c" "\<not> is_same_item_same_components ?s ?c"
    by blast
  then show ?thesis
  proof cases
    case slot_empty
    then show ?thesis
      using keeps_insert [OF assms, of ?n] assms(2) by (simp add: do_pickup_def Let_def)
  next
    case hand_empty
    then show ?thesis
      using keeps_first_take [OF assms hand_empty(2)] by (simp add: do_pickup_def Let_def)
  next
    case same
    let ?space = "max_stack_size (mn_facts m) ?c - st_count ?c"
    have kind: "st_kind ?s = st_kind ?c"
      using same_components_kind [OF same(3)] same by simp
    have more: "keeps m w (case try_remove m i (st_count ?s) (Some ?space) (w\<lparr>mw_carried := st_empty\<rparr>) of
       (Some taken, v) \<Rightarrow> v\<lparr>mw_carried := st_grow (st_count taken) ?c\<rparr> | (None, v) \<Rightarrow> v\<lparr>mw_carried := ?c\<rparr>)"
      using keeps_more_take [OF assms same(2) kind, of ?space] by (simp add: max_stack_size_def)
    show ?thesis
    proof (cases "may_pickup m i w \<and> may_place m i ?c")
      case True
      then show ?thesis
        using keeps_insert [OF assms, of ?n] same by (simp add: do_pickup_def Let_def)
    next
      case False
      then show ?thesis
        using same more assms(2) by (simp add: do_pickup_def Let_def)
    qed
  next
    case other
    have "fits (mn_facts m) (sl_max (slot_of m i)) ?c" if "st_count ?c \<le> slot_max_for_item m i ?c"
      using that mw_ok_carried_fits [OF assms(2)] by (simp add: fits_def slot_max_for_item_def max_stack_size_def)
    from keeps_exchange [OF assms this get_item_fits_default [OF assms]] show ?thesis
      using other assms(2) by (simp add: do_pickup_def Let_def)
  qed
qed

lemma keeps_drop:
  assumes "mw_ok m w" "fits (mn_facts m) DEFAULT_MAX_STACK s" "fits (mn_facts m) DEFAULT_MAX_STACK c"
    "\<And>k. amount k (mw_carried w) = amount k s + amount k c"
  shows "keeps m w (drop_item s (w\<lparr>mw_carried := c\<rparr>))"
  using assms by (simp add: keeps_def mw_ok_drop mw_ok_carried held_drop_item held_carried)

lemma drop_carried_keeps:
  assumes "mw_ok m w"
  shows "keeps m w (drop_carried button w)"
proof (cases "st_is_empty (mw_carried w) \<or> button = LeftButton")
  case True
  then show ?thesis
    using keeps_drop [OF assms mw_ok_carried_fits [OF assms] fits_empty] assms by (auto simp: drop_carried_def)
next
  case False
  obtain t r where d: "st_split 1 (mw_carried w) = (t, r)"
    by fastforce
  then have part: "parted (mw_carried w) t r"
    using parted_split [of "mw_carried w" 1 t r] False by simp
  have "keeps m w (drop_item t (w\<lparr>mw_carried := r\<rparr>))"
    using parted_fits [OF part mw_ok_carried_fits [OF assms]] part by (intro keeps_drop [OF assms]) (auto simp: parted_def)
  then show ?thesis
    using False d by (simp add: drop_carried_def)
qed

section \<open>Throwing\<close>

lemma safe_take_drop_keeps:
  assumes "menu_ok m (length (mw_cells w))" "mw_ok m w" "i < length (mn_slots m)" "safe_take m i n mx w = (t, w')"
  shows "keeps m w (drop_item t w')"
proof -
  have cell: "sl_cell (slot_of m i) < length (mw_cells w)"
    using assms(1,3) by simp
  then show ?thesis
  proof (cases rule: safe_take_cases [where n = n and mx = mx])
    case nothing
    then show ?thesis
      using assms(2,4) by (simp add: keeps_def mw_ok_drop held_drop_item)
  next
    case (taken s r)
    then have d: "t = s" "w' = put_item m i r w"
      using assms(4) by auto
    have r: "fits (mn_facts m) (sl_max (slot_of m i)) r" and s: "fits (mn_facts m) DEFAULT_MAX_STACK s"
      using parted_fits [OF taken(2) get_item_fits [OF assms(1-3)]] parted_fits [OF taken(2) get_item_fits_default [OF assms(1-3)]]
      by simp_all
    have "held k w' + amount k s = held k w" for k
      using slots.deal [of m i w k st_empty r s] cell taken(2) d(2) by (simp add: parted_def)
    then show ?thesis
      using mw_ok_put_item [OF assms(1-3) r] s d by (simp add: keeps_def mw_ok_drop held_drop_item)
  qed
qed

text \<open>Taking all of a slot leaves it empty, so a second round of the loop finds nothing.\<close>

lemma take_all_empties:
  assumes "sl_cell (slot_of m i) < length (mw_cells w)" "safe_take m i (st_count (get_item m i w)) None w = (t, w')"
    "\<not> st_is_empty t"
  shows "st_is_empty (get_item m i (drop_item t w'))"
  using assms(1)
proof (cases rule: safe_take_cases [where n = "st_count (get_item m i w)" and mx = None])
  case nothing
  then show ?thesis
    using assms by simp
next
  case (taken s r)
  then have "st_is_empty r" "w' = put_item m i r w"
    using assms(2) by (auto simp: parted_def)
  then show ?thesis
    using assms(1) by (simp add: get_item_def put_item_def)
qed

lemma throw_rest_ends:
  assumes "menu_ok m (length (mw_cells w))" "mw_ok m w" "i < length (mn_slots m)"
  shows "\<exists>w'. throw_rest (Suc (Suc n)) m i dropped w = Some w' \<and> keeps m w w'"
proof -
  obtain t v where take: "safe_take m i (st_count (get_item m i w)) None w = (t, v)"
    by fastforce
  have step: "keeps m w (drop_item t v)"
    by (rule safe_take_drop_keeps [OF assms take])
  have all: "st_is_empty (get_item m i (drop_item t v))" if "\<not> st_is_empty t"
    using take_all_empties [OF _ take that] assms(1,3) by simp
  have stay: "keeps m w v" if "st_is_empty t"
    using step that by (simp add: drop_item_def)
  show ?thesis
    using take step all stay assms(2) by (simp add: keeps_def)
qed

lemma do_throw_keeps:
  assumes "menu_ok m (length (mw_cells w))" "mw_ok m w" "i < length (mn_slots m)"
  shows "\<exists>w'. do_throw m i whole_stack w = Some w' \<and> keeps m w w'"
proof -
  obtain t v where take: "safe_take m i (if whole_stack then st_count (get_item m i w) else 1) None w = (t, v)"
    by fastforce
  have step: "keeps m w (drop_item t v)"
    by (rule safe_take_drop_keeps [OF assms take])
  then have ok: "menu_ok m (length (mw_cells (drop_item t v)))" "mw_ok m (drop_item t v)"
    using assms(1) by (simp_all add: keeps_def)
  obtain w' where "throw_rest 2 m i t (drop_item t v) = Some w'" "keeps m (drop_item t v) w'"
    using throw_rest_ends [OF ok assms(3), of 0 t] by (auto simp: numeral_2_eq_2)
  then show ?thesis
    using take step assms(2) keeps_trans [OF step] by (auto simp: do_throw_def Let_def)
qed

section \<open>Dragging\<close>

lemma quick_replace_kind:
  "\<lbrakk>can_item_quick_replace f old carried ignore; \<not> st_is_empty old\<rbrakk> \<Longrightarrow> st_kind old = st_kind carried"
  using same_components_kind [of carried old] by (auto simp: can_item_quick_replace_def split: if_splits)

lemma amount_set_count:
  "\<lbrakk>\<not> st_is_empty s; 0 \<le> n\<rbrakk> \<Longrightarrow> amount k (set_count n s) = (if k = st_kind s then n else 0)"
  by (auto simp: amount_def set_count_def st_is_empty_def)

lemma amount_same_kind:
  "st_kind s = st_kind t \<or> st_is_empty s \<Longrightarrow> amount k s = (if k = st_kind t \<and> \<not> st_is_empty s then st_count s else 0)"
  by (auto simp: amount_def)

text \<open>One slot of a drag takes between nothing and its share from what remains.\<close>

lemma drag_into_step:
  assumes menu: "menu_ok m (length (mw_cells w))" "mw_ok m w" "i < length (mn_slots m)"
    and source: "mw_carried w = source" "\<not> st_is_empty source" "kind \<noteq> DragClone"
    and q: "q = (if int n \<le> st_count source then place_count (mn_facts m) kind n source else 0)" "0 \<le> q"
    and d: "drag_into m kind n source i (remaining, w) = (remaining', w')"
  shows "mw_ok m w' \<and> length (mw_cells w') = length (mw_cells w) \<and> mw_carried w' = source \<and>
    remaining - q \<le> remaining' \<and> remaining' \<le> remaining \<and>
    held k w' + (if k = st_kind source then remaining' else 0) = held k w + (if k = st_kind source then remaining else 0)"
proof -
  let ?old = "get_item m i w"
  let ?cur = "if st_is_empty ?old then 0 else st_count ?old"
  let ?max = "min (max_stack_size (mn_facts m) source) (slot_max_for_item m i source)"
  let ?new = "min (place_count (mn_facts m) kind n source + ?cur) ?max"
  show ?thesis
  proof (cases "can_item_quick_replace (mn_facts m) ?old source True \<and> may_place m i source \<and> int n \<le> st_count source \<and> mn_can_drag_to m i")
    case True
    have d': "remaining' = remaining - (?new - ?cur)" "w' = put_item m i (set_count ?new source) w"
      using d True source by (simp_all add: drag_into_def Let_def)
    have kind: "st_kind ?old = st_kind source \<or> st_is_empty ?old"
      using quick_replace_kind True by blast
    have old: "fits (mn_facts m) (sl_max (slot_of m i)) ?old"
      by (rule get_item_fits [OF menu])
    have "1 \<le> max_size_of (mn_facts m) (st_kind source)" "1 \<le> sl_max (slot_of m i)"
      using menu_ok_facts [OF menu(1)] menu_ok_max [OF menu(1,3)] by (simp_all add: facts_ok_def)
    then have cur: "0 \<le> ?cur" "?cur \<le> ?max"
      using old kind by (auto simp: fits_def slot_max_for_item_def max_stack_size_def)
    have new: "?cur \<le> ?new" "?new - ?cur \<le> q"
      using cur q True by auto
    have fit: "fits (mn_facts m) (sl_max (slot_of m i)) (set_count ?new source)"
      using new(1) cur(1) unfolding set_count_def by (intro fits_set_count) (auto simp: slot_max_for_item_def max_stack_size_def)
    have "held k w' = held k w - amount k ?old + amount k (set_count ?new source)"
      using slots.stored_poke [of m i w k] menu d' by simp
    also have "\<dots> = held k w + (if k = st_kind source then ?new - ?cur else 0)"
      using amount_same_kind [OF kind, of k] amount_set_count [OF source(2), of ?new k] new(1) cur(1) by simp
    finally have "held k w' + (if k = st_kind source then remaining' else 0) = held k w + (if k = st_kind source then remaining else 0)"
      using d'(1) by simp
    then show ?thesis
      using mw_ok_put_item [OF menu fit] new d' source(1) by simp
  next
    case False
    then have "drag_into m kind n source i (remaining, w) = (remaining, w)"
      using source by (auto simp: drag_into_def Let_def)
    then show ?thesis
      using d menu(2) source(1) q(2) by simp
  qed
qed

lemma drag_fold:
  assumes "menu_ok m (length (mw_cells w))" "mw_ok m w" "\<forall>i \<in> set slots. i < length (mn_slots m)"
    "mw_carried w = source" "\<not> st_is_empty source" "kind \<noteq> DragClone"
    "q = (if int n \<le> st_count source then place_count (mn_facts m) kind n source else 0)" "0 \<le> q"
    "fold (drag_into m kind n source) slots (remaining, w) = (remaining', w')"
  shows "mw_ok m w' \<and> length (mw_cells w') = length (mw_cells w) \<and> mw_carried w' = source \<and>
    remaining - int (length slots) * q \<le> remaining' \<and> remaining' \<le> remaining \<and>
    held k w' + (if k = st_kind source then remaining' else 0) = held k w + (if k = st_kind source then remaining else 0)"
  using assms(1-4,9)
proof (induction slots arbitrary: remaining w)
  case (Cons i slots)
  obtain r1 w1 where d: "drag_into m kind n source i (remaining, w) = (r1, w1)"
    by fastforce
  note step = drag_into_step [OF Cons.prems(1,2) _ Cons.prems(4) assms(5-8) d]
  have i: "i < length (mn_slots m)"
    using Cons.prems(3) by simp
  have "menu_ok m (length (mw_cells w1))"
    using step [OF i] Cons.prems(1) by metis
  from Cons.IH [OF this, of r1] step [OF i, of k] Cons.prems(3,5) d show ?case
    by (simp add: algebra_simps)
qed simp

lemma keeps_drag:
  assumes "menu_ok m (length (mw_cells w))" "mw_ok m w" "\<not> st_is_empty (mw_carried w)" "kind \<noteq> DragClone"
    "slots \<noteq> []" "\<forall>i \<in> set slots. i < length (mn_slots m)"
    and d: "fold (drag_into m kind (length slots) (mw_carried w)) slots (st_count (mw_carried w), w) = (remaining, v)"
  shows "keeps m w (v\<lparr>mw_carried := set_count remaining (mw_carried w)\<rparr>)"
proof -
  let ?c = "mw_carried w" and ?n = "int (length slots)"
  define q where "q = (if ?n \<le> st_count ?c then place_count (mn_facts m) kind (length slots) ?c else 0)"
  have pos: "0 < st_count ?c" "0 < ?n"
    using assms(3,5) by (simp_all add: st_is_empty_def)
  have "?n * (st_count ?c div ?n) \<le> st_count ?c" "0 \<le> st_count ?c div ?n"
    using pos by (simp_all add: minus_mod_eq_mult_div [symmetric] pos_imp_zdiv_nonneg_iff del: of_nat_0_less_iff)
  then have q: "0 \<le> q" "?n * q \<le> st_count ?c"
    using pos assms(4) by (cases kind; simp add: q_def place_count_def)+
  note run = drag_fold [OF assms(1,2,6) refl assms(3,4) q_def q(1) d]
  have "st_count ?c - ?n * q \<le> remaining" "remaining \<le> st_count ?c"
    using run by blast+
  then have r: "0 \<le> remaining" "remaining \<le> st_count ?c"
    using q(2) by linarith+
  have fit: "fits (mn_facts m) DEFAULT_MAX_STACK (set_count remaining ?c)"
    using r by (intro fits_smaller [OF mw_ok_carried_fits [OF assms(2)]]) (simp_all add: set_count_def)
  have "held k (v\<lparr>mw_carried := set_count remaining ?c\<rparr>) = held k w" for k
    using run [of k] amount_set_count [OF assms(3) r(1), of k] amount_same_kind [of ?c ?c k] assms(3)
    by (simp add: held_carried split: if_splits)
  then show ?thesis
    using run fit by (simp add: keeps_def mw_ok_carried)
qed

lemma reset_fields [simp]:
  "mw_cells (reset_quick_craft w) = mw_cells w" "mw_carried (reset_quick_craft w) = mw_carried w"
  by (simp_all add: reset_quick_craft_def)

lemma keeps_then_reset: "keeps m w v \<Longrightarrow> keeps m w (reset_quick_craft v)"
  by (simp add: keeps_def)

lemma finish_quick_craft_keeps:
  assumes "menu_ok m (length (mw_cells w))" "mw_ok m w"
  shows "keeps m w (finish_quick_craft m w)"
proof -
  have reset: "keeps m w (reset_quick_craft w)"
    using assms(2) by (intro keeps_then_reset) simp
  have slots: "\<forall>i \<in> set (mw_drag_slots w). i < length (mn_slots m)" and clone: "mw_drag w \<noteq> Some DragClone"
    using assms(2) by (simp_all add: mw_ok_def)
  consider (nothing) "mw_drag w = None \<or> mw_drag_slots w = []"
    | (one) kind i where "mw_drag w = Some kind" "mw_drag_slots w = [i]"
    | (many) kind i j js where "mw_drag w = Some kind" "mw_drag_slots w = i # j # js"
    by (cases "mw_drag w"; cases "mw_drag_slots w" rule: remdups_adj.cases) auto
  then show ?thesis
  proof cases
    case nothing
    then show ?thesis
      using reset by (auto simp: finish_quick_craft_def split: option.splits)
  next
    case one
    then have "keeps m w (do_pickup m i button (reset_quick_craft w))" for button
      using slots assms by (intro keeps_trans [OF reset] do_pickup_keeps) simp_all
    then show ?thesis
      using one clone by (cases kind) (simp_all add: finish_quick_craft_def)
  next
    case many
    obtain r v where d: "fold (drag_into m kind (length (mw_drag_slots w)) (mw_carried w)) (mw_drag_slots w) (st_count (mw_carried w), w) = (r, v)"
      by fastforce
    show ?thesis
    proof (cases "st_is_empty (mw_carried w)")
      case True
      then show ?thesis
        using reset many by (simp add: finish_quick_craft_def)
    next
      case False
      have "kind \<noteq> DragClone" "mw_drag_slots w \<noteq> []"
        using many clone by auto
      from keeps_drag [OF assms False this slots d] show ?thesis
        using many d False keeps_then_reset by (simp add: finish_quick_craft_def)
    qed
  qed
qed

lemma do_quick_craft_keeps:
  assumes "menu_ok m (length (mw_cells w))" "mw_ok m w" "\<not> mn_creative m" "is_valid_for (QuickCraft action) (length (mn_slots m))"
  shows "keeps m w (do_quick_craft m action w)"
proof -
  have reset: "keeps m w (reset_quick_craft w)"
    using assms(2) by (intro keeps_then_reset) simp
  show ?thesis
  proof (cases action)
    case (DragStart kind)
    have "keeps m w (w\<lparr>mw_drag := Some kind, mw_drag_slots := []\<rparr>)" if "kind \<noteq> DragClone"
      using that assms(2) by (simp add: keeps_def mw_ok_def held_def)
    then show ?thesis
      using DragStart reset assms(2,3) by (simp add: do_quick_craft_def)
  next
    case (DragAdd i)
    have "keeps m w (w\<lparr>mw_drag_slots := mw_drag_slots w @ [i]\<rparr>)"
      using DragAdd assms(2,4) by (auto simp: keeps_def mw_ok_def held_def)
    then show ?thesis
      using DragAdd reset assms(2) by (simp add: do_quick_craft_def)
  next
    case DragEnd
    then show ?thesis
      using reset finish_quick_craft_keeps [OF assms(1,2)] by (simp add: do_quick_craft_def)
  qed
qed

section \<open>Shift clicks\<close>

text \<open>
  While a stack moves, its slot keeps the whole of it: cells and the moving stack together hold one copy more.
\<close>

definition moving :: "menu \<Rightarrow> nat \<Rightarrow> item_stack \<Rightarrow> menu_world \<Rightarrow> bool \<times> item_stack \<times> menu_world \<Rightarrow> bool" where
  "moving m i stk w0 st \<longleftrightarrow>
     (let (changed, s, w) = st in
      mw_ok m w \<and> length (mw_cells w) = length (mw_cells w0) \<and> get_item m i w = stk \<and>
      st_kind s = st_kind stk \<and> 0 \<le> st_count s \<and> st_count s \<le> st_count stk \<and>
      (\<forall>k. held k w + amount k s = held k w0 + amount k stk) \<and> (\<not> changed \<longrightarrow> s = stk \<and> w = w0))"

lemma moving_put:
  assumes menu: "menu_ok m (length (mw_cells w0))" and mov: "moving m i stk w0 (changed, s, w)"
    and dest: "dest < length (mn_slots m)" "sl_cell (slot_of m dest) \<noteq> sl_cell (slot_of m i)"
    and new: "fits (mn_facts m) (sl_max (slot_of m dest)) t"
      "\<And>k. amount k (get_item m dest w) + amount k s = amount k t + amount k s'"
    and s': "st_kind s' = st_kind s" "0 \<le> st_count s'" "st_count s' \<le> st_count s"
  shows "moving m i stk w0 (True, s', put_item m dest t w)"
proof -
  have w: "menu_ok m (length (mw_cells w))" "mw_ok m w"
    using menu mov by (auto simp: moving_def)
  have "held k (put_item m dest t w) + amount k s' = held k w + amount k s" for k
    using slots.deal [OF _ new(2), of k] w(1) dest(1) by simp
  then show ?thesis
    using mov mw_ok_put_item [OF w dest(1) new(1)] s' dest(2) by (simp add: moving_def) (simp add: get_item_def put_item_def)
qed

lemma stack_onto_moving:
  assumes menu: "menu_ok m (length (mw_cells w0))" and mov: "moving m i stk w0 st"
    and dest: "dest < length (mn_slots m)"
  shows "moving m i stk w0 (stack_onto m i dest st)"
proof -
  obtain changed s w where st: "st = (changed, s, w)"
    by (cases st)
  let ?t = "get_item m dest w"
  let ?max = "slot_max_for_item m dest ?t"
  show ?thesis
  proof (cases "st_is_empty s \<or> sl_cell (slot_of m dest) = sl_cell (slot_of m i) \<or> st_is_empty ?t \<or>
      \<not> is_same_item_same_components s ?t \<or> ?max < st_count ?t + st_count s \<and> ?max \<le> st_count ?t")
    case True
    then have "stack_onto m i dest st = st"
      by (auto simp: st stack_onto_def Let_def)
    then show ?thesis
      using mov by simp
  next
    case False
    have kind: "st_kind s = st_kind ?t"
      using False same_components_kind by blast
    have pos: "0 < st_count ?t" "0 < st_count s" and item: "ik_item (st_kind ?t) \<noteq> 0"
      using False by (auto simp: st_is_empty_def)
    have cell: "sl_cell (slot_of m dest) \<noteq> sl_cell (slot_of m i)"
      using False by simp
    note put = moving_put [OF menu mov [unfolded st] dest cell]
    show ?thesis
    proof (cases "st_count ?t + st_count s \<le> ?max")
      case True
      have "moving m i stk w0 (True, set_count 0 s, put_item m dest (set_count (st_count ?t + st_count s) ?t) w)"
        using True pos kind item unfolding set_count_def
        by (intro put fits_set_count) (auto simp: slot_max_for_item_def max_stack_size_def amount_def st_is_empty_def)
      then show ?thesis
        using False True by (simp add: st stack_onto_def Let_def)
    next
      case big: False
      then have "st_count ?t < ?max"
        using False by auto
      then have "moving m i stk w0 (True, st_shrink (?max - st_count ?t) s, put_item m dest (set_count ?max ?t) w)"
        using big pos kind item unfolding set_count_def st_shrink_def
        by (intro put fits_set_count) (auto simp: slot_max_for_item_def max_stack_size_def amount_def st_is_empty_def)
      then show ?thesis
        using False big by (simp add: st stack_onto_def Let_def)
    qed
  qed
qed

lemma place_first_moving:
  assumes menu: "menu_ok m (length (mw_cells w0))"
  shows "\<lbrakk>moving m i stk w0 (changed, s, w); \<not> st_is_empty s; \<forall>d \<in> set dests. d < length (mn_slots m)\<rbrakk>
    \<Longrightarrow> moving m i stk w0 (place_first m i dests (changed, s, w))"
proof (induction dests)
  case (Cons dest dests)
  let ?t = "get_item m dest w"
  let ?n = "min (st_count s) (slot_max_for_item m dest s)"
  show ?case
  proof (cases "sl_cell (slot_of m dest) \<noteq> sl_cell (slot_of m i) \<and> st_is_empty ?t \<and> may_place m dest s")
    case True
    have dest: "dest < length (mn_slots m)"
      using Cons.prems(3) by simp
    have "1 \<le> sl_max (slot_of m dest)" "1 \<le> max_size_of (mn_facts m) (st_kind s)" "0 < st_count s"
      using menu_ok_max [OF menu dest] menu_ok_facts [OF menu] Cons.prems(2) by (simp_all add: facts_ok_def st_is_empty_def)
    then have n: "0 < ?n" "?n \<le> sl_max (slot_of m dest)" "?n \<le> max_size_of (mn_facts m) (st_kind s)"
      by (simp_all add: slot_max_for_item_def max_stack_size_def min_le_iff_disj)
    obtain t r where d: "st_split ?n s = (t, r)"
      by fastforce
    have t: "t = s\<lparr>st_count := ?n\<rparr>" and r: "r = s\<lparr>st_count := st_count s - ?n\<rparr>"
      using d by (auto simp: st_split_def Let_def st_shrink_def)
    have part: "parted s t r"
      using parted_split [OF Cons.prems(2) n(1) d] by simp
    have "moving m i stk w0 (True, r, put_item m dest t w)"
    proof (rule moving_put [OF menu Cons.prems(1) dest])
      show "fits (mn_facts m) (sl_max (slot_of m dest)) t"
        using n unfolding t by (intro fits_set_count) simp_all
      show "amount k ?t + amount k s = amount k t + amount k r" for k
        using True part by (simp add: parted_def)
    qed (use True n r in simp_all)
    then show ?thesis
      using True d by simp
  next
    case False
    then show ?thesis
      using Cons by auto
  qed
qed simp

lemma slots_in_less: "\<lbrakk>route_in n (a, b); d \<in> set (slots_in a b direction)\<rbrakk> \<Longrightarrow> d < n"
  by (auto simp: slots_in_def route_in_def split: if_splits)

lemma move_item_stack_to_moving:
  assumes menu: "menu_ok m (length (mw_cells w0))"
    and mov: "moving m i stk w0 (False, stk, w0)" "\<not> st_is_empty stk" and range: "route_in (length (mn_slots m)) (a, b)"
  shows "moving m i stk w0 (move_item_stack_to m i stk a b direction w0)"
proof -
  let ?dests = "slots_in a b direction"
  have less: "\<forall>d \<in> set ?dests. d < length (mn_slots m)"
    using slots_in_less [OF range] by blast
  have run: "moving m i stk w0 (fold (stack_onto m i) dests st)"
    if "moving m i stk w0 st" "\<forall>d \<in> set dests. d < length (mn_slots m)" for dests st
    using that stack_onto_moving [OF menu] by (induction dests arbitrary: st) auto
  obtain changed s w where d: "(if is_stackable (mn_facts m) stk then fold (stack_onto m i) ?dests (False, stk, w0) else (False, stk, w0)) = (changed, s, w)"
    by (metis prod_cases3)
  then have st: "moving m i stk w0 (changed, s, w)"
    using run [OF mov(1) less] mov(1) by (auto split: if_splits)
  show ?thesis
    using d st place_first_moving [OF menu st _ less] mov(1) by (simp add: move_item_stack_to_def)
qed

lemma move_to_any_moving:
  assumes menu: "menu_ok m (length (mw_cells w0))" and mov: "moving m i stk w0 (False, stk, w0)" "\<not> st_is_empty stk"
  shows "\<forall>t \<in> set targets. route_in (length (mn_slots m)) t \<Longrightarrow> moving m i stk w0 (move_to_any m i direction targets stk w0)"
proof (induction targets)
  case (Cons t targets)
  obtain moved s w where d: "move_item_stack_to m i stk (fst t) (snd t) direction w0 = (moved, s, w)"
    using prod_cases3 by blast
  have "moving m i stk w0 (moved, s, w)"
    using move_item_stack_to_moving [OF menu mov, of "fst t" "snd t" direction] Cons.prems d by simp
  moreover have "\<not> moved \<Longrightarrow> s = stk \<and> w = w0"
    using calculation by (simp add: moving_def)
  ultimately show ?case
    using Cons d by auto
qed (use mov in simp)

text \<open>One round gives back nothing, or the stack that it made smaller.\<close>

lemma quick_move_stack_keeps:
  assumes menu: "menu_ok m (length (mw_cells w))" "mw_ok m w" "i < length (mn_slots m)"
    and d: "quick_move_stack m i w = (result, w')"
  shows "keeps m w w' \<and>
    (st_is_empty result \<or> st_is_empty (get_item m i w') \<or>
     0 \<le> st_count (get_item m i w') \<and> st_count (get_item m i w') < st_count (get_item m i w))"
proof (cases "find (\<lambda>r. fst (ro_from r) \<le> i \<and> i < snd (ro_from r)) (mn_routes m)")
  case None
  then show ?thesis
    using d menu(2) by (auto simp: quick_move_stack_def)
next
  case (Some r)
  let ?s = "get_item m i w"
  have cell: "sl_cell (slot_of m i) < length (mw_cells w)"
    using menu by simp
  show ?thesis
  proof (cases "st_is_empty ?s \<or> \<not> may_pickup m i w")
    case True
    then have "quick_move_stack m i w = (st_empty, w)"
      using Some by (auto simp: quick_move_stack_def Let_def)
    then show ?thesis
      using d menu(2) by auto
  next
    case False
    obtain moved s v where m: "move_to_any m i (ro_direction r) (ro_targets r) ?s w = (moved, s, v)"
      using prod_cases3 by blast
    have "r \<in> set (mn_routes m)"
      using Some by (auto simp: find_Some_iff)
    then have "\<forall>t \<in> set (ro_targets r). route_in (length (mn_slots m)) t"
      using menu(1) by (simp add: menu_ok_def)
    moreover have "moving m i ?s w (False, ?s, w)"
      using get_item_fits [OF menu] menu(2) by (simp add: moving_def fits_def)
    ultimately have mov: "moving m i ?s w (moved, s, v)"
      using move_to_any_moving [OF menu(1), of i ?s] False m by metis
    show ?thesis
    proof (cases moved)
      case False
      then show ?thesis
        using d m Some \<open>\<not> (st_is_empty ?s \<or> \<not> may_pickup m i w)\<close> mov menu(2)
        by (auto simp: quick_move_stack_def Let_def moving_def)
    next
      case True
      let ?rest = "if st_is_empty s then st_empty else s"
      have v: "menu_ok m (length (mw_cells v))" "mw_ok m v" "get_item m i v = ?s" "length (mw_cells v) = length (mw_cells w)"
        using mov menu(1) by (auto simp: moving_def)
      have s: "st_kind s = st_kind ?s" "0 \<le> st_count s" "st_count s \<le> st_count ?s"
          "\<And>k. held k v + amount k s = held k w + amount k ?s"
        using mov by (auto simp: moving_def)
      have w': "w' = put_item m i ?rest v"
          "result = (if st_count s = st_count ?s then st_empty else ?s)"
        using d m Some False True by (auto simp: quick_move_stack_def Let_def update_quick_move_source_def split: if_splits)
      have fit: "fits (mn_facts m) (sl_max (slot_of m i)) ?rest"
        using fits_smaller [OF get_item_fits [OF menu] s(1-3)] by simp
      have "held k w' = held k w" for k
        using slots.stored_poke [of m i v k ?rest] cell v(3,4) s(4) [of k] w'(1) by (cases "st_is_empty s") simp_all
      then have "keeps m w w'"
        using mw_ok_put_item [OF v(1,2) menu(3) fit] v(4) w'(1) by (simp add: keeps_def)
      moreover have "get_item m i w' = ?rest"
        using w'(1) cell v(4) by simp
      ultimately show ?thesis
        using w'(2) s(2,3) by auto
    qed
  qed
qed

lemma quick_move_rest_keeps:
  assumes "menu_ok m (length (mw_cells w))" "mw_ok m w" "i < length (mn_slots m)"
  shows "\<exists>w'. quick_move_rest m i result w = Some w' \<and> keeps m w w'"
  using assms(1,2)
proof (induction "nat (st_count (get_item m i w))" arbitrary: w result rule: less_induct)
  case less
  obtain res v where d: "quick_move_stack m i w = (res, v)"
    by fastforce
  note step = quick_move_stack_keeps [OF less.prems assms(3) d]
  have v: "menu_ok m (length (mw_cells v))" "mw_ok m v"
    using step less.prems(1) by (auto simp: keeps_def)
  show ?case
  proof (cases "st_is_empty result \<or> \<not> is_same_item (get_item m i w) result")
    case True
    then show ?thesis
      using less.prems(2) by (subst quick_move_rest.simps) auto
  next
    case False
    then have eq: "quick_move_rest m i result w = quick_move_rest m i res v"
      using d by (subst quick_move_rest.simps) simp
    show ?thesis
    proof (cases "st_is_empty res \<or> \<not> is_same_item (get_item m i v) res")
      case True
      then have "quick_move_rest m i res v = Some v"
        by (subst quick_move_rest.simps) auto
      then show ?thesis
        using eq step by simp
    next
      case more: False
      then have "\<not> st_is_empty (get_item m i v)"
        by (auto simp: is_same_item_def st_item_def st_is_empty_def split: if_splits)
      then have "nat (st_count (get_item m i v)) < nat (st_count (get_item m i w))"
        using step more by auto
      from less.hyps [OF this v, of res] obtain w' where "quick_move_rest m i res v = Some w'" "keeps m v w'"
        by blast
      then show ?thesis
        using eq keeps_trans [OF conjunct1 [OF step]] by simp
    qed
  qed
qed

lemma do_quick_move_keeps:
  assumes "menu_ok m (length (mw_cells w))" "mw_ok m w" "i < length (mn_slots m)"
  shows "\<exists>w'. do_quick_move m i w = Some w' \<and> keeps m w w'"
proof -
  obtain res v where d: "quick_move_stack m i w = (res, v)"
    by fastforce
  note step = quick_move_stack_keeps [OF assms d]
  then have "menu_ok m (length (mw_cells v))" "mw_ok m v"
    using assms(1) by (auto simp: keeps_def)
  from quick_move_rest_keeps [OF this assms(3), of res]
  obtain w' where "quick_move_rest m i res v = Some w'" "keeps m v w'"
    by blast
  then show ?thesis
    using d assms(2) keeps_trans [OF conjunct1 [OF step]] by (simp add: do_quick_move_def)
qed

end
