(* ===== verification/MenuClicks.thy ===== *)
theory MenuClicks
  imports MenuKeeps
begin

text \<open>
  Adding to containers, swaps, collecting, and closing a menu; and what every click does with all of it.
\<close>

section \<open>Adding a stack to a container\<close>

lemma merge_into_deals:
  assumes "c < length cells" "merge_into mx c (s, cells) = (s', cells')"
  shows "total k cells' + amount k s' = total k cells + amount k s \<and> length cells' = length cells"
proof (cases "\<not> st_is_empty (cells ! c) \<and> is_same_item_same_components (cells ! c) s \<and> 0 < mx - stack_count (cells ! c)")
  case True
  define n where "n = min (stack_count s) (mx - stack_count (cells ! c))"
  have d: "s' = st_shrink n s" "cells' = cells[c := st_grow n (cells ! c)]"
    using assms(2) True by (auto simp: merge_into_def Let_def n_def)
  have kind: "st_kind (cells ! c) = st_kind s" "\<not> st_is_empty s"
    using True same_components_kind by blast+
  have "0 < n" "n \<le> st_count s"
    using stack_count_pos [OF kind(2)] True by (simp_all add: n_def)
  then have "amount k (cells ! c) + amount k s = amount k (st_grow n (cells ! c)) + amount k s'"
    using kind True unfolding d(1) by (simp add: amount_def st_grow_def st_shrink_def st_is_empty_def)
  from items.deal [OF assms(1) this] show ?thesis
    by (simp add: d(2))
next
  case False
  then have "s' = s" "cells' = cells"
    using assms(2) by (auto simp: merge_into_def Let_def split: if_splits)
  then show ?thesis
    by simp
qed

lemma fill_empty_deals:
  assumes "c < length cells" "\<not> st_is_empty s" "1 \<le> mx" "fill_empty mx c (s, cells) = (s', cells')"
  shows "total k cells' + amount k s' = total k cells + amount k s \<and> length cells' = length cells"
proof (cases "st_is_empty (cells ! c)")
  case True
  obtain t r where d: "st_split (min (stack_count s) mx) s = (t, r)"
    by fastforce
  have "parted s t r"
    using parted_split [OF assms(2) _ d] assms(3) stack_count_pos [OF assms(2)] by simp
  then have "amount k (cells ! c) + amount k s = amount k t + amount k r"
    using True by (simp add: parted_def)
  from items.deal [OF assms(1) this] show ?thesis
    using assms(4) True d by (auto simp: fill_empty_def)
next
  case False
  then show ?thesis
    using assms(4) by (simp add: fill_empty_def)
qed

text \<open>A pass that may also skip slots, as both kinds of container make it.\<close>

lemma pass_deals:
  assumes step: "\<And>slot s cells s' cells'. \<lbrakk>at slot < length cells; \<not> st_is_empty s; f slot (s, cells) = (s', cells')\<rbrakk> \<Longrightarrow>
      total k cells' + amount k s' = total k cells + amount k s \<and> length cells' = length cells"
    and "\<forall>slot \<in> set slots. at slot < length cells" "pass_slots f slots (s, cells) = (s', cells')"
  shows "total k cells' + amount k s' = total k cells + amount k s \<and> length cells' = length cells"
  using assms(2,3)
proof (induction slots arbitrary: s cells)
  case (Cons slot slots)
  obtain s1 cells1 where d: "(if st_is_empty s then (s, cells) else f slot (s, cells)) = (s1, cells1)"
    by fastforce
  have one: "total k cells1 + amount k s1 = total k cells + amount k s \<and> length cells1 = length cells"
    using step [of slot cells s s1 cells1] d Cons.prems(1) by (auto split: if_splits)
  have "pass_slots f slots (s1, cells1) = (s', cells')"
    using Cons.prems(2) d by (simp add: pass_slots_def)
  from Cons.IH [OF _ this] show ?case
    using one Cons.prems(1) by simp
qed (simp add: pass_slots_def)

lemma container_add_deals:
  assumes "facts_ok f" "1 \<le> mx" "container_add f mx can_place s items = (added, s', items')"
  shows "total k items' + amount k s' = total k items + amount k s \<and> length items' = length items \<and> (added \<longleftrightarrow> st_is_empty s')"
proof (cases "st_is_empty s")
  case False
  let ?max = "min mx (max_stack_size f s)"
  let ?pass = "\<lambda>g. pass_slots (\<lambda>slot st. if can_place slot (fst st) then g slot st else st) [0..<length items]"
  have max: "1 \<le> ?max"
    using assms(1,2) by (simp add: facts_ok_def max_stack_size_def)
  obtain s1 items1 where first: "(if is_stackable f s then ?pass (merge_into ?max) (s, items) else (s, items)) = (s1, items1)"
    by fastforce
  have one: "total k items1 + amount k s1 = total k items + amount k s \<and> length items1 = length items"
  proof (cases "is_stackable f s")
    case True
    show ?thesis
      by (rule pass_deals [where at = "\<lambda>slot. slot" and slots = "[0..<length items]"])
         (use True first merge_into_deals in \<open>auto split: if_splits\<close>)
  qed (use first in simp)
  obtain s2 items2 where second: "?pass (fill_empty ?max) (s1, items1) = (s2, items2)"
    by fastforce
  have two: "total k items2 + amount k s2 = total k items1 + amount k s1 \<and> length items2 = length items1"
    by (rule pass_deals [where at = "\<lambda>slot. slot" and slots = "[0..<length items]"])
       (use one second fill_empty_deals [OF _ _ max] in \<open>auto split: if_splits\<close>)
  have "container_add f mx can_place s items = (st_is_empty s2, s2, items2)"
    using False first second by (simp add: container_add_def Let_def)
  then show ?thesis
    using assms(3) one two by simp
qed (use assms(3) in \<open>auto simp: container_add_def\<close>)

section \<open>Adding to the player's inventory\<close>

lemma pass_keeps:
  assumes "\<And>slot s cells. \<lbrakk>slot \<in> set slots; \<not> st_is_empty s; I (s, cells)\<rbrakk> \<Longrightarrow> I (f slot (s, cells))" "I (s, cells)"
  shows "I (pass_slots f slots (s, cells))"
  using assms
proof (induction slots arbitrary: s cells)
  case (Cons slot slots)
  obtain s1 cells1 where d: "(if st_is_empty s then (s, cells) else f slot (s, cells)) = (s1, cells1)"
    by fastforce
  have "I (s1, cells1)"
    using Cons.prems(1) [of slot s cells] d Cons.prems(2) by (auto split: if_splits)
  then have "I (pass_slots f slots (s1, cells1))"
    using Cons.prems(1) by (intro Cons.IH) auto
  then show ?case
    using d by (simp add: pass_slots_def)
qed (simp add: pass_slots_def)

text \<open>What a pass over the inventory keeps of the sizes: of the cells, and of a stack of one kind.\<close>

definition stocked :: "menu \<Rightarrow> nat \<Rightarrow> item_kind \<Rightarrow> item_stack \<times> item_stack list \<Rightarrow> bool" where
  "stocked m n kind st \<longleftrightarrow> cells_fit m (snd st) \<and> length (snd st) = n \<and> st_kind (fst st) = kind \<and>
     fits (mn_facts m) DEFAULT_MAX_STACK (fst st)"

lemma merge_into_stocked:
  assumes "menu_ok m n" "inventory_place j" "stocked m n kind (s, cells)" "\<not> st_is_empty s"
    "mx \<le> DEFAULT_MAX_STACK" "mx \<le> max_size_of (mn_facts m) kind"
  shows "stocked m n kind (merge_into mx (mn_inventory m ! j) (s, cells))"
proof -
  let ?c = "mn_inventory m ! j"
  define q where "q = min (stack_count s) (mx - stack_count (cells ! ?c))"
  have fit: "cells_fit m cells" "length cells = n" "st_kind s = kind" "fits (mn_facts m) DEFAULT_MAX_STACK s"
    using assms(3) by (simp_all add: stocked_def)
  show ?thesis
  proof (cases "\<not> st_is_empty (cells ! ?c) \<and> is_same_item_same_components (cells ! ?c) s \<and> 0 < mx - stack_count (cells ! ?c)")
    case True
    have d: "merge_into mx ?c (s, cells) = (st_shrink q s, cells[?c := st_grow q (cells ! ?c)])"
      using True by (auto simp: merge_into_def Let_def q_def)
    have kind: "st_kind (cells ! ?c) = kind"
      using True same_components_kind fit(3) by blast
    have q: "0 < q" "q \<le> st_count s" "st_count (cells ! ?c) + q \<le> mx" "0 < st_count (cells ! ?c)"
      using True stack_count_pos [OF assms(4)] stack_count_pos [of "cells ! ?c"] by (auto simp: q_def)
    then have "fits (mn_facts m) DEFAULT_MAX_STACK (st_grow q (cells ! ?c))"
      using assms(5,6) kind unfolding st_grow_def by (intro fits_set_count) simp_all
    then have "cells_fit m (cells[?c := st_grow q (cells ! ?c)])"
      by (intro cells_fit_update [OF fit(1) cell_fits_place [OF assms(1,2)]])
    moreover have "fits (mn_facts m) DEFAULT_MAX_STACK (st_shrink q s)"
      using q by (intro fits_smaller [OF fit(4)]) (simp_all add: st_shrink_def)
    ultimately show ?thesis
      using fit by (simp add: d stocked_def) (simp add: st_shrink_def)
  next
    case False
    then show ?thesis
      using assms(3) by (auto simp: merge_into_def Let_def)
  qed
qed

lemma fill_empty_stocked:
  assumes "menu_ok m n" "inventory_place j" "stocked m n kind (s, cells)" "\<not> st_is_empty s" "1 \<le> mx"
  shows "stocked m n kind (fill_empty mx (mn_inventory m ! j) (s, cells))"
proof (cases "st_is_empty (cells ! (mn_inventory m ! j))")
  case True
  have st: "cells_fit m cells" "length cells = n" "st_kind s = kind" "fits (mn_facts m) DEFAULT_MAX_STACK s"
    using assms(3) by (simp_all add: stocked_def)
  obtain t r where d: "st_split (min (stack_count s) mx) s = (t, r)"
    by fastforce
  have "parted s t r"
    using parted_split [OF assms(4) _ d] assms(5) stack_count_pos [OF assms(4)] by simp
  then have fit: "fits (mn_facts m) DEFAULT_MAX_STACK t" "fits (mn_facts m) DEFAULT_MAX_STACK r"
    using parted_fits st(4) by blast+
  have "st_kind r = st_kind s"
    using d by (auto simp: st_split_def Let_def st_shrink_def)
  then show ?thesis
    using True d fit st cells_fit_update [OF st(1) cell_fits_place [OF assms(1,2) fit(1)]]
    by (simp add: fill_empty_def stocked_def)
next
  case False
  then show ?thesis
    using assms(3) by (simp add: fill_empty_def)
qed

definition adds :: "menu \<Rightarrow> item_stack \<Rightarrow> item_stack list \<Rightarrow> item_stack \<Rightarrow> item_stack list \<Rightarrow> bool" where
  "adds m s cells s' cells' \<longleftrightarrow>
     (\<forall>k. total k cells' + amount k s' = total k cells + amount k s) \<and> length cells' = length cells \<and>
     cells_fit m cells' \<and> fits (mn_facts m) DEFAULT_MAX_STACK s'"

lemma inventory_add_adds:
  assumes menu: "menu_ok m (length cells)" "cells_fit m cells" "fits (mn_facts m) DEFAULT_MAX_STACK s"
    and d: "inventory_add (mn_facts m) (mn_inventory m) (mn_selected m) s cells = (added, s', cells')"
  shows "adds m s cells s' cells' \<and> (added \<longleftrightarrow> st_is_empty s')"
proof (cases "st_is_empty s")
  case False
  let ?max = "min DEFAULT_MAX_STACK (max_stack_size (mn_facts m) s)"
  let ?first = "[mn_selected m, SLOT_OFFHAND] @ filter (\<lambda>slot. slot \<noteq> mn_selected m) [0..<INVENTORY_SIZE]"
  let ?P = "\<lambda>t. st_kind t = st_kind s \<and> fits (mn_facts m) DEFAULT_MAX_STACK t"
  let ?f = "\<lambda>slot. merge_into ?max (mn_inventory m ! slot)" and ?g = "\<lambda>slot. fill_empty ?max (mn_inventory m ! slot)"
  have max: "1 \<le> ?max" "?max \<le> DEFAULT_MAX_STACK" "?max \<le> max_size_of (mn_facts m) (st_kind s)"
    using menu_ok_facts [OF menu(1)] by (simp_all add: facts_ok_def max_stack_size_def DEFAULT_MAX_STACK_def)
  have place: "\<forall>slot \<in> set ?first. inventory_place slot" "\<forall>slot \<in> set [0..<INVENTORY_SIZE]. inventory_place slot"
    using menu(1) by (auto simp: inventory_place_def menu_ok_def)
  then have at: "\<forall>slot \<in> set ?first. mn_inventory m ! slot < length cells"
      "\<forall>slot \<in> set [0..<INVENTORY_SIZE]. mn_inventory m ! slot < length cells"
    using menu_ok_place [OF menu(1)] by blast+
  obtain s1 cells1 where first: "(if is_stackable (mn_facts m) s then pass_slots ?f ?first (s, cells) else (s, cells)) = (s1, cells1)"
    by fastforce
  obtain s2 cells2 where second: "pass_slots ?g [0..<INVENTORY_SIZE] (s1, cells1) = (s2, cells2)"
    by fastforce
  have t1: "total k cells1 + amount k s1 = total k cells + amount k s \<and> length cells1 = length cells" for k
  proof (cases "is_stackable (mn_facts m) s")
    case True
    then have "pass_slots ?f ?first (s, cells) = (s1, cells1)"
      using first by simp
    from pass_deals [where f = ?f and at = "\<lambda>slot. mn_inventory m ! slot", OF merge_into_deals at(1) this] show ?thesis .
  qed (use first in simp)
  then have at1: "\<forall>slot \<in> set [0..<INVENTORY_SIZE]. mn_inventory m ! slot < length cells1"
    using at(2) by simp
  have t2: "total k cells2 + amount k s2 = total k cells1 + amount k s1 \<and> length cells2 = length cells1" for k
    by (rule pass_deals [where f = ?g and at = "\<lambda>slot. mn_inventory m ! slot", OF fill_empty_deals [OF _ _ max(1)] at1 second])
  let ?I = "stocked m (length cells) (st_kind s)"
  have "?I (s1, cells1)"
  proof (cases "is_stackable (mn_facts m) s")
    case True
    have "?I (pass_slots ?f ?first (s, cells))"
    proof (rule pass_keeps)
      show "?I (?f slot (t, xs))" if "slot \<in> set ?first" "\<not> st_is_empty t" "?I (t, xs)" for slot t xs
        using merge_into_stocked [OF menu(1) _ that(3,2) max(2,3)] place(1) that(1) by blast
    qed (use menu(2,3) in \<open>simp add: stocked_def\<close>)
    then show ?thesis
      using True first by simp
  qed (use first menu in \<open>simp add: stocked_def\<close>)
  then have "?I (pass_slots ?g [0..<INVENTORY_SIZE] (s1, cells1))"
  proof (rule pass_keeps [rotated])
    show "?I (?g slot (t, xs))" if "slot \<in> set [0..<INVENTORY_SIZE]" "\<not> st_is_empty t" "?I (t, xs)" for slot t xs
      using fill_empty_stocked [OF menu(1) _ that(3,2) max(1)] place(2) that(1) by blast
  qed
  then have "?I (s2, cells2)"
    using second by simp
  then have "adds m s cells s2 cells2"
    using t1 t2 by (simp add: adds_def stocked_def)
  then show ?thesis
    using d False first second by (auto simp: inventory_add_def Let_def)
qed (use d menu in \<open>auto simp: inventory_add_def adds_def\<close>)

lemma keeps_add_or_drop:
  assumes "menu_ok m (length (mw_cells w))" "mw_ok m w" "adds m s (mw_cells w) s' cells'"
  shows "mw_ok m (drop_item s' (w\<lparr>mw_cells := cells'\<rparr>)) \<and> length cells' = length (mw_cells w) \<and>
    held k (drop_item s' (w\<lparr>mw_cells := cells'\<rparr>)) = held k w + amount k s"
proof -
  have "total k cells' + amount k s' = total k (mw_cells w) + amount k s"
    using assms(3) by (simp add: adds_def)
  moreover have "mw_ok m (w\<lparr>mw_cells := cells'\<rparr>)"
    using assms(2,3) by (simp add: adds_def mw_ok_def)
  ultimately show ?thesis
    using assms(3) by (simp add: adds_def mw_ok_drop held_drop_item) (simp add: held_def)
qed

section \<open>Swaps\<close>

text \<open>A swap writes a slot and a place of the inventory, which differ unless both stay as they are.\<close>

lemma keeps_swap_cells:
  assumes "menu_ok m (length (mw_cells w))" "mw_ok m w" "i < length (mn_slots m)" "inventory_place j"
    "fits (mn_facts m) (sl_max (slot_of m i)) s" "fits (mn_facts m) DEFAULT_MAX_STACK t"
    and away: "sl_cell (slot_of m i) \<noteq> mn_inventory m ! j"
  shows "mw_ok m (put_item m i s (put_inventory m j t w))"
    "held k (put_item m i s (put_inventory m j t w)) + amount k (get_item m i w) + amount k (inventory_item m j w) =
     held k w + amount k s + amount k t"
proof -
  let ?v = "put_inventory m j t w"
  have v: "mw_ok m ?v"
    by (rule mw_ok_put_inventory [OF assms(1,2,4,6)])
  then show "mw_ok m (put_item m i s ?v)"
    using assms(1,3,5) by (intro mw_ok_put_item) simp_all
  have "held k (put_item m i s ?v) = held k ?v - amount k (get_item m i ?v) + amount k s"
    using slots.stored_poke [of m i ?v k s] assms(1,3) by simp
  moreover have "held k ?v = held k w - amount k (inventory_item m j w) + amount k t"
    using places.stored_poke [of m j w k t] assms(1,4) by simp
  moreover have "get_item m i ?v = get_item m i w"
    using away by (simp add: get_item_def put_inventory_def)
  ultimately show "held k (put_item m i s ?v) + amount k (get_item m i w) + amount k (inventory_item m j w) =
      held k w + amount k s + amount k t"
    by simp
qed

lemma same_place_same_item:
  "sl_cell (slot_of m i) = mn_inventory m ! j \<Longrightarrow> inventory_item m j w = get_item m i w"
  by (simp add: inventory_item_def get_item_def)

lemma do_swap_keeps:
  assumes menu: "menu_ok m (length (mw_cells w))" "mw_ok m w" and valid: "is_valid_for (Swap i target) (length (mn_slots m))"
    and survival: "\<not> mn_creative m"
  shows "keeps m w (do_swap m i target w)"
proof -
  define j where "j = inventory_slot target"
  let ?s = "inventory_item m j w" and ?t = "get_item m i w"
  let ?max = "slot_max_for_item m i ?s"
  have i: "i < length (mn_slots m)" and j: "inventory_place j"
    using valid inventory_place_swap [OF valid] by (simp_all add: j_def)
  note slot_fit = get_item_fits [OF menu i] and default_fit = get_item_fits_default [OF menu i]
  note source_fit = inventory_item_fits [OF menu j]
  have small: "fits (mn_facts m) (sl_max (slot_of m i)) ?s" if "\<not> ?max < st_count ?s"
    using that source_fit by (auto simp: fits_def slot_max_for_item_def max_stack_size_def)
  have big: "sl_cell (slot_of m i) \<noteq> mn_inventory m ! j" if "?max < st_count ?s" "\<not> st_is_empty ?s"
    using that slot_fit same_place_same_item [of m i j w]
    by (auto simp: fits_def slot_max_for_item_def max_stack_size_def)
  have pos: "1 \<le> ?max"
    using menu_ok_facts [OF menu(1)] menu_ok_max [OF menu(1) i] by (simp add: slot_max_for_item_def max_stack_size_def facts_ok_def)
  have exchange: "keeps m w (put_item m i ?s (put_inventory m j ?t w))" if "\<not> ?max < st_count ?s"
  proof (cases "sl_cell (slot_of m i) = mn_inventory m ! j")
    case True
    then have "put_item m i ?s (put_inventory m j ?t w) = w"
      using same_place_same_item [OF True, of w] by (simp add: put_item_def put_inventory_def get_item_def)
    then show ?thesis
      using menu(2) by simp
  next
    case False
    note swapped = keeps_swap_cells [OF menu i j small [OF that] default_fit False]
    have "held k (put_item m i ?s (put_inventory m j ?t w)) = held k w" for k
      using swapped(2) [of k] by simp
    then show ?thesis
      using swapped(1) by (simp add: keeps_def)
  qed
  have split: "mw_ok m (put_item m i p (put_inventory m j r w)) \<and>
      held k (put_item m i p (put_inventory m j r w)) + amount k ?t = held k w"
    if "?max < st_count ?s" "\<not> st_is_empty ?s" "st_split ?max ?s = (p, r)" for p r k
  proof -
    have part: "parted ?s p r" "st_count p \<le> ?max"
      using parted_split [OF that(2) _ that(3)] pos by simp_all
    have fit: "fits (mn_facts m) (sl_max (slot_of m i)) p"
      using part parted_fits [OF part(1) source_fit] by (auto simp: fits_def slot_max_for_item_def)
    note swapped = keeps_swap_cells [OF menu i j fit conjunct2 [OF parted_fits [OF part(1) source_fit]] big [OF that(1,2)]]
    show ?thesis
      using swapped(1) swapped(2) [of k] part(1) by (simp add: parted_def)
  qed
  have away: "sl_cell (slot_of m i) \<noteq> mn_inventory m ! j" if "st_is_empty ?s \<noteq> st_is_empty ?t"
    using that same_place_same_item by metis
  have move: "keeps m w (put_item m i a (put_inventory m j b w))"
    if "st_is_empty ?s \<noteq> st_is_empty ?t" "fits (mn_facts m) (sl_max (slot_of m i)) a" "fits (mn_facts m) DEFAULT_MAX_STACK b"
      "\<And>k. amount k a + amount k b = amount k ?s + amount k ?t" for a b
  proof -
    note swapped = keeps_swap_cells [OF menu i j that(2,3) away [OF that(1)]]
    have "held k (put_item m i a (put_inventory m j b w)) = held k w" for k
      using swapped(2) [of k] that(4) [of k] by simp
    then show ?thesis
      using swapped(1) by (simp add: keeps_def)
  qed
  obtain p r where pr: "st_split ?max ?s = (p, r)"
    by fastforce
  consider (none) "st_is_empty ?s" "st_is_empty ?t" | (out_of) "st_is_empty ?s" "\<not> st_is_empty ?t"
    | (into) "\<not> st_is_empty ?s" "st_is_empty ?t" | (both) "\<not> st_is_empty ?s" "\<not> st_is_empty ?t"
    by blast
  then show ?thesis
  proof cases
    case none
    then show ?thesis
      using menu(2) by (simp add: do_swap_def Let_def j_def)
  next
    case out_of
    have "keeps m w (put_item m i st_empty (put_inventory m j ?t w))"
      using out_of by (intro move default_fit) simp_all
    then show ?thesis
      using out_of menu(2) by (simp add: do_swap_def Let_def j_def)
  next
    case into
    have "keeps m w (put_item m i ?s (put_inventory m j st_empty w))" if "\<not> ?max < st_count ?s"
      using into by (intro move small [OF that]) simp_all
    moreover have "keeps m w (put_item m i p (put_inventory m j r w))" if "?max < st_count ?s"
      using split [OF that into(1) pr] into(2) by (simp add: keeps_def)
    ultimately show ?thesis
      using into pr menu(2) by (simp add: do_swap_def Let_def j_def [symmetric])
  next
    case both
    let ?v = "put_item m i p (put_inventory m j r w)"
    obtain added rest cells' where add: "inventory_add (mn_facts m) (mn_inventory m) (mn_selected m) ?t (mw_cells ?v) = (added, rest, cells')"
      using prod_cases3 by blast
    have displaced: "keeps m w (drop_item rest (?v\<lparr>mw_cells := cells'\<rparr>)) \<and> (added \<longrightarrow> st_is_empty rest)" if "?max < st_count ?s"
    proof -
      have v: "menu_ok m (length (mw_cells ?v))" "mw_ok m ?v" "cells_fit m (mw_cells ?v)"
        using menu(1) split [OF that both(1) pr] by (simp_all add: mw_ok_def)
      note adds = inventory_add_adds [OF v(1,3) default_fit add]
      show ?thesis
        using keeps_add_or_drop [OF v(1,2) conjunct1 [OF adds]] adds split [OF that both(1) pr] by (simp add: keeps_def)
    qed
    have ended: "keeps m w (if \<not> added then drop_item rest (?v\<lparr>mw_cells := cells'\<rparr>) else ?v\<lparr>mw_cells := cells'\<rparr>)" if "?max < st_count ?s"
      using displaced [OF that] by (auto simp: drop_item_def)
    show ?thesis
      using both pr add ended exchange menu(2) survival
      by (simp add: do_swap_def Let_def j_def [symmetric])
  qed
qed

section \<open>Collecting\<close>

lemma collect_from_keeps:
  assumes "menu_ok m (length (mw_cells w))" "mw_ok m w" "i < length (mn_slots m)"
    "\<not> st_is_empty (mw_carried w)" "st_kind (mw_carried w) = st_kind item"
  shows "keeps m w (collect_from m item pass i w) \<and> \<not> st_is_empty (mw_carried (collect_from m item pass i w)) \<and>
    st_kind (mw_carried (collect_from m item pass i w)) = st_kind item"
proof -
  let ?t = "get_item m i w" and ?max = "max_stack_size (mn_facts m) item"
  let ?space = "?max - st_count (mw_carried w)"
  obtain taken v where take: "safe_take m i (min (st_count ?t) ?space) (Some ?space) w = (taken, v)"
    by fastforce
  show ?thesis
  proof (cases "?max \<le> st_count (mw_carried w) \<or> st_is_empty ?t \<or> \<not> can_item_quick_replace (mn_facts m) ?t item True")
    case True
    then have "collect_from m item pass i w = w"
      by (auto simp: collect_from_def Let_def)
    then show ?thesis
      using assms by simp
  next
    case False
    have kind: "st_kind ?t = st_kind (mw_carried w)"
      using False quick_replace_kind assms(5) by metis
    have "sl_cell (slot_of m i) < length (mw_cells w)"
      using assms(1,3) by simp
    then show ?thesis
    proof (cases rule: safe_take_cases [where n = "min (st_count ?t) ?space" and mx = "Some ?space"])
      case nothing
      then show ?thesis
        using assms False by (simp add: collect_from_def Let_def st_grow_def st_empty_def)
    next
      case (taken t r)
      then have t: "st_count t \<le> ?space" "min (st_count t) ?space = st_count t" "0 < st_count t"
        by (auto simp: parted_def st_is_empty_def)
      have "keeps m w ((put_item m i r w)\<lparr>mw_carried := st_grow (st_count t) (mw_carried w)\<rparr>)"
        using t(1) assms(5) by (intro keeps_grow [OF assms(1-4) kind taken(2)]) (simp add: max_stack_size_def)
      moreover have "\<not> st_is_empty (st_grow (st_count t) (mw_carried w))"
        using t(3) assms(4) by (simp add: st_grow_def st_is_empty_def)
      ultimately show ?thesis
        using taken(1) t(2) assms by (simp add: collect_from_def Let_def) (simp add: st_grow_def)
    qed
  qed
qed

lemma collect_fold_keeps:
  assumes "\<forall>i \<in> set order. i < length (mn_slots m)" "menu_ok m (length (mw_cells w))" "mw_ok m w"
    "\<not> st_is_empty (mw_carried w)" "st_kind (mw_carried w) = st_kind item"
  shows "keeps m w (fold (collect_from m item pass) order w) \<and> \<not> st_is_empty (mw_carried (fold (collect_from m item pass) order w)) \<and>
    st_kind (mw_carried (fold (collect_from m item pass) order w)) = st_kind item"
  using assms
proof (induction order arbitrary: w)
  case (Cons i order)
  let ?v = "collect_from m item pass i w"
  have step: "keeps m w ?v" "\<not> st_is_empty (mw_carried ?v)" "st_kind (mw_carried ?v) = st_kind item"
    using collect_from_keeps [of m w i item pass] Cons.prems by simp_all
  then have "menu_ok m (length (mw_cells ?v))" "mw_ok m ?v"
    using Cons.prems(2) by (simp_all add: keeps_def)
  from Cons.IH [OF _ this step(2,3)] show ?case
    using Cons.prems(1) step(1) by (simp add: keeps_def)
qed simp

lemma do_pickup_all_keeps:
  assumes "menu_ok m (length (mw_cells w))" "mw_ok m w"
  shows "keeps m w (do_pickup_all m i direction w)"
proof (cases "st_is_empty (mw_carried w) \<or> (\<not> st_is_empty (get_item m i w) \<and> may_pickup m i w)")
  case True
  then show ?thesis
    using assms(2) by (auto simp: do_pickup_all_def)
next
  case False
  let ?order = "slots_in 0 (length (mn_slots m)) direction" and ?item = "mw_carried w"
  let ?v = "fold (collect_from m ?item 0) ?order w"
  have order: "\<forall>i \<in> set ?order. i < length (mn_slots m)"
    by (simp add: slots_in_def)
  have one: "keeps m w ?v \<and> \<not> st_is_empty (mw_carried ?v) \<and> st_kind (mw_carried ?v) = st_kind ?item"
    using False by (intro collect_fold_keeps order assms) simp_all
  then have v: "menu_ok m (length (mw_cells ?v))" "mw_ok m ?v"
    using assms(1) by (simp_all add: keeps_def)
  have two: "keeps m ?v (fold (collect_from m ?item 1) ?order ?v)"
    using collect_fold_keeps [OF order v] one by blast
  show ?thesis
    using False assms(2) keeps_trans [OF conjunct1 [OF one] two] by (simp add: do_pickup_all_def Let_def)
qed

section \<open>Clicks\<close>

lemma clicked_keeps:
  assumes "menu_ok m (length (mw_cells w))" "mw_ok m w" "\<not> mn_creative m"
  shows "\<exists>w'. clicked m c w = Some w' \<and> keeps m w w'"
proof (cases "is_valid_for c (length (mn_slots m))")
  case False
  then show ?thesis
    using assms(2) by (simp add: clicked_def)
next
  case True
  have reset: "keeps m w (reset_quick_craft w)"
    using assms(2) by (intro keeps_then_reset) simp
  show ?thesis
  proof (cases c)
    case (Pickup i b)
    then show ?thesis
      using True do_pickup_keeps [OF assms(1,2), of i b] reset by (simp add: clicked_def)
  next
    case (DropCarried b)
    then show ?thesis
      using drop_carried_keeps [OF assms(2), of b] reset by (simp add: clicked_def)
  next
    case (QuickMove i)
    then show ?thesis
      using True do_quick_move_keeps [OF assms(1,2), of i] reset by (simp add: clicked_def)
  next
    case (Swap i t)
    then show ?thesis
      using True do_swap_keeps [OF assms(1,2) _ assms(3), of i t] reset by (simp add: clicked_def del: is_valid_for.simps)
  next
    case (Clone i)
    then show ?thesis
      using assms(2,3) reset by (simp add: clicked_def do_clone_def)
  next
    case (Throw i b)
    then show ?thesis
      using True do_throw_keeps [OF assms(1,2), of i b] reset by (simp add: clicked_def)
  next
    case (PickupAll i d)
    then show ?thesis
      using True do_pickup_all_keeps [OF assms(1,2), of i d] reset by (simp add: clicked_def)
  next
    case (QuickCraft a)
    then show ?thesis
      using True do_quick_craft_keeps [OF assms, of a] by (simp add: clicked_def)
  qed
qed

text \<open>The clicks of a session, one after another.\<close>

definition click_all :: "menu \<Rightarrow> click list \<Rightarrow> menu_world \<Rightarrow> menu_world option" where
  "click_all m clicks w = fold (\<lambda>c w. Option.bind w (clicked m c)) clicks (Some w)"

lemma click_all_keeps:
  assumes "menu_ok m (length (mw_cells w))" "mw_ok m w" "\<not> mn_creative m"
  shows "\<exists>w'. click_all m clicks w = Some w' \<and> keeps m w w'"
  using assms(1,2)
proof (induction clicks arbitrary: w)
  case (Cons c clicks)
  obtain v where v: "clicked m c w = Some v" "keeps m w v"
    using clicked_keeps [OF Cons.prems assms(3)] by blast
  then have "menu_ok m (length (mw_cells v))" "mw_ok m v"
    using Cons.prems(1) by (simp_all add: keeps_def)
  from Cons.IH [OF this] obtain w' where w': "click_all m clicks v = Some w'" "keeps m v w'"
    by blast
  then show ?case
    using v(1) keeps_trans [OF v(2) w'(2)] by (simp add: click_all_def)
qed (simp add: click_all_def)

section \<open>Closing\<close>

lemma hand_back_keeps:
  assumes "menu_ok m (length (mw_cells w))" "mw_ok m w" "fits (mn_facts m) DEFAULT_MAX_STACK s"
  shows "mw_ok m (hand_back m to_inv s w) \<and> length (mw_cells (hand_back m to_inv s w)) = length (mw_cells w) \<and>
    held k (hand_back m to_inv s w) = held k w + amount k s"
proof -
  obtain added rest cells' where add: "inventory_add (mn_facts m) (mn_inventory m) (mn_selected m) s (mw_cells w) = (added, rest, cells')"
    using prod_cases3 by blast
  have "cells_fit m (mw_cells w)"
    using assms(2) by (simp add: mw_ok_def)
  note adds = inventory_add_adds [OF assms(1) this assms(3) add]
  have same: "(if \<not> added \<or> \<not> st_is_empty rest then drop_item rest (w\<lparr>mw_cells := cells'\<rparr>) else w\<lparr>mw_cells := cells'\<rparr>) =
      drop_item rest (w\<lparr>mw_cells := cells'\<rparr>)"
    by (simp add: drop_item_def)
  show ?thesis
    using keeps_add_or_drop [OF assms(1,2) conjunct1 [OF adds], of k] add same assms
    by (auto simp: hand_back_def add_item_or_drop_def Let_def mw_ok_drop held_drop_item)
qed

lemma drain_slot_keeps:
  assumes "menu_ok m (length (mw_cells w))" "mw_ok m w" "i < length (mn_slots m)"
  shows "keeps m w (drain_slot m to_inv i w)"
proof -
  let ?v = "put_item m i st_empty w"
  have v: "menu_ok m (length (mw_cells ?v))" "mw_ok m ?v" "\<And>k. held k ?v + amount k (get_item m i w) = held k w"
    using assms mw_ok_put_item [OF assms] slots.clear [of m i w] by simp_all
  show ?thesis
    using hand_back_keeps [OF v(1,2) get_item_fits_default [OF assms], of to_inv] v(2,3)
    by (auto simp: drain_slot_def Let_def keeps_def dest: spec)
qed

lemma keeps_fold:
  assumes step: "\<And>x w. \<lbrakk>x \<in> set xs; menu_ok m (length (mw_cells w)); mw_ok m w\<rbrakk> \<Longrightarrow> keeps m w (f x w)"
    and "menu_ok m (length (mw_cells w))" "mw_ok m w"
  shows "keeps m w (fold f xs w)"
  using assms
proof (induction xs arbitrary: w)
  case (Cons x xs)
  have v: "keeps m w (f x w)"
    using Cons.prems by simp
  then have "menu_ok m (length (mw_cells (f x w)))" "mw_ok m (f x w)"
    using Cons.prems(2) by (simp_all add: keeps_def)
  then have "keeps m (f x w) (fold f xs (f x w))"
    using Cons.prems(1) by (intro Cons.IH) simp_all
  then show ?case
    using keeps_trans [OF v] by simp
qed simp

lemma return_drained_items_keeps:
  assumes "menu_ok m (length (mw_cells w))" "mw_ok m w"
  shows "keeps m w (return_drained_items m to_inv w)"
  unfolding return_drained_items_def
proof (rule keeps_fold [OF _ assms])
  fix t v
  assume "t \<in> set (mn_drain m)" and v: "menu_ok m (length (mw_cells v))" "mw_ok m v"
  obtain a b where t: "t = (a, b)"
    by fastforce
  have "route_in (length (mn_slots m)) t"
    using v(1) \<open>t \<in> set (mn_drain m)\<close> unfolding menu_ok_def by blast
  then have "\<forall>i \<in> set [a..<b]. i < length (mn_slots m)"
    by (simp add: t route_in_def)
  then have "keeps m v (fold (drain_slot m to_inv) [a..<b] v)"
    using drain_slot_keeps by (intro keeps_fold v) blast
  then show "keeps m v ((\<lambda>(start_slot, end_slot). fold (drain_slot m to_inv) [start_slot..<end_slot]) t v)"
    by (simp add: t)
qed

lemma menu_removed_keeps:
  assumes "menu_ok m (length (mw_cells w))" "mw_ok m w"
  shows "keeps m w (menu_removed m to_inv w)"
proof -
  let ?c = "mw_carried w"
  let ?v = "w\<lparr>mw_carried := st_empty\<rparr>"
  have v: "menu_ok m (length (mw_cells ?v))" "mw_ok m ?v"
    using assms by (simp_all add: mw_ok_carried)
  note given = hand_back_keeps [OF v mw_ok_carried_fits [OF assms(2)], of to_inv]
  have "held k (hand_back m to_inv ?c ?v) = held k w" for k
    using given [of k] by (simp add: held_carried)
  moreover have "mw_ok m (hand_back m to_inv ?c ?v)" "length (mw_cells (hand_back m to_inv ?c ?v)) = length (mw_cells w)"
    using given by simp_all
  moreover have "st_is_empty ?c \<Longrightarrow> keeps m w ?v"
    using v(2) by (simp add: keeps_def held_carried)
  ultimately have "keeps m w (if st_is_empty ?c then ?v else hand_back m to_inv ?c ?v)"
    by (simp add: keeps_def)
  moreover from this have "keeps m (if st_is_empty ?c then ?v else hand_back m to_inv ?c ?v)
      (return_drained_items m to_inv (if st_is_empty ?c then ?v else hand_back m to_inv ?c ?v))"
    using assms(1) by (intro return_drained_items_keeps) (simp_all only: keeps_def)
  ultimately show "keeps m w (menu_removed m to_inv w)"
    unfolding menu_removed_def Let_def by (rule keeps_trans)
qed

end
