(* ===== verification/MenuFull.thy ===== *)
theory MenuFull
  imports MenuClicks
begin

text \<open>
  What adding to an inventory leaves when it gives something back, what clearing takes out of a container, and
  what a left drag over empty slots writes.
\<close>

section \<open>Passes that leave something over\<close>

text \<open>A pass that leaves something in the hand has left every one of its slots in the state \<open>G\<close>.\<close>

lemma pass_slots_empty: "st_is_empty s \<Longrightarrow> pass_slots f slots (s, cells) = (s, cells)"
  by (induction slots) (simp_all add: pass_slots_def)

lemma pass_leaves:
  assumes step: "\<And>slot s cells s' cells'. \<lbrakk>slot \<in> set slots; \<not> st_is_empty s; Q (s, cells); f slot (s, cells) = (s', cells')\<rbrakk> \<Longrightarrow>
      st_is_empty s' \<or> Q (s', cells') \<and> G slot cells' \<and> (\<forall>x. G x cells \<longrightarrow> G x cells')"
    and "Q (s, cells)" "pass_slots f slots (s, cells) = (s', cells')" "\<not> st_is_empty s'"
  shows "Q (s', cells') \<and> (\<forall>slot \<in> set slots. G slot cells') \<and> (\<forall>x. G x cells \<longrightarrow> G x cells')"
  using assms
proof (induction slots arbitrary: s cells)
  case (Cons slot slots)
  have hand: "\<not> st_is_empty s"
    using pass_slots_empty [of s f "slot # slots" cells] Cons.prems(3,4) by auto
  obtain s1 cells1 where d: "f slot (s, cells) = (s1, cells1)"
    by fastforce
  have rest: "pass_slots f slots (s1, cells1) = (s', cells')"
    using Cons.prems(3) d hand by (simp add: pass_slots_def)
  have hand1: "\<not> st_is_empty s1"
    using pass_slots_empty [of s1 f slots cells1] rest Cons.prems(4) by auto
  have one: "Q (s1, cells1) \<and> G slot cells1 \<and> (\<forall>x. G x cells \<longrightarrow> G x cells1)"
    using Cons.prems(1) [of slot s cells s1 cells1] hand d Cons.prems(2) hand1 by auto
  have "Q (s', cells') \<and> (\<forall>slot \<in> set slots. G slot cells') \<and> (\<forall>x. G x cells1 \<longrightarrow> G x cells')"
  proof (rule Cons.IH [OF _ _ rest Cons.prems(4)])
    show "st_is_empty t' \<or> Q (t', ys) \<and> G x ys \<and> (\<forall>y. G y xs \<longrightarrow> G y ys)"
      if "x \<in> set slots" "\<not> st_is_empty t" "Q (t, xs)" "f x (t, xs) = (t', ys)" for x t xs t' ys
      using that by (intro Cons.prems(1)) simp_all
  qed (use one in simp)
  then show ?case
    using one by auto
qed (simp add: pass_slots_def)

lemma same_kind_same_components:
  "\<lbrakk>\<not> st_is_empty a; \<not> st_is_empty b\<rbrakk> \<Longrightarrow> is_same_item_same_components a b \<longleftrightarrow> st_kind a = st_kind b"
  using same_components_kind [of a b] by (auto simp: is_same_item_same_components_def is_same_item_def st_item_def)

definition no_space :: "int \<Rightarrow> item_kind \<Rightarrow> item_stack \<Rightarrow> bool" where
  "no_space mx kind c \<longleftrightarrow> st_is_empty c \<or> st_kind c \<noteq> kind \<or> mx \<le> stack_count c"

lemma merge_into_leaves:
  assumes "\<not> st_is_empty s" "st_kind s = kind" "merge_into mx c (s, cells) = (s', cells')" "c < length cells"
  shows "(st_is_empty s' \<or> st_kind s' = kind \<and> length cells' = length cells \<and> no_space mx kind (cells' ! c)) \<and>
    (\<forall>x. no_space mx kind (cells ! x) \<longrightarrow> no_space mx kind (cells' ! x))"
proof (cases "no_space mx kind (cells ! c)")
  case True
  then have "merge_into mx c (s, cells) = (s, cells)"
    using assms(1,2) same_kind_same_components [of "cells ! c" s] by (auto simp: merge_into_def no_space_def Let_def)
  then show ?thesis
    using True assms(2,3) by simp
next
  case False
  define q where "q = min (stack_count s) (mx - stack_count (cells ! c))"
  have d: "s' = st_shrink q s" "cells' = cells[c := st_grow q (cells ! c)]"
    using assms(1-3) False same_kind_same_components [of "cells ! c" s]
    by (auto simp: merge_into_def no_space_def Let_def q_def)
  have "stack_count s = st_count s" "0 < st_count s" "stack_count (cells ! c) = st_count (cells ! c)" "0 < st_count (cells ! c)"
    using stack_count_pos [OF assms(1)] stack_count_pos [of "cells ! c"] False by (auto simp: no_space_def)
  then have "st_is_empty s' \<or> no_space mx kind (st_grow q (cells ! c))"
    unfolding d(1) q_def by (auto simp: st_is_empty_def st_shrink_def no_space_def stack_count_def st_grow_def min_def split: if_splits)
  moreover have "no_space mx kind (cells' ! x)" if "no_space mx kind (cells ! x)" for x
    using that False d(2) by (cases "x = c") simp_all
  ultimately show ?thesis
    using assms(2,4) d by (auto simp: st_shrink_def)
qed

lemma fill_empty_leaves:
  assumes "\<not> st_is_empty s" "1 \<le> mx" "st_kind s = kind" "fill_empty mx c (s, cells) = (s', cells')" "c < length cells"
  shows "(st_is_empty s' \<or> st_kind s' = kind \<and> length cells' = length cells \<and> \<not> st_is_empty (cells' ! c)) \<and>
    (\<forall>x. \<not> st_is_empty (cells ! x) \<longrightarrow> \<not> st_is_empty (cells' ! x)) \<and>
    (st_is_empty s' \<or> (\<forall>x. no_space mx kind (cells ! x) \<longrightarrow> no_space mx kind (cells' ! x)))"
proof (cases "st_is_empty (cells ! c)")
  case True
  define q where "q = min (stack_count s) mx"
  have q: "0 < q" "stack_count s = st_count s"
    using stack_count_pos [OF assms(1)] assms(2) by (simp_all add: q_def)
  have d: "s' = st_shrink q s" "cells' = cells[c := s\<lparr>st_count := q\<rparr>]"
    using assms(4) True q by (auto simp: fill_empty_def st_split_def Let_def q_def [symmetric] min_def q_def)
  have placed: "\<not> st_is_empty (s\<lparr>st_count := q\<rparr>)" "stack_count (s\<lparr>st_count := q\<rparr>) = q"
    using q(1) assms(1) by (simp_all add: st_is_empty_def stack_count_def)
  have "st_is_empty s' \<or> mx \<le> q"
    unfolding d(1) q_def by (auto simp: st_is_empty_def st_shrink_def q(2))
  then show ?thesis
    using d assms(3,5) placed True by (auto simp: nth_list_update no_space_def st_shrink_def)
next
  case False
  then show ?thesis
    using assms(3,4) by (auto simp: fill_empty_def)
qed

lemma merge_pass_leaves:
  assumes "pass_slots (\<lambda>slot. merge_into mx (places ! slot)) slots (s, cells) = (s', cells')" "\<not> st_is_empty s'"
    "\<forall>slot \<in> set slots. places ! slot < length cells"
  shows "st_kind s' = st_kind s \<and> (\<forall>slot \<in> set slots. no_space mx (st_kind s) (cells' ! (places ! slot)))"
proof -
  let ?Q = "\<lambda>st. st_kind (fst st) = st_kind s \<and> length (snd st) = length cells"
  let ?G = "\<lambda>slot cells. no_space mx (st_kind s) (cells ! (places ! slot))"
  have "?Q (s', cells') \<and> (\<forall>slot \<in> set slots. ?G slot cells') \<and> (\<forall>x. ?G x cells \<longrightarrow> ?G x cells')"
  proof (rule pass_leaves [OF _ _ assms(1,2)])
    show "st_is_empty t' \<or> ?Q (t', ys) \<and> ?G slot ys \<and> (\<forall>x. ?G x xs \<longrightarrow> ?G x ys)"
      if "slot \<in> set slots" "\<not> st_is_empty t" "?Q (t, xs)" "merge_into mx (places ! slot) (t, xs) = (t', ys)" for slot t xs t' ys
      using merge_into_leaves [OF that(2) _ that(4)] that(1,3) assms(3) by auto
  qed simp
  then show ?thesis
    by simp
qed

lemma fill_pass_leaves:
  assumes "pass_slots (\<lambda>slot. fill_empty mx (places ! slot)) slots (s, cells) = (s', cells')" "\<not> st_is_empty s'" "1 \<le> mx"
    "\<forall>slot \<in> set slots. places ! slot < length cells" "st_kind s = kind"
    "\<forall>c \<in> A. no_space mx kind (cells ! c)"
  shows "(\<forall>slot \<in> set slots. \<not> st_is_empty (cells' ! (places ! slot))) \<and> (\<forall>c \<in> A. no_space mx kind (cells' ! c))"
proof -
  let ?Q = "\<lambda>st. st_kind (fst st) = kind \<and> length (snd st) = length cells \<and> (\<forall>c \<in> A. no_space mx kind (snd st ! c))"
  let ?G = "\<lambda>slot cells. \<not> st_is_empty (cells ! (places ! slot))"
  have "?Q (s', cells') \<and> (\<forall>slot \<in> set slots. ?G slot cells') \<and> (\<forall>x. ?G x cells \<longrightarrow> ?G x cells')"
  proof (rule pass_leaves [OF _ _ assms(1,2)])
    show "st_is_empty t' \<or> ?Q (t', ys) \<and> ?G slot ys \<and> (\<forall>x. ?G x xs \<longrightarrow> ?G x ys)"
      if "slot \<in> set slots" "\<not> st_is_empty t" "?Q (t, xs)" "fill_empty mx (places ! slot) (t, xs) = (t', ys)" for slot t xs t' ys
      using fill_empty_leaves [OF that(2) assms(3) _ that(4)] that(1,3) assms(4) by auto
  qed (use assms(5,6) in simp)
  then show ?thesis
    by simp
qed

lemma inventory_add_deals:
  assumes facts: "facts_ok f" and places: "length places = CONTAINER_SIZE" "\<forall>c \<in> set places. c < length cells"
    and selected: "selected < INVENTORY_SIZE" and add: "inventory_add f places selected s cells = (added, s', cells')"
  shows "total k cells' + amount k s' = total k cells + amount k s \<and> length cells' = length cells \<and> (added \<longleftrightarrow> st_is_empty s')"
proof (cases "st_is_empty s")
  case True
  then show ?thesis
    using add by (auto simp: inventory_add_def)
next
  case False
  let ?max = "min DEFAULT_MAX_STACK (max_stack_size f s)"
  let ?f = "\<lambda>slot. merge_into ?max (places ! slot)" and ?g = "\<lambda>slot. fill_empty ?max (places ! slot)"
  let ?first = "[selected, SLOT_OFFHAND] @ filter (\<lambda>slot. slot \<noteq> selected) [0..<INVENTORY_SIZE]"
  have max: "1 \<le> ?max"
    using facts by (simp add: facts_ok_def max_stack_size_def DEFAULT_MAX_STACK_def)
  have at: "\<forall>slot \<in> set ?first. places ! slot < length cells" "\<forall>slot \<in> set [0..<INVENTORY_SIZE]. places ! slot < length cells"
    using selected places by (auto simp: INVENTORY_SIZE_def SLOT_OFFHAND_def CONTAINER_SIZE_def)
  obtain s1 cells1 where first: "(if is_stackable f s then pass_slots ?f ?first (s, cells) else (s, cells)) = (s1, cells1)"
    by fastforce
  obtain s2 cells2 where second: "pass_slots ?g [0..<INVENTORY_SIZE] (s1, cells1) = (s2, cells2)"
    by fastforce
  have res: "added = st_is_empty s2" "s' = s2" "cells' = cells2"
    using add False first second by (auto simp: inventory_add_def Let_def)
  have t1: "total k cells1 + amount k s1 = total k cells + amount k s \<and> length cells1 = length cells"
  proof (cases "is_stackable f s")
    case True
    then have "pass_slots ?f ?first (s, cells) = (s1, cells1)"
      using first by simp
    from pass_deals [where f = ?f and at = "\<lambda>slot. places ! slot", OF merge_into_deals at(1) this] show ?thesis .
  qed (use first in simp)
  then have at1: "\<forall>slot \<in> set [0..<INVENTORY_SIZE]. places ! slot < length cells1"
    using at(2) by simp
  have t2: "total k cells2 + amount k s2 = total k cells1 + amount k s1 \<and> length cells2 = length cells1"
    by (rule pass_deals [where f = ?g and at = "\<lambda>slot. places ! slot", OF fill_empty_deals [OF _ _ max] at1 second])
  then show ?thesis
    using t1 res by simp
qed

lemma inventory_add_full:
  assumes facts: "facts_ok f" and places: "length places = CONTAINER_SIZE" "\<forall>c \<in> set places. c < length cells"
    and selected: "selected < INVENTORY_SIZE" and add: "inventory_add f places selected s cells = (added, s', cells')"
    and left: "\<not> added"
  shows "(\<forall>slot < INVENTORY_SIZE. \<not> st_is_empty (cells' ! (places ! slot))) \<and>
    (is_stackable f s \<longrightarrow>
      (\<forall>slot \<in> {..<INVENTORY_SIZE} \<union> {SLOT_OFFHAND}.
        no_space (min DEFAULT_MAX_STACK (max_stack_size f s)) (st_kind s) (cells' ! (places ! slot))))"
proof -
  let ?max = "min DEFAULT_MAX_STACK (max_stack_size f s)"
  let ?f = "\<lambda>slot. merge_into ?max (places ! slot)" and ?g = "\<lambda>slot. fill_empty ?max (places ! slot)"
  let ?first = "[selected, SLOT_OFFHAND] @ filter (\<lambda>slot. slot \<noteq> selected) [0..<INVENTORY_SIZE]"
  let ?main = "{..<INVENTORY_SIZE} \<union> {SLOT_OFFHAND}"
  let ?G = "\<lambda>slot cells. no_space ?max (st_kind s) (cells ! (places ! slot))"
  have hand: "\<not> st_is_empty s"
    using add left by (auto simp: inventory_add_def)
  have max: "1 \<le> ?max"
    using facts by (simp add: facts_ok_def max_stack_size_def DEFAULT_MAX_STACK_def)
  have at: "\<forall>slot \<in> set ?first. places ! slot < length cells" "\<forall>slot \<in> set [0..<INVENTORY_SIZE]. places ! slot < length cells"
      "?main \<subseteq> set ?first"
    using selected places by (auto simp: INVENTORY_SIZE_def SLOT_OFFHAND_def CONTAINER_SIZE_def)
  obtain s1 cells1 where first: "(if is_stackable f s then pass_slots ?f ?first (s, cells) else (s, cells)) = (s1, cells1)"
    by fastforce
  obtain s2 cells2 where second: "pass_slots ?g [0..<INVENTORY_SIZE] (s1, cells1) = (s2, cells2)"
    by fastforce
  have res: "\<not> st_is_empty s2" "cells' = cells2"
    using add hand first second left by (auto simp: inventory_add_def Let_def)
  have hand1: "\<not> st_is_empty s1"
    using pass_slots_empty [of s1 ?g "[0..<INVENTORY_SIZE]" cells1] second res(1) by auto
  have one: "st_kind s1 = st_kind s \<and> (is_stackable f s \<longrightarrow> (\<forall>slot \<in> ?main. ?G slot cells1))"
    using merge_pass_leaves [OF _ hand1 at(1)] first at(3) by (auto split: if_splits)
  have "length cells1 = length cells"
  proof (cases "is_stackable f s")
    case True
    then have "pass_slots ?f ?first (s, cells) = (s1, cells1)"
      using first by simp
    from pass_deals [where f = ?f and at = "\<lambda>slot. places ! slot", OF merge_into_deals at(1) this] show ?thesis
      by simp
  qed (use first in simp)
  then have at1: "\<forall>slot \<in> set [0..<INVENTORY_SIZE]. places ! slot < length cells1"
    using at(2) by simp
  let ?A = "if is_stackable f s then (\<lambda>slot. places ! slot) ` ?main else {}"
  have "(\<forall>slot \<in> set [0..<INVENTORY_SIZE]. \<not> st_is_empty (cells2 ! (places ! slot))) \<and>
      (\<forall>c \<in> ?A. no_space ?max (st_kind s) (cells2 ! c))"
    by (rule fill_pass_leaves [OF second res(1) max at1 conjunct1 [OF one]]) (use one in auto)
  then show ?thesis
    using res(2) by auto
qed

section \<open>Counting and clearing\<close>

definition counted :: "(item_stack \<Rightarrow> bool) \<Rightarrow> item_stack list \<Rightarrow> int" where
  "counted P items = sum_list (map stack_count (filter P items))"

lemma stack_count_nonneg [simp]: "0 \<le> stack_count s"
  by (simp add: stack_count_def st_is_empty_def)

lemma counted_Cons: "counted P (s # items) = (if P s then stack_count s else 0) + counted P items"
  by (simp add: counted_def)

lemma counted_nonneg: "0 \<le> counted P items"
  by (induction items) (simp_all add: counted_Cons, simp add: counted_def)

lemma matching_item_count_eq:
  "matching_item_count s P n c = (if \<not> P s then 0 else if c \<or> n < 0 then stack_count s else min n (stack_count s))"
  by (auto simp: matching_item_count_def stack_count_def min_def)

lemma clear_one:
  assumes "0 < r" "r \<le> stack_count s"
  shows "stack_count (if r = stack_count s then st_empty else st_shrink r s) = stack_count s - r"
  using assms by (auto simp: stack_count_def st_is_empty_def st_shrink_def st_empty_def AIR_def split: if_splits)

lemma clear_or_count_from_eq:
  assumes "0 \<le> cleared \<and> (n < 0 \<or> cleared \<le> n)" "\<not> c" "clear_or_count_from P n c cleared items = (r, items')"
  shows "r = cleared + (if n < 0 then counted P items else min (n - cleared) (counted P items)) \<and>
    length items' = length items \<and> counted (\<lambda>_. True) items' + r = counted (\<lambda>_. True) items + cleared \<and>
    (\<forall>i < length items. \<not> P (items ! i) \<longrightarrow> items' ! i = items ! i)"
  using assms(1,3)
proof (induction items arbitrary: cleared r items')
  case (Cons s items)
  define q where "q = matching_item_count s P (n - cleared) c"
  define s' where "s' = (if 0 < q then (if q = stack_count s then st_empty else st_shrink q s) else s)"
  obtain r1 items1 where d: "clear_or_count_from P n c (cleared + q) items = (r1, items1)"
    by fastforce
  have q: "q = (if \<not> P s then 0 else if n < 0 then stack_count s else min (n - cleared) (stack_count s))" "0 \<le> q" "q \<le> stack_count s"
    using assms(2) Cons.prems(1) by (auto simp: q_def matching_item_count_eq)
  have res: "r = r1" "items' = s' # items1"
    using Cons.prems(2) d assms(2) by (auto simp: q_def s'_def Let_def)
  have next_ok: "0 \<le> cleared + q \<and> (n < 0 \<or> cleared + q \<le> n)"
    using Cons.prems(1) q by auto
  have s': "stack_count s' = stack_count s - q"
    using clear_one [OF _ q(3)] q(2) by (cases "0 < q") (simp_all add: s'_def)
  moreover have "\<not> P s \<Longrightarrow> s' = s"
    using q(1) by (simp add: s'_def)
  ultimately show ?case
    using Cons.IH [OF next_ok d] res q counted_nonneg [of P items] Cons.prems(1)
    by (auto simp: counted_Cons nth_Cons' min_def split: if_splits)
qed (auto simp: counted_def)

lemma count_only_from:
  "clear_or_count_from P n True cleared items = (cleared + counted P items, items)"
  by (induction items arbitrary: cleared)
     (simp_all add: counted_Cons matching_item_count_eq Let_def, simp add: counted_def)

lemma counted_update:
  "c < length items \<Longrightarrow> counted P (items[c := s]) =
     counted P items - (if P (items ! c) then stack_count (items ! c) else 0) + (if P s then stack_count s else 0)"
  by (induction items arbitrary: c) (auto simp: counted_Cons split: nat.splits)

text \<open>The slots of a removal: what they hold of the item, and one step of it.\<close>

definition of_item :: "nat \<Rightarrow> item_stack list \<Rightarrow> nat list \<Rightarrow> int" where
  "of_item item items slots = sum_list (map (\<lambda>c. if st_item (items ! c) = item then stack_count (items ! c) else 0) slots)"

lemma of_item_update: "c \<notin> set slots \<Longrightarrow> of_item item (items[c := s]) slots = of_item item items slots"
  by (induction slots) (simp_all add: of_item_def)

lemma of_item_nonneg: "0 \<le> of_item item items slots"
  unfolding of_item_def by (rule sum_list_nonneg) auto

lemma split_counts:
  assumes "\<not> st_is_empty s" "0 \<le> n" "st_split n s = (t, r)"
  shows "stack_count t = min n (stack_count s)" "stack_count r = stack_count s - min n (stack_count s)"
  using assms by (auto simp: st_split_def Let_def st_shrink_def stack_count_def st_is_empty_def)

lemma remove_from_slots_eq:
  assumes "item \<noteq> 0" "0 \<le> removed \<and> removed \<le> n" "distinct slots" "\<forall>c \<in> set slots. c < length items"
    "remove_from_slots item n slots removed items = (removed', items')"
  shows "removed' = min n (removed + of_item item items slots) \<and> length items' = length items \<and>
    counted (\<lambda>_. True) items' + removed' = counted (\<lambda>_. True) items + removed \<and>
    (\<forall>c < length items. st_item (items ! c) \<noteq> item \<longrightarrow> items' ! c = items ! c)"
  using assms(2-5)
proof (induction slots arbitrary: removed items)
  case Nil
  then show ?case
    by (auto simp: of_item_def)
next
  case (Cons c slots)
  show ?case
  proof (cases "st_item (items ! c) = item")
    case False
    then show ?thesis
      using Cons by (simp add: of_item_def)
  next
    case True
    let ?s = "items ! c"
    obtain t r where d: "st_split (n - removed) ?s = (t, r)"
      by fastforce
    have c: "c < length items" "c \<notin> set slots"
      using Cons.prems by simp_all
    have "\<not> st_is_empty ?s"
      using True assms(1) by (auto simp: st_item_def)
    note split = split_counts [OF this _ d]
    have t: "stack_count t = min (n - removed) (stack_count ?s)" "stack_count r = stack_count ?s - stack_count t"
      using split Cons.prems(1) by simp_all
    have total: "counted (\<lambda>_. True) (items[c := r]) = counted (\<lambda>_. True) items - stack_count t"
      using counted_update [OF c(1), of "\<lambda>_. True" r] t(2) by simp
    have others: "items[c := r] ! x = items ! x" if "st_item (items ! x) \<noteq> item" for x
      using that True by (cases "x = c") simp_all
    have more: "of_item item items (c # slots) = stack_count ?s + of_item item items slots"
      using True by (simp add: of_item_def)
    show ?thesis
    proof (cases "removed + stack_count t = n")
      case True
      then have "removed' = n" "items' = items[c := r]"
        using Cons.prems(4) \<open>st_item ?s = item\<close> d by (auto simp: Let_def)
      then show ?thesis
        using True t(1) total more of_item_nonneg [of item items slots] others by auto
    next
      case False
      then have rest: "remove_from_slots item n slots (removed + stack_count t) (items[c := r]) = (removed', items')"
        using Cons.prems(4) \<open>st_item ?s = item\<close> d by (auto simp: Let_def)
      have bound: "0 \<le> removed + stack_count t \<and> removed + stack_count t \<le> n"
        using t(1) Cons.prems(1) by auto
      have all: "stack_count t = stack_count ?s"
        using False t(1) by auto
      have "distinct slots" "\<forall>c' \<in> set slots. c' < length (items[c := r])"
        using Cons.prems(2,3) by simp_all
      from Cons.IH [OF bound this rest] show ?thesis
        using total more all of_item_update [OF c(2), of item items r] others by auto
    qed
  qed
qed

lemma of_item_all: "of_item item items (rev [0..<length items]) = count_item item items"
proof -
  let ?g = "\<lambda>s. if st_item s = item then stack_count s else 0"
  have "of_item item items (rev [0..<length items]) = sum_list (rev (map ?g (map ((!) items) [0..<length items])))"
    by (simp add: of_item_def rev_map comp_def)
  also have "\<dots> = sum_list (map ?g items)"
    by (simp only: map_nth sum_list.rev)
  also have "\<dots> = count_item item items"
    by (induction items) (simp_all add: count_item_def)
  finally show ?thesis .
qed

section \<open>Dealing out\<close>

text \<open>Writing one stack to a run of slots.\<close>

definition deal_out :: "menu \<Rightarrow> item_stack \<Rightarrow> nat list \<Rightarrow> menu_world \<Rightarrow> menu_world" where
  "deal_out m s slots w = fold (\<lambda>i. put_item m i s) slots w"

lemma deal_out_fields [simp]:
  "mw_carried (deal_out m s slots w) = mw_carried w" "length (mw_cells (deal_out m s slots w)) = length (mw_cells w)"
  by (induction slots arbitrary: w) (simp_all add: deal_out_def)

lemma deal_out_cell:
  "c < length (mw_cells w) \<Longrightarrow>
   mw_cells (deal_out m s slots w) ! c = (if \<exists>i \<in> set slots. sl_cell (slot_of m i) = c then s else mw_cells w ! c)"
proof (induction slots arbitrary: w)
  case (Cons i slots)
  then show ?case
    using Cons.IH [of "put_item m i s w"] by (auto simp: deal_out_def put_item_def nth_list_update)
qed (simp add: deal_out_def)

lemma even_drag_fold:
  assumes "\<forall>i \<in> set slots. sl_cell (slot_of m i) < length (mw_cells w) \<and> st_is_empty (get_item m i w) \<and>
      may_place m i source \<and> mn_can_drag_to m i \<and> share \<le> slot_max_for_item m i source"
    and "distinct (map (\<lambda>i. sl_cell (slot_of m i)) slots)" "mw_carried w = source"
    and share: "share = place_count (mn_facts m) kind n source" "int n \<le> st_count source"
  shows "fold (drag_into m kind n source) slots (remaining, w) =
    (remaining - int (length slots) * share, deal_out m (set_count share source) slots w)"
  using assms(1-3)
proof (induction slots arbitrary: remaining w)
  case (Cons i slots)
  let ?v = "put_item m i (set_count share source) w"
  have "can_item_quick_replace (mn_facts m) (get_item m i w) source True"
    using Cons.prems(1) by (simp add: can_item_quick_replace_def)
  then have step: "drag_into m kind n source i (remaining, w) = (remaining - share, ?v)"
    using Cons.prems(1,3) share by (simp add: drag_into_def Let_def min_def) (simp add: slot_max_for_item_def)
  have "get_item m j ?v = get_item m j w" if "j \<in> set slots" for j
  proof -
    have "sl_cell (slot_of m i) \<noteq> sl_cell (slot_of m j)"
      using that Cons.prems(2) by fastforce
    then show ?thesis
      by (simp add: get_item_def put_item_def)
  qed
  then have "fold (drag_into m kind n source) slots (remaining - share, ?v) =
      (remaining - share - int (length slots) * share, deal_out m (set_count share source) slots ?v)"
    using Cons.prems by (intro Cons.IH) simp_all
  then show ?case
    using step by (simp add: deal_out_def algebra_simps)
qed (simp add: deal_out_def)

end
