(* ===== verification/MenuClaims.thy ===== *)
theory MenuClaims
  imports MenuFull
begin

text \<open>
  The claims on inventories: clicks conserve items, end, and keep stacks within their sizes; which raw clicks are
  accepted; what adding to an inventory and clearing a container do; and what a drag and two left clicks amount to.
\<close>

section \<open>A menu to apply them to\<close>

text \<open>A chest of one slot above the player's inventory: cell 0 and the cells from 1 on.\<close>

definition plain_slot :: "nat \<Rightarrow> slot" where
  "plain_slot c = \<lparr>sl_cell = c, sl_max = 99, sl_may_place = (\<lambda>_. True), sl_may_pickup = (\<lambda>_. True)\<rparr>"

definition little_chest :: menu where
  "little_chest = \<lparr>mn_facts = \<lparr>max_size_of = (\<lambda>_. 64), is_damaged_of = (\<lambda>_. False)\<rparr>,
     mn_slots = map plain_slot [0..<37], mn_inventory = [1..<44], mn_selected = 0,
     mn_routes = [\<lparr>ro_from = (0, 1), ro_targets = [(1, 37)], ro_direction = Backward\<rparr>,
                  \<lparr>ro_from = (1, 37), ro_targets = [(0, 1)], ro_direction = Forward\<rparr>],
     mn_drain = [(0, 1)], mn_can_drag_to = (\<lambda>_. True), mn_can_take_all = (\<lambda>_ _. True),
     mn_creative = False, mn_can_drop = True\<rparr>"

definition stones :: "int \<Rightarrow> item_stack" where
  "stones n = \<lparr>st_kind = \<lparr>ik_item = 1, ik_components = 0\<rparr>, st_count = n, opaque_nbt = None\<rparr>"

definition chest_world :: "item_stack \<Rightarrow> item_stack \<Rightarrow> menu_world" where
  "chest_world s carried = \<lparr>mw_cells = s # replicate 43 st_empty, mw_carried = carried, mw_drag = None, mw_drag_slots = [], mw_dropped = []\<rparr>"

lemma little_chest_ok: "menu_ok little_chest 44"
  unfolding menu_ok_def little_chest_def
  by (simp add: facts_ok_def DEFAULT_MAX_STACK_def plain_slot_def CONTAINER_SIZE_def INVENTORY_SIZE_def route_in_def)

lemma stones_fit: "\<lbrakk>0 \<le> n; n \<le> 64; 64 \<le> mx\<rbrakk> \<Longrightarrow> fits (mn_facts little_chest) mx (stones n)"
  by (simp add: fits_def little_chest_def stones_def)

lemma chest_world_ok:
  assumes "0 \<le> n" "n \<le> 64" "0 \<le> k" "k \<le> 64"
  shows "mw_ok little_chest (chest_world (stones n) (stones k))"
proof -
  have "cell_fits little_chest c (stones n)" for c
    using stones_fit [OF assms(1,2)] by (auto simp: cell_fits_def DEFAULT_MAX_STACK_def little_chest_def plain_slot_def)
  then have "cells_fit little_chest (stones n # replicate 43 st_empty)"
    by (auto simp: cells_fit_def nth_Cons' cell_fits_def)
  then show ?thesis
    using stones_fit [OF assms(3,4)] by (simp add: mw_ok_def chest_world_def DEFAULT_MAX_STACK_def)
qed

section \<open>Sessions of clicks\<close>

text \<open>C3: Container clicks of a survival player neither duplicate nor destroy items: after any sequence of clicks
  (left, right, shift, number key, throw, drag and double clicks, valid or not) and after the menu is closed, the cells, the
  carried stack and the dropped stacks together hold as much of every item with its components as before.\<close>

theorem clicks_conserve_items:
  assumes "menu_ok m (length (mw_cells w))" "mw_ok m w" "\<not> mn_creative m" "click_all m clicks w = Some w'"
  shows "held k w' = held k w \<and> held k (menu_removed m to_inventory w') = held k w"
proof -
  have w': "keeps m w w'"
    using click_all_keeps [OF assms(1-3), of clicks] assms(4) by auto
  then have "keeps m w' (menu_removed m to_inventory w')"
    using assms(1) by (intro menu_removed_keeps) (simp_all add: keeps_def)
  then show ?thesis
    using w' by (simp add: keeps_def)
qed

text \<open>C28: Every sequence of clicks of a player who is not in creative mode returns: the loop of a shift click and that of a
  throw end for every click, valid or not, whatever the menu's slots, routes and rules are. The menu has to be well built
  (\<open>menu_ok\<close>: its slots and the places of the inventory lie in the cells), and at the start no stack may be larger than its item
  and its slot allow, nor a count be negative (\<open>mw_ok\<close>).\<close>

theorem clicks_return:
  assumes "menu_ok m (length (mw_cells w))" "mw_ok m w" "\<not> mn_creative m"
  shows "click_all m clicks w \<noteq> None"
  using click_all_keeps [OF assms, of clicks] by auto

text \<open>C29: Clicks of a player who is not in creative mode keep every stack within its sizes, where a well-built menu
  (\<open>menu_ok\<close>) starts with all of them so (\<open>mw_ok\<close>): the stack in a slot within the slot's and the item's, the carried and
  the dropped ones within the item's, no count negative; so the counts, which are \<open>i32\<close> values, never wrap. In creative mode
  they do not: \<open>creative_drag_overdraws\<close> below.\<close>

theorem clicks_keep_stack_sizes:
  assumes "menu_ok m (length (mw_cells w))" "mw_ok m w" "\<not> mn_creative m" "click_all m clicks w = Some w'"
  shows "(\<forall>i < length (mn_slots m). let s = get_item m i w' in
       0 \<le> st_count s \<and> (\<not> st_is_empty s \<longrightarrow> st_count s \<le> slot_max_for_item m i s)) \<and>
     (\<forall>s \<in> set (mw_carried w' # mw_dropped w'). 0 \<le> st_count s \<and> (\<not> st_is_empty s \<longrightarrow> st_count s \<le> max_stack_size (mn_facts m) s))"
proof -
  have "keeps m w w'"
    using click_all_keeps [OF assms(1-3), of clicks] assms(4) by auto
  then have w': "menu_ok m (length (mw_cells w'))" "mw_ok m w'"
    using assms(1) by (simp_all add: keeps_def)
  have "\<forall>i < length (mn_slots m). fits (mn_facts m) (sl_max (slot_of m i)) (get_item m i w')"
    using get_item_fits [OF w'] by blast
  then show ?thesis
    using w'(2) by (simp add: fits_def slot_max_for_item_def max_stack_size_def mw_ok_def Let_def)
qed

lemma chest_length: "length (mw_cells (chest_world s c)) = 44"
  by (simp add: chest_world_def)

lemma chest_premises:
  "menu_ok little_chest (length (mw_cells (chest_world (stones 40) (stones 30))))"
  "mw_ok little_chest (chest_world (stones 40) (stones 30))" "\<not> mn_creative little_chest"
  using little_chest_ok chest_world_ok by (simp_all add: chest_length little_chest_def)

definition some_clicks :: "click list" where
  "some_clicks = [Pickup 0 RightButton, Swap 0 (Hotbar 2), QuickMove 3, PickupAll 5 Forward, Throw 0 True, DropCarried LeftButton,
     QuickCraft (DragStart DragLeft), QuickCraft (DragAdd 4), QuickCraft (DragAdd 9), QuickCraft DragEnd]"

lemma clicks_conserve_items_witness:
  "\<exists>w'. click_all little_chest some_clicks (chest_world (stones 40) (stones 30)) = Some w' \<and>
     held (st_kind (stones 1)) (menu_removed little_chest True w') = 70"
proof -
  obtain w' where w': "click_all little_chest some_clicks (chest_world (stones 40) (stones 30)) = Some w'"
    using click_all_keeps [OF chest_premises] by blast
  have "held (st_kind (stones 1)) (chest_world (stones 40) (stones 30)) = 70"
    by (simp add: held_def chest_world_def total_def stones_def amount_def st_is_empty_def st_empty_def AIR_def sum_list_replicate)
  then show ?thesis
    using clicks_conserve_items [OF chest_premises w'] w' by auto
qed

lemma clicks_return_witness: "click_all little_chest some_clicks (chest_world (stones 40) (stones 30)) \<noteq> None"
  by (rule clicks_return [OF chest_premises])

lemma clicks_keep_stack_sizes_witness:
  "\<exists>w'. click_all little_chest some_clicks (chest_world (stones 40) (stones 30)) = Some w' \<and>
     stack_count (get_item little_chest 0 w') \<le> 64"
proof -
  obtain w' where w': "click_all little_chest some_clicks (chest_world (stones 40) (stones 30)) = Some w'"
    using click_all_keeps [OF chest_premises] by blast
  let ?s = "get_item little_chest 0 w'"
  have "(\<forall>i < length (mn_slots little_chest). let s = get_item little_chest i w' in
       0 \<le> st_count s \<and> (\<not> st_is_empty s \<longrightarrow> st_count s \<le> slot_max_for_item little_chest i s))"
    using clicks_keep_stack_sizes [OF chest_premises w'] by blast
  moreover have "0 < length (mn_slots little_chest)"
    by (simp add: little_chest_def)
  ultimately have "0 \<le> st_count ?s" "\<not> st_is_empty ?s \<longrightarrow> st_count ?s \<le> slot_max_for_item little_chest 0 ?s"
    by (auto simp: Let_def)
  then have "stack_count ?s \<le> 64"
    by (auto simp: stack_count_def slot_max_for_item_def max_stack_size_def little_chest_def)
  then show ?thesis
    using w' by blast
qed

section \<open>Raw clicks\<close>

definition in_i16 :: "int \<Rightarrow> bool" where "in_i16 x \<longleftrightarrow> - 32768 \<le> x \<and> x < 32768"
definition in_i8 :: "int \<Rightarrow> bool" where "in_i8 x \<longleftrightarrow> - 128 \<le> x \<and> x < 128"

text \<open>
  The table of the protocol: which fields stand for which click. A drag's button holds its phase in bits 0 and 1 and, where
  it starts one, its kind in bits 2 and 3; where no slot is meant, the slot field may be anything.
\<close>

inductive stands_for :: "int \<Rightarrow> int \<Rightarrow> click_type \<Rightarrow> click \<Rightarrow> bool" where
  left: "stands_for (int i) 0 TPickup (Pickup i LeftButton)"
| right: "stands_for (int i) 1 TPickup (Pickup i RightButton)"
| left_outside: "stands_for (- 999) 0 TPickup (DropCarried LeftButton)"
| right_outside: "stands_for (- 999) 1 TPickup (DropCarried RightButton)"
| shift_left: "stands_for (int i) 0 TQuickMove (QuickMove i)"
| shift_right: "stands_for (int i) 1 TQuickMove (QuickMove i)"
| number_key: "j < 9 \<Longrightarrow> stands_for (int i) (int j) TSwap (Swap i (Hotbar j))"
| offhand_key: "stands_for (int i) 40 TSwap (Swap i Offhand)"
| middle: "stands_for (int i) b TClone (Clone i)"
| drop_one: "stands_for (int i) 0 TThrow (Throw i False)"
| drop_stack: "stands_for (int i) 1 TThrow (Throw i True)"
| double_left: "stands_for (int i) 0 TPickupAll (PickupAll i Forward)"
| double_right: "stands_for (int i) 1 TPickupAll (PickupAll i Backward)"
| start_left: "\<lbrakk>\<not> bit b 0; \<not> bit b 1; \<not> bit b 2; \<not> bit b 3\<rbrakk> \<Longrightarrow> stands_for a b TQuickCraft (QuickCraft (DragStart DragLeft))"
| start_right: "\<lbrakk>\<not> bit b 0; \<not> bit b 1; bit b 2; \<not> bit b 3\<rbrakk> \<Longrightarrow> stands_for a b TQuickCraft (QuickCraft (DragStart DragRight))"
| start_clone: "\<lbrakk>\<not> bit b 0; \<not> bit b 1; \<not> bit b 2; bit b 3\<rbrakk> \<Longrightarrow> stands_for a b TQuickCraft (QuickCraft (DragStart DragClone))"
| drag_over: "\<lbrakk>bit b 0; \<not> bit b 1\<rbrakk> \<Longrightarrow> stands_for (int i) b TQuickCraft (QuickCraft (DragAdd i))"
| drag_end: "\<lbrakk>\<not> bit b 0; bit b 1\<rbrakk> \<Longrightarrow> stands_for a b TQuickCraft (QuickCraft DragEnd)"

inductive_simps stands_for_simps:
  "stands_for a b TPickup c" "stands_for a b TQuickMove c" "stands_for a b TSwap c" "stands_for a b TClone c"
  "stands_for a b TThrow c" "stands_for a b TPickupAll c" "stands_for a b TQuickCraft c"

lemma drag_bits:
  fixes b :: int
  shows "b mod 4 = 0 \<longleftrightarrow> \<not> bit b 0 \<and> \<not> bit b 1" "b mod 4 = 1 \<longleftrightarrow> bit b 0 \<and> \<not> bit b 1" "b mod 4 = 2 \<longleftrightarrow> \<not> bit b 0 \<and> bit b 1"
    "b div 4 mod 4 = 0 \<longleftrightarrow> \<not> bit b 2 \<and> \<not> bit b 3" "b div 4 mod 4 = 1 \<longleftrightarrow> bit b 2 \<and> \<not> bit b 3"
    "b div 4 mod 4 = 2 \<longleftrightarrow> \<not> bit b 2 \<and> bit b 3"
proof -
  have "b div 2 ^ 3 = b div 4 div 2" by (simp add: div_mult2_eq [symmetric])
  then have bits: "bit b 0 \<longleftrightarrow> odd b" "bit b 1 \<longleftrightarrow> odd (b div 2)" "bit b 2 \<longleftrightarrow> odd (b div 4)" "bit b 3 \<longleftrightarrow> odd (b div 4 div 2)"
    by (simp_all add: bit_iff_odd)
  have low: "x mod 4 = 0 \<longleftrightarrow> even x \<and> even (x div 2)" "x mod 4 = 1 \<longleftrightarrow> odd x \<and> even (x div 2)" "x mod 4 = 2 \<longleftrightarrow> even x \<and> odd (x div 2)"
    for x :: int by presburger+
  show "b mod 4 = 0 \<longleftrightarrow> \<not> bit b 0 \<and> \<not> bit b 1" "b mod 4 = 1 \<longleftrightarrow> bit b 0 \<and> \<not> bit b 1" "b mod 4 = 2 \<longleftrightarrow> \<not> bit b 0 \<and> bit b 1"
    "b div 4 mod 4 = 0 \<longleftrightarrow> \<not> bit b 2 \<and> \<not> bit b 3" "b div 4 mod 4 = 1 \<longleftrightarrow> bit b 2 \<and> \<not> bit b 3"
    "b div 4 mod 4 = 2 \<longleftrightarrow> \<not> bit b 2 \<and> bit b 3"
    unfolding bits using low [of b] low [of "b div 4"] by simp_all
qed

lemma parse_slot_Some: "parse_slot a n = Some i \<longleftrightarrow> a = int i \<and> i < n"
  by (auto simp: parse_slot_def)

lemma parse_slot_None: "parse_slot a n = None \<longleftrightarrow> a < 0 \<or> int n \<le> a"
  by (auto simp: parse_slot_def)

lemma parse_click_table: "parse_click a b t n = Some c \<longleftrightarrow> a < int n \<and> stands_for a b t c"
proof (cases t)
  case TQuickCraft
  show ?thesis
    unfolding parse_click_def TQuickCraft stands_for_simps Let_def drag_bits(4-6)
    unfolding drag_bits(1-3) by (auto simp: parse_slot_Some)
next
  case TSwap
  have "(0 \<le> b \<and> b \<le> 8) \<longleftrightarrow> (\<exists>j < 9. b = int j)"
    by (auto intro!: exI [of _ "nat b"])
  then show ?thesis
    unfolding parse_click_def TSwap stands_for_simps by (auto simp: parse_slot_Some)
qed (auto simp: parse_click_def stands_for_simps parse_slot_Some parse_slot_None parse_button_def SLOT_CLICKED_OUTSIDE_def
    split: option.splits if_splits)

lemma parse_click_valid: "parse_click a b t n = Some c \<Longrightarrow> is_valid_for c n"
  by (auto simp: parse_click_def parse_slot_Some Let_def split: click_type.splits option.splits if_splits)

lemma valid_drag_parsed:
  assumes "n \<le> 32768" "is_valid_for (QuickCraft action) n"
  shows "\<exists>a b t. in_i16 a \<and> in_i8 b \<and> parse_click a b t n = Some (QuickCraft action)"
proof (cases action)
  case (DragStart kind)
  let ?button = "case kind of DragLeft \<Rightarrow> 0 | DragRight \<Rightarrow> 4 | DragClone \<Rightarrow> 8"
  have "in_i16 (- 999) \<and> in_i8 ?button \<and> parse_click (- 999) ?button TQuickCraft n = Some (QuickCraft action)"
    using DragStart by (cases kind) (simp_all add: parse_click_def in_i8_def in_i16_def)
  then show ?thesis
    by blast
next
  case (DragAdd i)
  then have "in_i16 (int i) \<and> in_i8 1 \<and> parse_click (int i) 1 TQuickCraft n = Some (QuickCraft action)"
    using assms by (simp add: parse_click_def parse_slot_def in_i8_def in_i16_def)
  then show ?thesis
    by blast
next
  case DragEnd
  then have "in_i16 (- 999) \<and> in_i8 2 \<and> parse_click (- 999) 2 TQuickCraft n = Some (QuickCraft action)"
    by (simp add: parse_click_def in_i8_def in_i16_def)
  then show ?thesis
    by blast
qed

lemma valid_click_parsed:
  assumes "n \<le> 32768" and valid: "is_valid_for c n"
  shows "\<exists>a b t. in_i16 a \<and> in_i8 b \<and> parse_click a b t n = Some c"
proof -
  have slot: "in_i16 (int i)" if "i < n" for i
    using that assms by (simp add: in_i16_def)
  have eqs: "\<exists>a b t. in_i16 a \<and> in_i8 b \<and> parse_click a b t n = Some c"
    if "parse_click a b t n = Some c" "in_i16 a" "in_i8 b" for a b t
    using that by blast
  show ?thesis
  proof (cases c)
    case (Pickup i b)
    then show ?thesis
      using eqs [of "int i" "if b = LeftButton then 0 else 1" TPickup] valid slot [of i]
      by (cases b) (simp_all add: parse_click_def parse_slot_def parse_button_def in_i8_def SLOT_CLICKED_OUTSIDE_def)
  next
    case (DropCarried b)
    then show ?thesis
      using eqs [of "- 999" "if b = LeftButton then 0 else 1" TPickup]
      by (cases b) (simp_all add: parse_click_def parse_button_def in_i8_def in_i16_def SLOT_CLICKED_OUTSIDE_def)
  next
    case (QuickMove i)
    then show ?thesis
      using eqs [of "int i" 0 TQuickMove] valid slot [of i] by (simp add: parse_click_def parse_slot_def in_i8_def)
  next
    case (Swap i s)
    then show ?thesis
      using eqs [of "int i" "case s of Hotbar j \<Rightarrow> int j | Offhand \<Rightarrow> 40" TSwap] valid slot [of i]
      by (cases s) (simp_all add: parse_click_def parse_slot_def in_i8_def)
  next
    case (Clone i)
    then show ?thesis
      using eqs [of "int i" 0 TClone] valid slot [of i] by (simp add: parse_click_def parse_slot_def in_i8_def)
  next
    case (Throw i whole)
    then show ?thesis
      using eqs [of "int i" "if whole then 1 else 0" TThrow] valid slot [of i]
      by (cases whole) (simp_all add: parse_click_def parse_slot_def in_i8_def)
  next
    case (PickupAll i d)
    then show ?thesis
      using eqs [of "int i" "if d = Forward then 0 else 1" TPickupAll] valid slot [of i]
      by (cases d) (simp_all add: parse_click_def parse_slot_def in_i8_def)
  next
    case (QuickCraft action)
    then show ?thesis
      using valid_drag_parsed assms valid by blast
  qed
qed

text \<open>C36: The packet's fields are parsed by the protocol's table (\<open>stands_for\<close>): a slot field that is negative or within the
  menu, with a button and a click type, is parsed into exactly the click these stand for, and everything else, unknown buttons,
  slots out of range and malformed drags, is refused. For a menu of at most 32768 slots the clicks that packets within the
  fields' types can ask for are exactly the valid ones.\<close>

theorem packets_parse_by_the_table:
  "(parse_click a b t n = Some c \<longleftrightarrow> a < int n \<and> stands_for a b t c) \<and>
   (n \<le> 32768 \<longrightarrow> (\<exists>a b t. in_i16 a \<and> in_i8 b \<and> parse_click a b t n = Some c) = is_valid_for c n)"
  using parse_click_table valid_click_parsed parse_click_valid by blast

lemma packets_parse_by_the_table_witness:
  "parse_click 5 1 TThrow 46 = Some (Throw 5 True) \<and> parse_click 5 0 TPickup 46 \<noteq> Some (Pickup 5 RightButton) \<and>
   parse_click (- 999) (- 124) TQuickCraft 46 = Some (QuickCraft (DragStart DragRight)) \<and>
   (\<exists>a b t. in_i16 a \<and> in_i8 b \<and> parse_click a b t 46 = Some (QuickCraft (DragAdd 45))) \<and>
   \<not> (\<exists>a b t. in_i16 a \<and> in_i8 b \<and> parse_click a b t 46 = Some (Swap 45 (Hotbar 9)))"
proof -
  have "stands_for 5 1 TThrow (Throw 5 True)" "\<not> stands_for 5 0 TPickup (Pickup 5 RightButton)"
    using stands_for.drop_stack [of 5] by (simp_all add: stands_for_simps)
  moreover have "stands_for (- 999) (- 124) TQuickCraft (QuickCraft (DragStart DragRight))"
    by (rule stands_for.start_right) (simp_all add: bit_iff_odd)
  ultimately show ?thesis
    using packets_parse_by_the_table [of 5 1 TThrow 46 "Throw 5 True"] packets_parse_by_the_table [of 5 0 TPickup 46 "Pickup 5 RightButton"]
      packets_parse_by_the_table [of "- 999" "- 124" TQuickCraft 46 "QuickCraft (DragStart DragRight)"]
      packets_parse_by_the_table [of 0 0 TPickup 46 "QuickCraft (DragAdd 45)"]
      packets_parse_by_the_table [of 0 0 TPickup 46 "Swap 45 (Hotbar 9)"] by simp
qed

section \<open>Adding and clearing\<close>

text \<open>Adding to a player's inventory conserves every item: what the cells gained is what the stack lost; it reports success exactly
  when the whole stack was placed; and when it gives something back, no main slot is empty and no main slot nor the offhand
  that holds the same stackable item has room left.\<close>

theorem inventory_add_gives_back_only_when_full:
  assumes facts: "facts_ok f" and places: "length places = CONTAINER_SIZE" "\<forall>c \<in> set places. c < length cells"
    and selected: "selected < INVENTORY_SIZE" and add: "inventory_add f places selected s cells = (added, s', cells')"
  shows "total k cells' + amount k s' = total k cells + amount k s \<and> (added \<longleftrightarrow> st_is_empty s') \<and>
    (\<not> added \<longrightarrow>
      (\<forall>slot < INVENTORY_SIZE. \<not> st_is_empty (cells' ! (places ! slot))) \<and>
      (is_stackable f s \<longrightarrow>
        (\<forall>slot \<in> {..<INVENTORY_SIZE} \<union> {SLOT_OFFHAND}.
          no_space (min DEFAULT_MAX_STACK (max_stack_size f s)) (st_kind s) (cells' ! (places ! slot)))))"
  using inventory_add_deals [OF assms, of k] inventory_add_full [OF assms] by blast

lemma inventory_add_gives_back_only_when_full_witness:
  "\<exists>added s' cells'. inventory_add (mn_facts little_chest) [0..<43] 0 (stones 70) (stones 60 # replicate 42 st_empty) = (added, s', cells') \<and>
     total (st_kind (stones 1)) cells' + amount (st_kind (stones 1)) s' = 130 \<and> (added \<longleftrightarrow> st_is_empty s')"
proof -
  obtain added s' cells' where
    add: "inventory_add (mn_facts little_chest) [0..<43] 0 (stones 70) (stones 60 # replicate 42 st_empty) = (added, s', cells')"
    using prod_cases3 by blast
  have facts: "facts_ok (mn_facts little_chest)"
    using little_chest_ok by (simp add: menu_ok_def)
  have places: "length [0..<43] = CONTAINER_SIZE" "\<forall>c \<in> set [0..<43]. c < length (stones 60 # replicate 42 st_empty)" "0 < INVENTORY_SIZE"
    by (simp_all add: CONTAINER_SIZE_def INVENTORY_SIZE_def)
  have "total (st_kind (stones 1)) (stones 60 # replicate 42 st_empty) + amount (st_kind (stones 1)) (stones 70) = 130"
    by (simp add: total_def stones_def amount_def st_is_empty_def st_empty_def AIR_def sum_list_replicate)
  then show ?thesis
    using inventory_add_gives_back_only_when_full [OF facts places add, of "st_kind (stones 1)"] add by auto
qed

text \<open>Clearing items removes what it was asked to: with a limit, the smaller of it and of what matches, with a negative limit all that
  matches, and when it only counts, nothing; it reports what it removed or counted, the container loses just that,
  and stacks that do not match stay as they are.\<close>

theorem clearing_removes_what_was_asked:
  assumes "clear_or_count_matching_items P n counting_only items = (r, items')"
  shows "r = (if counting_only \<or> n < 0 then counted P items else min n (counted P items)) \<and>
    (counting_only \<longrightarrow> items' = items) \<and>
    counted (\<lambda>_. True) items' = counted (\<lambda>_. True) items - (if counting_only then 0 else r) \<and>
    length items' = length items \<and> (\<forall>i < length items. \<not> P (items ! i) \<longrightarrow> items' ! i = items ! i)"
proof (cases counting_only)
  case True
  then show ?thesis
    using assms by (auto simp: clear_or_count_matching_items_def count_only_from)
next
  case False
  have "(0::int) \<le> 0 \<and> (n < 0 \<or> 0 \<le> n)"
    by linarith
  from clear_or_count_from_eq [OF this False assms [unfolded clear_or_count_matching_items_def]] show ?thesis
    using False by simp
qed

lemma clearing_removes_what_was_asked_witness:
  "clear_or_count_matching_items (\<lambda>s. st_item s = 1) 5 False [stones 3, st_empty, stones 4] = (5, [st_empty, st_empty, stones 2]) \<and>
   (5::int) = min 5 (counted (\<lambda>s. st_item s = 1) [stones 3, st_empty, stones 4])"
proof -
  have "clear_or_count_matching_items (\<lambda>s. st_item s = 1) 5 False [stones 3, st_empty, stones 4] = (5, [st_empty, st_empty, stones 2])"
    by (simp add: clear_or_count_matching_items_def matching_item_count_def st_item_def st_is_empty_def stones_def
        st_empty_def AIR_def stack_count_def st_shrink_def)
  then show ?thesis
    using clearing_removes_what_was_asked by fastforce
qed

text \<open>Removing items of a type takes the smaller of the amount asked for and of what the container holds, over all its slots; it returns a stack of
  that count and the container loses just that, while stacks of other items stay as they are.\<close>

theorem removing_takes_what_there_is:
  assumes "ik_item kind \<noteq> 0" "0 \<le> n" "remove_item_type kind n items = (taken, items')"
  shows "st_count taken = min n (count_item (ik_item kind) items) \<and> st_kind taken = kind \<and>
    counted (\<lambda>_. True) items' = counted (\<lambda>_. True) items - st_count taken \<and> length items' = length items \<and>
    (\<forall>c < length items. st_item (items ! c) \<noteq> ik_item kind \<longrightarrow> items' ! c = items ! c)"
proof -
  let ?slots = "rev [0..<length items]"
  obtain removed where r: "remove_from_slots (ik_item kind) n ?slots 0 items = (removed, items')"
      "taken = \<lparr>st_kind = kind, st_count = removed, opaque_nbt = None\<rparr>"
    using assms(3) by (auto simp: remove_item_type_def split: prod.splits)
  have "0 \<le> (0::int) \<and> 0 \<le> n" "distinct ?slots" "\<forall>c \<in> set ?slots. c < length items"
    using assms(2) by simp_all
  from remove_from_slots_eq [OF assms(1) this r(1)] show ?thesis
    using r(2) by (simp add: of_item_all)
qed

lemma removing_takes_what_there_is_witness:
  "\<exists>taken items'. remove_item_type (st_kind (stones 1)) 5 [stones 3, st_empty, stones 4] = (taken, items') \<and> st_count taken = 5 \<and>
     counted (\<lambda>_. True) items' = 2"
proof -
  obtain taken items' where d: "remove_item_type (st_kind (stones 1)) 5 [stones 3, st_empty, stones 4] = (taken, items')"
    by fastforce
  have "count_item (ik_item (st_kind (stones 1))) [stones 3, st_empty, stones 4] = 7"
    "counted (\<lambda>_. True) [stones 3, st_empty, stones 4] = 7" "ik_item (st_kind (stones 1)) \<noteq> 0"
    by (simp_all add: count_item_def counted_def stones_def st_item_def stack_count_def st_is_empty_def st_empty_def AIR_def)
  then show ?thesis
    using removing_takes_what_there_is [OF _ _ d] d by simp
qed

section \<open>Picking up and putting back, dragging evenly\<close>

text \<open>A left click that picks up a slot's stack and a second one on the same slot undo each other: the cells are what they were, and the hand
  is empty again.\<close>

theorem pickup_and_put_back:
  assumes "sl_cell (slot_of m i) < length (mw_cells w)" "\<not> st_is_empty (get_item m i w)" "st_is_empty (mw_carried w)"
    "may_pickup m i w" "may_place m i (get_item m i w)" "st_count (get_item m i w) \<le> slot_max_for_item m i (get_item m i w)"
  shows "let w' = do_pickup m i LeftButton w; w'' = do_pickup m i LeftButton w' in
    mw_carried w' = get_item m i w \<and> st_is_empty (get_item m i w') \<and>
    mw_cells w'' = mw_cells w \<and> st_is_empty (mw_carried w'') \<and> mw_dropped w'' = mw_dropped w"
proof -
  let ?s = "get_item m i w"
  let ?w1 = "(put_item m i st_empty w)\<lparr>mw_carried := ?s\<rparr>"
  have pos: "0 < st_count ?s"
    using assms(2) by (simp add: st_is_empty_def)
  have split: "st_split (st_count ?s) ?s = (?s, ?s\<lparr>st_count := 0\<rparr>)"
    by (simp add: st_split_def st_shrink_def Let_def)
  have none: "st_is_empty (?s\<lparr>st_count := 0\<rparr>)"
    by (simp add: st_is_empty_def)
  have allowed: "allow_modification m i (w\<lparr>mw_carried := st_empty\<rparr>)"
    using assms(4,5) by (simp add: allow_modification_def)
  have "slot_remove m i (st_count ?s) (w\<lparr>mw_carried := st_empty\<rparr>) =
      (?s, put_item m i (?s\<lparr>st_count := 0\<rparr>) (w\<lparr>mw_carried := st_empty\<rparr>))"
    using assms(2) pos split by (simp add: slot_remove_def)
  then have "try_remove m i (st_count ?s) None (w\<lparr>mw_carried := st_empty\<rparr>) =
      (Some ?s, put_item m i st_empty (w\<lparr>mw_carried := st_empty\<rparr>))"
    using assms(1,2,4) allowed none by (simp add: try_remove_def)
  then have one: "do_pickup m i LeftButton w = ?w1"
    using assms(2,3) by (simp add: do_pickup_def Let_def)
  have slot1: "get_item m i ?w1 = st_empty"
    using assms(1) by simp
  have insert: "safe_insert m i ?s (st_count ?s) (?w1\<lparr>mw_carried := st_empty\<rparr>) =
      (?s\<lparr>st_count := 0\<rparr>, put_item m i ?s (?w1\<lparr>mw_carried := st_empty\<rparr>))"
    using assms(1,2,5,6) pos split by (simp add: safe_insert_def Let_def) (simp add: st_empty_def)
  have two: "do_pickup m i LeftButton ?w1 = (put_item m i ?s w)\<lparr>mw_carried := ?s\<lparr>st_count := 0\<rparr>\<rparr>"
    using assms(2,5) slot1 insert by (simp add: do_pickup_def Let_def)
  have "mw_cells (put_item m i ?s w) = mw_cells w"
    by (simp add: put_item_def get_item_def)
  then show ?thesis
    using one two slot1 none by (simp add: Let_def)
qed

lemma pickup_and_put_back_witness:
  "mw_carried (do_pickup little_chest 0 LeftButton (chest_world (stones 40) st_empty)) = stones 40"
proof -
  have g: "get_item little_chest 0 (chest_world (stones 40) st_empty) = stones 40"
    by (simp add: get_item_def chest_world_def little_chest_def plain_slot_def)
  have "sl_cell (slot_of little_chest 0) < length (mw_cells (chest_world (stones 40) st_empty))"
    "\<not> st_is_empty (stones 40)" "st_is_empty (mw_carried (chest_world (stones 40) st_empty))"
    "may_pickup little_chest 0 (chest_world (stones 40) st_empty)" "may_place little_chest 0 (stones 40)"
    "st_count (stones 40) \<le> slot_max_for_item little_chest 0 (stones 40)"
    by (simp_all add: chest_world_def little_chest_def plain_slot_def stones_def st_is_empty_def may_pickup_def may_place_def
        slot_max_for_item_def max_stack_size_def st_empty_def)
  then show ?thesis
    using pickup_and_put_back [of little_chest 0 "chest_world (stones 40) st_empty"] g by (simp add: Let_def)
qed

text \<open>A left drag shares the carried stack evenly: dragged over empty slots that take it, every slot gets the whole part of the
  count by the number of slots, what is left over stays in the hand, and no other cell changes.\<close>

theorem left_drag_shares_evenly:
  assumes "mw_drag w = Some DragLeft" "mw_drag_slots w = slots" "2 \<le> length slots" "\<not> st_is_empty (mw_carried w)"
    "int (length slots) \<le> st_count (mw_carried w)" "distinct (map (\<lambda>i. sl_cell (slot_of m i)) slots)"
    "\<forall>i \<in> set slots. sl_cell (slot_of m i) < length (mw_cells w) \<and> st_is_empty (get_item m i w) \<and>
      may_place m i (mw_carried w) \<and> mn_can_drag_to m i \<and>
      st_count (mw_carried w) div int (length slots) \<le> slot_max_for_item m i (mw_carried w)"
  shows "let w' = do_quick_craft m DragEnd w; share = st_count (mw_carried w) div int (length slots) in
    (\<forall>i \<in> set slots. get_item m i w' = set_count share (mw_carried w)) \<and>
    mw_carried w' = set_count (st_count (mw_carried w) mod int (length slots)) (mw_carried w) \<and>
    mw_drag w' = None \<and>
    (\<forall>c < length (mw_cells w). c \<notin> (\<lambda>i. sl_cell (slot_of m i)) ` set slots \<longrightarrow> mw_cells w' ! c = mw_cells w ! c)"
proof -
  let ?c = "mw_carried w"
  define share where "share = st_count ?c div int (length slots)"
  have place: "share = place_count (mn_facts m) DragLeft (length slots) ?c"
    by (simp add: share_def place_count_def)
  have fold: "fold (drag_into m DragLeft (length slots) ?c) slots (st_count ?c, w) =
      (st_count ?c - int (length slots) * share, deal_out m (set_count share ?c) slots w)"
    by (rule even_drag_fold [OF _ assms(6) refl place assms(5)]) (use assms(7) in \<open>simp add: share_def\<close>)
  have left: "st_count ?c - int (length slots) * share = st_count ?c mod int (length slots)"
    by (simp add: share_def minus_mult_div_eq_mod)
  obtain i j js where slots: "slots = i # j # js"
    using assms(3) by (cases slots; cases "tl slots") auto
  have "do_quick_craft m DragEnd w = reset_quick_craft ((deal_out m (set_count share ?c) slots w)
      \<lparr>mw_carried := set_count (st_count ?c mod int (length slots)) ?c\<rparr>)"
    using assms(1,2,4) fold left by (simp add: do_quick_craft_def finish_quick_craft_def slots Let_def)
  moreover have "get_item m i (deal_out m (set_count share ?c) slots w) = set_count share ?c" if "i \<in> set slots" for i
    using that assms(7) by (auto simp: get_item_def deal_out_cell)
  ultimately show ?thesis
    using assms(7) by (auto simp: Let_def share_def [symmetric] get_item_def deal_out_cell reset_quick_craft_def)
qed

lemma left_drag_shares_evenly_witness:
  "let w' = do_quick_craft little_chest DragEnd ((chest_world st_empty (stones 40))\<lparr>mw_drag := Some DragLeft, mw_drag_slots := [0, 5, 9]\<rparr>) in
   get_item little_chest 5 w' = stones 13 \<and> mw_carried w' = stones 1"
proof -
  let ?w = "(chest_world st_empty (stones 40))\<lparr>mw_drag := Some DragLeft, mw_drag_slots := [0, 5, 9]\<rparr>"
  have "\<forall>i \<in> set [0, 5, 9]. sl_cell (slot_of little_chest i) < length (mw_cells ?w) \<and> st_is_empty (get_item little_chest i ?w) \<and>
      may_place little_chest i (mw_carried ?w) \<and> mn_can_drag_to little_chest i \<and>
      st_count (mw_carried ?w) div int (length [0, 5, 9]) \<le> slot_max_for_item little_chest i (mw_carried ?w)"
    by (simp add: chest_world_def little_chest_def plain_slot_def stones_def may_place_def get_item_def
        slot_max_for_item_def max_stack_size_def)
  moreover have "mw_carried ?w = stones 40" "set_count 13 (stones 40) = stones 13" "set_count 1 (stones 40) = stones 1"
    by (simp_all add: chest_world_def stones_def set_count_def)
  moreover have "distinct (map (\<lambda>i. sl_cell (slot_of little_chest i)) [0, 5, 9])" "\<not> st_is_empty (stones 40)"
    by (simp_all add: little_chest_def plain_slot_def stones_def st_is_empty_def)
  ultimately show ?thesis
    using left_drag_shares_evenly [of ?w "[0, 5, 9]" little_chest] by (simp add: Let_def stones_def)
qed

section \<open>Two oddities\<close>

text \<open>Stacks are the same when item and components are, whatever NBT a plugin gave them; merged, the slot's stack keeps its own.\<close>

lemma merging_forgets_plugin_nbt:
  "let w = chest_world (stones 1) ((stones 1)\<lparr>opaque_nbt := Some 7\<rparr>); w' = do_pickup little_chest 0 LeftButton w in
   get_item little_chest 0 w' = stones 2 \<and> st_is_empty (mw_carried w') \<and> opaque_nbt (get_item little_chest 0 w') = None"
  by (simp add: do_pickup_def Let_def safe_insert_def get_item_def put_item_def may_place_def may_pickup_def chest_world_def
      little_chest_def plain_slot_def stones_def st_is_empty_def slot_max_for_item_def max_stack_size_def st_empty_def
      is_same_item_same_components_def is_same_item_def st_item_def st_shrink_def st_grow_def)

text \<open>
  In creative mode a drag with the middle button fills every slot and takes what it placed off the carried stack, which
  so ends at a negative count. Such a stack counts as empty.
\<close>

lemma creative_drag_overdraws:
  "let m = little_chest\<lparr>mn_creative := True\<rparr>;
       w = (chest_world st_empty (stones 1))\<lparr>mw_drag := Some DragClone, mw_drag_slots := [0, 5]\<rparr>;
       w' = do_quick_craft m DragEnd w in
   get_item m 0 w' = stones 64 \<and> get_item m 5 w' = stones 64 \<and>
   st_count (mw_carried w') = - 127 \<and> st_is_empty (mw_carried w')"
  by code_simp

text \<open>
  The swap reads the slot before it splits the inventory's stack. When both are one cell that holds more than the slot
  allows, the slot gets its maximum and the stack read before is added to the inventory as a whole.
\<close>

lemma swap_with_itself_duplicates:
  assumes "sl_cell (slot_of m i) = mn_inventory m ! inventory_slot target" "sl_cell (slot_of m i) < length (mw_cells w)"
    "may_pickup m i w" "may_place m i (get_item m i w)" "\<not> mn_creative m" "\<not> st_is_empty (get_item m i w)"
    and big: "0 < slot_max_for_item m i (get_item m i w)" "slot_max_for_item m i (get_item m i w) < st_count (get_item m i w)"
    and inventory: "facts_ok (mn_facts m)" "length (mn_inventory m) = CONTAINER_SIZE"
      "\<forall>c \<in> set (mn_inventory m). c < length (mw_cells w)" "mn_selected m < INVENTORY_SIZE"
  shows "held (st_kind (get_item m i w)) (do_swap m i target w) =
    held (st_kind (get_item m i w)) w + slot_max_for_item m i (get_item m i w)"
proof -
  let ?s = "get_item m i w" and ?k = "st_kind (get_item m i w)"
  define p where "p = ?s\<lparr>st_count := slot_max_for_item m i ?s\<rparr>"
  define r where "r = st_shrink (slot_max_for_item m i ?s) ?s"
  let ?v = "put_item m i p w"
  have same: "inventory_item m (inventory_slot target) w = ?s"
    using same_place_same_item [OF assms(1)] by simp
  have put: "put_item m i p (put_inventory m (inventory_slot target) r w) = ?v"
    using assms(1) by (simp add: put_item_def put_inventory_def)
  have split: "st_split (slot_max_for_item m i ?s) ?s = (p, r)"
    using big by (simp add: st_split_def Let_def p_def r_def)
  obtain added rest cells' where
    add: "inventory_add (mn_facts m) (mn_inventory m) (mn_selected m) ?s (mw_cells ?v) = (added, rest, cells')"
    using prod_cases3 by blast
  have conserved: "total ?k cells' + amount ?k rest = total ?k (mw_cells ?v) + amount ?k ?s" "added \<longleftrightarrow> st_is_empty rest"
    using inventory_add_deals [OF inventory(1,2) _ inventory(4) add, of ?k] inventory(3) by simp_all
  have swap: "do_swap m i target w = (if \<not> added then drop_item rest (?v\<lparr>mw_cells := cells'\<rparr>) else ?v\<lparr>mw_cells := cells'\<rparr>)"
    using assms(3-6) big split put add by (simp add: do_swap_def Let_def same)
  have "amount ?k p = slot_max_for_item m i ?s" "amount ?k ?s = st_count ?s"
    using assms(6) big(1) by (simp_all add: p_def amount_def st_is_empty_def)
  moreover have "held ?k ?v = held ?k w - amount ?k ?s + amount ?k p"
    using slots.stored_poke [of m i w ?k p] assms(2) by simp
  moreover have "held ?k (?v\<lparr>mw_cells := cells'\<rparr>) + total ?k (mw_cells ?v) = held ?k ?v + total ?k cells'"
    by (simp add: held_def)
  ultimately show ?thesis
    using swap conserved by (auto simp: held_drop_item)
qed


end
