(* ===== verification/Poi.thy ===== *)
theory Poi
  imports Positions "HOL-Library.AList"
begin

text \<open>
  Points of interest: one of them (\<open>foton-core/src/poi/poi_instance.rs\<close>), those of a section
  (\<open>poi_set.rs\<close>) and those of a world (\<open>poi_storage.rs\<close>). Hash maps are association lists, whose order is that
  of an iteration; hash sets are lists without repetitions. A visitor is the list of what it visits. What the
  registry says of types and states is an argument.
\<close>

section \<open>One point\<close>

record point_of_interest =
  poi_pos :: block_pos
  poi_type :: nat
  free_tickets :: nat

definition poi_new :: "block_pos \<Rightarrow> nat \<Rightarrow> nat \<Rightarrow> point_of_interest" where
  "poi_new p t n = \<lparr>poi_pos = p, poi_type = t, free_tickets = n\<rparr>"

definition poi_reserve :: "point_of_interest \<Rightarrow> bool \<times> point_of_interest" where
  "poi_reserve i = (if 0 < free_tickets i then (True, i\<lparr>free_tickets := free_tickets i - 1\<rparr>) else (False, i))"

definition poi_release :: "nat \<Rightarrow> point_of_interest \<Rightarrow> bool \<times> point_of_interest" where
  "poi_release max_tickets i =
     (if free_tickets i < max_tickets then (True, i\<lparr>free_tickets := free_tickets i + 1\<rparr>) else (False, i))"

definition poi_has_space :: "point_of_interest \<Rightarrow> bool" where
  "poi_has_space i \<longleftrightarrow> 0 < free_tickets i"

definition poi_is_occupied :: "nat \<Rightarrow> point_of_interest \<Rightarrow> bool" where
  "poi_is_occupied max_tickets i \<longleftrightarrow> free_tickets i \<noteq> max_tickets"

datatype occupation_status = FreePoi | OccupiedPoi | AnyPoi

definition status_matches :: "occupation_status \<Rightarrow> nat \<Rightarrow> point_of_interest \<Rightarrow> bool" where
  "status_matches status max_tickets i =
     (case status of AnyPoi \<Rightarrow> True | FreePoi \<Rightarrow> poi_has_space i | OccupiedPoi \<Rightarrow> poi_is_occupied max_tickets i)"

section \<open>The points of a section\<close>

record poi_set =
  pois_by_pos :: "(u16 \<times> point_of_interest) list"
  pois_by_type :: "(nat \<times> u16 list) list"
  poi_dirty :: bool

definition poi_set_new :: poi_set where
  "poi_set_new = \<lparr>pois_by_pos = [], pois_by_type = [], poi_dirty = False\<rparr>"

definition set_positions :: "poi_set \<Rightarrow> nat \<Rightarrow> u16 list" where
  "set_positions s t = (case map_of (pois_by_type s) t of None \<Rightarrow> [] | Some ps \<Rightarrow> ps)"

definition set_get :: "u16 \<Rightarrow> poi_set \<Rightarrow> point_of_interest option" where
  "set_get packed s = map_of (pois_by_pos s) packed"

definition set_add :: "u16 \<Rightarrow> point_of_interest \<Rightarrow> poi_set \<Rightarrow> poi_set" where
  "set_add packed i s =
     (if set_get packed s \<noteq> None then s
      else s\<lparr>pois_by_pos := AList.update packed i (pois_by_pos s),
             pois_by_type := AList.update (poi_type i) (List.insert packed (set_positions s (poi_type i))) (pois_by_type s),
             poi_dirty := True\<rparr>)"

definition set_remove :: "u16 \<Rightarrow> poi_set \<Rightarrow> point_of_interest option \<times> poi_set" where
  "set_remove packed s =
     (case set_get packed s of
        None \<Rightarrow> (None, s)
      | Some i \<Rightarrow>
          (let by_type = (case map_of (pois_by_type s) (poi_type i) of
                 None \<Rightarrow> pois_by_type s
               | Some ps \<Rightarrow>
                   (let ps = removeAll packed ps in
                    if ps = [] then AList.delete (poi_type i) (pois_by_type s) else AList.update (poi_type i) ps (pois_by_type s)))
           in (Some i, s\<lparr>pois_by_pos := AList.delete packed (pois_by_pos s), pois_by_type := by_type, poi_dirty := True\<rparr>)))"

definition set_get_mut :: "u16 \<Rightarrow> (point_of_interest \<Rightarrow> point_of_interest) \<Rightarrow> poi_set \<Rightarrow> poi_set" where
  "set_get_mut packed f s =
     (case set_get packed s of
        None \<Rightarrow> s
      | Some i \<Rightarrow> s\<lparr>pois_by_pos := AList.update packed (f i) (pois_by_pos s)\<rparr>)"

definition set_get_by_type :: "nat \<Rightarrow> occupation_status \<Rightarrow> nat \<Rightarrow> poi_set \<Rightarrow> point_of_interest list" where
  "set_get_by_type t status max_tickets s =
     (case map_of (pois_by_type s) t of
        None \<Rightarrow> []
      | Some ps \<Rightarrow> filter (status_matches status max_tickets) (List.map_filter (\<lambda>packed. set_get packed s) (sort ps)))"

definition set_get_matching ::
    "(nat \<Rightarrow> bool) \<Rightarrow> occupation_status \<Rightarrow> (nat \<Rightarrow> nat) \<Rightarrow> poi_set \<Rightarrow> point_of_interest list" where
  "set_get_matching P status max_tickets s =
     map snd (sort_key fst (filter (\<lambda>(_, i). P (poi_type i) \<and> status_matches status (max_tickets (poi_type i)) i) (pois_by_pos s)))"

definition set_is_empty :: "poi_set \<Rightarrow> bool" where
  "set_is_empty s \<longleftrightarrow> pois_by_pos s = []"

definition set_is_dirty :: "poi_set \<Rightarrow> bool" where
  "set_is_dirty s = poi_dirty s"

definition set_clear_dirty :: "poi_set \<Rightarrow> poi_set" where
  "set_clear_dirty s = s\<lparr>poi_dirty := False\<rparr>"

definition set_len :: "poi_set \<Rightarrow> nat" where
  "set_len s = length (pois_by_pos s)"

section \<open>The points of a world\<close>

record poi_registry =
  type_of_state :: "nat \<Rightarrow> nat option"
  ticket_count :: "nat \<Rightarrow> nat option"
  village_tag :: "nat \<Rightarrow> bool"

type_synonym poi_column = "(i32w \<times> poi_set) list"
type_synonym poi_storage = "(chunk_pos \<times> poi_column) list"

definition MAX_VILLAGE_DISTANCE :: int where "MAX_VILLAGE_DISTANCE = 6"
definition NO_VILLAGE_DISTANCE :: int where "NO_VILLAGE_DISTANCE = MAX_VILLAGE_DISTANCE + 1"

definition resolve_pos :: "block_pos \<Rightarrow> chunk_pos \<times> i32w \<times> u16" where
  "resolve_pos p =
     (let s = section_of_block p in (\<lparr>cx = sx s, cz = sz s\<rparr>, sy s, section_block_of_block p))"

definition max_tickets_for :: "poi_registry \<Rightarrow> nat \<Rightarrow> nat" where
  "max_tickets_for r t = (case ticket_count r t of None \<Rightarrow> 0 | Some n \<Rightarrow> n)"

definition poi_distance_sq :: "block_pos \<Rightarrow> block_pos \<Rightarrow> int" where
  "poi_distance_sq a b =
     (let dx = sint (bx a - bx b); dy = sint (bY a - bY b); dz = sint (bz a - bz b) in wrap_i64 (dx * dx + dy * dy + dz * dz))"

definition is_village_type :: "poi_registry \<Rightarrow> nat \<Rightarrow> bool" where
  "is_village_type r t \<longleftrightarrow> ticket_count r t \<noteq> None \<and> village_tag r t"

definition column_of :: "chunk_pos \<Rightarrow> poi_storage \<Rightarrow> poi_column" where
  "column_of c st = (case map_of st c of None \<Rightarrow> [] | Some col \<Rightarrow> col)"

definition set_of :: "chunk_pos \<Rightarrow> i32w \<Rightarrow> poi_storage \<Rightarrow> poi_set option" where
  "set_of c y st = (case map_of st c of None \<Rightarrow> None | Some col \<Rightarrow> map_of col y)"

text \<open>A set that is created when it is missing, and one that is only changed when it is there.\<close>

definition get_or_create_set :: "chunk_pos \<Rightarrow> i32w \<Rightarrow> (poi_set \<Rightarrow> poi_set) \<Rightarrow> poi_storage \<Rightarrow> poi_storage" where
  "get_or_create_set c y f st =
     (let s = (case set_of c y st of None \<Rightarrow> poi_set_new | Some s \<Rightarrow> s) in
      AList.update c (AList.update y (f s) (column_of c st)) st)"

definition change_set :: "chunk_pos \<Rightarrow> i32w \<Rightarrow> (poi_set \<Rightarrow> poi_set) \<Rightarrow> poi_storage \<Rightarrow> poi_storage" where
  "change_set c y f st =
     (case set_of c y st of
        None \<Rightarrow> st
      | Some s \<Rightarrow> AList.update c (AList.update y (f s) (column_of c st)) st)"

definition poi_get :: "block_pos \<Rightarrow> poi_storage \<Rightarrow> point_of_interest option" where
  "poi_get p st = (let (c, y, packed) = resolve_pos p in Option.bind (set_of c y st) (set_get packed))"

definition poi_add :: "block_pos \<Rightarrow> nat \<Rightarrow> nat \<Rightarrow> poi_storage \<Rightarrow> poi_storage" where
  "poi_add p t n st = (let (c, y, packed) = resolve_pos p in get_or_create_set c y (set_add packed (poi_new p t n)) st)"

definition poi_remove :: "block_pos \<Rightarrow> poi_storage \<Rightarrow> poi_storage" where
  "poi_remove p st =
     (let (c, y, packed) = resolve_pos p in
      case set_of c y st of
        None \<Rightarrow> st
      | Some s \<Rightarrow>
          (let (_, s) = set_remove packed s in
           if set_is_empty s
           then (let col = AList.delete y (column_of c st) in
                 if col = [] then AList.delete c st else AList.update c col st)
           else AList.update c (AList.update y s (column_of c st)) st))"

definition get_type :: "block_pos \<Rightarrow> poi_storage \<Rightarrow> nat option" where
  "get_type p st = map_option poi_type (poi_get p st)"

definition poi_exists :: "block_pos \<Rightarrow> (nat \<Rightarrow> bool) \<Rightarrow> poi_storage \<Rightarrow> bool" where
  "poi_exists p P st = (case get_type p st of None \<Rightarrow> False | Some t \<Rightarrow> P t)"

definition storage_is_occupied :: "poi_registry \<Rightarrow> block_pos \<Rightarrow> poi_storage \<Rightarrow> bool" where
  "storage_is_occupied r p st =
     (case poi_get p st of None \<Rightarrow> False | Some i \<Rightarrow> poi_is_occupied (max_tickets_for r (poi_type i)) i)"

definition reserve_ticket :: "block_pos \<Rightarrow> poi_storage \<Rightarrow> bool \<times> poi_storage" where
  "reserve_ticket p st =
     (let (c, y, packed) = resolve_pos p in
      case poi_get p st of
        None \<Rightarrow> (False, st)
      | Some i \<Rightarrow> (fst (poi_reserve i), change_set c y (set_get_mut packed (\<lambda>i. snd (poi_reserve i))) st))"

definition release_ticket :: "poi_registry \<Rightarrow> block_pos \<Rightarrow> poi_storage \<Rightarrow> bool \<times> poi_storage" where
  "release_ticket r p st =
     (let (c, y, packed) = resolve_pos p in
      case poi_get p st of
        None \<Rightarrow> (False, st)
      | Some i \<Rightarrow>
          (let n = max_tickets_for r (poi_type i) in
           (fst (poi_release n i), change_set c y (set_get_mut packed (\<lambda>i. snd (poi_release n i))) st)))"

section \<open>Queries\<close>

definition visit_chunk ::
    "poi_registry \<Rightarrow> (nat \<Rightarrow> bool) \<Rightarrow> chunk_pos \<Rightarrow> occupation_status \<Rightarrow> poi_storage \<Rightarrow> point_of_interest list" where
  "visit_chunk r P c status st =
     (case map_of st c of
        None \<Rightarrow> []
      | Some col \<Rightarrow>
          concat (map (\<lambda>y. case map_of col y of None \<Rightarrow> [] | Some s \<Rightarrow> set_get_matching P status (max_tickets_for r) s)
            (sort_key sint (map fst col))))"

text \<open>The coordinates of an inclusive range of \<open>i32\<close> values.\<close>

definition i32_range :: "i32w \<Rightarrow> i32w \<Rightarrow> i32w list" where
  "i32_range a b = map word_of_int [sint a..sint b]"

definition visit_in_square ::
    "poi_registry \<Rightarrow> (nat \<Rightarrow> bool) \<Rightarrow> block_pos \<Rightarrow> int \<Rightarrow> occupation_status \<Rightarrow> poi_storage \<Rightarrow> point_of_interest list" where
  "visit_in_square r P center radius status st =
     (let c = chunk_of_block center; n = word_of_int (radius div 16 + 1) in
      concat (map (\<lambda>z. concat (map (\<lambda>x.
          filter (\<lambda>i. wrap_i32 \<bar>sint (bx (poi_pos i) - bx center)\<bar> \<le> radius \<and> wrap_i32 \<bar>sint (bz (poi_pos i) - bz center)\<bar> \<le> radius)
            (visit_chunk r P \<lparr>cx = x, cz = z\<rparr> status st))
        (i32_range (cx c - n) (cx c + n)))) (i32_range (cz c - n) (cz c + n))))"

definition visit_in_range ::
    "poi_registry \<Rightarrow> (nat \<Rightarrow> bool) \<Rightarrow> block_pos \<Rightarrow> int \<Rightarrow> occupation_status \<Rightarrow> poi_storage \<Rightarrow> point_of_interest list" where
  "visit_in_range r P center radius status st =
     filter (\<lambda>i. poi_distance_sq (poi_pos i) center \<le> radius * radius) (visit_in_square r P center radius status st)"

definition with_type :: "point_of_interest \<Rightarrow> block_pos \<times> nat" where
  "with_type i = (poi_pos i, poi_type i)"

definition get_in_chunk :: "poi_registry \<Rightarrow> (nat \<Rightarrow> bool) \<Rightarrow> chunk_pos \<Rightarrow> occupation_status \<Rightarrow> poi_storage \<Rightarrow> (block_pos \<times> nat) list" where
  "get_in_chunk r P c status st = map with_type (visit_chunk r P c status st)"

definition get_in_horizontal_square ::
    "poi_registry \<Rightarrow> (nat \<Rightarrow> bool) \<Rightarrow> block_pos \<Rightarrow> int \<Rightarrow> occupation_status \<Rightarrow> poi_storage \<Rightarrow> (block_pos \<times> nat) list" where
  "get_in_horizontal_square r P center radius status st = map with_type (visit_in_square r P center radius status st)"

definition get_in_range ::
    "poi_registry \<Rightarrow> (nat \<Rightarrow> bool) \<Rightarrow> block_pos \<Rightarrow> int \<Rightarrow> occupation_status \<Rightarrow> poi_storage \<Rightarrow> (block_pos \<times> nat) list" where
  "get_in_range r P center radius status st = map with_type (visit_in_range r P center radius status st)"

definition poi_count :: "poi_registry \<Rightarrow> (nat \<Rightarrow> bool) \<Rightarrow> block_pos \<Rightarrow> int \<Rightarrow> occupation_status \<Rightarrow> poi_storage \<Rightarrow> nat" where
  "poi_count r P center radius status st = length (visit_in_range r P center radius status st)"

definition find_all ::
    "poi_registry \<Rightarrow> (nat \<Rightarrow> bool) \<Rightarrow> (block_pos \<Rightarrow> bool) \<Rightarrow> block_pos \<Rightarrow> int \<Rightarrow> occupation_status \<Rightarrow> poi_storage \<Rightarrow> block_pos list" where
  "find_all r P F center radius status st = filter F (map poi_pos (visit_in_range r P center radius status st))"

definition find_all_closest_first_with_type ::
    "poi_registry \<Rightarrow> (nat \<Rightarrow> bool) \<Rightarrow> (block_pos \<Rightarrow> bool) \<Rightarrow> block_pos \<Rightarrow> int \<Rightarrow> occupation_status \<Rightarrow> poi_storage \<Rightarrow> (block_pos \<times> nat) list" where
  "find_all_closest_first_with_type r P F center radius status st =
     sort_key (\<lambda>e. poi_distance_sq (fst e) center)
       (map with_type (filter (\<lambda>i. F (poi_pos i)) (visit_in_range r P center radius status st)))"

definition poi_find ::
    "poi_registry \<Rightarrow> (nat \<Rightarrow> bool) \<Rightarrow> (block_pos \<Rightarrow> bool) \<Rightarrow> block_pos \<Rightarrow> int \<Rightarrow> occupation_status \<Rightarrow> poi_storage \<Rightarrow> block_pos option" where
  "poi_find r P F center radius status st =
     fold (\<lambda>i found. if found = None \<and> F (poi_pos i) then Some (poi_pos i) else found) (visit_in_range r P center radius status st) None"

definition find_closest_with_type ::
    "poi_registry \<Rightarrow> (nat \<Rightarrow> bool) \<Rightarrow> (block_pos \<Rightarrow> bool) \<Rightarrow> block_pos \<Rightarrow> int \<Rightarrow> occupation_status \<Rightarrow> poi_storage \<Rightarrow> (block_pos \<times> nat) option" where
  "find_closest_with_type r P F center radius status st =
     fst (fold (\<lambda>i (best, best_distance).
           if \<not> F (poi_pos i) then (best, best_distance)
           else (let d = poi_distance_sq (poi_pos i) center in
                 if d < best_distance then (Some (with_type i), d) else (best, best_distance)))
       (visit_in_range r P center radius status st) (None, 2 ^ 63 - 1))"

definition find_closest ::
    "poi_registry \<Rightarrow> (nat \<Rightarrow> bool) \<Rightarrow> (block_pos \<Rightarrow> bool) \<Rightarrow> block_pos \<Rightarrow> int \<Rightarrow> occupation_status \<Rightarrow> poi_storage \<Rightarrow> block_pos option" where
  "find_closest r P F center radius status st = map_option fst (find_closest_with_type r P F center radius status st)"

definition poi_take ::
    "poi_registry \<Rightarrow> (nat \<Rightarrow> bool) \<Rightarrow> (nat \<Rightarrow> block_pos \<Rightarrow> bool) \<Rightarrow> block_pos \<Rightarrow> int \<Rightarrow> poi_storage \<Rightarrow> block_pos option \<times> poi_storage" where
  "poi_take r P F center radius st =
     (case fold (\<lambda>i found. if found = None \<and> F (poi_type i) (poi_pos i) then Some (poi_pos i) else found)
             (visit_in_range r P center radius FreePoi st) None of
        None \<Rightarrow> (None, st)
      | Some p \<Rightarrow> (Some p, snd (reserve_ticket p st)))"

text \<open>
  A random point: the downward shuffle, whose generator is an argument that turns a bound into a
  number below it and the generator's next state.
\<close>

definition shuffle_swap :: "nat \<Rightarrow> nat \<Rightarrow> 'a list \<Rightarrow> 'a list" where
  "shuffle_swap i j xs = xs[i := xs ! j, j := xs ! i]"

definition vanilla_shuffle :: "(nat \<Rightarrow> 'r \<Rightarrow> nat \<times> 'r) \<Rightarrow> 'a list \<Rightarrow> 'r \<Rightarrow> 'a list \<times> 'r" where
  "vanilla_shuffle random_range items rng =
     fold (\<lambda>i (items, rng). let (swap_to, rng) = random_range i rng in (shuffle_swap (i - 1) swap_to items, rng))
       (rev [2..<length items + 1]) (items, rng)"

definition get_random ::
    "poi_registry \<Rightarrow> (nat \<Rightarrow> bool) \<Rightarrow> (block_pos \<Rightarrow> bool) \<Rightarrow> occupation_status \<Rightarrow> block_pos \<Rightarrow> int \<Rightarrow>
      (nat \<Rightarrow> 'r \<Rightarrow> nat \<times> 'r) \<Rightarrow> 'r \<Rightarrow> poi_storage \<Rightarrow> block_pos option \<times> 'r" where
  "get_random r P F status center radius random_range rng st =
     (let (candidates, rng) = vanilla_shuffle random_range (get_in_range r P center radius status st) rng in
      (List.find F (map fst candidates), rng))"

section \<open>Villages\<close>

definition is_village_center :: "poi_registry \<Rightarrow> poi_set \<Rightarrow> bool" where
  "is_village_center r s \<longleftrightarrow> set_get_matching (is_village_type r) OccupiedPoi (max_tickets_for r) s \<noteq> []"

definition village_in_column :: "poi_registry \<Rightarrow> section_pos \<Rightarrow> int \<Rightarrow> poi_column \<Rightarrow> int \<Rightarrow> int" where
  "village_in_column r section horizontal col best =
     fold (\<lambda>(y, s) best.
       let d = max horizontal (wrap_i32 \<bar>sint (y - sy section)\<bar>) in
       if best \<le> d then best else if is_village_center r s then d else best) col best"

definition sections_to_village :: "poi_registry \<Rightarrow> section_pos \<Rightarrow> poi_storage \<Rightarrow> int" where
  "sections_to_village r section st =
     (let n = word_of_int MAX_VILLAGE_DISTANCE in
      fold (\<lambda>x. fold (\<lambda>z best.
          let horizontal = max (wrap_i32 \<bar>sint (x - sx section)\<bar>) (wrap_i32 \<bar>sint (z - sz section)\<bar>) in
          if best \<le> horizontal then best
          else (case map_of st \<lparr>cx = x, cz = z\<rparr> of None \<Rightarrow> best | Some col \<Rightarrow> village_in_column r section horizontal col best))
        (i32_range (sz section - n) (sz section + n)))
      (i32_range (sx section - n) (sx section + n)) NO_VILLAGE_DISTANCE)"

section \<open>Blocks, saving and loading\<close>

text \<open>The positions of a section in the order of the scan.\<close>

definition scan_order :: "(u8 \<times> u8 \<times> u8) list" where
  "scan_order = concat (map (\<lambda>y. concat (map (\<lambda>z. map (\<lambda>x. (of_nat x, of_nat y, of_nat z)) [0..<16]) [0..<16])) [0..<16])"

definition scan_block_pos :: "section_pos \<Rightarrow> u8 \<times> u8 \<times> u8 \<Rightarrow> block_pos" where
  "scan_block_pos sp xyz =
     (let (x, y, z) = xyz in mk_block_pos (push_bit 4 (sx sp) + ucast x) (push_bit 4 (sy sp) + ucast y) (push_bit 4 (sz sp) + ucast z))"

text \<open>A type without an entry in the registry is a panic, here \<open>None\<close>.\<close>

definition scan_cell ::
    "poi_registry \<Rightarrow> (u8 \<times> u8 \<times> u8 \<Rightarrow> nat) \<Rightarrow> section_pos \<Rightarrow> u8 \<times> u8 \<times> u8 \<Rightarrow> poi_set \<Rightarrow> poi_set option" where
  "scan_cell r states sp xyz s =
     (case type_of_state r (states xyz) of
        None \<Rightarrow> Some s
      | Some t \<Rightarrow>
          (case ticket_count r t of
             None \<Rightarrow> None
           | Some n \<Rightarrow> let p = scan_block_pos sp xyz in Some (set_add (section_block_of_block p) (poi_new p t n) s)))"

definition scan_set ::
    "poi_registry \<Rightarrow> (u8 \<times> u8 \<times> u8 \<Rightarrow> nat) \<Rightarrow> section_pos \<Rightarrow> poi_set \<Rightarrow> poi_set option" where
  "scan_set r states sp s = fold (\<lambda>xyz s. Option.bind s (scan_cell r states sp xyz)) scan_order (Some s)"

definition scan_and_populate ::
    "poi_registry \<Rightarrow> (u8 \<times> u8 \<times> u8 \<Rightarrow> nat) \<Rightarrow> section_pos \<Rightarrow> poi_storage \<Rightarrow> poi_storage option" where
  "scan_and_populate r states sp st =
     (let c = \<lparr>cx = sx sp, cz = sz sp\<rparr>; s = (case set_of c (sy sp) st of None \<Rightarrow> poi_set_new | Some s \<Rightarrow> s) in
      map_option (\<lambda>s. get_or_create_set c (sy sp) (\<lambda>_. s) st) (scan_set r states sp s))"

definition on_block_state_change :: "poi_registry \<Rightarrow> block_pos \<Rightarrow> nat \<Rightarrow> nat \<Rightarrow> poi_storage \<Rightarrow> poi_storage option" where
  "on_block_state_change r p old_state new_state st =
     (let old_poi = type_of_state r old_state; new_poi = type_of_state r new_state in
      if old_poi = new_poi then Some st
      else
        (let st = (if old_poi \<noteq> None then poi_remove p st else st) in
         case new_poi of
           None \<Rightarrow> Some st
         | Some t \<Rightarrow> map_option (\<lambda>n. poi_add p t n st) (ticket_count r t)))"

definition collect_for_chunk :: "chunk_pos \<Rightarrow> poi_storage \<Rightarrow> (block_pos \<times> nat) list" where
  "collect_for_chunk c st =
     (case map_of st c of
        None \<Rightarrow> []
      | Some col \<Rightarrow> concat (map (\<lambda>(_, s). map (\<lambda>(_, i). (poi_pos i, free_tickets i)) (pois_by_pos s)) col))"

definition restore_ticket :: "chunk_pos \<Rightarrow> block_pos \<times> nat \<Rightarrow> poi_storage \<Rightarrow> poi_storage" where
  "restore_ticket c ticket st =
     (let (p, n) = ticket in
      change_set c (block_to_section_coord (bY p)) (set_get_mut (section_block_of_block p) (\<lambda>i. i\<lparr>free_tickets := n\<rparr>)) st)"

definition restore_tickets :: "chunk_pos \<Rightarrow> (block_pos \<times> nat) list \<Rightarrow> poi_storage \<Rightarrow> poi_storage" where
  "restore_tickets c tickets st = fold (restore_ticket c) tickets st"

definition remove_chunk :: "chunk_pos \<Rightarrow> poi_storage \<Rightarrow> poi_storage" where
  "remove_chunk c st = AList.delete c st"

end
