(* ===== verification/PoiSteps.thy ===== *)
theory PoiSteps
  imports Poi
begin

text \<open>
  The points of interest of a world are a map from positions: what every operation does to it, and the invariant
  that keeps sections, their index by type and their positions together.
\<close>

section \<open>Positions\<close>

lemma resolve_pos_inj: "resolve_pos p = resolve_pos q \<Longrightarrow> p = q"
  using relative_to_block_pos_split [of p] relative_to_block_pos_split [of q]
  by (simp add: resolve_pos_def Let_def section_of_block_def)

lemma resolve_pos_eq_iff [simp]: "resolve_pos p = resolve_pos q \<longleftrightarrow> p = q"
  using resolve_pos_inj by blast

lemma resolve_pos_chunk: "fst (resolve_pos p) = chunk_of_block p"
  by (simp add: resolve_pos_def Let_def section_of_block_def chunk_of_block_def)

section \<open>Sets\<close>

definition set_ok :: "poi_set \<Rightarrow> bool" where
  "set_ok s \<longleftrightarrow> distinct (map fst (pois_by_pos s)) \<and> distinct (map fst (pois_by_type s)) \<and>
     (\<forall>t. set (set_positions s t) = {packed. \<exists>i. set_get packed s = Some i \<and> poi_type i = t}) \<and>
     (\<forall>t ps. map_of (pois_by_type s) t = Some ps \<longrightarrow> ps \<noteq> [] \<and> distinct ps)"

lemma set_ok_new [simp]: "set_ok poi_set_new"
  by (simp add: set_ok_def poi_set_new_def set_positions_def set_get_def)

lemma set_get_new [simp]: "set_get packed poi_set_new = None"
  by (simp add: poi_set_new_def set_get_def)

lemma set_get_add:
  "set_get q (set_add packed i s) = (if q = packed \<and> set_get packed s = None then Some i else set_get q s)"
  by (auto simp: set_add_def set_get_def update_conv')

lemma set_get_remove: "set_get q (snd (set_remove packed s)) = (if q = packed then None else set_get q s)"
  by (auto simp: set_remove_def set_get_def delete_conv' Let_def split: option.splits)

lemma set_get_get_mut: "set_get q (set_get_mut packed f s) = (if q = packed then map_option f (set_get q s) else set_get q s)"
  by (auto simp: set_get_mut_def set_get_def update_conv' split: option.splits)

lemma set_positions_ok: "set_ok s \<Longrightarrow> set (set_positions s t) = {packed. \<exists>i. set_get packed s = Some i \<and> poi_type i = t}"
  by (simp add: set_ok_def)

lemma set_positions_distinct: "set_ok s \<Longrightarrow> distinct (set_positions s t)"
  by (auto simp: set_ok_def set_positions_def split: option.splits)

lemma set_add_ok:
  assumes "set_ok s"
  shows "set_ok (set_add packed i s)"
proof (cases "set_get packed s")
  case (Some j)
  then show ?thesis
    using assms by (simp add: set_add_def)
next
  case None
  let ?s = "set_add packed i s"
  have pos: "set_positions ?s t = (if t = poi_type i then List.insert packed (set_positions s t) else set_positions s t)" for t
    using None by (simp add: set_add_def set_positions_def update_conv')
  have "set (set_positions ?s t) = {q. \<exists>j. set_get q ?s = Some j \<and> poi_type j = t}" for t
    using None assms by (auto simp: pos set_get_add set_positions_ok)
  moreover have "ps \<noteq> [] \<and> distinct ps" if "map_of (pois_by_type ?s) t = Some ps" for t ps
  proof -
    have "ps = List.insert packed (set_positions s t) \<or> map_of (pois_by_type s) t = Some ps"
      using that None by (auto simp: set_add_def update_conv' split: if_splits)
    then show ?thesis
    proof
      assume "ps = List.insert packed (set_positions s t)"
      then show ?thesis
        using set_positions_distinct [OF assms] by (auto simp: List.insert_def)
    next
      assume "map_of (pois_by_type s) t = Some ps"
      then show ?thesis
        using assms by (simp add: set_ok_def)
    qed
  qed
  ultimately show ?thesis
    using assms None by (auto simp: set_ok_def set_add_def distinct_update)
qed

lemma set_remove_ok:
  assumes "set_ok s"
  shows "set_ok (snd (set_remove packed s))"
proof (cases "set_get packed s")
  case None
  then show ?thesis
    using assms by (simp add: set_remove_def)
next
  case (Some i)
  let ?s = "snd (set_remove packed s)"
  have "packed \<in> set (set_positions s (poi_type i))"
    using Some set_positions_ok [OF assms] by auto
  then have "map_of (pois_by_type s) (poi_type i) \<noteq> None"
    by (intro notI) (simp add: set_positions_def)
  then obtain ps where ps: "map_of (pois_by_type s) (poi_type i) = Some ps" "set_positions s (poi_type i) = ps"
    by (cases "map_of (pois_by_type s) (poi_type i)") (simp_all add: set_positions_def)
  have pos: "set_positions ?s t = (if t = poi_type i then removeAll packed (set_positions s t) else set_positions s t)" for t
    using Some ps by (auto simp: set_remove_def set_positions_def Let_def update_conv' delete_conv')
  have "set (set_positions ?s t) = {q. \<exists>j. set_get q ?s = Some j \<and> poi_type j = t}" for t
    using Some assms by (auto simp: pos set_get_remove set_positions_ok)
  moreover have "qs \<noteq> [] \<and> distinct qs" if "map_of (pois_by_type ?s) t = Some qs" for t qs
  proof (cases "t = poi_type i")
    case True
    then have "qs = removeAll packed ps" "removeAll packed ps \<noteq> []"
      using that Some ps by (auto simp: set_remove_def Let_def update_conv' delete_conv' split: if_splits)
    then show ?thesis
      using set_positions_distinct [OF assms, of "poi_type i"] ps(2) by (simp add: distinct_removeAll)
  next
    case False
    then have "map_of (pois_by_type s) t = Some qs"
      using that Some ps by (auto simp: set_remove_def Let_def update_conv' delete_conv' split: if_splits)
    then show ?thesis
      using assms by (simp add: set_ok_def)
  qed
  moreover have "distinct (map fst (pois_by_pos s))" "distinct (map fst (pois_by_type s))"
    using assms by (simp_all add: set_ok_def)
  then have "distinct (map fst (pois_by_pos ?s))" "distinct (map fst (pois_by_type ?s))"
    using Some ps(1) by (simp_all add: set_remove_def Let_def distinct_update distinct_delete)
  ultimately show ?thesis
    unfolding set_ok_def by blast
qed

lemma set_get_mut_ok:
  assumes "set_ok s" "\<And>i. poi_type (f i) = poi_type i"
  shows "set_ok (set_get_mut packed f s)"
proof -
  let ?s = "set_get_mut packed f s"
  have same: "pois_by_type ?s = pois_by_type s" "set_positions ?s t = set_positions s t" for t
    by (auto simp: set_get_mut_def set_positions_def split: option.splits)
  have "{q. \<exists>j. set_get q ?s = Some j \<and> poi_type j = t} = {q. \<exists>j. set_get q s = Some j \<and> poi_type j = t}" for t
    using assms(2) by (auto simp: set_get_get_mut split: if_splits)
  moreover have "distinct (map fst (pois_by_pos ?s))"
    using assms(1) by (auto simp: set_get_mut_def set_ok_def distinct_update split: option.splits)
  ultimately show ?thesis
    using assms(1) same by (simp add: set_ok_def)
qed

section \<open>The storage as a map\<close>

definition storage_ok :: "poi_storage \<Rightarrow> bool" where
  "storage_ok st \<longleftrightarrow> distinct (map fst st) \<and> (\<forall>c col. map_of st c = Some col \<longrightarrow> distinct (map fst col)) \<and>
     (\<forall>c y s. set_of c y st = Some s \<longrightarrow> set_ok s \<and>
        (\<forall>packed i. set_get packed s = Some i \<longrightarrow> resolve_pos (poi_pos i) = (c, y, packed)))"

lemma storage_ok_empty [simp]: "storage_ok []"
  by (simp add: storage_ok_def set_of_def)

lemma storage_ok_set: "\<lbrakk>storage_ok st; set_of c y st = Some s\<rbrakk> \<Longrightarrow> set_ok s"
  by (simp add: storage_ok_def)

lemma storage_ok_at:
  "\<lbrakk>storage_ok st; set_of c y st = Some s; set_get packed s = Some i\<rbrakk> \<Longrightarrow> resolve_pos (poi_pos i) = (c, y, packed)"
  by (simp add: storage_ok_def)

lemma poi_get_at: "resolve_pos p = (c, y, packed) \<Longrightarrow> poi_get p st = Option.bind (set_of c y st) (set_get packed)"
  by (simp add: poi_get_def)

lemma poi_get_pos: "\<lbrakk>storage_ok st; poi_get p st = Some i\<rbrakk> \<Longrightarrow> poi_pos i = p"
proof -
  assume st: "storage_ok st" "poi_get p st = Some i"
  obtain c y packed where p: "resolve_pos p = (c, y, packed)"
    using prod_cases3 by blast
  then obtain s where "set_of c y st = Some s" "set_get packed s = Some i"
    using st(2) by (auto simp: poi_get_at split: bind_splits)
  then have "resolve_pos (poi_pos i) = resolve_pos p"
    using storage_ok_at [OF st(1)] p by simp
  then show ?thesis
    by simp
qed

text \<open>Writing one set, the one that every operation but the unloading of a chunk comes down to.\<close>

definition put_set :: "chunk_pos \<Rightarrow> i32w \<Rightarrow> poi_set \<Rightarrow> poi_storage \<Rightarrow> poi_storage" where
  "put_set c y s st = AList.update c (AList.update y s (column_of c st)) st"

lemma set_of_put_set: "set_of c' y' (put_set c y s st) = (if c' = c \<and> y' = y then Some s else set_of c' y' st)"
  by (auto simp: set_of_def put_set_def column_of_def update_conv' split: option.splits)

lemma storage_ok_keys:
  "storage_ok st \<Longrightarrow> distinct (map fst st) \<and> distinct (map fst (column_of c st))"
  by (auto simp: storage_ok_def column_of_def split: option.splits)

lemma put_set_ok:
  assumes "storage_ok st" "set_ok s" "\<And>packed i. set_get packed s = Some i \<Longrightarrow> resolve_pos (poi_pos i) = (c, y, packed)"
  shows "storage_ok (put_set c y s st)"
  unfolding storage_ok_def
proof (intro conjI allI impI)
  show "distinct (map fst (put_set c y s st))"
    using storage_ok_keys [OF assms(1)] by (simp add: put_set_def distinct_update)
  show "distinct (map fst col)" if "map_of (put_set c y s st) c' = Some col" for c' col
    using that storage_ok_keys [OF assms(1), of c] assms(1)
    by (auto simp: put_set_def update_conv' storage_ok_def distinct_update split: if_splits)
  show "set_ok s'" if "set_of c' y' (put_set c y s st) = Some s'" for c' y' s'
    using that assms(1,2) storage_ok_set by (auto simp: set_of_put_set split: if_splits)
  show "resolve_pos (poi_pos i) = (c', y', packed)"
    if "set_of c' y' (put_set c y s st) = Some s'" "set_get packed s' = Some i" for c' y' s' packed i
    using that assms(1,3) storage_ok_at by (auto simp: set_of_put_set split: if_splits)
qed

lemma drop_set_ok:
  fixes c :: chunk_pos and y :: i32w
  assumes "storage_ok st"
  defines "col \<equiv> AList.delete y (column_of c st)"
  defines "st' \<equiv> (if col = [] then AList.delete c st else AList.update c col st)"
  shows "storage_ok st'" "set_of c' y' st' = (if c' = c \<and> y' = y then None else set_of c' y' st)"
proof -
  have col: "map_of col = (map_of (column_of c st))(y := None)"
    by (simp add: col_def delete_conv')
  have old: "set_of c z st = map_of (column_of c st) z" for z
    by (simp add: set_of_def column_of_def split: option.splits)
  have empty: "map_of (column_of c st) z = None" if "col = []" "z \<noteq> y" for z
    using that col by (metis fun_upd_apply map_of.simps(1))
  have sets: "set_of c' y' st' = (if c' = c \<and> y' = y then None else set_of c' y' st)" for c' y'
  proof (cases "c' = c")
    case True
    have "set_of c z (AList.delete c st) = None" "set_of c z (AList.update c col st) = map_of col z" for z
      by (simp_all add: set_of_def delete_conv' update_conv')
    then show ?thesis
      using True col empty [of y'] old [of y'] by (auto simp: st'_def)
  next
    case False
    then show ?thesis
      by (simp add: st'_def set_of_def delete_conv' update_conv')
  qed
  then show "set_of c' y' st' = (if c' = c \<and> y' = y then None else set_of c' y' st)" .
  have "distinct (map fst st')" "\<And>c' col'. map_of st' c' = Some col' \<Longrightarrow> distinct (map fst col')"
    using storage_ok_keys [OF assms(1), of c] assms(1)
    by (auto simp: st'_def col_def distinct_delete distinct_update delete_conv' update_conv' storage_ok_def
        simp del: map_of_eq_Some_iff split: if_splits)
  then show "storage_ok st'"
    using assms(1) by (auto simp: storage_ok_def sets split: if_splits)
qed

lemma poi_get_put_set:
  assumes "resolve_pos p = (c, y, packed)"
  shows "poi_get q (put_set c y s st) =
    (if fst (resolve_pos q) = c \<and> fst (snd (resolve_pos q)) = y then set_get (snd (snd (resolve_pos q))) s else poi_get q st)"
  by (simp add: poi_get_def set_of_put_set split_beta)

section \<open>Operations\<close>

lemma get_or_create_set_put:
  "get_or_create_set c y f st = put_set c y (f (case set_of c y st of None \<Rightarrow> poi_set_new | Some s \<Rightarrow> s)) st"
  by (simp add: get_or_create_set_def put_set_def Let_def)

lemma change_set_put:
  "change_set c y f st = (case set_of c y st of None \<Rightarrow> st | Some s \<Rightarrow> put_set c y (f s) st)"
  by (simp add: change_set_def put_set_def split: option.splits)

lemma poi_get_split: "poi_get p st = Option.bind (set_of (fst (resolve_pos p)) (fst (snd (resolve_pos p))) st) (set_get (snd (snd (resolve_pos p))))"
  by (simp add: poi_get_def split_beta)

lemma resolved:
  obtains c y packed where "resolve_pos p = (c, y, packed)" "\<And>st. poi_get p st = Option.bind (set_of c y st) (set_get packed)"
  using prod_cases3 poi_get_at by metis

text \<open>One cell of a set that changes: the map changes at its position only.\<close>

lemma poi_get_put_one:
  assumes p: "resolve_pos p = (c, y, packed)"
    and old: "\<And>q. q \<noteq> packed \<Longrightarrow> set_get q s = Option.bind (set_of c y st) (set_get q)"
  shows "poi_get q (put_set c y s st) = (if q = p then set_get packed s else poi_get q st)"
proof (cases "q = p")
  case True
  then show ?thesis
    using p by (simp add: poi_get_put_set [OF p])
next
  case False
  obtain c' y' packed' where q: "resolve_pos q = (c', y', packed')"
    using prod_cases3 by blast
  have "packed' \<noteq> packed" if "c' = c" "y' = y"
    using False that p q resolve_pos_inj [of q p] by auto
  then show ?thesis
    using False q old [of packed'] by (auto simp: poi_get_put_set [OF p] poi_get_at [OF q])
qed

lemma poi_add_effect:
  assumes "storage_ok st"
  shows "storage_ok (poi_add p t n st)"
    "poi_get q (poi_add p t n st) = (if q = p \<and> poi_get p st = None then Some (poi_new p t n) else poi_get q st)"
proof -
  obtain c y packed where p: "resolve_pos p = (c, y, packed)"
    using prod_cases3 by blast
  define s where "s = (case set_of c y st of None \<Rightarrow> poi_set_new | Some s \<Rightarrow> s)"
  let ?s = "set_add packed (poi_new p t n) s"
  have add: "poi_add p t n st = put_set c y ?s st"
    using p by (simp add: poi_add_def get_or_create_set_put s_def)
  have s: "set_ok s" "\<And>q i. set_get q s = Some i \<Longrightarrow> resolve_pos (poi_pos i) = (c, y, q)"
      "\<And>q. set_get q s = Option.bind (set_of c y st) (set_get q)"
    using assms storage_ok_set storage_ok_at by (auto simp: s_def split: option.splits)
  show "storage_ok (poi_add p t n st)"
    unfolding add using s p by (intro put_set_ok set_add_ok assms) (auto simp: set_get_add poi_new_def split: if_splits)
  have "poi_get q (put_set c y ?s st) = (if q = p then set_get packed ?s else poi_get q st)"
    by (rule poi_get_put_one [OF p]) (simp add: set_get_add s(3))
  then show "poi_get q (poi_add p t n st) = (if q = p \<and> poi_get p st = None then Some (poi_new p t n) else poi_get q st)"
    using s(3) [of packed] by (simp add: add set_get_add poi_get_at [OF p])
qed

lemma poi_remove_effect:
  assumes "storage_ok st"
  shows "storage_ok (poi_remove p st)" "poi_get q (poi_remove p st) = (if q = p then None else poi_get q st)"
proof -
  obtain c y packed where p: "resolve_pos p = (c, y, packed)"
    using prod_cases3 by blast
  have "storage_ok (poi_remove p st) \<and> poi_get q (poi_remove p st) = (if q = p then None else poi_get q st)"
  proof (cases "set_of c y st")
    case None
    then show ?thesis
      using p assms by (auto simp: poi_remove_def poi_get_at)
  next
    case (Some s)
    let ?s = "snd (set_remove packed s)"
    show ?thesis
    proof (cases "set_is_empty ?s")
      case True
      let ?col = "AList.delete y (column_of c st)"
      have rem: "poi_remove p st = (if ?col = [] then AList.delete c st else AList.update c ?col st)"
        using p Some True by (simp add: poi_remove_def split_beta Let_def)
      have gone: "set_get x ?s = None" for x
        using True by (simp add: set_is_empty_def set_get_def)
      obtain c' y' packed' where q: "resolve_pos q = (c', y', packed')"
        using prod_cases3 by blast
      have none: "set_get packed' s = None" if "c' = c" "y' = y" "q \<noteq> p"
        using gone [of packed'] that p q resolve_pos_inj [of q p] by (auto simp: set_get_remove split: if_splits)
      have "poi_get q (poi_remove p st) = (if q = p then None else poi_get q st)"
        using none drop_set_ok(2) [OF assms, where c = c and y = y and c' = c' and y' = y'] p q Some
        by (auto simp: rem poi_get_at [OF q])
      then show ?thesis
        using drop_set_ok(1) [OF assms, where c = c and y = y] by (simp add: rem)
    next
      case False
      have rem: "poi_remove p st = put_set c y ?s st"
        using p Some False by (simp add: poi_remove_def split_beta Let_def put_set_def)
      have "storage_ok (put_set c y ?s st)"
        using storage_ok_set [OF assms Some] storage_ok_at [OF assms Some]
        by (intro put_set_ok set_remove_ok assms) (auto simp: set_get_remove split: if_splits)
      moreover have "poi_get q (put_set c y ?s st) = (if q = p then set_get packed ?s else poi_get q st)"
        by (rule poi_get_put_one [OF p]) (simp add: set_get_remove Some)
      ultimately show ?thesis
        by (simp add: rem set_get_remove)
    qed
  qed
  then show "storage_ok (poi_remove p st)" "poi_get q (poi_remove p st) = (if q = p then None else poi_get q st)"
    by blast+
qed

lemma change_one_effect:
  assumes "storage_ok st" "resolve_pos p = (c, y, packed)" "\<And>i. poi_type (f i) = poi_type i" "\<And>i. poi_pos (f i) = poi_pos i"
  shows "storage_ok (change_set c y (set_get_mut packed f) st)"
    "poi_get q (change_set c y (set_get_mut packed f) st) = (if q = p then map_option f (poi_get p st) else poi_get q st)"
proof -
  have "storage_ok (change_set c y (set_get_mut packed f) st) \<and>
    poi_get q (change_set c y (set_get_mut packed f) st) = (if q = p then map_option f (poi_get p st) else poi_get q st)"
  proof (cases "set_of c y st")
    case None
    then show ?thesis
      using assms(1,2) by (auto simp: change_set_put poi_get_at)
  next
    case (Some s)
    have "storage_ok (put_set c y (set_get_mut packed f s) st)"
      using storage_ok_set [OF assms(1) Some] storage_ok_at [OF assms(1) Some] assms(3,4)
      by (intro put_set_ok set_get_mut_ok assms(1)) (auto simp: set_get_get_mut split: if_splits)
    moreover have "poi_get q (put_set c y (set_get_mut packed f s) st) =
        (if q = p then set_get packed (set_get_mut packed f s) else poi_get q st)"
      by (rule poi_get_put_one [OF assms(2)]) (simp add: set_get_get_mut Some)
    ultimately show ?thesis
      using Some by (simp add: change_set_put set_get_get_mut poi_get_at [OF assms(2)])
  qed
  then show "storage_ok (change_set c y (set_get_mut packed f) st)"
    "poi_get q (change_set c y (set_get_mut packed f) st) = (if q = p then map_option f (poi_get p st) else poi_get q st)"
    by blast+
qed

lemma reserve_ticket_effect:
  assumes "storage_ok st"
  shows "storage_ok (snd (reserve_ticket p st))"
    "poi_get q (snd (reserve_ticket p st)) = (if q = p then map_option (\<lambda>i. snd (poi_reserve i)) (poi_get p st) else poi_get q st)"
    "fst (reserve_ticket p st) \<longleftrightarrow> (\<exists>i. poi_get p st = Some i \<and> 0 < free_tickets i)"
proof -
  obtain c y packed where p: "resolve_pos p = (c, y, packed)"
    using prod_cases3 by blast
  have keep: "poi_type (snd (poi_reserve i)) = poi_type i" "poi_pos (snd (poi_reserve i)) = poi_pos i" for i
    by (simp_all add: poi_reserve_def)
  note effect = change_one_effect [OF assms p keep]
  show "storage_ok (snd (reserve_ticket p st))"
    using effect(1) assms p by (simp add: reserve_ticket_def split: option.splits)
  show "poi_get q (snd (reserve_ticket p st)) = (if q = p then map_option (\<lambda>i. snd (poi_reserve i)) (poi_get p st) else poi_get q st)"
    using effect(2) p by (simp add: reserve_ticket_def split: option.splits)
  show "fst (reserve_ticket p st) \<longleftrightarrow> (\<exists>i. poi_get p st = Some i \<and> 0 < free_tickets i)"
    using p by (simp add: reserve_ticket_def poi_reserve_def split: option.splits)
qed

lemma release_ticket_effect:
  assumes "storage_ok st"
  shows "storage_ok (snd (release_ticket r p st))"
    "poi_get q (snd (release_ticket r p st)) =
      (if q = p then map_option (\<lambda>i. snd (poi_release (max_tickets_for r (poi_type i)) i)) (poi_get p st) else poi_get q st)"
proof -
  obtain c y packed where p: "resolve_pos p = (c, y, packed)"
    using prod_cases3 by blast
  have keep: "poi_type (snd (poi_release n i)) = poi_type i" "poi_pos (snd (poi_release n i)) = poi_pos i" for n i
    by (simp_all add: poi_release_def)
  note effect = change_one_effect [OF assms p keep]
  show "storage_ok (snd (release_ticket r p st))"
    using effect(1) assms p by (simp add: release_ticket_def Let_def split: option.splits)
  show "poi_get q (snd (release_ticket r p st)) =
      (if q = p then map_option (\<lambda>i. snd (poi_release (max_tickets_for r (poi_type i)) i)) (poi_get p st) else poi_get q st)"
    using effect(2) p by (simp add: release_ticket_def Let_def split: option.splits)
qed

lemma remove_chunk_effect:
  assumes "storage_ok st"
  shows "storage_ok (remove_chunk c st)" "poi_get q (remove_chunk c st) = (if chunk_of_block q = c then None else poi_get q st)"
proof -
  have sets: "set_of c' y (remove_chunk c st) = (if c' = c then None else set_of c' y st)" for c' y
    by (simp add: remove_chunk_def set_of_def delete_conv')
  have "distinct (map fst (remove_chunk c st))" "\<And>c' col. map_of (remove_chunk c st) c' = Some col \<Longrightarrow> distinct (map fst col)"
    using assms by (auto simp: remove_chunk_def storage_ok_def distinct_delete delete_conv' simp del: map_of_eq_Some_iff split: if_splits)
  then show "storage_ok (remove_chunk c st)"
    using assms by (auto simp: storage_ok_def sets split: if_splits)
  show "poi_get q (remove_chunk c st) = (if chunk_of_block q = c then None else poi_get q st)"
    by (simp add: poi_get_split sets resolve_pos_chunk)
qed

lemma restore_ticket_effect:
  assumes "storage_ok st" "chunk_of_block p = c"
  shows "storage_ok (restore_ticket c (p, n) st)"
    "poi_get q (restore_ticket c (p, n) st) = (if q = p then map_option (\<lambda>i. i\<lparr>free_tickets := n\<rparr>) (poi_get p st) else poi_get q st)"
proof -
  have p: "resolve_pos p = (c, block_to_section_coord (bY p), section_block_of_block p)"
    using assms(2) by (auto simp: resolve_pos_def section_of_block_def chunk_of_block_def Let_def)
  note effect = change_one_effect [OF assms(1) p, of "\<lambda>i. i\<lparr>free_tickets := n\<rparr>"]
  show "storage_ok (restore_ticket c (p, n) st)"
    using effect(1) by (simp add: restore_ticket_def)
  show "poi_get q (restore_ticket c (p, n) st) = (if q = p then map_option (\<lambda>i. i\<lparr>free_tickets := n\<rparr>) (poi_get p st) else poi_get q st)"
    using effect(2) by (simp add: restore_ticket_def)
qed

lemma restore_tickets_effect:
  assumes "storage_ok st" "\<forall>(p, n) \<in> set tickets. chunk_of_block p = c \<and> n = free p"
  shows "storage_ok (restore_tickets c tickets st) \<and>
    poi_get q (restore_tickets c tickets st) =
      (if q \<in> fst ` set tickets then map_option (\<lambda>i. i\<lparr>free_tickets := free q\<rparr>) (poi_get q st) else poi_get q st)"
  using assms
proof (induction tickets arbitrary: st)
  case (Cons e tickets)
  obtain p n where e: "e = (p, n)"
    by fastforce
  have c: "chunk_of_block p = c" "n = free p"
    using Cons.prems(2) e by auto
  note one = restore_ticket_effect [OF Cons.prems(1) c(1), where n = n]
  have "storage_ok (restore_tickets c tickets (restore_ticket c e st)) \<and>
      poi_get q (restore_tickets c tickets (restore_ticket c e st)) =
      (if q \<in> fst ` set tickets then map_option (\<lambda>i. i\<lparr>free_tickets := free q\<rparr>) (poi_get q (restore_ticket c e st)) else poi_get q (restore_ticket c e st))"
    using Cons.IH [of "restore_ticket c e st"] one(1) Cons.prems(2) e by simp
  then show ?case
    using one(2) [of q] c(2) e by (auto simp: restore_tickets_def option.map_comp comp_def)
qed (simp add: restore_tickets_def)

lemma collect_for_chunk_iff:
  assumes "storage_ok st"
  shows "(p, n) \<in> set (collect_for_chunk c st) \<longleftrightarrow> chunk_of_block p = c \<and> (\<exists>i. poi_get p st = Some i \<and> n = free_tickets i)"
proof
  assume "(p, n) \<in> set (collect_for_chunk c st)"
  then obtain col' where some: "map_of st c = Some col'" "(p, n) \<in> set (concat (map (\<lambda>(_, s). map (\<lambda>(_, i). (poi_pos i, free_tickets i)) (pois_by_pos s)) col'))"
    by (cases "map_of st c") (simp_all add: collect_for_chunk_def del: map_of_eq_Some_iff)
  then obtain col y s packed i where col: "map_of st c = Some col" "(y, s) \<in> set col" "(packed, i) \<in> set (pois_by_pos s)"
      and p: "p = poi_pos i" "n = free_tickets i"
    by (auto simp del: map_of_eq_Some_iff)
  have "distinct (map fst col)"
    using assms col(1) by (simp add: storage_ok_def del: map_of_eq_Some_iff)
  then have s: "set_of c y st = Some s"
    using col(1,2) by (simp add: set_of_def)
  then have "set_get packed s = Some i"
    using storage_ok_set [OF assms s] col(3) by (simp add: set_get_def set_ok_def)
  then have "resolve_pos p = (c, y, packed)" "poi_get p st = Some i"
    using storage_ok_at [OF assms s] s p by (auto simp: poi_get_split)
  then show "chunk_of_block p = c \<and> (\<exists>i. poi_get p st = Some i \<and> n = free_tickets i)"
    using p(2) resolve_pos_chunk [of p] by auto
next
  assume a: "chunk_of_block p = c \<and> (\<exists>i. poi_get p st = Some i \<and> n = free_tickets i)"
  then obtain i where i: "poi_get p st = Some i" "n = free_tickets i"
    by blast
  obtain c' y packed where p: "resolve_pos p = (c', y, packed)"
    using prod_cases3 by blast
  have "c' = c"
    using a p resolve_pos_chunk [of p] by simp
  then obtain s where s: "set_of c y st = Some s" "set_get packed s = Some i"
    using i(1) p by (auto simp: poi_get_at split: bind_splits)
  then obtain col where "map_of st c = Some col" "map_of col y = Some s"
    by (auto simp: set_of_def simp del: map_of_eq_Some_iff split: option.splits)
  moreover have "(packed, i) \<in> set (pois_by_pos s)"
    using s(2) by (simp add: set_get_def map_of_SomeD)
  ultimately show "(p, n) \<in> set (collect_for_chunk c st)"
    using i poi_get_pos [OF assms i(1)]
    by (force simp: collect_for_chunk_def simp del: map_of_eq_Some_iff dest: map_of_SomeD)
qed

end
