(* ===== verification/PoiBlocks.thy ===== *)
theory PoiBlocks
  imports PoiSteps
begin

text \<open>
  Points of interest follow the blocks: the scan of a section, the change of one block, and the worlds that
  loading, unloading, block changes and tickets can reach.
\<close>

section \<open>The cells of a section\<close>

definition local_of_block :: "block_pos \<Rightarrow> u8 \<times> u8 \<times> u8" where
  "local_of_block p = (ucast (bx p AND 15), ucast (bY p AND 15), ucast (bz p AND 15))"

lemma scan_block_pos_local: "scan_block_pos (section_of_block p) (local_of_block p) = p"
  by (simp add: scan_block_pos_def local_of_block_def section_of_block_def section_coord_split mk_block_pos_def)

lemma and_15_less: "(ucast (b AND 15 :: i32w) :: u8) < 16"
proof -
  have "(ucast (b AND 15 :: i32w) :: u8) = ucast b AND mask 4"
    by (rule bit_word_eqI) (auto simp: mask_eqs bit_simps)
  also have "\<dots> < 2 ^ 4"
    by (rule and_mask_less') simp
  finally show ?thesis
    by simp
qed

lemma cells_of:
  "(a, b, c) \<in> set (concat (map (\<lambda>y. concat (map (\<lambda>z. map (\<lambda>x. (f x, f y, f z)) xs) xs)) xs)) \<longleftrightarrow>
   a \<in> f ` set xs \<and> b \<in> f ` set xs \<and> c \<in> f ` set xs"
  by auto

lemma scan_order_iff: "(a, b, c) \<in> set scan_order \<longleftrightarrow> a \<in> of_nat ` {0..<16} \<and> b \<in> of_nat ` {0..<16} \<and> c \<in> of_nat ` {0..<16}"
  unfolding scan_order_def cells_of set_upt by (rule refl)

lemma small_u8: "w < 16 \<Longrightarrow> (w :: u8) \<in> of_nat ` {0..<16}"
  by (rule image_eqI [of _ _ "unat w"]) (simp_all add: word_less_nat_alt)

lemma local_in_scan_order: "local_of_block p \<in> set scan_order"
  unfolding local_of_block_def scan_order_iff by (simp only: small_u8 and_15_less simp_thms)

lemma scan_order_less: "(a, b, c) \<in> set scan_order \<Longrightarrow> a < 16 \<and> b < 16 \<and> c < 16"
  unfolding scan_order_iff by (auto simp: word_less_nat_alt unat_of_nat)

text \<open>A cell of an existing section is a position of that section, and its own place there.\<close>

lemma cell_coord:
  assumes "x < (16 :: u8)"
  shows "block_to_section_coord (push_bit 4 (block_to_section_coord b) + ucast x) = block_to_section_coord b"
    "ucast ((push_bit 4 (block_to_section_coord b) + ucast x) AND 15 :: i32w) = x"
proof -
  have x: "x = x AND mask 4"
    using assms less_mask_eq [of x 4] by simp
  have disj: "push_bit 4 (block_to_section_coord b) AND ucast x = (0 :: i32w)"
    by (subst x, rule bit_word_eqI) (auto simp: bit_simps)
  then have sum: "push_bit 4 (block_to_section_coord b) + ucast x = push_bit 4 (block_to_section_coord b) OR (ucast (x AND mask 4) :: i32w)"
    using x by (simp add: disjunctive_add_eq_or)
  show "block_to_section_coord (push_bit 4 (block_to_section_coord b) + ucast x) = block_to_section_coord b"
    unfolding sum by (rule bit_word_eqI) (auto simp: block_to_section_coord_def bit_simps min_def)
  show "ucast ((push_bit 4 (block_to_section_coord b) + ucast x) AND 15 :: i32w) = x"
    unfolding sum by (subst (2) x, rule bit_word_eqI) (auto simp: mask_eqs bit_simps)
qed

lemma scan_block_pos_section:
  assumes "xyz \<in> set scan_order"
  shows "section_of_block (scan_block_pos (section_of_block q) xyz) = section_of_block q"
    "local_of_block (scan_block_pos (section_of_block q) xyz) = xyz"
proof -
  obtain x y z where xyz: "xyz = (x, y, z)"
    using prod_cases3 by blast
  have "x < 16" "y < 16" "z < 16"
    using scan_order_less assms xyz by blast+
  note coords = cell_coord [OF this(1)] cell_coord [OF this(2)] cell_coord [OF this(3)]
  show "section_of_block (scan_block_pos (section_of_block q) xyz) = section_of_block q"
    by (simp add: xyz scan_block_pos_def section_of_block_def mk_block_pos_def coords)
  show "local_of_block (scan_block_pos (section_of_block q) xyz) = xyz"
    by (simp add: xyz scan_block_pos_def local_of_block_def section_of_block_def mk_block_pos_def coords)
qed

section \<open>The scan\<close>

lemma section_block_of_block_inj:
  "\<lbrakk>section_of_block p = section_of_block q; section_block_of_block p = section_block_of_block q\<rbrakk> \<Longrightarrow> p = q"
  using relative_to_block_pos_split [of p] relative_to_block_pos_split [of q] by metis

definition registry_consistent :: "poi_registry \<Rightarrow> bool" where
  "registry_consistent r \<longleftrightarrow> (\<forall>state t. type_of_state r state = Some t \<longrightarrow> ticket_count r t \<noteq> None)"

definition fresh_poi :: "poi_registry \<Rightarrow> block_pos \<Rightarrow> nat \<Rightarrow> point_of_interest option" where
  "fresh_poi r p state = map_option (\<lambda>t. poi_new p t (max_tickets_for r t)) (type_of_state r state)"

text \<open>The scan of some cells: each gets its point unless there is one already.\<close>

lemma scan_cells:
  fixes q :: block_pos
  defines "sp \<equiv> section_of_block q"
  assumes "registry_consistent r" "set xs \<subseteq> set scan_order" "set_ok s"
    "\<And>packed i. set_get packed s = Some i \<Longrightarrow> section_of_block (poi_pos i) = sp \<and> section_block_of_block (poi_pos i) = packed"
  shows "\<exists>s'. fold (\<lambda>xyz s. Option.bind s (scan_cell r states sp xyz)) xs (Some s) = Some s' \<and> set_ok s' \<and>
    (\<forall>packed i. set_get packed s' = Some i \<longrightarrow> section_of_block (poi_pos i) = sp \<and> section_block_of_block (poi_pos i) = packed) \<and>
    (\<forall>p. section_of_block p = sp \<longrightarrow> set_get (section_block_of_block p) s' =
       (case set_get (section_block_of_block p) s of
          Some i \<Rightarrow> Some i
        | None \<Rightarrow> if local_of_block p \<in> set xs then fresh_poi r p (states (local_of_block p)) else None))"
  using assms(3-5)
proof (induction xs arbitrary: s)
  case Nil
  then show ?case
    by (auto split: option.splits)
next
  case (Cons xyz xs)
  let ?p = "scan_block_pos sp xyz"
  have p: "section_of_block ?p = sp" "local_of_block ?p = xyz"
    using scan_block_pos_section [of xyz q] Cons.prems(1) by (simp_all add: sp_def)
  have own: "p = ?p" if "section_of_block p = sp" "local_of_block p = xyz" for p
    using that scan_block_pos_local [of p] by simp
  obtain s1 where s1: "scan_cell r states sp xyz s = Some s1"
      "s1 = (case fresh_poi r ?p (states xyz) of None \<Rightarrow> s | Some i \<Rightarrow> set_add (section_block_of_block ?p) i s)"
  proof (cases "type_of_state r (states xyz)")
    case None
    then show ?thesis
      by (intro that [of s]) (simp_all add: scan_cell_def fresh_poi_def)
  next
    case (Some t)
    then obtain n where n: "ticket_count r t = Some n"
      using assms(2) by (auto simp: registry_consistent_def)
    then show ?thesis
      using Some that by (simp add: scan_cell_def fresh_poi_def max_tickets_for_def Let_def)
  qed
  have get: "set_get (section_block_of_block p) s1 =
      (case set_get (section_block_of_block p) s of Some i \<Rightarrow> Some i
       | None \<Rightarrow> if local_of_block p = xyz then fresh_poi r p (states xyz) else None)" if "section_of_block p = sp" for p
  proof (cases "local_of_block p = xyz")
    case True
    then have "p = ?p"
      using own that by blast
    then show ?thesis
      using True by (auto simp: s1(2) set_get_add split: option.splits)
  next
    case False
    then have "section_block_of_block p \<noteq> section_block_of_block ?p"
      using section_block_of_block_inj [of p ?p] that p by auto
    then show ?thesis
      using False by (auto simp: s1(2) set_get_add split: option.splits)
  qed
  have ok: "set_ok s1"
    using Cons.prems(2) set_add_ok by (auto simp: s1(2) split: option.splits)
  have place: "section_of_block (poi_pos i) = sp \<and> section_block_of_block (poi_pos i) = packed" if "set_get packed s1 = Some i" for packed i
    using that Cons.prems(3) p
    by (auto simp: s1(2) set_get_add fresh_poi_def poi_new_def split: option.splits if_splits)
  obtain s' where s': "fold (\<lambda>xyz s. Option.bind s (scan_cell r states sp xyz)) xs (Some s1) = Some s'" "set_ok s'"
    "\<forall>packed i. set_get packed s' = Some i \<longrightarrow> section_of_block (poi_pos i) = sp \<and> section_block_of_block (poi_pos i) = packed"
    "\<forall>p. section_of_block p = sp \<longrightarrow> set_get (section_block_of_block p) s' =
       (case set_get (section_block_of_block p) s1 of Some i \<Rightarrow> Some i
        | None \<Rightarrow> if local_of_block p \<in> set xs then fresh_poi r p (states (local_of_block p)) else None)"
    using Cons.IH [OF _ ok place] Cons.prems(1) by auto
  show ?case
  proof (intro exI conjI)
    show "fold (\<lambda>xyz s. Option.bind s (scan_cell r states sp xyz)) (xyz # xs) (Some s) = Some s'"
      using s1(1) s'(1) by simp
    show "\<forall>p. section_of_block p = sp \<longrightarrow> set_get (section_block_of_block p) s' =
       (case set_get (section_block_of_block p) s of Some i \<Rightarrow> Some i
        | None \<Rightarrow> if local_of_block p \<in> set (xyz # xs) then fresh_poi r p (states (local_of_block p)) else None)"
      using s'(4) get by (auto split: option.splits)
  qed (use s' in auto)
qed

lemma scan_and_populate_effect:
  assumes "storage_ok st" "registry_consistent r"
  shows "\<exists>st'. scan_and_populate r states (section_of_block q) st = Some st' \<and> storage_ok st' \<and>
    (\<forall>p. poi_get p st' =
       (if section_of_block p = section_of_block q \<and> poi_get p st = None then fresh_poi r p (states (local_of_block p)) else poi_get p st))"
proof -
  let ?sp = "section_of_block q"
  let ?c = "\<lparr>cx = sx ?sp, cz = sz ?sp\<rparr>" and ?y = "sy ?sp"
  define s where "s = (case set_of ?c ?y st of None \<Rightarrow> poi_set_new | Some s \<Rightarrow> s)"
  have resolve: "resolve_pos p = (?c, ?y, packed) \<longleftrightarrow> section_of_block p = ?sp \<and> section_block_of_block p = packed" for p packed
    by (cases "section_of_block p"; cases ?sp) (auto simp: resolve_pos_def Let_def)
  have s: "set_ok s" "\<And>packed. set_get packed s = Option.bind (set_of ?c ?y st) (set_get packed)"
    using storage_ok_set [OF assms(1)] by (auto simp: s_def split: option.splits)
  have place: "section_of_block (poi_pos i) = ?sp \<and> section_block_of_block (poi_pos i) = packed" if "set_get packed s = Some i" for packed i
  proof -
    have "Option.bind (set_of ?c ?y st) (set_get packed) = Some i"
      using that s(2) [of packed] by simp
    then obtain s0 where "set_of ?c ?y st = Some s0" "set_get packed s0 = Some i"
      by (auto simp: bind_eq_Some_conv)
    then show ?thesis
      using storage_ok_at [OF assms(1)] resolve by blast
  qed
  obtain s' where s': "scan_set r states ?sp s = Some s'" "set_ok s'"
    "\<forall>packed i. set_get packed s' = Some i \<longrightarrow> section_of_block (poi_pos i) = ?sp \<and> section_block_of_block (poi_pos i) = packed"
    "\<forall>p. section_of_block p = ?sp \<longrightarrow> set_get (section_block_of_block p) s' =
       (case set_get (section_block_of_block p) s of Some i \<Rightarrow> Some i | None \<Rightarrow> fresh_poi r p (states (local_of_block p)))"
    using scan_cells [OF assms(2) order_refl s(1) place, of states] by (auto simp: scan_set_def local_in_scan_order)
  let ?st = "put_set ?c ?y s' st"
  have "scan_and_populate r states ?sp st = Some ?st"
    using s'(1) by (simp add: scan_and_populate_def Let_def s_def [symmetric] get_or_create_set_put)
  moreover have "storage_ok ?st"
    using s'(2,3) resolve by (intro put_set_ok assms(1)) auto
  moreover have "poi_get p ?st =
      (if section_of_block p = ?sp \<and> poi_get p st = None then fresh_poi r p (states (local_of_block p)) else poi_get p st)" for p
  proof (cases "section_of_block p = ?sp")
    case True
    then have p: "resolve_pos p = (?c, ?y, section_block_of_block p)"
      by (simp add: resolve)
    have "poi_get p ?st = set_get (section_block_of_block p) s'"
      by (simp add: poi_get_put_set [OF p] p)
    also have "\<dots> = (case poi_get p st of Some i \<Rightarrow> Some i | None \<Rightarrow> fresh_poi r p (states (local_of_block p)))"
      using s'(4) True s(2) by (simp add: poi_get_at [OF p])
    finally show ?thesis
      using True by (auto split: option.splits)
  next
    case False
    have "\<not> (fst (resolve_pos p) = ?c \<and> fst (snd (resolve_pos p)) = ?y)"
      using False resolve [of p "snd (snd (resolve_pos p))"] by (metis prod.collapse)
    then show ?thesis
      using False by (auto simp: poi_get_split set_of_put_set)
  qed
  ultimately show ?thesis
    by blast
qed

lemma on_block_state_change_effect:
  assumes "storage_ok st" "registry_consistent r"
    and old: "map_option poi_type (poi_get p st) = type_of_state r old_state"
  shows "\<exists>st'. on_block_state_change r p old_state new_state st = Some st' \<and> storage_ok st' \<and>
    (\<forall>q. poi_get q st' =
       (if q = p \<and> type_of_state r old_state \<noteq> type_of_state r new_state then fresh_poi r p new_state else poi_get q st))"
proof (cases "type_of_state r old_state = type_of_state r new_state")
  case True
  then show ?thesis
    using assms(1) by (simp add: on_block_state_change_def)
next
  case False
  define st1 where "st1 = (if type_of_state r old_state \<noteq> None then poi_remove p st else st)"
  have st1: "storage_ok st1" "poi_get q st1 = (if q = p then None else poi_get q st)" for q
    using poi_remove_effect [OF assms(1)] assms(1) old by (auto simp: st1_def)
  show ?thesis
  proof (cases "type_of_state r new_state")
    case None
    then have "on_block_state_change r p old_state new_state st = Some st1"
      using False by (auto simp: on_block_state_change_def st1_def Let_def)
    then show ?thesis
      using None False st1 by (simp add: fresh_poi_def)
  next
    case (Some t)
    then obtain n where n: "ticket_count r t = Some n"
      using assms(2) by (auto simp: registry_consistent_def)
    have "on_block_state_change r p old_state new_state st = Some (poi_add p t n st1)"
      using False Some n by (simp add: on_block_state_change_def st1_def Let_def)
    then show ?thesis
      using False Some n poi_add_effect [OF st1(1), where p = p and t = t and n = n] st1(2) by (simp add: fresh_poi_def max_tickets_for_def)
  qed
qed

section \<open>Reachable worlds\<close>

text \<open>
  The storage beside the blocks that it describes and the sections that are loaded. Sections are loaded and their
  chunks unloaded, blocks of loaded sections change, tickets are reserved, released and restored from a
  save that kept to the types' numbers.
\<close>

record poi_world =
  pw_storage :: poi_storage
  pw_blocks :: "block_pos \<Rightarrow> nat"
  pw_loaded :: "section_pos set"

definition tickets_valid :: "poi_registry \<Rightarrow> chunk_pos \<Rightarrow> poi_storage \<Rightarrow> (block_pos \<times> nat) list \<Rightarrow> bool" where
  "tickets_valid r c st tickets \<longleftrightarrow>
     (\<forall>(p, n) \<in> set tickets. chunk_of_block p = c \<and> (\<forall>t. get_type p st = Some t \<longrightarrow> n \<le> max_tickets_for r t))"

inductive poi_reachable :: "poi_registry \<Rightarrow> poi_world \<Rightarrow> bool" for r :: poi_registry where
  start: "poi_reachable r \<lparr>pw_storage = [], pw_blocks = blocks, pw_loaded = {}\<rparr>"
| load: "\<lbrakk>poi_reachable r w; sp = section_of_block q; sp \<notin> pw_loaded w;
     scan_and_populate r (\<lambda>xyz. pw_blocks w (scan_block_pos sp xyz)) sp (pw_storage w) = Some st\<rbrakk>
   \<Longrightarrow> poi_reachable r (w\<lparr>pw_storage := st, pw_loaded := insert sp (pw_loaded w)\<rparr>)"
| unload: "poi_reachable r w
   \<Longrightarrow> poi_reachable r (w\<lparr>pw_storage := remove_chunk c (pw_storage w),
         pw_loaded := {sp \<in> pw_loaded w. \<lparr>cx = sx sp, cz = sz sp\<rparr> \<noteq> c}\<rparr>)"
| change: "\<lbrakk>poi_reachable r w; section_of_block p \<in> pw_loaded w;
     on_block_state_change r p (pw_blocks w p) state (pw_storage w) = Some st\<rbrakk>
   \<Longrightarrow> poi_reachable r (w\<lparr>pw_storage := st, pw_blocks := (pw_blocks w)(p := state)\<rparr>)"
| reserve: "poi_reachable r w \<Longrightarrow> poi_reachable r (w\<lparr>pw_storage := snd (reserve_ticket p (pw_storage w))\<rparr>)"
| release: "poi_reachable r w \<Longrightarrow> poi_reachable r (w\<lparr>pw_storage := snd (release_ticket r p (pw_storage w))\<rparr>)"
| restore: "\<lbrakk>poi_reachable r w; tickets_valid r c (pw_storage w) tickets\<rbrakk>
   \<Longrightarrow> poi_reachable r (w\<lparr>pw_storage := restore_tickets c tickets (pw_storage w)\<rparr>)"

definition poi_inv :: "poi_registry \<Rightarrow> poi_world \<Rightarrow> bool" where
  "poi_inv r w \<longleftrightarrow> storage_ok (pw_storage w) \<and>
     (\<forall>p. get_type p (pw_storage w) =
        (if section_of_block p \<in> pw_loaded w then type_of_state r (pw_blocks w p) else None)) \<and>
     (\<forall>p i. poi_get p (pw_storage w) = Some i \<longrightarrow> free_tickets i \<le> max_tickets_for r (poi_type i))"

lemma get_type_fresh: "map_option poi_type (fresh_poi r p state) = type_of_state r state"
  by (simp add: fresh_poi_def poi_new_def option.map_comp comp_def option.map_ident)

lemma fresh_poi_full: "fresh_poi r p state = Some i \<Longrightarrow> free_tickets i = max_tickets_for r (poi_type i)"
  by (auto simp: fresh_poi_def poi_new_def)

lemma inv_load:
  assumes "poi_inv r w" "registry_consistent r" "sp = section_of_block q" "sp \<notin> pw_loaded w"
  shows "\<exists>st. scan_and_populate r (\<lambda>xyz. pw_blocks w (scan_block_pos sp xyz)) sp (pw_storage w) = Some st \<and>
    poi_inv r (w\<lparr>pw_storage := st, pw_loaded := insert sp (pw_loaded w)\<rparr>)"
proof -
  let ?states = "\<lambda>xyz. pw_blocks w (scan_block_pos sp xyz)"
  have ok: "storage_ok (pw_storage w)"
    using assms(1) by (simp add: poi_inv_def)
  obtain st where st: "scan_and_populate r ?states sp (pw_storage w) = Some st" "storage_ok st"
    "\<And>p. poi_get p st = (if section_of_block p = sp \<and> poi_get p (pw_storage w) = None then fresh_poi r p (?states (local_of_block p))
       else poi_get p (pw_storage w))"
    using scan_and_populate_effect [OF ok assms(2), of ?states q] assms(3) by auto
  have none: "poi_get p (pw_storage w) = None" if "section_of_block p = sp" for p
  proof -
    have "get_type p (pw_storage w) = None"
      using assms(1,4) that by (simp add: poi_inv_def)
    then show ?thesis
      by (simp add: get_type_def)
  qed
  have own: "?states (local_of_block p) = pw_blocks w p" if "section_of_block p = sp" for p
    using that scan_block_pos_local [of p] by simp
  have get: "poi_get p st = (if section_of_block p = sp then fresh_poi r p (pw_blocks w p) else poi_get p (pw_storage w))" for p
    using st(3) none own by simp
  have "poi_inv r (w\<lparr>pw_storage := st, pw_loaded := insert sp (pw_loaded w)\<rparr>)"
    using assms(1) st(2) fresh_poi_full by (auto simp: poi_inv_def get_type_def get get_type_fresh split: if_splits)
  then show ?thesis
    using st(1) by blast
qed

lemma inv_change:
  assumes "poi_inv r w" "registry_consistent r" "section_of_block p \<in> pw_loaded w"
  shows "\<exists>st. on_block_state_change r p (pw_blocks w p) state (pw_storage w) = Some st \<and>
    poi_inv r (w\<lparr>pw_storage := st, pw_blocks := (pw_blocks w)(p := state)\<rparr>)"
proof -
  have ok: "storage_ok (pw_storage w)" "map_option poi_type (poi_get p (pw_storage w)) = type_of_state r (pw_blocks w p)"
    using assms(1,3) by (simp_all add: poi_inv_def get_type_def)
  obtain st where st: "on_block_state_change r p (pw_blocks w p) state (pw_storage w) = Some st" "storage_ok st"
    "\<And>q. poi_get q st = (if q = p \<and> type_of_state r (pw_blocks w p) \<noteq> type_of_state r state then fresh_poi r p state
       else poi_get q (pw_storage w))"
    using on_block_state_change_effect [OF ok(1) assms(2) ok(2), of state] by auto
  have "poi_inv r (w\<lparr>pw_storage := st, pw_blocks := (pw_blocks w)(p := state)\<rparr>)"
    using assms(1,3) st(2) fresh_poi_full ok(2)
    by (auto simp: poi_inv_def get_type_def st(3) get_type_fresh split: if_splits)
  then show ?thesis
    using st(1) by blast
qed

lemma restore_tickets_any:
  assumes "storage_ok st" "\<forall>(p, n) \<in> set tickets. chunk_of_block p = c"
  shows "storage_ok (restore_tickets c tickets st) \<and>
    (\<forall>p. get_type p (restore_tickets c tickets st) = get_type p st) \<and>
    (\<forall>p i. poi_get p (restore_tickets c tickets st) = Some i \<longrightarrow> poi_get p st = Some i \<or> (p, free_tickets i) \<in> set tickets)"
  using assms
proof (induction tickets arbitrary: st)
  case (Cons e tickets)
  obtain p n where e: "e = (p, n)"
    by fastforce
  have c: "chunk_of_block p = c"
    using Cons.prems(2) e by auto
  let ?st = "restore_ticket c e st"
  note one = restore_ticket_effect [OF Cons.prems(1) c, where n = n]
  have types: "get_type q ?st = get_type q st" for q
    using one(2) [of q] e by (simp add: get_type_def option.map_comp comp_def)
  have back_one: "poi_get q st = Some i \<or> (q, free_tickets i) \<in> set (e # tickets)" if "poi_get q ?st = Some i" for q i
    using that one(2) [of q] e by (auto split: if_splits)
  have rest: "\<forall>(p, n) \<in> set tickets. chunk_of_block p = c" "storage_ok ?st"
    using Cons.prems(2) one(1) e by simp_all
  note IH = Cons.IH [OF rest(2,1)]
  have unfold: "restore_tickets c (e # tickets) st = restore_tickets c tickets ?st"
    by (simp add: restore_tickets_def)
  have "poi_get q st = Some i \<or> (q, free_tickets i) \<in> set (e # tickets)"
    if "poi_get q (restore_tickets c tickets ?st) = Some i" for q i
  proof -
    have "poi_get q ?st = Some i \<or> (q, free_tickets i) \<in> set tickets"
      using IH that by blast
    then show ?thesis
      using back_one [of q i] by auto
  qed
  then show ?case
    unfolding unfold using IH types by simp
qed (simp add: restore_tickets_def)

lemma reserve_release_keep [simp]:
  "poi_type (snd (poi_reserve i)) = poi_type i" "free_tickets (snd (poi_reserve i)) \<le> free_tickets i"
  "poi_type (snd (poi_release n i)) = poi_type i"
  "free_tickets i \<le> n \<Longrightarrow> free_tickets (snd (poi_release n i)) \<le> n"
  by (auto simp: poi_reserve_def poi_release_def)

lemma tickets_change_inv:
  assumes "poi_inv r w" "storage_ok st" "\<And>q. poi_get q st = (if q = p then map_option f (poi_get p (pw_storage w)) else poi_get q (pw_storage w))"
    "\<And>i. poi_type (f i) = poi_type i" "\<And>i. free_tickets i \<le> max_tickets_for r (poi_type i) \<Longrightarrow> free_tickets (f i) \<le> max_tickets_for r (poi_type i)"
  shows "poi_inv r (w\<lparr>pw_storage := st\<rparr>)"
proof -
  have "get_type q st = get_type q (pw_storage w)" for q
    by (simp add: get_type_def assms(3,4) option.map_comp comp_def)
  moreover have "free_tickets i \<le> max_tickets_for r (poi_type i)" if "poi_get q st = Some i" for q i
    using that assms(1,3-5) by (auto simp: poi_inv_def split: if_splits)
  ultimately show ?thesis
    using assms(1,2) by (simp add: poi_inv_def)
qed

lemma poi_reachable_inv:
  assumes "registry_consistent r"
  shows "poi_reachable r w \<Longrightarrow> poi_inv r w"
proof (induction rule: poi_reachable.induct)
  case (start blocks)
  then show ?case
    by (simp add: poi_inv_def get_type_def poi_get_split set_of_def)
next
  case (load w sp q st)
  then show ?case
    using inv_load [OF load.IH assms load.hyps(2,3)] by auto
next
  case (unload w c)
  then have ok: "storage_ok (pw_storage w)"
    by (simp add: poi_inv_def)
  note effect = remove_chunk_effect [OF ok, where c = c]
  show ?case
    using unload.IH effect(1) unfolding poi_inv_def get_type_def
    by (auto simp: effect(2) chunk_of_block_def section_of_block_def split: if_splits)
next
  case (change w p state st)
  then show ?case
    using inv_change [OF change.IH assms change.hyps(2), of state] by simp
next
  case (reserve w p)
  then have ok: "storage_ok (pw_storage w)"
    by (simp add: poi_inv_def)
  note effect = reserve_ticket_effect(1,2) [OF ok, where p = p]
  show ?case
    by (rule tickets_change_inv [OF reserve.IH effect]) (auto intro: order_trans [OF reserve_release_keep(2)])
next
  case (release w p)
  then have ok: "storage_ok (pw_storage w)"
    by (simp add: poi_inv_def)
  note effect = release_ticket_effect(1,2) [OF ok, where p = p, where r = r]
  show ?case
    by (rule tickets_change_inv [OF release.IH effect]) (auto intro: order_trans [OF reserve_release_keep(2)])
next
  case (restore w c tickets)
  then have valid: "\<forall>(p, n) \<in> set tickets. chunk_of_block p = c" "storage_ok (pw_storage w)"
    by (auto simp: tickets_valid_def poi_inv_def)
  let ?st = "restore_tickets c tickets (pw_storage w)"
  note effect = restore_tickets_any [OF valid(2,1)]
  have "free_tickets i \<le> max_tickets_for r (poi_type i)" if i: "poi_get p ?st = Some i" for p i
  proof -
    have "get_type p (pw_storage w) = Some (poi_type i)"
      using effect i by (metis get_type_def option.simps(9))
    moreover have "poi_get p (pw_storage w) = Some i \<or> (p, free_tickets i) \<in> set tickets"
      using effect i by blast
    ultimately show ?thesis
      using restore by (auto simp: tickets_valid_def poi_inv_def)
  qed
  then show ?case
    using effect restore.IH by (simp add: poi_inv_def)
qed

end
