(* ===== verification/PoiQuery.thy ===== *)
theory PoiQuery
  imports PoiSteps
begin

text \<open>
  What the queries of points of interest find: the points of a chunk, of a square and of a sphere, each
  once, away from the ends of the \<open>i32\<close> range; the closest of them; the one that a villager takes.
\<close>

section \<open>Lists\<close>

lemma distinct_concat_map:
  "\<lbrakk>distinct xs; \<And>x. x \<in> set xs \<Longrightarrow> distinct (f x);
    \<And>x y e. \<lbrakk>x \<in> set xs; y \<in> set xs; e \<in> set (f x); e \<in> set (f y)\<rbrakk> \<Longrightarrow> x = y\<rbrakk>
   \<Longrightarrow> distinct (concat (map f xs))"
proof (induction xs)
  case (Cons x xs)
  have "e \<notin> set (f y)" if "e \<in> set (f x)" "y \<in> set xs" for e y
    using Cons.prems(1,3) that by (metis distinct.simps(2) list.set_intros)
  then have "set (f x) \<inter> set (concat (map f xs)) = {}"
    by auto
  moreover have "distinct (concat (map f xs))"
    using Cons.prems by (intro Cons.IH) (auto intro: Cons.prems(3))
  ultimately show ?case
    using Cons.prems(2) by simp
qed simp

lemma fold_first: "fold (\<lambda>i found. if found = None \<and> Q i then Some (f i) else found) xs (Some y) = Some y"
  by (induction xs) simp_all

lemma fold_find: "fold (\<lambda>i found. if found = None \<and> Q i then Some (f i) else found) xs None = map_option f (List.find Q xs)"
  by (induction xs) (auto simp: fold_first)

lemma find_Some: "List.find Q xs = Some x \<Longrightarrow> x \<in> set xs \<and> Q x"
  by (induction xs) (auto split: if_splits)

section \<open>Coordinates\<close>

lemma sint_section_coord: "sint (block_to_section_coord b) = sint b div 16"
  by (simp add: block_to_section_coord_def sint_signed_drop_bit_eq drop_bit_eq_div)

lemma sint_sub: "\<bar>sint (a :: i32w) - sint b\<bar> < 2 ^ 31 \<Longrightarrow> sint (a - b) = sint a - sint b"
  by (simp add: sint_word_ariths signed_take_bit_int_eq_self)

lemma sint_add: "\<bar>sint (a :: i32w) + sint b\<bar> < 2 ^ 31 \<Longrightarrow> sint (a + b) = sint a + sint b"
  by (simp add: sint_word_ariths signed_take_bit_int_eq_self)

lemma sint_word_of_int_eq: "\<lbrakk>- (2 ^ 31) \<le> k; k < 2 ^ 31\<rbrakk> \<Longrightarrow> sint (word_of_int k :: i32w) = k"
  by (simp add: sint_sbintrunc' signed_take_bit_int_eq_self)

lemma sint_bounds: "- (2 ^ 31) \<le> sint (a :: i32w)" "sint a < 2 ^ 31"
  using sint_greater_eq [of a] sint_less [of a] by simp_all

lemma i32_range_iff: "x \<in> set (i32_range a b) \<longleftrightarrow> sint a \<le> sint x \<and> sint x \<le> sint b"
proof
  assume "x \<in> set (i32_range a b)"
  then obtain k where k: "x = word_of_int k" "sint a \<le> k" "k \<le> sint b"
    by (auto simp: i32_range_def)
  have "sint x = k"
    using k sint_bounds [of a] sint_bounds [of b] by (simp add: sint_word_of_int_eq)
  then show "sint a \<le> sint x \<and> sint x \<le> sint b"
    using k by simp
next
  assume "sint a \<le> sint x \<and> sint x \<le> sint b"
  then show "x \<in> set (i32_range a b)"
    unfolding i32_range_def by (auto intro!: image_eqI [of _ _ "sint x"])
qed

lemma i32_range_distinct: "distinct (i32_range a b)"
proof -
  have "inj_on (word_of_int :: int \<Rightarrow> i32w) {sint a..sint b}"
    using sint_bounds [of a] sint_bounds [of b]
    by (intro inj_on_inverseI [of _ sint]) (auto intro: sint_word_of_int_eq)
  then show ?thesis
    by (simp add: i32_range_def distinct_map)
qed

text \<open>
  Positions away from the ends of the range: within \<open>2 ^ 28\<close>, nine times the width of a world.
\<close>

definition near :: "block_pos \<Rightarrow> bool" where
  "near p \<longleftrightarrow> \<bar>sint (bx p)\<bar> \<le> 2 ^ 28 \<and> \<bar>sint (bY p)\<bar> \<le> 2 ^ 28 \<and> \<bar>sint (bz p)\<bar> \<le> 2 ^ 28"

lemma chunk_range:
  assumes "\<bar>sint b\<bar> \<le> 2 ^ 28" "0 \<le> radius" "radius \<le> 2 ^ 28"
  defines "n \<equiv> word_of_int (radius div 16 + 1)"
  shows "c \<in> set (i32_range (block_to_section_coord b - n) (block_to_section_coord b + n)) \<longleftrightarrow>
    sint b div 16 - (radius div 16 + 1) \<le> sint c \<and> sint c \<le> sint b div 16 + (radius div 16 + 1)"
proof -
  have n: "sint (n :: i32w) = radius div 16 + 1"
    unfolding n_def using assms(2,3) by (intro sint_word_of_int_eq) simp_all
  have "\<bar>sint b div 16\<bar> \<le> 2 ^ 24" "0 \<le> radius div 16" "radius div 16 \<le> 2 ^ 24"
    using assms(1-3) by auto
  then have "sint (block_to_section_coord b - n) = sint b div 16 - (radius div 16 + 1)"
      "sint (block_to_section_coord b + n) = sint b div 16 + (radius div 16 + 1)"
    using n by (simp_all add: sint_sub sint_add sint_section_coord)
  then show ?thesis
    by (simp add: i32_range_iff)
qed

lemma within_radius:
  assumes "\<bar>sint b\<bar> \<le> 2 ^ 28" "0 \<le> radius" "radius \<le> 2 ^ 28"
  defines "n \<equiv> word_of_int (radius div 16 + 1)"
  shows "block_to_section_coord p \<in> set (i32_range (block_to_section_coord b - n) (block_to_section_coord b + n)) \<and>
      wrap_i32 \<bar>sint (p - b)\<bar> \<le> radius \<longleftrightarrow> \<bar>sint p - sint b\<bar> \<le> radius"
    (is "?chunk \<and> ?near \<longleftrightarrow> ?real")
proof -
  have chunk: "?chunk \<longleftrightarrow> sint b div 16 - (radius div 16 + 1) \<le> sint p div 16 \<and> sint p div 16 \<le> sint b div 16 + (radius div 16 + 1)"
    using chunk_range [OF assms(1-3), of "block_to_section_coord p"] by (simp add: n_def sint_section_coord)
  have near: "?near \<longleftrightarrow> ?real" if "\<bar>sint p - sint b\<bar> < 2 ^ 31"
    using that by (simp add: sint_sub in_i32_def)
  have inside: "\<bar>sint p - sint b\<bar> < 2 ^ 31" if ?chunk
    using that chunk assms(1-3) by simp linarith
  show ?thesis
  proof
    assume "?chunk \<and> ?near"
    then show ?real
      using near inside by blast
  next
    assume real: ?real
    then have ?chunk
      using chunk by linarith
    then show "?chunk \<and> ?near"
      using real near inside by blast
  qed
qed

section \<open>The points of a set, of a chunk, of a square and of a sphere\<close>

definition wanted :: "poi_registry \<Rightarrow> (nat \<Rightarrow> bool) \<Rightarrow> occupation_status \<Rightarrow> point_of_interest \<Rightarrow> bool" where
  "wanted r P status i \<longleftrightarrow> P (poi_type i) \<and> status_matches status (max_tickets_for r (poi_type i)) i"

lemma set_get_matching_iff:
  assumes "set_ok s"
  shows "i \<in> set (set_get_matching P status (max_tickets_for r) s) \<longleftrightarrow> (\<exists>packed. set_get packed s = Some i) \<and> wanted r P status i"
proof -
  have "(\<exists>packed. set_get packed s = Some i) \<longleftrightarrow> i \<in> snd ` set (pois_by_pos s)"
    using assms by (force simp: set_get_def set_ok_def)
  then show ?thesis
    by (auto simp: set_get_matching_def wanted_def)
qed

lemma set_get_matching_distinct:
  assumes "set_ok s" "\<And>packed i. set_get packed s = Some i \<Longrightarrow> snd (snd (resolve_pos (poi_pos i))) = packed"
  shows "distinct (set_get_matching P status m s)"
proof -
  let ?es = "sort_key fst (filter (\<lambda>(_, i). P (poi_type i) \<and> status_matches status (m (poi_type i)) i) (pois_by_pos s))"
  have "distinct (pois_by_pos s)"
    using assms(1) by (auto simp: set_ok_def distinct_map)
  then have "distinct ?es"
    by simp
  moreover have key: "packed = snd (snd (resolve_pos (poi_pos i)))" if "(packed, i) \<in> set (pois_by_pos s)" for packed i
    using that assms by (simp add: set_ok_def set_get_def)
  have "inj_on snd (set ?es)"
    by (auto simp: inj_on_def dest!: key)
  ultimately show ?thesis
    by (simp add: set_get_matching_def distinct_map del: sort_key_simps set_sort)
qed

text \<open>The index by type answers like a walk through all the points.\<close>

lemma set_get_by_type_matching:
  assumes "set_ok s"
  shows "set_get_by_type t status n s = set_get_matching (\<lambda>u. u = t) status (\<lambda>_. n) s"
proof -
  define es where "es = sort_key fst (filter (\<lambda>(_, i). poi_type i = t) (pois_by_pos s))"
  have get: "set_get k s = Some i \<longleftrightarrow> (k, i) \<in> set (pois_by_pos s)" for k i
    using assms by (simp add: set_get_def set_ok_def)
  have members: "(k, i) \<in> set es \<longleftrightarrow> set_get k s = Some i \<and> poi_type i = t" for k i
    by (auto simp: es_def get)
  have "distinct (map fst (filter (\<lambda>(_, i). poi_type i = t) (pois_by_pos s)))"
    using assms by (simp add: set_ok_def distinct_map_filter)
  then have "distinct (map fst es)"
    unfolding es_def distinct_map by simp
  moreover have "set (map fst es) = set (set_positions s t)"
  proof -
    have "set (map fst es) = {k. \<exists>i. (k, i) \<in> set es}"
      by force
    then show ?thesis
      using set_positions_ok [OF assms, of t] by (simp add: members)
  qed
  moreover have "sorted (map fst es)"
    unfolding es_def by (rule sorted_sort_key)
  ultimately have keys: "map fst es = sort (set_positions s t)"
    using set_positions_distinct [OF assms, of t] by (intro sorted_distinct_set_unique) simp_all
  have "set_get (fst e) s = Some (snd e)" if "e \<in> set es" for e
    using that members [of "fst e" "snd e"] by simp
  then have "List.map_filter (\<lambda>k. set_get k s) (map fst es) = map snd es"
  proof (induction es)
    case (Cons e es)
    then show ?case
      by (simp add: List.map_filter_simps)
  qed (simp add: List.map_filter_simps)
  then have by_type: "set_get_by_type t status n s = filter (status_matches status n) (map snd es)"
    by (simp add: set_get_by_type_def set_positions_def keys split: option.splits)
  have "filter (\<lambda>(_, i). poi_type i = t \<and> status_matches status n i) (pois_by_pos s) =
      filter (\<lambda>(_, i). status_matches status n i) (filter (\<lambda>(_, i). poi_type i = t) (pois_by_pos s))"
    by (auto simp: conj_commute intro: filter_cong)
  then have "set_get_matching (\<lambda>u. u = t) status (\<lambda>_. n) s = map snd (filter (\<lambda>(_, i). status_matches status n i) es)"
    by (simp add: set_get_matching_def es_def filter_sort)
  then show ?thesis
    by (simp add: by_type filter_map comp_def case_prod_unfold)
qed

lemma poi_get_cases:
  "poi_get (poi_pos i) st = Some i \<Longrightarrow> resolve_pos (poi_pos i) = (c, y, packed) \<Longrightarrow>
   \<exists>s. set_of c y st = Some s \<and> set_get packed s = Some i"
  by (auto simp: poi_get_at split: bind_splits)

lemma visit_chunk_sections:
  "visit_chunk r P c status st =
     concat (map (\<lambda>y. case set_of c y st of None \<Rightarrow> [] | Some s \<Rightarrow> set_get_matching P status (max_tickets_for r) s)
       (sort_key sint (map fst (column_of c st))))"
  by (auto simp: visit_chunk_def column_of_def set_of_def split: option.splits)

lemma set_of_key: "set_of c y st = Some s \<Longrightarrow> y \<in> set (map fst (column_of c st))"
  by (auto simp: set_of_def column_of_def simp del: map_of_eq_Some_iff split: option.splits)
    (metis domI dom_map_of_conv_image_fst)

lemma set_points: "e \<in> set (case set_of c y st of None \<Rightarrow> [] | Some s \<Rightarrow> f s) \<longleftrightarrow> (\<exists>s. set_of c y st = Some s \<and> e \<in> set (f s))"
  by (cases "set_of c y st") simp_all

lemma visit_chunk_iff:
  assumes "storage_ok st"
  shows "i \<in> set (visit_chunk r P c status st) \<longleftrightarrow>
    chunk_of_block (poi_pos i) = c \<and> poi_get (poi_pos i) st = Some i \<and> wanted r P status i"
proof
  assume "i \<in> set (visit_chunk r P c status st)"
  then obtain y s where s: "set_of c y st = Some s" "i \<in> set (set_get_matching P status (max_tickets_for r) s)"
    unfolding visit_chunk_sections set_concat set_map UN_iff image_image set_points by blast
  then obtain packed where i: "set_get packed s = Some i" "wanted r P status i"
    using set_get_matching_iff storage_ok_set [OF assms] by blast
  then have "resolve_pos (poi_pos i) = (c, y, packed)"
    using storage_ok_at [OF assms s(1)] by blast
  then show "chunk_of_block (poi_pos i) = c \<and> poi_get (poi_pos i) st = Some i \<and> wanted r P status i"
    using i s(1) resolve_pos_chunk [of "poi_pos i"] by (simp add: poi_get_at)
next
  assume i: "chunk_of_block (poi_pos i) = c \<and> poi_get (poi_pos i) st = Some i \<and> wanted r P status i"
  obtain c' y packed where p: "resolve_pos (poi_pos i) = (c', y, packed)"
    using prod_cases3 by blast
  then have p: "resolve_pos (poi_pos i) = (c, y, packed)"
    using i resolve_pos_chunk [of "poi_pos i"] by simp
  then obtain s where s: "set_of c y st = Some s" "set_get packed s = Some i"
    using poi_get_cases i by blast
  then have "i \<in> set (set_get_matching P status (max_tickets_for r) s)"
    using set_get_matching_iff [OF storage_ok_set [OF assms s(1)]] i by blast
  then show "i \<in> set (visit_chunk r P c status st)"
    using s(1) set_of_key [OF s(1)] by (force simp: visit_chunk_sections)
qed

lemma visit_chunk_distinct:
  assumes "storage_ok st"
  shows "distinct (visit_chunk r P c status st)"
  unfolding visit_chunk_sections
proof (rule distinct_concat_map)
  show "distinct (sort_key sint (map fst (column_of c st)))"
    using storage_ok_keys [OF assms, of c] by simp
  show "distinct (case set_of c y st of None \<Rightarrow> [] | Some s \<Rightarrow> set_get_matching P status (max_tickets_for r) s)" for y
  proof (cases "set_of c y st")
    case (Some s)
    then show ?thesis
      using storage_ok_set [OF assms Some] storage_ok_at [OF assms Some] by (simp add: set_get_matching_distinct)
  qed simp
  have own: "fst (snd (resolve_pos (poi_pos e))) = y"
    if e: "e \<in> set (case set_of c y st of None \<Rightarrow> [] | Some s \<Rightarrow> set_get_matching P status (max_tickets_for r) s)" for e y
  proof -
    obtain s where s: "set_of c y st = Some s" "e \<in> set (set_get_matching P status (max_tickets_for r) s)"
      using e unfolding set_points by blast
    then show ?thesis
      using storage_ok_at [OF assms s(1)] set_get_matching_iff [OF storage_ok_set [OF assms s(1)]] by fastforce
  qed
  show "y = z" if "e \<in> set (case set_of c y st of None \<Rightarrow> [] | Some s \<Rightarrow> set_get_matching P status (max_tickets_for r) s)"
      "e \<in> set (case set_of c z st of None \<Rightarrow> [] | Some s \<Rightarrow> set_get_matching P status (max_tickets_for r) s)" for y z e
    using own [OF that(1)] own [OF that(2)] by simp
qed

lemma visit_in_square_iff:
  assumes "storage_ok st" "near center" "0 \<le> radius" "radius \<le> 2 ^ 28"
  shows "i \<in> set (visit_in_square r P center radius status st) \<longleftrightarrow> poi_get (poi_pos i) st = Some i \<and> wanted r P status i \<and>
    \<bar>sint (bx (poi_pos i)) - sint (bx center)\<bar> \<le> radius \<and> \<bar>sint (bz (poi_pos i)) - sint (bz center)\<bar> \<le> radius"
proof -
  have center: "\<bar>sint (bx center)\<bar> \<le> 2 ^ 28" "\<bar>sint (bz center)\<bar> \<le> 2 ^ 28"
    using assms(2) by (simp_all add: near_def)
  have "i \<in> set (visit_in_square r P center radius status st) \<longleftrightarrow>
      poi_get (poi_pos i) st = Some i \<and> wanted r P status i \<and>
      (cx (chunk_of_block (poi_pos i)) \<in> set (i32_range (cx (chunk_of_block center) - word_of_int (radius div 16 + 1)) (cx (chunk_of_block center) + word_of_int (radius div 16 + 1))) \<and>
        wrap_i32 \<bar>sint (bx (poi_pos i) - bx center)\<bar> \<le> radius) \<and>
      (cz (chunk_of_block (poi_pos i)) \<in> set (i32_range (cz (chunk_of_block center) - word_of_int (radius div 16 + 1)) (cz (chunk_of_block center) + word_of_int (radius div 16 + 1))) \<and>
        wrap_i32 \<bar>sint (bz (poi_pos i) - bz center)\<bar> \<le> radius)"
    unfolding visit_in_square_def Let_def
    by (cases "chunk_of_block (poi_pos i)") (auto simp: visit_chunk_iff [OF assms(1)])
  moreover have "cx (chunk_of_block p) = block_to_section_coord (bx p)" "cz (chunk_of_block p) = block_to_section_coord (bz p)" for p
    by (simp_all add: chunk_of_block_def)
  ultimately show ?thesis
    by (simp only: within_radius [OF center(1) assms(3,4)] within_radius [OF center(2) assms(3,4)])
qed

lemma visit_in_square_distinct:
  assumes "storage_ok st"
  shows "distinct (visit_in_square r P center radius status st)"
proof -
  let ?near = "\<lambda>i. wrap_i32 \<bar>sint (bx (poi_pos i) - bx center)\<bar> \<le> radius \<and> wrap_i32 \<bar>sint (bz (poi_pos i) - bz center)\<bar> \<le> radius"
  let ?cell = "\<lambda>x z. filter ?near (visit_chunk r P \<lparr>cx = x, cz = z\<rparr> status st)"
  have cell: "distinct (?cell x z)" "e \<in> set (?cell x z) \<Longrightarrow> cx (chunk_of_block (poi_pos e)) = x \<and> cz (chunk_of_block (poi_pos e)) = z" for x z e
    using visit_chunk_distinct [OF assms] by (simp_all add: visit_chunk_iff [OF assms])
  have row: "distinct (concat (map (\<lambda>x. ?cell x z) (i32_range a b)))" for z a b
    by (rule distinct_concat_map [OF i32_range_distinct cell(1)]) (use cell(2) in blast)
  have in_row: "cz (chunk_of_block (poi_pos e)) = z" if e: "e \<in> set (concat (map (\<lambda>x. ?cell x z) xs))" for e z xs
  proof -
    obtain x where "e \<in> set (?cell x z)"
      using e unfolding set_concat set_map by blast
    then show ?thesis
      using cell(2) by blast
  qed
  have "distinct (concat (map (\<lambda>z. concat (map (\<lambda>x. ?cell x z) (i32_range a b))) (i32_range c d)))" for a b c d
    by (rule distinct_concat_map [OF i32_range_distinct row]) (use in_row in blast)
  then show ?thesis
    by (simp only: visit_in_square_def Let_def)
qed

section \<open>Spheres\<close>

text \<open>The points of a storage stay away from the ends of the range vertically, as the height of a world keeps them.\<close>

definition near_heights :: "poi_storage \<Rightarrow> bool" where
  "near_heights st \<longleftrightarrow> (\<forall>p i. poi_get p st = Some i \<longrightarrow> \<bar>sint (bY p)\<bar> \<le> 2 ^ 28)"

definition square_distance :: "block_pos \<Rightarrow> block_pos \<Rightarrow> int" where
  "square_distance a b = (sint (bx a) - sint (bx b))\<^sup>2 + (sint (bY a) - sint (bY b))\<^sup>2 + (sint (bz a) - sint (bz b))\<^sup>2"

lemma square_bound: "\<bar>a :: int\<bar> \<le> 2 ^ 29 \<Longrightarrow> a * a \<le> 2 ^ 58"
  using abs_le_square_iff [of a "2 ^ 29"] by (auto simp: power2_eq_square)

lemma sum_in_i64: "\<lbrakk>0 \<le> x; x \<le> 2 ^ 58; 0 \<le> y; y \<le> 2 ^ 58; 0 \<le> z; z \<le> 2 ^ 58\<rbrakk> \<Longrightarrow> in_i64 (x + y + z)"
  by (simp add: in_i64_def)

lemma poi_distance_sq_eq:
  assumes "\<bar>sint (bx a) - sint (bx b)\<bar> \<le> 2 ^ 29" "\<bar>sint (bY a) - sint (bY b)\<bar> \<le> 2 ^ 29" "\<bar>sint (bz a) - sint (bz b)\<bar> \<le> 2 ^ 29"
  shows "poi_distance_sq a b = square_distance a b"
proof -
  let ?x = "sint (bx a) - sint (bx b)" and ?y = "sint (bY a) - sint (bY b)" and ?z = "sint (bz a) - sint (bz b)"
  note small = assms
  have diffs: "sint (bx a - bx b) = ?x" "sint (bY a - bY b) = ?y" "sint (bz a - bz b) = ?z"
    using small by (auto intro!: sint_sub)
  have "in_i64 (?x * ?x + ?y * ?y + ?z * ?z)"
    by (intro sum_in_i64 square_bound zero_le_square small)
  then show ?thesis
    by (simp add: poi_distance_sq_def diffs square_distance_def power2_eq_square Let_def)
qed

text \<open>What a query around a point that is not at the ends of the range finds: each point of the sphere, once.\<close>

definition in_sphere ::
    "poi_registry \<Rightarrow> (nat \<Rightarrow> bool) \<Rightarrow> block_pos \<Rightarrow> int \<Rightarrow> occupation_status \<Rightarrow> poi_storage \<Rightarrow> point_of_interest \<Rightarrow> bool" where
  "in_sphere r P center radius status st i \<longleftrightarrow>
     poi_get (poi_pos i) st = Some i \<and> wanted r P status i \<and> square_distance (poi_pos i) center \<le> radius\<^sup>2"

lemma sphere_in_square:
  assumes "square_distance a b \<le> radius\<^sup>2" "0 \<le> radius"
  shows "\<bar>sint (bx a) - sint (bx b)\<bar> \<le> radius" "\<bar>sint (bz a) - sint (bz b)\<bar> \<le> radius"
proof -
  have "(sint (bx a) - sint (bx b))\<^sup>2 \<le> radius\<^sup>2" "(sint (bz a) - sint (bz b))\<^sup>2 \<le> radius\<^sup>2"
    using assms(1) zero_le_power2 [of "sint (bx a) - sint (bx b)"] zero_le_power2 [of "sint (bY a) - sint (bY b)"]
      zero_le_power2 [of "sint (bz a) - sint (bz b)"] unfolding square_distance_def by linarith+
  then show "\<bar>sint (bx a) - sint (bx b)\<bar> \<le> radius" "\<bar>sint (bz a) - sint (bz b)\<bar> \<le> radius"
    using abs_le_square_iff [of _ radius] assms(2) by (auto simp: abs_le_square_iff [symmetric])
qed

lemma visit_in_range_iff:
  assumes "storage_ok st" "near_heights st" "near center" "0 \<le> radius" "radius \<le> 2 ^ 28"
  shows "i \<in> set (visit_in_range r P center radius status st) \<longleftrightarrow> in_sphere r P center radius status st i"
proof -
  have distance: "poi_distance_sq (poi_pos i) center = square_distance (poi_pos i) center"
    if "poi_get (poi_pos i) st = Some i" "\<bar>sint (bx (poi_pos i)) - sint (bx center)\<bar> \<le> radius" "\<bar>sint (bz (poi_pos i)) - sint (bz center)\<bar> \<le> radius"
  proof (rule poi_distance_sq_eq)
    have "\<bar>sint (bY (poi_pos i))\<bar> \<le> 2 ^ 28" "\<bar>sint (bY center)\<bar> \<le> 2 ^ 28"
      using assms(2,3) that(1) by (auto simp: near_heights_def near_def)
    then show "\<bar>sint (bY (poi_pos i)) - sint (bY center)\<bar> \<le> 2 ^ 29"
      by simp
  qed (use that assms(5) in simp_all)
  have "i \<in> set (visit_in_range r P center radius status st) \<longleftrightarrow>
      i \<in> set (visit_in_square r P center radius status st) \<and> poi_distance_sq (poi_pos i) center \<le> radius\<^sup>2"
    by (auto simp: visit_in_range_def power2_eq_square)
  then show ?thesis
    unfolding visit_in_square_iff [OF assms(1,3-5)] in_sphere_def
    using distance sphere_in_square [of "poi_pos i" center, OF _ assms(4)] by auto
qed

lemma visit_in_range_distinct: "storage_ok st \<Longrightarrow> distinct (visit_in_range r P center radius status st)"
  by (simp add: visit_in_range_def visit_in_square_distinct)

text \<open>Positions and types: a point stands at one position only.\<close>

lemma with_type_inj: "inj_on with_type {i. poi_get (poi_pos i) st = Some i}"
proof (rule inj_onI)
  fix i j
  assume "i \<in> {i. poi_get (poi_pos i) st = Some i}" "j \<in> {i. poi_get (poi_pos i) st = Some i}" "with_type i = with_type j"
  then have i: "poi_get (poi_pos i) st = Some i" and j: "poi_get (poi_pos j) st = Some j" and same: "poi_pos i = poi_pos j"
    unfolding with_type_def prod.inject by blast+
  have "poi_get (poi_pos i) st = Some j"
    unfolding same by (rule j)
  then have "Some i = Some j"
    by (rule trans [OF i [symmetric]])
  then show "i = j"
    by blast
qed

lemma get_in_range_effect:
  assumes "storage_ok st" "near_heights st" "near center" "0 \<le> radius" "radius \<le> 2 ^ 28"
  shows "distinct (get_in_range r P center radius status st)"
    "set (get_in_range r P center radius status st) = with_type ` {i. in_sphere r P center radius status st i}"
    "poi_count r P center radius status st = card {i. in_sphere r P center radius status st i}"
proof -
  have visited: "set (visit_in_range r P center radius status st) = {i. in_sphere r P center radius status st i}"
    using visit_in_range_iff [OF assms] by blast
  show "set (get_in_range r P center radius status st) = with_type ` {i. in_sphere r P center radius status st i}"
    by (simp add: get_in_range_def visited)
  have "inj_on with_type (set (visit_in_range r P center radius status st))"
    by (rule inj_on_subset [OF with_type_inj [of st]]) (auto simp: visited in_sphere_def)
  then show "distinct (get_in_range r P center radius status st)"
    using visit_in_range_distinct [OF assms(1)] by (simp add: get_in_range_def distinct_map)
  show "poi_count r P center radius status st = card {i. in_sphere r P center radius status st i}"
    using visited distinct_card [OF visit_in_range_distinct [OF assms(1)]] by (metis poi_count_def)
qed

section \<open>The closest point\<close>

lemma closest_fold:
  assumes "fold (\<lambda>i (best, best_distance). if \<not> F (poi_pos i) then (best, best_distance)
      else (let d = poi_distance_sq (poi_pos i) center in if d < best_distance then (Some (with_type i), d) else (best, best_distance))) xs (b, d) = (b', d')"
  shows "(b' = b \<and> d' = d \<or> (\<exists>i\<in>set xs. F (poi_pos i) \<and> b' = Some (with_type i) \<and> d' = poi_distance_sq (poi_pos i) center \<and> d' < d)) \<and>
    (\<forall>i\<in>set xs. F (poi_pos i) \<longrightarrow> d' \<le> poi_distance_sq (poi_pos i) center) \<and> d' \<le> d"
  using assms
proof (induction xs arbitrary: b d)
  case (Cons x xs)
  let ?better = "F (poi_pos x) \<and> poi_distance_sq (poi_pos x) center < d"
  show ?case
  proof (cases ?better)
    case True
    then show ?thesis
      using Cons.IH [of "Some (with_type x)" "poi_distance_sq (poi_pos x) center"] Cons.prems by (fastforce simp: Let_def)
  next
    case False
    then have "fold (\<lambda>i (best, best_distance). if \<not> F (poi_pos i) then (best, best_distance)
      else (let d = poi_distance_sq (poi_pos i) center in if d < best_distance then (Some (with_type i), d) else (best, best_distance))) xs (b, d) = (b', d')"
      using Cons.prems by (auto simp: Let_def split: if_splits)
    from Cons.IH [OF this] show ?thesis
      using False by auto
  qed
qed simp

lemma find_closest_effect:
  fixes r P F status
  assumes "storage_ok st" "near_heights st" "near center" "0 \<le> radius" "radius \<le> 2 ^ 28"
  defines "candidates \<equiv> {i. in_sphere r P center radius status st i \<and> F (poi_pos i)}"
  shows "find_closest_with_type r P F center radius status st = None \<longleftrightarrow> candidates = {}"
    "find_closest_with_type r P F center radius status st = Some (p, t) \<Longrightarrow>
      \<exists>i\<in>candidates. (p, t) = with_type i \<and> (\<forall>j\<in>candidates. square_distance p center \<le> square_distance (poi_pos j) center)"
proof -
  let ?xs = "visit_in_range r P center radius status st"
  have candidates: "i \<in> candidates \<longleftrightarrow> i \<in> set ?xs \<and> F (poi_pos i)" for i
    by (simp add: candidates_def visit_in_range_iff [OF assms(1-5)])
  have distance: "poi_distance_sq (poi_pos i) center = square_distance (poi_pos i) center" "square_distance (poi_pos i) center \<le> 2 ^ 56"
    if "in_sphere r P center radius status st i" for i
  proof -
    have i: "poi_get (poi_pos i) st = Some i" "square_distance (poi_pos i) center \<le> radius\<^sup>2"
      using that by (simp_all add: in_sphere_def)
    have "\<bar>sint (bY (poi_pos i))\<bar> \<le> 2 ^ 28" "\<bar>sint (bY center)\<bar> \<le> 2 ^ 28"
      using assms(2,3) i(1) by (auto simp: near_heights_def near_def)
    then show "poi_distance_sq (poi_pos i) center = square_distance (poi_pos i) center"
      using sphere_in_square [OF i(2) assms(4)] assms(5) by (intro poi_distance_sq_eq) simp_all
    have "radius\<^sup>2 \<le> (2 ^ 28)\<^sup>2"
      using assms(4,5) by (intro power_mono)
    then show "square_distance (poi_pos i) center \<le> 2 ^ 56"
      using i(2) by simp
  qed
  obtain b d where bd: "fold (\<lambda>i (best, best_distance). if \<not> F (poi_pos i) then (best, best_distance)
      else (let d = poi_distance_sq (poi_pos i) center in if d < best_distance then (Some (with_type i), d) else (best, best_distance))) ?xs (None, 2 ^ 63 - 1) = (b, d)"
    by (rule prod.exhaust)
  note found = closest_fold [OF bd]
  have b: "find_closest_with_type r P F center radius status st = b"
    using bd by (simp add: find_closest_with_type_def)
  show "find_closest_with_type r P F center radius status st = None \<longleftrightarrow> candidates = {}"
  proof
    assume "find_closest_with_type r P F center radius status st = None"
    then have "d = 2 ^ 63 - 1"
      using found b by auto
    then have "i \<notin> candidates" for i
      using found distance [of i] candidates [of i] by (fastforce simp: candidates_def)
    then show "candidates = {}"
      by blast
  next
    assume "candidates = {}"
    then show "find_closest_with_type r P F center radius status st = None"
      using found b candidates by auto
  qed
  assume "find_closest_with_type r P F center radius status st = Some (p, t)"
  then have "b = Some (p, t)"
    using b by simp
  then obtain i where i: "i \<in> candidates" "(p, t) = with_type i" "d = poi_distance_sq (poi_pos i) center"
    using found candidates by (metis option.distinct(1) option.inject)
  have sphere: "in_sphere r P center radius status st k" if "k \<in> candidates" for k
    using that by (simp add: candidates_def)
  have "square_distance p center \<le> square_distance (poi_pos j) center" if j: "j \<in> candidates" for j
  proof -
    have "j \<in> set ?xs" "F (poi_pos j)"
      using j candidates [of j] by simp_all
    then have "d \<le> poi_distance_sq (poi_pos j) center"
      using found [THEN conjunct2, THEN conjunct1] by simp
    then have "poi_distance_sq (poi_pos i) center \<le> poi_distance_sq (poi_pos j) center"
      by (simp add: i(3))
    then show ?thesis
      using distance(1) [OF sphere [OF i(1)]] distance(1) [OF sphere [OF j]] i(2) by (simp add: with_type_def)
  qed
  then show "\<exists>i\<in>candidates. (p, t) = with_type i \<and> (\<forall>j\<in>candidates. square_distance p center \<le> square_distance (poi_pos j) center)"
    using i by blast
qed

section \<open>Taking a ticket\<close>

lemma poi_take_effect:
  assumes "storage_ok st" "near_heights st" "near center" "0 \<le> radius" "radius \<le> 2 ^ 28"
    and taken: "poi_take r P F center radius st = (found, st')"
  shows "found = None \<longleftrightarrow> (\<forall>i. in_sphere r P center radius FreePoi st i \<longrightarrow> \<not> F (poi_type i) (poi_pos i))"
    "found = None \<Longrightarrow> st' = st"
    "found = Some p \<Longrightarrow> storage_ok st' \<and> (\<exists>i. poi_get p st = Some i \<and> 0 < free_tickets i \<and> in_sphere r P center radius FreePoi st i \<and> F (poi_type i) p \<and>
       poi_get p st' = Some (i\<lparr>free_tickets := free_tickets i - 1\<rparr>)) \<and> (\<forall>q. q \<noteq> p \<longrightarrow> poi_get q st' = poi_get q st)"
proof -
  let ?xs = "visit_in_range r P center radius FreePoi st"
  have first: "poi_take r P F center radius st = (case List.find (\<lambda>i. F (poi_type i) (poi_pos i)) ?xs of None \<Rightarrow> (None, st)
      | Some i \<Rightarrow> (Some (poi_pos i), snd (reserve_ticket (poi_pos i) st)))"
    by (simp add: poi_take_def fold_find split: option.splits)
  have members: "i \<in> set ?xs \<longleftrightarrow> in_sphere r P center radius FreePoi st i" for i
    by (rule visit_in_range_iff [OF assms(1-5)])
  show "found = None \<longleftrightarrow> (\<forall>i. in_sphere r P center radius FreePoi st i \<longrightarrow> \<not> F (poi_type i) (poi_pos i))"
    using taken unfolding first by (auto simp: members [symmetric] find_None_iff dest: find_Some split: option.splits)
  show "found = None \<Longrightarrow> st' = st"
    using taken unfolding first by (auto split: option.splits)
  assume "found = Some p"
  then obtain i where i: "List.find (\<lambda>i. F (poi_type i) (poi_pos i)) ?xs = Some i" "p = poi_pos i" "st' = snd (reserve_ticket (poi_pos i) st)"
    using taken unfolding first by (auto split: option.splits)
  have sphere: "in_sphere r P center radius FreePoi st i" "F (poi_type i) (poi_pos i)"
    using find_Some [OF i(1)] members [of i] by simp_all
  have at: "poi_get (poi_pos i) st = Some i" "0 < free_tickets i"
    using sphere(1) unfolding in_sphere_def wanted_def status_matches_def poi_has_space_def by simp_all
  have "poi_get p st' = Some (i\<lparr>free_tickets := free_tickets i - 1\<rparr>)"
    using at by (simp add: i(2,3) reserve_ticket_effect(2) [OF assms(1)] poi_reserve_def)
  moreover have "poi_get q st' = poi_get q st" if "q \<noteq> p" for q
    using that by (simp add: i(2,3) reserve_ticket_effect(2) [OF assms(1)])
  ultimately show "storage_ok st' \<and> (\<exists>i. poi_get p st = Some i \<and> 0 < free_tickets i \<and> in_sphere r P center radius FreePoi st i \<and> F (poi_type i) p \<and>
       poi_get p st' = Some (i\<lparr>free_tickets := free_tickets i - 1\<rparr>)) \<and> (\<forall>q. q \<noteq> p \<longrightarrow> poi_get q st' = poi_get q st)"
    using sphere at i(2,3) reserve_ticket_effect(1) [OF assms(1)] by blast
qed

section \<open>A random point\<close>

text \<open>The shuffle permutes what it is given as long as the generator keeps below its bounds.\<close>

lemma shuffle_swap_mset: "\<lbrakk>i < length xs; j < length xs\<rbrakk> \<Longrightarrow> mset (shuffle_swap i j xs) = mset xs"
  unfolding shuffle_swap_def by (rule mset_swap)

lemma vanilla_shuffle_mset:
  assumes "\<And>n s. 0 < n \<Longrightarrow> fst (random_range n s) < n"
  shows "mset (fst (vanilla_shuffle random_range items rng)) = mset items"
proof -
  let ?step = "\<lambda>i (items, rng). let (swap_to, rng) = random_range i rng in (shuffle_swap (i - 1) swap_to items, rng)"
  have steps: "mset (fst (fold ?step is (xs, s))) = mset xs" if "\<forall>i\<in>set is. 0 < i \<and> i \<le> length xs" for "is" and xs :: "'b list" and s
    using that
  proof (induction "is" arbitrary: xs s)
    case (Cons i "is")
    obtain k s' where k: "random_range i s = (k, s')"
      by fastforce
    then have "k < i"
      using assms [of i s] Cons.prems by simp
    then have "i - 1 < length xs" "k < length xs"
      using Cons.prems by auto
    then have swapped: "mset (shuffle_swap (i - 1) k xs) = mset xs"
      by (rule shuffle_swap_mset)
    moreover have "length (shuffle_swap (i - 1) k xs) = length xs"
      by (simp add: shuffle_swap_def)
    ultimately show ?case
      using Cons.IH [of "shuffle_swap (i - 1) k xs" s'] Cons.prems k by simp
  qed simp
  show ?thesis
    unfolding vanilla_shuffle_def by (rule steps) auto
qed

lemma get_random_effect:
  assumes "\<And>n s. 0 < n \<Longrightarrow> fst (random_range n s) < n"
  shows "case fst (get_random r P F status center radius random_range rng st) of
      None \<Rightarrow> \<forall>(p, t) \<in> set (get_in_range r P center radius status st). \<not> F p
    | Some p \<Rightarrow> F p \<and> p \<in> fst ` set (get_in_range r P center radius status st)"
proof -
  let ?shuffled = "fst (vanilla_shuffle random_range (get_in_range r P center radius status st) rng)"
  have "set ?shuffled = set (get_in_range r P center radius status st)"
    by (rule mset_eq_setD) (rule vanilla_shuffle_mset [OF assms])
  moreover have "fst (get_random r P F status center radius random_range rng st) = List.find F (map fst ?shuffled)"
    by (simp add: get_random_def split_beta)
  ultimately show ?thesis
    using find_Some [of F "map fst ?shuffled"] find_None_iff [of F "map fst ?shuffled"] by (fastforce split: option.splits)
qed

section \<open>The distance to a village\<close>

text \<open>A set that the scan has not changed is a village center when one of its points is.\<close>

definition village_point :: "poi_registry \<Rightarrow> point_of_interest \<Rightarrow> bool" where
  "village_point r i \<longleftrightarrow> is_village_type r (poi_type i) \<and> poi_is_occupied (max_tickets_for r (poi_type i)) i"

lemma is_village_center_iff:
  assumes "set_ok s"
  shows "is_village_center r s \<longleftrightarrow> (\<exists>packed i. set_get packed s = Some i \<and> village_point r i)"
proof -
  have "is_village_center r s \<longleftrightarrow> (\<exists>i. i \<in> set (set_get_matching (is_village_type r) OccupiedPoi (max_tickets_for r) s))"
    unfolding is_village_center_def by (metis last_in_set list.set_cases list.distinct(1))
  then show ?thesis
    unfolding set_get_matching_iff [OF assms] wanted_def village_point_def status_matches_def by auto
qed

definition village_sections :: "poi_registry \<Rightarrow> poi_storage \<Rightarrow> section_pos set" where
  "village_sections r st = {section_of_block p | p i. poi_get p st = Some i \<and> village_point r i}"

definition section_distance :: "section_pos \<Rightarrow> section_pos \<Rightarrow> int" where
  "section_distance a b = max (max \<bar>sint (sx a) - sint (sx b)\<bar> \<bar>sint (sz a) - sint (sz b)\<bar>) \<bar>sint (sy a) - sint (sy b)\<bar>"

text \<open>A loop that lowers a bound to each value of some set below it ends with the least of them.\<close>

lemma fold_least:
  assumes "\<And>x b. x \<in> set xs \<Longrightarrow> (\<forall>d\<in>D x. f x b \<le> d) \<and> f x b \<le> (b :: int) \<and> (f x b = b \<or> f x b \<in> D x)"
  shows "(\<forall>x\<in>set xs. \<forall>d\<in>D x. fold f xs b \<le> d) \<and> fold f xs b \<le> b \<and> (fold f xs b = b \<or> (\<exists>x\<in>set xs. fold f xs b \<in> D x))"
  using assms
proof (induction xs arbitrary: b)
  case (Cons x xs)
  have "(\<forall>d\<in>D x. f x b \<le> d) \<and> f x b \<le> b \<and> (f x b = b \<or> f x b \<in> D x)"
    by (rule Cons.prems) simp
  moreover have "(\<forall>y\<in>set xs. \<forall>d\<in>D y. fold f xs (f x b) \<le> d) \<and> fold f xs (f x b) \<le> f x b \<and>
      (fold f xs (f x b) = f x b \<or> (\<exists>y\<in>set xs. fold f xs (f x b) \<in> D y))"
    by (rule Cons.IH, rule Cons.prems) simp
  ultimately show ?case
    by (auto intro: order_trans)
qed simp

lemma village_in_column_least:
  fixes r h sec
  defines "D \<equiv> \<lambda>(y, s). if is_village_center r s then {max h (wrap_i32 \<bar>sint (y - sy sec)\<bar>)} else {}"
  shows "(\<forall>e\<in>set col. \<forall>d\<in>D e. village_in_column r sec h col b \<le> d) \<and> village_in_column r sec h col b \<le> b \<and>
    (village_in_column r sec h col b = b \<or> (\<exists>e\<in>set col. village_in_column r sec h col b \<in> D e))"
  unfolding village_in_column_def by (rule fold_least) (auto simp: D_def Let_def split: prod.splits)

text \<open>The distances that the loops compute, of the sections of a column.\<close>

definition column_distances :: "poi_registry \<Rightarrow> section_pos \<Rightarrow> poi_storage \<Rightarrow> i32w \<Rightarrow> i32w \<Rightarrow> int set" where
  "column_distances r sec st x z =
     {max (max (wrap_i32 \<bar>sint (x - sx sec)\<bar>) (wrap_i32 \<bar>sint (z - sz sec)\<bar>)) (wrap_i32 \<bar>sint (y - sy sec)\<bar>) |
      y s. set_of \<lparr>cx = x, cz = z\<rparr> y st = Some s \<and> is_village_center r s}"

definition column_step :: "poi_registry \<Rightarrow> section_pos \<Rightarrow> poi_storage \<Rightarrow> i32w \<Rightarrow> i32w \<Rightarrow> int \<Rightarrow> int" where
  "column_step r sec st x z b =
     (let h = max (wrap_i32 \<bar>sint (x - sx sec)\<bar>) (wrap_i32 \<bar>sint (z - sz sec)\<bar>) in
      if b \<le> h then b
      else (case map_of st \<lparr>cx = x, cz = z\<rparr> of None \<Rightarrow> b | Some col \<Rightarrow> village_in_column r sec h col b))"

lemma column_step_least:
  fixes r sec st x z b
  assumes "storage_ok st"
  defines "b' \<equiv> column_step r sec st x z b"
  shows "(\<forall>d\<in>column_distances r sec st x z. b' \<le> d) \<and> b' \<le> b \<and> (b' = b \<or> b' \<in> column_distances r sec st x z)"
proof -
  define h where "h = max (wrap_i32 \<bar>sint (x - sx sec)\<bar>) (wrap_i32 \<bar>sint (z - sz sec)\<bar>)"
  have step: "b' = (if b \<le> h then b
     else (case map_of st \<lparr>cx = x, cz = z\<rparr> of None \<Rightarrow> b | Some col \<Rightarrow> village_in_column r sec h col b))"
    unfolding b'_def column_step_def h_def Let_def by (rule refl)
  show ?thesis
  proof (cases "b \<le> h")
    case True
    then show ?thesis
      by (auto simp: step column_distances_def h_def)
  next
    case False
    show ?thesis
    proof (cases "map_of st \<lparr>cx = x, cz = z\<rparr>")
      case None
      then show ?thesis
        by (auto simp: step column_distances_def set_of_def)
    next
      case (Some col)
      have "distinct (map fst col)"
        using assms(1) Some by (simp add: storage_ok_def del: map_of_eq_Some_iff)
      then have "set_of \<lparr>cx = x, cz = z\<rparr> y st = Some s \<longleftrightarrow> (y, s) \<in> set col" for y s
        using Some by (simp add: set_of_def)
      then have distances: "column_distances r sec st x z =
          {max h (wrap_i32 \<bar>sint (y - sy sec)\<bar>) | y s. (y, s) \<in> set col \<and> is_village_center r s}"
        by (simp add: column_distances_def h_def)
      have "b' = village_in_column r sec h col b"
        using Some False by (simp add: step)
      then show ?thesis
        using village_in_column_least [of col r h sec b] unfolding distances by (fastforce split: if_splits)
    qed
  qed
qed

lemma sections_to_village_least:
  fixes r sec st
  assumes "storage_ok st"
  defines "xs \<equiv> i32_range (sx sec - word_of_int MAX_VILLAGE_DISTANCE) (sx sec + word_of_int MAX_VILLAGE_DISTANCE)"
    and "zs \<equiv> i32_range (sz sec - word_of_int MAX_VILLAGE_DISTANCE) (sz sec + word_of_int MAX_VILLAGE_DISTANCE)"
  defines "d \<equiv> sections_to_village r sec st"
  shows "(\<forall>x\<in>set xs. \<forall>z\<in>set zs. \<forall>e\<in>column_distances r sec st x z. d \<le> e) \<and> d \<le> 7 \<and>
    (d = 7 \<or> (\<exists>x\<in>set xs. \<exists>z\<in>set zs. d \<in> column_distances r sec st x z))"
proof -
  define D where "D = (\<lambda>x. \<Union>z\<in>set zs. column_distances r sec st x z)"
  have loops: "d = fold (\<lambda>x. fold (column_step r sec st x) zs) xs NO_VILLAGE_DISTANCE"
    unfolding d_def sections_to_village_def column_step_def Let_def xs_def zs_def by (rule refl)
  have row: "(\<forall>z\<in>set zs. \<forall>e\<in>column_distances r sec st x z. fold (column_step r sec st x) zs b \<le> e) \<and>
      fold (column_step r sec st x) zs b \<le> b \<and>
      (fold (column_step r sec st x) zs b = b \<or> (\<exists>z\<in>set zs. fold (column_step r sec st x) zs b \<in> column_distances r sec st x z))" for x b
    by (rule fold_least) (rule column_step_least [OF assms(1)])
  have "(\<forall>x\<in>set xs. \<forall>e\<in>D x. d \<le> e) \<and> d \<le> NO_VILLAGE_DISTANCE \<and> (d = NO_VILLAGE_DISTANCE \<or> (\<exists>x\<in>set xs. d \<in> D x))"
    unfolding loops
  proof (rule fold_least)
    show "(\<forall>e\<in>D x. fold (column_step r sec st x) zs b \<le> e) \<and> fold (column_step r sec st x) zs b \<le> b \<and>
        (fold (column_step r sec st x) zs b = b \<or> fold (column_step r sec st x) zs b \<in> D x)" for x b
      using row [of x b] unfolding D_def by blast
  qed
  then show ?thesis
    by (simp add: D_def NO_VILLAGE_DISTANCE_def MAX_VILLAGE_DISTANCE_def)
qed

definition near_section :: "section_pos \<Rightarrow> bool" where
  "near_section sp \<longleftrightarrow> \<bar>sint (sx sp)\<bar> \<le> 2 ^ 24 \<and> \<bar>sint (sy sp)\<bar> \<le> 2 ^ 24 \<and> \<bar>sint (sz sp)\<bar> \<le> 2 ^ 24"

lemma village_section_iff:
  assumes "storage_ok st"
  shows "(\<exists>s. set_of \<lparr>cx = x, cz = z\<rparr> y st = Some s \<and> is_village_center r s) \<longleftrightarrow> \<lparr>sx = x, sy = y, sz = z\<rparr> \<in> village_sections r st"
proof
  assume "\<exists>s. set_of \<lparr>cx = x, cz = z\<rparr> y st = Some s \<and> is_village_center r s"
  then obtain s packed i where s: "set_of \<lparr>cx = x, cz = z\<rparr> y st = Some s" "set_get packed s = Some i" "village_point r i"
    using is_village_center_iff [OF storage_ok_set [OF assms]] by blast
  then have p: "resolve_pos (poi_pos i) = (\<lparr>cx = x, cz = z\<rparr>, y, packed)"
    using storage_ok_at [OF assms] by blast
  then have "section_of_block (poi_pos i) = \<lparr>sx = x, sy = y, sz = z\<rparr>"
    by (simp add: resolve_pos_def Let_def)
  moreover have "poi_get (poi_pos i) st = Some i"
    using s by (simp add: poi_get_at [OF p])
  ultimately show "\<lparr>sx = x, sy = y, sz = z\<rparr> \<in> village_sections r st"
    using s(3) unfolding village_sections_def mem_Collect_eq by metis
next
  assume "\<lparr>sx = x, sy = y, sz = z\<rparr> \<in> village_sections r st"
  then obtain p i where p: "section_of_block p = \<lparr>sx = x, sy = y, sz = z\<rparr>" "poi_get p st = Some i" "village_point r i"
    unfolding village_sections_def mem_Collect_eq by metis
  then have at: "resolve_pos p = (\<lparr>cx = x, cz = z\<rparr>, y, section_block_of_block p)"
    by (simp add: resolve_pos_def Let_def)
  then obtain s where s: "set_of \<lparr>cx = x, cz = z\<rparr> y st = Some s" "set_get (section_block_of_block p) s = Some i"
    using p(2) by (auto simp: poi_get_at [OF at] split: bind_splits)
  then have "is_village_center r s"
    using is_village_center_iff [OF storage_ok_set [OF assms s(1)]] p(3) by blast
  then show "\<exists>s. set_of \<lparr>cx = x, cz = z\<rparr> y st = Some s \<and> is_village_center r s"
    using s(1) by blast
qed

lemma village_section_height:
  assumes "near_heights st" "sp \<in> village_sections r st"
  shows "\<bar>sint (sy sp)\<bar> \<le> 2 ^ 24"
proof -
  obtain p i where p: "sp = section_of_block p" "poi_get p st = Some i"
    using assms(2) unfolding village_sections_def mem_Collect_eq by metis
  then have "\<bar>sint (bY p)\<bar> \<le> 2 ^ 28"
    using assms(1) by (auto simp: near_heights_def)
  then show ?thesis
    by (simp add: p(1) section_of_block_def sint_section_coord)
qed

lemma village_range:
  assumes "\<bar>sint b\<bar> \<le> 2 ^ 24"
  shows "x \<in> set (i32_range (b - word_of_int MAX_VILLAGE_DISTANCE) (b + word_of_int MAX_VILLAGE_DISTANCE)) \<longleftrightarrow> \<bar>sint x - sint b\<bar> \<le> 6"
proof -
  have "sint (word_of_int MAX_VILLAGE_DISTANCE :: i32w) = 6"
    unfolding MAX_VILLAGE_DISTANCE_def by (rule sint_word_of_int_eq) simp_all
  then have "sint (b - word_of_int MAX_VILLAGE_DISTANCE) = sint b - 6" "sint (b + word_of_int MAX_VILLAGE_DISTANCE) = sint b + 6"
    using assms by (simp_all add: sint_sub sint_add)
  then show ?thesis
    by (auto simp: i32_range_iff)
qed

lemma wrap_difference: "\<bar>sint (a :: i32w) - sint b\<bar> < 2 ^ 31 \<Longrightarrow> wrap_i32 \<bar>sint (a - b)\<bar> = \<bar>sint a - sint b\<bar>"
  by (simp add: sint_sub in_i32_def)

lemma column_distances_eq:
  assumes "storage_ok st" "near_heights st" "near_section sec" "\<bar>sint x - sint (sx sec)\<bar> \<le> 6" "\<bar>sint z - sint (sz sec)\<bar> \<le> 6"
  shows "column_distances r sec st x z = (\<lambda>sp. section_distance sp sec) ` {sp \<in> village_sections r st. sx sp = x \<and> sz sp = z}"
proof -
  have height: "wrap_i32 \<bar>sint (y - sy sec)\<bar> = \<bar>sint y - sint (sy sec)\<bar>" if "\<lparr>sx = x, sy = y, sz = z\<rparr> \<in> village_sections r st" for y
  proof (rule wrap_difference)
    have "\<bar>sint y\<bar> \<le> 2 ^ 24" "\<bar>sint (sy sec)\<bar> \<le> 2 ^ 24"
      using village_section_height [OF assms(2) that] assms(3) by (simp_all add: near_section_def)
    then show "\<bar>sint y - sint (sy sec)\<bar> < 2 ^ 31"
      by simp
  qed
  have flat: "wrap_i32 \<bar>sint (x - sx sec)\<bar> = \<bar>sint x - sint (sx sec)\<bar>" "wrap_i32 \<bar>sint (z - sz sec)\<bar> = \<bar>sint z - sint (sz sec)\<bar>"
    using assms(4,5) by (intro wrap_difference; simp)+
  have distance: "max (max (wrap_i32 \<bar>sint (x - sx sec)\<bar>) (wrap_i32 \<bar>sint (z - sz sec)\<bar>)) (wrap_i32 \<bar>sint (y - sy sec)\<bar>) =
      section_distance \<lparr>sx = x, sy = y, sz = z\<rparr> sec" if "\<lparr>sx = x, sy = y, sz = z\<rparr> \<in> village_sections r st" for y
    using height [OF that] by (simp add: section_distance_def flat)
  have "column_distances r sec st x z =
      {max (max (wrap_i32 \<bar>sint (x - sx sec)\<bar>) (wrap_i32 \<bar>sint (z - sz sec)\<bar>)) (wrap_i32 \<bar>sint (y - sy sec)\<bar>) |
        y. \<lparr>sx = x, sy = y, sz = z\<rparr> \<in> village_sections r st}"
    unfolding column_distances_def village_section_iff [OF assms(1), symmetric] by blast
  also have "\<dots> = {section_distance \<lparr>sx = x, sy = y, sz = z\<rparr> sec | y. \<lparr>sx = x, sy = y, sz = z\<rparr> \<in> village_sections r st}"
    using distance by (metis (no_types, lifting))
  also have "\<dots> = (\<lambda>sp. section_distance sp sec) ` {sp \<in> village_sections r st. sx sp = x \<and> sz sp = z}"
  proof -
    have "sp = \<lparr>sx = x, sy = sy sp, sz = z\<rparr>" if "sx sp = x" "sz sp = z" for sp :: section_pos
      using that by simp
    then have "{sp \<in> village_sections r st. sx sp = x \<and> sz sp = z} =
        (\<lambda>y. \<lparr>sx = x, sy = y, sz = z\<rparr>) ` {y. \<lparr>sx = x, sy = y, sz = z\<rparr> \<in> village_sections r st}"
    proof (intro equalityI subsetI)
      fix sp
      assume eq: "\<And>sp. \<lbrakk>sx sp = x; sz sp = z\<rbrakk> \<Longrightarrow> sp = \<lparr>sx = x, sy = sy sp, sz = z\<rparr>"
        and sp: "sp \<in> {sp \<in> village_sections r st. sx sp = x \<and> sz sp = z}"
      then have same: "sp = \<lparr>sx = x, sy = sy sp, sz = z\<rparr>" and "sp \<in> village_sections r st"
        by blast+
      then have "\<lparr>sx = x, sy = sy sp, sz = z\<rparr> \<in> village_sections r st"
        by (rule subst)
      then show "sp \<in> (\<lambda>y. \<lparr>sx = x, sy = y, sz = z\<rparr>) ` {y. \<lparr>sx = x, sy = y, sz = z\<rparr> \<in> village_sections r st}"
        by (rule image_eqI [of _ _ "sy sp", rotated, OF CollectI]) (rule same)
    qed auto
    then have "(\<lambda>sp. section_distance sp sec) ` {sp \<in> village_sections r st. sx sp = x \<and> sz sp = z} =
        (\<lambda>y. section_distance \<lparr>sx = x, sy = y, sz = z\<rparr> sec) ` {y. \<lparr>sx = x, sy = y, sz = z\<rparr> \<in> village_sections r st}"
      by (simp only: image_image)
    then show ?thesis
      by blast
  qed
  finally show ?thesis .
qed

lemma finite_village_sections: "finite (village_sections r st)"
proof -
  have "village_sections r st \<subseteq> (\<lambda>(c, y). \<lparr>sx = cx c, sy = y, sz = cz c\<rparr>) ` (\<Union>(c, col) \<in> set st. Pair c ` fst ` set col)"
  proof
    fix sp
    assume "sp \<in> village_sections r st"
    then obtain p i where p: "sp = section_of_block p" "poi_get p st = Some i"
      unfolding village_sections_def mem_Collect_eq by metis
    then obtain s where "set_of \<lparr>cx = sx sp, cz = sz sp\<rparr> (sy sp) st = Some s"
      by (auto simp: poi_get_def resolve_pos_def Let_def split: bind_splits)
    then obtain col where col: "map_of st \<lparr>cx = sx sp, cz = sz sp\<rparr> = Some col" "map_of col (sy sp) = Some s"
      by (auto simp: set_of_def simp del: map_of_eq_Some_iff split: option.splits)
    then have "(\<lparr>cx = sx sp, cz = sz sp\<rparr>, sy sp) \<in> (\<Union>(c, col) \<in> set st. Pair c ` fst ` set col)"
      using map_of_SomeD [OF col(1)] map_of_SomeD [OF col(2)] by force
    then show "sp \<in> (\<lambda>(c, y). \<lparr>sx = cx c, sy = y, sz = cz c\<rparr>) ` (\<Union>(c, col) \<in> set st. Pair c ` fst ` set col)"
      by (rule rev_image_eqI) simp
  qed
  then show ?thesis
    by (rule finite_subset) (intro finite_imageI finite_UN_I finite_set; simp add: split_beta)
qed

lemma sections_to_village_min:
  assumes "storage_ok st" "near_heights st" "near_section sec"
  shows "sections_to_village r sec st = Min (insert 7 ((\<lambda>sp. section_distance sp sec) ` village_sections r st))"
proof -
  let ?d = "sections_to_village r sec st"
  have ranges: "x \<in> set (i32_range (sx sec - word_of_int MAX_VILLAGE_DISTANCE) (sx sec + word_of_int MAX_VILLAGE_DISTANCE)) \<longleftrightarrow> \<bar>sint x - sint (sx sec)\<bar> \<le> 6"
      "x \<in> set (i32_range (sz sec - word_of_int MAX_VILLAGE_DISTANCE) (sz sec + word_of_int MAX_VILLAGE_DISTANCE)) \<longleftrightarrow> \<bar>sint x - sint (sz sec)\<bar> \<le> 6" for x
    using assms(3) village_range by (simp_all add: near_section_def)
  note least = sections_to_village_least [OF assms(1), of sec r, unfolded Ball_def Bex_def ranges]
  have lower: "?d \<le> section_distance sp sec" if sp: "sp \<in> village_sections r st" for sp
  proof (cases "\<bar>sint (sx sp) - sint (sx sec)\<bar> \<le> 6 \<and> \<bar>sint (sz sp) - sint (sz sec)\<bar> \<le> 6")
    case True
    then have "section_distance sp sec \<in> column_distances r sec st (sx sp) (sz sp)"
      using sp by (auto simp: column_distances_eq [OF assms])
    then show ?thesis
      using least True by blast
  next
    case False
    then have "7 \<le> section_distance sp sec"
      by (auto simp: section_distance_def)
    then show ?thesis
      using least by linarith
  qed
  have attained: "?d = 7 \<or> (\<exists>sp\<in>village_sections r st. ?d = section_distance sp sec)"
  proof (rule ccontr)
    assume no: "\<not> ?thesis"
    then obtain x z where xz: "\<bar>sint x - sint (sx sec)\<bar> \<le> 6" "\<bar>sint z - sint (sz sec)\<bar> \<le> 6" "?d \<in> column_distances r sec st x z"
      using least by blast
    show False
      using xz(3) no unfolding column_distances_eq [OF assms xz(1,2)] by blast
  qed
  show ?thesis
  proof (rule sym, rule Min_eqI)
    show "finite (insert 7 ((\<lambda>sp. section_distance sp sec) ` village_sections r st))"
      by (simp add: finite_village_sections)
    show "?d \<le> e" if "e \<in> insert 7 ((\<lambda>sp. section_distance sp sec) ` village_sections r st)" for e
      using that lower least by auto
    show "?d \<in> insert 7 ((\<lambda>sp. section_distance sp sec) ` village_sections r st)"
      using attained by auto
  qed
qed

end
