(* ===== verification/PoiClaims.thy ===== *)
theory PoiClaims
  imports PoiBlocks PoiQuery
begin

text \<open>
  The properties of points of interest, over the worlds that loading, unloading, block changes and tickets reach, and a
  village of one bed and one bell to apply them to.
\<close>

section \<open>A village\<close>

text \<open>Type 0 is the bed with one ticket, state 1; type 1 the bell with two, state 2.\<close>

definition village_registry :: poi_registry where
  "village_registry = \<lparr>type_of_state = (\<lambda>s. if s = 1 then Some 0 else if s = 2 then Some 1 else None),
     ticket_count = (\<lambda>t. if t = 0 then Some 1 else if t = 1 then Some 2 else None), village_tag = (\<lambda>_. True)\<rparr>"

definition bed :: block_pos where "bed = mk_block_pos 3 5 7"
definition bell :: block_pos where "bell = mk_block_pos 9 5 7"
definition square :: section_pos where "square = \<lparr>sx = 0, sy = 0, sz = 0\<rparr>"

definition village_blocks :: "block_pos \<Rightarrow> nat" where
  "village_blocks p = (if p = bed then 1 else if p = bell then 2 else 0)"

lemma village_registry_consistent: "registry_consistent village_registry"
  by (simp add: registry_consistent_def village_registry_def)

lemma village_sections: "section_of_block bed = square" "section_of_block bell = square" "chunk_of_block bed = \<lparr>cx = 0, cz = 0\<rparr>" "bed \<noteq> bell" "bell \<noteq> bed"
  by (simp_all add: section_of_block_def chunk_of_block_def bed_def bell_def square_def mk_block_pos_def block_to_section_coord_def)

lemma village_states: "type_of_state village_registry (village_blocks p) = (if p = bed then Some 0 else if p = bell then Some 1 else None)"
  by (simp add: village_registry_def village_blocks_def)

text \<open>The points after the load of the section, and after a villager took the bed's ticket.\<close>

definition village_points :: "nat \<Rightarrow> block_pos \<Rightarrow> point_of_interest option" where
  "village_points n p = (if p = bed then Some (poi_new bed 0 n) else if p = bell then Some (poi_new bell 1 2) else None)"

abbreviation village_world :: "poi_storage \<Rightarrow> poi_world" where
  "village_world st \<equiv> \<lparr>pw_storage = st, pw_blocks = village_blocks, pw_loaded = {square}\<rparr>"

lemma village_loads:
  obtains st where "poi_reachable village_registry (village_world st)" "\<And>p. poi_get p st = village_points 1 p"
proof -
  let ?w = "\<lparr>pw_storage = [], pw_blocks = village_blocks, pw_loaded = {}\<rparr>"
  let ?states = "\<lambda>xyz. pw_blocks ?w (scan_block_pos square xyz)"
  have start: "poi_reachable village_registry ?w"
    by (rule poi_reachable.start)
  have empty: "poi_get p [] = None" for p
    by (simp add: poi_get_split set_of_def)
  obtain st where st: "scan_and_populate village_registry ?states square (pw_storage ?w) = Some st"
    "\<And>p. poi_get p st = (if section_of_block p = square then fresh_poi village_registry p (?states (local_of_block p)) else None)"
    using scan_and_populate_effect [OF storage_ok_empty village_registry_consistent, of ?states bed] by (auto simp: village_sections empty)
  have own: "?states (local_of_block p) = village_blocks p" if "section_of_block p = square" for p
    using scan_block_pos_local [of p] that by simp
  have fresh: "fresh_poi village_registry p (village_blocks p) = village_points 1 p" for p
    unfolding fresh_poi_def village_states village_points_def by (simp add: max_tickets_for_def village_registry_def)
  have "poi_get p st = village_points 1 p" for p
    using own [of p] fresh [of p] village_sections by (auto simp: st(2) village_points_def)
  moreover have "poi_reachable village_registry (?w\<lparr>pw_storage := st, pw_loaded := insert square (pw_loaded ?w)\<rparr>)"
    by (rule poi_reachable.load [OF start village_sections(1) [symmetric] _ st(1)]) simp
  ultimately show ?thesis
    using that by simp
qed

lemma village_settled:
  obtains st where "poi_reachable village_registry (village_world st)" "\<And>p. poi_get p st = village_points 0 p"
proof -
  obtain st where st: "poi_reachable village_registry (village_world st)" "\<And>p. poi_get p st = village_points 1 p"
    using village_loads by blast
  have "storage_ok st"
    using poi_reachable_inv [OF village_registry_consistent st(1)] by (simp add: poi_inv_def)
  then have "poi_get p (snd (reserve_ticket bed st)) = village_points 0 p" for p
    by (simp add: reserve_ticket_effect(2) st(2) village_points_def poi_reserve_def poi_new_def)
  moreover have "poi_reachable village_registry ((village_world st)\<lparr>pw_storage := snd (reserve_ticket bed (pw_storage (village_world st)))\<rparr>)"
    by (rule poi_reachable.reserve [OF st(1)])
  ultimately show ?thesis
    using that by simp
qed

section \<open>Points follow the blocks\<close>

text \<open>C15: In every world that loading and unloading, block changes and tickets reach there is a point exactly at the
  blocks of loaded sections whose state the registry gives a type, of that type and with no more free tickets than
  the type has; the index by type answers like a walk through all points, and neither the load of a
  section nor the change of a block can panic.\<close>

theorem points_follow_the_blocks:
  assumes "registry_consistent r" "poi_reachable r w"
  shows "get_type p (pw_storage w) = (if section_of_block p \<in> pw_loaded w then type_of_state r (pw_blocks w p) else None) \<and>
    (poi_get p (pw_storage w) = Some i \<longrightarrow> poi_pos i = p \<and> free_tickets i \<le> max_tickets_for r (poi_type i)) \<and>
    (set_of c y (pw_storage w) = Some s \<longrightarrow> set_get_by_type t status n s = set_get_matching (\<lambda>u. u = t) status (\<lambda>_. n) s) \<and>
    scan_and_populate r states (section_of_block q) (pw_storage w) \<noteq> None \<and>
    (section_of_block p \<in> pw_loaded w \<longrightarrow> on_block_state_change r p (pw_blocks w p) state (pw_storage w) \<noteq> None)"
proof -
  note inv = poi_reachable_inv [OF assms]
  then have ok: "storage_ok (pw_storage w)"
    by (simp add: poi_inv_def)
  have "scan_and_populate r states (section_of_block q) (pw_storage w) \<noteq> None"
    using scan_and_populate_effect [OF ok assms(1), of states q] by auto
  moreover have "on_block_state_change r p (pw_blocks w p) state (pw_storage w) \<noteq> None" if "section_of_block p \<in> pw_loaded w"
    using inv_change [OF inv assms(1) that, of state] by auto
  ultimately show ?thesis
    using inv poi_get_pos [OF ok] set_get_by_type_matching storage_ok_set [OF ok] by (auto simp: poi_inv_def)
qed

lemma points_follow_the_blocks_witness:
  "\<exists>st. poi_reachable village_registry \<lparr>pw_storage = st, pw_blocks = village_blocks, pw_loaded = {square}\<rparr> \<and>
     get_type bed st = Some 0 \<and> get_type bell st = Some 1"
proof -
  obtain st where st: "poi_reachable village_registry (village_world st)"
    using village_loads by blast
  have "get_type p st = (if section_of_block p = square then type_of_state village_registry (village_blocks p) else None)" for p
    using points_follow_the_blocks [OF village_registry_consistent st, THEN conjunct1] by simp
  then show ?thesis
    using st by (intro exI [of _ st]) (simp add: village_sections village_states)
qed

section \<open>Queries\<close>

lemma poi_reachable_ok: "\<lbrakk>registry_consistent r; poi_reachable r w\<rbrakk> \<Longrightarrow> storage_ok (pw_storage w)"
  using poi_reachable_inv by (simp add: poi_inv_def)

definition near_sections :: "section_pos set \<Rightarrow> bool" where
  "near_sections sps \<longleftrightarrow> (\<forall>sp\<in>sps. \<bar>sint (sy sp)\<bar> < 2 ^ 24)"

lemma reachable_heights:
  assumes "registry_consistent r" "poi_reachable r w" "near_sections (pw_loaded w)"
  shows "near_heights (pw_storage w)"
  unfolding near_heights_def
proof (intro allI impI)
  fix p i
  assume "poi_get p (pw_storage w) = Some i"
  then have "section_of_block p \<in> pw_loaded w"
    using poi_reachable_inv [OF assms(1,2)] by (auto simp: poi_inv_def get_type_def split: if_splits)
  then have "\<bar>sint (bY p) div 16\<bar> < 2 ^ 24"
    using assms(3) by (auto simp: near_sections_def section_of_block_def sint_section_coord)
  then show "\<bar>sint (bY p)\<bar> \<le> 2 ^ 28"
    by simp
qed

text \<open>The blocks that a query of any type's points within a radius has to find.\<close>

definition poi_blocks :: "poi_registry \<Rightarrow> (nat \<Rightarrow> bool) \<Rightarrow> block_pos \<Rightarrow> int \<Rightarrow> poi_world \<Rightarrow> (block_pos \<times> nat) set" where
  "poi_blocks r P center radius w =
     {(p, t). section_of_block p \<in> pw_loaded w \<and> type_of_state r (pw_blocks w p) = Some t \<and> P t \<and> square_distance p center \<le> radius\<^sup>2}"

lemma sphere_blocks:
  assumes "registry_consistent r" "poi_reachable r w"
  shows "with_type ` {i. in_sphere r P center radius AnyPoi (pw_storage w) i} = poi_blocks r P center radius w" (is "with_type ` ?points = _")
    and "card {i. in_sphere r P center radius AnyPoi (pw_storage w) i} = card (poi_blocks r P center radius w)"
proof -
  let ?st = "pw_storage w"
  note ok = poi_reachable_ok [OF assms]
  have typed: "get_type p ?st = (if section_of_block p \<in> pw_loaded w then type_of_state r (pw_blocks w p) else None)" for p
    using poi_reachable_inv [OF assms] by (simp add: poi_inv_def)
  have sphere: "in_sphere r P center radius AnyPoi ?st i \<longleftrightarrow> poi_get (poi_pos i) ?st = Some i \<and> P (poi_type i) \<and> square_distance (poi_pos i) center \<le> radius\<^sup>2" for i
    by (auto simp: in_sphere_def wanted_def status_matches_def)
  have found: "(p, t) \<in> with_type ` ?points \<longleftrightarrow> get_type p ?st = Some t \<and> P t \<and> square_distance p center \<le> radius\<^sup>2" for p t
  proof
    assume "(p, t) \<in> with_type ` ?points"
    then obtain i where "p = poi_pos i" "t = poi_type i" "in_sphere r P center radius AnyPoi ?st i"
      by (auto simp: with_type_def)
    then show "get_type p ?st = Some t \<and> P t \<and> square_distance p center \<le> radius\<^sup>2"
      unfolding sphere get_type_def by simp
  next
    assume t: "get_type p ?st = Some t \<and> P t \<and> square_distance p center \<le> radius\<^sup>2"
    then obtain i where i: "poi_get p ?st = Some i" "poi_type i = t"
      by (auto simp: get_type_def)
    then have "in_sphere r P center radius AnyPoi ?st i" "with_type i = (p, t)"
      using poi_get_pos [OF ok i(1)] t by (simp_all add: sphere with_type_def)
    then show "(p, t) \<in> with_type ` ?points"
      by (metis image_eqI mem_Collect_eq)
  qed
  show blocks: "with_type ` ?points = poi_blocks r P center radius w"
  proof (rule set_eqI)
    show "e \<in> with_type ` ?points \<longleftrightarrow> e \<in> poi_blocks r P center radius w" for e
      by (cases e) (simp add: found typed poi_blocks_def)
  qed
  have "inj_on with_type ?points"
    by (rule inj_on_subset [OF with_type_inj [of ?st]]) (auto simp: sphere)
  then show "card ?points = card (poi_blocks r P center radius w)"
    unfolding blocks [symmetric] by (rule card_image [symmetric])
qed

text \<open>C16: A query around a position away from the ends of the coordinates finds, each once, exactly the blocks of loaded
  sections within the radius whose type is asked for; the count is their number, and the closest query gives one
  of them that no other is closer than, and nothing only when there is none.\<close>

theorem queries_find_the_blocks:
  fixes r w P center radius
  assumes "registry_consistent r" "poi_reachable r w" "near_sections (pw_loaded w)" "near center" "0 \<le> radius" "radius \<le> 2 ^ 28"
  defines "blocks \<equiv> poi_blocks r P center radius w"
  shows "distinct (get_in_range r P center radius AnyPoi (pw_storage w)) \<and> set (get_in_range r P center radius AnyPoi (pw_storage w)) = blocks \<and>
    poi_count r P center radius AnyPoi (pw_storage w) = card blocks \<and>
    (case find_closest_with_type r P F center radius AnyPoi (pw_storage w) of
       None \<Rightarrow> \<forall>(p, t) \<in> blocks. \<not> F p
     | Some (p, t) \<Rightarrow> (p, t) \<in> blocks \<and> F p \<and> (\<forall>(q, u) \<in> blocks. F q \<longrightarrow> square_distance p center \<le> square_distance q center))"
proof -
  let ?st = "pw_storage w"
  note points = poi_reachable_ok [OF assms(1,2)] reachable_heights [OF assms(1-3)] assms(4-6)
  note blocks = sphere_blocks [OF assms(1,2), of P center radius, folded blocks_def]
  note closest = find_closest_effect [OF points, of r P F AnyPoi]
  have "case find_closest_with_type r P F center radius AnyPoi ?st of
       None \<Rightarrow> \<forall>(p, t) \<in> blocks. \<not> F p
     | Some (p, t) \<Rightarrow> (p, t) \<in> blocks \<and> F p \<and> (\<forall>(q, u) \<in> blocks. F q \<longrightarrow> square_distance p center \<le> square_distance q center)"
  proof (cases "find_closest_with_type r P F center radius AnyPoi ?st")
    case None
    then have "{i. in_sphere r P center radius AnyPoi ?st i \<and> F (poi_pos i)} = {}"
      using closest(1) by blast
    then show ?thesis
      using None by (auto simp: blocks(1) [symmetric] with_type_def)
  next
    case (Some e)
    obtain p t where e: "e = (p, t)"
      by fastforce
    from closest(2) [OF Some [unfolded e]] show ?thesis
      using Some e by (auto simp: blocks(1) [symmetric] with_type_def)
  qed
  then show ?thesis
    using get_in_range_effect [OF points, of r P AnyPoi] blocks by simp
qed

lemma queries_find_the_blocks_witness:
  "\<exists>st. set (get_in_range village_registry (\<lambda>_. True) bed 6 AnyPoi st) = {(bed, 0), (bell, 1)} \<and>
     set (get_in_range village_registry (\<lambda>_. True) bed 5 AnyPoi st) = {(bed, 0)}"
proof -
  obtain st where st: "poi_reachable village_registry (village_world st)"
    using village_loads by blast
  have near: "near_sections {square}" "near bed"
    by (simp_all add: near_sections_def square_def near_def bed_def mk_block_pos_def)
  have distances: "square_distance bed bed = 0" "square_distance bell bed = 36"
    by (simp_all add: square_distance_def bed_def bell_def mk_block_pos_def)
  have found: "set (get_in_range village_registry (\<lambda>_. True) bed n AnyPoi st) =
      {(p, t). section_of_block p \<in> {square} \<and> type_of_state village_registry (village_blocks p) = Some t \<and> square_distance p bed \<le> n\<^sup>2}"
    if "0 \<le> n" "n \<le> 2 ^ 28" for n
    using queries_find_the_blocks [OF village_registry_consistent st, of bed n "\<lambda>_. True"] near that by (simp add: poi_blocks_def)
  have village: "type_of_state village_registry (village_blocks p) = Some t \<longleftrightarrow> p = bed \<and> t = 0 \<or> p = bell \<and> t = 1" for p t
    using village_sections(4) by (auto simp: village_states)
  have "set (get_in_range village_registry (\<lambda>_. True) bed 6 AnyPoi st) = {(bed, 0), (bell, 1)}"
    using distances village_sections by (auto simp: found village)
  moreover have "set (get_in_range village_registry (\<lambda>_. True) bed 5 AnyPoi st) = {(bed, 0)}"
    using distances village_sections by (auto simp: found village)
  ultimately show ?thesis
    by blast
qed

section \<open>Taking and saving tickets\<close>

text \<open>C17: A villager's search takes exactly one ticket: the position it returns is a point within the radius that the
  villager accepts and that had a free ticket, which has one ticket less afterwards while every other point
  keeps its own; it returns nothing, and changes nothing, only when there is no such point.\<close>

theorem take_claims_one_ticket:
  fixes r w P F center radius
  assumes "registry_consistent r" "poi_reachable r w" "near_sections (pw_loaded w)" "near center" "0 \<le> radius" "radius \<le> 2 ^ 28"
  defines "result \<equiv> poi_take r P F center radius (pw_storage w)"
  defines "free \<equiv> {p. \<exists>i. poi_get p (pw_storage w) = Some i \<and> 0 < free_tickets i \<and> P (poi_type i) \<and> F (poi_type i) p \<and>
    square_distance p center \<le> radius\<^sup>2}"
  shows "case fst result of
      None \<Rightarrow> free = {} \<and> snd result = pw_storage w
    | Some p \<Rightarrow> p \<in> free \<and> poi_reachable r (w\<lparr>pw_storage := snd result\<rparr>) \<and>
        (\<exists>i. poi_get p (pw_storage w) = Some i \<and> poi_get p (snd result) = Some (i\<lparr>free_tickets := free_tickets i - 1\<rparr>)) \<and>
        (\<forall>q. q \<noteq> p \<longrightarrow> poi_get q (snd result) = poi_get q (pw_storage w))"
proof -
  let ?st = "pw_storage w"
  note ok = poi_reachable_ok [OF assms(1,2)]
  note heights = reachable_heights [OF assms(1-3)]
  note effect = poi_take_effect [OF ok heights assms(4-6), of r P F "fst result" "snd result"]
  have result: "poi_take r P F center radius ?st = (fst result, snd result)"
    by (simp add: result_def)
  have free: "p \<in> free \<longleftrightarrow> (\<exists>i. in_sphere r P center radius FreePoi ?st i \<and> F (poi_type i) (poi_pos i) \<and> p = poi_pos i)" for p
  proof
    assume "p \<in> free"
    then obtain i where i: "poi_get p ?st = Some i" "0 < free_tickets i \<and> P (poi_type i) \<and> F (poi_type i) p \<and> square_distance p center \<le> radius\<^sup>2"
      unfolding free_def by blast
    show "\<exists>i. in_sphere r P center radius FreePoi ?st i \<and> F (poi_type i) (poi_pos i) \<and> p = poi_pos i"
      using i poi_get_pos [OF ok i(1)] by (intro exI [of _ i]) (simp add: in_sphere_def wanted_def status_matches_def poi_has_space_def)
  next
    assume "\<exists>i. in_sphere r P center radius FreePoi ?st i \<and> F (poi_type i) (poi_pos i) \<and> p = poi_pos i"
    then show "p \<in> free"
      unfolding free_def in_sphere_def wanted_def status_matches_def poi_has_space_def mem_Collect_eq occupation_status.case by blast
  qed
  show ?thesis
  proof (cases "fst result")
    case None
    then have "free = {}"
      using effect(1) [OF result] free by blast
    then show ?thesis
      using effect(2) [OF result None] None by simp
  next
    case (Some p)
    note taken = effect(3) [OF result Some]
    obtain q where "fst result = Some q" "snd result = snd (reserve_ticket q ?st)"
      using Some by (auto simp: result_def poi_take_def split: option.splits)
    then have "poi_reachable r (w\<lparr>pw_storage := snd result\<rparr>)"
      using poi_reachable.reserve [OF assms(2), of q] by simp
    moreover have "p \<in> free"
      using taken poi_get_pos [OF ok] unfolding free by metis
    ultimately show ?thesis
      using taken Some by auto
  qed
qed

lemma take_claims_one_ticket_witness:
  "\<exists>st. fst (poi_take village_registry (\<lambda>t. t = 0) (\<lambda>_ _. True) bell 6 st) = None \<and>
     fst (poi_take village_registry (\<lambda>_. True) (\<lambda>_ _. True) bell 6 st) = Some bell"
proof -
  obtain st where st: "poi_reachable village_registry (village_world st)" "\<And>p. poi_get p st = village_points 0 p"
    using village_settled by blast
  have near: "near_sections (pw_loaded (village_world st))" "near bell"
    by (simp_all add: near_sections_def square_def near_def bell_def mk_block_pos_def)
  have free: "\<exists>i. poi_get p st = Some i \<and> 0 < free_tickets i \<longleftrightarrow> p = bell" for p
    using village_sections(4,5) by (auto simp: st(2) village_points_def poi_new_def)
  note take = take_claims_one_ticket [OF village_registry_consistent st(1) near, of 6 _ "\<lambda>_ _. True"]
  have "fst (poi_take village_registry (\<lambda>t. t = 0) (\<lambda>_ _. True) bell 6 st) = None"
    using take [of "\<lambda>t. t = 0"] village_sections(4,5)
    by (cases "fst (poi_take village_registry (\<lambda>t. t = 0) (\<lambda>_ _. True) bell 6 st)")
      (auto simp: st(2) village_points_def poi_new_def split: if_splits)
  moreover have "fst (poi_take village_registry (\<lambda>_. True) (\<lambda>_ _. True) bell 6 st) = Some bell"
    using take [of "\<lambda>_. True"] village_sections(4,5)
    by (cases "fst (poi_take village_registry (\<lambda>_. True) (\<lambda>_ _. True) bell 6 st)")
      (auto simp: st(2) village_points_def poi_new_def square_distance_def split: if_splits)
  ultimately show ?thesis
    by blast
qed

text \<open>C18: Away from the ends of the coordinates the distance from a section to a village is the least Chebyshev distance
  to a section with an occupied point of a village type, and 7 when none is nearer, although the search looks at the
  columns of a square only and skips what cannot be nearer than what it has.\<close>

theorem village_distance_is_least:
  assumes "registry_consistent r" "poi_reachable r w" "near_sections (pw_loaded w)" "near_section sp"
  shows "sections_to_village r sp (pw_storage w) =
    Min (insert 7 ((\<lambda>v. section_distance v sp) ` {section_of_block p | p i. poi_get p (pw_storage w) = Some i \<and>
      is_village_type r (poi_type i) \<and> free_tickets i \<noteq> max_tickets_for r (poi_type i)}))"
  using sections_to_village_min [OF poi_reachable_ok [OF assms(1,2)] reachable_heights [OF assms(1-3)] assms(4)]
  by (simp add: village_sections_def village_point_def poi_is_occupied_def)

lemma village_distance_is_least_witness:
  "\<exists>st. sections_to_village village_registry \<lparr>sx = 2, sy = 1, sz = - 3\<rparr> st = 3 \<and>
     sections_to_village village_registry \<lparr>sx = 0, sy = 7, sz = 0\<rparr> st = 7"
proof -
  obtain st where st: "poi_reachable village_registry (village_world st)" "\<And>p. poi_get p st = village_points 0 p"
    using village_settled by blast
  have near: "near_sections (pw_loaded (village_world st))"
    by (simp add: near_sections_def square_def)
  have "(\<exists>i. poi_get p st = Some i \<and> is_village_type village_registry (poi_type i) \<and>
      free_tickets i \<noteq> max_tickets_for village_registry (poi_type i)) \<longleftrightarrow> p = bed" for p
    using village_sections(4,5)
    by (auto simp: st(2) village_points_def poi_new_def is_village_type_def max_tickets_for_def village_registry_def)
  then have villages: "{section_of_block p | p i. poi_get p (pw_storage (village_world st)) = Some i \<and>
      is_village_type village_registry (poi_type i) \<and> free_tickets i \<noteq> max_tickets_for village_registry (poi_type i)} = {square}"
    using village_sections(1) by auto
  note distance = village_distance_is_least [OF village_registry_consistent st(1) near, unfolded villages]
  show ?thesis
    using distance [of "\<lparr>sx = 2, sy = 1, sz = - 3\<rparr>"] distance [of "\<lparr>sx = 0, sy = 7, sz = 0\<rparr>"]
    by (intro exI [of _ st]) (simp add: near_section_def section_distance_def square_def)
qed

text \<open>C19: The tickets of a chunk survive a save: two worlds that agree on a chunk's blocks and loaded sections agree on all its
  points once the tickets collected in the one are restored in the other, where nothing outside the chunk changes.\<close>

theorem saved_tickets_come_back:
  fixes r w v c
  assumes "registry_consistent r" "poi_reachable r w" "poi_reachable r v"
    and "\<And>p. chunk_of_block p = c \<Longrightarrow> pw_blocks v p = pw_blocks w p \<and> (section_of_block p \<in> pw_loaded v \<longleftrightarrow> section_of_block p \<in> pw_loaded w)"
  defines "st \<equiv> restore_tickets c (collect_for_chunk c (pw_storage w)) (pw_storage v)"
  shows "poi_get p st = (if chunk_of_block p = c then poi_get p (pw_storage w) else poi_get p (pw_storage v))"
proof -
  note ok = poi_reachable_ok [OF assms(1,2)] poi_reachable_ok [OF assms(1,3)]
  define free where "free p = (case poi_get p (pw_storage w) of None \<Rightarrow> 0 | Some i \<Rightarrow> free_tickets i)" for p
  have saved: "\<forall>(p, n) \<in> set (collect_for_chunk c (pw_storage w)). chunk_of_block p = c \<and> n = free p"
    using collect_for_chunk_iff [OF ok(1)] by (auto simp: free_def)
  note restored = restore_tickets_effect [OF ok(2) saved, of p, folded st_def]
  have collected: "p \<in> fst ` set (collect_for_chunk c (pw_storage w)) \<longleftrightarrow> chunk_of_block p = c \<and> poi_get p (pw_storage w) \<noteq> None"
    using collect_for_chunk_iff [OF ok(1), of p _ c] by force
  have same: "get_type p (pw_storage v) = get_type p (pw_storage w)" if "chunk_of_block p = c"
    using poi_reachable_inv [OF assms(1,2)] poi_reachable_inv [OF assms(1,3)] assms(4) [OF that] by (simp add: poi_inv_def)
  show ?thesis
  proof (cases "chunk_of_block p = c")
    case False
    then show ?thesis
      using restored collected by auto
  next
    case True
    show ?thesis
    proof (cases "poi_get p (pw_storage w)")
      case None
      then show ?thesis
        using restored collected same [OF True] True by (auto simp: get_type_def)
    next
      case (Some i)
      then obtain j where j: "poi_get p (pw_storage v) = Some j" "poi_type j = poi_type i"
        using same [OF True] by (auto simp: get_type_def)
      have "j\<lparr>free_tickets := free_tickets i\<rparr> = i"
        using poi_get_pos [OF ok(1) Some] poi_get_pos [OF ok(2) j(1)] j(2) by (cases i, cases j) simp
      then show ?thesis
        using restored collected True Some j by (simp add: free_def)
    qed
  qed
qed

lemma saved_tickets_come_back_witness:
  "\<exists>st fresh. poi_get bed fresh = Some (poi_new bed 0 1) \<and>
     poi_get bed (restore_tickets (chunk_of_block bed) (collect_for_chunk (chunk_of_block bed) st) fresh) = Some (poi_new bed 0 0)"
proof -
  obtain st where st: "poi_reachable village_registry (village_world st)" "\<And>p. poi_get p st = village_points 0 p"
    using village_settled by blast
  obtain fresh where fresh: "poi_reachable village_registry (village_world fresh)" "\<And>p. poi_get p fresh = village_points 1 p"
    using village_loads by blast
  have "poi_get bed (restore_tickets (chunk_of_block bed) (collect_for_chunk (chunk_of_block bed) st) fresh) = Some (poi_new bed 0 0)"
    using saved_tickets_come_back [OF village_registry_consistent st(1) fresh(1), of "chunk_of_block bed" bed]
    by (simp add: st(2) village_points_def)
  then show ?thesis
    using fresh(2) by (intro exI [of _ st] exI [of _ fresh]) (simp add: village_points_def)
qed

end
