(* ===== verification/PermKey.thy ===== *)
theory PermKey
  imports Prelude "HOL-Library.List_Lexorder" "HOL-Library.Sublist"
begin

text \<open>
  Permission keys (\<open>foton-core/src/permission/key.rs\<close>) and the identifiers they borrow from
  (\<open>foton-utils/src/types/identifier.rs\<close>). A text is the list of its characters as code points, whose
  lexicographic order is that of Rust's strings.
\<close>

section \<open>Texts\<close>

type_synonym utext = "nat list"

definition str :: "string \<Rightarrow> utext" where
  "str s = map of_char s"

text \<open>\<open>split\<close>, \<open>split_once\<close>, \<open>join\<close>, \<open>strip_prefix\<close>, \<open>strip_suffix\<close> and \<open>starts_with\<close> of Rust's \<open>str\<close>.\<close>

fun split_on :: "'a \<Rightarrow> 'a list \<Rightarrow> 'a list list" where
  "split_on c [] = [[]]"
| "split_on c (x # xs) =
     (if x = c then [] # split_on c xs
      else (case split_on c xs of [] \<Rightarrow> [[x]] | p # ps \<Rightarrow> (x # p) # ps))"

fun join_with :: "'a \<Rightarrow> 'a list list \<Rightarrow> 'a list" where
  "join_with c [] = []"
| "join_with c [p] = p"
| "join_with c (p # q # ps) = p @ c # join_with c (q # ps)"

fun split_once :: "'a \<Rightarrow> 'a list \<Rightarrow> ('a list \<times> 'a list) option" where
  "split_once c [] = None"
| "split_once c (x # xs) = (if x = c then Some ([], xs) else map_option (\<lambda>(p, q). (x # p, q)) (split_once c xs))"

definition strip_prefix :: "'a list \<Rightarrow> 'a list \<Rightarrow> 'a list option" where
  "strip_prefix p xs = (if take (length p) xs = p then Some (drop (length p) xs) else None)"

definition strip_suffix :: "'a list \<Rightarrow> 'a list \<Rightarrow> 'a list option" where
  "strip_suffix s xs = map_option rev (strip_prefix (rev s) (rev xs))"

definition starts_with :: "'a \<Rightarrow> 'a list \<Rightarrow> bool" where
  "starts_with c xs \<longleftrightarrow> (case xs of [] \<Rightarrow> False | x # _ \<Rightarrow> x = c)"

definition DOT :: nat where "DOT = 46"
definition STAR :: nat where "STAR = 42"
definition COLON :: nat where "COLON = 58"
definition SLASH :: nat where "SLASH = 47"

definition is_ascii_lowercase :: "nat \<Rightarrow> bool" where
  "is_ascii_lowercase c \<longleftrightarrow> 97 \<le> c \<and> c \<le> 122"

definition is_ascii_digit :: "nat \<Rightarrow> bool" where
  "is_ascii_digit c \<longleftrightarrow> 48 \<le> c \<and> c \<le> 57"

section \<open>Identifiers\<close>

record ident =
  id_namespace :: utext
  id_path :: utext

definition valid_namespace_char :: "nat \<Rightarrow> bool" where
  "valid_namespace_char c \<longleftrightarrow> c = 95 \<or> c = 45 \<or> is_ascii_lowercase c \<or> is_ascii_digit c \<or> c = DOT"

definition valid_char :: "nat \<Rightarrow> bool" where
  "valid_char c \<longleftrightarrow> valid_namespace_char c \<or> c = SLASH"

definition validate_namespace :: "utext \<Rightarrow> bool" where
  "validate_namespace n \<longleftrightarrow> n \<noteq> [DOT, DOT] \<and> list_all valid_namespace_char n"

definition validate_path :: "utext \<Rightarrow> bool" where
  "validate_path p \<longleftrightarrow> list_all valid_char p"

definition identifier_text :: "ident \<Rightarrow> utext" where
  "identifier_text i = id_namespace i @ COLON # id_path i"

section \<open>Keys\<close>

datatype permission_key_error = KeyEmpty | EmptySegment | WildcardNotFinal | InvalidWildcardSegment | InvalidSegment

datatype permission_key = PermissionKey (key_text: utext)
datatype permission_segment = PermissionSegment (segment_text: utext)

definition segment_char :: "nat \<Rightarrow> bool" where
  "segment_char c \<longleftrightarrow> is_ascii_lowercase c \<or> is_ascii_digit c \<or> c = 95 \<or> c = 45"

definition validate_permission_segment :: "utext \<Rightarrow> permission_key_error + unit" where
  "validate_permission_segment s = (if list_all segment_char s then Inr () else Inl InvalidSegment)"

fun check_segments :: "utext list \<Rightarrow> permission_key_error + unit" where
  "check_segments [] = Inr ()"
| "check_segments (s # ss) =
     (if s = [] then Inl EmptySegment
      else if s = [STAR] then (if ss \<noteq> [] then Inl WildcardNotFinal else check_segments ss)
      else if STAR \<in> set s then Inl InvalidWildcardSegment
      else bind_result (validate_permission_segment s) (\<lambda>_. check_segments ss))"

definition key_parse :: "utext \<Rightarrow> permission_key_error + permission_key" where
  "key_parse value =
     (if value = [] then Inl KeyEmpty
      else bind_result (check_segments (split_on DOT value)) (\<lambda>_. Inr (PermissionKey value)))"

definition segment_parse :: "utext \<Rightarrow> permission_key_error + permission_segment" where
  "segment_parse value =
     (if value = [] then Inl EmptySegment
      else if STAR \<in> set value then Inl InvalidWildcardSegment
      else bind_result (validate_permission_segment value) (\<lambda>_. Inr (PermissionSegment value)))"

definition from_segments :: "permission_segment list \<Rightarrow> permission_key_error + permission_key" where
  "from_segments segments =
     (let value = fold (\<lambda>s value. (if value = [] then value else value @ [DOT]) @ segment_text s) segments [] in
      if value = [] then Inl KeyEmpty else Inr (PermissionKey value))"

definition key_child :: "permission_key \<Rightarrow> permission_segment \<Rightarrow> permission_key_error + permission_key" where
  "key_child k s = key_parse (key_text k @ DOT # segment_text s)"

definition key_matches :: "permission_key \<Rightarrow> permission_key \<Rightarrow> bool" where
  "key_matches k other \<longleftrightarrow>
     (if key_text k = [STAR] then True
      else (case strip_suffix [DOT, STAR] (key_text k) of
              None \<Rightarrow> k = other
            | Some stem \<Rightarrow>
                (case strip_prefix stem (key_text other) of
                   None \<Rightarrow> False
                 | Some remaining \<Rightarrow> starts_with DOT remaining)))"

definition key_specificity :: "permission_key \<Rightarrow> nat" where
  "key_specificity k =
     (if key_text k = [STAR] then 0
      else length (split_on DOT
        (case strip_suffix [DOT, STAR] (key_text k) of None \<Rightarrow> key_text k | Some stem \<Rightarrow> stem)))"

definition key_scopes :: "permission_key \<Rightarrow> permission_key \<Rightarrow> bool" where
  "key_scopes k key \<longleftrightarrow>
     (if k = key then True
      else (case strip_prefix (key_text k) (key_text key) of
              None \<Rightarrow> False
            | Some remaining \<Rightarrow> starts_with DOT remaining))"

section \<open>Splitting and joining\<close>

lemma split_on_not_Nil [simp]: "split_on c xs \<noteq> []"
  by (induction xs) (auto split: list.splits)

lemma join_split [simp]: "join_with c (split_on c xs) = xs"
proof (induction xs)
  case (Cons x xs)
  then show ?case
    by (cases "split_on c xs"; cases "tl (split_on c xs)") auto
qed simp

lemma split_free: "p \<in> set (split_on c xs) \<Longrightarrow> c \<notin> set p"
  by (induction xs arbitrary: p) (auto split: list.splits if_splits)

lemma split_chars: "p \<in> set (split_on c xs) \<Longrightarrow> set p \<subseteq> set xs"
  by (induction xs arbitrary: p) (fastforce split: list.splits if_splits)+

lemma split_single: "c \<notin> set xs \<Longrightarrow> split_on c xs = [xs]"
  by (induction xs) auto

lemma split_append: "split_on c (xs @ c # ys) = split_on c xs @ split_on c ys"
  by (induction xs) (auto split: list.splits)

lemma split_join:
  assumes "ps \<noteq> []" "\<And>p. p \<in> set ps \<Longrightarrow> c \<notin> set p"
  shows "split_on c (join_with c ps) = ps"
  using assms by (induction ps rule: join_with.induct) (auto simp: split_single split_append)

lemma join_append: "\<lbrakk>ps \<noteq> []; qs \<noteq> []\<rbrakk> \<Longrightarrow> join_with c (ps @ qs) = join_with c ps @ c # join_with c qs"
  by (induction ps rule: join_with.induct) (auto simp: neq_Nil_conv)

lemma split_inj [simp]: "split_on c xs = split_on c ys \<longleftrightarrow> xs = ys"
  by (metis join_split)

text \<open>A text goes on behind another and a separator exactly if the one's parts go on behind the other's.\<close>

lemma split_extends:
  "(\<exists>zs. ys = xs @ c # zs) \<longleftrightarrow> (\<exists>qs. qs \<noteq> [] \<and> split_on c ys = split_on c xs @ qs)"
proof
  assume "\<exists>zs. ys = xs @ c # zs"
  then show "\<exists>qs. qs \<noteq> [] \<and> split_on c ys = split_on c xs @ qs"
    by (auto simp: split_append)
next
  assume "\<exists>qs. qs \<noteq> [] \<and> split_on c ys = split_on c xs @ qs"
  then obtain qs where "qs \<noteq> []" "split_on c ys = split_on c xs @ qs"
    by blast
  then have "ys = xs @ c # join_with c qs"
    using join_append [of "split_on c xs" qs c] join_split [of c ys] by simp
  then show "\<exists>zs. ys = xs @ c # zs"
    by blast
qed

lemma split_once_Some: "split_once c xs = Some (p, q) \<longleftrightarrow> xs = p @ c # q \<and> c \<notin> set p"
proof (induction xs arbitrary: p)
  case (Cons x xs)
  show ?case
  proof (cases p)
    case Nil
    then show ?thesis
      by (cases "split_once c xs") auto
  next
    case (Cons y p')
    have "split_once c (x # xs) = Some (p, q) \<longleftrightarrow> x \<noteq> c \<and> y = x \<and> split_once c xs = Some (p', q)"
      using Cons by (cases "split_once c xs") auto
    then show ?thesis
      using Cons Cons.IH [of p'] by auto
  qed
qed simp

lemma split_once_None: "split_once c xs = None \<longleftrightarrow> c \<notin> set xs"
  by (induction xs) auto

lemma strip_prefix_Some: "strip_prefix p xs = Some r \<longleftrightarrow> xs = p @ r"
proof
  assume "strip_prefix p xs = Some r"
  then have "take (length p) xs = p" "drop (length p) xs = r"
    by (simp_all add: strip_prefix_def split: if_splits)
  then show "xs = p @ r"
    using append_take_drop_id [of "length p" xs] by simp
qed (simp add: strip_prefix_def)

lemma strip_suffix_Some: "strip_suffix s xs = Some r \<longleftrightarrow> xs = r @ s"
proof -
  have "strip_suffix s xs = Some r \<longleftrightarrow> strip_prefix (rev s) (rev xs) = Some (rev r)"
    by (cases "strip_prefix (rev s) (rev xs)") (auto simp: strip_suffix_def)
  also have "\<dots> \<longleftrightarrow> rev xs = rev (r @ s)"
    by (simp add: strip_prefix_Some)
  finally show ?thesis
    by (simp only: rev_is_rev_conv)
qed

lemma strip_suffix_None: "strip_suffix s xs = None \<longleftrightarrow> (\<nexists>r. xs = r @ s)"
  using strip_suffix_Some [of s xs] by (metis not_Some_eq)

lemma strip_prefix_starts: "(case strip_prefix p xs of None \<Rightarrow> False | Some r \<Rightarrow> starts_with c r) \<longleftrightarrow> (\<exists>zs. xs = p @ c # zs)"
  by (auto simp: strip_prefix_Some starts_with_def split: option.splits list.splits)
    (metis option.distinct(1) strip_prefix_Some)

section \<open>Valid keys are lists of segments\<close>

definition key_segments :: "permission_key \<Rightarrow> utext list" where
  "key_segments k = split_on DOT (key_text k)"

definition valid_segment :: "utext \<Rightarrow> bool" where
  "valid_segment s \<longleftrightarrow> s \<noteq> [] \<and> list_all segment_char s"

definition valid_key :: "permission_key \<Rightarrow> bool" where
  "valid_key k \<longleftrightarrow> (let ss = key_segments k in
     list_all valid_segment (butlast ss) \<and> (last ss = [STAR] \<or> valid_segment (last ss)))"

lemma segment_chars: "segment_char c \<Longrightarrow> c \<noteq> DOT \<and> c \<noteq> STAR \<and> c \<noteq> COLON"
  by (auto simp: segment_char_def is_ascii_lowercase_def is_ascii_digit_def DOT_def STAR_def COLON_def)

lemma valid_segment_free: "valid_segment s \<Longrightarrow> DOT \<notin> set s \<and> STAR \<notin> set s"
  using segment_chars by (auto simp: valid_segment_def list_all_iff)

lemma check_segments_valid:
  "ss \<noteq> [] \<Longrightarrow> check_segments ss = Inr () \<longleftrightarrow> list_all valid_segment (butlast ss) \<and> (last ss = [STAR] \<or> valid_segment (last ss))"
proof (induction ss)
  case (Cons s ss)
  have "s \<noteq> [STAR]" "STAR \<notin> set s" if "valid_segment s"
    using valid_segment_free [OF that] by auto
  then show ?case
    using Cons.IH by (cases "ss = []")
      (auto simp: validate_permission_segment_def valid_segment_def bind_result_Inr_iff)
qed simp

lemma key_parse_valid: "key_parse t = Inr k \<longleftrightarrow> k = PermissionKey t \<and> valid_key k"
proof (cases "t = []")
  case True
  then show ?thesis
    by (auto simp: key_parse_def valid_key_def key_segments_def valid_segment_def)
next
  case False
  then show ?thesis
    using check_segments_valid [of "split_on DOT t"]
    by (auto simp: key_parse_def valid_key_def key_segments_def bind_result_Inr_iff Let_def)
qed

lemma segment_parse_valid: "segment_parse t = Inr s \<longleftrightarrow> s = PermissionSegment t \<and> valid_segment t"
  using segment_chars
  by (auto simp: segment_parse_def valid_segment_def validate_permission_segment_def list_all_iff bind_result_Inr_iff)

lemma key_segments_inj [simp]: "key_segments k = key_segments k' \<longleftrightarrow> k = k'"
  by (cases k; cases k') (simp add: key_segments_def)

lemma key_segments_not_Nil [simp]: "key_segments k \<noteq> []"
  by (simp add: key_segments_def)

lemma wild_text: "key_segments k = ss @ [[STAR]] \<longleftrightarrow> (if ss = [] then key_text k = [STAR] else key_text k = join_with DOT ss @ [DOT, STAR] \<and> split_on DOT (join_with DOT ss) = ss)"
proof (cases "ss = []")
  case True
  have "split_on DOT [STAR] = [[STAR]]"
    by (simp add: DOT_def STAR_def)
  then show ?thesis
    using True split_inj [of DOT "key_text k" "[STAR]"] by (simp add: key_segments_def)
next
  case False
  have star: "split_on DOT [STAR] = [[STAR]]"
    by (simp add: DOT_def STAR_def)
  show ?thesis
  proof
    assume a: "key_segments k = ss @ [[STAR]]"
    then have "key_text k = join_with DOT (ss @ [[STAR]])"
      by (metis join_split key_segments_def)
    then have "key_text k = join_with DOT ss @ [DOT, STAR]"
      using join_append [OF False, of "[[STAR]]"] by simp
    moreover have "split_on DOT (join_with DOT ss) = ss"
    proof (rule split_join [OF False])
      fix p
      assume "p \<in> set ss"
      then have "p \<in> set (split_on DOT (key_text k))"
        using a by (simp add: key_segments_def)
      then show "DOT \<notin> set p"
        by (rule split_free)
    qed
    ultimately show "if ss = [] then key_text k = [STAR] else key_text k = join_with DOT ss @ [DOT, STAR] \<and> split_on DOT (join_with DOT ss) = ss"
      using False by simp
  next
    assume "if ss = [] then key_text k = [STAR] else key_text k = join_with DOT ss @ [DOT, STAR] \<and> split_on DOT (join_with DOT ss) = ss"
    then show "key_segments k = ss @ [[STAR]]"
      using False split_append [of DOT "join_with DOT ss" "[STAR]"] star by (simp add: key_segments_def)
  qed
qed

lemma strip_wild:
  "strip_suffix [DOT, STAR] (key_text k) = Some stem \<longleftrightarrow> stem @ [DOT, STAR] = key_text k"
  by (auto simp: strip_suffix_Some)

lemma valid_key_parts:
  assumes "valid_key k"
  obtains (all) "key_segments k = [[STAR]]"
    | (wild) ss where "ss \<noteq> []" "key_segments k = ss @ [[STAR]]" "list_all valid_segment ss"
    | (exact) "list_all valid_segment (key_segments k)"
proof -
  have split: "key_segments k = butlast (key_segments k) @ [last (key_segments k)]"
    by simp
  show ?thesis
  proof (cases "last (key_segments k) = [STAR]")
    case True
    then show ?thesis
      using assms split that(1) that(2) [of "butlast (key_segments k)"]
      by (cases "butlast (key_segments k) = []") (auto simp: valid_key_def Let_def)
  next
    case False
    then have "list_all valid_segment (butlast (key_segments k))" "valid_segment (last (key_segments k))"
      using assms by (simp_all add: valid_key_def Let_def)
    then have "list_all valid_segment (key_segments k)"
      by (subst split) (simp del: append_butlast_last_id)
    then show ?thesis
      by (rule that(3))
  qed
qed

text \<open>A key without a wildcard does not end like one.\<close>

lemma exact_not_wild:
  assumes "list_all valid_segment (key_segments k)"
  shows "key_text k \<noteq> [STAR]" "strip_suffix [DOT, STAR] (key_text k) = None"
proof -
  have "[STAR] \<notin> set (key_segments k)"
    using assms valid_segment_free by (fastforce simp: list_all_iff)
  moreover have "key_segments k = split_on DOT stem @ [[STAR]]" if "key_text k = stem @ [DOT, STAR]" for stem
    using that split_append [of DOT stem "[STAR]"] by (simp add: key_segments_def DOT_def STAR_def)
  ultimately show "key_text k \<noteq> [STAR]" "strip_suffix [DOT, STAR] (key_text k) = None"
    using wild_text [of k "[]"] by (auto simp: strip_suffix_None)
qed

text \<open>What a key matches, how specific it is and what it scopes, on the segments.\<close>

definition segments_match :: "utext list \<Rightarrow> utext list \<Rightarrow> bool" where
  "segments_match ps ks \<longleftrightarrow> (if last ps = [STAR] then strict_prefix (butlast ps) ks else ps = ks)"

lemma strict_prefix_extends: "strict_prefix xs ys \<longleftrightarrow> (\<exists>qs. qs \<noteq> [] \<and> ys = xs @ qs)"
  by (auto simp: strict_prefix_def prefix_def)

lemma key_matches_segments:
  assumes "valid_key p"
  shows "key_matches p k \<longleftrightarrow> segments_match (key_segments p) (key_segments k)"
  using assms
proof (cases rule: valid_key_parts)
  case all
  then show ?thesis
    using wild_text [of p "[]"] by (simp add: key_matches_def segments_match_def strict_prefix_extends)
next
  case (wild ss)
  then have t: "key_text p = join_with DOT ss @ [DOT, STAR]" "split_on DOT (join_with DOT ss) = ss"
    using wild_text [of p ss] by simp_all
  then have "strip_suffix [DOT, STAR] (key_text p) = Some (join_with DOT ss)" "key_text p \<noteq> [STAR]"
    by (simp_all add: strip_suffix_Some)
  then have "key_matches p k \<longleftrightarrow> (\<exists>zs. key_text k = join_with DOT ss @ DOT # zs)"
    by (simp add: key_matches_def strip_prefix_starts)
  then show ?thesis
    using wild(2) t(2) split_extends [of "key_text k" "join_with DOT ss" DOT]
    by (simp add: segments_match_def strict_prefix_extends key_segments_def)
next
  case exact
  then have "last (key_segments p) \<noteq> [STAR]"
    using valid_segment_free last_in_set [OF key_segments_not_Nil, of p] by (fastforce simp: list_all_iff)
  then show ?thesis
    using exact_not_wild [OF exact] by (simp add: key_matches_def segments_match_def)
qed

lemma key_specificity_segments:
  assumes "valid_key p"
  shows "key_specificity p = length (filter (\<lambda>s. s \<noteq> [STAR]) (key_segments p))"
  using assms
proof (cases rule: valid_key_parts)
  case all
  then show ?thesis
    using wild_text [of p "[]"] by (simp add: key_specificity_def)
next
  case (wild ss)
  then have t: "key_text p = join_with DOT ss @ [DOT, STAR]" "split_on DOT (join_with DOT ss) = ss"
    using wild_text [of p ss] by simp_all
  then have "strip_suffix [DOT, STAR] (key_text p) = Some (join_with DOT ss)" "key_text p \<noteq> [STAR]"
    by (simp_all add: strip_suffix_Some)
  moreover have "filter (\<lambda>s. s \<noteq> [STAR]) ss = ss"
    using wild(3) valid_segment_free by (fastforce simp: list_all_iff filter_id_conv)
  ultimately show ?thesis
    using wild(2) t(2) by (simp add: key_specificity_def)
next
  case exact
  have "filter (\<lambda>s. s \<noteq> [STAR]) (key_segments p) = key_segments p"
    using exact valid_segment_free by (fastforce simp: list_all_iff filter_id_conv)
  then show ?thesis
    using exact_not_wild [OF exact] by (simp add: key_specificity_def key_segments_def)
qed

lemma key_scopes_segments: "key_scopes p k \<longleftrightarrow> prefix (key_segments p) (key_segments k)"
proof -
  have "key_scopes p k \<longleftrightarrow> p = k \<or> (\<exists>zs. key_text k = key_text p @ DOT # zs)"
    by (simp add: key_scopes_def strip_prefix_starts)
  also have "\<dots> \<longleftrightarrow> p = k \<or> strict_prefix (key_segments p) (key_segments k)"
    by (simp add: split_extends strict_prefix_extends key_segments_def)
  finally show ?thesis
    by (auto simp: strict_prefix_def)
qed

end
