(* ===== verification/PermContext.thy ===== *)
theory PermContext
  imports PermKey
begin

text \<open>
  Contexts of permission rules and of those who ask (\<open>foton-core/src/permission/context.rs\<close>). Domains, values and
  keys of contexts are texts; the parsers say which of them the code lets in.
\<close>

section \<open>Rule contexts\<close>

datatype rule_context =
    GlobalCtx
  | DomainCtx utext
  | WorldCtx ident
  | CustomCtx utext utext
  | AllCtx "rule_context list"

datatype rule_context_error =
    InvalidDomain utext
  | InvalidValue utext
  | DuplicateDomain
  | DuplicateWorld
  | DuplicateCustomKey utext
  | WorldDomainMismatch utext utext

datatype context_key_error =
    CtxInvalidFormat
  | CtxEmptyNamespace
  | CtxEmptyPath
  | CtxInvalidNamespace
  | CtxInvalidPath
  | CtxInvalidUnqualified permission_key_error

text \<open>\<open>char::is_whitespace\<close>, and the characters that structure an expression.\<close>

definition is_whitespace :: "nat \<Rightarrow> bool" where
  "is_whitespace c \<longleftrightarrow> 9 \<le> c \<and> c \<le> 13 \<or> c = 32 \<or> c = 0x85 \<or> c = 0xA0 \<or> c = 0x1680 \<or> 0x2000 \<le> c \<and> c \<le> 0x200A
     \<or> c = 0x2028 \<or> c = 0x2029 \<or> c = 0x202F \<or> c = 0x205F \<or> c = 0x3000"

definition LBRACE :: nat where "LBRACE = 123"
definition RBRACE :: nat where "RBRACE = 125"
definition COMMA :: nat where "COMMA = 44"
definition EQUALS :: nat where "EQUALS = 61"

definition bad_value_char :: "nat \<Rightarrow> bool" where
  "bad_value_char c \<longleftrightarrow> is_whitespace c \<or> c = LBRACE \<or> c = RBRACE \<or> c = COMMA \<or> c = EQUALS"

definition domain_parse :: "utext \<Rightarrow> rule_context_error + utext" where
  "domain_parse value = (if value = [] \<or> \<not> validate_namespace value then Inl (InvalidDomain value) else Inr value)"

definition value_parse :: "utext \<Rightarrow> rule_context_error + utext" where
  "value_parse value = (if value = [] \<or> list_ex bad_value_char value then Inl (InvalidValue value) else Inr value)"

definition ctx_domain :: "utext \<Rightarrow> rule_context_error + rule_context" where
  "ctx_domain d = bind_result (domain_parse d) (\<lambda>d. Inr (DomainCtx d))"

definition ctx_custom :: "utext \<Rightarrow> utext \<Rightarrow> rule_context_error + rule_context" where
  "ctx_custom key value = bind_result (value_parse value) (\<lambda>value. Inr (CustomCtx key value))"

text \<open>The loop over the contexts there are: an error, an equal one, or neither.\<close>

fun unique_scan :: "rule_context \<Rightarrow> rule_context list \<Rightarrow> rule_context_error + bool" where
  "unique_scan c [] = Inr False"
| "unique_scan (DomainCtx v) (DomainCtx u # es) = (if v = u then Inr True else Inl DuplicateDomain)"
| "unique_scan (WorldCtx v) (WorldCtx u # es) = (if v = u then Inr True else Inl DuplicateWorld)"
| "unique_scan (CustomCtx k v) (CustomCtx l u # es) =
     (if k = l then (if v = u then Inr True else Inl (DuplicateCustomKey k)) else unique_scan (CustomCtx k v) es)"
| "unique_scan c (e # es) = unique_scan c es"

definition push_unique_context :: "rule_context \<Rightarrow> rule_context list \<Rightarrow> rule_context_error + rule_context list" where
  "push_unique_context c cs =
     bind_result (unique_scan c cs) (\<lambda>found. Inr (if found \<or> c \<in> set cs then cs else cs @ [c]))"

fun push_all_unique :: "rule_context list \<Rightarrow> rule_context list \<Rightarrow> rule_context_error + rule_context list" where
  "push_all_unique [] acc = Inr acc"
| "push_all_unique (c # cs) acc = bind_result (push_unique_context c acc) (push_all_unique cs)"

fun flatten_contexts :: "rule_context list \<Rightarrow> rule_context list \<Rightarrow> rule_context_error + rule_context list" where
  "flatten_contexts [] acc = Inr acc"
| "flatten_contexts (c # cs) acc =
     bind_result
       (case c of
          GlobalCtx \<Rightarrow> Inr acc
        | AllCtx nested \<Rightarrow> push_all_unique nested acc
        | _ \<Rightarrow> push_unique_context c acc)
       (flatten_contexts cs)"

fun find_domain :: "rule_context list \<Rightarrow> utext option" where
  "find_domain [] = None"
| "find_domain (DomainCtx d # cs) = Some d"
| "find_domain (c # cs) = find_domain cs"

fun find_world_domain :: "rule_context list \<Rightarrow> utext option" where
  "find_world_domain [] = None"
| "find_world_domain (WorldCtx w # cs) = Some (id_namespace w)"
| "find_world_domain (c # cs) = find_world_domain cs"

fun is_domain :: "rule_context \<Rightarrow> bool" where
  "is_domain (DomainCtx d) = True"
| "is_domain _ = False"

definition normalize_world_domain :: "rule_context list \<Rightarrow> rule_context_error + rule_context list" where
  "normalize_world_domain cs =
     (case (find_domain cs, find_world_domain cs) of
        (Some d, Some n) \<Rightarrow> if d \<noteq> n then Inl (WorldDomainMismatch d n) else Inr (filter (\<lambda>c. \<not> is_domain c) cs)
      | _ \<Rightarrow> Inr cs)"

text \<open>The comparison by rank, then by the texts, as the key that it compares.\<close>

fun compare_key :: "rule_context \<Rightarrow> nat \<times> utext \<times> utext" where
  "compare_key (DomainCtx d) = (0, d, [])"
| "compare_key (WorldCtx w) = (1, id_namespace w, id_path w)"
| "compare_key (CustomCtx k v) = (2, k, v)"
| "compare_key GlobalCtx = (3, [], [])"
| "compare_key (AllCtx _) = (4, [], [])"

definition ctx_all :: "rule_context list \<Rightarrow> rule_context_error + rule_context" where
  "ctx_all contexts =
     bind_result (flatten_contexts contexts []) (\<lambda>flat.
     bind_result (normalize_world_domain flat) (\<lambda>flat.
       let flat = sort_key compare_key flat in
       Inr (case flat of [] \<Rightarrow> GlobalCtx | [c] \<Rightarrow> c | _ \<Rightarrow> AllCtx flat)))"

section \<open>Active contexts\<close>

record active_context =
  ac_domain :: "utext option"
  ac_world :: "ident option"
  ac_custom :: "rule_context list"

definition global_context :: active_context where
  "global_context = \<lparr>ac_domain = None, ac_world = None, ac_custom = []\<rparr>"

definition for_world :: "ident \<Rightarrow> active_context" where
  "for_world w = \<lparr>ac_domain = Some (id_namespace w), ac_world = Some w, ac_custom = []\<rparr>"

fun ctx_matches :: "rule_context \<Rightarrow> active_context \<Rightarrow> bool" where
  "ctx_matches GlobalCtx a = True"
| "ctx_matches (DomainCtx d) a = (ac_domain a = Some d)"
| "ctx_matches (WorldCtx w) a = (ac_world a = Some w)"
| "ctx_matches (CustomCtx k v) a = (CustomCtx k v \<in> set (ac_custom a))"
| "ctx_matches (AllCtx cs) a = (\<forall>c \<in> set cs. ctx_matches c a)"

fun ctx_specificity :: "rule_context \<Rightarrow> nat" where
  "ctx_specificity GlobalCtx = 0"
| "ctx_specificity (DomainCtx _) = 1"
| "ctx_specificity (CustomCtx _ _) = 1"
| "ctx_specificity (WorldCtx _) = 2"
| "ctx_specificity (AllCtx cs) = sum_list (map ctx_specificity cs)"

fun custom_scan :: "utext \<Rightarrow> utext \<Rightarrow> rule_context list \<Rightarrow> rule_context_error + bool" where
  "custom_scan k v [] = Inr False"
| "custom_scan k v (CustomCtx l u # es) =
     (if l \<noteq> k then custom_scan k v es else if u = v then Inr True else Inl (DuplicateCustomKey k))"
| "custom_scan k v (_ # es) = custom_scan k v es"

definition add_custom_context :: "utext \<Rightarrow> utext \<Rightarrow> active_context \<Rightarrow> rule_context_error + active_context" where
  "add_custom_context key value a =
     bind_result (ctx_custom key value) (\<lambda>c.
       case c of
         CustomCtx k v \<Rightarrow>
           bind_result (custom_scan k v (ac_custom a)) (\<lambda>found. Inr (if found then a else a\<lparr>ac_custom := ac_custom a @ [c]\<rparr>))
       | _ \<Rightarrow> Inr a)"

fun append_rule_context :: "rule_context \<Rightarrow> active_context \<Rightarrow> rule_context_error + active_context"
  and append_rule_contexts :: "rule_context list \<Rightarrow> active_context \<Rightarrow> rule_context_error + active_context" where
  "append_rule_context GlobalCtx a = Inr a"
| "append_rule_context (DomainCtx d) a = Inr (a\<lparr>ac_domain := Some d\<rparr>)"
| "append_rule_context (WorldCtx w) a = Inr (a\<lparr>ac_domain := Some (id_namespace w), ac_world := Some w\<rparr>)"
| "append_rule_context (CustomCtx k v) a = add_custom_context k v a"
| "append_rule_context (AllCtx cs) a = append_rule_contexts cs a"
| "append_rule_contexts [] a = Inr a"
| "append_rule_contexts (c # cs) a = bind_result (append_rule_context c a) (append_rule_contexts cs)"

definition from_rule_context :: "rule_context \<Rightarrow> rule_context_error + active_context" where
  "from_rule_context c = append_rule_context c global_context"

section \<open>Keys of contexts\<close>

definition path_parts :: "utext \<Rightarrow> utext list" where
  "path_parts path = concat (map (split_on SLASH) (split_on DOT path))"

definition validate_namespaced_context_key :: "utext \<Rightarrow> context_key_error + unit" where
  "validate_namespaced_context_key value =
     (case split_once COLON value of
        None \<Rightarrow> Inl CtxInvalidFormat
      | Some (namespace, path) \<Rightarrow>
          if namespace = [] then Inl CtxEmptyNamespace
          else if path = [] then Inl CtxEmptyPath
          else if COLON \<in> set path then Inl CtxInvalidFormat
          else if [] \<in> set (split_on DOT namespace) then Inl CtxInvalidNamespace
          else if [] \<in> set (path_parts path) then Inl CtxInvalidPath
          else if \<not> validate_namespace namespace then Inl CtxInvalidNamespace
          else if \<not> validate_path path then Inl CtxInvalidPath
          else Inr ())"

definition context_key_parse :: "utext \<Rightarrow> context_key_error + utext" where
  "context_key_parse value =
     (if COLON \<in> set value then bind_result (validate_namespaced_context_key value) (\<lambda>_. Inr value)
      else (case segment_parse value of Inl e \<Rightarrow> Inl (CtxInvalidUnqualified e) | Inr _ \<Rightarrow> Inr value))"

section \<open>Chains of contexts\<close>

text \<open>The constraints that a chain is made of, and the slot that each of them fills.\<close>

fun is_atom :: "rule_context \<Rightarrow> bool" where
  "is_atom GlobalCtx = False"
| "is_atom (AllCtx _) = False"
| "is_atom _ = True"

fun ctx_slot :: "rule_context \<Rightarrow> nat \<times> utext" where
  "ctx_slot (DomainCtx _) = (0, [])"
| "ctx_slot (WorldCtx _) = (1, [])"
| "ctx_slot (CustomCtx k _) = (2, k)"
| "ctx_slot _ = (3, [])"

fun atoms_of :: "rule_context \<Rightarrow> rule_context list" where
  "atoms_of GlobalCtx = []"
| "atoms_of (AllCtx cs) = cs"
| "atoms_of c = [c]"

definition flat_ctx :: "rule_context \<Rightarrow> bool" where
  "flat_ctx c \<longleftrightarrow> (\<forall>x \<in> set (atoms_of c). is_atom x)"

definition one_per_slot :: "rule_context set \<Rightarrow> bool" where
  "one_per_slot S \<longleftrightarrow> (\<forall>c \<in> S. \<forall>d \<in> S. ctx_slot c = ctx_slot d \<longrightarrow> c = d)"

definition atoms_ok :: "rule_context list \<Rightarrow> bool" where
  "atoms_ok cs \<longleftrightarrow> (\<forall>c \<in> set cs. is_atom c) \<and> distinct (map ctx_slot cs)"

lemma atoms_ok_Nil [simp]: "atoms_ok []"
  by (simp add: atoms_ok_def)

lemma atoms_ok_one: "atoms_ok cs \<Longrightarrow> one_per_slot (set cs)"
  by (auto simp: atoms_ok_def one_per_slot_def distinct_map inj_on_def)

lemma unique_scan_same:
  "\<lbrakk>is_atom c; is_atom e; ctx_slot e = ctx_slot c\<rbrakk> \<Longrightarrow>
   unique_scan c (e # es) = (if e = c then Inr True else unique_scan c [e]) \<and> (e \<noteq> c \<longrightarrow> (\<exists>err. unique_scan c [e] = Inl err))"
  by (cases c; cases e) auto

lemma unique_scan_other: "\<lbrakk>is_atom c; is_atom e; ctx_slot e \<noteq> ctx_slot c\<rbrakk> \<Longrightarrow> unique_scan c (e # es) = unique_scan c es"
  by (cases c; cases e) auto

lemma unique_scan_atom:
  "\<lbrakk>is_atom c; \<forall>e \<in> set es. is_atom e; distinct (map ctx_slot es)\<rbrakk>
   \<Longrightarrow> (case unique_scan c es of
         Inl _ \<Rightarrow> \<exists>e \<in> set es. ctx_slot e = ctx_slot c \<and> e \<noteq> c
       | Inr found \<Rightarrow> (found \<longleftrightarrow> c \<in> set es) \<and> (\<forall>e \<in> set es. ctx_slot e = ctx_slot c \<longrightarrow> e = c))"
proof (induction es)
  case (Cons e es)
  have fresh: "ctx_slot d \<noteq> ctx_slot e" if "d \<in> set es" for d
    using Cons.prems(3) imageI [OF that, of ctx_slot] by auto
  show ?case
  proof (cases "ctx_slot e = ctx_slot c")
    case True
    then have "unique_scan c (e # es) = (if e = c then Inr True else unique_scan c [e]) \<and> (e \<noteq> c \<longrightarrow> (\<exists>err. unique_scan c [e] = Inl err))"
      using Cons.prems by (intro unique_scan_same) simp_all
    then show ?thesis
      using True fresh by (cases "e = c") auto
  next
    case False
    then have "unique_scan c (e # es) = unique_scan c es"
      using Cons.prems by (intro unique_scan_other) simp_all
    then show ?thesis
      using Cons.IH Cons.prems False by (cases "unique_scan c es") auto
  qed
qed simp

lemma push_unique_atom:
  assumes "is_atom c" "atoms_ok cs"
  shows "case push_unique_context c cs of
      Inl _ \<Rightarrow> \<not> one_per_slot (insert c (set cs))
    | Inr r \<Rightarrow> one_per_slot (insert c (set cs)) \<and> atoms_ok r \<and> set r = insert c (set cs)"
proof (cases "unique_scan c cs")
  case (Inl e)
  then show ?thesis
    using unique_scan_atom [of c cs] assms by (auto simp: atoms_ok_def push_unique_context_def one_per_slot_def)
next
  case (Inr found)
  then have scan: "found \<longleftrightarrow> c \<in> set cs" "\<forall>e \<in> set cs. ctx_slot e = ctx_slot c \<longrightarrow> e = c"
    using unique_scan_atom [of c cs] assms by (auto simp: atoms_ok_def)
  have "one_per_slot (insert c (set cs))"
    using atoms_ok_one [OF assms(2)] scan(2) unfolding one_per_slot_def by (metis insert_iff)
  moreover have "ctx_slot c \<notin> ctx_slot ` set cs" if "c \<notin> set cs"
    using that scan(2) by force
  ultimately show ?thesis
    using Inr scan(1) assms by (auto simp: push_unique_context_def atoms_ok_def)
qed

lemma one_per_slot_subset: "\<lbrakk>one_per_slot S; T \<subseteq> S\<rbrakk> \<Longrightarrow> one_per_slot T"
  unfolding one_per_slot_def by blast

lemma push_all_atoms:
  "\<lbrakk>\<forall>c \<in> set cs. is_atom c; atoms_ok acc\<rbrakk>
   \<Longrightarrow> (case push_all_unique cs acc of
         Inl _ \<Rightarrow> \<not> one_per_slot (set acc \<union> set cs)
       | Inr r \<Rightarrow> one_per_slot (set acc \<union> set cs) \<and> atoms_ok r \<and> set r = set acc \<union> set cs)"
proof (induction cs arbitrary: acc)
  case Nil
  then show ?case
    using atoms_ok_one by simp
next
  case (Cons c cs)
  then have push: "case push_unique_context c acc of
      Inl _ \<Rightarrow> \<not> one_per_slot (insert c (set acc))
    | Inr r \<Rightarrow> one_per_slot (insert c (set acc)) \<and> atoms_ok r \<and> set r = insert c (set acc)"
    by (intro push_unique_atom) simp_all
  show ?case
  proof (cases "push_unique_context c acc")
    case (Inl e)
    then have "\<not> one_per_slot (set acc \<union> set (c # cs))"
      using push one_per_slot_subset [of "set acc \<union> set (c # cs)" "insert c (set acc)"] by auto
    then show ?thesis
      using Inl by simp
  next
    case (Inr r)
    then have r: "atoms_ok r" "set r = insert c (set acc)"
      using push by simp_all
    have "set acc \<union> set (c # cs) = set r \<union> set cs"
      using r(2) by auto
    then show ?thesis
      using Cons.IH [OF _ r(1)] Cons.prems(1) Inr by (simp only: push_all_unique.simps bind_result.simps list.set_intros Ball_def list.set insert_iff) simp
  qed
qed

lemma flatten_step:
  assumes "flat_ctx c"
  shows "(case c of GlobalCtx \<Rightarrow> Inr acc | AllCtx nested \<Rightarrow> push_all_unique nested acc | _ \<Rightarrow> push_unique_context c acc) =
    push_all_unique (atoms_of c) acc"
proof -
  have "bind_result r (push_all_unique []) = r" for r
    by (cases r) simp_all
  then show ?thesis
    by (cases c) simp_all
qed

lemma push_all_append: "push_all_unique (xs @ ys) acc = bind_result (push_all_unique xs acc) (push_all_unique ys)"
proof (induction xs arbitrary: acc)
  case (Cons x xs)
  show ?case
    using Cons.IH by (cases "push_unique_context x acc") simp_all
qed simp

lemma flatten_atoms:
  "\<forall>c \<in> set cs. flat_ctx c \<Longrightarrow> flatten_contexts cs acc = push_all_unique (concat (map atoms_of cs)) acc"
  by (induction cs arbitrary: acc) (simp_all add: flatten_step push_all_append fun_eq_iff cong: bind_result_cong)

lemma find_domain_iff: "atoms_ok cs \<Longrightarrow> find_domain cs = Some d \<longleftrightarrow> DomainCtx d \<in> set cs"
  by (induction cs rule: find_domain.induct) (auto simp: atoms_ok_def rev_image_eqI)

lemma find_world_domain_iff: "atoms_ok cs \<Longrightarrow> find_world_domain cs = Some n \<longleftrightarrow> (\<exists>w. WorldCtx w \<in> set cs \<and> n = id_namespace w)"
  by (induction cs rule: find_world_domain.induct) (auto simp: atoms_ok_def rev_image_eqI)

text \<open>A chain can hold: no slot twice, and a domain only beside a world of that domain.\<close>

definition consistent :: "rule_context set \<Rightarrow> bool" where
  "consistent S \<longleftrightarrow> one_per_slot S \<and> (\<forall>d w. DomainCtx d \<in> S \<longrightarrow> WorldCtx w \<in> S \<longrightarrow> d = id_namespace w)"

text \<open>What is left of it: the domain goes when a world implies it.\<close>

definition reduced :: "rule_context set \<Rightarrow> rule_context set" where
  "reduced S = (if \<exists>w. WorldCtx w \<in> S then {c \<in> S. \<not> is_domain c} else S)"

definition ctx_canonical :: "rule_context \<Rightarrow> bool" where
  "ctx_canonical c \<longleftrightarrow> (let cs = atoms_of c in
     atoms_ok cs \<and> sorted (map compare_key cs) \<and> consistent (set cs) \<and> reduced (set cs) = set cs \<and>
     c = (case cs of [] \<Rightarrow> GlobalCtx | [x] \<Rightarrow> x | _ \<Rightarrow> AllCtx cs))"

lemma is_domain_iff: "is_domain c \<longleftrightarrow> (\<exists>d. c = DomainCtx d)"
  by (cases c) simp_all

lemma normalize_atoms:
  assumes "atoms_ok cs"
  shows "case normalize_world_domain cs of
      Inl _ \<Rightarrow> \<not> consistent (set cs)
    | Inr r \<Rightarrow> consistent (set cs) \<and> atoms_ok r \<and> set r = reduced (set cs)"
proof -
  note domain = find_domain_iff [OF assms] and world = find_world_domain_iff [OF assms]
  have filtered: "atoms_ok (filter P cs)" for P
    using assms distinct_map_filter by (auto simp: atoms_ok_def)
  have one: "one_per_slot (set cs)"
    by (rule atoms_ok_one [OF assms])
  have unique: "w = v" if "WorldCtx w \<in> set cs" "WorldCtx v \<in> set cs" for w v
    using one that unfolding one_per_slot_def by (metis ctx_slot.simps(2) rule_context.inject(2))
  have unique_domain: "d = e" if "DomainCtx d \<in> set cs" "DomainCtx e \<in> set cs" for d e
    using one that unfolding one_per_slot_def by (metis ctx_slot.simps(1) rule_context.inject(1))
  show ?thesis
  proof (cases "find_domain cs")
    case None
    then have "DomainCtx d \<notin> set cs" for d
      using domain [of d] by simp
    then show ?thesis
      using None one assms by (auto simp: normalize_world_domain_def consistent_def reduced_def is_domain_iff)
  next
    case (Some d)
    then have d: "DomainCtx d \<in> set cs"
      using domain by simp
    show ?thesis
    proof (cases "find_world_domain cs")
      case None
      then have "WorldCtx w \<notin> set cs" for w
        using world [of "id_namespace w"] by auto
      then show ?thesis
        using Some None one assms by (auto simp: normalize_world_domain_def consistent_def reduced_def)
    next
      case (Some n)
      then obtain w where w: "WorldCtx w \<in> set cs" "n = id_namespace w"
        using world by blast
      have "consistent (set cs) \<longleftrightarrow> d = n"
        using one d w unique unique_domain unfolding consistent_def by metis
      moreover have "normalize_world_domain cs =
          (if d \<noteq> n then Inl (WorldDomainMismatch d n) else Inr (filter (\<lambda>c. \<not> is_domain c) cs))"
        using \<open>find_domain cs = Some d\<close> Some by (simp add: normalize_world_domain_def)
      moreover have "set (filter (\<lambda>c. \<not> is_domain c) cs) = reduced (set cs)"
        using w(1) by (auto simp: reduced_def)
      ultimately show ?thesis
        using filtered by simp
    qed
  qed
qed

lemma compare_key_inj: "\<lbrakk>is_atom c; is_atom d; compare_key c = compare_key d\<rbrakk> \<Longrightarrow> c = d"
  by (cases c; cases d) auto

text \<open>Lists of constraints that fill each slot once are sorted in one way only.\<close>

lemma sorted_atoms_equal:
  assumes "atoms_ok cs" "atoms_ok ds" "set cs = set ds" "sorted (map compare_key cs)" "sorted (map compare_key ds)"
  shows "cs = ds"
proof -
  have inj: "inj_on compare_key (set cs)"
    using assms(1) compare_key_inj by (auto simp: inj_on_def atoms_ok_def)
  have "distinct cs" "distinct ds"
    using assms(1,2) by (auto simp: atoms_ok_def distinct_map)
  then have "distinct (map compare_key cs)" "distinct (map compare_key ds)"
    using inj assms(3) by (simp_all add: distinct_map)
  then have "map compare_key cs = map compare_key ds"
    using assms(3-5) by (intro sorted_distinct_set_unique) simp_all
  then show ?thesis
    using inj assms(3) by (auto intro: map_inj_on)
qed

lemma atoms_ok_sort: "atoms_ok cs \<Longrightarrow> atoms_ok (sort_key f cs)"
  by (auto simp: atoms_ok_def distinct_map)

lemma atoms_of_pack:
  "\<forall>c \<in> set cs. is_atom c \<Longrightarrow> atoms_of (case cs of [] \<Rightarrow> GlobalCtx | [c] \<Rightarrow> c | _ \<Rightarrow> AllCtx cs) = cs"
  by (cases cs rule: remdups_adj.cases) (auto, case_tac x, auto)

lemma reduced_reduced: "reduced (reduced S) = reduced S"
  by (auto simp: reduced_def)

lemma consistent_reduced: "consistent S \<Longrightarrow> consistent (reduced S)"
  by (auto simp: consistent_def reduced_def one_per_slot_def)

definition all_atoms :: "rule_context list \<Rightarrow> rule_context set" where
  "all_atoms cs = (\<Union>c \<in> set cs. set (atoms_of c))"

text \<open>A chain succeeds exactly if its constraints agree, and its result holds what is left of them.\<close>

lemma ctx_all_result:
  assumes "\<forall>c \<in> set cs. flat_ctx c"
  shows "case ctx_all cs of
      Inl _ \<Rightarrow> \<not> consistent (all_atoms cs)
    | Inr c \<Rightarrow> consistent (all_atoms cs) \<and> ctx_canonical c \<and> set (atoms_of c) = reduced (all_atoms cs)"
proof -
  let ?as = "concat (map atoms_of cs)"
  have atoms: "\<forall>c \<in> set ?as. is_atom c" and set_as: "set ?as = all_atoms cs"
    using assms by (auto simp: flat_ctx_def all_atoms_def)
  have flat: "flatten_contexts cs [] = push_all_unique ?as []"
    by (rule flatten_atoms [OF assms])
  note pushed = push_all_atoms [OF atoms atoms_ok_Nil, simplified, unfolded set_as [simplified]]
  show ?thesis
  proof (cases "push_all_unique ?as []")
    case (Inl e)
    then have "\<not> consistent (all_atoms cs)"
      using pushed by (simp add: consistent_def set_as [simplified])
    then show ?thesis
      using Inl flat by (simp add: ctx_all_def)
  next
    case (Inr r)
    then have r: "atoms_ok r" "set r = all_atoms cs"
      using pushed by (simp_all add: set_as [simplified])
    show ?thesis
    proof (cases "normalize_world_domain r")
      case (Inl e)
      then show ?thesis
        using normalize_atoms [OF r(1)] flat Inr r(2) by (simp add: ctx_all_def)
    next
      case (Inr n)
      then have n: "consistent (all_atoms cs)" "atoms_ok n" "set n = reduced (all_atoms cs)"
        using normalize_atoms [OF r(1)] r(2) by simp_all
      let ?s = "sort_key compare_key n"
      let ?c = "case ?s of [] \<Rightarrow> GlobalCtx | [c] \<Rightarrow> c | _ \<Rightarrow> AllCtx ?s"
      have c: "ctx_all cs = Inr ?c"
        using flat \<open>push_all_unique ?as [] = Inr r\<close> Inr by (simp add: ctx_all_def Let_def)
      have "\<forall>c \<in> set ?s. is_atom c"
        using n(2) by (simp add: atoms_ok_def)
      then have s: "atoms_of ?c = ?s"
        by (rule atoms_of_pack)
      have "ctx_canonical ?c"
        using atoms_ok_sort [OF n(2)] consistent_reduced [OF n(1)] n(3)
        unfolding ctx_canonical_def Let_def s by (simp add: reduced_reduced)
      then show ?thesis
        using c s n(1,3) by simp
    qed
  qed
qed

lemma ctx_canonical_unique:
  assumes "ctx_canonical c" "ctx_canonical d" "set (atoms_of c) = set (atoms_of d)"
  shows "c = d"
proof -
  have "atoms_of c = atoms_of d"
    using assms by (intro sorted_atoms_equal) (simp_all add: ctx_canonical_def Let_def)
  moreover have "c = (case atoms_of c of [] \<Rightarrow> GlobalCtx | [x] \<Rightarrow> x | _ \<Rightarrow> AllCtx (atoms_of c))"
      "d = (case atoms_of d of [] \<Rightarrow> GlobalCtx | [x] \<Rightarrow> x | _ \<Rightarrow> AllCtx (atoms_of d))"
    using assms(1,2) by (simp_all only: ctx_canonical_def Let_def)
  ultimately show ?thesis
    by metis
qed

lemma ctx_canonical_flat: "ctx_canonical c \<Longrightarrow> flat_ctx c"
  by (simp add: ctx_canonical_def flat_ctx_def Let_def atoms_ok_def)

section \<open>Matching\<close>

text \<open>The active context of someone in a world is in the world's domain.\<close>

definition domain_of_world :: "active_context \<Rightarrow> bool" where
  "domain_of_world a \<longleftrightarrow> (\<forall>w. ac_world a = Some w \<longrightarrow> ac_domain a = Some (id_namespace w))"

lemma ctx_matches_atoms: "flat_ctx c \<Longrightarrow> ctx_matches c a \<longleftrightarrow> (\<forall>x \<in> set (atoms_of c). ctx_matches x a)"
  by (cases c) simp_all

lemma reduced_matches:
  assumes "domain_of_world a" "consistent S"
  shows "(\<forall>x \<in> reduced S. ctx_matches x a) \<longleftrightarrow> (\<forall>x \<in> S. ctx_matches x a)"
proof
  assume r: "\<forall>x \<in> reduced S. ctx_matches x a"
  show "\<forall>x \<in> S. ctx_matches x a"
  proof
    fix x
    assume x: "x \<in> S"
    show "ctx_matches x a"
    proof (cases "x \<in> reduced S")
      case False
      then obtain d w where "x = DomainCtx d" "WorldCtx w \<in> S"
        using x by (auto simp: reduced_def is_domain_iff split: if_splits)
      moreover from this have "d = id_namespace w" "WorldCtx w \<in> reduced S"
        using assms(2) x by (auto simp: consistent_def reduced_def)
      ultimately show ?thesis
        using r assms(1) by (auto simp: domain_of_world_def)
    qed (use r in blast)
  qed
qed (auto simp: reduced_def split: if_splits)

lemma ctx_all_matches:
  assumes "\<forall>c \<in> set cs. flat_ctx c" "ctx_all cs = Inr c" "domain_of_world a"
  shows "ctx_matches c a \<longleftrightarrow> (\<forall>x \<in> set cs. ctx_matches x a)"
proof -
  have c: "consistent (all_atoms cs)" "ctx_canonical c" "set (atoms_of c) = reduced (all_atoms cs)"
    using ctx_all_result [OF assms(1)] assms(2) by simp_all
  have "ctx_matches c a \<longleftrightarrow> (\<forall>x \<in> all_atoms cs. ctx_matches x a)"
    using ctx_matches_atoms [OF ctx_canonical_flat [OF c(2)]] reduced_matches [OF assms(3) c(1)] c(3) by simp
  also have "\<dots> \<longleftrightarrow> (\<forall>x \<in> set cs. ctx_matches x a)"
    using assms(1) ctx_matches_atoms by (auto simp: all_atoms_def)
  finally show ?thesis .
qed

end
