(* ===== verification/PermExpr.thy ===== *)
theory PermExpr
  imports PermContext
begin

text \<open>
  Permission rules as text (\<open>foton-core/src/permission/rule_expression.rs\<close>): a key with the contexts it applies
  in, how it is read and how it is written.
\<close>

section \<open>Reading\<close>

datatype expression_context_error =
    EmptyContext
  | InvalidContextEntry utext
  | InvalidContextValue utext utext
  | DuplicateContextKey utext
  | ExprInvalidDomain utext
  | ExprInvalidWorld utext
  | InvalidContextKey utext context_key_error
  | InvalidRuleContext rule_context_error

text \<open>The public error repeats the variants of the context error; here it wraps them.\<close>

datatype rule_expression_error =
    InvalidPermissionKey utext permission_key_error
  | UnclosedContext
  | FromContextError expression_context_error

datatype rule_expression = RuleExpression (rule_key: permission_key) (rule_ctx: rule_context)

definition map_err :: "('e \<Rightarrow> 'f) \<Rightarrow> 'e + 'a \<Rightarrow> 'f + 'a" where
  "map_err f r = (case r of Inl e \<Rightarrow> Inl (f e) | Inr x \<Rightarrow> Inr x)"

lemma map_err_Inr: "map_err f r = Inr x \<longleftrightarrow> r = Inr x"
  by (cases r) (simp_all add: map_err_def)

definition parse_domain_context :: "utext \<Rightarrow> expression_context_error + rule_context" where
  "parse_domain_context value =
     (if value = [] \<or> \<not> validate_namespace value then Inl (ExprInvalidDomain value)
      else map_err InvalidRuleContext (ctx_domain value))"

definition parse_world_context :: "utext \<Rightarrow> expression_context_error + rule_context" where
  "parse_world_context value =
     (case split_once COLON value of
        None \<Rightarrow> Inl (ExprInvalidWorld value)
      | Some (domain, name) \<Rightarrow>
          if domain = [] \<or> name = [] \<or> COLON \<in> set name \<or> SLASH \<in> set name \<or> \<not> validate_namespace domain \<or> \<not> validate_path name
          then Inl (ExprInvalidWorld value)
          else Inr (WorldCtx \<lparr>id_namespace = domain, id_path = name\<rparr>))"

definition parse_custom_context :: "utext \<Rightarrow> utext \<Rightarrow> expression_context_error + rule_context" where
  "parse_custom_context key value =
     bind_result (map_err (InvalidContextKey key) (context_key_parse key))
       (\<lambda>key. map_err InvalidRuleContext (ctx_custom key value))"

definition DOMAIN_KEY :: utext where "DOMAIN_KEY = str ''domain''"
definition WORLD_KEY :: utext where "WORLD_KEY = str ''world''"

definition parse_context_entry :: "utext \<Rightarrow> utext \<Rightarrow> expression_context_error + rule_context" where
  "parse_context_entry key value =
     (if key = DOMAIN_KEY then parse_domain_context value
      else if key = WORLD_KEY then parse_world_context value
      else parse_custom_context key value)"

fun parse_entries :: "utext list \<Rightarrow> utext list \<Rightarrow> rule_context list \<Rightarrow> expression_context_error + rule_context list" where
  "parse_entries [] seen contexts = Inr contexts"
| "parse_entries (entry # entries) seen contexts =
     (case split_once EQUALS entry of
        None \<Rightarrow> Inl (InvalidContextEntry entry)
      | Some (key, value) \<Rightarrow>
          if key = [] \<or> value = [] then Inl (InvalidContextEntry entry)
          else if list_ex bad_value_char value then Inl (InvalidContextValue key value)
          else if key \<in> set seen then Inl (DuplicateContextKey key)
          else bind_result (parse_context_entry key value) (\<lambda>c. parse_entries entries (key # seen) (contexts @ [c])))"

definition parse_context :: "utext \<Rightarrow> expression_context_error + rule_context" where
  "parse_context value =
     (if value = [] then Inl EmptyContext
      else bind_result (parse_entries (split_on COMMA value) [] []) (\<lambda>contexts. map_err InvalidRuleContext (ctx_all contexts)))"

definition rule_parse :: "utext \<Rightarrow> rule_expression_error + rule_expression" where
  "rule_parse value =
     (case split_once LBRACE value of
        None \<Rightarrow> bind_result (map_err (InvalidPermissionKey value) (key_parse value)) (\<lambda>key. Inr (RuleExpression key GlobalCtx))
      | Some (key_value, rest) \<Rightarrow>
          if rest = [] \<or> last rest \<noteq> RBRACE then Inl UnclosedContext
          else bind_result (map_err (InvalidPermissionKey key_value) (key_parse key_value)) (\<lambda>key.
               bind_result (map_err FromContextError (parse_context (butlast rest))) (\<lambda>context.
               Inr (RuleExpression key context))))"

section \<open>Writing\<close>

definition context_entry :: "utext \<Rightarrow> utext \<Rightarrow> utext" where
  "context_entry key value = key @ EQUALS # value"

text \<open>The entries, which the code separates by a flag for the first of them.\<close>

fun context_entries :: "rule_context \<Rightarrow> utext list" where
  "context_entries GlobalCtx = []"
| "context_entries (DomainCtx d) = [context_entry DOMAIN_KEY d]"
| "context_entries (WorldCtx w) = [context_entry WORLD_KEY (identifier_text w)]"
| "context_entries (CustomCtx k v) = [context_entry k v]"
| "context_entries (AllCtx cs) = concat (map context_entries cs)"

definition write_context :: "rule_context \<Rightarrow> utext" where
  "write_context c = (if c = GlobalCtx then [] else LBRACE # join_with COMMA (context_entries c) @ [RBRACE])"

definition rule_text :: "rule_expression \<Rightarrow> utext" where
  "rule_text e = key_text (rule_key e) @ write_context (rule_ctx e)"

section \<open>Which rules have a text\<close>

text \<open>What a constraint needs so that its entry is read as itself; a custom key must not be one of the built-in two.\<close>

fun readable :: "rule_context \<Rightarrow> bool" where
  "readable (DomainCtx d) \<longleftrightarrow> d \<noteq> [] \<and> validate_namespace d"
| "readable (WorldCtx w) \<longleftrightarrow> id_namespace w \<noteq> [] \<and> id_path w \<noteq> [] \<and> SLASH \<notin> set (id_path w) \<and>
     validate_namespace (id_namespace w) \<and> validate_path (id_path w)"
| "readable (CustomCtx k v) \<longleftrightarrow> context_key_parse k = Inr k \<and> v \<noteq> [] \<and> \<not> list_ex bad_value_char v \<and> k \<noteq> DOMAIN_KEY \<and> k \<noteq> WORLD_KEY"
| "readable _ \<longleftrightarrow> False"

definition valid_rule :: "rule_expression \<Rightarrow> bool" where
  "valid_rule e \<longleftrightarrow> valid_key (rule_key e) \<and> ctx_canonical (rule_ctx e) \<and> (\<forall>c \<in> set (atoms_of (rule_ctx e)). readable c)"

text \<open>The key and the value of a constraint's entry.\<close>

fun entry_key :: "rule_context \<Rightarrow> utext" where
  "entry_key (DomainCtx _) = DOMAIN_KEY"
| "entry_key (WorldCtx _) = WORLD_KEY"
| "entry_key (CustomCtx k _) = k"
| "entry_key _ = []"

fun entry_value :: "rule_context \<Rightarrow> utext" where
  "entry_value (DomainCtx d) = d"
| "entry_value (WorldCtx w) = identifier_text w"
| "entry_value (CustomCtx _ v) = v"
| "entry_value _ = []"

lemma context_entries_atom: "is_atom c \<Longrightarrow> context_entries c = [context_entry (entry_key c) (entry_value c)]"
  by (cases c) simp_all

definition name_char :: "nat \<Rightarrow> bool" where
  "name_char c \<longleftrightarrow> valid_char c \<or> c = COLON"

lemma name_char_plain: "name_char c \<Longrightarrow> \<not> bad_value_char c"
  by (auto simp: name_char_def valid_char_def valid_namespace_char_def is_ascii_lowercase_def is_ascii_digit_def bad_value_char_def
      is_whitespace_def COLON_def SLASH_def DOT_def LBRACE_def RBRACE_def COMMA_def EQUALS_def)

lemma key_chars:
  "DOMAIN_KEY = [100, 111, 109, 97, 105, 110]" "WORLD_KEY = [119, 111, 114, 108, 100]"
  by (simp_all add: DOMAIN_KEY_def WORLD_KEY_def str_def)

lemma segment_name_char: "segment_char c \<Longrightarrow> name_char c"
  by (auto simp: segment_char_def name_char_def valid_char_def valid_namespace_char_def)

lemma context_key_chars:
  assumes "context_key_parse k = Inr k"
  shows "k \<noteq> [] \<and> list_all name_char k"
proof (cases "COLON \<in> set k")
  case True
  then obtain ns p where k: "split_once COLON k = Some (ns, p)"
    using split_once_None [of COLON k] by auto
  then have "ns \<noteq> []" "validate_namespace ns" "validate_path p"
    using assms True
    by (auto simp: context_key_parse_def validate_namespaced_context_key_def bind_result_Inr_iff split: if_splits)
  then show ?thesis
    using split_once_Some [of COLON k ns p] k
    by (auto simp: validate_namespace_def validate_path_def valid_char_def name_char_def list_all_iff)
next
  case False
  then obtain s where "segment_parse k = Inr s"
    using assms by (auto simp: context_key_parse_def split: sum.splits)
  then show ?thesis
    using segment_parse_valid [of k s] segment_name_char by (auto simp: valid_segment_def list_all_iff)
qed

lemma readable_entry:
  assumes "readable c"
  shows "entry_key c \<noteq> []" "list_all name_char (entry_key c)" "entry_value c \<noteq> []" "\<not> list_ex bad_value_char (entry_value c)"
    "parse_context_entry (entry_key c) (entry_value c) = Inr c" "is_atom c"
proof -
  have all: "entry_key c \<noteq> [] \<and> list_all name_char (entry_key c) \<and> entry_value c \<noteq> [] \<and> \<not> list_ex bad_value_char (entry_value c) \<and>
    parse_context_entry (entry_key c) (entry_value c) = Inr c \<and> is_atom c"
  proof (cases c)
    case (DomainCtx d)
    then have d: "d \<noteq> []" "validate_namespace d" "list_all name_char d"
      using assms by (auto simp: validate_namespace_def name_char_def valid_char_def list_all_iff)
    have "\<not> list_ex bad_value_char d"
      using d(3) name_char_plain by (auto simp: list_all_iff list_ex_iff)
    then show ?thesis
      using DomainCtx d by (simp add: parse_context_entry_def parse_domain_context_def ctx_domain_def domain_parse_def map_err_def)
        (simp add: key_chars name_char_def valid_char_def valid_namespace_char_def is_ascii_lowercase_def)
  next
    case (WorldCtx w)
    then have w: "id_namespace w \<noteq> []" "id_path w \<noteq> []" "SLASH \<notin> set (id_path w)" "validate_namespace (id_namespace w)" "validate_path (id_path w)"
      using assms by simp_all
    have no_colon: "COLON \<notin> set (id_namespace w)" "COLON \<notin> set (id_path w)"
      using w(4,5) by (auto simp: validate_namespace_def validate_path_def list_all_iff valid_char_def valid_namespace_char_def
          is_ascii_lowercase_def is_ascii_digit_def COLON_def SLASH_def DOT_def)
    have "list_all name_char (identifier_text w)"
      using w(4,5) by (auto simp: identifier_text_def validate_namespace_def validate_path_def name_char_def valid_char_def list_all_iff)
    then have "\<not> list_ex bad_value_char (identifier_text w)"
      using name_char_plain by (auto simp: list_all_iff list_ex_iff)
    moreover have "split_once COLON (identifier_text w) = Some (id_namespace w, id_path w)"
      using no_colon by (simp add: split_once_Some identifier_text_def)
    moreover have "WORLD_KEY \<noteq> DOMAIN_KEY" "list_all name_char WORLD_KEY" "WORLD_KEY \<noteq> []"
      by (simp_all add: key_chars name_char_def valid_char_def valid_namespace_char_def is_ascii_lowercase_def)
    ultimately show ?thesis
      using WorldCtx w no_colon by (simp add: parse_context_entry_def parse_world_context_def identifier_text_def)
  next
    case (CustomCtx k v)
    then show ?thesis
      using assms context_key_chars [of k]
      by (simp add: parse_context_entry_def parse_custom_context_def map_err_def ctx_custom_def value_parse_def)
  qed (use assms in simp_all)
  then show "entry_key c \<noteq> []" "list_all name_char (entry_key c)" "entry_value c \<noteq> []" "\<not> list_ex bad_value_char (entry_value c)"
    "parse_context_entry (entry_key c) (entry_value c) = Inr c" "is_atom c"
    by blast+
qed

text \<open>What an entry is read as is a constraint whose entry it is.\<close>

lemma parsed_entry:
  assumes "parse_context_entry k v = Inr c" "v \<noteq> []" "\<not> list_ex bad_value_char v"
  shows "readable c"
proof -
  consider (domain) "k = DOMAIN_KEY" | (world) "k = WORLD_KEY" "k \<noteq> DOMAIN_KEY" | (custom) "k \<noteq> DOMAIN_KEY" "k \<noteq> WORLD_KEY"
    by blast
  then show ?thesis
  proof cases
    case domain
    then show ?thesis
      using assms by (auto simp: parse_context_entry_def parse_domain_context_def ctx_domain_def domain_parse_def map_err_def split: if_splits)
  next
    case world
    then show ?thesis
      using assms by (auto simp: parse_context_entry_def parse_world_context_def split: option.splits if_splits)
  next
    case custom
    then obtain k' where k': "context_key_parse k = Inr k'" "map_err InvalidRuleContext (ctx_custom k' v) = Inr c"
      using assms(1) by (auto simp: parse_context_entry_def parse_custom_context_def bind_result_Inr_iff map_err_def split: sum.splits)
    moreover have "k' = k"
      using k'(1) by (auto simp: context_key_parse_def bind_result_Inr_iff split: if_splits sum.splits)
    ultimately show ?thesis
      using assms(2,3) custom by (auto simp: ctx_custom_def value_parse_def map_err_def)
  qed
qed

lemma parse_entries_readable:
  "parse_entries es seen acc = Inr r \<Longrightarrow> \<exists>cs. r = acc @ cs \<and> (\<forall>c \<in> set cs. readable c)"
proof (induction es arbitrary: seen acc)
  case (Cons e es)
  obtain k v where kv: "split_once EQUALS e = Some (k, v)" "k \<noteq> []" "v \<noteq> []" "\<not> list_ex bad_value_char v"
    using Cons.prems by (auto split: option.splits if_splits)
  obtain c where c: "parse_context_entry k v = Inr c" "parse_entries es (k # seen) (acc @ [c]) = Inr r"
    using Cons.prems kv by (auto simp: bind_result_Inr_iff split: if_splits)
  obtain cs where "r = (acc @ [c]) @ cs" "\<forall>c \<in> set cs. readable c"
    using Cons.IH [OF c(2)] by blast
  then show ?case
    using parsed_entry [OF c(1) kv(3,4)] by (intro exI [of _ "c # cs"]) simp
qed simp

lemma parse_entries_written:
  "\<lbrakk>\<forall>c \<in> set cs. readable c; distinct (map entry_key cs); set seen \<inter> entry_key ` set cs = {}\<rbrakk>
   \<Longrightarrow> parse_entries (map (\<lambda>c. context_entry (entry_key c) (entry_value c)) cs) seen acc = Inr (acc @ cs)"
proof (induction cs arbitrary: seen acc)
  case (Cons c cs)
  have c: "readable c"
    using Cons.prems(1) by simp
  have "EQUALS \<notin> set (entry_key c)"
    using readable_entry(2) [OF c] name_char_plain [of EQUALS] by (auto simp: list_all_iff bad_value_char_def)
  then have "split_once EQUALS (context_entry (entry_key c) (entry_value c)) = Some (entry_key c, entry_value c)"
    by (simp add: split_once_Some context_entry_def)
  moreover have "parse_entries (map (\<lambda>c. context_entry (entry_key c) (entry_value c)) cs) (entry_key c # seen) (acc @ [c]) = Inr ((acc @ [c]) @ cs)"
    using Cons.prems by (intro Cons.IH) auto
  ultimately show ?case
    using readable_entry [OF c] Cons.prems(3) by simp
qed simp

text \<open>Constraints that fill different slots have different keys.\<close>

lemma entry_key_slot: "\<lbrakk>readable c; readable d; entry_key c = entry_key d\<rbrakk> \<Longrightarrow> ctx_slot c = ctx_slot d"
  by (cases c; cases d) (auto simp: key_chars)

lemma canonical_again:
  assumes "ctx_canonical c"
  shows "ctx_all (atoms_of c) = Inr c"
proof -
  have c: "atoms_ok (atoms_of c)" "consistent (set (atoms_of c))" "reduced (set (atoms_of c)) = set (atoms_of c)"
    using assms by (simp_all add: ctx_canonical_def Let_def)
  have atoms: "\<forall>x \<in> set (atoms_of c). is_atom x"
    using c(1) by (simp add: atoms_ok_def)
  have single: "atoms_of x = [x]" if "is_atom x" for x
    using that by (cases x) simp_all
  then have flat: "\<forall>x \<in> set (atoms_of c). flat_ctx x" and all: "all_atoms (atoms_of c) = set (atoms_of c)"
    using atoms by (auto simp: flat_ctx_def all_atoms_def)
  show ?thesis
  proof (cases "ctx_all (atoms_of c)")
    case (Inl e)
    then show ?thesis
      using ctx_all_result [OF flat] all c(2) by simp
  next
    case (Inr d)
    then have "ctx_canonical d" "set (atoms_of d) = set (atoms_of c)"
      using ctx_all_result [OF flat] all c(3) by simp_all
    then show ?thesis
      using ctx_canonical_unique assms Inr by metis
  qed
qed

lemma written_entries:
  assumes "flat_ctx c"
  shows "context_entries c = map (\<lambda>x. context_entry (entry_key x) (entry_value x)) (atoms_of c)"
proof (cases "is_atom c")
  case True
  then show ?thesis
    using context_entries_atom [OF True] by (cases c) simp_all
next
  case False
  have "concat (map context_entries cs) = map (\<lambda>x. context_entry (entry_key x) (entry_value x)) cs" if "\<forall>x \<in> set cs. is_atom x" for cs
    using that by (induction cs) (simp_all add: context_entries_atom)
  then show ?thesis
    using False assms by (cases c) (simp_all add: flat_ctx_def)
qed

lemma parse_written_context:
  assumes "ctx_canonical c" "\<forall>x \<in> set (atoms_of c). readable x" "c \<noteq> GlobalCtx"
  shows "parse_context (join_with COMMA (context_entries c)) = Inr c"
proof -
  let ?entry = "\<lambda>x. context_entry (entry_key x) (entry_value x)"
  have flat: "flat_ctx c" and ok: "atoms_ok (atoms_of c)"
    using assms(1) ctx_canonical_flat by (simp_all add: ctx_canonical_def Let_def)
  note entries = written_entries [OF flat]
  have "atoms_of c \<noteq> []"
    using assms(1,3) by (auto simp: ctx_canonical_def Let_def)
  have free: "COMMA \<notin> set (?entry x)" if "x \<in> set (atoms_of c)" for x
  proof -
    have x: "readable x"
      using assms(2) that by blast
    have "COMMA \<notin> set (entry_key x)" "COMMA \<notin> set (entry_value x)"
      using readable_entry(2,4) [OF x] name_char_plain [of COMMA] by (auto simp: list_all_iff list_ex_iff bad_value_char_def)
    then show ?thesis
      by (simp add: context_entry_def COMMA_def EQUALS_def)
  qed
  have split: "split_on COMMA (join_with COMMA (context_entries c)) = context_entries c"
    unfolding entries using free \<open>atoms_of c \<noteq> []\<close> by (intro split_join) auto
  have "distinct (map entry_key (atoms_of c))"
    using ok assms(2) entry_key_slot by (auto simp: atoms_ok_def distinct_map inj_on_def)
  then have parsed: "parse_entries (context_entries c) [] [] = Inr (atoms_of c)"
    unfolding entries using parse_entries_written [of "atoms_of c" "[]" "[]"] assms(2) by simp
  have "join_with COMMA (context_entries c) \<noteq> []"
  proof
    assume "join_with COMMA (context_entries c) = []"
    then have "context_entries c = [[]]"
      using split by simp
    then show False
      unfolding entries by (auto simp: context_entry_def)
  qed
  then show ?thesis
    using split parsed canonical_again [OF assms(1)] by (simp add: parse_context_def map_err_def)
qed

lemma valid_key_chars:
  assumes "valid_key k" "c \<in> set (key_text k)"
  shows "segment_char c \<or> c = STAR \<or> c = DOT"
proof -
  have joined: "key_text k = join_with DOT (key_segments k)"
    by (simp add: key_segments_def)
  have member: "c \<in> set (join_with d ps) \<Longrightarrow> c = d \<or> (\<exists>p \<in> set ps. c \<in> set p)" for d :: nat and ps
    by (induction ps rule: join_with.induct) auto
  have "c = DOT \<or> (\<exists>p \<in> set (key_segments k). c \<in> set p)"
    using member [of DOT "key_segments k"] assms(2) joined by simp
  moreover have "p = [STAR] \<or> valid_segment p" if "p \<in> set (key_segments k)" for p
  proof -
    have "p \<in> set (butlast (key_segments k)) \<or> p = last (key_segments k)"
      using that by (metis append_butlast_last_id key_segments_not_Nil in_set_conv_decomp_last rotate1.simps(2) set_rotate1 set_ConsD)
    then show ?thesis
      using assms(1) by (auto simp: valid_key_def Let_def list_all_iff)
  qed
  ultimately obtain p where "c = DOT \<or> c \<in> set p \<and> (p = [STAR] \<or> valid_segment p)"
    by blast
  then show ?thesis
    by (auto simp: valid_segment_def list_all_iff)
qed

lemma valid_key_no_brace: "valid_key k \<Longrightarrow> LBRACE \<notin> set (key_text k)"
  using valid_key_chars [of k LBRACE]
  by (auto simp: segment_char_def is_ascii_lowercase_def is_ascii_digit_def LBRACE_def STAR_def DOT_def)

lemma rule_parse_text:
  assumes "valid_rule e"
  shows "rule_parse (rule_text e) = Inr e"
proof -
  obtain k c where e: "e = RuleExpression k c"
    by (cases e)
  have k: "valid_key k" "key_parse (key_text k) = Inr k"
    using assms e key_parse_valid [of "key_text k" k] by (simp_all add: valid_rule_def)
  note brace = valid_key_no_brace [OF k(1)]
  show ?thesis
  proof (cases "c = GlobalCtx")
    case True
    then show ?thesis
      using e k brace split_once_None [of LBRACE "key_text k"] by (simp add: rule_text_def write_context_def rule_parse_def map_err_def)
  next
    case False
    let ?w = "join_with COMMA (context_entries c)"
    have "split_once LBRACE (rule_text e) = Some (key_text k, ?w @ [RBRACE])"
      using brace False e by (simp add: split_once_Some rule_text_def write_context_def)
    moreover have "parse_context ?w = Inr c"
      using assms e False by (intro parse_written_context) (simp_all add: valid_rule_def)
    ultimately show ?thesis
      using k(2) e by (simp add: rule_parse_def map_err_def)
  qed
qed

text \<open>Whatever text was read, the context that came of it is canonical and could be written.\<close>

lemma parse_context_canonical:
  assumes "parse_context t = Inr c"
  shows "ctx_canonical c \<and> (\<forall>x \<in> set (atoms_of c). readable x)"
proof -
  obtain cs where cs: "parse_entries (split_on COMMA t) [] [] = Inr cs" "ctx_all cs = Inr c"
    using assms by (auto simp: parse_context_def map_err_Inr bind_result_Inr_iff split: if_splits)
  have readable: "\<forall>x \<in> set cs. readable x"
    using parse_entries_readable [OF cs(1)] by auto
  have single: "atoms_of x = [x] \<and> flat_ctx x" if "readable x" for x
    using that by (cases x) (simp_all add: flat_ctx_def)
  then have "\<forall>x \<in> set cs. flat_ctx x" "all_atoms cs = set cs"
    using readable by (auto simp: all_atoms_def)
  then have "ctx_canonical c" "set (atoms_of c) \<subseteq> set cs"
    using ctx_all_result [of cs] cs(2) by (auto simp: reduced_def split: if_splits)
  then show ?thesis
    using readable by blast
qed

lemma global_canonical [simp]: "ctx_canonical GlobalCtx"
  by (simp add: ctx_canonical_def consistent_def one_per_slot_def reduced_def)

lemma rule_parse_valid:
  assumes "rule_parse s = Inr e"
  shows "valid_rule e"
proof (cases "split_once LBRACE s")
  case None
  then obtain k where "key_parse s = Inr k" "e = RuleExpression k GlobalCtx"
    using assms by (auto simp: rule_parse_def map_err_def bind_result_Inr_iff split: sum.splits)
  moreover from this have "valid_key k"
    using key_parse_valid by blast
  ultimately show ?thesis
    by (simp add: valid_rule_def)
next
  case (Some kr)
  then obtain t r k c where "key_parse t = Inr k" "parse_context (butlast r) = Inr c" "e = RuleExpression k c"
    using assms by (auto simp: rule_parse_def map_err_def bind_result_Inr_iff split: sum.splits if_splits prod.splits)
  then show ?thesis
    using parse_context_canonical [of "butlast r" c] key_parse_valid [of t k] by (auto simp: valid_rule_def)
qed

end
