(* ===== verification/PermSet.thy ===== *)
theory PermSet
  imports PermContext
begin

text \<open>
  Permission sets (\<open>foton-core/src/permission/set.rs\<close>) and the expressions that commands ask
  (\<open>expression.rs\<close>). The two parallel vectors of a set are kept as they are.
\<close>

section \<open>Entries and sets\<close>

datatype permission_state = Allow | Deny

record permission_entry =
  pe_key :: permission_key
  pe_context :: rule_context
  pe_state :: permission_state

datatype resolution_source = FromGroup utext int | FromSubject

definition source_rank :: "resolution_source \<Rightarrow> nat" where
  "source_rank s = (case s of FromGroup _ _ \<Rightarrow> 0 | FromSubject \<Rightarrow> 1)"

definition tie_priority :: "resolution_source \<Rightarrow> int" where
  "tie_priority s = (case s of FromGroup _ p \<Rightarrow> p | FromSubject \<Rightarrow> 0)"

definition new_with_context :: "permission_key \<Rightarrow> rule_context \<Rightarrow> permission_state \<Rightarrow> permission_entry" where
  "new_with_context k c st = \<lparr>pe_key = k, pe_context = c, pe_state = st\<rparr>"

record permission_set =
  ps_entries :: "permission_entry list"
  ps_sources :: "resolution_source list"

definition set_new :: permission_set where
  "set_new = \<lparr>ps_entries = [], ps_sources = []\<rparr>"

definition from_entries :: "permission_entry list \<Rightarrow> permission_set" where
  "from_entries es = \<lparr>ps_entries = es, ps_sources = replicate (length es) FromSubject\<rparr>"

definition push_with_source :: "permission_entry \<Rightarrow> resolution_source \<Rightarrow> permission_set \<Rightarrow> permission_set" where
  "push_with_source e s ps = ps\<lparr>ps_entries := ps_entries ps @ [e], ps_sources := ps_sources ps @ [s]\<rparr>"

definition set_push :: "permission_entry \<Rightarrow> permission_set \<Rightarrow> permission_set" where
  "set_push e ps = push_with_source e FromSubject ps"

definition push_group :: "permission_entry \<Rightarrow> utext \<Rightarrow> int \<Rightarrow> permission_set \<Rightarrow> permission_set" where
  "push_group e gname priority ps = push_with_source e (FromGroup gname priority) ps"

definition retain_entries :: "(permission_entry \<Rightarrow> bool) \<Rightarrow> permission_set \<Rightarrow> permission_set" where
  "retain_entries keep ps =
     fold (\<lambda>(e, s) acc. if keep e then push_with_source e s acc else acc) (zip (ps_entries ps) (ps_sources ps)) set_new"

definition set_in :: "permission_key \<Rightarrow> rule_context \<Rightarrow> permission_state \<Rightarrow> permission_set \<Rightarrow> permission_set" where
  "set_in k c st ps =
     set_push (new_with_context k c st) (retain_entries (\<lambda>e. pe_key e \<noteq> k \<or> pe_context e \<noteq> c) ps)"

definition unset_in :: "permission_key \<Rightarrow> rule_context \<Rightarrow> permission_set \<Rightarrow> bool \<times> permission_set" where
  "unset_in k c ps =
     (let old_len = length (ps_entries ps); ps = retain_entries (\<lambda>e. pe_key e \<noteq> k \<or> pe_context e \<noteq> c) ps in
      (length (ps_entries ps) \<noteq> old_len, ps))"

definition perm_allow_in :: "permission_key \<Rightarrow> rule_context \<Rightarrow> permission_set \<Rightarrow> permission_set" where
  "perm_allow_in k c ps = set_push (new_with_context k c Allow) ps"

definition perm_deny_in :: "permission_key \<Rightarrow> rule_context \<Rightarrow> permission_set \<Rightarrow> permission_set" where
  "perm_deny_in k c ps = set_push (new_with_context k c Deny) ps"

definition perm_allow :: "permission_key \<Rightarrow> permission_set \<Rightarrow> permission_set" where
  "perm_allow k ps = set_push (new_with_context k GlobalCtx Allow) ps"

definition perm_deny :: "permission_key \<Rightarrow> permission_set \<Rightarrow> permission_set" where
  "perm_deny k ps = set_push (new_with_context k GlobalCtx Deny) ps"

definition perm_set :: "permission_key \<Rightarrow> permission_state \<Rightarrow> permission_set \<Rightarrow> permission_set" where
  "perm_set k st ps = set_in k GlobalCtx st ps"

definition perm_unset :: "permission_key \<Rightarrow> permission_set \<Rightarrow> bool \<times> permission_set" where
  "perm_unset k ps = unset_in k GlobalCtx ps"

section \<open>Resolution\<close>

record permission_candidate =
  cd_index :: nat
  cd_key_specificity :: nat
  cd_context_specificity :: nat
  cd_source :: resolution_source
  cd_state :: permission_state

definition cd_order :: "permission_candidate \<Rightarrow> nat \<times> nat \<times> nat \<times> int" where
  "cd_order c = (cd_key_specificity c, cd_context_specificity c, source_rank (cd_source c), tie_priority (cd_source c))"

definition push_candidate :: "permission_candidate \<Rightarrow> permission_candidate option \<Rightarrow> permission_candidate option" where
  "push_candidate c best =
     (case best of
        None \<Rightarrow> Some c
      | Some current \<Rightarrow>
          if cd_order c > cd_order current then Some c
          else if cd_order c = cd_order current \<and> cd_state current = Allow \<and> cd_state c = Deny then Some c
          else best)"

definition candidate_of :: "nat \<Rightarrow> nat \<Rightarrow> permission_entry \<Rightarrow> resolution_source \<Rightarrow> permission_candidate" where
  "candidate_of index specificity e s =
     \<lparr>cd_index = index, cd_key_specificity = specificity, cd_context_specificity = ctx_specificity (pe_context e),
      cd_source = s, cd_state = pe_state e\<rparr>"

definition indexed_rules :: "permission_set \<Rightarrow> (nat \<times> permission_entry \<times> resolution_source) list" where
  "indexed_rules ps = (let rules = zip (ps_entries ps) (ps_sources ps) in zip [0..<length rules] rules)"

definition best_key_candidate :: "permission_key \<Rightarrow> active_context \<Rightarrow> permission_set \<Rightarrow> permission_candidate option" where
  "best_key_candidate k a ps =
     fold (\<lambda>(i, e, s) best.
         if \<not> ctx_matches (pe_context e) a \<or> \<not> key_matches (pe_key e) k then best
         else push_candidate (candidate_of i (key_specificity (pe_key e)) e s) best)
       (indexed_rules ps) None"

definition best_scoped_key_candidate ::
    "permission_key \<Rightarrow> permission_key \<Rightarrow> active_context \<Rightarrow> permission_set \<Rightarrow> permission_candidate option" where
  "best_scoped_key_candidate parent k a ps =
     (let parent_scopes_key = key_scopes parent k in
      fold (\<lambda>(i, e, s) best.
          if \<not> ctx_matches (pe_context e) a then best
          else
            (let matches_parent = parent_scopes_key \<and> key_matches (pe_key e) parent; matches_key = key_matches (pe_key e) k in
             if \<not> matches_parent \<and> \<not> matches_key then best
             else
               (let specificity = key_specificity (pe_key e) + (if matches_key \<and> \<not> matches_parent then 1 else 0) in
                push_candidate (candidate_of i specificity e s) best)))
        (indexed_rules ps) None)"

definition resolve_key_in :: "permission_key \<Rightarrow> active_context \<Rightarrow> permission_set \<Rightarrow> permission_state option" where
  "resolve_key_in k a ps = map_option cd_state (best_key_candidate k a ps)"

definition resolve_scoped_key_in ::
    "permission_key \<Rightarrow> permission_key \<Rightarrow> active_context \<Rightarrow> permission_set \<Rightarrow> permission_state option" where
  "resolve_scoped_key_in parent k a ps = map_option cd_state (best_scoped_key_candidate parent k a ps)"

definition resolve_key :: "permission_key \<Rightarrow> permission_set \<Rightarrow> permission_state option" where
  "resolve_key k ps = resolve_key_in k global_context ps"

record permission_resolution =
  rs_entry :: permission_entry
  rs_source :: resolution_source
  rs_key_specificity :: nat
  rs_context_specificity :: nat

definition resolution_of :: "permission_candidate \<Rightarrow> permission_set \<Rightarrow> permission_resolution" where
  "resolution_of c ps =
     \<lparr>rs_entry = ps_entries ps ! cd_index c, rs_source = cd_source c, rs_key_specificity = cd_key_specificity c,
      rs_context_specificity = cd_context_specificity c\<rparr>"

definition resolve_key_in_detailed :: "permission_key \<Rightarrow> active_context \<Rightarrow> permission_set \<Rightarrow> permission_resolution option" where
  "resolve_key_in_detailed k a ps = map_option (\<lambda>c. resolution_of c ps) (best_key_candidate k a ps)"

definition resolve_scoped_key_in_detailed ::
    "permission_key \<Rightarrow> permission_key \<Rightarrow> active_context \<Rightarrow> permission_set \<Rightarrow> permission_resolution option" where
  "resolve_scoped_key_in_detailed parent k a ps =
     map_option (\<lambda>c. resolution_of c ps) (best_scoped_key_candidate parent k a ps)"

section \<open>Expressions\<close>

datatype permission_expr =
    KeyExpr permission_key
  | ScopedKeyExpr permission_key permission_key
  | AllExpr "permission_expr list"
  | AnyExpr "permission_expr list"

fun expr_and :: "permission_expr \<Rightarrow> permission_expr \<Rightarrow> permission_expr" where
  "expr_and (AllExpr left) (AllExpr right) = AllExpr (left @ right)"
| "expr_and (AllExpr left) right = AllExpr (left @ [right])"
| "expr_and left (AllExpr right) = AllExpr (left # right)"
| "expr_and left right = AllExpr [left, right]"

fun expr_or :: "permission_expr \<Rightarrow> permission_expr \<Rightarrow> permission_expr" where
  "expr_or (AnyExpr left) (AnyExpr right) = AnyExpr (left @ right)"
| "expr_or (AnyExpr left) right = AnyExpr (left @ [right])"
| "expr_or left (AnyExpr right) = AnyExpr (left # right)"
| "expr_or left right = AnyExpr [left, right]"

text \<open>The loops over the children, on what these resolve to; the flag is set by a child that is not set.\<close>

fun resolve_all :: "permission_state option list \<Rightarrow> bool \<Rightarrow> permission_state option" where
  "resolve_all [] saw_unset = (if saw_unset then None else Some Allow)"
| "resolve_all (Some Allow # children) saw_unset = resolve_all children saw_unset"
| "resolve_all (Some Deny # children) saw_unset = Some Deny"
| "resolve_all (None # children) saw_unset = resolve_all children True"

fun resolve_any :: "permission_state option list \<Rightarrow> bool \<Rightarrow> permission_state option" where
  "resolve_any [] saw_unset = (if saw_unset then None else Some Deny)"
| "resolve_any (Some Allow # children) saw_unset = Some Allow"
| "resolve_any (Some Deny # children) saw_unset = resolve_any children saw_unset"
| "resolve_any (None # children) saw_unset = resolve_any children True"

fun resolve_in :: "permission_set \<Rightarrow> active_context \<Rightarrow> permission_expr \<Rightarrow> permission_state option" where
  "resolve_in ps a (KeyExpr k) = resolve_key_in k a ps"
| "resolve_in ps a (ScopedKeyExpr parent k) = resolve_scoped_key_in parent k a ps"
| "resolve_in ps a (AllExpr children) = resolve_all (map (resolve_in ps a) children) False"
| "resolve_in ps a (AnyExpr children) = resolve_any (map (resolve_in ps a) children) False"

definition allows_in :: "permission_set \<Rightarrow> active_context \<Rightarrow> permission_expr \<Rightarrow> bool" where
  "allows_in ps a e \<longleftrightarrow> resolve_in ps a e = Some Allow"

section \<open>The strongest rule\<close>

text \<open>The rules that apply to a question, with the strength that they have for it.\<close>

type_synonym strength = "nat \<times> nat \<times> nat \<times> int"

definition rules_of :: "permission_set \<Rightarrow> (permission_entry \<times> resolution_source) list" where
  "rules_of ps = zip (ps_entries ps) (ps_sources ps)"

definition strength_of :: "nat \<Rightarrow> permission_entry \<times> resolution_source \<Rightarrow> strength" where
  "strength_of n r = (n, ctx_specificity (pe_context (fst r)), source_rank (snd r), tie_priority (snd r))"

definition key_applies :: "permission_key \<Rightarrow> active_context \<Rightarrow> permission_entry \<times> resolution_source \<Rightarrow> strength option" where
  "key_applies k a r =
     (if ctx_matches (pe_context (fst r)) a \<and> key_matches (pe_key (fst r)) k
      then Some (strength_of (key_specificity (pe_key (fst r))) r) else None)"

definition scoped_applies ::
    "permission_key \<Rightarrow> permission_key \<Rightarrow> active_context \<Rightarrow> permission_entry \<times> resolution_source \<Rightarrow> strength option" where
  "scoped_applies parent k a r =
     (let up = key_scopes parent k \<and> key_matches (pe_key (fst r)) parent; own = key_matches (pe_key (fst r)) k in
      if ctx_matches (pe_context (fst r)) a \<and> (up \<or> own)
      then Some (strength_of (key_specificity (pe_key (fst r)) + (if own \<and> \<not> up then 1 else 0)) r) else None)"

text \<open>
  The answer among rules with strengths: none without a rule, else what the strongest say, where one that
  denies beats those that allow.
\<close>

definition verdict :: "(permission_entry \<times> resolution_source \<Rightarrow> strength option) \<Rightarrow> (permission_entry \<times> resolution_source) set \<Rightarrow> permission_state option" where
  "verdict applies R =
     (let strongest = {r \<in> R. applies r \<noteq> None \<and> (\<forall>q \<in> R. applies q \<noteq> None \<longrightarrow> the (applies q) \<le> the (applies r))} in
      if strongest = {} then None else if \<exists>r \<in> strongest. pe_state (fst r) = Deny then Some Deny else Some Allow)"

text \<open>One loop for both questions: a rule that applies becomes a candidate of its strength.\<close>

definition candidate_step ::
    "(permission_entry \<times> resolution_source \<Rightarrow> strength option) \<Rightarrow> nat \<times> permission_entry \<times> resolution_source \<Rightarrow>
      permission_candidate option \<Rightarrow> permission_candidate option" where
  "candidate_step applies ir best =
     (case applies (snd ir) of
        None \<Rightarrow> best
      | Some st \<Rightarrow> push_candidate (candidate_of (fst ir) (fst st) (fst (snd ir)) (snd (snd ir))) best)"

text \<open>A strength is the rule's own, but for the specificity of the key.\<close>

definition strengths_ok :: "(permission_entry \<times> resolution_source \<Rightarrow> strength option) \<Rightarrow> bool" where
  "strengths_ok applies \<longleftrightarrow> (\<forall>r st. applies r = Some st \<longrightarrow> st = strength_of (fst st) r)"

lemma strengths_ok_key: "strengths_ok (key_applies k a)"
  by (simp add: strengths_ok_def key_applies_def strength_of_def)

lemma strengths_ok_scoped: "strengths_ok (scoped_applies parent k a)"
  by (auto simp: strengths_ok_def scoped_applies_def strength_of_def Let_def)

lemma best_key_fold: "best_key_candidate k a ps = fold (candidate_step (key_applies k a)) (indexed_rules ps) None"
  unfolding best_key_candidate_def
  by (intro fold_cong refl) (auto simp: candidate_step_def key_applies_def strength_of_def fun_eq_iff)

lemma best_scoped_fold:
  "best_scoped_key_candidate parent k a ps = fold (candidate_step (scoped_applies parent k a)) (indexed_rules ps) None"
  unfolding best_scoped_key_candidate_def Let_def
  by (intro fold_cong refl) (auto simp: candidate_step_def scoped_applies_def strength_of_def fun_eq_iff Let_def)

definition settles :: "permission_candidate \<Rightarrow> strength option \<Rightarrow> permission_state \<Rightarrow> bool" where
  "settles c st state =
     (case st of None \<Rightarrow> True | Some s \<Rightarrow> s \<le> cd_order c \<and> (s = cd_order c \<and> state = Deny \<longrightarrow> cd_state c = Deny))"

definition best_of ::
    "(permission_entry \<times> resolution_source \<Rightarrow> strength option) \<Rightarrow> (nat \<times> permission_entry \<times> resolution_source) list \<Rightarrow>
      permission_candidate option \<Rightarrow> bool" where
  "best_of applies xs best =
     (case best of
        None \<Rightarrow> \<forall>x \<in> set xs. applies (snd x) = None
      | Some c \<Rightarrow>
          (\<exists>x \<in> set xs. applies (snd x) = Some (cd_order c) \<and> cd_index c = fst x \<and> cd_source c = snd (snd x) \<and> cd_state c = pe_state (fst (snd x))) \<and>
          (\<forall>x \<in> set xs. settles c (applies (snd x)) (pe_state (fst (snd x)))))"

lemma best_of_snoc:
  assumes "best_of applies xs b" "applies (snd x) = Some (cd_order c)"
    "cd_index c = fst x" "cd_source c = snd (snd x)" "cd_state c = pe_state (fst (snd x))"
  shows "best_of applies (xs @ [x]) (push_candidate c b)"
proof (cases b)
  case None
  have "settles c (Some (cd_order c)) (pe_state (fst (snd x)))" "settles c None s" for s
    using assms(5) by (simp_all add: settles_def)
  then show ?thesis
    using assms None by (simp add: best_of_def push_candidate_def)
next
  case (Some d)
  then have old: "\<exists>y \<in> set xs. applies (snd y) = Some (cd_order d) \<and> cd_index d = fst y \<and> cd_source d = snd (snd y) \<and> cd_state d = pe_state (fst (snd y))"
    "\<And>y. y \<in> set xs \<Longrightarrow> settles d (applies (snd y)) (pe_state (fst (snd y)))"
    using assms(1) by (simp_all add: best_of_def)
  show ?thesis
  proof (cases "cd_order c > cd_order d \<or> cd_order c = cd_order d \<and> cd_state d = Allow \<and> cd_state c = Deny")
    case True
    then have "settles c st s" if "settles d st s" for st s
      using that by (auto simp: settles_def split: option.splits)
    then have "\<forall>y \<in> set (xs @ [x]). settles c (applies (snd y)) (pe_state (fst (snd y)))"
      using old(2) assms(2,5) by (auto simp: settles_def [of c "Some (cd_order c)"])
    moreover have "push_candidate c b = Some c"
      using True Some by (auto simp: push_candidate_def)
    moreover have "x \<in> set (xs @ [x])"
      by simp
    ultimately show ?thesis
      using assms(2-5) unfolding best_of_def by auto
  next
    case False
    then have "settles d (Some (cd_order c)) (cd_state c)"
      by (cases "cd_state d") (auto simp: settles_def)
    moreover have "push_candidate c b = Some d"
      using False Some by (auto simp: push_candidate_def)
    ultimately show ?thesis
      using old assms(2,5) by (simp add: best_of_def)
  qed
qed

lemma best_of_fold:
  assumes "strengths_ok applies"
  shows "best_of applies xs (fold (candidate_step applies) xs None)"
proof (induction xs rule: rev_induct)
  case Nil
  then show ?case
    by (simp add: best_of_def)
next
  case (snoc x xs)
  let ?b = "fold (candidate_step applies) xs None"
  show ?case
  proof (cases "applies (snd x)")
    case None
    then have "fold (candidate_step applies) (xs @ [x]) None = ?b"
      by (simp add: candidate_step_def)
    then show ?thesis
      using snoc None by (cases ?b) (auto simp: best_of_def settles_def)
  next
    case (Some st)
    let ?c = "candidate_of (fst x) (fst st) (fst (snd x)) (snd (snd x))"
    have "strength_of (fst st) (snd x) = st"
      using assms Some unfolding strengths_ok_def by metis
    then have "cd_order ?c = st"
      by (simp add: strength_of_def cd_order_def candidate_of_def)
    then have "best_of applies (xs @ [x]) (push_candidate ?c ?b)"
      using snoc Some by (intro best_of_snoc) (simp_all add: candidate_of_def)
    moreover have "candidate_step applies x ?b = push_candidate ?c ?b"
      using Some by (simp add: candidate_step_def)
    ultimately show ?thesis
      by simp
  qed
qed

lemma snd_indexed: "set (map snd (indexed_rules ps)) = set (rules_of ps)"
  by (simp add: indexed_rules_def rules_of_def Let_def)

lemma verdict_best:
  assumes "best_of applies xs best"
  shows "map_option cd_state best = verdict applies (snd ` set xs)"
proof (cases best)
  case None
  then show ?thesis
    using assms by (auto simp: best_of_def verdict_def Let_def)
next
  case (Some c)
  let ?top = "{r \<in> snd ` set xs. applies r \<noteq> None \<and> (\<forall>q \<in> snd ` set xs. applies q \<noteq> None \<longrightarrow> the (applies q) \<le> the (applies r))}"
  obtain x where x: "x \<in> set xs" "applies (snd x) = Some (cd_order c)" "cd_state c = pe_state (fst (snd x))"
    using assms Some unfolding best_of_def by auto
  have below: "st \<le> cd_order c" "st = cd_order c \<Longrightarrow> pe_state (fst r) = Deny \<Longrightarrow> cd_state c = Deny"
    if r: "r \<in> snd ` set xs" "applies r = Some st" for r st
  proof -
    have all: "\<And>y. y \<in> set xs \<Longrightarrow> settles c (applies (snd y)) (pe_state (fst (snd y)))"
      using assms Some by (simp add: best_of_def)
    obtain y where y: "y \<in> set xs" "r = snd y"
      using r(1) by blast
    have "st \<le> cd_order c \<and> (st = cd_order c \<and> pe_state (fst r) = Deny \<longrightarrow> cd_state c = Deny)"
      using all [OF y(1)] r(2) y(2) by (simp add: settles_def)
    then show "st \<le> cd_order c" "st = cd_order c \<Longrightarrow> pe_state (fst r) = Deny \<Longrightarrow> cd_state c = Deny"
      by blast+
  qed
  have top: "r \<in> ?top \<longleftrightarrow> r \<in> snd ` set xs \<and> applies r = Some (cd_order c)" for r
  proof
    assume r: "r \<in> ?top"
    then obtain st where st: "r \<in> snd ` set xs" "applies r = Some st"
      by blast
    have "snd x \<in> snd ` set xs" "applies (snd x) \<noteq> None"
      using x by simp_all
    then have "the (applies (snd x)) \<le> the (applies r)"
      using r by blast
    then have "cd_order c \<le> st"
      using st(2) x(2) by simp
    then show "r \<in> snd ` set xs \<and> applies r = Some (cd_order c)"
      using below(1) [OF st] st by simp
  next
    assume r: "r \<in> snd ` set xs \<and> applies r = Some (cd_order c)"
    moreover have "the (applies q) \<le> cd_order c" if "q \<in> snd ` set xs" "applies q \<noteq> None" for q
      using below(1) [OF that(1)] that(2) by (cases "applies q") simp_all
    ultimately show "r \<in> ?top"
      by (simp del: not_None_eq)
  qed
  have "snd x \<in> ?top"
    unfolding top using x by simp
  moreover have "(\<exists>r \<in> ?top. pe_state (fst r) = Deny) \<longleftrightarrow> cd_state c = Deny"
  proof
    assume "\<exists>r \<in> ?top. pe_state (fst r) = Deny"
    then obtain r where r: "r \<in> ?top" "pe_state (fst r) = Deny"
      by blast
    then show "cd_state c = Deny"
      using below(2) [of r "cd_order c"] unfolding top by simp
  next
    assume "cd_state c = Deny"
    then show "\<exists>r \<in> ?top. pe_state (fst r) = Deny"
      using \<open>snd x \<in> ?top\<close> x(3) by (intro bexI [of _ "snd x"]) simp_all
  qed
  moreover have "verdict applies (snd ` set xs) =
      (if ?top = {} then None else if \<exists>r \<in> ?top. pe_state (fst r) = Deny then Some Deny else Some Allow)"
    by (simp only: verdict_def Let_def)
  ultimately have "verdict applies (snd ` set xs) = (if cd_state c = Deny then Some Deny else Some Allow)"
    by (metis (no_types, lifting) empty_iff)
  then show ?thesis
    using Some by (cases "cd_state c") simp_all
qed

lemma resolve_key_verdict: "resolve_key_in k a ps = verdict (key_applies k a) (set (rules_of ps))"
  using verdict_best [OF best_of_fold [OF strengths_ok_key]]
  unfolding resolve_key_in_def best_key_fold snd_indexed [symmetric] set_map .

lemma resolve_scoped_verdict: "resolve_scoped_key_in parent k a ps = verdict (scoped_applies parent k a) (set (rules_of ps))"
  using verdict_best [OF best_of_fold [OF strengths_ok_scoped]]
  unfolding resolve_scoped_key_in_def best_scoped_fold snd_indexed [symmetric] set_map .

section \<open>Expressions in three values\<close>

definition all_of :: "permission_state option set \<Rightarrow> permission_state option" where
  "all_of S = (if Some Deny \<in> S then Some Deny else if None \<in> S then None else Some Allow)"

definition any_of :: "permission_state option set \<Rightarrow> permission_state option" where
  "any_of S = (if Some Allow \<in> S then Some Allow else if None \<in> S then None else Some Deny)"

lemma resolve_all_eq: "resolve_all rs unset = all_of ((if unset then {None} else {}) \<union> set rs)"
  by (induction rs unset rule: resolve_all.induct) (auto simp: all_of_def)

lemma resolve_any_eq: "resolve_any rs unset = any_of ((if unset then {None} else {}) \<union> set rs)"
  by (induction rs unset rule: resolve_any.induct) (auto simp: any_of_def)

text \<open>The operators merge chains of the same kind and mean what the chains mean.\<close>

lemma resolve_and: "resolve_in ps a (expr_and x y) = all_of {resolve_in ps a x, resolve_in ps a y}"
  by (cases x; cases y) (auto simp: resolve_all_eq all_of_def image_Un split: if_splits)

lemma resolve_or: "resolve_in ps a (expr_or x y) = any_of {resolve_in ps a x, resolve_in ps a y}"
  by (cases x; cases y) (auto simp: resolve_any_eq any_of_def image_Un split: if_splits)

section \<open>Editing\<close>

definition set_paired :: "permission_set \<Rightarrow> bool" where
  "set_paired ps \<longleftrightarrow> length (ps_entries ps) = length (ps_sources ps)"

lemma push_fields [simp]:
  "ps_entries (push_with_source e s ps) = ps_entries ps @ [e]" "ps_sources (push_with_source e s ps) = ps_sources ps @ [s]"
  by (simp_all add: push_with_source_def)

lemma rules_push: "set_paired ps \<Longrightarrow> rules_of (push_with_source e s ps) = rules_of ps @ [(e, s)]"
  by (simp add: rules_of_def set_paired_def)

lemma paired_push [simp]: "set_paired (push_with_source e s ps) \<longleftrightarrow> set_paired ps"
  by (simp add: set_paired_def)

lemma retain_rules:
  "rules_of (retain_entries keep ps) = filter (\<lambda>(e, s). keep e) (rules_of ps) \<and> set_paired (retain_entries keep ps)"
proof -
  have "rules_of (fold (\<lambda>(e, s) acc. if keep e then push_with_source e s acc else acc) rs acc) =
      rules_of acc @ filter (\<lambda>(e, s). keep e) rs \<and>
      set_paired (fold (\<lambda>(e, s) acc. if keep e then push_with_source e s acc else acc) rs acc)" if "set_paired acc" for rs acc
    using that by (induction rs arbitrary: acc) (auto simp: rules_push)
  from this [of set_new "rules_of ps"] show ?thesis
    by (simp add: retain_entries_def rules_of_def set_new_def set_paired_def)
qed

lemma length_filter_same: "length (filter P xs) = length xs \<longleftrightarrow> (\<forall>x \<in> set xs. P x)"
proof (induction xs)
  case (Cons x xs)
  then show ?case
    using length_filter_le [of P xs] by (auto simp del: length_filter_le)
qed simp

text \<open>Setting a rule leaves exactly one for its key and context; unsetting leaves none and says whether there was one.\<close>

lemma set_in_rules:
  "rules_of (set_in k c st ps) = filter (\<lambda>(e, s). pe_key e \<noteq> k \<or> pe_context e \<noteq> c) (rules_of ps) @ [(new_with_context k c st, FromSubject)]"
  using retain_rules [of "\<lambda>e. pe_key e \<noteq> k \<or> pe_context e \<noteq> c" ps] by (simp add: set_in_def set_push_def rules_push)

lemma unset_in_rules:
  assumes "set_paired ps"
  shows "rules_of (snd (unset_in k c ps)) = filter (\<lambda>(e, s). pe_key e \<noteq> k \<or> pe_context e \<noteq> c) (rules_of ps)"
    "fst (unset_in k c ps) \<longleftrightarrow> (\<exists>e \<in> set (ps_entries ps). pe_key e = k \<and> pe_context e = c)"
proof -
  let ?keep = "\<lambda>e. pe_key e \<noteq> k \<or> pe_context e \<noteq> c"
  note retained = retain_rules [of ?keep ps]
  show "rules_of (snd (unset_in k c ps)) = filter (\<lambda>(e, s). ?keep e) (rules_of ps)"
    using retained by (simp add: unset_in_def Let_def)
  have entries: "map fst (rules_of qs) = ps_entries qs" if "set_paired qs" for qs
    using that by (simp add: rules_of_def set_paired_def)
  have "ps_entries (retain_entries ?keep ps) = map fst (filter (\<lambda>(e, s). ?keep e) (rules_of ps))"
    using entries [of "retain_entries ?keep ps"] retained by simp
  also have "\<dots> = filter ?keep (ps_entries ps)"
    unfolding entries [OF assms, symmetric] by (simp add: filter_map comp_def case_prod_unfold)
  finally have "length (ps_entries (retain_entries ?keep ps)) = length (filter ?keep (ps_entries ps))"
    by simp
  moreover have "length (filter ?keep (ps_entries ps)) \<noteq> length (ps_entries ps) \<longleftrightarrow> (\<exists>e \<in> set (ps_entries ps). \<not> ?keep e)"
    by (auto simp: length_filter_same)
  ultimately show "fst (unset_in k c ps) \<longleftrightarrow> (\<exists>e \<in> set (ps_entries ps). pe_key e = k \<and> pe_context e = c)"
    by (simp add: unset_in_def Let_def)
qed

end
