(* ===== verification/PermMeta.thy ===== *)
theory PermMeta
  imports PermExpr PermSet
begin

text \<open>
  Permission metadata (\<open>foton-core/src/permission/metadata.rs\<close>): typed values under namespaced keys, set by the
  same sources as rules and chosen by the context, the source and, last of all, the order of insertion.
\<close>

section \<open>Values, keys and expressions\<close>

datatype metadata_value = MetaBool bool | MetaInteger "64 word" | MetaString utext

fun as_bool :: "metadata_value \<Rightarrow> bool option" where
  "as_bool (MetaBool b) = Some b"
| "as_bool (MetaInteger _) = None"
| "as_bool (MetaString _) = None"

fun as_i64 :: "metadata_value \<Rightarrow> 64 word option" where
  "as_i64 (MetaInteger i) = Some i"
| "as_i64 (MetaBool _) = None"
| "as_i64 (MetaString _) = None"

fun as_str :: "metadata_value \<Rightarrow> utext option" where
  "as_str (MetaString s) = Some s"
| "as_str (MetaBool _) = None"
| "as_str (MetaInteger _) = None"

datatype metadata_key_error = MetaInvalidFormat | MetaEmptyNamespace | MetaEmptyPath | MetaInvalidNamespace | MetaInvalidPath

definition metadata_key_parse :: "utext \<Rightarrow> metadata_key_error + ident" where
  "metadata_key_parse value =
     (case split_once COLON value of
        None \<Rightarrow> Inl MetaInvalidFormat
      | Some (namespace, path) \<Rightarrow>
          if namespace = [] then Inl MetaEmptyNamespace
          else if path = [] then Inl MetaEmptyPath
          else if COLON \<in> set path then Inl MetaInvalidFormat
          else if [] \<in> set (split_on DOT namespace) then Inl MetaInvalidNamespace
          else if [] \<in> set (path_parts path) then Inl MetaInvalidPath
          else if \<not> validate_namespace namespace then Inl MetaInvalidNamespace
          else if \<not> validate_path path then Inl MetaInvalidPath
          else Inr \<lparr>id_namespace = namespace, id_path = path\<rparr>)"

datatype metadata_expression_error =
    InvalidMetadataKey utext metadata_key_error
  | MetaUnclosedContext
  | MetaFromContextError expression_context_error

datatype metadata_expression = MetadataExpression (mx_key: ident) (mx_ctx: rule_context)

definition metadata_parse :: "utext \<Rightarrow> metadata_expression_error + metadata_expression" where
  "metadata_parse value =
     (case split_once LBRACE value of
        None \<Rightarrow> bind_result (map_err (InvalidMetadataKey value) (metadata_key_parse value)) (\<lambda>key. Inr (MetadataExpression key GlobalCtx))
      | Some (key_value, rest) \<Rightarrow>
          if rest = [] \<or> last rest \<noteq> RBRACE then Inl MetaUnclosedContext
          else bind_result (map_err (InvalidMetadataKey key_value) (metadata_key_parse key_value)) (\<lambda>key.
               bind_result (map_err MetaFromContextError (parse_context (butlast rest))) (\<lambda>context.
               Inr (MetadataExpression key context))))"

definition metadata_text :: "metadata_expression \<Rightarrow> utext" where
  "metadata_text e = identifier_text (mx_key e) @ write_context (mx_ctx e)"

section \<open>Sets\<close>

record metadata_entry =
  me_key :: ident
  me_context :: rule_context
  me_value :: metadata_value

record metadata_set =
  ms_entries :: "metadata_entry list"
  ms_sources :: "resolution_source list"

definition meta_new :: metadata_set where
  "meta_new = \<lparr>ms_entries = [], ms_sources = []\<rparr>"

definition meta_from_entries :: "metadata_entry list \<Rightarrow> metadata_set" where
  "meta_from_entries es = \<lparr>ms_entries = es, ms_sources = replicate (length es) FromSubject\<rparr>"

definition meta_push_with_source :: "metadata_entry \<Rightarrow> resolution_source \<Rightarrow> metadata_set \<Rightarrow> metadata_set" where
  "meta_push_with_source e s ms = ms\<lparr>ms_entries := ms_entries ms @ [e], ms_sources := ms_sources ms @ [s]\<rparr>"

definition meta_push :: "metadata_entry \<Rightarrow> metadata_set \<Rightarrow> metadata_set" where
  "meta_push e ms = meta_push_with_source e FromSubject ms"

definition meta_push_group :: "metadata_entry \<Rightarrow> utext \<Rightarrow> int \<Rightarrow> metadata_set \<Rightarrow> metadata_set" where
  "meta_push_group e gname priority ms = meta_push_with_source e (FromGroup gname priority) ms"

definition meta_retain :: "(metadata_entry \<Rightarrow> bool) \<Rightarrow> metadata_set \<Rightarrow> metadata_set" where
  "meta_retain keep ms =
     fold (\<lambda>(e, s) acc. if keep e then meta_push_with_source e s acc else acc) (zip (ms_entries ms) (ms_sources ms)) meta_new"

definition meta_set_in :: "ident \<Rightarrow> rule_context \<Rightarrow> metadata_value \<Rightarrow> metadata_set \<Rightarrow> metadata_set" where
  "meta_set_in k c v ms =
     meta_push \<lparr>me_key = k, me_context = c, me_value = v\<rparr> (meta_retain (\<lambda>e. me_key e \<noteq> k \<or> me_context e \<noteq> c) ms)"

definition meta_unset_in :: "ident \<Rightarrow> rule_context \<Rightarrow> metadata_set \<Rightarrow> bool \<times> metadata_set" where
  "meta_unset_in k c ms =
     (let old_len = length (ms_entries ms); ms = meta_retain (\<lambda>e. me_key e \<noteq> k \<or> me_context e \<noteq> c) ms in
      (length (ms_entries ms) \<noteq> old_len, ms))"

definition meta_set :: "ident \<Rightarrow> metadata_value \<Rightarrow> metadata_set \<Rightarrow> metadata_set" where
  "meta_set k v ms = meta_set_in k GlobalCtx v ms"

definition meta_unset :: "ident \<Rightarrow> metadata_set \<Rightarrow> bool \<times> metadata_set" where
  "meta_unset k ms = meta_unset_in k GlobalCtx ms"

section \<open>Resolution\<close>

record metadata_candidate =
  mc_index :: nat
  mc_context_specificity :: nat
  mc_source :: resolution_source

definition mc_order :: "metadata_candidate \<Rightarrow> nat \<times> nat \<times> int \<times> nat" where
  "mc_order c = (mc_context_specificity c, source_rank (mc_source c), tie_priority (mc_source c), mc_index c)"

definition meta_indexed :: "metadata_set \<Rightarrow> (nat \<times> metadata_entry \<times> resolution_source) list" where
  "meta_indexed ms = (let rules = zip (ms_entries ms) (ms_sources ms) in zip [0..<length rules] rules)"

definition meta_candidate :: "nat \<times> metadata_entry \<times> resolution_source \<Rightarrow> metadata_candidate" where
  "meta_candidate x =
     \<lparr>mc_index = fst x, mc_context_specificity = ctx_specificity (me_context (fst (snd x))), mc_source = snd (snd x)\<rparr>"

definition meta_step ::
    "ident \<Rightarrow> active_context \<Rightarrow> nat \<times> metadata_entry \<times> resolution_source \<Rightarrow> metadata_candidate option \<Rightarrow> metadata_candidate option" where
  "meta_step k a x best =
     (if me_key (fst (snd x)) \<noteq> k \<or> \<not> ctx_matches (me_context (fst (snd x))) a then best
      else case best of
        None \<Rightarrow> Some (meta_candidate x)
      | Some current \<Rightarrow> if mc_order (meta_candidate x) > mc_order current then Some (meta_candidate x) else best)"

definition meta_best_candidate :: "ident \<Rightarrow> active_context \<Rightarrow> metadata_set \<Rightarrow> metadata_candidate option" where
  "meta_best_candidate k a ms = fold (meta_step k a) (meta_indexed ms) None"

definition meta_resolve_in :: "ident \<Rightarrow> active_context \<Rightarrow> metadata_set \<Rightarrow> metadata_value option" where
  "meta_resolve_in k a ms = map_option (\<lambda>c. me_value (ms_entries ms ! mc_index c)) (meta_best_candidate k a ms)"

definition meta_resolve :: "ident \<Rightarrow> metadata_set \<Rightarrow> metadata_value option" where
  "meta_resolve k ms = meta_resolve_in k global_context ms"

record metadata_resolution =
  mr_entry :: metadata_entry
  mr_source :: resolution_source
  mr_context_specificity :: nat
  mr_insertion_index :: nat

definition meta_resolution_of :: "metadata_candidate \<Rightarrow> metadata_set \<Rightarrow> metadata_resolution" where
  "meta_resolution_of c ms =
     \<lparr>mr_entry = ms_entries ms ! mc_index c, mr_source = mc_source c, mr_context_specificity = mc_context_specificity c,
      mr_insertion_index = mc_index c\<rparr>"

definition meta_resolve_in_detailed :: "ident \<Rightarrow> active_context \<Rightarrow> metadata_set \<Rightarrow> metadata_resolution option" where
  "meta_resolve_in_detailed k a ms = map_option (\<lambda>c. meta_resolution_of c ms) (meta_best_candidate k a ms)"

section \<open>Keys and expressions are read as they are written\<close>

definition valid_metadata_key :: "ident \<Rightarrow> bool" where
  "valid_metadata_key i \<longleftrightarrow> id_namespace i \<noteq> [] \<and> id_path i \<noteq> [] \<and> [] \<notin> set (split_on DOT (id_namespace i)) \<and>
     [] \<notin> set (path_parts (id_path i)) \<and> validate_namespace (id_namespace i) \<and> validate_path (id_path i)"

lemma valid_path_no_colon: "validate_path p \<Longrightarrow> COLON \<notin> set p \<and> LBRACE \<notin> set p"
  by (auto simp: validate_path_def list_all_iff valid_char_def valid_namespace_char_def is_ascii_lowercase_def is_ascii_digit_def
      COLON_def LBRACE_def DOT_def SLASH_def)

lemma valid_namespace_no_colon: "validate_namespace n \<Longrightarrow> COLON \<notin> set n \<and> LBRACE \<notin> set n"
  by (auto simp: validate_namespace_def list_all_iff valid_namespace_char_def is_ascii_lowercase_def is_ascii_digit_def
      COLON_def LBRACE_def DOT_def)

lemma metadata_key_parse_iff: "metadata_key_parse t = Inr i \<longleftrightarrow> t = identifier_text i \<and> valid_metadata_key i"
proof
  assume "metadata_key_parse t = Inr i"
  then show "t = identifier_text i \<and> valid_metadata_key i"
    by (auto simp: metadata_key_parse_def valid_metadata_key_def identifier_text_def split_once_Some
        split: option.splits prod.splits if_splits)
next
  assume r: "t = identifier_text i \<and> valid_metadata_key i"
  then have "split_once COLON t = Some (id_namespace i, id_path i)" "COLON \<notin> set (id_path i)"
    using valid_namespace_no_colon valid_path_no_colon
    by (auto simp: valid_metadata_key_def split_once_Some identifier_text_def)
  then show "metadata_key_parse t = Inr i"
    using r by (simp add: metadata_key_parse_def valid_metadata_key_def)
qed

definition valid_metadata :: "metadata_expression \<Rightarrow> bool" where
  "valid_metadata e \<longleftrightarrow> valid_metadata_key (mx_key e) \<and> ctx_canonical (mx_ctx e) \<and> (\<forall>c \<in> set (atoms_of (mx_ctx e)). readable c)"

lemma identifier_no_brace: "valid_metadata_key i \<Longrightarrow> LBRACE \<notin> set (identifier_text i)"
  using valid_namespace_no_colon valid_path_no_colon by (auto simp: valid_metadata_key_def identifier_text_def COLON_def LBRACE_def)

lemma metadata_parse_text:
  assumes "valid_metadata e"
  shows "metadata_parse (metadata_text e) = Inr e"
proof -
  obtain k c where e: "e = MetadataExpression k c"
    by (cases e)
  have k: "valid_metadata_key k" "metadata_key_parse (identifier_text k) = Inr k"
    using assms e by (simp_all add: valid_metadata_def metadata_key_parse_iff)
  note brace = identifier_no_brace [OF k(1)]
  show ?thesis
  proof (cases "c = GlobalCtx")
    case True
    then show ?thesis
      using e k brace split_once_None [of LBRACE "identifier_text k"]
      by (simp add: metadata_text_def write_context_def metadata_parse_def map_err_def)
  next
    case False
    let ?w = "join_with COMMA (context_entries c)"
    have "split_once LBRACE (metadata_text e) = Some (identifier_text k, ?w @ [RBRACE])"
      using brace False e by (simp add: split_once_Some metadata_text_def write_context_def)
    moreover have "parse_context ?w = Inr c"
      using assms e False by (intro parse_written_context) (simp_all add: valid_metadata_def)
    ultimately show ?thesis
      using k(2) e by (simp add: metadata_parse_def map_err_def)
  qed
qed

lemma metadata_parse_valid:
  assumes "metadata_parse s = Inr e"
  shows "valid_metadata e"
proof (cases "split_once LBRACE s")
  case None
  then show ?thesis
    using assms
    by (auto simp: metadata_parse_def map_err_Inr bind_result_Inr_iff valid_metadata_def metadata_key_parse_iff)
next
  case (Some kr)
  then obtain t r k c where "metadata_key_parse t = Inr k" "parse_context (butlast r) = Inr c" "e = MetadataExpression k c"
    using assms by (auto simp: metadata_parse_def map_err_Inr bind_result_Inr_iff split: if_splits prod.splits)
  then show ?thesis
    using parse_context_canonical by (simp add: valid_metadata_def metadata_key_parse_iff)
qed

section \<open>The last of the strongest values\<close>

definition meta_applies :: "ident \<Rightarrow> active_context \<Rightarrow> nat \<times> metadata_entry \<times> resolution_source \<Rightarrow> bool" where
  "meta_applies k a x \<longleftrightarrow> me_key (fst (snd x)) = k \<and> ctx_matches (me_context (fst (snd x))) a"

text \<open>What the loop keeps: the candidate of an entry that applies and than which none that applies is stronger.\<close>

definition meta_best :: "(nat \<times> metadata_entry \<times> resolution_source) set \<Rightarrow> metadata_candidate option \<Rightarrow> bool" where
  "meta_best X best =
     (case best of
        None \<Rightarrow> X = {}
      | Some c \<Rightarrow> c \<in> meta_candidate ` X \<and> (\<forall>d \<in> meta_candidate ` X. mc_order d \<le> mc_order c))"

lemma meta_best_fold: "meta_best {x \<in> set xs. meta_applies k a x} (fold (meta_step k a) xs None)"
proof (induction xs rule: rev_induct)
  case Nil
  then show ?case
    by (simp add: meta_best_def)
next
  case (snoc x xs)
  let ?b = "fold (meta_step k a) xs None" and ?X = "{x \<in> set xs. meta_applies k a x}"
  show ?case
  proof (cases "meta_applies k a x")
    case False
    then have "{y \<in> set (xs @ [x]). meta_applies k a y} = ?X" "meta_step k a x ?b = ?b"
      by (auto simp: meta_step_def meta_applies_def)
    then show ?thesis
      using snoc by simp
  next
    case True
    then have X: "{y \<in> set (xs @ [x]). meta_applies k a y} = insert x ?X"
      by auto
    have step: "meta_step k a x ?b = (case ?b of None \<Rightarrow> Some (meta_candidate x)
        | Some d \<Rightarrow> if mc_order (meta_candidate x) > mc_order d then Some (meta_candidate x) else ?b)"
      using True by (simp add: meta_step_def meta_applies_def)
    have "meta_best (insert x ?X) (meta_step k a x ?b)"
    proof (cases ?b)
      case None
      then have "?X = {}"
        using snoc by (simp only: meta_best_def option.case)
      then show ?thesis
        using None unfolding step by (simp only: option.case meta_best_def) simp
    next
      case (Some d)
      then have d: "d \<in> meta_candidate ` ?X" "\<And>e. e \<in> meta_candidate ` ?X \<Longrightarrow> mc_order e \<le> mc_order d"
        using snoc by (simp_all only: meta_best_def option.case)
      show ?thesis
      proof (cases "mc_order (meta_candidate x) > mc_order d")
        case True
        then have "mc_order e \<le> mc_order (meta_candidate x)" if "e \<in> meta_candidate ` ?X" for e
          using d(2) [OF that] by order
        then show ?thesis
          using True Some unfolding step by (simp add: meta_best_def)
      next
        case False
        then have "mc_order (meta_candidate x) \<le> mc_order d"
          by order
        then show ?thesis
          using d Some False unfolding step by (simp add: meta_best_def)
      qed
    qed
    then show ?thesis
      unfolding X by simp
  qed
qed

definition meta_rules :: "metadata_set \<Rightarrow> (metadata_entry \<times> resolution_source) list" where
  "meta_rules ms = zip (ms_entries ms) (ms_sources ms)"

definition meta_paired :: "metadata_set \<Rightarrow> bool" where
  "meta_paired ms \<longleftrightarrow> length (ms_entries ms) = length (ms_sources ms)"

lemma meta_indexed_mem: "x \<in> set (meta_indexed ms) \<longleftrightarrow> fst x < length (meta_rules ms) \<and> snd x = meta_rules ms ! fst x"
proof -
  have "meta_indexed ms = map (\<lambda>i. (i, meta_rules ms ! i)) [0..<length (meta_rules ms)]"
    by (rule nth_equalityI) (simp_all add: meta_indexed_def meta_rules_def Let_def)
  then show ?thesis
    by (cases x) auto
qed

lemma meta_rules_entry: "i < length (meta_rules ms) \<Longrightarrow> fst (meta_rules ms ! i) = ms_entries ms ! i"
  by (simp add: meta_rules_def)

definition meta_strength :: "metadata_entry \<times> resolution_source \<Rightarrow> nat \<times> nat \<times> int" where
  "meta_strength r = (ctx_specificity (me_context (fst r)), source_rank (snd r), tie_priority (snd r))"

text \<open>A value is set if some entry applies; it is that of the last entry among the strongest that apply.\<close>

lemma meta_resolved:
  "meta_resolve_in k a ms = Some v \<longleftrightarrow>
     (\<exists>i < length (meta_rules ms). meta_applies k a (i, meta_rules ms ! i) \<and> me_value (ms_entries ms ! i) = v \<and>
        (\<forall>j < length (meta_rules ms). meta_applies k a (j, meta_rules ms ! j) \<longrightarrow> (meta_strength (meta_rules ms ! j), j) \<le> (meta_strength (meta_rules ms ! i), i)))"
  (is "?L \<longleftrightarrow> (\<exists>i < ?n. ?P i)")
proof -
  let ?r = "\<lambda>i. meta_rules ms ! i"
  let ?X = "{x \<in> set (meta_indexed ms). meta_applies k a x}"
  have best: "meta_best ?X (meta_best_candidate k a ms)"
    unfolding meta_best_candidate_def by (rule meta_best_fold)
  have X: "(i, ?r i) \<in> ?X \<longleftrightarrow> i < ?n \<and> meta_applies k a (i, ?r i)" for i
    by (simp add: meta_indexed_mem)
  have le: "mc_order (meta_candidate (j, ?r j)) \<le> mc_order (meta_candidate (i, ?r i)) \<longleftrightarrow> (meta_strength (?r j), j) \<le> (meta_strength (?r i), i)" for i j
    by (auto simp: mc_order_def meta_candidate_def meta_strength_def)
  have chosen: "c = meta_candidate (mc_index c, ?r (mc_index c)) \<and> (mc_index c, ?r (mc_index c)) \<in> ?X"
    if "meta_best_candidate k a ms = Some c" for c
  proof -
    have "c \<in> meta_candidate ` ?X"
      using best that by (simp only: meta_best_def option.case)
    then obtain x where x: "x \<in> ?X" "c = meta_candidate x"
      by blast
    then have "mc_index c = fst x" "(fst x, ?r (fst x)) = x"
      by (simp_all add: meta_candidate_def meta_indexed_mem prod_eq_iff)
    then show ?thesis
      using x by simp
  qed
  have above: "mc_order (meta_candidate x) \<le> mc_order c" if "meta_best_candidate k a ms = Some c" "x \<in> ?X" for x c
    using best that by (simp only: meta_best_def option.case) blast
  have top: "(\<exists>c. meta_best_candidate k a ms = Some c \<and> mc_index c = i) \<longleftrightarrow> i < ?n \<and> meta_applies k a (i, ?r i) \<and>
      (\<forall>j < ?n. meta_applies k a (j, ?r j) \<longrightarrow> (meta_strength (?r j), j) \<le> (meta_strength (?r i), i))" for i
  proof
    assume "\<exists>c. meta_best_candidate k a ms = Some c \<and> mc_index c = i"
    then obtain c where c: "meta_best_candidate k a ms = Some c" "mc_index c = i"
      by blast
    then have i: "c = meta_candidate (i, ?r i)" "(i, ?r i) \<in> ?X"
      using chosen by simp_all
    have "(meta_strength (?r j), j) \<le> (meta_strength (?r i), i)" if "j < ?n" "meta_applies k a (j, ?r j)" for j
      using above [OF c(1) X [THEN iffD2, OF conjI, OF that]] unfolding i(1) le .
    then show "i < ?n \<and> meta_applies k a (i, ?r i) \<and>
        (\<forall>j < ?n. meta_applies k a (j, ?r j) \<longrightarrow> (meta_strength (?r j), j) \<le> (meta_strength (?r i), i))"
      using i(2) X by blast
  next
    assume i: "i < ?n \<and> meta_applies k a (i, ?r i) \<and>
        (\<forall>j < ?n. meta_applies k a (j, ?r j) \<longrightarrow> (meta_strength (?r j), j) \<le> (meta_strength (?r i), i))"
    then have iX: "(i, ?r i) \<in> ?X"
      using X by blast
    have "meta_best_candidate k a ms \<noteq> None"
    proof
      assume "meta_best_candidate k a ms = None"
      then have "?X = {}"
        using best by (simp only: meta_best_def option.case)
      then show False
        using iX by blast
    qed
    then obtain c where c: "meta_best_candidate k a ms = Some c"
      by blast
    then obtain i' where i': "c = meta_candidate (i', ?r i')" "(i', ?r i') \<in> ?X" "mc_index c = i'"
      using chosen by blast
    have "(meta_strength (?r i), i) \<le> (meta_strength (?r i'), i')"
      using above [OF c iX] unfolding i'(1) le .
    moreover have "(meta_strength (?r i'), i') \<le> (meta_strength (?r i), i)"
      using i i'(2) X by blast
    ultimately have "i' = i"
      by (meson order_antisym prod.inject)
    then show "\<exists>c. meta_best_candidate k a ms = Some c \<and> mc_index c = i"
      using c i'(3) by blast
  qed
  have "?L \<longleftrightarrow> (\<exists>i. (\<exists>c. meta_best_candidate k a ms = Some c \<and> mc_index c = i) \<and> me_value (ms_entries ms ! i) = v)"
    by (auto simp: meta_resolve_in_def)
  then show ?thesis
    unfolding top by blast
qed

end
