(* ===== verification/PermGroups.thy ===== *)
theory PermGroups
  imports PermMeta
begin

text \<open>
  Permission groups (\<open>foton-core/src/permission/groups.rs\<close>): the configuration as it is written, its validation and
  the rules that it gives to those who are in groups. The maps of the code iterate in the order of their keys, as the
  association lists here do.
\<close>

section \<open>Configuration\<close>

definition OP_GROUP :: utext where "OP_GROUP = str ''op''"
definition COMMAND_BLOCK_GROUP :: utext where "COMMAND_BLOCK_GROUP = str ''command_block''"

record metadata_rule_config =
  rc_key :: utext
  rc_value :: metadata_value

record group_config =
  gc_priority :: int
  gc_inherits :: "utext list"
  gc_allow :: "utext list"
  gc_deny :: "utext list"
  gc_metadata :: "metadata_rule_config list"

record groups_config =
  cf_default_groups :: "utext list"
  cf_groups :: "(utext \<times> group_config) list"

definition default_group_config :: group_config where
  "default_group_config = \<lparr>gc_priority = 0, gc_inherits = [], gc_allow = [], gc_deny = [], gc_metadata = []\<rparr>"

definition default_groups_config :: groups_config where
  "default_groups_config =
     \<lparr>cf_default_groups = [str ''default''],
      cf_groups =
        [(COMMAND_BLOCK_GROUP,
          default_group_config\<lparr>gc_allow := [str ''minecraft.command.*''],
            gc_deny := [str ''minecraft.command.stop'', str ''minecraft.command.operator'',
                        str ''minecraft.command.perms'', str ''minecraft.command.domain'']\<rparr>),
         (str ''default'', default_group_config),
         (OP_GROUP, default_group_config\<lparr>gc_allow := [str ''*'']\<rparr>)]\<rparr>"

datatype config_error =
    MissingDefaultGroup utext
  | MissingRequiredGroup utext
  | MissingInheritedGroup utext utext
  | InheritedGroupCycle "utext list"
  | InvalidPermissionExpression utext rule_expression_error
  | InvalidMetadataExpression utext metadata_expression_error
  | InvalidGroupName utext permission_key_error

record permission_group =
  pg_priority :: int
  pg_inherits :: "utext list"
  pg_permissions :: permission_set
  pg_metadata :: metadata_set

record permission_groups =
  gs_default_groups :: "utext list"
  gs_groups :: "(utext \<times> permission_group) list"

section \<open>Validation\<close>

definition validate_group_name :: "utext \<Rightarrow> config_error + unit" where
  "validate_group_name g = (case segment_parse g of Inl source \<Rightarrow> Inl (InvalidGroupName g source) | Inr _ \<Rightarrow> Inr ())"

definition parse_group_rule :: "utext \<Rightarrow> utext \<Rightarrow> config_error + rule_expression" where
  "parse_group_rule g rule = map_err (InvalidPermissionExpression g) (rule_parse rule)"

fun push_group_rules :: "utext \<Rightarrow> permission_state \<Rightarrow> utext list \<Rightarrow> permission_set \<Rightarrow> config_error + permission_set" where
  "push_group_rules g st [] permissions = Inr permissions"
| "push_group_rules g st (rule # rules) permissions =
     bind_result (parse_group_rule g rule) (\<lambda>expression.
       push_group_rules g st rules (set_push (new_with_context (rule_key expression) (rule_ctx expression) st) permissions))"

definition parse_group_permissions :: "utext \<Rightarrow> utext list \<Rightarrow> utext list \<Rightarrow> config_error + permission_set" where
  "parse_group_permissions g allow deny =
     bind_result (push_group_rules g Allow allow set_new) (push_group_rules g Deny deny)"

fun push_group_metadata :: "utext \<Rightarrow> metadata_rule_config list \<Rightarrow> metadata_set \<Rightarrow> config_error + metadata_set" where
  "push_group_metadata g [] metadata = Inr metadata"
| "push_group_metadata g (rule # rules) metadata =
     bind_result (map_err (InvalidMetadataExpression g) (metadata_parse (rc_key rule))) (\<lambda>expression.
       push_group_metadata g rules
         (meta_push \<lparr>me_key = mx_key expression, me_context = mx_ctx expression, me_value = rc_value rule\<rparr> metadata))"

definition parse_group_metadata :: "utext \<Rightarrow> metadata_rule_config list \<Rightarrow> config_error + metadata_set" where
  "parse_group_metadata g rules = push_group_metadata g rules meta_new"

lemma ancestor_None: "position (\<lambda>x. x = p) xs = None \<longleftrightarrow> p \<notin> set xs"
  by (auto simp: position_None)

lemma ancestor_Some: "position (\<lambda>x. x = p) xs = Some i \<Longrightarrow> i < length xs \<and> xs ! i = p"
  using position_Some [of "\<lambda>x. x = p" xs i] by simp

type_synonym configured = "(utext \<times> group_config) list"

fun check_parents :: "configured \<Rightarrow> utext \<Rightarrow> utext list \<Rightarrow> config_error + unit" where
  "check_parents G g [] = Inr ()"
| "check_parents G g (parent # parents) =
     bind_result (validate_group_name parent) (\<lambda>_.
       if map_of G parent = None then Inl (MissingInheritedGroup g parent) else check_parents G g parents)"

fun check_all_parents :: "configured \<Rightarrow> configured \<Rightarrow> config_error + unit" where
  "check_all_parents G [] = Inr ()"
| "check_all_parents G ((g, c) # rest) = bind_result (check_parents G g (gc_inherits c)) (\<lambda>_. check_all_parents G rest)"

text \<open>
  The visit of \<open>validate_group_inheritance_node\<close>, with its loop over the parents of \<open>g\<close>: a parent that was visited is
  done, one on the stack closes a cycle, any other is visited with itself on the stack and is then itself visited.
\<close>

function validate_nodes :: "configured \<Rightarrow> utext \<Rightarrow> utext list \<Rightarrow> utext list \<Rightarrow> utext list \<Rightarrow> config_error + utext list" where
  "validate_nodes G g [] visited stack = Inr visited"
| "validate_nodes G g (p # ps) visited stack =
     (case map_of G p of
        None \<Rightarrow> Inl (MissingInheritedGroup g p)
      | Some c \<Rightarrow>
          bind_result
            (if p \<in> set visited then Inr visited
             else case position (\<lambda>x. x = p) stack of
               Some start \<Rightarrow> Inl (InheritedGroupCycle (drop start stack @ [p]))
             | None \<Rightarrow> bind_result (validate_nodes G p (gc_inherits c) visited (stack @ [p])) (\<lambda>visited. Inr (p # visited)))
            (\<lambda>visited. validate_nodes G g ps visited stack))"
  by pat_completeness auto

lemma card_fewer_names:
  assumes "map_of G p = Some c" "p \<notin> S"
  shows "card (fst ` set G - insert p S) < card (fst ` set G - S)"
proof -
  have "p \<in> fst ` set G"
    using assms(1) by (metis map_of_SomeD fst_conv image_eqI)
  then show ?thesis
    using assms(2) by (intro psubset_card_mono) auto
qed

termination validate_nodes
  by (relation "measures [\<lambda>(G, g, ps, visited, stack). card (fst ` set G - set stack), \<lambda>(G, g, ps, visited, stack). length ps]")
    (auto simp: card_fewer_names ancestor_None)

definition validate_group_inheritance :: "configured \<Rightarrow> config_error + unit" where
  "validate_group_inheritance G =
     bind_result (check_all_parents G G) (\<lambda>_. bind_result (validate_nodes G [] (map fst G) [] []) (\<lambda>_. Inr ()))"

fun check_default_groups :: "configured \<Rightarrow> utext list \<Rightarrow> config_error + unit" where
  "check_default_groups G [] = Inr ()"
| "check_default_groups G (g # gs) =
     bind_result (validate_group_name g) (\<lambda>_.
       if map_of G g = None then Inl (MissingDefaultGroup g) else check_default_groups G gs)"

fun parse_groups :: "configured \<Rightarrow> config_error + (utext \<times> permission_group) list" where
  "parse_groups [] = Inr []"
| "parse_groups ((name, c) # rest) =
     bind_result (validate_group_name name) (\<lambda>_.
     bind_result (parse_group_permissions name (gc_allow c) (gc_deny c)) (\<lambda>permissions.
     bind_result (parse_group_metadata name (gc_metadata c)) (\<lambda>metadata.
     bind_result (parse_groups rest) (\<lambda>groups.
       Inr ((name, \<lparr>pg_priority = gc_priority c, pg_inherits = gc_inherits c, pg_permissions = permissions, pg_metadata = metadata\<rparr>)
         # groups)))))"

definition from_config :: "groups_config \<Rightarrow> config_error + permission_groups" where
  "from_config c =
     bind_result (check_default_groups (cf_groups c) (cf_default_groups c)) (\<lambda>_.
     if map_of (cf_groups c) OP_GROUP = None then Inl (MissingRequiredGroup OP_GROUP)
     else bind_result (validate_group_inheritance (cf_groups c)) (\<lambda>_.
          bind_result (parse_groups (cf_groups c)) (\<lambda>groups.
            Inr \<lparr>gs_default_groups = cf_default_groups c, gs_groups = groups\<rparr>)))"

section \<open>Effective rules\<close>

text \<open>
  \<open>append_group\<close> for a list of groups: each that was not appended yet is marked, and if it is known, its parents are
  appended before its own entries. What appending an entry list means differs for rules and for metadata.
\<close>

function append_groups ::
    "(utext \<Rightarrow> permission_group \<Rightarrow> 'a \<Rightarrow> 'a) \<Rightarrow> (utext \<times> permission_group) list \<Rightarrow> utext list \<Rightarrow> 'a \<Rightarrow> utext list \<Rightarrow> 'a \<times> utext list" where
  "append_groups put G [] effective appended = (effective, appended)"
| "append_groups put G (g # gs) effective appended =
     (if g \<in> set appended then append_groups put G gs effective appended
      else case map_of G g of
        None \<Rightarrow> append_groups put G gs effective (g # appended)
      | Some pg \<Rightarrow>
          (let r = append_groups put G (pg_inherits pg) effective (g # appended) in
           append_groups put G gs (put g pg (fst r)) (snd r)))"
  by pat_completeness auto

lemma append_groups_marks:
  "append_groups_dom (put, G, gs, effective, appended) \<Longrightarrow> set appended \<subseteq> set (snd (append_groups put G gs effective appended))"
proof (induction rule: append_groups.pinduct)
  case (2 put G g gs effective appended)
  show ?case
  proof (cases "g \<in> set appended")
    case True
    then show ?thesis
      using 2 by (simp add: append_groups.psimps)
  next
    case False
    show ?thesis
    proof (cases "map_of G g")
      case None
      then show ?thesis
        using False 2 by (simp add: append_groups.psimps)
    next
      case (Some pg)
      have "set (g # appended) \<subseteq> set (snd (append_groups put G (pg_inherits pg) effective (g # appended)))"
        by (rule 2(4) [OF False Some])
      moreover note 2(5) [OF False Some refl]
      ultimately show ?thesis
        using False Some 2(1) by (auto simp: append_groups.psimps Let_def)
    qed
  qed
qed (simp add: append_groups.psimps)

termination append_groups
proof (relation "measures [\<lambda>(put, G, gs, effective, appended). card (fst ` set G - set appended), \<lambda>(put, G, gs, effective, appended). length gs]")
  show "wf (measures [\<lambda>(put, G, gs, effective, appended). card (fst ` set G - set appended), \<lambda>(put, G, gs, effective, appended). length gs])"
    by simp
qed (auto simp: card_fewer_names dest!: append_groups_marks intro!: le_neq_implies_less [OF card_mono])

definition put_permissions :: "utext \<Rightarrow> permission_group \<Rightarrow> permission_set \<Rightarrow> permission_set" where
  "put_permissions gname g effective = fold (\<lambda>e. push_group e gname (pg_priority g)) (ps_entries (pg_permissions g)) effective"

definition put_metadata :: "utext \<Rightarrow> permission_group \<Rightarrow> metadata_set \<Rightarrow> metadata_set" where
  "put_metadata gname g effective = fold (\<lambda>e. meta_push_group e gname (pg_priority g)) (ms_entries (pg_metadata g)) effective"

definition effective_permissions :: "permission_groups \<Rightarrow> utext list \<Rightarrow> permission_set \<Rightarrow> permission_set" where
  "effective_permissions gs assigned subject =
     (let r = append_groups put_permissions (gs_groups gs) (gs_default_groups gs) set_new [];
          r = append_groups put_permissions (gs_groups gs) assigned (fst r) (snd r) in
      fold set_push (ps_entries subject) (fst r))"

definition effective_metadata :: "permission_groups \<Rightarrow> utext list \<Rightarrow> metadata_set \<Rightarrow> metadata_set" where
  "effective_metadata gs assigned subject =
     (let r = append_groups put_metadata (gs_groups gs) (gs_default_groups gs) meta_new [];
          r = append_groups put_metadata (gs_groups gs) assigned (fst r) (snd r) in
      fold meta_push (ms_entries subject) (fst r))"

definition contains_group :: "permission_groups \<Rightarrow> utext \<Rightarrow> bool" where
  "contains_group gs g \<longleftrightarrow> map_of (gs_groups gs) g \<noteq> None"

section \<open>Who inherits from whom\<close>

definition parent_rel :: "('g \<Rightarrow> utext list) \<Rightarrow> (utext \<times> 'g) list \<Rightarrow> (utext \<times> utext) set" where
  "parent_rel parents G = {(g, p). \<exists>c. map_of G g = Some c \<and> p \<in> set (parents c)}"

text \<open>The names that come before others: visited ones never lead back.\<close>

fun topo :: "configured \<Rightarrow> utext list \<Rightarrow> bool" where
  "topo G [] \<longleftrightarrow> True"
| "topo G (x # v) \<longleftrightarrow> x \<notin> set v \<and> parent_rel gc_inherits G `` {x} \<subseteq> set v \<and> topo G v"

lemma validate_nodes_visits:
  "\<lbrakk>validate_nodes G g ps visited stack = Inr v; topo G visited; set visited \<inter> set stack = {}\<rbrakk>
   \<Longrightarrow> topo G v \<and> set visited \<union> set ps \<subseteq> set v \<and> set v \<inter> set stack = {}"
proof (induction G g ps visited stack arbitrary: v rule: validate_nodes.induct)
  case (2 G g p ps visited stack)
  then obtain c where c: "map_of G p = Some c"
    by (auto split: option.splits)
  let ?visit = "if p \<in> set visited then Inr visited
      else case position (\<lambda>x. x = p) stack of
        Some start \<Rightarrow> Inl (InheritedGroupCycle (drop start stack @ [p]))
      | None \<Rightarrow> bind_result (validate_nodes G p (gc_inherits c) visited (stack @ [p])) (\<lambda>visited. Inr (p # visited))"
  obtain v1 where v1: "?visit = Inr v1" "validate_nodes G g ps v1 stack = Inr v"
    using 2(3) c by (auto simp: bind_result_Inr_iff)
  have "topo G v1 \<and> set visited \<union> {p} \<subseteq> set v1 \<and> set v1 \<inter> set stack = {}"
  proof (cases "p \<in> set visited")
    case True
    then show ?thesis
      using 2(4,5) v1(1) by auto
  next
    case False
    then have new: "position (\<lambda>x. x = p) stack = None"
      using v1(1) by (auto split: option.splits)
    then obtain v0 where v0: "validate_nodes G p (gc_inherits c) visited (stack @ [p]) = Inr v0" "v1 = p # v0"
      using v1(1) False by (auto simp: bind_result_Inr_iff)
    have "topo G v0 \<and> set visited \<union> set (gc_inherits c) \<subseteq> set v0 \<and> set v0 \<inter> set (stack @ [p]) = {}"
      using 2(1) [OF c False new v0(1)] 2(4,5) False new by (simp add: ancestor_None)
    moreover have "parent_rel gc_inherits G `` {p} = set (gc_inherits c)"
      using c by (auto simp: parent_rel_def)
    ultimately show ?thesis
      using v0(2) new by (auto simp: ancestor_None)
  qed
  moreover from this have "topo G v \<and> set v1 \<union> set ps \<subseteq> set v \<and> set v \<inter> set stack = {}"
    using 2(2) [OF c v1] by blast
  ultimately show ?case
    by auto
qed simp

text \<open>Every error names what is wrong: a parent that is not configured, or a chain of parents that comes back.\<close>

definition edges :: "('a \<times> 'a) set \<Rightarrow> 'a list \<Rightarrow> bool" where
  "edges r xs \<longleftrightarrow> (\<forall>i. Suc i < length xs \<longrightarrow> (xs ! i, xs ! Suc i) \<in> r)"

definition cycle_of :: "('a \<times> 'a) set \<Rightarrow> 'a list \<Rightarrow> bool" where
  "cycle_of r xs \<longleftrightarrow> 2 \<le> length xs \<and> edges r xs \<and> hd xs = last xs"

lemma edges_snoc: "edges r xs \<Longrightarrow> (xs \<noteq> [] \<Longrightarrow> (last xs, x) \<in> r) \<Longrightarrow> edges r (xs @ [x])"
  by (cases xs rule: rev_cases) (auto simp: edges_def nth_append less_Suc_eq)

lemma edges_drop: "edges r xs \<Longrightarrow> edges r (drop n xs)"
  by (simp add: edges_def)

lemma edges_reach: "\<lbrakk>edges r xs; i < j; j < length xs\<rbrakk> \<Longrightarrow> (xs ! i, xs ! j) \<in> r\<^sup>+"
proof (induction j)
  case (Suc j)
  have step: "(xs ! j, xs ! Suc j) \<in> r"
    using Suc(2,4) by (simp add: edges_def)
  show ?case
  proof (cases "i = j")
    case False
    then have "(xs ! i, xs ! j) \<in> r\<^sup>+"
      using Suc by simp
    then show ?thesis
      using step by (rule trancl_into_trancl)
  qed (use step in auto)
qed simp

lemma cycle_not_acyclic: "cycle_of r xs \<Longrightarrow> \<not> acyclic r"
proof
  assume c: "cycle_of r xs" and a: "acyclic r"
  have "xs \<noteq> []"
    using c by (auto simp: cycle_of_def)
  have "(xs ! 0, xs ! (length xs - 1)) \<in> r\<^sup>+"
    using c by (intro edges_reach) (auto simp: cycle_of_def)
  then have "(hd xs, last xs) \<in> r\<^sup>+"
    by (simp only: hd_conv_nth [OF \<open>xs \<noteq> []\<close>] last_conv_nth [OF \<open>xs \<noteq> []\<close>])
  then show False
    using c a by (auto simp: cycle_of_def acyclic_def)
qed

definition inheritance_error :: "configured \<Rightarrow> config_error \<Rightarrow> bool" where
  "inheritance_error G e \<longleftrightarrow>
     (case e of
        MissingInheritedGroup g p \<Rightarrow> (g, p) \<in> parent_rel gc_inherits G \<and> map_of G p = None
      | InheritedGroupCycle c \<Rightarrow> cycle_of (parent_rel gc_inherits G) c
      | InvalidGroupName p source \<Rightarrow> p \<in> Range (parent_rel gc_inherits G) \<and> segment_parse p = Inl source
      | _ \<Rightarrow> False)"

lemma validate_nodes_error:
  "\<lbrakk>validate_nodes G g ps visited stack = Inl e; edges (parent_rel gc_inherits G) stack;
    if stack = [] then set ps \<subseteq> dom (map_of G) else last stack = g \<and> set ps \<subseteq> parent_rel gc_inherits G `` {g}\<rbrakk>
   \<Longrightarrow> inheritance_error G e"
proof (induction G g ps visited stack rule: validate_nodes.induct)
  case (2 G g p ps visited stack)
  let ?r = "parent_rel gc_inherits G"
  show ?case
  proof (cases "map_of G p")
    case None
    then have "e = MissingInheritedGroup g p" "stack \<noteq> []"
      using 2(3,5) by (auto split: if_splits)
    then show ?thesis
      using None 2(5) by (auto simp: inheritance_error_def split: if_splits)
  next
    case (Some c)
    let ?visit = "if p \<in> set visited then Inr visited
        else case position (\<lambda>x. x = p) stack of
          Some start \<Rightarrow> Inl (InheritedGroupCycle (drop start stack @ [p]))
        | None \<Rightarrow> bind_result (validate_nodes G p (gc_inherits c) visited (stack @ [p])) (\<lambda>visited. Inr (p # visited))"
    have path: "edges ?r (stack @ [p])"
      using 2(4,5) by (intro edges_snoc) auto
    show ?thesis
    proof (cases ?visit)
      case (Inr v1)
      then have "validate_nodes G g ps v1 stack = Inl e"
        using 2(3) Some by simp
      then show ?thesis
        using 2(2) [OF Some Inr] 2(4,5) by (auto split: if_splits)
    next
      case (Inl e')
      then have e': "e' = e" "p \<notin> set visited"
        using 2(3) Some by (auto split: if_splits)
      show ?thesis
      proof (cases "position (\<lambda>x. x = p) stack")
        case None
        then have "validate_nodes G p (gc_inherits c) visited (stack @ [p]) = Inl e"
          using Inl e' by (cases "validate_nodes G p (gc_inherits c) visited (stack @ [p])") auto
        then show ?thesis
          using 2(1) [OF Some e'(2) None] path Some by (auto simp: parent_rel_def)
      next
        case start: (Some start)
        then have "e = InheritedGroupCycle (drop start (stack @ [p]))" "start < length stack" "stack ! start = p"
          using Inl e' ancestor_Some [of p stack start] by auto
        then show ?thesis
          using edges_drop [OF path, of start]
          by (auto simp: inheritance_error_def cycle_of_def hd_append hd_drop_conv_nth)
      qed
    qed
  qed
qed simp

lemma topo_acyclic:
  assumes "topo G v" "Domain (parent_rel gc_inherits G) \<subseteq> set v"
  shows "acyclic (parent_rel gc_inherits G)"
proof -
  let ?rank = "\<lambda>x. length (dropWhile (\<lambda>y. y \<noteq> x) v)"
  have "?rank y < ?rank x" if "x \<in> set v" "(x, y) \<in> parent_rel gc_inherits G" for x y
    using assms(1) that
  proof (induction v)
    case (Cons z v)
    show ?case
    proof (cases "x = z")
      case True
      then have "y \<in> set v" "y \<noteq> z"
        using Cons by auto
      then show ?thesis
        using True length_dropWhile_le [of "\<lambda>w. w \<noteq> y" v] by simp
    next
      case False
      then have x: "x \<in> set v"
        using Cons by simp
      have later: "y \<in> set w" if "topo G w" "x \<in> set w" for w
        using that Cons.prems(3) by (induction w) auto
      have "y \<noteq> z"
        using later [of v] x Cons.prems(1) by auto
      then show ?thesis
        using Cons x False by simp
    qed
  qed simp
  then have "parent_rel gc_inherits G \<subseteq> (measure ?rank)\<inverse>"
    using assms(2) by auto
  then show ?thesis
    by (metis acyclic_converse acyclic_subset wf_acyclic wf_measure)
qed

text \<open>The check passes exactly for configurations whose parents have valid names, exist and never lead back.\<close>

lemma validate_group_name_ok: "validate_group_name g = Inr () \<longleftrightarrow> valid_segment g"
proof (cases "segment_parse g")
  case (Inl e)
  then show ?thesis
    using segment_parse_valid [of g "PermissionSegment g"] by (simp add: validate_group_name_def)
next
  case (Inr s)
  then show ?thesis
    using segment_parse_valid [of g s] by (simp add: validate_group_name_def)
qed

lemma validate_group_name_error: "validate_group_name g = Inl e \<longleftrightarrow> (\<exists>source. e = InvalidGroupName g source \<and> segment_parse g = Inl source)"
  by (auto simp: validate_group_name_def split: sum.splits)

lemma check_parents_ok:
  "check_parents G g ps = Inr () \<longleftrightarrow> (\<forall>p \<in> set ps. valid_segment p \<and> map_of G p \<noteq> None)"
  by (induction ps) (auto simp: bind_result_Inr_iff validate_group_name_ok)

lemma check_parents_error:
  "\<lbrakk>check_parents G g ps = Inl e; map_of G g = Some c; set ps \<subseteq> set (gc_inherits c)\<rbrakk> \<Longrightarrow> inheritance_error G e"
proof (induction ps)
  case (Cons p ps)
  then have edge: "(g, p) \<in> parent_rel gc_inherits G"
    by (simp add: parent_rel_def)
  show ?case
  proof (cases "validate_group_name p")
    case (Inl e')
    then have "validate_group_name p = Inl e"
      using Cons.prems(1) by simp
    then show ?thesis
      using edge by (auto simp: inheritance_error_def validate_group_name_error)
  next
    case (Inr u)
    then show ?thesis
      using Cons edge by (auto simp: inheritance_error_def split: if_splits)
  qed
qed simp

lemma check_all_parents_ok:
  "check_all_parents G H = Inr () \<longleftrightarrow> (\<forall>(g, c) \<in> set H. \<forall>p \<in> set (gc_inherits c). valid_segment p \<and> map_of G p \<noteq> None)"
  by (induction H) (auto simp: bind_result_Inr_iff check_parents_ok)

lemma check_all_parents_error:
  "\<lbrakk>check_all_parents G H = Inl e; set H \<subseteq> set G; distinct (map fst G)\<rbrakk> \<Longrightarrow> inheritance_error G e"
proof (induction H)
  case (Cons h H)
  obtain g c where h: "h = (g, c)"
    by (cases h)
  show ?case
  proof (cases "check_parents G g (gc_inherits c)")
    case (Inl e')
    then show ?thesis
      using Cons.prems h check_parents_error [of G g "gc_inherits c" e' c] by simp
  next
    case (Inr u)
    then show ?thesis
      using Cons h by simp
  qed
qed simp

definition well_inherited :: "configured \<Rightarrow> bool" where
  "well_inherited G \<longleftrightarrow> (\<forall>p \<in> Range (parent_rel gc_inherits G). valid_segment p \<and> p \<in> dom (map_of G)) \<and> acyclic (parent_rel gc_inherits G)"

lemma dom_of_map: "dom (map_of G) = set (map fst G)"
  by (simp add: dom_map_of_conv_image_fst)

lemma validate_inheritance_error:
  assumes "distinct (map fst G)" "validate_group_inheritance G = Inl e"
  shows "inheritance_error G e"
proof (cases "check_all_parents G G")
  case (Inl e')
  then show ?thesis
    using assms check_all_parents_error [of G G e'] by (simp add: validate_group_inheritance_def)
next
  case (Inr u)
  then have "validate_nodes G [] (map fst G) [] [] = Inl e"
    using assms(2) by (cases "validate_nodes G [] (map fst G) [] []") (auto simp: validate_group_inheritance_def)
  then show ?thesis
    by (rule validate_nodes_error) (simp_all add: edges_def dom_of_map)
qed

lemma well_inherited_no_error:
  assumes "well_inherited G"
  shows "\<not> inheritance_error G e"
proof (cases e)
  case (MissingInheritedGroup g p)
  have "p \<in> dom (map_of G)" if "(g, p) \<in> parent_rel gc_inherits G"
    using assms that unfolding well_inherited_def by blast
  then show ?thesis
    using MissingInheritedGroup by (auto simp: inheritance_error_def)
next
  case (InheritedGroupCycle c)
  then show ?thesis
    using assms cycle_not_acyclic by (auto simp: inheritance_error_def well_inherited_def)
next
  case (InvalidGroupName p source)
  have "valid_segment p" if "p \<in> Range (parent_rel gc_inherits G)"
    using assms that unfolding well_inherited_def by blast
  then show ?thesis
    using InvalidGroupName segment_parse_valid [of p "PermissionSegment p"] by (auto simp: inheritance_error_def)
qed (simp_all add: inheritance_error_def)

lemma validate_inheritance_ok:
  assumes "distinct (map fst G)"
  shows "validate_group_inheritance G = Inr () \<longleftrightarrow> well_inherited G"
proof
  assume ok: "validate_group_inheritance G = Inr ()"
  then obtain v where v: "check_all_parents G G = Inr ()" "validate_nodes G [] (map fst G) [] [] = Inr v"
    by (auto simp: validate_group_inheritance_def bind_result_Inr_iff)
  have "topo G v \<and> set (map fst G) \<subseteq> set v"
    using validate_nodes_visits [OF v(2)] by simp
  moreover have "Domain (parent_rel gc_inherits G) \<subseteq> set (map fst G)"
    by (auto simp: parent_rel_def dest!: map_of_SomeD intro: rev_image_eqI)
  ultimately have "acyclic (parent_rel gc_inherits G)"
    by (intro topo_acyclic) auto
  moreover have "valid_segment p \<and> p \<in> dom (map_of G)" if p: "p \<in> Range (parent_rel gc_inherits G)" for p
  proof -
    obtain g c where "map_of G g = Some c" "p \<in> set (gc_inherits c)"
      using p by (auto simp: parent_rel_def)
    then show ?thesis
      using v(1) map_of_SomeD [of G g c] by (fastforce simp: check_all_parents_ok)
  qed
  ultimately show "well_inherited G"
    by (simp add: well_inherited_def)
next
  assume well: "well_inherited G"
  show "validate_group_inheritance G = Inr ()"
  proof (cases "validate_group_inheritance G")
    case (Inl e)
    have "\<not> inheritance_error G e"
      by (rule well_inherited_no_error [OF well])
    then show ?thesis
      using validate_inheritance_error [OF assms Inl] by blast
  qed simp
qed

section \<open>What the groups of a configuration are\<close>

text \<open>The rules that the texts of a group stand for.\<close>

definition rule_entry :: "permission_state \<Rightarrow> utext \<Rightarrow> permission_entry" where
  "rule_entry st t = (case rule_parse t of Inl _ \<Rightarrow> undefined | Inr r \<Rightarrow> new_with_context (rule_key r) (rule_ctx r) st)"

lemma push_group_rules_entries:
  "push_group_rules g st rules ps = Inr qs \<Longrightarrow>
     (\<forall>t \<in> set rules. \<exists>r. rule_parse t = Inr r) \<and> ps_entries qs = ps_entries ps @ map (rule_entry st) rules"
  by (induction rules arbitrary: ps)
    (auto simp: bind_result_Inr_iff parse_group_rule_def map_err_Inr set_push_def rule_entry_def)

lemma parse_groups_result:
  "parse_groups H = Inr G \<Longrightarrow> map fst G = map fst H \<and>
     (\<forall>i < length H. let c = snd (H ! i); pg = snd (G ! i) in
        valid_segment (fst (H ! i)) \<and> pg_priority pg = gc_priority c \<and> pg_inherits pg = gc_inherits c \<and>
        ps_entries (pg_permissions pg) = map (rule_entry Allow) (gc_allow c) @ map (rule_entry Deny) (gc_deny c))"
proof (induction H arbitrary: G)
  case (Cons h H)
  obtain name c where h: "h = (name, c)"
    by (cases h)
  obtain p m gs where pmg: "validate_group_name name = Inr ()" "parse_group_permissions name (gc_allow c) (gc_deny c) = Inr p"
    "parse_groups H = Inr gs"
    "G = (name, \<lparr>pg_priority = gc_priority c, pg_inherits = gc_inherits c, pg_permissions = p, pg_metadata = m\<rparr>) # gs"
    using Cons.prems h by (auto simp: bind_result_Inr_iff)
  have "ps_entries p = map (rule_entry Allow) (gc_allow c) @ map (rule_entry Deny) (gc_deny c)"
    using pmg(2) by (auto simp: parse_group_permissions_def bind_result_Inr_iff set_new_def dest!: push_group_rules_entries)
  then show ?case
    using Cons.IH [OF pmg(3)] pmg(1,4) h by (auto simp: nth_Cons Let_def validate_group_name_ok split: nat.split)
qed simp

section \<open>The groups of one who asks\<close>

definition inherited :: "(utext \<times> utext) set \<Rightarrow> utext list \<Rightarrow> utext set" where
  "inherited r gs = r\<^sup>* `` set gs"

lemma inherited_Cons: "inherited r (g # gs) = inherited r [g] \<union> inherited r gs"
  by (auto simp: inherited_def)

lemma inherited_parents:
  assumes "map_of G g = Some pg"
  shows "inherited (parent_rel pg_inherits G) [g] = insert g (inherited (parent_rel pg_inherits G) (pg_inherits pg))"
proof -
  have "parent_rel pg_inherits G `` {g} = set (pg_inherits pg)"
    using assms by (auto simp: parent_rel_def)
  then show ?thesis
    by (auto simp: inherited_def elim: converse_rtranclE intro: converse_rtrancl_into_rtrancl)
qed

text \<open>
  Whatever is collected, the groups are collected in one order: each once, none that was marked before, exactly the
  known ones among those newly marked, which are the ones that the marks did not hide.
\<close>

definition visits ::
    "(utext \<times> permission_group) list \<Rightarrow> utext list \<Rightarrow> utext list \<Rightarrow> utext list \<Rightarrow> utext list \<Rightarrow> bool" where
  "visits G gs appended order marked \<longleftrightarrow>
     set gs \<union> set appended \<subseteq> set marked \<and> set marked \<subseteq> set appended \<union> inherited (parent_rel pg_inherits G) gs \<and>
     parent_rel pg_inherits G `` (set marked - set appended) \<subseteq> set marked \<and>
     distinct order \<and> set order = (set marked - set appended) \<inter> dom (map_of G)"

lemma visits_Nil: "visits G [] appended [] appended"
  by (simp add: visits_def)

lemma visits_seen: "\<lbrakk>visits G gs appended order marked; g \<in> set appended\<rbrakk> \<Longrightarrow> visits G (g # gs) appended order marked"
  by (auto simp: visits_def inherited_Cons [of _ g gs])

lemma visits_unknown:
  assumes "visits G gs (g # appended) order marked" "map_of G g = None" "g \<notin> set appended"
  shows "visits G (g # gs) appended order marked"
proof -
  let ?r = "parent_rel pg_inherits G"
  have g: "?r `` {g} = {}" "g \<in> inherited ?r [g]" "g \<notin> dom (map_of G)"
    using assms(2) by (auto simp: parent_rel_def inherited_def)
  have marks: "set marked - set appended \<subseteq> (set marked - set (g # appended)) \<union> {g}"
    "(set marked - set appended) \<inter> dom (map_of G) = (set marked - set (g # appended)) \<inter> dom (map_of G)"
    using g(3) by auto
  have "?r `` (set marked - set appended) \<subseteq> set marked"
    using assms(1) g(1) marks(1) unfolding visits_def by blast
  moreover have "set marked \<subseteq> set appended \<union> inherited ?r (g # gs)" "set (g # gs) \<union> set appended \<subseteq> set marked"
    using assms(1) g(2) inherited_Cons [of ?r g gs] by (auto simp: visits_def)
  ultimately show ?thesis
    using assms(1) unfolding visits_def marks(2) by blast
qed

lemma visits_known:
  assumes "visits G (pg_inherits pg) (g # appended) order' marked'" "visits G gs marked' order marked"
    "map_of G g = Some pg" "g \<notin> set appended"
  shows "visits G (g # gs) appended (order' @ [g] @ order) marked"
proof -
  let ?r = "parent_rel pg_inherits G"
  have parents: "?r `` {g} = set (pg_inherits pg)"
    using assms(3) by (auto simp: parent_rel_def)
  note inherited = inherited_Cons [of ?r g gs] inherited_parents [OF assms(3)]
  have sub: "set (pg_inherits pg) \<union> {g} \<union> set appended \<subseteq> set marked'" "set gs \<union> set marked' \<subseteq> set marked"
    "set marked' \<subseteq> {g} \<union> set appended \<union> inherited ?r (pg_inherits pg)" "set marked \<subseteq> set marked' \<union> inherited ?r gs"
    using assms(1,2) by (auto simp: visits_def)
  have closed: "?r `` (set marked' - set (g # appended)) \<subseteq> set marked'" "?r `` (set marked - set marked') \<subseteq> set marked"
    using assms(1,2) by (simp_all add: visits_def)
  have "?r `` (set marked - set appended) \<subseteq> set marked"
  proof -
    have "set marked - set appended \<subseteq> (set marked' - set (g # appended)) \<union> (set marked - set marked') \<union> {g}"
      by auto
    then show ?thesis
      using closed parents sub(1,2) by blast
  qed
  moreover have "distinct (order' @ [g] @ order)" "set (order' @ [g] @ order) = (set marked - set appended) \<inter> dom (map_of G)"
    using assms sub(1,2) by (auto simp: visits_def)
  ultimately show ?thesis
    using sub inherited by (auto simp: visits_def)
qed

lemma append_groups_visits:
  fixes put :: "utext \<Rightarrow> permission_group \<Rightarrow> 'a \<Rightarrow> 'a" and some :: 'a
  shows "\<exists>order marked. visits G gs appended order marked \<and>
     (\<forall>effective. append_groups put G gs effective appended = (fold (\<lambda>g. put g (the (map_of G g))) order effective, marked))"
proof (induction put G gs some appended rule: append_groups.induct)
  case (1 put G some appended)
  then show ?case
    using visits_Nil by fastforce
next
  case (2 put G g gs some appended)
  show ?case
  proof (cases "g \<in> set appended")
    case True
    then show ?thesis
      using 2(1) visits_seen by fastforce
  next
    case False
    show ?thesis
    proof (cases "map_of G g")
      case None
      then obtain order marked where o: "visits G gs (g # appended) order marked"
        "\<And>effective. append_groups put G gs effective (g # appended) = (fold (\<lambda>g. put g (the (map_of G g))) order effective, marked)"
        using 2(2) [OF False None] by blast
      show ?thesis
        using visits_unknown [OF o(1) None False] o(2) False None by (intro exI [of _ order] exI [of _ marked]) simp
    next
      case (Some pg)
      obtain order' marked' where i: "visits G (pg_inherits pg) (g # appended) order' marked'"
        "\<And>effective. append_groups put G (pg_inherits pg) effective (g # appended) = (fold (\<lambda>g. put g (the (map_of G g))) order' effective, marked')"
        using 2(3) [OF False Some] by blast
      obtain order marked where o: "visits G gs marked' order marked"
        "\<And>effective. append_groups put G gs effective marked' = (fold (\<lambda>g. put g (the (map_of G g))) order effective, marked)"
        using 2(4) [OF False Some refl] i(2) by auto
      show ?thesis
        using visits_known [OF i(1) o(1) Some False] i(2) o(2) False Some
        by (intro exI [of _ "order' @ [g] @ order"] exI [of _ marked]) (simp add: Let_def)
    qed
  qed
qed

lemma append_groups_append:
  "append_groups put G (gs @ hs) effective appended =
     append_groups put G hs (fst (append_groups put G gs effective appended)) (snd (append_groups put G gs effective appended))"
  by (induction put G gs effective appended rule: append_groups.induct) (simp_all add: Let_def split: option.split)

text \<open>The rules that a known group gives, and those of one who asks.\<close>

definition group_rules :: "utext \<Rightarrow> permission_group \<Rightarrow> (permission_entry \<times> resolution_source) list" where
  "group_rules gname g = map (\<lambda>e. (e, FromGroup gname (pg_priority g))) (ps_entries (pg_permissions g))"

definition subject_rules :: "permission_set \<Rightarrow> (permission_entry \<times> resolution_source) list" where
  "subject_rules ps = map (\<lambda>e. (e, FromSubject)) (ps_entries ps)"

definition groups_of :: "permission_groups \<Rightarrow> utext list \<Rightarrow> utext set" where
  "groups_of gs assigned =
     (parent_rel pg_inherits (gs_groups gs))\<^sup>* `` (set (gs_default_groups gs) \<union> set assigned) \<inter> dom (map_of (gs_groups gs))"

lemma rules_put:
  "set_paired eff \<Longrightarrow> set_paired (put_permissions g pg eff) \<and> rules_of (put_permissions g pg eff) = rules_of eff @ group_rules g pg"
proof -
  have "set_paired (fold (\<lambda>e. push_group e g n) es eff) \<and>
      rules_of (fold (\<lambda>e. push_group e g n) es eff) = rules_of eff @ map (\<lambda>e. (e, FromGroup g n)) es" if "set_paired eff" for es n
    using that by (induction es arbitrary: eff) (simp_all add: push_group_def rules_push)
  then show "set_paired eff \<Longrightarrow> ?thesis"
    by (simp add: put_permissions_def group_rules_def)
qed

lemma rules_put_all:
  "set_paired eff \<Longrightarrow> set_paired (fold (\<lambda>g. put_permissions g (f g)) gs eff) \<and>
     rules_of (fold (\<lambda>g. put_permissions g (f g)) gs eff) = rules_of eff @ concat (map (\<lambda>g. group_rules g (f g)) gs)"
  by (induction gs arbitrary: eff) (simp_all add: rules_put)

lemma rules_subject:
  "set_paired eff \<Longrightarrow> rules_of (fold set_push es eff) = rules_of eff @ map (\<lambda>e. (e, FromSubject)) es"
  by (induction es arbitrary: eff) (simp_all add: set_push_def rules_push)

lemma marked_groups:
  assumes "visits (gs_groups gs) (gs_default_groups gs @ assigned) [] order marked"
  shows "distinct order" "set order = groups_of gs assigned"
proof -
  let ?r = "parent_rel pg_inherits (gs_groups gs)" and ?start = "gs_default_groups gs @ assigned"
  have marked: "set ?start \<subseteq> set marked" "set marked \<subseteq> ?r\<^sup>* `` set ?start" "?r `` set marked \<subseteq> set marked"
    "distinct order" "set order = set marked \<inter> dom (map_of (gs_groups gs))"
    using assms by (simp_all add: visits_def inherited_def)
  have "set marked = ?r\<^sup>* `` set ?start"
    using Image_mono [OF subset_refl marked(1), of "?r\<^sup>*"] marked(2) unfolding Image_closed_trancl [OF marked(3)]
    by (rule subset_antisym [rotated])
  then show "distinct order" "set order = groups_of gs assigned"
    using marked(4,5) by (simp_all add: groups_of_def)
qed

lemma effective_order:
  "\<exists>order. distinct order \<and> set order = groups_of gs assigned \<and>
     rules_of (effective_permissions gs assigned subject) =
       concat (map (\<lambda>g. group_rules g (the (map_of (gs_groups gs) g))) order) @ subject_rules subject"
proof -
  let ?G = "gs_groups gs" and ?start = "gs_default_groups gs @ assigned"
  obtain order marked where o: "visits ?G ?start [] order marked"
    "\<And>effective. append_groups put_permissions ?G ?start effective [] = (fold (\<lambda>g. put_permissions g (the (map_of ?G g))) order effective, marked)"
    using append_groups_visits [of ?G ?start "[]" put_permissions] by blast
  have "rules_of (effective_permissions gs assigned subject) =
      concat (map (\<lambda>g. group_rules g (the (map_of ?G g))) order) @ subject_rules subject"
  proof -
    have "effective_permissions gs assigned subject = fold set_push (ps_entries subject) (fold (\<lambda>g. put_permissions g (the (map_of ?G g))) order set_new)"
      using o(2) by (simp add: effective_permissions_def append_groups_append Let_def)
    moreover have "set_paired set_new" "rules_of set_new = []"
      by (simp_all add: set_paired_def set_new_def rules_of_def)
    ultimately show ?thesis
      by (simp add: rules_subject rules_put_all subject_rules_def)
  qed
  then show ?thesis
    using marked_groups [OF o(1)] by blast
qed

lemma effective_rules:
  "set (rules_of (effective_permissions gs assigned subject)) =
     (\<Union>g \<in> groups_of gs assigned. set (group_rules g (the (map_of (gs_groups gs) g)))) \<union> set (subject_rules subject)"
proof -
  obtain order where "set order = groups_of gs assigned"
    "rules_of (effective_permissions gs assigned subject) =
       concat (map (\<lambda>g. group_rules g (the (map_of (gs_groups gs) g))) order) @ subject_rules subject"
    using effective_order [of gs assigned subject] by blast
  then show ?thesis by simp
qed

text \<open>The same of metadata, which keeps the order too: an effective set is the groups' entries and then the subject's.\<close>

definition group_metadata :: "utext \<Rightarrow> permission_group \<Rightarrow> (metadata_entry \<times> resolution_source) list" where
  "group_metadata gname g = map (\<lambda>e. (e, FromGroup gname (pg_priority g))) (ms_entries (pg_metadata g))"

lemma meta_push_rules:
  "meta_paired ms \<Longrightarrow> meta_paired (meta_push_with_source e s ms) \<and> meta_rules (meta_push_with_source e s ms) = meta_rules ms @ [(e, s)]"
  by (simp add: meta_paired_def meta_rules_def meta_push_with_source_def)

lemma meta_put:
  "meta_paired eff \<Longrightarrow> meta_paired (put_metadata g pg eff) \<and> meta_rules (put_metadata g pg eff) = meta_rules eff @ group_metadata g pg"
proof -
  have "meta_paired (fold (\<lambda>e. meta_push_group e g n) es eff) \<and>
      meta_rules (fold (\<lambda>e. meta_push_group e g n) es eff) = meta_rules eff @ map (\<lambda>e. (e, FromGroup g n)) es" if "meta_paired eff" for es n
    using that by (induction es arbitrary: eff) (simp_all add: meta_push_group_def meta_push_rules)
  then show "meta_paired eff \<Longrightarrow> ?thesis"
    by (simp add: put_metadata_def group_metadata_def)
qed

lemma meta_put_all:
  "meta_paired eff \<Longrightarrow> meta_paired (fold (\<lambda>g. put_metadata g (f g)) gs eff) \<and>
     meta_rules (fold (\<lambda>g. put_metadata g (f g)) gs eff) = meta_rules eff @ concat (map (\<lambda>g. group_metadata g (f g)) gs)"
  by (induction gs arbitrary: eff) (simp_all add: meta_put)

lemma meta_subject:
  "meta_paired eff \<Longrightarrow> meta_rules (fold meta_push es eff) = meta_rules eff @ map (\<lambda>e. (e, FromSubject)) es"
  by (induction es arbitrary: eff) (simp_all add: meta_push_def meta_push_rules)

lemma effective_metadata_order:
  "\<exists>order. distinct order \<and> set order = groups_of gs assigned \<and>
     meta_rules (effective_metadata gs assigned subject) =
       concat (map (\<lambda>g. group_metadata g (the (map_of (gs_groups gs) g))) order) @ map (\<lambda>e. (e, FromSubject)) (ms_entries subject)"
proof -
  let ?G = "gs_groups gs" and ?start = "gs_default_groups gs @ assigned"
  obtain order marked where o: "visits ?G ?start [] order marked"
    "\<And>effective. append_groups put_metadata ?G ?start effective [] = (fold (\<lambda>g. put_metadata g (the (map_of ?G g))) order effective, marked)"
    using append_groups_visits [of ?G ?start "[]" put_metadata] by blast
  have "effective_metadata gs assigned subject = fold meta_push (ms_entries subject) (fold (\<lambda>g. put_metadata g (the (map_of ?G g))) order meta_new)"
    using o(2) by (simp add: effective_metadata_def append_groups_append Let_def)
  moreover have "meta_paired meta_new" "meta_rules meta_new = []"
    by (simp_all add: meta_paired_def meta_new_def meta_rules_def)
  ultimately have "meta_rules (effective_metadata gs assigned subject) =
      concat (map (\<lambda>g. group_metadata g (the (map_of ?G g))) order) @ map (\<lambda>e. (e, FromSubject)) (ms_entries subject)"
    by (simp add: meta_subject meta_put_all)
  then show ?thesis
    using marked_groups [OF o(1)] by blast
qed

end
