(* ===== verification/PermServer.thy ===== *)
theory PermServer
  imports PermGroups
begin

text \<open>
  The permissions that a server publishes: the group manager (\<open>permission/manager.rs\<close>), the index of subjects
  (\<open>permission/subject.rs\<close>), their updates (\<open>server/permissions.rs\<close>), the operator commands
  (\<open>command/builtins/operator.rs\<close>) and the copies that online players carry (\<open>player/permissions.rs\<close>).
\<close>

section \<open>The group manager\<close>

datatype manager_error = ManagerConfig config_error | ManagerStore utext

text \<open>
  What writes the configuration to disk is outside; the model has its answer, and keeps what it acknowledged last.
\<close>

type_synonym group_store = "groups_config \<Rightarrow> utext + unit"

record group_manager =
  gm_config :: groups_config
  gm_groups :: permission_groups
  gm_store :: "group_store option"
  gm_acknowledged :: "groups_config option"

definition manager_new :: "groups_config \<Rightarrow> group_store option \<Rightarrow> config_error + group_manager" where
  "manager_new config store =
     bind_result (from_config config) (\<lambda>groups.
       Inr \<lparr>gm_config = config, gm_groups = groups, gm_store = store, gm_acknowledged = None\<rparr>)"

definition replace_config_locked :: "groups_config \<Rightarrow> group_manager \<Rightarrow> (manager_error + unit) \<times> group_manager" where
  "replace_config_locked config m =
     (case from_config config of
        Inl e \<Rightarrow> (Inl (ManagerConfig e), m)
      | Inr groups \<Rightarrow>
          (case gm_store m of
             None \<Rightarrow> (Inr (), m\<lparr>gm_config := config, gm_groups := groups\<rparr>)
           | Some store \<Rightarrow>
               (case store config of
                  Inl e \<Rightarrow> (Inl (ManagerStore e), m)
                | Inr _ \<Rightarrow> (Inr (), m\<lparr>gm_config := config, gm_groups := groups, gm_acknowledged := Some config\<rparr>))))"

definition replace_config :: "groups_config \<Rightarrow> group_manager \<Rightarrow> (manager_error + unit) \<times> group_manager" where
  "replace_config config m = replace_config_locked config m"

definition update_config :: "(groups_config \<Rightarrow> groups_config) \<Rightarrow> group_manager \<Rightarrow> (manager_error + unit) \<times> group_manager" where
  "update_config update m = replace_config_locked (update (gm_config m)) m"

datatype 'e group_update_error = EditError 'e | ManagerError manager_error

definition try_update_config ::
    "(groups_config \<Rightarrow> 'e + 't \<times> groups_config) \<Rightarrow> group_manager \<Rightarrow> ('e group_update_error + 't) \<times> group_manager" where
  "try_update_config update m =
     (case update (gm_config m) of
        Inl e \<Rightarrow> (Inl (EditError e), m)
      | Inr (result, config) \<Rightarrow>
          if config = gm_config m then (Inr result, m)
          else (case replace_config_locked config m of
            (Inl e, m) \<Rightarrow> (Inl (ManagerError e), m)
          | (Inr _, m) \<Rightarrow> (Inr result, m)))"

text \<open>The groups are those of the configuration, and what the store acknowledged last is what is published.\<close>

definition manager_ok :: "group_manager \<Rightarrow> bool" where
  "manager_ok m \<longleftrightarrow> from_config (gm_config m) = Inr (gm_groups m) \<and>
     (\<forall>c. gm_acknowledged m = Some c \<longrightarrow> gm_store m \<noteq> None \<and> c = gm_config m)"

lemma manager_new_ok: "manager_new config store = Inr m \<Longrightarrow> manager_ok m \<and> gm_config m = config"
  by (auto simp: manager_new_def bind_result_Inr_iff manager_ok_def)

lemma replace_locked_ok:
  assumes "manager_ok m" "replace_config_locked config m = (r, m')"
  shows "manager_ok m'"
proof -
  have "gm_acknowledged m = None" if "gm_store m = None"
    using assms(1) that by (auto simp: manager_ok_def)
  then show ?thesis
    using assms by (auto simp: replace_config_locked_def manager_ok_def split: sum.splits option.splits)
qed

lemma replace_locked_cases:
  "replace_config_locked config m = (r, m') \<Longrightarrow>
     (case r of
        Inr _ \<Rightarrow> gm_config m' = config \<and> from_config config = Inr (gm_groups m') \<and>
          (gm_store m \<noteq> None \<longrightarrow> gm_acknowledged m' = Some config)
      | Inl (ManagerConfig e) \<Rightarrow> m' = m \<and> from_config config = Inl e
      | Inl (ManagerStore e) \<Rightarrow> m' = m \<and> (\<exists>store. gm_store m = Some store \<and> store config = Inl e))"
  by (auto simp: replace_config_locked_def split: sum.splits option.splits)

lemma try_update_ok:
  assumes "manager_ok m" "try_update_config update m = (r, m')"
  shows "manager_ok m'"
proof (cases "update (gm_config m)")
  case (Inl e)
  then show ?thesis
    using assms by (simp add: try_update_config_def)
next
  case (Inr p)
  obtain result config where p: "p = (result, config)"
    by (cases p)
  obtain r' m1 where m1: "replace_config_locked config m = (r', m1)"
    by (cases "replace_config_locked config m")
  have "m' = m \<or> m' = m1"
    using assms(2) Inr p m1 by (auto simp: try_update_config_def split: if_splits sum.splits)
  then show ?thesis
    using assms(1) replace_locked_ok [OF assms(1) m1] by blast
qed

section \<open>Subjects\<close>

record subject_state =
  sj_groups :: "utext list"
  sj_overrides :: permission_set
  sj_metadata :: metadata_set

definition subject_default :: subject_state where
  "subject_default = \<lparr>sj_groups = [], sj_overrides = set_new, sj_metadata = meta_new\<rparr>"

definition subject_is_empty :: "subject_state \<Rightarrow> bool" where
  "subject_is_empty s \<longleftrightarrow> sj_groups s = [] \<and> ps_entries (sj_overrides s) = [] \<and> ms_entries (sj_metadata s) = []"

text \<open>Players by the number of their UUID.\<close>

type_synonym uuid = nat
type_synonym subject_index = "uuid \<rightharpoonup> subject_state"

definition subject_insert :: "uuid \<Rightarrow> subject_state \<Rightarrow> subject_index \<Rightarrow> subject_index" where
  "subject_insert u st index = index(u \<mapsto> st)"

definition subject_remove :: "uuid \<Rightarrow> subject_index \<Rightarrow> subject_state option \<times> subject_index" where
  "subject_remove u index = (index u, index(u := None))"

section \<open>What online players carry\<close>

record player_permissions =
  pp_groups :: "utext list"
  pp_overrides :: permission_set
  pp_metadata_overrides :: metadata_set
  pp_effective :: permission_set
  pp_effective_metadata :: metadata_set
  pp_version :: "64 word"

definition player_permissions_default :: player_permissions where
  "player_permissions_default =
     \<lparr>pp_groups = [], pp_overrides = set_new, pp_metadata_overrides = meta_new, pp_effective = set_new,
      pp_effective_metadata = meta_new, pp_version = 0\<rparr>"

definition pp_replace ::
    "utext list \<Rightarrow> permission_set \<Rightarrow> metadata_set \<Rightarrow> permission_set \<Rightarrow> metadata_set \<Rightarrow> player_permissions \<Rightarrow> player_permissions" where
  "pp_replace groups overrides metadata effective values pp =
     \<lparr>pp_groups = groups, pp_overrides = overrides, pp_metadata_overrides = metadata, pp_effective = effective,
      pp_effective_metadata = values, pp_version = pp_version pp + 1\<rparr>"

section \<open>The server\<close>

datatype refresh_job = RefreshPlayer uuid | RefreshOnline

text \<open>
  Updates run on any thread and publish under locks; then each queues its refresh. \<open>sv_owed\<close> has the refreshes of
  updates that published and did not queue yet. Jobs run on the tick thread, which is also where players join:
  \<open>sv_todo\<close> are the players whose state it will apply next and \<open>sv_applying\<close> the one that it is at, with what it has
  read so far. Between its reads other threads may publish.
\<close>

record applying =
  ap_uuid :: uuid
  ap_subject :: subject_state
  ap_effective :: "permission_set option"
  ap_metadata :: "metadata_set option"

record perm_server =
  sv_manager :: group_manager
  sv_subjects :: subject_index
  sv_players :: "uuid \<rightharpoonup> player_permissions"
  sv_owed :: "refresh_job list"
  sv_jobs :: "refresh_job list"
  sv_todo :: "uuid list"
  sv_applying :: "applying option"

definition subject_of :: "uuid \<Rightarrow> perm_server \<Rightarrow> subject_state" where
  "subject_of u s = (case sv_subjects s u of None \<Rightarrow> subject_default | Some st \<Rightarrow> st)"

definition is_operator :: "uuid \<Rightarrow> perm_server \<Rightarrow> bool" where
  "is_operator u s \<longleftrightarrow> (case sv_subjects s u of None \<Rightarrow> False | Some st \<Rightarrow> OP_GROUP \<in> set (sj_groups st))"

definition command_permission_snapshot :: "uuid \<Rightarrow> perm_server \<Rightarrow> permission_set" where
  "command_permission_snapshot u s =
     effective_permissions (gm_groups (sv_manager s)) (sj_groups (subject_of u s)) (sj_overrides (subject_of u s))"

definition command_block_permission_snapshot :: "permission_groups \<Rightarrow> permission_set" where
  "command_block_permission_snapshot gs =
     (if contains_group gs COMMAND_BLOCK_GROUP then effective_permissions gs [COMMAND_BLOCK_GROUP] set_new
      else case from_config default_groups_config of
        Inr built_in \<Rightarrow> effective_permissions built_in [COMMAND_BLOCK_GROUP] set_new
      | Inl _ \<Rightarrow> set_new)"

datatype 'e player_update_error = Superseded | PlayerEdit 'e | UnknownGroup utext | StorageError utext

fun validate_player_permission_group_update :: "permission_groups \<Rightarrow> utext list \<Rightarrow> utext list \<Rightarrow> utext option" where
  "validate_player_permission_group_update gs previous [] = None"
| "validate_player_permission_group_update gs previous (g # updated) =
     (if g \<notin> set previous \<and> \<not> contains_group gs g then Some g
      else validate_player_permission_group_update gs previous updated)"

definition set_subject :: "uuid \<Rightarrow> subject_state \<Rightarrow> subject_index \<Rightarrow> subject_index" where
  "set_subject u st index = (if subject_is_empty st then snd (subject_remove u index) else subject_insert u st index)"

text \<open>\<open>save\<close> is the answer of the storage to the whole index, with how durable it is.\<close>

definition try_update_player_permissions_if_current ::
    "uuid \<Rightarrow> bool \<Rightarrow> (subject_state \<Rightarrow> 'e + subject_state \<times> 't) \<Rightarrow> (subject_index \<Rightarrow> utext + 'o) \<Rightarrow> perm_server \<Rightarrow>
      ('e player_update_error + subject_state \<times> 't \<times> 'o) \<times> perm_server" where
  "try_update_player_permissions_if_current u is_current update save s =
     (if \<not> is_current then (Inl Superseded, s)
      else case update (subject_of u s) of
        Inl e \<Rightarrow> (Inl (PlayerEdit e), s)
      | Inr (updated, result) \<Rightarrow>
          (case validate_player_permission_group_update (gm_groups (sv_manager s)) (sj_groups (subject_of u s)) (sj_groups updated) of
             Some g \<Rightarrow> (Inl (UnknownGroup g), s)
           | None \<Rightarrow>
               (let states = set_subject u updated (sv_subjects s) in
                case save states of
                  Inl e \<Rightarrow> (Inl (StorageError e), s)
                | Inr outcome \<Rightarrow>
                    (Inr (updated, result, outcome), s\<lparr>sv_subjects := states, sv_owed := sv_owed s @ [RefreshPlayer u]\<rparr>))))"

datatype operator_action = Grant | Revoke

fun update_groups :: "operator_action \<Rightarrow> utext list \<Rightarrow> bool \<times> utext list" where
  "update_groups Grant groups = (if OP_GROUP \<in> set groups then (False, groups) else (True, groups @ [OP_GROUP]))"
| "update_groups Revoke groups = (let kept = filter (\<lambda>g. g \<noteq> OP_GROUP) groups in (length kept \<noteq> length groups, kept))"

definition operator_edit :: "operator_action \<Rightarrow> subject_state \<Rightarrow> unit + subject_state \<times> bool" where
  "operator_edit action st = (let r = update_groups action (sj_groups st) in Inr (st\<lparr>sj_groups := snd r\<rparr>, fst r))"

definition update_operator_group ::
    "uuid \<Rightarrow> operator_action \<Rightarrow> (subject_index \<Rightarrow> utext + 'o) \<Rightarrow> perm_server \<Rightarrow> (unit player_update_error + bool) \<times> perm_server" where
  "update_operator_group u action save s =
     (case try_update_player_permissions_if_current u True (operator_edit action) save s of
        (Inl e, s) \<Rightarrow> (Inl e, s)
      | (Inr (_, changed, _), s) \<Rightarrow> (Inr changed, s))"

text \<open>A group update that succeeds owes a refresh of everyone, also when it changed nothing.\<close>

definition publish_groups :: "('x + 't) \<times> group_manager \<Rightarrow> perm_server \<Rightarrow> ('x + 't) \<times> perm_server" where
  "publish_groups r s =
     (case r of
        (Inl e, m) \<Rightarrow> (Inl e, s\<lparr>sv_manager := m\<rparr>)
      | (Inr x, m) \<Rightarrow> (Inr x, s\<lparr>sv_manager := m, sv_owed := sv_owed s @ [RefreshOnline]\<rparr>))"

definition replace_permission_groups :: "groups_config \<Rightarrow> perm_server \<Rightarrow> (manager_error + unit) \<times> perm_server" where
  "replace_permission_groups config s = publish_groups (replace_config config (sv_manager s)) s"

definition update_permission_groups :: "(groups_config \<Rightarrow> groups_config) \<Rightarrow> perm_server \<Rightarrow> (manager_error + unit) \<times> perm_server" where
  "update_permission_groups update s = publish_groups (update_config update (sv_manager s)) s"

definition try_update_permission_groups ::
    "(groups_config \<Rightarrow> 'e + 't \<times> groups_config) \<Rightarrow> perm_server \<Rightarrow> ('e group_update_error + 't) \<times> perm_server" where
  "try_update_permission_groups update s = publish_groups (try_update_config update (sv_manager s)) s"

section \<open>The tick thread\<close>

definition queue_refresh :: "perm_server \<Rightarrow> perm_server" where
  "queue_refresh s = (case sv_owed s of [] \<Rightarrow> s | j # js \<Rightarrow> s\<lparr>sv_owed := js, sv_jobs := sv_jobs s @ [j]\<rparr>)"

definition start_refresh :: "uuid list \<Rightarrow> perm_server \<Rightarrow> perm_server" where
  "start_refresh online s =
     (case sv_jobs s of
        [] \<Rightarrow> s
      | RefreshPlayer u # js \<Rightarrow> s\<lparr>sv_jobs := js, sv_todo := (if sv_players s u = None then [] else [u])\<rparr>
      | RefreshOnline # js \<Rightarrow> s\<lparr>sv_jobs := js, sv_todo := online\<rparr>)"

definition read_subject :: "perm_server \<Rightarrow> perm_server" where
  "read_subject s =
     (case sv_todo s of
        [] \<Rightarrow> s
      | u # us \<Rightarrow> s\<lparr>sv_todo := us, sv_applying := Some \<lparr>ap_uuid = u, ap_subject = subject_of u s, ap_effective = None, ap_metadata = None\<rparr>\<rparr>)"

definition read_effective :: "applying \<Rightarrow> perm_server \<Rightarrow> perm_server" where
  "read_effective a s =
     s\<lparr>sv_applying := Some (a\<lparr>ap_effective :=
       Some (effective_permissions (gm_groups (sv_manager s)) (sj_groups (ap_subject a)) (sj_overrides (ap_subject a)))\<rparr>)\<rparr>"

definition read_metadata :: "applying \<Rightarrow> perm_server \<Rightarrow> perm_server" where
  "read_metadata a s =
     s\<lparr>sv_applying := Some (a\<lparr>ap_metadata :=
       Some (effective_metadata (gm_groups (sv_manager s)) (sj_groups (ap_subject a)) (sj_metadata (ap_subject a)))\<rparr>)\<rparr>"

definition set_permission_state :: "applying \<Rightarrow> permission_set \<Rightarrow> metadata_set \<Rightarrow> perm_server \<Rightarrow> perm_server" where
  "set_permission_state a effective metadata s =
     s\<lparr>sv_players := (sv_players s)(ap_uuid a := map_option
         (pp_replace (sj_groups (ap_subject a)) (sj_overrides (ap_subject a)) (sj_metadata (ap_subject a)) effective metadata)
         (sv_players s (ap_uuid a))),
       sv_applying := None\<rparr>"

text \<open>A player who joins is in the map of online players before their state is applied.\<close>

definition join_player :: "uuid \<Rightarrow> perm_server \<Rightarrow> perm_server" where
  "join_player u s = s\<lparr>sv_players := (sv_players s)(u \<mapsto> player_permissions_default), sv_todo := [u]\<rparr>"

definition leave_player :: "uuid \<Rightarrow> perm_server \<Rightarrow> perm_server" where
  "leave_player u s = s\<lparr>sv_players := (sv_players s)(u := None)\<rparr>"

definition tick_idle :: "perm_server \<Rightarrow> bool" where
  "tick_idle s \<longleftrightarrow> sv_todo s = [] \<and> sv_applying s = None"

inductive perm_step :: "perm_server \<Rightarrow> perm_server \<Rightarrow> bool" where
  update_player: "try_update_player_permissions_if_current u current (update :: subject_state \<Rightarrow> unit + subject_state \<times> unit)
     (save :: subject_index \<Rightarrow> utext + unit) s = (r, s') \<Longrightarrow> perm_step s s'"
| replace_groups: "replace_permission_groups config s = (r, s') \<Longrightarrow> perm_step s s'"
| edit_groups: "try_update_permission_groups (update :: groups_config \<Rightarrow> unit + unit \<times> groups_config) s = (r, s') \<Longrightarrow> perm_step s s'"
| queue: "perm_step s (queue_refresh s)"
| start: "\<lbrakk>tick_idle s; set online = dom (sv_players s)\<rbrakk> \<Longrightarrow> perm_step s (start_refresh online s)"
| join: "\<lbrakk>tick_idle s; sv_players s u = None\<rbrakk> \<Longrightarrow> perm_step s (join_player u s)"
| leave: "perm_step s (leave_player u s)"
| read_subject: "sv_applying s = None \<Longrightarrow> perm_step s (read_subject s)"
| read_effective: "\<lbrakk>sv_applying s = Some a; ap_effective a = None\<rbrakk> \<Longrightarrow> perm_step s (read_effective a s)"
| read_metadata: "\<lbrakk>sv_applying s = Some a; ap_effective a = Some e; ap_metadata a = None\<rbrakk> \<Longrightarrow> perm_step s (read_metadata a s)"
| apply_state: "\<lbrakk>sv_applying s = Some a; ap_effective a = Some e; ap_metadata a = Some m\<rbrakk> \<Longrightarrow> perm_step s (set_permission_state a e m s)"

section \<open>What players carry is what is published\<close>

definition carries :: "uuid \<Rightarrow> perm_server \<Rightarrow> player_permissions \<Rightarrow> bool" where
  "carries u s pp \<longleftrightarrow> (let st = subject_of u s; gs = gm_groups (sv_manager s) in
     pp_groups pp = sj_groups st \<and> pp_overrides pp = sj_overrides st \<and> pp_metadata_overrides pp = sj_metadata st \<and>
     pp_effective pp = effective_permissions gs (sj_groups st) (sj_overrides st) \<and>
     pp_effective_metadata pp = effective_metadata gs (sj_groups st) (sj_metadata st))"

text \<open>What the tick thread has read so far is what is published.\<close>

definition reads :: "perm_server \<Rightarrow> applying \<Rightarrow> bool" where
  "reads s a \<longleftrightarrow> (let st = subject_of (ap_uuid a) s; gs = gm_groups (sv_manager s) in
     ap_subject a = st \<and>
     (\<forall>e. ap_effective a = Some e \<longrightarrow> e = effective_permissions gs (sj_groups st) (sj_overrides st)) \<and>
     (\<forall>m. ap_metadata a = Some m \<longrightarrow> m = effective_metadata gs (sj_groups st) (sj_metadata st)))"

fun refreshes :: "uuid \<Rightarrow> refresh_job \<Rightarrow> bool" where
  "refreshes u (RefreshPlayer v) \<longleftrightarrow> u = v"
| "refreshes u RefreshOnline \<longleftrightarrow> True"

definition owed :: "perm_server \<Rightarrow> uuid \<Rightarrow> bool" where
  "owed s u \<longleftrightarrow> (\<exists>j \<in> set (sv_jobs s) \<union> set (sv_owed s). refreshes u j)"

definition settled :: "perm_server \<Rightarrow> uuid \<Rightarrow> player_permissions \<Rightarrow> bool" where
  "settled s u pp \<longleftrightarrow>
     (case sv_applying s of None \<Rightarrow> carries u s pp | Some a \<Rightarrow> if ap_uuid a = u then reads s a else carries u s pp)"

definition perm_inv :: "perm_server \<Rightarrow> bool" where
  "perm_inv s \<longleftrightarrow> manager_ok (sv_manager s) \<and>
     (\<forall>u pp. sv_players s u = Some pp \<longrightarrow> owed s u \<or> u \<in> set (sv_todo s) \<or> settled s u pp)"

definition perm_init :: "groups_config \<Rightarrow> group_store option \<Rightarrow> subject_index \<Rightarrow> config_error + perm_server" where
  "perm_init config store subjects =
     bind_result (manager_new config store) (\<lambda>m.
       Inr \<lparr>sv_manager = m, sv_subjects = subjects, sv_players = Map.empty, sv_owed = [], sv_jobs = [], sv_todo = [], sv_applying = None\<rparr>)"

lemma perm_init_inv: "perm_init config store subjects = Inr s \<Longrightarrow> perm_inv s"
  by (auto simp: perm_init_def bind_result_Inr_iff perm_inv_def manager_new_ok)

text \<open>Whether a player is settled depends on what is published of them and on what the tick thread is at.\<close>

lemma published_cong:
  assumes "sv_manager s' = sv_manager s" "sv_subjects s' u = sv_subjects s u"
  shows "carries u s' pp \<longleftrightarrow> carries u s pp" "ap_uuid a = u \<Longrightarrow> reads s' a \<longleftrightarrow> reads s a"
  using assms by (simp_all add: carries_def reads_def subject_of_def)

lemma settled_cong:
  assumes "sv_manager s' = sv_manager s" "sv_subjects s' u = sv_subjects s u" "sv_applying s' = sv_applying s"
  shows "settled s' u pp \<longleftrightarrow> settled s u pp"
  using published_cong [OF assms(1,2)] assms(3) by (simp add: settled_def split: option.split)

definition fine :: "perm_server \<Rightarrow> uuid \<Rightarrow> player_permissions \<Rightarrow> bool" where
  "fine s u pp \<longleftrightarrow> owed s u \<or> u \<in> set (sv_todo s) \<or> settled s u pp"

lemma perm_inv_fine: "perm_inv s \<longleftrightarrow> manager_ok (sv_manager s) \<and> (\<forall>u pp. sv_players s u = Some pp \<longrightarrow> fine s u pp)"
  by (simp add: perm_inv_def fine_def)

lemma perm_invI:
  assumes "perm_inv s" "manager_ok (sv_manager s')"
    "\<And>u pp'. sv_players s' u = Some pp' \<Longrightarrow> \<exists>pp. sv_players s u = Some pp \<and> (fine s u pp \<longrightarrow> fine s' u pp')"
  shows "perm_inv s'"
  using assms unfolding perm_inv_fine by blast

text \<open>An update of a player touches nobody else's state, and owes that player a refresh if it published.\<close>

lemma update_player_cases:
  assumes "try_update_player_permissions_if_current u current update save s = (r, s')"
  obtains (failed) e where "r = Inl e" "s' = s"
    | (published) x st where "r = Inr x" "s' = s\<lparr>sv_subjects := set_subject u st (sv_subjects s), sv_owed := sv_owed s @ [RefreshPlayer u]\<rparr>"
  using assms
  by (auto simp: try_update_player_permissions_if_current_def Let_def split: if_splits sum.splits prod.splits option.splits)

lemma inv_update_player:
  assumes "perm_inv s" "try_update_player_permissions_if_current u current update save s = (r, s')"
  shows "perm_inv s'"
  using assms(2)
proof (cases rule: update_player_cases)
  case (published x st)
  have "fine s v pp \<Longrightarrow> fine s' v pp" for v pp
  proof (cases "v = u")
    case False
    then have "settled s' v pp \<longleftrightarrow> settled s v pp"
      by (intro settled_cong) (simp_all add: published(2) set_subject_def subject_insert_def subject_remove_def)
    moreover have "owed s v \<Longrightarrow> owed s' v"
      using published(2) by (auto simp: owed_def)
    ultimately show "fine s v pp \<Longrightarrow> ?thesis"
      using published(2) by (auto simp: fine_def)
  qed (simp add: published(2) owed_def fine_def)
  then show ?thesis
    using assms(1) published(2) by (intro perm_invI [OF assms(1)]) (simp_all add: perm_inv_def)
qed (use assms(1) in simp)

lemma inv_publish:
  assumes "perm_inv s" "publish_groups (r, m) s = (r', s')" "manager_ok m" "\<And>e. r = Inl e \<Longrightarrow> m = sv_manager s"
  shows "perm_inv s'"
proof (cases r)
  case (Inl e)
  then have "s' = s"
    using assms(2,4) by (auto simp: publish_groups_def)
  then show ?thesis
    using assms(1) by simp
next
  case (Inr x)
  then have "s' = s\<lparr>sv_manager := m, sv_owed := sv_owed s @ [RefreshOnline]\<rparr>"
    using assms(2) by (auto simp: publish_groups_def)
  then show ?thesis
    using assms(3) by (simp add: perm_inv_def owed_def)
qed

lemma replace_locked_failed: "replace_config_locked config m = (Inl e, m') \<Longrightarrow> m' = m"
  using replace_locked_cases [of config m "Inl e" m'] by (auto split: manager_error.splits)

lemma try_update_failed: "try_update_config update m = (Inl e, m') \<Longrightarrow> m' = m"
  by (auto simp: try_update_config_def split: sum.splits if_splits prod.splits dest!: replace_locked_failed)

lemma inv_replace_groups:
  assumes "perm_inv s" "replace_permission_groups config s = (r, s')"
  shows "perm_inv s'"
proof -
  obtain q m where m: "replace_config_locked config (sv_manager s) = (q, m)"
    by (cases "replace_config_locked config (sv_manager s)")
  show ?thesis
    using assms m replace_locked_ok [OF _ m] replace_locked_failed
    by (intro inv_publish [of s q m r s']) (auto simp: replace_permission_groups_def replace_config_def perm_inv_def)
qed

lemma inv_edit_groups:
  assumes "perm_inv s" "try_update_permission_groups update s = (r, s')"
  shows "perm_inv s'"
proof -
  obtain q m where m: "try_update_config update (sv_manager s) = (q, m)"
    by (cases "try_update_config update (sv_manager s)")
  show ?thesis
    using assms m try_update_ok [OF _ m] try_update_failed
    by (intro inv_publish [of s q m r s']) (auto simp: try_update_permission_groups_def perm_inv_def)
qed

lemma inv_queue:
  assumes "perm_inv s"
  shows "perm_inv (queue_refresh s)"
proof (cases "sv_owed s")
  case (Cons j js)
  have "settled (queue_refresh s) u pp \<longleftrightarrow> settled s u pp" for u pp
    by (intro settled_cong) (simp_all add: queue_refresh_def Cons)
  moreover have "owed (queue_refresh s) u \<longleftrightarrow> owed s u" for u
    using Cons by (auto simp: owed_def queue_refresh_def)
  ultimately show ?thesis
    using assms Cons by (intro perm_invI [OF assms]) (simp_all add: fine_def perm_inv_def queue_refresh_def)
qed (use assms in \<open>simp add: queue_refresh_def\<close>)

lemma inv_start:
  assumes "perm_inv s" "tick_idle s" "set online = dom (sv_players s)"
  shows "perm_inv (start_refresh online s)"
proof (cases "sv_jobs s")
  case (Cons j js)
  let ?s = "start_refresh online s"
  have same: "sv_players ?s = sv_players s" "sv_manager ?s = sv_manager s" "sv_subjects ?s = sv_subjects s" "sv_applying ?s = sv_applying s"
    using Cons by (simp_all add: start_refresh_def split: refresh_job.splits)
  have "owed s u \<Longrightarrow> owed ?s u \<or> u \<in> set (sv_todo ?s)" if "sv_players s u = Some pp" for u pp
    using that assms(3) Cons by (cases j) (auto simp: owed_def start_refresh_def)
  moreover have "settled ?s u pp \<longleftrightarrow> settled s u pp" for u pp
    by (intro settled_cong) (simp_all add: same)
  moreover have "sv_todo s = []"
    using assms(2) by (simp add: tick_idle_def)
  ultimately show ?thesis
    using assms(1) same by (intro perm_invI [OF assms(1)]) (auto simp: fine_def perm_inv_def)
qed (use assms(1) in \<open>simp add: start_refresh_def\<close>)

lemma inv_join:
  assumes "perm_inv s" "tick_idle s"
  shows "perm_inv (join_player u s)"
proof -
  let ?s = "join_player u s"
  have "settled ?s v pp \<longleftrightarrow> settled s v pp" for v pp
    by (intro settled_cong) (simp_all add: join_player_def)
  moreover have "owed ?s v \<longleftrightarrow> owed s v" for v
    by (simp add: owed_def join_player_def)
  moreover have "sv_todo s = []" "sv_todo ?s = [u]" "sv_players ?s = (sv_players s)(u \<mapsto> player_permissions_default)" "sv_manager ?s = sv_manager s"
    using assms(2) by (simp_all add: tick_idle_def join_player_def)
  ultimately show ?thesis
    using assms(1) by (auto simp: perm_inv_def)
qed

lemma inv_leave:
  assumes "perm_inv s"
  shows "perm_inv (leave_player u s)"
proof -
  have "settled (leave_player u s) v pp \<longleftrightarrow> settled s v pp" for v pp
    by (intro settled_cong) (simp_all add: leave_player_def)
  moreover have "owed (leave_player u s) v \<longleftrightarrow> owed s v" for v
    by (simp add: owed_def leave_player_def)
  ultimately show ?thesis
    using assms by (intro perm_invI [OF assms]) (auto simp: fine_def perm_inv_def leave_player_def split: if_splits)
qed

lemma inv_read_subject:
  assumes "perm_inv s" "sv_applying s = None"
  shows "perm_inv (read_subject s)"
proof (cases "sv_todo s")
  case (Cons u us)
  let ?s = "read_subject s"
  have same: "sv_players ?s = sv_players s" "sv_manager ?s = sv_manager s" "sv_subjects ?s = sv_subjects s" "sv_todo ?s = us"
    "sv_applying ?s = Some \<lparr>ap_uuid = u, ap_subject = subject_of u s, ap_effective = None, ap_metadata = None\<rparr>"
    using Cons by (simp_all add: read_subject_def)
  have "settled ?s v pp" if "v = u \<or> settled s v pp" for v pp
    using that assms(2) published_cong(1) [OF same(2), of v pp] same(3)
    by (auto simp: settled_def same(5) reads_def subject_of_def same(3))
  moreover have "owed ?s v \<longleftrightarrow> owed s v" for v
    using Cons by (simp add: owed_def read_subject_def)
  ultimately show ?thesis
    using assms(1) Cons same(1,2,4) by (intro perm_invI [OF assms(1)]) (auto simp: fine_def perm_inv_def)
qed (use assms(1) in \<open>simp add: read_subject_def\<close>)

lemma inv_read:
  assumes "perm_inv s" "sv_applying s = Some a" "ap_uuid b = ap_uuid a" "reads s a \<Longrightarrow> reads s b"
  shows "perm_inv (s\<lparr>sv_applying := Some b\<rparr>)"
proof -
  let ?s = "s\<lparr>sv_applying := Some b\<rparr>"
  have "reads ?s b \<longleftrightarrow> reads s b" "carries v ?s pp \<longleftrightarrow> carries v s pp" for v pp
    by (intro published_cong; simp)+
  then have "settled s v pp \<Longrightarrow> settled ?s v pp" for v pp
    using assms(2-4) by (simp add: settled_def split: if_splits)
  moreover have "owed ?s v \<longleftrightarrow> owed s v" for v
    by (simp add: owed_def)
  ultimately show ?thesis
    using assms(1) by (intro perm_invI [OF assms(1)]) (auto simp: fine_def perm_inv_def)
qed

lemma inv_apply:
  assumes "perm_inv s" "sv_applying s = Some a" "ap_effective a = Some e" "ap_metadata a = Some m"
  shows "perm_inv (set_permission_state a e m s)"
proof -
  let ?s = "set_permission_state a e m s"
  let ?new = "pp_replace (sj_groups (ap_subject a)) (sj_overrides (ap_subject a)) (sj_metadata (ap_subject a)) e m"
  have same: "sv_applying ?s = None" "sv_manager ?s = sv_manager s" "sv_subjects ?s = sv_subjects s" "sv_todo ?s = sv_todo s"
    "sv_players ?s = (sv_players s)(ap_uuid a := map_option ?new (sv_players s (ap_uuid a)))"
    by (simp_all add: set_permission_state_def)
  have owed: "owed ?s v \<longleftrightarrow> owed s v" for v
    by (simp add: owed_def set_permission_state_def)
  have carries: "carries v ?s pp \<longleftrightarrow> carries v s pp" for v pp
    by (intro published_cong) (simp_all add: same)
  have new: "carries (ap_uuid a) s (?new pp)" if "reads s a" for pp
    using that assms(3,4) by (simp add: carries_def reads_def pp_replace_def Let_def)
  show ?thesis
  proof (rule perm_invI [OF assms(1)])
    fix v pp'
    assume v: "sv_players ?s v = Some pp'"
    show "\<exists>pp. sv_players s v = Some pp \<and> (fine s v pp \<longrightarrow> fine ?s v pp')"
    proof (cases "ap_uuid a = v")
      case True
      then obtain pp where "sv_players s v = Some pp" "pp' = ?new pp"
        using v same(5) by auto
      then show ?thesis
        using new [of pp] True assms(2) by (auto simp: fine_def owed same settled_def carries)
    next
      case False
      then show ?thesis
        using v same(5) assms(2) by (auto simp: fine_def owed same(1,4) settled_def carries)
    qed
  qed (use assms(1) in \<open>simp add: perm_inv_def same(2)\<close>)
qed

lemma perm_step_inv: "perm_step s s' \<Longrightarrow> perm_inv s \<Longrightarrow> perm_inv s'"
proof (induction rule: perm_step.induct)
  case (read_effective s a)
  then show ?case
    unfolding read_effective_def by (intro inv_read [of s a]) (auto simp: reads_def Let_def)
next
  case (read_metadata s a e)
  then show ?case
    unfolding read_metadata_def by (intro inv_read [of s a]) (auto simp: reads_def Let_def)
qed (blast intro: inv_update_player inv_replace_groups inv_edit_groups inv_queue inv_start inv_join inv_leave inv_read_subject inv_apply)+

lemma perm_reachable_inv: "\<lbrakk>perm_step\<^sup>*\<^sup>* s s'; perm_inv s\<rbrakk> \<Longrightarrow> perm_inv s'"
  by (induction rule: rtranclp_induct) (auto intro: perm_step_inv)

definition no_refresh_left :: "perm_server \<Rightarrow> bool" where
  "no_refresh_left s \<longleftrightarrow> tick_idle s \<and> sv_jobs s = [] \<and> sv_owed s = []"

lemma quiet_carries: "\<lbrakk>perm_inv s; no_refresh_left s; sv_players s u = Some pp\<rbrakk> \<Longrightarrow> carries u s pp"
  by (fastforce simp: perm_inv_def no_refresh_left_def tick_idle_def owed_def settled_def)

section \<open>Operators\<close>

lemma update_groups_result:
  "OP_GROUP \<in> set (snd (update_groups action gs)) \<longleftrightarrow> action = Grant"
  "filter (\<lambda>g. g \<noteq> OP_GROUP) (snd (update_groups action gs)) = filter (\<lambda>g. g \<noteq> OP_GROUP) gs"
  "fst (update_groups action gs) \<longleftrightarrow> (OP_GROUP \<in> set gs) \<noteq> (action = Grant)"
  by (cases action; auto simp: Let_def length_filter_same cong: filter_cong)+

text \<open>
  A command that succeeds leaves its target an operator exactly if it grants, says whether that is new, keeps the other
  groups and touches nobody else.
\<close>

lemma update_operator_result:
  assumes "update_operator_group u action save s = (Inr changed, s')"
  shows "is_operator u s' \<longleftrightarrow> action = Grant" "changed \<longleftrightarrow> is_operator u s \<noteq> (action = Grant)"
    "filter (\<lambda>g. g \<noteq> OP_GROUP) (sj_groups (subject_of u s')) = filter (\<lambda>g. g \<noteq> OP_GROUP) (sj_groups (subject_of u s))"
    "v \<noteq> u \<Longrightarrow> sv_subjects s' v = sv_subjects s v" "owed s' u"
proof -
  let ?st = "subject_of u s"
  let ?groups = "snd (update_groups action (sj_groups ?st))"
  let ?new = "?st\<lparr>sj_groups := ?groups\<rparr>"
  have s': "s' = s\<lparr>sv_subjects := set_subject u ?new (sv_subjects s), sv_owed := sv_owed s @ [RefreshPlayer u]\<rparr>"
    and changed: "changed = fst (update_groups action (sj_groups ?st))"
    using assms
    by (auto simp: update_operator_group_def try_update_player_permissions_if_current_def operator_edit_def Let_def
        split: sum.splits option.splits)
  have empty: "sj_groups ?new = []" if "subject_is_empty ?new"
    using that by (simp add: subject_is_empty_def)
  have groups: "sj_groups (subject_of u s') = ?groups"
    using empty by (auto simp: s' subject_of_def set_subject_def subject_insert_def subject_remove_def subject_default_def)
  have operator: "is_operator u t \<longleftrightarrow> OP_GROUP \<in> set (sj_groups (subject_of u t))" for t
    by (simp add: is_operator_def subject_of_def subject_default_def split: option.split)
  show "is_operator u s' \<longleftrightarrow> action = Grant" "changed \<longleftrightarrow> is_operator u s \<noteq> (action = Grant)"
    "filter (\<lambda>g. g \<noteq> OP_GROUP) (sj_groups (subject_of u s')) = filter (\<lambda>g. g \<noteq> OP_GROUP) (sj_groups ?st)"
    by (simp_all only: operator groups changed update_groups_result)
  show "v \<noteq> u \<Longrightarrow> sv_subjects s' v = sv_subjects s v" "owed s' u"
    by (simp_all add: s' set_subject_def subject_insert_def subject_remove_def owed_def)
qed

end
