(* ===== verification/PermCommands.thy ===== *)
theory PermCommands
  imports PermServer
begin

text \<open>
  What commands ask of permissions: keys derived from their ids and the requirements made of them
  (\<open>command/registration/mod.rs\<close>), and the authority that a source has (\<open>command/execution/source.rs\<close>).
\<close>

section \<open>Keys of commands\<close>

datatype command_key_error = InvalidDerivedPermission ident permission_key_error
  | InvalidSubcommandPermissionPath ident "utext list" permission_key_error

definition derived_command_permission_key :: "ident \<Rightarrow> command_key_error + permission_key" where
  "derived_command_permission_key i =
     map_err (InvalidDerivedPermission i) (key_parse (id_namespace i @ str ''.command.'' @ id_path i))"

fun derive_children :: "ident \<Rightarrow> utext list \<Rightarrow> utext list \<Rightarrow> permission_key \<Rightarrow> command_key_error + permission_key" where
  "derive_children i path [] permission = Inr permission"
| "derive_children i path (segment # segments) permission =
     bind_result (map_err (InvalidSubcommandPermissionPath i path) (segment_parse segment)) (\<lambda>segment.
     bind_result (map_err (InvalidSubcommandPermissionPath i path) (key_child permission segment)) (\<lambda>permission.
     derive_children i path segments permission))"

definition derived_subcommand_permission :: "ident \<Rightarrow> permission_key \<Rightarrow> utext list \<Rightarrow> command_key_error + permission_key" where
  "derived_subcommand_permission i root path = derive_children i path path root"

section \<open>Requirements\<close>

text \<open>A source answers expressions; a requirement is what it has to answer.\<close>

type_synonym command_source = "permission_expr \<Rightarrow> permission_state option"

definition permission_requirement :: "permission_expr \<Rightarrow> command_source \<Rightarrow> bool" where
  "permission_requirement permission source \<longleftrightarrow> source permission = Some Allow"

definition root_permission_requirement :: "permission_expr \<Rightarrow> permission_key list \<Rightarrow> bool \<Rightarrow> command_source \<Rightarrow> bool" where
  "root_permission_requirement root alternatives default_access source =
     (if default_access then
        source root \<noteq> Some Deny \<or> (alternatives \<noteq> [] \<and> source (AnyExpr (map KeyExpr alternatives)) = Some Allow)
      else permission_requirement (fold (\<lambda>alternative permission. expr_or permission (KeyExpr alternative)) alternatives root) source)"

definition scoped_permission_requirement :: "permission_key \<Rightarrow> permission_key \<Rightarrow> permission_key list \<Rightarrow> command_source \<Rightarrow> bool" where
  "scoped_permission_requirement root scoped alternatives source =
     permission_requirement
       (fold (\<lambda>alternative permission. expr_or permission (KeyExpr alternative)) alternatives (ScopedKeyExpr root scoped)) source"

fun collect_permission_keys :: "permission_expr \<Rightarrow> permission_key set \<Rightarrow> permission_key set" where
  "collect_permission_keys (KeyExpr k) keys = insert k keys"
| "collect_permission_keys (ScopedKeyExpr parent k) keys = insert k (insert parent keys)"
| "collect_permission_keys (AllExpr es) keys = fold collect_permission_keys es keys"
| "collect_permission_keys (AnyExpr es) keys = fold collect_permission_keys es keys"

section \<open>Who asks\<close>

datatype world_scope = GlobalScope | DomainScope utext

record authorization =
  au_context :: active_context
  au_permissions :: "permission_set option"
  au_scope :: world_scope

definition for_player :: "ident \<Rightarrow> permission_set \<Rightarrow> authorization" where
  "for_player world permissions =
     \<lparr>au_context = for_world world, au_permissions = Some permissions, au_scope = DomainScope (id_namespace world)\<rparr>"

definition for_command_block :: "ident \<Rightarrow> permission_set \<Rightarrow> authorization" where
  "for_command_block world permissions =
     \<lparr>au_context = for_world world, au_permissions = Some permissions, au_scope = GlobalScope\<rparr>"

definition unrestricted :: "ident \<Rightarrow> authorization" where
  "unrestricted world = \<lparr>au_context = for_world world, au_permissions = None, au_scope = GlobalScope\<rparr>"

definition authorization_state :: "authorization \<Rightarrow> command_source" where
  "authorization_state au permission =
     (case au_permissions au of None \<Rightarrow> Some Allow | Some permissions \<Rightarrow> resolve_in permissions (au_context au) permission)"

definition allows_execution_domain :: "authorization \<Rightarrow> utext \<Rightarrow> bool" where
  "allows_execution_domain au domain \<longleftrightarrow> (case au_scope au of GlobalScope \<Rightarrow> True | DomainScope d \<Rightarrow> d = domain)"

section \<open>What requirements mean\<close>

lemma any_of_Allow: "any_of S = Some Allow \<longleftrightarrow> Some Allow \<in> S"
  by (simp add: any_of_def)

lemma resolve_alternatives:
  "resolve_in ps a (fold (\<lambda>alternative permission. expr_or permission (KeyExpr alternative)) ks e) = Some Allow \<longleftrightarrow>
     resolve_in ps a e = Some Allow \<or> (\<exists>k \<in> set ks. resolve_key_in k a ps = Some Allow)"
  by (induction ks arbitrary: e) (auto simp: resolve_or any_of_Allow)

lemma requirement_meaning:
  assumes "au_permissions au = Some ps"
  shows "root_permission_requirement root ks open_to_all (authorization_state au) \<longleftrightarrow>
      (if open_to_all then resolve_in ps (au_context au) root \<noteq> Some Deny else resolve_in ps (au_context au) root = Some Allow) \<or>
      (\<exists>k \<in> set ks. resolve_key_in k (au_context au) ps = Some Allow)"
    "scoped_permission_requirement parent key ks (authorization_state au) \<longleftrightarrow>
      resolve_scoped_key_in parent key (au_context au) ps = Some Allow \<or>
      (\<exists>k \<in> set ks. resolve_key_in k (au_context au) ps = Some Allow)"
  using assms
  by (auto simp: root_permission_requirement_def scoped_permission_requirement_def permission_requirement_def authorization_state_def
      resolve_alternatives resolve_any_eq any_of_Allow image_iff dest: sym)

lemma derived_child:
  assumes "valid_key k" "last (key_segments k) \<noteq> [STAR]" "valid_segment t"
  shows "key_child k (PermissionSegment t) = Inr (PermissionKey (key_text k @ DOT # t))"
    "valid_key (PermissionKey (key_text k @ DOT # t))" "key_segments (PermissionKey (key_text k @ DOT # t)) = key_segments k @ [t]"
proof -
  let ?k = "PermissionKey (key_text k @ DOT # t)"
  have "DOT \<notin> set t"
    using valid_segment_free [OF assms(3)] by simp
  then show ss: "key_segments ?k = key_segments k @ [t]"
    by (simp add: key_segments_def split_append split_single)
  have "list_all valid_segment (key_segments k)"
    using assms(1,2) append_butlast_last_id [OF key_segments_not_Nil, of k]
    unfolding valid_key_def Let_def by (metis list.pred_inject list_all_append)
  then show "valid_key ?k"
    using assms(3) by (simp add: valid_key_def ss Let_def butlast_append)
  then show "key_child k (PermissionSegment t) = Inr ?k"
    by (simp add: key_child_def key_parse_valid)
qed

section \<open>The groups that come with the server\<close>

definition op_command_id :: ident where
  "op_command_id = \<lparr>id_namespace = str ''minecraft'', id_path = str ''op''\<rparr>"

definition deop_command_id :: ident where
  "deop_command_id = \<lparr>id_namespace = str ''minecraft'', id_path = str ''deop''\<rparr>"

definition stop_command_id :: ident where
  "stop_command_id = \<lparr>id_namespace = str ''minecraft'', id_path = str ''stop''\<rparr>"

definition built_in_groups :: permission_groups where
  "built_in_groups = (case from_config default_groups_config of Inr gs \<Rightarrow> gs | Inl _ \<Rightarrow> \<lparr>gs_default_groups = [], gs_groups = []\<rparr>)"

lemma built_in_ok: "from_config default_groups_config = Inr built_in_groups"
proof -
  have "isl (from_config default_groups_config) = False"
    by code_simp
  then show ?thesis
    by (cases "from_config default_groups_config") (simp_all add: built_in_groups_def)
qed

definition block_rule :: "string \<Rightarrow> permission_state \<Rightarrow> permission_entry" where
  "block_rule key st = new_with_context (PermissionKey (str key)) GlobalCtx st"

lemma block_snapshot:
  "command_block_permission_snapshot built_in_groups =
     \<lparr>ps_entries = block_rule ''minecraft.command.*'' Allow # map (\<lambda>k. block_rule k Deny)
        [''minecraft.command.stop'', ''minecraft.command.operator'', ''minecraft.command.perms'', ''minecraft.command.domain''],
      ps_sources = replicate 5 (FromGroup COMMAND_BLOCK_GROUP 0)\<rparr>"
  by code_simp

text \<open>
  A command block runs a command that is registered under the key derived from its id, without alternatives and without
  access by default.
\<close>

definition block_may_run :: "permission_groups \<Rightarrow> ident \<Rightarrow> ident \<Rightarrow> bool" where
  "block_may_run gs world command =
     (case derived_command_permission_key command of
        Inl _ \<Rightarrow> False
      | Inr k \<Rightarrow> root_permission_requirement (KeyExpr k) [] False
          (authorization_state (for_command_block world (command_block_permission_snapshot gs))))"

lemma derived_key:
  "derived_command_permission_key i = Inr k \<longleftrightarrow>
     k = PermissionKey (id_namespace i @ str ''.command.'' @ id_path i) \<and> valid_key k"
  unfolding key_parse_valid [symmetric] derived_command_permission_key_def
  by (cases "key_parse (id_namespace i @ str ''.command.'' @ id_path i)") (auto simp: map_err_def)

lemma block_may_run_answer:
  "block_may_run gs w i \<longleftrightarrow>
     (\<exists>k. derived_command_permission_key i = Inr k \<and>
        resolve_key_in k (for_world w) (command_block_permission_snapshot gs) = Some Allow)"
  by (auto simp: block_may_run_def root_permission_requirement_def permission_requirement_def authorization_state_def
      for_command_block_def split: sum.split)

lemma built_in_has_group: "contains_group built_in_groups COMMAND_BLOCK_GROUP"
  by code_simp

lemma command_block_fallback:
  "command_block_permission_snapshot gs =
     command_block_permission_snapshot (if contains_group gs COMMAND_BLOCK_GROUP then gs else built_in_groups)"
  using built_in_has_group by (simp add: command_block_permission_snapshot_def built_in_ok)

text \<open>The five rules of the built-in group: one wildcard, and four denials that weigh more where they apply.\<close>

definition block_denied :: "utext list" where
  "block_denied = map str [''stop'', ''operator'', ''perms'', ''domain'']"

lemma block_denials:
  "t \<in> set block_denied \<Longrightarrow>
     resolve_key_in (PermissionKey (str ''minecraft.command.'' @ t)) a (command_block_permission_snapshot built_in_groups) = Some Deny"
proof -
  have "list_all (\<lambda>t. resolve_key_in (PermissionKey (str ''minecraft.command.'' @ t)) a
      (command_block_permission_snapshot built_in_groups) = Some Deny) block_denied"
    unfolding block_snapshot by code_simp
  then show "t \<in> set block_denied \<Longrightarrow> ?thesis" by (simp add: list_all_iff)
qed

lemma verdict_single:
  assumes "\<And>r. r \<in> R \<Longrightarrow> applies r \<noteq> None \<longleftrightarrow> r = r0 \<and> P" and "r0 \<in> R"
  shows "verdict applies R = (if P then Some (pe_state (fst r0)) else None)"
proof -
  define strongest where
    "strongest = {r \<in> R. applies r \<noteq> None \<and> (\<forall>q \<in> R. applies q \<noteq> None \<longrightarrow> the (applies q) \<le> the (applies r))}"
  have "r \<in> strongest \<longleftrightarrow> r = r0 \<and> P" for r
    unfolding strongest_def mem_Collect_eq using assms by blast
  then have "strongest = (if P then {r0} else {})" by auto
  then show ?thesis
    unfolding verdict_def Let_def strongest_def [symmetric] by (cases "pe_state (fst r0)") simp_all
qed

lemma block_wildcard:
  assumes "\<And>t. t \<in> set block_denied \<Longrightarrow> k \<noteq> PermissionKey (str ''minecraft.command.'' @ t)"
  shows "resolve_key_in k a (command_block_permission_snapshot built_in_groups) =
     (if \<exists>zs. key_text k = str ''minecraft.command.'' @ zs then Some Allow else None)"
proof -
  let ?src = "FromGroup COMMAND_BLOCK_GROUP 0" and ?wild = "block_rule ''minecraft.command.*'' Allow"
  define D where "D = map (\<lambda>k. (block_rule k Deny, ?src))
    [''minecraft.command.stop'', ''minecraft.command.operator'', ''minecraft.command.perms'', ''minecraft.command.domain'']"
  have rules: "rules_of (command_block_permission_snapshot built_in_groups) = (?wild, ?src) # D"
    by (simp add: block_snapshot rules_of_def D_def eval_nat_numeral)
  have exact: "key_matches (PermissionKey (str ''minecraft.command.'' @ t)) k \<longleftrightarrow> k = PermissionKey (str ''minecraft.command.'' @ t)"
    if "t \<in> set block_denied" for t
  proof -
    have "list_all (\<lambda>t. str ''minecraft.command.'' @ t \<noteq> [STAR] \<and>
        strip_suffix [DOT, STAR] (str ''minecraft.command.'' @ t) = None) block_denied"
      by code_simp
    then show ?thesis using that by (auto simp: list_all_iff key_matches_def)
  qed
  have none: "key_applies k a r = None" if r: "r \<in> set D" for r
  proof -
    have "D = map (\<lambda>t. (new_with_context (PermissionKey (str ''minecraft.command.'' @ t)) GlobalCtx Deny, ?src)) block_denied"
      by (simp add: D_def block_denied_def block_rule_def str_def)
    then obtain t where "t \<in> set block_denied" "pe_key (fst r) = PermissionKey (str ''minecraft.command.'' @ t)"
      using r by (auto simp: new_with_context_def)
    then show ?thesis using exact [of t] assms [of t] by (simp add: key_applies_def)
  qed
  have wild: "key_applies k a (?wild, ?src) \<noteq> None \<longleftrightarrow> (\<exists>zs. key_text k = str ''minecraft.command.'' @ zs)"
  proof -
    have "str ''minecraft.command.*'' \<noteq> [STAR]" "strip_suffix [DOT, STAR] (str ''minecraft.command.*'') = Some (str ''minecraft.command'')"
      "str ''minecraft.command.'' = str ''minecraft.command'' @ [DOT]"
      by code_simp+
    then have "key_matches (pe_key ?wild) k \<longleftrightarrow> (\<exists>zs. key_text k = str ''minecraft.command.'' @ zs)"
      by (simp add: block_rule_def new_with_context_def key_matches_def strip_prefix_starts)
    then show ?thesis by (simp add: key_applies_def block_rule_def new_with_context_def strength_of_def)
  qed
  let ?r = "(?wild, ?src)" and ?R = "set (rules_of (command_block_permission_snapshot built_in_groups))"
  have only: "key_applies k a r \<noteq> None \<longleftrightarrow> r = ?r \<and> (\<exists>zs. key_text k = str ''minecraft.command.'' @ zs)" if "r \<in> ?R" for r
    using that none [of r] wild unfolding rules by (metis set_ConsD)
  have "?r \<in> ?R" unfolding rules by simp
  from verdict_single [OF only this] show ?thesis
    by (simp add: resolve_key_verdict block_rule_def new_with_context_def)
qed

text \<open>Which commands these are. An id's namespace may have dots, so a key may lie below \<open>minecraft.command\<close> in another way.\<close>

definition below_minecraft_command :: "utext \<Rightarrow> bool" where
  "below_minecraft_command namespace \<longleftrightarrow> prefix [str ''minecraft'', str ''command''] (split_on DOT namespace)"

lemma built_in_block_may_run:
  "block_may_run built_in_groups w c \<longleftrightarrow>
     valid_key (PermissionKey (id_namespace c @ str ''.command.'' @ id_path c)) \<and>
     (id_namespace c = str ''minecraft'' \<and> id_path c \<notin> set block_denied \<or> below_minecraft_command (id_namespace c))"
proof -
  let ?m = "str ''minecraft''" and ?c = "str ''command''" and ?ns = "split_on DOT (id_namespace c)" and ?path = "split_on DOT (id_path c)"
  define t where "t = id_namespace c @ str ''.command.'' @ id_path c"
  have words: "str ''.command.'' = DOT # ?c @ [DOT]" "str ''minecraft.command.'' = ?m @ DOT # ?c @ [DOT]"
    "split_on DOT ?m = [?m]" "split_on DOT ?c = [?c]" "list_all (\<lambda>t. split_on DOT t = [t]) block_denied"
    by code_simp+
  have split_t: "split_on DOT t = ?ns @ ?c # ?path"
    by (simp add: t_def words split_append)
  have split_below: "split_on DOT (str ''minecraft.command.'' @ zs) = [?m, ?c] @ split_on DOT zs" for zs
    by (simp add: words split_append)
  obtain a r where ns: "?ns = a # r" by (cases ?ns) auto
  have same_ns: "?ns = [?m] \<longleftrightarrow> id_namespace c = ?m"
    using words(3) split_inj [of DOT "id_namespace c" ?m] by simp
  have below: "(\<exists>zs. t = str ''minecraft.command.'' @ zs) \<longleftrightarrow> id_namespace c = ?m \<or> below_minecraft_command (id_namespace c)"
  proof -
    have "(\<exists>zs. t = str ''minecraft.command.'' @ zs) \<longleftrightarrow> (\<exists>qs. qs \<noteq> [] \<and> ?ns @ ?c # ?path = [?m, ?c] @ qs)"
      using split_extends [of t "?m @ DOT # ?c" DOT] by (simp add: words split_t split_append)
    also have "\<dots> \<longleftrightarrow> id_namespace c = ?m \<or> below_minecraft_command (id_namespace c)"
      unfolding below_minecraft_command_def same_ns [symmetric] ns by (cases r) (auto simp: prefix_def)
    finally show ?thesis .
  qed
  have denied: "(\<exists>d \<in> set block_denied. t = str ''minecraft.command.'' @ d) \<longleftrightarrow> id_namespace c = ?m \<and> id_path c \<in> set block_denied"
  proof
    assume "\<exists>d \<in> set block_denied. t = str ''minecraft.command.'' @ d"
    then obtain d where d: "d \<in> set block_denied" "t = str ''minecraft.command.'' @ d" by blast
    then have "split_on DOT d = [d]" using words(5) by (simp add: list_all_iff)
    then have "?ns @ ?c # ?path = [?m, ?c, d]" using d(2) split_t split_below [of d] by simp
    then have "?ns = [?m]" "?path = [d]" using ns by (cases r; cases "tl r"; simp)+
    then show "id_namespace c = ?m \<and> id_path c \<in> set block_denied"
      using same_ns d(1) join_split [of DOT "id_path c"] by simp
  qed (auto simp: t_def words)
  show ?thesis
  proof (cases "\<exists>d \<in> set block_denied. t = str ''minecraft.command.'' @ d")
    case True
    then have "resolve_key_in (PermissionKey t) (for_world w) (command_block_permission_snapshot built_in_groups) = Some Deny"
      using block_denials by blast
    note this [unfolded t_def]
    moreover have "\<not> below_minecraft_command ?m" by (simp add: below_minecraft_command_def words)
    ultimately show ?thesis
      using denied True by (auto simp: block_may_run_answer derived_key)
  next
    case False
    then have "resolve_key_in (PermissionKey t) (for_world w) (command_block_permission_snapshot built_in_groups) =
        (if \<exists>zs. t = str ''minecraft.command.'' @ zs then Some Allow else None)"
      using block_wildcard [of "PermissionKey t" "for_world w"] by auto
    then have "block_may_run built_in_groups w c \<longleftrightarrow> valid_key (PermissionKey t) \<and> (\<exists>zs. t = str ''minecraft.command.'' @ zs)"
      unfolding block_may_run_answer derived_key t_def [symmetric] by simp
    then show ?thesis
      using denied below False unfolding t_def [symmetric] by blast
  qed
qed

end
