(* ===== verification/PermClaims.thy ===== *)
theory PermClaims
  imports PermCommands
begin

text \<open>
  The properties of permissions: what players carry, which rules decide, what keys, contexts and expressions mean, which
  configurations of groups are accepted and what the built-in ones allow.
\<close>

section \<open>Published and carried\<close>

text \<open>C20: Whatever threads do in between, once no refresh is outstanding every online player carries the rules and the
  metadata of the published groups and of their own published state, the groups are those of the configuration, and the
  configuration that the store acknowledged last is the published one.\<close>

theorem players_carry_what_is_published:
  assumes "perm_init config store subjects = Inr s0" "perm_step\<^sup>*\<^sup>* s0 s" "no_refresh_left s" "sv_players s u = Some pp"
  shows "pp_groups pp = sj_groups (subject_of u s) \<and> pp_effective pp = command_permission_snapshot u s \<and>
    pp_effective_metadata pp = effective_metadata (gm_groups (sv_manager s)) (sj_groups (subject_of u s)) (sj_metadata (subject_of u s)) \<and>
    from_config (gm_config (sv_manager s)) = Inr (gm_groups (sv_manager s)) \<and>
    gm_acknowledged (sv_manager s) \<in> {None, Some (gm_config (sv_manager s))}"
proof -
  have inv: "perm_inv s"
    using perm_reachable_inv [OF assms(2)] perm_init_inv [OF assms(1)] by blast
  then have "manager_ok (sv_manager s)"
    by (simp add: perm_inv_def)
  moreover have "carries u s pp"
    using quiet_carries [OF inv] assms(3,4) by blast
  ultimately show ?thesis
    by (cases "gm_acknowledged (sv_manager s)") (simp_all add: carries_def command_permission_snapshot_def manager_ok_def Let_def)
qed

definition first_server :: perm_server where
  "first_server =
     \<lparr>sv_manager = \<lparr>gm_config = default_groups_config, gm_groups = built_in_groups, gm_store = None, gm_acknowledged = None\<rparr>,
      sv_subjects = [7 \<mapsto> subject_default\<lparr>sj_groups := [OP_GROUP]\<rparr>], sv_players = Map.empty, sv_owed = [], sv_jobs = [],
      sv_todo = [], sv_applying = None\<rparr>"

definition op_joined :: "perm_server" where
  "op_joined =
     (let st = subject_default\<lparr>sj_groups := [OP_GROUP]\<rparr> in
      first_server\<lparr>sv_players := [7 \<mapsto>
        pp_replace [OP_GROUP] (sj_overrides st) (sj_metadata st) (effective_permissions built_in_groups [OP_GROUP] (sj_overrides st))
          (effective_metadata built_in_groups [OP_GROUP] (sj_metadata st)) player_permissions_default]\<rparr>)"

lemma op_joined_reachable: "perm_step\<^sup>*\<^sup>* first_server op_joined"
proof -
  let ?st = "subject_default\<lparr>sj_groups := [OP_GROUP]\<rparr>"
  let ?eff = "effective_permissions built_in_groups [OP_GROUP] (sj_overrides ?st)"
  let ?meta = "effective_metadata built_in_groups [OP_GROUP] (sj_metadata ?st)"
  let ?a = "\<lparr>ap_uuid = 7, ap_subject = ?st, ap_effective = None, ap_metadata = None\<rparr>"
  let ?s1 = "join_player 7 first_server"
  let ?s2 = "first_server\<lparr>sv_players := [7 \<mapsto> player_permissions_default], sv_applying := Some ?a\<rparr>"
  let ?s3 = "?s2\<lparr>sv_applying := Some (?a\<lparr>ap_effective := Some ?eff\<rparr>)\<rparr>"
  let ?s4 = "?s2\<lparr>sv_applying := Some (?a\<lparr>ap_effective := Some ?eff, ap_metadata := Some ?meta\<rparr>)\<rparr>"
  have "perm_step first_server ?s1"
    by (rule perm_step.join) (simp_all add: first_server_def tick_idle_def)
  moreover have "perm_step ?s1 ?s2"
    using perm_step.read_subject [of ?s1] by (simp add: read_subject_def join_player_def first_server_def subject_of_def)
  moreover have "perm_step ?s2 ?s3"
    using perm_step.read_effective [of ?s2 ?a] by (simp add: read_effective_def first_server_def)
  moreover have "perm_step ?s3 ?s4"
    using perm_step.read_metadata [of ?s3 "?a\<lparr>ap_effective := Some ?eff\<rparr>" ?eff] by (simp add: read_metadata_def first_server_def)
  moreover have "perm_step ?s4 op_joined"
  proof -
    let ?b = "?a\<lparr>ap_effective := Some ?eff, ap_metadata := Some ?meta\<rparr>"
    have "set_permission_state ?b ?eff ?meta ?s4 = op_joined"
      by (simp add: set_permission_state_def first_server_def op_joined_def Let_def)
    then show ?thesis
      using perm_step.apply_state [of ?s4 ?b ?eff ?meta] by simp
  qed
  ultimately show ?thesis
    by (meson converse_rtranclp_into_rtranclp rtranclp.rtrancl_refl)
qed

lemma first_server_init:
  "perm_init default_groups_config None [7 \<mapsto> subject_default\<lparr>sj_groups := [OP_GROUP]\<rparr>] = Inr first_server"
  by (simp add: perm_init_def manager_new_def built_in_ok first_server_def)

lemma players_carry_what_is_published_witness:
  "\<exists>pp. sv_players op_joined 7 = Some pp \<and> pp_effective pp = command_permission_snapshot 7 op_joined"
proof -
  obtain pp where pp: "sv_players op_joined 7 = Some pp"
    by (simp add: op_joined_def Let_def)
  have "no_refresh_left op_joined"
    by (simp add: no_refresh_left_def tick_idle_def op_joined_def first_server_def Let_def)
  then show ?thesis
    using players_carry_what_is_published [OF first_server_init op_joined_reachable _ pp] pp by blast
qed

section \<open>Which rules decide\<close>

text \<open>C21: A question is decided by the strongest rules among those of the groups that the asker is in, by default, by
  assignment or through parents, and the asker's own, where a denial beats what it equals: whatever the order of groups,
  and each group's rules once. A conjunction is denied if some part is, and else not set if some part is not; a
  disjunction the other way round.\<close>

theorem strongest_rules_decide:
  "let ps = effective_permissions gs assigned subject;
       R = (\<Union>g \<in> groups_of gs assigned. set (group_rules g (the (map_of (gs_groups gs) g)))) \<union> set (subject_rules subject) in
   resolve_in ps a (KeyExpr k) = verdict (key_applies k a) R \<and>
   resolve_in ps a (ScopedKeyExpr parent k) = verdict (scoped_applies parent k a) R \<and>
   resolve_in ps a (AllExpr es) = all_of (resolve_in ps a ` set es) \<and>
   resolve_in ps a (AnyExpr es) = any_of (resolve_in ps a ` set es)"
  by (simp add: Let_def effective_rules resolve_key_verdict resolve_scoped_verdict resolve_all_eq resolve_any_eq)

section \<open>Keys, contexts and texts\<close>

text \<open>C26: A valid key matches another by its segments: it is the same, or it ends in a wildcard and what comes before
  starts the other, which goes on; it is as specific as it has segments that are not the wildcard; and a key is in the
  scope of another exactly if its segments start with the other's.\<close>

theorem keys_match_by_segments:
  assumes "valid_key p"
  shows "(key_matches p k \<longleftrightarrow> segments_match (key_segments p) (key_segments k)) \<and>
    key_specificity p = length (filter (\<lambda>s. s \<noteq> [STAR]) (key_segments p)) \<and>
    (key_scopes p k \<longleftrightarrow> prefix (key_segments p) (key_segments k))"
  using key_matches_segments [OF assms] key_specificity_segments [OF assms] key_scopes_segments by blast

lemma keys_match_by_segments_witness:
  "key_matches (PermissionKey (str ''minecraft.command.*'')) (PermissionKey (str ''minecraft.command.op''))"
proof -
  have "valid_key (PermissionKey (str ''minecraft.command.*''))"
    by code_simp
  moreover have "segments_match (key_segments (PermissionKey (str ''minecraft.command.*''))) (key_segments (PermissionKey (str ''minecraft.command.op'')))"
    by code_simp
  ultimately show ?thesis
    using keys_match_by_segments by blast
qed

text \<open>C25: A chain of contexts is accepted exactly if its constraints agree with each other; what comes out is the one
  form of it, whatever the order and the nesting, and matches exactly those whom every part matches.\<close>

theorem context_chains_are_canonical:
  assumes "\<forall>c \<in> set cs. flat_ctx c"
  shows "case ctx_all cs of
      Inl _ \<Rightarrow> \<not> consistent (all_atoms cs)
    | Inr c \<Rightarrow> consistent (all_atoms cs) \<and> ctx_canonical c \<and> set (atoms_of c) = reduced (all_atoms cs) \<and>
        (\<forall>ds. (\<forall>d \<in> set ds. flat_ctx d) \<longrightarrow> all_atoms ds = all_atoms cs \<longrightarrow> ctx_all ds = Inr c) \<and>
        (\<forall>a. domain_of_world a \<longrightarrow> ctx_matches c a = (\<forall>x \<in> set cs. ctx_matches x a))"
proof (cases "ctx_all cs")
  case (Inl e)
  then show ?thesis
    using ctx_all_result [OF assms] by simp
next
  case (Inr c)
  note c = ctx_all_result [OF assms, unfolded Inr sum.case]
  have "ctx_all ds = Inr c" if ds: "\<forall>d \<in> set ds. flat_ctx d" "all_atoms ds = all_atoms cs" for ds
  proof (cases "ctx_all ds")
    case (Inl e)
    then show ?thesis
      using ctx_all_result [OF ds(1)] c ds(2) by simp
  next
    case (Inr d)
    then show ?thesis
      using ctx_all_result [OF ds(1)] c ds(2) ctx_canonical_unique [of d c] by simp
  qed
  then show ?thesis
    using Inr c ctx_all_matches [OF assms Inr] by simp
qed

lemma context_chains_are_canonical_witness:
  "let w = \<lparr>id_namespace = str ''lobby'', id_path = str ''nether''\<rparr> in
   case ctx_all [WorldCtx w, DomainCtx (str ''lobby'')] of Inl _ \<Rightarrow> False | Inr c \<Rightarrow> ctx_canonical c \<and> ctx_matches c (for_world w)"
proof -
  define w where "w = \<lparr>id_namespace = str ''lobby'', id_path = str ''nether''\<rparr>"
  let ?cs = "[WorldCtx w, DomainCtx (str ''lobby'')]"
  have flat: "\<forall>c \<in> set ?cs. flat_ctx c"
    by (simp add: flat_ctx_def)
  have ok: "ctx_all ?cs = Inr (WorldCtx w)"
    unfolding w_def by code_simp
  have "\<forall>x \<in> set ?cs. ctx_matches x (for_world w)" "domain_of_world (for_world w)"
    by (simp_all add: w_def for_world_def domain_of_world_def)
  then show ?thesis
    using context_chains_are_canonical [OF flat] unfolding ok by (simp add: w_def [symmetric] Let_def ok)
qed

text \<open>C24: The expressions that can be read are exactly the valid ones, of rules as of metadata, and exactly those are
  read back from the text that is written for them.\<close>

theorem expressions_round_trip:
  "(valid_rule e \<longleftrightarrow> (\<exists>t. rule_parse t = Inr e)) \<and> (valid_rule e \<longleftrightarrow> rule_parse (rule_text e) = Inr e) \<and>
   (valid_metadata m \<longleftrightarrow> (\<exists>t. metadata_parse t = Inr m)) \<and> (valid_metadata m \<longleftrightarrow> metadata_parse (metadata_text m) = Inr m)"
  using rule_parse_valid rule_parse_text metadata_parse_valid metadata_parse_text by blast

text \<open>C27: A metadata value is set exactly if some entry for the key applies in the context, and it is the value of the
  last entry among those of the most specific context, the strongest source and the highest priority.\<close>

theorem last_strongest_metadata:
  "meta_resolve_in k a ms = Some v \<longleftrightarrow>
     (\<exists>i < length (meta_rules ms). meta_applies k a (i, meta_rules ms ! i) \<and> me_value (ms_entries ms ! i) = v \<and>
        (\<forall>j < length (meta_rules ms). meta_applies k a (j, meta_rules ms ! j) \<longrightarrow>
           (meta_strength (meta_rules ms ! j), j) \<le> (meta_strength (meta_rules ms ! i), i)))"
  by (rule meta_resolved)

lemma last_strongest_metadata_witness:
  "let k = \<lparr>id_namespace = str ''chat'', id_path = str ''prefix''\<rparr>; e = (\<lambda>v. \<lparr>me_key = k, me_context = GlobalCtx, me_value = MetaBool v\<rparr>) in
   meta_resolve_in k global_context (meta_from_entries [e False, e True]) = Some (MetaBool True)"
  unfolding Let_def last_strongest_metadata
  by (rule exI [of _ 1])
    (auto simp: meta_rules_def meta_from_entries_def meta_applies_def meta_strength_def less_Suc_eq numeral_2_eq_2)

section \<open>Configurations\<close>

text \<open>C22: The inheritance of a configuration is accepted exactly if every parent has a valid name and is configured and no
  group leads back to itself; and a rejection names something that is wrong: a name, a parent that is missing, or a
  cycle of parents in their order.\<close>

theorem inheritance_check_is_exact:
  assumes "distinct (map fst G)"
  shows "case validate_group_inheritance G of
      Inr _ \<Rightarrow> well_inherited G
    | Inl e \<Rightarrow> \<not> well_inherited G \<and> inheritance_error G e"
  using validate_inheritance_ok [OF assms] validate_inheritance_error [OF assms] by (cases "validate_group_inheritance G") auto

lemma inheritance_check_is_exact_witness:
  "let a = str ''a''; b = str ''b''; G = [(a, default_group_config\<lparr>gc_inherits := [b]\<rparr>), (b, default_group_config\<lparr>gc_inherits := [a]\<rparr>)] in
   inheritance_error G (InheritedGroupCycle [a, b, a])"
proof -
  let ?a = "str ''a''" and ?b = "str ''b''"
  let ?G = "[(?a, default_group_config\<lparr>gc_inherits := [?b]\<rparr>), (?b, default_group_config\<lparr>gc_inherits := [?a]\<rparr>)]"
  have "distinct (map fst ?G)"
    by code_simp
  moreover have "validate_group_inheritance ?G = Inl (InheritedGroupCycle [?a, ?b, ?a])"
    by code_simp
  ultimately show ?thesis
    using inheritance_check_is_exact [of ?G] unfolding Let_def by (simp only: sum.case)
qed



end
