(* ===== verification/Spec2Isabelle.thy ===== *)
theory Spec2Isabelle
  imports TickProps NeighborUpdater BlockEvents PositionProps ChatProps VarCodec SectionProps TicketClaims MenuClaims PoiClaims PermClaims
begin

text \<open>
  A verification library for the core of Foton, a Minecraft server written in Rust.

  \<^bold>\<open>The program.\<close> A world is ticked by \<open>foton-core\<close>: a tick collects the scheduled block and fluid ticks
  that are due and executes them, block updates spread through a collecting neighbour updater, and
  block events queued on the way are dispatched at the end. Players talk through a chain of signed
  messages whose signatures every client caches. A chunk's blocks and biomes live in paletted containers,
  sixteen cells a side to a section, which are written block by block or in batches, sent to clients in
  the network's packed form and saved to region files in another. Which chunks exist, and how far they
  are generated, is decided by tickets: their levels spread over the neighbours, and background epochs
  hand the changes to the chunks at the boundaries of ticks. Players keep items in stacks, stacks in
  containers, and move them by clicks on menus whose slots look into these containers. Villagers look for points of
  interest, the beds, bells and work sites that a world indexes by section while its blocks change. Who may do what is decided by
  permissions: rules on dotted keys, in contexts, given by groups that inherit from each other and to players themselves,
  which the server publishes and online players carry copies of. The crates below these (\<open>foton-utils\<close>)
  provide positions and their packed forms and the integers of the protocol.

  \<^bold>\<open>Theories.\<close>
  \<^item> \<open>Prelude\<close>: Rust's integers (\<open>wrap_i32\<close>, \<open>wrap_i64\<close>), results, lists and maps. \<open>BinaryHeap\<close> and
    \<open>OrderedSet\<close>: the contracts of \<open>std::collections::BinaryHeap\<close> and \<open>BTreeSet\<close> with \<open>Ordering\<close>.
  \<^item> \<open>Positions\<close>, \<open>PositionProps\<close>: \<open>foton-utils/src/types/position.rs\<close>, \<open>packed_position.rs\<close> and
    \<open>direction.rs\<close>. Coordinates are words, so every shift and mask is the source's.
  \<^item> \<open>TickQueue\<close> (\<open>world/tick_scheduler/list.rs\<close>), \<open>TickContainer\<close> (\<open>mod.rs\<close>), \<open>TickScheduler\<close>
    (\<open>scheduler.rs\<close>), \<open>RunBatch\<close> (\<open>run_batch.rs\<close>): the scheduler's data and operations. A chunk's
    container is an address in a store, as the \<open>Arc\<close> that the scheduler and the chunk share.
  \<^item> \<open>TickIndex\<close>, \<open>TickWorld\<close>, \<open>TickReach\<close>: the invariant of the scheduler (the deadline indexes hold
    exactly the heads of the active chunks), that every operation keeps it, and the reachable worlds, with lists of
    chunks as storage gives them, duplicate keys included (\<open>uniq\<close> tells that there were none).
  \<^item> \<open>TickCollect\<close>: the collection of a batch refines a greedy merge of the queues.
  \<^item> \<open>TickPhase\<close>: \<open>tick_scheduler/world.rs\<close>, \<open>chunk_map/scheduled_ticks.rs\<close> and the functions on
    scheduled ticks of \<open>chunk/full_chunk/mod.rs\<close>: collecting, publishing, executing and saving,
    and all states of the loop that executes a batch (\<open>phase_states\<close>).
    \<open>TickProps\<close> states the properties.
  \<^item> \<open>NeighborUpdater\<close> (\<open>world/block_updates/neighbor_updater.rs\<close>) and \<open>BlockEvents\<close>
    (\<open>world/block_event.rs\<close>), each with its properties.
  \<^item> \<open>ChatChain\<close> (\<open>player/chat/message_chain.rs\<close>), \<open>ChatCache\<close> (\<open>signature_cache.rs\<close>), \<open>ChatWindow\<close>
    (\<open>message_validator.rs\<close>, \<open>spam_throttler.rs\<close>), \<open>ProfileKey\<close> (\<open>profile_key.rs\<close>), \<open>ChatState\<close>
    (\<open>player/chat/mod.rs\<close>, the chat part of \<open>world/broadcasts.rs\<close> and \<open>PlayerChatEvent\<close> of
    \<open>event/player.rs\<close>); \<open>ChatLemmas\<close> and \<open>ChatProps\<close> hold their lemmas and properties.
  \<^item> \<open>VarCodec\<close> (\<open>codec/variable_integer.rs\<close>, \<open>front_vec.rs\<close>): the variable-length integers, their sizes
    and the length written in front of a packet, with its properties.
  \<^item> \<open>BitPack\<close> (\<open>chunk_saver/bit_pack.rs\<close> and \<open>pack_bits\<close>), \<open>Paletted\<close> (\<open>chunk/paletted_container.rs\<close>):
    the containers; \<open>PalettedRefine\<close> shows that they implement a flat array, \<open>PalettedNet\<close> that a reader
    of the protocol's format gets the cells back.
  \<^item> \<open>Section\<close>, \<open>Sections\<close> (\<open>chunk/section.rs\<close>): a section and its counters; a chunk's sections, their
    write guards and the index of the ticking ones. \<open>SectionBatch\<close> states the interface of a store of
    cells (\<open>cell_store\<close>), which containers, sections and chunks provide, and proves the batches over it.
  \<^item> \<open>RegionForm\<close> (\<open>chunk_saver/storage/chunk.rs\<close> and \<open>ChunkBuilder\<close> of \<open>storage/mod.rs\<close>): sections in
    region files. \<open>SectionProps\<close> states the properties of all of these.

  \<^item> \<open>Pyramid\<close> (\<open>chunk/status.rs\<close>, \<open>chunk/chunk_pyramid.rs\<close>): the statuses of generation and the tables of
    what each step asks of its neighbours. \<open>TicketLevels\<close>, \<open>TimedTickets\<close> (\<open>chunk/chunk_ticket_manager.rs\<close>):
    levels, tickets, propagation and change lists; the tickets of portals, spawn, pearls and teleports.
    \<open>TicketQueue\<close> (\<open>chunk/chunk_scheduler.rs\<close>): the queue of operations with its revisions, the coordinator.
  \<^item> \<open>TicketPropagate\<close>, \<open>TicketProps\<close>, \<open>TicketReach\<close>: what propagation computes, the manager's invariant
    and the change lists, and that levels and pyramid fit together. \<open>TimedProps\<close>: ticking, saving and
    the accounting of timed tickets. \<open>TicketWorld\<close>: the epochs as a step relation of gameplay, worker and
    boundary (\<open>advance_scheduling\<close> of \<open>chunk_map/mod.rs\<close>), with its invariant. \<open>TicketClaims\<close> states the
    properties.
  \<^item> \<open>Items\<close> (\<open>foton-registry/src/item_stack.rs\<close>, \<open>inventory/container/mod.rs\<close>, the \<open>add\<close> of
    \<open>player/player_inventory/container.rs\<close>), \<open>Menu\<close> (\<open>inventory/click.rs\<close>, the defaults of
    \<open>slots/slot.rs\<close>, \<open>menu/behavior.rs\<close>, \<open>menu/mod.rs\<close>, \<open>menu/layout.rs\<close>): stacks and containers; the parsing
    of clicks, what each click does, and closing a menu. Cells are a list, a slot a view of one.
  \<^item> \<open>MenuStore\<close>: amounts, and the interface \<open>stack_store\<close> (writing a stack to a place changes what is held by just
    that), which containers, slots and the player's inventory provide. \<open>MenuSteps\<close>, \<open>MenuKeeps\<close>,
    \<open>MenuClicks\<close>: how a menu is built (\<open>menu_ok\<close>), the sizes its state keeps (\<open>mw_ok\<close>), and that every operation keeps them and the
    amounts (\<open>keeps\<close>). \<open>MenuFull\<close>: passes that leave something over, counting, dealing out.
    \<open>MenuClaims\<close> has the protocol's table of clicks (\<open>stands_for\<close>) and states the properties.
  \<^item> \<open>Poi\<close> (\<open>poi/poi_instance.rs\<close>, \<open>poi_set.rs\<close>, \<open>poi_storage.rs\<close>): points of interest, their index by position
    and by type, tickets, queries, villages. \<open>PoiSteps\<close>: what every operation does to the map from positions to
    points that a storage stands for, and its invariant (\<open>storage_ok\<close>). \<open>PoiBlocks\<close>: the scan of a
    section, and the worlds that loads, unloads, block changes and tickets reach (\<open>poi_reachable\<close>).
    \<open>PoiQuery\<close>: what queries find, as long as coordinates keep away from the ends of \<open>i32\<close> (within \<open>2 ^ 28\<close>,
    where no difference wraps). \<open>PoiClaims\<close> states the properties.
  \<^item> \<open>PermKey\<close>, \<open>PermContext\<close>, \<open>PermExpr\<close>, \<open>PermSet\<close>, \<open>PermMeta\<close>, \<open>PermGroups\<close>: \<open>permission/key.rs\<close> with
    \<open>types/identifier.rs\<close>, \<open>context.rs\<close>, \<open>rule_expression.rs\<close>, \<open>set.rs\<close> with \<open>expression.rs\<close>, \<open>metadata.rs\<close> and
    \<open>groups.rs\<close>, each with its lemmas: keys as lists of segments, the one form of a chain of contexts, which expressions
    have a text, the strongest rules (\<open>verdict\<close>), the last of the strongest values, the check of inheritance and the
    groups that one inherits. Texts are lists of code points. \<open>PermServer\<close>: \<open>manager.rs\<close>, \<open>subject.rs\<close>,
    \<open>server/permissions.rs\<close>, \<open>player/permissions.rs\<close> and the operator commands; updates by any thread, the refreshes
    that they queue and the reads of the tick thread are the steps of \<open>perm_step\<close>, and \<open>perm_inv\<close> says that a player who
    is not up to date has a refresh coming. \<open>PermCommands\<close>: the keys and requirements of commands
    (\<open>command/registration/mod.rs\<close>), the authority of their sources, and which commands the
    built-in group of command blocks allows. \<open>PermClaims\<close> states the properties.

  \<^bold>\<open>Conventions.\<close> A \<open>struct\<close> is a record, an \<open>enum\<close> a datatype, a panic or error the left value of a sum.
  A \<open>u64\<close> counter is a natural number reduced explicitly, an \<open>i32\<close> or \<open>i64\<close> an integer with its
  wrapping written out; release builds do not check overflow. Locks make every operation atomic; the
  properties that speak of interleavings list the operations as steps.

  \<^bold>\<open>Fuel.\<close> A run of the neighbour updater or of block events may go on for ever, so those functions take
  fuel and \<open>None\<close> is a run that is out of it. \<open>limited_run_terminates\<close> gives an amount that
  suffices when a limit is configured: six steps for every accepted update and one to notice the end; it holds as long as
  the \<open>i32\<close> that counts the requests cannot wrap, so it bounds what one call submits.
  The loop of throwing a stack takes two rounds of fuel, enough because a round empties the slot, and that of a
  shift click is a partial function; \<open>clicks_return\<close> shows that both give a result, outside
  creative mode and for stacks within their sizes. Everything else
  terminates outright.

  \<^bold>\<open>Arguments of the model.\<close> What blocks, fluids and plugins do; whether a signature is valid under a key,
  and the DER codec of keys; the clock; which chunks tick; the registry's facts on items, blocks and biomes,
  whose tables are generated (\<open>registry_ok\<close> states that they are inverse to each other,
  \<open>registry_consistent\<close> that a block's type of point exists); the random generator; what the files of
  permissions answer to being written.

  \<^bold>\<open>Not modelled.\<close> The iterators and floating-point functions of \<open>position.rs\<close>; the concurrency inside a
  lock; the packets' encoding beyond sections and integers; of a saved chunk all but its sections;
  in a commit, what chunk holders do with their new levels, and that those whose revival was put off are told them again;
  that a teleport's ticket is queued after the lock of the timed tickets was released (placing and queueing are one step);
  that a dropped stack comes back to the player when the world or a plugin refuses the drop; of inventories, the slots and menus with rules of
  their own (crafting results, furnaces, trades, bundles), and what is sent to the client; everything else of the
  server: lighting, entities, world generation, the trees and handlers of commands, registries, the region files' layout,
  the remote console, the network, the plugin bridge. These are numeric pipelines over floating point, concurrency around executors
  and codecs outside the repository, generated tables, or game content without a contract to state. Of permissions, the whitelist
  and the queue that orders the updates of plugins.
\<close>

end
